(* ===== verification/Prelude.thy ===== *)
theory Prelude
  imports Main "HOL-Library.Word"
begin

unbundle bit_operations_syntax

text \<open>
  What the components share: the faults that stop the driver, results that carry them, the
  collections of simplification rules the component proofs use, and generic facts on words and
  lists.

  \<^item> \<open>fault\<close> names the ways an operation does not come back to its caller.  \<open>XM_ASSERT\<close>
    (\<^verbatim>\<open>src/inc/scsiboot.h\<close>) and \<open>RS_ASSERT\<close> (\<^verbatim>\<open>src/xenutil/rangeset.c\<close>) are compiled into
    every build and end in a bug check; \<open>BadPointer\<close> is an access through a pointer that does
    not point at an object of the type it is used at; \<open>Deadlock\<close> is the acquisition of a spin lock
    that its caller already holds; \<open>NoReturn\<close> is a loop that has not ended within its fuel.
  \<^item> \<open>NTSTATUS\<close> has the status codes the modelled operations return.
  \<^item> \<open>'a res\<close> is the result of an operation that may bug check; \<open>res_bind\<close> is sequencing.
\<close>

datatype fault = XmAssert | RsAssert | BadPointer | Deadlock | NoReturn

type_synonym 'a res = "fault + 'a"

datatype NTSTATUS =
    STATUS_SUCCESS
  | STATUS_DEVICE_BUSY
  | STATUS_INSUFFICIENT_RESOURCES
  | STATUS_INVALID_PARAMETER
  | STATUS_UNSUCCESSFUL
  | STATUS_NO_MEMORY
  | STATUS_DATA_ERROR
  | STATUS_PENDING
  | STATUS_RETRY
  | STATUS_CANCELLED
  | STATUS_BUFFER_OVERFLOW
  | STATUS_BUFFER_TOO_SMALL
  | STATUS_NOT_IMPLEMENTED
  | STATUS_VIRTUAL_CIRCUIT_CLOSED
  | STATUS_QUOTA_EXCEEDED
  | STATUS_INVALID_HANDLE
  | STATUS_INVALID_DEVICE_REQUEST
  | STATUS_INVALID_DEVICE_STATE
  | STATUS_DEVICE_PROTOCOL_ERROR
  | STATUS_INTERNAL_ERROR
  | STATUS_INTERNAL_DB_CORRUPTION
  | STATUS_ACCESS_DENIED
  | STATUS_OBJECT_NAME_EXISTS
  | STATUS_OBJECT_NAME_NOT_FOUND
  | STATUS_FILE_IS_A_DIRECTORY
  | STATUS_DISK_FULL
  | STATUS_DIRECTORY_NOT_EMPTY
  | STATUS_INVALID_SYSTEM_SERVICE
  | STATUS_CONNECTION_ACTIVE
  | STATUS_DEVICE_NOT_READY

text \<open>The codes that are not negative; \<open>STATUS_OBJECT_NAME_EXISTS\<close> is informational.\<close>

definition NT_SUCCESS :: "NTSTATUS \<Rightarrow> bool" where
  "NT_SUCCESS s \<longleftrightarrow> s \<in> {STATUS_SUCCESS, STATUS_PENDING, STATUS_OBJECT_NAME_EXISTS}"

type_synonym u8 = "8 word"
type_synonym u16 = "16 word"
type_synonym u32 = "32 word"
type_synonym u64 = "64 word"

definition res_bind :: "'a res \<Rightarrow> ('a \<Rightarrow> 'b res) \<Rightarrow> 'b res" where
  "res_bind m f = (case m of Inl e \<Rightarrow> Inl e | Inr x \<Rightarrow> f x)"

definition xm_assert :: "bool \<Rightarrow> 'a res \<Rightarrow> 'a res" where
  "xm_assert b m = (if b then m else Inl XmAssert)"

definition rs_assert :: "bool \<Rightarrow> 'a res \<Rightarrow> 'a res" where
  "rs_assert b m = (if b then m else Inl RsAssert)"

named_theorems res_simps \<open>evaluation of results\<close>
named_theorems word_nat \<open>unsigned words read as natural numbers\<close>

lemma res_bind_simps [simp, res_simps]:
  "res_bind (Inl e) f = Inl e"
  "res_bind (Inr x) f = f x"
  by (simp_all add: res_bind_def)

lemma xm_assert_simps [simp, res_simps]:
  "xm_assert True m = m"
  "xm_assert False m = Inl XmAssert"
  by (simp_all add: xm_assert_def)

lemma rs_assert_simps [simp, res_simps]:
  "rs_assert True m = m"
  "rs_assert False m = Inl RsAssert"
  by (simp_all add: rs_assert_def)

text \<open>For recursive definitions: what is known of the arguments of a recursive call.\<close>

lemma res_bind_cong [fundef_cong]:
  "m = m' \<Longrightarrow> (\<And>x. m' = Inr x \<Longrightarrow> f x = g x) \<Longrightarrow> res_bind m f = res_bind m' g"
  by (cases m') simp_all

lemma xm_assert_cong [fundef_cong]: "b = c \<Longrightarrow> (c \<Longrightarrow> m = m') \<Longrightarrow> xm_assert b m = xm_assert c m'"
  by (simp add: xm_assert_def)

lemma res_bind_Inr_iff: "res_bind m f = Inr y \<longleftrightarrow> (\<exists>x. m = Inr x \<and> f x = Inr y)"
  by (cases m) simp_all

lemma xm_assert_Inr_iff: "xm_assert b m = Inr y \<longleftrightarrow> b \<and> m = Inr y"
  by (simp add: xm_assert_def)

section \<open>Words read as natural numbers\<close>

lemma unat_bound: "unat (x :: 'w::len word) < 2 ^ LENGTH('w)"
  by (rule unsigned_less)

lemma not_unat_ge [simp]:
  "\<not> 2 ^ LENGTH('w) \<le> unat (x :: 'w::len word)"
  "\<not> 2 ^ LENGTH('w) < unat (x :: 'w::len word)"
  using unat_bound [of x] by linarith+

lemma unat_succ [word_nat]:
  "unat ((x :: 'w::len word) + 1) = (if unat x + 1 = 2 ^ LENGTH('w) then 0 else unat x + 1)"
proof -
  have "unat (x + 1) = (unat x + 1) mod 2 ^ LENGTH('w)"
    by (simp add: unat_word_ariths)
  moreover have "unat x + 1 \<le> 2 ^ LENGTH('w)"
    using unat_bound [of x] by (simp only: Suc_leI Suc_eq_plus1 [symmetric])
  ultimately show ?thesis
    by (cases "unat x + 1 = 2 ^ LENGTH('w)") simp_all
qed

lemma unat_pred [word_nat]:
  "(x :: 'w::len word) \<noteq> 0 \<Longrightarrow> unat (x - 1) = unat x - 1"
  by (rule unat_minus_one)

lemma succ_eq_0_iff: "(x :: 'w::len word) + 1 = 0 \<longleftrightarrow> unat x + 1 = 2 ^ LENGTH('w)"
  by (metis add_eq_0_iff_both_eq_0 unat_eq_zero unat_succ zero_neq_one)

lemma word_eq_unat [word_nat]: "(x = y) = (unat x = unat (y :: 'w::len word))"
  by (auto simp: word_unat_eq_iff)

lemma unat_of_nat_lt: "k < 2 ^ LENGTH('w::len) \<Longrightarrow> unat (of_nat k :: 'w word) = k"
  by (simp add: unat_of_nat)

lemma unat_ucast_mod: "unat (ucast (x :: 'v::len word) :: 'w::len word) = unat x mod 2 ^ LENGTH('w)"
  by (simp add: unsigned_ucast_eq take_bit_eq_mod)

lemma unat_and_mask: "unat ((x :: 'w::len word) AND mask k) = unat x mod 2 ^ k"
  by (simp only: take_bit_eq_mask [symmetric] unsigned_take_bit_eq take_bit_nat_def)

lemma unat_and_3: "unat ((x :: 'w::len word) AND 3) = unat x mod 4"
  using unat_and_mask [of x 2] by (simp add: mask_eq_exp_minus_1)

lemma unat_and_not_mask: "unat ((x :: 'w::len word) AND NOT (mask k)) = unat x - unat x mod 2 ^ k"
proof -
  have "x AND NOT (mask k) = x AND NOT (x AND mask k)"
    by (rule bit_word_eqI) (auto simp: bit_simps)
  also have "\<dots> = x - (x AND mask k)"
    by (rule disjunctive_diff_eq_and_not [symmetric]) (rule bit_word_eqI, auto simp: bit_simps)
  finally show ?thesis
    by (simp add: unat_sub_if' unat_and_mask)
qed

lemma unat_take_bit: "unat (take_bit k (x :: 'w::len word)) = unat x mod 2 ^ k"
  by (simp only: unsigned_take_bit_eq take_bit_nat_def)

lemma unat_add_mod_pow:
  fixes x y :: "'w::len word"
  assumes "k \<le> LENGTH('w)"
  shows "unat (x + y) mod 2 ^ k = (unat x + unat y) mod 2 ^ k"
proof -
  have "(2 :: nat) ^ k dvd 2 ^ LENGTH('w)" using assms by (rule le_imp_power_dvd)
  then show ?thesis by (simp only: unat_word_ariths mod_mod_cancel)
qed

lemma take_bit_word_add:
  fixes a b :: "'w::len word"
  assumes "k \<le> LENGTH('w)"
  shows "take_bit k (take_bit k a + take_bit k b) = take_bit k (a + b)"
  by (simp only: word_eq_unat unat_take_bit unat_add_mod_pow [OF assms] mod_add_eq)

lemma unat_drop_bit: "unat (drop_bit k (x :: 'w::len word)) = unat x div 2 ^ k"
  by (simp only: unat_drop_bit_eq drop_bit_nat_def)

section \<open>Lists with a position\<close>

lemma find_filter: "find P xs = (case filter P xs of [] \<Rightarrow> None | x # _ \<Rightarrow> Some x)"
  by (induction xs) simp_all

lemma nth_take_drop_split:
  assumes "0 < p" and "p \<le> length xs"
  shows "xs = take (p - 1) xs @ xs ! (p - 1) # drop p xs"
  using assms id_take_nth_drop [of "p - 1" xs] by simp

end
