(* ===== verification/RangeSet.thy ===== *)
theory RangeSet
  imports Prelude
begin

text \<open>
  Sets of integers as ordered lists of ranges: \<^verbatim>\<open>src/xenutil/rangeset.c\<close>.

  The C list is circular and doubly linked, with the list head \<^verbatim>\<open>Entries\<close> as its dummy element.
  Here \<open>Entries\<close> is the list of the real entries and a \<^verbatim>\<open>PLIST_ENTRY\<close> into it is a position:
  \<open>0\<close> is the dummy \<^verbatim>\<open>&rs->Entries\<close>, \<open>p\<close> with \<open>0 < p\<close> the \<open>p\<close>-th entry; \<open>Flink\<close> and \<open>Blink\<close>
  walk around the circle.  Positions behind an inserted or removed entry are renumbered, which
  is why \<open>release_rse\<close> and \<open>InsertHeadList\<close> also adjust \<open>RseCursor\<close>.  The index type
  \<^verbatim>\<open>range_set_index_t\<close> is \<open>'w word\<close> for every width \<open>'w\<close> (the balloon driver sets it to
  \<^verbatim>\<open>PFN_NUMBER\<close>).  Whether the pool satisfies an allocation is an argument of the operations.
\<close>

section \<open>Data\<close>

text \<open>The parameter is the index type; the operations take a word of any width for it.\<close>

record 'i range_set_entry =
  Start :: 'i
  End1 :: 'i

record 'i range_set =
  Entries :: "'i range_set_entry list"
  RseCursor :: nat
  RseCache :: "'i range_set_entry list"
  NrRSEs :: u32
  NrItems :: 'i
  NrRSEsCached :: u32

definition Flink :: "('w::len) word range_set \<Rightarrow> nat \<Rightarrow> nat" where
  "Flink rs p = (if p < length (Entries rs) then p + 1 else 0)"

definition Blink :: "('w::len) word range_set \<Rightarrow> nat \<Rightarrow> nat" where
  "Blink rs p = (if p = 0 then length (Entries rs) else p - 1)"

definition RSE :: "('w::len) word range_set \<Rightarrow> nat \<Rightarrow> 'w word range_set_entry" where
  "RSE rs p = Entries rs ! (p - 1)"

definition set_RSE :: "('w::len) word range_set \<Rightarrow> nat \<Rightarrow> 'w word range_set_entry \<Rightarrow> 'w word range_set" where
  "set_RSE rs p e = rs\<lparr>Entries := (Entries rs)[p - 1 := e]\<rparr>"

definition InsertHeadList :: "('w::len) word range_set \<Rightarrow> nat \<Rightarrow> 'w word range_set_entry \<Rightarrow> 'w word range_set" where
  "InsertHeadList rs p e =
     rs\<lparr>Entries := take p (Entries rs) @ e # drop p (Entries rs),
        RseCursor := (if p < RseCursor rs then RseCursor rs + 1 else RseCursor rs)\<rparr>"

section \<open>Allocation and release of entries\<close>

definition release_rse :: "('w::len) word range_set \<Rightarrow> nat \<Rightarrow> 'w word range_set" where
  "release_rse rs p =
     (let c = (if RseCursor rs = p then Flink rs p else RseCursor rs)
      in rs\<lparr>Entries := take (p - 1) (Entries rs) @ drop p (Entries rs),
            RseCursor := (if p < c then c - 1 else c),
            RseCache := RseCache rs @ [RSE rs p],
            NrRSEs := NrRSEs rs - 1,
            NrRSEsCached := NrRSEsCached rs + 1\<rparr>)"

definition allocate_rse ::
  "bool \<Rightarrow> ('w::len) word range_set \<Rightarrow> 'w word range_set_entry option \<times> 'w word range_set" where
  "allocate_rse alloc_ok rs =
     (case RseCache rs of
        [] \<Rightarrow> (if alloc_ok then Some \<lparr>Start = 0, End1 = 0\<rparr> else None,
               rs\<lparr>NrRSEs := NrRSEs rs + 1\<rparr>)
      | rse # cache \<Rightarrow>
          (Some rse, rs\<lparr>RseCache := cache, NrRSEsCached := NrRSEsCached rs - 1,
                        NrRSEs := NrRSEs rs + 1\<rparr>))"

definition singleton_rse ::
  "bool \<Rightarrow> ('w::len) word range_set \<Rightarrow> 'w word \<Rightarrow> 'w word range_set_entry option \<times> 'w word range_set" where
  "singleton_rse alloc_ok rs idx =
     (case allocate_rse alloc_ok rs of
        (None, rs') \<Rightarrow> (None, rs')
      | (Some rse, rs') \<Rightarrow> (Some (rse\<lparr>Start := idx, End1 := idx + 1\<rparr>), rs'))"

definition merge_forwards :: "('w::len) word range_set \<Rightarrow> nat \<Rightarrow> 'w word range_set" where
  "merge_forwards rs p =
     (if p = 0 \<or> Flink rs p = 0 then rs
      else let next = Flink rs p
           in if End1 (RSE rs p) = Start (RSE rs next)
              then release_rse (set_RSE rs p ((RSE rs p)\<lparr>End1 := End1 (RSE rs next)\<rparr>)) next
              else rs)"

section \<open>Adding\<close>

text \<open>The two walks of \<^verbatim>\<open>RangeSetAdd\<close>: backwards while \<open>Start > idx\<close>, forwards while
  \<open>Start < idx\<close>; both stop at the dummy.\<close>

function walk_Blink :: "('w::len) word range_set \<Rightarrow> 'w word \<Rightarrow> nat \<Rightarrow> nat" where
  "walk_Blink rs idx 0 = 0"
| "walk_Blink rs idx (Suc p) =
     (if Start (RSE rs (Suc p)) > idx then walk_Blink rs idx (Blink rs (Suc p)) else Suc p)"
  by pat_completeness auto
termination
  by (relation "measure (\<lambda>(rs, idx, p). p)") (auto simp: Blink_def)

function walk_Flink :: "('w::len) word range_set \<Rightarrow> 'w word \<Rightarrow> nat \<Rightarrow> nat" where
  "walk_Flink rs idx p =
     (if p \<noteq> 0 \<and> Start (RSE rs p) < idx then walk_Flink rs idx (Flink rs p) else p)"
  by pat_completeness auto
termination
  by (relation "measure (\<lambda>(rs, idx, p). if p = 0 then 0 else Suc (length (Entries rs) - p))")
    (auto simp: Flink_def)

declare walk_Flink.simps [simp del]

definition RangeSetAdd_find :: "('w::len) word range_set \<Rightarrow> nat \<Rightarrow> 'w word \<Rightarrow> nat res" where
  "RangeSetAdd_find rs cursor idx =
     rs_assert (Start (RSE rs cursor) > idx \<or> End1 (RSE rs cursor) \<le> idx)
      (if Start (RSE rs cursor) > idx
       then Inr (walk_Blink rs idx cursor)
       else xm_assert (Start (RSE rs cursor) < idx)
             (let cursor = Blink rs (walk_Flink rs idx cursor)
              in rs_assert (cursor \<noteq> 0) (Inr cursor)))"

definition RangeSetAdd_insert_new ::
  "bool \<Rightarrow> ('w::len) word range_set \<Rightarrow> nat \<Rightarrow> 'w word \<Rightarrow> bool \<times> 'w word range_set" where
  "RangeSetAdd_insert_new alloc_ok rs cursor idx =
     (case singleton_rse alloc_ok rs idx of
        (None, rs') \<Rightarrow> (False, rs')
      | (Some rse, rs') \<Rightarrow>
          let rs'' = (InsertHeadList rs' cursor rse)\<lparr>RseCursor := cursor + 1\<rparr>
          in (True, rs''\<lparr>NrItems := NrItems rs'' + 1\<rparr>))"

definition RangeSetAdd_place ::
  "bool \<Rightarrow> ('w::len) word range_set \<Rightarrow> nat \<Rightarrow> 'w word \<Rightarrow> (bool \<times> 'w word range_set) res" where
  "RangeSetAdd_place alloc_ok rs cursor idx =
     (let next = Flink rs cursor in
      xm_assert (cursor \<noteq> 0 \<longrightarrow> End1 (RSE rs cursor) \<le> idx)
      (xm_assert (next \<noteq> 0 \<longrightarrow> Start (RSE rs next) > idx)
       (Inr
        (if cursor \<noteq> 0 \<and> End1 (RSE rs cursor) = idx then
           let rs' = merge_forwards
                       (set_RSE rs cursor ((RSE rs cursor)\<lparr>End1 := End1 (RSE rs cursor) + 1\<rparr>)) cursor
           in (True, rs'\<lparr>NrItems := NrItems rs' + 1\<rparr>)
         else if next \<noteq> 0 \<and> Start (RSE rs next) = idx + 1 \<and> Start (RSE rs next) \<noteq> 0 then
           let rs' = merge_forwards
                       (set_RSE rs next ((RSE rs next)\<lparr>Start := Start (RSE rs next) - 1\<rparr>)) cursor
           in (True, rs'\<lparr>NrItems := NrItems rs' + 1\<rparr>)
         else RangeSetAdd_insert_new alloc_ok rs cursor idx))))"

definition RangeSetAdd ::
  "bool \<Rightarrow> ('w::len) word range_set \<Rightarrow> 'w word \<Rightarrow> (bool \<times> 'w word range_set) res" where
  "RangeSetAdd alloc_ok rs idx =
     (let cursor = (if RseCursor rs = 0 then Flink rs 0 else RseCursor rs)
      in if cursor = 0 then Inr (RangeSetAdd_insert_new alloc_ok rs cursor idx)
         else res_bind (RangeSetAdd_find rs cursor idx)
               (\<lambda>cursor. RangeSetAdd_place alloc_ok (rs\<lparr>RseCursor := cursor\<rparr>) cursor idx))"

definition RangeSetAddRange ::
  "bool \<Rightarrow> ('w::len) word range_set \<Rightarrow> 'w word \<Rightarrow> 'w word \<Rightarrow> (bool \<times> 'w word range_set) res" where
  "RangeSetAddRange alloc_ok rs start end1 =
     res_bind (RangeSetAdd alloc_ok rs start)
      (\<lambda>(ok, rs1).
        if \<not> ok then Inr (False, rs1)
        else if start = end1 then Inr (True, rs1)
        else if RseCursor rs1 = 0 then Inl BadPointer
        else let p = RseCursor rs1
             in rs_assert (start = End1 (RSE rs1 p) - 1)
                 (let rs2 = merge_forwards (set_RSE rs1 p ((RSE rs1 p)\<lparr>End1 := end1 + 1\<rparr>)) p
                  in Inr (True, rs2\<lparr>NrItems := NrItems rs2 + (end1 - start)\<rparr>)))"

text \<open>\<open>alloc x\<close> is the allocator's answer while item \<open>x\<close> is added.\<close>

fun RangeSetAddItems_from ::
  "(nat \<Rightarrow> bool) \<Rightarrow> nat \<Rightarrow> ('w::len) word range_set \<Rightarrow> 'w word list \<Rightarrow> (nat \<times> 'w word range_set) res" where
  "RangeSetAddItems_from alloc x rs [] = Inr (x, rs)"
| "RangeSetAddItems_from alloc x rs (i # is) =
     res_bind (RangeSetAdd (alloc x) rs i)
      (\<lambda>(ok, rs'). if \<not> ok then Inr (x, rs') else RangeSetAddItems_from alloc (Suc x) rs' is)"

definition RangeSetAddItems ::
  "(nat \<Rightarrow> bool) \<Rightarrow> ('w::len) word range_set \<Rightarrow> 'w word list \<Rightarrow> (nat \<times> 'w word range_set) res" where
  "RangeSetAddItems alloc rs items = RangeSetAddItems_from alloc 0 rs items"

section \<open>Removing\<close>

text \<open>
  The search of \<^verbatim>\<open>RangeSetRemoveRange\<close> moves in both directions and need not stop, so its value
  is an option: \<open>None\<close> is a search that never ends.  At the dummy the loop condition reads the
  list head as an entry before the assertion in the body can look at the cursor.
\<close>

partial_function (option) RangeSetRemove_find ::
  "('w::len) word range_set \<Rightarrow> 'w word \<Rightarrow> nat \<Rightarrow> nat res option" where
  "RangeSetRemove_find rs start cursor =
     (if cursor = 0 then Some (Inl BadPointer)
      else if Start (RSE rs cursor) > start then RangeSetRemove_find rs start (Blink rs cursor)
      else if End1 (RSE rs cursor) \<le> start then RangeSetRemove_find rs start (Flink rs cursor)
      else Some (Inr cursor))"

definition release_if_empty :: "('w::len) word range_set \<Rightarrow> nat \<Rightarrow> 'w word range_set" where
  "release_if_empty rs p = (if Start (RSE rs p) = End1 (RSE rs p) then release_rse rs p else rs)"

definition RangeSetRemove_at ::
  "bool \<Rightarrow> ('w::len) word range_set \<Rightarrow> nat \<Rightarrow> 'w word \<Rightarrow> 'w word \<Rightarrow> bool \<times> 'w word range_set" where
  "RangeSetRemove_at alloc_ok rs cursor start end1 =
     (let finish = (\<lambda>rs'. (True, rs'\<lparr>NrItems := NrItems rs' - (end1 - start + 1)\<rparr>))
      in if Start (RSE rs cursor) = start then
           finish (release_if_empty (set_RSE rs cursor ((RSE rs cursor)\<lparr>Start := end1 + 1\<rparr>)) cursor)
         else if End1 (RSE rs cursor) = end1 + 1 then
           finish (release_if_empty (set_RSE rs cursor ((RSE rs cursor)\<lparr>End1 := start - 1\<rparr>)) cursor)
         else
           case allocate_rse alloc_ok rs of
             (None, rs') \<Rightarrow> (False, rs')
           | (Some new_rse, rs') \<Rightarrow>
               finish (InsertHeadList
                        (set_RSE rs' cursor ((RSE rs' cursor)\<lparr>End1 := start - 1\<rparr>)) cursor
                        (new_rse\<lparr>Start := end1 + 1, End1 := End1 (RSE rs' cursor)\<rparr>)))"

definition RangeSetRemoveRange ::
  "bool \<Rightarrow> ('w::len) word range_set \<Rightarrow> 'w word \<Rightarrow> 'w word \<Rightarrow> (bool \<times> 'w word range_set) res option" where
  "RangeSetRemoveRange alloc_ok rs start end1 =
     (let cursor = (if RseCursor rs = 0 then Flink rs 0 else RseCursor rs)
      in if cursor = 0 then Some (Inl XmAssert)
         else case RangeSetRemove_find rs start cursor of
                None \<Rightarrow> None
              | Some r \<Rightarrow>
                  Some (res_bind r (\<lambda>cursor.
                    xm_assert (Start (RSE rs cursor) \<le> start)
                     (xm_assert (End1 (RSE rs cursor) = 0 \<or> End1 (RSE rs cursor) > start)
                       (Inr (RangeSetRemove_at alloc_ok rs cursor start end1))))))"

definition RangeSetRemove ::
  "bool \<Rightarrow> ('w::len) word range_set \<Rightarrow> 'w word \<Rightarrow> (bool \<times> 'w word range_set) res option" where
  "RangeSetRemove alloc_ok rs idx = RangeSetRemoveRange alloc_ok rs idx idx"

fun RangeSetRemoveItems_from ::
  "(nat \<Rightarrow> bool) \<Rightarrow> nat \<Rightarrow> ('w::len) word range_set \<Rightarrow> 'w word list \<Rightarrow> (nat \<times> 'w word range_set) res option"
where
  "RangeSetRemoveItems_from alloc x rs [] = Some (Inr (x, rs))"
| "RangeSetRemoveItems_from alloc x rs (i # is) =
     (case RangeSetRemove (alloc x) rs i of
        None \<Rightarrow> None
      | Some (Inl e) \<Rightarrow> Some (Inl e)
      | Some (Inr (ok, rs')) \<Rightarrow>
          if \<not> ok then Some (Inr (x, rs')) else RangeSetRemoveItems_from alloc (Suc x) rs' is)"

definition RangeSetRemoveItems ::
  "(nat \<Rightarrow> bool) \<Rightarrow> ('w::len) word range_set \<Rightarrow> 'w word list \<Rightarrow> (nat \<times> 'w word range_set) res option" where
  "RangeSetRemoveItems alloc rs items = RangeSetRemoveItems_from alloc 0 rs items"

definition RangeSetPopOne :: "('w::len) word range_set \<Rightarrow> ('w word \<times> 'w word range_set) res" where
  "RangeSetPopOne rs =
     rs_assert (Entries rs \<noteq> [])
      (let h = Flink rs 0;
           result = Start (RSE rs h);
           rs' = release_if_empty (set_RSE rs h ((RSE rs h)\<lparr>Start := Start (RSE rs h) + 1\<rparr>)) h
       in Inr (result, rs'\<lparr>NrItems := NrItems rs' - 1\<rparr>))"

fun RangeSetPopMany :: "('w::len) word range_set \<Rightarrow> nat \<Rightarrow> ('w word list \<times> 'w word range_set) res" where
  "RangeSetPopMany rs 0 = Inr ([], rs)"
| "RangeSetPopMany rs (Suc n) =
     res_bind (RangeSetPopOne rs)
      (\<lambda>(x, rs'). res_bind (RangeSetPopMany rs' n) (\<lambda>(out, rs''). Inr (x # out, rs'')))"

text \<open>
  One pass of the loop of \<^verbatim>\<open>RangeSetPopAlignedBlock\<close> at position \<open>p\<close>: \<open>None\<close> is \<^verbatim>\<open>continue\<close>, with
  the state a failed allocation leaves behind; \<open>alloc p\<close> is the allocator's answer there.
\<close>

definition PopAligned_body ::
  "bool \<Rightarrow> ('w::len) word range_set \<Rightarrow> nat \<Rightarrow> 'w word \<Rightarrow> 'w word \<Rightarrow> 'w word option \<times> 'w word range_set" where
  "PopAligned_body alloc_ok rs p alignment sz =
     (let rse = RSE rs p;
          finish = (\<lambda>x rs'. (Some x, rs'\<lparr>NrItems := NrItems rs' - sz\<rparr>));
          aligned_start = Start rse + alignment - (Start rse mod alignment)
      in if End1 rse - Start rse < sz then (None, rs)
         else if Start rse mod alignment = 0 then
           finish (Start rse)
             (release_if_empty (set_RSE rs p (rse\<lparr>Start := Start rse + sz\<rparr>)) p)
         else if (End1 rse - sz) mod alignment = 0 then
           finish (End1 rse - sz)
             (release_if_empty (set_RSE rs p (rse\<lparr>End1 := End1 rse - sz\<rparr>)) p)
         else if End1 rse - aligned_start < sz then (None, rs)
         else case allocate_rse alloc_ok rs of
                (None, rs') \<Rightarrow> (None, rs')
              | (Some new_rse, rs') \<Rightarrow>
                  finish aligned_start
                    (InsertHeadList (set_RSE rs' p (rse\<lparr>End1 := aligned_start\<rparr>)) p
                      (new_rse\<lparr>End1 := End1 rse, Start := aligned_start + sz\<rparr>)))"

fun PopAligned_walk ::
  "(nat \<Rightarrow> bool) \<Rightarrow> nat \<Rightarrow> nat \<Rightarrow> ('w::len) word range_set \<Rightarrow> 'w word \<Rightarrow> 'w word \<Rightarrow>
   'w word option \<times> 'w word range_set" where
  "PopAligned_walk alloc 0 p rs alignment sz = (None, rs)"
| "PopAligned_walk alloc (Suc n) p rs alignment sz =
     (case PopAligned_body (alloc p) rs p alignment sz of
        (Some x, rs') \<Rightarrow> (Some x, rs')
      | (None, rs') \<Rightarrow> PopAligned_walk alloc n (Suc p) rs' alignment sz)"

definition RangeSetPopAlignedBlock ::
  "(nat \<Rightarrow> bool) \<Rightarrow> ('w::len) word range_set \<Rightarrow> 'w word \<Rightarrow> 'w word \<Rightarrow>
   ('w word option \<times> 'w word range_set) res" where
  "RangeSetPopAlignedBlock alloc rs alignment sz =
     xm_assert (sz \<noteq> 0)
      (xm_assert (alignment \<noteq> 0)
        (Inr (PopAligned_walk alloc (length (Entries rs)) 1 rs alignment sz)))"

section \<open>Initialisation, size, cache\<close>

text \<open>\<^verbatim>\<open>RangeSetInit\<close> sets the two list heads and the cursor; the counters keep what the memory
  held (the driver's range sets are statically allocated, hence zero).\<close>

definition RangeSetInit :: "('w::len) word range_set \<Rightarrow> 'w word range_set" where
  "RangeSetInit rs = rs\<lparr>Entries := [], RseCache := [], RseCursor := 0\<rparr>"

definition RangeSetItems :: "('w::len) word range_set \<Rightarrow> 'w word" where
  "RangeSetItems rs = NrItems rs"

definition RangeSetDropRseCache :: "('w::len) word range_set \<Rightarrow> 'w word range_set" where
  "RangeSetDropRseCache rs = rs\<lparr>RseCache := [], NrRSEsCached := 0\<rparr>"

section \<open>The set a range set stands for\<close>

definition rse_set :: "('w::len) word range_set_entry \<Rightarrow> 'w word set" where
  "rse_set e = {x. Start e \<le> x \<and> (End1 e \<noteq> 0 \<longrightarrow> x < End1 e)}"

definition rs_set :: "('w::len) word range_set \<Rightarrow> 'w word set" where
  "rs_set rs = (\<Union>e \<in> set (Entries rs). rse_set e)"

definition rse_nonempty :: "('w::len) word range_set_entry \<Rightarrow> bool" where
  "rse_nonempty e \<longleftrightarrow> (End1 e \<noteq> 0 \<longrightarrow> End1 e > Start e)"

fun ascending :: "('w::len) word range_set_entry list \<Rightarrow> bool" where
  "ascending [] = True"
| "ascending [e] = True"
| "ascending (e # f # es) = (End1 e \<noteq> 0 \<and> End1 e < Start f \<and> ascending (f # es))"

definition rs_inv :: "('w::len) word range_set \<Rightarrow> bool" where
  "rs_inv rs \<longleftrightarrow>
     list_all rse_nonempty (Entries rs) \<and> ascending (Entries rs) \<and>
     RseCursor rs \<le> length (Entries rs)"

definition rs_count :: "('w::len) word range_set \<Rightarrow> bool" where
  "rs_count rs \<longleftrightarrow> NrItems rs = (\<Sum>e \<leftarrow> Entries rs. End1 e - Start e)"

section \<open>Ranges as intervals of natural numbers\<close>

text \<open>
  The wrap-around of \<open>End1\<close> at the top of the index type makes word comparisons awkward; all proofs
  below read an entry as the interval from \<open>rlo\<close> (inclusive) to \<open>rhi\<close> (exclusive).
\<close>

definition rlo :: "('w::len) word range_set_entry \<Rightarrow> nat" where
  "rlo e = unat (Start e)"

definition rhi :: "('w::len) word range_set_entry \<Rightarrow> nat" where
  "rhi e = (if End1 e = 0 then 2 ^ LENGTH('w) else unat (End1 e))"

definition es_set :: "('w::len) word range_set_entry list \<Rightarrow> 'w word set" where
  "es_set es = (\<Union>e \<in> set es. rse_set e)"

definition good :: "('w::len) word range_set_entry list \<Rightarrow> bool" where
  "good es \<longleftrightarrow> (\<forall>e \<in> set es. rlo e < rhi e) \<and> sorted_wrt (\<lambda>a b. rhi a < rlo b) es"

lemma rlo_less [simp]: "rlo (e :: 'w word range_set_entry) < 2 ^ LENGTH('w::len)"
  by (simp add: rlo_def)

lemma rhi_le [simp]: "rhi (e :: 'w word range_set_entry) \<le> 2 ^ LENGTH('w::len)"
  by (simp add: rhi_def order.strict_implies_order)

lemma in_rse_set: "x \<in> rse_set e \<longleftrightarrow> rlo e \<le> unat x \<and> unat x < rhi e"
  by (auto simp: rse_set_def rlo_def rhi_def word_le_nat_alt word_less_nat_alt)

lemma rse_nonempty_iff: "rse_nonempty e \<longleftrightarrow> rlo e < rhi e"
  by (auto simp: rse_nonempty_def rlo_def rhi_def word_less_nat_alt)

lemma before_iff: "End1 e \<noteq> 0 \<and> End1 e < Start f \<longleftrightarrow> rhi e < rlo f"
  by (auto simp: rhi_def rlo_def word_less_nat_alt)

lemma good_Nil [simp]: "good []"
  by (simp add: good_def)

lemma good_Cons: "good (e # es) \<longleftrightarrow> rlo e < rhi e \<and> (\<forall>f \<in> set es. rhi e < rlo f) \<and> good es"
  by (auto simp: good_def)

lemma good_append:
  "good (xs @ ys) \<longleftrightarrow> good xs \<and> good ys \<and> (\<forall>a \<in> set xs. \<forall>b \<in> set ys. rhi a < rlo b)"
  by (auto simp: good_def sorted_wrt_append)

lemmas good_simps = good_Cons good_append ball_Un

text \<open>The source's lemma \<open>RS.ascending2\<close>: order of neighbours gives order of any two entries.\<close>

lemma ascending_good: "list_all rse_nonempty es \<and> ascending es \<longleftrightarrow> good es"
proof (induction es rule: ascending.induct)
  case (3 e f es)
  have "good (e # f # es) \<longleftrightarrow> rlo e < rhi e \<and> rhi e < rlo f \<and> good (f # es)"
    unfolding good_Cons [of e] by (auto simp: good_Cons [of f] dest: bspec)
  with 3 show ?case
    by (auto simp: rse_nonempty_iff before_iff simp flip: conj_assoc)
qed (simp_all add: rse_nonempty_iff good_Cons)

lemma rs_inv_good: "rs_inv rs \<longleftrightarrow> good (Entries rs) \<and> RseCursor rs \<le> length (Entries rs)"
  by (auto simp: rs_inv_def simp flip: ascending_good)

lemma rs_set_es_set: "rs_set rs = es_set (Entries rs)"
  by (simp add: rs_set_def es_set_def)

lemma es_set_simps [simp]:
  "es_set [] = {}"
  "es_set (e # es) = rse_set e \<union> es_set es"
  "es_set (xs @ ys) = es_set xs \<union> es_set ys"
  by (auto simp: es_set_def)

lemma good_rlo_mono: "good es \<Longrightarrow> i < j \<Longrightarrow> j < length es \<Longrightarrow> rlo (es ! i) < rlo (es ! j)"
  by (metis good_def less_trans nth_mem sorted_wrt_nth_less)

lemma rhi_le_if_notin: "x \<notin> rse_set e \<Longrightarrow> Start e \<le> x \<Longrightarrow> rhi e \<le> unat x"
  by (auto simp: in_rse_set rlo_def word_le_nat_alt)

lemma es_set_nth: "i < length es \<Longrightarrow> rse_set (es ! i) \<subseteq> es_set es"
  using nth_mem by (fastforce simp: es_set_def)

section \<open>The search of \<^verbatim>\<open>RangeSetAdd\<close>\<close>

text \<open>\<open>cut es idx c\<close>: the first \<open>c\<close> entries start at or below \<open>idx\<close>, the others above it.\<close>

definition cut :: "('w::len) word range_set_entry list \<Rightarrow> 'w word \<Rightarrow> nat \<Rightarrow> bool" where
  "cut es idx c \<longleftrightarrow> c \<le> length es \<and>
     (\<forall>i < length es. (i < c \<longrightarrow> Start (es ! i) \<le> idx) \<and> (c \<le> i \<longrightarrow> idx < Start (es ! i)))"

lemma good_Start_mono:
  "good es \<Longrightarrow> i \<le> j \<Longrightarrow> j < length es \<Longrightarrow> Start (es ! i) \<le> Start (es ! j)"
  using good_rlo_mono [of es i j] by (cases "i = j") (auto simp: rlo_def word_le_nat_alt)

lemma walk_Blink_spec:
  "p \<le> length (Entries rs) \<Longrightarrow>
   \<forall>i. p \<le> i \<and> i < length (Entries rs) \<longrightarrow> idx < Start (Entries rs ! i) \<Longrightarrow>
   walk_Blink rs idx p \<le> length (Entries rs) \<and>
   (\<forall>i. walk_Blink rs idx p \<le> i \<and> i < length (Entries rs) \<longrightarrow> idx < Start (Entries rs ! i)) \<and>
   (walk_Blink rs idx p \<noteq> 0 \<longrightarrow> Start (Entries rs ! (walk_Blink rs idx p - 1)) \<le> idx)"
proof (induction rs idx p rule: walk_Blink.induct)
  case (2 rs idx p)
  show ?case
  proof (cases "Start (RSE rs (Suc p)) > idx")
    case True
    moreover have "\<forall>i. p \<le> i \<and> i < length (Entries rs) \<longrightarrow> idx < Start (Entries rs ! i)"
      using 2(3) True by (metis RSE_def diff_Suc_1 le_antisym not_less_eq_eq)
    ultimately show ?thesis
      using 2(1,2) by (simp add: Blink_def)
  next
    case False
    with 2(2,3) show ?thesis by (auto simp: RSE_def not_less)
  qed
qed simp

lemma walk_Blink_cut:
  assumes "good (Entries rs)" and "p \<noteq> 0" and "p \<le> length (Entries rs)"
    and "Start (RSE rs p) > idx"
  shows "cut (Entries rs) idx (walk_Blink rs idx p)"
proof -
  let ?es = "Entries rs" and ?q = "walk_Blink rs idx p"
  have "idx < Start (?es ! i)" if "p \<le> i" "i < length ?es" for i
    using that assms(4) good_Start_mono [OF assms(1), of "p - 1" i] by (auto simp: RSE_def intro: less_le_trans)
  then have "\<forall>i. p \<le> i \<and> i < length ?es \<longrightarrow> idx < Start (?es ! i)" by blast
  from walk_Blink_spec [OF assms(3) this]
  have q: "?q \<le> length ?es" "\<forall>i. ?q \<le> i \<and> i < length ?es \<longrightarrow> idx < Start (?es ! i)"
    "?q \<noteq> 0 \<longrightarrow> Start (?es ! (?q - 1)) \<le> idx"
    by blast+
  have "Start (?es ! i) \<le> idx" if "i < ?q" for i
    using that q(1,3) good_Start_mono [OF assms(1), of i "?q - 1"] by fastforce
  with q(1,2) show ?thesis by (simp add: cut_def)
qed

lemma walk_Flink_spec:
  "p \<noteq> 0 \<Longrightarrow> p \<le> length (Entries rs) \<Longrightarrow> q = walk_Flink rs idx p \<Longrightarrow> c = Blink rs q \<Longrightarrow>
   Start (RSE rs p) < idx \<Longrightarrow>
   p \<le> c \<and> c \<le> length (Entries rs) \<and> Start (Entries rs ! (c - 1)) < idx \<and>
   (c < length (Entries rs) \<longrightarrow> idx \<le> Start (Entries rs ! c))"
proof (induction rs idx p arbitrary: q c rule: walk_Flink.induct)
  case (1 rs idx p)
  let ?n = "length (Entries rs)"
  have q: "q = walk_Flink rs idx (Flink rs p)"
    using 1(2,4,6) walk_Flink.simps [of rs idx p] by simp
  consider "p = ?n" | "p < ?n" "Start (RSE rs (Suc p)) < idx" | "p < ?n" "\<not> Start (RSE rs (Suc p)) < idx"
    using 1(3) by linarith
  then show ?case
  proof cases
    case 1
    with q have "q = 0" by (simp add: Flink_def walk_Flink.simps)
    with 1 "1.prems" show ?thesis by (simp add: Blink_def RSE_def)
  next
    case 2
    with "1.IH" [of q c] "1.prems" q show ?thesis by (simp add: Flink_def)
  next
    case 3
    with q have "q = Suc p" by (simp add: Flink_def walk_Flink.simps)
    then have "c = p" using "1.prems"(4) by (simp add: Blink_def)
    with 3 "1.prems"(1,5) show ?thesis by (simp add: RSE_def not_less)
  qed
qed

lemma walk_Flink_cut:
  assumes "good (Entries rs)" and "p \<noteq> 0" and "p \<le> length (Entries rs)"
    and "Start (RSE rs p) < idx" and "idx \<notin> rs_set rs"
  shows "cut (Entries rs) idx (Blink rs (walk_Flink rs idx p)) \<and> Blink rs (walk_Flink rs idx p) \<noteq> 0"
proof -
  let ?es = "Entries rs" and ?c = "Blink rs (walk_Flink rs idx p)"
  have c: "p \<le> ?c" "?c \<le> length ?es" "Start (?es ! (?c - 1)) < idx"
    "?c < length ?es \<longrightarrow> idx \<le> Start (?es ! ?c)"
    using walk_Flink_spec [OF assms(2,3) refl refl assms(4)] by blast+
  have lo: "Start (?es ! i) \<le> idx" if "i < ?c" for i
    using that c(2,3) good_Start_mono [OF assms(1), of i "?c - 1"] by fastforce
  have "idx < Start (?es ! i)" if "?c \<le> i" "i < length ?es" for i
  proof -
    have "?es ! ?c \<in> set ?es" and "rlo (?es ! ?c) < rhi (?es ! ?c)"
      using that assms(1) by (auto simp: good_def)
    with assms(5) have "idx \<noteq> Start (?es ! ?c)"
      by (auto simp: rs_set_def in_rse_set rlo_def)
    with c(4) that good_Start_mono [OF assms(1) that] show ?thesis by fastforce
  qed
  with lo c assms(2) show ?thesis by (auto simp: cut_def)
qed

lemma RangeSetAdd_find_ok:
  assumes "good (Entries rs)" and "p \<noteq> 0" and "p \<le> length (Entries rs)" and "idx \<notin> rs_set rs"
  shows "\<exists>c. RangeSetAdd_find rs p idx = Inr c \<and> cut (Entries rs) idx c"
proof (cases "Start (RSE rs p) > idx")
  case True
  with walk_Blink_cut [OF assms(1-3)] show ?thesis
    by (auto simp: RangeSetAdd_find_def)
next
  case False
  have e: "RSE rs p \<in> set (Entries rs)" "rlo (RSE rs p) < rhi (RSE rs p)"
    using assms(1-3) by (auto simp: RSE_def good_def)
  with assms(4) False have hi: "rhi (RSE rs p) \<le> unat idx"
    by (auto simp: rs_set_def not_less intro!: rhi_le_if_notin)
  with e(2) have "Start (RSE rs p) < idx" and "End1 (RSE rs p) \<le> idx"
    by (auto simp: rlo_def rhi_def word_less_nat_alt word_le_nat_alt split: if_splits)
  with walk_Flink_cut [OF assms(1-3) _ assms(4)] False show ?thesis
    by (auto simp: RangeSetAdd_find_def Let_def)
qed

section \<open>Adding one index\<close>

abbreviation width :: "('w::len) word range_set_entry \<Rightarrow> 'w word" where
  "width e \<equiv> End1 e - Start e"

lemma rlo_upd [simp]:
  "rlo (e\<lparr>End1 := x\<rparr>) = rlo e" "rlo (e\<lparr>Start := y\<rparr>) = unat y"
  "rlo \<lparr>Start = y, End1 = x\<rparr> = unat y"
  by (simp_all add: rlo_def)

lemma rhi_upd [simp]:
  "rhi (e\<lparr>Start := y\<rparr>) = rhi e" "rhi (e\<lparr>End1 := x + 1\<rparr>) = unat x + 1"
  "rhi \<lparr>Start = y, End1 = x + 1\<rparr> = unat x + 1"
  "rhi (e\<lparr>End1 := End1 f\<rparr>) = rhi f"
  by (auto simp: rhi_def succ_eq_0_iff unat_succ)

lemma rhi_End1: "rlo e < rhi e \<Longrightarrow> rhi e \<le> unat x \<Longrightarrow> End1 e \<le> x"
  by (auto simp: rhi_def word_le_nat_alt split: if_splits)

lemma cut_split:
  assumes "good es" and "cut es idx c" and "idx \<notin> es_set es"
  obtains A B where "es = A @ B" and "length A = c"
    and "\<forall>a \<in> set A. rhi a \<le> unat idx" and "\<forall>b \<in> set B. unat idx < rlo b"
proof
  show "es = take c es @ drop c es" by simp
  show "length (take c es) = c" using assms(2) by (simp add: cut_def)
  show "\<forall>a \<in> set (take c es). rhi a \<le> unat idx"
  proof
    fix a assume "a \<in> set (take c es)"
    then obtain i where i: "i < c" "i < length es" "a = es ! i"
      by (auto simp: in_set_conv_nth)
    with assms(2) have "Start a \<le> idx" by (simp add: cut_def)
    moreover have "idx \<notin> rse_set a"
      using i es_set_nth [of i es] assms(3) by blast
    ultimately show "rhi a \<le> unat idx" by (simp add: rhi_le_if_notin)
  qed
  show "\<forall>b \<in> set (drop c es). unat idx < rlo b"
    using assms(2) by (auto simp: cut_def in_set_conv_nth rlo_def word_less_nat_alt)
qed

lemma merge_forwards_Nil:
  "Entries rs = A @ [a] \<Longrightarrow> p = Suc (length A) \<Longrightarrow> merge_forwards rs p = rs"
  by (simp add: merge_forwards_def Flink_def)

lemma merge_forwards_Cons:
  assumes "Entries rs = A @ a # b # B" and "p = Suc (length A)"
  shows "merge_forwards rs p =
    (if End1 a = Start b
     then rs\<lparr>Entries := A @ a\<lparr>End1 := End1 b\<rparr> # B,
             RseCursor := (if RseCursor rs = Suc p then (if B = [] then 0 else Suc p)
                           else if Suc p < RseCursor rs then RseCursor rs - 1 else RseCursor rs),
             RseCache := RseCache rs @ [b], NrRSEs := NrRSEs rs - 1,
             NrRSEsCached := NrRSEsCached rs + 1\<rparr>
     else rs)"
  using assms
  by (simp add: merge_forwards_def Flink_def RSE_def set_RSE_def release_rse_def nth_append
      list_update_append)

text \<open>What a successful \<^verbatim>\<open>RangeSetAdd\<close> does, as a relation between the states.\<close>

definition added :: "('w::len) word range_set \<Rightarrow> 'w word \<Rightarrow> 'w word range_set \<Rightarrow> bool" where
  "added rs idx rs' \<longleftrightarrow>
     good (Entries rs') \<and> RseCursor rs' \<le> length (Entries rs') \<and>
     es_set (Entries rs') = insert idx (es_set (Entries rs)) \<and>
     (\<Sum>e \<leftarrow> Entries rs'. width e) = (\<Sum>e \<leftarrow> Entries rs. width e) + 1 \<and>
     NrItems rs' = NrItems rs + 1 \<and>
     (idx + 1 \<notin> es_set (Entries rs) \<longrightarrow>
        RseCursor rs' \<noteq> 0 \<and> End1 (RSE rs' (RseCursor rs')) = idx + 1)"

lemma rse_set_extend_end:
  "rlo a < rhi a \<Longrightarrow> rhi a \<le> unat idx \<Longrightarrow>
   rse_set (a\<lparr>End1 := idx + 1\<rparr>) = rse_set a \<union> {x. rhi a \<le> unat x \<and> x \<le> idx}"
  by (auto simp: in_rse_set word_le_nat_alt)

lemma rse_set_extend_join:
  "rlo a < rhi a \<Longrightarrow> rlo b < rhi b \<Longrightarrow> rhi a \<le> unat idx \<Longrightarrow> rlo b = unat idx + 1 \<Longrightarrow>
   rse_set (a\<lparr>End1 := End1 b\<rparr>) = rse_set a \<union> {x. rhi a \<le> unat x \<and> x \<le> idx} \<union> rse_set b"
  by (auto simp: in_rse_set word_le_nat_alt)

lemma rse_set_insert_front:
  "rlo b < rhi b \<Longrightarrow> rlo b = unat idx + 1 \<Longrightarrow> rse_set (b\<lparr>Start := idx\<rparr>) = insert idx (rse_set b)"
  by (auto simp: in_rse_set word_eq_unat)

lemma rse_set_singleton: "rlo e = unat idx \<Longrightarrow> rhi e = unat idx + 1 \<Longrightarrow> rse_set e = {idx}"
  by (auto simp: in_rse_set word_eq_unat)

lemma good_extend_end:
  "good (A @ a # B) \<Longrightarrow> rhi a \<le> unat idx \<Longrightarrow> \<forall>b \<in> set B. unat idx + 1 < rlo b \<Longrightarrow>
   good (A @ a\<lparr>End1 := idx + 1\<rparr> # B)"
  by (auto simp: good_simps)

lemma good_join:
  "good (A @ a # b # C) \<Longrightarrow> good (A @ a\<lparr>End1 := End1 b\<rparr> # C)"
  by (fastforce simp: good_simps)

lemma good_extend_front:
  "good (A @ b # C) \<Longrightarrow> rlo b = unat idx + 1 \<Longrightarrow> \<forall>a \<in> set A. rhi a < unat idx \<Longrightarrow>
   good (A @ b\<lparr>Start := idx\<rparr> # C)"
  by (auto simp: good_simps)

lemma good_insert:
  "good (A @ B) \<Longrightarrow> rlo e < rhi e \<Longrightarrow> \<forall>a \<in> set A. rhi a < rlo e \<Longrightarrow> \<forall>b \<in> set B. rhi e < rlo b \<Longrightarrow>
   good (A @ e # B)"
  by (auto simp: good_simps)

lemma rlo_touching: "Start b = idx + 1 \<Longrightarrow> unat idx < rlo b \<Longrightarrow> rlo b = unat idx + 1"
  using unat_succ [of idx] by (auto simp: rlo_def split: if_splits)

lemma rlo_not_touching: "Start b \<noteq> idx + 1 \<Longrightarrow> unat idx < rlo b \<Longrightarrow> unat idx + 1 < rlo b"
  using unat_bound [of "Start b"]
  by (auto simp: rlo_def word_eq_unat unat_succ Suc_lessI simp del: unsigned_less split: if_splits)

lemma rhi_touching: "rhi a \<le> unat idx \<Longrightarrow> End1 a = idx \<longleftrightarrow> rhi a = unat idx"
  by (auto simp: rhi_def word_eq_unat split: if_splits)

lemma good_tail_above:
  "good (A @ b # C) \<Longrightarrow> x < rlo b \<Longrightarrow> \<forall>f \<in> set (b # C). x < rlo f"
  by (fastforce simp: good_simps)

lemma set_RSE_Entries:
  "Entries rs = A @ a # B \<Longrightarrow> Entries (set_RSE rs (Suc (length A)) e) = A @ e # B"
  by (simp add: set_RSE_def list_update_append)

lemma set_RSE_other [simp]:
  "RseCursor (set_RSE rs p e) = RseCursor rs" "NrItems (set_RSE rs p e) = NrItems rs"
  "RseCache (set_RSE rs p e) = RseCache rs" "length (Entries (set_RSE rs p e)) = length (Entries rs)"
  by (simp_all add: set_RSE_def)

lemma extend_end:
  assumes es: "Entries rs = A @ a # B" and cur: "RseCursor rs = Suc (length A)"
    and inv: "good (A @ a # B)" and lo: "rhi a \<le> unat idx" and above: "\<forall>b \<in> set B. unat idx < rlo b"
    and rs': "rs' = merge_forwards (set_RSE rs (Suc (length A)) (a\<lparr>End1 := idx + 1\<rparr>)) (Suc (length A))"
  shows "good (Entries rs') \<and> RseCursor rs' = Suc (length A) \<and> length A < length (Entries rs') \<and>
    es_set (Entries rs') = es_set (A @ a # B) \<union> {x. rhi a \<le> unat x \<and> x \<le> idx} \<and>
    (\<Sum>e \<leftarrow> Entries rs'. width e) = (\<Sum>e \<leftarrow> Entries rs. width e) + (idx + 1 - End1 a) \<and>
    NrItems rs' = NrItems rs \<and>
    (idx + 1 \<notin> es_set B \<longrightarrow> End1 (RSE rs' (Suc (length A))) = idx + 1)"
proof -
  have ne: "rlo a < rhi a" using inv by (simp add: good_simps)
  note upd = set_RSE_Entries [OF es, of "a\<lparr>End1 := idx + 1\<rparr>"]
  consider (plain) "rs' = set_RSE rs (Suc (length A)) (a\<lparr>End1 := idx + 1\<rparr>)"
      "\<forall>b \<in> set B. unat idx + 1 < rlo b"
    | (join) b C where "B = b # C" "Start b = idx + 1" "rlo b = unat idx + 1"
  proof (cases B)
    case Nil
    with plain rs' upd show ?thesis by (simp add: merge_forwards_Nil [of _ A])
  next
    case (Cons b C)
    show ?thesis
    proof (cases "Start b = idx + 1")
      case True
      with join [OF Cons True] Cons above rlo_touching [OF True] show ?thesis by simp
    next
      case False
      with Cons above have "unat idx + 1 < rlo b" by (intro rlo_not_touching) simp_all
      with good_tail_above [of "A @ [a]" b C] inv Cons have "\<forall>b \<in> set B. unat idx + 1 < rlo b" by simp
      with False plain rs' upd Cons show ?thesis by (simp add: merge_forwards_Cons [of _ A])
    qed
  qed
  then show ?thesis
  proof cases
    case plain
    with ne upd es cur lo good_extend_end [OF inv lo] show ?thesis
      by (auto simp: rse_set_extend_end RSE_def nth_append)
  next
    case join
    have bn: "rlo b < rhi b" using inv join by (simp add: good_simps)
    have "good (A @ a\<lparr>End1 := End1 b\<rparr> # C)" using inv join(1) good_join by blast
    moreover have "idx + 1 \<in> rse_set b"
      using join(2,3) bn by (simp add: in_rse_set rlo_def)
    moreover have "rs' = (set_RSE rs (Suc (length A)) (a\<lparr>End1 := idx + 1\<rparr>))
        \<lparr>Entries := A @ a\<lparr>End1 := End1 b\<rparr> # C, RseCursor := Suc (length A), RseCache := RseCache rs @ [b],
         NrRSEs := NrRSEs rs - 1, NrRSEsCached := NrRSEsCached rs + 1\<rparr>"
      using join upd cur rs' by (simp add: merge_forwards_Cons [of _ A] set_RSE_def)
    ultimately show ?thesis
      using join bn ne es lo by (auto simp: rse_set_extend_join)
  qed
qed

lemma place_at_end:
  assumes "Entries rs = A @ a # B" and "RseCursor rs = Suc (length A)" and idx: "rhi a = unat idx"
    and inv: "good (A @ a # B)" and "\<forall>b \<in> set B. unat idx < rlo b" and E: "End1 a = idx"
    and "rs' = merge_forwards (set_RSE rs (Suc (length A)) (a\<lparr>End1 := idx + 1\<rparr>)) (Suc (length A))"
  shows "added rs idx (rs'\<lparr>NrItems := NrItems rs' + 1\<rparr>)"
proof -
  have "{x. rhi a \<le> unat x \<and> x \<le> idx} = {idx}"
    using idx by (auto simp: word_le_nat_alt word_eq_unat)
  with extend_end [OF assms(1,2) inv _ assms(5,7)] idx E assms(1) show ?thesis
    by (simp add: added_def RSE_def)
qed

lemma place_at_front:
  assumes es: "Entries rs = A @ b # C" and inv: "good (A @ b # C)" and cur: "RseCursor rs = length A"
    and below: "\<forall>a \<in> set A. rhi a < unat idx" and S: "Start b = idx + 1" and lo: "unat idx < rlo b"
    and rs': "rs' = merge_forwards (set_RSE rs (Suc (length A)) (b\<lparr>Start := idx\<rparr>)) (length A)"
  shows "added rs idx (rs'\<lparr>NrItems := NrItems rs' + 1\<rparr>)"
proof -
  note upd = set_RSE_Entries [OF es, of "b\<lparr>Start := idx\<rparr>"]
  have "rs' = set_RSE rs (Suc (length A)) (b\<lparr>Start := idx\<rparr>)"
  proof (cases A rule: rev_cases)
    case Nil
    with rs' show ?thesis by (simp add: merge_forwards_def)
  next
    case (snoc D a)
    with below have "End1 a \<noteq> idx" by (auto simp: rhi_def split: if_splits)
    with snoc upd rs' show ?thesis by (simp add: merge_forwards_Cons [of _ D a])
  qed
  moreover have "rlo b < rhi b" using inv by (simp add: good_simps)
  moreover note lo' = rlo_touching [OF S lo]
  moreover have "idx + 1 \<in> rse_set b"
    using S lo' \<open>rlo b < rhi b\<close> by (simp add: in_rse_set rlo_def)
  ultimately show ?thesis
    using upd es cur S good_extend_front [OF inv lo' below]
    by (simp add: added_def rse_set_insert_front)
qed

lemma allocate_rse_cases:
  assumes "allocate_rse ok rs = (r, rs')"
  obtains "r = None" "\<not> ok" "RseCache rs = []" "rs' = rs\<lparr>NrRSEs := NrRSEs rs + 1\<rparr>"
  | e where "r = Some e" "ok \<or> RseCache rs \<noteq> []" "Entries rs' = Entries rs" "NrItems rs' = NrItems rs"
      "RseCursor rs' = RseCursor rs"
  using assms by (auto simp: allocate_rse_def split: list.splits if_splits)

lemma insert_new_ok:
  assumes es: "Entries rs = A @ B" and inv: "good (A @ B)"
    and below: "\<forall>a \<in> set A. rhi a < unat idx" and above: "\<forall>b \<in> set B. unat idx + 1 < rlo b"
    and res: "RangeSetAdd_insert_new ok rs (length A) idx = (r, rs')"
  shows "r \<longleftrightarrow> ok \<or> RseCache rs \<noteq> []"
    and "r \<Longrightarrow> added rs idx rs'" and "\<not> r \<Longrightarrow> rs' = rs\<lparr>NrRSEs := NrRSEs rs + 1\<rparr>"
proof -
  obtain q rs1 where alloc: "allocate_rse ok rs = (q, rs1)" by fastforce
  from alloc have "(r \<longleftrightarrow> ok \<or> RseCache rs \<noteq> []) \<and> (r \<longrightarrow> added rs idx rs') \<and>
    (\<not> r \<longrightarrow> rs' = rs\<lparr>NrRSEs := NrRSEs rs + 1\<rparr>)"
  proof (cases rule: allocate_rse_cases)
    case 1
    with res alloc show ?thesis by (auto simp: RangeSetAdd_insert_new_def singleton_rse_def)
  next
    case (2 e)
    let ?e = "e\<lparr>Start := idx, End1 := idx + 1\<rparr>"
    have e: "rlo ?e = unat idx" "rhi ?e = unat idx + 1" by simp_all
    with below above have "good (A @ ?e # B)" by (intro good_insert [OF inv]) auto
    with 2 es res alloc e show ?thesis
      by (auto simp: RangeSetAdd_insert_new_def singleton_rse_def InsertHeadList_def added_def
          rse_set_singleton RSE_def nth_append)
  qed
  then show "r \<longleftrightarrow> ok \<or> RseCache rs \<noteq> []" and "r \<Longrightarrow> added rs idx rs'"
    and "\<not> r \<Longrightarrow> rs' = rs\<lparr>NrRSEs := NrRSEs rs + 1\<rparr>" by blast+
qed

lemma place_ok:
  assumes "good (Entries rs)" and "cut (Entries rs) idx c" and "idx \<notin> rs_set rs"
    and cur: "RseCursor rs = c"
  obtains r rs' where "RangeSetAdd_place ok rs c idx = Inr (r, rs')" and "r \<longrightarrow> added rs idx rs'"
    and "\<not> r \<longrightarrow> rs' = rs\<lparr>NrRSEs := NrRSEs rs + 1\<rparr>" and "ok \<or> RseCache rs \<noteq> [] \<longrightarrow> r"
proof -
  from assms(1-3) obtain A B where es: "Entries rs = A @ B" and c: "length A = c"
    and lo: "\<forall>a \<in> set A. rhi a \<le> unat idx" and hi: "\<forall>b \<in> set B. unat idx < rlo b"
    using cut_split [of "Entries rs" idx c] unfolding rs_set_es_set by metis
  have inv: "good (A @ B)" using assms(1) es by simp
  have End1: "End1 a = idx \<longleftrightarrow> rhi a = unat idx" if "a \<in> set A" for a
    using lo that by (simp add: rhi_touching)
  have A1: "c \<noteq> 0 \<longrightarrow> End1 (RSE rs c) \<le> idx"
    using es c lo inv by (cases A rule: rev_cases) (auto simp: RSE_def good_simps intro: rhi_End1)
  have B1: "Flink rs c \<noteq> 0 \<longrightarrow> Start (RSE rs (Flink rs c)) > idx"
    using es c hi by (cases B) (auto simp: RSE_def Flink_def rlo_def word_less_nat_alt nth_append)
  show ?thesis
  proof (cases "c \<noteq> 0 \<and> End1 (RSE rs c) = idx")
    case True
    then obtain D a where A: "A = D @ [a]" "RSE rs c = a" "c = Suc (length D)"
      using es c by (cases A rule: rev_cases) (auto simp: RSE_def nth_append)
    let ?rs = "merge_forwards (set_RSE rs c (a\<lparr>End1 := idx + 1\<rparr>)) c"
    have "RangeSetAdd_place ok rs c idx = Inr (True, ?rs\<lparr>NrItems := NrItems ?rs + 1\<rparr>)"
      using True A1 B1 A(2) by (auto simp: RangeSetAdd_place_def Let_def xm_assert_def)
    moreover have "added rs idx (?rs\<lparr>NrItems := NrItems ?rs + 1\<rparr>)"
      using True A es cur inv hi End1 [of a] by (intro place_at_end [of rs D a B idx ?rs]) auto
    ultimately show ?thesis using that [of True] by simp
  next
    case F1: False
    have lo': "\<forall>a \<in> set A. rhi a < unat idx"
    proof (cases A rule: rev_cases)
      case (snoc D a)
      then have "RSE rs c = a" "c \<noteq> 0" using es c by (auto simp: RSE_def nth_append)
      with F1 End1 [of a] lo snoc have a: "rhi a < unat idx" by auto
      have "\<forall>d \<in> set D. rhi d < rlo a" and "rlo a < rhi a"
        using inv snoc by (simp_all add: good_simps)
      with a snoc show ?thesis by auto
    qed simp
    show ?thesis
    proof (cases "Flink rs c \<noteq> 0 \<and> Start (RSE rs (Flink rs c)) = idx + 1 \<and> Start (RSE rs (Flink rs c)) \<noteq> 0")
      case True
      then obtain b C where B: "B = b # C" "RSE rs (Flink rs c) = b" "Flink rs c = Suc (length A)"
        using es c by (cases B) (auto simp: RSE_def Flink_def nth_append)
      let ?rs = "merge_forwards (set_RSE rs (Suc c) (b\<lparr>Start := idx\<rparr>)) c"
      have "RangeSetAdd_place ok rs c idx = Inr (True, ?rs\<lparr>NrItems := NrItems ?rs + 1\<rparr>)"
        using True F1 A1 B1 B c by (auto simp: RangeSetAdd_place_def Let_def xm_assert_def)
      moreover have "added rs idx (?rs\<lparr>NrItems := NrItems ?rs + 1\<rparr>)"
        using True B es cur inv hi lo' c by (intro place_at_front [of rs A b C idx ?rs]) auto
      ultimately show ?thesis using that [of True] by simp
    next
      case F2: False
      have hi': "\<forall>b \<in> set B. unat idx + 1 < rlo b"
      proof (cases B)
        case (Cons b C)
        then have f: "Flink rs c \<noteq> 0" "RSE rs (Flink rs c) = b"
          using es c by (auto simp: RSE_def Flink_def nth_append)
        with B1 have "Start b \<noteq> 0" by auto
        with f F2 hi Cons have "unat idx + 1 < rlo b" by (intro rlo_not_touching) auto
        with good_tail_above [of A b C] inv Cons show ?thesis by simp
      qed simp
      obtain r rs' where new: "RangeSetAdd_insert_new ok rs c idx = (r, rs')" by fastforce
      have "RangeSetAdd_place ok rs c idx = Inr (r, rs')"
        using F1 F2 A1 B1 new by (auto simp: RangeSetAdd_place_def Let_def)
      with insert_new_ok [OF es inv lo' hi', of ok r rs'] new c that show ?thesis by blast
    qed
  qed
qed

lemma RangeSetAdd_ok:
  assumes "rs_inv rs" and "idx \<notin> rs_set rs"
  obtains r rs' where "RangeSetAdd ok rs idx = Inr (r, rs')" and "r \<longrightarrow> added rs idx rs'"
    and "\<not> r \<longrightarrow> Entries rs' = Entries rs \<and> NrItems rs' = NrItems rs \<and> RseCursor rs' \<le> length (Entries rs)"
    and "ok \<or> RseCache rs \<noteq> [] \<longrightarrow> r"
proof -
  let ?c = "if RseCursor rs = 0 then Flink rs 0 else RseCursor rs"
  have inv: "good (Entries rs)" "RseCursor rs \<le> length (Entries rs)"
    using assms(1) by (simp_all add: rs_inv_good)
  show ?thesis
  proof (cases "?c = 0")
    case True
    then have es: "Entries rs = [] @ []" by (auto simp: Flink_def split: if_splits)
    obtain r rs' where new: "RangeSetAdd_insert_new ok rs 0 idx = (r, rs')" by fastforce
    with True have "RangeSetAdd ok rs idx = Inr (r, rs')"
      by (auto simp: RangeSetAdd_def Let_def split: if_splits)
    moreover have "r \<longleftrightarrow> ok \<or> RseCache rs \<noteq> []" and "r \<longrightarrow> added rs idx rs'"
      and "\<not> r \<longrightarrow> rs' = rs\<lparr>NrRSEs := NrRSEs rs + 1\<rparr>"
      using insert_new_ok [OF es, of idx ok r rs'] new by simp_all
    ultimately show ?thesis
      using inv(2) by (intro that [of r rs']) simp_all
  next
    case False
    then have "?c \<le> length (Entries rs)" using inv(2) by (auto simp: Flink_def Suc_le_eq)
    from RangeSetAdd_find_ok [OF inv(1) False this assms(2)] obtain c
      where c: "RangeSetAdd_find rs ?c idx = Inr c" "cut (Entries rs) idx c" by blast
    from place_ok [of "rs\<lparr>RseCursor := c\<rparr>" idx c ok] inv(1) c(2) assms(2)
    obtain r rs' where p: "RangeSetAdd_place ok (rs\<lparr>RseCursor := c\<rparr>) c idx = Inr (r, rs')"
      "r \<longrightarrow> added (rs\<lparr>RseCursor := c\<rparr>) idx rs'" "ok \<or> RseCache rs \<noteq> [] \<longrightarrow> r"
      "\<not> r \<longrightarrow> rs' = rs\<lparr>RseCursor := c, NrRSEs := NrRSEs rs + 1\<rparr>"
      by (simp add: rs_set_def) blast
    have "RangeSetAdd ok rs idx = Inr (r, rs')"
      using False c(1) p(1) by (auto simp: RangeSetAdd_def Let_def)
    then show ?thesis
      using p(2-4) c(2) by (intro that [of r rs']) (simp_all add: added_def cut_def)
  qed
qed

section \<open>Trimming an entry\<close>

text \<open>Removal from either end of an entry, with the release of an entry that becomes empty, is
  shared by \<^verbatim>\<open>RangeSetPopOne\<close>, \<^verbatim>\<open>RangeSetRemoveRange\<close> and \<^verbatim>\<open>RangeSetPopAlignedBlock\<close>.\<close>

lemma End1_of_nat: "End1 e = of_nat (rhi e)"
  by (simp add: rhi_def)

lemma Start_of_nat: "Start e = of_nat (rlo e)"
  by (simp add: rlo_def)

lemma of_nat_inj_le:
  assumes "0 < j" "0 < k" "j \<le> 2 ^ LENGTH('w::len)" "k \<le> 2 ^ LENGTH('w)"
  shows "(of_nat j :: 'w word) = of_nat k \<longleftrightarrow> j = k"
proof -
  have "j mod 2 ^ LENGTH('w) = k mod 2 ^ LENGTH('w) \<Longrightarrow> j = k"
    using assms by (cases "j = 2 ^ LENGTH('w)"; cases "k = 2 ^ LENGTH('w)") auto
  then show ?thesis by (auto simp: word_eq_unat unat_of_nat)
qed

lemma rlo_of_nat: "k < 2 ^ LENGTH('w::len) \<Longrightarrow> rlo (e\<lparr>Start := of_nat k\<rparr> :: 'w word range_set_entry) = k"
  by (simp add: unat_of_nat)

lemma rhi_of_nat:
  "0 < k \<Longrightarrow> k \<le> 2 ^ LENGTH('w::len) \<Longrightarrow> rhi (e\<lparr>End1 := of_nat k\<rparr> :: 'w word range_set_entry) = k"
  by (cases "k = 2 ^ LENGTH('w)") (auto simp: rhi_def unat_of_nat word_eq_unat)

lemma release_Entries:
  "Entries rs = A @ a # B \<Longrightarrow> Entries (release_rse rs (Suc (length A))) = A @ B"
  by (simp add: release_rse_def Let_def)

lemma release_other [simp]:
  "NrItems (release_rse rs p) = NrItems rs"
  by (simp add: release_rse_def Let_def)

lemma release_cursor:
  "RseCursor rs \<le> length (Entries rs) \<Longrightarrow> 0 < p \<Longrightarrow> p \<le> length (Entries rs) \<Longrightarrow>
   RseCursor (release_rse rs p) \<le> length (Entries (release_rse rs p))"
  by (auto simp: release_rse_def Let_def Flink_def)

lemma release_if_empty_Entries:
  "Entries rs = A @ a # B \<Longrightarrow>
   Entries (release_if_empty rs (Suc (length A))) = (if Start a = End1 a then A @ B else A @ a # B)"
  by (simp add: release_if_empty_def release_Entries RSE_def nth_append)

lemma release_if_empty_other [simp]: "NrItems (release_if_empty rs p) = NrItems rs"
  by (simp add: release_if_empty_def)

lemma release_if_empty_cursor:
  "RseCursor rs \<le> length (Entries rs) \<Longrightarrow> 0 < p \<Longrightarrow> p \<le> length (Entries rs) \<Longrightarrow>
   RseCursor (release_if_empty rs p) \<le> length (Entries (release_if_empty rs p))"
  by (simp add: release_if_empty_def release_cursor)

text \<open>\<open>removed rs X n rs'\<close>: the indices \<open>X\<close> are gone and the entries stand for \<open>n\<close> fewer.\<close>

definition removed :: "('w::len) word range_set \<Rightarrow> 'w word set \<Rightarrow> 'w word \<Rightarrow> 'w word range_set \<Rightarrow> bool" where
  "removed rs X n rs' \<longleftrightarrow>
     good (Entries rs') \<and> RseCursor rs' \<le> length (Entries rs') \<and>
     es_set (Entries rs') = es_set (Entries rs) - X \<and>
     (\<Sum>e \<leftarrow> Entries rs'. width e) = (\<Sum>e \<leftarrow> Entries rs. width e) - n \<and>
     NrItems rs' = NrItems rs"

lemma disjoint_entries:
  "good (A @ a # B) \<Longrightarrow> x \<in> rse_set a \<Longrightarrow> x \<notin> es_set A \<and> x \<notin> es_set B"
  by (force simp: es_set_def in_rse_set good_simps)

lemma es_set_replace:
  assumes "good (A @ a # B)" and "es_set M = rse_set a - X" and "X \<subseteq> rse_set a"
  shows "es_set (A @ M @ B) = es_set (A @ a # B) - X"
  using assms disjoint_entries [OF assms(1)] by auto

lemma trim_front:
  fixes rs :: "('w::len) word range_set"
  assumes es: "Entries rs = A @ a # B" and inv: "rs_inv rs" and k: "rlo a < k" "k \<le> rhi a"
  shows "removed rs {x \<in> rse_set a. unat x < k} (of_nat k - Start a)
    (release_if_empty (set_RSE rs (Suc (length A)) (a\<lparr>Start := of_nat k\<rparr>)) (Suc (length A)))"
proof -
  let ?a = "a\<lparr>Start := of_nat k\<rparr>" and ?X = "{x \<in> rse_set a. unat x < k}"
  let ?rs = "set_RSE rs (Suc (length A)) ?a"
  have g: "good (A @ a # B)" and cur: "RseCursor rs \<le> length (Entries rs)"
    using inv es by (simp_all add: rs_inv_good)
  have upd: "Entries ?rs = A @ ?a # B" using es by (rule set_RSE_Entries)
  have eq: "Start ?a = End1 ?a \<longleftrightarrow> k = rhi a"
    using k by (simp add: End1_of_nat of_nat_inj_le order.trans [OF _ rhi_le])
  have cur': "RseCursor (release_if_empty ?rs (Suc (length A))) \<le>
      length (Entries (release_if_empty ?rs (Suc (length A))))"
    using cur es by (intro release_if_empty_cursor) simp_all
  show ?thesis
  proof (cases "k = rhi a")
    case True
    have "es_set [] = rse_set a - ?X" using True by (auto simp: in_rse_set)
    from es_set_replace [OF g this] have "es_set (A @ B) = es_set (A @ a # B) - ?X" by auto
    moreover have "good (A @ B)" using g by (auto simp: good_simps)
    ultimately show ?thesis
      using True eq upd es cur' by (simp add: removed_def release_if_empty_Entries End1_of_nat)
  next
    case False
    with k have k2: "k < 2 ^ LENGTH('w)" using rhi_le [of a] by linarith
    have "es_set [?a] = rse_set a - ?X"
      using k k2 by (auto simp: in_rse_set rlo_of_nat simp del: rlo_upd(2))
    from es_set_replace [OF g this] have "es_set (A @ ?a # B) = es_set (A @ a # B) - ?X" by auto
    moreover have "good (A @ ?a # B)"
      using g k k2 False by (auto simp: good_simps rlo_of_nat simp del: rlo_upd(2))
    ultimately show ?thesis
      using False eq upd es cur' by (simp add: removed_def release_if_empty_Entries)
  qed
qed

lemma trim_back:
  fixes rs :: "('w::len) word range_set"
  assumes es: "Entries rs = A @ a # B" and inv: "rs_inv rs" and k: "rlo a \<le> k" "k < rhi a"
  shows "removed rs {x \<in> rse_set a. k \<le> unat x} (End1 a - of_nat k)
    (release_if_empty (set_RSE rs (Suc (length A)) (a\<lparr>End1 := of_nat k\<rparr>)) (Suc (length A)))"
proof -
  let ?a = "a\<lparr>End1 := of_nat k\<rparr>" and ?X = "{x \<in> rse_set a. k \<le> unat x}"
  let ?rs = "set_RSE rs (Suc (length A)) ?a"
  have g: "good (A @ a # B)" and cur: "RseCursor rs \<le> length (Entries rs)"
    using inv es by (simp_all add: rs_inv_good)
  have k2: "k < 2 ^ LENGTH('w)" using k(2) rhi_le [of a] by linarith
  have upd: "Entries ?rs = A @ ?a # B" using es by (rule set_RSE_Entries)
  have eq: "Start ?a = End1 ?a \<longleftrightarrow> rlo a = k"
    using k2 by (simp add: rlo_def word_eq_unat unat_of_nat)
  have cur': "RseCursor (release_if_empty ?rs (Suc (length A))) \<le>
      length (Entries (release_if_empty ?rs (Suc (length A))))"
    using cur es by (intro release_if_empty_cursor) simp_all
  show ?thesis
  proof (cases "rlo a = k")
    case True
    have "es_set [] = rse_set a - ?X" using True by (auto simp: in_rse_set)
    from es_set_replace [OF g this] have "es_set (A @ B) = es_set (A @ a # B) - ?X" by auto
    moreover have "good (A @ B)" using g by (auto simp: good_simps)
    moreover have "of_nat k = Start a" using True by (simp add: Start_of_nat)
    ultimately show ?thesis
      using True eq upd es cur' by (simp add: removed_def release_if_empty_Entries)
  next
    case False
    with k(1) k2 have h: "rhi ?a = k" by (intro rhi_of_nat) simp_all
    have "es_set [?a] = rse_set a - ?X"
      using k h by (auto simp: in_rse_set)
    from es_set_replace [OF g this] have "es_set (A @ ?a # B) = es_set (A @ a # B) - ?X" by auto
    moreover have "good (A @ ?a # B)"
      using g k h False by (auto simp: good_simps)
    ultimately show ?thesis
      using False eq upd es cur' by (simp add: removed_def release_if_empty_Entries)
  qed
qed

section \<open>Properties of the additions\<close>

definition rs_ok :: "('w::len) word range_set \<Rightarrow> bool" where
  "rs_ok rs \<longleftrightarrow> rs_inv rs \<and> rs_count rs"

lemma added_ok: "rs_ok rs \<Longrightarrow> added rs idx rs' \<Longrightarrow> rs_ok rs' \<and> rs_set rs' = insert idx (rs_set rs)"
  by (auto simp: rs_ok_def rs_inv_good rs_count_def rs_set_es_set added_def)

lemma RangeSetAdd_spec:
  assumes "rs_ok rs" and "idx \<notin> rs_set rs"
  obtains ok rs' where "RangeSetAdd a rs idx = Inr (ok, rs')" and "rs_ok rs'"
    and "rs_set rs' = (if ok then insert idx (rs_set rs) else rs_set rs)" and "a \<longrightarrow> ok"
    and "ok \<longrightarrow> added rs idx rs'" and "ok \<longrightarrow> RangeSetItems rs' = RangeSetItems rs + 1"
proof -
  from assms have inv: "rs_inv rs" by (simp add: rs_ok_def)
  obtain ok rs' where r: "RangeSetAdd a rs idx = Inr (ok, rs')" "ok \<longrightarrow> added rs idx rs'"
    "\<not> ok \<longrightarrow> Entries rs' = Entries rs \<and> NrItems rs' = NrItems rs \<and> RseCursor rs' \<le> length (Entries rs)"
    "a \<or> RseCache rs \<noteq> [] \<longrightarrow> ok"
    by (rule RangeSetAdd_ok [OF inv assms(2)])
  have "\<not> ok \<Longrightarrow> rs_ok rs' \<and> rs_set rs' = rs_set rs"
    using r(3) assms(1) by (simp add: rs_ok_def rs_inv_def rs_count_def rs_set_def)
  with r added_ok [OF assms(1)] show ?thesis
    by (intro that [of ok rs']) (auto simp: RangeSetItems_def added_def)
qed

lemma RangeSetAddRange_spec:
  assumes ok: "rs_ok rs" and le: "start \<le> end1" and free: "{start..end1} \<inter> rs_set rs = {}"
  obtains r rs' where "RangeSetAddRange al rs start end1 = Inr (r, rs')" and "rs_ok rs'"
    and "rs_set rs' = (if r then rs_set rs \<union> {start..end1} else rs_set rs)" and "al \<longrightarrow> r"
proof -
  have "start \<notin> rs_set rs" using le free by auto
  from RangeSetAdd_spec [OF ok this, of al] obtain r rs1
    where add: "RangeSetAdd al rs start = Inr (r, rs1)" "rs_ok rs1" "al \<longrightarrow> r" "r \<longrightarrow> added rs start rs1"
      and set1: "rs_set rs1 = (if r then insert start (rs_set rs) else rs_set rs)" by metis
  show ?thesis
  proof (cases "r \<and> start \<noteq> end1")
    case False
    with add set1 show ?thesis
      by (intro that [of r rs1]) (auto simp: RangeSetAddRange_def)
  next
    case True
    with le have lt: "start < end1" by (simp add: order.strict_iff_order)
    then have nowrap: "unat (start + 1) = unat start + 1"
      using unat_bound [of end1] by (auto simp: unat_succ word_less_nat_alt simp del: unsigned_less)
    with lt have "start + 1 \<in> {start..end1}" by (auto simp: word_le_nat_alt word_less_nat_alt)
    with free have "start + 1 \<notin> es_set (Entries rs)" by (auto simp: rs_set_es_set)
    with True add(4) obtain p where p: "RseCursor rs1 = Suc p" "p < length (Entries rs1)"
      "End1 (RSE rs1 (Suc p)) = start + 1"
      by (auto simp: added_def gr0_conv_Suc)
    define A B a where "A = take p (Entries rs1)" and "B = drop (Suc p) (Entries rs1)" and "a = Entries rs1 ! p"
    have es: "Entries rs1 = A @ a # B" "length A = p"
      using p(2) by (simp_all add: A_def B_def a_def id_take_nth_drop [symmetric])
    have g: "good (A @ a # B)" using add(2) es by (simp add: rs_ok_def rs_inv_good)
    have a: "End1 a = start + 1" "RSE rs1 (Suc p) = a" using p(3) by (simp_all add: RSE_def a_def)
    have hi: "rhi a = unat start + 1" using a(1) nowrap by (auto simp: rhi_def word_eq_unat)
    have above: "\<forall>b \<in> set B. unat end1 < rlo b"
    proof (rule ccontr)
      assume "\<not> ?thesis"
      then obtain b where b: "b \<in> set B" "rlo b \<le> unat end1" by auto
      with g have "rhi a < rlo b" "rlo b < rhi b" by (auto simp: good_def sorted_wrt_append)
      then have "Start b \<in> rs_set rs1" "Start b \<in> {start..end1}" "Start b \<noteq> start"
        using b es hi by (auto simp: rs_set_def in_rse_set rlo_def word_le_nat_alt)
      then have "Start b \<in> {start..end1} \<inter> rs_set rs" using set1 True by simp
      with free show False by simp
    qed
    let ?rs = "merge_forwards (set_RSE rs1 (Suc p) (a\<lparr>End1 := end1 + 1\<rparr>)) (Suc p)"
    let ?rs' = "?rs\<lparr>NrItems := NrItems ?rs + (end1 - start)\<rparr>"
    have lo: "rhi a \<le> unat end1" using hi lt by (simp add: word_less_nat_alt)
    note ext = extend_end [of rs1 A a B end1 ?rs, unfolded es(2), OF es(1) p(1) g lo above refl]
    have "RangeSetAddRange al rs start end1 = Inr (True, ?rs')"
      using True add(1) p(1) a by (simp add: RangeSetAddRange_def Let_def)
    moreover have "rs_ok ?rs'"
      using ext add(2) a(1) es(2) by (simp add: rs_ok_def rs_inv_good rs_count_def algebra_simps)
    moreover have "insert start {x. rhi a \<le> unat x \<and> x \<le> end1} = {start..end1}"
      using hi lt by (auto simp: word_le_nat_alt word_less_nat_alt word_eq_unat)
    then have "rs_set ?rs' = rs_set rs \<union> {start..end1}"
      using ext set1 True es(1) by (auto simp: rs_set_es_set)
    ultimately show ?thesis using True by (intro that [of True ?rs']) simp_all
  qed
qed

section \<open>Popping\<close>

lemma rs_split:
  assumes "rs_ok rs" and "0 < p" and "p \<le> length (Entries rs)"
  obtains A B where "Entries rs = A @ RSE rs p # B" and "p = Suc (length A)"
    and "good (A @ RSE rs p # B)"
proof -
  have "Entries rs = take (p - 1) (Entries rs) @ RSE rs p # drop p (Entries rs)"
    unfolding RSE_def using assms(2,3) by (rule nth_take_drop_split)
  moreover from this have "good (take (p - 1) (Entries rs) @ RSE rs p # drop p (Entries rs))"
    using assms(1) by (simp add: rs_ok_def rs_inv_good)
  moreover have "p = Suc (length (take (p - 1) (Entries rs)))"
    using assms(2,3) by simp
  ultimately show ?thesis using that by blast
qed

lemma removed_ok:
  "rs_ok rs \<Longrightarrow> removed rs X n rs' \<Longrightarrow>
   rs_ok (rs'\<lparr>NrItems := NrItems rs' - n\<rparr>) \<and> rs_set (rs'\<lparr>NrItems := NrItems rs' - n\<rparr>) = rs_set rs - X"
  by (auto simp: rs_ok_def rs_inv_good rs_count_def rs_set_es_set removed_def)

lemma rs_set_empty_iff: "rs_ok rs \<Longrightarrow> rs_set rs = {} \<longleftrightarrow> Entries rs = []"
proof
  assume ok: "rs_ok rs" and e: "rs_set rs = {}"
  show "Entries rs = []"
  proof (rule ccontr)
    assume "Entries rs \<noteq> []"
    then have "Start (hd (Entries rs)) \<in> rs_set rs"
      using ok by (cases "Entries rs")
        (auto simp: rs_set_def in_rse_set rlo_def rs_ok_def rs_inv_good good_simps)
    with e show False by simp
  qed
qed (simp add: rs_set_def)

lemma RangeSetPopOne_spec:
  assumes ok: "rs_ok rs" and ne: "rs_set rs \<noteq> {}"
  obtains x rs' where "RangeSetPopOne rs = Inr (x, rs')" and "rs_ok rs'"
    and "x \<in> rs_set rs" and "\<forall>y \<in> rs_set rs. x \<le> y" and "rs_set rs' = rs_set rs - {x}"
proof -
  have "Entries rs \<noteq> []" using rs_set_empty_iff [OF ok] ne by simp
  then have "Flink rs 0 = 1" "1 \<le> length (Entries rs)" by (auto simp: Flink_def Suc_le_eq)
  then obtain A B where AB: "Entries rs = A @ RSE rs 1 # B" "1 = Suc (length A)" "good (A @ RSE rs 1 # B)"
    using rs_split [OF ok, of 1] by (metis zero_less_one)
  then have es: "Entries rs = [] @ RSE rs 1 # B" and g: "good ([] @ RSE rs 1 # B)" by simp_all
  let ?a = "RSE rs 1"
  let ?rs = "release_if_empty (set_RSE rs (Suc (length ([] :: 'a word range_set_entry list)))
      (?a\<lparr>Start := of_nat (rlo ?a + 1)\<rparr>)) (Suc (length ([] :: 'a word range_set_entry list)))"
  have k: "rlo ?a < rlo ?a + 1" "rlo ?a + 1 \<le> rhi ?a" using g by (simp_all add: good_simps)
  have S: "of_nat (rlo ?a + 1) = Start ?a + 1" by (simp add: Start_of_nat add.commute)
  have one: "{x \<in> rse_set ?a. unat x < rlo ?a + 1} = {Start ?a}"
    using k by (auto simp: in_rse_set rlo_def word_eq_unat)
  have inv: "rs_inv rs" using ok by (simp add: rs_ok_def)
  from trim_front [OF es inv k] have rem: "removed rs {Start ?a} 1 ?rs"
    unfolding one S by simp
  have "RangeSetPopOne rs = Inr (Start ?a, ?rs\<lparr>NrItems := NrItems ?rs - 1\<rparr>)"
    using \<open>Entries rs \<noteq> []\<close> \<open>Flink rs 0 = 1\<close> unfolding S by (simp add: RangeSetPopOne_def Let_def)
  moreover have "Start ?a \<in> rs_set rs"
    using es k by (auto simp: rs_set_es_set in_rse_set rlo_def)
  moreover have "Start ?a \<le> y" if y: "y \<in> rs_set rs" for y
  proof -
    obtain e where e: "e \<in> set (?a # B)" "y \<in> rse_set e" using y es by (auto simp: rs_set_def)
    with g have "rlo ?a \<le> rlo e" by (auto simp: good_simps)
    with e(2) show ?thesis by (simp add: in_rse_set rlo_def word_le_nat_alt)
  qed
  ultimately show ?thesis
    using that [of "Start ?a" "?rs\<lparr>NrItems := NrItems ?rs - 1\<rparr>"] removed_ok [OF ok rem] by blast
qed

section \<open>The interface to the driver\<close>

text \<open>
  What the balloon driver relies on: a set with fallible insertion of a new element and
  extraction of the least one, and the two loops over these operations that move whole blocks.
\<close>

locale index_set =
  fixes add :: "bool \<Rightarrow> 's \<Rightarrow> ('i::linorder) \<Rightarrow> (bool \<times> 's) res"
    and pop :: "'s \<Rightarrow> ('i \<times> 's) res"
    and add_items :: "(nat \<Rightarrow> bool) \<Rightarrow> nat \<Rightarrow> 's \<Rightarrow> 'i list \<Rightarrow> (nat \<times> 's) res"
    and pop_many :: "'s \<Rightarrow> nat \<Rightarrow> ('i list \<times> 's) res"
    and elems :: "'s \<Rightarrow> 'i set"
    and ok :: "'s \<Rightarrow> bool"
  assumes add_law: "ok s \<Longrightarrow> i \<notin> elems s \<Longrightarrow>
      \<exists>r s'. add al s i = Inr (r, s') \<and> ok s' \<and> elems s' = (if r then insert i (elems s) else elems s) \<and>
        (al \<longrightarrow> r)"
    and pop_law: "ok s \<Longrightarrow> elems s \<noteq> {} \<Longrightarrow>
      \<exists>i s'. pop s = Inr (i, s') \<and> ok s' \<and> i \<in> elems s \<and> (\<forall>j \<in> elems s. i \<le> j) \<and> elems s' = elems s - {i}"
    and add_items_Nil: "add_items alloc x s [] = Inr (x, s)"
    and add_items_Cons: "add_items alloc x s (i # is) =
      res_bind (add (alloc x) s i)
       (\<lambda>(r, s'). if \<not> r then Inr (x, s') else add_items alloc (Suc x) s' is)"
    and pop_many_0: "pop_many s 0 = Inr ([], s)"
    and pop_many_Suc: "pop_many s (Suc n) =
      res_bind (pop s) (\<lambda>(i, s'). res_bind (pop_many s' n) (\<lambda>(out, s''). Inr (i # out, s'')))"
    and finite_elems: "finite (elems s)"
begin

lemma add_items_law:
  "ok s \<Longrightarrow> distinct is \<Longrightarrow> set is \<inter> elems s = {} \<Longrightarrow>
   \<exists>n s'. add_items alloc x s is = Inr (x + n, s') \<and> n \<le> length is \<and> ok s' \<and>
     elems s' = elems s \<union> set (take n is) \<and> ((\<forall>k. alloc k) \<longrightarrow> n = length is)"
proof (induction "is" arbitrary: x s)
  case Nil
  then show ?case by (simp add: add_items_Nil)
next
  case (Cons i "is")
  then obtain r s' where a: "add (alloc x) s i = Inr (r, s')" "ok s'" "alloc x \<longrightarrow> r"
    "elems s' = (if r then insert i (elems s) else elems s)"
    using add_law [of s i "alloc x"] by auto
  show ?case
  proof (cases r)
    case True
    then have "set is \<inter> elems s' = {}" using a(4) Cons.prems(2,3) by auto
    from Cons.IH [OF a(2) _ this, of "Suc x"] Cons.prems(2) obtain n s''
      where n: "add_items alloc (Suc x) s' is = Inr (Suc x + n, s'')" "n \<le> length is" "ok s''"
        "elems s'' = elems s' \<union> set (take n is)" "(\<forall>k. alloc k) \<longrightarrow> n = length is"
      by auto
    with a(1,4) True show ?thesis
      by (intro exI [of _ "Suc n"] exI [of _ s'']) (auto simp: add_items_Cons)
  next
    case False
    with a show ?thesis
      by (intro exI [of _ 0] exI [of _ s']) (auto simp: add_items_Cons)
  qed
qed

lemma pop_many_law:
  "ok s \<Longrightarrow> n \<le> card (elems s) \<Longrightarrow>
   \<exists>out s'. pop_many s n = Inr (out, s') \<and> length out = n \<and> ok s' \<and> sorted_wrt (<) out \<and>
     set out \<subseteq> elems s \<and> elems s' = elems s - set out \<and> (\<forall>i \<in> set out. \<forall>j \<in> elems s'. i < j)"
proof (induction n arbitrary: s)
  case 0
  then show ?case by (simp add: pop_many_0)
next
  case (Suc n)
  then have "elems s \<noteq> {}" by auto
  from pop_law [OF Suc.prems(1) this] obtain i s'
    where p: "pop s = Inr (i, s')" "ok s'" "i \<in> elems s" "\<forall>j \<in> elems s. i \<le> j" "elems s' = elems s - {i}"
    by blast
  then have "n \<le> card (elems s')" using Suc.prems(2) finite_elems by simp
  from Suc.IH [OF p(2) this] obtain out s''
    where q: "pop_many s' n = Inr (out, s'')" "length out = n" "ok s''" "sorted_wrt (<) out"
      "set out \<subseteq> elems s'" "elems s'' = elems s' - set out" "\<forall>i \<in> set out. \<forall>j \<in> elems s''. i < j"
    by blast
  have "\<forall>j \<in> elems s'. i < j" using p(4,5) by (auto simp: order.strict_iff_order)
  with p(1,3,5) q show ?case
    by (intro exI [of _ "i # out"] exI [of _ s'']) (auto simp: pop_many_Suc)
qed

end

interpretation rs: index_set RangeSetAdd RangeSetPopOne RangeSetAddItems_from RangeSetPopMany
  "rs_set :: ('w::len) word range_set \<Rightarrow> 'w word set" rs_ok
proof unfold_locales
  fix s :: "'w word range_set" and i :: "'w word" and al
  assume "rs_ok s" and "i \<notin> rs_set s"
  then show "\<exists>r s'. RangeSetAdd al s i = Inr (r, s') \<and> rs_ok s' \<and>
      rs_set s' = (if r then insert i (rs_set s) else rs_set s) \<and> (al \<longrightarrow> r)"
    by (rule RangeSetAdd_spec [of s i al]) blast
next
  fix s :: "'w word range_set"
  assume "rs_ok s" and "rs_set s \<noteq> {}"
  then show "\<exists>i s'. RangeSetPopOne s = Inr (i, s') \<and> rs_ok s' \<and> i \<in> rs_set s \<and>
      (\<forall>j \<in> rs_set s. i \<le> j) \<and> rs_set s' = rs_set s - {i}"
    by (rule RangeSetPopOne_spec [of s]) blast
qed simp_all

section \<open>Removing\<close>

lemma RSE_order:
  assumes "rs_ok rs" and "0 < i" and "i < j" and "j \<le> length (Entries rs)"
  shows "rhi (RSE rs i) < rlo (RSE rs j)"
  using assms sorted_wrt_nth_less [of "\<lambda>a b. rhi a < rlo b" "Entries rs" "i - 1" "j - 1"]
  by (auto simp: rs_ok_def rs_inv_good good_def RSE_def)

lemma RSE_nonempty: "rs_ok rs \<Longrightarrow> 0 < i \<Longrightarrow> i \<le> length (Entries rs) \<Longrightarrow> rlo (RSE rs i) < rhi (RSE rs i)"
  by (auto simp: rs_ok_def rs_inv_good good_def RSE_def)

lemma find_hits:
  assumes ok: "rs_ok rs" and t: "0 < t" "t \<le> length (Entries rs)"
    and hit: "start \<in> rse_set (RSE rs t)" "End1 (RSE rs t) \<noteq> 0"
  shows "0 < c \<Longrightarrow> c \<le> length (Entries rs) \<Longrightarrow> RangeSetRemove_find rs start c = Some (Inr t)"
proof (induction "(c - t) + (t - c)" arbitrary: c rule: less_induct)
  case less
  have hit': "rlo (RSE rs t) \<le> unat start" "unat start < rhi (RSE rs t)"
    using hit(1) by (simp_all add: in_rse_set)
  consider "c = t" | "c < t" | "t < c" by linarith
  then show ?case
  proof cases
    case 1
    with less.prems hit' hit(2) show ?thesis
      by (subst RangeSetRemove_find.simps)
        (auto simp: rlo_def rhi_def word_less_nat_alt word_le_nat_alt)
  next
    case 2
    then have "rhi (RSE rs c) < unat start" "rlo (RSE rs c) < unat start"
      using RSE_order [OF ok less.prems(1) 2 t(2)] RSE_nonempty [OF ok less.prems] hit'(1) by linarith+
    then have "\<not> Start (RSE rs c) > start" "End1 (RSE rs c) \<le> start"
      by (auto simp: rlo_def rhi_def word_less_nat_alt word_le_nat_alt split: if_splits)
    moreover have "Flink rs c = Suc c" using 2 t(2) by (simp add: Flink_def)
    moreover have "RangeSetRemove_find rs start (Suc c) = Some (Inr t)"
      using 2 t(2) by (intro less.hyps) auto
    ultimately show ?thesis
      using less.prems by (subst RangeSetRemove_find.simps) simp
  next
    case 3
    then have "Start (RSE rs c) > start"
      using RSE_order [OF ok t(1) 3 less.prems(2)] hit'(2) by (simp add: rlo_def word_less_nat_alt)
    moreover have "Blink rs c = c - 1" using less.prems by (simp add: Blink_def)
    moreover have "RangeSetRemove_find rs start (c - 1) = Some (Inr t)"
      using 3 t less.prems by (intro less.hyps) auto
    ultimately show ?thesis
      using less.prems by (subst RangeSetRemove_find.simps) simp
  qed
qed

lemma find_gap_never_returns:
  assumes ok: "rs_ok rs" and gap: "0 < i" "i < length (Entries rs)"
    "rhi (RSE rs i) \<le> unat start" "unat start < rlo (RSE rs (Suc i))"
    and c: "0 < c" "c \<le> length (Entries rs)"
  shows "RangeSetRemove_find rs start c = None"
proof (rule ccontr)
  assume "RangeSetRemove_find rs start c \<noteq> None"
  then obtain r where ret: "RangeSetRemove_find rs start c = Some r" by blast
  have "\<not> (rs = rs \<and> start = start \<and> 0 < c \<and> c \<le> length (Entries rs))"
  proof (rule RangeSetRemove_find.raw_induct
      [where P = "\<lambda>r0 s0 c0 _. \<not> (r0 = rs \<and> s0 = start \<and> 0 < c0 \<and> c0 \<le> length (Entries rs))", OF _ ret])
    fix f r0 s0 c0 r'
    assume IH: "\<And>r0 s0 c0 r'. f r0 s0 c0 = Some r' \<Longrightarrow>
        \<not> (r0 = rs \<and> s0 = start \<and> 0 < c0 \<and> c0 \<le> length (Entries rs))"
      and eq: "(if c0 = 0 then Some (Inl BadPointer)
        else if Start (RSE r0 c0) > s0 then f r0 s0 (Blink r0 c0)
        else if End1 (RSE r0 c0) \<le> s0 then f r0 s0 (Flink r0 c0) else Some (Inr c0)) = Some r'"
    show "\<not> (r0 = rs \<and> s0 = start \<and> 0 < c0 \<and> c0 \<le> length (Entries rs))"
    proof
      assume "r0 = rs \<and> s0 = start \<and> 0 < c0 \<and> c0 \<le> length (Entries rs)"
      then have hyps: "r0 = rs" "s0 = start" "0 < c0" "c0 \<le> length (Entries rs)" by simp_all
      show False
      proof (cases "c0 \<le> i")
        case True
        then have "rhi (RSE rs c0) \<le> unat start"
          using RSE_order [OF ok hyps(3), of i] RSE_nonempty [OF ok gap(1)] gap(2,3)
          by (cases "c0 = i") auto
        with RSE_nonempty [OF ok hyps(3,4)] have "\<not> Start (RSE rs c0) > start" "End1 (RSE rs c0) \<le> start"
          by (auto simp: rlo_def rhi_def word_less_nat_alt word_le_nat_alt split: if_splits)
        with eq hyps have "f rs start (Flink rs c0) = Some r'" by simp
        from IH [OF this] True gap(2) hyps(4) show False by (simp add: Flink_def)
      next
        case False
        then have "unat start < rlo (RSE rs c0)"
          using RSE_order [OF ok, of "Suc i" c0] RSE_nonempty [OF ok, of "Suc i"] gap(2,4) hyps(4)
          by (cases "c0 = Suc i") auto
        then have "Start (RSE rs c0) > start" by (simp add: rlo_def word_less_nat_alt)
        with eq hyps have "f rs start (Blink rs c0) = Some r'" by simp
        from IH [OF this] False gap(1) hyps(4) show False by (simp add: Blink_def)
      qed
    qed
  qed
  with c show False by simp
qed

lemma RemoveRange_at:
  assumes ok: "rs_ok rs" and t: "0 < t" "t \<le> length (Entries rs)"
    and hit: "start \<in> rse_set (RSE rs t)" "End1 (RSE rs t) \<noteq> 0"
  shows "RangeSetRemoveRange al rs start end1 = Some (Inr (RangeSetRemove_at al rs t start end1))"
proof -
  let ?c = "if RseCursor rs = 0 then Flink rs 0 else RseCursor rs"
  have "?c \<noteq> 0" "?c \<le> length (Entries rs)"
    using t ok by (auto simp: rs_ok_def rs_inv_def Flink_def)
  moreover from this have "RangeSetRemove_find rs start ?c = Some (Inr t)"
    using find_hits [OF ok t hit] by simp
  ultimately show ?thesis
    using hit by (simp add: RangeSetRemoveRange_def Let_def rse_set_def)
qed

section \<open>Aligned blocks\<close>

lemma unat_mod_word: "unat ((x :: 'w::len word) mod y) = unat x mod unat y"
  by (rule unat_mod)

lemma trim_split:
  fixes rs :: "('w::len) word range_set"
  assumes es: "Entries rs = A @ a # B" and inv: "rs_inv rs"
    and j: "rlo a < j" "j \<le> k" "k < rhi a" and f: "f = new\<lparr>End1 := End1 a, Start := of_nat k\<rparr>"
    and rs': "Entries rs' = A @ a\<lparr>End1 := of_nat j\<rparr> # f # B" "RseCursor rs' \<le> length (Entries rs')"
      "NrItems rs' = NrItems rs" and jk: "j < k"
  shows "removed rs {x \<in> rse_set a. j \<le> unat x \<and> unat x < k} (of_nat k - of_nat j) rs'"
proof -
  let ?a = "a\<lparr>End1 := of_nat j\<rparr>" and ?X = "{x \<in> rse_set a. j \<le> unat x \<and> unat x < k}"
  have g: "good (A @ a # B)" using inv es by (simp add: rs_inv_good)
  have k2: "k < 2 ^ LENGTH('w)" using j rhi_le [of a] by linarith
  have hi: "rhi ?a = j" using j k2 by (intro rhi_of_nat) simp_all
  have lo: "rlo f = k" "rhi f = rhi a" using f k2 by (simp_all add: unat_of_nat rhi_def)
  have "es_set [?a, f] = rse_set a - ?X" using j hi lo by (auto simp: in_rse_set)
  from es_set_replace [OF g this] have "es_set (A @ ?a # f # B) = es_set (A @ a # B) - ?X" by auto
  moreover have "good (A @ ?a # f # B)" using g j jk hi lo by (auto simp: good_simps)
  ultimately show ?thesis
    using es rs' f by (simp add: removed_def)
qed

text \<open>\<open>aligned_up a e\<close>: the first multiple of the alignment after an unaligned start.\<close>

definition aligned_up :: "'w word \<Rightarrow> ('w::len) word range_set_entry \<Rightarrow> nat" where
  "aligned_up alignment e = rlo e + unat alignment - rlo e mod unat alignment"

lemma aligned_up_dvd:
  assumes "0 < unat alignment" shows "aligned_up alignment e mod unat alignment = 0"
proof -
  have "rlo e mod unat alignment \<le> rlo e" by simp
  then have "aligned_up alignment e = (rlo e - rlo e mod unat alignment) + unat alignment"
    unfolding aligned_up_def by linarith
  then show ?thesis by (simp add: minus_mod_eq_mult_div)
qed

lemma aligned_start_word:
  fixes e :: "('w::len) word range_set_entry"
  assumes "alignment \<noteq> 0"
  shows "Start e + alignment - (Start e mod alignment) = of_nat (aligned_up alignment e)"
proof -
  have "rlo e mod unat alignment \<le> rlo e + unat alignment"
    by (meson le_add1 mod_less_eq_dividend order_trans)
  then have "(of_nat (aligned_up alignment e) :: 'w word) =
      of_nat (rlo e) + of_nat (unat alignment) - of_nat (rlo e mod unat alignment)"
    by (simp add: aligned_up_def)
  also have "\<dots> = Start e + alignment - (Start e mod alignment)"
    by (simp add: rlo_def unat_mod [symmetric])
  finally show ?thesis by simp
qed

definition block :: "'w word \<Rightarrow> 'w word \<Rightarrow> ('w::len) word set" where
  "block x sz = {y. unat x \<le> unat y \<and> unat y < unat x + unat sz}"

definition popped :: "('w::len) word range_set \<Rightarrow> 'w word \<Rightarrow> 'w word \<Rightarrow> 'w word \<Rightarrow> 'w word range_set \<Rightarrow> bool" where
  "popped rs alignment sz x rs' \<longleftrightarrow>
     rs_ok rs' \<and> x mod alignment = 0 \<and> block x sz \<subseteq> rs_set rs \<and> rs_set rs' = rs_set rs - block x sz"

lemma removed_popped:
  assumes "rs_ok rs" and "removed rs (block x sz) sz q" and "x mod alignment = 0"
    and "RSE rs p \<in> set (Entries rs)" and "rlo (RSE rs p) \<le> unat x" and "unat x + unat sz \<le> rhi (RSE rs p)"
  shows "popped rs alignment sz x (q\<lparr>NrItems := NrItems q - sz\<rparr>)"
proof -
  have "block x sz \<subseteq> rse_set (RSE rs p)" using assms(5,6) by (auto simp: block_def in_rse_set)
  then show ?thesis
    using removed_ok [OF assms(1,2)] assms(3,4) by (auto simp: popped_def rs_set_def)
qed

lemma End1_minus: "j \<le> rhi e \<Longrightarrow> End1 e - of_nat j = of_nat (rhi e - j)"
  by (simp add: End1_of_nat [of e])

lemma unat_rhi_minus: "0 < j \<Longrightarrow> unat (of_nat (rhi e - j) :: 'w word) = rhi (e :: ('w::len) word range_set_entry) - j"
  using rhi_le [of e] zero_less_power [of "2::nat" "LENGTH('w)"] by (intro unat_of_nat_lt) linarith

lemma wide_enough:
  assumes "rlo e < rhi e" and "\<not> End1 e - Start e < sz"
  shows "unat sz \<le> rhi e - rlo e"
proof (cases "rlo e = 0")
  case True
  then have "Start e = 0" by (simp add: rlo_def word_eq_unat)
  with assms show ?thesis using True
    by (auto simp: word_less_nat_alt rhi_def order.strict_implies_order split: if_splits)
next
  case False
  with assms End1_minus [of "rlo e" e] unat_rhi_minus [of "rlo e" e] show ?thesis
    by (simp add: word_less_nat_alt Start_of_nat [symmetric])
qed

text \<open>The three ways an entry can yield a block: its front, its end, or an aligned middle.\<close>

lemma block_at_front:
  assumes ok: "rs_ok rs" and es: "Entries rs = A @ RSE rs p # B" "p = Suc (length A)"
    and n: "0 < unat sz" "unat sz \<le> rhi (RSE rs p) - rlo (RSE rs p)"
    and q: "q = release_if_empty (set_RSE rs p ((RSE rs p)\<lparr>Start := Start (RSE rs p) + sz\<rparr>)) p"
    and "Start (RSE rs p) mod alignment = 0"
  shows "popped rs alignment sz (Start (RSE rs p)) (q\<lparr>NrItems := NrItems q - sz\<rparr>)"
proof -
  let ?a = "RSE rs p" let ?k = "rlo ?a + unat sz"
  have inv: "rs_inv rs" using ok by (simp add: rs_ok_def)
  have k: "rlo ?a < ?k" "?k \<le> rhi ?a" using n by linarith+
  have "of_nat ?k = Start ?a + sz" by (simp add: rlo_def)
  moreover have "{x \<in> rse_set ?a. unat x < ?k} = block (Start ?a) sz"
    using k by (auto simp: block_def in_rse_set rlo_def)
  ultimately have "removed rs (block (Start ?a) sz) sz q"
    using trim_front [OF es(1) inv k] es(2) q by simp
  then show ?thesis
    using ok es(1) k assms(7) by (intro removed_popped [where p = p]) (auto simp: rlo_def)
qed

lemma block_at_end:
  assumes ok: "rs_ok rs" and es: "Entries rs = A @ RSE rs p # B" "p = Suc (length A)"
    and n: "0 < unat sz" "unat sz \<le> rhi (RSE rs p) - rlo (RSE rs p)"
    and q: "q = release_if_empty (set_RSE rs p ((RSE rs p)\<lparr>End1 := End1 (RSE rs p) - sz\<rparr>)) p"
    and "(End1 (RSE rs p) - sz) mod alignment = 0"
  shows "popped rs alignment sz (End1 (RSE rs p) - sz) (q\<lparr>NrItems := NrItems q - sz\<rparr>)"
proof -
  let ?a = "RSE rs p" let ?k = "rhi ?a - unat sz" and ?x = "End1 ?a - sz"
  have inv: "rs_inv rs" using ok by (simp add: rs_ok_def)
  have k: "rlo ?a \<le> ?k" "?k < rhi ?a" "unat sz \<le> rhi ?a" using n by linarith+
  have x: "of_nat ?k = ?x" using End1_minus [OF k(3)] by simp
  then have ux: "unat ?x = ?k" using unat_rhi_minus [OF n(1), of ?a] by simp
  have "{x \<in> rse_set ?a. ?k \<le> unat x} = block ?x sz"
    using k ux by (auto simp: block_def in_rse_set)
  then have "removed rs (block ?x sz) sz q"
    using trim_back [OF es(1) inv k(1,2)] es(2) x q by simp
  then show ?thesis
    using ok es(1) k ux assms(7) by (intro removed_popped [where p = p]) auto
qed

lemma block_in_middle:
  fixes rs :: "('w::len) word range_set"
  assumes ok: "rs_ok rs" and es: "Entries rs = A @ RSE rs p # B" "p = Suc (length A)"
    and n: "0 < unat sz" and jlo: "rlo (RSE rs p) < j" and klt: "j + unat sz < rhi (RSE rs p)"
    and rs1: "Entries rs1 = Entries rs" "RseCursor rs1 = RseCursor rs" "NrItems rs1 = NrItems rs"
    and q: "q = InsertHeadList (set_RSE rs1 p ((RSE rs p)\<lparr>End1 := of_nat j\<rparr>)) p
      (new\<lparr>End1 := End1 (RSE rs p), Start := of_nat j + sz\<rparr>)"
    and "(of_nat j :: 'w word) mod alignment = 0"
  shows "popped rs alignment sz (of_nat j) (q\<lparr>NrItems := NrItems q - sz\<rparr>)"
proof -
  let ?a = "RSE rs p" let ?k = "j + unat sz" and ?x = "of_nat j :: 'w word"
  let ?f = "new\<lparr>End1 := End1 ?a, Start := ?x + sz\<rparr>"
  have inv: "rs_inv rs" using ok by (simp add: rs_ok_def)
  have ux: "unat ?x = j" using klt rhi_le [of ?a] by (intro unat_of_nat_lt) linarith
  have qs: "Entries q = A @ ?a\<lparr>End1 := ?x\<rparr> # ?f # B" "NrItems q = NrItems rs"
    "RseCursor q \<le> length (Entries q)"
    using rs1 es inv set_RSE_Entries [of rs1 A ?a B "?a\<lparr>End1 := ?x\<rparr>"] q
    by (auto simp: InsertHeadList_def rs_inv_def)
  have "removed rs {x \<in> rse_set ?a. j \<le> unat x \<and> unat x < ?k} (of_nat ?k - ?x) q"
    using jlo klt n qs by (intro trim_split [OF es(1) inv, where f = ?f and new = new]) auto
  moreover have "{x \<in> rse_set ?a. j \<le> unat x \<and> unat x < ?k} = block ?x sz"
    using jlo klt ux by (auto simp: block_def in_rse_set)
  ultimately have "removed rs (block ?x sz) sz q" by simp
  then show ?thesis
    using ok es(1) jlo klt ux assms(11) by (intro removed_popped [where p = p]) auto
qed

lemma PopAligned_body_spec:
  fixes rs :: "('w::len) word range_set"
  assumes ok: "rs_ok rs" and p: "0 < p" "p \<le> length (Entries rs)" and nz: "sz \<noteq> 0" "alignment \<noteq> 0"
    and fits: "Start (RSE rs p) mod alignment \<noteq> 0 \<longrightarrow> aligned_up alignment (RSE rs p) \<le> rhi (RSE rs p)"
    and res: "PopAligned_body al rs p alignment sz = (r, rs')"
  shows "case r of None \<Rightarrow> Entries rs' = Entries rs \<and> RseCursor rs' = RseCursor rs \<and> NrItems rs' = NrItems rs
    | Some x \<Rightarrow> popped rs alignment sz x rs'"
proof -
  let ?a = "RSE rs p" and ?j = "aligned_up alignment (RSE rs p)"
  let ?as = "Start ?a + alignment - (Start ?a mod alignment)"
  obtain A B where es: "Entries rs = A @ ?a # B" "p = Suc (length A)" and g: "good (A @ ?a # B)"
    using rs_split [OF ok p] by metis
  have n: "0 < unat sz" and al: "0 < unat alignment" using nz by (simp_all add: unat_gt_0)
  have asw: "?as = of_nat ?j" by (rule aligned_start_word [OF nz(2)])
  note unf = res [unfolded PopAligned_body_def Let_def]
  consider (front) "\<not> End1 ?a - Start ?a < sz" "Start ?a mod alignment = 0"
    | (rear) "\<not> End1 ?a - Start ?a < sz" "Start ?a mod alignment \<noteq> 0" "(End1 ?a - sz) mod alignment = 0"
    | (middle) new rs1 where "\<not> End1 ?a - Start ?a < sz" "Start ?a mod alignment \<noteq> 0"
        "(End1 ?a - sz) mod alignment \<noteq> 0" "\<not> End1 ?a - ?as < sz" "allocate_rse al rs = (Some new, rs1)"
    | (noblock) "r = None" "Entries rs' = Entries rs" "RseCursor rs' = RseCursor rs" "NrItems rs' = NrItems rs"
    using unf by (cases "allocate_rse al rs")
      (auto simp: allocate_rse_def split: list.splits if_splits option.splits)
  then show ?thesis
  proof cases
    case front
    with block_at_front [OF ok es n wide_enough refl, of alignment] g unf show ?thesis
      by (auto simp: good_simps)
  next
    case rear
    with block_at_end [OF ok es n wide_enough refl, of alignment] g unf show ?thesis
      by (auto simp: good_simps)
  next
    case middle
    have jlo: "rlo ?a < ?j"
      using mod_less_divisor [OF al, of "rlo ?a"] unfolding aligned_up_def by linarith
    have jhi: "?j \<le> rhi ?a" using fits middle(2) by simp
    have "unat sz \<le> rhi ?a - ?j"
      using middle(4) End1_minus [OF jhi] unat_rhi_minus [of ?j ?a] jlo asw
      by (auto simp: word_less_nat_alt not_less)
    then have kle: "?j + unat sz \<le> rhi ?a" using jhi by linarith
    then have uj: "unat (of_nat ?j :: 'w word) = ?j"
      using n rhi_le [of ?a] by (intro unat_of_nat_lt) linarith
    have div: "(of_nat ?j :: 'w word) mod alignment = 0"
      using aligned_up_dvd [OF al, of ?a] uj by (simp add: word_eq_unat unat_mod)
    have "?j + unat sz \<noteq> rhi ?a"
    proof
      assume eq: "?j + unat sz = rhi ?a"
      have "(of_nat (rhi ?a) :: 'w word) = of_nat ?j + sz" unfolding eq [symmetric] by simp
      then have "End1 ?a - sz = of_nat ?j" by (simp add: End1_of_nat [of ?a])
      with middle(3) div show False by simp
    qed
    with kle have klt: "?j + unat sz < rhi ?a" by simp
    from middle(5) have "Entries rs1 = Entries rs" "RseCursor rs1 = RseCursor rs" "NrItems rs1 = NrItems rs"
      by (auto simp: allocate_rse_def split: list.splits if_splits)
    from block_in_middle [OF ok es n jlo klt this refl div, of new] middle unf show ?thesis
      by (auto simp: asw)
  qed simp
qed

lemma PopAligned_walk_spec:
  assumes "rs_ok rs" and "sz \<noteq> 0" "alignment \<noteq> 0" and "0 < p" "p + n \<le> Suc (length (Entries rs))"
    and "\<forall>e \<in> set (Entries rs). Start e mod alignment \<noteq> 0 \<longrightarrow> aligned_up alignment e \<le> rhi e"
    and "PopAligned_walk al n p rs alignment sz = (r, rs')"
  shows "case r of None \<Rightarrow> rs_ok rs' \<and> rs_set rs' = rs_set rs | Some x \<Rightarrow> popped rs alignment sz x rs'"
  using assms
proof (induction n arbitrary: p rs)
  case (Suc n)
  obtain r1 rs1 where b: "PopAligned_body (al p) rs p alignment sz = (r1, rs1)" by fastforce
  have p: "p \<le> length (Entries rs)" using Suc.prems(5) by simp
  then have "RSE rs p \<in> set (Entries rs)" using Suc.prems(4) by (simp add: RSE_def)
  with Suc.prems(6) have "Start (RSE rs p) mod alignment \<noteq> 0 \<longrightarrow> aligned_up alignment (RSE rs p) \<le> rhi (RSE rs p)"
    by blast
  note spec = PopAligned_body_spec [OF Suc.prems(1) Suc.prems(4) p Suc.prems(2,3) this b]
  show ?case
  proof (cases r1)
    case None
    with spec have same: "Entries rs1 = Entries rs" "RseCursor rs1 = RseCursor rs" "NrItems rs1 = NrItems rs"
      by simp_all
    then have "rs_ok rs1" "rs_set rs1 = rs_set rs" "popped rs1 = popped rs"
      using Suc.prems(1) by (auto simp: rs_ok_def rs_inv_def rs_count_def rs_set_def popped_def fun_eq_iff)
    with Suc.IH [of rs1 "Suc p"] same None b Suc.prems show ?thesis by (cases r) auto
  next
    case (Some x)
    with spec b Suc.prems(7) show ?thesis by auto
  qed
qed auto

section \<open>Properties\<close>

text \<open>Two range sets for the witnesses: a few small ranges, and one that reaches the top of an
  8-bit index type.\<close>

definition rs_ex :: "u64 range_set" where
  "rs_ex = \<lparr>Entries = [\<lparr>Start = 2, End1 = 8\<rparr>, \<lparr>Start = 10, End1 = 20\<rparr>], RseCursor = 1, RseCache = [],
     NrRSEs = 2, NrItems = 16, NrRSEsCached = 0\<rparr>"

lemmas rs_eval = rs_ok_def rs_inv_def rs_count_def rse_nonempty_def rs_set_def rse_set_def RSE_def
  rlo_def rhi_def

lemma rs_ex_ok: "rs_ok rs_ex"
  by (simp add: rs_ex_def rs_eval)

text \<open>C22: adding an index that is not in a well-formed range set never bug checks; the result is
  well formed, its item count is right, and it stands for the old set with the index, or, when the
  pool is exhausted and the operation reports failure, for the old set.  With memory it succeeds.\<close>

theorem RangeSetAdd_correct:
  assumes "rs_ok rs" and "idx \<notin> rs_set rs"
  shows "\<exists>ok rs'. RangeSetAdd al rs idx = Inr (ok, rs') \<and> rs_ok rs' \<and>
    rs_set rs' = (if ok then insert idx (rs_set rs) else rs_set rs) \<and> (al \<longrightarrow> ok)"
  by (rule rs.add_law [OF assms])

theorem RangeSetAdd_correct_witness:
  "\<exists>ok rs'. RangeSetAdd True rs_ex 9 = Inr (ok, rs') \<and> rs_ok rs' \<and>
    rs_set rs' = (if ok then insert 9 (rs_set rs_ex) else rs_set rs_ex) \<and> (True \<longrightarrow> ok)"
  by (rule RangeSetAdd_correct) (simp_all add: rs_ex_def rs_eval)

text \<open>adding a range none of whose indices is in the set adds exactly that range, both bounds
  included, or leaves the set as it was when there is no memory.\<close>

theorem RangeSetAddRange_correct:
  assumes "rs_ok rs" and "start \<le> end1" and "{start..end1} \<inter> rs_set rs = {}"
  shows "\<exists>ok rs'. RangeSetAddRange al rs start end1 = Inr (ok, rs') \<and> rs_ok rs' \<and>
    rs_set rs' = (if ok then rs_set rs \<union> {start..end1} else rs_set rs) \<and> (al \<longrightarrow> ok)"
  by (rule RangeSetAddRange_spec [OF assms, of al]) blast

theorem RangeSetAddRange_correct_witness:
  "\<exists>ok rs'. RangeSetAddRange True rs_ex 8 9 = Inr (ok, rs') \<and> rs_ok rs' \<and>
    rs_set rs' = (if ok then rs_set rs_ex \<union> {8..9} else rs_set rs_ex) \<and> (True \<longrightarrow> ok)"
  by (rule RangeSetAddRange_correct [OF rs_ex_ok])
    (auto simp: rs_ex_def rs_set_def rse_set_def word_le_nat_alt word_less_nat_alt)

text \<open>\<open>RangeSetAddItems\<close> of distinct new indices adds a prefix of them, returns its length, and
  adds all of them when the pool never runs out.\<close>

theorem RangeSetAddItems_correct:
  assumes "rs_ok rs" and "distinct items" and "set items \<inter> rs_set rs = {}"
  shows "\<exists>n rs'. RangeSetAddItems alloc rs items = Inr (n, rs') \<and> n \<le> length items \<and> rs_ok rs' \<and>
    rs_set rs' = rs_set rs \<union> set (take n items) \<and> ((\<forall>k. alloc k) \<longrightarrow> n = length items)"
  using rs.add_items_law [OF assms, of alloc 0] by (simp add: RangeSetAddItems_def)

theorem RangeSetAddItems_correct_witness:
  "\<exists>n rs'. RangeSetAddItems (\<lambda>_. True) rs_ex [8, 30, 9] = Inr (n, rs') \<and> n \<le> length [8, 30, 9 :: 64 word] \<and>
    rs_ok rs' \<and> rs_set rs' = rs_set rs_ex \<union> set (take n [8, 30, 9]) \<and>
    ((\<forall>k :: nat. True) \<longrightarrow> n = length [8, 30, 9 :: 64 word])"
  by (rule RangeSetAddItems_correct) (simp_all add: rs_ex_def rs_eval)

text \<open>\<open>RangeSetPopMany\<close> takes out the \<open>n\<close> smallest indices, in ascending order, from any
  well-formed set with at least \<open>n\<close> of them.\<close>

theorem RangeSetPopMany_correct:
  assumes "rs_ok rs" and "n \<le> card (rs_set rs)"
  shows "\<exists>out rs'. RangeSetPopMany rs n = Inr (out, rs') \<and> length out = n \<and> rs_ok rs' \<and>
    sorted_wrt (<) out \<and> set out \<subseteq> rs_set rs \<and> rs_set rs' = rs_set rs - set out \<and>
    (\<forall>i \<in> set out. \<forall>j \<in> rs_set rs'. i < j)"
  by (rule rs.pop_many_law [OF assms])

lemma card_rs_ex: "2 \<le> card (rs_set rs_ex)"
proof -
  have "{2, 3} \<subseteq> rs_set rs_ex" by (simp add: rs_ex_def rs_eval)
  then have "card {2, 3 :: 64 word} \<le> card (rs_set rs_ex)" by (rule card_mono [rotated]) simp
  then show ?thesis by simp
qed

theorem RangeSetPopMany_correct_witness:
  "\<exists>out rs'. RangeSetPopMany rs_ex 2 = Inr (out, rs') \<and> length out = 2 \<and> rs_ok rs' \<and>
    sorted_wrt (<) out \<and> set out \<subseteq> rs_set rs_ex \<and> rs_set rs' = rs_set rs_ex - set out \<and>
    (\<forall>i \<in> set out. \<forall>j \<in> rs_set rs'. i < j)"
  by (rule RangeSetPopMany_correct [OF rs_ex_ok card_rs_ex])

lemma card_rse_set: "card (rse_set e) = rhi e - rlo e"
proof -
  have "unat ` rse_set e = {rlo e..<rhi e}"
  proof
    show "{rlo e..<rhi e} \<subseteq> unat ` rse_set e"
    proof
      fix k assume k: "k \<in> {rlo e..<rhi e}"
      then have "unat (of_nat k :: 'a word) = k"
        using rhi_le [of e] by (intro unat_of_nat_lt) (meson atLeastLessThan_iff less_le_trans)
      with k show "k \<in> unat ` rse_set e"
        by (intro image_eqI [of _ _ "of_nat k"]) (simp_all add: in_rse_set)
    qed
  qed (auto simp: in_rse_set)
  then have "card (unat ` rse_set e) = rhi e - rlo e" by simp
  then show ?thesis by (simp add: card_image inj_on_def word_eq_unat)
qed

lemma card_es_set: "good es \<Longrightarrow> of_nat (card (es_set es)) = (\<Sum>e \<leftarrow> es. width e)"
proof (induction es)
  case (Cons e es)
  have "rse_set e \<inter> es_set es = {}"
    using disjoint_entries [of "[]" e es] Cons.prems by auto
  then have "card (es_set (e # es)) = (rhi e - rlo e) + card (es_set es)"
    by (simp add: card_Un_disjoint card_rse_set)
  moreover have "rlo e < rhi e" "good es" using Cons.prems by (simp_all add: good_simps)
  ultimately show ?case
    using Cons.IH by (simp add: End1_of_nat [of e] Start_of_nat [of e])
qed simp

text \<open>The item counter of a well-formed range set is the number of its elements.\<close>

theorem RangeSetItems_card:
  assumes "rs_ok rs"
  shows "RangeSetItems rs = of_nat (card (rs_set rs))"
  using assms by (simp add: rs_ok_def rs_inv_good rs_count_def RangeSetItems_def rs_set_es_set card_es_set)

theorem RangeSetItems_card_witness: "RangeSetItems rs_ex = of_nat (card (rs_set rs_ex))"
  by (rule RangeSetItems_card [OF rs_ex_ok])

text \<open>removing a range from the front of the entry that holds it removes exactly that range,
  wherever the cursor stands.\<close>

theorem RangeSetRemoveRange_front:
  assumes "rs_ok rs" and "0 < t" "t \<le> length (Entries rs)" and "End1 (RSE rs t) \<noteq> 0"
    and "start = Start (RSE rs t)" and "start \<le> end1" and "end1 \<in> rse_set (RSE rs t)"
  shows "\<exists>rs'. RangeSetRemoveRange al rs start end1 = Some (Inr (True, rs')) \<and> rs_ok rs' \<and>
    rs_set rs' = rs_set rs - {start..end1}"
proof -
  let ?a = "RSE rs t" let ?k = "unat end1 + 1"
  obtain A B where es: "Entries rs = A @ ?a # B" "t = Suc (length A)"
    using rs_split [OF assms(1-3)] by metis
  have k: "rlo ?a < ?k" "?k \<le> rhi ?a" using assms(7) by (auto simp: in_rse_set)
  have inv: "rs_inv rs" using assms(1) by (simp add: rs_ok_def)
  let ?q = "release_if_empty (set_RSE rs t (?a\<lparr>Start := end1 + 1\<rparr>)) t"
  have "{x \<in> rse_set ?a. unat x < ?k} = {start..end1}"
    using k assms(5) by (auto simp: in_rse_set rlo_def word_le_nat_alt)
  moreover have "of_nat ?k = end1 + 1" by (simp add: add.commute)
  ultimately have "removed rs {start..end1} (end1 + 1 - start) ?q"
    using trim_front [OF es(1) inv k] es(2) assms(5) by (simp add: add.commute [of end1 1])
  from removed_ok [OF assms(1) this]
  have "rs_ok (?q\<lparr>NrItems := NrItems ?q - (end1 - start + 1)\<rparr>)"
    "rs_set (?q\<lparr>NrItems := NrItems ?q - (end1 - start + 1)\<rparr>) = rs_set rs - {start..end1}"
    by (simp_all add: algebra_simps)
  moreover have "start \<in> rse_set ?a" using assms(5) k by (auto simp: in_rse_set rlo_def)
  ultimately show ?thesis
    using RemoveRange_at [OF assms(1-3) _ assms(4), of start al end1] assms(5)
    by (simp add: RangeSetRemove_at_def)
qed

theorem RangeSetRemoveRange_front_witness:
  "\<exists>rs'. RangeSetRemoveRange False rs_ex 10 12 = Some (Inr (True, rs')) \<and> rs_ok rs' \<and>
    rs_set rs' = rs_set rs_ex - {10..12}"
  by (rule RangeSetRemoveRange_front [where t = 2]) (simp_all add: rs_ex_def rs_eval)

text \<open>The two inner cases of \<^verbatim>\<open>RangeSetRemoveRange\<close>: the range ends its entry, or splits it.  Both
  set the exclusive end of what is left in front to \<open>start - 1\<close>.\<close>

lemma remove_at_tail:
  assumes es: "Entries rs = A @ RSE rs t # B" "t = Suc (length A)" and inv: "rs_inv rs"
    and "rlo (RSE rs t) + 1 < unat start" "unat start \<le> unat end1" "End1 (RSE rs t) = end1 + 1" "end1 + 1 \<noteq> 0"
  shows "\<exists>rs'. RangeSetRemove_at al rs t start end1 = (True, rs') \<and> rs_inv rs' \<and>
    rs_set rs' = rs_set rs - {start - 1..end1}"
proof -
  let ?a = "RSE rs t" let ?j = "unat start - 1"
  let ?q = "release_if_empty (set_RSE rs t (?a\<lparr>End1 := start - 1\<rparr>)) t"
  have hi: "rhi ?a = unat end1 + 1"
    using assms(6,7) by (auto simp: rhi_def unat_succ succ_eq_0_iff split: if_splits)
  have j: "of_nat ?j = start - 1" "unat (start - 1) = ?j"
    using assms(4) by (simp_all add: unat_pred word_eq_unat)
  have "{x \<in> rse_set ?a. ?j \<le> unat x} = {start - 1..end1}"
    using hi assms(4) j by (auto simp: in_rse_set word_le_nat_alt)
  then have "removed rs {start - 1..end1} (End1 ?a - (start - 1)) ?q"
    using trim_back [OF es(1) inv, of ?j] assms(4,5) hi j es(2) by simp
  moreover have "Start ?a \<noteq> start" using assms(4) by (auto simp: rlo_def)
  ultimately show ?thesis
    using assms(6) by (auto simp: RangeSetRemove_at_def removed_def rs_inv_good rs_set_es_set)
qed

lemma remove_inside:
  assumes es: "Entries rs = A @ RSE rs t # B" "t = Suc (length A)" and inv: "rs_inv rs"
    and b: "rlo (RSE rs t) + 1 < unat start" "unat start \<le> unat end1" "unat end1 + 1 < rhi (RSE rs t)"
  shows "\<exists>rs'. RangeSetRemove_at True rs t start end1 = (True, rs') \<and> rs_inv rs' \<and>
    rs_set rs' = rs_set rs - {start - 1..end1}"
proof -
  let ?a = "RSE rs t" let ?j = "unat start - 1" and ?k = "unat end1 + 1"
  have j: "of_nat ?j = start - 1" "unat (start - 1) = ?j"
    using b(1) by (simp_all add: unat_pred word_eq_unat)
  have k: "of_nat ?k = end1 + 1" by (simp add: add.commute)
  obtain new rs1 where al: "allocate_rse True rs = (Some new, rs1)"
    by (cases "RseCache rs") (auto simp: allocate_rse_def)
  then have rs1: "Entries rs1 = Entries rs" "RseCursor rs1 = RseCursor rs" "NrItems rs1 = NrItems rs"
    "RSE rs1 t = ?a"
    by (auto simp: allocate_rse_def RSE_def split: list.splits if_splits)
  let ?f = "new\<lparr>Start := end1 + 1, End1 := End1 ?a\<rparr>"
  let ?q = "InsertHeadList (set_RSE rs1 t (?a\<lparr>End1 := start - 1\<rparr>)) t ?f"
  have q: "Entries ?q = A @ ?a\<lparr>End1 := start - 1\<rparr> # ?f # B" "NrItems ?q = NrItems rs"
    "RseCursor ?q \<le> length (Entries ?q)"
    using rs1 es inv set_RSE_Entries [of rs1 A ?a B "?a\<lparr>End1 := start - 1\<rparr>"]
    by (auto simp: InsertHeadList_def rs_inv_def)
  have "removed rs {x \<in> rse_set ?a. ?j \<le> unat x \<and> unat x < ?k} (of_nat ?k - of_nat ?j) ?q"
    by (rule trim_split [OF es(1) inv, where f = ?f and new = new]) (use b q j k in auto)
  moreover have "{x \<in> rse_set ?a. ?j \<le> unat x \<and> unat x < ?k} = {start - 1..end1}"
    using b j by (auto simp: in_rse_set word_le_nat_alt)
  moreover have "Start ?a \<noteq> start" "End1 ?a \<noteq> end1 + 1"
    using b unat_succ [of end1] by (auto simp: rlo_def rhi_def split: if_splits)
  ultimately show ?thesis
    using al rs1 by (auto simp: RangeSetRemove_at_def removed_def rs_inv_good rs_set_es_set)
qed

text \<open>removing a range from inside an entry, with at least two indices before it, also removes
  the index just below the range: the new exclusive end is set to \<open>start - 1\<close> instead of \<open>start\<close>.\<close>

theorem RangeSetRemoveRange_drops_predecessor:
  assumes "rs_ok rs" and "0 < t" "t \<le> length (Entries rs)" and "End1 (RSE rs t) \<noteq> 0"
    and "unat (Start (RSE rs t)) + 1 < unat start" and "start \<le> end1" and "end1 \<in> rse_set (RSE rs t)"
  shows "\<exists>rs'. RangeSetRemoveRange True rs start end1 = Some (Inr (True, rs')) \<and> rs_inv rs' \<and>
    start - 1 \<in> rs_set rs \<and> rs_set rs' = rs_set rs - {start - 1..end1}"
proof -
  let ?a = "RSE rs t"
  obtain A B where es: "Entries rs = A @ ?a # B" "t = Suc (length A)"
    using rs_split [OF assms(1-3)] by metis
  have inv: "rs_inv rs" using assms(1) by (simp add: rs_ok_def)
  have b: "rlo ?a + 1 < unat start" "unat start \<le> unat end1" "unat end1 + 1 \<le> rhi ?a"
    using assms(5-7) by (auto simp: in_rse_set rlo_def word_le_nat_alt)
  have "unat (start - 1) = unat start - 1" using b(1) by (simp add: unat_pred word_eq_unat)
  with b have hit: "start \<in> rse_set ?a" and X: "start - 1 \<in> rse_set ?a" by (auto simp: in_rse_set)
  from X es(1) have "start - 1 \<in> rs_set rs" by (simp add: rs_set_es_set)
  moreover have "\<exists>rs'. RangeSetRemove_at True rs t start end1 = (True, rs') \<and> rs_inv rs' \<and>
    rs_set rs' = rs_set rs - {start - 1..end1}"
  proof (cases "unat end1 + 1 = rhi ?a")
    case True
    then have "End1 ?a = end1 + 1" by (simp add: End1_of_nat [of ?a] add.commute flip: True)
    with remove_at_tail [OF es inv b(1,2)] assms(4) show ?thesis by simp
  qed (use remove_inside [OF es inv b(1,2)] b(3) in simp)
  ultimately show ?thesis
    using RemoveRange_at [OF assms(1-3) hit assms(4), of True end1] by auto
qed

theorem RangeSetRemoveRange_drops_predecessor_witness:
  "\<exists>rs'. RangeSetRemoveRange True rs_ex 15 15 = Some (Inr (True, rs')) \<and> rs_inv rs' \<and>
    15 - 1 \<in> rs_set rs_ex \<and> rs_set rs' = rs_set rs_ex - {15 - 1..15}"
  by (rule RangeSetRemoveRange_drops_predecessor [where t = 2]) (simp_all add: rs_ex_def rs_eval)

text \<open>the search for an index that lies in a gap between two entries never returns, whatever
  the cursor: it moves back and forth between the two neighbours, so the assertion that is meant to
  catch the removal of an absent index is not reached.\<close>

theorem RangeSetRemoveRange_gap_diverges:
  assumes "rs_ok rs" and "0 < i" "i < length (Entries rs)"
    and "End1 (RSE rs i) \<noteq> 0" and "End1 (RSE rs i) \<le> start" and "start < Start (RSE rs (Suc i))"
  shows "RangeSetRemoveRange al rs start end1 = None"
proof -
  let ?c = "if RseCursor rs = 0 then Flink rs 0 else RseCursor rs"
  have c: "?c \<noteq> 0" "?c \<le> length (Entries rs)"
    using assms(1-3) by (auto simp: rs_ok_def rs_inv_def Flink_def)
  moreover have "RangeSetRemove_find rs start ?c = None"
    using assms c by (intro find_gap_never_returns [OF assms(1-3)])
      (simp_all add: rhi_def rlo_def word_le_nat_alt word_less_nat_alt)
  ultimately show ?thesis by (simp add: RangeSetRemoveRange_def Let_def)
qed

theorem RangeSetRemoveRange_gap_diverges_witness: "RangeSetRemoveRange True rs_ex 9 9 = None"
  by (rule RangeSetRemoveRange_gap_diverges [where i = 1]) (simp_all add: rs_ex_def rs_eval)

text \<open>a block that \<open>RangeSetPopAlignedBlock\<close> returns is aligned, was in the set and is exactly
  what is removed, and a failure leaves the set as it was, provided every unaligned entry reaches up
  to the next multiple of the alignment.\<close>

theorem RangeSetPopAlignedBlock_correct:
  assumes "rs_ok rs" and "sz \<noteq> 0" and "alignment \<noteq> 0"
    and "\<forall>e \<in> set (Entries rs). Start e mod alignment \<noteq> 0 \<longrightarrow> aligned_up alignment e \<le> rhi e"
  shows "\<exists>r rs'. RangeSetPopAlignedBlock alloc rs alignment sz = Inr (r, rs') \<and>
    (case r of
       None \<Rightarrow> rs_ok rs' \<and> rs_set rs' = rs_set rs
     | Some x \<Rightarrow> rs_ok rs' \<and> x mod alignment = 0 \<and> block x sz \<subseteq> rs_set rs \<and>
         rs_set rs' = rs_set rs - block x sz)"
proof -
  obtain r rs' where w: "PopAligned_walk alloc (length (Entries rs)) 1 rs alignment sz = (r, rs')"
    by fastforce
  from PopAligned_walk_spec [OF assms(1-3) _ _ assms(4) w] w assms(2,3) show ?thesis
    by (auto simp: RangeSetPopAlignedBlock_def popped_def split: option.splits)
qed

theorem RangeSetPopAlignedBlock_correct_witness:
  "\<exists>r rs'. RangeSetPopAlignedBlock (\<lambda>_. True) rs_ex 4 4 = Inr (r, rs') \<and>
    (case r of
       None \<Rightarrow> rs_ok rs' \<and> rs_set rs' = rs_set rs_ex
     | Some x \<Rightarrow> rs_ok rs' \<and> x mod 4 = 0 \<and> block x 4 \<subseteq> rs_set rs_ex \<and>
         rs_set rs' = rs_set rs_ex - block x 4)"
  by (rule RangeSetPopAlignedBlock_correct [OF rs_ex_ok])
    (simp_all add: rs_ex_def rs_eval aligned_up_def)

text \<open>Without that proviso the contract fails.  From the set \<open>{1, 2}\<close> an aligned block of two
  indices at a multiple of eight is handed out although neither of its indices is in the set: the
  distance from the aligned start to the end of the entry wraps around.\<close>

theorem RangeSetPopAlignedBlock_wraps:
  "\<exists>rs x rs'. rs_ok (rs :: u64 range_set) \<and> rs_set rs = {1, 2} \<and>
    RangeSetPopAlignedBlock (\<lambda>_. True) rs 8 2 = Inr (Some x, rs') \<and> x = 8 \<and> block x 2 \<inter> rs_set rs = {}"
proof -
  let ?rs = "\<lparr>Entries = [\<lparr>Start = 1, End1 = 3\<rparr>], RseCursor = 0, RseCache = [], NrRSEs = 1, NrItems = 2,
      NrRSEsCached = 0\<rparr> :: u64 range_set"
  have "rs_ok ?rs" by (simp add: rs_eval)
  moreover have "x \<in> {1, 2}" if "1 \<le> x" "x < 3" for x :: "64 word"
  proof -
    have "unat x = 1 \<or> unat x = 2" using that by (simp add: word_le_nat_alt word_less_nat_alt) linarith
    then show ?thesis by (auto simp: word_eq_unat)
  qed
  then have s: "rs_set ?rs = {1, 2}" by (auto simp: rs_set_def rse_set_def)
  moreover have "fst (PopAligned_walk (\<lambda>_. True) 1 1 ?rs 8 2) = Some 8"
    by (simp add: PopAligned_body_def RSE_def allocate_rse_def Let_def)
  then have "\<exists>rs'. RangeSetPopAlignedBlock (\<lambda>_. True) ?rs 8 2 = Inr (Some 8, rs')"
    by (cases "PopAligned_walk (\<lambda>_. True) 1 1 ?rs 8 2") (simp add: RangeSetPopAlignedBlock_def)
  moreover have "block 8 2 \<inter> rs_set ?rs = {}" unfolding s by (simp add: block_def)
  ultimately show ?thesis by blast
qed
end
