(* ===== verification/GrantTable.thy ===== *)
theory GrantTable
  imports Prelude
begin

unbundle bit_operations_syntax

text \<open>
  The grant table: \<^verbatim>\<open>src/xenutil/gnttab.c\<close>, with the reference encoding of \<^verbatim>\<open>src/inc/xsapi.h\<close>.

  Free references are kept in singly linked lists threaded through \<open>gnttab_list\<close>: one for the main
  pool (\<open>gnttab_free_head\<close>) and one per cache (\<open>head_free\<close>).  The fixed C arrays are functions on
  \<open>nat\<close>; an access beyond the array, or through a null entry of \<^verbatim>\<open>GnttabTableInd\<close> (a frame that is
  not \<open>frame_mapped\<close>), is the fault \<open>BadPointer\<close>.  The width of \<^verbatim>\<open>ULONG_PTR\<close> is 64.

  Outside the model are the allocator of the I/O hole and the hypercall that maps a table frame; an
  \<open>env\<close> gives their answers to the \<open>n\<close>-th call of \<^verbatim>\<open>ExpandGrantTable\<close> (\<open>io_mem n\<close> the physical
  address or no memory, \<open>physmap n\<close> whether the hypercall succeeds).  Xen changes the flags of a
  table entry concurrently; this interference is an argument of \<^verbatim>\<open>GnttabEndForeignAccessRef\<close>.
\<close>

section \<open>References\<close>

type_synonym GRANT_REF = u64

definition null_GRANT_REF :: GRANT_REF where
  "null_GRANT_REF = 0"

definition is_null_GRANT_REF :: "GRANT_REF \<Rightarrow> bool" where
  "is_null_GRANT_REF g \<longleftrightarrow> g = 0"

definition xen_GRANT_REF :: "GRANT_REF \<Rightarrow> u32" where
  "xen_GRANT_REF g = ucast (drop_bit 10 g - 1)"

definition wrap_GRANT_REF :: "u32 \<Rightarrow> u32 \<Rightarrow> GRANT_REF" where
  "wrap_GRANT_REF x cache = ucast (push_bit 10 (x + 1) OR (cache AND 3))"

definition ChangeGrantCache :: "GRANT_REF \<Rightarrow> u32 \<Rightarrow> GRANT_REF" where
  "ChangeGrantCache ref cache = wrap_GRANT_REF (xen_GRANT_REF ref) cache"

definition GRANT_REF_cache :: "GRANT_REF \<Rightarrow> u64" where
  "GRANT_REF_cache gr = gr AND 3"

abbreviation gidx :: "GRANT_REF \<Rightarrow> nat" where
  "gidx g \<equiv> unat (xen_GRANT_REF g)"

section \<open>State\<close>

abbreviation NR_RESERVED_ENTRIES :: nat where "NR_RESERVED_ENTRIES \<equiv> 8"
abbreviation GRANT_ENTRIES_PER_PAGE :: nat where "GRANT_ENTRIES_PER_PAGE \<equiv> 512"
abbreviation MAX_NR_GRANT_FRAMES :: nat where "MAX_NR_GRANT_FRAMES \<equiv> 32"
abbreviation MAX_NR_GRANT_ENTRIES :: nat where "MAX_NR_GRANT_ENTRIES \<equiv> 16384"
abbreviation GNTTAB_CACHE_THRESHOLD :: u32 where "GNTTAB_CACHE_THRESHOLD \<equiv> 64"

abbreviation DOMID_INVALID :: u16 where "DOMID_INVALID \<equiv> 0x7FF4"
abbreviation GTF_permit_access :: u16 where "GTF_permit_access \<equiv> 1"
abbreviation GTF_readonly :: u16 where "GTF_readonly \<equiv> 4"
abbreviation GTF_reading :: u16 where "GTF_reading \<equiv> 8"
abbreviation GTF_writing :: u16 where "GTF_writing \<equiv> 16"

record grant_entry =
  ge_flags :: u16
  ge_domid :: u16
  ge_frame :: u32

record gnttab =
  GnttabTable :: "nat \<Rightarrow> grant_entry"
  frame_mapped :: "nat \<Rightarrow> bool"
  GnttabPhysAddrs :: "nat \<Rightarrow> u64"
  gnttab_list :: "nat \<Rightarrow> GRANT_REF"
  gnttab_pfns :: "nat \<Rightarrow> u32"
  gnttab_domids :: "nat \<Rightarrow> u16"
  gnttab_readonly_flags :: "nat \<Rightarrow> u8"
  gnttab_free_count :: u32
  gnttab_free_head :: GRANT_REF
  nr_grant_frames :: nat
  grant_table_fully_mapped :: bool
  gnttab_lock :: bool
  expansions :: nat
  next_id :: u32
  sh_registered :: bool
  GnttabStarted :: bool

record grant_cache =
  gc_linked :: bool
  gc_id :: u32
  nr_outstanding :: u32
  population :: u32
  min_population :: u32
  head_free :: GRANT_REF

record env =
  io_mem :: "nat \<Rightarrow> u64 option"
  physmap :: "nat \<Rightarrow> bool"

definition valid_GRANT_REF :: "gnttab \<Rightarrow> GRANT_REF \<Rightarrow> bool" where
  "valid_GRANT_REF s gr \<longleftrightarrow>
     \<not> is_null_GRANT_REF gr \<and> gidx gr < GRANT_ENTRIES_PER_PAGE * nr_grant_frames s"

definition GRANT_REF_NEXT :: "gnttab \<Rightarrow> GRANT_REF \<Rightarrow> GRANT_REF" where
  "GRANT_REF_NEXT s g = gnttab_list s (gidx g)"

definition set_GRANT_REF_NEXT :: "gnttab \<Rightarrow> GRANT_REF \<Rightarrow> GRANT_REF \<Rightarrow> gnttab" where
  "set_GRANT_REF_NEXT s g v = s\<lparr>gnttab_list := (gnttab_list s)(gidx g := v)\<rparr>"

definition in_list :: "GRANT_REF \<Rightarrow> 'a res \<Rightarrow> 'a res" where
  "in_list g m = (if gidx g < MAX_NR_GRANT_ENTRIES then m else Inl BadPointer)"

definition in_table :: "gnttab \<Rightarrow> GRANT_REF \<Rightarrow> 'a res \<Rightarrow> 'a res" where
  "in_table s g m =
     (if gidx g < MAX_NR_GRANT_ENTRIES \<and> frame_mapped s (gidx g div GRANT_ENTRIES_PER_PAGE)
      then m else Inl BadPointer)"

definition acquire_gnttab_lock :: "gnttab \<Rightarrow> gnttab res" where
  "acquire_gnttab_lock s = (if gnttab_lock s then Inl Deadlock else Inr (s\<lparr>gnttab_lock := True\<rparr>))"

definition release_gnttab_lock :: "gnttab \<Rightarrow> gnttab" where
  "release_gnttab_lock s = s\<lparr>gnttab_lock := False\<rparr>"

definition acquire_unless :: "bool \<Rightarrow> gnttab \<Rightarrow> gnttab res" where
  "acquire_unless locked s = (if locked then Inr s else acquire_gnttab_lock s)"

definition release_unless :: "bool \<Rightarrow> gnttab \<Rightarrow> gnttab" where
  "release_unless locked s = (if locked then s else release_gnttab_lock s)"

section \<open>The main pool\<close>

definition pool_push :: "gnttab \<Rightarrow> GRANT_REF \<Rightarrow> gnttab" where
  "pool_push s ref =
     (let s1 = set_GRANT_REF_NEXT s ref (gnttab_free_head s)
      in s1\<lparr>gnttab_free_head := ref, gnttab_free_count := gnttab_free_count s1 + 1\<rparr>)"

definition pool_pop :: "gnttab \<Rightarrow> gnttab" where
  "pool_pop s =
     (let ref = gnttab_free_head s;
          s1 = s\<lparr>gnttab_free_count := gnttab_free_count s - 1, gnttab_free_head := GRANT_REF_NEXT s ref\<rparr>
      in set_GRANT_REF_NEXT s1 ref null_GRANT_REF)"

definition put_free_entry :: "gnttab \<Rightarrow> GRANT_REF \<Rightarrow> bool \<Rightarrow> gnttab res" where
  "put_free_entry s ref locked =
     res_bind (acquire_unless locked s) (\<lambda>s.
       xm_assert (valid_GRANT_REF s ref)
        (in_list ref
          (xm_assert (is_null_GRANT_REF (GRANT_REF_NEXT s ref))
            (Inr (release_unless locked (pool_push s ref))))))"

definition set_entry :: "gnttab \<Rightarrow> GRANT_REF \<Rightarrow> grant_entry \<Rightarrow> gnttab" where
  "set_entry s g e = s\<lparr>GnttabTable := (GnttabTable s)(gidx g := e)\<rparr>"

definition Expand_one :: "nat \<Rightarrow> nat \<Rightarrow> gnttab \<Rightarrow> gnttab res" where
  "Expand_one starting_ref x s =
     (let ref = wrap_GRANT_REF (of_nat (x + starting_ref)) 0
      in if unat (xen_GRANT_REF ref) < NR_RESERVED_ENTRIES then Inr s
         else in_table s ref
               (put_free_entry
                 (set_entry s ref \<lparr>ge_flags = 0, ge_domid = DOMID_INVALID,
                                   ge_frame = of_nat (x + starting_ref)\<rparr>) ref True))"

fun Expand_loop :: "nat \<Rightarrow> nat list \<Rightarrow> gnttab \<Rightarrow> gnttab res" where
  "Expand_loop starting_ref [] s = Inr s"
| "Expand_loop starting_ref (x # xs) s =
     res_bind (Expand_one starting_ref x s) (Expand_loop starting_ref xs)"

definition ExpandGrantTable :: "env \<Rightarrow> gnttab \<Rightarrow> (bool \<times> gnttab) res" where
  "ExpandGrantTable E s0 =
     (let n = expansions s0; s = s0\<lparr>expansions := n + 1\<rparr>
      in if nr_grant_frames s = MAX_NR_GRANT_FRAMES \<or> grant_table_fully_mapped s then Inr (False, s)
         else case io_mem E n of
                None \<Rightarrow> Inr (False, s)
              | Some pa \<Rightarrow>
                  let s1 = s\<lparr>GnttabPhysAddrs := (GnttabPhysAddrs s)(nr_grant_frames s := pa)\<rparr>
                  in if \<not> physmap E n then Inr (False, s1\<lparr>grant_table_fully_mapped := True\<rparr>)
                     else let starting_ref = nr_grant_frames s1 * GRANT_ENTRIES_PER_PAGE;
                              s2 = s1\<lparr>frame_mapped := (frame_mapped s1)(nr_grant_frames s1 := True),
                                       nr_grant_frames := nr_grant_frames s1 + 1\<rparr>
                          in res_bind (Expand_loop starting_ref [0..<GRANT_ENTRIES_PER_PAGE] s2)
                              (\<lambda>s3. Inr (True, s3)))"

text \<open>\<^verbatim>\<open>get_free_entry\<close> from its second test of \<open>gnttab_free_count\<close> on: the exhausted path releases the
  lock whether or not it was taken here.\<close>

definition take_free_entry :: "gnttab \<Rightarrow> bool \<Rightarrow> (GRANT_REF \<times> gnttab) res" where
  "take_free_entry s locked =
     (if gnttab_free_count s = 0 then Inr (null_GRANT_REF, release_gnttab_lock s)
      else let ref = gnttab_free_head s
           in xm_assert (valid_GRANT_REF s ref)
               (in_list ref
                 (let s1 = pool_pop s
                  in xm_assert (gnttab_free_count s1 = 0 \<longleftrightarrow> is_null_GRANT_REF (gnttab_free_head s1))
                      (xm_assert (GRANT_REF_cache ref = 0) (Inr (ref, release_unless locked s1))))))"

definition get_free_entry :: "env \<Rightarrow> gnttab \<Rightarrow> bool \<Rightarrow> (GRANT_REF \<times> gnttab) res" where
  "get_free_entry E s locked =
     res_bind (acquire_unless locked s) (\<lambda>s.
       res_bind (if gnttab_free_count s = 0 then ExpandGrantTable E s else Inr (False, s)) (\<lambda>(_, s).
         take_free_entry s locked))"

section \<open>Caches\<close>

definition cache_push :: "gnttab \<times> grant_cache \<Rightarrow> GRANT_REF \<Rightarrow> gnttab \<times> grant_cache" where
  "cache_push sg ref =
     (set_GRANT_REF_NEXT (fst sg) ref (head_free (snd sg)),
      (snd sg)\<lparr>head_free := ref, population := population (snd sg) + 1\<rparr>)"

definition cache_pop :: "gnttab \<times> grant_cache \<Rightarrow> gnttab \<times> grant_cache" where
  "cache_pop sg =
     (let ref = head_free (snd sg)
      in (set_GRANT_REF_NEXT (fst sg) ref null_GRANT_REF,
          (snd sg)\<lparr>population := population (snd sg) - 1, head_free := GRANT_REF_NEXT (fst sg) ref\<rparr>))"

definition put_cache_entry :: "gnttab \<Rightarrow> grant_cache \<Rightarrow> GRANT_REF \<Rightarrow> (gnttab \<times> grant_cache) res" where
  "put_cache_entry s gc ref =
     xm_assert (GRANT_REF_cache ref = ucast (gc_id gc))
      (in_list ref
        (xm_assert (is_null_GRANT_REF (GRANT_REF_NEXT s ref))
          (Inr (cache_push (s, gc) ref))))"

text \<open>The loop runs until the population reaches \<open>target_pop\<close> or the pool is empty; \<open>n\<close> is the
  number of references still wanted.\<close>

fun Replenish_loop :: "env \<Rightarrow> nat \<Rightarrow> gnttab \<Rightarrow> grant_cache \<Rightarrow> (gnttab \<times> grant_cache) res" where
  "Replenish_loop E 0 s gc = Inr (s, gc)"
| "Replenish_loop E (Suc n) s gc =
     res_bind (get_free_entry E s True) (\<lambda>(ref, s).
       if is_null_GRANT_REF ref then Inr (s, gc)
       else res_bind (put_cache_entry s gc (ChangeGrantCache ref (gc_id gc)))
             (\<lambda>(s, gc). Replenish_loop E n s gc))"

definition ReplenishCache ::
  "env \<Rightarrow> gnttab \<Rightarrow> grant_cache \<Rightarrow> u32 \<Rightarrow> (bool \<times> gnttab \<times> grant_cache) res" where
  "ReplenishCache E s gc target_pop =
     xm_assert (population gc < target_pop)
      (res_bind (acquire_gnttab_lock s) (\<lambda>s.
        res_bind (Replenish_loop E (unat (target_pop - population gc)) s gc) (\<lambda>(s, gc).
          Inr (population gc = target_pop, release_gnttab_lock s, gc))))"

definition get_cache_entry :: "gnttab \<Rightarrow> grant_cache \<Rightarrow> (GRANT_REF \<times> gnttab \<times> grant_cache) res" where
  "get_cache_entry s gc =
     (if population gc = 0 then Inr (null_GRANT_REF, s, gc)
      else let ref = head_free gc
           in xm_assert (valid_GRANT_REF s ref)
               (in_list ref
                 (let (s1, gc1) = cache_pop (s, gc)
                  in xm_assert (population gc1 = 0 \<longleftrightarrow> is_null_GRANT_REF (head_free gc1))
                      (xm_assert (GRANT_REF_cache ref = ucast (gc_id gc1)) (Inr (ref, s1, gc1))))))"

fun Trim_loop :: "nat \<Rightarrow> gnttab \<Rightarrow> grant_cache \<Rightarrow> (gnttab \<times> grant_cache) res" where
  "Trim_loop 0 s gc = Inr (s, gc)"
| "Trim_loop (Suc n) s gc =
     res_bind (get_cache_entry s gc) (\<lambda>(ref, s, gc).
       xm_assert (\<not> is_null_GRANT_REF ref)
        (res_bind (put_free_entry s (ChangeGrantCache ref 0) True) (\<lambda>s. Trim_loop n s gc)))"

definition TrimCache :: "gnttab \<Rightarrow> grant_cache \<Rightarrow> u32 \<Rightarrow> (gnttab \<times> grant_cache) res" where
  "TrimCache s gc target_pop =
     xm_assert (target_pop \<le> population gc)
      (res_bind (acquire_gnttab_lock s) (\<lambda>s.
        res_bind (Trim_loop (unat (population gc - target_pop)) s gc) (\<lambda>(s, gc).
          Inr (release_gnttab_lock s, gc))))"

section \<open>Granting and revoking access\<close>

definition GnttabGetGrantRef :: "env \<Rightarrow> gnttab \<Rightarrow> (GRANT_REF \<times> gnttab) res" where
  "GnttabGetGrantRef E s = get_free_entry E s False"

definition readonly_bit :: "nat \<Rightarrow> u8" where
  "readonly_bit x = push_bit (x mod 8) 1"

definition GnttabGrantForeignAccessRef ::
  "gnttab \<Rightarrow> u16 \<Rightarrow> u64 \<Rightarrow> u32 \<Rightarrow> GRANT_REF \<Rightarrow> gnttab res" where
  "GnttabGrantForeignAccessRef s domid frame mode ref =
     xm_assert (mode = 0 \<or> mode = 1)
      (xm_assert (drop_bit 32 frame = 0)
        (in_table s ref
          (let xgr = gidx ref;
               fl = gnttab_readonly_flags s (xgr div 8);
               fl' = (if mode = 1 then fl OR readonly_bit xgr else fl AND NOT (readonly_bit xgr));
               ro = (if mode = 1 then GTF_readonly else 0);
               s1 = s\<lparr>gnttab_pfns := (gnttab_pfns s)(xgr := ucast frame),
                      gnttab_domids := (gnttab_domids s)(xgr := domid),
                      gnttab_readonly_flags := (gnttab_readonly_flags s)(xgr div 8 := fl')\<rparr>
           in Inr (set_entry s1 ref
                    \<lparr>ge_flags = GTF_permit_access OR ro, ge_domid = domid, ge_frame = ucast frame\<rparr>))))"

definition GnttabGrantForeignAccess ::
  "env \<Rightarrow> gnttab \<Rightarrow> u16 \<Rightarrow> u64 \<Rightarrow> u32 \<Rightarrow> (GRANT_REF \<times> gnttab) res" where
  "GnttabGrantForeignAccess E s domid frame mode =
     res_bind (get_free_entry E s False) (\<lambda>(ref, s).
       if is_null_GRANT_REF ref then Inr (ref, s)
       else res_bind (GnttabGrantForeignAccessRef s domid frame mode ref) (\<lambda>s. Inr (ref, s)))"

text \<open>
  The compare-and-exchange loop on the flags.  \<open>xen k\<close> is what Xen does to the flags between the
  driver's last look at them and its \<open>k\<close>-th exchange.  The result is the status and the flags left
  in the entry; \<open>None\<close> is a loop that Xen keeps running forever.
\<close>

partial_function (option) EndAccess_loop ::
  "(nat \<Rightarrow> u16 \<Rightarrow> u16) \<Rightarrow> nat \<Rightarrow> u16 \<Rightarrow> (NTSTATUS \<times> u16) option" where
  "EndAccess_loop xen k flags =
     (if flags AND (GTF_reading OR GTF_writing) \<noteq> 0 then Some (STATUS_DEVICE_BUSY, flags)
      else let nflags = xen k flags
           in if nflags = flags then Some (STATUS_SUCCESS, 0)
              else EndAccess_loop xen (Suc k) nflags)"

definition GnttabEndForeignAccessRef ::
  "(nat \<Rightarrow> u16 \<Rightarrow> u16) \<Rightarrow> gnttab \<Rightarrow> GRANT_REF \<Rightarrow> (NTSTATUS \<times> gnttab) res option" where
  "GnttabEndForeignAccessRef xen s ref =
     (if \<not> valid_GRANT_REF s ref then Some (Inl XmAssert)
      else if \<not> (gidx ref < MAX_NR_GRANT_ENTRIES \<and> frame_mapped s (gidx ref div GRANT_ENTRIES_PER_PAGE))
      then Some (Inl BadPointer)
      else let e = GnttabTable s (gidx ref)
           in case EndAccess_loop xen 0 (ge_flags e) of
                None \<Rightarrow> None
              | Some (STATUS_SUCCESS, flags) \<Rightarrow>
                  (let s1 = set_entry s ref \<lparr>ge_flags = flags, ge_domid = DOMID_INVALID,
                                             ge_frame = xen_GRANT_REF ref\<rparr>
                   in Some (Inr (STATUS_SUCCESS,
                        s1\<lparr>gnttab_pfns := (gnttab_pfns s1)(gidx ref := 0),
                           gnttab_domids := (gnttab_domids s1)(gidx ref := DOMID_INVALID)\<rparr>)))
              | Some (status, flags) \<Rightarrow>
                  Some (Inr (status, set_entry s ref (e\<lparr>ge_flags := flags\<rparr>))))"

definition GnttabEndForeignAccess ::
  "(nat \<Rightarrow> u16 \<Rightarrow> u16) \<Rightarrow> gnttab \<Rightarrow> GRANT_REF \<Rightarrow> (NTSTATUS \<times> gnttab) res option" where
  "GnttabEndForeignAccess xen s ref =
     (if GRANT_REF_cache ref \<noteq> 0 then Some (Inl XmAssert)
      else case GnttabEndForeignAccessRef xen s ref of
             None \<Rightarrow> None
           | Some r \<Rightarrow> Some (res_bind r (\<lambda>(status, s).
               if status = STATUS_SUCCESS
               then res_bind (put_free_entry s ref False) (\<lambda>s. Inr (status, s))
               else Inr (status, s))))"

definition GnttabGrantForeignAccessCache ::
  "env \<Rightarrow> gnttab \<Rightarrow> u16 \<Rightarrow> u64 \<Rightarrow> u32 \<Rightarrow> grant_cache \<Rightarrow> (GRANT_REF \<times> gnttab \<times> grant_cache) res" where
  "GnttabGrantForeignAccessCache E s domid frame mode gc =
     res_bind (get_cache_entry s gc) (\<lambda>(ref, s, gc).
       res_bind
        (if is_null_GRANT_REF ref
         then res_bind (ReplenishCache E s gc (population gc + GNTTAB_CACHE_THRESHOLD))
               (\<lambda>(_, s, gc). get_cache_entry s gc)
         else Inr (ref, s, gc))
        (\<lambda>(ref, s, gc).
          if is_null_GRANT_REF ref then Inr (null_GRANT_REF, s, gc)
          else res_bind (GnttabGrantForeignAccessRef s domid frame mode ref) (\<lambda>s.
                 Inr (ref, s, gc\<lparr>nr_outstanding := nr_outstanding gc + 1\<rparr>))))"

definition EndCache_trim :: "gnttab \<Rightarrow> grant_cache \<Rightarrow> (gnttab \<times> grant_cache) res" where
  "EndCache_trim s gc =
     (if population gc > min_population gc \<and>
         population gc > nr_outstanding gc + GNTTAB_CACHE_THRESHOLD * 2
      then let target = population gc - GNTTAB_CACHE_THRESHOLD
           in TrimCache s gc (if target < min_population gc then min_population gc else target)
      else Inr (s, gc))"

definition GnttabEndForeignAccessCache ::
  "(nat \<Rightarrow> u16 \<Rightarrow> u16) \<Rightarrow> gnttab \<Rightarrow> GRANT_REF \<Rightarrow> grant_cache \<Rightarrow>
   (NTSTATUS \<times> gnttab \<times> grant_cache) res option" where
  "GnttabEndForeignAccessCache xen s ref gc =
     (case GnttabEndForeignAccessRef xen s ref of
        None \<Rightarrow> None
      | Some r \<Rightarrow> Some (res_bind r (\<lambda>(status, s).
          if status \<noteq> STATUS_SUCCESS then Inr (status, s, gc)
          else res_bind (put_cache_entry s (gc\<lparr>nr_outstanding := nr_outstanding gc - 1\<rparr>) ref) (\<lambda>(s, gc).
                 res_bind (EndCache_trim s gc) (\<lambda>(s, gc). Inr (STATUS_SUCCESS, s, gc))))))"

section \<open>Creating and destroying caches\<close>

text \<open>A cache whose \<open>list\<close> field was never linked has no valid neighbours to unlink it from.\<close>

definition GnttabFreeCache :: "gnttab \<Rightarrow> grant_cache \<Rightarrow> gnttab res" where
  "GnttabFreeCache s gc =
     (if \<not> gc_linked gc then Inl BadPointer
      else xm_assert (nr_outstanding gc = 0)
            (res_bind (TrimCache s (gc\<lparr>gc_linked := False, min_population := 0\<rparr>) 0) (\<lambda>(s, _). Inr s)))"

text \<open>\<^verbatim>\<open>ReplenishCache\<close> returns true only when the population is the wanted one, so the body of the
  \<^verbatim>\<open>while\<close> loop runs at most once.\<close>

definition GnttabAllocCache ::
  "env \<Rightarrow> bool \<Rightarrow> gnttab \<Rightarrow> u32 \<Rightarrow> (grant_cache option \<times> gnttab) res" where
  "GnttabAllocCache E alloc_ok s min_pop =
     (if \<not> alloc_ok then Inr (None, s)
      else let id1 = next_id s AND 3;
               s1 = s\<lparr>next_id := next_id s + 1\<rparr>;
               id2 = (if id1 = 0 then next_id s1 AND 3 else id1);
               s2 = (if id1 = 0 then s1\<lparr>next_id := next_id s1 + 1\<rparr> else s1);
               work = \<lparr>gc_linked = False, gc_id = id2, nr_outstanding = 0, population = 0,
                       min_population = min_pop, head_free = null_GRANT_REF\<rparr>
           in if population work < min_pop
              then res_bind (ReplenishCache E s2 work min_pop) (\<lambda>(ok, s, gc).
                     if \<not> ok then res_bind (GnttabFreeCache s gc) (\<lambda>s. Inr (None, s))
                     else Inr (Some (gc\<lparr>gc_linked := True\<rparr>), s))
              else Inr (Some (work\<lparr>gc_linked := True\<rparr>), s2))"

section \<open>Suspend and initialisation\<close>

text \<open>Repopulating one entry of the table from the saved copy.\<close>

definition Resume_one :: "nat \<Rightarrow> gnttab \<Rightarrow> gnttab res" where
  "Resume_one x s =
     (if gnttab_pfns s x \<noteq> 0
      then let gref = wrap_GRANT_REF (of_nat x) 0;
               ro = (if gnttab_readonly_flags s (x div 8) AND readonly_bit x \<noteq> 0 then GTF_readonly else 0)
           in in_table s gref
               (Inr (set_entry s gref \<lparr>ge_flags = GTF_permit_access OR ro, ge_domid = gnttab_domids s x,
                                       ge_frame = gnttab_pfns s x\<rparr>))
      else Inr s)"

fun Resume_loop :: "nat list \<Rightarrow> gnttab \<Rightarrow> gnttab res" where
  "Resume_loop [] s = Inr s"
| "Resume_loop (x # xs) s = res_bind (Resume_one x s) (Resume_loop xs)"

text \<open>\<open>remap x\<close>: the hypercall that maps frame \<open>x\<close> again succeeds.\<close>

definition GnttabResume :: "(nat \<Rightarrow> bool) \<Rightarrow> gnttab \<Rightarrow> gnttab res" where
  "GnttabResume remap s =
     xm_assert (list_all remap [0..<nr_grant_frames s])
      (Resume_loop [0..<nr_grant_frames s * GRANT_ENTRIES_PER_PAGE] s)"

definition GnttabInit_clear :: "gnttab \<Rightarrow> gnttab" where
  "GnttabInit_clear s =
     s\<lparr>frame_mapped := (\<lambda>_. False), GnttabPhysAddrs := (\<lambda>_. 0), gnttab_list := (\<lambda>_. null_GRANT_REF),
       gnttab_pfns := (\<lambda>_. 0), gnttab_domids := (\<lambda>_. DOMID_INVALID), gnttab_readonly_flags := (\<lambda>_. 0),
       gnttab_free_count := 0, gnttab_free_head := null_GRANT_REF, nr_grant_frames := 0\<rparr>"

text \<open>\<open>sh_ok\<close>: the suspend handler could be registered; \<open>io i\<close>: the I/O memory for frame \<open>i\<close> on the
  second path, whose failure the code does not look at.\<close>

definition GnttabInit ::
  "env \<Rightarrow> bool \<Rightarrow> (nat \<Rightarrow> u64 option) \<Rightarrow> (nat \<Rightarrow> bool) \<Rightarrow> bool \<Rightarrow> gnttab \<Rightarrow> gnttab res" where
  "GnttabInit E sh_ok io remap AustereMode s =
     (if \<not> AustereMode \<and> GnttabStarted s then Inr s
      else res_bind
       (if \<not> sh_registered s
        then res_bind (acquire_gnttab_lock ((GnttabInit_clear s)\<lparr>sh_registered := sh_ok\<rparr>)) (\<lambda>s.
               res_bind (ExpandGrantTable E s) (\<lambda>(_, s). Inr (release_gnttab_lock s)))
        else let s1 = s\<lparr>frame_mapped := (\<lambda>i. if i < nr_grant_frames s then io i \<noteq> None else frame_mapped s i),
                        GnttabPhysAddrs := (\<lambda>i. if i < nr_grant_frames s
                                                then (case io i of Some pa \<Rightarrow> pa | None \<Rightarrow> GnttabPhysAddrs s i)
                                                else GnttabPhysAddrs s i)\<rparr>
             in res_bind (acquire_gnttab_lock s1) (\<lambda>s.
                  res_bind (GnttabResume remap s) (\<lambda>s. Inr (release_gnttab_lock s))))
       (\<lambda>s. Inr (s\<lparr>GnttabStarted := True\<rparr>)))"

definition GnttabCleanup :: "gnttab \<Rightarrow> gnttab" where
  "GnttabCleanup s = s\<lparr>GnttabStarted := False\<rparr>"


section \<open>Encoding of references\<close>

lemma or_low_bits:
  assumes "m < 2 ^ k"
  shows "push_bit k (n :: nat) OR m = n * 2 ^ k + m"
proof -
  have "push_bit k n AND m = 0"
    using assms by (intro bit_eqI)
      (auto simp: bit_simps dest: bit_imp_possible_bit simp flip: take_bit_nat_eq_self_iff,
       metis bit_take_bit_iff leD)
  then show ?thesis
    by (simp add: disjunctive_add_eq_or [symmetric] push_bit_eq_mult)
qed

lemma unat_wrap_GRANT_REF:
  assumes "unat x + 1 < 2 ^ 22"
  shows "unat (wrap_GRANT_REF x c) = (unat x + 1) * 1024 + unat c mod 4"
proof -
  have y: "unat (x + 1) = unat x + 1" using assms by (simp add: unat_succ)
  have "unat (push_bit 10 (x + 1)) = push_bit 10 (unat x + 1)"
    by (subst unsigned_push_bit_eq, subst y)
      (use assms in \<open>simp add: take_bit_nat_eq_self_iff push_bit_nat_def\<close>)
  then have "unat (push_bit 10 (x + 1) OR (c AND 3)) = (unat x + 1) * 1024 + unat c mod 4"
    using or_low_bits [of "unat c mod 4" 10 "unat x + 1"]
    by (simp add: unsigned_or_eq unat_and_3)
  moreover have "(unat x + 1) * 1024 + unat c mod 4 < 2 ^ 64"
    using assms by (rule_tac le_less_trans [of _ "2 ^ 22 * 1024 + 4"]) auto
  ultimately show ?thesis
    by (simp add: wrap_GRANT_REF_def unat_ucast_mod)
qed

lemma wrap_GRANT_REF_simps:
  assumes "unat x + 1 < 2 ^ 22"
  shows "xen_GRANT_REF (wrap_GRANT_REF x c) = x"
    and "GRANT_REF_cache (wrap_GRANT_REF x c) = ucast (c AND 3)"
    and "wrap_GRANT_REF x c \<noteq> 0"
proof -
  note u = unat_wrap_GRANT_REF [OF assms, of c]
  have "unat (drop_bit 10 (wrap_GRANT_REF x c)) = unat x + 1"
    by (simp add: unat_drop_bit u)
  then have "unat (drop_bit 10 (wrap_GRANT_REF x c) - 1) = unat x"
    by (metis add_diff_cancel_right' add_is_0 unat_0 unat_pred zero_neq_one)
  then show "xen_GRANT_REF (wrap_GRANT_REF x c) = x"
    using assms by (simp add: xen_GRANT_REF_def word_eq_unat unat_ucast_mod)
  have "((unat x + 1) * 1024 + unat c mod 4) mod 4 = unat c mod 4"
    by (simp add: mod_add_eq [symmetric] mod_mult_right_eq [symmetric])
  then show "GRANT_REF_cache (wrap_GRANT_REF x c) = ucast (c AND 3)"
    by (simp add: GRANT_REF_cache_def word_eq_unat unat_and_3 unat_ucast_mod u)
  show "wrap_GRANT_REF x c \<noteq> 0"
    by (simp add: word_eq_unat u)
qed

section \<open>Free lists\<close>

text \<open>The references on the list that starts at \<open>p\<close> and is threaded through \<open>f\<close>.\<close>

fun chain :: "(nat \<Rightarrow> GRANT_REF) \<Rightarrow> GRANT_REF \<Rightarrow> GRANT_REF list \<Rightarrow> bool" where
  "chain f p [] \<longleftrightarrow> p = 0"
| "chain f p (r # rs) \<longleftrightarrow> p = r \<and> r \<noteq> 0 \<and> chain f (f (gidx r)) rs"

definition stack :: "(nat \<Rightarrow> GRANT_REF) \<Rightarrow> GRANT_REF \<Rightarrow> u32 \<Rightarrow> GRANT_REF list \<Rightarrow> bool" where
  "stack f p n rs \<longleftrightarrow> chain f p rs \<and> distinct (map xen_GRANT_REF rs) \<and> unat n = length rs"

lemma chain_upd: "xen_GRANT_REF r \<notin> xen_GRANT_REF ` set rs \<Longrightarrow> chain (f(gidx r := v)) p rs = chain f p rs"
  by (induction rs arbitrary: p) (auto simp: word_eq_unat)

lemma stack_upd: "xen_GRANT_REF r \<notin> xen_GRANT_REF ` set rs \<Longrightarrow> stack (f(gidx r := v)) p n rs = stack f p n rs"
  by (simp add: stack_def chain_upd)

lemma stack_Nil: "stack f p n [] \<longleftrightarrow> p = 0 \<and> n = 0"
  by (auto simp: stack_def unat_eq_0)

lemma stack_empty_iff:
  assumes "stack f p n rs"
  shows "n = 0 \<longleftrightarrow> rs = []" and "p = 0 \<longleftrightarrow> rs = []"
  using assms by (cases rs; auto simp: stack_def unat_eq_0)+

text \<open>A pool of references: whatever the state, pushing and popping act on its free list alone.\<close>

locale ref_stack =
  fixes nxt :: "'s \<Rightarrow> nat \<Rightarrow> GRANT_REF"
    and top :: "'s \<Rightarrow> GRANT_REF"
    and cnt :: "'s \<Rightarrow> u32"
    and push :: "'s \<Rightarrow> GRANT_REF \<Rightarrow> 's"
    and pop :: "'s \<Rightarrow> 's"
  assumes nxt_push: "nxt (push s r) = (nxt s)(gidx r := top s)"
    and top_push: "top (push s r) = r"
    and cnt_push: "cnt (push s r) = cnt s + 1"
    and nxt_pop: "nxt (pop s) = (nxt s)(gidx (top s) := 0)"
    and top_pop: "top (pop s) = nxt s (gidx (top s))"
    and cnt_pop: "cnt (pop s) = cnt s - 1"
begin

lemma push_law:
  assumes "stack (nxt s) (top s) (cnt s) rs" and "r \<noteq> 0"
    and "xen_GRANT_REF r \<notin> xen_GRANT_REF ` set rs" and "length rs + 1 < 2 ^ 32"
  shows "stack (nxt (push s r)) (top (push s r)) (cnt (push s r)) (r # rs)"
  using assms by (auto simp: stack_def nxt_push top_push cnt_push chain_upd unat_succ)

lemma pop_law:
  assumes "stack (nxt s) (top s) (cnt s) (r # rs)"
  shows "top s = r" and "r \<noteq> 0" and "stack (nxt (pop s)) (top (pop s)) (cnt (pop s)) rs"
    and "nxt (pop s) (gidx r) = 0" and "cnt (pop s) = 0 \<longleftrightarrow> top (pop s) = 0"
proof -
  show t: "top s = r" "r \<noteq> 0" using assms by (auto simp: stack_def)
  have "cnt s \<noteq> 0" using stack_empty_iff(1) [OF assms] by simp
  then show st: "stack (nxt (pop s)) (top (pop s)) (cnt (pop s)) rs"
    using assms t by (auto simp: stack_def nxt_pop top_pop cnt_pop chain_upd unat_pred)
  show "nxt (pop s) (gidx r) = 0" using t by (simp add: nxt_pop)
  show "cnt (pop s) = 0 \<longleftrightarrow> top (pop s) = 0" using stack_empty_iff [OF st] by simp
qed

lemma pop_push:
  assumes "nxt s (gidx r) = 0"
  shows "nxt (pop (push s r)) = nxt s" and "top (pop (push s r)) = top s"
    and "cnt (pop (push s r)) = cnt s"
  using assms by (auto simp: nxt_push top_push cnt_push nxt_pop top_pop cnt_pop)

end

interpretation pool: ref_stack gnttab_list gnttab_free_head gnttab_free_count pool_push pool_pop
  by unfold_locales
    (simp_all add: pool_push_def pool_pop_def set_GRANT_REF_NEXT_def GRANT_REF_NEXT_def Let_def
      null_GRANT_REF_def)

interpretation cache: ref_stack "\<lambda>sg. gnttab_list (fst sg)" "\<lambda>sg. head_free (snd sg)"
    "\<lambda>sg. population (snd sg)" cache_push cache_pop
  by unfold_locales
    (simp_all add: cache_push_def cache_pop_def set_GRANT_REF_NEXT_def GRANT_REF_NEXT_def Let_def
      null_GRANT_REF_def)

text \<open>What the free-list operations leave alone.\<close>

lemma pool_frame [simp]:
  "nr_grant_frames (pool_push s r) = nr_grant_frames s" "nr_grant_frames (pool_pop s) = nr_grant_frames s"
  "frame_mapped (pool_push s r) = frame_mapped s" "frame_mapped (pool_pop s) = frame_mapped s"
  "gnttab_lock (pool_push s r) = gnttab_lock s" "gnttab_lock (pool_pop s) = gnttab_lock s"
  "GnttabTable (pool_push s r) = GnttabTable s" "GnttabTable (pool_pop s) = GnttabTable s"
  "gnttab_pfns (pool_push s r) = gnttab_pfns s" "gnttab_pfns (pool_pop s) = gnttab_pfns s"
  "gnttab_domids (pool_push s r) = gnttab_domids s" "gnttab_domids (pool_pop s) = gnttab_domids s"
  "gnttab_readonly_flags (pool_push s r) = gnttab_readonly_flags s"
  "gnttab_readonly_flags (pool_pop s) = gnttab_readonly_flags s"
  by (simp_all add: pool_push_def pool_pop_def set_GRANT_REF_NEXT_def Let_def)

lemma cache_frame [simp]:
  "gc_id (snd (cache_push sg r)) = gc_id (snd sg)" "gc_id (snd (cache_pop sg)) = gc_id (snd sg)"
  "nr_outstanding (snd (cache_push sg r)) = nr_outstanding (snd sg)"
  "nr_outstanding (snd (cache_pop sg)) = nr_outstanding (snd sg)"
  "min_population (snd (cache_push sg r)) = min_population (snd sg)"
  "min_population (snd (cache_pop sg)) = min_population (snd sg)"
  "gc_linked (snd (cache_push sg r)) = gc_linked (snd sg)"
  "gc_linked (snd (cache_pop sg)) = gc_linked (snd sg)"
  "fst (cache_push sg r) = (fst sg)\<lparr>gnttab_list := (gnttab_list (fst sg))(gidx r := head_free (snd sg))\<rparr>"
  "fst (cache_pop sg) = (fst sg)\<lparr>gnttab_list := (gnttab_list (fst sg))(gidx (head_free (snd sg)) := 0)\<rparr>"
  by (simp_all add: cache_push_def cache_pop_def set_GRANT_REF_NEXT_def Let_def null_GRANT_REF_def)

section \<open>Well-formed tables, pools and caches\<close>

declare of_nat_add [simp del]

text \<open>A reference handed out under the cache number \<open>c\<close> (0 for the main pool).\<close>

definition ref_ok :: "nat \<Rightarrow> u32 \<Rightarrow> GRANT_REF \<Rightarrow> bool" where
  "ref_ok nr c r \<longleftrightarrow> r = wrap_GRANT_REF (xen_GRANT_REF r) c \<and> NR_RESERVED_ENTRIES \<le> gidx r \<and>
     gidx r < GRANT_ENTRIES_PER_PAGE * nr"

definition tab_ok :: "gnttab \<Rightarrow> bool" where
  "tab_ok s \<longleftrightarrow> nr_grant_frames s \<le> MAX_NR_GRANT_FRAMES \<and> (\<forall>i < nr_grant_frames s. frame_mapped s i) \<and>
     (\<forall>i \<ge> GRANT_ENTRIES_PER_PAGE * nr_grant_frames s. gnttab_list s i = 0)"

definition pool_ok :: "gnttab \<Rightarrow> GRANT_REF list \<Rightarrow> bool" where
  "pool_ok s rs \<longleftrightarrow> tab_ok s \<and> stack (gnttab_list s) (gnttab_free_head s) (gnttab_free_count s) rs \<and>
     (\<forall>r \<in> set rs. ref_ok (nr_grant_frames s) 0 r)"

definition cache_ok :: "gnttab \<Rightarrow> grant_cache \<Rightarrow> GRANT_REF list \<Rightarrow> bool" where
  "cache_ok s gc cs \<longleftrightarrow> gc_id gc < 4 \<and> stack (gnttab_list s) (head_free gc) (population gc) cs \<and>
     (\<forall>r \<in> set cs. ref_ok (nr_grant_frames s) (gc_id gc) r)"

abbreviation xens :: "GRANT_REF list \<Rightarrow> u32 set" where
  "xens rs \<equiv> xen_GRANT_REF ` set rs"

text \<open>The pool and one cache together: no reference is on both free lists.\<close>

definition lists_ok :: "gnttab \<Rightarrow> GRANT_REF list \<Rightarrow> grant_cache \<Rightarrow> GRANT_REF list \<Rightarrow> bool" where
  "lists_ok s rs gc cs \<longleftrightarrow> pool_ok s rs \<and> cache_ok s gc cs \<and> xens rs \<inter> xens cs = {}"

lemma ref_ok_facts:
  assumes "ref_ok nr c r" and "nr \<le> MAX_NR_GRANT_FRAMES"
  shows "gidx r < MAX_NR_GRANT_ENTRIES" and "r \<noteq> 0" and "GRANT_REF_cache r = ucast (c AND 3)"
    and "gidx r div GRANT_ENTRIES_PER_PAGE < nr"
proof -
  show b: "gidx r < MAX_NR_GRANT_ENTRIES" and "gidx r div GRANT_ENTRIES_PER_PAGE < nr"
    using assms by (auto simp: ref_ok_def)
  then have "unat (xen_GRANT_REF r) + 1 < 2 ^ 22" by simp
  from wrap_GRANT_REF_simps(2,3) [OF this, of c] show "r \<noteq> 0" "GRANT_REF_cache r = ucast (c AND 3)"
    using assms(1) unfolding ref_ok_def by metis+
qed

lemma ref_ok_change:
  assumes "ref_ok nr c r" and "nr \<le> MAX_NR_GRANT_FRAMES"
  shows "xen_GRANT_REF (ChangeGrantCache r d) = xen_GRANT_REF r" and "ref_ok nr d (ChangeGrantCache r d)"
proof -
  have "unat (xen_GRANT_REF r) + 1 < 2 ^ 22" using ref_ok_facts(1) [OF assms] by simp
  then show x: "xen_GRANT_REF (ChangeGrantCache r d) = xen_GRANT_REF r"
    by (simp add: ChangeGrantCache_def wrap_GRANT_REF_simps)
  show "ref_ok nr d (ChangeGrantCache r d)"
    using assms x unfolding ref_ok_def by (simp add: ChangeGrantCache_def)
qed

lemma valid_ref_ok:
  assumes "ref_ok (nr_grant_frames s) c r" and "tab_ok s"
  shows "valid_GRANT_REF s r" and "in_list r m = m" and "in_table s r m' = m'"
  using ref_ok_facts [OF assms(1)] assms
  by (auto simp: valid_GRANT_REF_def is_null_GRANT_REF_def in_list_def in_table_def ref_ok_def tab_ok_def)

lemma stack_length:
  assumes "stack f p n rs" and "\<forall>r \<in> set rs. ref_ok nr c r" and "nr \<le> MAX_NR_GRANT_FRAMES"
  shows "length rs \<le> MAX_NR_GRANT_ENTRIES"
proof -
  have "distinct (map unat (map xen_GRANT_REF rs))"
    using assms(1) by (subst distinct_map) (simp add: stack_def inj_on_def word_eq_unat)
  moreover have "set (map unat (map xen_GRANT_REF rs)) \<subseteq> {..<MAX_NR_GRANT_ENTRIES}"
    using assms(2,3) ref_ok_facts(1) by auto
  ultimately show ?thesis
    by (metis card_lessThan card_mono distinct_card finite_lessThan length_map)
qed

lemma pool_frame_list:
  "tab_ok s \<Longrightarrow> ref_ok (nr_grant_frames s) c r \<Longrightarrow> tab_ok (pool_push s r)"
  "tab_ok s \<Longrightarrow> ref_ok (nr_grant_frames s) c (gnttab_free_head s) \<Longrightarrow> tab_ok (pool_pop s)"
  by (auto simp: tab_ok_def ref_ok_def pool.nxt_push pool.nxt_pop)

lemma pool_push_ok:
  assumes "pool_ok s rs" and "ref_ok (nr_grant_frames s) 0 r" and "xen_GRANT_REF r \<notin> xens rs"
  shows "pool_ok (pool_push s r) (r # rs)"
proof -
  have nr: "nr_grant_frames s \<le> MAX_NR_GRANT_FRAMES" using assms(1) by (simp add: pool_ok_def tab_ok_def)
  have "length rs \<le> MAX_NR_GRANT_ENTRIES"
    using assms(1) nr stack_length unfolding pool_ok_def by blast
  with assms ref_ok_facts(2) [OF assms(2) nr] show ?thesis
    by (simp add: pool_ok_def pool.push_law pool_frame_list(1))
qed

lemma pool_pop_ok:
  assumes "pool_ok s (r # rs)"
  shows "pool_ok (pool_pop s) rs" and "gnttab_free_head s = r" and "gnttab_list (pool_pop s) (gidx r) = 0"
    and "ref_ok (nr_grant_frames s) 0 r" and "xen_GRANT_REF r \<notin> xens rs"
proof -
  have st: "stack (gnttab_list s) (gnttab_free_head s) (gnttab_free_count s) (r # rs)"
    using assms by (simp add: pool_ok_def)
  note law = pool.pop_law [OF st]
  show "gnttab_free_head s = r" "gnttab_list (pool_pop s) (gidx r) = 0" by (fact law)+
  show ok: "ref_ok (nr_grant_frames s) 0 r" using assms by (simp add: pool_ok_def)
  show "pool_ok (pool_pop s) rs"
    using assms ok law by (auto simp: pool_ok_def intro: pool_frame_list(2))
  show "xen_GRANT_REF r \<notin> xens rs" using st by (simp add: stack_def)
qed

section \<open>The main pool\<close>

lemma lock_simps [simp]:
  "\<not> gnttab_lock s \<Longrightarrow> release_gnttab_lock (pool_push (s\<lparr>gnttab_lock := True\<rparr>) r) = pool_push s r"
  "\<not> gnttab_lock s \<Longrightarrow> release_gnttab_lock (pool_pop (s\<lparr>gnttab_lock := True\<rparr>)) = pool_pop s"
  by (simp_all add: release_gnttab_lock_def pool_push_def pool_pop_def set_GRANT_REF_NEXT_def
      GRANT_REF_NEXT_def Let_def)

lemma ok_lock [simp]:
  "tab_ok (s\<lparr>gnttab_lock := b\<rparr>) = tab_ok s"
  "pool_ok (s\<lparr>gnttab_lock := b\<rparr>) rs = pool_ok s rs"
  "cache_ok (s\<lparr>gnttab_lock := b\<rparr>) gc cs = cache_ok s gc cs"
  "lists_ok (s\<lparr>gnttab_lock := b\<rparr>) rs gc cs = lists_ok s rs gc cs"
  "valid_GRANT_REF (s\<lparr>gnttab_lock := b\<rparr>) r = valid_GRANT_REF s r"
  "GRANT_REF_NEXT (s\<lparr>gnttab_lock := b\<rparr>) r = GRANT_REF_NEXT s r"
  by (simp_all add: tab_ok_def pool_ok_def cache_ok_def lists_ok_def valid_GRANT_REF_def GRANT_REF_NEXT_def)

lemma put_free_entry_eval:
  assumes "pool_ok s rs" and "ref_ok (nr_grant_frames s) 0 r" and "gnttab_list s (gidx r) = 0"
    and "locked = gnttab_lock s"
  shows "put_free_entry s r locked = Inr (pool_push s r)"
proof -
  have "valid_GRANT_REF s r" "\<And>m :: gnttab res. in_list r m = m"
    using assms valid_ref_ok unfolding pool_ok_def by blast+
  then show ?thesis using assms(3,4)
    by (cases locked)
      (simp_all add: put_free_entry_def acquire_unless_def acquire_gnttab_lock_def release_unless_def
        is_null_GRANT_REF_def GRANT_REF_NEXT_def)
qed

lemma take_free_entry_eval:
  assumes "pool_ok s (r # rs)"
  shows "take_free_entry s locked = Inr (r, release_unless locked (pool_pop s))"
proof -
  have st: "stack (gnttab_list s) (gnttab_free_head s) (gnttab_free_count s) (r # rs)" and tab: "tab_ok s"
    using assms by (simp_all add: pool_ok_def)
  note pop = pool_pop_ok [OF assms] pool.pop_law [OF st]
  have "valid_GRANT_REF s r" "\<And>m :: (GRANT_REF \<times> gnttab) res. in_list r m = m" "GRANT_REF_cache r = 0"
    using valid_ref_ok [OF pop(4) tab] ref_ok_facts(3) [OF pop(4)] tab by (simp_all add: tab_ok_def)
  moreover have "gnttab_free_count s \<noteq> 0" using stack_empty_iff(1) [OF st] by simp
  ultimately show ?thesis using pop(2,10)
    by (simp add: take_free_entry_def is_null_GRANT_REF_def Let_def)
qed

lemma get_free_entry_eval:
  assumes "pool_ok s (r # rs)" and "locked = gnttab_lock s"
  shows "get_free_entry E s locked = Inr (r, pool_pop s)"
proof -
  have "gnttab_free_count s \<noteq> 0"
    using assms(1) stack_empty_iff(1) by (auto simp: pool_ok_def)
  moreover have "take_free_entry (s\<lparr>gnttab_lock := b\<rparr>) l =
      Inr (r, release_unless l (pool_pop (s\<lparr>gnttab_lock := b\<rparr>)))" for b l
    by (rule take_free_entry_eval) (use assms(1) in simp)
  ultimately show ?thesis using assms take_free_entry_eval [OF assms(1)]
    by (cases locked)
      (simp_all add: get_free_entry_def acquire_unless_def acquire_gnttab_lock_def release_unless_def)
qed

text \<open>The references a new frame brings, the last of them first.\<close>

definition new_refs :: "nat \<Rightarrow> nat list \<Rightarrow> GRANT_REF list" where
  "new_refs st xs = rev (map (\<lambda>x. wrap_GRANT_REF (of_nat (x + st)) 0)
                             (filter (\<lambda>x. NR_RESERVED_ENTRIES \<le> x + st) xs))"

definition invalid_entry :: "nat \<Rightarrow> grant_entry" where
  "invalid_entry i = \<lparr>ge_flags = 0, ge_domid = DOMID_INVALID, ge_frame = of_nat i\<rparr>"

definition expands :: "gnttab \<Rightarrow> gnttab \<Rightarrow> bool" where
  "expands s s' \<longleftrightarrow>
     s' = s\<lparr>GnttabTable := GnttabTable s', gnttab_list := gnttab_list s',
            gnttab_free_head := gnttab_free_head s', gnttab_free_count := gnttab_free_count s'\<rparr>"

lemma expands_refl [simp]: "expands s s"
  by (simp add: expands_def)

lemma expands_trans: "expands s t \<Longrightarrow> expands t u \<Longrightarrow> expands s u"
  unfolding expands_def by (cases s; cases t; cases u) simp

lemma expands_frame:
  assumes "expands s s'"
  shows "nr_grant_frames s' = nr_grant_frames s" and "gnttab_lock s' = gnttab_lock s"
    and "frame_mapped s' = frame_mapped s" and "gnttab_pfns s' = gnttab_pfns s"
    and "gnttab_domids s' = gnttab_domids s" and "gnttab_readonly_flags s' = gnttab_readonly_flags s"
    and "expansions s' = expansions s"
  using assms unfolding expands_def by (cases s; cases s'; simp)+

lemma wrap_nat:
  assumes "i < GRANT_ENTRIES_PER_PAGE * nr" and "nr \<le> MAX_NR_GRANT_FRAMES"
  shows "gidx (wrap_GRANT_REF (of_nat i) c) = i" and "xen_GRANT_REF (wrap_GRANT_REF (of_nat i) c) = of_nat i"
    and "NR_RESERVED_ENTRIES \<le> i \<Longrightarrow> ref_ok nr c (wrap_GRANT_REF (of_nat i) c)"
proof -
  have u: "unat (of_nat i :: u32) = i" using assms by (simp add: unat_of_nat)
  have x: "xen_GRANT_REF (wrap_GRANT_REF (of_nat i) c) = of_nat i"
    by (rule wrap_GRANT_REF_simps) (use assms u in simp)
  then show "xen_GRANT_REF (wrap_GRANT_REF (of_nat i) c) = of_nat i"
    and "gidx (wrap_GRANT_REF (of_nat i) c) = i" using u by simp_all
  show "ref_ok nr c (wrap_GRANT_REF (of_nat i) c)" if "NR_RESERVED_ENTRIES \<le> i"
    unfolding ref_ok_def x using that assms u by simp
qed

lemma Expand_one_step:
  assumes "pool_ok s rs" and "gnttab_lock s" and "x + st < GRANT_ENTRIES_PER_PAGE * nr_grant_frames s"
    and "gnttab_list s (x + st) = 0" and "of_nat (x + st) \<notin> xens rs"
  shows "\<exists>s'. Expand_one st x s = Inr s' \<and> pool_ok s' (new_refs st [x] @ rs) \<and>
           expands s s' \<and>
           (\<forall>i. i \<noteq> x + st \<longrightarrow> gnttab_list s' i = gnttab_list s i) \<and>
           (NR_RESERVED_ENTRIES \<le> x + st \<longrightarrow> GnttabTable s' = (GnttabTable s)(x + st := invalid_entry (x + st))) \<and>
           (x + st < NR_RESERVED_ENTRIES \<longrightarrow> s' = s)"
proof -
  have nr: "nr_grant_frames s \<le> MAX_NR_GRANT_FRAMES" and tab: "tab_ok s"
    using assms(1) by (simp_all add: pool_ok_def tab_ok_def)
  define r where "r = wrap_GRANT_REF (of_nat (x + st)) 0"
  have g: "gidx r = x + st" "xen_GRANT_REF r = of_nat (x + st)"
    using wrap_nat [OF assms(3) nr, of 0] by (simp_all add: r_def)
  show ?thesis
  proof (cases "x + st < NR_RESERVED_ENTRIES")
    case True
    then show ?thesis using assms(1) g by (simp add: Expand_one_def new_refs_def expands_def r_def)
  next
    case False
    have ok: "ref_ok (nr_grant_frames s) 0 r"
      using wrap_nat(3) [OF assms(3) nr, of 0] False by (simp add: r_def)
    define s1 where "s1 = set_entry s r (invalid_entry (x + st))"
    have s1: "pool_ok s1 rs" "gnttab_lock s1" "nr_grant_frames s1 = nr_grant_frames s"
      "gnttab_list s1 = gnttab_list s"
      using assms(1,2) by (simp_all add: s1_def set_entry_def pool_ok_def tab_ok_def)
    have "Expand_one st x s = put_free_entry s1 r True"
      using g valid_ref_ok(3) [OF ok tab] False
      unfolding Expand_one_def Let_def r_def [symmetric] s1_def invalid_entry_def by simp
    also have "\<dots> = Inr (pool_push s1 r)"
      by (rule put_free_entry_eval [OF s1(1)]) (use s1 ok assms(4) g in simp_all)
    finally show ?thesis
      using pool_push_ok [OF s1(1), of r] ok s1 assms(5) False g
      by (intro exI [of _ "pool_push s1 r"])
        (auto simp: new_refs_def expands_def r_def [symmetric] pool_push_def set_GRANT_REF_NEXT_def s1_def set_entry_def Let_def)
  qed
qed

lemma new_refs_Cons: "new_refs st (x # xs) = new_refs st xs @ new_refs st [x]"
  by (simp add: new_refs_def)

lemma xens_new_refs:
  assumes "x + st < GRANT_ENTRIES_PER_PAGE * nr" and "nr \<le> MAX_NR_GRANT_FRAMES"
  shows "xens (new_refs st [x]) \<subseteq> {of_nat (x + st)}"
  using wrap_nat(2) [OF assms, of 0] by (auto simp: new_refs_def)

lemma of_nat_neq_idx:
  assumes "i < GRANT_ENTRIES_PER_PAGE * nr" "j < GRANT_ENTRIES_PER_PAGE * nr" "nr \<le> MAX_NR_GRANT_FRAMES" "i \<noteq> j"
  shows "(of_nat i :: u32) \<noteq> of_nat j"
  using assms by (simp add: word_eq_unat unat_of_nat del: word_of_nat_eq_iff)

lemma Expand_loop_spec:
  assumes "pool_ok s rs" and "gnttab_lock s" and "distinct xs"
    and "\<forall>x \<in> set xs. x + st < GRANT_ENTRIES_PER_PAGE * nr_grant_frames s \<and> gnttab_list s (x + st) = 0 \<and>
           of_nat (x + st) \<notin> xens rs"
  shows "\<exists>s'. Expand_loop st xs s = Inr s' \<and> pool_ok s' (new_refs st xs @ rs) \<and> expands s s' \<and>
           (\<forall>i. i \<notin> (\<lambda>x. x + st) ` set xs \<longrightarrow> gnttab_list s' i = gnttab_list s i) \<and>
           GnttabTable s' = (\<lambda>i. if NR_RESERVED_ENTRIES \<le> i \<and> i \<in> (\<lambda>x. x + st) ` set xs
                                 then invalid_entry i else GnttabTable s i)"
  using assms
proof (induction xs arbitrary: s rs)
  case Nil
  then show ?case by (simp add: new_refs_def)
next
  case (Cons x xs)
  have nr: "nr_grant_frames s \<le> MAX_NR_GRANT_FRAMES"
    using Cons.prems(1) by (simp add: pool_ok_def tab_ok_def)
  obtain t where t: "Expand_one st x s = Inr t" "pool_ok t (new_refs st [x] @ rs)" "expands s t"
      "\<forall>i. i \<noteq> x + st \<longrightarrow> gnttab_list t i = gnttab_list s i"
      "NR_RESERVED_ENTRIES \<le> x + st \<longrightarrow> GnttabTable t = (GnttabTable s)(x + st := invalid_entry (x + st))"
      "x + st < NR_RESERVED_ENTRIES \<longrightarrow> t = s"
    using Expand_one_step [of s rs x st] Cons.prems by auto
  have "of_nat (y + st) \<notin> xens (new_refs st [x] @ rs)" if "y \<in> set xs" for y
  proof -
    have "y + st \<noteq> x + st" using that Cons.prems(3) by auto
    then have "(of_nat (y + st) :: u32) \<noteq> of_nat (x + st)"
      using of_nat_neq_idx [OF _ _ nr] that Cons.prems(4) by simp
    then show ?thesis using xens_new_refs [OF _ nr, of x st] that Cons.prems(4) by auto
  qed
  moreover have "y + st \<noteq> x + st" if "y \<in> set xs" for y
    using that Cons.prems(3) by auto
  ultimately have "\<forall>y \<in> set xs. y + st < GRANT_ENTRIES_PER_PAGE * nr_grant_frames t \<and>
      gnttab_list t (y + st) = 0 \<and> of_nat (y + st) \<notin> xens (new_refs st [x] @ rs)"
    using t(4) expands_frame(1) [OF t(3)] Cons.prems(4) by (metis list.set_intros(2))
  then obtain s' where s': "Expand_loop st xs t = Inr s'" "pool_ok s' (new_refs st xs @ new_refs st [x] @ rs)"
      "expands t s'" "\<forall>i. i \<notin> (\<lambda>x. x + st) ` set xs \<longrightarrow> gnttab_list s' i = gnttab_list t i"
      "GnttabTable s' = (\<lambda>i. if NR_RESERVED_ENTRIES \<le> i \<and> i \<in> (\<lambda>x. x + st) ` set xs
                             then invalid_entry i else GnttabTable t i)"
    using Cons.IH [OF t(2)] expands_frame(2) [OF t(3)] Cons.prems(2,3) by auto
  show ?case
  proof (intro exI [of _ s'] conjI)
    show "GnttabTable s' = (\<lambda>i. if NR_RESERVED_ENTRIES \<le> i \<and> i \<in> (\<lambda>x. x + st) ` set (x # xs)
                             then invalid_entry i else GnttabTable s i)"
      using s'(5) t(5,6) by (cases "NR_RESERVED_ENTRIES \<le> x + st") (auto simp: fun_eq_iff)
  qed (use s' t expands_trans [OF t(3) s'(3)] in \<open>auto simp: new_refs_Cons [of st x xs]\<close>)
qed

definition frame_refs :: "nat \<Rightarrow> GRANT_REF list" where
  "frame_refs n = new_refs (n * GRANT_ENTRIES_PER_PAGE) [0..<GRANT_ENTRIES_PER_PAGE]"

definition can_expand :: "env \<Rightarrow> gnttab \<Rightarrow> bool" where
  "can_expand E s \<longleftrightarrow> nr_grant_frames s < MAX_NR_GRANT_FRAMES \<and> \<not> grant_table_fully_mapped s \<and>
     io_mem E (expansions s) \<noteq> None \<and> physmap E (expansions s)"

lemma ExpandGrantTable_spec:
  assumes "pool_ok s rs" and "gnttab_lock s"
  shows "\<exists>s'. ExpandGrantTable E s = Inr (can_expand E s, s') \<and> gnttab_lock s' \<and>
           pool_ok s' ((if can_expand E s then frame_refs (nr_grant_frames s) else []) @ rs) \<and>
           nr_grant_frames s' = nr_grant_frames s + (if can_expand E s then 1 else 0) \<and>
           (\<forall>i < GRANT_ENTRIES_PER_PAGE * nr_grant_frames s. gnttab_list s' i = gnttab_list s i \<and>
              GnttabTable s' i = GnttabTable s i) \<and>
           gnttab_pfns s' = gnttab_pfns s \<and> gnttab_domids s' = gnttab_domids s \<and>
           gnttab_readonly_flags s' = gnttab_readonly_flags s"
proof (cases "can_expand E s")
  case False
  then show ?thesis using assms
    by (auto simp: ExpandGrantTable_def can_expand_def Let_def pool_ok_def tab_ok_def split: option.split)
next
  case True
  then obtain pa where E: "nr_grant_frames s < MAX_NR_GRANT_FRAMES" "\<not> grant_table_fully_mapped s"
      "io_mem E (expansions s) = Some pa" "physmap E (expansions s)"
    by (auto simp: can_expand_def)
  define n where "n = nr_grant_frames s"
  define t where "t = s\<lparr>expansions := expansions s + 1, GnttabPhysAddrs := (GnttabPhysAddrs s)(n := pa),
      frame_mapped := (frame_mapped s)(n := True), nr_grant_frames := n + 1\<rparr>"
  have t: "gnttab_list t = gnttab_list s" "gnttab_lock t" "nr_grant_frames t = n + 1"
    "GnttabTable t = GnttabTable s" "gnttab_pfns t = gnttab_pfns s" "gnttab_domids t = gnttab_domids s"
    "gnttab_readonly_flags t = gnttab_readonly_flags s"
    using assms(2) by (simp_all add: t_def)
  have "ref_ok (n + 1) 0 r" if "r \<in> set rs" for r
    using assms(1) that by (auto simp: pool_ok_def ref_ok_def n_def)
  then have pt: "pool_ok t rs"
    using assms(1) E(1) by (auto simp: pool_ok_def tab_ok_def t_def n_def less_Suc_eq)
  have old: "unat x < GRANT_ENTRIES_PER_PAGE * n" if "x \<in> xens rs" for x
    using assms(1) that by (auto simp: pool_ok_def ref_ok_def n_def)
  have new: "x + n * GRANT_ENTRIES_PER_PAGE < GRANT_ENTRIES_PER_PAGE * nr_grant_frames t \<and>
      gnttab_list t (x + n * GRANT_ENTRIES_PER_PAGE) = 0 \<and>
      of_nat (x + n * GRANT_ENTRIES_PER_PAGE) \<notin> xens rs" if "x < GRANT_ENTRIES_PER_PAGE" for x
  proof -
    have "unat (of_nat (x + n * GRANT_ENTRIES_PER_PAGE) :: u32) = x + n * GRANT_ENTRIES_PER_PAGE"
      by (rule unat_of_nat_lt) (use that E(1) in \<open>simp add: n_def\<close>)
    then have "of_nat (x + n * GRANT_ENTRIES_PER_PAGE) \<notin> xens rs" using old by force
    moreover have "gnttab_list t (x + n * GRANT_ENTRIES_PER_PAGE) = 0"
      using assms(1) t(1) by (simp add: pool_ok_def tab_ok_def n_def)
    ultimately show ?thesis using t(3) that by simp
  qed
  have "\<forall>x \<in> set [0..<GRANT_ENTRIES_PER_PAGE].
      x + n * GRANT_ENTRIES_PER_PAGE < GRANT_ENTRIES_PER_PAGE * nr_grant_frames t \<and>
      gnttab_list t (x + n * GRANT_ENTRIES_PER_PAGE) = 0 \<and> of_nat (x + n * GRANT_ENTRIES_PER_PAGE) \<notin> xens rs"
    using new unfolding set_upt by simp
  from Expand_loop_spec [OF pt t(2) distinct_upt this] obtain s'
    where s': "Expand_loop (n * GRANT_ENTRIES_PER_PAGE) [0..<GRANT_ENTRIES_PER_PAGE] t = Inr s'"
      "pool_ok s' (frame_refs n @ rs)" "expands t s'"
      "\<forall>i. i \<notin> (\<lambda>x. x + n * GRANT_ENTRIES_PER_PAGE) ` set [0..<GRANT_ENTRIES_PER_PAGE] \<longrightarrow>
         gnttab_list s' i = gnttab_list t i"
      "GnttabTable s' = (\<lambda>i. if NR_RESERVED_ENTRIES \<le> i \<and>
           i \<in> (\<lambda>x. x + n * GRANT_ENTRIES_PER_PAGE) ` set [0..<GRANT_ENTRIES_PER_PAGE]
         then invalid_entry i else GnttabTable t i)"
    unfolding frame_refs_def by blast
  have "ExpandGrantTable E s = Inr (True, s')"
    using E s'(1) unfolding ExpandGrantTable_def t_def n_def by (simp add: Let_def del: upt_rec_numeral)
  moreover have "i \<notin> (\<lambda>x. x + n * GRANT_ENTRIES_PER_PAGE) ` set [0..<GRANT_ENTRIES_PER_PAGE]"
    if "i < GRANT_ENTRIES_PER_PAGE * n" for i using that by (auto simp del: upt_rec_numeral)
  ultimately show ?thesis
    using True s' t expands_frame [OF s'(3)] by (intro exI [of _ s']) (auto simp: n_def simp del: upt_rec_numeral)
qed

lemma frame_refs_nonempty: "frame_refs n \<noteq> []"
proof -
  have "511 \<in> set (filter (\<lambda>x. NR_RESERVED_ENTRIES \<le> x + n * GRANT_ENTRIES_PER_PAGE) [0..<GRANT_ENTRIES_PER_PAGE])"
    by (simp del: upt_rec_numeral)
  then have "filter (\<lambda>x. NR_RESERVED_ENTRIES \<le> x + n * GRANT_ENTRIES_PER_PAGE) [0..<GRANT_ENTRIES_PER_PAGE] \<noteq> []"
    by (metis empty_iff empty_set)
  then show ?thesis by (simp add: frame_refs_def new_refs_def del: upt_rec_numeral)
qed

text \<open>The Xen references of the usable entries of the frames from \<open>n\<close> up to \<open>m\<close>.\<close>

definition usable :: "nat \<Rightarrow> nat \<Rightarrow> u32 set" where
  "usable n m = {x. NR_RESERVED_ENTRIES \<le> unat x \<and> GRANT_ENTRIES_PER_PAGE * n \<le> unat x \<and>
                    unat x < GRANT_ENTRIES_PER_PAGE * m}"

lemma usable_union: "n \<le> m \<Longrightarrow> m \<le> k \<Longrightarrow> usable n k = usable n m \<union> usable m k"
  unfolding usable_def by (auto simp: not_less not_le) 

lemma usable_empty [simp]: "usable n n = {}"
  by (auto simp: usable_def)

lemma xens_frame_refs:
  assumes "n < MAX_NR_GRANT_FRAMES"
  shows "xens (frame_refs n) = usable n (n + 1)"
proof -
  have idx: "xen_GRANT_REF (wrap_GRANT_REF (of_nat (x + n * GRANT_ENTRIES_PER_PAGE)) 0) =
      of_nat (x + n * GRANT_ENTRIES_PER_PAGE)" if "x < GRANT_ENTRIES_PER_PAGE" for x
    by (rule wrap_nat(2) [where nr = "n + 1"]) (use that assms in auto)
  have "xens (frame_refs n) =
      (\<lambda>x. of_nat (x + n * GRANT_ENTRIES_PER_PAGE)) `
        {x. x < GRANT_ENTRIES_PER_PAGE \<and> NR_RESERVED_ENTRIES \<le> x + n * GRANT_ENTRIES_PER_PAGE}"
    using idx by (force simp: frame_refs_def new_refs_def simp del: upt_rec_numeral)
  also have "\<dots> = usable n (n + 1)"
  proof (intro equalityI subsetI)
    fix y assume "y \<in> usable n (n + 1)"
    then have "y = of_nat (unat y - n * GRANT_ENTRIES_PER_PAGE + n * GRANT_ENTRIES_PER_PAGE)"
      "unat y - n * GRANT_ENTRIES_PER_PAGE < GRANT_ENTRIES_PER_PAGE" "NR_RESERVED_ENTRIES \<le> unat y"
      "n * GRANT_ENTRIES_PER_PAGE \<le> unat y"
      by (auto simp: usable_def)
    then show "y \<in> (\<lambda>x. of_nat (x + n * GRANT_ENTRIES_PER_PAGE)) `
        {x. x < GRANT_ENTRIES_PER_PAGE \<and> NR_RESERVED_ENTRIES \<le> x + n * GRANT_ENTRIES_PER_PAGE}"
      by (intro image_eqI [of _ _ "unat y - n * GRANT_ENTRIES_PER_PAGE"]) auto
  next
    fix y :: u32
    assume "y \<in> (\<lambda>x. of_nat (x + n * GRANT_ENTRIES_PER_PAGE)) `
        {x. x < GRANT_ENTRIES_PER_PAGE \<and> NR_RESERVED_ENTRIES \<le> x + n * GRANT_ENTRIES_PER_PAGE}"
    then obtain x where x: "y = of_nat (x + n * GRANT_ENTRIES_PER_PAGE)" "x < GRANT_ENTRIES_PER_PAGE"
        "NR_RESERVED_ENTRIES \<le> x + n * GRANT_ENTRIES_PER_PAGE"
      by auto
    have "unat y = x + n * GRANT_ENTRIES_PER_PAGE"
      unfolding x(1) by (rule unat_of_nat_lt) (use x assms in simp)
    with x show "y \<in> usable n (n + 1)" by (simp add: usable_def)
  qed
  finally show ?thesis .
qed

text \<open>\<open>s'\<close> differs from \<open>s\<close> only in the free lists: a link changed only for a reference of \<open>X\<close>, and
  frames may have been added.\<close>

definition keeps :: "u32 set \<Rightarrow> gnttab \<Rightarrow> gnttab \<Rightarrow> bool" where
  "keeps X s s' \<longleftrightarrow> nr_grant_frames s \<le> nr_grant_frames s' \<and>
     (\<forall>x. unat x < GRANT_ENTRIES_PER_PAGE * nr_grant_frames s \<and> x \<notin> X \<longrightarrow>
        gnttab_list s' (unat x) = gnttab_list s (unat x)) \<and>
     (\<forall>i < GRANT_ENTRIES_PER_PAGE * nr_grant_frames s. GnttabTable s' i = GnttabTable s i) \<and>
     gnttab_pfns s' = gnttab_pfns s \<and> gnttab_domids s' = gnttab_domids s \<and>
     gnttab_readonly_flags s' = gnttab_readonly_flags s"

lemma keeps_trans:
  assumes "keeps X s t" and "keeps Y t u"
    and "\<And>x. x \<in> Y \<Longrightarrow> unat x < GRANT_ENTRIES_PER_PAGE * nr_grant_frames s \<Longrightarrow> x \<in> X"
  shows "keeps X s u"
proof -
  have le: "GRANT_ENTRIES_PER_PAGE * nr_grant_frames s \<le> GRANT_ENTRIES_PER_PAGE * nr_grant_frames t"
    using assms(1) by (simp add: keeps_def)
  then have "gnttab_list u (unat x) = gnttab_list s (unat x)"
    if "unat x < GRANT_ENTRIES_PER_PAGE * nr_grant_frames s" "x \<notin> X" for x
    using assms that unfolding keeps_def by (metis less_le_trans)
  moreover have "GnttabTable u i = GnttabTable s i" if "i < GRANT_ENTRIES_PER_PAGE * nr_grant_frames s" for i
    using assms(1,2) that le unfolding keeps_def by (metis less_le_trans)
  ultimately show ?thesis using assms(1,2) by (auto simp: keeps_def)
qed

lemma keeps_pool_pop: "pool_ok s (r # rs) \<Longrightarrow> keeps {xen_GRANT_REF r} s (pool_pop s)"
  using pool_pop_ok(2) [of s r rs] by (auto simp: keeps_def pool.nxt_pop dest: unsigned_word_eqI)

lemma release_unless_simps [simp]:
  "pool_ok (release_unless l v) rs = pool_ok v rs" "keeps X s (release_unless l v) = keeps X s v"
  "gnttab_list (release_unless l v) = gnttab_list v"
  "nr_grant_frames (release_unless l v) = nr_grant_frames v"
  "gnttab_lock v \<Longrightarrow> gnttab_lock (release_unless l v) = l"
  by (simp_all add: release_unless_def release_gnttab_lock_def keeps_def)

lemma get_free_entry_cases:
  assumes "pool_ok s rs" and "locked = gnttab_lock s"
  obtains (none) s' where "get_free_entry E s locked = Inr (0, s')" and "rs = []" and "\<not> can_expand E s"
      and "pool_ok s' []" and "\<not> gnttab_lock s'" and "keeps {} s s'" and "nr_grant_frames s' = nr_grant_frames s"
  | (some) ref rs' s' where "get_free_entry E s locked = Inr (ref, s')"
      and "(if rs = [] then frame_refs (nr_grant_frames s) else rs) = ref # rs'"
      and "rs = [] \<longrightarrow> can_expand E s" and "pool_ok s' rs'" and "gnttab_list s' (gidx ref) = 0"
      and "gnttab_lock s' = gnttab_lock s" and "keeps (xens rs) s s'"
      and "nr_grant_frames s' = nr_grant_frames s + (if rs = [] then 1 else 0)"
      and "ref_ok (nr_grant_frames s') 0 ref" and "xen_GRANT_REF ref \<notin> xens rs'"
proof (cases rs)
  case (Cons r rs')
  with assms(1) have ok: "pool_ok s (r # rs')" by simp
  show ?thesis
  proof (rule some [of r "pool_pop s" rs'])
    show "keeps (xens rs) s (pool_pop s)"
      by (rule keeps_trans [OF keeps_trans [OF _ keeps_pool_pop [OF ok]], of _ s "{}"])
        (use Cons in \<open>auto simp: keeps_def\<close>)
  qed (use get_free_entry_eval [OF ok assms(2)] pool_pop_ok [OF ok] Cons in auto)
next
  case Nil
  define t where "t = s\<lparr>gnttab_lock := True\<rparr>"
  have ok: "pool_ok t []" and lk: "gnttab_lock t" and nr: "nr_grant_frames t = nr_grant_frames s"
    and ce: "can_expand E t = can_expand E s"
    using assms(1) Nil by (simp_all add: t_def can_expand_def)
  have acq: "acquire_unless locked s = Inr t" and zero: "gnttab_free_count s = 0"
    using assms Nil by (auto simp: acquire_unless_def acquire_gnttab_lock_def t_def pool_ok_def stack_Nil)
  obtain u where u: "ExpandGrantTable E t = Inr (can_expand E s, u)" "gnttab_lock u"
      "pool_ok u (if can_expand E s then frame_refs (nr_grant_frames s) else [])"
      "nr_grant_frames u = nr_grant_frames s + (if can_expand E s then 1 else 0)" "keeps {} s u"
    using ExpandGrantTable_spec [OF ok lk, of E] nr ce by (auto simp: keeps_def t_def)
  have get: "get_free_entry E s locked = take_free_entry u locked"
    using acq zero u(1) ok by (simp add: get_free_entry_def pool_ok_def stack_Nil)
  show ?thesis
  proof (cases "can_expand E s")
    case False
    then have "gnttab_free_count u = 0" "pool_ok u []" using u(3) by (simp_all add: pool_ok_def stack_Nil)
    then show ?thesis
      by (intro none [of "release_gnttab_lock u"])
        (use False Nil get u in \<open>simp_all add: take_free_entry_def release_gnttab_lock_def null_GRANT_REF_def keeps_def\<close>)
  next
    case True
    obtain r rs' where fr: "frame_refs (nr_grant_frames s) = r # rs'"
      using frame_refs_nonempty by (meson neq_Nil_conv)
    then have pu: "pool_ok u (r # rs')" using True u(3) by simp
    note pop = pool_pop_ok [OF pu]
    have "xen_GRANT_REF r \<in> usable (nr_grant_frames s) (nr_grant_frames s + 1)"
      using xens_frame_refs [of "nr_grant_frames s"] True fr by (simp add: can_expand_def set_eq_iff) blast
    then have "keeps {} s (pool_pop u)"
      by (intro keeps_trans [OF u(5) keeps_pool_pop [OF pu]]) (auto simp: usable_def)
    then show ?thesis
      by (intro some [of r "release_unless locked (pool_pop u)" rs'])
        (use True Nil fr get u pop take_free_entry_eval [OF pu] assms(2) in simp_all)
  qed
qed

section \<open>Caches\<close>

lemma cache_id_ucast: "gc_id gc < 4 \<Longrightarrow> ucast (gc_id gc AND 3) = (ucast (gc_id gc) :: u64)"
  by (simp add: word_eq_unat unat_ucast_mod unat_and_3 word_less_nat_alt)

lemma cache_push_ok:
  assumes "lists_ok s rs gc cs" and "ref_ok (nr_grant_frames s) (gc_id gc) r"
    and "xen_GRANT_REF r \<notin> xens rs" and "xen_GRANT_REF r \<notin> xens cs"
    and "gnttab_list s (gidx r) = 0"
  obtains s' gc' where "put_cache_entry s gc r = Inr (s', gc')" and "lists_ok s' rs gc' (r # cs)"
    and "s' = s\<lparr>gnttab_list := (gnttab_list s)(gidx r := head_free gc)\<rparr>"
    and "gc' = gc\<lparr>head_free := r, population := population gc + 1\<rparr>"
proof -
  have tab: "tab_ok s" and nr: "nr_grant_frames s \<le> MAX_NR_GRANT_FRAMES" and pool: "pool_ok s rs"
    and st: "stack (gnttab_list s) (head_free gc) (population gc) cs" and id: "gc_id gc < 4"
    and cs: "\<forall>c \<in> set cs. ref_ok (nr_grant_frames s) (gc_id gc) c" and disj: "xens rs \<inter> xens cs = {}"
    using assms(1) by (auto simp: lists_ok_def cache_ok_def pool_ok_def tab_ok_def)
  define s' where "s' = s\<lparr>gnttab_list := (gnttab_list s)(gidx r := head_free gc)\<rparr>"
  define gc' where "gc' = gc\<lparr>head_free := r, population := population gc + 1\<rparr>"
  have eq: "cache_push (s, gc) r = (s', gc')"
    by (simp add: cache_push_def s'_def gc'_def set_GRANT_REF_NEXT_def)
  note facts = ref_ok_facts [OF assms(2) nr]
  have "stack (gnttab_list s') (head_free gc') (population gc') (r # cs)"
    using cache.push_law [of "(s, gc)" cs r] st assms(4) facts(2) stack_length [OF st cs nr] eq by simp
  moreover have "tab_ok s'" "stack (gnttab_list s') (gnttab_free_head s) (gnttab_free_count s) rs"
    using tab pool assms(2,3) unfolding s'_def
    by (auto simp: tab_ok_def ref_ok_def pool_ok_def stack_upd)
  ultimately have "lists_ok s' rs gc' (r # cs)"
    using pool assms(2,3) id cs disj by (auto simp: lists_ok_def cache_ok_def pool_ok_def s'_def gc'_def)
  moreover have "put_cache_entry s gc r = Inr (s', gc')"
    using facts(3) cache_id_ucast [OF id] valid_ref_ok(2) [OF assms(2) tab] assms(5) eq
    by (simp add: put_cache_entry_def is_null_GRANT_REF_def GRANT_REF_NEXT_def)
  ultimately show ?thesis using that s'_def gc'_def by blast
qed

lemma cache_pop_ok:
  assumes "lists_ok s rs gc (r # cs)"
  obtains s' gc' where "get_cache_entry s gc = Inr (r, s', gc')" and "lists_ok s' rs gc' cs"
    and "s' = s\<lparr>gnttab_list := (gnttab_list s)(gidx r := 0)\<rparr>"
    and "gc' = gc\<lparr>head_free := head_free gc', population := population gc - 1\<rparr>"
    and "ref_ok (nr_grant_frames s) (gc_id gc) r" and "xen_GRANT_REF r \<notin> xens rs"
    and "xen_GRANT_REF r \<notin> xens cs" and "r \<noteq> 0"
proof -
  have tab: "tab_ok s" and nr: "nr_grant_frames s \<le> MAX_NR_GRANT_FRAMES" and pool: "pool_ok s rs"
    and st: "stack (gnttab_list s) (head_free gc) (population gc) (r # cs)" and id: "gc_id gc < 4"
    and cs: "\<forall>c \<in> set cs. ref_ok (nr_grant_frames s) (gc_id gc) c" and disj: "xens rs \<inter> xens (r # cs) = {}"
    and ok: "ref_ok (nr_grant_frames s) (gc_id gc) r"
    using assms by (auto simp: lists_ok_def cache_ok_def pool_ok_def tab_ok_def)
  define s' where "s' = fst (cache_pop (s, gc))"
  define gc' where "gc' = snd (cache_pop (s, gc))"
  have law: "head_free gc = r" "r \<noteq> 0" "stack (gnttab_list s') (head_free gc') (population gc') cs"
    "population gc' = 0 \<longleftrightarrow> head_free gc' = 0"
    using cache.pop_law [of "(s, gc)" r cs] st by (simp_all add: s'_def gc'_def)
  have s': "s' = s\<lparr>gnttab_list := (gnttab_list s)(gidx r := 0)\<rparr>"
    and gc': "gc' = gc\<lparr>head_free := head_free gc', population := population gc - 1\<rparr>"
    using law(1) by (simp_all add: s'_def gc'_def cache_pop_def Let_def set_GRANT_REF_NEXT_def null_GRANT_REF_def)
  have gid: "gc_id gc' = gc_id gc" by (simp add: gc'_def)
  have xr: "xen_GRANT_REF r \<notin> xens rs" "xen_GRANT_REF r \<notin> xens cs"
    using disj st by (auto simp: stack_def)
  have "tab_ok s'" "stack (gnttab_list s') (gnttab_free_head s) (gnttab_free_count s) rs"
    using tab pool ok xr unfolding s' by (auto simp: tab_ok_def ref_ok_def pool_ok_def stack_upd)
  then have "lists_ok s' rs gc' cs"
    using pool ok xr id cs disj law(3) by (auto simp: lists_ok_def cache_ok_def pool_ok_def s' gid)
  moreover have "population gc \<noteq> 0" using stack_empty_iff(1) [OF st] by simp
  then have "get_cache_entry s gc = Inr (r, s', gc')"
    using valid_ref_ok(1,2) [OF ok tab] ref_ok_facts(3) [OF ok nr] cache_id_ucast [OF id] law(1,4)
    by (simp add: get_cache_entry_def Let_def is_null_GRANT_REF_def s'_def gc'_def split_beta)
  ultimately show ?thesis using that s' gc' ok xr law(2) by blast
qed

lemma chain_cong: "\<forall>r \<in> set rs. f (gidx r) = g (gidx r) \<Longrightarrow> chain f p rs = chain g p rs"
  by (induction rs arbitrary: p) auto

lemma cache_ok_keeps:
  assumes "cache_ok s gc cs" and "keeps X s s'" and "X \<inter> xens cs = {}"
  shows "cache_ok s' gc cs"
proof -
  have "gnttab_list s' (gidx r) = gnttab_list s (gidx r)" "ref_ok (nr_grant_frames s') (gc_id gc) r"
    if "r \<in> set cs" for r
  proof -
    have r: "ref_ok (nr_grant_frames s) (gc_id gc) r" "xen_GRANT_REF r \<notin> X"
      using assms(1,3) that by (auto simp: cache_ok_def)
    then show "gnttab_list s' (gidx r) = gnttab_list s (gidx r)"
      using assms(2) by (auto simp: keeps_def ref_ok_def)
    show "ref_ok (nr_grant_frames s') (gc_id gc) r"
      using r(1) assms(2) unfolding ref_ok_def keeps_def by (meson le_trans less_le_trans mult_le_mono2)
  qed
  then show ?thesis using assms(1) chain_cong [of cs "gnttab_list s'" "gnttab_list s"]
    by (simp add: cache_ok_def stack_def)
qed

lemma keeps_list:
  "keeps {xen_GRANT_REF r} s (s\<lparr>gnttab_list := (gnttab_list s)(gidx r := v)\<rparr>)"
  by (auto simp: keeps_def dest: unsigned_word_eqI)

lemma Replenish_loop_spec:
  assumes "lists_ok s rs gc cs" and "gnttab_lock s"
  shows "\<exists>s' gc' rs' moved. Replenish_loop E n s gc = Inr (s', gc') \<and> lists_ok s' rs' gc' (moved @ cs) \<and>
      length moved \<le> n \<and> (length moved < n \<longrightarrow> rs' = [] \<and> \<not> gnttab_lock s') \<and>
      (length moved = n \<longrightarrow> gnttab_lock s') \<and>
      gc' = gc\<lparr>head_free := head_free gc', population := population gc'\<rparr> \<and>
      keeps (xens rs) s s' \<and>
      xens rs' \<union> xens moved = xens rs \<union> usable (nr_grant_frames s) (nr_grant_frames s')"
  using assms
proof (induction n arbitrary: s rs gc cs)
  case 0
  then show ?case by (rule_tac exI [of _ s], rule_tac exI [of _ gc], rule_tac exI [of _ rs], rule_tac exI [of _ "[]"])
      (simp add: keeps_def)
next
  case (Suc n)
  have pool: "pool_ok s rs" using Suc.prems(1) by (simp add: lists_ok_def)
  have lk: "True = gnttab_lock s" using Suc.prems(2) by simp
  from pool lk show ?case
  proof (cases rule: get_free_entry_cases [consumes 2, where E = E])
    case (none s')
    have "cache_ok s' gc cs"
      by (rule cache_ok_keeps [OF _ none(6)]) (use Suc.prems(1) in \<open>simp_all add: lists_ok_def\<close>)
    with none(4) have "lists_ok s' [] gc cs" by (simp add: lists_ok_def)
    then show ?thesis
      using none by (intro exI [of _ s'] exI [of _ gc] exI [of _ "[]"] exI [of _ "[]"])
        (simp add: is_null_GRANT_REF_def)
  next
    case (some ref rs' t)
    define r where "r = ChangeGrantCache ref (gc_id gc)"
    have nr: "nr_grant_frames t \<le> MAX_NR_GRANT_FRAMES" using some(4) by (simp add: pool_ok_def tab_ok_def)
    have r: "ref \<noteq> 0" "xen_GRANT_REF r = xen_GRANT_REF ref" "ref_ok (nr_grant_frames t) (gc_id gc) r"
      using ref_ok_facts(2) [OF some(9) nr] ref_ok_change [OF some(9) nr] by (simp_all add: r_def)
    have "xens (ref # rs') = xens rs \<union> usable (nr_grant_frames s) (nr_grant_frames t)"
      unfolding some(2) [symmetric] using some(3,8) xens_frame_refs [of "nr_grant_frames s"]
      by (auto simp: can_expand_def)
    then have all: "insert (xen_GRANT_REF ref) (xens rs') =
        xens rs \<union> usable (nr_grant_frames s) (nr_grant_frames t)" by simp
    have fresh: "xens cs \<inter> (xens rs \<union> usable (nr_grant_frames s) m) = {}" for m
      using Suc.prems(1) by (auto simp: lists_ok_def cache_ok_def ref_ok_def usable_def)
    have "cache_ok t gc cs"
      by (rule cache_ok_keeps [OF _ some(7)]) (use Suc.prems(1) in \<open>simp_all add: lists_ok_def\<close>)
    then have lt: "lists_ok t rs' gc cs"
      using some(4) fresh all unfolding lists_ok_def by blast
    have notin: "xen_GRANT_REF r \<notin> xens rs'" "xen_GRANT_REF r \<notin> xens cs"
      using r(2) some(10) fresh [of "nr_grant_frames t"] unfolding all [symmetric] by auto
    obtain u gc1 where u: "put_cache_entry t gc r = Inr (u, gc1)" "lists_ok u rs' gc1 (r # cs)"
        "u = t\<lparr>gnttab_list := (gnttab_list t)(gidx r := head_free gc)\<rparr>"
        "gc1 = gc\<lparr>head_free := r, population := population gc + 1\<rparr>"
      by (rule cache_push_ok [OF lt r(3) notin]) (use some(5) r(2) in simp_all)
    have nru: "nr_grant_frames u = nr_grant_frames t" and lu: "gnttab_lock u"
      using u(3) some(6) Suc.prems(2) by simp_all
    obtain s' gc' rs'' moved where s': "Replenish_loop E n u gc1 = Inr (s', gc')"
        "lists_ok s' rs'' gc' (moved @ r # cs)" "length moved \<le> n"
        "length moved < n \<longrightarrow> rs'' = [] \<and> \<not> gnttab_lock s'" "length moved = n \<longrightarrow> gnttab_lock s'"
        "gc' = gc1\<lparr>head_free := head_free gc', population := population gc'\<rparr>" "keeps (xens rs') u s'"
        "xens rs'' \<union> xens moved = xens rs' \<union> usable (nr_grant_frames u) (nr_grant_frames s')"
      using Suc.IH [OF u(2) lu] by (elim exE conjE) (rule that)
    have "keeps {xen_GRANT_REF r} t u" unfolding u(3) by (rule keeps_list)
    then have ks: "keeps (xens rs) s s'"
      by (rule keeps_trans [OF keeps_trans [OF some(7)] s'(7)])
        (use all r(2) in \<open>auto simp: usable_def set_eq_iff\<close>)
    have mono: "nr_grant_frames s \<le> nr_grant_frames t" "nr_grant_frames t \<le> nr_grant_frames s'"
      using some(8) s'(7) nru by (simp_all add: keeps_def)
    have "xens rs'' \<union> xens (moved @ [r]) = insert (xen_GRANT_REF ref) (xens rs'' \<union> xens moved)"
      using r(2) by auto
    also have "\<dots> = insert (xen_GRANT_REF ref) (xens rs') \<union> usable (nr_grant_frames t) (nr_grant_frames s')"
      unfolding s'(8) nru by (rule Un_insert_left [symmetric])
    also have "\<dots> = xens rs \<union> usable (nr_grant_frames s) (nr_grant_frames s')"
      unfolding all usable_union [OF mono] by (rule Un_assoc)
    finally have cons: "xens rs'' \<union> xens (moved @ [r]) = xens rs \<union> usable (nr_grant_frames s) (nr_grant_frames s')" .
    show ?thesis
    proof (rule exI [of _ s'], rule exI [of _ gc'], rule exI [of _ rs''], rule exI [of _ "moved @ [r]"], intro conjI)
      show "xens rs'' \<union> xens (moved @ [r]) = xens rs \<union> usable (nr_grant_frames s) (nr_grant_frames s')"
        by (fact cons)
      show "gc' = gc\<lparr>head_free := head_free gc', population := population gc'\<rparr>"
        using s'(6) u(4) by (cases gc'; cases gc) simp
    qed (use s' some(1) u(1) r(1) ks in \<open>auto simp: is_null_GRANT_REF_def r_def [symmetric]\<close>)
  qed
qed

lemma unat_diff: "(y :: 'w::len word) \<le> x \<Longrightarrow> unat (x - y) = unat x - unat y"
  by (simp add: unat_sub)

text \<open>Replenishing a cache never bug checks: it moves references from the main pool (growing the
  table when the pool runs dry) until the wanted population is reached, or until no reference is left
  and the table cannot grow.  No reference is lost or duplicated, links and entries of references that
  are on neither list are untouched, and the lock is free afterwards.\<close>

theorem ReplenishCache_correct:
  assumes "lists_ok s rs gc cs" and "\<not> gnttab_lock s" and "population gc < target"
  shows "\<exists>ok s' gc' rs' moved. ReplenishCache E s gc target = Inr (ok, s', gc') \<and>
      lists_ok s' rs' gc' (moved @ cs) \<and> \<not> gnttab_lock s' \<and>
      (ok \<longleftrightarrow> length (moved @ cs) = unat target) \<and> (\<not> ok \<longrightarrow> rs' = []) \<and>
      length (moved @ cs) \<le> unat target \<and> keeps (xens rs) s s' \<and>
      xens rs' \<union> xens moved = xens rs \<union> usable (nr_grant_frames s) (nr_grant_frames s')"
proof -
  define t where "t = s\<lparr>gnttab_lock := True\<rparr>"
  have t: "lists_ok t rs gc cs" "gnttab_lock t" "nr_grant_frames t = nr_grant_frames s"
    using assms(1) by (simp_all add: t_def)
  define n where "n = unat (target - population gc)"
  have n: "n = unat target - unat (population gc)" using assms(3) by (simp add: n_def unat_diff)
  obtain u gc' rs' moved where u: "Replenish_loop E n t gc = Inr (u, gc')"
      "lists_ok u rs' gc' (moved @ cs)" "length moved \<le> n" "length moved < n \<longrightarrow> rs' = [] \<and> \<not> gnttab_lock u"
      "keeps (xens rs) t u"
      "xens rs' \<union> xens moved = xens rs \<union> usable (nr_grant_frames t) (nr_grant_frames u)"
    using Replenish_loop_spec [OF t(1,2), of E n] by (elim exE conjE) (rule that)
  have pop: "length cs = unat (population gc)" "length (moved @ cs) = unat (population gc')"
    using t(1) u(2) by (simp_all add: lists_ok_def cache_ok_def stack_def)
  have lt: "unat (population gc) < unat target" using assms(3) by (simp add: word_less_nat_alt)
  have "ReplenishCache E s gc target = Inr (population gc' = target, u\<lparr>gnttab_lock := False\<rparr>, gc')"
    using assms(2,3) u(1) by (simp add: ReplenishCache_def acquire_gnttab_lock_def release_gnttab_lock_def
        t_def [symmetric] n_def [symmetric])
  moreover have "population gc' = target \<longleftrightarrow> length (moved @ cs) = unat target"
    unfolding pop(2) word_eq_unat ..
  moreover have "keeps (xens rs) s (u\<lparr>gnttab_lock := False\<rparr>)"
    using u(5) by (simp add: keeps_def t_def)
  ultimately show ?thesis using u pop n lt t(3)
    by (rule_tac exI [of _ "population gc' = target"], rule_tac exI [of _ "u\<lparr>gnttab_lock := False\<rparr>"],
        rule_tac exI [of _ gc'], rule_tac exI [of _ rs'], rule_tac exI [of _ moved]) auto
qed

lemma Trim_loop_spec:
  assumes "lists_ok s rs gc cs" and "gnttab_lock s" and "n \<le> length cs"
  shows "\<exists>s' gc'. Trim_loop n s gc = Inr (s', gc') \<and>
      lists_ok s' (rev (map (\<lambda>r. ChangeGrantCache r 0) (take n cs)) @ rs) gc' (drop n cs) \<and>
      gnttab_lock s' \<and> gc' = gc\<lparr>head_free := head_free gc', population := population gc'\<rparr> \<and>
      nr_grant_frames s' = nr_grant_frames s"
  using assms
proof (induction n arbitrary: s rs gc cs)
  case (Suc n)
  then obtain r cs1 where cs: "cs = r # cs1" by (cases cs) auto
  obtain t gc1 where t: "get_cache_entry s gc = Inr (r, t, gc1)" "lists_ok t rs gc1 cs1"
      "t = s\<lparr>gnttab_list := (gnttab_list s)(gidx r := 0)\<rparr>"
      "gc1 = gc\<lparr>head_free := head_free gc1, population := population gc - 1\<rparr>"
      "ref_ok (nr_grant_frames s) (gc_id gc) r" "xen_GRANT_REF r \<notin> xens rs" "xen_GRANT_REF r \<notin> xens cs1" "r \<noteq> 0"
    using cache_pop_ok Suc.prems(1) unfolding cs by metis
  define r' where "r' = ChangeGrantCache r 0"
  have pool: "pool_ok t rs" and nr: "nr_grant_frames s \<le> MAX_NR_GRANT_FRAMES"
    using t(2,3) by (simp_all add: lists_ok_def pool_ok_def tab_ok_def)
  have r': "xen_GRANT_REF r' = xen_GRANT_REF r" "ref_ok (nr_grant_frames t) 0 r'"
    using ref_ok_change [OF t(5) nr] t(3) by (simp_all add: r'_def)
  have put: "put_free_entry t r' True = Inr (pool_push t r')"
    by (rule put_free_entry_eval [OF pool r'(2)]) (use t(3) r'(1) Suc.prems(2) in simp_all)
  have "cache_ok (pool_push t r') gc1 cs1"
    by (rule cache_ok_keeps [where X = "{xen_GRANT_REF r'}" and s = t])
      (use t(2,7) r'(1) in \<open>auto simp: lists_ok_def keeps_def pool.nxt_push dest: unsigned_word_eqI\<close>)
  then have "lists_ok (pool_push t r') (r' # rs) gc1 cs1"
    using pool_push_ok [OF pool r'(2)] t(2,6,7) r'(1) by (auto simp: lists_ok_def)
  from Suc.IH [OF this] obtain s' gc' where s': "Trim_loop n (pool_push t r') gc1 = Inr (s', gc')"
      "lists_ok s' (rev (map (\<lambda>r. ChangeGrantCache r 0) (take n cs1)) @ r' # rs) gc' (drop n cs1)"
      "gnttab_lock s'" "gc' = gc1\<lparr>head_free := head_free gc', population := population gc'\<rparr>"
      "nr_grant_frames s' = nr_grant_frames (pool_push t r')"
    using Suc.prems(2,3) t(3) cs by auto
  have "gc' = gc\<lparr>head_free := head_free gc', population := population gc'\<rparr>"
    using s'(4) t(4) by (cases gc'; cases gc1; cases gc) simp
  then show ?case
    using s' t(1,8) put t(3) by (intro exI [of _ s'] exI [of _ gc'])
      (simp add: cs r'_def [symmetric] is_null_GRANT_REF_def)
qed simp

text \<open>Trimming a cache never bug checks: the references above the target go back to the main pool,
  renumbered as references of the pool, and the rest of the cache stays as it was.\<close>

theorem TrimCache_correct:
  assumes "lists_ok s rs gc cs" and "\<not> gnttab_lock s" and "target \<le> population gc"
  shows "\<exists>s' gc'. TrimCache s gc target = Inr (s', gc') \<and> \<not> gnttab_lock s' \<and>
      (let n = length cs - unat target
       in lists_ok s' (rev (map (\<lambda>r. ChangeGrantCache r 0) (take n cs)) @ rs) gc' (drop n cs)) \<and>
      population gc' = target"
proof -
  define t where "t = s\<lparr>gnttab_lock := True\<rparr>"
  have t: "lists_ok t rs gc cs" "gnttab_lock t" using assms(1) by (simp_all add: t_def)
  define n where "n = unat (population gc - target)"
  have cs: "length cs = unat (population gc)" using t(1) by (simp add: lists_ok_def cache_ok_def stack_def)
  then have n: "n = length cs - unat target" "unat target \<le> length cs"
    using assms(3) by (simp_all add: n_def unat_diff word_le_nat_alt)
  obtain s' gc' where s': "Trim_loop n t gc = Inr (s', gc')"
      "lists_ok s' (rev (map (\<lambda>r. ChangeGrantCache r 0) (take n cs)) @ rs) gc' (drop n cs)"
    using Trim_loop_spec [OF t, of n] n by auto
  have "unat (population gc') = length (drop n cs)"
    using s'(2) by (simp add: lists_ok_def cache_ok_def stack_def)
  then have "population gc' = target" using n by (simp add: word_eq_unat)
  moreover have "TrimCache s gc target = Inr (s'\<lparr>gnttab_lock := False\<rparr>, gc')"
    using assms(2,3) s'(1) by (simp add: TrimCache_def acquire_gnttab_lock_def release_gnttab_lock_def
        t_def [symmetric] n_def [symmetric])
  ultimately show ?thesis using s'(2) n(1) by (simp add: Let_def)
qed

section \<open>Granting and revoking access\<close>

definition granted_entry :: "u16 \<Rightarrow> u64 \<Rightarrow> u32 \<Rightarrow> grant_entry" where
  "granted_entry domid frame mode =
     \<lparr>ge_flags = GTF_permit_access OR (if mode = 1 then GTF_readonly else 0), ge_domid = domid,
      ge_frame = ucast frame\<rparr>"

lemma GnttabGrantForeignAccessRef_eval:
  assumes "ref_ok (nr_grant_frames s) c ref" and "tab_ok s" and "mode = 0 \<or> mode = 1" and "drop_bit 32 frame = 0"
  shows "\<exists>s'. GnttabGrantForeignAccessRef s domid frame mode ref = Inr s' \<and>
      GnttabTable s' = (GnttabTable s)(gidx ref := granted_entry domid frame mode) \<and>
      gnttab_pfns s' = (gnttab_pfns s)(gidx ref := ucast frame) \<and>
      gnttab_domids s' = (gnttab_domids s)(gidx ref := domid) \<and>
      gnttab_readonly_flags s' = (gnttab_readonly_flags s)(gidx ref div 8 :=
         (if mode = 1 then gnttab_readonly_flags s (gidx ref div 8) OR readonly_bit (gidx ref)
          else gnttab_readonly_flags s (gidx ref div 8) AND NOT (readonly_bit (gidx ref)))) \<and>
      s' = s\<lparr>GnttabTable := GnttabTable s', gnttab_pfns := gnttab_pfns s', gnttab_domids := gnttab_domids s',
             gnttab_readonly_flags := gnttab_readonly_flags s'\<rparr>"
proof -
  have "in_table s ref m = m" for m :: "gnttab res" by (rule valid_ref_ok(3) [OF assms(1,2)])
  then show ?thesis using assms(3,4)
    by (simp add: GnttabGrantForeignAccessRef_def Let_def set_entry_def granted_entry_def)
qed

text \<open>C13: Granting a foreign domain access to a page takes a reference that was free, or a new one when
  the table grows, and publishes exactly the requested permission in its entry; every other entry keeps
  its contents.  The null reference is returned only when the pool is empty and the table cannot grow,
  and then no entry changes.\<close>

theorem GnttabGrantForeignAccess_correct:
  assumes "pool_ok s rs" and "\<not> gnttab_lock s" and "mode = 0 \<or> mode = 1" and "drop_bit 32 frame = 0"
  shows "\<exists>ref s' rs'. GnttabGrantForeignAccess E s domid frame mode = Inr (ref, s') \<and> pool_ok s' rs' \<and>
      \<not> gnttab_lock s' \<and>
      (ref = 0 \<longleftrightarrow> rs = [] \<and> \<not> can_expand E s) \<and>
      (ref = 0 \<longrightarrow> rs' = [] \<and> (\<forall>i < GRANT_ENTRIES_PER_PAGE * nr_grant_frames s. GnttabTable s' i = GnttabTable s i)) \<and>
      (ref \<noteq> 0 \<longrightarrow> ref # rs' = (if rs = [] then frame_refs (nr_grant_frames s) else rs) \<and>
         xen_GRANT_REF ref \<notin> xens rs' \<and> ref_ok (nr_grant_frames s') 0 ref \<and>
         GnttabTable s' (gidx ref) = granted_entry domid frame mode \<and>
         (\<forall>i < GRANT_ENTRIES_PER_PAGE * nr_grant_frames s. i \<noteq> gidx ref \<longrightarrow> GnttabTable s' i = GnttabTable s i))"
proof -
  have lk: "False = gnttab_lock s" using assms(2) by simp
  from assms(1) lk show ?thesis
  proof (cases rule: get_free_entry_cases [consumes 2, where E = E])
    case (none s')
    then show ?thesis
      by (intro exI [of _ 0] exI [of _ s'] exI [of _ "[]"])
        (auto simp: GnttabGrantForeignAccess_def is_null_GRANT_REF_def keeps_def)
  next
    case (some ref rs' t)
    have tab: "tab_ok t" and nr: "nr_grant_frames t \<le> MAX_NR_GRANT_FRAMES"
      using some(4) by (simp_all add: pool_ok_def tab_ok_def)
    obtain s' where s': "GnttabGrantForeignAccessRef t domid frame mode ref = Inr s'"
        "GnttabTable s' = (GnttabTable t)(gidx ref := granted_entry domid frame mode)"
        "s' = t\<lparr>GnttabTable := GnttabTable s', gnttab_pfns := gnttab_pfns s', gnttab_domids := gnttab_domids s',
             gnttab_readonly_flags := gnttab_readonly_flags s'\<rparr>"
      using GnttabGrantForeignAccessRef_eval [OF some(9) tab assms(3,4), of domid]
      by (elim exE conjE) (rule that)
    have same: "gnttab_list s' = gnttab_list t" "gnttab_free_head s' = gnttab_free_head t"
        "gnttab_free_count s' = gnttab_free_count t" "nr_grant_frames s' = nr_grant_frames t"
        "frame_mapped s' = frame_mapped t" "gnttab_lock s' = gnttab_lock t"
      using s'(3) by (cases s'; cases t; simp)+
    have "pool_ok s' rs'" using some(4) same by (simp add: pool_ok_def tab_ok_def)
    moreover have "ref \<noteq> 0" using ref_ok_facts(2) [OF some(9) nr] .
    ultimately show ?thesis
      using some s'(1,2) same assms(2)
      by (intro exI [of _ ref] exI [of _ s'] exI [of _ rs'])
        (auto simp: GnttabGrantForeignAccess_def is_null_GRANT_REF_def keeps_def)
  qed
qed

text \<open>The exchange loop.  \<open>flags_seen xen k f n\<close> are the flags that the driver works with in its \<open>n\<close>-th round
  when the loop is entered at round \<open>k\<close> with the flags \<open>f\<close>: each failed exchange returns what Xen has made
  of them.  The loop ends at the first round that finds a reader or a writer, or whose exchange finds the
  flags as they were.\<close>

primrec flags_seen :: "(nat \<Rightarrow> u16 \<Rightarrow> u16) \<Rightarrow> nat \<Rightarrow> u16 \<Rightarrow> nat \<Rightarrow> u16" where
  "flags_seen xen k f 0 = f"
| "flags_seen xen k f (Suc n) = xen (k + n) (flags_seen xen k f n)"

definition in_use :: "u16 \<Rightarrow> bool" where
  "in_use flags \<longleftrightarrow> flags AND (GTF_reading OR GTF_writing) \<noteq> 0"

definition settled :: "(nat \<Rightarrow> u16 \<Rightarrow> u16) \<Rightarrow> nat \<Rightarrow> u16 \<Rightarrow> nat \<Rightarrow> bool" where
  "settled xen k f n \<longleftrightarrow>
     in_use (flags_seen xen k f n) \<or> xen (k + n) (flags_seen xen k f n) = flags_seen xen k f n"

definition ends_at :: "(nat \<Rightarrow> u16 \<Rightarrow> u16) \<Rightarrow> u16 \<Rightarrow> nat \<Rightarrow> bool" where
  "ends_at xen f n \<longleftrightarrow> settled xen 0 f n \<and> (\<forall>m < n. \<not> settled xen 0 f m)"

lemma flags_seen_shift: "flags_seen xen (Suc k) (xen k f) n = flags_seen xen k f (Suc n)"
  by (induction n) simp_all

lemma settled_shift: "settled xen (Suc k) (xen k f) n \<longleftrightarrow> settled xen k f (Suc n)"
  by (simp add: settled_def flags_seen_shift del: flags_seen.simps)

lemma EndAccess_loop_step:
  "EndAccess_loop xen k f =
     (if in_use f then Some (STATUS_DEVICE_BUSY, f)
      else if xen k f = f then Some (STATUS_SUCCESS, 0)
      else EndAccess_loop xen (Suc k) (xen k f))"
  by (subst EndAccess_loop.simps) (simp only: in_use_def Let_def)

lemma EndAccess_loop_settles:
  assumes "settled xen k f n" and "\<And>m. m < n \<Longrightarrow> \<not> settled xen k f m"
  shows "EndAccess_loop xen k f =
    Some (if in_use (flags_seen xen k f n) then (STATUS_DEVICE_BUSY, flags_seen xen k f n) else (STATUS_SUCCESS, 0))"
  using assms
proof (induction n arbitrary: k f)
  case 0
  then show ?case by (subst EndAccess_loop_step) (auto simp: settled_def)
next
  case (Suc n)
  have "\<not> settled xen k f 0" using Suc.prems(2) by blast
  then have "EndAccess_loop xen k f = EndAccess_loop xen (Suc k) (xen k f)"
    by (subst EndAccess_loop_step) (simp add: settled_def)
  also have "\<dots> = Some (if in_use (flags_seen xen (Suc k) (xen k f) n)
      then (STATUS_DEVICE_BUSY, flags_seen xen (Suc k) (xen k f) n) else (STATUS_SUCCESS, 0))"
    by (rule Suc.IH) (use Suc.prems in \<open>simp_all add: settled_shift\<close>)
  finally show ?case by (simp only: flags_seen_shift)
qed

lemma EndAccess_loop_returns_settled:
  assumes "EndAccess_loop xen k f = Some r"
  shows "\<exists>n. settled xen k f n"
proof (rule EndAccess_loop.raw_induct [where P = "\<lambda>xen k f r. \<exists>n. settled xen k f n", OF _ assms])
  fix L xen k f r
  assume IH: "\<And>xen k f r. L xen k f = Some r \<Longrightarrow> \<exists>n. settled xen k f n"
    and eq: "(if f AND (GTF_reading OR GTF_writing) \<noteq> 0 then Some (STATUS_DEVICE_BUSY, f)
      else let nflags = xen k f
           in if nflags = f then Some (STATUS_SUCCESS, 0) else L xen (Suc k) nflags) = Some r"
  show "\<exists>n. settled xen k f n"
  proof (cases "settled xen k f 0")
    case False
    then have "\<not> in_use f" "xen k f \<noteq> f" by (simp_all add: settled_def)
    then have "L xen (Suc k) (xen k f) = Some r"
      using eq unfolding in_use_def Let_def by (metis (full_types))
    then show ?thesis using IH settled_shift by blast
  qed blast
qed

lemma EndAccess_loop_ends_at:
  "ends_at xen f n \<Longrightarrow> EndAccess_loop xen 0 f =
    Some (if in_use (flags_seen xen 0 f n) then (STATUS_DEVICE_BUSY, flags_seen xen 0 f n) else (STATUS_SUCCESS, 0))"
  by (rule EndAccess_loop_settles) (simp_all add: ends_at_def)

lemma EndAccess_loop_never:
  assumes "\<nexists>n. ends_at xen f n"
  shows "EndAccess_loop xen 0 f = None"
proof -
  have "\<not> settled xen 0 f n" for n
    using assms exists_least_iff [of "settled xen 0 f"] by (auto simp: ends_at_def)
  then show ?thesis using EndAccess_loop_returns_settled [of xen 0 f] by (cases "EndAccess_loop xen 0 f") blast+
qed

text \<open>The entry of a reference after its access has been revoked.\<close>

definition revoked :: "gnttab \<Rightarrow> gnttab \<Rightarrow> GRANT_REF \<Rightarrow> bool" where
  "revoked s s' ref \<longleftrightarrow>
     GnttabTable s' = (GnttabTable s)(gidx ref := invalid_entry (gidx ref)) \<and>
     gnttab_pfns s' = (gnttab_pfns s)(gidx ref := 0) \<and>
     gnttab_domids s' = (gnttab_domids s)(gidx ref := DOMID_INVALID)"

lemma GnttabEndForeignAccessRef_eval:
  assumes "ref_ok (nr_grant_frames s) c ref" and "tab_ok s"
    and "EndAccess_loop xen 0 (ge_flags (GnttabTable s (gidx ref))) =
      Some (if busy then (STATUS_DEVICE_BUSY, g) else (STATUS_SUCCESS, 0))"
  shows "\<exists>s'. GnttabEndForeignAccessRef xen s ref = Some (Inr (if busy then STATUS_DEVICE_BUSY else STATUS_SUCCESS, s')) \<and>
      s' = s\<lparr>GnttabTable := GnttabTable s', gnttab_pfns := gnttab_pfns s', gnttab_domids := gnttab_domids s'\<rparr> \<and>
      (if busy then s' = set_entry s ref ((GnttabTable s (gidx ref))\<lparr>ge_flags := g\<rparr>) else revoked s s' ref)"
proof -
  have "valid_GRANT_REF s ref" using valid_ref_ok(1) [OF assms(1,2)] .
  moreover have "gidx ref < MAX_NR_GRANT_ENTRIES" "frame_mapped s (gidx ref div GRANT_ENTRIES_PER_PAGE)"
    using ref_ok_facts [OF assms(1)] assms(2) by (auto simp: tab_ok_def)
  ultimately show ?thesis
    using assms(3) by (cases busy) (auto simp: GnttabEndForeignAccessRef_def Let_def set_entry_def revoked_def
        invalid_entry_def)
qed

lemma GnttabEndForeignAccess_stuck:
  assumes "ref_ok (nr_grant_frames s) 0 ref" and "tab_ok s"
    and "EndAccess_loop xen 0 (ge_flags (GnttabTable s (gidx ref))) = None"
  shows "GnttabEndForeignAccess xen s ref = None"
proof -
  have "valid_GRANT_REF s ref" using valid_ref_ok(1) [OF assms(1,2)] .
  moreover have "gidx ref < MAX_NR_GRANT_ENTRIES" "frame_mapped s (gidx ref div GRANT_ENTRIES_PER_PAGE)"
    "GRANT_REF_cache ref = 0"
    using ref_ok_facts [OF assms(1)] assms(2) by (auto simp: tab_ok_def)
  ultimately show ?thesis
    using assms(3) by (simp add: GnttabEndForeignAccess_def GnttabEndForeignAccessRef_def Let_def)
qed

lemma GnttabEndForeignAccess_eval:
  assumes "pool_ok s rs" and "\<not> gnttab_lock s" and "ref_ok (nr_grant_frames s) 0 ref"
    and "gnttab_list s (gidx ref) = 0" and "xen_GRANT_REF ref \<notin> xens rs"
    and loop: "EndAccess_loop xen 0 (ge_flags (GnttabTable s (gidx ref))) =
      Some (if busy then (STATUS_DEVICE_BUSY, g) else (STATUS_SUCCESS, 0))"
  shows "\<exists>s'. GnttabEndForeignAccess xen s ref = Some (Inr (if busy then STATUS_DEVICE_BUSY else STATUS_SUCCESS, s')) \<and>
      \<not> gnttab_lock s' \<and>
      (if busy then s' = set_entry s ref ((GnttabTable s (gidx ref))\<lparr>ge_flags := g\<rparr>) \<and> pool_ok s' rs
       else revoked s s' ref \<and> pool_ok s' (ref # rs))"
proof -
  have tab: "tab_ok s" using assms(1) by (simp add: pool_ok_def)
  have "GRANT_REF_cache ref = 0"
    using ref_ok_facts(3) [OF assms(3)] tab by (simp add: tab_ok_def)
  obtain t where t: "GnttabEndForeignAccessRef xen s ref = Some (Inr (if busy then STATUS_DEVICE_BUSY else STATUS_SUCCESS, t))"
      "t = s\<lparr>GnttabTable := GnttabTable t, gnttab_pfns := gnttab_pfns t, gnttab_domids := gnttab_domids t\<rparr>"
      "if busy then t = set_entry s ref ((GnttabTable s (gidx ref))\<lparr>ge_flags := g\<rparr>) else revoked s t ref"
    using GnttabEndForeignAccessRef_eval [OF assms(3) tab loop] by blast
  have same: "gnttab_list t = gnttab_list s" "gnttab_free_head t = gnttab_free_head s"
    "gnttab_free_count t = gnttab_free_count s" "nr_grant_frames t = nr_grant_frames s"
    "frame_mapped t = frame_mapped s" "gnttab_lock t = gnttab_lock s"
    using t(2) by (cases t; cases s; simp)+
  then have pt: "pool_ok t rs" using assms(1) by (simp add: pool_ok_def tab_ok_def)
  have rt: "ref_ok (nr_grant_frames t) 0 ref" using same assms(3) by simp
  have put: "put_free_entry t ref False = Inr (pool_push t ref)"
    by (rule put_free_entry_eval [OF pt rt]) (use same assms in simp_all)
  show ?thesis
  proof (cases busy)
    case False
    then show ?thesis
      using t(1,3) put pool_push_ok [OF pt rt assms(5)] same assms(2) \<open>GRANT_REF_cache ref = 0\<close>
      by (intro exI [of _ "pool_push t ref"]) (simp add: GnttabEndForeignAccess_def revoked_def)
  next
    case True
    then show ?thesis
      using t(1,3) pt same assms(2) \<open>GRANT_REF_cache ref = 0\<close>
      by (intro exI [of _ t]) (simp add: GnttabEndForeignAccess_def)
  qed
qed

text \<open>C12: Ending access to a page that is granted (its reference is not in the pool), whatever Xen does to the
  entry's flags between two looks at them.  If Xen changes them before every exchange for ever, the call does
  not return.  Otherwise, at the first round \<open>n\<close> that finds a reader or a writer or whose exchange finds the
  flags unchanged: if the flags of that round have a reader or a writer, the call fails with
  \<open>STATUS_DEVICE_BUSY\<close> and leaves entry and pool as they are but for Xen's flags; if they have none, the
  exchange has replaced exactly those flags by 0, the call succeeds, the entry and its saved copy are
  invalidated, and the reference is on top of the pool again.\<close>

theorem GnttabEndForeignAccess_correct:
  assumes "pool_ok s rs" and "\<not> gnttab_lock s" and "ref_ok (nr_grant_frames s) 0 ref"
    and "gnttab_list s (gidx ref) = 0" and "xen_GRANT_REF ref \<notin> xens rs"
    and "f = ge_flags (GnttabTable s (gidx ref))"
  shows "((\<nexists>n. ends_at xen f n) \<longrightarrow> GnttabEndForeignAccess xen s ref = None) \<and>
    (\<forall>n. ends_at xen f n \<longrightarrow>
      (if in_use (flags_seen xen 0 f n)
       then \<exists>s'. GnttabEndForeignAccess xen s ref = Some (Inr (STATUS_DEVICE_BUSY, s')) \<and> \<not> gnttab_lock s' \<and>
         s' = set_entry s ref ((GnttabTable s (gidx ref))\<lparr>ge_flags := flags_seen xen 0 f n\<rparr>) \<and> pool_ok s' rs
       else xen n (flags_seen xen 0 f n) = flags_seen xen 0 f n \<and>
         (\<exists>s'. GnttabEndForeignAccess xen s ref = Some (Inr (STATUS_SUCCESS, s')) \<and> \<not> gnttab_lock s' \<and>
           revoked s s' ref \<and> pool_ok s' (ref # rs))))"
proof (intro conjI impI allI)
  assume "\<nexists>n. ends_at xen f n"
  then show "GnttabEndForeignAccess xen s ref = None"
    using GnttabEndForeignAccess_stuck [OF assms(3)] EndAccess_loop_never assms(1,6) by (simp add: pool_ok_def)
next
  fix n
  assume n: "ends_at xen f n"
  then have "in_use (flags_seen xen 0 f n) \<or> xen n (flags_seen xen 0 f n) = flags_seen xen 0 f n"
    by (simp add: ends_at_def settled_def)
  then show "if in_use (flags_seen xen 0 f n)
    then \<exists>s'. GnttabEndForeignAccess xen s ref = Some (Inr (STATUS_DEVICE_BUSY, s')) \<and> \<not> gnttab_lock s' \<and>
         s' = set_entry s ref ((GnttabTable s (gidx ref))\<lparr>ge_flags := flags_seen xen 0 f n\<rparr>) \<and> pool_ok s' rs
    else xen n (flags_seen xen 0 f n) = flags_seen xen 0 f n \<and>
      (\<exists>s'. GnttabEndForeignAccess xen s ref = Some (Inr (STATUS_SUCCESS, s')) \<and> \<not> gnttab_lock s' \<and>
        revoked s s' ref \<and> pool_ok s' (ref # rs))"
    using GnttabEndForeignAccess_eval [OF assms(1-5) EndAccess_loop_ends_at [OF n, unfolded assms(6)]]
    unfolding assms(6) by (simp split: if_splits)
qed

section \<open>Suspend and resume\<close>

definition saved_entry :: "gnttab \<Rightarrow> nat \<Rightarrow> grant_entry" where
  "saved_entry s i =
     \<lparr>ge_flags = GTF_permit_access OR
        (if gnttab_readonly_flags s (i div 8) AND readonly_bit i \<noteq> 0 then GTF_readonly else 0),
      ge_domid = gnttab_domids s i, ge_frame = gnttab_pfns s i\<rparr>"

lemma Resume_one_eval:
  assumes "tab_ok s" and "x < GRANT_ENTRIES_PER_PAGE * nr_grant_frames s"
  shows "Resume_one x s = Inr (s\<lparr>GnttabTable :=
      (\<lambda>i. if i = x \<and> gnttab_pfns s i \<noteq> 0 then saved_entry s i else GnttabTable s i)\<rparr>)"
proof -
  define g where "g = wrap_GRANT_REF (of_nat x) 0"
  have nr: "nr_grant_frames s \<le> MAX_NR_GRANT_FRAMES" using assms(1) by (simp add: tab_ok_def)
  have "gidx g = x" unfolding g_def by (rule wrap_nat(1) [OF assms(2) nr])
  moreover have "x div GRANT_ENTRIES_PER_PAGE < nr_grant_frames s" "x < MAX_NR_GRANT_ENTRIES"
    using assms(2) nr by auto
  ultimately have "in_table s g m = m" "gidx g = x" for m :: "gnttab res"
    using assms(1) by (simp_all add: in_table_def tab_ok_def)
  moreover have "(\<lambda>i. if i = x then saved_entry s i else GnttabTable s i) = (GnttabTable s)(x := saved_entry s x)"
    by auto
  moreover have "(\<lambda>i. if i = x \<and> gnttab_pfns s i \<noteq> 0 then saved_entry s i else GnttabTable s i) =
      (if gnttab_pfns s x \<noteq> 0 then (GnttabTable s)(x := saved_entry s x) else GnttabTable s)"
    by auto
  ultimately show ?thesis
    by (simp add: Resume_one_def g_def [symmetric] Let_def set_entry_def saved_entry_def)
qed

lemma Resume_loop_eval:
  assumes "tab_ok s" and "\<forall>x \<in> set xs. x < GRANT_ENTRIES_PER_PAGE * nr_grant_frames s"
  shows "Resume_loop xs s = Inr (s\<lparr>GnttabTable :=
      (\<lambda>i. if i \<in> set xs \<and> gnttab_pfns s i \<noteq> 0 then saved_entry s i else GnttabTable s i)\<rparr>)"
  using assms
proof (induction xs arbitrary: s)
  case (Cons x xs)
  define t where "t = s\<lparr>GnttabTable :=
      (\<lambda>i. if i = x \<and> gnttab_pfns s i \<noteq> 0 then saved_entry s i else GnttabTable s i)\<rparr>"
  have t: "tab_ok t" "\<forall>x \<in> set xs. x < GRANT_ENTRIES_PER_PAGE * nr_grant_frames t"
    "gnttab_pfns t = gnttab_pfns s" "saved_entry t = saved_entry s"
    using Cons.prems by (auto simp: t_def tab_ok_def saved_entry_def fun_eq_iff)
  have "Resume_loop (x # xs) s = Resume_loop xs t"
    using Resume_one_eval [of s x] Cons.prems by (simp add: t_def)
  also have "\<dots> = Inr (t\<lparr>GnttabTable :=
      (\<lambda>i. if i \<in> set xs \<and> gnttab_pfns s i \<noteq> 0 then saved_entry s i else GnttabTable t i)\<rparr>)"
    using Cons.IH [OF t(1,2)] unfolding t(3,4) .
  also have "(\<lambda>i. if i \<in> set xs \<and> gnttab_pfns s i \<noteq> 0 then saved_entry s i else GnttabTable t i) =
      (\<lambda>i. if i \<in> set (x # xs) \<and> gnttab_pfns s i \<noteq> 0 then saved_entry s i else GnttabTable s i)"
    by (auto simp: t_def)
  finally show ?case by (simp add: t_def)
qed simp

lemma GnttabResume_eval:
  assumes "tab_ok s" and "\<forall>i < nr_grant_frames s. remap i"
  shows "GnttabResume remap s = Inr (s\<lparr>GnttabTable :=
      (\<lambda>i. if i < GRANT_ENTRIES_PER_PAGE * nr_grant_frames s \<and> gnttab_pfns s i \<noteq> 0
           then saved_entry s i else GnttabTable s i)\<rparr>)"
  using assms Resume_loop_eval [of s "[0..<nr_grant_frames s * GRANT_ENTRIES_PER_PAGE]"]
  by (simp add: GnttabResume_def list_all_iff mult.commute)

lemma readonly_bit_test: "fl AND readonly_bit i \<noteq> 0 \<longleftrightarrow> bit fl (i mod 8)"
  by (simp add: readonly_bit_def bit_iff_and_push_bit_not_eq_0)

text \<open>Setting or clearing the bit of one entry changes the bit of that entry and of no other.\<close>

lemma readonly_bit_set:
  "bit (fl OR readonly_bit j) (i mod 8) \<longleftrightarrow> bit fl (i mod 8) \<or> i mod 8 = j mod 8"
  "bit (fl AND NOT (readonly_bit j)) (i mod 8) \<longleftrightarrow> bit fl (i mod 8) \<and> i mod 8 \<noteq> j mod 8"
proof -
  have "i mod 8 < 8" by simp
  then show "bit (fl OR readonly_bit j) (i mod 8) \<longleftrightarrow> bit fl (i mod 8) \<or> i mod 8 = j mod 8"
    "bit (fl AND NOT (readonly_bit j)) (i mod 8) \<longleftrightarrow> bit fl (i mod 8) \<and> i mod 8 \<noteq> j mod 8"
    by (auto simp: readonly_bit_def bit_simps)
qed

lemma saved_entry_granted:
  assumes "gnttab_pfns t = (gnttab_pfns s)(j := ucast frame)" and "gnttab_domids t = (gnttab_domids s)(j := domid)"
    and "gnttab_readonly_flags t = (gnttab_readonly_flags s)(j div 8 :=
         (if mode = 1 then gnttab_readonly_flags s (j div 8) OR readonly_bit j
          else gnttab_readonly_flags s (j div 8) AND NOT (readonly_bit j)))"
    and "mode = 0 \<or> mode = 1"
  shows "saved_entry t i = (if i = j then granted_entry domid frame mode else saved_entry s i)"
proof -
  have "i = j \<longleftrightarrow> i div 8 = j div 8 \<and> i mod 8 = j mod 8" by (metis div_mod_decomp)
  then have "bit (gnttab_readonly_flags t (i div 8)) (i mod 8) \<longleftrightarrow>
      (if i = j then mode = 1 else bit (gnttab_readonly_flags s (i div 8)) (i mod 8))"
    using assms(3) readonly_bit_set by auto
  then show ?thesis using assms(1,2,4)
    by (auto simp: saved_entry_def granted_entry_def readonly_bit_test)
qed

text \<open>The grants that are out after any sequence of grants and ends of access, each with the entry that it
  wrote into the table.  An operation on the pools, the caches or the table's size, a change that Xen makes to
  the flags, and an earlier suspend leave the saved copies as they are (\<open>grants_other\<close>).\<close>

inductive grants_out :: "gnttab \<Rightarrow> (nat \<rightharpoonup> grant_entry) \<Rightarrow> bool" where
  grants_init: "tab_ok s \<Longrightarrow> gnttab_pfns s = (\<lambda>_. 0) \<Longrightarrow> grants_out s Map.empty"
| grants_grant: "grants_out s g \<Longrightarrow> ref_ok (nr_grant_frames s) c ref \<Longrightarrow>
    GnttabGrantForeignAccessRef s domid frame mode ref = Inr s' \<Longrightarrow>
    grants_out s' (g(gidx ref \<mapsto> granted_entry domid frame mode))"
| grants_end: "grants_out s g \<Longrightarrow> ref_ok (nr_grant_frames s) c ref \<Longrightarrow>
    GnttabEndForeignAccessRef xen s ref = Some (Inr (status, s')) \<Longrightarrow>
    grants_out s' (if status = STATUS_SUCCESS then g(gidx ref := None) else g)"
| grants_other: "grants_out s g \<Longrightarrow> tab_ok s' \<Longrightarrow> nr_grant_frames s \<le> nr_grant_frames s' \<Longrightarrow>
    gnttab_pfns s' = gnttab_pfns s \<Longrightarrow> gnttab_domids s' = gnttab_domids s \<Longrightarrow>
    gnttab_readonly_flags s' = gnttab_readonly_flags s \<Longrightarrow> grants_out s' g"

text \<open>The saved copies are those of the grants that are out.\<close>

definition saved_ok :: "gnttab \<Rightarrow> (nat \<rightharpoonup> grant_entry) \<Rightarrow> bool" where
  "saved_ok s g \<longleftrightarrow> tab_ok s \<and>
     (\<forall>i. g i = None \<longrightarrow> gnttab_pfns s i = 0) \<and>
     (\<forall>i e. g i = Some e \<longrightarrow> i < GRANT_ENTRIES_PER_PAGE * nr_grant_frames s \<and> saved_entry s i = e)"

lemma saved_ok_entry:
  assumes "saved_ok s g" and "g i = Some e"
  shows "gnttab_pfns s i = ge_frame e"
proof -
  have "saved_entry s i = e" using assms by (simp add: saved_ok_def)
  then show ?thesis by (auto simp: saved_entry_def)
qed

lemma saved_ok_grant:
  assumes "saved_ok s g" and "ref_ok (nr_grant_frames s) c ref"
    and "GnttabGrantForeignAccessRef s domid frame mode ref = Inr s'"
  shows "saved_ok s' (g(gidx ref \<mapsto> granted_entry domid frame mode))"
proof -
  have tab: "tab_ok s" using assms(1) by (simp add: saved_ok_def)
  have m: "mode = 0 \<or> mode = 1" "drop_bit 32 frame = 0"
    using assms(3) by (auto simp: GnttabGrantForeignAccessRef_def xm_assert_def split: if_splits)
  obtain t where t: "GnttabGrantForeignAccessRef s domid frame mode ref = Inr t"
      "gnttab_pfns t = (gnttab_pfns s)(gidx ref := ucast frame)"
      "gnttab_domids t = (gnttab_domids s)(gidx ref := domid)"
      "gnttab_readonly_flags t = (gnttab_readonly_flags s)(gidx ref div 8 :=
         (if mode = 1 then gnttab_readonly_flags s (gidx ref div 8) OR readonly_bit (gidx ref)
          else gnttab_readonly_flags s (gidx ref div 8) AND NOT (readonly_bit (gidx ref))))"
      "t = s\<lparr>GnttabTable := GnttabTable t, gnttab_pfns := gnttab_pfns t, gnttab_domids := gnttab_domids t,
             gnttab_readonly_flags := gnttab_readonly_flags t\<rparr>"
    using GnttabGrantForeignAccessRef_eval [OF assms(2) tab m, of domid] by (elim exE conjE) (rule that)
  have "t = s'" using t(1) assms(3) by simp
  have same: "nr_grant_frames t = nr_grant_frames s" "frame_mapped t = frame_mapped s" "gnttab_list t = gnttab_list s"
    using t(5) by (cases t; cases s; simp)+
  have "gidx ref < GRANT_ENTRIES_PER_PAGE * nr_grant_frames s" using assms(2) by (simp add: ref_ok_def)
  moreover have "saved_entry t i = (if i = gidx ref then granted_entry domid frame mode else saved_entry s i)" for i
    by (rule saved_entry_granted [OF t(2-4) m(1)])
  moreover have "tab_ok t" using tab same by (simp add: tab_ok_def)
  ultimately show ?thesis
    using assms(1) same t(2) \<open>t = s'\<close> by (auto simp: saved_ok_def)
qed

lemma GnttabEndForeignAccessRef_saved:
  assumes "GnttabEndForeignAccessRef xen s ref = Some (Inr (status, s'))"
  shows "gnttab_readonly_flags s' = gnttab_readonly_flags s \<and> nr_grant_frames s' = nr_grant_frames s \<and>
    frame_mapped s' = frame_mapped s \<and> gnttab_list s' = gnttab_list s \<and>
    gnttab_pfns s' = (if status = STATUS_SUCCESS then (gnttab_pfns s)(gidx ref := 0) else gnttab_pfns s) \<and>
    gnttab_domids s' = (if status = STATUS_SUCCESS then (gnttab_domids s)(gidx ref := DOMID_INVALID) else gnttab_domids s)"
  using assms
  by (auto simp: GnttabEndForeignAccessRef_def Let_def set_entry_def split: if_splits option.splits NTSTATUS.splits)

lemma grants_out_saved: "grants_out s g \<Longrightarrow> saved_ok s g"
proof (induction rule: grants_out.induct)
  case (grants_init s)
  then show ?case by (simp add: saved_ok_def)
next
  case (grants_grant s g c ref domid frame mode s')
  then show ?case by (rule_tac saved_ok_grant)
next
  case (grants_end s g c ref xen status s')
  note e = GnttabEndForeignAccessRef_saved [OF grants_end.hyps(3)]
  have "saved_entry s' i = saved_entry s i" if "status \<noteq> STATUS_SUCCESS \<or> i \<noteq> gidx ref" for i
    using e that by (auto simp: saved_entry_def)
  moreover have "tab_ok s'" using grants_end.IH e by (simp add: saved_ok_def tab_ok_def)
  ultimately show ?case using grants_end.IH e by (auto simp: saved_ok_def)
next
  case (grants_other s g s')
  have "saved_entry s' = saved_entry s" using grants_other.hyps by (simp add: saved_entry_def fun_eq_iff)
  moreover have "i < GRANT_ENTRIES_PER_PAGE * nr_grant_frames s'" if "i < GRANT_ENTRIES_PER_PAGE * nr_grant_frames s" for i
    using that grants_other.hyps(3) by (meson less_le_trans mult_le_mono2)
  ultimately show ?case using grants_other.IH grants_other.hyps unfolding saved_ok_def by metis
qed

text \<open>C37: Grants survive suspend.  After any sequence of grants and ends of access (to any references, from
  a table without grants), and whatever the table holds once the domain has been restored (\<open>wiped\<close>),
  resuming restores exactly the grants that are out: each of their entries again has its frame, domain and
  permission, no other entry is touched, and nothing else of the state changes.  A grant of the page with
  frame number 0 is the exception, since 0 marks an unused saved entry: its entry stays wiped.  If the
  hypercall that maps a frame of the table again fails, the driver bug checks.\<close>

theorem GnttabResume_restores_grants:
  assumes "grants_out s g"
  shows "GnttabResume remap (s\<lparr>GnttabTable := wiped\<rparr>) =
    (if \<forall>i < nr_grant_frames s. remap i
     then Inr (s\<lparr>GnttabTable := (\<lambda>i. case g i of
            Some e \<Rightarrow> if ge_frame e \<noteq> 0 then e else wiped i
          | None \<Rightarrow> wiped i)\<rparr>)
     else Inl XmAssert)"
proof (cases "\<forall>i < nr_grant_frames s. remap i")
  case True
  have ok: "saved_ok s g" by (rule grants_out_saved [OF assms])
  then have tab: "tab_ok (s\<lparr>GnttabTable := wiped\<rparr>)" by (simp add: saved_ok_def tab_ok_def)
  have "(if i < GRANT_ENTRIES_PER_PAGE * nr_grant_frames s \<and> gnttab_pfns s i \<noteq> 0
      then saved_entry (s\<lparr>GnttabTable := wiped\<rparr>) i else wiped i) =
    (case g i of Some e \<Rightarrow> if ge_frame e \<noteq> 0 then e else wiped i | None \<Rightarrow> wiped i)" for i
  proof (cases "g i")
    case None
    then have "gnttab_pfns s i = 0" using ok by (simp_all add: saved_ok_def)
    then show ?thesis using None by simp
  next
    case (Some e)
    then have "i < GRANT_ENTRIES_PER_PAGE * nr_grant_frames s" "saved_entry s i = e"
      using ok by (simp_all add: saved_ok_def)
    moreover have "saved_entry (s\<lparr>GnttabTable := wiped\<rparr>) i = saved_entry s i" by (simp add: saved_entry_def)
    ultimately show ?thesis using Some saved_ok_entry [OF ok Some] by simp
  qed
  then have "(\<lambda>i. if i < GRANT_ENTRIES_PER_PAGE * nr_grant_frames s \<and> gnttab_pfns s i \<noteq> 0
      then saved_entry (s\<lparr>GnttabTable := wiped\<rparr>) i else wiped i) =
    (\<lambda>i. case g i of Some e \<Rightarrow> if ge_frame e \<noteq> 0 then e else wiped i | None \<Rightarrow> wiped i)" by (rule ext)
  then show ?thesis
    using GnttabResume_eval [OF tab, of remap] True by (simp cong: if_cong)
next
  case False
  then show ?thesis by (auto simp: GnttabResume_def xm_assert_def list_all_iff)
qed

text \<open>Taking a reference with the lock already held releases the lock when the table is exhausted:
  the caller goes on without it.\<close>

theorem get_free_entry_drops_lock:
  assumes "pool_ok s []" and "gnttab_lock s" and "\<not> can_expand E s"
  shows "\<exists>s'. get_free_entry E s True = Inr (null_GRANT_REF, s') \<and> \<not> gnttab_lock s'"
proof -
  have lk: "True = gnttab_lock s" using assms(2) by simp
  from assms(1) lk show ?thesis
    by (cases rule: get_free_entry_cases [consumes 2, where E = E])
      (use assms(3) in \<open>auto simp: null_GRANT_REF_def\<close>)
qed

text \<open>A reference gives back the Xen number and the cache number it was made of, and is not null, for
  every number below \<open>2^22 - 1\<close>; the table has at most 16384 entries.\<close>

theorem wrap_GRANT_REF_roundtrip:
  assumes "unat x + 1 < 2 ^ 22"
  shows "xen_GRANT_REF (wrap_GRANT_REF x c) = x \<and> GRANT_REF_cache (wrap_GRANT_REF x c) = ucast (c AND 3) \<and>
    \<not> is_null_GRANT_REF (wrap_GRANT_REF x c)"
  using wrap_GRANT_REF_simps [OF assms] by (simp add: is_null_GRANT_REF_def)

lemma length_le_xens:
  assumes "stack f p n rs" and "xens rs \<subseteq> xens qs"
  shows "length rs \<le> length qs"
proof -
  have "length rs = card (xens rs)" using assms(1) by (metis distinct_card length_map list.set_map stack_def)
  also have "\<dots> \<le> card (xens qs)" using assms(2) by (simp add: card_mono)
  also have "\<dots> \<le> length qs" by (metis card_length length_map list.set_map)
  finally show ?thesis .
qed

lemma new_cache_lists_ok:
  assumes "pool_ok s rs" and "gc_id gc < 4" and "population gc = 0" and "head_free gc = 0"
  shows "lists_ok s rs gc []"
  using assms by (simp add: lists_ok_def cache_ok_def stack_def)

lemma Replenish_full_table:
  assumes "lists_ok s rs gc []" and "\<not> gnttab_lock s" and "nr_grant_frames s = MAX_NR_GRANT_FRAMES"
    and "length rs < unat target" and "population gc < target"
  shows "\<exists>s' gc'. ReplenishCache E s gc target = Inr (False, s', gc') \<and> gc_linked gc' = gc_linked gc"
proof -
  define t where "t = s\<lparr>gnttab_lock := True\<rparr>"
  have t: "lists_ok t rs gc []" "gnttab_lock t" "nr_grant_frames t = MAX_NR_GRANT_FRAMES"
    using assms(1,3) by (simp_all add: t_def)
  obtain u gc' rs' moved where u: "Replenish_loop E (unat (target - population gc)) t gc = Inr (u, gc')"
      "lists_ok u rs' gc' (moved @ [])" "gc' = gc\<lparr>head_free := head_free gc', population := population gc'\<rparr>"
      "keeps (xens rs) t u"
      "xens rs' \<union> xens moved = xens rs \<union> usable (nr_grant_frames t) (nr_grant_frames u)"
    using Replenish_loop_spec [OF t(1,2), of E "unat (target - population gc)"] by (elim exE conjE) (rule that)
  have "nr_grant_frames u = MAX_NR_GRANT_FRAMES"
    using u(2,4) t(3) by (simp add: lists_ok_def pool_ok_def tab_ok_def keeps_def)
  then have "xens moved \<subseteq> xens rs" using u(5) t(3) by auto
  moreover have st: "stack (gnttab_list u) (head_free gc') (population gc') moved"
    using u(2) by (simp add: lists_ok_def cache_ok_def)
  ultimately have "length moved \<le> length rs" by (rule_tac length_le_xens)
  then have "population gc' \<noteq> target" using st assms(4) by (auto simp: stack_def)
  moreover have "gc_linked gc' = gc_linked gc" using u(3) by (cases gc; cases gc') simp
  ultimately show ?thesis using assms(2,5) u(1)
    by (simp add: ReplenishCache_def acquire_gnttab_lock_def t_def [symmetric])
qed

text \<open>Creating a cache bigger than what is left of a fully grown table does not return a null pointer:
  the failure path frees a cache that was never linked and unlinks it from uninitialised pointers.\<close>

theorem GnttabAllocCache_failure_faults:
  assumes "pool_ok s rs" and "\<not> gnttab_lock s" and "nr_grant_frames s = MAX_NR_GRANT_FRAMES"
    and "length rs < unat min_pop"
  shows "GnttabAllocCache E True s min_pop = Inl BadPointer"
proof -
  define id1 where "id1 = next_id s AND 3"
  define s2 where "s2 = s\<lparr>next_id := (if id1 = 0 then next_id s + 1 + 1 else next_id s + 1)\<rparr>"
  define id2 where "id2 = (if id1 = 0 then (next_id s + 1) AND 3 else id1)"
  define work where "work = \<lparr>gc_linked = False, gc_id = id2, nr_outstanding = 0, population = 0,
      min_population = min_pop, head_free = null_GRANT_REF\<rparr>"
  have pos: "0 < min_pop" using assms(4) by (simp add: word_less_nat_alt)
  have "unat id2 < 4" by (simp add: id2_def id1_def unat_and_3)
  then have "gc_id work < 4" by (simp add: work_def word_less_nat_alt)
  then have "lists_ok s2 rs work []"
    by (rule_tac new_cache_lists_ok)
      (use assms(1) in \<open>simp_all add: s2_def work_def null_GRANT_REF_def pool_ok_def tab_ok_def\<close>)
  then obtain s' gc' where r: "ReplenishCache E s2 work min_pop = Inr (False, s', gc')" "\<not> gc_linked gc'"
    using Replenish_full_table [of s2 rs work min_pop E] assms pos by (auto simp: s2_def work_def)
  have "GnttabAllocCache E True s min_pop =
      res_bind (ReplenishCache E s2 work min_pop) (\<lambda>(ok, s, gc).
        if \<not> ok then res_bind (GnttabFreeCache s gc) (\<lambda>s. Inr (None, s))
        else Inr (Some (gc\<lparr>gc_linked := True\<rparr>), s))"
    using pos by (cases "id1 = 0")
      (simp_all add: GnttabAllocCache_def Let_def s2_def id2_def id1_def [symmetric] work_def)
  then show ?thesis by (simp add: r GnttabFreeCache_def)
qed

section \<open>A concrete table\<close>

text \<open>One mapped frame; the references of the entries 9 and 8 are in the pool, entry 10 is granted
  read-write to domain 3, and a cache with the number 1 is empty.\<close>

definition demo :: gnttab where
  "demo = \<lparr>GnttabTable = (\<lambda>_. invalid_entry 0)(10 := granted_entry 3 77 0),
     frame_mapped = (\<lambda>i. i = 0), GnttabPhysAddrs = (\<lambda>_. 0),
     gnttab_list = (\<lambda>_. 0)(9 := 9216), gnttab_pfns = (\<lambda>_. 0)(10 := 77),
     gnttab_domids = (\<lambda>_. DOMID_INVALID)(10 := 3), gnttab_readonly_flags = (\<lambda>_. 0),
     gnttab_free_count = 2, gnttab_free_head = 10240, nr_grant_frames = 1,
     grant_table_fully_mapped = False, gnttab_lock = False, expansions = 0, next_id = 0,
     sh_registered = True, GnttabStarted = True\<rparr>"

definition demo_cache :: grant_cache where
  "demo_cache = \<lparr>gc_linked = True, gc_id = 1, nr_outstanding = 0, population = 0, min_population = 0,
     head_free = 0\<rparr>"

definition demo_full :: gnttab where
  "demo_full = demo\<lparr>gnttab_list := (\<lambda>_. 0), gnttab_free_count := 0, gnttab_free_head := 0, gnttab_lock := True\<rparr>"

definition demo_trim :: gnttab where
  "demo_trim = demo\<lparr>gnttab_list := (\<lambda>_. 0)(9 := 9216, 11 := 11265)\<rparr>"

definition demo_trim_cache :: grant_cache where
  "demo_trim_cache = demo_cache\<lparr>population := 2, head_free := 12289\<rparr>"

definition poor_env :: env where
  "poor_env = \<lparr>io_mem = (\<lambda>_. None), physmap = (\<lambda>_. False)\<rparr>"

lemma demo_xen [simp]:
  "xen_GRANT_REF 9216 = 8" "xen_GRANT_REF 10240 = 9" "xen_GRANT_REF 11264 = 10"
  "xen_GRANT_REF 11265 = 10" "xen_GRANT_REF 12289 = 11"
  by (simp_all add: xen_GRANT_REF_def drop_bit_eq_div)

lemma demo_wrap: "wrap_GRANT_REF 8 0 = 9216" "wrap_GRANT_REF 9 0 = 10240" "wrap_GRANT_REF 10 0 = 11264"
  "wrap_GRANT_REF 10 1 = 11265" "wrap_GRANT_REF 11 1 = 12289"
  by (simp_all add: wrap_GRANT_REF_def push_bit_eq_mult)

lemma demo_ref_ok [simp]: "ref_ok (Suc 0) 0 9216" "ref_ok (Suc 0) 0 10240" "ref_ok (Suc 0) 0 11264"
  "ref_ok (Suc 0) 1 11265" "ref_ok (Suc 0) 1 12289"
  by (simp_all add: ref_ok_def demo_wrap)

lemma demo_tab_ok [simp]: "tab_ok demo" "tab_ok demo_full" "tab_ok demo_trim"
  by (auto simp: tab_ok_def demo_def demo_full_def demo_trim_def)

lemma demo_lists_ok: "lists_ok demo [10240, 9216] demo_cache []"
  by (simp add: lists_ok_def pool_ok_def cache_ok_def stack_def) (simp add: demo_def demo_cache_def)

lemma demo_trim_lists_ok: "lists_ok demo_trim [10240, 9216] demo_trim_cache [12289, 11265]"
  by (simp add: lists_ok_def pool_ok_def cache_ok_def stack_def)
    (simp add: demo_trim_def demo_def demo_cache_def demo_trim_cache_def)

lemma demo_pool_ok: "pool_ok demo [10240, 9216]"
  using demo_lists_ok by (simp add: lists_ok_def)

lemma demo_full_pool_ok: "pool_ok demo_full []"
  by (simp add: pool_ok_def stack_def) (simp add: demo_full_def)

theorem ReplenishCache_correct_witness:
  "\<exists>ok s' gc' rs' moved. ReplenishCache poor_env demo demo_cache 2 = Inr (ok, s', gc') \<and>
      lists_ok s' rs' gc' (moved @ []) \<and> \<not> gnttab_lock s' \<and>
      (ok \<longleftrightarrow> length (moved @ []) = unat (2 :: u32)) \<and> (\<not> ok \<longrightarrow> rs' = []) \<and>
      length (moved @ []) \<le> unat (2 :: u32) \<and> keeps (xens [10240, 9216]) demo s' \<and>
      xens rs' \<union> xens moved = xens [10240, 9216] \<union> usable (nr_grant_frames demo) (nr_grant_frames s')"
  by (rule ReplenishCache_correct [OF demo_lists_ok]) (simp_all add: demo_def demo_cache_def)

theorem TrimCache_correct_witness:
  "\<exists>s' gc'. TrimCache demo_trim demo_trim_cache 1 = Inr (s', gc') \<and> \<not> gnttab_lock s' \<and>
      lists_ok s' [ChangeGrantCache 12289 0, 10240, 9216] gc' [11265] \<and> population gc' = 1"
proof -
  have "\<not> gnttab_lock demo_trim" "1 \<le> population demo_trim_cache"
    by (simp_all add: demo_trim_def demo_def demo_trim_cache_def)
  from TrimCache_correct [OF demo_trim_lists_ok this] show ?thesis by (simp add: Let_def)
qed

theorem GnttabGrantForeignAccess_correct_witness:
  "\<exists>ref s' rs'. GnttabGrantForeignAccess poor_env demo 5 99 1 = Inr (ref, s') \<and> pool_ok s' rs' \<and>
     ref # rs' = [10240, 9216] \<and> GnttabTable s' (gidx ref) = granted_entry 5 99 1"
proof -
  have "\<not> gnttab_lock demo" "(1 :: u32) = 0 \<or> (1 :: u32) = 1" "drop_bit 32 (99 :: u64) = 0"
    by (simp_all add: demo_def drop_bit_eq_div)
  from GnttabGrantForeignAccess_correct [OF demo_pool_ok this, of poor_env 5] show ?thesis by auto
qed

theorem GnttabEndForeignAccess_correct_witness:
  "\<exists>s'. GnttabEndForeignAccess (\<lambda>_ f. f) demo 11264 = Some (Inr (STATUS_SUCCESS, s')) \<and>
     revoked demo s' 11264 \<and> pool_ok s' [11264, 10240, 9216]"
proof -
  have "\<not> gnttab_lock demo" "ref_ok (nr_grant_frames demo) 0 11264" "gnttab_list demo (gidx 11264) = 0"
    "xen_GRANT_REF 11264 \<notin> xens [10240, 9216]"
    by (simp_all add: demo_def)
  moreover have "ends_at (\<lambda>_ f. f) (ge_flags (GnttabTable demo (gidx 11264))) 0"
    "\<not> in_use (flags_seen (\<lambda>_ f. f) 0 (ge_flags (GnttabTable demo (gidx 11264))) 0)"
    by (simp_all add: ends_at_def settled_def in_use_def demo_def granted_entry_def)
  ultimately show ?thesis
    using GnttabEndForeignAccess_correct [OF demo_pool_ok, of 11264 _ "\<lambda>_ f. f"] by metis
qed

definition demo_clean :: gnttab where
  "demo_clean = demo\<lparr>gnttab_pfns := (\<lambda>_. 0)\<rparr>"

lemma demo_clean_tab_ok: "tab_ok demo_clean"
  using demo_tab_ok(1) unfolding tab_ok_def demo_clean_def by simp

lemma demo_grants_out:
  "\<exists>t u. GnttabGrantForeignAccessRef demo_clean 5 99 1 10240 = Inr t \<and> GnttabGrantForeignAccessRef t 6 98 0 9216 = Inr u \<and>
     grants_out u [9 \<mapsto> granted_entry 5 99 1, 8 \<mapsto> granted_entry 6 98 0]"
proof -
  have h: "ref_ok (nr_grant_frames demo_clean) 0 10240" "ref_ok (nr_grant_frames demo_clean) 0 9216" by (simp_all add: demo_clean_def demo_def)
  have m: "(1 :: u32) = 0 \<or> (1 :: u32) = 1" "(0 :: u32) = 0 \<or> (0 :: u32) = 1" "drop_bit 32 (99 :: u64) = 0" "drop_bit 32 (98 :: u64) = 0"
    by (simp_all add: drop_bit_eq_div)
  have g0: "grants_out demo_clean Map.empty" by (rule grants_init [OF demo_clean_tab_ok]) (simp add: demo_clean_def)
  obtain t where t: "GnttabGrantForeignAccessRef demo_clean 5 99 1 10240 = Inr t"
      "t = demo_clean\<lparr>GnttabTable := GnttabTable t, gnttab_pfns := gnttab_pfns t, gnttab_domids := gnttab_domids t,
             gnttab_readonly_flags := gnttab_readonly_flags t\<rparr>"
    using GnttabGrantForeignAccessRef_eval [OF h(1) demo_clean_tab_ok m(1,3), of 5] by blast
  have g1: "grants_out t [9 \<mapsto> granted_entry 5 99 1]" using grants_grant [OF g0 h(1) t(1)] by simp
  have "nr_grant_frames t = nr_grant_frames demo_clean" using t(2) by (cases t; cases demo_clean; simp)
  then have h': "ref_ok (nr_grant_frames t) 0 9216" using h(2) by simp
  obtain u where u: "GnttabGrantForeignAccessRef t 6 98 0 9216 = Inr u"
    using GnttabGrantForeignAccessRef_eval [OF h' _ m(2,4), of 6] grants_out_saved [OF g1] by (auto simp: saved_ok_def)
  have "grants_out u [9 \<mapsto> granted_entry 5 99 1, 8 \<mapsto> granted_entry 6 98 0]"
    using grants_grant [OF g1 h' u] by simp
  with t u show ?thesis by blast
qed

theorem GnttabResume_restores_grants_witness:
  "\<exists>t u s'. GnttabGrantForeignAccessRef demo_clean 5 99 1 10240 = Inr t \<and> GnttabGrantForeignAccessRef t 6 98 0 9216 = Inr u \<and>
     GnttabResume (\<lambda>_. True) (u\<lparr>GnttabTable := (\<lambda>_. invalid_entry 0)\<rparr>) = Inr s' \<and>
     GnttabTable s' 9 = granted_entry 5 99 1 \<and> GnttabTable s' 8 = granted_entry 6 98 0 \<and>
     GnttabTable s' 10 = invalid_entry 0"
proof -
  obtain t u where u: "GnttabGrantForeignAccessRef demo_clean 5 99 1 10240 = Inr t" "GnttabGrantForeignAccessRef t 6 98 0 9216 = Inr u"
      "grants_out u [9 \<mapsto> granted_entry 5 99 1, 8 \<mapsto> granted_entry 6 98 0]"
    using demo_grants_out by blast
  have "ge_frame (granted_entry 5 99 1) \<noteq> 0" "ge_frame (granted_entry 6 98 0) \<noteq> 0"
    by (simp_all add: granted_entry_def)
  then show ?thesis
    using u(1,2) GnttabResume_restores_grants [OF u(3), of "\<lambda>_. True" "\<lambda>_. invalid_entry 0"] by simp
qed

theorem get_free_entry_drops_lock_witness:
  "\<exists>s'. get_free_entry poor_env demo_full True = Inr (null_GRANT_REF, s') \<and> \<not> gnttab_lock s'"
  by (rule get_free_entry_drops_lock [OF demo_full_pool_ok])
    (simp_all add: demo_full_def can_expand_def poor_env_def)

theorem GnttabAllocCache_failure_faults_witness:
  "GnttabAllocCache poor_env True (demo\<lparr>nr_grant_frames := 32, frame_mapped := (\<lambda>_. True)\<rparr>) 3 = Inl BadPointer"
proof (rule GnttabAllocCache_failure_faults)
  show "pool_ok (demo\<lparr>nr_grant_frames := 32, frame_mapped := (\<lambda>_. True)\<rparr>) [10240, 9216]"
    by (simp add: pool_ok_def stack_def tab_ok_def demo_def ref_ok_def demo_wrap)
qed (simp_all add: demo_def)

theorem wrap_GRANT_REF_roundtrip_witness:
  "xen_GRANT_REF (wrap_GRANT_REF 16383 7) = 16383 \<and> GRANT_REF_cache (wrap_GRANT_REF 16383 7) = ucast ((7 :: u32) AND 3) \<and>
   \<not> is_null_GRANT_REF (wrap_GRANT_REF 16383 7)"
  by (rule wrap_GRANT_REF_roundtrip) simp

end
