(* ===== verification/SharedRings.thy ===== *)
theory SharedRings
  imports Prelude
begin

text \<open>
  Shared rings: the request and response rings of \<^verbatim>\<open>src/inc/ring.h\<close> and the byte rings of
  \<^verbatim>\<open>src/inc/vring.h\<close> (the transport of \<^verbatim>\<open>v2v\<close>).

  The macros of \<^verbatim>\<open>ring.h\<close> are functions on a \<open>front_ring\<close> or \<open>back_ring\<close> and the shared page
  \<open>sring\<close>, whose ring array is a function of the slot number.  Each macro is first given as the code
  has it, with one value of the shared page throughout.  Both headers decide by the same comparison
  whether a moved index crossed the event index; the locale \<open>notifier\<close> states what the other side
  relies on, and is interpreted for each of them.  The last part splits the two halves of the
  notification hold-off into their memory accesses and shows for every interleaving that no wake-up is
  lost.
\<close>

section \<open>Indices\<close>

type_synonym RING_IDX = u32

definition RING_IDX_PLUS :: "RING_IDX \<Rightarrow> u32 \<Rightarrow> RING_IDX" where
  "RING_IDX_PLUS x c = x + c"

definition RING_IDX_DIFFERENCE :: "RING_IDX \<Rightarrow> RING_IDX \<Rightarrow> u32" where
  "RING_IDX_DIFFERENCE x y = x - y"

definition RING_IDXS_EQ :: "RING_IDX \<Rightarrow> RING_IDX \<Rightarrow> bool" where
  "RING_IDXS_EQ x y \<longleftrightarrow> x = y"

definition RD2 :: "u32 \<Rightarrow> u32" where
  "RD2 x = (if x AND 0x2 \<noteq> 0 then 0x2 else x AND 0x1)"

definition RD4 :: "u32 \<Rightarrow> u32" where
  "RD4 x = (if x AND 0xc \<noteq> 0 then push_bit 2 (RD2 (drop_bit 2 x)) else RD2 x)"

definition RD8 :: "u32 \<Rightarrow> u32" where
  "RD8 x = (if x AND 0xf0 \<noteq> 0 then push_bit 4 (RD4 (drop_bit 4 x)) else RD4 x)"

definition RD16 :: "u32 \<Rightarrow> u32" where
  "RD16 x = (if x AND 0xff00 \<noteq> 0 then push_bit 8 (RD8 (drop_bit 8 x)) else RD8 x)"

definition RD32 :: "u32 \<Rightarrow> u32" where
  "RD32 x = (if x AND 0xffff0000 \<noteq> 0 then push_bit 16 (RD16 (drop_bit 16 x)) else RD16 x)"

text \<open>The ring array starts behind four indices and 48 bytes of padding; \<open>esz\<close> is the size of an
  entry.\<close>

definition RING_SIZE_of :: "u32 \<Rightarrow> u32 \<Rightarrow> u32" where
  "RING_SIZE_of esz sz = RD32 ((sz - 64) div esz)"

section \<open>Request and response rings\<close>

datatype ('q, 'p) sring_entry = Req 'q | Rsp 'p

record ('q, 'p) sring =
  req_prod :: RING_IDX
  req_event :: RING_IDX
  rsp_prod :: RING_IDX
  rsp_event :: RING_IDX
  ring :: "u32 \<Rightarrow> ('q, 'p) sring_entry"

record front_ring =
  req_prod_pvt :: RING_IDX
  rsp_cons :: RING_IDX
  nr_ents :: u32

record back_ring =
  rsp_prod_pvt :: RING_IDX
  req_cons :: RING_IDX
  back_nr_ents :: u32

definition SHARED_RING_INIT :: "('q, 'p) sring \<Rightarrow> ('q, 'p) sring" where
  "SHARED_RING_INIT s = s\<lparr>req_prod := 0, rsp_prod := 0, req_event := 1, rsp_event := 1\<rparr>"

definition FRONT_RING_INIT :: "u32 \<Rightarrow> u32 \<Rightarrow> front_ring" where
  "FRONT_RING_INIT esz sz = \<lparr>req_prod_pvt = 0, rsp_cons = 0, nr_ents = RING_SIZE_of esz sz\<rparr>"

definition BACK_RING_INIT :: "u32 \<Rightarrow> u32 \<Rightarrow> back_ring" where
  "BACK_RING_INIT esz sz = \<lparr>rsp_prod_pvt = 0, req_cons = 0, back_nr_ents = RING_SIZE_of esz sz\<rparr>"

definition FRONT_RING_ATTACH :: "('q, 'p) sring \<Rightarrow> u32 \<Rightarrow> u32 \<Rightarrow> front_ring" where
  "FRONT_RING_ATTACH s esz sz = \<lparr>req_prod_pvt = req_prod s, rsp_cons = rsp_prod s, nr_ents = RING_SIZE_of esz sz\<rparr>"

definition BACK_RING_ATTACH :: "('q, 'p) sring \<Rightarrow> u32 \<Rightarrow> u32 \<Rightarrow> back_ring" where
  "BACK_RING_ATTACH s esz sz = \<lparr>rsp_prod_pvt = rsp_prod s, req_cons = req_prod s, back_nr_ents = RING_SIZE_of esz sz\<rparr>"

definition RING_PROD_SLOTS_AVAIL :: "front_ring \<Rightarrow> u32" where
  "RING_PROD_SLOTS_AVAIL r = nr_ents r - RING_IDX_DIFFERENCE (req_prod_pvt r) (rsp_cons r)"

definition RING_FULL :: "front_ring \<Rightarrow> bool" where
  "RING_FULL r \<longleftrightarrow> RING_PROD_SLOTS_AVAIL r = 0"

definition RING_HAS_UNCONSUMED_RESPONSES :: "front_ring \<Rightarrow> ('q, 'p) sring \<Rightarrow> bool" where
  "RING_HAS_UNCONSUMED_RESPONSES r s \<longleftrightarrow> \<not> RING_IDXS_EQ (rsp_cons r) (rsp_prod s)"

definition RING_HAS_UNCONSUMED_REQUESTS :: "back_ring \<Rightarrow> ('q, 'p) sring \<Rightarrow> bool" where
  "RING_HAS_UNCONSUMED_REQUESTS r s \<longleftrightarrow>
     req_cons r \<noteq> req_prod s \<and> req_cons r - rsp_prod_pvt r \<noteq> back_nr_ents r"

text \<open>The slot an index stands for, and access to it.\<close>

definition ring_slot :: "u32 \<Rightarrow> RING_IDX \<Rightarrow> u32" where
  "ring_slot n idx = idx AND (n - 1)"

definition RING_GET_REQUEST :: "front_ring \<Rightarrow> ('q, 'p) sring \<Rightarrow> RING_IDX \<Rightarrow> ('q, 'p) sring_entry" where
  "RING_GET_REQUEST r s idx = ring s (ring_slot (nr_ents r) idx)"

definition put_request :: "front_ring \<Rightarrow> ('q, 'p) sring \<Rightarrow> RING_IDX \<Rightarrow> 'q \<Rightarrow> ('q, 'p) sring" where
  "put_request r s idx q = s\<lparr>ring := (ring s)(ring_slot (nr_ents r) idx := Req q)\<rparr>"

definition RING_GET_RESPONSE :: "front_ring \<Rightarrow> ('q, 'p) sring \<Rightarrow> RING_IDX \<Rightarrow> ('q, 'p) sring_entry" where
  "RING_GET_RESPONSE r s idx = ring s (ring_slot (nr_ents r) idx)"

definition RING_REQUEST_CONS_OVERFLOW :: "back_ring \<Rightarrow> RING_IDX \<Rightarrow> bool" where
  "RING_REQUEST_CONS_OVERFLOW r cons \<longleftrightarrow> cons - rsp_prod_pvt r \<ge> back_nr_ents r"

definition RING_PUSH_REQUESTS :: "front_ring \<Rightarrow> ('q, 'p) sring \<Rightarrow> ('q, 'p) sring" where
  "RING_PUSH_REQUESTS r s = s\<lparr>req_prod := req_prod_pvt r\<rparr>"

definition RING_PUSH_RESPONSES :: "back_ring \<Rightarrow> ('q, 'p) sring \<Rightarrow> ('q, 'p) sring" where
  "RING_PUSH_RESPONSES r s = s\<lparr>rsp_prod := rsp_prod_pvt r\<rparr>"

definition RING_PUSH_REQUESTS_AND_CHECK_NOTIFY :: "front_ring \<Rightarrow> ('q, 'p) sring \<Rightarrow> bool \<times> ('q, 'p) sring" where
  "RING_PUSH_REQUESTS_AND_CHECK_NOTIFY r s =
     (let old = req_prod s; new = req_prod_pvt r; s1 = s\<lparr>req_prod := new\<rparr>
      in (RING_IDX_DIFFERENCE new (req_event s1) < RING_IDX_DIFFERENCE new old, s1))"

definition RING_PUSH_RESPONSES_AND_CHECK_NOTIFY :: "back_ring \<Rightarrow> ('q, 'p) sring \<Rightarrow> bool \<times> ('q, 'p) sring" where
  "RING_PUSH_RESPONSES_AND_CHECK_NOTIFY r s =
     (let old = rsp_prod s; new = rsp_prod_pvt r; s1 = s\<lparr>rsp_prod := new\<rparr>
      in (new - rsp_event s1 < new - old, s1))"

definition RING_FINAL_CHECK_FOR_REQUESTS :: "back_ring \<Rightarrow> ('q, 'p) sring \<Rightarrow> bool \<times> ('q, 'p) sring" where
  "RING_FINAL_CHECK_FOR_REQUESTS r s =
     (if RING_HAS_UNCONSUMED_REQUESTS r s then (True, s)
      else let s1 = s\<lparr>req_event := req_cons r + 1\<rparr> in (RING_HAS_UNCONSUMED_REQUESTS r s1, s1))"

definition RING_FINAL_CHECK_FOR_RESPONSES :: "front_ring \<Rightarrow> ('q, 'p) sring \<Rightarrow> bool \<times> ('q, 'p) sring" where
  "RING_FINAL_CHECK_FOR_RESPONSES r s =
     (if RING_HAS_UNCONSUMED_RESPONSES r s then (True, s)
      else let s1 = s\<lparr>rsp_event := RING_IDX_PLUS (rsp_cons r) 1\<rparr> in (RING_HAS_UNCONSUMED_RESPONSES r s1, s1))"

section \<open>Byte rings\<close>

abbreviation NETCHANNEL2_MSG_PAD :: u8 where "NETCHANNEL2_MSG_PAD \<equiv> 255"

record netchannel2_sring_fields =
  prod :: RING_IDX
  prod_event :: RING_IDX
  cons :: RING_IDX
  cons_event :: RING_IDX

record netchannel2_msg_hdr =
  msg_type :: u8
  msg_flags :: u8
  msg_size :: u16

text \<open>The local endpoint and the message headers written to the producer payload (by byte offset) are
  part of the ring pair; the remote endpoint is an argument of the operations that read it.\<close>

record nc2_ring_pair =
  local_endpoint :: netchannel2_sring_fields
  producer_payload :: "nat \<Rightarrow> netchannel2_msg_hdr option"
  consumer_payload :: u64
  local_prod :: RING_IDX
  local_prod_pvt :: RING_IDX
  local_cons :: RING_IDX
  local_cons_pvt :: RING_IDX
  local_prod_bytes_available :: u32
  producer_payload_bytes :: u32
  consumer_payload_bytes :: u32

text \<open>Addresses in the producer payload are offsets; \<open>consumer_payload\<close> is an address.\<close>

definition nc2_incoming_message :: "nc2_ring_pair \<Rightarrow> u64" where
  "nc2_incoming_message r = consumer_payload r + ucast (local_cons_pvt r AND (consumer_payload_bytes r - 1))"

definition nc2_contained_in_cons_ring :: "nc2_ring_pair \<Rightarrow> u64 \<Rightarrow> u64 \<Rightarrow> bool" where
  "nc2_contained_in_cons_ring r msg sz =
     (\<not> (msg < consumer_payload r \<or> sz > ucast (consumer_payload_bytes r) \<or>
         msg + sz > consumer_payload r + ucast (consumer_payload_bytes r)))"

definition nc2_get_message_ptr :: "nc2_ring_pair \<Rightarrow> u32" where
  "nc2_get_message_ptr r = local_prod_pvt r AND (producer_payload_bytes r - 1)"

definition nc2_send_pad :: "nc2_ring_pair \<Rightarrow> u16 \<Rightarrow> nc2_ring_pair" where
  "nc2_send_pad r nr_bytes =
     r\<lparr>producer_payload := (producer_payload r)(unat (nc2_get_message_ptr r) :=
          Some \<lparr>msg_type = NETCHANNEL2_MSG_PAD, msg_flags = 0, msg_size = nr_bytes\<rparr>),
       local_prod_pvt := local_prod_pvt r + ucast nr_bytes,
       local_prod_bytes_available := local_prod_bytes_available r - ucast nr_bytes\<rparr>"

definition nc2_ring_would_wrap :: "nc2_ring_pair \<Rightarrow> u16 \<Rightarrow> bool" where
  "nc2_ring_would_wrap r nr_bytes =
     (let m = NOT (producer_payload_bytes r - 1)
      in local_prod_pvt r AND m \<noteq> (local_prod_pvt r + ucast nr_bytes) AND m)"

definition nc2_pad_needed :: "nc2_ring_pair \<Rightarrow> u16" where
  "nc2_pad_needed r =
     ucast (producer_payload_bytes r - (local_prod_pvt r AND (producer_payload_bytes r - 1)))"

definition nc2_avoid_ring_wrap :: "nc2_ring_pair \<Rightarrow> u16 \<Rightarrow> nc2_ring_pair" where
  "nc2_avoid_ring_wrap r nr_bytes =
     (if \<not> nc2_ring_would_wrap r nr_bytes then r else nc2_send_pad r (nc2_pad_needed r))"

definition nc2_flush_would_trigger_event :: "nc2_ring_pair \<Rightarrow> netchannel2_sring_fields \<Rightarrow> bool" where
  "nc2_flush_would_trigger_event r remote \<longleftrightarrow>
     local_prod_pvt r - prod_event remote < local_prod_pvt r - local_prod r"

definition nc2_flush_ring :: "nc2_ring_pair \<Rightarrow> netchannel2_sring_fields \<Rightarrow> bool \<times> nc2_ring_pair" where
  "nc2_flush_ring r remote =
     (let new_prod = local_prod_pvt r; old_prod = local_prod r;
          r1 = r\<lparr>local_endpoint := (local_endpoint r)\<lparr>prod := new_prod\<rparr>, local_prod := new_prod\<rparr>
      in (new_prod - prod_event remote < new_prod - old_prod, r1))"

definition nc2_finish_messages :: "nc2_ring_pair \<Rightarrow> netchannel2_sring_fields \<Rightarrow> bool \<times> nc2_ring_pair" where
  "nc2_finish_messages r remote =
     (let old_cons = local_cons r; new_cons = local_cons_pvt r;
          r1 = r\<lparr>local_endpoint := (local_endpoint r)\<lparr>cons := new_cons\<rparr>, local_cons := new_cons\<rparr>
      in (new_cons - cons_event remote < new_cons - old_cons, r1))"

text \<open>The remote producer index is read twice; \<open>p1\<close> and \<open>p2\<close> are what the reads see.\<close>

definition nc2_final_check_for_messages ::
  "nc2_ring_pair \<Rightarrow> RING_IDX \<Rightarrow> RING_IDX \<Rightarrow> RING_IDX \<Rightarrow> bool \<times> nc2_ring_pair" where
  "nc2_final_check_for_messages r pr p1 p2 =
     (if pr \<noteq> p1 then (True, r)
      else let r1 = r\<lparr>local_endpoint := (local_endpoint r)\<lparr>prod_event := pr + 1\<rparr>\<rparr>
           in (pr \<noteq> p2, r1))"

text \<open>The loop reads the remote consumer index until two consecutive reads agree or there is space:
  \<open>seen k\<close> is the result of the \<open>k\<close>-th read.  \<open>None\<close> is a loop that the remote keeps running.\<close>

partial_function (option) nc2_can_send_retry ::
  "(nat \<Rightarrow> RING_IDX) \<Rightarrow> nat \<Rightarrow> nc2_ring_pair \<Rightarrow> u16 \<Rightarrow> (bool \<times> nc2_ring_pair) option" where
  "nc2_can_send_retry seen k r nr_bytes =
     (let c = seen k; space = producer_payload_bytes r - (local_prod_pvt r - c)
      in if space \<ge> ucast nr_bytes then Some (True, r\<lparr>local_prod_bytes_available := space\<rparr>)
         else let r1 = r\<lparr>local_endpoint := (local_endpoint r)\<lparr>cons_event := c + 1\<rparr>\<rparr>
              in if c \<noteq> seen (k + 1) then nc2_can_send_retry seen (k + 2) r1 nr_bytes
                 else Some (False, r1))"

definition nc2_can_send_payload_bytes ::
  "(nat \<Rightarrow> RING_IDX) \<Rightarrow> nc2_ring_pair \<Rightarrow> u16 \<Rightarrow> (bool \<times> nc2_ring_pair) option" where
  "nc2_can_send_payload_bytes seen r nr_bytes =
     (if local_prod_bytes_available r > ucast nr_bytes * 2 then Some (True, r)
      else nc2_can_send_retry seen 0 r
        (if nc2_ring_would_wrap r nr_bytes then nr_bytes + nc2_pad_needed r else nr_bytes))"

section \<open>Sizes are powers of two\<close>

definition floor_pow2 :: "nat \<Rightarrow> (u32 \<Rightarrow> u32) \<Rightarrow> bool" where
  "floor_pow2 w f \<longleftrightarrow> (\<forall>x. x \<noteq> 0 \<and> unat x < 2 ^ w \<longrightarrow>
     (\<exists>k < w. unat (f x) = 2 ^ k \<and> 2 ^ k \<le> unat x \<and> unat x < 2 ^ Suc k))"

lemma high_part_zero_iff:
  assumes "unat (x :: u32) < 2 ^ (2 * w)" and "2 * w \<le> 32" and "m = push_bit w (mask w)"
  shows "x AND m = 0 \<longleftrightarrow> unat x < 2 ^ w"
proof -
  have "x AND m = 0 \<longleftrightarrow> drop_bit w x AND mask w = 0"
  proof
    assume "x AND m = 0"
    then have "drop_bit w (x AND m) = 0" by simp
    then show "drop_bit w x AND mask w = 0"
      using assms(2,3) by (auto simp: bit_eq_iff bit_simps)
  next
    assume "drop_bit w x AND mask w = 0"
    then show "x AND m = 0"
      unfolding assms(3) by (auto simp: bit_eq_iff bit_simps)
  qed
  also have "\<dots> \<longleftrightarrow> unat x div 2 ^ w mod 2 ^ w = 0"
    by (simp only: word_eq_unat unat_and_mask unat_drop_bit unat_0)
  also have "unat x div 2 ^ w mod 2 ^ w = unat x div 2 ^ w"
    using assms(1) by (simp add: mult_2 power_add less_mult_imp_div_less)
  finally show ?thesis by (simp add: div_eq_0_iff)
qed

lemma floor_pow2_double:
  assumes f: "floor_pow2 w f" and w: "0 < w" "2 * w \<le> 32" and m: "m = push_bit w (mask w)"
  shows "floor_pow2 (2 * w) (\<lambda>x. if x AND m \<noteq> 0 then push_bit w (f (drop_bit w x)) else f x)"
  unfolding floor_pow2_def
proof (intro allI impI, elim conjE)
  fix x :: u32
  assume x: "x \<noteq> 0" "unat x < 2 ^ (2 * w)"
  note hp = high_part_zero_iff [OF x(2) w(2) m]
  show "\<exists>k < 2 * w. unat (if x AND m \<noteq> 0 then push_bit w (f (drop_bit w x)) else f x) = 2 ^ k \<and>
      2 ^ k \<le> unat x \<and> unat x < 2 ^ Suc k"
  proof (cases "x AND m = 0")
    case True
    then obtain k where "k < w" "unat (f x) = 2 ^ k \<and> 2 ^ k \<le> unat x \<and> unat x < 2 ^ Suc k"
      using f x(1) hp unfolding floor_pow2_def by blast
    then show ?thesis using True by (intro exI [of _ k]) simp
  next
    case False
    define y where "y = drop_bit w x"
    have uy: "unat y = unat x div 2 ^ w" by (simp add: y_def unat_drop_bit)
    have "unat y < 2 ^ w" using x(2) by (simp add: uy mult_2 power_add less_mult_imp_div_less)
    moreover have "unat y \<noteq> 0" using False hp by (simp add: uy div_eq_0_iff)
    ultimately obtain k where k: "k < w" "unat (f y) = 2 ^ k" "2 ^ k \<le> unat y" "unat y < 2 ^ Suc k"
      using f unfolding floor_pow2_def by (metis unat_0)
    have "(2 :: nat) ^ (w + k) < 2 ^ 32" using k(1) w(2) by (intro power_strict_increasing) auto
    then have "unat (push_bit w (f y)) = 2 ^ (w + k)"
      by (simp add: unsigned_push_bit_eq k(2) take_bit_nat_eq_self_iff push_bit_nat_def power_add mult.commute
          del: push_bit_of_1)
    moreover have "2 ^ (w + k) \<le> unat x"
      using k(3) by (simp add: uy power_add mult.commute less_eq_div_iff_mult_less_eq)
    moreover have "unat x < 2 ^ Suc (w + k)"
    proof -
      have "unat x < 2 ^ Suc k * 2 ^ w" using k(4) by (simp add: uy div_less_iff_less_mult)
      then show ?thesis by (simp add: power_add mult_ac)
    qed
    ultimately show ?thesis using False k(1) by (intro exI [of _ "w + k"]) (simp add: y_def)
  qed
qed

lemma RD2_floor: "floor_pow2 2 RD2"
  unfolding floor_pow2_def
proof (intro allI impI, elim conjE)
  fix x :: u32
  assume x: "x \<noteq> 0" "unat x < 2 ^ 2"
  then have "unat x \<noteq> 0" "unat x < 4" by (simp_all add: unat_eq_0)
  then have "unat x \<in> {1, 2, 3}" by auto
  then have "x \<in> {1, 2, 3}" by (auto simp: word_eq_unat)
  then show "\<exists>k < 2. unat (RD2 x) = 2 ^ k \<and> 2 ^ k \<le> unat x \<and> unat x < 2 ^ Suc k"
    by (auto simp: RD2_def intro: exI [of _ 0] exI [of _ 1])
qed

lemma RD32_floor: "floor_pow2 32 RD32"
proof -
  have "floor_pow2 4 RD4"
    using floor_pow2_double [OF RD2_floor, where m = "0xc"] unfolding RD4_def [abs_def]
    by (simp add: mask_eq_exp_minus_1 push_bit_eq_mult)
  then have "floor_pow2 8 RD8"
    using floor_pow2_double [of 4 RD4 "0xf0"] unfolding RD8_def [abs_def]
    by (simp add: mask_eq_exp_minus_1 push_bit_eq_mult)
  then have "floor_pow2 16 RD16"
    using floor_pow2_double [of 8 RD8 "0xff00"] unfolding RD16_def [abs_def]
    by (simp add: mask_eq_exp_minus_1 push_bit_eq_mult)
  then show ?thesis
    using floor_pow2_double [of 16 RD16 "0xffff0000"] unfolding RD32_def [abs_def]
    by (simp add: mask_eq_exp_minus_1 push_bit_eq_mult)
qed

text \<open>The number of entries a ring gets is the greatest power of two for which the entries fit behind
  the ring header.\<close>

theorem RING_SIZE_power_of_two:
  assumes "64 + unat esz \<le> unat sz" and "0 < unat esz"
  shows "\<exists>k < 32. unat (RING_SIZE_of esz sz) = 2 ^ k \<and> 64 + unat (RING_SIZE_of esz sz) * unat esz \<le> unat sz \<and>
    unat sz < 64 + 2 * unat (RING_SIZE_of esz sz) * unat esz"
proof -
  define q where "q = (sz - 64) div esz"
  have "(64 :: u32) \<le> sz" using assms(1) by (simp add: word_le_nat_alt)
  then have "unat (sz - 64) = unat sz - 64" by (simp add: unat_sub)
  then have uq: "unat q = (unat sz - 64) div unat esz" by (simp add: q_def unat_div)
  have "unat q \<noteq> 0" using assms by (auto simp: uq div_eq_0_iff)
  then obtain k where k: "k < 32" "unat (RD32 q) = 2 ^ k" "2 ^ k \<le> unat q" "unat q < 2 ^ Suc k"
    using RD32_floor unat_bound [of q] unfolding floor_pow2_def by (auto simp: unat_eq_0)
  have "2 ^ k * unat esz \<le> unat sz - 64"
    using k(3) assms(2) by (simp add: uq less_eq_div_iff_mult_less_eq)
  moreover have "unat sz - 64 < 2 ^ Suc k * unat esz"
    using k(4) assms(2) by (simp add: uq div_less_iff_less_mult)
  ultimately have "64 + 2 ^ k * unat esz \<le> unat sz \<and> unat sz < 64 + 2 ^ Suc k * unat esz"
    using assms(1) by linarith
  then show ?thesis
    using k(1,2) by (intro exI [of _ k]) (simp add: RING_SIZE_of_def q_def [symmetric] del: of_nat_power)
qed

section \<open>Slots\<close>

lemma pow2_minus_1_mask:
  assumes "unat (n :: u32) = 2 ^ k"
  shows "n - 1 = mask k"
proof -
  have "n = of_nat (unat n)" by simp
  then have "n = 2 ^ k" unfolding assms by simp
  then show ?thesis by (simp add: mask_eq_exp_minus_1)
qed

lemma ring_slot_take_bit: "unat n = 2 ^ k \<Longrightarrow> ring_slot n i = take_bit k i"
  by (simp add: ring_slot_def pow2_minus_1_mask take_bit_eq_mask)

lemma ring_slot_inj:
  assumes n: "unat n = 2 ^ k" and w: "i - c < n" "j - c < n" and eq: "ring_slot n i = ring_slot n j"
  shows "i = j"
proof -
  have "(2 :: nat) ^ k < 2 ^ 32" using unat_bound [of n] n by simp
  then have k: "k \<le> LENGTH(32)" using power_strict_increasing_iff [of "2 :: nat" k 32] by simp
  have small: "take_bit k a = a" if "a < n" for a :: u32
    using that n by (simp add: word_less_nat_alt word_eq_unat unsigned_take_bit_eq take_bit_nat_eq_self_iff)
  have "take_bit k (i + - c) = take_bit k (take_bit k i + take_bit k (- c))" by (simp only: take_bit_word_add [OF k])
  also have "\<dots> = take_bit k (take_bit k j + take_bit k (- c))"
    using eq by (simp add: ring_slot_take_bit [OF n])
  also have "\<dots> = take_bit k (j + - c)" by (simp only: take_bit_word_add [OF k])
  finally have "i - c = j - c" using small w by simp
  then show ?thesis by simp
qed

text \<open>As long as the front end keeps at most \<open>nr_ents\<close> requests outstanding, \<open>RING_FULL\<close> says
  exactly when they are that many, and a request written when the ring is not full is what the back end
  reads at its index, while no outstanding request is overwritten, across the wrap-around of the ring
  and of the 32-bit indices.\<close>

theorem put_request_correct:
  assumes "unat (nr_ents r) = 2 ^ k" and "req_prod_pvt r - rsp_cons r \<le> nr_ents r"
    and "idx - rsp_cons r < req_prod_pvt r - rsp_cons r"
  shows "(RING_FULL r \<longleftrightarrow> req_prod_pvt r - rsp_cons r = nr_ents r) \<and>
    (\<not> RING_FULL r \<longrightarrow>
       RING_GET_REQUEST r (put_request r s (req_prod_pvt r) q) idx = RING_GET_REQUEST r s idx \<and>
       RING_GET_REQUEST r (put_request r s (req_prod_pvt r) q) (req_prod_pvt r) = Req q)"
proof -
  have full: "RING_FULL r \<longleftrightarrow> req_prod_pvt r - rsp_cons r = nr_ents r"
    by (auto simp: RING_FULL_def RING_PROD_SLOTS_AVAIL_def RING_IDX_DIFFERENCE_def)
  have "ring_slot (nr_ents r) idx \<noteq> ring_slot (nr_ents r) (req_prod_pvt r)" if "\<not> RING_FULL r"
  proof
    assume eq: "ring_slot (nr_ents r) idx = ring_slot (nr_ents r) (req_prod_pvt r)"
    have "req_prod_pvt r - rsp_cons r < nr_ents r" using that full assms(2) by simp
    moreover from this have "idx - rsp_cons r < nr_ents r" using assms(3) by simp
    ultimately have "idx = req_prod_pvt r" using ring_slot_inj [OF assms(1) _ _ eq] by blast
    then show False using assms(3) by simp
  qed
  then show ?thesis using full by (auto simp: RING_GET_REQUEST_def put_request_def)
qed

section \<open>The event index\<close>

lemma crossing_iff:
  fixes old new event :: u32
  shows "new - event < new - old \<longleftrightarrow> event \<noteq> old \<and> event - old \<le> new - old"
proof -
  define a b where "a = new - old" and "b = event - old"
  have eq: "new - event = a - b" by (simp add: a_def b_def)
  have "a - b < a \<longleftrightarrow> b \<noteq> 0 \<and> b \<le> a"
  proof (cases "b \<le> a")
    case True
    then have "unat (a - b) = unat a - unat b" by (simp add: unat_sub)
    then show ?thesis using True by (auto simp: word_less_nat_alt word_le_nat_alt word_eq_unat)
  next
    case False
    then have "unat (a - b) = 2 ^ 32 + unat a - unat b"
      using unat_bound [of b] by (simp add: unat_sub_if' word_le_nat_alt)
    then show ?thesis using False unat_bound [of b] by (auto simp: word_less_nat_alt)
  qed
  then show ?thesis unfolding eq [symmetric] by (simp add: a_def b_def)
qed

text \<open>An end that publishes an index: \<open>old\<close> is what it published last, \<open>new\<close> what it publishes next
  and \<open>event\<close> the index at which the other end wants to be woken.\<close>

locale notifier =
  fixes old new event :: "'s \<Rightarrow> u32"
    and publish :: "'s \<Rightarrow> bool \<times> 's"
  assumes old_publish: "old (snd (publish s)) = new s"
    and new_publish: "new (snd (publish s)) = new s"
    and event_publish: "event (snd (publish s)) = event s"
    and notify_publish: "fst (publish s) \<longleftrightarrow> new s - event s < new s - old s"
begin

lemma notify_iff: "fst (publish s) \<longleftrightarrow> event s \<noteq> old s \<and> event s - old s \<le> new s - old s"
  by (simp add: notify_publish crossing_iff)

lemma notify_once: "\<not> fst (publish (snd (publish s)))"
  by (simp add: notify_publish old_publish new_publish)

lemma notify_next: "event s = old s + 1 \<Longrightarrow> fst (publish s) \<longleftrightarrow> new s \<noteq> old s"
proof -
  assume "event s = old s + 1"
  moreover have "(1 :: u32) \<le> new s - old s \<longleftrightarrow> new s - old s \<noteq> 0"
    by (metis linorder_not_le word_less_1)
  ultimately show ?thesis unfolding notify_iff by auto
qed

end

interpretation req: notifier "\<lambda>(r, s). req_prod s" "\<lambda>(r, s). req_prod_pvt r" "\<lambda>(r, s). req_event s"
    "\<lambda>(r, s). (let (b, s') = RING_PUSH_REQUESTS_AND_CHECK_NOTIFY r s in (b, (r, s')))"
  by unfold_locales
    (auto simp: RING_PUSH_REQUESTS_AND_CHECK_NOTIFY_def RING_IDX_DIFFERENCE_def Let_def)

interpretation rsp: notifier "\<lambda>(r, s). rsp_prod s" "\<lambda>(r, s). rsp_prod_pvt r" "\<lambda>(r, s). rsp_event s"
    "\<lambda>(r, s). (let (b, s') = RING_PUSH_RESPONSES_AND_CHECK_NOTIFY r s in (b, (r, s')))"
  by unfold_locales (auto simp: RING_PUSH_RESPONSES_AND_CHECK_NOTIFY_def Let_def)

interpretation flush: notifier "\<lambda>(r, e). local_prod r" "\<lambda>(r, e). local_prod_pvt r" "\<lambda>(r, e). prod_event e"
    "\<lambda>(r, e). (let (b, r') = nc2_flush_ring r e in (b, (r', e)))"
  by unfold_locales (auto simp: nc2_flush_ring_def Let_def)

interpretation finish: notifier "\<lambda>(r, e). local_cons r" "\<lambda>(r, e). local_cons_pvt r" "\<lambda>(r, e). cons_event e"
    "\<lambda>(r, e). (let (b, r') = nc2_finish_messages r e in (b, (r', e)))"
  by unfold_locales (auto simp: nc2_finish_messages_def Let_def)

text \<open>Pushing requests asks for a notification exactly when the producer index moves from before the
  event index to it or past it, counted in the wrap-around order of the 32-bit indices that starts at
  the old index.\<close>

theorem RING_PUSH_REQUESTS_notify_iff:
  "fst (RING_PUSH_REQUESTS_AND_CHECK_NOTIFY r s) \<longleftrightarrow>
     req_event s \<noteq> req_prod s \<and> req_event s - req_prod s \<le> req_prod_pvt r - req_prod s"
  using req.notify_iff [of "(r, s)"] by (simp add: Let_def split_beta)

text \<open>Flushing a byte ring notifies exactly when the producer index crosses the remote's event index,
  which is also what \<open>nc2_flush_would_trigger_event\<close> predicts, and not again until the index moves.\<close>

theorem nc2_flush_ring_notify_iff:
  "(fst (nc2_flush_ring r e) \<longleftrightarrow>
      prod_event e \<noteq> local_prod r \<and> prod_event e - local_prod r \<le> local_prod_pvt r - local_prod r) \<and>
   (fst (nc2_flush_ring r e) \<longleftrightarrow> nc2_flush_would_trigger_event r e) \<and>
   \<not> fst (nc2_flush_ring (snd (nc2_flush_ring r e)) e)"
  using flush.notify_iff [of "(r, e)"] flush.notify_once [of "(r, e)"]
  by (simp add: Let_def split_beta nc2_flush_would_trigger_event_def nc2_flush_ring_def)

section \<open>Sending on a byte ring\<close>

lemma and_not_mask_eq_iff: "(a AND NOT (mask k) = b AND NOT (mask k)) \<longleftrightarrow> drop_bit k a = drop_bit k (b :: 'w::len word)"
proof
  assume "a AND NOT (mask k) = b AND NOT (mask k)"
  then have "drop_bit k (a AND NOT (mask k)) = drop_bit k (b AND NOT (mask k))" by simp
  then show "drop_bit k a = drop_bit k b"
    by (auto simp: bit_eq_iff bit_simps dest: bit_imp_le_length)
next
  assume "drop_bit k a = drop_bit k b"
  then have "bit a (k + n) = bit b (k + n)" for n by (metis bit_drop_bit_eq comp_apply)
  then show "a AND NOT (mask k) = b AND NOT (mask k)"
    by (auto simp: bit_eq_iff bit_simps) (metis le_add_diff_inverse not_less)+
qed

lemma div_add_eq_iff: "(p + n) div N = p div N \<longleftrightarrow> p mod N + n < N" if "0 < N" for p n N :: nat
proof -
  have "p + n = p div N * N + (p mod N + n)" by simp
  then have "(p + n) div N = p div N + (p mod N + n) div N"
    using that by (metis div_mult_self3 add.commute less_not_refl)
  then show ?thesis using that by (simp add: div_eq_0_iff)
qed

lemma nc2_ring_would_wrap_iff:
  assumes N: "unat (producer_payload_bytes r) = 2 ^ k" and k: "k \<le> 15"
  shows "nc2_ring_would_wrap r n \<longleftrightarrow> 2 ^ k \<le> unat (local_prod_pvt r) mod 2 ^ k + unat n"
proof -
  define p where "p = unat (local_prod_pvt r)"
  have p: "p < 2 ^ 32" using unat_bound [of "local_prod_pvt r"] by (simp add: p_def)
  have n: "unat n < 2 ^ 16" using unat_bound [of n] by simp
  have Nk: "(2 :: nat) ^ k \<le> 2 ^ 15" using k by (rule power_increasing) simp
  have "nc2_ring_would_wrap r n \<longleftrightarrow> p div 2 ^ k \<noteq> ((p + unat n) mod 2 ^ 32) div 2 ^ k"
    unfolding nc2_ring_would_wrap_def Let_def pow2_minus_1_mask [OF N] and_not_mask_eq_iff
    unfolding word_eq_unat unat_drop_bit p_def using n by (simp add: unat_word_ariths unat_ucast_mod)
  also have "\<dots> \<longleftrightarrow> 2 ^ k \<le> p mod 2 ^ k + unat n"
  proof (cases "p + unat n < 2 ^ 32")
    case True
    then have "(p + unat n) mod 2 ^ 32 = p + unat n" by simp
    then show ?thesis using div_add_eq_iff [of "2 ^ k" p "unat n"] by (metis not_less zero_less_numeral zero_less_power)
  next
    case False
    have "(2 :: nat) ^ 32 = 2 ^ k * 2 ^ (32 - k)" using k by (simp flip: power_add)
    then have "q div 2 ^ k < 2 ^ (32 - k) \<longleftrightarrow> q < 2 ^ 32" for q :: nat
      by (simp add: div_less_iff_less_mult mult.commute)
    then have "(p + unat n) div 2 ^ k \<noteq> p div 2 ^ k" using False p by metis
    then have "\<not> p mod 2 ^ k + unat n < 2 ^ k" using div_add_eq_iff [of "2 ^ k" p "unat n"] by simp
    moreover have "(p + unat n) mod 2 ^ 32 = p + unat n - 2 ^ 32"
      using False p n by (simp add: mod_if)
    then have "(p + unat n) mod 2 ^ 32 + 2 ^ 15 < p" using p n False by simp
    then have "((p + unat n) mod 2 ^ 32 + 2 ^ k) div 2 ^ k \<le> p div 2 ^ k"
      using Nk by (intro div_le_mono) linarith
    then have "(p + unat n) mod 2 ^ 32 div 2 ^ k < p div 2 ^ k"
      using div_add_self2 [of "2 ^ k" "(p + unat n) mod 2 ^ 32"] by simp
    ultimately show ?thesis by linarith
  qed
  finally show ?thesis by (simp add: p_def)
qed

lemma unat_nc2_pad_needed:
  assumes N: "unat (producer_payload_bytes r) = 2 ^ k" and k: "k \<le> 15"
  shows "unat (nc2_pad_needed r) = 2 ^ k - unat (local_prod_pvt r) mod 2 ^ k"
proof -
  have Nk: "(2 :: nat) ^ k \<le> 2 ^ 15" using k by (rule power_increasing) simp
  have "unat (local_prod_pvt r) mod 2 ^ k < 2 ^ k" by simp
  moreover have off: "unat (local_prod_pvt r AND (producer_payload_bytes r - 1)) = unat (local_prod_pvt r) mod 2 ^ k"
    by (simp only: pow2_minus_1_mask [OF N] unat_and_mask)
  ultimately have "unat (producer_payload_bytes r - (local_prod_pvt r AND (producer_payload_bytes r - 1))) =
      2 ^ k - unat (local_prod_pvt r) mod 2 ^ k"
    using N by (subst unat_sub) (simp_all add: word_le_nat_alt)
  then show ?thesis using Nk unfolding nc2_pad_needed_def unat_ucast_mod by simp
qed

text \<open>What a sender needs on top of the message itself.\<close>

definition pad_bytes :: "nc2_ring_pair \<Rightarrow> u16 \<Rightarrow> nat" where
  "pad_bytes r n = (if nc2_ring_would_wrap r n then unat (nc2_pad_needed r) else 0)"

lemma pad_le_message:
  assumes "unat (producer_payload_bytes r) = 2 ^ k" and "k \<le> 15"
  shows "pad_bytes r n \<le> unat n"
  using nc2_ring_would_wrap_iff [OF assms, of n] unat_nc2_pad_needed [OF assms] by (auto simp: pad_bytes_def)

lemma nc2_avoid_ring_wrap_spec:
  assumes N: "unat (producer_payload_bytes r) = 2 ^ k" and k: "k \<le> 15"
    and n: "unat n \<le> 2 ^ k" and av: "pad_bytes r n \<le> unat (local_prod_bytes_available r)"
  defines "r' \<equiv> nc2_avoid_ring_wrap r n"
  shows "unat (nc2_get_message_ptr r') + unat n \<le> 2 ^ k"
    and "unat (local_prod_bytes_available r') = unat (local_prod_bytes_available r) - pad_bytes r n"
    and "local_prod_pvt r' = local_prod_pvt r + of_nat (pad_bytes r n)"
    and "nc2_ring_would_wrap r n \<longrightarrow>
      unat (nc2_get_message_ptr r) + pad_bytes r n = 2 ^ k \<and> nc2_get_message_ptr r' = 0 \<and>
      producer_payload r' (unat (nc2_get_message_ptr r)) =
        Some \<lparr>msg_type = NETCHANNEL2_MSG_PAD, msg_flags = 0, msg_size = of_nat (pad_bytes r n)\<rparr>"
proof -
  have ptr: "unat (nc2_get_message_ptr s) = unat (local_prod_pvt s) mod 2 ^ k"
    if "producer_payload_bytes s = producer_payload_bytes r" for s
    unfolding nc2_get_message_ptr_def that by (simp only: pow2_minus_1_mask [OF N] unat_and_mask)
  have r': "producer_payload_bytes r' = producer_payload_bytes r"
    by (simp add: r'_def nc2_avoid_ring_wrap_def nc2_send_pad_def)
  define o1 where "o1 = unat (local_prod_pvt r) mod 2 ^ k"
  have o1: "o1 < 2 ^ k" by (simp add: o1_def)
  note wrap = nc2_ring_would_wrap_iff [OF N k, of n, folded o1_def]
  note pad = unat_nc2_pad_needed [OF N k, folded o1_def]
  have up: "unat (ucast (nc2_pad_needed r) :: u32) = unat (nc2_pad_needed r)"
    using unat_bound [of "nc2_pad_needed r"] by (simp add: unat_ucast_mod)
  have ofn: "of_nat (unat (nc2_pad_needed r)) = (ucast (nc2_pad_needed r) :: u32)"
    by (simp only: up [symmetric] word_eq_unat) simp
  show "local_prod_pvt r' = local_prod_pvt r + of_nat (pad_bytes r n)"
    by (simp add: r'_def nc2_avoid_ring_wrap_def nc2_send_pad_def pad_bytes_def ofn)
  show "unat (local_prod_bytes_available r') = unat (local_prod_bytes_available r) - pad_bytes r n"
    using av up by (auto simp: r'_def nc2_avoid_ring_wrap_def nc2_send_pad_def pad_bytes_def unat_sub word_le_nat_alt)
  have zero: "unat (nc2_get_message_ptr r') = 0" if "nc2_ring_would_wrap r n"
  proof -
    have "unat (nc2_get_message_ptr r') = (unat (local_prod_pvt r) + unat (nc2_pad_needed r)) mod 2 ^ k"
      using that k unat_add_mod_pow [of k "local_prod_pvt r" "ucast (nc2_pad_needed r)"]
      unfolding ptr [OF r'] by (simp add: r'_def nc2_avoid_ring_wrap_def nc2_send_pad_def up)
    also have "\<dots> = (o1 + (2 ^ k - o1)) mod 2 ^ k" unfolding pad o1_def by (rule mod_add_left_eq [symmetric])
    finally show ?thesis using o1 by simp
  qed
  show "unat (nc2_get_message_ptr r') + unat n \<le> 2 ^ k"
  proof (cases "nc2_ring_would_wrap r n")
    case False
    then have "r' = r" by (simp add: r'_def nc2_avoid_ring_wrap_def)
    then show ?thesis using False wrap ptr [of r] by (simp add: o1_def)
  qed (use zero n in simp)
  show "nc2_ring_would_wrap r n \<longrightarrow>
      unat (nc2_get_message_ptr r) + pad_bytes r n = 2 ^ k \<and> nc2_get_message_ptr r' = 0 \<and>
      producer_payload r' (unat (nc2_get_message_ptr r)) =
        Some \<lparr>msg_type = NETCHANNEL2_MSG_PAD, msg_flags = 0, msg_size = of_nat (pad_bytes r n)\<rparr>"
  proof (intro impI conjI)
    assume w: "nc2_ring_would_wrap r n"
    then show "unat (nc2_get_message_ptr r) + pad_bytes r n = 2 ^ k"
      using ptr [of r] pad o1 by (simp add: pad_bytes_def o1_def [symmetric])
    show "nc2_get_message_ptr r' = 0" using zero [OF w] by (simp add: unat_eq_0)
    show "producer_payload r' (unat (nc2_get_message_ptr r)) =
        Some \<lparr>msg_type = NETCHANNEL2_MSG_PAD, msg_flags = 0, msg_size = of_nat (pad_bytes r n)\<rparr>"
      using w by (simp add: pad_bytes_def r'_def nc2_avoid_ring_wrap_def nc2_send_pad_def)
  qed
qed

text \<open>The answer of the retry loop: yes means the bytes fit behind what the remote had consumed at some
  read; no means that the consumer index stood still over two reads, with an event set one byte on.\<close>

definition send_verdict :: "(nat \<Rightarrow> RING_IDX) \<Rightarrow> nc2_ring_pair \<Rightarrow> u16 \<Rightarrow> bool \<times> nc2_ring_pair \<Rightarrow> bool" where
  "send_verdict seen r n res \<longleftrightarrow>
     local_prod_pvt (snd res) = local_prod_pvt r \<and> producer_payload_bytes (snd res) = producer_payload_bytes r \<and>
     (if fst res
      then \<exists>j. local_prod_bytes_available (snd res) = producer_payload_bytes r - (local_prod_pvt r - seen j) \<and>
              ucast n \<le> local_prod_bytes_available (snd res)
      else \<exists>j. cons_event (local_endpoint (snd res)) = seen j + 1 \<and> seen j = seen (j + 1) \<and>
              producer_payload_bytes r - (local_prod_pvt r - seen j) < ucast n)"

lemma nc2_can_send_retry_sound:
  assumes "nc2_can_send_retry seen k r n = Some res"
  shows "send_verdict seen r n res"
proof (rule nc2_can_send_retry.raw_induct [where P = "\<lambda>seen _ r n res. send_verdict seen r n res", OF _ assms])
  fix L seen k r n res
  assume IH: "\<And>seen k r n res. L seen k r n = Some res \<Longrightarrow> send_verdict seen r n res"
    and eq: "(let c = seen k; space = producer_payload_bytes r - (local_prod_pvt r - c)
      in if space \<ge> ucast n then Some (True, r\<lparr>local_prod_bytes_available := space\<rparr>)
         else let r1 = r\<lparr>local_endpoint := (local_endpoint r)\<lparr>cons_event := c + 1\<rparr>\<rparr>
              in if c \<noteq> seen (k + 1) then L seen (k + 2) r1 n else Some (False, r1)) = Some res"
  define r1 where "r1 = r\<lparr>local_endpoint := (local_endpoint r)\<lparr>cons_event := seen k + 1\<rparr>\<rparr>"
  have same: "local_prod_pvt r1 = local_prod_pvt r" "producer_payload_bytes r1 = producer_payload_bytes r"
    "cons_event (local_endpoint r1) = seen k + 1"
    by (simp_all add: r1_def)
  show "send_verdict seen r n res"
  proof (cases "ucast n \<le> producer_payload_bytes r - (local_prod_pvt r - seen k)")
    case True
    then have "res = (True, r\<lparr>local_prod_bytes_available := producer_payload_bytes r - (local_prod_pvt r - seen k)\<rparr>)"
      using eq by (simp add: Let_def)
    then show ?thesis using True by (auto simp: send_verdict_def)
  next
    case space: False
    show ?thesis
    proof (cases "seen k = seen (k + 1)")
      case True
      then have "res = (False, r1)" using eq space by (simp add: Let_def r1_def)
      then show ?thesis using True space same by (auto simp: send_verdict_def not_le intro!: exI [of _ k])
    next
      case False
      then have "L seen (k + 2) r1 n = Some res" using eq space by (simp add: Let_def r1_def)
      from IH [OF this] show ?thesis unfolding send_verdict_def same .
    qed
  qed
qed

text \<open>When \<open>nc2_can_send_payload_bytes\<close> says yes for a message smaller than 32 KiB on a ring of at
  most 32 KiB, there is room for the message and the padding: after \<open>nc2_avoid_ring_wrap\<close> the message
  lies in one piece inside the ring, behind a pad message that ends exactly at the ring's end if one was
  needed, and the accounting of free bytes still covers it.\<close>

theorem nc2_send_fits:
  assumes "unat (producer_payload_bytes r) = 2 ^ k" and "k \<le> 15" and "unat n < 2 ^ 15" and "unat n \<le> 2 ^ k"
    and "nc2_can_send_payload_bytes seen r n = Some (True, r')"
  shows "pad_bytes r n + unat n \<le> unat (local_prod_bytes_available r') \<and>
    unat (nc2_get_message_ptr (nc2_avoid_ring_wrap r' n)) + unat n \<le> 2 ^ k \<and>
    unat n \<le> unat (local_prod_bytes_available (nc2_avoid_ring_wrap r' n)) \<and>
    local_prod_pvt (nc2_avoid_ring_wrap r' n) = local_prod_pvt r + of_nat (pad_bytes r n) \<and>
    (nc2_ring_would_wrap r n \<longrightarrow>
       unat (nc2_get_message_ptr r) + pad_bytes r n = 2 ^ k \<and>
       producer_payload (nc2_avoid_ring_wrap r' n) (unat (nc2_get_message_ptr r)) =
         Some \<lparr>msg_type = NETCHANNEL2_MSG_PAD, msg_flags = 0, msg_size = of_nat (pad_bytes r n)\<rparr>)"
proof -
  have Nk: "(2 :: nat) ^ k \<le> 2 ^ 15" using assms(2) by (rule power_increasing) simp
  have pn: "pad_bytes r n \<le> unat n" by (rule pad_le_message [OF assms(1,2)])
  have u2: "unat (ucast n * 2 :: u32) = unat n * 2" "unat (ucast n :: u32) = unat n"
    using assms(3) by (simp_all add: unat_word_ariths unat_ucast_mod)
  have "pad_bytes r n + unat n \<le> unat (local_prod_bytes_available r') \<and>
      local_prod_pvt r' = local_prod_pvt r \<and> producer_payload_bytes r' = producer_payload_bytes r"
  proof (cases "local_prod_bytes_available r > ucast n * 2")
    case True
    then show ?thesis using assms(5) pn u2(1) by (simp add: nc2_can_send_payload_bytes_def word_less_nat_alt)
  next
    case False
    define m where "m = (if nc2_ring_would_wrap r n then n + nc2_pad_needed r else n)"
    have "unat m = pad_bytes r n + unat n"
      using assms(3) pn by (auto simp: m_def pad_bytes_def unat_word_ariths)
    moreover have "unat (ucast m :: u32) = unat m"
      using unat_bound [of m] by (simp add: unat_ucast_mod)
    moreover have "nc2_can_send_retry seen 0 r m = Some (True, r')"
      using assms(5) False by (simp add: nc2_can_send_payload_bytes_def m_def)
    ultimately show ?thesis
      using nc2_can_send_retry_sound [of seen 0 r m "(True, r')"] by (auto simp: send_verdict_def word_le_nat_alt)
  qed
  moreover from this have "pad_bytes r' n = pad_bytes r n" "nc2_ring_would_wrap r' n = nc2_ring_would_wrap r n"
    "nc2_get_message_ptr r' = nc2_get_message_ptr r"
    by (simp_all add: pad_bytes_def nc2_ring_would_wrap_def nc2_pad_needed_def nc2_get_message_ptr_def)
  ultimately show ?thesis
    using nc2_avoid_ring_wrap_spec [of r' k n] assms(1,2,4) by auto
qed

section \<open>The notification hold-off, access by access\<close>

text \<open>
  One producer of responses and one consumer run \<open>RING_PUSH_RESPONSES_AND_CHECK_NOTIFY\<close> and
  \<open>RING_FINAL_CHECK_FOR_RESPONSES\<close> concurrently; every access to the shared page is a step.  The
  consumer is \<open>Running\<close> (it may consume), has \<open>Checked\<close> the producer index once, has \<open>EventSet\<close>, or is
  \<open>Asleep\<close> after the second check.  The producer is between its write of \<open>rsp_prod\<close> and its look at
  \<open>rsp_event\<close> when \<open>wk_old\<close> holds the old index.  \<open>wk_pending\<close> is the pending event that wakes the
  consumer.  \<open>n\<close> bounds the unconsumed responses.
\<close>

datatype consumer_pc = Running | Checked | EventSet | Asleep

record wake =
  wk_prod :: RING_IDX
  wk_event :: RING_IDX
  wk_cons :: RING_IDX
  wk_old :: "RING_IDX option"
  wk_pc :: consumer_pc
  wk_pending :: bool

definition wake_init :: wake where
  "wake_init = \<lparr>wk_prod = 0, wk_event = 1, wk_cons = 0, wk_old = None, wk_pc = Running, wk_pending = False\<rparr>"

inductive wake_step :: "nat \<Rightarrow> wake \<Rightarrow> wake \<Rightarrow> bool" for n where
  publish: "wk_old s = None \<Longrightarrow> unat (wk_prod s - wk_cons s) + k \<le> n \<Longrightarrow>
    wake_step n s (s\<lparr>wk_prod := wk_prod s + of_nat k, wk_old := Some (wk_prod s)\<rparr>)"
| notify: "wk_old s = Some old \<Longrightarrow>
    wake_step n s (s\<lparr>wk_old := None,
      wk_pending := (wk_pending s \<or> wk_prod s - wk_event s < wk_prod s - old)\<rparr>)"
| consume: "wk_pc s = Running \<Longrightarrow> wk_cons s \<noteq> wk_prod s \<Longrightarrow> wake_step n s (s\<lparr>wk_cons := wk_cons s + 1\<rparr>)"
| first_check: "wk_pc s = Running \<Longrightarrow> wk_cons s = wk_prod s \<Longrightarrow> wake_step n s (s\<lparr>wk_pc := Checked\<rparr>)"
| set_event: "wk_pc s = Checked \<Longrightarrow>
    wake_step n s (s\<lparr>wk_event := RING_IDX_PLUS (wk_cons s) 1, wk_pc := EventSet\<rparr>)"
| second_check: "wk_pc s = EventSet \<Longrightarrow>
    wake_step n s (s\<lparr>wk_pc := (if wk_cons s = wk_prod s then Asleep else Running)\<rparr>)"
| wake_up: "wk_pc s = Asleep \<Longrightarrow> wk_pending s \<Longrightarrow> wake_step n s (s\<lparr>wk_pc := Running, wk_pending := False\<rparr>)"

definition wake_reachable :: "nat \<Rightarrow> wake \<Rightarrow> bool" where
  "wake_reachable n s \<longleftrightarrow> (wake_step n)\<^sup>*\<^sup>* wake_init s"

text \<open>The steps are those of the macros: run without interference they compute what the macros compute.\<close>

lemma producer_steps:
  "wk_old s = None \<Longrightarrow> unat (wk_prod s - wk_cons s) + k \<le> n \<Longrightarrow>
   rsp_prod sh = wk_prod s \<Longrightarrow> rsp_event sh = wk_event s \<Longrightarrow> rsp_prod_pvt r = wk_prod s + of_nat k \<Longrightarrow>
   (wake_step n)\<^sup>*\<^sup>* s (s\<lparr>wk_prod := rsp_prod (snd (RING_PUSH_RESPONSES_AND_CHECK_NOTIFY r sh)), wk_old := None,
     wk_pending := (wk_pending s \<or> fst (RING_PUSH_RESPONSES_AND_CHECK_NOTIFY r sh))\<rparr>)"
  using wake_step.publish [of s k n]
    wake_step.notify [of "s\<lparr>wk_prod := wk_prod s + of_nat k, wk_old := Some (wk_prod s)\<rparr>" "wk_prod s" n]
  by (simp add: RING_PUSH_RESPONSES_AND_CHECK_NOTIFY_def Let_def)

lemma consumer_steps:
  assumes "wk_pc s = Running" and "rsp_prod sh = wk_prod s" and "rsp_event sh = wk_event s" and "rsp_cons r = wk_cons s"
    and "\<not> fst (RING_FINAL_CHECK_FOR_RESPONSES r sh)"
  shows "(wake_step n)\<^sup>*\<^sup>* s (s\<lparr>wk_pc := Asleep, wk_event := rsp_event (snd (RING_FINAL_CHECK_FOR_RESPONSES r sh))\<rparr>)"
proof -
  have eq: "wk_cons s = wk_prod s"
    using assms by (auto simp: RING_FINAL_CHECK_FOR_RESPONSES_def RING_HAS_UNCONSUMED_RESPONSES_def RING_IDXS_EQ_def
        split: if_splits)
  define t where "t = s\<lparr>wk_pc := Checked\<rparr>"
  define u where "u = t\<lparr>wk_event := RING_IDX_PLUS (wk_cons t) 1, wk_pc := EventSet\<rparr>"
  have "wake_step n s t" unfolding t_def by (rule wake_step.first_check [OF assms(1) eq])
  moreover have "wake_step n t u" unfolding u_def by (rule wake_step.set_event) (simp add: t_def)
  moreover have "wake_step n u (u\<lparr>wk_pc := (if wk_cons u = wk_prod u then Asleep else Running)\<rparr>)"
    by (rule wake_step.second_check) (simp add: u_def)
  moreover have "u\<lparr>wk_pc := (if wk_cons u = wk_prod u then Asleep else Running)\<rparr> =
      s\<lparr>wk_pc := Asleep, wk_event := rsp_event (snd (RING_FINAL_CHECK_FOR_RESPONSES r sh))\<rparr>"
    using eq assms by (simp add: u_def t_def RING_FINAL_CHECK_FOR_RESPONSES_def RING_HAS_UNCONSUMED_RESPONSES_def
        RING_IDXS_EQ_def Let_def)
  ultimately show ?thesis by (metis converse_rtranclp_into_rtranclp rtranclp.rtrancl_refl)
qed

definition wake_inv :: "nat \<Rightarrow> wake \<Rightarrow> bool" where
  "wake_inv n s \<longleftrightarrow> unat (wk_prod s - wk_cons s) \<le> n \<and>
     (wk_pc s = EventSet \<or> wk_pc s = Asleep \<longrightarrow> wk_event s = wk_cons s + 1) \<and>
     (wk_pc s = Asleep \<and> wk_cons s \<noteq> wk_prod s \<longrightarrow> wk_pending s \<or> wk_old s = Some (wk_cons s))"

lemma event_next_crossed:
  fixes c p :: u32
  shows "p \<noteq> c \<Longrightarrow> p - (c + 1) < p - c"
  by (simp add: crossing_iff) (metis diff_0 diff_diff_eq2 eq_iff_diff_eq_0 linorder_not_le word_less_1)

lemma wake_step_inv:
  assumes "wake_step n s t" and "wake_inv n s" and n: "n < 2 ^ 32"
  shows "wake_inv n t"
  using assms(1,2)
proof (cases rule: wake_step.cases)
  case (publish k)
  have d: "wk_prod s + of_nat k - wk_cons s = (wk_prod s - wk_cons s) + of_nat k" by simp
  have "unat (wk_prod s - wk_cons s + of_nat k) = unat (wk_prod s - wk_cons s) + k"
    using publish(3) n by (simp add: unat_word_ariths unat_of_nat)
  then show ?thesis
    using publish assms(2) unfolding wake_inv_def by (auto simp: d)
next
  case (notify old)
  then show ?thesis using assms(2) event_next_crossed [of "wk_prod s" "wk_cons s"]
    by (auto simp: wake_inv_def)
next
  case consume
  have "wk_prod s - wk_cons s \<noteq> 0" using consume(3) by simp
  from unat_pred [OF this] have "unat (wk_prod s - (wk_cons s + 1)) = unat (wk_prod s - wk_cons s) - 1"
    by (simp only: diff_diff_eq)
  then show ?thesis using consume assms(2) by (simp add: wake_inv_def)
qed (auto simp: wake_inv_def RING_IDX_PLUS_def split: if_splits)

lemma wake_reachable_inv: "wake_reachable n s \<Longrightarrow> n < 2 ^ 32 \<Longrightarrow> wake_inv n s"
  unfolding wake_reachable_def
proof (induction rule: rtranclp_induct)
  case base
  show ?case by (simp add: wake_inv_def wake_init_def)
next
  case (step t u)
  then show ?case using wake_step_inv by blast
qed

text \<open>C3: No wake-up is lost.  In every interleaving of the accesses of the two macros, when the consumer
  sleeps while there are unconsumed responses, an event is already pending or the producer is about to
  send one: at most two further steps make the consumer run again.\<close>

theorem no_lost_wakeup:
  assumes "wake_reachable n s" and "n < 2 ^ 32" and "wk_pc s = Asleep" and "wk_cons s \<noteq> wk_prod s"
  shows "(wk_pending s \<or> (\<exists>old. wk_old s = Some old \<and> wk_prod s - wk_event s < wk_prod s - old)) \<and>
    (\<exists>t u. (wake_step n)\<^sup>=\<^sup>= s t \<and> wake_step n t u \<and> wk_pc u = Running \<and> wk_cons u = wk_cons s \<and> wk_prod u = wk_prod s)"
proof -
  have inv: "wk_event s = wk_cons s + 1" "wk_pending s \<or> wk_old s = Some (wk_cons s)"
    using wake_reachable_inv [OF assms(1,2)] assms(3,4) by (auto simp: wake_inv_def)
  have crossed: "wk_prod s - wk_event s < wk_prod s - wk_cons s"
    using event_next_crossed [of "wk_prod s" "wk_cons s"] assms(4) inv(1) by simp
  have awake: "\<exists>u. wake_step n t u \<and> wk_pc u = Running \<and> wk_cons u = wk_cons s \<and> wk_prod u = wk_prod s"
    if "wk_pc t = Asleep" "wk_pending t" "wk_cons t = wk_cons s" "wk_prod t = wk_prod s" for t
    using wake_step.wake_up [of t n] that by fastforce
  show ?thesis
  proof (cases "wk_pending s")
    case True
    then show ?thesis using awake [of s] assms(3) by blast
  next
    case False
    with inv(2) have old: "wk_old s = Some (wk_cons s)" by simp
    define t where "t = s\<lparr>wk_old := None, wk_pending := (wk_pending s \<or> wk_prod s - wk_event s < wk_prod s - wk_cons s)\<rparr>"
    have "wake_step n s t" unfolding t_def by (rule wake_step.notify [OF old])
    then show ?thesis using awake [of t] assms(3) crossed old by (auto simp: t_def)
  qed
qed

section \<open>Concrete rings\<close>

theorem RING_SIZE_power_of_two_witness:
  "\<exists>k < 32. unat (RING_SIZE_of 112 4096) = 2 ^ k \<and> 64 + unat (RING_SIZE_of 112 4096) * unat (112 :: u32) \<le> unat (4096 :: u32) \<and>
    unat (4096 :: u32) < 64 + 2 * unat (RING_SIZE_of 112 4096) * unat (112 :: u32)"
  by (rule RING_SIZE_power_of_two) simp_all

definition demo_front :: front_ring where
  "demo_front = \<lparr>req_prod_pvt = 1, rsp_cons = 0xFFFFFFFE, nr_ents = 32\<rparr>"

definition demo_sring :: "(nat, nat) sring" where
  "demo_sring = \<lparr>req_prod = 0, req_event = 1, rsp_prod = 0, rsp_event = 1, ring = (\<lambda>_. Req 0)\<rparr>"

theorem put_request_correct_witness:
  "\<not> RING_FULL demo_front \<and>
   RING_GET_REQUEST demo_front (put_request demo_front demo_sring 1 7) 0xFFFFFFFF = Req 0 \<and>
   RING_GET_REQUEST demo_front (put_request demo_front demo_sring 1 7) 1 = Req 7"
proof -
  have h: "unat (nr_ents demo_front) = 2 ^ 5" "req_prod_pvt demo_front - rsp_cons demo_front \<le> nr_ents demo_front"
    "0xFFFFFFFF - rsp_cons demo_front < req_prod_pvt demo_front - rsp_cons demo_front"
    by code_simp+
  have "\<not> RING_FULL demo_front" "req_prod_pvt demo_front = 1" by code_simp+
  then show ?thesis using put_request_correct [OF h, of demo_sring 7]
    by (simp add: RING_GET_REQUEST_def demo_sring_def)
qed

definition demo_pair :: nc2_ring_pair where
  "demo_pair = \<lparr>local_endpoint = \<lparr>prod = 4000, prod_event = 1, cons = 0, cons_event = 1\<rparr>,
     producer_payload = (\<lambda>_. None), consumer_payload = 0, local_prod = 4000, local_prod_pvt = 4000,
     local_cons = 0, local_cons_pvt = 0, local_prod_bytes_available = 96, producer_payload_bytes = 4096,
     consumer_payload_bytes = 4096\<rparr>"

theorem nc2_send_fits_witness:
  "\<exists>r'. nc2_can_send_payload_bytes (\<lambda>_. 3900) demo_pair 200 = Some (True, r') \<and>
     pad_bytes demo_pair 200 + unat (200 :: u16) \<le> unat (local_prod_bytes_available r') \<and>
     unat (nc2_get_message_ptr (nc2_avoid_ring_wrap r' 200)) + unat (200 :: u16) \<le> 2 ^ 12"
proof -
  define r' where "r' = demo_pair\<lparr>local_prod_bytes_available := 3996\<rparr>"
  have can: "nc2_can_send_payload_bytes (\<lambda>_. 3900) demo_pair 200 = Some (True, r')"
    by (simp add: nc2_can_send_payload_bytes_def nc2_can_send_retry.simps nc2_ring_would_wrap_def nc2_pad_needed_def
        demo_pair_def r'_def)
  have "unat (producer_payload_bytes demo_pair) = 2 ^ 12" by (simp add: demo_pair_def)
  from nc2_send_fits [OF this _ _ _ can] can show ?thesis by simp
qed

theorem no_lost_wakeup_witness:
  "\<exists>s. wake_reachable 4 s \<and> wk_pc s = Asleep \<and> wk_cons s \<noteq> wk_prod s \<and>
     (wk_pending s \<or> (\<exists>old. wk_old s = Some old \<and> wk_prod s - wk_event s < wk_prod s - old))"
proof -
  define a where "a = wake_init\<lparr>wk_pc := Checked\<rparr>"
  define b where "b = a\<lparr>wk_event := RING_IDX_PLUS (wk_cons a) 1, wk_pc := EventSet\<rparr>"
  define c where "c = b\<lparr>wk_pc := (if wk_cons b = wk_prod b then Asleep else Running)\<rparr>"
  define d where "d = c\<lparr>wk_prod := wk_prod c + of_nat 1, wk_old := Some (wk_prod c)\<rparr>"
  have "wake_step 4 wake_init a" unfolding a_def by (rule wake_step.first_check) (simp_all add: wake_init_def)
  moreover have "wake_step 4 a b" unfolding b_def by (rule wake_step.set_event) (simp add: a_def)
  moreover have "wake_step 4 b c" unfolding c_def by (rule wake_step.second_check) (simp add: b_def)
  moreover have "wake_step 4 c d"
    unfolding d_def by (rule wake_step.publish) (simp_all add: c_def b_def a_def wake_init_def)
  ultimately have "wake_reachable 4 d"
    unfolding wake_reachable_def by (metis converse_rtranclp_into_rtranclp rtranclp.rtrancl_refl)
  moreover have "wk_pc d = Asleep" "wk_cons d \<noteq> wk_prod d"
    by (simp_all add: d_def c_def b_def a_def wake_init_def)
  ultimately show ?thesis using no_lost_wakeup [of 4 d] by auto
qed

end
