(* ===== verification/Balloon.thy ===== *)
theory Balloon
  imports RangeSet "HOL-Library.Multiset"
begin

text \<open>
  The balloon driver: \<^verbatim>\<open>src/xenutil/balloon.c\<close>, a client of the range sets of \<^verbatim>\<open>RangeSet\<close> through
  the interface \<open>index_set\<close>.

  \<^item> \<open>balloon\<close> is the global \<^verbatim>\<open>Balloon\<close>.  Page frame numbers are 64-bit words, page counts in its
    fields 32-bit words; the page counts of one call, which are bounded by \<open>BALLOON_PFN_ARRAY_SIZE\<close>, and
    array indices are natural numbers.
  \<^item> What the driver calls is in \<open>benv\<close>: the \<open>n\<close>-th call is answered by the \<open>n\<close>-th value, and \<open>calls\<close>
    counts the calls.  \<open>mm_alloc\<close> is \<^verbatim>\<open>MmAllocatePagesForMdl\<close>, whose answer may depend on the pages the driver holds;
    \<open>populate_physmap\<close> and \<open>decrease_reservation\<close> are the two uses of the hypercall
    \<^verbatim>\<open>HYPERVISOR_memory_op\<close> (the result read as \<^verbatim>\<open>ULONG\<close>), \<open>pool\<close> the pool allocator of the range set
    entries, \<open>took\<close> the time a call needed in milliseconds, \<open>mapped\<close> and \<open>ram\<close> whether Windows can map
    pages and whether a page is backed by RAM.
  \<^item> \<open>blog\<close> records what the driver gives away: pages freed to Windows and xenstore flags written.
\<close>

section \<open>State\<close>

abbreviation BALLOON_PFN_ARRAY_SIZE :: nat where "BALLOON_PFN_ARRAY_SIZE \<equiv> 4090"
abbreviation MIN_PAGES_PER_S :: u64 where "MIN_PAGES_PER_S \<equiv> 10000"

datatype bevent =
    MmFreePages "u64 list"
  | FeatureFlag string bool
  | PodSweep
  | WorkerDone

record balloon =
  TopPage :: u32
  CurrentPages :: u32
  TargetPages :: u32
  MaxPages :: u32
  AllocateFail :: u32
  PartialAllocate :: u32
  PartialPopulate :: u32
  PfnsBalloonedOut :: "u64 range_set"
  PfnArray :: "u64 list"
  FIST_inflation :: bool
  FIST_deflation :: bool
  Frozen :: bool
  Initialized :: bool
  Advertized :: bool
  AdvertizedSuspendCount :: u32
  Active :: bool
  ActiveSuspendCount :: u32
  AllocatorInitialized :: bool
  calls :: nat
  blog :: "bevent list"

record benv =
  mm_alloc :: "nat \<Rightarrow> nat \<Rightarrow> u64 range_set \<Rightarrow> u64 list option"
  has_alloc_ex :: bool
  populate_physmap :: "nat \<Rightarrow> u64 list \<Rightarrow> u32"
  decrease_reservation :: "nat \<Rightarrow> u64 list \<Rightarrow> u32"
  pool :: "nat \<Rightarrow> nat \<Rightarrow> bool"
  took :: "nat \<Rightarrow> u64"
  mapped :: "nat \<Rightarrow> bool"
  ram :: "nat \<Rightarrow> u64 \<Rightarrow> bool"

definition bump :: "balloon \<Rightarrow> balloon" where
  "bump b = b\<lparr>calls := calls b + 1\<rparr>"

definition emit :: "bevent \<Rightarrow> balloon \<Rightarrow> balloon" where
  "emit e b = b\<lparr>blog := e # blog b\<rparr>"

section \<open>Reading the targets\<close>

definition BalloonReadTargetPages :: "u64 option \<Rightarrow> NTSTATUS + u32" where
  "BalloonReadTargetPages key =
     (case key of None \<Rightarrow> Inl STATUS_UNSUCCESSFUL | Some Target \<Rightarrow> Inr (ucast (Target div 4)))"

definition BalloonReadMaxPages :: "u64 option \<Rightarrow> NTSTATUS + u32" where
  "BalloonReadMaxPages key =
     (case key of None \<Rightarrow> Inl STATUS_UNSUCCESSFUL | Some StaticMax \<Rightarrow> Inr (ucast (StaticMax div 4)))"

text \<open>The physical memory ranges are an array that ends with a range of base and length 0.\<close>

fun top_address :: "(u64 \<times> u64) list \<Rightarrow> u64 \<Rightarrow> u64" where
  "top_address [] hi = hi"
| "top_address ((base, bytes) # rs) hi =
     (if base = 0 \<and> bytes = 0 then hi
      else top_address rs (if sint (base + bytes) > sint hi then base + bytes else hi))"

definition BalloonGetTopPage :: "(u64 \<times> u64) list \<Rightarrow> u32" where
  "BalloonGetTopPage ranges = ucast (signed_drop_bit 12 (top_address ranges 0))"

section \<open>Sorting the page array\<close>

definition SWAP_NODES :: "u64 list \<Rightarrow> nat \<Rightarrow> nat \<Rightarrow> u64 list" where
  "SWAP_NODES Heap x y = Heap[y := Heap ! x, x := Heap ! y]"

function BalloonHeapPushDown :: "u64 list \<Rightarrow> nat \<Rightarrow> nat \<Rightarrow> u64 list res" where
  "BalloonHeapPushDown Heap start Count =
     (let LeftChild = start * 2 + 1; RightChild = start * 2 + 2
      in if RightChild < Count then
           if length Heap \<le> RightChild then Inl BadPointer
           else xm_assert (Heap ! LeftChild \<noteq> Heap ! start)
            (xm_assert (Heap ! RightChild \<noteq> Heap ! start)
            (xm_assert (Heap ! LeftChild \<noteq> Heap ! RightChild)
             (if Heap ! LeftChild < Heap ! start \<and> Heap ! RightChild < Heap ! start then Inr Heap
              else if Heap ! LeftChild < Heap ! start \<and> Heap ! RightChild > Heap ! start then
                let H = SWAP_NODES Heap RightChild start
                in xm_assert (H ! RightChild < H ! start) (BalloonHeapPushDown H RightChild Count)
              else if Heap ! RightChild < Heap ! start \<and> Heap ! LeftChild > Heap ! start then
                let H = SWAP_NODES Heap LeftChild start
                in xm_assert (H ! LeftChild < H ! start) (BalloonHeapPushDown H LeftChild Count)
              else if Heap ! LeftChild > Heap ! RightChild then
                let H = SWAP_NODES Heap LeftChild start
                in xm_assert (H ! LeftChild < H ! start) (BalloonHeapPushDown H LeftChild Count)
              else
                let H = SWAP_NODES Heap RightChild start
                in xm_assert (H ! RightChild < H ! start) (BalloonHeapPushDown H RightChild Count))))
         else if LeftChild < Count then
           if length Heap \<le> LeftChild then Inl BadPointer
           else xm_assert (Heap ! LeftChild \<noteq> Heap ! start)
             (if Heap ! LeftChild < Heap ! start then Inr Heap
              else let H = SWAP_NODES Heap LeftChild start
                   in xm_assert (H ! LeftChild < H ! start) (BalloonHeapPushDown H LeftChild Count))
         else Inr Heap)"
  by pat_completeness auto

termination
  by (relation "measure (\<lambda>(_, start, Count). Count - start)") auto

text \<open>\<open>BalloonCreateHeap_from n\<close> is the loop with the indices below \<open>n\<close> still to do.\<close>

fun BalloonCreateHeap_from :: "nat \<Rightarrow> u64 list \<Rightarrow> nat \<Rightarrow> u64 list res" where
  "BalloonCreateHeap_from 0 Array Count = Inr Array"
| "BalloonCreateHeap_from (Suc Index) Array Count =
     res_bind (BalloonHeapPushDown Array Index Count) (\<lambda>A. BalloonCreateHeap_from Index A Count)"

definition BalloonCreateHeap :: "u64 list \<Rightarrow> nat \<Rightarrow> u64 list res" where
  "BalloonCreateHeap Array Count = BalloonCreateHeap_from Count Array Count"

fun Sort_loop :: "nat \<Rightarrow> u64 list \<Rightarrow> u64 list res" where
  "Sort_loop 0 Array = Inr Array"
| "Sort_loop (Suc u) Array =
     res_bind (BalloonHeapPushDown (Array[0 := Array ! u, u := Array ! 0]) 0 u) (Sort_loop u)"

text \<open>\<^verbatim>\<open>BalloonCheckHeap\<close> only traces.\<close>

definition BalloonSortPfnArray :: "u64 list \<Rightarrow> nat \<Rightarrow> u64 list res" where
  "BalloonSortPfnArray Array Count = res_bind (BalloonCreateHeap Array Count) (Sort_loop Count)"

section \<open>One array of pages\<close>

text \<open>Whether a call that handled \<open>n\<close> pages in \<open>ms\<close> milliseconds was slow.\<close>

definition is_slow :: "u32 \<Rightarrow> u64 \<Rightarrow> bool" where
  "is_slow n ms \<longleftrightarrow> ms \<noteq> 0 \<and> ucast (n * 1000) div ms < MIN_PAGES_PER_S"

definition BalloonAllocatePfnArray :: "benv \<Rightarrow> balloon \<Rightarrow> nat \<Rightarrow> (bool \<times> nat \<times> balloon) res" where
  "BalloonAllocatePfnArray E b Requested =
     xm_assert (Requested \<le> BALLOON_PFN_ARRAY_SIZE \<and> AllocatorInitialized b)
      (let n = calls b; b1 = bump b
       in case mm_alloc E n Requested (PfnsBalloonedOut b) of
            None \<Rightarrow> Inr (is_slow 0 (took E n), 0, b1\<lparr>AllocateFail := AllocateFail b1 + 1\<rparr>)
          | Some Array \<Rightarrow>
              if length Array > BALLOON_PFN_ARRAY_SIZE then Inl BadPointer
              else
                let Allocated = length Array;
                    b2 = (if Allocated < Requested then b1\<lparr>PartialAllocate := PartialAllocate b1 + 1\<rparr> else b1)
                in res_bind (BalloonSortPfnArray Array Allocated) (\<lambda>A.
                     Inr (is_slow (of_nat Allocated) (took E n), Allocated,
                          b2\<lparr>PfnArray := A @ drop Allocated (PfnArray b2)\<rparr>)))"

definition BalloonPopulatePfnArray :: "benv \<Rightarrow> balloon \<Rightarrow> nat \<Rightarrow> (bool \<times> nat \<times> balloon) res" where
  "BalloonPopulatePfnArray E b Requested =
     xm_assert (Requested \<le> BALLOON_PFN_ARRAY_SIZE)
      (let n = calls b; b1 = bump b
       in res_bind (RangeSetPopMany (PfnsBalloonedOut b1) Requested) (\<lambda>(out, rs).
            let b2 = b1\<lparr>PfnsBalloonedOut := rs, PfnArray := out @ drop Requested (PfnArray b1)\<rparr>;
                Populated = unat (populate_physmap E n out)
            in res_bind
                 (if Populated < Requested
                  then res_bind (RangeSetAddItems (pool E n) rs (drop Populated out)) (\<lambda>(_, rs).
                         Inr (b2\<lparr>PartialPopulate := PartialPopulate b2 + 1, PfnsBalloonedOut := rs\<rparr>))
                  else if Populated > Requested then Inl XmAssert
                  else Inr b2)
                 (\<lambda>b3. Inr (is_slow (populate_physmap E n out) (took E n), Populated,
                            b3\<lparr>PfnsBalloonedOut := RangeSetDropRseCache (PfnsBalloonedOut b3)\<rparr>))))"

definition zero_pfns :: "nat \<Rightarrow> balloon \<Rightarrow> balloon" where
  "zero_pfns n b = b\<lparr>PfnArray := replicate n 0 @ drop n (PfnArray b)\<rparr>"

text \<open>\<open>None\<close> is a \<^verbatim>\<open>RangeSetRemoveItems\<close> that does not return.\<close>

definition BalloonReleasePfnArray :: "benv \<Rightarrow> balloon \<Rightarrow> nat \<Rightarrow> (bool \<times> nat \<times> balloon) res option" where
  "BalloonReleasePfnArray E b Requested =
     (let n = calls b; b1 = bump b; items = take Requested (PfnArray b1);
          done = (\<lambda>Released b. Inr (is_slow (of_nat Released) (took E n), Released,
                    b\<lparr>PfnsBalloonedOut := RangeSetDropRseCache (PfnsBalloonedOut b)\<rparr>))
      in if \<not> Requested \<le> BALLOON_PFN_ARRAY_SIZE then Some (Inl XmAssert)
         else if Requested = 0 then Some (done 0 b1)
         else if 0 \<in> set items then Some (Inl XmAssert)
         else case RangeSetAddItems (pool E n) (PfnsBalloonedOut b1) items of
                Inl e \<Rightarrow> Some (Inl e)
              | Inr (Registered, rs) \<Rightarrow>
                  let b2 = b1\<lparr>PfnsBalloonedOut := rs\<rparr>
                  in if Registered < Requested \<and> Registered = 0 then Some (done 0 b2)
                     else
                       let Released = unat (decrease_reservation E n (take Registered items))
                       in if Released < Registered then
                            case RangeSetRemoveItems (pool E n) rs (drop Released (take Registered items)) of
                              None \<Rightarrow> None
                            | Some (Inl e) \<Rightarrow> Some (Inl e)
                            | Some (Inr (_, rs')) \<Rightarrow>
                                Some (done Released (zero_pfns Released (b2\<lparr>PfnsBalloonedOut := rs'\<rparr>)))
                          else if Released > Registered then Some (Inl XmAssert)
                          else Some (done Released (zero_pfns Released b2)))"

text \<open>The check before pages go back to Windows: every page keeps the byte written to it; a page that is
  still ballooned out reads as 255.\<close>

definition page_reads :: "(u64 \<Rightarrow> bool) \<Rightarrow> nat \<Rightarrow> u64 \<Rightarrow> u8" where
  "page_reads is_ram Index pfn = (if is_ram pfn then of_nat Index else 0xFF)"

definition BalloonFreePagesFromMdl :: "benv \<Rightarrow> balloon \<Rightarrow> u64 list \<Rightarrow> bool \<Rightarrow> balloon res" where
  "BalloonFreePagesFromMdl E b pfns Check =
     (if Check \<and> mapped E (calls b) \<and>
         \<not> list_all (\<lambda>(Index, pfn). page_reads (ram E (calls b)) Index pfn = of_nat Index) (enumerate 0 pfns)
      then Inl XmAssert
      else Inr (emit (MmFreePages pfns) b))"

definition BalloonFreePfnArray :: "benv \<Rightarrow> balloon \<Rightarrow> nat \<Rightarrow> bool \<Rightarrow> (bool \<times> nat \<times> balloon) res" where
  "BalloonFreePfnArray E b Requested Check =
     xm_assert (Requested \<le> BALLOON_PFN_ARRAY_SIZE)
      (let n = calls b; b1 = bump b; items = take Requested (PfnArray b1)
       in if Requested = 0 then Inr (is_slow 0 (took E n), 0, b1)
          else if 0 \<in> set items then Inl XmAssert
          else res_bind (BalloonFreePagesFromMdl E b1 items Check) (\<lambda>b2.
                 Inr (is_slow (of_nat Requested) (took E n), Requested, zero_pfns Requested b2)))"

section \<open>Inflating and deflating\<close>

text \<open>The loop ends because an iteration that does not abort has freed \<open>ThisTime\<close> pages.\<close>

function BalloonDeflate_loop :: "benv \<Rightarrow> nat \<Rightarrow> nat \<Rightarrow> balloon \<Rightarrow> (nat \<times> balloon) res" where
  "BalloonDeflate_loop E Requested Returned b =
     (if \<not> Returned < Requested then Inr (Returned, b)
      else
        let ThisTime = min (Requested - Returned) BALLOON_PFN_ARRAY_SIZE
        in res_bind (BalloonPopulatePfnArray E b ThisTime) (\<lambda>(slow1, Populated, b).
           res_bind (BalloonFreePfnArray E b Populated True) (\<lambda>(slow2, Freed, b).
             xm_assert (Freed = Populated)
              (let b = zero_pfns BALLOON_PFN_ARRAY_SIZE b
               in if slow1 \<or> Populated < ThisTime \<or> slow2 then Inr (Returned + Freed, b)
                  else BalloonDeflate_loop E Requested (Returned + Freed) b))))"
  by pat_completeness auto

termination
  by (relation "measure (\<lambda>(_, Requested, Returned, _). Requested - Returned)") auto

definition BalloonDeflate :: "benv \<Rightarrow> balloon \<Rightarrow> nat \<Rightarrow> (nat \<times> balloon) res" where
  "BalloonDeflate E b Requested =
     xm_assert (\<not> Frozen b)
      (if FIST_deflation b then Inr (0, b) else BalloonDeflate_loop E Requested 0 b)"

definition BalloonPodSweep :: "balloon \<Rightarrow> balloon" where
  "BalloonPodSweep b = emit PodSweep b"

definition RtlMoveMemory_down :: "nat \<Rightarrow> nat \<Rightarrow> balloon \<Rightarrow> balloon" where
  "RtlMoveMemory_down from n b =
     b\<lparr>PfnArray := take n (drop from (PfnArray b)) @ drop n (PfnArray b)\<rparr>"

text \<open>What an iteration does with the pages it could not release: they go back to Windows.\<close>

definition Inflate_free_rest :: "benv \<Rightarrow> nat \<Rightarrow> nat \<Rightarrow> balloon \<Rightarrow> balloon res" where
  "Inflate_free_rest E Allocated Released b =
     (if Released < Allocated then
        res_bind (BalloonFreePfnArray E (RtlMoveMemory_down Released (Allocated - Released) b)
                   (Allocated - Released) False) (\<lambda>(_, Freed, b).
          xm_assert (Freed = Allocated - Released) (Inr b))
      else Inr b)"

text \<open>One iteration: the number of pages released and whether to stop.\<close>

definition Inflate_once :: "benv \<Rightarrow> nat \<Rightarrow> balloon \<Rightarrow> (bool \<times> nat \<times> balloon) res option" where
  "Inflate_once E ThisTime b =
     (case BalloonAllocatePfnArray E b ThisTime of
        Inl e \<Rightarrow> Some (Inl e)
      | Inr (slow1, Allocated, b) \<Rightarrow>
          (case BalloonReleasePfnArray E b Allocated of
             None \<Rightarrow> None
           | Some (Inl e) \<Rightarrow> Some (Inl e)
           | Some (Inr (slow2, Released, b)) \<Rightarrow>
               Some (res_bind (Inflate_free_rest E Allocated Released b) (\<lambda>b.
                 Inr (slow1 \<or> Allocated < ThisTime \<or> slow2 \<or> (Released < Allocated \<and> Released = 0),
                      Released, zero_pfns BALLOON_PFN_ARRAY_SIZE b)))))"

lemma Inflate_once_progress:
  "Inflate_once E ThisTime b = Some (Inr (False, Released, b')) \<Longrightarrow> 0 < ThisTime \<Longrightarrow> 0 < Released"
  by (auto simp: Inflate_once_def res_bind_Inr_iff split: sum.splits option.splits prod.splits)

function BalloonInflate_loop :: "benv \<Rightarrow> nat \<Rightarrow> nat \<Rightarrow> balloon \<Rightarrow> (nat \<times> balloon) res option" where
  "BalloonInflate_loop E Requested Acquired b =
     (if \<not> Acquired < Requested then Some (Inr (Acquired, b))
      else case Inflate_once E (min (Requested - Acquired) BALLOON_PFN_ARRAY_SIZE) b of
             None \<Rightarrow> None
           | Some (Inl e) \<Rightarrow> Some (Inl e)
           | Some (Inr (Abort, Released, b')) \<Rightarrow>
               if Abort then Some (Inr (Acquired + Released, b'))
               else BalloonInflate_loop E Requested (Acquired + Released) b')"
  by pat_completeness auto

termination
  by (relation "measure (\<lambda>(_, Requested, Acquired, _). Requested - Acquired)")
    (auto dest!: Inflate_once_progress)

definition BalloonInflate :: "benv \<Rightarrow> balloon \<Rightarrow> nat \<Rightarrow> (nat \<times> balloon) res option" where
  "BalloonInflate E b Requested =
     (if Frozen b then Some (Inl XmAssert)
      else if FIST_inflation b then Some (Inr (0, b))
      else if \<not> AllocatorInitialized b then Some (Inl XmAssert)
      else BalloonInflate_loop E Requested 0 (if has_alloc_ex E then BalloonPodSweep b else b))"

section \<open>Watches and the worker thread\<close>

definition BalloonTargetChanged :: "u64 option \<Rightarrow> balloon \<Rightarrow> balloon" where
  "BalloonTargetChanged key b =
     (case BalloonReadTargetPages key of
        Inl _ \<Rightarrow> b
      | Inr T \<Rightarrow> b\<lparr>TargetPages := (if T > MaxPages b then MaxPages b else T)\<rparr>)"

text \<open>A flag that cannot be read keeps its value.\<close>

definition BalloonFISTChanged :: "bool option \<Rightarrow> bool option \<Rightarrow> balloon \<Rightarrow> balloon" where
  "BalloonFISTChanged inflation deflation b =
     b\<lparr>FIST_inflation := (case inflation of None \<Rightarrow> FIST_inflation b | Some v \<Rightarrow> v),
       FIST_deflation := (case deflation of None \<Rightarrow> FIST_deflation b | Some v \<Rightarrow> v)\<rparr>"

definition Worker_advertize :: "u32 \<Rightarrow> balloon \<Rightarrow> balloon" where
  "Worker_advertize susp b =
     (if \<not> Advertized b \<or> AdvertizedSuspendCount b \<noteq> susp
      then (emit (FeatureFlag ''feature-balloon'' True) b)\<lparr>AdvertizedSuspendCount := susp, Advertized := True\<rparr>
      else b)"

definition Worker_activate :: "u32 \<Rightarrow> balloon \<Rightarrow> balloon" where
  "Worker_activate susp b =
     (if \<not> Active b \<or> ActiveSuspendCount b \<noteq> susp
      then (emit (FeatureFlag ''balloon-active'' True) b)\<lparr>ActiveSuspendCount := susp, Active := True\<rparr>
      else b)"

text \<open>Moving \<open>CurrentPages\<close> towards \<open>TargetPages\<close>.\<close>

definition Worker_adjust :: "benv \<Rightarrow> balloon \<Rightarrow> balloon res option" where
  "Worker_adjust E b =
     (if TargetPages b < CurrentPages b then
        case BalloonInflate E b (unat (CurrentPages b - TargetPages b)) of
          None \<Rightarrow> None
        | Some r \<Rightarrow> Some (res_bind r (\<lambda>(PagesDelta, b').
            Inr (b'\<lparr>CurrentPages := CurrentPages b' - of_nat PagesDelta\<rparr>)))
      else if TargetPages b > CurrentPages b then
        Some (res_bind (BalloonDeflate E b (unat (TargetPages b - CurrentPages b))) (\<lambda>(PagesDelta, b').
            Inr (b'\<lparr>CurrentPages := CurrentPages b' + of_nat PagesDelta\<rparr>)))
      else Some (Inr b))"

definition Worker_finish :: "balloon \<Rightarrow> (bool \<times> balloon) res" where
  "Worker_finish b =
     xm_assert (RangeSetItems (PfnsBalloonedOut b) = ucast (MaxPages b - CurrentPages b))
      (if CurrentPages b = TargetPages b
       then xm_assert (Active b)
             (Inr (True, emit WorkerDone ((emit (FeatureFlag ''balloon-active'' False) b)\<lparr>Active := False\<rparr>)))
       else Inr (False, b))"

text \<open>One turn of the worker's loop from its wake-up on.  \<open>exit\<close> is \<^verbatim>\<open>Self->exit\<close> after the wait.  The
  result says whether the target is reached, which makes the next wait indefinite; a frozen balloon keeps
  the timeout \<open>idle\<close> it had.\<close>

definition Worker_turn :: "benv \<Rightarrow> bool \<Rightarrow> u32 \<Rightarrow> bool \<Rightarrow> balloon \<Rightarrow> (bool \<times> balloon) res option" where
  "Worker_turn E exit susp idle b =
     (if exit \<and> \<not> Advertized b then Some (Inl XmAssert)
      else
        let b1 = (if exit then (emit (FeatureFlag ''feature-balloon'' False) b)\<lparr>Advertized := False\<rparr> else b)
        in if Frozen b1 then Some (Inr (idle, b1))
           else case Worker_adjust E (Worker_activate susp b1) of
                  None \<Rightarrow> None
                | Some r \<Rightarrow> Some (res_bind r Worker_finish))"

text \<open>The thread, woken once per element of the list: the suspend count before and after the wait and the
  exit flag.  With the list used up the thread is still waiting.\<close>

fun Worker_loop :: "benv \<Rightarrow> (u32 \<times> u32 \<times> bool) list \<Rightarrow> bool \<Rightarrow> balloon \<Rightarrow> (bool \<times> balloon) res option" where
  "Worker_loop E [] idle b = Some (Inr (idle, b))"
| "Worker_loop E ((susp1, susp2, exit) # ws) idle b =
     (case Worker_turn E exit susp2 idle (Worker_advertize susp1 b) of
        None \<Rightarrow> None
      | Some (Inl e) \<Rightarrow> Some (Inl e)
      | Some (Inr (idle', b')) \<Rightarrow> if exit then Some (Inr (idle', b')) else Worker_loop E ws idle' b')"

definition Worker_end :: "balloon \<Rightarrow> balloon" where
  "Worker_end b =
     (let b1 = (if Active b then (emit (FeatureFlag ''feature-balloon'' False) b)\<lparr>Active := False\<rparr> else b);
          b2 = (if Advertized b1 then (emit (FeatureFlag ''feature-balloon'' False) b1)\<lparr>Advertized := False\<rparr> else b1)
      in emit WorkerDone b2)"

text \<open>\<open>watch1\<close> and \<open>watch2\<close>: the two watches could be registered.\<close>

definition BalloonWorkerThread ::
  "benv \<Rightarrow> bool \<Rightarrow> bool \<Rightarrow> (u32 \<times> u32 \<times> bool) list \<Rightarrow> balloon \<Rightarrow> (NTSTATUS \<times> balloon) res option" where
  "BalloonWorkerThread E watch1 watch2 ws b =
     (if \<not> (watch1 \<and> watch2) then Some (Inr (STATUS_INSUFFICIENT_RESOURCES, emit WorkerDone b))
      else case Worker_loop E ws True b of
             None \<Rightarrow> None
           | Some r \<Rightarrow> Some (res_bind r (\<lambda>(_, b). Inr (STATUS_SUCCESS, Worker_end b))))"

section \<open>The rest of the interface\<close>

definition BalloonIsEmpty :: "balloon \<Rightarrow> bool" where
  "BalloonIsEmpty b \<longleftrightarrow> CurrentPages b = MaxPages b"

definition BalloonFreeze :: "balloon \<Rightarrow> balloon" where
  "BalloonFreeze b = b\<lparr>Frozen := True\<rparr>"

definition BalloonThaw :: "balloon \<Rightarrow> balloon" where
  "BalloonThaw b = b\<lparr>Frozen := False\<rparr>"

text \<open>\<open>has_ex\<close>: Windows exports \<^verbatim>\<open>MmAllocatePagesForMdlEx\<close>.  The pointer to it is set from the first
  call on.\<close>

definition BalloonInitializeAllocator :: "bool \<Rightarrow> balloon \<Rightarrow> balloon res" where
  "BalloonInitializeAllocator has_ex b =
     xm_assert (\<not> (AllocatorInitialized b \<and> has_ex)) (Inr (b\<lparr>AllocatorInitialized := True\<rparr>))"

text \<open>On AMD64.  \<open>spawned\<close>: the worker thread could be created.\<close>

definition BalloonInit ::
  "bool \<Rightarrow> (u64 \<times> u64) list \<Rightarrow> u64 option \<Rightarrow> bool \<Rightarrow> bool \<Rightarrow> balloon \<Rightarrow> (NTSTATUS \<times> balloon) res" where
  "BalloonInit has_ex ranges key spawned AustereMode b =
     xm_assert (\<not> AustereMode)
      (if Initialized b then Inr (STATUS_SUCCESS, b)
       else
         let b1 = b\<lparr>TopPage := BalloonGetTopPage ranges\<rparr>
         in case BalloonReadMaxPages key of
              Inl st \<Rightarrow> Inr (st, b1)
            | Inr M \<Rightarrow>
                res_bind (BalloonInitializeAllocator has_ex (b1\<lparr>MaxPages := M, CurrentPages := M, TargetPages := M\<rparr>)) (\<lambda>b2.
                  let b3 = b2\<lparr>PfnsBalloonedOut := RangeSetInit (PfnsBalloonedOut b2)\<rparr>
                  in if \<not> spawned then Inr (STATUS_INSUFFICIENT_RESOURCES, b3)
                     else Inr (STATUS_SUCCESS, b3\<lparr>Initialized := True\<rparr>)))"

record XS_QUERY_BALLOON =
  q_max_pages :: u32
  q_current_pages :: u32
  q_target_pages :: u32
  q_allocations_failed :: u32
  q_partial_allocations :: u32

definition BalloonQuery :: "balloon \<Rightarrow> XS_QUERY_BALLOON" where
  "BalloonQuery b = \<lparr>q_max_pages = MaxPages b, q_current_pages = CurrentPages b, q_target_pages = TargetPages b,
     q_allocations_failed = AllocateFail b, q_partial_allocations = PartialAllocate b\<rparr>"

section \<open>Heap sort\<close>

declare BalloonHeapPushDown.simps [simp del] BalloonDeflate_loop.simps [simp del]
  BalloonInflate_loop.simps [simp del]

text \<open>Node \<open>j\<close> of the heap in the first \<open>n\<close> places of \<open>a\<close> is above its children.\<close>

definition heap_node :: "u64 list \<Rightarrow> nat \<Rightarrow> nat \<Rightarrow> bool" where
  "heap_node a n j \<longleftrightarrow> (\<forall>c \<in> {j * 2 + 1, j * 2 + 2}. c < n \<longrightarrow> a ! c < a ! j)"

text \<open>The state of sifting down: below \<open>s0\<close> nothing is known, and the only node that may be out of order
  is \<open>s\<close>, whose children are still below its parent.\<close>

definition sifting :: "u64 list \<Rightarrow> nat \<Rightarrow> nat \<Rightarrow> nat \<Rightarrow> bool" where
  "sifting a n s0 s \<longleftrightarrow> n \<le> length a \<and> distinct (take n a) \<and> s0 \<le> s \<and>
     (\<forall>j. s0 \<le> j \<and> j \<noteq> s \<longrightarrow> heap_node a n j) \<and>
     (\<forall>p c. s0 \<le> p \<and> s \<in> {p * 2 + 1, p * 2 + 2} \<and> c \<in> {s * 2 + 1, s * 2 + 2} \<and> c < n \<longrightarrow> a ! c < a ! p)"

definition sifted :: "u64 list \<Rightarrow> nat \<Rightarrow> nat \<Rightarrow> u64 list \<Rightarrow> bool" where
  "sifted a n s0 a' \<longleftrightarrow> (\<forall>j \<ge> s0. heap_node a' n j) \<and> mset a' = mset a \<and>
     mset (take n a') = mset (take n a) \<and> drop n a' = drop n a"

lemma SWAP_NODES_simps:
  assumes "x < length a" and "y < length a"
  shows "length (SWAP_NODES a x y) = length a" and "SWAP_NODES a x y ! x = a ! y" and "SWAP_NODES a x y ! y = a ! x"
    and "i \<noteq> x \<Longrightarrow> i \<noteq> y \<Longrightarrow> SWAP_NODES a x y ! i = a ! i" and "mset (SWAP_NODES a x y) = mset a"
  using assms by (auto simp: SWAP_NODES_def nth_list_update mset_swap)

lemma SWAP_NODES_take:
  assumes "x < n" and "y < n" and "n \<le> length a"
  shows "take n (SWAP_NODES a x y) = SWAP_NODES (take n a) x y" and "drop n (SWAP_NODES a x y) = drop n a"
  using assms by (auto simp: SWAP_NODES_def take_update_swap)

lemma sift_step:
  assumes s: "sifting a n s0 s" and c: "c \<in> {s * 2 + 1, s * 2 + 2}" "c < n" and lt: "a ! s < a ! c"
    and oth: "\<And>d. d \<in> {s * 2 + 1, s * 2 + 2} \<Longrightarrow> d < n \<Longrightarrow> d \<noteq> c \<Longrightarrow> a ! d < a ! c"
  defines "a1 \<equiv> SWAP_NODES a c s"
  shows "sifting a1 n s0 c" and "a1 ! c < a1 ! s" and "mset (take n a1) = mset (take n a)" and "drop n a1 = drop n a"
    and "mset a1 = mset a"
proof -
  have n: "n \<le> length a" "distinct (take n a)" "s0 \<le> s" and sc: "s < c" "s < n" "c < length a" "s < length a"
    using s c by (auto simp: sifting_def)
  note sw = SWAP_NODES_simps [OF sc(3,4)]
  have v: "a1 ! c = a ! s" "a1 ! s = a ! c" and u: "\<And>i. i \<noteq> c \<Longrightarrow> i \<noteq> s \<Longrightarrow> a1 ! i = a ! i"
    using sw by (simp_all add: a1_def)
  show "a1 ! c < a1 ! s" using v lt by simp
  show m: "mset (take n a1) = mset (take n a)" and "drop n a1 = drop n a" "mset a1 = mset a"
    using SWAP_NODES_take [OF c(2) sc(2) n(1)] SWAP_NODES_simps(5) [of c "take n a" s] c(2) sc(2) n(1) sw(5)
    by (simp_all add: a1_def)
  have node: "heap_node a n j" if "s0 \<le> j" "j \<noteq> s" for j using s that by (simp add: sifting_def)
  show "sifting a1 n s0 c"
    unfolding sifting_def
  proof (intro conjI allI impI)
    show "n \<le> length a1" "s0 \<le> c" using n sc sw(1) by (simp_all add: a1_def)
    show "distinct (take n a1)" using m n(2) by (metis mset_eq_imp_distinct_iff)
    fix j assume j: "s0 \<le> j \<and> j \<noteq> c"
    show "heap_node a1 n j"
      unfolding heap_node_def
    proof (intro ballI impI)
      fix d assume d: "d \<in> {j * 2 + 1, j * 2 + 2}" "d < n"
      have same: "d = c \<Longrightarrow> j = s" using c(1) d(1) by auto
      consider "j = s" "d = c" | "j = s" "d \<noteq> c" | "j \<noteq> s" "d = s" | "j \<noteq> s" "d \<noteq> s" "d \<noteq> c"
        using same by blast
      then show "a1 ! d < a1 ! j"
      proof cases
        case 1 then show ?thesis using v lt by simp
      next
        case 2 then show ?thesis using v u oth [of d] d by auto
      next
        case 3
        then have "a ! c < a ! j" using s c j d(1) unfolding sifting_def by blast
        then show ?thesis using 3 v u j by simp
      next
        case 4
        then show ?thesis using node [of j] j d u unfolding heap_node_def by auto
      qed
    qed
  next
    fix p d assume "s0 \<le> p \<and> c \<in> {p * 2 + 1, p * 2 + 2} \<and> d \<in> {c * 2 + 1, c * 2 + 2} \<and> d < n"
    then have "p = s" "d \<in> {c * 2 + 1, c * 2 + 2}" "d < n" using c(1) by auto
    then show "a1 ! d < a1 ! p"
      using node [of c] n(3) sc(1) v u [of d] unfolding heap_node_def by auto
  qed
qed

lemma sifting_done: "sifting a n s0 s \<Longrightarrow> heap_node a n s \<Longrightarrow> sifted a n s0 a"
  by (auto simp: sifting_def sifted_def)

lemma sifted_trans:
  "mset (take n b) = mset (take n a) \<Longrightarrow> drop n b = drop n a \<Longrightarrow> mset b = mset a \<Longrightarrow> sifted b n s0 a' \<Longrightarrow> sifted a n s0 a'"
  by (simp add: sifted_def)

lemma distinct_take_neq:
  "distinct (take n a) \<Longrightarrow> n \<le> length a \<Longrightarrow> i < n \<Longrightarrow> j < n \<Longrightarrow> i \<noteq> j \<Longrightarrow> a ! i \<noteq> a ! j"
  using nth_eq_iff_index_eq [of "take n a" i j] by simp

lemma max_of_three:
  fixes x y z :: "'a::linorder"
  assumes "y \<noteq> x" "z \<noteq> x" "y \<noteq> z"
  shows "(y < x \<and> z < x) \<or> (x < z \<and> y < z) \<or> (x < y \<and> z < y)"
  using assms by (cases "x < y"; cases "y < z"; cases "x < z") auto

lemma BalloonHeapPushDown_sifted:
  "sifting a n s0 s \<Longrightarrow> \<exists>a'. BalloonHeapPushDown a s n = Inr a' \<and> sifted a n s0 a'"
proof (induction "n - s" arbitrary: a s rule: less_induct)
  case less
  let ?l = "s * 2 + 1" let ?r = "s * 2 + 2"
  have n: "n \<le> length a" "distinct (take n a)" using less.prems by (auto simp: sifting_def)
  note neq = distinct_take_neq [OF n(2,1)]
  have rec: "\<exists>a'. BalloonHeapPushDown (SWAP_NODES a c s) c n = Inr a' \<and> sifted a n s0 a'"
    if c: "c \<in> {?l, ?r}" "c < n" "a ! s < a ! c" "\<And>d. d \<in> {?l, ?r} \<Longrightarrow> d < n \<Longrightarrow> d \<noteq> c \<Longrightarrow> a ! d < a ! c" for c
  proof -
    note st = sift_step [OF less.prems c]
    have "n - c < n - s" using c(1,2) by auto
    from less.hyps [OF this st(1)] sifted_trans [OF st(3-5)] show ?thesis by blast
  qed
  have swapped: "SWAP_NODES a c s ! c < SWAP_NODES a c s ! s"
    if "c \<in> {?l, ?r}" "c < n" "a ! s < a ! c" for c
    using that n SWAP_NODES_simps [of c a s] by auto
  show ?case
  proof (cases "?r < n")
    case True
    then have d: "a ! ?l \<noteq> a ! s" "a ! ?r \<noteq> a ! s" "a ! ?l \<noteq> a ! ?r" "\<not> length a \<le> ?r"
      using neq [of ?l s] neq [of ?r s] neq [of ?l ?r] n by auto
    have R: ?thesis if "a ! s < a ! ?r" "a ! ?l < a ! ?r" "\<not> (a ! ?r < a ! s \<and> a ! ?l > a ! s)"
    proof -
      have "BalloonHeapPushDown a s n = BalloonHeapPushDown (SWAP_NODES a ?r s) ?r n"
        using that d True swapped [of ?r]
        by (subst BalloonHeapPushDown.simps) (auto simp: Let_def)
      then show ?thesis using rec [of ?r] that True by auto
    qed
    have L: ?thesis if "a ! s < a ! ?l" "a ! ?r < a ! ?l"
    proof -
      have "BalloonHeapPushDown a s n = BalloonHeapPushDown (SWAP_NODES a ?l s) ?l n"
        using that d True swapped [of ?l]
        by (subst BalloonHeapPushDown.simps) (auto simp: Let_def)
      then show ?thesis using rec [of ?l] that True by auto
    qed
    consider "a ! ?l < a ! s" "a ! ?r < a ! s" | "a ! s < a ! ?r" "a ! ?l < a ! ?r" | "a ! s < a ! ?l" "a ! ?r < a ! ?l"
      using max_of_three [OF d(1-3)] by blast
    then show ?thesis
    proof cases
      case 1
      have "BalloonHeapPushDown a s n = Inr a"
        using 1 d True by (subst BalloonHeapPushDown.simps) (simp add: Let_def)
      moreover have "heap_node a n s" using 1 by (auto simp: heap_node_def)
      ultimately show ?thesis using sifting_done [OF less.prems] by blast
    next
      case 2 then show ?thesis using R by (auto dest: order.asym)
    next
      case 3 then show ?thesis using L by blast
    qed
  next
    case r: False
    show ?thesis
    proof (cases "?l < n")
      case True
      then have d: "a ! ?l \<noteq> a ! s" "\<not> length a \<le> ?l" using neq [of ?l s] n by auto
      show ?thesis
      proof (cases "a ! ?l < a ! s")
        case lt: True
        have "BalloonHeapPushDown a s n = Inr a"
          using lt d True r by (subst BalloonHeapPushDown.simps) (simp add: Let_def)
        moreover have "heap_node a n s" using lt r by (auto simp: heap_node_def)
        ultimately show ?thesis using sifting_done [OF less.prems] by blast
      next
        case False
        with d have gt: "a ! s < a ! ?l" by simp
        have "BalloonHeapPushDown a s n = BalloonHeapPushDown (SWAP_NODES a ?l s) ?l n"
          using gt d True r swapped [of ?l] by (subst BalloonHeapPushDown.simps) (auto simp: Let_def)
        then show ?thesis using rec [of ?l] gt True r by auto
      qed
    next
      case False
      with r have "BalloonHeapPushDown a s n = Inr a"
        by (subst BalloonHeapPushDown.simps) (simp add: Let_def)
      moreover have "heap_node a n s" using False r by (auto simp: heap_node_def)
      ultimately show ?thesis using sifting_done [OF less.prems] by blast
    qed
  qed
qed

lemma BalloonCreateHeap_from_heap:
  "n \<le> length a \<Longrightarrow> distinct (take n a) \<Longrightarrow> i \<le> n \<Longrightarrow> \<forall>j \<ge> i. heap_node a n j \<Longrightarrow>
   \<exists>a'. BalloonCreateHeap_from i a n = Inr a' \<and> sifted a n 0 a'"
proof (induction i arbitrary: a)
  case 0
  then show ?case by (simp add: sifted_def)
next
  case (Suc i)
  have "sifting a n i i" using Suc.prems unfolding sifting_def by (auto simp: Suc_le_eq)
  then obtain b where b: "BalloonHeapPushDown a i n = Inr b" "sifted a n i b"
    using BalloonHeapPushDown_sifted by blast
  have len: "length b = length a" using b(2) by (metis sifted_def mset_eq_length)
  have d: "distinct (take n b)" using b(2) Suc.prems(2) by (metis sifted_def mset_eq_imp_distinct_iff)
  obtain a' where a': "BalloonCreateHeap_from i b n = Inr a'" "sifted b n 0 a'"
    using Suc.IH [of b] len d Suc.prems(1,3) b(2) unfolding sifted_def by auto
  have "sifted a n 0 a'"
    by (rule sifted_trans [OF _ _ _ a'(2)]) (use b(2) in \<open>simp_all add: sifted_def\<close>)
  with a'(1) b(1) show ?case by simp
qed

lemma heap_root_max:
  assumes "\<forall>j. heap_node a n j" and "i < n"
  shows "a ! i \<le> a ! 0"
  using assms(2)
proof (induction i rule: less_induct)
  case (less i)
  show ?case
  proof (cases i)
    case (Suc k)
    have "i \<in> {k div 2 * 2 + 1, k div 2 * 2 + 2}" using Suc by auto
    then have "a ! i < a ! (k div 2)" using assms(1) less.prems unfolding heap_node_def by blast
    also have "\<dots> \<le> a ! 0" using less Suc by auto
    finally show ?thesis by simp
  qed simp
qed

text \<open>The loop invariant of the second phase: a heap in front, the sorted greatest elements behind.\<close>

definition sort_inv :: "nat \<Rightarrow> u64 list \<Rightarrow> bool" where
  "sort_inv u a \<longleftrightarrow> u \<le> length a \<and> distinct a \<and> (\<forall>j. heap_node a u j) \<and> sorted_wrt (<) (drop u a) \<and>
     (\<forall>x \<in> set (take u a). \<forall>y \<in> set (drop u a). x < y)"

lemma swap_root:
  assumes "sort_inv (Suc v) a"
  defines "a1 \<equiv> SWAP_NODES a v 0"
  shows "sifting a1 v 0 0" and "mset a1 = mset a" and "drop v a1 = a ! 0 # drop (Suc v) a"
    and "\<forall>x \<in> set (take v a1). x < a ! 0 \<and> (\<forall>y \<in> set (drop (Suc v) a). x < y)"
proof -
  have v: "v < length a" "0 < length a" and d: "distinct a" and h: "\<forall>j. heap_node a (Suc v) j"
    using assms by (auto simp: sort_inv_def)
  note sw = SWAP_NODES_simps [OF v]
  show m: "mset a1 = mset a" using sw(5) by (simp add: a1_def)
  have "drop v a1 = a1 ! v # drop (Suc v) a1"
    using v sw(1) by (simp add: a1_def Cons_nth_drop_Suc)
  moreover have "drop (Suc v) a1 = drop (Suc v) a" using v by (simp add: a1_def SWAP_NODES_def)
  ultimately show dr: "drop v a1 = a ! 0 # drop (Suc v) a" using sw(2) by (simp add: a1_def)
  have d1: "distinct a1" using m d by (metis mset_eq_imp_distinct_iff)
  show "\<forall>x \<in> set (take v a1). x < a ! 0 \<and> (\<forall>y \<in> set (drop (Suc v) a). x < y)"
  proof
    fix x assume x: "x \<in> set (take v a1)"
    have "set (take v a1) \<inter> set (drop v a1) = {}" using d1 by (metis set_take_disj_set_drop_if_distinct order_refl)
    then have ne: "x \<noteq> a ! 0" using x dr by auto
    obtain i where i: "i < v" "x = a1 ! i" using x by (auto simp: in_set_conv_nth)
    have "x = (if i = 0 then a ! v else a ! i)" using i sw(3) sw(4) [of i] by (auto simp: a1_def)
    then have "x = a ! (if i = 0 then v else i)" by simp
    then obtain k where k: "k < Suc v" "x = a ! k" using i(1) that [of "if i = 0 then v else i"] by simp
    have "x < a ! 0" using heap_root_max [OF h k(1)] k(2) ne by simp
    moreover have "x \<in> set (take (Suc v) a)" using k v by (auto simp: in_set_conv_nth)
    ultimately show "x < a ! 0 \<and> (\<forall>y \<in> set (drop (Suc v) a). x < y)"
      using assms(1) by (auto simp: sort_inv_def)
  qed
  have "heap_node a1 v j" if "j \<noteq> 0" for j
    unfolding heap_node_def
  proof (intro ballI impI)
    fix c assume c: "c \<in> {j * 2 + 1, j * 2 + 2}" "c < v"
    then have "a1 ! c = a ! c" "a1 ! j = a ! j" using that sw(4) [of c] sw(4) [of j] by (auto simp: a1_def)
    then show "a1 ! c < a1 ! j" using h c unfolding heap_node_def by (metis less_SucI)
  qed
  then show "sifting a1 v 0 0"
    using v d1 sw(1) by (auto simp: sifting_def a1_def distinct_take)
qed

lemma Sort_loop_sorts:
  "sort_inv u a \<Longrightarrow> \<exists>a'. Sort_loop u a = Inr a' \<and> sorted_wrt (<) a' \<and> mset a' = mset a"
proof (induction u arbitrary: a)
  case 0
  then show ?case by (simp add: sort_inv_def)
next
  case (Suc v)
  define a1 where "a1 = SWAP_NODES a v 0"
  note sw = swap_root [OF Suc.prems, folded a1_def]
  obtain b where b: "BalloonHeapPushDown a1 0 v = Inr b" "sifted a1 v 0 b"
    using BalloonHeapPushDown_sifted [OF sw(1)] by blast
  have m: "mset b = mset a" "drop v b = a ! 0 # drop (Suc v) a" "set (take v b) = set (take v a1)"
    using b(2) sw(2,3) by (auto simp: sifted_def dest: mset_eq_setD)
  have "sort_inv v b"
    unfolding sort_inv_def
  proof (intro conjI)
    show "v \<le> length b" "distinct b"
      using Suc.prems m(1) mset_eq_length [OF m(1)] by (auto simp: sort_inv_def dest: mset_eq_imp_distinct_iff)
    show "\<forall>j. heap_node b v j" using b(2) by (simp add: sifted_def)
    have "a ! 0 \<in> set (take (Suc v) a)" using Suc.prems by (cases a) (auto simp: sort_inv_def)
    then show "sorted_wrt (<) (drop v b)" using Suc.prems by (auto simp: m(2) sort_inv_def)
    show "\<forall>x \<in> set (take v b). \<forall>y \<in> set (drop v b). x < y" using sw(4) by (auto simp: m(2,3))
  qed
  from Suc.IH [OF this] show ?case
    using b(1) m(1) by (simp add: a1_def SWAP_NODES_def)
qed

lemma BalloonSortPfnArray_sort:
  assumes "distinct Array"
  shows "BalloonSortPfnArray Array (length Array) = Inr (sort Array)"
proof -
  have "\<forall>j \<ge> length Array. heap_node Array (length Array) j" by (auto simp: heap_node_def)
  then obtain a where a: "BalloonCreateHeap Array (length Array) = Inr a" "sifted Array (length Array) 0 a"
    using BalloonCreateHeap_from_heap [of "length Array" Array "length Array"] assms
    by (auto simp: BalloonCreateHeap_def)
  have len: "length a = length Array" using a(2) by (metis sifted_def mset_eq_length)
  have "distinct a" using a(2) assms by (metis sifted_def mset_eq_imp_distinct_iff)
  then have "sort_inv (length Array) a" using a(2) len by (auto simp: sort_inv_def sifted_def)
  then obtain b where b: "Sort_loop (length Array) a = Inr b" "sorted_wrt (<) b" "mset b = mset a"
    using Sort_loop_sorts by blast
  have "sorted b" using b(2) by (simp add: strict_sorted_imp_sorted)
  then have "b = sort Array" using b(3) a(2) by (metis sifted_def properties_for_sort)
  then show ?thesis using a(1) b(1) by (simp add: BalloonSortPfnArray_def)
qed

lemma BalloonSortPfnArray_eval:
  assumes "distinct Array"
  shows "\<exists>A. BalloonSortPfnArray Array (length Array) = Inr A \<and> set A = set Array \<and> distinct A \<and> length A = length Array"
  using BalloonSortPfnArray_sort [OF assms] assms by simp

text \<open>C36: The heap sort of the page array sorts it: for pairwise different pages no assertion fails and
  the result is the array in ascending order.\<close>

theorem BalloonSortPfnArray_sorts:
  assumes "distinct Array"
  shows "BalloonSortPfnArray Array (length Array) = Inr (sort Array)"
  by (rule BalloonSortPfnArray_sort [OF assms])

theorem BalloonSortPfnArray_sorts_witness:
  "BalloonSortPfnArray [7, 3, 9, 1] (length [7, 3, 9, 1 :: u64]) = Inr (sort [7, 3, 9, 1])"
  by (rule BalloonSortPfnArray_sorts) simp

section \<open>What the balloon relies on\<close>

text \<open>Windows hands out pairwise different pages, never page 0, never more than asked for and never a page
  the driver holds.\<close>

definition windows_ok :: "benv \<Rightarrow> bool" where
  "windows_ok E \<longleftrightarrow> (\<forall>n k rs a. mm_alloc E n k rs = Some a \<longrightarrow>
     distinct a \<and> length a \<le> k \<and> 0 \<notin> set a \<and> set a \<inter> rs_set rs = {})"

text \<open>Xen populates at most the pages asked for, and those are then backed by RAM; it takes back every page
  it is offered.  The pool allocator has memory.\<close>

definition xen_ok :: "benv \<Rightarrow> bool" where
  "xen_ok E \<longleftrightarrow> (\<forall>n ps. unat (populate_physmap E n ps) \<le> length ps) \<and>
     (\<forall>n ps. decrease_reservation E n ps = of_nat (length ps)) \<and> (\<forall>n p. ram E n p) \<and> (\<forall>n k. pool E n k)"

section \<open>One array of pages\<close>

abbreviation held :: "balloon \<Rightarrow> u64 set" where
  "held b \<equiv> rs_set (PfnsBalloonedOut b)"

text \<open>The part of the invariant that holds throughout a turn, and what a turn does not change.\<close>

definition pages_ok :: "balloon \<Rightarrow> bool" where
  "pages_ok b \<longleftrightarrow> rs_ok (PfnsBalloonedOut b) \<and> 0 \<notin> held b \<and> length (PfnArray b) = BALLOON_PFN_ARRAY_SIZE \<and>
     AllocatorInitialized b"

definition same_goal :: "balloon \<Rightarrow> balloon \<Rightarrow> bool" where
  "same_goal b b' \<longleftrightarrow> CurrentPages b' = CurrentPages b \<and> TargetPages b' = TargetPages b \<and>
     MaxPages b' = MaxPages b \<and> Frozen b' = Frozen b \<and> Active b' = Active b \<and> Advertized b' = Advertized b \<and>
     FIST_inflation b' = FIST_inflation b \<and> FIST_deflation b' = FIST_deflation b \<and>
     Initialized b' = Initialized b"

lemma same_goal_refl [simp]: "same_goal b b"
  by (simp add: same_goal_def)

lemma same_goal_trans: "same_goal b c \<Longrightarrow> same_goal c d \<Longrightarrow> same_goal b d"
  by (simp add: same_goal_def)

definition freed :: "balloon \<Rightarrow> u64 list" where
  "freed b = concat (map (\<lambda>e. case e of MmFreePages ps \<Rightarrow> ps | _ \<Rightarrow> []) (blog b))"

lemma DropRseCache_ok [simp]:
  "rs_ok (RangeSetDropRseCache rs) = rs_ok rs" "rs_set (RangeSetDropRseCache rs) = rs_set rs"
  "RangeSetItems (RangeSetDropRseCache rs) = RangeSetItems rs" "NrItems (RangeSetDropRseCache rs) = NrItems rs"
  by (simp_all add: RangeSetDropRseCache_def rs_ok_def rs_inv_def rs_count_def rs_set_def RangeSetItems_def)

lemma zero_pfns_simps [simp]:
  "PfnsBalloonedOut (zero_pfns n b) = PfnsBalloonedOut b" "same_goal b (zero_pfns n b')= same_goal b b'"
  "freed (zero_pfns n b) = freed b" "AllocatorInitialized (zero_pfns n b) = AllocatorInitialized b"
  "n \<le> length (PfnArray b) \<Longrightarrow> length (PfnArray (zero_pfns n b)) = length (PfnArray b)"
  by (simp_all add: zero_pfns_def same_goal_def freed_def)

lemma pages_ok_zero [simp]: "n \<le> BALLOON_PFN_ARRAY_SIZE \<Longrightarrow> pages_ok b \<Longrightarrow> pages_ok (zero_pfns n b)"
  by (auto simp: pages_ok_def)

lemma BalloonAllocatePfnArray_spec:
  assumes "pages_ok b" and "windows_ok E" and "k \<le> BALLOON_PFN_ARRAY_SIZE"
  shows "\<exists>slow n b'. BalloonAllocatePfnArray E b k = Inr (slow, n, b') \<and> n \<le> k \<and> pages_ok b' \<and> same_goal b b' \<and>
    PfnsBalloonedOut b' = PfnsBalloonedOut b \<and> freed b' = freed b \<and> distinct (take n (PfnArray b')) \<and>
    length (take n (PfnArray b')) = n \<and> 0 \<notin> set (take n (PfnArray b')) \<and> set (take n (PfnArray b')) \<inter> held b = {}"
proof (cases "mm_alloc E (calls b) k (PfnsBalloonedOut b)")
  case None
  then show ?thesis using assms
    by (simp add: BalloonAllocatePfnArray_def pages_ok_def bump_def same_goal_def freed_def Let_def)
next
  case (Some a)
  then have a: "distinct a" "length a \<le> k" "0 \<notin> set a" "set a \<inter> held b = {}"
    using assms(2) by (auto simp: windows_ok_def)
  obtain A where A: "BalloonSortPfnArray a (length a) = Inr A" "set A = set a" "distinct A" "length A = length a"
    using BalloonSortPfnArray_eval [OF a(1)] by blast
  then show ?thesis using Some assms a
    by (auto simp: BalloonAllocatePfnArray_def pages_ok_def bump_def same_goal_def freed_def Let_def)
qed

lemma BalloonReleasePfnArray_spec:
  assumes "pages_ok b" and "xen_ok E" and "k \<le> BALLOON_PFN_ARRAY_SIZE"
    and items: "distinct (take k (PfnArray b))" "0 \<notin> set (take k (PfnArray b))"
      "set (take k (PfnArray b)) \<inter> held b = {}"
  shows "\<exists>slow b'. BalloonReleasePfnArray E b k = Some (Inr (slow, k, b')) \<and> pages_ok b' \<and> same_goal b b' \<and>
    freed b' = freed b \<and> held b' = held b \<union> set (take k (PfnArray b))"
proof (cases "k = 0")
  case True
  then show ?thesis using assms(1)
    by (simp add: BalloonReleasePfnArray_def Let_def pages_ok_def bump_def same_goal_def freed_def)
next
  case False
  define xs where "xs = take k (PfnArray b)"
  have len: "length xs = k" using assms(1,3) by (simp add: xs_def pages_ok_def)
  obtain rs where rs: "RangeSetAddItems (pool E (calls b)) (PfnsBalloonedOut b) xs = Inr (k, rs)"
      "rs_ok rs" "rs_set rs = held b \<union> set xs"
    using rs.add_items_law [of "PfnsBalloonedOut b" xs "pool E (calls b)" 0] assms(1,2) items len
    by (auto simp: RangeSetAddItems_def xs_def [symmetric] pages_ok_def xen_ok_def)
  have "unat (of_nat k :: u32) = k" by (rule unat_of_nat_lt) (use assms(3) in simp)
  then show ?thesis using False rs items assms(1,2,3) len
    by (auto simp: BalloonReleasePfnArray_def Let_def bump_def xs_def [symmetric] xen_ok_def pages_ok_def
        same_goal_def freed_def zero_pfns_def)
qed

lemma BalloonFreePfnArray_spec:
  assumes "pages_ok b" and "xen_ok E" and "k \<le> BALLOON_PFN_ARRAY_SIZE" and "0 \<notin> set (take k (PfnArray b))"
  shows "\<exists>slow b'. BalloonFreePfnArray E b k check = Inr (slow, k, b') \<and> pages_ok b' \<and> same_goal b b' \<and>
    freed b' = take k (PfnArray b) @ freed b \<and> PfnsBalloonedOut b' = PfnsBalloonedOut b"
proof -
  have "page_reads (ram E m) i p = of_nat i" for m i p using assms(2) by (simp add: page_reads_def xen_ok_def)
  then have "BalloonFreePagesFromMdl E c ps check = Inr (emit (MmFreePages ps) c)" for c ps
    by (simp add: BalloonFreePagesFromMdl_def list_all_iff split_beta)
  then show ?thesis using assms(1,3,4)
    by (auto simp: BalloonFreePfnArray_def Let_def bump_def pages_ok_def same_goal_def freed_def emit_def zero_pfns_def)
qed

lemma BalloonPopulatePfnArray_spec:
  assumes "pages_ok b" and "xen_ok E" and "k \<le> BALLOON_PFN_ARRAY_SIZE" and "k \<le> card (held b)"
  shows "\<exists>slow n b'. BalloonPopulatePfnArray E b k = Inr (slow, n, b') \<and> n \<le> k \<and> pages_ok b' \<and> same_goal b b' \<and>
    freed b' = freed b \<and> length (take n (PfnArray b')) = n \<and> distinct (take n (PfnArray b')) \<and>
    set (take n (PfnArray b')) \<subseteq> held b \<and> held b' = held b - set (take n (PfnArray b'))"
proof -
  obtain out rs where out: "RangeSetPopMany (PfnsBalloonedOut b) k = Inr (out, rs)" "length out = k" "rs_ok rs"
      "sorted_wrt (<) out" "set out \<subseteq> held b" "rs_set rs = held b - set out"
    using rs.pop_many_law [of "PfnsBalloonedOut b" k] assms(1,4) by (auto simp: pages_ok_def)
  have d: "distinct out" using out(4) by (simp add: strict_sorted_iff)
  define n where "n = unat (populate_physmap E (calls b) out)"
  have n: "n \<le> k" using assms(2) unfolding n_def xen_ok_def out(2) [symmetric] by blast
  have split: "set out = set (take n out) \<union> set (drop n out)" "set (take n out) \<inter> set (drop n out) = {}"
    using d by (metis append_take_drop_id set_append, metis set_take_disj_set_drop_if_distinct order_refl)
  have arr: "length (out @ drop k (PfnArray b)) = BALLOON_PFN_ARRAY_SIZE" "take n (out @ drop k (PfnArray b)) = take n out"
    using assms(1,3) n out(2) by (simp_all add: pages_ok_def)
  show ?thesis
  proof (cases "n < k")
    case True
    have "set (drop n out) \<inter> rs_set rs = {}" using out(6) set_drop_subset [of n out] by auto
    then obtain rs' where rs': "RangeSetAddItems (pool E (calls b)) rs (drop n out) = Inr (k - n, rs')" "rs_ok rs'"
        "rs_set rs' = rs_set rs \<union> set (drop n out)"
      using rs.add_items_law [of rs "drop n out" "pool E (calls b)" 0] out(2,3) d assms(2)
      by (auto simp: RangeSetAddItems_def xen_ok_def)
    have "rs_set rs' = held b - set (take n out)" using rs'(3) out(5,6) split by auto
    then show ?thesis using True out(1,2,5) rs'(1,2) n_def n arr d assms(1,3) split
      by (auto simp: BalloonPopulatePfnArray_def Let_def bump_def pages_ok_def same_goal_def freed_def)
  next
    case False
    then have "n = k" using n by simp
    then show ?thesis using out n_def arr d assms(1,3)
      by (auto simp: BalloonPopulatePfnArray_def Let_def bump_def pages_ok_def same_goal_def freed_def)
  qed
qed

section \<open>Deflating\<close>

lemma finite_held [simp]: "finite (held b)"
  by (rule rs.finite_elems)

text \<open>The pages \<open>ps\<close> left the balloon for Windows.\<close>

definition given_back :: "balloon \<Rightarrow> u64 list \<Rightarrow> balloon \<Rightarrow> bool" where
  "given_back b ps b' \<longleftrightarrow> pages_ok b' \<and> same_goal b b' \<and> distinct ps \<and> set ps \<subseteq> held b \<and>
     held b' = held b - set ps \<and> mset (freed b') = mset ps + mset (freed b)"

lemma given_back_trans:
  assumes "given_back b ps c" and "given_back c qs d"
  shows "given_back b (ps @ qs) d"
  using assms same_goal_trans [of b c d] by (auto simp: given_back_def)

lemma BalloonDeflate_once:
  assumes "pages_ok b" and "xen_ok E" and "k \<le> BALLOON_PFN_ARRAY_SIZE" and "k \<le> card (held b)"
  obtains slow1 slow2 n c d where "BalloonPopulatePfnArray E b k = Inr (slow1, n, c)" and "n \<le> k"
    and "BalloonFreePfnArray E c n True = Inr (slow2, n, d)"
    and "\<exists>ps. length ps = n \<and> given_back b ps (zero_pfns BALLOON_PFN_ARRAY_SIZE d)"
proof -
  obtain slow1 n c where p: "BalloonPopulatePfnArray E b k = Inr (slow1, n, c)" "n \<le> k" "pages_ok c"
      "same_goal b c" "freed c = freed b" "length (take n (PfnArray c)) = n" "distinct (take n (PfnArray c))"
      "set (take n (PfnArray c)) \<subseteq> held b" "held c = held b - set (take n (PfnArray c))"
    using BalloonPopulatePfnArray_spec [OF assms] by (elim exE conjE) (rule that)
  have "0 \<notin> set (take n (PfnArray c))" using p(8) assms(1) by (auto simp: pages_ok_def)
  then obtain slow2 d where f: "BalloonFreePfnArray E c n True = Inr (slow2, n, d)" "pages_ok d" "same_goal c d"
      "freed d = take n (PfnArray c) @ freed c" "PfnsBalloonedOut d = PfnsBalloonedOut c"
    using BalloonFreePfnArray_spec [OF p(3) assms(2), of n True] p(2) assms(3) by auto
  have "given_back b (take n (PfnArray c)) (zero_pfns BALLOON_PFN_ARRAY_SIZE d)"
    using p f same_goal_trans [OF p(4) f(3)] by (simp add: given_back_def)
  then show ?thesis using that p(1,2,6) f(1) by blast
qed

lemma BalloonDeflate_loop_spec:
  "pages_ok b \<Longrightarrow> xen_ok E \<Longrightarrow> Returned \<le> Requested \<Longrightarrow> Requested - Returned \<le> card (held b) \<Longrightarrow>
   \<exists>n b' ps. BalloonDeflate_loop E Requested Returned b = Inr (n, b') \<and> n \<le> Requested \<and>
     Returned + length ps = n \<and> given_back b ps b'"
proof (induction "Requested - Returned" arbitrary: Returned b rule: less_induct)
  case less
  show ?case
  proof (cases "Returned < Requested")
    case False
    then show ?thesis using less.prems(1,3)
      by (intro exI [of _ Returned] exI [of _ b] exI [of _ "[]"])
        (simp add: BalloonDeflate_loop.simps given_back_def)
  next
    case True
    define k where "k = min (Requested - Returned) BALLOON_PFN_ARRAY_SIZE"
    have k: "0 < k" "k \<le> BALLOON_PFN_ARRAY_SIZE" "k \<le> Requested - Returned" "k \<le> card (held b)"
      using True less.prems(4) by (auto simp: k_def)
    obtain slow1 slow2 n c d ps where o: "BalloonPopulatePfnArray E b k = Inr (slow1, n, c)" "n \<le> k"
        "BalloonFreePfnArray E c n True = Inr (slow2, n, d)" "length ps = n"
        "given_back b ps (zero_pfns BALLOON_PFN_ARRAY_SIZE d)"
      using BalloonDeflate_once [OF less.prems(1,2) k(2,4)] by metis
    define e where "e = zero_pfns BALLOON_PFN_ARRAY_SIZE d"
    have unf: "BalloonDeflate_loop E Requested Returned b =
        (if slow1 \<or> n < k \<or> slow2 then Inr (Returned + n, e) else BalloonDeflate_loop E Requested (Returned + n) e)"
      using True o(1,3) by (subst BalloonDeflate_loop.simps) (simp add: k_def [symmetric] e_def Let_def)
    show ?thesis
    proof (cases "slow1 \<or> n < k \<or> slow2")
      case True
      then show ?thesis using unf o(2,4,5) k(3) \<open>Returned < Requested\<close>
        by (intro exI [of _ "Returned + n"] exI [of _ e] exI [of _ ps]) (auto simp: e_def)
    next
      case False
      then have n: "n = k" using o(2) by simp
      have e: "pages_ok e" "card (held e) = card (held b) - n"
        using o(4,5) by (simp_all add: given_back_def e_def [symmetric] card_Diff_subset distinct_card)
      have h: "Requested - (Returned + n) < Requested - Returned" "Returned + n \<le> Requested"
        "Requested - (Returned + n) \<le> card (held e)"
        using k n e(2) less.prems(3,4) by linarith+
      obtain m b' qs where r: "BalloonDeflate_loop E Requested (Returned + n) e = Inr (m, b')" "m \<le> Requested"
          "Returned + n + length qs = m" "given_back e qs b'"
        using less.hyps [OF h(1) e(1) less.prems(2) h(2,3)] by (elim exE conjE) (rule that)
      show ?thesis
        using r False unf o(4) given_back_trans [OF o(5) [folded e_def] r(4)]
        by (intro exI [of _ m] exI [of _ b'] exI [of _ "ps @ qs"]) auto
    qed
  qed
qed

lemma BalloonDeflate_spec:
  assumes "pages_ok b" and "xen_ok E" and "\<not> Frozen b" and "Requested \<le> card (held b)"
  shows "\<exists>n b' ps. BalloonDeflate E b Requested = Inr (n, b') \<and> n \<le> Requested \<and> length ps = n \<and> given_back b ps b'"
proof (cases "FIST_deflation b")
  case True
  then show ?thesis using assms(1,3)
    by (intro exI [of _ 0] exI [of _ b] exI [of _ "[]"]) (simp add: BalloonDeflate_def given_back_def)
next
  case False
  obtain n b' ps where "BalloonDeflate_loop E Requested 0 b = Inr (n, b')" "n \<le> Requested" "0 + length ps = n"
      "given_back b ps b'"
    using BalloonDeflate_loop_spec [OF assms(1,2), of 0 Requested] assms(4) by auto
  then show ?thesis using False assms(3)
    by (intro exI [of _ n] exI [of _ b'] exI [of _ ps]) (auto simp: BalloonDeflate_def)
qed

text \<open>Deflating never bug checks and gives at most the requested number of pages back to Windows: pairwise
  different pages that the balloon held, which it no longer holds afterwards, and no others.\<close>

theorem BalloonDeflate_correct:
  assumes "pages_ok b" and "xen_ok E" and "\<not> Frozen b" and "Requested \<le> card (held b)"
  shows "\<exists>n b' ps. BalloonDeflate E b Requested = Inr (n, b') \<and> n \<le> Requested \<and> length ps = n \<and>
    distinct ps \<and> set ps \<subseteq> held b \<and> held b' = held b - set ps \<and> mset (freed b') = mset ps + mset (freed b) \<and>
    pages_ok b' \<and> same_goal b b'"
  using BalloonDeflate_spec [OF assms] by (auto simp: given_back_def)

section \<open>Inflating\<close>

text \<open>The pages \<open>ps\<close> of Windows went into the balloon.\<close>

definition taken_in :: "balloon \<Rightarrow> u64 list \<Rightarrow> balloon \<Rightarrow> bool" where
  "taken_in b ps b' \<longleftrightarrow> pages_ok b' \<and> same_goal b b' \<and> distinct ps \<and> set ps \<inter> held b = {} \<and>
     held b' = held b \<union> set ps \<and> freed b' = freed b"

lemma taken_in_trans:
  assumes "taken_in b ps c" and "taken_in c qs d"
  shows "taken_in b (ps @ qs) d"
  using assms same_goal_trans [of b c d] by (auto simp: taken_in_def)

lemma Inflate_once_spec:
  assumes "pages_ok b" and "windows_ok E" and "xen_ok E" and "k \<le> BALLOON_PFN_ARRAY_SIZE"
  shows "\<exists>abort n b' ps. Inflate_once E k b = Some (Inr (abort, n, b')) \<and> n \<le> k \<and> length ps = n \<and> taken_in b ps b'"
proof -
  obtain slow1 n c where a: "BalloonAllocatePfnArray E b k = Inr (slow1, n, c)" "n \<le> k" "pages_ok c" "same_goal b c"
      "PfnsBalloonedOut c = PfnsBalloonedOut b" "freed c = freed b" "distinct (take n (PfnArray c))"
      "length (take n (PfnArray c)) = n" "0 \<notin> set (take n (PfnArray c))" "set (take n (PfnArray c)) \<inter> held b = {}"
    using BalloonAllocatePfnArray_spec [OF assms(1,2,4)] by (elim exE conjE) (rule that)
  obtain slow2 d where r: "BalloonReleasePfnArray E c n = Some (Inr (slow2, n, d))" "pages_ok d" "same_goal c d"
      "freed d = freed c" "held d = held c \<union> set (take n (PfnArray c))"
    using BalloonReleasePfnArray_spec [OF a(3) assms(3), of n] a assms(4) by auto
  have "taken_in b (take n (PfnArray c)) (zero_pfns BALLOON_PFN_ARRAY_SIZE d)"
    using a r same_goal_trans [OF a(4) r(3)] by (simp add: taken_in_def)
  moreover have "Inflate_once E k b = Some (Inr (slow1 \<or> n < k \<or> slow2, n, zero_pfns BALLOON_PFN_ARRAY_SIZE d))"
    using a(1) r(1) by (simp add: Inflate_once_def Inflate_free_rest_def)
  ultimately show ?thesis using a(2,8) by blast
qed

lemma BalloonInflate_loop_spec:
  "pages_ok b \<Longrightarrow> windows_ok E \<Longrightarrow> xen_ok E \<Longrightarrow> Acquired \<le> Requested \<Longrightarrow>
   \<exists>n b' ps. BalloonInflate_loop E Requested Acquired b = Some (Inr (n, b')) \<and> n \<le> Requested \<and>
     Acquired + length ps = n \<and> taken_in b ps b'"
proof (induction "Requested - Acquired" arbitrary: Acquired b rule: less_induct)
  case less
  show ?case
  proof (cases "Acquired < Requested")
    case False
    then show ?thesis using less.prems(1,4)
      by (intro exI [of _ Acquired] exI [of _ b] exI [of _ "[]"])
        (simp add: BalloonInflate_loop.simps taken_in_def)
  next
    case True
    define k where "k = min (Requested - Acquired) BALLOON_PFN_ARRAY_SIZE"
    have k: "0 < k" "k \<le> BALLOON_PFN_ARRAY_SIZE" "k \<le> Requested - Acquired" using True by (auto simp: k_def)
    obtain abort n c ps where o: "Inflate_once E k b = Some (Inr (abort, n, c))" "n \<le> k" "length ps = n"
        "taken_in b ps c"
      using Inflate_once_spec [OF less.prems(1-3) k(2)] by blast
    have unf: "BalloonInflate_loop E Requested Acquired b =
        (if abort then Some (Inr (Acquired + n, c)) else BalloonInflate_loop E Requested (Acquired + n) c)"
      using True o(1) by (subst BalloonInflate_loop.simps) (simp add: k_def)
    show ?thesis
    proof (cases abort)
      case True
      then show ?thesis using unf o(2-4) k(3) \<open>Acquired < Requested\<close>
        by (intro exI [of _ "Acquired + n"] exI [of _ c] exI [of _ ps]) auto
    next
      case False
      then have n: "0 < n" using Inflate_once_progress [of E k b n c] o(1) k(1) by simp
      have c: "pages_ok c" using o(4) by (simp add: taken_in_def)
      have h: "Requested - (Acquired + n) < Requested - Acquired" "Acquired + n \<le> Requested"
        using n k(3) o(2) True less.prems(4) by linarith+
      obtain m b' qs where r: "BalloonInflate_loop E Requested (Acquired + n) c = Some (Inr (m, b'))" "m \<le> Requested"
          "Acquired + n + length qs = m" "taken_in c qs b'"
        using less.hyps [OF h(1) c less.prems(2,3) h(2)] by (elim exE conjE) (rule that)
      show ?thesis
        using r False unf o(3) taken_in_trans [OF o(4) r(4)]
        by (intro exI [of _ m] exI [of _ b'] exI [of _ "ps @ qs"]) auto
    qed
  qed
qed

lemma PodSweep_ok [simp]: "pages_ok (BalloonPodSweep b) = pages_ok b" "freed (BalloonPodSweep b) = freed b"
  "PfnsBalloonedOut (BalloonPodSweep b) = PfnsBalloonedOut b" "same_goal (BalloonPodSweep b) c = same_goal b c"
  by (simp_all add: BalloonPodSweep_def emit_def pages_ok_def freed_def same_goal_def)

lemma BalloonInflate_spec:
  assumes "pages_ok b" and "windows_ok E" and "xen_ok E" and "\<not> Frozen b"
  shows "\<exists>n b' ps. BalloonInflate E b Requested = Some (Inr (n, b')) \<and> n \<le> Requested \<and> length ps = n \<and> taken_in b ps b'"
proof (cases "FIST_inflation b")
  case True
  then show ?thesis using assms(1,4)
    by (intro exI [of _ 0] exI [of _ b] exI [of _ "[]"]) (simp add: BalloonInflate_def taken_in_def)
next
  case False
  define c where "c = (if has_alloc_ex E then BalloonPodSweep b else b)"
  have c: "pages_ok c" using assms(1) by (simp add: c_def)
  obtain n b' ps where r: "BalloonInflate_loop E Requested 0 c = Some (Inr (n, b'))" "n \<le> Requested" "0 + length ps = n"
      "taken_in c ps b'"
    using BalloonInflate_loop_spec [OF c assms(2,3), of 0 Requested] by auto
  moreover have "taken_in b ps b'" using r(4) by (simp add: taken_in_def c_def split: if_splits)
  moreover have "AllocatorInitialized b" using assms(1) by (simp add: pages_ok_def)
  ultimately show ?thesis using False assms(4)
    by (intro exI [of _ n] exI [of _ b'] exI [of _ ps]) (simp add: BalloonInflate_def c_def)
qed


section \<open>The worker thread\<close>

definition balloon_ok :: "balloon \<Rightarrow> bool" where
  "balloon_ok b \<longleftrightarrow> pages_ok b \<and> CurrentPages b \<le> MaxPages b \<and> TargetPages b \<le> MaxPages b \<and>
     card (held b) = unat (MaxPages b - CurrentPages b)"

text \<open>\<open>CurrentPages\<close> has moved towards \<open>TargetPages\<close> and not past it.\<close>

definition towards :: "balloon \<Rightarrow> balloon \<Rightarrow> bool" where
  "towards b b' \<longleftrightarrow> TargetPages b' = TargetPages b \<and> MaxPages b' = MaxPages b \<and>
     (if TargetPages b \<le> CurrentPages b
      then TargetPages b \<le> CurrentPages b' \<and> CurrentPages b' \<le> CurrentPages b
      else CurrentPages b \<le> CurrentPages b' \<and> CurrentPages b' \<le> TargetPages b)"

lemma of_nat_le_word: "n \<le> unat (x :: u32) \<Longrightarrow> unat (of_nat n :: u32) = n"
  using unat_bound [of x] by (intro unat_of_nat_lt) simp

lemma resize_ok:
  assumes "pages_ok c" and "same_goal b c" and "unat (TargetPages b) \<le> unat (MaxPages b)"
    and "unat cur \<le> unat (MaxPages b)" and "card (held c) = unat (MaxPages b) - unat cur"
    and "if TargetPages b \<le> CurrentPages b then TargetPages b \<le> cur \<and> cur \<le> CurrentPages b
         else CurrentPages b \<le> cur \<and> cur \<le> TargetPages b"
  defines "b' \<equiv> c\<lparr>CurrentPages := cur\<rparr>"
  shows "balloon_ok b' \<and> towards b b' \<and> Active b' = Active b \<and> Frozen b' = Frozen b \<and> Advertized b' = Advertized b"
proof -
  have "unat (MaxPages b - cur) = unat (MaxPages b) - unat cur" using assms(4) by (simp add: unat_sub word_le_nat_alt)
  then have "balloon_ok b'"
    using assms(1-5) unfolding balloon_ok_def b'_def same_goal_def pages_ok_def word_le_nat_alt by simp
  moreover have "towards b b'" using assms(2,6) unfolding towards_def b'_def same_goal_def by simp
  ultimately show ?thesis using assms(2) by (simp add: b'_def same_goal_def)
qed

lemma Worker_adjust_spec:
  assumes ok: "balloon_ok b" and E: "windows_ok E" "xen_ok E" and "\<not> Frozen b"
  shows "\<exists>b'. Worker_adjust E b = Some (Inr b') \<and> balloon_ok b' \<and> towards b b' \<and> Active b' = Active b \<and>
    Frozen b' = Frozen b \<and> Advertized b' = Advertized b"
proof -
  note u = word_le_nat_alt word_less_nat_alt
  have pg: "pages_ok b" and cur: "unat (CurrentPages b) \<le> unat (MaxPages b)" "unat (TargetPages b) \<le> unat (MaxPages b)"
    and hc: "card (held b) = unat (MaxPages b) - unat (CurrentPages b)"
    using ok by (simp_all add: balloon_ok_def u unat_sub)
  consider (inflate) "TargetPages b < CurrentPages b" | (deflate) "CurrentPages b < TargetPages b"
    | (reached) "TargetPages b = CurrentPages b" by fastforce
  then show ?thesis
  proof cases
    case inflate
    then have diff: "unat (CurrentPages b - TargetPages b) = unat (CurrentPages b) - unat (TargetPages b)"
      by (simp add: unat_sub)
    obtain n c ps where r: "BalloonInflate E b (unat (CurrentPages b - TargetPages b)) = Some (Inr (n, c))"
        "n \<le> unat (CurrentPages b - TargetPages b)" "length ps = n" "taken_in b ps c"
      using BalloonInflate_spec [OF pg E assms(4)] by metis
    define b' where "b' = c\<lparr>CurrentPages := CurrentPages c - of_nat n\<rparr>"
    have n: "unat (of_nat n :: u32) = n" "n \<le> unat (CurrentPages b)" using of_nat_le_word [OF r(2)] r(2) diff by simp_all
    then have cn: "unat (CurrentPages b - of_nat n) = unat (CurrentPages b) - n" by (simp add: unat_sub u)
    have same: "pages_ok c" "same_goal b c" "CurrentPages c = CurrentPages b"
      using r(4) by (simp_all add: taken_in_def same_goal_def)
    have "card (held c) = card (held b) + n"
      using r(3,4) by (simp add: taken_in_def card_Un_disjoint distinct_card Int_commute)
    then have "balloon_ok b' \<and> towards b b' \<and> Active b' = Active b \<and> Frozen b' = Frozen b \<and> Advertized b' = Advertized b"
      unfolding b'_def same(3) by (rule_tac resize_ok [OF same(1,2) cur(2)])
        (use cn n cur hc r(2) diff inflate in \<open>simp_all add: u\<close>)
    moreover have "Worker_adjust E b = Some (Inr b')" using inflate r(1) by (simp add: Worker_adjust_def b'_def)
    ultimately show ?thesis by blast
  next
    case deflate
    then have diff: "unat (TargetPages b - CurrentPages b) = unat (TargetPages b) - unat (CurrentPages b)"
      by (simp add: unat_sub)
    have req: "unat (TargetPages b - CurrentPages b) \<le> card (held b)" using diff cur hc by linarith
    obtain n c ps where r: "BalloonDeflate E b (unat (TargetPages b - CurrentPages b)) = Inr (n, c)"
        "n \<le> unat (TargetPages b - CurrentPages b)" "length ps = n" "given_back b ps c"
      using BalloonDeflate_spec [OF pg E(2) assms(4) req] by metis
    define b' where "b' = c\<lparr>CurrentPages := CurrentPages c + of_nat n\<rparr>"
    have n: "unat (of_nat n :: u32) = n" using r(2) of_nat_le_word by blast
    have le: "unat (CurrentPages b) + n \<le> unat (TargetPages b)" using r(2) diff deflate by (simp add: u)
    then have cn: "unat (CurrentPages b + of_nat n) = unat (CurrentPages b) + n"
      using unat_bound [of "TargetPages b"] n by (simp add: unat_word_ariths)
    have same: "pages_ok c" "same_goal b c" "CurrentPages c = CurrentPages b"
      using r(4) by (simp_all add: given_back_def same_goal_def)
    have "card (held c) = card (held b) - n"
      using r(3,4) by (simp add: given_back_def card_Diff_subset distinct_card)
    then have "balloon_ok b' \<and> towards b b' \<and> Active b' = Active b \<and> Frozen b' = Frozen b \<and> Advertized b' = Advertized b"
      unfolding b'_def same(3) by (rule_tac resize_ok [OF same(1,2) cur(2)])
        (use cn le cur hc deflate in \<open>simp_all add: u\<close>)
    moreover have "Worker_adjust E b = Some (Inr b')"
      using deflate r(1) less_not_sym [OF deflate] by (simp add: Worker_adjust_def b'_def)
    ultimately show ?thesis by blast
  next
    case reached
    then show ?thesis using ok by (simp add: Worker_adjust_def towards_def)
  qed
qed

lemma emit_ok [simp]:
  "balloon_ok (emit e b) = balloon_ok b" "Frozen (emit e b) = Frozen b" "towards b (emit e b') = towards b b'"
  "towards (emit e b) b' = towards b b'" "CurrentPages (emit e b) = CurrentPages b" "TargetPages (emit e b) = TargetPages b"
  "Advertized (emit e b) = Advertized b" "Active (emit e b) = Active b"
  by (simp_all add: emit_def balloon_ok_def pages_ok_def towards_def)

lemma flags_ok [simp]:
  "balloon_ok (b\<lparr>Active := v\<rparr>) = balloon_ok b" "balloon_ok (b\<lparr>Advertized := v\<rparr>) = balloon_ok b"
  "balloon_ok (b\<lparr>ActiveSuspendCount := w\<rparr>) = balloon_ok b" "balloon_ok (b\<lparr>AdvertizedSuspendCount := w\<rparr>) = balloon_ok b"
  "towards c (b\<lparr>Active := v\<rparr>) = towards c b" "towards (b\<lparr>Active := v\<rparr>) c = towards b c"
  "towards (b\<lparr>Advertized := v\<rparr>) c = towards b c" "towards (b\<lparr>ActiveSuspendCount := w\<rparr>) c = towards b c"
  by (simp_all add: balloon_ok_def pages_ok_def towards_def)

lemma RangeSetItems_card_held: "rs_ok rs \<Longrightarrow> RangeSetItems rs = of_nat (card (rs_set rs))"
  by (simp add: rs_ok_def rs_inv_good rs_count_def RangeSetItems_def rs_set_es_set card_es_set)

lemma of_nat_unat_u64: "of_nat (unat (x :: u32)) = (ucast x :: u64)"
  using unat_bound [of x] by (simp add: word_eq_unat unat_of_nat unat_ucast_mod)

lemma Worker_finish_spec:
  assumes "balloon_ok b" and "Active b"
  shows "\<exists>b'. Worker_finish b = Inr (CurrentPages b = TargetPages b, b') \<and> balloon_ok b' \<and>
    (\<forall>a. towards a b \<longrightarrow> towards a b') \<and> CurrentPages b' = CurrentPages b \<and> Frozen b' = Frozen b \<and>
    Advertized b' = Advertized b"
proof -
  have "RangeSetItems (PfnsBalloonedOut b) = of_nat (card (held b))"
    using assms(1) by (intro RangeSetItems_card_held) (simp add: balloon_ok_def pages_ok_def)
  also have "\<dots> = ucast (MaxPages b - CurrentPages b)"
    using assms(1) by (simp add: balloon_ok_def of_nat_unat_u64)
  finally show ?thesis using assms by (auto simp: Worker_finish_def)
qed

lemma Worker_turn_spec:
  assumes "balloon_ok b" and "windows_ok E" and "xen_ok E" and "exit \<longrightarrow> Advertized b"
  shows "\<exists>idle' b'. Worker_turn E exit susp idle b = Some (Inr (idle', b')) \<and> balloon_ok b' \<and> towards b b' \<and>
    Frozen b' = Frozen b \<and> Advertized b' = (Advertized b \<and> \<not> exit) \<and>
    (\<not> Frozen b \<longrightarrow> (idle' \<longleftrightarrow> CurrentPages b' = TargetPages b'))"
proof -
  define c where "c = (if exit then (emit (FeatureFlag ''feature-balloon'' False) b)\<lparr>Advertized := False\<rparr> else b)"
  have c: "balloon_ok c" "Frozen c = Frozen b" "\<And>d. towards c d = towards b d" "Advertized c = (Advertized b \<and> \<not> exit)"
    using assms(1) by (simp_all add: c_def)
  show ?thesis
  proof (cases "Frozen b")
    case True
    moreover have "towards c c" by (auto simp: towards_def)
    with c(3) have "towards b c" by simp
    ultimately show ?thesis using assms(4) c by (simp add: Worker_turn_def c_def [symmetric])
  next
    case False
    define d where "d = Worker_activate susp c"
    have d: "balloon_ok d" "\<not> Frozen d" "Active d" "\<And>e. towards d e = towards b e" "Advertized d = Advertized c"
      using c False by (simp_all add: d_def Worker_activate_def)
    obtain e where e: "Worker_adjust E d = Some (Inr e)" "balloon_ok e" "towards b e" "Active e" "\<not> Frozen e"
        "Advertized e = Advertized c"
      using Worker_adjust_spec [OF d(1) assms(2,3) d(2)] d by auto
    obtain f where f: "Worker_finish e = Inr (CurrentPages e = TargetPages e, f)" "balloon_ok f" "towards b f"
        "CurrentPages f = CurrentPages e" "\<not> Frozen f" "Advertized f = Advertized e"
      using Worker_finish_spec [OF e(2,4)] e(3,5) by auto
    have "TargetPages f = TargetPages e" using e(3) f(3) by (simp add: towards_def)
    then show ?thesis using False assms(4) c(2,4) e f
      by (intro exI [of _ "CurrentPages e = TargetPages e"] exI [of _ f])
        (simp add: Worker_turn_def c_def [symmetric] d_def [symmetric])
  qed
qed

text \<open>Everything that happens to the balloon once it is initialised: the watches fire, power management
  freezes and thaws it, and the worker takes a turn.\<close>

datatype balloon_op =
    TargetChanged "u64 option"
  | FISTChanged "bool option" "bool option"
  | Freeze
  | Thaw
  | Turn u32 u32 bool

fun balloon_do :: "benv \<Rightarrow> balloon_op \<Rightarrow> bool \<times> balloon \<Rightarrow> (bool \<times> balloon) res option" where
  "balloon_do E (TargetChanged key) (idle, b) = Some (Inr (idle, BalloonTargetChanged key b))"
| "balloon_do E (FISTChanged i d) (idle, b) = Some (Inr (idle, BalloonFISTChanged i d b))"
| "balloon_do E Freeze (idle, b) = Some (Inr (idle, BalloonFreeze b))"
| "balloon_do E Thaw (idle, b) = Some (Inr (idle, BalloonThaw b))"
| "balloon_do E (Turn susp1 susp2 exit) (idle, b) = Worker_turn E exit susp2 idle (Worker_advertize susp1 b)"

fun balloon_run :: "benv \<Rightarrow> balloon_op list \<Rightarrow> bool \<times> balloon \<Rightarrow> (bool \<times> balloon) res option" where
  "balloon_run E [] s = Some (Inr s)"
| "balloon_run E (x # xs) s =
     (case balloon_do E x s of
        None \<Rightarrow> None
      | Some (Inl e) \<Rightarrow> Some (Inl e)
      | Some (Inr s') \<Rightarrow> balloon_run E xs s')"

lemma balloon_do_ok:
  assumes "balloon_ok b" and "windows_ok E" and "xen_ok E"
  shows "\<exists>idle' b'. balloon_do E x (idle, b) = Some (Inr (idle', b')) \<and> balloon_ok b'"
proof (cases x)
  case (Turn susp1 susp2 exit)
  have "balloon_ok (Worker_advertize susp1 b)" "Advertized (Worker_advertize susp1 b)"
    using assms(1) by (auto simp: Worker_advertize_def)
  then show ?thesis using Worker_turn_spec [OF _ assms(2,3), of "Worker_advertize susp1 b" exit susp2 idle] Turn by auto
qed (use assms(1) in \<open>auto simp: balloon_ok_def pages_ok_def BalloonTargetChanged_def BalloonFISTChanged_def
      BalloonFreeze_def BalloonThaw_def split: sum.split\<close>)

lemma balloon_run_ok:
  "balloon_ok b \<Longrightarrow> windows_ok E \<Longrightarrow> xen_ok E \<Longrightarrow>
   \<exists>idle' b'. balloon_run E xs (idle, b) = Some (Inr (idle', b')) \<and> balloon_ok b'"
proof (induction xs arbitrary: idle b)
  case (Cons x xs)
  then obtain idle1 b1 where "balloon_do E x (idle, b) = Some (Inr (idle1, b1))" "balloon_ok b1"
    using balloon_do_ok by blast
  with Cons.IH [OF this(2) Cons.prems(2,3), of idle1] show ?case by simp
qed simp

lemma BalloonInit_ok:
  assumes "\<not> Initialized b" and "\<not> AllocatorInitialized b" and "NrItems (PfnsBalloonedOut b) = 0"
    and "length (PfnArray b) = BALLOON_PFN_ARRAY_SIZE"
    and "BalloonInit has_ex ranges key True False b = Inr (STATUS_SUCCESS, b')"
  shows "balloon_ok b'"
proof (cases key)
  case None
  then show ?thesis using assms by (simp add: BalloonInit_def BalloonReadMaxPages_def Let_def)
next
  case (Some k)
  then show ?thesis using assms
    by (auto simp: BalloonInit_def BalloonReadMaxPages_def BalloonInitializeAllocator_def Let_def balloon_ok_def
        pages_ok_def RangeSetInit_def rs_ok_def rs_inv_def rs_count_def rs_set_def)
qed



section \<open>Concrete balloons\<close>

definition empty_rs :: "u64 range_set" where
  "empty_rs = \<lparr>Entries = [], RseCursor = 0, RseCache = [], NrRSEs = 0, NrItems = 0, NrRSEsCached = 0\<rparr>"

definition fresh_balloon :: balloon where
  "fresh_balloon = \<lparr>TopPage = 0, CurrentPages = 0, TargetPages = 0, MaxPages = 0, AllocateFail = 0, PartialAllocate = 0,
     PartialPopulate = 0, PfnsBalloonedOut = empty_rs, PfnArray = replicate BALLOON_PFN_ARRAY_SIZE 0,
     FIST_inflation = False, FIST_deflation = False, Frozen = False, Initialized = False, Advertized = False,
     AdvertizedSuspendCount = 0, Active = False, ActiveSuspendCount = 0, AllocatorInitialized = False, calls = 0,
     blog = []\<rparr>"

text \<open>Windows gives one page per request, unless the driver holds it; Xen does what it is asked.\<close>

definition calm_env :: benv where
  "calm_env = \<lparr>mm_alloc = (\<lambda>n k rs. if 0 < k \<and> list_all (\<lambda>e. \<not> (Start e \<le> 7 \<and> (End1 e \<noteq> 0 \<longrightarrow> 7 < End1 e))) (Entries rs)
       then Some [7] else None),
     has_alloc_ex = True, populate_physmap = (\<lambda>_ ps. of_nat (length ps mod 2 ^ 32)),
     decrease_reservation = (\<lambda>_ ps. of_nat (length ps)), pool = (\<lambda>_ _. True), took = (\<lambda>_. 0), mapped = (\<lambda>_. True),
     ram = (\<lambda>_ _. True)\<rparr>"

lemma calm_windows: "windows_ok calm_env"
  by (auto simp: windows_ok_def calm_env_def rs_set_def rse_set_def list_all_iff)

lemma calm_xen: "xen_ok calm_env"
proof -
  have "unat (of_nat (n mod 2 ^ 32) :: u32) \<le> n" for n
    by (simp add: unat_of_nat)
  then show ?thesis by (simp add: xen_ok_def calm_env_def)
qed

definition held_balloon :: balloon where
  "held_balloon = fresh_balloon\<lparr>MaxPages := 20, CurrentPages := 4, TargetPages := 10, AllocatorInitialized := True,
     Initialized := True, Advertized := True, PfnsBalloonedOut := rs_ex\<rparr>"

lemma rs_ex_card: "card (rs_set rs_ex) = 16" "0 \<notin> rs_set rs_ex" "rs_ok rs_ex"
proof -
  have "rs_set rs_ex = {2..<8} \<union> {10..<20}" by (auto simp: rs_set_def rs_ex_def rse_set_def)
  moreover have "card ({2..<8} :: u64 set) = 6" "card ({10..<20} :: u64 set) = 10"
    by code_simp+
  ultimately show "card (rs_set rs_ex) = 16" "0 \<notin> rs_set rs_ex" by (auto simp: card_Un_disjoint)
  show "rs_ok rs_ex" by (rule rs_ex_ok)
qed

lemma held_balloon_ok: "balloon_ok held_balloon"
  using rs_ex_card by (simp add: balloon_ok_def pages_ok_def held_balloon_def fresh_balloon_def)

theorem BalloonDeflate_correct_witness:
  "\<exists>n b' ps. BalloonDeflate calm_env held_balloon 6 = Inr (n, b') \<and> n \<le> 6 \<and> length ps = n \<and>
    distinct ps \<and> set ps \<subseteq> held held_balloon \<and> held b' = held held_balloon - set ps \<and>
    mset (freed b') = mset ps + mset (freed held_balloon) \<and> pages_ok b' \<and> same_goal held_balloon b'"
proof (rule BalloonDeflate_correct [OF _ calm_xen])
  show "pages_ok held_balloon" using held_balloon_ok by (simp add: balloon_ok_def)
  show "\<not> Frozen held_balloon" by (simp add: held_balloon_def fresh_balloon_def)
  show "6 \<le> card (held held_balloon)" using rs_ex_card by (simp add: held_balloon_def)
qed




section \<open>When Xen or the pool lets the driver down\<close>

definition gap_rs :: "u64 range_set" where
  "gap_rs = \<lparr>Entries = [\<lparr>Start = 2, End1 = 4\<rparr>, \<lparr>Start = 10, End1 = 20\<rparr>], RseCursor = 1, RseCache = [],
     NrRSEs = 2, NrItems = 12, NrRSEsCached = 0\<rparr>"

definition poor_env :: benv where
  "poor_env = calm_env\<lparr>populate_physmap := (\<lambda>_ _. 1), pool := (\<lambda>_ _. False)\<rparr>"

lemma gap_pop:
  "\<exists>rs1 rs2. RangeSetPopMany gap_rs 4 = Inr ([2, 3, 10, 11], rs1) \<and>
     RangeSetAddItems (\<lambda>_. False) rs1 [3, 10, 11] = Inr (1, rs2) \<and>
     Entries rs2 = [\<lparr>Start = 3, End1 = 4\<rparr>, \<lparr>Start = 12, End1 = 20\<rparr>] \<and> NrItems rs2 = 9"
proof -
  define r where "r = (case RangeSetPopMany gap_rs 4 of Inr (out, rs1) \<Rightarrow>
     (case RangeSetAddItems (\<lambda>_. False) rs1 [3, 10, 11] of Inr (n, rs2) \<Rightarrow> Some (out, n, Entries rs2, NrItems rs2)
      | _ \<Rightarrow> None) | _ \<Rightarrow> None)"
  have "r = Some ([2, 3, 10, 11], 1, [\<lparr>Start = 3, End1 = 4\<rparr>, \<lparr>Start = 12, End1 = 20\<rparr>], 9)"
    unfolding r_def by code_simp
  then show ?thesis unfolding r_def by (auto split: sum.splits prod.splits)
qed

text \<open>If Xen populates only one of four pages and the pool has no memory for a range set entry, the pages
  that were popped and not populated are not all put back, although the code relies on it: of 2, 3, 10
  and 11 only 2 was populated and only 3 is held again.\<close>

theorem BalloonPopulate_loses_pages:
  "\<exists>b'. BalloonPopulatePfnArray poor_env (held_balloon\<lparr>PfnsBalloonedOut := gap_rs\<rparr>) 4 = Inr (False, 1, b') \<and>
     take 4 (PfnArray b') = [2, 3, 10, 11] \<and> held b' = {3} \<union> {12..<20} \<and> RangeSetItems (PfnsBalloonedOut b') = 9"
proof -
  obtain rs1 rs2 where g: "RangeSetPopMany gap_rs 4 = Inr ([2, 3, 10, 11], rs1)"
     "RangeSetAddItems (\<lambda>_. False) rs1 [3, 10, 11] = Inr (1, rs2)"
     "Entries rs2 = [\<lparr>Start = 3, End1 = 4\<rparr>, \<lparr>Start = 12, End1 = 20\<rparr>]" "NrItems rs2 = 9"
    using gap_pop by blast
  have "rse_set \<lparr>Start = 3, End1 = 4\<rparr> = {3 :: u64}"
    by (auto simp: rse_set_def word_eq_unat word_le_nat_alt word_less_nat_alt)
  moreover have "rse_set \<lparr>Start = 12, End1 = 20\<rparr> = {12..<20 :: u64}" by (auto simp: rse_set_def)
  ultimately have "rs_set rs2 = {3} \<union> {12..<20}" by (simp add: rs_set_def g(3))
  then show ?thesis using g
    by (auto simp: BalloonPopulatePfnArray_def Let_def bump_def poor_env_def calm_env_def is_slow_def RangeSetItems_def)
qed

end
