(* ===== verification/Bytes.thy ===== *)
theory Bytes
  imports Prelude
begin

text \<open>
  Memory as lists of bytes, for the components that copy messages out of and into rings: little-endian values and
  \<^verbatim>\<open>memcpy\<close> between buffers, where a copy beyond the end of a buffer is a \<open>BadPointer\<close>.
\<close>

section \<open>Definitions\<close>

text \<open>Little-endian values.\<close>

fun le_val :: "u8 list \<Rightarrow> nat" where
  "le_val [] = 0"
| "le_val (b # bs) = unat b + 256 * le_val bs"

definition le_field :: "u8 list \<Rightarrow> nat \<Rightarrow> nat \<Rightarrow> 'w::len word" where
  "le_field bs off n = of_nat (le_val (take n (drop off bs)))"

definition memcpy :: "u8 list \<Rightarrow> nat \<Rightarrow> u8 list \<Rightarrow> nat \<Rightarrow> nat \<Rightarrow> u8 list res" where
  "memcpy dst d src s n =
     (if s + n \<le> length src \<and> d + n \<le> length dst
      then Inr (take d dst @ take n (drop s src) @ drop (d + n) dst)
      else Inl BadPointer)"

fun le_bytes :: "nat \<Rightarrow> nat \<Rightarrow> u8 list" where
  "le_bytes 0 v = []"
| "le_bytes (Suc n) v = of_nat v # le_bytes n (v div 256)"

definition overwrite :: "u8 list \<Rightarrow> u8 list \<Rightarrow> u8 list" where
  "overwrite buf xs = xs @ drop (length xs) buf"

section \<open>Little-endian values\<close>

lemma length_le_bytes [simp]: "length (le_bytes n v) = n"
  by (induction n arbitrary: v) simp_all

lemma le_val_le_bytes: "le_val (le_bytes n v) = v mod 256 ^ n"
proof (induction n arbitrary: v)
  case (Suc n)
  have "unat (of_nat v :: u8) = v mod 256" by (simp add: unat_of_nat)
  then show ?case by (simp add: Suc mod_mult2_eq)
qed simp

lemma le_field_part:
  assumes "take 16 bs = xs @ le_bytes n v @ ys" and "length xs = off" and "off + n \<le> 16"
  shows "le_field bs off n = of_nat (v mod 256 ^ n)"
proof -
  have "take n (drop off bs) = take n (drop off (take 16 bs))"
    using assms(3) by (simp add: drop_take min_def)
  then show ?thesis
    using assms(1,2) by (simp add: le_field_def le_val_le_bytes)
qed

lemma le_field_word:
  assumes "take 16 bs = xs @ le_bytes n (unat (x :: 'w::len word)) @ ys" and "length xs = off" and "off + n \<le> 16"
    and "LENGTH('w) = 8 * n"
  shows "le_field bs off n = x"
proof -
  have "unat x < 256 ^ n" using unat_bound [of x] assms(4) by (simp add: power_mult)
  then show ?thesis using le_field_part [OF assms(1-3), where 'a = 'w] by simp
qed

section \<open>Copies\<close>

lemma overwrite_Nil [simp]: "overwrite buf [] = buf"
  by (simp add: overwrite_def)

lemma length_overwrite [simp]: "length xs \<le> length buf \<Longrightarrow> length (overwrite buf xs) = length buf"
  by (simp add: overwrite_def)

lemma memcpy_overwrite:
  assumes "s + k \<le> length src" and "length xs + k \<le> length buf"
  shows "memcpy (overwrite buf xs) (length xs) src s k = Inr (overwrite buf (xs @ take k (drop s src)))"
  using assms by (simp add: memcpy_def overwrite_def add.commute)

lemmas memcpy_start = memcpy_overwrite [where xs = "[]", simplified]

end
