(* ===== verification/V4vRing.thy ===== *)
theory V4vRing
  imports Bytes
begin

text \<open>
  V4V message rings: the receive side of \<^verbatim>\<open>src/inc/v4v.h\<close>, the ring objects of
  \<^verbatim>\<open>src/xenv4v/ring.c\<close> and the hypercall results of \<^verbatim>\<open>src/xenv4v/hypercall.c\<close>.

  \<^item> \<open>v4v_ring\<close> is the structure shared with Xen: Xen appends messages and moves \<open>tx_ptr\<close>, the driver
    consumes them and moves \<open>rx_ptr\<close>.  \<open>ring_data\<close> are the bytes behind the header.  A read or write
    beyond an array is a \<open>BadPointer\<close>.
  \<^item> \<open>holds r ms\<close> is the specification: the bytes between the two indices are the encodings of the
    messages \<open>ms\<close>.  Copying out refines taking the head of that list.
  \<^item> \<open>ring_dev\<close> has the ring objects of the device extension: a store of objects and the list
    \<^verbatim>\<open>ringList\<close>.  \<^verbatim>\<open>ASSERT\<close> is empty in the free build and not modelled.
\<close>

section \<open>Data\<close>

abbreviation V4V_PROTO_DGRAM :: u32 where "V4V_PROTO_DGRAM \<equiv> 0x3c2c1db8"
abbreviation V4V_PROTO_STREAM :: u32 where "V4V_PROTO_STREAM \<equiv> 0x70f6a8e5"
abbreviation V4V_RING_MAGIC :: u64 where "V4V_RING_MAGIC \<equiv> 0xdf6977f231abd910"
abbreviation V4V_PFN_LIST_MAGIC :: u64 where "V4V_PFN_LIST_MAGIC \<equiv> 0x91dd6159045b302d"
abbreviation DOMID_INVALID :: u16 where "DOMID_INVALID \<equiv> 0x7FF4"
abbreviation (input) V4V_PORT_NONE :: u32 where "V4V_PORT_NONE \<equiv> 0"
abbreviation (input) V4V_PAGE_SIZE :: u32 where "V4V_PAGE_SIZE \<equiv> 4096"

record v4v_addr =
  port :: u32
  domain :: u16

record v4v_ring_id =
  addr :: v4v_addr
  partner :: u16

record v4v_ring =
  magic :: u64
  ring_id :: v4v_ring_id
  rlen :: u32
  rx_ptr :: u32
  tx_ptr :: u32
  ring_data :: "u8 list"

record v4v_ring_message_header =
  mh_len :: u32
  mh_source :: v4v_addr
  mh_protocol :: u32

definition decode_header :: "u8 list \<Rightarrow> v4v_ring_message_header" where
  "decode_header bs =
     \<lparr>mh_len = le_field bs 0 4, mh_source = \<lparr>port = le_field bs 4 4, domain = le_field bs 8 2\<rparr>, mh_protocol = le_field bs 12 4\<rparr>"

definition read_header :: "v4v_ring \<Rightarrow> v4v_ring_message_header res" where
  "read_header r =
     (if unat (rx_ptr r) + 16 \<le> length (ring_data r) then Inr (decode_header (drop (unat (rx_ptr r)) (ring_data r)))
      else Inl BadPointer)"

section \<open>Reading messages\<close>

definition v4v_ring_bytes_to_read :: "v4v_ring \<Rightarrow> u32" where
  "v4v_ring_bytes_to_read r =
     (let ret = tx_ptr r - rx_ptr r in if 0 \<le> sint ret then ret else rlen r + ret)"

definition V4V_ROUNDUP :: "u32 \<Rightarrow> u32" where
  "V4V_ROUNDUP a = (a + 0xf) AND NOT 0xf"

text \<open>Wrapping a position that has reached the end of the ring.\<close>

definition wrap :: "v4v_ring \<Rightarrow> u32 \<Rightarrow> u32" where
  "wrap r rxp = (if rxp = rlen r then 0 else rxp)"

text \<open>A copy to a buffer that may be null.\<close>

definition copy_to :: "u8 list option \<Rightarrow> nat \<Rightarrow> v4v_ring \<Rightarrow> u32 \<Rightarrow> nat \<Rightarrow> u8 list option res" where
  "copy_to buf d r rxp n =
     (case buf of
        None \<Rightarrow> Inr None
      | Some b \<Rightarrow> res_bind (memcpy b d (ring_data r) (unat rxp) n) (\<lambda>b. Inr (Some b)))"

text \<open>The results are the value returned (-1 when there is nothing to read), what is stored through
  \<open>from\<close> and \<open>protocol\<close>, the buffer and the ring.\<close>

definition v4v_copy_out ::
  "v4v_ring \<Rightarrow> u8 list option \<Rightarrow> nat \<Rightarrow> bool \<Rightarrow>
     (u32 \<times> (v4v_addr \<times> u32) option \<times> u8 list option \<times> v4v_ring) res" where
  "v4v_copy_out r buf t consume =
     (let btr = v4v_ring_bytes_to_read r
      in if btr < 16 then Inr (- 1, None, buf, r)
         else res_bind (read_header r) (\<lambda>mh.
           if btr < mh_len mh then Inr (- 1, None, buf, r)
           else
             let rxp = wrap r (rx_ptr r + 16); len = mh_len mh - 16; bte = rlen r - rxp
             in res_bind
                  (if bte < len then
                     if t < unat bte then
                       res_bind (copy_to buf 0 r rxp t) (\<lambda>buf. Inr (buf, t, 0, len - bte, 0))
                     else
                       res_bind (copy_to buf 0 r rxp (unat bte)) (\<lambda>buf. Inr (buf, unat bte, 0, len - bte, t - unat bte))
                   else Inr (buf, 0, rxp, len, t))
                  (\<lambda>(buf, d, rxp, len', t).
                    res_bind (if t \<noteq> 0 then copy_to buf d r rxp (if t < unat len' then t else unat len') else Inr buf) (\<lambda>buf.
                      let rxp = wrap r (rxp + V4V_ROUNDUP len')
                      in Inr (len, Some (mh_source mh, mh_protocol mh), buf,
                              if consume then r\<lparr>rx_ptr := rxp\<rparr> else r)))))"

text \<open>The destination is a position relative to the buffer, which may lie before it as long as bytes are
  still to be skipped.\<close>

definition v4v_memcpy_skip ::
  "u8 list \<Rightarrow> int \<Rightarrow> u8 list \<Rightarrow> nat \<Rightarrow> nat \<Rightarrow> nat \<Rightarrow> (u8 list \<times> nat) res" where
  "v4v_memcpy_skip dst d src s len skip =
     (if skip = 0 then
        if d < 0 then Inl BadPointer else res_bind (memcpy dst (nat d) src s len) (\<lambda>dst. Inr (dst, 0))
      else if skip \<ge> len then Inr (dst, skip - len)
      else if d + int skip < 0 then Inl BadPointer
      else res_bind (memcpy dst (nat (d + int skip)) src (s + skip) (len - skip)) (\<lambda>dst. Inr (dst, 0)))"

definition v4v_copy_out_offset ::
  "v4v_ring \<Rightarrow> u8 list \<Rightarrow> nat \<Rightarrow> bool \<Rightarrow> nat \<Rightarrow>
     (u32 \<times> (v4v_addr \<times> u32) option \<times> u8 list \<times> v4v_ring) res" where
  "v4v_copy_out_offset r buf t consume skip =
     (let btr = v4v_ring_bytes_to_read r; d = - int skip
      in if btr < 16 then Inr (- 1, None, buf, r)
         else res_bind (read_header r) (\<lambda>mh.
           if btr < mh_len mh then Inr (- 1, None, buf, r)
           else
             let rxp = wrap r (rx_ptr r + 16); len = mh_len mh - 16; bte = rlen r - rxp
             in res_bind
                  (if bte < len then
                     if t < unat bte then
                       res_bind (v4v_memcpy_skip buf d (ring_data r) (unat rxp) t skip) (\<lambda>(buf, skip).
                         Inr (buf, d + int t, skip, 0, len - bte, 0))
                     else
                       res_bind (v4v_memcpy_skip buf d (ring_data r) (unat rxp) (unat bte) skip) (\<lambda>(buf, skip).
                         Inr (buf, d + int (unat bte), skip, 0, len - bte, t - unat bte))
                   else Inr (buf, d, skip, rxp, len, t))
                  (\<lambda>(buf, d, skip, rxp, len', t).
                    res_bind
                      (if t \<noteq> 0
                       then v4v_memcpy_skip buf d (ring_data r) (unat rxp) (if t < unat len' then t else unat len') skip
                       else Inr (buf, skip))
                      (\<lambda>(buf, skip).
                        let rxp = wrap r (rxp + V4V_ROUNDUP len')
                        in Inr (len, Some (mh_source mh, mh_protocol mh), buf,
                                if consume then r\<lparr>rx_ptr := rxp\<rparr> else r)))))"

definition V4vRecoverRing :: "v4v_ring \<Rightarrow> v4v_ring" where
  "V4vRecoverRing r = r\<lparr>rx_ptr := tx_ptr r\<rparr>"

section \<open>Hypercalls\<close>

definition V4vFilterErrno :: "int \<Rightarrow> NTSTATUS" where
  "V4vFilterErrno err =
     (if err < 0 then
        if err = - 11 then STATUS_RETRY
        else if err = - 22 then STATUS_INVALID_PARAMETER
        else if err = - 12 then STATUS_NO_MEMORY
        else if err = - 28 \<or> err = - 90 then STATUS_BUFFER_OVERFLOW
        else if err = - 38 then STATUS_NOT_IMPLEMENTED
        else if err = - 107 \<or> err = - 111 then STATUS_VIRTUAL_CIRCUIT_CLOSED
        else STATUS_UNSUCCESSFUL
      else STATUS_SUCCESS)"

text \<open>\<open>err\<close> is the result of the hypercall.  The second component is \<^verbatim>\<open>*writtenOut\<close>.\<close>

definition V4vRegisterRing :: "int \<Rightarrow> NTSTATUS" where
  "V4vRegisterRing err = (if err \<noteq> 0 then STATUS_UNSUCCESSFUL else STATUS_SUCCESS)"

definition V4vUnregisterRing :: "int \<Rightarrow> NTSTATUS" where
  "V4vUnregisterRing err = (if err \<noteq> 0 then STATUS_UNSUCCESSFUL else STATUS_SUCCESS)"

definition V4vNotify :: "int \<Rightarrow> NTSTATUS" where
  "V4vNotify err = (if err \<noteq> 0 then STATUS_UNSUCCESSFUL else STATUS_SUCCESS)"

definition V4vSend :: "int \<Rightarrow> NTSTATUS \<times> u32" where
  "V4vSend err = (V4vFilterErrno err, if err \<ge> 0 then word_of_int err else 0)"

definition V4vSendVec :: "int \<Rightarrow> NTSTATUS \<times> u32" where
  "V4vSendVec err = (V4vFilterErrno err, if err \<ge> 0 then word_of_int err else 0)"

section \<open>Ring objects\<close>

record v4v_pfn_list =
  pl_magic :: u64
  npage :: u32
  pages :: "u64 list"

record XENV4V_RING =
  refc :: u32
  ring :: v4v_ring
  pfnList :: v4v_pfn_list
  registered :: bool

text \<open>\<open>pa\<close> is \<^verbatim>\<open>MmGetPhysicalAddress\<close>, \<open>buf\<close> the address of the ring.  The quotient is the signed one.\<close>

definition pfn_of :: "u64 \<Rightarrow> u64" where
  "pfn_of a = (if 0 \<le> sint a then a div 4096 else - ((- a) div 4096))"

definition V4vAllocatePfnList :: "bool \<Rightarrow> (u64 \<Rightarrow> u64) \<Rightarrow> u64 \<Rightarrow> u32 \<Rightarrow> v4v_pfn_list option" where
  "V4vAllocatePfnList alloc pa buf npages =
     (if \<not> alloc then None
      else Some \<lparr>pl_magic = V4V_PFN_LIST_MAGIC, npage = npages,
                 pages = map (\<lambda>i. pfn_of (pa (buf + of_nat i * 4096))) [0..<unat npages]\<rparr>)"

text \<open>The ring length a user asks for, straightened out by \<^verbatim>\<open>V4vCtrlInitializeFile\<close>.\<close>

definition straighten :: "u32 \<Rightarrow> u32" where
  "straighten ringLength =
     (if ringLength > V4V_PAGE_SIZE then (ringLength + 16 - 1) AND NOT (16 - 1) else V4V_PAGE_SIZE)"

text \<open>\<open>alloc1\<close>, \<open>alloc2\<close> and \<open>alloc3\<close>: the three allocations succeed.  The ring header has 60 bytes, of
  which the first 28 are written.\<close>

definition V4vAllocateRing ::
  "bool \<Rightarrow> bool \<Rightarrow> bool \<Rightarrow> (u64 \<Rightarrow> u64) \<Rightarrow> u64 \<Rightarrow> u32 \<Rightarrow> XENV4V_RING option res" where
  "V4vAllocateRing alloc1 alloc2 alloc3 pa buf ringLength =
     (if \<not> alloc1 then Inr None
      else
        let length = ringLength + 60;
            npages = drop_bit 12 (length + V4V_PAGE_SIZE - 1)
        in if \<not> alloc2 then Inr None
           else if unat length < 28 then Inl BadPointer
           else
             let r = \<lparr>magic = V4V_RING_MAGIC,
                      ring_id = \<lparr>addr = \<lparr>port = V4V_PORT_NONE, domain = DOMID_INVALID\<rparr>, partner = 0\<rparr>,
                      rlen = ringLength, rx_ptr = 0, tx_ptr = 0, ring_data = replicate (unat length - 60) 0\<rparr>
             in case V4vAllocatePfnList alloc3 pa buf npages of
                  None \<Rightarrow> Inr None
                | Some pl \<Rightarrow> Inr (Some \<lparr>refc = 1, ring = r, pfnList = pl, registered = False\<rparr>))"

datatype v4v_event = UnregisterRing v4v_ring_id

text \<open>The part of \<^verbatim>\<open>XENV4V_EXTENSION\<close> that concerns rings: \<open>objs\<close> are the ring objects that are allocated,
  by address.\<close>

record ring_dev =
  objs :: "nat \<Rightarrow> XENV4V_RING option"
  ringList :: "nat list"
  vlog :: "v4v_event list"

definition V4vAddRefRing :: "ring_dev \<Rightarrow> nat \<Rightarrow> (u32 \<times> ring_dev) res" where
  "V4vAddRefRing pde robj =
     (case objs pde robj of
        None \<Rightarrow> Inl BadPointer
      | Some o1 \<Rightarrow> let count = refc o1 + 1 in Inr (count, pde\<lparr>objs := (objs pde)(robj \<mapsto> o1\<lparr>refc := count\<rparr>)\<rparr>))"

definition V4vReleaseRing :: "ring_dev \<Rightarrow> nat \<Rightarrow> (u32 \<times> ring_dev) res" where
  "V4vReleaseRing pde robj =
     (case objs pde robj of
        None \<Rightarrow> Inl BadPointer
      | Some o1 \<Rightarrow>
          let count = refc o1 - 1;
              pde1 = pde\<lparr>objs := (objs pde)(robj \<mapsto> o1\<lparr>refc := count\<rparr>)\<rparr>;
              (count, pde2) = (if count = 1 then (0, pde1\<lparr>ringList := remove1 robj (ringList pde1)\<rparr>) else (count, pde1))
          in if count = 0
             then Inr (count, pde2\<lparr>objs := (objs pde2)(robj := None),
                              vlog := (if registered o1 then UnregisterRing (ring_id (ring o1)) # vlog pde2 else vlog pde2)\<rparr>)
             else Inr (count, pde2))"

fun PortInUse_loop :: "(nat \<Rightarrow> XENV4V_RING option) \<Rightarrow> nat list \<Rightarrow> u32 \<Rightarrow> bool \<Rightarrow> u32 \<Rightarrow> (bool \<times> u32) res" where
  "PortInUse_loop os [] p ret m = Inr (ret, m)"
| "PortInUse_loop os (robj # rs) p ret m =
     (case os robj of
        None \<Rightarrow> Inl BadPointer
      | Some o1 \<Rightarrow>
          let q = port (addr (ring_id (ring o1)))
          in PortInUse_loop os rs p (if q = p then True else ret) (if q > m then q else m))"

definition V4vPortInUse :: "ring_dev \<Rightarrow> u32 \<Rightarrow> u32 \<Rightarrow> (bool \<times> u32) res" where
  "V4vPortInUse pde p maxOut = PortInUse_loop (objs pde) (ringList pde) p False maxOut"

text \<open>\<open>rnd\<close> is the value of \<^verbatim>\<open>RtlRandomEx\<close>.\<close>

definition V4vRandomPort :: "u32 \<Rightarrow> u32" where
  "V4vRandomPort rnd = (let p = rnd OR 0x80000000 in if p > 0xf0000000 then p - 0x10000000 else p)"

definition V4vSparePortNumber :: "ring_dev \<Rightarrow> u32 \<Rightarrow> u32 res" where
  "V4vSparePortNumber pde p =
     res_bind (V4vPortInUse pde p 0x80000000) (\<lambda>(used, m). Inr (if used then m + 1 else p))"

fun RingIdInUse_loop :: "(nat \<Rightarrow> XENV4V_RING option) \<Rightarrow> nat list \<Rightarrow> v4v_ring_id \<Rightarrow> bool res" where
  "RingIdInUse_loop os [] i = Inr False"
| "RingIdInUse_loop os (robj # rs) i =
     (case os robj of
        None \<Rightarrow> Inl BadPointer
      | Some o1 \<Rightarrow>
          if port (addr (ring_id (ring o1))) = port (addr i) \<and> partner (ring_id (ring o1)) = partner i then Inr True
          else RingIdInUse_loop os rs i)"

definition V4vRingIdInUse :: "ring_dev \<Rightarrow> v4v_ring_id \<Rightarrow> bool res" where
  "V4vRingIdInUse pde i = RingIdInUse_loop (objs pde) (ringList pde) i"

definition V4vLinkToRingList :: "ring_dev \<Rightarrow> nat \<Rightarrow> ring_dev res" where
  "V4vLinkToRingList pde robj =
     (case objs pde robj of
        None \<Rightarrow> Inl BadPointer
      | Some o1 \<Rightarrow>
          Inr (pde\<lparr>objs := (objs pde)(robj \<mapsto> o1\<lparr>refc := refc o1 + 1\<rparr>), ringList := robj # ringList pde\<rparr>))"

section \<open>Specification\<close>

record v4v_message =
  m_source :: v4v_addr
  m_protocol :: u32
  m_data :: "u8 list"

text \<open>The length of a payload with its padding.\<close>

definition padded :: "nat \<Rightarrow> nat" where
  "padded n = (n + 15) div 16 * 16"

text \<open>A message as it lies in the ring: the header, the data and padding to the next multiple of 16.
  The padding bytes are arbitrary.\<close>

definition encodes :: "u8 list \<Rightarrow> v4v_message \<Rightarrow> bool" where
  "encodes bs m \<longleftrightarrow> length (m_data m) < 2 ^ 31 - 32 \<and> length bs = 16 + padded (length (m_data m)) \<and>
     (\<exists>pad. length pad = 2 \<and>
        take 16 bs = le_bytes 4 (16 + length (m_data m)) @ le_bytes 4 (unat (port (m_source m))) @
          le_bytes 2 (unat (domain (m_source m))) @ pad @ le_bytes 4 (unat (m_protocol m))) \<and>
     take (length (m_data m)) (drop 16 bs) = m_data m"

text \<open>Xen's side: a ring has a length that is a multiple of 16, and both indices are multiples of 16 within
  it.\<close>

definition ring_ok :: "v4v_ring \<Rightarrow> bool" where
  "ring_ok r \<longleftrightarrow> length (ring_data r) = unat (rlen r) \<and> unat (rlen r) < 2 ^ 31 \<and> 16 dvd unat (rlen r) \<and>
     16 dvd unat (rx_ptr r) \<and> 16 dvd unat (tx_ptr r) \<and> unat (rx_ptr r) < unat (rlen r) \<and> unat (tx_ptr r) < unat (rlen r)"

definition nr_pending :: "v4v_ring \<Rightarrow> nat" where
  "nr_pending r =
     (if unat (rx_ptr r) \<le> unat (tx_ptr r) then unat (tx_ptr r) - unat (rx_ptr r)
      else unat (rlen r) + unat (tx_ptr r) - unat (rx_ptr r))"

definition pending :: "v4v_ring \<Rightarrow> u8 list" where
  "pending r = take (nr_pending r) (rotate (unat (rx_ptr r)) (ring_data r))"

inductive encode_all :: "u8 list \<Rightarrow> v4v_message list \<Rightarrow> bool" where
  "encode_all [] []"
| "encodes bs m \<Longrightarrow> encode_all cs ms \<Longrightarrow> encode_all (bs @ cs) (m # ms)"

inductive_cases encode_all_NilE: "encode_all bs []"
inductive_cases encode_all_ConsE: "encode_all bs (m # ms)"

definition holds :: "v4v_ring \<Rightarrow> v4v_message list \<Rightarrow> bool" where
  "holds r ms \<longleftrightarrow> ring_ok r \<and> encode_all (pending r) ms"

text \<open>Writing \<open>xs\<close> over the beginning of a buffer.\<close>

section \<open>Bytes\<close>

lemma decode_encodes:
  assumes "encodes bs m"
  shows "decode_header bs = \<lparr>mh_len = of_nat (16 + length (m_data m)), mh_source = m_source m, mh_protocol = m_protocol m\<rparr>"
proof -
  let ?n = "length (m_data m)"
  obtain pad where n: "?n < 2 ^ 31 - 32" and pad: "length pad = 2" and t: "take 16 bs =
      le_bytes 4 (16 + ?n) @ le_bytes 4 (unat (port (m_source m))) @ le_bytes 2 (unat (domain (m_source m))) @
      pad @ le_bytes 4 (unat (m_protocol m))"
    using assms unfolding encodes_def by blast
  have "le_field bs 0 4 = (of_nat (16 + ?n) :: u32)"
    using le_field_part [of bs "[]" 4 "16 + ?n" _ 0] t n by simp
  moreover have "le_field bs 4 4 = port (m_source m)"
    using le_field_word [of bs "le_bytes 4 (16 + ?n)" 4 "port (m_source m)" _ 4] t by simp
  moreover have "le_field bs 8 2 = domain (m_source m)"
    using le_field_word [of bs "le_bytes 4 (16 + ?n) @ le_bytes 4 (unat (port (m_source m)))" 2
        "domain (m_source m)" _ 8] t by simp
  moreover have "le_field bs 12 4 = m_protocol m"
    using le_field_word [of bs "le_bytes 4 (16 + ?n) @ le_bytes 4 (unat (port (m_source m))) @
        le_bytes 2 (unat (domain (m_source m))) @ pad" 4 "m_protocol m" "[]" 12] t pad by simp
  ultimately show ?thesis by (simp add: decode_header_def)
qed

lemma padded_bounds: "n \<le> padded n" "padded n < n + 16" "16 dvd padded n"
  by (simp_all add: padded_def)

section \<open>The ring as a circle\<close>

lemma sint_nonneg_iff: "0 \<le> sint (x :: u32) \<longleftrightarrow> unat x < 2 ^ 31"
proof -
  have "uint x div 2 ^ 31 < 2" using uint_lt2p [of x] by (auto intro!: less_mult_imp_div_less)
  moreover have "0 \<le> uint x div 2 ^ 31" by (simp add: pos_imp_zdiv_nonneg_iff)
  ultimately have "uint x div 2 ^ 31 = 0 \<or> uint x div 2 ^ 31 = 1" by linarith
  then have "bit (uint x) 31 \<longleftrightarrow> uint x div 2 ^ 31 \<noteq> 0"
    unfolding bit_iff_odd by (elim disjE) simp_all
  also have "\<dots> \<longleftrightarrow> \<not> uint x < 2 ^ 31" by (simp add: zdiv_eq_0_iff not_less)
  finally have *: "0 \<le> sint x \<longleftrightarrow> uint x < 2 ^ 31"
    by (simp add: sint_uint signed_take_bit_nonnegative_iff)
  have "int (unat x) = uint x" by simp
  then have "uint x < 2 ^ 31 \<longleftrightarrow> int (unat x) < int (2 ^ 31)" by simp
  then have "uint x < 2 ^ 31 \<longleftrightarrow> unat x < 2 ^ 31" by (simp only: of_nat_less_iff)
  with * show ?thesis by simp
qed

lemma unat_bytes_to_read: "ring_ok r \<Longrightarrow> unat (v4v_ring_bytes_to_read r) = nr_pending r"
proof -
  assume "ring_ok r"
  then have b: "unat (rx_ptr r) < unat (rlen r)" "unat (tx_ptr r) < unat (rlen r)" "unat (rlen r) < 2 ^ 31"
    by (auto simp: ring_ok_def)
  show ?thesis
  proof (cases "unat (rx_ptr r) \<le> unat (tx_ptr r)")
    case True
    then have "unat (tx_ptr r - rx_ptr r) = unat (tx_ptr r) - unat (rx_ptr r)" by (simp add: unat_sub_if')
    moreover have "unat (tx_ptr r) - unat (rx_ptr r) < 2 ^ 31" using b by simp
    ultimately show ?thesis using True
      by (simp add: v4v_ring_bytes_to_read_def nr_pending_def sint_nonneg_iff Let_def)
  next
    case False
    then have d: "unat (tx_ptr r - rx_ptr r) = 2 ^ 32 + unat (tx_ptr r) - unat (rx_ptr r)" by (simp add: unat_sub_if')
    then have "\<not> unat (tx_ptr r - rx_ptr r) < 2 ^ 31" using False b by simp
    moreover have "unat (rlen r + (tx_ptr r - rx_ptr r)) = unat (rlen r) + unat (tx_ptr r) - unat (rx_ptr r)"
      using d b False by (simp add: unat_word_ariths(1) mod_if)
    ultimately show ?thesis using False
      by (simp add: v4v_ring_bytes_to_read_def nr_pending_def sint_nonneg_iff Let_def)
  qed
qed

lemma nr_pending_less: "ring_ok r \<Longrightarrow> nr_pending r < unat (rlen r)"
  by (auto simp: ring_ok_def nr_pending_def)

lemma length_pending: "ring_ok r \<Longrightarrow> length (pending r) = nr_pending r"
  using nr_pending_less [of r] by (simp add: pending_def ring_ok_def)

lemma nr_pending_advance:
  assumes "ring_ok r" and "k \<le> nr_pending r" and "unat x = (unat (rx_ptr r) + k) mod unat (rlen r)"
  shows "nr_pending (r\<lparr>rx_ptr := x\<rparr>) = nr_pending r - k"
proof -
  have b: "unat (rx_ptr r) < unat (rlen r)" "unat (tx_ptr r) < unat (rlen r)"
    using assms(1) by (auto simp: ring_ok_def)
  have "k < unat (rlen r)" using assms(1,2) nr_pending_less by fastforce
  then have "unat x = (if unat (rx_ptr r) + k < unat (rlen r) then unat (rx_ptr r) + k
      else unat (rx_ptr r) + k - unat (rlen r))"
    using assms(3) b by (simp add: mod_if)
  then show ?thesis using assms(2) b by (auto simp: nr_pending_def split: if_splits)
qed

lemma take_rotate_advance:
  assumes "k \<le> n" and "n \<le> length xs"
  shows "take (n - k) (rotate ((i + k) mod length xs) xs) = drop k (take n (rotate i xs))"
proof -
  have "rotate ((i + k) mod length xs) xs = rotate k (rotate i xs)"
    by (simp add: rotate_rotate add.commute flip: rotate_conv_mod)
  moreover have "take (n - k) (rotate k ys) = drop k (take n ys)" if "length ys = length xs" for ys :: "'a list"
    using assms that by (cases "k = length xs") (simp_all add: rotate_drop_take drop_take)
  ultimately show ?thesis by simp
qed

lemma ring_advance:
  assumes r: "ring_ok r" and k: "k \<le> nr_pending r" "16 dvd k"
    and x: "unat x = (unat (rx_ptr r) + k) mod unat (rlen r)"
  shows "ring_ok (r\<lparr>rx_ptr := x\<rparr>)" and "pending (r\<lparr>rx_ptr := x\<rparr>) = drop k (pending r)"
proof -
  have "16 dvd unat x" using r k(2) x by (simp add: ring_ok_def dvd_mod)
  then show "ring_ok (r\<lparr>rx_ptr := x\<rparr>)" using r x by (simp add: ring_ok_def)
  show "pending (r\<lparr>rx_ptr := x\<rparr>) = drop k (pending r)"
    using take_rotate_advance [of k "nr_pending r" "ring_data r" "unat (rx_ptr r)"] nr_pending_advance [OF r k(1) x]
      nr_pending_less [OF r] k r x
    by (simp add: pending_def ring_ok_def)
qed

lemma take_rotate:
  assumes "y < length xs" and "n \<le> length xs"
  shows "take n (rotate y xs) =
    (if length xs - y < n then drop y xs @ take (n - (length xs - y)) xs else take n (drop y xs))"
proof -
  have "n - (length xs - y) \<le> y" using assms by linarith
  then show ?thesis using assms by (simp add: rotate_drop_take)
qed

lemma unat_V4V_ROUNDUP: "unat a + 15 < 2 ^ 32 \<Longrightarrow> unat (V4V_ROUNDUP a) = padded (unat a)"
proof -
  assume a: "unat a + 15 < 2 ^ 32"
  have u: "unat (a + 15) = unat a + 15" using a by (simp add: unat_word_ariths(1))
  have "unat ((a + 15) AND NOT 15) = unat a + 15 - (unat a + 15) mod 16"
    using unat_and_not_mask [of "a + 15" 4] u by (simp add: mask_eq_exp_minus_1)
  then show ?thesis by (simp add: V4V_ROUNDUP_def padded_def minus_mod_eq_div_mult)
qed

section \<open>The next message\<close>

lemma decode_header_take: "take 16 a = take 16 b \<Longrightarrow> decode_header a = decode_header b"
proof -
  assume t: "take 16 a = take 16 b"
  have "take n (drop k a) = take n (drop k b)" if "k + n \<le> 16" for k n
  proof -
    have "take n (drop k c) = take n (drop k (take 16 c))" for c :: "u8 list" using that by (simp add: drop_take min_def)
    then show ?thesis using t by metis
  qed
  from this [of 0 4] this [of 4 4] this [of 8 2] this [of 12 4] show ?thesis
    by (simp add: decode_header_def le_field_def)
qed

lemma dvd_16_round:
  assumes "16 dvd b" and "b < n"
  shows "padded n = b + padded (n - b)"
proof -
  obtain k where k: "b = 16 * k" using assms(1) by (auto elim: dvdE)
  have "n + 15 = 16 * k + (n - b + 15)" using assms(2) k by linarith
  moreover have "(16 * k + z) div 16 = k + z div 16" for z :: nat by simp
  ultimately have "(n + 15) div 16 = k + (n - b + 15) div 16" by metis
  then show ?thesis using k by (simp add: padded_def algebra_simps)
qed

lemma padded_le: "16 dvd b \<Longrightarrow> n \<le> b \<Longrightarrow> padded n \<le> b"
  by (auto elim!: dvdE simp: padded_def)

text \<open>The first message of a ring, as list of bytes: \<open>y\<close> is the position of its data.\<close>

lemma next_bytes:
  assumes h: "holds r (m # ms)"
  defines "n \<equiv> length (m_data m)" and "N \<equiv> unat (rlen r)" and "x \<equiv> unat (rx_ptr r)"
  defines "y \<equiv> (x + 16) mod N"
  shows "x + 16 \<le> N" and "16 + padded n \<le> nr_pending r" and "n + 32 \<le> 2 ^ 31"
    and "decode_header (drop x (ring_data r)) =
      \<lparr>mh_len = of_nat (16 + n), mh_source = m_source m, mh_protocol = m_protocol m\<rparr>"
    and "m_data m = (if N - y < n then drop y (ring_data r) @ take (n - (N - y)) (ring_data r)
           else take n (drop y (ring_data r)))"
    and "encode_all (drop (16 + padded n) (pending r)) ms"
proof -
  have ok: "ring_ok r" using h by (simp add: holds_def)
  then have b: "length (ring_data r) = N" "16 dvd N" "16 dvd x" "x < N" by (auto simp: ring_ok_def N_def x_def)
  obtain bs cs where p: "pending r = bs @ cs" and e: "encodes bs m" and c: "encode_all cs ms"
    using h unfolding holds_def by (auto elim: encode_all_ConsE)
  from e have len: "length bs = 16 + padded n" "n < 2 ^ 31 - 32" and dat: "take n (drop 16 bs) = m_data m"
    by (auto simp: encodes_def n_def)
  have np: "length (pending r) = nr_pending r" "nr_pending r < N"
    using length_pending [OF ok] nr_pending_less [OF ok] by (simp_all add: N_def)
  show pad: "16 + padded n \<le> nr_pending r" using np(1) p len(1) by simp
  show "n + 32 \<le> 2 ^ 31" using len by simp
  have nN: "n < N" using pad np(2) padded_bounds(1) [of n] by linarith
  show "encode_all (drop (16 + padded n) (pending r)) ms" using c p len by simp
  show x16: "x + 16 \<le> N" using b(2-4) by (auto elim!: dvdE)
  then have "\<not> N - x < 16" by linarith
  then have "take 16 (drop x (ring_data r)) = take 16 (rotate x (ring_data r))"
    using take_rotate [of x "ring_data r" 16] x16 b(1,4) by (simp add: not_less)
  also have "\<dots> = take 16 (pending r)" using pad by (simp add: pending_def min_def x_def)
  finally have "decode_header (drop x (ring_data r)) = decode_header bs"
    using p len(1) by (intro decode_header_take) simp
  then show "decode_header (drop x (ring_data r)) =
      \<lparr>mh_len = of_nat (16 + n), mh_source = m_source m, mh_protocol = m_protocol m\<rparr>"
    using decode_encodes [OF e] by (simp add: n_def)
  have "m_data m = take n (drop 16 (take (16 + n) (rotate x (ring_data r))))"
  proof -
    have "take n (drop 16 bs) = take n (drop 16 (take (16 + n) (pending r)))"
      using p len(1) padded_bounds(1) [of n] by (simp add: drop_take)
    then show ?thesis using dat pad padded_bounds(1) [of n] by (simp add: pending_def min_def x_def)
  qed
  also have "\<dots> = take n (rotate y (ring_data r))"
    using take_rotate_advance [of 16 "16 + n" "ring_data r" x] pad np(2) padded_bounds(1) [of n] b(1)
    by (simp add: y_def)
  finally show "m_data m = (if N - y < n then drop y (ring_data r) @ take (n - (N - y)) (ring_data r)
           else take n (drop y (ring_data r)))"
    using take_rotate [of y "ring_data r" n] nN b(1,4) by (simp add: y_def)
qed

text \<open>Where the code moves to.\<close>

lemma next_position:
  assumes "y < N" "16 dvd y" "16 dvd N" "padded n < N"
  shows "(y + padded n) mod N = (if N - y < n then padded (n - (N - y))
      else if y + padded n = N then 0 else y + padded n)"
proof (cases "N - y < n")
  case True
  then have "padded n = (N - y) + padded (n - (N - y))" using assms by (intro dvd_16_round) (auto intro: dvd_diff_nat)
  then have "y + padded n = N + padded (n - (N - y))" using assms(1) by linarith
  moreover have "padded (n - (N - y)) < N" using calculation assms(1,4) by linarith
  ultimately show ?thesis using True by simp
next
  case False
  then have "padded n \<le> N - y" using assms by (intro padded_le) (auto intro: dvd_diff_nat)
  then have "y + padded n \<le> N" using assms(1) by linarith
  then show ?thesis using False by auto
qed

lemma holds_advance:
  assumes h: "holds r (m # ms)" and z: "unat z = (unat (rx_ptr r) + (16 + padded (length (m_data m)))) mod unat (rlen r)"
  shows "holds (r\<lparr>rx_ptr := z\<rparr>) ms"
proof -
  have "ring_ok r" using h by (simp add: holds_def)
  from ring_advance [OF this next_bytes(2) [OF h] _ z] next_bytes(6) [OF h] padded_bounds(3)
  show ?thesis by (simp add: holds_def)
qed

text \<open>The same in the terms of the code: \<open>rxp\<close> is the position of the data and \<open>bte\<close> the number of bytes
  from there to the end of the ring.\<close>

lemma next_message:
  assumes h: "holds r (m # ms)"
  obtains len rxp bte :: u32 where "rxp = wrap r (rx_ptr r + 16)" and "bte = rlen r - rxp"
    and "unat len = length (m_data m)" and "len = of_nat (length (m_data m))"
    and "\<not> v4v_ring_bytes_to_read r < 16" and "\<not> v4v_ring_bytes_to_read r < 16 + len"
    and "read_header r = Inr \<lparr>mh_len = 16 + len, mh_source = m_source m, mh_protocol = m_protocol m\<rparr>"
    and "unat rxp + unat bte = length (ring_data r)" and "unat len \<le> length (ring_data r)"
    and "m_data m = (if bte < len then drop (unat rxp) (ring_data r) @ take (unat len - unat bte) (ring_data r)
           else take (unat len) (drop (unat rxp) (ring_data r)))"
    and "bte < len \<Longrightarrow> unat (len - bte) = unat len - unat bte"
    and "holds (r\<lparr>rx_ptr := wrap r ((if bte < len then 0 else rxp) + V4V_ROUNDUP (if bte < len then len - bte else len))\<rparr>) ms"
proof -
  let ?n = "length (m_data m)" and ?N = "unat (rlen r)" and ?x = "unat (rx_ptr r)"
  note nb = next_bytes [OF h]
  define len where "len = (of_nat ?n :: u32)"
  define rxp where "rxp = wrap r (rx_ptr r + 16)"
  define bte where "bte = rlen r - rxp"
  have ok: "ring_ok r" using h by (simp add: holds_def)
  then have b: "length (ring_data r) = ?N" "?N < 2 ^ 31" "16 dvd ?N" "16 dvd ?x" "?x < ?N" by (auto simp: ring_ok_def)
  have len: "unat len = ?n" using nb(3) unfolding len_def by (intro unat_of_nat_lt) simp
  then have len16: "unat (16 + len) = 16 + ?n" using nb(3) by (simp add: unat_word_ariths(1))
  have btr: "16 + ?n \<le> unat (v4v_ring_bytes_to_read r)"
    using unat_bytes_to_read [OF ok] nb(2) padded_bounds(1) [of ?n] by simp
  have "unat (rx_ptr r + 16) = ?x + 16" using nb(1) b(2) by (simp add: unat_word_ariths(1))
  then have y: "unat rxp = (?x + 16) mod ?N"
    using nb(1) by (auto simp: rxp_def wrap_def word_eq_unat)
  then have yN: "unat rxp < ?N" using b(5) by simp
  then have ub: "unat bte = ?N - unat rxp" by (simp add: bte_def unat_sub_if')
  have less: "bte < len \<longleftrightarrow> ?N - unat rxp < ?n" using ub len by (simp add: word_less_nat_alt)
  have diff: "unat (len - bte) = ?n - unat bte" if "bte < len"
    using that len by (simp add: unat_sub_if' word_less_nat_alt)
  have pN: "padded ?n < ?N" using nb(2) nr_pending_less [OF ok] by linarith
  then have lN: "unat len \<le> ?N" using len padded_bounds(1) [of ?n] by linarith
  have "16 dvd unat rxp" using y b(3,4) by (simp add: dvd_mod)
  note np = next_position [OF yN this b(3) pN]
  let ?d = "if bte < len then 0 else rxp" and ?l = "if bte < len then len - bte else len"
  have "unat (V4V_ROUNDUP ?l) = padded (unat ?l)"
    using nb(3) len diff by (intro unat_V4V_ROUNDUP) auto
  then have "unat (?d + V4V_ROUNDUP ?l) = unat ?d + padded (unat ?l)"
    using diff len less np pN yN b(2) padded_bounds(2) [of "?n - unat bte"] nb(3)
    by (auto simp: unat_word_ariths(1))
  moreover have "(unat rxp + padded ?n) mod ?N \<noteq> ?N" using yN by (intro less_imp_neq mod_less_divisor) simp
  ultimately have "unat (wrap r (?d + V4V_ROUNDUP ?l)) = (unat rxp + padded ?n) mod ?N"
    using np less diff len ub by (auto simp: wrap_def word_eq_unat)
  also have "\<dots> = (?x + (16 + padded ?n)) mod ?N" using y by (simp add: mod_add_left_eq add.assoc)
  finally have "holds (r\<lparr>rx_ptr := wrap r (?d + V4V_ROUNDUP ?l)\<rparr>) ms" by (rule holds_advance [OF h])
  moreover have "read_header r = Inr \<lparr>mh_len = 16 + len, mh_source = m_source m, mh_protocol = m_protocol m\<rparr>"
    using nb(1,4) b(1) by (simp add: read_header_def len_def)
  moreover have "m_data m = (if bte < len then drop (unat rxp) (ring_data r) @ take (unat len - unat bte) (ring_data r)
      else take (unat len) (drop (unat rxp) (ring_data r)))"
    unfolding less unfolding ub len by (rule nb(5) [folded y])
  moreover have "\<not> v4v_ring_bytes_to_read r < 16" "\<not> v4v_ring_bytes_to_read r < 16 + len"
    using btr len16 by (simp_all add: word_less_nat_alt)
  moreover have "unat rxp + unat bte = length (ring_data r)" using ub yN b(1) by simp
  moreover have "unat len \<le> length (ring_data r)" using lN b(1) by simp
  moreover have "unat (len - bte) = unat len - unat bte" if "bte < len" using diff [OF that] len by simp
  ultimately show thesis
    by (intro that [OF rxp_def bte_def len len_def])
qed

lemma v4v_copy_out_next:
  assumes h: "holds r (m # ms)" and b: "min t (length (m_data m)) \<le> length buf"
  shows "\<exists>x. holds (r\<lparr>rx_ptr := x\<rparr>) ms \<and> v4v_copy_out r (Some buf) t consume =
    Inr (of_nat (length (m_data m)), Some (m_source m, m_protocol m), Some (overwrite buf (take t (m_data m))),
         if consume then r\<lparr>rx_ptr := x\<rparr> else r)"
proof (rule next_message [OF h])
  fix len rxp bte :: u32
  let ?D = "ring_data r" and ?d = "if bte < len then 0 else rxp" and ?l = "if bte < len then len - bte else len"
  assume rxp: "rxp = wrap r (rx_ptr r + 16)" and bte: "bte = rlen r - rxp"
    and ul: "unat len = length (m_data m)" and len: "len = of_nat (length (m_data m))"
    and g: "\<not> v4v_ring_bytes_to_read r < 16" "\<not> v4v_ring_bytes_to_read r < 16 + len"
      "read_header r = Inr \<lparr>mh_len = 16 + len, mh_source = m_source m, mh_protocol = m_protocol m\<rparr>"
    and N: "unat rxp + unat bte = length ?D" and lN: "unat len \<le> length ?D"
    and d: "m_data m = (if bte < len then drop (unat rxp) ?D @ take (unat len - unat bte) ?D else take (unat len) (drop (unat rxp) ?D))"
    and diff: "bte < len \<Longrightarrow> unat (len - bte) = unat len - unat bte"
    and x: "holds (r\<lparr>rx_ptr := wrap r (?d + V4V_ROUNDUP ?l)\<rparr>) ms"
  have l: "length (drop (unat rxp) ?D) = unat bte" using N by simp
  have "v4v_copy_out r (Some buf) t consume =
    Inr (len, Some (m_source m, m_protocol m), Some (overwrite buf (take t (m_data m))),
         if consume then r\<lparr>rx_ptr := wrap r (?d + V4V_ROUNDUP ?l)\<rparr> else r)"
  proof (cases "bte < len")
    case True
    note e = True g rxp [symmetric] bte [symmetric] and un = v4v_copy_out_def copy_to_def Let_def
    have lt: "unat bte < unat len" using True by (simp add: word_less_nat_alt)
    show ?thesis
    proof (cases "t < unat bte")
      case t: True
      then have "take t (m_data m) = take t (drop (unat rxp) ?D)" using d True l by simp
      moreover have "t \<le> length buf" using b t lt ul by simp
      ultimately have "memcpy buf 0 ?D (unat rxp) t = Inr (overwrite buf (take t (m_data m)))"
        using memcpy_start [of "unat rxp" t ?D buf] t N by simp
      then show ?thesis using e t by (simp add: un)
    next
      case t: False
      have m1: "memcpy buf 0 ?D (unat rxp) (unat bte) = Inr (overwrite buf (drop (unat rxp) ?D))"
        using memcpy_start [of "unat rxp" "unat bte" ?D buf] b lt t l N ul by simp
      let ?k = "if t - unat bte < unat (len - bte) then t - unat bte else unat (len - bte)"
      have "take ?k (drop 0 ?D) = take (t - unat bte) (take (unat len - unat bte) ?D)"
        using diff [OF True] by (simp add: min_def)
      then have dat: "take t (m_data m) = drop (unat rxp) ?D @ take ?k ?D" using d True l t by simp
      have "unat bte + ?k \<le> length buf" using b t lt ul diff [OF True] by simp linarith
      moreover have "?k \<le> length ?D" using lN diff [OF True] by simp linarith
      ultimately have m2: "memcpy (overwrite buf (drop (unat rxp) ?D)) (unat bte) ?D 0 ?k = Inr (overwrite buf (take t (m_data m)))"
        using memcpy_overwrite [of 0 ?k ?D "drop (unat rxp) ?D" buf] dat l by simp
      show ?thesis
      proof (cases "t - unat bte = 0")
        case True
        then show ?thesis using e t m1 dat by (simp add: un)
      next
        case False
        then show ?thesis using e t m1 m2 by (simp add: un)
      qed
    qed
  next
    case False
    let ?k = "if t < unat len then t else unat len"
    have "take t (m_data m) = take ?k (drop (unat rxp) ?D)" using d False by (simp add: min_def)
    moreover have "unat rxp + ?k \<le> length ?D" using False N by (simp add: word_less_nat_alt not_less)
    moreover have "?k \<le> length buf" using b ul by (simp add: min_def split: if_splits)
    ultimately have "memcpy buf 0 ?D (unat rxp) ?k = Inr (overwrite buf (take t (m_data m)))"
      using memcpy_start [of "unat rxp" ?k ?D buf] by simp
    then show ?thesis
      using False g rxp [symmetric] bte [symmetric] by (simp add: v4v_copy_out_def copy_to_def Let_def)
  qed
  then show ?thesis using x len by blast
qed

lemma v4v_copy_out_dump:
  assumes h: "holds r (m # ms)"
  shows "\<exists>x. holds (r\<lparr>rx_ptr := x\<rparr>) ms \<and> v4v_copy_out r None t True =
    Inr (of_nat (length (m_data m)), Some (m_source m, m_protocol m), None, r\<lparr>rx_ptr := x\<rparr>)"
proof (rule next_message [OF h])
  fix len rxp bte :: u32
  let ?d = "if bte < len then 0 else rxp" and ?l = "if bte < len then len - bte else len"
  assume "rxp = wrap r (rx_ptr r + 16)" and "bte = rlen r - rxp" and len: "len = of_nat (length (m_data m))"
    and "\<not> v4v_ring_bytes_to_read r < 16" "\<not> v4v_ring_bytes_to_read r < 16 + len"
      "read_header r = Inr \<lparr>mh_len = 16 + len, mh_source = m_source m, mh_protocol = m_protocol m\<rparr>"
    and x: "holds (r\<lparr>rx_ptr := wrap r (?d + V4V_ROUNDUP ?l)\<rparr>) ms"
  then have "v4v_copy_out r None t True =
      Inr (len, Some (m_source m, m_protocol m), None, r\<lparr>rx_ptr := wrap r (?d + V4V_ROUNDUP ?l)\<rparr>)"
    by (simp add: v4v_copy_out_def copy_to_def Let_def)
  then show ?thesis using x len by blast
qed

lemma holds_Nil_iff: "holds r ms \<Longrightarrow> nr_pending r = 0 \<longleftrightarrow> ms = []"
proof (cases ms)
  case Nil
  moreover assume "holds r ms"
  ultimately show ?thesis using length_pending [of r] by (auto simp: holds_def elim: encode_all_NilE)
next
  case (Cons m ms')
  moreover assume "holds r ms"
  ultimately show ?thesis using next_bytes(2) [of r m ms'] by simp
qed

lemma holds_empty_iff: "holds r ms \<Longrightarrow> rx_ptr r = tx_ptr r \<longleftrightarrow> ms = []"
  using holds_Nil_iff [of r ms] by (auto simp: holds_def ring_ok_def nr_pending_def word_eq_unat split: if_splits)

lemma v4v_copy_out_empty: "holds r [] \<Longrightarrow> v4v_copy_out r buf t consume = Inr (- 1, None, buf, r)"
  using unat_bytes_to_read [of r] holds_Nil_iff [of r "[]"]
  by (simp add: v4v_copy_out_def holds_def word_less_nat_alt)

section \<open>Skipping the front of a message\<close>

text \<open>After \<open>xs\<close> has passed, with \<open>skip\<close> bytes to be left out in all.\<close>

lemma v4v_memcpy_skip_step:
  assumes s: "s + k \<le> length src" and ys: "ys = take k (drop s src)"
    and fits: "length (drop skip (xs @ ys)) \<le> length buf"
  shows "v4v_memcpy_skip (overwrite buf (drop skip xs)) (int (length xs) - int skip) src s k (skip - length xs) =
    Inr (overwrite buf (drop skip (xs @ ys)), skip - length (xs @ ys))"
proof (cases "skip \<le> length xs")
  case True
  have "memcpy (overwrite buf (drop skip xs)) (length (drop skip xs)) src s k = Inr (overwrite buf (drop skip xs @ ys))"
    unfolding ys using s fits True ys by (intro memcpy_overwrite) auto
  then show ?thesis using True by (simp add: v4v_memcpy_skip_def nat_diff_distrib)
next
  case False
  have k: "length ys = k" using s ys by simp
  have e: "drop skip xs = []" "drop skip (xs @ ys) = drop (skip - length xs) ys" using False by simp_all
  show ?thesis
  proof (cases "skip - length xs \<ge> k")
    case True
    then show ?thesis using False e k by (auto simp: v4v_memcpy_skip_def)
  next
    case short: False
    have "take (k - (skip - length xs)) (drop (s + (skip - length xs)) src) = drop (skip - length xs) ys"
      by (simp add: ys drop_take add.commute)
    then have "memcpy buf 0 src (s + (skip - length xs)) (k - (skip - length xs)) = Inr (overwrite buf (drop skip (xs @ ys)))"
      using memcpy_start [of "s + (skip - length xs)" "k - (skip - length xs)" src buf] s fits e k short by simp
    then show ?thesis using False short e k by (simp add: v4v_memcpy_skip_def nat_diff_distrib)
  qed
qed

lemmas v4v_memcpy_skip_start = v4v_memcpy_skip_step [where xs = "[]", simplified]

lemma v4v_copy_out_offset_next:
  assumes h: "holds r (m # ms)" and b: "length (drop skip (take t (m_data m))) \<le> length buf"
  shows "\<exists>x. holds (r\<lparr>rx_ptr := x\<rparr>) ms \<and> v4v_copy_out_offset r buf t consume skip =
    Inr (of_nat (length (m_data m)), Some (m_source m, m_protocol m), overwrite buf (drop skip (take t (m_data m))),
         if consume then r\<lparr>rx_ptr := x\<rparr> else r)"
proof (rule next_message [OF h])
  fix len rxp bte :: u32
  let ?D = "ring_data r" and ?d = "if bte < len then 0 else rxp" and ?l = "if bte < len then len - bte else len"
  assume rxp: "rxp = wrap r (rx_ptr r + 16)" and bte: "bte = rlen r - rxp"
    and len: "len = of_nat (length (m_data m))"
    and g: "\<not> v4v_ring_bytes_to_read r < 16" "\<not> v4v_ring_bytes_to_read r < 16 + len"
      "read_header r = Inr \<lparr>mh_len = 16 + len, mh_source = m_source m, mh_protocol = m_protocol m\<rparr>"
    and N: "unat rxp + unat bte = length ?D" and lN: "unat len \<le> length ?D"
    and d: "m_data m = (if bte < len then drop (unat rxp) ?D @ take (unat len - unat bte) ?D else take (unat len) (drop (unat rxp) ?D))"
    and diff: "bte < len \<Longrightarrow> unat (len - bte) = unat len - unat bte"
    and x: "holds (r\<lparr>rx_ptr := wrap r (?d + V4V_ROUNDUP ?l)\<rparr>) ms"
  have l: "length (drop (unat rxp) ?D) = unat bte" using N by simp
  note e = g rxp [symmetric] bte [symmetric] and un = v4v_copy_out_offset_def Let_def
  have "v4v_copy_out_offset r buf t consume skip =
    Inr (len, Some (m_source m, m_protocol m), overwrite buf (drop skip (take t (m_data m))),
         if consume then r\<lparr>rx_ptr := wrap r (?d + V4V_ROUNDUP ?l)\<rparr> else r)"
  proof (cases "bte < len")
    case True
    show ?thesis
    proof (cases "t < unat bte")
      case t: True
      then have dat: "take t (m_data m) = take t (drop (unat rxp) ?D)" using d True l by simp
      have "v4v_memcpy_skip buf (- int skip) ?D (unat rxp) t skip =
          Inr (overwrite buf (drop skip (take t (m_data m))), skip - t)"
        using v4v_memcpy_skip_start [of "unat rxp" t ?D _ skip buf] t N b dat by simp
      then show ?thesis using e True t by (simp add: un)
    next
      case t: False
      let ?k = "if t - unat bte < unat (len - bte) then t - unat bte else unat (len - bte)"
      have "take ?k (drop 0 ?D) = take (t - unat bte) (take (unat len - unat bte) ?D)"
        using diff [OF True] by (simp add: min_def)
      then have dat: "take t (m_data m) = drop (unat rxp) ?D @ take ?k ?D" using d True l t by simp
      have m1: "v4v_memcpy_skip buf (- int skip) ?D (unat rxp) (unat bte) skip =
          Inr (overwrite buf (drop skip (drop (unat rxp) ?D)), skip - unat bte)"
        using v4v_memcpy_skip_start [of "unat rxp" "unat bte" ?D _ skip buf] N b dat l by simp
      have "?k \<le> length ?D" using lN diff [OF True] by simp linarith
      then have m2: "\<exists>s'. v4v_memcpy_skip (overwrite buf (drop skip (drop (unat rxp) ?D))) (int (unat bte) - int skip) ?D 0 ?k
          (skip - unat bte) = Inr (overwrite buf (drop skip (take t (m_data m))), s')"
        using v4v_memcpy_skip_step [of 0 ?k ?D _ skip "drop (unat rxp) ?D" buf] b dat l by simp
      show ?thesis
      proof (cases "t - unat bte = 0")
        case t0: True
        then show ?thesis using e True t m1 dat by (simp add: un)
      next
        case False
        then show ?thesis using e True t m1 m2 by (auto simp: un)
      qed
    qed
  next
    case False
    let ?k = "if t < unat len then t else unat len"
    have dat: "take t (m_data m) = take ?k (drop (unat rxp) ?D)" using d False by (simp add: min_def)
    have "unat rxp + ?k \<le> length ?D" using False N by (simp add: word_less_nat_alt not_less)
    then have "\<exists>s'. v4v_memcpy_skip buf (- int skip) ?D (unat rxp) ?k skip =
        Inr (overwrite buf (drop skip (take t (m_data m))), s')"
      using v4v_memcpy_skip_start [of "unat rxp" ?k ?D _ skip buf] b dat by simp
    then show ?thesis using e False by (auto simp: un)
  qed
  then show ?thesis using x len by blast
qed

section \<open>Ring objects\<close>

lemma straighten_bounds:
  assumes "unat l \<le> 0x7FFFFFF0"
  shows "16 dvd unat (straighten l)" and "4096 \<le> unat (straighten l)" and "unat (straighten l) \<le> 0x7FFFFFF0"
    and "unat l \<le> unat (straighten l)"
proof -
  have eq: "unat (straighten l) = (if 4096 < unat l then padded (unat l) else 4096)"
  proof (cases "4096 < unat l")
    case True
    then have "l > 4096" by (simp add: word_less_nat_alt)
    then have "straighten l = V4V_ROUNDUP l" by (simp add: straighten_def V4V_ROUNDUP_def add.commute)
    then show ?thesis using True assms unat_V4V_ROUNDUP [of l] by simp
  next
    case False
    then show ?thesis by (simp add: straighten_def word_less_nat_alt)
  qed
  have "padded (unat l) \<le> 0x7FFFFFF0" using assms by (intro padded_le) simp_all
  with eq show "unat (straighten l) \<le> 0x7FFFFFF0" by simp
  show "16 dvd unat (straighten l)" "4096 \<le> unat (straighten l)" "unat l \<le> unat (straighten l)"
    using eq padded_bounds [of "unat l"] by auto
qed

text \<open>The references to a ring object: \<open>owners i\<close> contexts use it, and the list holds one more.  Every
  object that exists is in the list.\<close>

definition rings_ok :: "ring_dev \<Rightarrow> (nat \<Rightarrow> nat) \<Rightarrow> bool" where
  "rings_ok pde owners \<longleftrightarrow> distinct (ringList pde) \<and> dom (objs pde) = set (ringList pde) \<and>
     (\<forall>i. (0 < owners i) = (i \<in> set (ringList pde))) \<and>
     (\<forall>i o1. objs pde i = Some o1 \<longrightarrow> unat (refc o1) = owners i + 1)"

lemma rings_okD:
  assumes "rings_ok pde owners" and "0 < owners i"
  obtains o1 where "objs pde i = Some o1" and "unat (refc o1) = owners i + 1" and "i \<in> set (ringList pde)"
proof -
  have "i \<in> dom (objs pde)" using assms by (simp add: rings_ok_def)
  then obtain o1 where "objs pde i = Some o1" by blast
  with assms show thesis by (intro that [of o1]) (auto simp: rings_ok_def)
qed

lemma V4vLinkToRingList_ok:
  assumes ok: "rings_ok pde owners" and new: "owners i = 0" "refc o1 = 1"
  shows "\<exists>pde'. V4vLinkToRingList (pde\<lparr>objs := (objs pde)(i \<mapsto> o1)\<rparr>) i = Inr pde' \<and> rings_ok pde' (owners(i := 1))"
proof -
  have "i \<notin> set (ringList pde)" using ok new(1) unfolding rings_ok_def by (metis less_irrefl)
  then show ?thesis using assms by (auto simp: V4vLinkToRingList_def rings_ok_def)
qed

lemma V4vAddRefRing_ok:
  assumes ok: "rings_ok pde owners" and i: "0 < owners i" "owners i + 2 < 2 ^ 32"
  shows "\<exists>c pde'. V4vAddRefRing pde i = Inr (c, pde') \<and> rings_ok pde' (owners(i := owners i + 1))"
proof -
  obtain o1 where o1: "objs pde i = Some o1" "unat (refc o1) = owners i + 1" "i \<in> set (ringList pde)"
    using rings_okD [OF ok i(1)] .
  have "unat (refc o1 + 1) = owners i + 2" using o1(2) i(2) by (simp add: unat_word_ariths(1))
  then show ?thesis using ok o1 by (auto simp: V4vAddRefRing_def rings_ok_def Let_def)
qed

text \<open>The last owner's release frees the object and unregisters the ring.\<close>

lemma V4vReleaseRing_ok:
  assumes ok: "rings_ok pde owners" and i: "0 < owners i"
  shows "\<exists>c pde'. V4vReleaseRing pde i = Inr (c, pde') \<and> rings_ok pde' (owners(i := owners i - 1)) \<and>
    vlog pde' = (case objs pde i of None \<Rightarrow> [] | Some o1 \<Rightarrow>
      if owners i = 1 \<and> registered o1 then [UnregisterRing (ring_id (ring o1))] else []) @ vlog pde"
proof -
  obtain o1 where o1: "objs pde i = Some o1" "unat (refc o1) = owners i + 1" "i \<in> set (ringList pde)"
    using rings_okD [OF ok i] .
  then have "refc o1 \<noteq> 0" by auto
  then have c: "unat (refc o1 - 1) = owners i" using o1(2) by (simp add: unat_minus_one)
  show ?thesis
  proof (cases "owners i = 1")
    case True
    then have "refc o1 - 1 = 1" using c by (simp add: word_eq_unat)
    then show ?thesis using ok o1 True by (auto simp: V4vReleaseRing_def rings_ok_def Let_def dom_def)
  next
    case False
    then have "refc o1 - 1 \<noteq> 1" "refc o1 - 1 \<noteq> 0" using c i by (auto simp: word_eq_unat)
    moreover have "Suc 0 < owners i" using False i by simp
    ultimately show ?thesis using ok o1 False c by (auto simp: V4vReleaseRing_def rings_ok_def Let_def)
  qed
qed

text \<open>Ports.\<close>

lemma PortInUse_loop_spec:
  assumes "set rs \<subseteq> dom os"
  shows "\<exists>m'. PortInUse_loop os rs p ret m = Inr (ret \<or> (\<exists>i \<in> set rs. port (addr (ring_id (ring (the (os i))))) = p), m') \<and>
    m \<le> m' \<and> (\<forall>i \<in> set rs. port (addr (ring_id (ring (the (os i))))) \<le> m') \<and>
    (m' = m \<or> (\<exists>i \<in> set rs. port (addr (ring_id (ring (the (os i))))) = m'))"
  using assms
proof (induction rs arbitrary: ret m)
  case (Cons i rs)
  obtain o1 where o1: "os i = Some o1" using Cons.prems by auto
  let ?q = "port (addr (ring_id (ring o1)))"
  obtain m' where "PortInUse_loop os rs p (if ?q = p then True else ret) (if ?q > m then ?q else m) =
      Inr ((if ?q = p then True else ret) \<or> (\<exists>i \<in> set rs. port (addr (ring_id (ring (the (os i))))) = p), m')"
    and "(if ?q > m then ?q else m) \<le> m'" and "\<forall>i \<in> set rs. port (addr (ring_id (ring (the (os i))))) \<le> m'"
    and "m' = (if ?q > m then ?q else m) \<or> (\<exists>i \<in> set rs. port (addr (ring_id (ring (the (os i))))) = m')"
    using Cons.IH [of "if ?q = p then True else ret" "if ?q > m then ?q else m"] Cons.prems by auto
  then show ?case using o1 by (intro exI [of _ m']) (auto simp: Let_def split: if_splits)
qed simp

lemma V4vSparePortNumber_spare:
  assumes ok: "rings_ok pde owners"
    and max: "\<forall>i o1. objs pde i = Some o1 \<longrightarrow> port (addr (ring_id (ring o1))) \<noteq> - 1"
  shows "\<exists>q. V4vSparePortNumber pde p = Inr q \<and> (\<forall>i o1. objs pde i = Some o1 \<longrightarrow> port (addr (ring_id (ring o1))) \<noteq> q)"
proof -
  let ?P = "\<lambda>i. port (addr (ring_id (ring (the (objs pde i)))))"
  have dom: "dom (objs pde) = set (ringList pde)" using ok by (simp add: rings_ok_def)
  obtain m where m: "PortInUse_loop (objs pde) (ringList pde) p False 0x80000000 =
      Inr (\<exists>i \<in> set (ringList pde). ?P i = p, m)"
    "\<forall>i \<in> set (ringList pde). ?P i \<le> m" "m = 0x80000000 \<or> (\<exists>i \<in> set (ringList pde). ?P i = m)"
    using PortInUse_loop_spec [of "ringList pde" "objs pde" p False "0x80000000"] dom by auto
  have "m \<noteq> - 1"
  proof (cases "m = 0x80000000")
    case False
    then obtain i where "i \<in> dom (objs pde)" "?P i = m" using m(3) dom by auto
    then show ?thesis using max by auto
  qed simp
  then have "m + 1 \<noteq> 0" by (simp add: eq_neg_iff_add_eq_0)
  then have "m < m + 1" using succ_eq_0_iff [of m] by (simp add: word_less_nat_alt unat_succ)
  let ?q = "if \<exists>i \<in> set (ringList pde). ?P i = p then m + 1 else p"
  have "?P i \<noteq> ?q" if "i \<in> set (ringList pde)" for i using m(2) that \<open>m < m + 1\<close> by auto
  then have "\<forall>i o1. objs pde i = Some o1 \<longrightarrow> port (addr (ring_id (ring o1))) \<noteq> ?q"
    using dom by (metis domI option.sel)
  then show ?thesis using m(1) by (auto simp: V4vSparePortNumber_def V4vPortInUse_def)
qed

lemma V4vRandomPort_bounds: "0x80000000 \<le> V4vRandomPort rnd" "V4vRandomPort rnd \<le> 0xf0000000"
proof -
  have "(0x80000000 :: u32) \<le> rnd OR 0x80000000" by (metis le_word_or2 or.commute)
  moreover have "unat (p - 0x10000000) = unat p - 0x10000000" if "p > 0xf0000000" for p :: u32
    using that by (simp add: unat_sub_if' word_less_nat_alt)
  ultimately show "0x80000000 \<le> V4vRandomPort rnd" "V4vRandomPort rnd \<le> 0xf0000000"
    using unat_bound [of "rnd OR 0x80000000"]
    by (auto simp: V4vRandomPort_def Let_def word_le_nat_alt word_less_nat_alt)
qed

text \<open>A history of the ring objects: a context binds to a new ring, further contexts (accepters) share it,
  contexts let go of it.\<close>

datatype ring_op = BindRing nat XENV4V_RING | ShareRing nat | DropRing nat

fun ring_do :: "ring_op \<Rightarrow> ring_dev \<Rightarrow> ring_dev res" where
  "ring_do (BindRing i o1) pde = V4vLinkToRingList (pde\<lparr>objs := (objs pde)(i \<mapsto> o1)\<rparr>) i"
| "ring_do (ShareRing i) pde = res_bind (V4vAddRefRing pde i) (\<lambda>(_, pde). Inr pde)"
| "ring_do (DropRing i) pde = res_bind (V4vReleaseRing pde i) (\<lambda>(_, pde). Inr pde)"

fun ring_run :: "ring_op list \<Rightarrow> ring_dev \<Rightarrow> ring_dev res" where
  "ring_run [] pde = Inr pde"
| "ring_run (a # as) pde = res_bind (ring_do a pde) (ring_run as)"

text \<open>The history itself: how many contexts use each ring, and that only users share or drop it.\<close>

fun owners_after :: "ring_op list \<Rightarrow> (nat \<Rightarrow> nat) \<Rightarrow> (nat \<Rightarrow> nat) option" where
  "owners_after [] f = Some f"
| "owners_after (BindRing i o1 # as) f = (if f i = 0 \<and> refc o1 = 1 then owners_after as (f(i := 1)) else None)"
| "owners_after (ShareRing i # as) f =
     (if 0 < f i \<and> f i + 2 < 2 ^ 32 then owners_after as (f(i := f i + 1)) else None)"
| "owners_after (DropRing i # as) f = (if 0 < f i then owners_after as (f(i := f i - 1)) else None)"

lemma ring_run_ok:
  assumes "rings_ok pde f" and "owners_after as f = Some f'"
  shows "\<exists>pde'. ring_run as pde = Inr pde' \<and> rings_ok pde' f'"
  using assms
proof (induction as f arbitrary: pde rule: owners_after.induct)
  case (2 i o1 as f)
  then show ?case using V4vLinkToRingList_ok [of pde f i o1] by (fastforce split: if_splits)
next
  case (3 i as f)
  then show ?case using V4vAddRefRing_ok [of pde f i] by (fastforce split: if_splits)
next
  case (4 i as f)
  then show ?case using V4vReleaseRing_ok [of pde f i] by (fastforce split: if_splits)
qed simp

section \<open>Properties\<close>

text \<open>C15: reading a ring refines taking the head of the queue of messages Xen has put there.  With no
  message, \<open>v4v_copy_out\<close> returns -1 and changes nothing.  Otherwise it returns the full length of the first
  message, its source and protocol, copies at most \<open>t\<close> bytes of its data to the buffer and leaves the rest
  of the buffer alone; the message is gone afterwards if it was to be consumed, and all others are intact.
  This covers messages that wrap around the end of the ring.\<close>

theorem v4v_copy_out_refines:
  assumes "holds r ms" and "ms \<noteq> [] \<longrightarrow> min t (length (m_data (hd ms))) \<le> length buf"
  shows "\<exists>r'. v4v_copy_out r (Some buf) t consume =
      (case ms of
         [] \<Rightarrow> Inr (- 1, None, Some buf, r')
       | m # _ \<Rightarrow> Inr (of_nat (length (m_data m)), Some (m_source m, m_protocol m),
                      Some (take t (m_data m) @ drop (min t (length (m_data m))) buf), r')) \<and>
    holds r' (if consume then tl ms else ms)"
proof (cases ms)
  case Nil
  then show ?thesis using assms v4v_copy_out_empty [of r] by simp
next
  case (Cons m ms')
  obtain x where "holds (r\<lparr>rx_ptr := x\<rparr>) ms'" and "v4v_copy_out r (Some buf) t consume =
      Inr (of_nat (length (m_data m)), Some (m_source m, m_protocol m), Some (overwrite buf (take t (m_data m))),
         if consume then r\<lparr>rx_ptr := x\<rparr> else r)"
    using v4v_copy_out_next [of r m ms' t buf consume] assms Cons by auto
  then show ?thesis using Cons assms(1) by (auto simp: overwrite_def min.commute)
qed

text \<open>A ring of 64 bytes with one message of 20 bytes, whose data wraps around.\<close>

definition wrapped_data :: "u8 list" where
  "wrapped_data = map of_nat [100..<120]"

definition wrapped_ring :: v4v_ring where
  "wrapped_ring = \<lparr>magic = V4V_RING_MAGIC, ring_id = \<lparr>addr = \<lparr>port = 7, domain = 1\<rparr>, partner = 2\<rparr>, rlen = 64,
     rx_ptr = 32, tx_ptr = 16,
     ring_data = drop 16 wrapped_data @ replicate 28 0 @
       le_bytes 4 36 @ le_bytes 4 5 @ le_bytes 2 3 @ [0, 0] @ le_bytes 4 (unat V4V_PROTO_STREAM) @ take 16 wrapped_data\<rparr>"

definition wrapped_message :: v4v_message where
  "wrapped_message = \<lparr>m_source = \<lparr>port = 5, domain = 3\<rparr>, m_protocol = V4V_PROTO_STREAM, m_data = wrapped_data\<rparr>"

lemma wrapped_ring_holds: "holds wrapped_ring [wrapped_message]"
proof -
  let ?A = "drop 16 wrapped_data @ replicate 28 0"
  let ?H = "le_bytes 4 36 @ le_bytes 4 5 @ le_bytes 2 3 @ [0, 0] @ le_bytes 4 (unat V4V_PROTO_STREAM)"
  have w: "length wrapped_data = 20" by (simp add: wrapped_data_def)
  have "ring_data wrapped_ring = ?A @ ?H @ take 16 wrapped_data" "rx_ptr wrapped_ring = 32" "nr_pending wrapped_ring = 48"
    by (simp_all add: wrapped_ring_def nr_pending_def)
  then have p0: "pending wrapped_ring = take 48 (rotate 32 (?A @ ?H @ take 16 wrapped_data))"
    by (simp add: pending_def)
  have "rotate 32 (?A @ ?H @ take 16 wrapped_data) = (?H @ take 16 wrapped_data) @ ?A"
    using w rotate_append [of ?A "?H @ take 16 wrapped_data"] by simp
  then have "pending wrapped_ring = ?H @ take 16 wrapped_data @ take 16 ?A"
    unfolding p0 using w by simp
  moreover have "take 16 ?A = drop 16 wrapped_data @ replicate 12 0" using w by (simp add: take_replicate)
  ultimately have p: "pending wrapped_ring = ?H @ wrapped_data @ replicate 12 0" by (metis append.assoc append_take_drop_id)
  have "encodes (pending wrapped_ring) wrapped_message"
    unfolding encodes_def p
    using w by (simp add: wrapped_message_def padded_def)
  then have "encode_all (pending wrapped_ring) [wrapped_message]"
    using encode_all.intros(2) [OF _ encode_all.intros(1)] by fastforce
  moreover have "ring_ok wrapped_ring"
    by (simp add: ring_ok_def wrapped_ring_def wrapped_data_def)
  ultimately show ?thesis by (simp add: holds_def)
qed

lemma v4v_copy_out_refines_witness:
  "holds wrapped_ring [wrapped_message] \<and>
   (\<exists>r'. v4v_copy_out wrapped_ring (Some (replicate 24 0)) 24 True =
      Inr (20, Some (\<lparr>port = 5, domain = 3\<rparr>, V4V_PROTO_STREAM), Some (wrapped_data @ replicate 4 0), r') \<and> holds r' [])"
  using v4v_copy_out_refines [of wrapped_ring "[wrapped_message]" 24 "replicate 24 0" True] wrapped_ring_holds
  by (simp add: wrapped_message_def wrapped_data_def)

text \<open>reading with an offset leaves out the first \<open>skip\<close> bytes of a message (the stream header) and puts
  the data behind them at the start of the buffer, also when the offset or the data wraps around the
  end of the ring; nothing is written before or behind the buffer.\<close>

theorem v4v_copy_out_offset_correct:
  assumes "holds r (m # ms)" and "length (drop skip (take t (m_data m))) \<le> length buf"
  shows "\<exists>r'. v4v_copy_out_offset r buf t True skip =
      Inr (of_nat (length (m_data m)), Some (m_source m, m_protocol m),
           drop skip (take t (m_data m)) @ drop (length (drop skip (take t (m_data m)))) buf, r') \<and>
    holds r' ms"
  using v4v_copy_out_offset_next [OF assms, of True] by (auto simp: overwrite_def)

lemma v4v_copy_out_offset_correct_witness:
  "holds wrapped_ring [wrapped_message] \<and>
   (\<exists>r'. v4v_copy_out_offset wrapped_ring (replicate 12 0) 28 True 8 =
      Inr (20, Some (\<lparr>port = 5, domain = 3\<rparr>, V4V_PROTO_STREAM), drop 8 wrapped_data, r') \<and> holds r' [])"
  using v4v_copy_out_offset_correct [of wrapped_ring wrapped_message "[]" 8 28 "replicate 12 0"] wrapped_ring_holds
  by (simp add: wrapped_message_def wrapped_data_def)

text \<open>C40: a ring for a length of at most 0x7FFFFFF0 bytes (the longest whose length, rounded up to 16, a
  signed 32-bit integer holds) is allocated exactly when the three allocations succeed, and otherwise
  nothing is returned.  It is well formed and empty, at least as long as asked for, and its page list has
  one entry for each page of header and ring: the entry at position \<open>i\<close> is the physical page at \<open>i\<close> pages
  behind the start of the ring, so that every byte of header and ring lies in a page of the list.\<close>

theorem V4vAllocateRing_well_formed:
  assumes "unat l \<le> 0x7FFFFFF0"
  shows "if alloc1 \<and> alloc2 \<and> alloc3
    then \<exists>o1. V4vAllocateRing alloc1 alloc2 alloc3 pa buf (straighten l) = Inr (Some o1) \<and> holds (ring o1) [] \<and>
      refc o1 = 1 \<and> \<not> registered o1 \<and> magic (ring o1) = V4V_RING_MAGIC \<and> unat l \<le> length (ring_data (ring o1)) \<and>
      pl_magic (pfnList o1) = V4V_PFN_LIST_MAGIC \<and> length (pages (pfnList o1)) = unat (npage (pfnList o1)) \<and>
      length (pages (pfnList o1)) = (60 + length (ring_data (ring o1)) + 4095) div 4096 \<and>
      (\<forall>i < length (pages (pfnList o1)). pages (pfnList o1) ! i = pfn_of (pa (buf + of_nat i * 4096))) \<and>
      (\<forall>k < 60 + length (ring_data (ring o1)). k div 4096 < length (pages (pfnList o1)))
    else V4vAllocateRing alloc1 alloc2 alloc3 pa buf (straighten l) = Inr None"
proof -
  note b = straighten_bounds [OF assms]
  let ?L = "straighten l"
  have u: "unat (?L + 60) = unat ?L + 60" using b(3) by (simp add: unat_word_ariths(1))
  have "?L + 60 + V4V_PAGE_SIZE - 1 = ?L + 4155" by simp
  moreover have "unat (?L + 4155) = unat ?L + 60 + 4095" using b(3) by (simp add: unat_word_ariths(1))
  ultimately have np: "unat (drop_bit 12 (?L + 60 + V4V_PAGE_SIZE - 1)) = (unat ?L + 60 + 4095) div 4096"
    by (simp only: unat_drop_bit) simp
  let ?n = "(unat ?L + 60 + 4095) div 4096"
  have cover: "k div 4096 < ?n" if "k < 60 + unat ?L" for k
  proof (rule less_mult_imp_div_less)
    show "k < ?n * 4096" using that dividend_less_div_times [of 4096 "unat ?L + 60 + 4095"] by linarith
  qed
  let ?r = "\<lparr>magic = V4V_RING_MAGIC, ring_id = \<lparr>addr = \<lparr>port = V4V_PORT_NONE, domain = DOMID_INVALID\<rparr>, partner = 0\<rparr>,
    rlen = ?L, rx_ptr = 0, tx_ptr = 0, ring_data = replicate (unat ?L) 0\<rparr>"
  have empty: "holds ?r []" using b encode_all.intros(1)
    by (simp add: holds_def ring_ok_def pending_def nr_pending_def)
  show ?thesis
  proof (cases "alloc1 \<and> alloc2 \<and> alloc3")
    case True
    define o1 where "o1 = \<lparr>refc = 1, ring = ?r,
      pfnList = \<lparr>pl_magic = V4V_PFN_LIST_MAGIC, npage = drop_bit 12 (?L + 60 + V4V_PAGE_SIZE - 1),
        pages = map (\<lambda>i. pfn_of (pa (buf + of_nat i * 4096))) [0..<?n]\<rparr>, registered = False\<rparr>"
    have "V4vAllocateRing alloc1 alloc2 alloc3 pa buf ?L = Inr (Some o1)"
      using True np u by (simp add: V4vAllocateRing_def V4vAllocatePfnList_def Let_def o1_def)
    moreover have "length (pages (pfnList o1)) = ?n" "length (ring_data (ring o1)) = unat ?L" "ring o1 = ?r"
      "unat (npage (pfnList o1)) = ?n"
      using np by (simp_all add: o1_def)
    moreover have "pages (pfnList o1) ! i = pfn_of (pa (buf + of_nat i * 4096))" if "i < ?n" for i
      using that by (simp add: o1_def)
    moreover have "refc o1 = 1 \<and> \<not> registered o1 \<and> pl_magic (pfnList o1) = V4V_PFN_LIST_MAGIC"
      by (simp add: o1_def)
    ultimately show ?thesis using True empty cover b(4)
      by (simp only: if_True simp_thms) (intro exI [of _ o1], simp add: add.commute [of 60])
  next
    case False
    then show ?thesis using u
      by (simp only: if_False) (auto simp: V4vAllocateRing_def V4vAllocatePfnList_def Let_def)
  qed
qed

lemma V4vAllocateRing_well_formed_witness:
  "unat (5000 :: u32) \<le> 0x7FFFFFF0 \<and>
   (\<exists>o1. V4vAllocateRing True True True (\<lambda>a. a) 0x10000 (straighten 5000) = Inr (Some o1) \<and>
      holds (ring o1) [] \<and> 5000 \<le> length (ring_data (ring o1)) \<and>
      (\<forall>i < length (pages (pfnList o1)). pages (pfnList o1) ! i = pfn_of (0x10000 + of_nat i * 4096)))"
  using V4vAllocateRing_well_formed [of 5000 True True True "\<lambda>a. a" "0x10000"] by auto

text \<open>a length near the end of the 32-bit range wraps around when the header is added: the allocation is
  then smaller than the header, and writing the header runs over its end.\<close>

theorem V4vAllocateRing_overflows:
  "straighten 0xFFFFFFD0 = 0xFFFFFFD0 \<and> V4vAllocateRing True True True pa buf (straighten 0xFFFFFFD0) = Inl BadPointer"
  by (simp add: straighten_def V4vAllocateRing_def)


definition fresh_ring :: XENV4V_RING where
  "fresh_ring = \<lparr>refc = 1, ring = wrapped_ring, pfnList = \<lparr>pl_magic = V4V_PFN_LIST_MAGIC, npage = 1, pages = [16]\<rparr>,
     registered = True\<rparr>"


end
