(* ===== verification/V4vQueue.thy ===== *)
theory V4vQueue
  imports V4vRing "HOL-Library.Sublist"
begin

text \<open>
  The queue of pending requests of the V4V driver: \<^verbatim>\<open>src/xenv4v/csq.c\<close>, the callbacks of a Windows
  cancel-safe queue, and the loops of \<^verbatim>\<open>create.c\<close> and \<^verbatim>\<open>rw.c\<close> that cancel and requeue requests.

  \<^item> A request (\<open>irp\<close>) is named by a number.  \<open>flags\<close> is its \<^verbatim>\<open>DriverContext[0]\<close>, \<open>idst\<close> its
    \<^verbatim>\<open>DriverContext[1]\<close>, \<open>buf_dst\<close> the address at the start of its buffer (or in its reset record).
  \<^item> Besides the queue the driver keeps, per destination that writes are pending for, a
    \<open>XENV4V_DESTINATION\<close> with a chain of those writes through their \<open>idst\<close>.  It is what Xen is asked about:
    whether the next write would fit.
  \<^item> \<open>V4vQueue\<close> shows that the chains always are the writes of the queue in queue order, and interprets the
    contract of a cancel-safe queue, \<open>csq_contract\<close>, on the callbacks.
  \<^item> The loops over a chain have fuel: one more than the number of queued requests, which bounds every
    chain without a cycle.
\<close>

section \<open>Data\<close>

abbreviation (input) XENV4V_PEEK_DGRAM :: u32 where "XENV4V_PEEK_DGRAM \<equiv> 0x00000001"
abbreviation (input) XENV4V_PEEK_STREAM :: u32 where "XENV4V_PEEK_STREAM \<equiv> 0x00000002"
abbreviation (input) XENV4V_PEEK_ANY_TYPE :: u32 where "XENV4V_PEEK_ANY_TYPE \<equiv> 0x0000ffff"
abbreviation (input) XENV4V_PEEK_ACCEPT :: u32 where "XENV4V_PEEK_ACCEPT \<equiv> 0x00010000"
abbreviation (input) XENV4V_PEEK_SYN :: u32 where "XENV4V_PEEK_SYN \<equiv> 0x00100000"
abbreviation (input) XENV4V_PEEK_ACK :: u32 where "XENV4V_PEEK_ACK \<equiv> 0x00200000"
abbreviation (input) XENV4V_PEEK_RST :: u32 where "XENV4V_PEEK_RST \<equiv> 0x00400000"
abbreviation (input) XENV4V_PEEK_READ :: u32 where "XENV4V_PEEK_READ \<equiv> 0x01000000"
abbreviation (input) XENV4V_PEEK_WRITE :: u32 where "XENV4V_PEEK_WRITE \<equiv> 0x02000000"
abbreviation (input) XENV4V_PEEK_IOCTL :: u32 where "XENV4V_PEEK_IOCTL \<equiv> 0x04000000"
abbreviation (input) XENV4V_PEEK_ANY_OP :: u32 where "XENV4V_PEEK_ANY_OP \<equiv> 0xffff0000"
abbreviation (input) XENV4V_MAX_IRP_COUNT :: int where "XENV4V_MAX_IRP_COUNT \<equiv> 65536"

record XENV4V_DESTINATION =
  drefc :: u32
  nextLength :: u32
  nextIrp :: "nat option"
  dst :: v4v_addr

record irp =
  flags :: u32
  FileObject :: nat
  wlen :: u32
  buf_dst :: v4v_addr
  idst :: "XENV4V_DESTINATION option"

record XENV4V_QPEEK =
  pfo :: "nat option"
  types :: u32
  ops :: u32
  pdst :: v4v_addr

type_synonym irps = "nat \<Rightarrow> irp option"

text \<open>\<open>sdst\<close> is the stream destination of the context of a file; \<open>irps\<close> are the requests that
  the driver has not completed and \<open>completed\<close> records the others with status and information.\<close>

record csq_dev =
  irps :: irps
  sdst :: "nat \<Rightarrow> v4v_addr"
  pendingIrpQueue :: "nat list"
  pendingIrpCount :: int
  destList :: "XENV4V_DESTINATION list"
  destCount :: int
  completed :: "(nat \<times> NTSTATUS \<times> u32) list"

definition has :: "u32 \<Rightarrow> u32 \<Rightarrow> bool" where
  "has f bits \<longleftrightarrow> f AND bits \<noteq> 0"

section \<open>Operations\<close>

definition PAYLOAD_DATA_LEN :: "irp \<Rightarrow> u32" where
  "PAYLOAD_DATA_LEN i =
     (if has (flags i) (XENV4V_PEEK_SYN OR XENV4V_PEEK_ACK OR XENV4V_PEEK_RST) then 8
      else if has (flags i) XENV4V_PEEK_STREAM then wlen i + 8
      else wlen i - 6)"

definition V4vCsqGetDestination :: "csq_dev \<Rightarrow> irp \<Rightarrow> v4v_addr" where
  "V4vCsqGetDestination pde i =
     (if has (flags i) XENV4V_PEEK_RST then buf_dst i
      else if has (flags i) XENV4V_PEEK_STREAM then sdst pde (FileObject i)
      else buf_dst i)"

definition V4vCsqPeekTest :: "irp \<Rightarrow> XENV4V_QPEEK \<Rightarrow> bool res" where
  "V4vCsqPeekTest i qp =
     (if has (types qp) (flags i AND XENV4V_PEEK_ANY_TYPE) \<and> has (ops qp) (flags i AND XENV4V_PEEK_ANY_OP) then
        case pfo qp of
          None \<Rightarrow>
            if domain (pdst qp) = DOMID_INVALID then Inr True
            else (case idst i of None \<Rightarrow> Inl BadPointer | Some d \<Rightarrow> Inr (pdst qp = dst d))
        | Some f \<Rightarrow> Inr (FileObject i = f)
      else Inr False)"

text \<open>Walking to the end of the chain that starts with \<open>cur\<close> and appending \<open>new\<close> there.\<close>

fun Chain_end :: "nat \<Rightarrow> irps \<Rightarrow> nat \<Rightarrow> nat \<Rightarrow> irps res" where
  "Chain_end 0 is cur new = Inl NoReturn"
| "Chain_end (Suc n) is cur new =
     (case is cur of
        None \<Rightarrow> Inl BadPointer
      | Some c \<Rightarrow>
          (case idst c of
             None \<Rightarrow> Inl BadPointer
           | Some d \<Rightarrow>
               (case nextIrp d of
                  None \<Rightarrow> Inr (is(cur \<mapsto> c\<lparr>idst := Some (d\<lparr>nextIrp := Some new\<rparr>)\<rparr>))
                | Some nx \<Rightarrow> Chain_end n is nx new)))"

definition V4vCsqChainIrp ::
  "nat \<Rightarrow> irps \<Rightarrow> XENV4V_DESTINATION \<Rightarrow> nat \<Rightarrow> bool \<Rightarrow> (XENV4V_DESTINATION \<times> irps) res" where
  "V4vCsqChainIrp n is xdst irp front =
     (if \<not> front then
        (case nextIrp xdst of
           None \<Rightarrow> Inr (xdst, is)
         | Some nx \<Rightarrow> res_bind (Chain_end n is nx irp) (\<lambda>is. Inr (xdst, is)))
      else
        case is irp of
          None \<Rightarrow> Inl BadPointer
        | Some i \<Rightarrow>
            (case idst i of
               None \<Rightarrow> Inl BadPointer
             | Some d \<Rightarrow>
                 Inr (xdst\<lparr>nextIrp := Some irp, nextLength := PAYLOAD_DATA_LEN i\<rparr>,
                      is(irp \<mapsto> i\<lparr>idst := Some (d\<lparr>nextIrp := nextIrp xdst\<rparr>)\<rparr>))))"

text \<open>\<open>irpLast\<close> is the request before \<open>cur\<close> in the chain.  The pointer of the unchained request, which its caller
  frees at once, is left as it is.\<close>

fun Unchain_loop ::
  "nat \<Rightarrow> irps \<Rightarrow> XENV4V_DESTINATION \<Rightarrow> nat \<Rightarrow> nat option \<Rightarrow> nat \<Rightarrow> (XENV4V_DESTINATION \<times> irps) res" where
  "Unchain_loop 0 is xdst irp irpLast cur = Inl NoReturn"
| "Unchain_loop (Suc n) is xdst irp irpLast cur =
     (case is cur of
        None \<Rightarrow> Inl BadPointer
      | Some c \<Rightarrow>
          (case idst c of
             None \<Rightarrow> Inl BadPointer
           | Some d \<Rightarrow>
               if irp = cur then
                 (case irpLast of
                    None \<Rightarrow>
                      (case nextIrp d of
                         None \<Rightarrow> Inr (xdst\<lparr>nextIrp := None\<rparr>, is)
                       | Some nx \<Rightarrow>
                           (case is nx of
                              None \<Rightarrow> Inl BadPointer
                            | Some i \<Rightarrow> Inr (xdst\<lparr>nextIrp := Some nx, nextLength := PAYLOAD_DATA_LEN i\<rparr>, is)))
                  | Some l \<Rightarrow>
                      (case is l of
                         None \<Rightarrow> Inl BadPointer
                       | Some li \<Rightarrow>
                           (case idst li of
                              None \<Rightarrow> Inl BadPointer
                            | Some ld \<Rightarrow> Inr (xdst, is(l \<mapsto> li\<lparr>idst := Some (ld\<lparr>nextIrp := nextIrp d\<rparr>)\<rparr>)))))
               else
                 (case nextIrp d of
                    None \<Rightarrow> Inr (xdst, is)
                  | Some nx \<Rightarrow> Unchain_loop n is xdst irp (Some cur) nx)))"

definition V4vCsqUnchainIrp :: "nat \<Rightarrow> irps \<Rightarrow> XENV4V_DESTINATION \<Rightarrow> nat \<Rightarrow> (XENV4V_DESTINATION \<times> irps) res" where
  "V4vCsqUnchainIrp n is xdst irp =
     (case nextIrp xdst of
        None \<Rightarrow> Inl BadPointer
      | Some cur \<Rightarrow> Unchain_loop n is xdst irp None cur)"

text \<open>The search for the destination; \<open>None\<close> when the list has no entry for it.\<close>

fun Link_loop ::
  "nat \<Rightarrow> irps \<Rightarrow> nat \<Rightarrow> bool \<Rightarrow> v4v_addr \<Rightarrow> XENV4V_DESTINATION list \<Rightarrow> (XENV4V_DESTINATION list \<times> irps) option res" where
  "Link_loop n is irp front d [] = Inr None"
| "Link_loop n is irp front d (xdst # xs) =
     (if dst xdst = d
      then res_bind (V4vCsqChainIrp n is (xdst\<lparr>drefc := drefc xdst + 1\<rparr>) irp front) (\<lambda>(xdst, is). Inr (Some (xdst # xs, is)))
      else res_bind (Link_loop n is irp front d xs) (\<lambda>r. Inr (map_option (\<lambda>(xs, is). (xdst # xs, is)) r)))"

text \<open>\<open>alloc1\<close> and \<open>alloc2\<close>: the two allocations from the lookaside list succeed.\<close>

definition V4vCsqLinkDestination :: "csq_dev \<Rightarrow> nat \<Rightarrow> bool \<Rightarrow> bool \<Rightarrow> bool \<Rightarrow> (bool \<times> csq_dev) res" where
  "V4vCsqLinkDestination pde irp front alloc1 alloc2 =
     (case irps pde irp of
        None \<Rightarrow> Inl BadPointer
      | Some i \<Rightarrow>
          let d = V4vCsqGetDestination pde i;
              set_idst = (\<lambda>v. (irps pde)(irp \<mapsto> i\<lparr>idst := v\<rparr>))
          in if \<not> alloc1 then Inr (False, pde\<lparr>irps := set_idst None\<rparr>)
             else
               let is = set_idst (Some \<lparr>drefc = 0, nextLength = 0, nextIrp = None, dst = d\<rparr>)
               in res_bind (Link_loop (length (pendingIrpQueue pde) + 1) is irp front d (destList pde)) (\<lambda>r.
                    case r of
                      Some (xs, is) \<Rightarrow> Inr (True, pde\<lparr>irps := is, destList := xs\<rparr>)
                    | None \<Rightarrow>
                        if \<not> alloc2 then Inr (False, pde\<lparr>irps := set_idst None\<rparr>)
                        else Inr (True, pde\<lparr>irps := is,
                               destList := destList pde @ [\<lparr>drefc = 1, nextLength = PAYLOAD_DATA_LEN i, nextIrp = Some irp, dst = d\<rparr>],
                               destCount := destCount pde + 1\<rparr>)))"

fun Unlink_loop ::
  "nat \<Rightarrow> irps \<Rightarrow> nat \<Rightarrow> v4v_addr \<Rightarrow> XENV4V_DESTINATION list \<Rightarrow> (XENV4V_DESTINATION list \<times> irps \<times> int) res" where
  "Unlink_loop n is irp d [] = Inr ([], is, 0)"
| "Unlink_loop n is irp d (xdst # xs) =
     (if dst xdst = d
      then res_bind (V4vCsqUnchainIrp n is xdst irp) (\<lambda>(xdst, is).
             case is irp of
               None \<Rightarrow> Inl BadPointer
             | Some i \<Rightarrow>
                 let is = is(irp \<mapsto> i\<lparr>idst := None\<rparr>); xdst = xdst\<lparr>drefc := drefc xdst - 1\<rparr>
                 in Inr (if drefc xdst = 0 then (xs, is, - 1) else (xdst # xs, is, 0)))
      else res_bind (Unlink_loop n is irp d xs) (\<lambda>(xs, is, k). Inr (xdst # xs, is, k)))"

definition V4vCsqUnlinkDestination :: "csq_dev \<Rightarrow> nat \<Rightarrow> csq_dev res" where
  "V4vCsqUnlinkDestination pde irp =
     (case irps pde irp of
        None \<Rightarrow> Inl BadPointer
      | Some i \<Rightarrow>
          (case idst i of
             None \<Rightarrow> Inl BadPointer
           | Some d \<Rightarrow>
               res_bind (Unlink_loop (length (pendingIrpQueue pde) + 1) (irps pde) irp (dst d) (destList pde)) (\<lambda>(xs, is, k).
                 Inr (pde\<lparr>irps := is, destList := xs, destCount := destCount pde + k\<rparr>))))"

definition V4vCsqInsertIrpEx :: "csq_dev \<Rightarrow> nat \<Rightarrow> bool \<Rightarrow> bool \<Rightarrow> bool \<Rightarrow> (NTSTATUS \<times> csq_dev) res" where
  "V4vCsqInsertIrpEx pde irp insertHead alloc1 alloc2 =
     (case irps pde irp of
        None \<Rightarrow> Inl BadPointer
      | Some i \<Rightarrow>
          if pendingIrpCount pde = XENV4V_MAX_IRP_COUNT then Inr (STATUS_QUOTA_EXCEEDED, pde)
          else res_bind
                 (if has (flags i) XENV4V_PEEK_WRITE then V4vCsqLinkDestination pde irp insertHead alloc1 alloc2
                  else Inr (True, pde))
                 (\<lambda>(linked, pde).
                   if \<not> linked then Inr (STATUS_NO_MEMORY, pde)
                   else Inr (STATUS_SUCCESS,
                     pde\<lparr>pendingIrpQueue :=
                            (if \<not> insertHead then pendingIrpQueue pde @ [irp] else irp # pendingIrpQueue pde),
                          pendingIrpCount := pendingIrpCount pde + 1\<rparr>)))"

definition V4vCsqRemoveIrp :: "csq_dev \<Rightarrow> nat \<Rightarrow> csq_dev res" where
  "V4vCsqRemoveIrp pde irp =
     (case irps pde irp of
        None \<Rightarrow> Inl BadPointer
      | Some i \<Rightarrow>
          res_bind (if has (flags i) XENV4V_PEEK_WRITE then V4vCsqUnlinkDestination pde irp else Inr pde) (\<lambda>pde.
            Inr (pde\<lparr>pendingIrpQueue := remove1 irp (pendingIrpQueue pde), pendingIrpCount := pendingIrpCount pde - 1\<rparr>)))"

fun Peek_loop :: "irps \<Rightarrow> XENV4V_QPEEK option \<Rightarrow> nat list \<Rightarrow> nat option res" where
  "Peek_loop is qp [] = Inr None"
| "Peek_loop is qp (j # js) =
     (case qp of
        None \<Rightarrow> Inr (Some j)
      | Some q \<Rightarrow>
          (case is j of
             None \<Rightarrow> Inl BadPointer
           | Some i \<Rightarrow> res_bind (V4vCsqPeekTest i q) (\<lambda>b. if b then Inr (Some j) else Peek_loop is qp js)))"

definition V4vCsqPeekNextIrp :: "csq_dev \<Rightarrow> nat option \<Rightarrow> XENV4V_QPEEK option \<Rightarrow> nat option res" where
  "V4vCsqPeekNextIrp pde irp qp =
     Peek_loop (irps pde) qp
       (case irp of None \<Rightarrow> pendingIrpQueue pde | Some j \<Rightarrow> tl (dropWhile (\<lambda>x. x \<noteq> j) (pendingIrpQueue pde)))"

text \<open>\<^verbatim>\<open>IoCsqRemoveNextIrp\<close> of Windows, built on the callbacks: the first request that matches is taken out of
  the queue.\<close>

definition IoCsqRemoveNextIrp :: "csq_dev \<Rightarrow> XENV4V_QPEEK \<Rightarrow> (nat option \<times> csq_dev) res" where
  "IoCsqRemoveNextIrp pde qp =
     res_bind (V4vCsqPeekNextIrp pde None (Some qp)) (\<lambda>r.
       case r of
         None \<Rightarrow> Inr (None, pde)
       | Some irp \<Rightarrow> res_bind (V4vCsqRemoveIrp pde irp) (\<lambda>pde. Inr (Some irp, pde)))"

text \<open>The entries Xen is asked about: destination and space required.  Reading on behind the end of the list
  is a fault.\<close>

fun Copy_loop :: "nat \<Rightarrow> XENV4V_DESTINATION list \<Rightarrow> (v4v_addr \<times> u32) list res" where
  "Copy_loop 0 xs = Inr []"
| "Copy_loop (Suc n) [] = Inl BadPointer"
| "Copy_loop (Suc n) (xdst # xs) = res_bind (Copy_loop n xs) (\<lambda>es. Inr ((dst xdst, nextLength xdst) # es))"

definition V4vCopyDestinationRingData :: "bool \<Rightarrow> csq_dev \<Rightarrow> (v4v_addr \<times> u32) list option res" where
  "V4vCopyDestinationRingData alloc pde =
     (if \<not> alloc then Inr None
      else res_bind (Copy_loop (nat (destCount pde)) (destList pde)) (\<lambda>es. Inr (Some es)))"

definition V4vCompleteIrp :: "csq_dev \<Rightarrow> nat \<Rightarrow> NTSTATUS \<Rightarrow> u32 \<Rightarrow> csq_dev" where
  "V4vCompleteIrp pde irp status information =
     pde\<lparr>irps := (irps pde)(irp := None), completed := (irp, status, information) # completed pde\<rparr>"

definition V4vSimpleCompleteIrp :: "csq_dev \<Rightarrow> nat \<Rightarrow> NTSTATUS \<Rightarrow> csq_dev" where
  "V4vSimpleCompleteIrp pde irp status = V4vCompleteIrp pde irp status 0"

definition V4vInitializeIrp :: "csq_dev \<Rightarrow> nat \<Rightarrow> csq_dev" where
  "V4vInitializeIrp pde irp = pde\<lparr>irps := (irps pde)(irp := map_option (\<lambda>i. i\<lparr>flags := 0, idst := None\<rparr>) (irps pde irp))\<rparr>"

lemma Peek_loop_mem: "Peek_loop is qp js = Inr (Some j) \<Longrightarrow> j \<in> set js"
  by (induction js) (auto simp: res_bind_Inr_iff split: option.splits if_splits)

lemma IoCsqRemoveNextIrp_shrinks:
  assumes "IoCsqRemoveNextIrp pde qp = Inr (Some irp, pde')"
  shows "length (pendingIrpQueue pde') < length (pendingIrpQueue pde)"
proof -
  have q: "V4vCsqUnlinkDestination pde irp = Inr p \<Longrightarrow> pendingIrpQueue p = pendingIrpQueue pde" for p
    by (auto simp: V4vCsqUnlinkDestination_def res_bind_Inr_iff split: option.splits)
  have m: "irp \<in> set (pendingIrpQueue pde)" and r: "V4vCsqRemoveIrp pde irp = Inr pde'"
    using assms by (auto simp: IoCsqRemoveNextIrp_def V4vCsqPeekNextIrp_def res_bind_Inr_iff dest: Peek_loop_mem split: option.splits)
  from r q have "pendingIrpQueue pde' = remove1 irp (pendingIrpQueue pde)"
    by (auto simp: V4vCsqRemoveIrp_def res_bind_Inr_iff split: option.splits if_splits)
  then show ?thesis using m length_pos_if_in_set [OF m] by (simp add: length_remove1)
qed

function V4vCancelAllFileIrps :: "csq_dev \<Rightarrow> nat \<Rightarrow> csq_dev res" where
  "V4vCancelAllFileIrps pde f =
     (case IoCsqRemoveNextIrp pde
             \<lparr>pfo = Some f, types = XENV4V_PEEK_ANY_TYPE, ops = XENV4V_PEEK_WRITE, pdst = \<lparr>port = 0, domain = 0\<rparr>\<rparr> of
        Inl e \<Rightarrow> Inl e
      | Inr (None, pde) \<Rightarrow> Inr pde
      | Inr (Some irp, pde) \<Rightarrow> V4vCancelAllFileIrps (V4vSimpleCompleteIrp pde irp STATUS_CANCELLED) f)"
  by pat_completeness auto

termination
  by (relation "measure (\<lambda>(pde, _). length (pendingIrpQueue pde))")
    (auto dest!: IoCsqRemoveNextIrp_shrinks simp: V4vSimpleCompleteIrp_def V4vCompleteIrp_def)

declare V4vCancelAllFileIrps.simps [simp del]

text \<open>\<open>alloc\<close> answers the allocations of the \<open>n\<close>-th insertion.\<close>

fun V4vRequeueIrps :: "(nat \<Rightarrow> bool \<times> bool) \<Rightarrow> nat \<Rightarrow> csq_dev \<Rightarrow> nat list \<Rightarrow> csq_dev res" where
  "V4vRequeueIrps alloc n pde [] = Inr pde"
| "V4vRequeueIrps alloc n pde (irp # is) =
     res_bind (V4vCsqInsertIrpEx pde irp False (fst (alloc n)) (snd (alloc n))) (\<lambda>(status, pde).
       V4vRequeueIrps alloc (n + 1)
         (if status \<noteq> STATUS_SUCCESS then V4vSimpleCompleteIrp pde irp status else pde) is)"

section \<open>Chains\<close>

text \<open>The requests \<open>p\<close> leads to.\<close>

fun linked :: "irps \<Rightarrow> nat option \<Rightarrow> nat list \<Rightarrow> bool" where
  "linked is p [] \<longleftrightarrow> p = None"
| "linked is p (j # js) \<longleftrightarrow> p = Some j \<and> (\<exists>c d. is j = Some c \<and> idst c = Some d \<and> linked is (nextIrp d) js)"

text \<open>What a request is, without its place in a chain.\<close>

definition core :: "irp \<Rightarrow> u32 \<times> nat \<times> u32 \<times> v4v_addr \<times> v4v_addr option" where
  "core c = (flags c, FileObject c, wlen c, buf_dst c, map_option dst (idst c))"

definition same_irps :: "irps \<Rightarrow> irps \<Rightarrow> bool" where
  "same_irps is is' \<longleftrightarrow> (\<forall>j. map_option core (is' j) = map_option core (is j))"

definition payload :: "irps \<Rightarrow> nat \<Rightarrow> u32" where
  "payload is j = (case is j of None \<Rightarrow> 0 | Some c \<Rightarrow> PAYLOAD_DATA_LEN c)"

lemma same_irps_refl [simp]: "same_irps is is"
  by (simp add: same_irps_def)

lemma same_irps_link: "is j = Some c \<Longrightarrow> idst c = Some d \<Longrightarrow> same_irps is (is(j \<mapsto> c\<lparr>idst := Some (d\<lparr>nextIrp := p\<rparr>)\<rparr>))"
  by (simp add: same_irps_def core_def)

lemma same_irps_payload: "same_irps is is' \<Longrightarrow> payload is' j = payload is j"
proof -
  assume "same_irps is is'"
  then have "map_option core (is' j) = map_option core (is j)" by (simp add: same_irps_def)
  then show ?thesis by (cases "is j"; cases "is' j") (auto simp: payload_def core_def PAYLOAD_DATA_LEN_def)
qed

lemma linked_cong: "(\<And>j. j \<in> set xs \<Longrightarrow> is' j = is j) \<Longrightarrow> linked is' p xs = linked is p xs"
  by (induction xs arbitrary: p) auto

lemma linked_upd [simp]: "j \<notin> set xs \<Longrightarrow> linked (is(j := v)) p xs = linked is p xs"
  by (rule linked_cong) auto

lemma linked_hd: "linked is p xs \<Longrightarrow> xs \<noteq> [] \<Longrightarrow> p = Some (hd xs)"
  by (cases xs) auto

lemma Chain_end_spec:
  assumes "linked is (Some cur) xs" "distinct xs" "new \<notin> set xs" "length xs \<le> n"
    and "is new = Some c" "idst c = Some d" "nextIrp d = None"
  shows "\<exists>is'. Chain_end n is cur new = Inr is' \<and> linked is' (Some cur) (xs @ [new]) \<and> same_irps is is' \<and>
    (\<forall>j. j \<notin> set xs \<longrightarrow> is' j = is j)"
  using assms(1-4)
proof (induction xs arbitrary: cur n)
  case (Cons x ys)
  obtain m where n: "n = Suc m" using Cons.prems(4) by (cases n) auto
  obtain cx dx where x: "cur = x" "is x = Some cx" "idst cx = Some dx" "linked is (nextIrp dx) ys"
    using Cons.prems(1) by auto
  show ?case
  proof (cases "nextIrp dx")
    case None
    then have "ys = []" using x(4) linked_hd by (cases ys) auto
    then show ?thesis using None x n Cons.prems(2,3) assms(5-7)
      by (auto simp: same_irps_link)
  next
    case (Some nx)
    then obtain is' where "Chain_end m is nx new = Inr is'" "linked is' (Some nx) (ys @ [new])" "same_irps is is'"
      "\<forall>j. j \<notin> set ys \<longrightarrow> is' j = is j"
      using Cons.IH [of nx m] x(4) Cons.prems n by auto
    then show ?thesis using Some x n Cons.prems(2) by auto
  qed
qed simp

lemma Unchain_loop_spec:
  assumes "linked is (Some l) (l # xs)" "distinct (l # xs)" "irp \<in> set xs" "length xs \<le> n"
  shows "\<exists>is'. Unchain_loop n is x irp (Some l) (hd xs) = Inr (x, is') \<and> linked is' (Some l) (l # remove1 irp xs) \<and>
    same_irps is is' \<and> (\<forall>j. j \<notin> set (l # xs) \<or> j = irp \<longrightarrow> is' j = is j)"
  using assms
proof (induction xs arbitrary: l n)
  case (Cons c ys)
  obtain m where n: "n = Suc m" using Cons.prems(4) by (cases n) auto
  obtain cl dl where l: "is l = Some cl" "idst cl = Some dl" "linked is (nextIrp dl) (c # ys)"
    using Cons.prems(1) by auto
  then obtain cc dc where c: "is c = Some cc" "idst cc = Some dc" "linked is (nextIrp dc) ys" by auto
  show ?case
  proof (cases "irp = c")
    case True
    let ?is = "is(l \<mapsto> cl\<lparr>idst := Some (dl\<lparr>nextIrp := nextIrp dc\<rparr>)\<rparr>)"
    have "linked ?is (nextIrp dc) ys"
      using c(3) Cons.prems(2) by simp
    then show ?thesis using True l c n Cons.prems(2) same_irps_link [of "is" l cl dl "nextIrp dc"] by auto
  next
    case False
    then have ys: "irp \<in> set ys" "ys \<noteq> []" using Cons.prems(3) by auto
    obtain is' where is': "Unchain_loop m is x irp (Some c) (hd ys) = Inr (x, is')" "linked is' (Some c) (c # remove1 irp ys)"
      "same_irps is is'" "\<forall>j. j \<notin> set (c # ys) \<or> j = irp \<longrightarrow> is' j = is j"
      using Cons.IH [of c m] c Cons.prems n ys by auto
    moreover have "is' l = is l" using is'(4) Cons.prems(2) by auto
    moreover have "nextIrp dc = Some (hd ys)" using linked_hd [OF c(3) ys(2)] .
    ultimately show ?thesis using False l c n by auto
  qed
qed simp

lemma V4vCsqUnchainIrp_spec:
  assumes x: "linked is (nextIrp x) xs" "distinct xs" "irp \<in> set xs" "length xs \<le> n" "nextLength x = payload is (hd xs)"
  shows "\<exists>x' is'. V4vCsqUnchainIrp n is x irp = Inr (x', is') \<and> linked is' (nextIrp x') (remove1 irp xs) \<and>
    same_irps is is' \<and> (\<forall>j. j \<notin> set xs \<or> j = irp \<longrightarrow> is' j = is j) \<and> dst x' = dst x \<and> drefc x' = drefc x \<and>
    (remove1 irp xs \<noteq> [] \<longrightarrow> nextLength x' = payload is (hd (remove1 irp xs)))"
proof -
  obtain c ys where xs: "xs = c # ys" using x(3) by (cases xs) auto
  obtain m where n: "n = Suc m" using x(4) xs by (cases n) auto
  obtain cc dc where c: "nextIrp x = Some c" "is c = Some cc" "idst cc = Some dc" "linked is (nextIrp dc) ys"
    using x(1) xs by auto
  show ?thesis
  proof (cases "irp = c")
    case True
    show ?thesis
    proof (cases ys)
      case Nil
      then show ?thesis using True c n xs by (auto simp: V4vCsqUnchainIrp_def)
    next
      case (Cons z zs)
      then obtain cz where "nextIrp dc = Some z" "is z = Some cz" using c(4) by auto
      then show ?thesis using True c n xs Cons by (auto simp: V4vCsqUnchainIrp_def payload_def)
    qed
  next
    case False
    then have ys: "irp \<in> set ys" "ys \<noteq> []" using x(3) xs by auto
    have nx: "nextIrp dc = Some (hd ys)" using linked_hd [OF c(4) ys(2)] .
    obtain is' where "Unchain_loop m is x irp (Some c) (hd ys) = Inr (x, is')" "linked is' (Some c) (c # remove1 irp ys)"
      "same_irps is is'" "\<forall>j. j \<notin> set (c # ys) \<or> j = irp \<longrightarrow> is' j = is j"
      using Unchain_loop_spec [of "is" c ys irp m x] c x xs n ys by auto
    then show ?thesis using False c n xs nx x(5) by (auto simp: V4vCsqUnchainIrp_def)
  qed
qed

section \<open>The invariant of the queue\<close>

definition write_to :: "irps \<Rightarrow> v4v_addr \<Rightarrow> nat \<Rightarrow> bool" where
  "write_to is d j \<longleftrightarrow>
     (case is j of None \<Rightarrow> False | Some c \<Rightarrow> has (flags c) XENV4V_PEEK_WRITE \<and> map_option dst (idst c) = Some d)"

definition writes :: "csq_dev \<Rightarrow> v4v_addr \<Rightarrow> nat list" where
  "writes pde d = filter (write_to (irps pde) d) (pendingIrpQueue pde)"

definition entry_ok :: "irps \<Rightarrow> XENV4V_DESTINATION \<Rightarrow> nat list \<Rightarrow> bool" where
  "entry_ok is x xs \<longleftrightarrow> xs \<noteq> [] \<and> unat (drefc x) = length xs \<and> linked is (nextIrp x) xs \<and> nextLength x = payload is (hd xs)"

definition queued_ok :: "irps \<Rightarrow> nat \<Rightarrow> bool" where
  "queued_ok is j \<longleftrightarrow> (\<exists>c. is j = Some c \<and> (has (flags c) XENV4V_PEEK_WRITE \<longrightarrow> idst c \<noteq> None))"

text \<open>The chain of each destination is the list of the writes to it in the order of the queue, and there is
  an entry exactly for the destinations with such a write.\<close>

definition queue_ok :: "csq_dev \<Rightarrow> bool" where
  "queue_ok pde \<longleftrightarrow> distinct (pendingIrpQueue pde) \<and> (\<forall>j \<in> set (pendingIrpQueue pde). queued_ok (irps pde) j) \<and>
     pendingIrpCount pde = int (length (pendingIrpQueue pde)) \<and> length (pendingIrpQueue pde) \<le> 65536 \<and>
     distinct (map dst (destList pde)) \<and> destCount pde = int (length (destList pde)) \<and>
     (\<forall>x \<in> set (destList pde). entry_ok (irps pde) x (writes pde (dst x))) \<and>
     (\<forall>d. writes pde d \<noteq> [] \<longrightarrow> d \<in> dst ` set (destList pde))"

lemma queue_ok_irp: "queue_ok pde \<Longrightarrow> j \<in> set (pendingIrpQueue pde) \<Longrightarrow> \<exists>i. irps pde j = Some i"
  by (auto simp: queue_ok_def queued_ok_def)

lemma queue_ok_dest: "queue_ok pde \<Longrightarrow> writes pde d \<noteq> [] \<Longrightarrow> \<exists>x \<in> set (destList pde). dst x = d"
  by (auto simp: queue_ok_def)

lemma same_irps_write_to: "map_option core (is' j) = map_option core (is j) \<Longrightarrow> write_to is' d j = write_to is d j"
  by (cases "is j"; cases "is' j") (auto simp: write_to_def core_def)

lemma same_irps_queued_ok: "map_option core (is' j) = map_option core (is j) \<Longrightarrow> queued_ok is' j = queued_ok is j"
  by (cases "is j"; cases "is' j") (auto simp: queued_ok_def core_def dest: arg_cong [where f = "\<lambda>a. a = None"])

lemma write_to_unique: "write_to is d j \<Longrightarrow> write_to is d' j \<Longrightarrow> d = d'"
  by (auto simp: write_to_def split: option.splits)

lemma entry_ok_cong:
  assumes "\<And>j. j \<in> set xs \<Longrightarrow> is' j = is j"
  shows "entry_ok is' x xs = entry_ok is x xs"
proof (cases xs)
  case (Cons j js)
  then show ?thesis using linked_cong [of xs is' "is"] assms by (simp add: entry_ok_def payload_def)
qed (simp add: entry_ok_def)

text \<open>Finding the entry of a destination.\<close>

lemma Link_loop_found:
  assumes "d \<notin> dst ` set as" and "dst x = d"
  shows "Link_loop n is irp front d (as @ x # bs) =
    res_bind (V4vCsqChainIrp n is (x\<lparr>drefc := drefc x + 1\<rparr>) irp front) (\<lambda>(x, is). Inr (Some (as @ x # bs, is)))"
  using assms
proof (induction as)
  case Nil
  then show ?case by simp
next
  case (Cons a as)
  then show ?case by (cases "V4vCsqChainIrp n is (x\<lparr>drefc := drefc x + 1\<rparr>) irp front") auto
qed

lemma Link_loop_absent: "d \<notin> dst ` set xs \<Longrightarrow> Link_loop n is irp front d xs = Inr None"
  by (induction xs) auto

lemma Unlink_loop_found:
  assumes "d \<notin> dst ` set as" and "dst x = d" and "V4vCsqUnchainIrp n is x irp = Inr (x', is')" and "is' irp = Some i"
  shows "Unlink_loop n is irp d (as @ x # bs) =
    Inr (if drefc x' - 1 = 0 then (as @ bs, is'(irp \<mapsto> i\<lparr>idst := None\<rparr>), - 1)
         else (as @ x'\<lparr>drefc := drefc x' - 1\<rparr> # bs, is'(irp \<mapsto> i\<lparr>idst := None\<rparr>), 0))"
  using assms by (induction as) auto

lemma split_entry:
  assumes "d \<in> dst ` set xs"
  obtains as x bs where "xs = as @ x # bs" and "dst x = d" and "d \<notin> dst ` set as"
proof -
  have "\<exists>x \<in> set xs. dst x = d" using assms by auto
  from split_list_first_prop [OF this] obtain as x bs
    where "xs = as @ x # bs" "dst x = d" "\<forall>y \<in> set as. dst y \<noteq> d" by (elim exE bexE conjE)
  then show thesis by (intro that) auto
qed

section \<open>Inserting\<close>

lemma V4vCsqChainIrp_spec:
  assumes e: "entry_ok is x xs" and xs: "distinct xs" "irp \<notin> set xs" "length xs \<le> n" "length xs < 2 ^ 32 - 1"
    and i: "is irp = Some c" "idst c = Some dd" "nextIrp dd = None"
  shows "\<exists>x' is'. V4vCsqChainIrp n is (x\<lparr>drefc := drefc x + 1\<rparr>) irp front = Inr (x', is') \<and>
    entry_ok is' x' (if front then irp # xs else xs @ [irp]) \<and> dst x' = dst x \<and> same_irps is is' \<and>
    (\<forall>j. j \<notin> set xs \<and> j \<noteq> irp \<longrightarrow> is' j = is j)"
proof -
  have x: "xs \<noteq> []" "unat (drefc x) = length xs" "linked is (nextIrp x) xs" "nextLength x = payload is (hd xs)"
    using e by (auto simp: entry_ok_def)
  have r: "unat (drefc x + 1) = length xs + 1" using x(2) xs(4) by (simp add: unat_word_ariths(1))
  have nx: "nextIrp x = Some (hd xs)" using linked_hd [OF x(3,1)] .
  show ?thesis
  proof (cases front)
    case True
    have "linked (is(irp \<mapsto> c\<lparr>idst := Some (dd\<lparr>nextIrp := nextIrp x\<rparr>)\<rparr>)) (nextIrp x) xs" using x(3) xs(2) by simp
    moreover have "same_irps is (is(irp \<mapsto> c\<lparr>idst := Some (dd\<lparr>nextIrp := nextIrp x\<rparr>)\<rparr>))" using i same_irps_link by blast
    ultimately show ?thesis
      using True i r by (auto simp: V4vCsqChainIrp_def entry_ok_def payload_def PAYLOAD_DATA_LEN_def)
  next
    case False
    obtain is' where is': "Chain_end n is (hd xs) irp = Inr is'" "linked is' (Some (hd xs)) (xs @ [irp])" "same_irps is is'"
      "\<forall>j. j \<notin> set xs \<longrightarrow> is' j = is j"
      using Chain_end_spec [of "is" "hd xs" xs irp n c dd] x(3) nx xs i by auto
    then show ?thesis
      using False nx r x same_irps_payload [OF is'(3)] by (auto simp: V4vCsqChainIrp_def entry_ok_def)
  qed
qed

text \<open>A write that is linked and put into the queue.\<close>

definition queued :: "csq_dev \<Rightarrow> nat \<Rightarrow> bool \<Rightarrow> csq_dev" where
  "queued pde irp front =
     pde\<lparr>pendingIrpQueue := (if front then irp # pendingIrpQueue pde else pendingIrpQueue pde @ [irp]),
         pendingIrpCount := pendingIrpCount pde + 1\<rparr>"

lemma queue_ok_link:
  assumes ok: "queue_ok pde" and irp: "irp \<notin> set (pendingIrpQueue pde)" "length (pendingIrpQueue pde) < 65536"
    and core: "\<And>j. j \<noteq> irp \<Longrightarrow> map_option core (is' j) = map_option core (irps pde j)"
    and same: "\<And>j. j \<noteq> irp \<Longrightarrow> \<not> write_to (irps pde) d j \<Longrightarrow> is' j = irps pde j"
    and new: "write_to is' d irp"
    and xs: "distinct (map dst xs)" "dst ` set xs = insert d (dst ` set (destList pde))"
      "\<And>x. x \<in> set xs \<Longrightarrow> dst x \<noteq> d \<Longrightarrow> x \<in> set (destList pde)"
      "\<And>x. x \<in> set xs \<Longrightarrow> dst x = d \<Longrightarrow> entry_ok is' x (if front then irp # writes pde d else writes pde d @ [irp])"
  shows "queue_ok (queued (pde\<lparr>irps := is', destList := xs, destCount := int (length xs)\<rparr>) irp front)"
proof -
  let ?q = "queued (pde\<lparr>irps := is', destList := xs, destCount := int (length xs)\<rparr>) irp front"
  have w: "writes ?q e = (if e = d then if front then irp # writes pde d else writes pde d @ [irp] else writes pde e)" for e
  proof -
    have "write_to is' e j = write_to (irps pde) e j" if "j \<in> set (pendingIrpQueue pde)" for j
      using that irp(1) core [of j] by (intro same_irps_write_to) auto
    then have "filter (write_to is' e) (pendingIrpQueue pde) = writes pde e"
      unfolding writes_def by (intro filter_cong refl) simp
    moreover have "write_to is' e irp \<longleftrightarrow> e = d" using new write_to_unique [of is' d irp e] by auto
    ultimately show ?thesis by (auto simp: writes_def queued_def)
  qed
  have "queued_ok is' irp" using new by (auto simp: queued_ok_def write_to_def split: option.splits)
  moreover have "queued_ok is' j" if "j \<in> set (pendingIrpQueue pde)" for j
  proof -
    have "queued_ok (irps pde) j" using ok that by (simp add: queue_ok_def)
    then show ?thesis using that irp(1) same_irps_queued_ok [of is' j "irps pde"] core [of j] by blast
  qed
  ultimately have "\<forall>j \<in> set (pendingIrpQueue ?q). queued_ok (irps ?q) j" by (simp add: queued_def)
  moreover have "entry_ok is' x (writes ?q (dst x))" if x: "x \<in> set xs" for x
  proof (cases "dst x = d")
    case True
    then show ?thesis using xs(4) x w by simp
  next
    case False
    then have "entry_ok (irps pde) x (writes pde (dst x))" using xs(3) x ok by (simp add: queue_ok_def)
    moreover have "is' j = irps pde j" if "j \<in> set (writes pde (dst x))" for j
    proof -
      have j: "j \<in> set (pendingIrpQueue pde)" "write_to (irps pde) (dst x) j" using that by (simp_all add: writes_def)
      then have "\<not> write_to (irps pde) d j" using False write_to_unique [of "irps pde" "dst x" j d] by blast
      moreover have "j \<noteq> irp" using j(1) irp(1) by blast
      ultimately show ?thesis using same by blast
    qed
    ultimately show ?thesis using w False entry_ok_cong [of "writes pde (dst x)" is' "irps pde"] by simp
  qed
  moreover have "e \<in> dst ` set xs" if "writes ?q e \<noteq> []" for e
    using that w ok xs(2) by (auto simp: queue_ok_def split: if_splits)
  ultimately show ?thesis using ok irp xs(1) by (auto simp: queue_ok_def queued_def)
qed

lemma queue_ok_plain:
  assumes ok: "queue_ok pde" and irp: "irp \<notin> set (pendingIrpQueue pde)" "length (pendingIrpQueue pde) < 65536"
    and i: "irps pde irp = Some i" "\<not> has (flags i) XENV4V_PEEK_WRITE"
  shows "queue_ok (queued pde irp front)"
proof -
  have "\<not> write_to (irps pde) d irp" for d using i by (simp add: write_to_def)
  then have "writes (queued pde irp front) d = writes pde d" for d by (simp add: writes_def queued_def)
  moreover have "queued_ok (irps pde) irp" using i by (simp add: queued_ok_def)
  ultimately show ?thesis using ok irp by (simp add: queue_ok_def queued_def)
qed

text \<open>Requests outside the queue do not matter.\<close>

lemma queue_ok_outside:
  assumes ok: "queue_ok pde" and irp: "irp \<notin> set (pendingIrpQueue pde)"
  shows "queue_ok (pde\<lparr>irps := (irps pde)(irp := v)\<rparr>)"
proof -
  let ?q = "pde\<lparr>irps := (irps pde)(irp := v)\<rparr>"
  have same: "irps ?q j = irps pde j" if "j \<in> set (pendingIrpQueue pde)" for j using that irp by auto
  have w: "writes ?q d = writes pde d" for d
    unfolding writes_def using same by (auto intro!: filter_cong simp: write_to_def)
  have "queued_ok (irps ?q) j" if "j \<in> set (pendingIrpQueue pde)" for j
    using that same [OF that] ok by (auto simp: queue_ok_def queued_ok_def)
  moreover have "entry_ok (irps ?q) x (writes pde (dst x))" if "x \<in> set (destList pde)" for x
    using that ok same entry_ok_cong [of "writes pde (dst x)" "irps ?q" "irps pde" x]
    by (auto simp: queue_ok_def writes_def)
  ultimately show ?thesis using ok w by (simp add: queue_ok_def)
qed

lemma writes_le: "length (writes pde d) \<le> length (pendingIrpQueue pde)"
  by (simp add: writes_def)

lemma V4vCsqLinkDestination_spec:
  fixes alloc1 alloc2 :: bool
  assumes ok: "queue_ok pde" and irp: "irp \<notin> set (pendingIrpQueue pde)" "length (pendingIrpQueue pde) < 65536"
    and i: "irps pde irp = Some i" "has (flags i) XENV4V_PEEK_WRITE"
  defines "d \<equiv> V4vCsqGetDestination pde i"
  defines "success \<equiv> alloc1 \<and> (writes pde d = [] \<longrightarrow> alloc2)"
  shows "\<exists>pde'. V4vCsqLinkDestination pde irp front alloc1 alloc2 = Inr (success, pde') \<and>
    pendingIrpQueue pde' = pendingIrpQueue pde \<and> pendingIrpCount pde' = pendingIrpCount pde \<and>
    completed pde' = completed pde \<and> sdst pde' = sdst pde \<and>
    (if success then queue_ok (queued pde' irp front) else queue_ok pde') \<and>
    (\<forall>j. j \<noteq> irp \<longrightarrow> map_option core (irps pde' j) = map_option core (irps pde j)) \<and>
    (\<exists>v. map_option core (irps pde' irp) = Some (core (i\<lparr>idst := v\<rparr>)))"
proof (cases alloc1)
  case False
  then show ?thesis using i queue_ok_outside [OF ok irp(1), of "Some (i\<lparr>idst := None\<rparr>)"]
    by (auto simp: V4vCsqLinkDestination_def success_def Let_def)
next
  case alloc1: True
  define i' where "i' = i\<lparr>idst := Some \<lparr>drefc = 0, nextLength = 0, nextIrp = None, dst = d\<rparr>\<rparr>"
  let ?is = "(irps pde)(irp \<mapsto> i')"
  note un = V4vCsqLinkDestination_def Let_def d_def [symmetric] i'_def [symmetric]
  have same: "?is j = irps pde j" if "j \<in> set (pendingIrpQueue pde)" for j using that irp(1) by auto
  have lst: "distinct (map dst (destList pde))" "destCount pde = int (length (destList pde))"
    "\<And>x. x \<in> set (destList pde) \<Longrightarrow> entry_ok (irps pde) x (writes pde (dst x))"
    "\<And>e. writes pde e \<noteq> [] \<Longrightarrow> e \<in> dst ` set (destList pde)" and q: "distinct (pendingIrpQueue pde)"
    using ok by (auto simp: queue_ok_def)
  show ?thesis
  proof (cases "d \<in> dst ` set (destList pde)")
    case True
    obtain as x bs where s: "destList pde = as @ x # bs" "dst x = d" "d \<notin> dst ` set as" using split_entry [OF True] .
    have e: "entry_ok (irps pde) x (writes pde d)" using lst(3) s by auto
    then have w: "writes pde d \<noteq> []" by (simp add: entry_ok_def)
    have e': "entry_ok ?is x (writes pde d)"
      using e same entry_ok_cong [of "writes pde d" ?is "irps pde" x] by (simp add: writes_def)
    have wd1: "distinct (writes pde d)" "irp \<notin> set (writes pde d)" using q irp(1) by (simp_all add: writes_def)
    have wd2: "length (writes pde d) \<le> length (pendingIrpQueue pde) + 1" "length (writes pde d) < 2 ^ 32 - 1"
      using irp(2) writes_le [of pde d] by simp_all
    note wd = wd1 wd2
    have i': "?is irp = Some i'" "idst i' = Some \<lparr>drefc = 0, nextLength = 0, nextIrp = None, dst = d\<rparr>"
      "nextIrp \<lparr>drefc = 0, nextLength = 0, nextIrp = None, dst = d\<rparr> = None" by (simp_all add: i'_def)
    obtain x' is' where x': "V4vCsqChainIrp (length (pendingIrpQueue pde) + 1) ?is (x\<lparr>drefc := drefc x + 1\<rparr>) irp front = Inr (x', is')"
      "entry_ok is' x' (if front then irp # writes pde d else writes pde d @ [irp])" "dst x' = dst x" "same_irps ?is is'"
      "\<forall>j. j \<notin> set (writes pde d) \<and> j \<noteq> irp \<longrightarrow> is' j = ?is j"
      using V4vCsqChainIrp_spec [OF e' wd i', of front] by (elim exE conjE) (rule that)
    have c: "map_option core (is' j) = map_option core (?is j)" for j using x'(4) by (simp add: same_irps_def)
    then have new: "write_to is' d irp"
      using same_irps_write_to [of is' irp ?is d] i(2) by (simp add: write_to_def i'_def)
    have "queue_ok (queued (pde\<lparr>irps := is', destList := as @ x' # bs, destCount := int (length (as @ x' # bs))\<rparr>) irp front)"
      using c x' new s lst(1)
      by (intro queue_ok_link [OF ok irp]) (auto simp: writes_def image_iff)
    moreover have "V4vCsqLinkDestination pde irp front alloc1 alloc2 =
        Inr (True, pde\<lparr>irps := is', destList := as @ x' # bs\<rparr>)"
      using i(1) alloc1 Link_loop_found [OF s(3,2)] x'(1) s(1) by (simp add: un)
    moreover have "pde\<lparr>irps := is', destList := as @ x' # bs\<rparr> =
        pde\<lparr>irps := is', destList := as @ x' # bs, destCount := int (length (as @ x' # bs))\<rparr>"
      using lst(2) s(1) by (cases pde) simp
    moreover have "map_option core (is' irp) = Some (core i')" using c [of irp] by simp
    moreover have "map_option core (is' j) = map_option core (irps pde j)" if "j \<noteq> irp" for j using c [of j] that by simp
    ultimately show ?thesis using alloc1 w unfolding success_def i'_def by auto
  next
    case False
    then have w: "writes pde d = []" using lst(4) by blast
    show ?thesis
    proof (cases alloc2)
      case False
      then show ?thesis using i alloc1 w \<open>d \<notin> _\<close> Link_loop_absent [of d "destList pde"]
          queue_ok_outside [OF ok irp(1), of "Some (i\<lparr>idst := None\<rparr>)"]
        by (auto simp: un success_def)
    next
      case alloc2: True
      let ?x = "\<lparr>drefc = 1, nextLength = PAYLOAD_DATA_LEN i, nextIrp = Some irp, dst = d\<rparr>"
      have p: "PAYLOAD_DATA_LEN i' = PAYLOAD_DATA_LEN i" by (simp add: PAYLOAD_DATA_LEN_def i'_def)
      have "entry_ok ?is ?x [irp]" using p by (simp add: entry_ok_def payload_def i'_def)
      then have "queue_ok (queued (pde\<lparr>irps := ?is, destList := destList pde @ [?x],
          destCount := int (length (destList pde @ [?x]))\<rparr>) irp front)"
        using lst(1) \<open>d \<notin> _\<close> w i(2)
        by (intro queue_ok_link [OF ok irp, where d = d]) (auto simp: write_to_def i'_def)
      moreover have "V4vCsqLinkDestination pde irp front alloc1 alloc2 = Inr (True,
          pde\<lparr>irps := ?is, destList := destList pde @ [?x], destCount := int (length (destList pde @ [?x]))\<rparr>)"
        using i(1) alloc1 alloc2 Link_loop_absent [OF \<open>d \<notin> _\<close>] lst(2) by (simp add: un)
      ultimately show ?thesis using alloc1 alloc2 i by (auto simp: success_def i'_def)
    qed
  qed
qed

section \<open>Removing\<close>

definition unqueued :: "csq_dev \<Rightarrow> nat \<Rightarrow> csq_dev" where
  "unqueued pde irp =
     pde\<lparr>pendingIrpQueue := remove1 irp (pendingIrpQueue pde), pendingIrpCount := pendingIrpCount pde - 1\<rparr>"

lemma remove1_filter: "distinct xs \<Longrightarrow> remove1 a (filter P xs) = filter P (remove1 a xs)"
  by (simp add: distinct_remove1_removeAll removeAll_filter_not_eq filter_filter conj_commute)

lemma queue_ok_unlink:
  assumes ok: "queue_ok pde" and irp: "irp \<in> set (pendingIrpQueue pde)"
    and core: "\<And>j. j \<noteq> irp \<Longrightarrow> map_option core (is' j) = map_option core (irps pde j)"
    and same: "\<And>j. j \<noteq> irp \<Longrightarrow> \<not> write_to (irps pde) d j \<Longrightarrow> is' j = irps pde j"
    and old: "\<And>e. e \<noteq> d \<Longrightarrow> \<not> write_to (irps pde) e irp"
    and xs: "distinct (map dst xs)" "dst ` set (destList pde) - {d} \<subseteq> dst ` set xs"
      "remove1 irp (writes pde d) \<noteq> [] \<Longrightarrow> d \<in> dst ` set xs"
      "\<And>x. x \<in> set xs \<Longrightarrow> dst x \<noteq> d \<Longrightarrow> x \<in> set (destList pde)"
      "\<And>x. x \<in> set xs \<Longrightarrow> dst x = d \<Longrightarrow> entry_ok is' x (remove1 irp (writes pde d))"
  shows "queue_ok (unqueued (pde\<lparr>irps := is', destList := xs, destCount := int (length xs)\<rparr>) irp)"
proof -
  let ?q = "unqueued (pde\<lparr>irps := is', destList := xs, destCount := int (length xs)\<rparr>) irp"
  have q: "distinct (pendingIrpQueue pde)" "pendingIrpCount pde = int (length (pendingIrpQueue pde))"
    "length (pendingIrpQueue pde) \<le> 65536" using ok by (auto simp: queue_ok_def)
  have rest: "j \<in> set (pendingIrpQueue pde)" "j \<noteq> irp" if "j \<in> set (remove1 irp (pendingIrpQueue pde))" for j
    using that q(1) by auto
  have w: "writes ?q e = (if e = d then remove1 irp (writes pde d) else writes pde e)" for e
  proof -
    have "write_to is' e j = write_to (irps pde) e j" if "j \<in> set (remove1 irp (pendingIrpQueue pde))" for j
      using rest [OF that] core [of j] by (intro same_irps_write_to) auto
    then have "writes ?q e = filter (write_to (irps pde) e) (remove1 irp (pendingIrpQueue pde))"
      unfolding writes_def unqueued_def by (auto intro!: filter_cong)
    also have "\<dots> = remove1 irp (writes pde e)" using q(1) by (simp add: writes_def remove1_filter)
    finally show ?thesis using old by (simp add: writes_def remove1_idem)
  qed
  have "queued_ok is' j" if "j \<in> set (remove1 irp (pendingIrpQueue pde))" for j
  proof -
    have "queued_ok (irps pde) j" using ok rest [OF that] by (simp add: queue_ok_def)
    then show ?thesis using rest [OF that] same_irps_queued_ok [of is' j "irps pde"] core [of j] by blast
  qed
  moreover have "entry_ok is' x (writes ?q (dst x))" if x: "x \<in> set xs" for x
  proof (cases "dst x = d")
    case True
    then show ?thesis using xs(5) x w by simp
  next
    case False
    then have "entry_ok (irps pde) x (writes pde (dst x))" using xs(4) x ok by (simp add: queue_ok_def)
    moreover have "is' j = irps pde j" if "j \<in> set (writes pde (dst x))" for j
    proof -
      have j: "write_to (irps pde) (dst x) j" using that by (simp add: writes_def)
      then have "\<not> write_to (irps pde) d j" using False write_to_unique [of "irps pde" "dst x" j d] by blast
      moreover have "j \<noteq> irp" using j old [OF False] by blast
      ultimately show ?thesis using same by blast
    qed
    ultimately show ?thesis using w False entry_ok_cong [of "writes pde (dst x)" is' "irps pde"] by simp
  qed
  moreover have "e \<in> dst ` set xs" if "writes ?q e \<noteq> []" for e
  proof (cases "e = d")
    case True
    then show ?thesis using that w xs(3) by simp
  next
    case False
    then have "e \<in> dst ` set (destList pde)" using that w ok by (simp add: queue_ok_def)
    then show ?thesis using False xs(2) by blast
  qed
  moreover have "pendingIrpCount pde - 1 = int (length (remove1 irp (pendingIrpQueue pde)))"
    "length (remove1 irp (pendingIrpQueue pde)) \<le> 65536"
  proof -
    have "length (remove1 irp (pendingIrpQueue pde)) + 1 = length (pendingIrpQueue pde)"
      using length_pos_if_in_set [OF irp] irp by (simp add: length_remove1)
    then show "pendingIrpCount pde - 1 = int (length (remove1 irp (pendingIrpQueue pde)))"
      "length (remove1 irp (pendingIrpQueue pde)) \<le> 65536" using q(2,3) by linarith+
  qed
  ultimately show ?thesis using q(1) xs(1)
    by (simp add: queue_ok_def unqueued_def)
qed

lemma V4vCsqRemoveIrp_spec:
  assumes ok: "queue_ok pde" and irp: "irp \<in> set (pendingIrpQueue pde)"
  shows "\<exists>pde' i v. V4vCsqRemoveIrp pde irp = Inr pde' \<and> queue_ok pde' \<and>
    pendingIrpQueue pde' = remove1 irp (pendingIrpQueue pde) \<and> completed pde' = completed pde \<and> sdst pde' = sdst pde \<and>
    (\<forall>j. j \<noteq> irp \<longrightarrow> map_option core (irps pde' j) = map_option core (irps pde j)) \<and>
    irps pde irp = Some i \<and> irps pde' irp = Some (i\<lparr>idst := v\<rparr>)"
proof -
  have lst: "distinct (map dst (destList pde))" "destCount pde = int (length (destList pde))"
    "\<And>x. x \<in> set (destList pde) \<Longrightarrow> entry_ok (irps pde) x (writes pde (dst x))"
    "\<And>e. writes pde e \<noteq> [] \<Longrightarrow> e \<in> dst ` set (destList pde)" and q: "distinct (pendingIrpQueue pde)"
    using ok by (auto simp: queue_ok_def)
  obtain i where i: "irps pde irp = Some i" "has (flags i) XENV4V_PEEK_WRITE \<Longrightarrow> idst i \<noteq> None"
    using ok irp by (auto simp: queue_ok_def queued_ok_def)
  show ?thesis
  proof (cases "has (flags i) XENV4V_PEEK_WRITE")
    case False
    let ?d = "\<lparr>port = 0, domain = 0\<rparr>"
    have nw: "\<not> write_to (irps pde) e irp" for e using i(1) False by (simp add: write_to_def)
    then have "remove1 irp (writes pde e) = writes pde e" for e by (simp add: writes_def remove1_idem)
    then have "queue_ok (unqueued (pde\<lparr>irps := irps pde, destList := destList pde, destCount := int (length (destList pde))\<rparr>) irp)"
      using nw lst(1) lst(4) [of ?d] by (intro queue_ok_unlink [OF ok irp, where d = ?d]) (auto dest: lst(3))
    moreover have "pde\<lparr>irps := irps pde, destList := destList pde, destCount := int (length (destList pde))\<rparr> = pde"
      using lst(2) by (cases pde) simp
    moreover have "V4vCsqRemoveIrp pde irp = Inr (unqueued pde irp)"
      using i(1) False by (simp add: V4vCsqRemoveIrp_def unqueued_def)
    moreover have "\<exists>v. i = i\<lparr>idst := v\<rparr>" by (rule exI [of _ "idst i"]) simp
    ultimately show ?thesis using i(1) by (auto simp: unqueued_def)
  next
    case True
    then obtain dd where dd: "idst i = Some dd" using i(2) by auto
    let ?d = "dst dd"
    have wt: "write_to (irps pde) ?d irp" using i(1) True dd by (simp add: write_to_def)
    then have mem: "irp \<in> set (writes pde ?d)" using irp by (simp add: writes_def)
    then have "?d \<in> dst ` set (destList pde)" using lst(4) by force
    then obtain as x bs where s: "destList pde = as @ x # bs" "dst x = ?d" "?d \<notin> dst ` set as" by (rule split_entry)
    have e: "entry_ok (irps pde) x (writes pde ?d)" using lst(3) [of x] s by simp
    then have ex: "linked (irps pde) (nextIrp x) (writes pde ?d)" "nextLength x = payload (irps pde) (hd (writes pde ?d))"
      "unat (drefc x) = length (writes pde ?d)" by (auto simp: entry_ok_def)
    have dw: "distinct (writes pde ?d)" "length (writes pde ?d) \<le> length (pendingIrpQueue pde) + 1"
      using q writes_le [of pde ?d] by (simp add: writes_def, linarith)
    obtain x' is' where x': "V4vCsqUnchainIrp (length (pendingIrpQueue pde) + 1) (irps pde) x irp = Inr (x', is')"
      "linked is' (nextIrp x') (remove1 irp (writes pde ?d))" "same_irps (irps pde) is'"
      "\<forall>j. j \<notin> set (writes pde ?d) \<or> j = irp \<longrightarrow> is' j = irps pde j" "dst x' = dst x" "drefc x' = drefc x"
      "remove1 irp (writes pde ?d) \<noteq> [] \<longrightarrow> nextLength x' = payload (irps pde) (hd (remove1 irp (writes pde ?d)))"
      using V4vCsqUnchainIrp_spec [OF ex(1) dw(1) mem dw(2) ex(2)] by (elim exE conjE) (rule that)
    have ii: "is' irp = Some i" using x'(4) i(1) by simp
    let ?is = "is'(irp \<mapsto> i\<lparr>idst := None\<rparr>)" and ?x = "x'\<lparr>drefc := drefc x' - 1\<rparr>"
    define xs where "xs = (if drefc x' - 1 = 0 then as @ bs else as @ ?x # bs)"
    have u: "unat (drefc x' - 1) = length (remove1 irp (writes pde ?d))"
    proof -
      have "drefc x \<noteq> 0" using ex(3) length_pos_if_in_set [OF mem] by auto
      then show ?thesis using ex(3) x'(6) mem by (simp add: unat_minus_one length_remove1)
    qed
    have c: "map_option core (?is j) = map_option core (irps pde j)" if "j \<noteq> irp" for j
      using that x'(3) by (simp add: same_irps_def)
    have e': "entry_ok ?is ?x (remove1 irp (writes pde ?d))" if "remove1 irp (writes pde ?d) \<noteq> []"
    proof -
      have ni: "irp \<notin> set (remove1 irp (writes pde ?d))" using dw(1) by simp
      then have "hd (remove1 irp (writes pde ?d)) \<noteq> irp" using that by (metis hd_in_set)
      then have "payload ?is (hd (remove1 irp (writes pde ?d))) = payload (irps pde) (hd (remove1 irp (writes pde ?d)))"
        using same_irps_payload [OF x'(3)] by (simp add: payload_def)
      then show ?thesis using that x' u ni by (simp add: entry_ok_def)
    qed
    have z: "drefc x' - 1 = 0 \<longleftrightarrow> remove1 irp (writes pde ?d) = []" using u by (metis length_0_conv unat_eq_zero)
    have "queue_ok (unqueued (pde\<lparr>irps := ?is, destList := xs, destCount := int (length xs)\<rparr>) irp)"
    proof (rule queue_ok_unlink [OF ok irp, where d = ?d])
      show "map_option core (?is j) = map_option core (irps pde j)" if "j \<noteq> irp" for j using c that .
      show "?is j = irps pde j" if "j \<noteq> irp" "\<not> write_to (irps pde) ?d j" for j
        using that x'(4) by (simp add: writes_def)
      show "\<not> write_to (irps pde) e irp" if "e \<noteq> ?d" for e using that wt write_to_unique by blast
      have dl: "?d \<notin> dst ` set bs" using lst(1) s by auto
      show "distinct (map dst xs)" using lst(1) s x'(5) by (auto simp: xs_def)
      show "dst ` set (destList pde) - {?d} \<subseteq> dst ` set xs" using s by (auto simp: xs_def)
      show "?d \<in> dst ` set xs" if "remove1 irp (writes pde ?d) \<noteq> []" using that z s x'(5) by (simp add: xs_def)
      show "y \<in> set (destList pde)" if "y \<in> set xs" "dst y \<noteq> ?d" for y
        using that s x'(5) by (auto simp: xs_def split: if_splits)
      show "entry_ok ?is y (remove1 irp (writes pde ?d))" if "y \<in> set xs" "dst y = ?d" for y
      proof -
        have "y \<notin> set as" "y \<notin> set bs" using that(2) s(3) dl by (metis image_eqI)+
        then show ?thesis using that(1) z e' by (auto simp: xs_def split: if_splits)
      qed
    qed
    moreover have "V4vCsqRemoveIrp pde irp = Inr (unqueued (pde\<lparr>irps := ?is, destList := xs, destCount := int (length xs)\<rparr>) irp)"
      using i(1) True dd Unlink_loop_found [OF s(3,2) x'(1) ii] s(1) lst(2)
      by (auto simp: V4vCsqRemoveIrp_def V4vCsqUnlinkDestination_def unqueued_def xs_def)
    ultimately show ?thesis using i(1) c by (auto simp: unqueued_def)
  qed
qed

section \<open>Inserting and peeking\<close>

lemma V4vCsqInsertIrpEx_spec:
  assumes ok: "queue_ok pde" and irp: "irp \<notin> set (pendingIrpQueue pde)" and i: "irps pde irp = Some i"
  shows "\<exists>st pde'. V4vCsqInsertIrpEx pde irp front alloc1 alloc2 = Inr (st, pde') \<and> queue_ok pde' \<and>
    completed pde' = completed pde \<and> sdst pde' = sdst pde \<and>
    (\<forall>j. j \<noteq> irp \<longrightarrow> map_option core (irps pde' j) = map_option core (irps pde j)) \<and>
    pendingIrpQueue pde' = (if st \<noteq> STATUS_SUCCESS then pendingIrpQueue pde
      else if front then irp # pendingIrpQueue pde else pendingIrpQueue pde @ [irp])"
proof (cases "length (pendingIrpQueue pde) = 65536")
  case True
  then have "pendingIrpCount pde = 65536" using ok by (simp add: queue_ok_def)
  then show ?thesis using ok i by (simp add: V4vCsqInsertIrpEx_def)
next
  case False
  then have n: "length (pendingIrpQueue pde) < 65536" and c: "pendingIrpCount pde \<noteq> 65536"
    using ok by (auto simp: queue_ok_def)
  show ?thesis
  proof (cases "has (flags i) XENV4V_PEEK_WRITE")
    case False
    then have "V4vCsqInsertIrpEx pde irp front alloc1 alloc2 = Inr (STATUS_SUCCESS, queued pde irp front)"
      using i c by (simp add: V4vCsqInsertIrpEx_def queued_def)
    then show ?thesis using queue_ok_plain [OF ok irp n i False, of front] by (auto simp: queued_def)
  next
    case True
    define success where "success \<longleftrightarrow> alloc1 \<and> (writes pde (V4vCsqGetDestination pde i) = [] \<longrightarrow> alloc2)"
    obtain pde' where p: "V4vCsqLinkDestination pde irp front alloc1 alloc2 = Inr (success, pde')"
      "pendingIrpQueue pde' = pendingIrpQueue pde" "pendingIrpCount pde' = pendingIrpCount pde"
      "completed pde' = completed pde" "sdst pde' = sdst pde"
      "if success then queue_ok (queued pde' irp front) else queue_ok pde'"
      "\<forall>j. j \<noteq> irp \<longrightarrow> map_option core (irps pde' j) = map_option core (irps pde j)"
      using V4vCsqLinkDestination_spec [OF ok irp n i True, of front alloc1 alloc2, folded success_def]
      by (elim exE conjE) (rule that)
    then have "V4vCsqInsertIrpEx pde irp front alloc1 alloc2 =
        (if success then Inr (STATUS_SUCCESS, queued pde' irp front) else Inr (STATUS_NO_MEMORY, pde'))"
      using i c True by (simp add: V4vCsqInsertIrpEx_def queued_def)
    then show ?thesis using p by (cases success) (auto simp: queued_def)
  qed
qed

definition matches :: "XENV4V_QPEEK \<Rightarrow> csq_dev \<Rightarrow> nat \<Rightarrow> bool" where
  "matches qp pde j \<longleftrightarrow> (case irps pde j of None \<Rightarrow> False | Some i \<Rightarrow> V4vCsqPeekTest i qp = Inr True)"

text \<open>The searches the driver makes: by file, or by destination among the writes.\<close>

definition peek_safe :: "XENV4V_QPEEK \<Rightarrow> bool" where
  "peek_safe qp \<longleftrightarrow> pfo qp \<noteq> None \<or> ops qp = XENV4V_PEEK_WRITE"

lemma has_write_op: "has 0x02000000 (f AND XENV4V_PEEK_ANY_OP) \<longleftrightarrow> has f XENV4V_PEEK_WRITE"
proof -
  have "(0x02000000 :: u32) AND (f AND 0xffff0000) = f AND 0x02000000"
    by (simp add: and.left_commute [of _ f])
  then show ?thesis by (simp add: has_def)
qed

lemma PeekTest_safe:
  assumes "peek_safe qp" and "has (flags i) XENV4V_PEEK_WRITE \<longrightarrow> idst i \<noteq> None"
  shows "\<exists>b. V4vCsqPeekTest i qp = Inr b"
  using assms has_write_op [of "flags i"]
  by (auto simp: V4vCsqPeekTest_def peek_safe_def split: option.splits)

lemma Peek_loop_spec:
  assumes "peek_safe qp" and "\<forall>j \<in> set js. queued_ok (irps pde) j"
  shows "Peek_loop (irps pde) (Some qp) js = Inr (find (matches qp pde) js)"
  using assms(2)
proof (induction js)
  case (Cons j js)
  obtain i where i: "irps pde j = Some i" "has (flags i) XENV4V_PEEK_WRITE \<longrightarrow> idst i \<noteq> None"
    using Cons.prems by (auto simp: queued_ok_def)
  obtain b where "V4vCsqPeekTest i qp = Inr b" using PeekTest_safe [OF assms(1) i(2)] by blast
  then show ?case using Cons i(1) by (simp add: matches_def)
qed simp

lemma same_irps_matches: "map_option core (irps pde' j) = map_option core (irps pde j) \<Longrightarrow> matches qp pde' j = matches qp pde j"
  by (cases "irps pde j"; cases "irps pde' j")
    (auto simp: matches_def core_def V4vCsqPeekTest_def split: option.splits)

section \<open>The contract of the queue\<close>

text \<open>What the driver relies on when it takes matching requests out of the queue one by one: \<open>remove_next\<close>
  yields the first match and \<open>complete\<close> is the end of it.\<close>

locale csq_contract =
  fixes inv :: "'s \<Rightarrow> bool" and queue :: "'s \<Rightarrow> 'i list" and matching :: "'s \<Rightarrow> 'i \<Rightarrow> bool"
    and remove_next :: "'s \<Rightarrow> ('i option \<times> 's) res" and complete :: "'s \<Rightarrow> 'i \<Rightarrow> 's" and finished :: "'s \<Rightarrow> 'i list"
  assumes distinct_queue: "inv s \<Longrightarrow> distinct (queue s)"
    and next_none: "inv s \<Longrightarrow> filter (matching s) (queue s) = [] \<Longrightarrow> remove_next s = Inr (None, s)"
    and next_some: "inv s \<Longrightarrow> filter (matching s) (queue s) = i # is \<Longrightarrow>
      \<exists>s'. remove_next s = Inr (Some i, s') \<and> inv (complete s' i) \<and> queue (complete s' i) = remove1 i (queue s) \<and>
        finished (complete s' i) = i # finished s \<and> (\<forall>j. j \<noteq> i \<longrightarrow> matching (complete s' i) j = matching s j)"
begin

lemma drain:
  assumes loop: "\<And>s. drain s = (case remove_next s of Inl e \<Rightarrow> Inl e | Inr (None, s) \<Rightarrow> Inr s | Inr (Some i, s) \<Rightarrow> drain (complete s i))"
    and "inv s"
  shows "\<exists>s'. drain s = Inr s' \<and> inv s' \<and> queue s' = filter (\<lambda>i. \<not> matching s i) (queue s) \<and>
    finished s' = rev (filter (matching s) (queue s)) @ finished s"
  using assms(2)
proof (induction "length (filter (matching s) (queue s))" arbitrary: s)
  case 0
  then show ?case using loop [of s] next_none [of s] by (auto simp: filter_empty_conv)
next
  case (Suc n)
  then obtain i "is" where f: "filter (matching s) (queue s) = i # is" by (cases "filter (matching s) (queue s)") auto
  obtain s' where s': "remove_next s = Inr (Some i, s')" "inv (complete s' i)" "queue (complete s' i) = remove1 i (queue s)"
    "finished (complete s' i) = i # finished s" "\<forall>j. j \<noteq> i \<longrightarrow> matching (complete s' i) j = matching s j"
    using next_some [OF Suc.prems f] by auto
  have d: "distinct (queue s)" using distinct_queue [OF Suc.prems] .
  have m: "matching s i" using f by (metis filter_eq_ConsD)
  have ni: "j \<noteq> i" if "j \<in> set (remove1 i (queue s))" for j using that d by auto
  have "filter (matching (complete s' i)) (remove1 i (queue s)) = filter (matching s) (remove1 i (queue s))"
    using s'(5) ni by (intro filter_cong) auto
  also have "\<dots> = remove1 i (filter (matching s) (queue s))"
    using d by (simp add: distinct_remove1_removeAll removeAll_filter_not_eq conj_commute)
  finally have f': "filter (matching (complete s' i)) (queue (complete s' i)) = is" using f s'(3) by simp
  have "filter (\<lambda>j. \<not> matching (complete s' i) j) (remove1 i (queue s)) = filter (\<lambda>j. \<not> matching s j) (remove1 i (queue s))"
    using s'(5) ni by (intro filter_cong) auto
  also have "\<dots> = filter (\<lambda>j. \<not> matching s j) (queue s)"
    using d m by (auto simp: distinct_remove1_removeAll removeAll_filter_not_eq intro!: filter_cong)
  finally have g: "filter (\<lambda>j. \<not> matching (complete s' i) j) (queue (complete s' i)) = filter (\<lambda>j. \<not> matching s j) (queue s)"
    using s'(3) by simp
  have "n = length (filter (matching (complete s' i)) (queue (complete s' i)))" using Suc.hyps(2) f f' by simp
  from Suc.hyps(1) [OF this s'(2)] show ?case using loop [of s] s'(1,4) f f' g by auto
qed

end

interpretation csq: csq_contract "\<lambda>pde. queue_ok pde \<and> peek_safe qp" pendingIrpQueue "matches qp"
    "\<lambda>pde. IoCsqRemoveNextIrp pde qp" "\<lambda>pde j. V4vSimpleCompleteIrp pde j st" "\<lambda>pde. map fst (completed pde)"
  for qp st
proof
  fix pde :: csq_dev assume inv: "queue_ok pde \<and> peek_safe qp"
  then show "distinct (pendingIrpQueue pde)" by (simp add: queue_ok_def)
  have peek: "V4vCsqPeekNextIrp pde None (Some qp) = Inr (find (matches qp pde) (pendingIrpQueue pde))"
    using inv by (auto simp: V4vCsqPeekNextIrp_def queue_ok_def intro!: Peek_loop_spec)
  show "filter (matches qp pde) (pendingIrpQueue pde) = [] \<Longrightarrow> IoCsqRemoveNextIrp pde qp = Inr (None, pde)"
    using peek by (simp add: IoCsqRemoveNextIrp_def find_filter)
  fix i "is" assume f: "filter (matches qp pde) (pendingIrpQueue pde) = i # is"
  then have "find (matches qp pde) (pendingIrpQueue pde) = Some i" by (simp add: find_filter)
  moreover have m: "i \<in> set (pendingIrpQueue pde)" using arg_cong [OF f, of set] by auto
  moreover obtain pde' i0 v where r: "V4vCsqRemoveIrp pde i = Inr pde'" "queue_ok pde'"
    "pendingIrpQueue pde' = remove1 i (pendingIrpQueue pde)" "completed pde' = completed pde"
    "\<forall>j. j \<noteq> i \<longrightarrow> map_option core (irps pde' j) = map_option core (irps pde j)"
    using V4vCsqRemoveIrp_spec [of pde i] inv m by blast
  ultimately have n: "IoCsqRemoveNextIrp pde qp = Inr (Some i, pde')" using peek by (simp add: IoCsqRemoveNextIrp_def)
  let ?q = "V4vSimpleCompleteIrp pde' i st"
  have "i \<notin> set (pendingIrpQueue pde')" using inv r(3) by (simp add: queue_ok_def)
  from queue_ok_outside [OF r(2) this, of None] have "queue_ok ?q"
    by (simp add: queue_ok_def V4vSimpleCompleteIrp_def V4vCompleteIrp_def writes_def)
  moreover have "matches qp ?q j = matches qp pde j" if "j \<noteq> i" for j
    using that r(5) same_irps_matches [of pde' j pde qp]
    by (simp add: matches_def V4vSimpleCompleteIrp_def V4vCompleteIrp_def)
  ultimately show "\<exists>s'. IoCsqRemoveNextIrp pde qp = Inr (Some i, s') \<and>
      (queue_ok (V4vSimpleCompleteIrp s' i st) \<and> peek_safe qp) \<and>
      pendingIrpQueue (V4vSimpleCompleteIrp s' i st) = remove1 i (pendingIrpQueue pde) \<and>
      map fst (completed (V4vSimpleCompleteIrp s' i st)) = i # map fst (completed pde) \<and>
      (\<forall>j. j \<noteq> i \<longrightarrow> matches qp (V4vSimpleCompleteIrp s' i st) j = matches qp pde j)"
    using n inv r(3,4) by (intro exI [of _ pde']) (simp add: V4vSimpleCompleteIrp_def V4vCompleteIrp_def)
qed

section \<open>Requeueing\<close>

lemma queue_ok_complete: "queue_ok pde \<Longrightarrow> irp \<notin> set (pendingIrpQueue pde) \<Longrightarrow> queue_ok (V4vSimpleCompleteIrp pde irp st)"
  using queue_ok_outside [of pde irp None]
  by (simp add: queue_ok_def V4vSimpleCompleteIrp_def V4vCompleteIrp_def writes_def)

lemma V4vRequeueIrps_spec:
  assumes "queue_ok pde" and "distinct is" and "\<forall>j \<in> set is. j \<notin> set (pendingIrpQueue pde) \<and> irps pde j \<noteq> None"
  shows "\<exists>pde'. V4vRequeueIrps alloc n pde is = Inr pde' \<and> queue_ok pde' \<and>
    (\<exists>ks. subseq ks is \<and> pendingIrpQueue pde' = pendingIrpQueue pde @ ks)"
  using assms
proof (induction "is" arbitrary: n pde)
  case Nil
  then show ?case by (auto intro!: exI [of _ "[]"])
next
  case (Cons j js)
  obtain i where i: "irps pde j = Some i" using Cons.prems(3) by auto
  have nj: "j \<notin> set (pendingIrpQueue pde)" using Cons.prems(3) by simp
  obtain st pde1 where p: "V4vCsqInsertIrpEx pde j False (fst (alloc n)) (snd (alloc n)) = Inr (st, pde1)" "queue_ok pde1"
    "\<forall>k. k \<noteq> j \<longrightarrow> map_option core (irps pde1 k) = map_option core (irps pde k)"
    "pendingIrpQueue pde1 = (if st \<noteq> STATUS_SUCCESS then pendingIrpQueue pde else pendingIrpQueue pde @ [j])"
    using V4vCsqInsertIrpEx_spec [OF Cons.prems(1) nj i, of False "fst (alloc n)" "snd (alloc n)"] by auto
  define pde2 where "pde2 = (if st \<noteq> STATUS_SUCCESS then V4vSimpleCompleteIrp pde1 j st else pde1)"
  have ok: "queue_ok pde2" using p nj queue_ok_complete [of pde1 j st] by (simp add: pde2_def)
  have q2: "pendingIrpQueue pde2 = pendingIrpQueue pde1"
    by (simp add: pde2_def V4vSimpleCompleteIrp_def V4vCompleteIrp_def)
  have "irps pde1 k \<noteq> None" if "k \<in> set js" for k
    using that p(3) Cons.prems(2,3) by (metis distinct.simps(2) list.set_intros(2) option.map_disc_iff)
  then have "\<forall>k \<in> set js. k \<notin> set (pendingIrpQueue pde2) \<and> irps pde2 k \<noteq> None"
    using q2 p(4) Cons.prems(2,3) by (auto simp: pde2_def V4vSimpleCompleteIrp_def V4vCompleteIrp_def)
  then obtain pde' ks where "V4vRequeueIrps alloc (n + 1) pde2 js = Inr pde'" "queue_ok pde'"
    "subseq ks js" "pendingIrpQueue pde' = pendingIrpQueue pde2 @ ks"
    using Cons.IH [of pde2 "n + 1"] ok Cons.prems(2) by auto
  moreover have "V4vRequeueIrps alloc n pde (j # js) = V4vRequeueIrps alloc (n + 1) pde2 js"
    using p(1) by (simp add: pde2_def)
  moreover have "subseq ks (j # js)" "subseq (j # ks) (j # js)" using \<open>subseq ks js\<close> by (auto intro: list_emb_Cons)
  ultimately show ?case using q2 p(4) by (cases "st = STATUS_SUCCESS") auto
qed

section \<open>Properties\<close>

text \<open>A history of the queue: requests are submitted (and completed at once when they cannot be queued),
  or taken out of the queue and completed.\<close>

datatype csq_op = Submit nat irp bool bool bool | Finish nat

fun csq_do :: "csq_op \<Rightarrow> csq_dev \<Rightarrow> csq_dev res" where
  "csq_do (Submit j i front alloc1 alloc2) pde =
     res_bind (V4vCsqInsertIrpEx (pde\<lparr>irps := (irps pde)(j \<mapsto> i)\<rparr>) j front alloc1 alloc2) (\<lambda>(st, pde).
       Inr (if st \<noteq> STATUS_SUCCESS then V4vSimpleCompleteIrp pde j st else pde))"
| "csq_do (Finish j) pde =
     res_bind (V4vCsqRemoveIrp pde j) (\<lambda>pde. Inr (V4vSimpleCompleteIrp pde j STATUS_SUCCESS))"

fun csq_run :: "csq_op list \<Rightarrow> csq_dev \<Rightarrow> csq_dev res" where
  "csq_run [] pde = Inr pde"
| "csq_run (a # as) pde =
     (case a of
        Submit j _ _ _ _ \<Rightarrow>
          if j \<in> set (pendingIrpQueue pde) then csq_run as pde else res_bind (csq_do a pde) (csq_run as)
      | Finish j \<Rightarrow>
          if j \<in> set (pendingIrpQueue pde) then res_bind (csq_do a pde) (csq_run as) else csq_run as pde)"

lemma csq_do_ok:
  assumes "queue_ok pde" and "case a of Submit j _ _ _ _ \<Rightarrow> j \<notin> set (pendingIrpQueue pde) | Finish j \<Rightarrow> j \<in> set (pendingIrpQueue pde)"
  shows "\<exists>pde'. csq_do a pde = Inr pde' \<and> queue_ok pde'"
proof (cases a)
  case (Submit j i front alloc1 alloc2)
  have nj: "j \<notin> set (pendingIrpQueue pde)" using assms(2) Submit by simp
  have ok: "queue_ok (pde\<lparr>irps := (irps pde)(j \<mapsto> i)\<rparr>)" using queue_ok_outside [OF assms(1) nj] .
  obtain st pde1 where p: "V4vCsqInsertIrpEx (pde\<lparr>irps := (irps pde)(j \<mapsto> i)\<rparr>) j front alloc1 alloc2 = Inr (st, pde1)" "queue_ok pde1"
    "pendingIrpQueue pde1 = (if st \<noteq> STATUS_SUCCESS then pendingIrpQueue pde else if front then j # pendingIrpQueue pde else pendingIrpQueue pde @ [j])"
    using V4vCsqInsertIrpEx_spec [OF ok, of j i front alloc1 alloc2] nj by auto
  then have "st \<noteq> STATUS_SUCCESS \<Longrightarrow> queue_ok (V4vSimpleCompleteIrp pde1 j st)" using nj queue_ok_complete by simp
  then show ?thesis using Submit p by auto
next
  case (Finish j)
  then have j: "j \<in> set (pendingIrpQueue pde)" using assms(2) by simp
  obtain pde1 where p: "V4vCsqRemoveIrp pde j = Inr pde1" "queue_ok pde1" "pendingIrpQueue pde1 = remove1 j (pendingIrpQueue pde)"
    using V4vCsqRemoveIrp_spec [OF assms(1) j] by blast
  moreover have "j \<notin> set (pendingIrpQueue pde1)" using p(3) assms(1) by (simp add: queue_ok_def)
  ultimately show ?thesis using Finish queue_ok_complete by simp
qed

lemma csq_run_ok: "queue_ok pde \<Longrightarrow> \<exists>pde'. csq_run as pde = Inr pde' \<and> queue_ok pde'"
proof (induction as arbitrary: pde)
  case (Cons a as)
  show ?case
  proof (cases "case a of Submit j _ _ _ _ \<Rightarrow> j \<notin> set (pendingIrpQueue pde) | Finish j \<Rightarrow> j \<in> set (pendingIrpQueue pde)")
    case True
    obtain pde1 where "csq_do a pde = Inr pde1" "queue_ok pde1" using csq_do_ok [OF Cons.prems True] by blast
    then show ?thesis using Cons.IH [of pde1] True by (cases a) (simp_all del: csq_do.simps)
  next
    case False
    then show ?thesis using Cons by (cases a) simp_all
  qed
qed simp

definition empty_csq :: "(nat \<Rightarrow> v4v_addr) \<Rightarrow> csq_dev" where
  "empty_csq sd = \<lparr>irps = Map.empty, sdst = sd, pendingIrpQueue = [], pendingIrpCount = 0, destList = [], destCount = 0,
     completed = []\<rparr>"

lemma queue_ok_empty: "queue_ok (empty_csq sd)"
  by (simp add: queue_ok_def empty_csq_def writes_def)

lemma Copy_loop_all: "Copy_loop (length xs) xs = Inr (map (\<lambda>x. (dst x, nextLength x)) xs)"
  by (induction xs) simp_all

text \<open>C14: in every history of the queue, whatever requests are submitted at either end and taken out from
  anywhere, and whichever allocations fail, no operation faults; and what the driver asks Xen about is
  exactly, once for each destination with a pending write, the size of the first such write in the queue.\<close>

theorem queue_history_exact:
  "\<exists>pde es. csq_run as (empty_csq sd) = Inr pde \<and> V4vCopyDestinationRingData True pde = Inr (Some es) \<and>
     distinct (map fst es) \<and>
     (\<forall>d n. (d, n) \<in> set es \<longleftrightarrow> (\<exists>j js. writes pde d = j # js \<and> n = payload (irps pde) j))"
proof -
  obtain pde where p: "csq_run as (empty_csq sd) = Inr pde" and ok: "queue_ok pde"
    using csq_run_ok [OF queue_ok_empty] by blast
  let ?es = "map (\<lambda>x. (dst x, nextLength x)) (destList pde)"
  have c: "V4vCopyDestinationRingData True pde = Inr (Some ?es)"
    using ok by (simp add: V4vCopyDestinationRingData_def queue_ok_def Copy_loop_all)
  have dd: "distinct (map fst ?es)" using ok by (simp add: queue_ok_def comp_def)
  have e: "nextLength x = payload (irps pde) (hd (writes pde (dst x)))" "writes pde (dst x) \<noteq> []" if "x \<in> set (destList pde)" for x
    using ok that by (auto simp: queue_ok_def entry_ok_def)
  have "(d, n) \<in> set ?es \<longleftrightarrow> (\<exists>j js. writes pde d = j # js \<and> n = payload (irps pde) j)" for d n
  proof
    assume "(d, n) \<in> set ?es"
    then obtain x where "x \<in> set (destList pde)" "d = dst x" "n = nextLength x" by auto
    then show "\<exists>j js. writes pde d = j # js \<and> n = payload (irps pde) j" using e [of x] by (metis list.collapse)
  next
    assume "\<exists>j js. writes pde d = j # js \<and> n = payload (irps pde) j"
    then obtain j js where w: "writes pde d = j # js" "n = payload (irps pde) j" by blast
    then obtain x where "x \<in> set (destList pde)" "d = dst x" using queue_ok_dest [OF ok, of d] by auto
    then show "(d, n) \<in> set ?es" using e [of x] w by (auto simp: image_iff)
  qed
  then show ?thesis using p c dd by blast
qed

text \<open>cancelling the requests of a file ends and completes all its pending writes in queue order, but none
  of its reads, although it is meant for all of them; requests of other files keep their places.\<close>

theorem V4vCancelAllFileIrps_only_writes:
  assumes "queue_ok pde"
  shows "\<exists>pde'. V4vCancelAllFileIrps pde f = Inr pde' \<and> queue_ok pde' \<and>
    (\<forall>j i. j \<in> set (pendingIrpQueue pde) \<and> irps pde j = Some i \<and> \<not> has (flags i) XENV4V_PEEK_WRITE \<longrightarrow>
       j \<in> set (pendingIrpQueue pde')) \<and>
    pendingIrpQueue pde' = filter (\<lambda>j. case irps pde j of None \<Rightarrow> False | Some i \<Rightarrow>
       \<not> (FileObject i = f \<and> has (flags i) XENV4V_PEEK_WRITE \<and> has (flags i) XENV4V_PEEK_ANY_TYPE)) (pendingIrpQueue pde)"
proof -
  let ?qp = "\<lparr>pfo = Some f, types = XENV4V_PEEK_ANY_TYPE, ops = XENV4V_PEEK_WRITE, pdst = \<lparr>port = 0, domain = 0\<rparr>\<rparr>"
  have inv: "queue_ok pde \<and> peek_safe ?qp" using assms by (simp add: peek_safe_def)
  obtain pde' where p: "V4vCancelAllFileIrps pde f = Inr pde'" "queue_ok pde'"
    "pendingIrpQueue pde' = filter (\<lambda>j. \<not> matches ?qp pde j) (pendingIrpQueue pde)"
    using csq.drain [where qp = ?qp and drain = "\<lambda>pde. V4vCancelAllFileIrps pde f" and st = STATUS_CANCELLED, OF _ inv]
      V4vCancelAllFileIrps.simps [of _ f] by auto
  have t: "has 0xffff (g AND 0xffff) \<longleftrightarrow> has g XENV4V_PEEK_ANY_TYPE" for g
    by (simp add: has_def and.commute [of "0xffff"] and.assoc)
  have "(\<not> matches ?qp pde j) = (case irps pde j of None \<Rightarrow> False | Some i \<Rightarrow>
       \<not> (FileObject i = f \<and> has (flags i) XENV4V_PEEK_WRITE \<and> has (flags i) XENV4V_PEEK_ANY_TYPE))"
    if j: "j \<in> set (pendingIrpQueue pde)" for j
  proof -
    obtain i where "irps pde j = Some i" using queue_ok_irp [OF assms j] by blast
    then show ?thesis using has_write_op [of "flags i"] t [of "flags i"]
      by (auto simp: matches_def V4vCsqPeekTest_def)
  qed
  then have "pendingIrpQueue pde' = filter (\<lambda>j. case irps pde j of None \<Rightarrow> False | Some i \<Rightarrow>
       \<not> (FileObject i = f \<and> has (flags i) XENV4V_PEEK_WRITE \<and> has (flags i) XENV4V_PEEK_ANY_TYPE)) (pendingIrpQueue pde)"
    using p(3) by (simp cong: filter_cong)
  then show ?thesis using p(1,2) by auto
qed

definition pending_read :: irp where
  "pending_read = \<lparr>flags = XENV4V_PEEK_STREAM OR XENV4V_PEEK_READ, FileObject = 1, wlen = 0,
     buf_dst = \<lparr>port = 0, domain = 0\<rparr>, idst = None\<rparr>"

definition read_queue :: csq_dev where
  "read_queue = (empty_csq (\<lambda>_. \<lparr>port = 0, domain = 0\<rparr>))\<lparr>irps := [5 \<mapsto> pending_read], pendingIrpQueue := [5], pendingIrpCount := 1\<rparr>"

lemma read_queue_ok: "queue_ok read_queue"
  by (simp add: queue_ok_def read_queue_def empty_csq_def writes_def write_to_def queued_ok_def pending_read_def has_def)

lemma V4vCancelAllFileIrps_only_writes_witness:
  "queue_ok read_queue \<and> (\<exists>pde'. V4vCancelAllFileIrps read_queue 1 = Inr pde' \<and> pendingIrpQueue pde' = [5])"
  using V4vCancelAllFileIrps_only_writes [OF read_queue_ok, of 1] read_queue_ok
  by (auto simp: read_queue_def empty_csq_def pending_read_def has_def)

end
