(* ===== verification/V4vContext.thy ===== *)
theory V4vContext
  imports V4vQueue
begin

text \<open>
  The file contexts of the V4V driver: \<^verbatim>\<open>src/xenv4v/create.c\<close>, the control requests of \<^verbatim>\<open>ioctl.c\<close> that
  do not move data, \<^verbatim>\<open>send.c\<close> and the connection timer of \<^verbatim>\<open>xenv4v.c\<close>.

  \<^item> \<open>v4v_dev\<close> is the device extension with everything it points to: the ring objects (\<open>rd\<close>), the request
    queue (\<open>qd\<close>, which also has the stream destination of every file), the contexts by file object, the
    requests' buffers, the events of user programs and the queued work items.  \<open>sent\<close> records what was given to
    the send hypercall with success.
  \<^item> \<open>v4v_env\<close> has what Windows and Xen answer.  \<open>clock\<close> counts the questions, so that no two of them need to
    get the same answer; it also names new allocations.
  \<^item> A state or a type is one bit of a mask in the source and a constructor here; a test of several bits is
    membership in a set.  The union of a context is a datatype: reading the wrong member is a \<open>BadPointer\<close>.
  \<^item> The reference counts of the object manager (files and events) and the spin locks are not modelled: an
    operation runs without interference.
\<close>

section \<open>Data\<close>

abbreviation (input) V4V_SHF_SYN :: u32 where "V4V_SHF_SYN \<equiv> 1"
abbreviation (input) V4V_SHF_ACK :: u32 where "V4V_SHF_ACK \<equiv> 2"
abbreviation (input) V4V_SHF_RST :: u32 where "V4V_SHF_RST \<equiv> 4"
abbreviation (input) V4V_SOMAXCONN :: u32 where "V4V_SOMAXCONN \<equiv> 128"
abbreviation (input) DOMID_INVALID_COMPAT :: u16 where "DOMID_INVALID_COMPAT \<equiv> 0x7FFF"
abbreviation (input) XENV4V_INVALID_CONNID :: u64 where "XENV4V_INVALID_CONNID \<equiv> 0xffffffffffffffff"
abbreviation (input) XENV4V_PEEK_STREAM_FLAGS :: u32 where
  "XENV4V_PEEK_STREAM_FLAGS \<equiv> XENV4V_PEEK_SYN OR XENV4V_PEEK_ACK OR XENV4V_PEEK_RST"

datatype XENV4V_STATE =
    STATE_UNINITIALIZED | STATE_IDLE | STATE_BOUND | STATE_LISTENING | STATE_CONNECTING | STATE_WAITING
  | STATE_ACCEPTING | STATE_CONNECTED | STATE_ACCEPTED | STATE_DISCONNECTED | STATE_PASSIVE | STATE_CLOSED

datatype XENV4V_TYPE = TYPE_UNSPECIFIED | TYPE_DATAGRAM | TYPE_LISTENER | TYPE_CONNECTOR | TYPE_ACCEPTER

definition FILE_TYPE_STREAM :: "XENV4V_TYPE \<Rightarrow> bool" where
  "FILE_TYPE_STREAM t \<longleftrightarrow> t \<in> {TYPE_LISTENER, TYPE_CONNECTOR, TYPE_ACCEPTER}"

text \<open>Pointers between entries of the array \<open>synList\<close> are indices.\<close>

record XENV4V_SYN =
  syn_next :: "nat option"
  syn_last :: "nat option"
  syn_pending :: bool
  syn_sdst :: v4v_addr
  syn_connId :: u64

record listener =
  backlog :: u32
  synList :: "XENV4V_SYN list"
  synHead :: "nat option"
  synTail :: "nat option"
  synCount :: int

text \<open>The chain that starts at \<open>dataList\<close>, each entry with its address; \<open>dataTail\<close> is an address.\<close>

record XENV4V_DATA =
  d_addr :: nat
  d_data :: "u8 list"
  d_length :: u32

record accepter =
  listenerContext :: nat
  dataList :: "XENV4V_DATA list"
  dataTail :: "nat option"

datatype context_u = Unset | Listener listener | Accepter accepter

record XENV4V_CONTEXT =
  crefc :: u32
  cstate :: XENV4V_STATE
  ctype :: XENV4V_TYPE
  ringObject :: "nat option"
  ringLength :: u32
  kevReceive :: "nat option"
  connId :: u64
  cu :: context_u

text \<open>Queued control messages: connection, file object and, for a reset, the destination.\<close>

datatype XENV4V_CTRL_MSG = XENV4V_RESET u32 nat v4v_addr | XENV4V_ACKNOWLEDGE u32 nat

text \<open>What the driver reads of a request besides the fields of \<open>irp\<close>: the major function, the buffer, and for
  an accept the private values.\<close>

record request =
  is_ioctl :: bool
  rbuf :: "u8 list"
  priv_a :: nat
  peerAddr :: v4v_addr

record v4v_dev =
  rd :: ring_dev
  qd :: csq_dev
  FsContext :: "nat \<Rightarrow> bool"
  ctxs :: "nat \<Rightarrow> XENV4V_CONTEXT option"
  contextList :: "nat list"
  contextCount :: int
  timerCounter :: u8
  timer_set :: bool
  reqs :: "nat \<Rightarrow> request"
  events :: "nat \<Rightarrow> bool"
  sent :: "(v4v_addr \<times> v4v_addr \<times> u32 \<times> u8 list) list"
  work_items :: "XENV4V_CTRL_MSG list"
  clock :: nat

record v4v_env =
  alloc :: "nat \<Rightarrow> bool"
  hypercall :: "nat \<Rightarrow> int"
  RtlRandomEx :: "nat \<Rightarrow> u32"
  event_of :: "nat \<Rightarrow> NTSTATUS \<times> nat"
  file_of :: "nat \<Rightarrow> NTSTATUS \<times> nat"
  ring_flags :: "nat \<Rightarrow> v4v_addr \<Rightarrow> u16"
  phys :: "u64 \<Rightarrow> u64"
  virt :: "nat \<Rightarrow> u64"

definition tick :: "nat \<Rightarrow> v4v_dev \<Rightarrow> v4v_dev" where
  "tick n d = d\<lparr>clock := clock d + n\<rparr>"

definition with_ctx :: "v4v_dev \<Rightarrow> nat \<Rightarrow> (XENV4V_CONTEXT \<Rightarrow> 'a res) \<Rightarrow> 'a res" where
  "with_ctx d f k = (case ctxs d f of None \<Rightarrow> Inl BadPointer | Some c \<Rightarrow> k c)"

definition set_ctx :: "v4v_dev \<Rightarrow> nat \<Rightarrow> XENV4V_CONTEXT \<Rightarrow> v4v_dev" where
  "set_ctx d f c = d\<lparr>ctxs := (ctxs d)(f \<mapsto> c)\<rparr>"

definition set_state :: "v4v_dev \<Rightarrow> nat \<Rightarrow> XENV4V_STATE \<Rightarrow> v4v_dev res" where
  "set_state d f s = with_ctx d f (\<lambda>c. Inr (set_ctx d f (c\<lparr>cstate := s\<rparr>)))"

text \<open>\<^verbatim>\<open>KeSetEvent\<close> and \<^verbatim>\<open>KeClearEvent\<close>.\<close>

definition put_event :: "v4v_dev \<Rightarrow> nat \<Rightarrow> bool \<Rightarrow> v4v_dev res" where
  "put_event d f b =
     with_ctx d f (\<lambda>c. case kevReceive c of
       None \<Rightarrow> Inl BadPointer
     | Some ev \<Rightarrow> Inr (d\<lparr>events := (events d)(ev := b)\<rparr>))"

definition the_ring :: "v4v_dev \<Rightarrow> nat \<Rightarrow> v4v_ring res" where
  "the_ring d f =
     with_ctx d f (\<lambda>c. case ringObject c of
       None \<Rightarrow> Inl BadPointer
     | Some r \<Rightarrow> (case objs (rd d) r of None \<Rightarrow> Inl BadPointer | Some o1 \<Rightarrow> Inr (ring o1)))"

definition put_ring :: "v4v_dev \<Rightarrow> nat \<Rightarrow> v4v_ring \<Rightarrow> v4v_dev res" where
  "put_ring d f rg =
     with_ctx d f (\<lambda>c. case ringObject c of
       None \<Rightarrow> Inl BadPointer
     | Some r \<Rightarrow>
         (case objs (rd d) r of
            None \<Rightarrow> Inl BadPointer
          | Some o1 \<Rightarrow> Inr (d\<lparr>rd := (rd d)\<lparr>objs := (objs (rd d))(r \<mapsto> o1\<lparr>ring := rg\<rparr>)\<rparr>\<rparr>)))"

definition complete :: "v4v_dev \<Rightarrow> nat \<Rightarrow> NTSTATUS \<Rightarrow> u32 \<Rightarrow> v4v_dev" where
  "complete d irp status information = d\<lparr>qd := V4vCompleteIrp (qd d) irp status information\<rparr>"

text \<open>\<^verbatim>\<open>IoCsqInsertIrpEx\<close> and \<^verbatim>\<open>IoCsqRemoveNextIrp\<close> on the device.\<close>

definition insert_irp :: "v4v_env \<Rightarrow> v4v_dev \<Rightarrow> nat \<Rightarrow> bool \<Rightarrow> (NTSTATUS \<times> v4v_dev) res" where
  "insert_irp E d irp insertHead =
     res_bind (V4vCsqInsertIrpEx (qd d) irp insertHead (alloc E (clock d)) (alloc E (clock d + 1))) (\<lambda>(status, q).
       Inr (status, tick 2 (d\<lparr>qd := q\<rparr>)))"

definition remove_irp :: "v4v_dev \<Rightarrow> XENV4V_QPEEK \<Rightarrow> (nat option \<times> v4v_dev) res" where
  "remove_irp d qp = res_bind (IoCsqRemoveNextIrp (qd d) qp) (\<lambda>(irp, q). Inr (irp, d\<lparr>qd := q\<rparr>))"

definition peek_file :: "nat \<Rightarrow> u32 \<Rightarrow> u32 \<Rightarrow> XENV4V_QPEEK" where
  "peek_file f ts os = \<lparr>pfo = Some f, types = ts, ops = os, pdst = \<lparr>port = 0, domain = 0\<rparr>\<rparr>"

text \<open>A stream header: flags and connection.\<close>

definition sh_bytes :: "u32 \<Rightarrow> u32 \<Rightarrow> u8 list" where
  "sh_bytes fl con = le_bytes 4 (unat fl) @ le_bytes 4 (unat con)"

definition sh_flags :: "u8 list \<Rightarrow> u32" where
  "sh_flags bs = le_field bs 0 4"

definition sh_conid :: "u8 list \<Rightarrow> u32" where
  "sh_conid bs = le_field bs 4 4"

text \<open>The send hypercalls: \<open>bs\<close> is the message.\<close>

definition do_send :: "v4v_env \<Rightarrow> v4v_dev \<Rightarrow> v4v_addr \<Rightarrow> v4v_addr \<Rightarrow> u32 \<Rightarrow> u8 list \<Rightarrow> NTSTATUS \<times> u32 \<times> v4v_dev" where
  "do_send E d src dest protocol bs =
     (let err = hypercall E (clock d); (status, written) = V4vSend err
      in (status, written, tick 1 (if 0 \<le> err then d\<lparr>sent := (src, dest, protocol, bs) # sent d\<rparr> else d)))"

section \<open>Timer\<close>

text \<open>\<^verbatim>\<open>timerCounter\<close> is a \<^verbatim>\<open>BOOLEAN\<close>, one byte.\<close>

definition V4vStartConnectionTimer :: "v4v_dev \<Rightarrow> v4v_dev" where
  "V4vStartConnectionTimer d =
     (let count = timerCounter d + 1; d = d\<lparr>timerCounter := count\<rparr>
      in if count = 1 then d\<lparr>timer_set := True\<rparr> else d)"

definition V4vStopConnectionTimer :: "v4v_dev \<Rightarrow> bool \<Rightarrow> v4v_dev" where
  "V4vStopConnectionTimer d immediate =
     (let (count, d) =
            (if immediate then (Some 0, d\<lparr>timerCounter := 0\<rparr>)
             else if timerCounter d > 0 then (Some (timerCounter d - 1), d\<lparr>timerCounter := timerCounter d - 1\<rparr>)
             else (None, d))
      in if count = Some 0 then d\<lparr>timer_set := False\<rparr> else d)"

section \<open>Control messages\<close>

text \<open>\<open>alloc\<close> is asked for the message and for the work item.\<close>

definition V4vSendReset :: "v4v_env \<Rightarrow> v4v_dev \<Rightarrow> nat \<Rightarrow> u32 \<Rightarrow> v4v_addr \<Rightarrow> bool \<Rightarrow> v4v_dev res" where
  "V4vSendReset E d f con dest noq =
     res_bind (the_ring d f) (\<lambda>rg.
       let (status, written, d) = do_send E d (addr (ring_id rg)) dest V4V_PROTO_STREAM (sh_bytes V4V_SHF_RST con)
       in Inr (if status = STATUS_RETRY \<and> \<not> noq then
                 if alloc E (clock d) \<and> alloc E (clock d + 1)
                 then tick 2 (d\<lparr>work_items := work_items d @ [XENV4V_RESET con f dest]\<rparr>)
                 else tick 2 d
               else d))"

definition V4vSendAcknowledge :: "v4v_env \<Rightarrow> v4v_dev \<Rightarrow> nat \<Rightarrow> (NTSTATUS \<times> v4v_dev) res" where
  "V4vSendAcknowledge E d f =
     with_ctx d f (\<lambda>c.
       if alloc E (clock d) \<and> alloc E (clock d + 1)
       then Inr (STATUS_SUCCESS, tick 2 (d\<lparr>work_items := work_items d @ [XENV4V_ACKNOWLEDGE (ucast (connId c)) f]\<rparr>))
       else Inr (STATUS_NO_MEMORY, tick 2 d))"

section \<open>Disconnecting\<close>

definition V4vFlushAccepterQueueData :: "v4v_dev \<Rightarrow> nat \<Rightarrow> v4v_dev res" where
  "V4vFlushAccepterQueueData d f =
     with_ctx d f (\<lambda>c. case cu c of
       Accepter a \<Rightarrow> Inr (set_ctx d f (c\<lparr>cu := Accepter (a\<lparr>dataList := [], dataTail := None\<rparr>)\<rparr>))
     | _ \<Rightarrow> Inl BadPointer)"

definition cancel_file :: "v4v_dev \<Rightarrow> nat \<Rightarrow> v4v_dev res" where
  "cancel_file d f = res_bind (V4vCancelAllFileIrps (qd d) f) (\<lambda>q. Inr (d\<lparr>qd := q\<rparr>))"

definition V4vDisconnectStreamAndSignal :: "v4v_dev \<Rightarrow> nat \<Rightarrow> v4v_dev res" where
  "V4vDisconnectStreamAndSignal d f =
     with_ctx d f (\<lambda>c.
       res_bind
         (if cstate c = STATE_CONNECTING then Inr (V4vStopConnectionTimer d False)
          else if cstate c = STATE_ACCEPTED then V4vFlushAccepterQueueData d f
          else Inr d) (\<lambda>d.
       res_bind (set_state d f STATE_DISCONNECTED) (\<lambda>d.
       res_bind (cancel_file d f) (\<lambda>d.
       put_event d f True))))"

section \<open>Contexts\<close>

text \<open>The final release of a context, when its count has dropped to 0; \<open>release\<close> releases the listener of an
  accepter.\<close>

definition final_release :: "(v4v_dev \<Rightarrow> nat \<Rightarrow> (u32 \<times> v4v_dev) res) \<Rightarrow> v4v_dev \<Rightarrow> nat \<Rightarrow> XENV4V_CONTEXT \<Rightarrow> v4v_dev res" where
  "final_release release d f c =
     res_bind
       (if ctype c = TYPE_ACCEPTER then
          res_bind (V4vFlushAccepterQueueData d f) (\<lambda>d.
            (case cu c of
               Accepter a \<Rightarrow> res_bind (release d (listenerContext a)) (\<lambda>(_, d). Inr d)
             | _ \<Rightarrow> Inl BadPointer))
        else Inr d) (\<lambda>d.
     res_bind
       (case ringObject c of
          None \<Rightarrow> Inr d
        | Some r \<Rightarrow> res_bind (V4vReleaseRing (rd d) r) (\<lambda>(_, rs). Inr (d\<lparr>rd := rs\<rparr>))) (\<lambda>d.
     res_bind (cancel_file d f) (\<lambda>d.
       Inr (d\<lparr>ctxs := (ctxs d)(f := None)\<rparr>))))"

text \<open>An accepter releases its listener and a listener no other context: the depth of the recursion is at most
  2.\<close>

fun ReleaseContext_depth :: "nat \<Rightarrow> v4v_dev \<Rightarrow> nat \<Rightarrow> (u32 \<times> v4v_dev) res" where
  "ReleaseContext_depth 0 d f = Inl NoReturn"
| "ReleaseContext_depth (Suc n) d f =
     with_ctx d f (\<lambda>c.
       let count = crefc c - 1;
           d1 = set_ctx d f (c\<lparr>crefc := count\<rparr>);
           (count, d2) =
             (if ctype c = TYPE_LISTENER \<and> count = 1
              then (0, (set_ctx d f (c\<lparr>crefc := 0\<rparr>))\<lparr>contextList := remove1 f (contextList d1), contextCount := contextCount d1 - 1\<rparr>)
              else (count, d1))
       in if count = 0
          then res_bind (final_release (ReleaseContext_depth n) d2 f c) (\<lambda>d. Inr (count, d))
          else Inr (count, d2))"

definition V4vReleaseContextInternal :: "v4v_dev \<Rightarrow> nat \<Rightarrow> (u32 \<times> v4v_dev) res" where
  "V4vReleaseContextInternal d f = ReleaseContext_depth 2 d f"

definition V4vReleaseContext :: "v4v_dev \<Rightarrow> nat \<Rightarrow> v4v_dev res" where
  "V4vReleaseContext d f = res_bind (V4vReleaseContextInternal d f) (\<lambda>(_, d). Inr d)"

definition V4vAddRefContext :: "v4v_dev \<Rightarrow> nat \<Rightarrow> v4v_dev res" where
  "V4vAddRefContext d f = with_ctx d f (\<lambda>c. Inr (set_ctx d f (c\<lparr>crefc := crefc c + 1\<rparr>)))"

fun V4vPutAllContexts :: "v4v_dev \<Rightarrow> nat list \<Rightarrow> v4v_dev res" where
  "V4vPutAllContexts d [] = Inr d"
| "V4vPutAllContexts d (f # fs) = res_bind (V4vReleaseContext d f) (\<lambda>d. V4vPutAllContexts d fs)"

fun GetAll_loop :: "v4v_dev \<Rightarrow> nat list \<Rightarrow> v4v_dev res" where
  "GetAll_loop d [] = Inr d"
| "GetAll_loop d (f # fs) = res_bind (V4vAddRefContext d f) (\<lambda>d. GetAll_loop d fs)"

text \<open>The array has \<open>contextCount\<close> places; writing more contexts than that into it is a \<open>BadPointer\<close>.\<close>

definition V4vGetAllContexts :: "v4v_env \<Rightarrow> v4v_dev \<Rightarrow> (nat list \<times> v4v_dev) res" where
  "V4vGetAllContexts E d =
     (if contextList d = [] then Inr ([], d)
      else if \<not> alloc E (clock d) then Inr ([], tick 1 d)
      else if int (length (contextList d)) \<noteq> contextCount d then Inl BadPointer
      else res_bind (GetAll_loop d (contextList d)) (\<lambda>d'. Inr (contextList d, tick 1 d')))"

fun ByConnectionId_loop :: "v4v_dev \<Rightarrow> nat list \<Rightarrow> u64 \<Rightarrow> nat option res" where
  "ByConnectionId_loop d [] con = Inr None"
| "ByConnectionId_loop d (f # fs) con =
     with_ctx d f (\<lambda>c.
       if cstate c = STATE_ACCEPTED \<and> ctype c = TYPE_ACCEPTER \<and> connId c = con then Inr (Some f)
       else ByConnectionId_loop d fs con)"

definition V4vGetContextByConnectionId :: "v4v_dev \<Rightarrow> u64 \<Rightarrow> (nat option \<times> v4v_dev) res" where
  "V4vGetContextByConnectionId d con =
     res_bind (ByConnectionId_loop d (contextList d) con) (\<lambda>r.
       case r of
         None \<Rightarrow> Inr (None, d)
       | Some f \<Rightarrow> res_bind (V4vAddRefContext d f) (\<lambda>d. Inr (Some f, d)))"

definition V4vLinkToContextList :: "v4v_dev \<Rightarrow> nat \<Rightarrow> v4v_dev res" where
  "V4vLinkToContextList d f =
     with_ctx d f (\<lambda>c.
       Inr ((set_ctx d f (c\<lparr>crefc := crefc c + 1\<rparr>))\<lparr>contextList := f # contextList d, contextCount := contextCount d + 1\<rparr>))"

definition V4vUnlinkFromContextList :: "v4v_dev \<Rightarrow> nat \<Rightarrow> v4v_dev res" where
  "V4vUnlinkFromContextList d f =
     res_bind (V4vReleaseContext (d\<lparr>contextList := remove1 f (contextList d)\<rparr>) f) (\<lambda>d.
       Inr (d\<lparr>contextCount := contextCount d - 1\<rparr>))"

section \<open>Opening and closing files\<close>

text \<open>The test for a context right after the pointer has been cleared never holds and is left out.\<close>

definition V4vDispatchCreate :: "v4v_env \<Rightarrow> v4v_dev \<Rightarrow> nat \<Rightarrow> nat \<Rightarrow> (NTSTATUS \<times> v4v_dev) res" where
  "V4vDispatchCreate E d f irp =
     (let d = d\<lparr>FsContext := (FsContext d)(f := False)\<rparr>
      in if \<not> alloc E (clock d) then Inr (STATUS_NO_MEMORY, complete (tick 1 d) irp STATUS_NO_MEMORY 0)
         else
           let d = tick 1 (d\<lparr>ctxs := (ctxs d)(f \<mapsto> \<lparr>crefc = 1, cstate = STATE_UNINITIALIZED, ctype = TYPE_UNSPECIFIED,
                             ringObject = None, ringLength = 0, kevReceive = None, connId = XENV4V_INVALID_CONNID, cu = Unset\<rparr>),
                      qd := (qd d)\<lparr>sdst := (sdst (qd d))(f := \<lparr>port = V4V_PORT_NONE, domain = DOMID_INVALID\<rparr>)\<rparr>\<rparr>)
           in res_bind (V4vLinkToContextList d f) (\<lambda>d.
                Inr (STATUS_SUCCESS, complete (d\<lparr>FsContext := (FsContext d)(f := True)\<rparr>) irp STATUS_SUCCESS 0)))"

definition V4vDispatchCleanup :: "v4v_env \<Rightarrow> v4v_dev \<Rightarrow> nat \<Rightarrow> nat \<Rightarrow> (NTSTATUS \<times> v4v_dev) res" where
  "V4vDispatchCleanup E d f irp =
     (if \<not> FsContext d f then Inr (STATUS_UNSUCCESSFUL, complete d irp STATUS_UNSUCCESSFUL 0)
      else with_ctx d f (\<lambda>c.
        res_bind
          (if cstate c \<in> {STATE_LISTENING, STATE_CONNECTING, STATE_WAITING, STATE_CONNECTED, STATE_ACCEPTED}
           then V4vSendReset E d f (ucast (connId c)) (sdst (qd d) f) True
           else Inr d) (\<lambda>d.
        res_bind
          (if cstate c = STATE_CONNECTING then Inr (V4vStopConnectionTimer d False)
           else if cstate c = STATE_ACCEPTED then V4vFlushAccepterQueueData d f
           else Inr d) (\<lambda>d.
        res_bind
          (if ctype c \<noteq> TYPE_LISTENER then
             res_bind (set_state d f STATE_CLOSED) (\<lambda>d.
             res_bind (V4vUnlinkFromContextList d f) (\<lambda>d.
             V4vReleaseContext d f))
           else
             res_bind (set_state d f STATE_PASSIVE) (\<lambda>d.
             V4vReleaseContext d f)) (\<lambda>d.
        Inr (STATUS_SUCCESS, complete d irp STATUS_SUCCESS 0))))))"

definition V4vDispatchClose :: "v4v_dev \<Rightarrow> nat \<Rightarrow> nat \<Rightarrow> v4v_dev" where
  "V4vDispatchClose d f irp = complete (d\<lparr>FsContext := (FsContext d)(f := False)\<rparr>) irp STATUS_SUCCESS 0"

section \<open>Control requests\<close>

text \<open>\<open>invs\<close> has the event handle and the ring length.  Whatever the failed reference left in \<^verbatim>\<open>kevReceive\<close>,
  it is null afterwards.\<close>

definition V4vCtrlInitializeFile :: "v4v_env \<Rightarrow> v4v_dev \<Rightarrow> nat \<Rightarrow> nat option \<Rightarrow> u32 \<Rightarrow> (NTSTATUS \<times> v4v_dev) res" where
  "V4vCtrlInitializeFile E d f rxEvent len =
     (if \<not> FsContext d f then Inr (STATUS_INVALID_HANDLE, d)
      else case rxEvent of
        None \<Rightarrow> Inr (STATUS_INVALID_HANDLE, d)
      | Some h \<Rightarrow>
          with_ctx d f (\<lambda>c.
            let (status, ev) = event_of E h
            in if NT_SUCCESS status
               then Inr (status, set_ctx d f (c\<lparr>kevReceive := Some ev, ringLength := straighten len, cstate := STATE_IDLE\<rparr>))
               else Inr (status, set_ctx d f (c\<lparr>kevReceive := None\<rparr>))))"

text \<open>Choosing the port under the ring lock: \<open>None\<close> when the ring identity is in use.\<close>

definition bind_port :: "v4v_env \<Rightarrow> v4v_dev \<Rightarrow> v4v_ring_id \<Rightarrow> v4v_ring_id option res" where
  "bind_port E d i =
     (if port (addr i) = V4V_PORT_NONE then
        res_bind (V4vSparePortNumber (rd d) (V4vRandomPort (RtlRandomEx E (clock d)))) (\<lambda>p.
          Inr (Some (i\<lparr>addr := (addr i)\<lparr>port := p\<rparr>\<rparr>)))
      else
        res_bind (V4vRingIdInUse (rd d) i) (\<lambda>used. Inr (if used then None else Some i)))"

text \<open>The registration of a new ring object \<open>o1\<close> at address \<open>r\<close>.  It is freed nowhere when the identity is in
  use or the hypercall fails: \<^verbatim>\<open>ctx->ringObject\<close>, which the cleanup code looks at, is still null.\<close>

definition bind_ring :: "v4v_env \<Rightarrow> v4v_dev \<Rightarrow> nat \<Rightarrow> nat \<Rightarrow> XENV4V_RING \<Rightarrow> v4v_ring_id \<Rightarrow> (NTSTATUS \<times> v4v_dev) res" where
  "bind_ring E d f r o1 rid =
     (let put = (\<lambda>o1. d\<lparr>rd := (rd d)\<lparr>objs := (objs (rd d))(r \<mapsto> o1)\<rparr>\<rparr>);
          o1 = o1\<lparr>ring := (ring o1)\<lparr>ring_id := rid\<rparr>\<rparr>
      in res_bind (bind_port E d rid) (\<lambda>p.
           case p of
             None \<Rightarrow> Inr (STATUS_INVALID_DEVICE_REQUEST, tick 1 (put o1))
           | Some i \<Rightarrow>
               let o1 = o1\<lparr>ring := (ring o1)\<lparr>ring_id := i\<rparr>\<rparr>;
                   status = V4vRegisterRing (hypercall E (clock d + 1))
               in if \<not> NT_SUCCESS status then Inr (status, tick 2 (put o1))
                  else
                    let d = tick 2 (put (o1\<lparr>registered := True\<rparr>))
                    in res_bind (V4vLinkToRingList (rd d) r) (\<lambda>rs.
                         with_ctx d f (\<lambda>c.
                           Inr (status, set_ctx (d\<lparr>rd := rs\<rparr>) f
                                  (c\<lparr>ringObject := Some r, ctype := TYPE_DATAGRAM, cstate := STATE_BOUND\<rparr>))))))"

definition V4vCtrlBind :: "v4v_env \<Rightarrow> v4v_dev \<Rightarrow> nat \<Rightarrow> v4v_ring_id \<Rightarrow> (NTSTATUS \<times> v4v_dev) res" where
  "V4vCtrlBind E d f rid =
     with_ctx d f (\<lambda>c.
       if cstate c \<noteq> STATE_IDLE then Inr (STATUS_INVALID_DEVICE_REQUEST, d)
       else
         res_bind
           (if domain (addr rid) \<noteq> DOMID_INVALID \<and> domain (addr rid) \<noteq> DOMID_INVALID_COMPAT
            then Inr (STATUS_INVALID_PARAMETER, d)
            else
              let k = clock d
              in res_bind (V4vAllocateRing (alloc E k) (alloc E (k + 1)) (alloc E (k + 2)) (phys E) (virt E k) (ringLength c))
                   (\<lambda>r. case r of
                          None \<Rightarrow> Inr (STATUS_NO_MEMORY, tick 3 d)
                        | Some o1 \<Rightarrow> bind_ring E (tick 3 d) f k o1 rid))
           (\<lambda>(status, d).
             if NT_SUCCESS status then Inr (status, d)
             else with_ctx d f (\<lambda>c.
               case ringObject c of
                 None \<Rightarrow> Inr (status, d)
               | Some r \<Rightarrow> res_bind (V4vReleaseRing (rd d) r) (\<lambda>(_, rs). Inr (status, d\<lparr>rd := rs\<rparr>)))))"

definition zero_SYN :: XENV4V_SYN where
  "zero_SYN = \<lparr>syn_next = None, syn_last = None, syn_pending = False, syn_sdst = \<lparr>port = 0, domain = 0\<rparr>, syn_connId = 0\<rparr>"

definition V4vCtrlListen :: "v4v_env \<Rightarrow> v4v_dev \<Rightarrow> nat \<Rightarrow> u32 \<Rightarrow> (NTSTATUS \<times> v4v_dev) res" where
  "V4vCtrlListen E d f bl =
     with_ctx d f (\<lambda>c.
       if cstate c \<noteq> STATE_BOUND then Inr (STATUS_INVALID_DEVICE_REQUEST, d)
       else if bl > V4V_SOMAXCONN then Inr (STATUS_INVALID_PARAMETER, d)
       else
         let n = (if bl = 0 then V4V_SOMAXCONN else bl);
             l = \<lparr>backlog = n, synList = [], synHead = None, synTail = None, synCount = 0\<rparr>
         in if \<not> alloc E (clock d) then Inr (STATUS_NO_MEMORY, tick 1 (set_ctx d f (c\<lparr>cu := Listener l\<rparr>)))
            else Inr (STATUS_SUCCESS, tick 1 (set_ctx d f
                   (c\<lparr>cu := Listener (l\<lparr>synList := replicate (unat n) zero_SYN\<rparr>), ctype := TYPE_LISTENER,
                      cstate := STATE_LISTENING\<rparr>))))"

definition V4vCtrlDisconnect :: "v4v_env \<Rightarrow> v4v_dev \<Rightarrow> nat \<Rightarrow> (NTSTATUS \<times> v4v_dev) res" where
  "V4vCtrlDisconnect E d f =
     with_ctx d f (\<lambda>c.
       if cstate c \<notin> {STATE_CONNECTED, STATE_ACCEPTED} then Inr (STATUS_INVALID_DEVICE_REQUEST, d)
       else
         res_bind (V4vSendReset E d f (ucast (connId c)) (sdst (qd d) f) False) (\<lambda>d.
         res_bind (if cstate c = STATE_ACCEPTED then V4vFlushAccepterQueueData d f else Inr d) (\<lambda>d.
         res_bind (set_state d f STATE_DISCONNECTED) (\<lambda>d.
         Inr (STATUS_SUCCESS, d)))))"

datatype V4V_GETINFO_TYPE = V4vInfoUnset | V4vGetLocalInfo | V4vGetPeerInfo

text \<open>The second component is \<open>ringInfo\<close>, when it is written.\<close>

definition V4vCtrlGetInfo :: "v4v_dev \<Rightarrow> nat \<Rightarrow> V4V_GETINFO_TYPE \<Rightarrow> (NTSTATUS \<times> v4v_ring_id option) res" where
  "V4vCtrlGetInfo d f t =
     with_ctx d f (\<lambda>c.
       if t = V4vGetPeerInfo \<and> cstate c \<in> {STATE_CONNECTING, STATE_CONNECTED, STATE_ACCEPTED}
       then Inr (STATUS_SUCCESS, Some \<lparr>addr = sdst (qd d) f, partner = DOMID_INVALID\<rparr>)
       else if t = V4vGetLocalInfo \<and>
               cstate c \<in> {STATE_BOUND, STATE_LISTENING, STATE_WAITING, STATE_CONNECTING, STATE_CONNECTED, STATE_ACCEPTED}
       then res_bind (the_ring d f) (\<lambda>rg. Inr (STATUS_SUCCESS, Some (ring_id rg)))
       else Inr (STATUS_INVALID_DEVICE_REQUEST, None))"

definition V4vCtrlDumpRing :: "v4v_dev \<Rightarrow> nat \<Rightarrow> NTSTATUS res" where
  "V4vCtrlDumpRing d f =
     with_ctx d f (\<lambda>c.
       if cstate c \<in> {STATE_BOUND, STATE_LISTENING, STATE_WAITING, STATE_CONNECTING, STATE_CONNECTED, STATE_ACCEPTED}
       then res_bind (the_ring d f) (\<lambda>_. Inr STATUS_SUCCESS)
       else Inr STATUS_INVALID_DEVICE_REQUEST)"

end
