(* ===== verification/V4vStream.thy ===== *)
theory V4vStream
  imports V4vContext
begin

text \<open>
  The data path of the V4V driver: \<^verbatim>\<open>src/xenv4v/rw.c\<close>, the control requests of \<^verbatim>\<open>ioctl.c\<close> that drive it, the
  work item of \<^verbatim>\<open>send.c\<close>, the interrupt and timer routines of \<^verbatim>\<open>xenv4v.c\<close> and the cancellation callback of
  \<^verbatim>\<open>csq.c\<close>.

  \<^item> A write is removed from the queue, sent, and put back when the destination is full.  A read is removed when
    its ring has a message.  A connect request changes its role while it is queued: first the write of a SYN, then
    the read of the ACK; a wait request is first the read of a SYN, then the write of the ACK.
  \<^item> A listener reads the ring for all its accepters: SYNs go to its backlog, data to the queue of the accepter.
  \<^item> Loops that take a request out of the queue in every iteration end for that reason.  The two loops that read
    a ring without doing so have fuel: the bytes in the ring and the requests, which is enough when the ring is
    well formed.
  \<^item> What Xen adds to a ring while a loop runs is seen by the next run.
\<close>

section \<open>Writing\<close>

definition read_buf :: "u8 list \<Rightarrow> nat \<Rightarrow> nat \<Rightarrow> u8 list res" where
  "read_buf b off n = (if off + n \<le> length b then Inr (take n (drop off b)) else Inl BadPointer)"

definition V4vGetWriteIrpValues :: "v4v_dev \<Rightarrow> nat \<Rightarrow> nat \<Rightarrow> irp \<Rightarrow> (v4v_addr \<times> u8 list \<times> u32) res" where
  "V4vGetWriteIrpValues d f irp i =
     (let b = rbuf (reqs d irp)
      in if has (flags i) XENV4V_PEEK_SYN then
           res_bind (read_buf b 0 8) (\<lambda>msg. Inr (sdst (qd d) f, msg, V4V_PROTO_STREAM))
         else if has (flags i) XENV4V_PEEK_ACK then
           res_bind (read_buf b 0 8) (\<lambda>msg. Inr (sdst (qd d) f, msg, V4V_PROTO_STREAM))
         else if has (flags i) XENV4V_PEEK_RST then
           res_bind (read_buf b 0 8) (\<lambda>msg. Inr (buf_dst i, msg, V4V_PROTO_STREAM))
         else if has (flags i) XENV4V_PEEK_STREAM then
           res_bind (read_buf b 0 (unat (wlen i))) (\<lambda>msg. Inr (sdst (qd d) f, msg, V4V_PROTO_STREAM))
         else
           res_bind (read_buf b 6 (unat (wlen i - 6))) (\<lambda>msg. Inr (buf_dst i, msg, V4V_PROTO_DGRAM)))"

definition set_irp :: "v4v_dev \<Rightarrow> nat \<Rightarrow> irp \<Rightarrow> v4v_dev" where
  "set_irp d irp i = d\<lparr>qd := (qd d)\<lparr>irps := (irps (qd d))(irp \<mapsto> i)\<rparr>\<rparr>"

text \<open>What a write reports as its length.  A reset record has 40 bytes and an acknowledge record 32.\<close>

definition write_information :: "u32 \<Rightarrow> u32 \<Rightarrow> u32" where
  "write_information fl written =
     (if has fl XENV4V_PEEK_STREAM \<and> \<not> has fl XENV4V_PEEK_STREAM_FLAGS then written - 8
      else if \<not> has fl XENV4V_PEEK_STREAM_FLAGS then written + 6
      else if has fl XENV4V_PEEK_RST then 40
      else if has fl XENV4V_PEEK_ACK \<and> \<not> has fl XENV4V_PEEK_IOCTL then 32
      else written)"

definition write_failed :: "v4v_dev \<Rightarrow> nat \<Rightarrow> u32 \<Rightarrow> NTSTATUS \<Rightarrow> v4v_dev res" where
  "write_failed d f fl status =
     res_bind (if has fl (XENV4V_PEEK_SYN OR XENV4V_PEEK_ACK) then V4vDisconnectStreamAndSignal d f else Inr d) (\<lambda>d.
       with_ctx d f (\<lambda>c.
         if status = STATUS_VIRTUAL_CIRCUIT_CLOSED \<and> FILE_TYPE_STREAM (ctype c) then V4vDisconnectStreamAndSignal d f
         else Inr d))"

text \<open>\<^verbatim>\<open>V4vDoWrite\<close> from the result of the hypercall on.\<close>

definition write_finish :: "v4v_dev \<Rightarrow> nat \<Rightarrow> nat \<Rightarrow> irp \<Rightarrow> NTSTATUS \<Rightarrow> u32 \<Rightarrow> (NTSTATUS \<times> v4v_dev) res" where
  "write_finish d f irp i status written =
     (let fl = flags i
      in if status = STATUS_RETRY then Inr (status, d)
         else if \<not> NT_SUCCESS status then
           res_bind (write_failed d f fl status) (\<lambda>d. Inr (status, complete d irp status 0))
         else if has fl XENV4V_PEEK_SYN then
           Inr (STATUS_PENDING, set_irp d irp (i\<lparr>flags :=
             (fl AND NOT (XENV4V_PEEK_WRITE OR XENV4V_PEEK_SYN)) OR (XENV4V_PEEK_READ OR XENV4V_PEEK_ACK)\<rparr>))
         else if has fl XENV4V_PEEK_ACK \<and> has fl XENV4V_PEEK_IOCTL then
           res_bind (set_state d f STATE_CONNECTED) (\<lambda>d. Inr (STATUS_SUCCESS, complete d irp STATUS_SUCCESS 0))
         else Inr (STATUS_SUCCESS, complete d irp STATUS_SUCCESS (write_information fl written)))"

definition V4vDoWrite :: "v4v_env \<Rightarrow> v4v_dev \<Rightarrow> nat \<Rightarrow> nat \<Rightarrow> (NTSTATUS \<times> v4v_dev) res" where
  "V4vDoWrite E d f irp =
     (case irps (qd d) irp of
        None \<Rightarrow> Inl BadPointer
      | Some i \<Rightarrow>
          res_bind (V4vGetWriteIrpValues d f irp i) (\<lambda>(dest, msg, protocol).
          res_bind (the_ring d f) (\<lambda>rg.
          with_ctx d f (\<lambda>c.
            case do_send E d (addr (ring_id rg)) dest protocol
                   (if has (flags i) XENV4V_PEEK_STREAM \<and> \<not> has (flags i) XENV4V_PEEK_STREAM_FLAGS
                    then sh_bytes 0 (ucast (connId c)) @ msg else msg) of
              (status, written, d) \<Rightarrow> write_finish d f irp i status written))))"

section \<open>The queue never grows while it is served\<close>

abbreviation queue :: "v4v_dev \<Rightarrow> nat list" where "queue d \<equiv> pendingIrpQueue (qd d)"

definition rpost :: "'a res \<Rightarrow> ('a \<Rightarrow> bool) \<Rightarrow> bool" where
  "rpost m Q \<longleftrightarrow> (\<forall>x. m = Inr x \<longrightarrow> Q x)"

named_theorems rpost_intros \<open>postconditions of operations that may fault\<close>

lemma rpost_Inl [simp, rpost_intros]: "rpost (Inl e) Q"
  by (simp add: rpost_def)

lemma rpost_Inr [simp]: "rpost (Inr x) Q \<longleftrightarrow> Q x"
  by (simp add: rpost_def)

lemma rpost_bind: "rpost m (\<lambda>x. rpost (k x) Q) \<Longrightarrow> rpost (res_bind m k) Q"
  by (auto simp: rpost_def res_bind_Inr_iff)

lemma rpost_with_ctx: "(\<And>c. ctxs d f = Some c \<Longrightarrow> rpost (k c) Q) \<Longrightarrow> rpost (with_ctx d f k) Q"
  by (simp add: with_ctx_def split: option.split)

lemma rpost_if: "(b \<Longrightarrow> rpost m Q) \<Longrightarrow> (\<not> b \<Longrightarrow> rpost n Q) \<Longrightarrow> rpost (if b then m else n) Q"
  by simp

lemma rpost_mono: "rpost m P \<Longrightarrow> (\<And>x. P x \<Longrightarrow> Q x) \<Longrightarrow> rpost m Q"
  by (simp add: rpost_def)

lemma rpostD: "rpost m Q \<Longrightarrow> m = Inr x \<Longrightarrow> Q x"
  by (simp add: rpost_def)

lemma V4vCancelAllFileIrps_shrinks:
  "V4vCancelAllFileIrps pde f = Inr pde' \<Longrightarrow> length (pendingIrpQueue pde') \<le> length (pendingIrpQueue pde)"
proof (induction pde f rule: V4vCancelAllFileIrps.induct)
  case (1 pde f)
  show ?case
  proof (cases "IoCsqRemoveNextIrp pde
      \<lparr>pfo = Some f, types = XENV4V_PEEK_ANY_TYPE, ops = XENV4V_PEEK_WRITE, pdst = \<lparr>port = 0, domain = 0\<rparr>\<rparr>")
    case (Inl e)
    then show ?thesis using 1(2) by (simp add: V4vCancelAllFileIrps.simps)
  next
    case (Inr r)
    obtain i q where r: "r = (i, q)" by (cases r)
    show ?thesis
    proof (cases i)
      case None
      then have "q = pde"
        using Inr r by (auto simp: IoCsqRemoveNextIrp_def res_bind_Inr_iff split: option.splits)
      then show ?thesis using 1(2) Inr r None by (simp add: V4vCancelAllFileIrps.simps)
    next
      case (Some j)
      have "length (pendingIrpQueue q) < length (pendingIrpQueue pde)"
        using IoCsqRemoveNextIrp_shrinks Inr r Some by blast
      moreover have "length (pendingIrpQueue pde') \<le> length (pendingIrpQueue q)"
        using 1(1) [OF Inr r [symmetric] Some] 1(2) Inr r Some
        by (simp add: V4vCancelAllFileIrps.simps [of pde] V4vSimpleCompleteIrp_def V4vCompleteIrp_def)
      ultimately show ?thesis by simp
    qed
  qed
qed

lemma queue_simps [simp]:
  "queue (set_ctx d f c) = queue d"
  "queue (tick n d) = queue d"
  "queue (complete d irp s w) = queue d"
  "queue (V4vStopConnectionTimer d b) = queue d"
  "queue (V4vStartConnectionTimer d) = queue d"
  "queue (set_irp d irp i) = queue d"
  "queue (d\<lparr>qd := (qd d)\<lparr>irps := is\<rparr>\<rparr>) = queue d"
  by (simp_all add: set_ctx_def tick_def complete_def V4vCompleteIrp_def V4vStopConnectionTimer_def
      V4vStartConnectionTimer_def set_irp_def Let_def split: prod.splits)

lemma queue_do_send: "do_send E d a b p bs = (s, w, d') \<Longrightarrow> queue d' = queue d"
  by (auto simp: do_send_def V4vSend_def Let_def tick_def split: if_splits)

text \<open>\<open>calm m d\<close>: if the operation returns, it has added nothing to the queue.\<close>

definition calm :: "v4v_dev res \<Rightarrow> v4v_dev \<Rightarrow> bool" where
  "calm m d \<longleftrightarrow> rpost m (\<lambda>d'. length (queue d') \<le> length (queue d))"

lemma calm_Inr [simp]: "calm (Inr d') d \<longleftrightarrow> length (queue d') \<le> length (queue d)"
  by (simp add: calm_def)

lemma calm_Inl [simp]: "calm (Inl e) d"
  by (simp add: calm_def)

lemma calm_bind: "calm m d \<Longrightarrow> (\<And>d'. calm (k d') d') \<Longrightarrow> calm (res_bind m k) d"
  by (fastforce simp: calm_def rpost_def res_bind_Inr_iff)

lemma calm_with_ctx: "(\<And>c. ctxs d f = Some c \<Longrightarrow> calm (k c) d') \<Longrightarrow> calm (with_ctx d f k) d'"
  by (simp add: with_ctx_def split: option.split)

lemma calm_set_state: "calm (set_state d f s) d"
  by (simp add: set_state_def calm_with_ctx)

lemma calm_put_event: "calm (put_event d f b) d"
  by (auto simp: put_event_def intro!: calm_with_ctx split: option.split)

lemma calm_put_ring: "calm (put_ring d f rg) d"
  by (auto simp: put_ring_def intro!: calm_with_ctx split: option.split)

lemma calm_flush: "calm (V4vFlushAccepterQueueData d f) d"
  by (auto simp: V4vFlushAccepterQueueData_def intro!: calm_with_ctx split: context_u.split)

lemma calm_cancel_file: "calm (cancel_file d f) d"
  using V4vCancelAllFileIrps_shrinks
  by (auto simp: cancel_file_def calm_def rpost_def res_bind_Inr_iff)

lemma calm_if: "calm m d \<Longrightarrow> calm n d \<Longrightarrow> calm (if b then m else n) d"
  by simp

lemmas calm_intros = calm_bind calm_with_ctx calm_set_state calm_put_event calm_put_ring calm_flush calm_cancel_file

lemma calm_disconnect: "calm (V4vDisconnectStreamAndSignal d f) d"
  unfolding V4vDisconnectStreamAndSignal_def by (intro calm_intros calm_if) simp_all

lemma calm_write_failed: "calm (write_failed d f fl s) d"
  unfolding write_failed_def by (intro calm_intros calm_if calm_disconnect) simp_all

lemma write_finish_queue: "rpost (write_finish d f irp i s w) (\<lambda>(_, d'). length (queue d') \<le> length (queue d))"
proof -
  have "length (queue d2) \<le> length (queue d)" if "write_failed d f (flags i) s = Inr d2" for d2
    using calm_write_failed [of d f "flags i" s] that by (simp add: calm_def rpost_def)
  moreover have "length (queue d2) \<le> length (queue d)" if "set_state d f STATE_CONNECTED = Inr d2" for d2
    using calm_set_state [of d f] that by (simp add: calm_def rpost_def)
  ultimately show ?thesis
    by (auto simp: write_finish_def Let_def intro!: rpost_bind) (auto simp: rpost_def)
qed

lemma V4vDoWrite_queue:
  assumes "V4vDoWrite E d f irp = Inr (s, d')"
  shows "length (queue d') \<le> length (queue d)"
proof -
  have "rpost (V4vDoWrite E d f irp) (\<lambda>(_, d'). length (queue d') \<le> length (queue d))"
    unfolding V4vDoWrite_def
    by (auto intro!: rpost_bind rpost_with_ctx split: option.split prod.split
        simp: rpost_def [of "V4vGetWriteIrpValues d f irp i" for i] rpost_def [of "the_ring d f"])
      (metis queue_do_send write_finish_queue)+
  then show ?thesis using assms by (simp add: rpost_def)
qed

lemma remove_irp_Some: "remove_irp d qp = Inr (Some irp, d') \<Longrightarrow> length (queue d') < length (queue d)"
  by (auto simp: remove_irp_def res_bind_Inr_iff dest: IoCsqRemoveNextIrp_shrinks)

lemma remove_irp_None: "remove_irp d qp = Inr (None, d') \<Longrightarrow> d' = d"
  by (auto simp: remove_irp_def IoCsqRemoveNextIrp_def res_bind_Inr_iff split: option.splits)

section \<open>Serving the writes\<close>

text \<open>The loop also gives the requests to be put back, in the order they were taken.\<close>

function ContextWrites_loop :: "v4v_env \<Rightarrow> v4v_dev \<Rightarrow> nat \<Rightarrow> nat list \<Rightarrow> (nat list \<times> v4v_dev) res" where
  "ContextWrites_loop E d f returnIrps =
     (case remove_irp d (peek_file f XENV4V_PEEK_ANY_TYPE XENV4V_PEEK_WRITE) of
        Inl e \<Rightarrow> Inl e
      | Inr (None, d) \<Rightarrow> Inr (returnIrps, d)
      | Inr (Some irp, d) \<Rightarrow>
          (case V4vDoWrite E d f irp of
             Inl e \<Rightarrow> Inl e
           | Inr (status, d) \<Rightarrow>
               ContextWrites_loop E d f
                 (if status \<in> {STATUS_RETRY, STATUS_PENDING} then returnIrps @ [irp] else returnIrps)))"
  by pat_completeness auto
termination
  by (relation "measure (\<lambda>(E, d, _). length (queue d))")
    (auto dest!: remove_irp_Some V4vDoWrite_queue)

declare ContextWrites_loop.simps [simp del]

definition requeue :: "v4v_env \<Rightarrow> v4v_dev \<Rightarrow> nat list \<Rightarrow> v4v_dev res" where
  "requeue E d is =
     res_bind (V4vRequeueIrps (\<lambda>k. (alloc E (clock d + 2 * k), alloc E (clock d + 2 * k + 1))) 0 (qd d) is) (\<lambda>q.
       Inr (tick (2 * length is) (d\<lparr>qd := q\<rparr>)))"

definition V4vProcessContextWrites :: "v4v_env \<Rightarrow> v4v_dev \<Rightarrow> nat \<Rightarrow> v4v_dev res" where
  "V4vProcessContextWrites E d f =
     res_bind (the_ring d f) (\<lambda>_.
     res_bind (ContextWrites_loop E d f []) (\<lambda>(is, d).
     requeue E d is))"

lemma V4vDisconnectStreamAndSignal_queue:
  "V4vDisconnectStreamAndSignal d f = Inr d' \<Longrightarrow> length (queue d') \<le> length (queue d)"
  using calm_disconnect [of d f] by (simp add: calm_def rpost_def)

text \<open>\<open>fl\<close> is what Xen answered for the destination; \<open>counter\<close> counts the writes that went out.\<close>

function DestinationWrites_loop ::
  "v4v_env \<Rightarrow> v4v_dev \<Rightarrow> v4v_addr \<Rightarrow> u16 \<Rightarrow> nat \<Rightarrow> nat list \<Rightarrow> (nat list \<times> v4v_dev) res" where
  "DestinationWrites_loop E d dest fl counter returnIrps =
     (case remove_irp d \<lparr>pfo = None, types = XENV4V_PEEK_ANY_TYPE, ops = XENV4V_PEEK_WRITE, pdst = dest\<rparr> of
        Inl e \<Rightarrow> Inl e
      | Inr (None, d) \<Rightarrow> Inr (returnIrps, d)
      | Inr (Some irp, d) \<Rightarrow>
          (case irps (qd d) irp of
             None \<Rightarrow> Inl BadPointer
           | Some i \<Rightarrow>
               (case (the_ring d (FileObject i), ctxs d (FileObject i)) of
                  (Inr rg, Some c) \<Rightarrow>
                    if fl AND 2 = 0 then
                      (case if FILE_TYPE_STREAM (ctype c) then V4vDisconnectStreamAndSignal d (FileObject i) else Inr d of
                         Inl e \<Rightarrow> Inl e
                       | Inr d \<Rightarrow> DestinationWrites_loop E (complete d irp STATUS_VIRTUAL_CIRCUIT_CLOSED 0) dest fl counter returnIrps)
                    else if counter = 0 \<and> fl AND 8 = 0 then Inr (returnIrps @ [irp], d)
                    else
                      (case V4vDoWrite E d (FileObject i) irp of
                         Inl e \<Rightarrow> Inl e
                       | Inr (status, d) \<Rightarrow>
                           if status = STATUS_RETRY then Inr (returnIrps @ [irp], d)
                           else if status = STATUS_PENDING then
                             DestinationWrites_loop E d dest fl (counter + 1) (returnIrps @ [irp])
                           else if NT_SUCCESS status then DestinationWrites_loop E d dest fl (counter + 1) returnIrps
                           else DestinationWrites_loop E d dest fl counter returnIrps)
                | _ \<Rightarrow> Inl BadPointer)))"
  by pat_completeness auto
termination
  by (relation "measure (\<lambda>(E, d, _). length (queue d))")
    (auto dest!: remove_irp_Some V4vDoWrite_queue V4vDisconnectStreamAndSignal_queue split: if_splits)

declare DestinationWrites_loop.simps [simp del]

definition V4vProcessDestinationWrites :: "v4v_env \<Rightarrow> v4v_dev \<Rightarrow> v4v_addr \<Rightarrow> u16 \<Rightarrow> v4v_dev res" where
  "V4vProcessDestinationWrites E d dest fl =
     res_bind (DestinationWrites_loop E d dest fl 0 []) (\<lambda>(is, d). requeue E d is)"

fun Notify_loop :: "v4v_env \<Rightarrow> v4v_dev \<Rightarrow> (v4v_addr \<times> u16) list \<Rightarrow> v4v_dev res" where
  "Notify_loop E d [] = Inr d"
| "Notify_loop E d ((dest, fl) # es) = res_bind (V4vProcessDestinationWrites E d dest fl) (\<lambda>d. Notify_loop E d es)"

definition V4vProcessNotify :: "v4v_env \<Rightarrow> v4v_dev \<Rightarrow> v4v_dev res" where
  "V4vProcessNotify E d =
     (let k = clock d
      in res_bind (V4vCopyDestinationRingData (alloc E k) (qd d)) (\<lambda>r.
           case r of
             None \<Rightarrow> Inr (tick 1 d)
           | Some es \<Rightarrow>
               if \<not> NT_SUCCESS (V4vNotify (hypercall E (k + 1))) then Inr (tick 2 d)
               else Notify_loop E (tick 2 d) (map (\<lambda>(dest, _). (dest, ring_flags E k dest)) es)))"

text \<open>\<open>tag\<close> is the request's \<^verbatim>\<open>DriverContext[0]\<close> when \<^verbatim>\<open>DriverContext[1]\<close> has the magic value that goes with it:
  \<open>XENV4V_PEEK_RST\<close> or \<open>XENV4V_PEEK_ACK\<close> for the driver's own control messages, 0 for the writes of users.  The test
  of the device for \<^verbatim>\<open>XENV4V_DEV_STOPPED\<close>, which is 0, always says that it runs.\<close>

definition V4vDispatchWrite :: "v4v_env \<Rightarrow> v4v_dev \<Rightarrow> nat \<Rightarrow> nat \<Rightarrow> u32 \<Rightarrow> (NTSTATUS \<times> v4v_dev) res" where
  "V4vDispatchWrite E d f irp tag =
     with_ctx d f (\<lambda>c.
       let d = d\<lparr>qd := V4vInitializeIrp (qd d) irp\<rparr>
       in case irps (qd d) irp of
            None \<Rightarrow> Inl BadPointer
          | Some i \<Rightarrow>
              let fail = (\<lambda>status. Inr (status, complete d irp status 0));
                  go = (\<lambda>fl. let d = set_irp d irp (i\<lparr>flags := fl\<rparr>)
                             in if wlen i > 0 \<and> \<not> alloc E (clock d)
                                then Inr (STATUS_NO_MEMORY, complete (tick 1 d) irp STATUS_NO_MEMORY 0)
                                else res_bind (insert_irp E (tick 1 d) irp (tag = XENV4V_PEEK_RST \<and> cstate c \<noteq> STATE_BOUND)) (\<lambda>(status, d).
                                  if NT_SUCCESS status
                                  then res_bind (V4vProcessContextWrites E d f) (\<lambda>d. Inr (STATUS_PENDING, d))
                                  else Inr (status, complete d irp status 0)))
              in if cstate c = STATE_BOUND then
                   if wlen i < 6 then fail STATUS_BUFFER_TOO_SMALL
                   else go (XENV4V_PEEK_DGRAM OR XENV4V_PEEK_WRITE)
                 else if cstate c \<in> {STATE_CONNECTED, STATE_ACCEPTED, STATE_LISTENING, STATE_PASSIVE} then
                   if tag \<in> {XENV4V_PEEK_RST, XENV4V_PEEK_ACK} then go (XENV4V_PEEK_STREAM OR XENV4V_PEEK_WRITE OR tag)
                   else if cstate c \<in> {STATE_LISTENING, STATE_PASSIVE} then fail STATUS_INVALID_DEVICE_REQUEST
                   else go (XENV4V_PEEK_STREAM OR XENV4V_PEEK_WRITE)
                 else if cstate c = STATE_DISCONNECTED then fail STATUS_VIRTUAL_CIRCUIT_CLOSED
                 else fail STATUS_INVALID_DEVICE_REQUEST)"

section \<open>Reading\<close>

definition addr_bytes :: "v4v_addr \<Rightarrow> u8 list" where
  "addr_bytes a = le_bytes 4 (unat (port a)) @ le_bytes 2 (unat (domain a))"

definition set_rbuf :: "v4v_dev \<Rightarrow> nat \<Rightarrow> u8 list \<Rightarrow> v4v_dev" where
  "set_rbuf d irp b = d\<lparr>reqs := (reqs d)(irp := (reqs d irp)\<lparr>rbuf := b\<rparr>)\<rparr>"

lemma queue_set_rbuf [simp]: "queue (set_rbuf d irp b) = queue d"
  by (simp add: set_rbuf_def)

text \<open>One datagram for the request \<open>irp\<close>; the result is whether a message was consumed.  The buffer starts with the
  address of the sender.\<close>

definition Datagram_one :: "v4v_dev \<Rightarrow> nat \<Rightarrow> nat \<Rightarrow> v4v_ring \<Rightarrow> (bool \<times> v4v_dev) res" where
  "Datagram_one d f irp rg =
     (case irps (qd d) irp of
        None \<Rightarrow> Inl BadPointer
      | Some i \<Rightarrow>
          res_bind (v4v_copy_out rg (Some (drop 6 (rbuf (reqs d irp)))) (unat (wlen i - 6)) True) (\<lambda>(ret, from, msg, rg').
            if sint ret < 0 then
              res_bind (put_ring d f (V4vRecoverRing rg)) (\<lambda>d. Inr (False, complete d irp STATUS_INTERNAL_DB_CORRUPTION 0))
            else
              (case (from, msg) of
                 (Some (src, _), Some m) \<Rightarrow>
                   res_bind (put_ring (set_rbuf d irp (addr_bytes src @ m)) f rg') (\<lambda>d.
                     Inr (True, complete d irp STATUS_SUCCESS (ret + 6)))
               | _ \<Rightarrow> Inl BadPointer)))"

lemma Datagram_one_queue: "Datagram_one d f irp rg = Inr (b, d') \<Longrightarrow> length (queue d') \<le> length (queue d)"
  using calm_put_ring
  by (fastforce simp: Datagram_one_def res_bind_Inr_iff calm_def rpost_def split: option.splits if_splits)

function DatagramReads_loop :: "v4v_dev \<Rightarrow> nat \<Rightarrow> bool \<Rightarrow> (bool \<times> v4v_dev) res" where
  "DatagramReads_loop d f ntfy =
     (case the_ring d f of
        Inl e \<Rightarrow> Inl e
      | Inr rg \<Rightarrow>
          if rx_ptr rg = tx_ptr rg then res_bind (put_event d f False) (\<lambda>d. Inr (ntfy, d))
          else
            (case remove_irp d (peek_file f XENV4V_PEEK_DGRAM XENV4V_PEEK_READ) of
               Inl e \<Rightarrow> Inl e
             | Inr (None, d) \<Rightarrow> res_bind (put_event d f True) (\<lambda>d. Inr (ntfy, d))
             | Inr (Some irp, d) \<Rightarrow>
                 (case Datagram_one d f irp rg of
                    Inl e \<Rightarrow> Inl e
                  | Inr (consumed, d) \<Rightarrow> DatagramReads_loop d f (ntfy \<or> consumed))))"
  by pat_completeness auto
termination
  by (relation "measure (\<lambda>(d, _). length (queue d))") (auto dest!: remove_irp_Some Datagram_one_queue)

declare DatagramReads_loop.simps [simp del]

definition V4vProcessDatagramReads :: "v4v_dev \<Rightarrow> nat \<Rightarrow> (bool \<times> v4v_dev) res" where
  "V4vProcessDatagramReads d f = DatagramReads_loop d f False"

text \<open>The ACK of a connector: is it what the pending request waits for?\<close>

definition ack_ok :: "v4v_dev \<Rightarrow> nat \<Rightarrow> nat \<Rightarrow> XENV4V_CONTEXT \<Rightarrow> u32 \<Rightarrow> u8 list \<Rightarrow> v4v_addr \<Rightarrow> u32 \<Rightarrow> bool" where
  "ack_ok d f irp c ret sh src protocol \<longleftrightarrow>
     is_ioctl (reqs d irp) \<and> \<not> ret < 8 \<and> sh_conid sh = ucast (connId c) \<and> has (sh_flags sh) V4V_SHF_ACK \<and>
     domain (sdst (qd d) f) = domain src \<and> protocol = V4V_PROTO_STREAM"

definition syn_ok :: "v4v_dev \<Rightarrow> nat \<Rightarrow> u32 \<Rightarrow> u8 list \<Rightarrow> u32 \<Rightarrow> bool" where
  "syn_ok d irp ret sh protocol \<longleftrightarrow>
     is_ioctl (reqs d irp) \<and> \<not> ret < 8 \<and> has (sh_flags sh) V4V_SHF_SYN \<and> protocol = V4V_PROTO_STREAM"

definition disconnect_and_fail :: "v4v_dev \<Rightarrow> nat \<Rightarrow> nat \<Rightarrow> NTSTATUS \<Rightarrow> v4v_dev res" where
  "disconnect_and_fail d f irp status =
     res_bind (V4vDisconnectStreamAndSignal d f) (\<lambda>d. Inr (complete d irp status 0))"

text \<open>A connector has read a message in answer to its SYN.\<close>

definition Connect_ack :: "v4v_dev \<Rightarrow> nat \<Rightarrow> nat \<Rightarrow> u32 \<Rightarrow> u8 list \<Rightarrow> v4v_addr \<Rightarrow> u32 \<Rightarrow> (bool \<times> v4v_dev) res" where
  "Connect_ack d f irp ret sh src protocol =
     with_ctx d f (\<lambda>c.
       if \<not> ack_ok d f irp c ret sh src protocol then
         res_bind (disconnect_and_fail d f irp STATUS_DEVICE_PROTOCOL_ERROR) (\<lambda>d. Inr (False, d))
       else
         res_bind (set_state (V4vStopConnectionTimer d False) f STATE_CONNECTED) (\<lambda>d.
           Inr (True, complete d irp STATUS_SUCCESS 0)))"

text \<open>A waiting end has read a message: the SYN is answered by the same request, now a write of the ACK.\<close>

definition Wait_syn :: "v4v_env \<Rightarrow> v4v_dev \<Rightarrow> nat \<Rightarrow> nat \<Rightarrow> u32 \<Rightarrow> u8 list \<Rightarrow> v4v_addr \<Rightarrow> u32 \<Rightarrow> v4v_dev res" where
  "Wait_syn E d f irp ret sh src protocol =
     (if \<not> syn_ok d irp ret sh protocol then disconnect_and_fail d f irp STATUS_DEVICE_PROTOCOL_ERROR
      else with_ctx d f (\<lambda>c.
        case irps (qd d) irp of
          None \<Rightarrow> Inl BadPointer
        | Some i \<Rightarrow>
            let d = set_ctx d f (c\<lparr>connId := ucast (sh_conid sh)\<rparr>);
                d = d\<lparr>qd := (qd d)\<lparr>sdst := (sdst (qd d))(f := src)\<rparr>\<rparr>;
                d = set_rbuf d irp (sh_bytes V4V_SHF_ACK (sh_conid sh) @ drop 8 (rbuf (reqs d irp)));
                d = set_irp d irp (i\<lparr>flags :=
                      (flags i AND NOT (XENV4V_PEEK_READ OR XENV4V_PEEK_SYN)) OR (XENV4V_PEEK_WRITE OR XENV4V_PEEK_ACK)\<rparr>)
            in res_bind (insert_irp E d irp False) (\<lambda>(status, d).
                 if NT_SUCCESS status then Inr d else disconnect_and_fail d f irp status)))"

text \<open>The results: whether stream reads may follow, and whether a message was consumed.\<close>

definition V4vProcessPreConnectReads ::
  "v4v_env \<Rightarrow> v4v_dev \<Rightarrow> nat \<Rightarrow> XENV4V_STATE \<Rightarrow> (bool \<times> bool \<times> v4v_dev) res" where
  "V4vProcessPreConnectReads E d f state =
     res_bind (the_ring d f) (\<lambda>rg.
       if rx_ptr rg = tx_ptr rg then Inr (False, False, d)
       else
         res_bind (remove_irp d (peek_file f XENV4V_PEEK_STREAM
             (if state = STATE_CONNECTING then XENV4V_PEEK_READ OR XENV4V_PEEK_ACK else XENV4V_PEEK_READ OR XENV4V_PEEK_SYN)))
           (\<lambda>(r, d). case r of
              None \<Rightarrow> Inr (False, False, d)
            | Some irp \<Rightarrow>
                res_bind (v4v_copy_out rg (Some (replicate 8 0)) 8 True) (\<lambda>(ret, from, shb, rg').
                  if sint ret < 0 then
                    res_bind (put_ring d f (V4vRecoverRing rg)) (\<lambda>d.
                    res_bind (disconnect_and_fail d f irp STATUS_INTERNAL_DB_CORRUPTION) (\<lambda>d. Inr (False, False, d)))
                  else
                    (case (from, shb) of
                       (Some (src, protocol), Some sh) \<Rightarrow>
                         res_bind (put_ring d f rg') (\<lambda>d.
                           if state = STATE_CONNECTING then
                             res_bind (Connect_ack d f irp ret sh src protocol) (\<lambda>(rc, d). Inr (rc, True, d))
                           else if state = STATE_WAITING then
                             res_bind (Wait_syn E d f irp ret sh src protocol) (\<lambda>d. Inr (False, True, d))
                           else Inr (False, True, complete d irp STATUS_INTERNAL_ERROR 0))
                     | _ \<Rightarrow> Inl BadPointer))))"

section \<open>Reading a stream\<close>

text \<open>Throwing the next message away.\<close>

definition dump_message :: "v4v_dev \<Rightarrow> nat \<Rightarrow> v4v_ring \<Rightarrow> v4v_dev res" where
  "dump_message d f rg = res_bind (v4v_copy_out rg None 0 True) (\<lambda>(_, _, _, rg'). put_ring d f rg')"

text \<open>Throwing it away and answering with a reset, unless it is one.\<close>

definition dump_and_reset :: "v4v_env \<Rightarrow> v4v_dev \<Rightarrow> nat \<Rightarrow> nat \<Rightarrow> v4v_ring \<Rightarrow> u8 list \<Rightarrow> v4v_addr \<Rightarrow> v4v_dev res" where
  "dump_and_reset E d f g rg sh src =
     res_bind (dump_message d f rg) (\<lambda>d.
       if has (sh_flags sh) V4V_SHF_RST then Inr d else V4vSendReset E d g (sh_conid sh) src False)"

text \<open>An illegal SYN or ACK: it is read again and answered with a reset when it has no payload.\<close>

definition refuse_control :: "v4v_env \<Rightarrow> v4v_dev \<Rightarrow> nat \<Rightarrow> v4v_ring \<Rightarrow> v4v_dev res" where
  "refuse_control E d f rg =
     res_bind (v4v_copy_out rg (Some (replicate 8 0)) 8 True) (\<lambda>(ret, from, shb, rg').
       res_bind (put_ring d f rg') (\<lambda>d.
         (case (from, shb) of
            (Some (src, _), Some sh) \<Rightarrow>
              if ret = 8 \<and> \<not> has (sh_flags sh) V4V_SHF_RST then V4vSendReset E d f (sh_conid sh) src False else Inr d
          | _ \<Rightarrow> Inr d)))"

text \<open>Is the next message to be thrown away by a connected stream?  \<open>None\<close>: no; \<open>Some d\<close>: it has been.\<close>

definition Connector_filter ::
  "v4v_env \<Rightarrow> v4v_dev \<Rightarrow> nat \<Rightarrow> v4v_ring \<Rightarrow> u32 \<Rightarrow> u8 list \<Rightarrow> v4v_addr \<Rightarrow> u32 \<Rightarrow> v4v_dev option res" where
  "Connector_filter E d f rg ret sh src protocol =
     with_ctx d f (\<lambda>c.
       let dumped = (\<lambda>m. res_bind m (\<lambda>d. Inr (Some d)))
       in if protocol \<noteq> V4V_PROTO_STREAM \<or> ret < 8 then dumped (dump_message d f rg)
          else if has (sh_flags sh) V4V_SHF_SYN then dumped (refuse_control E d f rg)
          else if sh_conid sh \<noteq> ucast (connId c) then dumped (dump_and_reset E d f f rg sh src)
          else if domain (sdst (qd d) f) \<noteq> domain src then dumped (dump_and_reset E d f f rg sh src)
          else if has (sh_flags sh) V4V_SHF_ACK then dumped (refuse_control E d f rg)
          else Inr None)"

text \<open>A message of the stream for the request: whether to go on, whether data was read.\<close>

definition Connector_deliver :: "v4v_dev \<Rightarrow> nat \<Rightarrow> nat \<Rightarrow> irp \<Rightarrow> v4v_ring \<Rightarrow> u32 \<Rightarrow> u8 list \<Rightarrow> (bool \<times> bool \<times> v4v_dev) res" where
  "Connector_deliver d f irp i rg ret sh =
     (if has (sh_flags sh) V4V_SHF_RST then
        res_bind (disconnect_and_fail d f irp STATUS_VIRTUAL_CIRCUIT_CLOSED) (\<lambda>d. Inr (False, False, d))
      else if wlen i < ret - 8 then Inr (True, False, complete d irp STATUS_BUFFER_OVERFLOW 0)
      else
        res_bind (v4v_copy_out_offset rg (rbuf (reqs d irp)) (unat (wlen i + 8)) True 8) (\<lambda>(ret, _, buf, rg').
          if sint ret < 0 then
            res_bind (put_ring d f (V4vRecoverRing rg)) (\<lambda>d. Inr (True, False, complete d irp STATUS_INTERNAL_DB_CORRUPTION 0))
          else
            res_bind (put_ring (set_rbuf d irp buf) f rg') (\<lambda>d. Inr (True, True, complete d irp STATUS_SUCCESS (ret - 8)))))"

text \<open>One message for the request \<open>irp\<close>.  The results: whether to go on, the new value of \<open>retain\<close>, whether data
  was read.  \<open>retain\<close> keeps its old value on the paths that do not set it.\<close>

definition Connector_one :: "v4v_env \<Rightarrow> v4v_dev \<Rightarrow> nat \<Rightarrow> nat \<Rightarrow> bool \<Rightarrow> (bool \<times> bool \<times> bool \<times> v4v_dev) res" where
  "Connector_one E d f irp retain =
     (case irps (qd d) irp of
        None \<Rightarrow> Inl BadPointer
      | Some i \<Rightarrow>
          if has (flags i) (XENV4V_PEEK_SYN OR XENV4V_PEEK_ACK)
          then Inr (True, retain, False, complete d irp STATUS_INVALID_DEVICE_REQUEST 0)
          else
            res_bind (the_ring d f) (\<lambda>rg.
            res_bind (v4v_copy_out rg (Some (replicate 8 0)) 8 False) (\<lambda>(ret, from, shb, _).
              if sint ret < 0 then
                res_bind (put_ring d f (V4vRecoverRing rg)) (\<lambda>d.
                  Inr (True, retain, False, complete d irp STATUS_INTERNAL_DB_CORRUPTION 0))
              else
                (case (from, shb) of
                   (Some (src, protocol), Some sh) \<Rightarrow>
                     res_bind (Connector_filter E d f rg ret sh src protocol) (\<lambda>r.
                       case r of
                         Some d \<Rightarrow> Inr (True, True, False, d)
                       | None \<Rightarrow> res_bind (Connector_deliver d f irp i rg ret sh) (\<lambda>(go, took, d). Inr (go, False, took, d)))
                 | _ \<Rightarrow> Inl BadPointer))))"

fun ConnectorReads_loop :: "nat \<Rightarrow> v4v_env \<Rightarrow> v4v_dev \<Rightarrow> nat \<Rightarrow> bool \<Rightarrow> nat \<Rightarrow> bool \<Rightarrow> (bool \<times> v4v_dev) res" where
  "ConnectorReads_loop 0 E d f retain irp ntfy = Inl NoReturn"
| "ConnectorReads_loop (Suc n) E d f retain irp ntfy =
     res_bind (the_ring d f) (\<lambda>rg.
       if rx_ptr rg = tx_ptr rg then
         res_bind
           (if retain then
              res_bind (insert_irp E d irp True) (\<lambda>(status, d).
                Inr (if NT_SUCCESS status then d else complete d irp status 0))
            else Inr d) (\<lambda>d.
         res_bind (put_event d f False) (\<lambda>d. Inr (ntfy \<or> retain, d)))
       else
         res_bind (if retain then Inr (Some irp, d) else remove_irp d (peek_file f XENV4V_PEEK_STREAM XENV4V_PEEK_READ)) (\<lambda>(r, d).
           case r of
             None \<Rightarrow> res_bind (put_event d f True) (\<lambda>d. Inr (ntfy \<or> retain, d))
           | Some irp \<Rightarrow>
               res_bind (Connector_one E d f irp retain) (\<lambda>(go, retain', took, d).
                 if go then ConnectorReads_loop n E d f retain' irp (ntfy \<or> retain \<or> took)
                 else Inr (ntfy \<or> retain \<or> took, d))))"

text \<open>Every iteration consumes a message or a request.\<close>

definition V4vProcessConnectorReads :: "v4v_env \<Rightarrow> v4v_dev \<Rightarrow> nat \<Rightarrow> (bool \<times> v4v_dev) res" where
  "V4vProcessConnectorReads E d f =
     res_bind (the_ring d f) (\<lambda>rg. ConnectorReads_loop (nr_pending rg + length (queue d) + 2) E d f False 0 False)"

section \<open>Accepting\<close>

lemma ReleaseContext_depth_queue: "ReleaseContext_depth n d f = Inr (k, d') \<Longrightarrow> length (queue d') \<le> length (queue d)"
proof (induction n arbitrary: d f k d')
  case (Suc n)
  have fin: "calm (final_release (ReleaseContext_depth n) d f c) d" for d f c
    unfolding final_release_def using Suc.IH
    by (intro calm_intros calm_if) (auto simp: calm_def rpost_def res_bind_Inr_iff split: context_u.splits option.splits)
  have "length (queue d2) \<le> length (queue d1)" if "final_release (ReleaseContext_depth n) d1 f c = Inr d2" for d1 d2 c
    using fin [of d1 f c] that by (simp add: calm_def rpost_def)
  with Suc.prems show ?case
    by (auto simp: with_ctx_def Let_def res_bind_Inr_iff set_ctx_def split: option.splits if_splits) fastforce+
qed simp

lemma calm_V4vReleaseContext: "calm (V4vReleaseContext d f) d"
  using ReleaseContext_depth_queue
  by (auto simp: V4vReleaseContext_def V4vReleaseContextInternal_def calm_def rpost_def res_bind_Inr_iff)

definition with_listener :: "v4v_dev \<Rightarrow> nat \<Rightarrow> (XENV4V_CONTEXT \<Rightarrow> listener \<Rightarrow> 'a res) \<Rightarrow> 'a res" where
  "with_listener d f k = with_ctx d f (\<lambda>c. case cu c of Listener l \<Rightarrow> k c l | _ \<Rightarrow> Inl BadPointer)"

text \<open>Taking the first SYN of the backlog; reading a null or wild pointer is a fault.\<close>

definition syn_pop :: "listener \<Rightarrow> (XENV4V_SYN \<times> listener) res" where
  "syn_pop l =
     (case synHead l of
        None \<Rightarrow> Inl BadPointer
      | Some s \<Rightarrow>
          if length (synList l) \<le> s then Inl BadPointer
          else
            let sptr = synList l ! s;
                l1 = (if synHead l \<noteq> synTail l then l\<lparr>synHead := syn_next sptr\<rparr> else l\<lparr>synHead := None, synTail := None\<rparr>)
            in Inr (sptr, l1\<lparr>synCount := synCount l - 1, synList := (synList l)[s := zero_SYN]\<rparr>))"

text \<open>Finishing the accept \<open>irp\<close> with a SYN: the accepter's context \<open>g\<close>, referenced since the request came, is set
  up and released.  The output buffer has 32 bytes.\<close>

definition Accept_finish :: "v4v_env \<Rightarrow> v4v_dev \<Rightarrow> nat \<Rightarrow> nat \<Rightarrow> v4v_dev res" where
  "Accept_finish E d irp g =
     res_bind (V4vReleaseContext d g) (\<lambda>d.
     res_bind (set_state d g STATE_ACCEPTED) (\<lambda>d.
     res_bind (V4vSendAcknowledge E d g) (\<lambda>(status, d).
       if NT_SUCCESS status then Inr (complete d irp STATUS_SUCCESS 32)
       else set_state (complete d irp status 0) g STATE_DISCONNECTED)))"

definition Accept_one :: "v4v_env \<Rightarrow> v4v_dev \<Rightarrow> nat \<Rightarrow> XENV4V_SYN \<Rightarrow> v4v_dev res" where
  "Accept_one E d irp sptr =
     (let g = priv_a (reqs d irp)
      in with_ctx d g (\<lambda>ac.
           let d = set_ctx d g (ac\<lparr>connId := syn_connId sptr\<rparr>);
               d = d\<lparr>qd := (qd d)\<lparr>sdst := (sdst (qd d))(g := syn_sdst sptr)\<rparr>,
                     reqs := (reqs d)(irp := (reqs d irp)\<lparr>peerAddr := syn_sdst sptr\<rparr>)\<rparr>
           in Accept_finish E d irp g))"

lemma calm_Accept_finish: "calm (Accept_finish E d irp g) d"
proof -
  have "calm (res_bind (V4vSendAcknowledge E d g) (\<lambda>(status, d).
      if NT_SUCCESS status then Inr (complete d irp STATUS_SUCCESS 32)
      else set_state (complete d irp status 0) g STATE_DISCONNECTED)) d" for d g
    using calm_set_state
    by (fastforce simp: V4vSendAcknowledge_def calm_def rpost_def res_bind_Inr_iff with_ctx_def tick_def
        split: option.splits if_splits)
  then show ?thesis
    unfolding Accept_finish_def by (intro calm_intros calm_V4vReleaseContext)
qed

lemma calm_queue: "calm m d1 \<Longrightarrow> queue d1 = queue d \<Longrightarrow> calm m d"
  by (simp add: calm_def)

lemma calm_Accept_one: "calm (Accept_one E d irp sptr) d"
  unfolding Accept_one_def Let_def
  by (intro calm_with_ctx calm_queue [OF calm_Accept_finish]) (simp add: set_ctx_def)

lemma Accept_one_queue: "Accept_one E d irp sptr = Inr d' \<Longrightarrow> length (queue d') \<le> length (queue d)"
  using calm_Accept_one [of E d irp sptr] by (simp add: calm_def rpost_def)

lemma with_listener_cong [fundef_cong]:
  "d = d' \<Longrightarrow> f = f' \<Longrightarrow> (\<And>c l. ctxs d' f' = Some c \<Longrightarrow> k c l = k' c l) \<Longrightarrow> with_listener d f k = with_listener d' f' k'"
  by (simp add: with_listener_def with_ctx_def split: option.split context_u.split)

function V4vDoAccepts :: "v4v_env \<Rightarrow> v4v_dev \<Rightarrow> nat \<Rightarrow> v4v_dev res" where
  "V4vDoAccepts E d f =
     with_listener d f (\<lambda>c l.
       if synCount l = 0 then put_event d f False
       else
         (case remove_irp d (peek_file f XENV4V_PEEK_STREAM XENV4V_PEEK_ACCEPT) of
            Inl e \<Rightarrow> Inl e
          | Inr (None, d) \<Rightarrow> put_event d f True
          | Inr (Some irp, d) \<Rightarrow>
              (case syn_pop l of
                 Inl e \<Rightarrow> Inl e
               | Inr (sptr, l) \<Rightarrow>
                   (case Accept_one E (set_ctx d f (c\<lparr>cu := Listener l\<rparr>)) irp sptr of
                      Inl e \<Rightarrow> Inl e
                    | Inr d \<Rightarrow> V4vDoAccepts E d f))))"
  by pat_completeness auto
termination
  by (relation "measure (\<lambda>(E, d, _). length (queue d))") (auto dest!: remove_irp_Some Accept_one_queue)

declare V4vDoAccepts.simps [simp del]

section \<open>The listener\<close>

text \<open>The first free record of the backlog.\<close>

fun free_SYN :: "XENV4V_SYN list \<Rightarrow> nat" where
  "free_SYN [] = 0"
| "free_SYN (s # ss) = (if \<not> syn_pending s then 0 else Suc (free_SYN ss))"

definition syn_push :: "listener \<Rightarrow> v4v_addr \<Rightarrow> u64 \<Rightarrow> listener res" where
  "syn_push l src con =
     (let s = free_SYN (synList l)
      in if length (synList l) \<le> s then Inl BadPointer
         else
           let new = \<lparr>syn_next = None, syn_last = None, syn_pending = True, syn_sdst = src, syn_connId = con\<rparr>
           in case synTail l of
                Some t \<Rightarrow>
                  if length (synList l) \<le> t then Inl BadPointer
                  else
                    let ss = (synList l)[s := new];
                        ss = ss[t := (ss ! t)\<lparr>syn_next := Some s\<rparr>];
                        ss = ss[s := (ss ! s)\<lparr>syn_last := Some t\<rparr>]
                    in Inr (l\<lparr>synList := ss, synTail := Some s, synCount := synCount l + 1\<rparr>)
              | None \<Rightarrow>
                  Inr (l\<lparr>synList := (synList l)[s := new], synHead := Some s, synTail := Some s, synCount := synCount l + 1\<rparr>))"

definition V4vProcessPreAcceptReads :: "v4v_env \<Rightarrow> v4v_dev \<Rightarrow> nat \<Rightarrow> u32 \<Rightarrow> v4v_addr \<Rightarrow> v4v_dev res" where
  "V4vProcessPreAcceptReads E d f con src =
     with_listener d f (\<lambda>c l.
       if synCount l = sint (backlog l) then V4vSendReset E d f con src False
       else
         res_bind (syn_push l src (ucast con)) (\<lambda>l.
           V4vDoAccepts E (set_ctx d f (c\<lparr>cu := Listener l\<rparr>)) f))"

section \<open>Accepted streams\<close>

definition with_accepter :: "v4v_dev \<Rightarrow> nat \<Rightarrow> (XENV4V_CONTEXT \<Rightarrow> accepter \<Rightarrow> 'a res) \<Rightarrow> 'a res" where
  "with_accepter d f k = with_ctx d f (\<lambda>c. case cu c of Accepter a \<Rightarrow> k c a | _ \<Rightarrow> Inl BadPointer)"

lemma with_accepter_cong [fundef_cong]:
  "d = d' \<Longrightarrow> f = f' \<Longrightarrow> (\<And>c a. ctxs d' f' = Some c \<Longrightarrow> k c a = k' c a) \<Longrightarrow> with_accepter d f k = with_accepter d' f' k'"
  by (simp add: with_accepter_def with_ctx_def split: option.split context_u.split)

text \<open>A read of an accepted stream gets the first entry of the data queue, if it fits; the result is whether it did.
  \<open>dataTail\<close> is left as it is.\<close>

definition Accepter_one :: "v4v_dev \<Rightarrow> nat \<Rightarrow> nat \<Rightarrow> XENV4V_CONTEXT \<Rightarrow> accepter \<Rightarrow> (bool \<times> v4v_dev) res" where
  "Accepter_one d f irp c a =
     (case (irps (qd d) irp, dataList a) of
        (Some i, pd # pds) \<Rightarrow>
          if has (flags i) (XENV4V_PEEK_SYN OR XENV4V_PEEK_ACK) then
            Inr (False, complete d irp STATUS_INVALID_DEVICE_REQUEST 0)
          else if wlen i < d_length pd then Inr (False, complete d irp STATUS_BUFFER_OVERFLOW 0)
          else
            res_bind (memcpy (rbuf (reqs d irp)) 0 (d_data pd) 0 (unat (d_length pd))) (\<lambda>b.
              Inr (True, set_ctx (complete (set_rbuf d irp b) irp STATUS_SUCCESS (d_length pd)) f
                           (c\<lparr>cu := Accepter (a\<lparr>dataList := pds\<rparr>)\<rparr>)))
      | _ \<Rightarrow> Inl BadPointer)"

lemma Accepter_one_queue: "Accepter_one d f irp c a = Inr (b, d') \<Longrightarrow> queue d' = queue d"
  by (auto simp: Accepter_one_def res_bind_Inr_iff split: option.splits list.splits if_splits)

text \<open>The results: whether the event was set, and whether data was read.\<close>

function AccepterReads_loop :: "v4v_dev \<Rightarrow> nat \<Rightarrow> bool \<Rightarrow> bool \<Rightarrow> (bool \<times> bool \<times> v4v_dev) res" where
  "AccepterReads_loop d f notify ntfy =
     with_accepter d f (\<lambda>c a.
       if dataList a = [] then
         if notify then Inr (False, ntfy, d) else res_bind (put_event d f False) (\<lambda>d. Inr (False, ntfy, d))
       else
         (case remove_irp d (peek_file f XENV4V_PEEK_STREAM XENV4V_PEEK_READ) of
            Inl e \<Rightarrow> Inl e
          | Inr (None, d) \<Rightarrow> res_bind (put_event d f True) (\<lambda>d. Inr (True, ntfy, d))
          | Inr (Some irp, d) \<Rightarrow>
              (case Accepter_one d f irp c a of
                 Inl e \<Rightarrow> Inl e
               | Inr (took, d) \<Rightarrow> AccepterReads_loop d f notify (ntfy \<or> took))))"
  by pat_completeness auto
termination
  by (relation "measure (\<lambda>(d, _). length (queue d))") (auto dest!: remove_irp_Some Accepter_one_queue)

declare AccepterReads_loop.simps [simp del]

definition V4vProcessAccepterReads :: "v4v_dev \<Rightarrow> nat \<Rightarrow> bool \<Rightarrow> (bool \<times> bool \<times> v4v_dev) res" where
  "V4vProcessAccepterReads d f notify = AccepterReads_loop d f notify False"

text \<open>Chaining a new entry behind the one \<^verbatim>\<open>dataTail\<close> points to.\<close>

definition data_append :: "accepter \<Rightarrow> XENV4V_DATA \<Rightarrow> accepter res" where
  "data_append a pd =
     (if dataList a = [] then Inr (a\<lparr>dataList := [pd], dataTail := Some (d_addr pd)\<rparr>)
      else case dataTail a of
             None \<Rightarrow> Inl BadPointer
           | Some t \<Rightarrow>
               if t \<in> d_addr ` set (dataList a)
               then Inr (a\<lparr>dataList := takeWhile (\<lambda>x. d_addr x \<noteq> t) (dataList a) @
                            [hd (dropWhile (\<lambda>x. d_addr x \<noteq> t) (dataList a)), pd],
                           dataTail := Some (d_addr pd)\<rparr>)
               else Inl BadPointer)"

text \<open>Nobody takes the message: it is queued and, unless that has been done, the event is set.\<close>

definition Buffer_message :: "v4v_env \<Rightarrow> v4v_dev \<Rightarrow> nat \<Rightarrow> u32 \<Rightarrow> bool \<Rightarrow> v4v_dev res" where
  "Buffer_message E d f dlen signaled =
     (if \<not> alloc E (clock d) then Inr (tick 1 d)
      else
        res_bind (the_ring d f) (\<lambda>rg.
        res_bind (v4v_copy_out_offset rg (replicate (unat dlen) 0) (unat dlen) True 8) (\<lambda>(ret, _, buf, rg').
          if sint ret < 0 then res_bind (put_ring d f (V4vRecoverRing rg)) (\<lambda>d. Inr (tick 1 d))
          else
            res_bind (put_ring d f rg') (\<lambda>d.
            with_accepter d f (\<lambda>c a.
            res_bind (data_append a \<lparr>d_addr = clock d, d_data = buf, d_length = dlen - 8\<rparr>) (\<lambda>a.
              let d = tick 1 (set_ctx d f (c\<lparr>cu := Accepter a\<rparr>))
              in if signaled then Inr d else put_event d f True))))))"

text \<open>A pending read takes the message.\<close>

definition Buffered_deliver :: "v4v_dev \<Rightarrow> nat \<Rightarrow> nat \<Rightarrow> u32 \<Rightarrow> v4v_dev res" where
  "Buffered_deliver d f irp dlen =
     res_bind (the_ring d f) (\<lambda>rg.
     res_bind (v4v_copy_out_offset rg (rbuf (reqs d irp)) (unat (dlen + 8)) True 8) (\<lambda>(ret, _, buf, rg').
       if sint ret < 0 then
         res_bind (put_ring d f (V4vRecoverRing rg)) (\<lambda>d. Inr (complete d irp STATUS_INTERNAL_DB_CORRUPTION 0))
       else
         res_bind (put_ring (set_rbuf d irp buf) f rg') (\<lambda>d. Inr (complete d irp STATUS_SUCCESS (ret - 8)))))"

definition V4vProcessAccepterBufferedReads :: "v4v_env \<Rightarrow> v4v_dev \<Rightarrow> nat \<Rightarrow> u32 \<Rightarrow> v4v_dev res" where
  "V4vProcessAccepterBufferedReads E d f dlen =
     res_bind (V4vProcessAccepterReads d f True) (\<lambda>(signaled, _, d).
     res_bind (remove_irp d (peek_file f XENV4V_PEEK_STREAM XENV4V_PEEK_READ)) (\<lambda>(r, d).
       case r of
         None \<Rightarrow> Buffer_message E d f dlen signaled
       | Some irp \<Rightarrow>
           (case irps (qd d) irp of
              None \<Rightarrow> Inl BadPointer
            | Some i \<Rightarrow>
                if wlen i < dlen - 8
                then Buffer_message E (complete d irp STATUS_BUFFER_OVERFLOW 0) f dlen signaled
                else Buffered_deliver d f irp dlen)))"

text \<open>A message for an accepter: whether to go on.  The comparison of the sender with the peer compares the addresses of
  the fields instead of their values; it never holds, and its branch is left out.\<close>

definition Listener_data :: "v4v_env \<Rightarrow> v4v_dev \<Rightarrow> nat \<Rightarrow> v4v_ring \<Rightarrow> u32 \<Rightarrow> u8 list \<Rightarrow> v4v_addr \<Rightarrow> (bool \<times> v4v_dev) res" where
  "Listener_data E d f rg ret sh src =
     res_bind (V4vGetContextByConnectionId d (ucast (sh_conid sh))) (\<lambda>(r, d).
       case r of
         None \<Rightarrow> res_bind (dump_and_reset E d f f rg sh src) (\<lambda>d. Inr (True, d))
       | Some g \<Rightarrow>
           if has (sh_flags sh) V4V_SHF_RST then
             res_bind (V4vDisconnectStreamAndSignal d g) (\<lambda>d.
             res_bind (V4vReleaseContext d g) (\<lambda>d. Inr (False, d)))
           else
             res_bind (V4vProcessAccepterBufferedReads E d g ret) (\<lambda>d.
             res_bind (V4vReleaseContext d g) (\<lambda>d. Inr (True, d))))"

text \<open>A SYN has been consumed.  A passive listener throws the message behind it away, too.\<close>

definition Listener_syn :: "v4v_env \<Rightarrow> v4v_dev \<Rightarrow> nat \<Rightarrow> XENV4V_STATE \<Rightarrow> u8 list \<Rightarrow> v4v_addr \<Rightarrow> v4v_dev res" where
  "Listener_syn E d f state sh src =
     (if state = STATE_LISTENING then V4vProcessPreAcceptReads E d f (sh_conid sh) src
      else res_bind (the_ring d f) (\<lambda>rg. dump_and_reset E d f f rg sh src))"

definition Listener_one :: "v4v_env \<Rightarrow> v4v_dev \<Rightarrow> nat \<Rightarrow> XENV4V_STATE \<Rightarrow> v4v_ring \<Rightarrow> (bool \<times> v4v_dev) res" where
  "Listener_one E d f state rg =
     res_bind (v4v_copy_out rg (Some (replicate 8 0)) 8 False) (\<lambda>(ret, from, shb, _).
       if sint ret < 0 then res_bind (put_ring d f (V4vRecoverRing rg)) (\<lambda>d. Inr (True, d))
       else
         (case (from, shb) of
            (Some (src, protocol), Some sh) \<Rightarrow>
              if protocol \<noteq> V4V_PROTO_STREAM \<or> ret < 8 then res_bind (dump_message d f rg) (\<lambda>d. Inr (True, d))
              else if has (sh_flags sh) V4V_SHF_SYN then
                res_bind (v4v_copy_out rg (Some sh) 8 True) (\<lambda>(ret, _, _, rg').
                  if sint ret < 0 then res_bind (put_ring d f (V4vRecoverRing rg)) (\<lambda>d. Inr (True, d))
                  else
                    res_bind (put_ring d f rg') (\<lambda>d.
                    res_bind (Listener_syn E d f state sh src) (\<lambda>d. Inr (True, d))))
              else Listener_data E d f rg ret sh src
          | _ \<Rightarrow> Inl BadPointer))"

fun ListenerReads_loop :: "nat \<Rightarrow> v4v_env \<Rightarrow> v4v_dev \<Rightarrow> nat \<Rightarrow> XENV4V_STATE \<Rightarrow> v4v_dev res" where
  "ListenerReads_loop 0 E d f state = Inl NoReturn"
| "ListenerReads_loop (Suc n) E d f state =
     res_bind (the_ring d f) (\<lambda>rg.
       if rx_ptr rg = tx_ptr rg then Inr d
       else res_bind (Listener_one E d f state rg) (\<lambda>(go, d). if go then ListenerReads_loop n E d f state else Inr d))"

definition V4vProcessListenerReads :: "v4v_env \<Rightarrow> v4v_dev \<Rightarrow> nat \<Rightarrow> XENV4V_STATE \<Rightarrow> v4v_dev res" where
  "V4vProcessListenerReads E d f state =
     res_bind (the_ring d f) (\<lambda>rg. ListenerReads_loop (nr_pending rg + 2) E d f state)"

section \<open>Entry points\<close>

definition V4vProcessContextReads :: "v4v_env \<Rightarrow> v4v_dev \<Rightarrow> nat \<Rightarrow> v4v_dev res" where
  "V4vProcessContextReads E d f =
     with_ctx d f (\<lambda>c.
       let stream = (\<lambda>d. res_bind (V4vProcessConnectorReads E d f) (\<lambda>(_, d). Inr d))
       in case cstate c of
            STATE_BOUND \<Rightarrow> res_bind (V4vProcessDatagramReads d f) (\<lambda>(_, d). Inr d)
          | STATE_CONNECTING \<Rightarrow>
              res_bind (V4vProcessPreConnectReads E d f STATE_CONNECTING) (\<lambda>(rc, _, d). if rc then stream d else Inr d)
          | STATE_WAITING \<Rightarrow>
              res_bind (V4vProcessPreConnectReads E d f STATE_WAITING) (\<lambda>(rc, _, d). if rc then stream d else Inr d)
          | STATE_CONNECTED \<Rightarrow> stream d
          | STATE_LISTENING \<Rightarrow> V4vProcessListenerReads E d f STATE_LISTENING
          | STATE_PASSIVE \<Rightarrow> V4vProcessListenerReads E d f STATE_PASSIVE
          | STATE_ACCEPTED \<Rightarrow> res_bind (V4vProcessAccepterReads d f False) (\<lambda>(_, _, d). Inr d)
          | _ \<Rightarrow> Inr d)"

text \<open>What a read request drives once it is queued; the result is whether a message was consumed.\<close>

definition drive_reads :: "v4v_env \<Rightarrow> v4v_dev \<Rightarrow> nat \<Rightarrow> XENV4V_STATE \<Rightarrow> (bool \<times> v4v_dev) res" where
  "drive_reads E d f state =
     (if state = STATE_BOUND then V4vProcessDatagramReads d f
      else if state \<in> {STATE_CONNECTING, STATE_WAITING} then
        res_bind (V4vProcessPreConnectReads E d f state) (\<lambda>(rc, ntfy, d).
          if rc then res_bind (V4vProcessConnectorReads E d f) (\<lambda>(ntfy', d). Inr (ntfy \<or> ntfy', d))
          else Inr (ntfy, d))
      else if state = STATE_CONNECTED then V4vProcessConnectorReads E d f
      else res_bind (V4vProcessAccepterReads d f False) (\<lambda>(_, ntfy, d). Inr (ntfy, d)))"

definition V4vDispatchRead :: "v4v_env \<Rightarrow> v4v_dev \<Rightarrow> nat \<Rightarrow> nat \<Rightarrow> (NTSTATUS \<times> v4v_dev) res" where
  "V4vDispatchRead E d f irp =
     with_ctx d f (\<lambda>c.
       let d = d\<lparr>qd := V4vInitializeIrp (qd d) irp\<rparr>
       in case irps (qd d) irp of
            None \<Rightarrow> Inl BadPointer
          | Some i \<Rightarrow>
              if wlen i > 0 \<and> \<not> alloc E (clock d)
              then Inr (STATUS_NO_MEMORY, complete (tick 1 d) irp STATUS_NO_MEMORY 0)
              else
                let d = tick 1 d;
                    fail = (\<lambda>status. Inr (status, complete d irp status 0));
                    go = (\<lambda>fl. res_bind (insert_irp E (set_irp d irp (i\<lparr>flags := fl\<rparr>)) irp False) (\<lambda>(status, d).
                           if NT_SUCCESS status then
                             res_bind (drive_reads E d f (cstate c)) (\<lambda>(ntfy, d).
                             res_bind (if ntfy then V4vProcessNotify E d else Inr d) (\<lambda>d. Inr (STATUS_PENDING, d)))
                           else Inr (status, complete d irp status 0)))
                in if cstate c = STATE_BOUND then
                     if wlen i < 6 then fail STATUS_BUFFER_TOO_SMALL else go (XENV4V_PEEK_DGRAM OR XENV4V_PEEK_READ)
                   else if cstate c \<in> {STATE_CONNECTING, STATE_WAITING, STATE_CONNECTED, STATE_ACCEPTED} then
                     if wlen i = 0 then fail STATUS_SUCCESS else go (XENV4V_PEEK_STREAM OR XENV4V_PEEK_READ)
                   else if cstate c = STATE_DISCONNECTED then fail STATUS_VIRTUAL_CIRCUIT_CLOSED
                   else fail STATUS_INVALID_DEVICE_REQUEST)"

definition V4vCtrlConnectWait :: "v4v_env \<Rightarrow> v4v_dev \<Rightarrow> nat \<Rightarrow> nat \<Rightarrow> (NTSTATUS \<times> v4v_dev) res" where
  "V4vCtrlConnectWait E d f irp =
     with_ctx d f (\<lambda>c.
       if cstate c \<noteq> STATE_BOUND then Inr (STATUS_INVALID_DEVICE_REQUEST, d)
       else
         let d = d\<lparr>qd := V4vInitializeIrp (qd d) irp\<rparr>
         in case irps (qd d) irp of
              None \<Rightarrow> Inl BadPointer
            | Some i \<Rightarrow>
                let d = set_rbuf d irp (sh_bytes 0 0 @ drop 8 (rbuf (reqs d irp)));
                    d = set_ctx d f (c\<lparr>ctype := TYPE_CONNECTOR, cstate := STATE_WAITING\<rparr>);
                    d = set_irp d irp (i\<lparr>flags := XENV4V_PEEK_STREAM OR XENV4V_PEEK_READ OR XENV4V_PEEK_SYN OR XENV4V_PEEK_IOCTL\<rparr>)
                in res_bind (insert_irp E d irp False) (\<lambda>(status, d).
                     if NT_SUCCESS status then res_bind (V4vProcessContextReads E d f) (\<lambda>d. Inr (STATUS_PENDING, d))
                     else res_bind (set_state d f STATE_DISCONNECTED) (\<lambda>d. Inr (status, d))))"

definition V4vCtrlConnect :: "v4v_env \<Rightarrow> v4v_dev \<Rightarrow> nat \<Rightarrow> v4v_addr \<Rightarrow> nat \<Rightarrow> (NTSTATUS \<times> v4v_dev) res" where
  "V4vCtrlConnect E d f ringAddr irp =
     with_ctx d f (\<lambda>c.
       if cstate c \<noteq> STATE_BOUND then Inr (STATUS_INVALID_DEVICE_REQUEST, d)
       else
         let d = d\<lparr>qd := V4vInitializeIrp (qd d) irp\<rparr>
         in case irps (qd d) irp of
              None \<Rightarrow> Inl BadPointer
            | Some i \<Rightarrow>
                let con = RtlRandomEx E (clock d);
                    d = tick 1 (d\<lparr>qd := (qd d)\<lparr>sdst := (sdst (qd d))(f := ringAddr)\<rparr>\<rparr>);
                    d = set_rbuf d irp (sh_bytes V4V_SHF_SYN con @ drop 8 (rbuf (reqs d irp)));
                    d = set_ctx d f (c\<lparr>connId := ucast con, ctype := TYPE_CONNECTOR, cstate := STATE_CONNECTING\<rparr>);
                    d = V4vStartConnectionTimer d;
                    d = set_irp d irp (i\<lparr>flags := XENV4V_PEEK_STREAM OR XENV4V_PEEK_WRITE OR XENV4V_PEEK_SYN OR XENV4V_PEEK_IOCTL\<rparr>)
                in res_bind (insert_irp E d irp False) (\<lambda>(status, d).
                     if NT_SUCCESS status then res_bind (V4vProcessContextWrites E d f) (\<lambda>d. Inr (STATUS_PENDING, d))
                     else res_bind (set_state (V4vStopConnectionTimer d False) f STATE_DISCONNECTED) (\<lambda>d. Inr (status, d))))"

text \<open>The accepter \<open>g\<close> of a listener \<open>f\<close> is initialised, joins the ring of the listener and waits for a SYN.\<close>

definition Accept_setup :: "v4v_dev \<Rightarrow> nat \<Rightarrow> nat \<Rightarrow> v4v_dev res" where
  "Accept_setup d f g =
     res_bind (V4vAddRefContext d f) (\<lambda>d.
       with_ctx d f (\<lambda>c. case ringObject c of
         None \<Rightarrow> Inl BadPointer
       | Some r \<Rightarrow>
           res_bind (V4vAddRefRing (rd d) r) (\<lambda>(_, rs).
             let d = d\<lparr>rd := rs\<rparr>
             in with_ctx d g (\<lambda>ac.
                  Inr (set_ctx d g (ac\<lparr>cu := Accepter \<lparr>listenerContext = f, dataList = [], dataTail = None\<rparr>,
                                      ringObject := Some r, ctype := TYPE_ACCEPTER, cstate := STATE_ACCEPTING\<rparr>)))))) "

definition V4vCtrlAccept :: "v4v_env \<Rightarrow> v4v_dev \<Rightarrow> nat \<Rightarrow> nat \<Rightarrow> nat option \<Rightarrow> nat \<Rightarrow> (NTSTATUS \<times> v4v_dev) res" where
  "V4vCtrlAccept E d f fh rxe irp =
     with_ctx d f (\<lambda>c.
       if cstate c \<noteq> STATE_LISTENING then Inr (STATUS_INVALID_DEVICE_REQUEST, d)
       else
         let d = d\<lparr>qd := V4vInitializeIrp (qd d) irp\<rparr>;
             (status, g) = file_of E fh
         in if \<not> NT_SUCCESS status then Inr (status, d)
            else
              res_bind (V4vAddRefContext d g) (\<lambda>d.
                let d = d\<lparr>reqs := (reqs d)(irp := (reqs d irp)\<lparr>priv_a := g\<rparr>)\<rparr>
                in res_bind (V4vCtrlInitializeFile E d g rxe (ringLength c)) (\<lambda>(status, d).
                     if \<not> NT_SUCCESS status then res_bind (V4vReleaseContext d g) (\<lambda>d. Inr (status, d))
                     else
                       res_bind (Accept_setup d f g) (\<lambda>d.
                         case irps (qd d) irp of
                           None \<Rightarrow> Inl BadPointer
                         | Some i \<Rightarrow>
                             res_bind (insert_irp E (set_irp d irp (i\<lparr>flags :=
                                 XENV4V_PEEK_STREAM OR XENV4V_PEEK_ACCEPT OR XENV4V_PEEK_IOCTL\<rparr>)) irp False) (\<lambda>(status, d).
                               if NT_SUCCESS status then res_bind (V4vDoAccepts E d f) (\<lambda>d. Inr (STATUS_PENDING, d))
                               else Inr (status, d))))))"

text \<open>The control codes with their input; the variants for 32-bit callers differ only in the layout of the buffer.
  \<open>len_ok\<close>: the input buffer has the size of the values.\<close>

datatype ioctl =
    V4V_IOCTL_INITIALIZE "nat option" u32
  | V4V_IOCTL_BIND v4v_ring_id
  | V4V_IOCTL_LISTEN u32
  | V4V_IOCTL_ACCEPT nat "nat option"
  | V4V_IOCTL_CONNECT v4v_addr
  | V4V_IOCTL_WAIT
  | V4V_IOCTL_DISCONNECT
  | V4V_IOCTL_GETINFO V4V_GETINFO_TYPE
  | V4V_IOCTL_DUMPRING
  | V4V_IOCTL_OTHER

definition Ioctl_call :: "v4v_env \<Rightarrow> v4v_dev \<Rightarrow> nat \<Rightarrow> nat \<Rightarrow> ioctl \<Rightarrow> bool \<Rightarrow> (NTSTATUS \<times> v4v_dev) res" where
  "Ioctl_call E d f irp code len_ok =
     (let bad = Inr (STATUS_INVALID_PARAMETER, d)
      in case code of
           V4V_IOCTL_INITIALIZE ev len \<Rightarrow> if len_ok then V4vCtrlInitializeFile E d f ev len else bad
         | V4V_IOCTL_BIND rid \<Rightarrow> if len_ok then V4vCtrlBind E d f rid else bad
         | V4V_IOCTL_LISTEN bl \<Rightarrow> if len_ok then V4vCtrlListen E d f bl else bad
         | V4V_IOCTL_ACCEPT fh rxe \<Rightarrow>
             with_ctx d f (\<lambda>c.
               if cstate c = STATE_LISTENING \<and> \<not> len_ok then bad else V4vCtrlAccept E d f fh rxe irp)
         | V4V_IOCTL_CONNECT a \<Rightarrow> if len_ok then V4vCtrlConnect E d f a irp else bad
         | V4V_IOCTL_WAIT \<Rightarrow> if len_ok then V4vCtrlConnectWait E d f irp else bad
         | V4V_IOCTL_DISCONNECT \<Rightarrow> V4vCtrlDisconnect E d f
         | V4V_IOCTL_GETINFO t \<Rightarrow>
             if len_ok then res_bind (V4vCtrlGetInfo d f t) (\<lambda>(status, _). Inr (status, d)) else bad
         | V4V_IOCTL_DUMPRING \<Rightarrow> res_bind (V4vCtrlDumpRing d f) (\<lambda>status. Inr (status, d))
         | V4V_IOCTL_OTHER \<Rightarrow> bad)"

definition V4vDispatchDeviceControl :: "v4v_env \<Rightarrow> v4v_dev \<Rightarrow> nat \<Rightarrow> nat \<Rightarrow> ioctl \<Rightarrow> bool \<Rightarrow> (NTSTATUS \<times> v4v_dev) res" where
  "V4vDispatchDeviceControl E d f irp code len_ok =
     res_bind (Ioctl_call E d f irp code len_ok) (\<lambda>(status, d).
       let info = (case code of V4V_IOCTL_GETINFO _ \<Rightarrow> if NT_SUCCESS status then 12 else 0 | _ \<Rightarrow> 0)
       in Inr (status, if status \<noteq> STATUS_PENDING then complete d irp status info else d))"

section \<open>Deferred work, interrupts, cancellation\<close>

text \<open>The work item that sends a control message through the driver's own write path; \<open>irp\<close> is the new request.  When
  the write path reports failure the request is freed.  Completing a request of the driver frees it, too
  (\<^verbatim>\<open>V4vInternalMsgCompletion\<close>), so that a request that is no longer there is freed twice.\<close>

definition V4vSendWorkItem :: "v4v_env \<Rightarrow> v4v_dev \<Rightarrow> nat \<Rightarrow> v4v_dev res" where
  "V4vSendWorkItem E d irp =
     (case work_items d of
        [] \<Rightarrow> Inr d
      | cmsg # ws \<Rightarrow>
          let d = d\<lparr>work_items := ws\<rparr>
          in if \<not> alloc E (clock d) then Inr (tick 1 d)
             else
               let d = tick 1 d;
                   (f, tag, sh, dest, len) =
                     (case cmsg of
                        XENV4V_RESET con f dest \<Rightarrow> (f, XENV4V_PEEK_RST, sh_bytes V4V_SHF_RST con, dest, 40)
                      | XENV4V_ACKNOWLEDGE con f \<Rightarrow>
                          (f, XENV4V_PEEK_ACK, sh_bytes V4V_SHF_ACK con, \<lparr>port = 0, domain = 0\<rparr>, 32));
                   d = set_irp d irp \<lparr>flags = 0, FileObject = f, wlen = len, buf_dst = dest, idst = None\<rparr>;
                   d = d\<lparr>reqs := (reqs d)(irp := \<lparr>is_ioctl = False, rbuf = sh, priv_a = 0, peerAddr = dest\<rparr>)\<rparr>
               in res_bind (V4vDispatchWrite E d f irp tag) (\<lambda>(status, d).
                    if NT_SUCCESS status then Inr d
                    else if irps (qd d) irp = None then Inl BadPointer
                    else Inr (d\<lparr>qd := (qd d)\<lparr>irps := (irps (qd d))(irp := None)\<rparr>\<rparr>)))"

fun ContextReads_list :: "v4v_env \<Rightarrow> v4v_dev \<Rightarrow> nat list \<Rightarrow> v4v_dev res" where
  "ContextReads_list E d [] = Inr d"
| "ContextReads_list E d (f # fs) = res_bind (V4vProcessContextReads E d f) (\<lambda>d. ContextReads_list E d fs)"

definition V4vConnectTimerDpc :: "v4v_env \<Rightarrow> v4v_dev \<Rightarrow> v4v_dev res" where
  "V4vConnectTimerDpc E d =
     res_bind (V4vGetAllContexts E d) (\<lambda>(fs, d).
     res_bind (ContextReads_list E d fs) (\<lambda>d.
     V4vPutAllContexts d fs))"

definition V4vVirqNotifyDpc :: "v4v_env \<Rightarrow> v4v_dev \<Rightarrow> v4v_dev res" where
  "V4vVirqNotifyDpc E d =
     res_bind (V4vGetAllContexts E d) (\<lambda>(fs, d).
     res_bind (ContextReads_list E d fs) (\<lambda>d.
     res_bind (V4vPutAllContexts d fs) (\<lambda>d.
     V4vProcessNotify E d)))"

fun DisconnectAll_loop :: "v4v_dev \<Rightarrow> nat list \<Rightarrow> v4v_dev res" where
  "DisconnectAll_loop d [] = Inr d"
| "DisconnectAll_loop d (f # fs) =
     with_ctx d f (\<lambda>c.
       res_bind (if FILE_TYPE_STREAM (ctype c) then V4vDisconnectStreamAndSignal d f else Inr d) (\<lambda>d.
         DisconnectAll_loop d fs))"

definition V4vDisconnectAllStreams :: "v4v_env \<Rightarrow> v4v_dev \<Rightarrow> v4v_dev res" where
  "V4vDisconnectAllStreams E d =
     res_bind (V4vGetAllContexts E d) (\<lambda>(fs, d).
     res_bind (DisconnectAll_loop d fs) (\<lambda>d.
     V4vPutAllContexts d fs))"

text \<open>Stopping the device completes the SYN and ACK requests.  The event channel is not part of the model.\<close>

function StopDevice_loop :: "v4v_dev \<Rightarrow> v4v_dev res" where
  "StopDevice_loop d =
     (case remove_irp d \<lparr>pfo = None, types = XENV4V_PEEK_STREAM, ops = XENV4V_PEEK_SYN OR XENV4V_PEEK_ACK,
                        pdst = \<lparr>port = V4V_PORT_NONE, domain = DOMID_INVALID\<rparr>\<rparr> of
        Inl e \<Rightarrow> Inl e
      | Inr (None, d) \<Rightarrow> Inr d
      | Inr (Some irp, d) \<Rightarrow> StopDevice_loop (complete d irp STATUS_CANCELLED 0))"
  by pat_completeness auto
termination
  by (relation "measure (\<lambda>d. length (queue d))") (auto dest!: remove_irp_Some)

declare StopDevice_loop.simps [simp del]

definition V4vStopDevice :: "v4v_dev \<Rightarrow> v4v_dev res" where
  "V4vStopDevice d = StopDevice_loop (d\<lparr>timer_set := False\<rparr>)"

text \<open>The request has been taken out of the queue.  \<open>is_accept\<close>: it is an accept.\<close>

definition V4vCsqCompleteCanceledIrp :: "v4v_dev \<Rightarrow> nat \<Rightarrow> bool \<Rightarrow> v4v_dev res" where
  "V4vCsqCompleteCanceledIrp d irp is_accept =
     (case irps (qd d) irp of
        None \<Rightarrow> Inl BadPointer
      | Some i \<Rightarrow>
          with_ctx d (FileObject i) (\<lambda>c.
            res_bind
              (if ctype c = TYPE_CONNECTOR \<and> cstate c = STATE_CONNECTING then Inr (V4vStopConnectionTimer d False)
               else if is_ioctl (reqs d irp) \<and> is_accept then
                 with_ctx d (priv_a (reqs d irp)) (\<lambda>ac.
                   if cstate ac \<noteq> STATE_ACCEPTING then Inr d else V4vReleaseContext d (priv_a (reqs d irp)))
               else Inr d) (\<lambda>d.
            Inr (complete d irp STATUS_CANCELLED 0))))"

end
