(* ===== verification/V4vDelivery.thy ===== *)
theory V4vDelivery
  imports V4vStream
begin

text \<open>
  What the data path of the V4V driver delivers: pending connections and queued data come out in the order they went
  in, a connected stream hands its data to the pending reads in order, no write is lost; and the paths on which the
  driver uses freed memory or does not return.

  \<^item> The locale \<open>fifo\<close> is the contract of a first-in first-out queue.  The backlog of a listener, records of an array
    linked by indices, and the data queue of an accepter, a chain with a tail pointer, are its interpretations.
  \<^item> \<open>stream_spec\<close> is the specification of a connected stream over the messages of the ring and the lengths of the
    pending reads; the loop over the ring's bytes and the request queue refines it.
\<close>

section \<open>First in, first out\<close>

datatype 'x fifo_op = Put 'x | Get

fun fifo_run :: "('s \<Rightarrow> 'x \<Rightarrow> 's res) \<Rightarrow> ('s \<Rightarrow> ('x \<times> 's) res) \<Rightarrow> 's \<Rightarrow> 'x fifo_op list \<Rightarrow> ('x list \<times> 's) res" where
  "fifo_run put get s [] = Inr ([], s)"
| "fifo_run put get s (Put x # os) = res_bind (put s x) (\<lambda>s. fifo_run put get s os)"
| "fifo_run put get s (Get # os) =
     res_bind (get s) (\<lambda>(x, s). res_bind (fifo_run put get s os) (\<lambda>(xs, s). Inr (x # xs, s)))"

text \<open>The specification; \<open>ok\<close> says whether an element may be put.\<close>

fun fifo_spec :: "('x list \<Rightarrow> 'x \<Rightarrow> bool) \<Rightarrow> 'x list \<Rightarrow> 'x fifo_op list \<Rightarrow> ('x list \<times> 'x list) option" where
  "fifo_spec ok q [] = Some ([], q)"
| "fifo_spec ok q (Put x # os) = (if ok q x then fifo_spec ok (q @ [x]) os else None)"
| "fifo_spec ok (x # q) (Get # os) = map_option (\<lambda>(xs, q). (x # xs, q)) (fifo_spec ok q os)"
| "fifo_spec ok [] (Get # os) = None"

locale fifo =
  fixes ok :: "'x list \<Rightarrow> 'x \<Rightarrow> bool" and put :: "'s \<Rightarrow> 'x \<Rightarrow> 's res" and get :: "'s \<Rightarrow> ('x \<times> 's) res"
    and has_queue :: "'s \<Rightarrow> 'x list \<Rightarrow> bool"
  assumes put_law: "has_queue s q \<Longrightarrow> ok q x \<Longrightarrow> \<exists>s'. put s x = Inr s' \<and> has_queue s' (q @ [x])"
    and get_law: "has_queue s (x # q) \<Longrightarrow> \<exists>s'. get s = Inr (x, s') \<and> has_queue s' q"
begin

lemma run_refines:
  assumes "has_queue s q" and "fifo_spec ok q os = Some (xs, q')"
  shows "\<exists>s'. fifo_run put get s os = Inr (xs, s') \<and> has_queue s' q'"
  using assms
proof (induction os arbitrary: s q xs)
  case (Cons a os)
  show ?case
  proof (cases a)
    case (Put x)
    then have "ok q x" and spec: "fifo_spec ok (q @ [x]) os = Some (xs, q')"
      using Cons.prems(2) by (auto split: if_splits)
    then obtain s1 where "put s x = Inr s1" and "has_queue s1 (q @ [x])" using put_law Cons.prems(1) by blast
    then show ?thesis using Cons.IH [OF _ spec] Put by auto
  next
    case Get
    then obtain x r ys where q: "q = x # r" "xs = x # ys" and spec: "fifo_spec ok r os = Some (ys, q')"
      using Cons.prems(2) by (cases q) auto
    then obtain s1 where "get s = Inr (x, s1)" and "has_queue s1 r" using get_law Cons.prems(1) by blast
    then show ?thesis using Cons.IH [OF _ spec] Get q by fastforce
  qed
qed auto

end

section \<open>The backlog of a listener\<close>

definition backlog_get :: "listener \<Rightarrow> ((v4v_addr \<times> u64) \<times> listener) res" where
  "backlog_get l = res_bind (syn_pop l) (\<lambda>(s, l). Inr ((syn_sdst s, syn_connId s), l))"

definition chained :: "XENV4V_SYN list \<Rightarrow> nat list \<Rightarrow> bool" where
  "chained ss is \<longleftrightarrow> (\<forall>k. Suc k < length is \<longrightarrow> syn_next (ss ! (is ! k)) = Some (is ! Suc k))"

definition backlog_chain :: "listener \<Rightarrow> nat list \<Rightarrow> bool" where
  "backlog_chain l is \<longleftrightarrow>
     distinct is \<and> (\<forall>i. i \<in> set is \<longleftrightarrow> i < length (synList l) \<and> syn_pending (synList l ! i)) \<and> chained (synList l) is \<and>
     synCount l = int (length is) \<and>
     synHead l = (if is = [] then None else Some (hd is)) \<and> synTail l = (if is = [] then None else Some (last is))"

definition backlog_holds :: "nat \<Rightarrow> listener \<Rightarrow> (v4v_addr \<times> u64) list \<Rightarrow> bool" where
  "backlog_holds n l q \<longleftrightarrow> length (synList l) = n \<and>
     (\<exists>is. backlog_chain l is \<and> q = map (\<lambda>i. (syn_sdst (synList l ! i), syn_connId (synList l ! i))) is)"

lemma free_SYN_spec:
  "free_SYN ss < length ss \<longleftrightarrow> (\<exists>i < length ss. \<not> syn_pending (ss ! i))"
  "free_SYN ss < length ss \<Longrightarrow> \<not> syn_pending (ss ! free_SYN ss)"
proof -
  show "free_SYN ss < length ss \<longleftrightarrow> (\<exists>i < length ss. \<not> syn_pending (ss ! i))"
  proof (induction ss)
    case (Cons s ss)
    then show ?case by (auto simp: less_Suc_eq_0_disj)
  qed simp
  show "free_SYN ss < length ss \<Longrightarrow> \<not> syn_pending (ss ! free_SYN ss)"
    by (induction ss) auto
qed

lemma backlog_chain_bound: "backlog_chain l is \<Longrightarrow> i \<in> set is \<Longrightarrow> i < length (synList l)"
  by (auto simp: backlog_chain_def)

lemma backlog_chain_free:
  assumes "backlog_chain l is" and "length is < length (synList l)"
  shows "free_SYN (synList l) < length (synList l)" and "free_SYN (synList l) \<notin> set is"
proof -
  have c: "card (set is) = length is" using assms(1) unfolding backlog_chain_def by (metis distinct_card)
  show f: "free_SYN (synList l) < length (synList l)"
  proof (rule ccontr)
    assume "\<not> ?thesis"
    then have "set is = {..<length (synList l)}"
      using assms(1) free_SYN_spec(1) [of "synList l"] by (auto simp: backlog_chain_def)
    then show False using c assms(2) by simp
  qed
  show "free_SYN (synList l) \<notin> set is"
    using free_SYN_spec(2) [OF f] assms(1) by (auto simp: backlog_chain_def)
qed

lemma backlog_chainD:
  assumes "backlog_chain l is"
  shows "distinct is" and "i \<in> set is \<longleftrightarrow> i < length (synList l) \<and> syn_pending (synList l ! i)"
    and "chained (synList l) is" and "synCount l = int (length is)"
    and "synHead l = (if is = [] then None else Some (hd is))" and "synTail l = (if is = [] then None else Some (last is))"
  using assms by (simp_all add: backlog_chain_def)

lemma chained_append:
  "is \<noteq> [] \<Longrightarrow> chained ss is \<Longrightarrow> syn_next (ss ! last is) = Some s \<Longrightarrow> chained ss (is @ [s])"
  by (auto simp: chained_def nth_append last_conv_nth less_Suc_eq diff_Suc split: nat.splits)

lemma chained_cong:
  assumes "chained ss is" and "\<And>k. Suc k < length is \<Longrightarrow> syn_next (ts ! (is ! k)) = syn_next (ss ! (is ! k))"
  shows "chained ts is"
  using assms by (simp add: chained_def)

lemma syn_push_holds:
  assumes "backlog_holds n l q" and "length q < n"
  shows "\<exists>l'. syn_push l src con = Inr l' \<and> backlog_holds n l' (q @ [(src, con)])"
proof -
  obtain "is" where c: "backlog_chain l is" and q: "q = map (\<lambda>i. (syn_sdst (synList l ! i), syn_connId (synList l ! i))) is"
    and n: "length (synList l) = n"
    using assms(1) by (auto simp: backlog_holds_def)
  let ?ss = "synList l" and ?s = "free_SYN (synList l)"
  have s: "?s < length ?ss" "?s \<notin> set is" using backlog_chain_free [OF c] assms(2) q n by simp_all
  let ?new = "\<lparr>syn_next = None, syn_last = None, syn_pending = True, syn_sdst = src, syn_connId = con\<rparr>"
  show ?thesis
  proof (cases "is = []")
    case True
    then have t: "synTail l = None" using c by (simp add: backlog_chain_def)
    let ?l = "l\<lparr>synList := ?ss[?s := ?new], synHead := Some ?s, synTail := Some ?s, synCount := synCount l + 1\<rparr>"
    have "syn_push l src con = Inr ?l" using t s by (simp add: syn_push_def Let_def)
    moreover have "backlog_chain ?l [?s]"
      using c True s by (auto simp: backlog_chain_def chained_def nth_list_update)
    ultimately show ?thesis using q n True s by (auto simp: backlog_holds_def intro!: exI [of _ "[?s]"])
  next
    case False
    let ?t = "last is"
    have ti: "?t \<in> set is" using False by simp
    have tn: "?t \<noteq> ?s" using ti s(2) by metis
    then have t: "synTail l = Some ?t" "?t < length ?ss" "?t \<noteq> ?s" "?t \<in> set is"
      using backlog_chainD(6) [OF c] False backlog_chain_bound [OF c ti] by simp_all
    let ?ts = "?ss[?s := ?new\<lparr>syn_last := Some ?t\<rparr>, ?t := (?ss ! ?t)\<lparr>syn_next := Some ?s\<rparr>]"
    let ?u = "?ss[?s := ?new]"
    let ?v = "?u[?t := (?u ! ?t)\<lparr>syn_next := Some ?s\<rparr>]"
    have "?v[?s := (?v ! ?s)\<lparr>syn_last := Some ?t\<rparr>] = ?ts"
      using s t by (simp add: list_update_swap)
    then have p: "syn_push l src con = Inr (l\<lparr>synList := ?ts, synTail := Some ?s, synCount := synCount l + 1\<rparr>)"
      using s t by (simp add: syn_push_def Let_def)
    have old: "?ts ! i = (if i = ?t then (?ss ! i)\<lparr>syn_next := Some ?s\<rparr> else ?ss ! i)" if "i \<in> set is" for i
      using that s t backlog_chain_bound [OF c that] by (auto simp: nth_list_update)
    have "chained ?ts is"
    proof (rule chained_cong)
      show "chained ?ss is" using c by (simp add: backlog_chain_def)
      fix k assume k: "Suc k < length is"
      then have "is ! k \<noteq> ?t" using backlog_chainD(1) [OF c] False by (simp add: last_conv_nth nth_eq_iff_index_eq)
      then show "syn_next (?ts ! (is ! k)) = syn_next (?ss ! (is ! k))" using old [of "is ! k"] k by simp
    qed
    moreover have "syn_next (?ts ! ?t) = Some ?s" using old [OF t(4)] by simp
    ultimately have "chained ?ts (is @ [?s])" using chained_append [OF False] by blast
    moreover have "i \<in> set (is @ [?s]) \<longleftrightarrow> i < length ?ts \<and> syn_pending (?ts ! i)" for i
      using backlog_chainD(2) [OF c, of i] s t by (auto simp: nth_list_update)
    ultimately have "backlog_chain (l\<lparr>synList := ?ts, synTail := Some ?s, synCount := synCount l + 1\<rparr>) (is @ [?s])"
      using backlog_chainD [OF c] s False by (simp add: backlog_chain_def)
    moreover have "map (\<lambda>i. (syn_sdst (?ts ! i), syn_connId (?ts ! i))) (is @ [?s]) = q @ [(src, con)]"
      using s t old q by (auto simp: nth_list_update)
    ultimately show ?thesis using p n by (fastforce simp: backlog_holds_def)
  qed
qed

lemma syn_pop_holds:
  assumes "backlog_holds n l (x # q)"
  shows "\<exists>l'. backlog_get l = Inr (x, l') \<and> backlog_holds n l' q"
proof -
  obtain s "is" where c: "backlog_chain l (s # is)" and n: "length (synList l) = n"
    and x: "x = (syn_sdst (synList l ! s), syn_connId (synList l ! s))"
    and q: "q = map (\<lambda>i. (syn_sdst (synList l ! i), syn_connId (synList l ! i))) is"
    using assms by (auto simp: backlog_holds_def)
  let ?ss = "synList l"
  have s: "s < length ?ss" "s \<notin> set is" "synHead l = Some s"
    using backlog_chain_bound [OF c, of s] backlog_chainD(1,5) [OF c] by auto
  let ?l = "l\<lparr>synHead := (if is = [] then None else Some (hd is)), synTail := (if is = [] then None else Some (last is)),
               synCount := synCount l - 1, synList := ?ss[s := zero_SYN]\<rparr>"
  have nx: "is \<noteq> [] \<Longrightarrow> syn_next (?ss ! s) = Some (hd is)"
    using backlog_chainD(3) [OF c] unfolding chained_def by (cases "is") force+
  have "last is \<noteq> s" if "is \<noteq> []" using that s(2) last_in_set by metis
  then have "backlog_get l = Inr (x, ?l)"
    using s nx x backlog_chainD(5,6) [OF c] by (cases "is = []") (auto simp: backlog_get_def syn_pop_def Let_def)
  moreover have "chained (?ss[s := zero_SYN]) is"
  proof (rule chained_cong)
    show "chained ?ss is" using backlog_chainD(3) [OF c] unfolding chained_def by force
    fix k assume "Suc k < length is"
    then have "is ! k \<noteq> s" using s(2) by (metis Suc_lessD nth_mem)
    then show "syn_next (?ss[s := zero_SYN] ! (is ! k)) = syn_next (?ss ! (is ! k))" by simp
  qed
  moreover have "i \<in> set is \<longleftrightarrow> i < length ?ss \<and> syn_pending (?ss[s := zero_SYN] ! i)" for i
    using backlog_chainD(2) [OF c, of i] s by (cases "i = s") (auto simp: zero_SYN_def)
  ultimately have "backlog_chain ?l is" using backlog_chainD(1,4) [OF c] by (simp add: backlog_chain_def)
  moreover have "map (\<lambda>i. (syn_sdst (?ss[s := zero_SYN] ! i), syn_connId (?ss[s := zero_SYN] ! i))) is = q"
    using s(2) unfolding q by (intro map_cong refl) (metis nth_list_update_neq)
  ultimately show ?thesis using n \<open>backlog_get l = Inr (x, ?l)\<close> by (fastforce simp: backlog_holds_def)
qed

interpretation backlog: fifo "\<lambda>q x. length q < n" "\<lambda>l (src, con). syn_push l src con" backlog_get "backlog_holds n" for n
  by unfold_locales (use syn_push_holds syn_pop_holds in auto)

lemma backlog_holds_count: "backlog_holds n l q \<Longrightarrow> synCount l = int (length q) \<and> length q \<le> n"
proof -
  assume "backlog_holds n l q"
  then obtain "is" where "backlog_chain l is" "length (synList l) = n" "length q = length is" by (auto simp: backlog_holds_def)
  moreover from this have "length is \<le> card {..<length (synList l)}"
    using backlog_chain_bound [of l "is"] backlog_chainD(1) by (metis card_mono distinct_card finite_lessThan lessThan_iff subsetI)
  ultimately show ?thesis by (auto simp: backlog_chain_def)
qed

section \<open>Small steps\<close>

text \<open>What throwing messages away and sending resets leaves alone.\<close>

definition quiet :: "v4v_dev \<Rightarrow> v4v_dev \<Rightarrow> bool" where
  "quiet d d' \<longleftrightarrow> qd d' = qd d \<and> ctxs d' = ctxs d \<and> reqs d' = reqs d \<and> events d' = events d"

lemma quiet_trans: "quiet d d' \<Longrightarrow> quiet d' d'' \<Longrightarrow> quiet d d''"
  by (simp add: quiet_def)

lemma put_ring_spec:
  assumes "the_ring d f = Inr rg"
  shows "\<exists>d'. put_ring d f rg' = Inr d' \<and> the_ring d' f = Inr rg' \<and> quiet d d'"
  using assms
  by (auto simp: put_ring_def the_ring_def with_ctx_def quiet_def split: option.splits)

lemma the_ring_cong: "ctxs d' = ctxs d \<Longrightarrow> rd d' = rd d \<Longrightarrow> the_ring d' f = the_ring d f"
  by (simp add: the_ring_def with_ctx_def split: option.splits)

lemma V4vSendReset_spec:
  assumes "the_ring d f = Inr rg"
  shows "\<exists>d'. V4vSendReset E d f con dest noq = Inr d' \<and> the_ring d' f = Inr rg \<and> quiet d d'"
proof -
  obtain s w d1 where s: "do_send E d (addr (ring_id rg)) dest V4V_PROTO_STREAM (sh_bytes V4V_SHF_RST con) = (s, w, d1)"
    using prod_cases3 by blast
  then have 1: "quiet d d1 \<and> rd d1 = rd d"
    by (auto simp: do_send_def V4vSend_def quiet_def tick_def Let_def split: if_splits)
  define d' where "d' = (if s = STATUS_RETRY \<and> \<not> noq then
                 if alloc E (clock d1) \<and> alloc E (clock d1 + 1)
                 then tick 2 (d1\<lparr>work_items := work_items d1 @ [XENV4V_RESET con f dest]\<rparr>)
                 else tick 2 d1
               else d1)"
  have "V4vSendReset E d f con dest noq = Inr d'"
    using assms s by (simp add: V4vSendReset_def d'_def)
  moreover have "quiet d d' \<and> rd d' = rd d" using 1 by (auto simp: d'_def quiet_def tick_def)
  ultimately show ?thesis using assms the_ring_cong [of d' d f] by (auto simp: quiet_def)
qed

section \<open>Specification of a connected stream\<close>

datatype message_kind = Junk | Bye | Data "u8 list"

text \<open>What the driver makes of a message on connection \<open>con\<close> with a peer in domain \<open>peer\<close>.\<close>

definition kind :: "u32 \<Rightarrow> u16 \<Rightarrow> v4v_message \<Rightarrow> message_kind" where
  "kind con peer m =
     (let sh = take 8 (m_data m)
      in if m_protocol m \<noteq> V4V_PROTO_STREAM \<or> length (m_data m) < 8 \<or> has (sh_flags sh) V4V_SHF_SYN \<or>
            sh_conid sh \<noteq> con \<or> peer \<noteq> domain (m_source m) \<or> has (sh_flags sh) V4V_SHF_ACK then Junk
         else if has (sh_flags sh) V4V_SHF_RST then Bye
         else Data (drop 8 (m_data m)))"

text \<open>The pending reads \<open>(request, length)\<close> against the messages of the ring.  The results: the reads that end with
  status and data, the read that sees the reset of the peer, the reads and the messages that stay.\<close>

fun stream_spec :: "('m \<Rightarrow> message_kind) \<Rightarrow> (nat \<times> nat) list \<Rightarrow> 'm list \<Rightarrow>
    (nat \<times> NTSTATUS \<times> u8 list) list \<times> nat option \<times> (nat \<times> nat) list \<times> 'm list" where
  "stream_spec K rs [] = ([], None, rs, [])"
| "stream_spec K [] (m # ms) = ([], None, [], m # ms)"
| "stream_spec K ((r, n) # rs) (m # ms) =
     (case K m of
        Junk \<Rightarrow> stream_spec K ((r, n) # rs) ms
      | Bye \<Rightarrow> ([], Some r, rs, m # ms)
      | Data x \<Rightarrow>
          if n < length x
          then (let (os, b, rs', ms') = stream_spec K rs (m # ms) in ((r, STATUS_BUFFER_OVERFLOW, []) # os, b, rs', ms'))
          else (let (os, b, rs', ms') = stream_spec K rs ms in ((r, STATUS_SUCCESS, x) # os, b, rs', ms')))"

text \<open>The record of a finished read.\<close>

definition done_read :: "nat \<times> NTSTATUS \<times> u8 list \<Rightarrow> nat \<times> NTSTATUS \<times> u32" where
  "done_read o1 = (case o1 of (r, st, x) \<Rightarrow> (r, st, of_nat (length x)))"

abbreviation (input) stream_reads :: "nat \<Rightarrow> XENV4V_QPEEK" where
  "stream_reads f \<equiv> peek_file f XENV4V_PEEK_STREAM XENV4V_PEEK_READ"

definition read_ok :: "v4v_dev \<Rightarrow> nat \<times> nat \<Rightarrow> bool" where
  "read_ok d p \<longleftrightarrow> (case p of (r, n) \<Rightarrow> \<exists>i. irps (qd d) r = Some i \<and> flags i = XENV4V_PEEK_STREAM OR XENV4V_PEEK_READ \<and>
     unat (wlen i) = n \<and> n + 8 < 2 ^ 32 \<and> length (rbuf (reqs d r)) = n)"

text \<open>The pending stream reads of a file.\<close>

definition reads_ok :: "v4v_dev \<Rightarrow> nat \<Rightarrow> (nat \<times> nat) list \<Rightarrow> bool" where
  "reads_ok d f rs \<longleftrightarrow>
     queue_ok (qd d) \<and> filter (matches (stream_reads f) (qd d)) (queue d) = map fst rs \<and> (\<forall>p \<in> set rs. read_ok d p)"

text \<open>A stream in the middle of its life: the pending reads of the file are \<open>rs\<close>, its ring holds \<open>ms\<close>.\<close>

definition stream_ok :: "v4v_dev \<Rightarrow> nat \<Rightarrow> u32 \<Rightarrow> u16 \<Rightarrow> nat \<Rightarrow> (nat \<times> nat) list \<Rightarrow> v4v_message list \<Rightarrow> bool" where
  "stream_ok d f con peer ev rs ms \<longleftrightarrow>
     queue_ok (qd d) \<and> filter (matches (stream_reads f) (qd d)) (queue d) = map fst rs \<and> (\<forall>p \<in> set rs. read_ok d p) \<and>
     domain (sdst (qd d) f) = peer \<and>
     (\<exists>c. ctxs d f = Some c \<and> kevReceive c = Some ev \<and> ucast (connId c) = con \<and> cstate c \<notin> {STATE_CONNECTING, STATE_ACCEPTED}) \<and>
     (\<exists>rg. the_ring d f = Inr rg \<and> holds rg ms)"

text \<open>The same with the first read taken out of the queue.\<close>

definition stream_held :: "v4v_dev \<Rightarrow> nat \<Rightarrow> u32 \<Rightarrow> u16 \<Rightarrow> nat \<Rightarrow> nat \<times> nat \<Rightarrow> (nat \<times> nat) list \<Rightarrow> v4v_message list \<Rightarrow> bool" where
  "stream_held d f con peer ev p rs ms \<longleftrightarrow>
     stream_ok d f con peer ev rs ms \<and> read_ok d p \<and> fst p \<notin> set (queue d) \<and> length (queue d) < 65536 \<and>
     matches (stream_reads f) (qd d) (fst p)"

section \<open>One step of a connected stream\<close>

lemma holds_length: "holds rg (m # ms) \<Longrightarrow> length (m_data m) < 2 ^ 31 - 32"
  by (auto simp: holds_def encodes_def elim: encode_all_ConsE)

lemma word_length:
  assumes "n < 2 ^ 31 - 32"
  shows "unat (of_nat n :: u32) = n" and "\<not> sint (of_nat n :: u32) < 0" and "(of_nat n :: u32) < 8 \<longleftrightarrow> n < 8"
    and "(of_nat n :: u32) = 8 \<longleftrightarrow> n = 8" and "8 \<le> n \<Longrightarrow> (of_nat n :: u32) - 8 = of_nat (n - 8)"
proof -
  show u: "unat (of_nat n :: u32) = n" using assms by (intro unat_of_nat_lt) simp
  then show "\<not> sint (of_nat n :: u32) < 0" using assms sint_nonneg_iff [of "of_nat n"] by simp
  show "(of_nat n :: u32) < 8 \<longleftrightarrow> n < 8" using u by (simp add: word_less_nat_alt)
  show "(of_nat n :: u32) = 8 \<longleftrightarrow> n = 8" using u by (simp add: word_eq_unat)
  show "8 \<le> n \<Longrightarrow> (of_nat n :: u32) - 8 = of_nat (n - 8)" by (simp add: of_nat_diff)
qed

lemma dump_message_spec:
  assumes "the_ring d f = Inr rg" and "holds rg (m # ms)"
  shows "\<exists>d' rg'. dump_message d f rg = Inr d' \<and> the_ring d' f = Inr rg' \<and> holds rg' ms \<and> quiet d d'"
proof -
  obtain x where "holds (rg\<lparr>rx_ptr := x\<rparr>) ms" and "v4v_copy_out rg None 0 True =
      Inr (of_nat (length (m_data m)), Some (m_source m, m_protocol m), None, rg\<lparr>rx_ptr := x\<rparr>)"
    using v4v_copy_out_dump [OF assms(2)] by blast
  then show ?thesis using put_ring_spec [OF assms(1), of "rg\<lparr>rx_ptr := x\<rparr>"] by (auto simp: dump_message_def)
qed

lemma dump_and_reset_spec:
  assumes "the_ring d f = Inr rg" and "holds rg (m # ms)"
  shows "\<exists>d' rg'. dump_and_reset E d f f rg sh src = Inr d' \<and> the_ring d' f = Inr rg' \<and> holds rg' ms \<and> quiet d d'"
proof -
  obtain d1 rg1 where 1: "dump_message d f rg = Inr d1" "the_ring d1 f = Inr rg1" "holds rg1 ms" "quiet d d1"
    using dump_message_spec [OF assms] by blast
  obtain d2 where "V4vSendReset E d1 f (sh_conid sh) src False = Inr d2" "the_ring d2 f = Inr rg1" "quiet d1 d2"
    using V4vSendReset_spec [OF 1(2)] by blast
  with 1 show ?thesis
    by (cases "has (sh_flags sh) V4V_SHF_RST") (auto simp: dump_and_reset_def intro: quiet_trans)
qed

lemma refuse_control_spec:
  assumes "the_ring d f = Inr rg" and "holds rg (m # ms)"
  shows "\<exists>d' rg'. refuse_control E d f rg = Inr d' \<and> the_ring d' f = Inr rg' \<and> holds rg' ms \<and> quiet d d'"
proof -
  obtain x where x: "holds (rg\<lparr>rx_ptr := x\<rparr>) ms" "v4v_copy_out rg (Some (replicate 8 0)) 8 True =
      Inr (of_nat (length (m_data m)), Some (m_source m, m_protocol m), Some (overwrite (replicate 8 0) (take 8 (m_data m))), rg\<lparr>rx_ptr := x\<rparr>)"
    using v4v_copy_out_next [OF assms(2), of 8 "replicate 8 0" True] by auto
  obtain d1 where 1: "put_ring d f (rg\<lparr>rx_ptr := x\<rparr>) = Inr d1" "the_ring d1 f = Inr (rg\<lparr>rx_ptr := x\<rparr>)" "quiet d d1"
    using put_ring_spec [OF assms(1)] by blast
  define sh where "sh = overwrite (replicate 8 0) (take 8 (m_data m))"
  obtain d2 where "V4vSendReset E d1 f (sh_conid sh) (m_source m) False = Inr d2" "the_ring d2 f = Inr (rg\<lparr>rx_ptr := x\<rparr>)" "quiet d1 d2"
    using V4vSendReset_spec [OF 1(2)] by blast
  with x 1 show ?thesis
    by (cases "of_nat (length (m_data m)) = (8::u32) \<and> \<not> has (sh_flags sh) V4V_SHF_RST")
      (auto simp: refuse_control_def sh_def [symmetric] intro: quiet_trans)
qed

text \<open>The checks before a message is delivered.\<close>

lemma Connector_filter_spec:
  fixes E :: v4v_env
  assumes r: "the_ring d f = Inr rg" and h: "holds rg (m # ms)" and c: "ctxs d f = Some c"
    and sh: "8 \<le> length (m_data m) \<Longrightarrow> sh = take 8 (m_data m)"
  defines "K \<equiv> kind (ucast (connId c)) (domain (sdst (qd d) f)) m"
    and "F \<equiv> Connector_filter E d f rg (of_nat (length (m_data m))) sh (m_source m) (m_protocol m)"
  shows "K = Junk \<Longrightarrow> \<exists>d' rg'. F = Inr (Some d') \<and> the_ring d' f = Inr rg' \<and> holds rg' ms \<and> quiet d d'"
    and "K \<noteq> Junk \<Longrightarrow> F = Inr None"
proof -
  note w = word_length [OF holds_length [OF h]]
  show "K \<noteq> Junk \<Longrightarrow> F = Inr None"
    using c sh w by (auto simp: K_def F_def kind_def Connector_filter_def with_ctx_def Let_def split: if_splits)
  assume "K = Junk"
  then have "m_protocol m \<noteq> V4V_PROTO_STREAM \<or> (of_nat (length (m_data m)) :: u32) < 8 \<or> has (sh_flags sh) V4V_SHF_SYN \<or>
      sh_conid sh \<noteq> ucast (connId c) \<or> domain (sdst (qd d) f) \<noteq> domain (m_source m) \<or> has (sh_flags sh) V4V_SHF_ACK"
    using sh w by (auto simp: K_def kind_def Let_def split: if_splits)
  then have "F = res_bind (dump_message d f rg) (\<lambda>d. Inr (Some d)) \<or> F = res_bind (refuse_control E d f rg) (\<lambda>d. Inr (Some d)) \<or>
      F = res_bind (dump_and_reset E d f f rg sh (m_source m)) (\<lambda>d. Inr (Some d))"
    unfolding F_def Connector_filter_def with_ctx_def Let_def c option.case by argo
  then consider (dump) "F = res_bind (dump_message d f rg) (\<lambda>d. Inr (Some d))"
    | (refuse) "F = res_bind (refuse_control E d f rg) (\<lambda>d. Inr (Some d))"
    | (reset) "F = res_bind (dump_and_reset E d f f rg sh (m_source m)) (\<lambda>d. Inr (Some d))"
    by blast
  then show "\<exists>d' rg'. F = Inr (Some d') \<and> the_ring d' f = Inr rg' \<and> holds rg' ms \<and> quiet d d'"
  proof cases
    case dump
    then show ?thesis using dump_message_spec [OF r h] by auto
  next
    case refuse
    then show ?thesis using refuse_control_spec [OF r h, of E] by auto
  next
    case reset
    then show ?thesis using dump_and_reset_spec [OF r h, of E sh "m_source m"] by auto
  qed
qed

section \<open>Taking reads and putting them back\<close>

lemma peek_file_safe: "peek_safe (peek_file f ts os)"
  by (simp add: peek_safe_def peek_file_def)

lemma read_flags [simp]: "\<not> has 0x01000002 0x02000000" "\<not> has 0x01000002 0x00300000"
  by (simp_all add: has_def)

lemma remove_irp_first:
  assumes ok: "queue_ok (qd d)" and q: "filter (matches (peek_file f ts os) (qd d)) (queue d) = r # rs"
    and i: "irps (qd d) r = Some i" "\<not> has (flags i) XENV4V_PEEK_WRITE"
  shows "remove_irp d (peek_file f ts os) = Inr (Some r, d\<lparr>qd := unqueued (qd d) r\<rparr>)"
    and "queue_ok (unqueued (qd d) r)"
    and "filter (matches (peek_file f ts os) (unqueued (qd d) r)) (pendingIrpQueue (unqueued (qd d) r)) = rs"
proof -
  let ?qp = "peek_file f ts os"
  have "V4vCsqPeekNextIrp (qd d) None (Some ?qp) = Inr (find (matches ?qp (qd d)) (queue d))"
    using ok peek_file_safe by (auto simp: V4vCsqPeekNextIrp_def queue_ok_def intro!: Peek_loop_spec)
  then have p: "V4vCsqPeekNextIrp (qd d) None (Some ?qp) = Inr (Some r)" using q by (simp add: find_filter)
  have u: "V4vCsqRemoveIrp (qd d) r = Inr (unqueued (qd d) r)" using i by (simp add: V4vCsqRemoveIrp_def unqueued_def)
  show "remove_irp d ?qp = Inr (Some r, d\<lparr>qd := unqueued (qd d) r\<rparr>)"
    using p u by (simp add: remove_irp_def IoCsqRemoveNextIrp_def)
  have "r \<in> set (queue d)" using arg_cong [OF q, of set] by auto
  then show "queue_ok (unqueued (qd d) r)" using V4vCsqRemoveIrp_spec [OF ok, of r] u by auto
  have d: "distinct (queue d)" using ok by (simp add: queue_ok_def)
  have m: "matches ?qp (unqueued (qd d) r) = matches ?qp (qd d)" by (simp add: matches_def unqueued_def fun_eq_iff)
  have "filter (matches ?qp (qd d)) (remove1 r (queue d)) = remove1 r (filter (matches ?qp (qd d)) (queue d))"
    using remove1_filter [OF d] by simp
  then show "filter (matches ?qp (unqueued (qd d) r)) (pendingIrpQueue (unqueued (qd d) r)) = rs"
    using q m by (simp add: unqueued_def)
qed

lemma remove_irp_no_match:
  assumes "queue_ok (qd d)" and "filter (matches (peek_file f ts os) (qd d)) (queue d) = []"
  shows "remove_irp d (peek_file f ts os) = Inr (None, d)"
  using csq.next_none [of "qd d" "peek_file f ts os"] assms peek_file_safe by (simp add: remove_irp_def)

lemma read_ok_cong: "irps (qd d') (fst p) = irps (qd d) (fst p) \<Longrightarrow> reqs d' (fst p) = reqs d (fst p) \<Longrightarrow> read_ok d' p = read_ok d p"
  by (cases p) (simp add: read_ok_def)

lemma the_ring_qd [simp]:
  "the_ring (d\<lparr>qd := q\<rparr>) f = the_ring d f" "the_ring (complete d irp st w) f = the_ring d f" "the_ring (tick n d) f = the_ring d f"
  "the_ring (set_rbuf d irp b) f = the_ring d f"
  by (auto intro!: the_ring_cong simp: complete_def tick_def set_rbuf_def)

text \<open>The first read of a file is taken.\<close>

lemma reads_take:
  assumes "reads_ok d f (p # rs)"
  shows "remove_irp d (stream_reads f) = Inr (Some (fst p), d\<lparr>qd := unqueued (qd d) (fst p)\<rparr>)"
    and "reads_ok (d\<lparr>qd := unqueued (qd d) (fst p)\<rparr>) f rs" and "read_ok (d\<lparr>qd := unqueued (qd d) (fst p)\<rparr>) p"
    and "fst p \<notin> set (pendingIrpQueue (unqueued (qd d) (fst p)))" and "length (pendingIrpQueue (unqueued (qd d) (fst p))) < 65536"
    and "matches (stream_reads f) (unqueued (qd d) (fst p)) (fst p)"
proof -
  obtain i where i: "irps (qd d) (fst p) = Some i" "flags i = XENV4V_PEEK_STREAM OR XENV4V_PEEK_READ"
    using assms by (auto simp: reads_ok_def read_ok_def split: prod.splits)
  have q: "queue_ok (qd d)" "filter (matches (stream_reads f) (qd d)) (queue d) = fst p # map fst rs"
    using assms by (auto simp: reads_ok_def)
  have nw: "\<not> has (flags i) XENV4V_PEEK_WRITE" using i(2) by simp
  note r = remove_irp_first [OF q i(1) nw]
  show "remove_irp d (stream_reads f) = Inr (Some (fst p), d\<lparr>qd := unqueued (qd d) (fst p)\<rparr>)" by (rule r(1))
  have mem: "fst p \<in> set (queue d)" "matches (stream_reads f) (qd d) (fst p)"
    using arg_cong [OF q(2), of set] by auto
  have "length (queue d) \<le> 65536" "distinct (queue d)" using q(1) by (auto simp: queue_ok_def)
  moreover have "0 < length (queue d)" using mem(1) by (cases "queue d") auto
  ultimately show "fst p \<notin> set (pendingIrpQueue (unqueued (qd d) (fst p)))"
    "length (pendingIrpQueue (unqueued (qd d) (fst p))) < 65536"
    using mem(1) by (auto simp: length_remove1 unqueued_def)
  have same: "irps (unqueued (qd d) (fst p)) = irps (qd d)" by (simp add: unqueued_def)
  have rk: "read_ok (d\<lparr>qd := unqueued (qd d) (fst p)\<rparr>) x = read_ok d x" for x using same by (intro read_ok_cong) auto
  show "reads_ok (d\<lparr>qd := unqueued (qd d) (fst p)\<rparr>) f rs" "read_ok (d\<lparr>qd := unqueued (qd d) (fst p)\<rparr>) p"
    using assms r(2,3) rk by (auto simp: reads_ok_def)
  show "matches (stream_reads f) (unqueued (qd d) (fst p)) (fst p)" using mem(2) same by (simp add: matches_def)
qed

lemma stream_take:
  assumes "stream_ok d f con peer ev (p # rs) ms"
  shows "\<exists>d'. remove_irp d (stream_reads f) = Inr (Some (fst p), d') \<and> stream_held d' f con peer ev p rs ms \<and>
    completed (qd d') = completed (qd d) \<and> reqs d' = reqs d \<and> events d' = events d \<and> ctxs d' = ctxs d"
proof -
  let ?d = "d\<lparr>qd := unqueued (qd d) (fst p)\<rparr>"
  have "reads_ok d f (p # rs)" using assms by (simp add: stream_ok_def reads_ok_def)
  note t = reads_take [OF this]
  have "stream_ok ?d f con peer ev rs ms"
    using assms t(2) by (auto simp: stream_ok_def reads_ok_def unqueued_def)
  then have "stream_held ?d f con peer ev p rs ms" using t(3-6) by (simp add: stream_held_def)
  then show ?thesis using t(1) by (auto simp: unqueued_def)
qed

text \<open>A read that was kept goes back to the front of the queue.\<close>

lemma stream_back:
  assumes "stream_held d f con peer ev p rs ms"
  shows "\<exists>d'. insert_irp E d (fst p) True = Inr (STATUS_SUCCESS, d') \<and> stream_ok d' f con peer ev (p # rs) ms \<and>
    completed (qd d') = completed (qd d) \<and> reqs d' = reqs d \<and> events d' = events d \<and> ctxs d' = ctxs d"
proof -
  have h: "stream_ok d f con peer ev rs ms" "read_ok d p" "fst p \<notin> set (queue d)" "length (queue d) < 65536"
    "matches (stream_reads f) (qd d) (fst p)"
    using assms by (simp_all add: stream_held_def)
  obtain i where i: "irps (qd d) (fst p) = Some i" "flags i = XENV4V_PEEK_STREAM OR XENV4V_PEEK_READ"
    using h(2) by (auto simp: read_ok_def split: prod.splits)
  have q: "queue_ok (qd d)" using h(1) by (simp add: stream_ok_def)
  then have "pendingIrpCount (qd d) \<noteq> 65536" using h(4) by (simp add: queue_ok_def)
  then have ins: "insert_irp E d (fst p) True = Inr (STATUS_SUCCESS, tick 2 (d\<lparr>qd := queued (qd d) (fst p) True\<rparr>))"
    using i by (simp add: insert_irp_def V4vCsqInsertIrpEx_def queued_def)
  let ?d = "tick 2 (d\<lparr>qd := queued (qd d) (fst p) True\<rparr>)"
  have nw: "\<not> has (flags i) XENV4V_PEEK_WRITE" using i(2) by simp
  have ok: "queue_ok (queued (qd d) (fst p) True)" using queue_ok_plain [OF q h(3,4) i(1) nw] .
  have same: "irps (qd ?d) = irps (qd d)" "sdst (qd ?d) = sdst (qd d)" "completed (qd ?d) = completed (qd d)"
    "queue ?d = fst p # queue d" "reqs ?d = reqs d" "ctxs ?d = ctxs d" "events ?d = events d" "qd ?d = queued (qd d) (fst p) True"
    by (simp_all add: queued_def tick_def)
  have m: "matches (stream_reads f) (qd ?d) = matches (stream_reads f) (qd d)"
    by (simp add: matches_def same(1) fun_eq_iff)
  have rk: "read_ok ?d x = read_ok d x" for x using same by (intro read_ok_cong) auto
  have "filter (matches (stream_reads f) (qd ?d)) (queue ?d) = map fst (p # rs)"
    using h(1,5) unfolding m same(4) by (simp add: stream_ok_def)
  then have "stream_ok ?d f con peer ev (p # rs) ms"
    using h(1,2) ok rk same by (auto simp: stream_ok_def)
  then show ?thesis using ins same by auto
qed

text \<open>A read that has been taken is completed.\<close>

lemma reads_complete:
  assumes h: "reads_ok d f rs" and out: "r \<notin> set (queue d)"
  shows "reads_ok (complete d r st w) f rs"
proof -
  let ?q = "V4vCompleteIrp (qd d) r st w"
  have "queue_ok ((qd d)\<lparr>irps := (irps (qd d))(r := None)\<rparr>)"
    using queue_ok_outside [of "qd d" r None] h out by (simp add: reads_ok_def)
  then have ok: "queue_ok ?q" by (simp add: queue_ok_def V4vCompleteIrp_def writes_def)
  have m: "matches (stream_reads f) ?q j = matches (stream_reads f) (qd d) j" if "j \<noteq> r" for j
    using that by (simp add: matches_def V4vCompleteIrp_def)
  have "filter (matches (stream_reads f) ?q) (queue d) = filter (matches (stream_reads f) (qd d)) (queue d)"
    using out m by (intro filter_cong refl) metis
  moreover have "read_ok (complete d r st w) x = read_ok d x" if "x \<in> set rs" for x
  proof -
    have "fst x \<in> fst ` set rs" using that by simp
    then have "fst x \<in> set (queue d)" using h unfolding reads_ok_def by (metis filter_is_subset in_mono list.set_map)
    then have "fst x \<noteq> r" using out by metis
    then show ?thesis by (intro read_ok_cong) (simp_all add: complete_def V4vCompleteIrp_def)
  qed
  ultimately show ?thesis using h ok by (simp add: reads_ok_def complete_def V4vCompleteIrp_def)
qed

lemma completed_complete [simp]: "completed (qd (complete d r st w)) = (r, st, w) # completed (qd d)"
  by (simp add: complete_def V4vCompleteIrp_def)

lemma stream_complete:
  assumes "stream_held d f con peer ev p rs ms"
  shows "stream_ok (complete d (fst p) st w) f con peer ev rs ms"
    and "completed (qd (complete d (fst p) st w)) = (fst p, st, w) # completed (qd d)"
proof -
  have h: "stream_ok d f con peer ev rs ms" "fst p \<notin> set (queue d)" using assms by (simp_all add: stream_held_def)
  then have "reads_ok (complete d (fst p) st w) f rs" by (intro reads_complete) (simp_all add: stream_ok_def reads_ok_def)
  then show "stream_ok (complete d (fst p) st w) f con peer ev rs ms"
    using h(1) by (auto simp: stream_ok_def reads_ok_def complete_def V4vCompleteIrp_def)
qed simp

lemma stream_ok_quiet:
  assumes "stream_ok d f con peer ev rs ms" and "quiet d d'" and "the_ring d' f = Inr rg" and "holds rg ms'"
  shows "stream_ok d' f con peer ev rs ms'"
  using assms read_ok_cong [of d' _ d] by (auto simp: stream_ok_def quiet_def)

lemma stream_held_quiet:
  assumes "stream_held d f con peer ev p rs ms" and "quiet d d'" and "the_ring d' f = Inr rg" and "holds rg ms'"
  shows "stream_held d' f con peer ev p rs ms'"
  using assms stream_ok_quiet [OF _ assms(2-4)] read_ok_cong [of d' p d] by (auto simp: stream_held_def quiet_def)

lemma matching_fst: "stream_ok d f con peer ev rs ms \<Longrightarrow> x \<in> set rs \<Longrightarrow> fst x \<in> set (queue d)"
  unfolding stream_ok_def by (metis filter_is_subset image_eqI in_mono list.set_map)

lemma reads_rbuf:
  assumes "reads_ok d f rs" and "r \<notin> set (queue d)"
  shows "reads_ok (set_rbuf d r b) f rs"
proof -
  have "read_ok (set_rbuf d r b) x = read_ok d x" if "x \<in> set rs" for x
  proof -
    have "fst x \<in> set (queue d)"
      using assms(1) that unfolding reads_ok_def by (metis filter_is_subset image_eqI in_mono list.set_map)
    then have "fst x \<noteq> r" using assms(2) by metis
    then show ?thesis by (intro read_ok_cong) (simp_all add: set_rbuf_def)
  qed
  then show ?thesis using assms(1) by (simp add: reads_ok_def set_rbuf_def)
qed

lemma stream_ok_rbuf:
  assumes "stream_ok d f con peer ev rs ms" and "r \<notin> set (queue d)"
  shows "stream_ok (set_rbuf d r b) f con peer ev rs ms"
  using assms reads_rbuf [of d f rs r b] the_ring_cong [of "set_rbuf d r b" d f]
  by (simp add: stream_ok_def reads_ok_def set_rbuf_def)

section \<open>The loop\<close>

text \<open>A message that is thrown away.\<close>

lemma Connector_one_junk:
  assumes h: "stream_held d f con peer ev (r, n) rs (m # ms)" and k: "kind con peer m = Junk"
  shows "\<exists>d'. Connector_one E d f r retain = Inr (True, True, False, d') \<and> stream_held d' f con peer ev (r, n) rs ms \<and> quiet d d'"
proof -
  obtain c i rg where c: "ctxs d f = Some c" "ucast (connId c) = con" "domain (sdst (qd d) f) = peer"
    and i: "irps (qd d) r = Some i" "flags i = XENV4V_PEEK_STREAM OR XENV4V_PEEK_READ"
    and rg: "the_ring d f = Inr rg" "holds rg (m # ms)"
    using h by (auto simp: stream_held_def stream_ok_def read_ok_def)
  define sh where "sh = overwrite (replicate 8 0) (take 8 (m_data m))"
  obtain x where x: "v4v_copy_out rg (Some (replicate 8 0)) 8 False =
      Inr (of_nat (length (m_data m)), Some (m_source m, m_protocol m), Some sh, rg)"
    using v4v_copy_out_next [OF rg(2), of 8 "replicate 8 0" False] by (auto simp: sh_def)
  have sh: "8 \<le> length (m_data m) \<Longrightarrow> sh = take 8 (m_data m)" by (simp add: sh_def overwrite_def)
  obtain d' rg' where d': "Connector_filter E d f rg (of_nat (length (m_data m))) sh (m_source m) (m_protocol m) = Inr (Some d')"
    "the_ring d' f = Inr rg'" "holds rg' ms" "quiet d d'"
    using Connector_filter_spec(1) [OF rg c(1) sh, of E] k c by auto
  have "Connector_one E d f r retain = Inr (True, True, False, d')"
    using i rg(1) x d'(1) word_length(2) [OF holds_length [OF rg(2)]] by (simp add: Connector_one_def)
  then show ?thesis using stream_held_quiet [OF h d'(4,2,3)] d'(4) by blast
qed

text \<open>A message with data.\<close>

lemma Connector_one_data:
  assumes h: "stream_held d f con peer ev (r, n) rs (m # ms)" and k: "kind con peer m = Data x"
  shows "n < length x \<Longrightarrow> Connector_one E d f r retain = Inr (True, False, False, complete d r STATUS_BUFFER_OVERFLOW 0)"
    and "\<not> n < length x \<Longrightarrow> \<exists>d'. Connector_one E d f r retain = Inr (True, False, True, complete d' r STATUS_SUCCESS (of_nat (length x))) \<and>
      stream_held d' f con peer ev (r, n) rs ms \<and> quiet (set_rbuf d r (rbuf (reqs d' r))) d' \<and> take (length x) (rbuf (reqs d' r)) = x"
proof -
  obtain c i rg where c: "ctxs d f = Some c" "ucast (connId c) = con" "domain (sdst (qd d) f) = peer"
    and i: "irps (qd d) r = Some i" "flags i = XENV4V_PEEK_STREAM OR XENV4V_PEEK_READ" "unat (wlen i) = n" "n + 8 < 2 ^ 32"
    and b: "length (rbuf (reqs d r)) = n"
    and rg: "the_ring d f = Inr rg" "holds rg (m # ms)"
    using h by (auto simp: stream_held_def stream_ok_def read_ok_def)
  define sh where "sh = overwrite (replicate 8 0) (take 8 (m_data m))"
  have x: "v4v_copy_out rg (Some (replicate 8 0)) 8 False =
      Inr (of_nat (length (m_data m)), Some (m_source m, m_protocol m), Some sh, rg)"
    using v4v_copy_out_next [OF rg(2), of 8 "replicate 8 0" False] by (auto simp: sh_def)
  have sh: "8 \<le> length (m_data m) \<Longrightarrow> sh = take 8 (m_data m)" by (simp add: sh_def overwrite_def)
  have kk: "8 \<le> length (m_data m)" "x = drop 8 (m_data m)" "\<not> has (sh_flags sh) V4V_SHF_RST"
    using k sh by (auto simp: kind_def Let_def split: if_splits)
  have F: "Connector_filter E d f rg (of_nat (length (m_data m))) sh (m_source m) (m_protocol m) = Inr None"
    using Connector_filter_spec(2) [OF rg c(1) sh, of E] k c by auto
  note w = word_length [OF holds_length [OF rg(2)]]
  have one: "Connector_one E d f r retain =
      res_bind (Connector_deliver d f r i rg (of_nat (length (m_data m))) sh) (\<lambda>(go, took, d). Inr (go, False, took, d))"
    using i rg(1) x F w(2) by (simp add: Connector_one_def)
  have lx: "length x = length (m_data m) - 8" using kk by simp
  have "(of_nat (length (m_data m)) :: u32) - 8 = of_nat (length x)" using w(5) [OF kk(1)] lx by simp
  moreover have lx2: "length x < 2 ^ 31 - 32" using lx holds_length [OF rg(2)] by simp
  ultimately have sub: "unat ((of_nat (length (m_data m)) :: u32) - 8) = length x" "(of_nat (length (m_data m)) :: u32) - 8 = of_nat (length x)"
    using word_length(1) [OF lx2] by simp_all
  then have less: "wlen i < of_nat (length (m_data m)) - 8 \<longleftrightarrow> n < length x" using i(3) by (simp add: word_less_nat_alt)
  show "n < length x \<Longrightarrow> Connector_one E d f r retain = Inr (True, False, False, complete d r STATUS_BUFFER_OVERFLOW 0)"
    using one less kk(3) by (simp add: Connector_deliver_def)
  assume fits: "\<not> n < length x"
  have t: "unat (wlen i + 8) = n + 8" using i(3,4) by (simp add: unat_word_ariths(1))
  have dx: "drop 8 (take (n + 8) (m_data m)) = x" using fits kk lx by simp
  obtain y where y: "holds (rg\<lparr>rx_ptr := y\<rparr>) ms" "v4v_copy_out_offset rg (rbuf (reqs d r)) (unat (wlen i + 8)) True 8 =
      Inr (of_nat (length (m_data m)), Some (m_source m, m_protocol m), overwrite (rbuf (reqs d r)) x, rg\<lparr>rx_ptr := y\<rparr>)"
    using v4v_copy_out_offset_next [OF rg(2), of 8 "n + 8" "rbuf (reqs d r)" True] fits b dx t by auto
  let ?d = "set_rbuf d r (overwrite (rbuf (reqs d r)) x)"
  have ring: "the_ring ?d f = Inr rg" using rg(1) by simp
  obtain d' where d': "put_ring ?d f (rg\<lparr>rx_ptr := y\<rparr>) = Inr d'" "the_ring d' f = Inr (rg\<lparr>rx_ptr := y\<rparr>)" "quiet ?d d'"
    using put_ring_spec [OF ring] by blast
  have "Connector_one E d f r retain = Inr (True, False, True, complete d' r STATUS_SUCCESS (of_nat (length x)))"
    using one less kk(3) fits y(2) d'(1) w(2) sub(2) by (simp add: Connector_deliver_def)
  moreover have "stream_held ?d f con peer ev (r, n) rs (m # ms)"
    using h stream_ok_rbuf [of d f con peer ev rs "m # ms" r] fits b
    by (auto simp: stream_held_def read_ok_def set_rbuf_def)
  from stream_held_quiet [OF this d'(3,2) y(1)] have "stream_held d' f con peer ev (r, n) rs ms" .
  moreover have "rbuf (reqs d' r) = overwrite (rbuf (reqs d r)) x" using d'(3) by (simp add: quiet_def set_rbuf_def)
  ultimately show "\<exists>d'. Connector_one E d f r retain = Inr (True, False, True, complete d' r STATUS_SUCCESS (of_nat (length x))) \<and>
      stream_held d' f con peer ev (r, n) rs ms \<and> quiet (set_rbuf d r (rbuf (reqs d' r))) d' \<and> take (length x) (rbuf (reqs d' r)) = x"
    using d'(3) by (auto simp: overwrite_def)
qed

section \<open>Cancelling the writes of a stream\<close>

lemma read_ok_core:
  assumes "map_option core (irps (qd d') (fst p)) = map_option core (irps (qd d) (fst p))" and "reqs d' (fst p) = reqs d (fst p)"
    and "read_ok d p"
  shows "read_ok d' p"
  using assms by (cases p) (auto simp: read_ok_def core_def map_option_case split: option.splits)

abbreviation (input) file_writes :: "nat \<Rightarrow> XENV4V_QPEEK" where
  "file_writes f \<equiv> \<lparr>pfo = Some f, types = XENV4V_PEEK_ANY_TYPE, ops = XENV4V_PEEK_WRITE, pdst = \<lparr>port = 0, domain = 0\<rparr>\<rparr>"

lemma cancel_step:
  assumes ok: "queue_ok pde" and q: "filter (matches (file_writes f) pde) (pendingIrpQueue pde) = j # js"
  shows "\<exists>pde1. IoCsqRemoveNextIrp pde (file_writes f) = Inr (Some j, pde1) \<and>
    queue_ok (V4vSimpleCompleteIrp pde1 j STATUS_CANCELLED) \<and>
    pendingIrpQueue (V4vSimpleCompleteIrp pde1 j STATUS_CANCELLED) = remove1 j (pendingIrpQueue pde) \<and>
    completed (V4vSimpleCompleteIrp pde1 j STATUS_CANCELLED) = (j, STATUS_CANCELLED, 0) # completed pde \<and>
    sdst (V4vSimpleCompleteIrp pde1 j STATUS_CANCELLED) = sdst pde \<and>
    (\<forall>i. i \<noteq> j \<longrightarrow> map_option core (irps (V4vSimpleCompleteIrp pde1 j STATUS_CANCELLED) i) = map_option core (irps pde i))"
proof -
  have "V4vCsqPeekNextIrp pde None (Some (file_writes f)) = Inr (find (matches (file_writes f) pde) (pendingIrpQueue pde))"
    using ok by (auto simp: V4vCsqPeekNextIrp_def queue_ok_def peek_safe_def intro!: Peek_loop_spec)
  then have p: "V4vCsqPeekNextIrp pde None (Some (file_writes f)) = Inr (Some j)" using q by (simp add: find_filter)
  have m: "j \<in> set (pendingIrpQueue pde)" using arg_cong [OF q, of set] by auto
  obtain pde1 where r: "V4vCsqRemoveIrp pde j = Inr pde1" "queue_ok pde1" "pendingIrpQueue pde1 = remove1 j (pendingIrpQueue pde)"
    "completed pde1 = completed pde" "sdst pde1 = sdst pde"
    "\<forall>i. i \<noteq> j \<longrightarrow> map_option core (irps pde1 i) = map_option core (irps pde i)"
    using V4vCsqRemoveIrp_spec [OF ok m] by blast
  have "j \<notin> set (pendingIrpQueue pde1)" using ok r(3) by (simp add: queue_ok_def)
  then have "queue_ok (V4vSimpleCompleteIrp pde1 j STATUS_CANCELLED)" using queue_ok_complete [OF r(2)] by blast
  then show ?thesis using p r by (intro exI [of _ pde1]) (simp add: IoCsqRemoveNextIrp_def V4vSimpleCompleteIrp_def V4vCompleteIrp_def)
qed

lemma V4vCancelAllFileIrps_spec:
  assumes "queue_ok pde"
  shows "\<exists>q ws. V4vCancelAllFileIrps pde f = Inr q \<and> queue_ok q \<and> sdst q = sdst pde \<and>
    pendingIrpQueue q = filter (\<lambda>j. \<not> matches (file_writes f) pde j) (pendingIrpQueue pde) \<and>
    completed q = ws @ completed pde \<and> (\<forall>w \<in> set ws. fst (snd w) = STATUS_CANCELLED) \<and>
    (\<forall>j. \<not> matches (file_writes f) pde j \<longrightarrow> map_option core (irps q j) = map_option core (irps pde j))"
  using assms
proof (induction "filter (matches (file_writes f) pde) (pendingIrpQueue pde)" arbitrary: pde)
  case Nil
  then have "IoCsqRemoveNextIrp pde (file_writes f) = Inr (None, pde)"
    using csq.next_none [of pde "file_writes f"] by (simp add: peek_safe_def)
  then have "V4vCancelAllFileIrps pde f = Inr pde" by (simp add: V4vCancelAllFileIrps.simps)
  moreover have "filter (\<lambda>j. \<not> matches (file_writes f) pde j) (pendingIrpQueue pde) = pendingIrpQueue pde"
    using Nil(1) [symmetric] by (auto simp: filter_empty_conv intro!: filter_True)
  ultimately show ?case using Nil(2) by (auto intro!: exI [of _ "[]"])
next
  case (Cons j js)
  obtain pde1 where s: "IoCsqRemoveNextIrp pde (file_writes f) = Inr (Some j, pde1)"
    and ok: "queue_ok (V4vSimpleCompleteIrp pde1 j STATUS_CANCELLED)"
    and q: "pendingIrpQueue (V4vSimpleCompleteIrp pde1 j STATUS_CANCELLED) = remove1 j (pendingIrpQueue pde)"
    and c: "completed (V4vSimpleCompleteIrp pde1 j STATUS_CANCELLED) = (j, STATUS_CANCELLED, 0) # completed pde"
    and sd: "sdst (V4vSimpleCompleteIrp pde1 j STATUS_CANCELLED) = sdst pde"
    and k: "\<And>i. i \<noteq> j \<Longrightarrow> map_option core (irps (V4vSimpleCompleteIrp pde1 j STATUS_CANCELLED) i) = map_option core (irps pde i)"
    using cancel_step [OF Cons.prems Cons.hyps(2) [symmetric]] by blast
  define p2 where "p2 = V4vSimpleCompleteIrp pde1 j STATUS_CANCELLED"
  have d: "distinct (pendingIrpQueue pde)" using Cons.prems by (simp add: queue_ok_def)
  have mj: "matches (file_writes f) pde j" using Cons.hyps(2) by (metis filter_eq_ConsD)
  have m: "matches (file_writes f) p2 i = matches (file_writes f) pde i" if "i \<noteq> j" for i
    unfolding p2_def by (rule same_irps_matches [OF k [OF that]])
  have ni: "i \<noteq> j" if "i \<in> set (remove1 j (pendingIrpQueue pde))" for i using that d by auto
  have g: "filter (matches (file_writes f) p2) (pendingIrpQueue p2) = js"
  proof -
    have "filter (matches (file_writes f) p2) (remove1 j (pendingIrpQueue pde)) = filter (matches (file_writes f) pde) (remove1 j (pendingIrpQueue pde))"
      using m ni by (intro filter_cong refl) metis
    also have "\<dots> = remove1 j (filter (matches (file_writes f) pde) (pendingIrpQueue pde))" using remove1_filter [OF d] by simp
    finally show ?thesis using Cons.hyps(2) [symmetric] q by (simp add: p2_def)
  qed
  have n: "filter (\<lambda>i. \<not> matches (file_writes f) p2 i) (pendingIrpQueue p2) = filter (\<lambda>i. \<not> matches (file_writes f) pde i) (pendingIrpQueue pde)"
  proof -
    have "filter (\<lambda>i. \<not> matches (file_writes f) p2 i) (remove1 j (pendingIrpQueue pde)) = filter (\<lambda>i. \<not> matches (file_writes f) pde i) (remove1 j (pendingIrpQueue pde))"
      using m ni by (intro filter_cong refl) metis
    also have "\<dots> = remove1 j (filter (\<lambda>i. \<not> matches (file_writes f) pde i) (pendingIrpQueue pde))" using remove1_filter [OF d] by simp
    also have "\<dots> = filter (\<lambda>i. \<not> matches (file_writes f) pde i) (pendingIrpQueue pde)" using mj by (simp add: remove1_idem)
    finally show ?thesis using q by (simp add: p2_def)
  qed
  obtain r ws where ih: "V4vCancelAllFileIrps p2 f = Inr r" "queue_ok r" "sdst r = sdst p2"
    "pendingIrpQueue r = filter (\<lambda>i. \<not> matches (file_writes f) p2 i) (pendingIrpQueue p2)"
    "completed r = ws @ completed p2" "\<forall>w \<in> set ws. fst (snd w) = STATUS_CANCELLED"
    "\<forall>i. \<not> matches (file_writes f) p2 i \<longrightarrow> map_option core (irps r i) = map_option core (irps p2 i)"
    using Cons.hyps(1) [OF g [symmetric]] ok by (auto simp: p2_def)
  have "V4vCancelAllFileIrps pde f = Inr r" using s ih(1) by (simp add: V4vCancelAllFileIrps.simps [of pde] p2_def)
  moreover have "map_option core (irps r i) = map_option core (irps pde i)" if "\<not> matches (file_writes f) pde i" for i
  proof -
    have "i \<noteq> j" using that mj by metis
    then show ?thesis using ih(7) that m [of i] k [of i] by (simp add: p2_def)
  qed
  ultimately show ?case
    using ih(2-6) n c sd by (intro exI [of _ r] exI [of _ "ws @ [(j, STATUS_CANCELLED, 0)]"]) (auto simp: p2_def)
qed

section \<open>The reset of the peer\<close>

lemma file_writes_flags: "matches (file_writes f) q j \<Longrightarrow> irps q j = Some i \<Longrightarrow> has (flags i) XENV4V_PEEK_WRITE"
  using has_write_op [of "flags i"] by (auto simp: matches_def V4vCsqPeekTest_def split: if_splits)

lemma stream_disconnect:
  assumes h: "stream_held d f con peer ev p rs ms"
  shows "\<exists>d' ws. V4vDisconnectStreamAndSignal d f = Inr d' \<and> stream_held d' f con peer ev p rs ms \<and>
    completed (qd d') = ws @ completed (qd d) \<and> (\<forall>w \<in> set ws. fst (snd w) = STATUS_CANCELLED) \<and> reqs d' = reqs d \<and>
    events d' ev \<and> (\<exists>c. ctxs d' f = Some c \<and> cstate c = STATE_DISCONNECTED)"
proof -
  have ok: "queue_ok (qd d)" and rd_ok: "\<And>x. x \<in> set (p # rs) \<Longrightarrow> read_ok d x"
    and np: "fst p \<notin> set (queue d)" and l: "length (queue d) < 65536"
    and mp: "matches (stream_reads f) (qd d) (fst p)"
    and fl: "filter (matches (stream_reads f) (qd d)) (queue d) = map fst rs"
    using h by (auto simp: stream_held_def stream_ok_def)
  obtain c where c: "ctxs d f = Some c" "kevReceive c = Some ev" "ucast (connId c) = con" "cstate c \<notin> {STATE_CONNECTING, STATE_ACCEPTED}"
    using h by (auto simp: stream_held_def stream_ok_def)
  obtain rg where rg: "the_ring d f = Inr rg" "holds rg ms" using h by (auto simp: stream_held_def stream_ok_def)
  obtain q ws where q: "V4vCancelAllFileIrps (qd d) f = Inr q" "queue_ok q" "sdst q = sdst (qd d)"
    "pendingIrpQueue q = filter (\<lambda>j. \<not> matches (file_writes f) (qd d) j) (queue d)"
    "completed q = ws @ completed (qd d)" "\<forall>w \<in> set ws. fst (snd w) = STATUS_CANCELLED"
    "\<And>j. \<not> matches (file_writes f) (qd d) j \<Longrightarrow> map_option core (irps q j) = map_option core (irps (qd d) j)"
    using V4vCancelAllFileIrps_spec [OF ok, of f] by blast
  let ?c = "c\<lparr>cstate := STATE_DISCONNECTED\<rparr>"
  define d' where "d' = (set_ctx d f ?c)\<lparr>qd := q, events := (events d)(ev := True)\<rparr>"
  have "V4vDisconnectStreamAndSignal d f = Inr d'"
    using c q(1)
    by (simp add: V4vDisconnectStreamAndSignal_def with_ctx_def set_state_def cancel_file_def put_event_def set_ctx_def d'_def)
  have plain: "\<not> matches (file_writes f) (qd d) (fst x)" if "x \<in> set (p # rs)" for x
    using file_writes_flags [of f "qd d" "fst x"] rd_ok [OF that] by (cases x) (auto simp: read_ok_def)
  have rk: "read_ok d' x" if "x \<in> set (p # rs)" for x
    using read_ok_core [of d' x d] q(7) [OF plain [OF that]] rd_ok [OF that] by (simp add: d'_def set_ctx_def)
  have mm: "matches (stream_reads f) q j = matches (stream_reads f) (qd d) j" if "\<not> matches (file_writes f) (qd d) j" for j
    by (rule same_irps_matches [OF q(7) [OF that]])
  have "filter (matches (stream_reads f) q) (pendingIrpQueue q) =
      filter (matches (stream_reads f) (qd d)) (filter (\<lambda>j. \<not> matches (file_writes f) (qd d) j) (queue d))"
    unfolding q(4) using mm by (intro filter_cong refl) auto
  also have "\<dots> = filter (\<lambda>j. \<not> matches (file_writes f) (qd d) j) (filter (matches (stream_reads f) (qd d)) (queue d))"
    by (simp add: conj_commute)
  also have "\<dots> = map fst rs" unfolding fl using plain by (intro filter_True) auto
  finally have fq: "filter (matches (stream_reads f) q) (pendingIrpQueue q) = map fst rs" .
  have ring: "the_ring d' f = Inr rg"
    using rg(1) c(1) by (auto simp: the_ring_def with_ctx_def d'_def set_ctx_def split: option.splits)
  have "stream_ok d' f con peer ev rs ms"
    using h rk fq q(2,3) c ring rg(2) by (auto simp: stream_held_def stream_ok_def d'_def set_ctx_def)
  moreover have "matches (stream_reads f) (qd d') (fst p)" using mm [OF plain [of p]] mp by (simp add: d'_def)
  moreover have "fst p \<notin> set (queue d')" "length (queue d') < 65536"
    using np l q(4) by (auto simp: d'_def intro: le_less_trans [OF length_filter_le])
  ultimately have "stream_held d' f con peer ev p rs ms" using rk [of p] by (simp add: stream_held_def)
  then show ?thesis
    using \<open>V4vDisconnectStreamAndSignal d f = Inr d'\<close> q(5,6) by (auto simp: d'_def set_ctx_def)
qed

lemma Connector_one_bye:
  assumes h: "stream_held d f con peer ev (r, n) rs (m # ms)" and k: "kind con peer m = Bye"
  shows "\<exists>d' ws. Connector_one E d f r retain = Inr (False, False, False, d') \<and> stream_ok d' f con peer ev rs (m # ms) \<and>
    completed (qd d') = (r, STATUS_VIRTUAL_CIRCUIT_CLOSED, 0) # ws @ completed (qd d) \<and>
    (\<forall>w \<in> set ws. fst (snd w) = STATUS_CANCELLED) \<and> reqs d' = reqs d \<and> events d' ev \<and>
    (\<exists>c. ctxs d' f = Some c \<and> cstate c = STATE_DISCONNECTED)"
proof -
  obtain c i rg where c: "ctxs d f = Some c" "ucast (connId c) = con" "domain (sdst (qd d) f) = peer"
    and i: "irps (qd d) r = Some i" "flags i = XENV4V_PEEK_STREAM OR XENV4V_PEEK_READ"
    and rg: "the_ring d f = Inr rg" "holds rg (m # ms)"
    using h by (auto simp: stream_held_def stream_ok_def read_ok_def)
  define sh where "sh = overwrite (replicate 8 0) (take 8 (m_data m))"
  have x: "v4v_copy_out rg (Some (replicate 8 0)) 8 False =
      Inr (of_nat (length (m_data m)), Some (m_source m, m_protocol m), Some sh, rg)"
    using v4v_copy_out_next [OF rg(2), of 8 "replicate 8 0" False] by (auto simp: sh_def)
  have sh: "8 \<le> length (m_data m) \<Longrightarrow> sh = take 8 (m_data m)" by (simp add: sh_def overwrite_def)
  have kk: "has (sh_flags sh) V4V_SHF_RST" using k sh by (auto simp: kind_def Let_def split: if_splits)
  have F: "Connector_filter E d f rg (of_nat (length (m_data m))) sh (m_source m) (m_protocol m) = Inr None"
    using Connector_filter_spec(2) [OF rg c(1) sh, of E] k c by auto
  obtain d1 ws where d1: "V4vDisconnectStreamAndSignal d f = Inr d1" "stream_held d1 f con peer ev (r, n) rs (m # ms)"
    "completed (qd d1) = ws @ completed (qd d)" "\<forall>w \<in> set ws. fst (snd w) = STATUS_CANCELLED" "reqs d1 = reqs d"
    "events d1 ev" "\<exists>c. ctxs d1 f = Some c \<and> cstate c = STATE_DISCONNECTED"
    using stream_disconnect [OF h] by blast
  let ?d = "complete d1 r STATUS_VIRTUAL_CIRCUIT_CLOSED 0"
  have "Connector_one E d f r retain = Inr (False, False, False, ?d)"
    using i rg(1) x F kk d1(1) word_length(2) [OF holds_length [OF rg(2)]]
    by (simp add: Connector_one_def Connector_deliver_def disconnect_and_fail_def)
  moreover have "stream_ok ?d f con peer ev rs (m # ms)"
    "completed (qd ?d) = (r, STATUS_VIRTUAL_CIRCUIT_CLOSED, 0) # completed (qd d1)"
    using stream_complete [OF d1(2), of STATUS_VIRTUAL_CIRCUIT_CLOSED 0] by simp_all
  moreover have "reqs ?d = reqs d" "events ?d ev" "ctxs ?d = ctxs d1" using d1(5,6) by (simp_all add: complete_def)
  ultimately show ?thesis using d1(3,4,7) by auto
qed

section \<open>The loop refines the specification\<close>

definition at_reads :: "v4v_dev \<Rightarrow> nat \<Rightarrow> u32 \<Rightarrow> u16 \<Rightarrow> nat \<Rightarrow> bool \<Rightarrow> nat \<Rightarrow> (nat \<times> nat) list \<Rightarrow> v4v_message list \<Rightarrow> bool" where
  "at_reads d f con peer ev retain irp rs ms \<longleftrightarrow>
     (if retain then rs \<noteq> [] \<and> irp = fst (hd rs) \<and> stream_held d f con peer ev (hd rs) (tl rs) ms
      else stream_ok d f con peer ev rs ms)"

text \<open>How the device after serving a stream relates to the device before, given the result of the specification.\<close>

definition served :: "v4v_dev \<Rightarrow> nat \<Rightarrow> u32 \<Rightarrow> u16 \<Rightarrow> nat \<Rightarrow> (nat \<times> nat) list \<Rightarrow>
    (nat \<times> NTSTATUS \<times> u8 list) list \<times> nat option \<times> (nat \<times> nat) list \<times> v4v_message list \<Rightarrow> v4v_dev \<Rightarrow> bool" where
  "served d f con peer ev rs spec d' \<longleftrightarrow>
     (case spec of (os, b, rs', ms') \<Rightarrow>
        stream_ok d' f con peer ev rs' ms' \<and>
        (\<exists>ws. completed (qd d') =
           (case b of None \<Rightarrow> [] | Some r \<Rightarrow> (r, STATUS_VIRTUAL_CIRCUIT_CLOSED, 0) # ws) @ rev (map done_read os) @ completed (qd d) \<and>
           (\<forall>w \<in> set ws. fst (snd w) = STATUS_CANCELLED)) \<and>
        (\<forall>(r, st, x) \<in> set os. take (length x) (rbuf (reqs d' r)) = x) \<and>
        (\<forall>j. j \<notin> fst ` set rs \<longrightarrow> reqs d' j = reqs d j) \<and>
        events d' ev = (ms' \<noteq> []) \<and>
        (b \<noteq> None \<longrightarrow> (\<exists>c. ctxs d' f = Some c \<and> cstate c = STATE_DISCONNECTED)))"

lemma put_event_spec:
  assumes "stream_ok d f con peer ev rs ms"
  shows "\<exists>d'. put_event d f b = Inr d' \<and> stream_ok d' f con peer ev rs ms \<and> completed (qd d') = completed (qd d) \<and>
    reqs d' = reqs d \<and> events d' ev = b"
proof -
  obtain c where "ctxs d f = Some c" "kevReceive c = Some ev" using assms by (auto simp: stream_ok_def)
  then have "put_event d f b = Inr (d\<lparr>events := (events d)(ev := b)\<rparr>)" by (simp add: put_event_def with_ctx_def)
  moreover have "stream_ok (d\<lparr>events := (events d)(ev := b)\<rparr>) f con peer ev rs ms"
    using assms read_ok_cong [of "d\<lparr>events := (events d)(ev := b)\<rparr>" _ d]
    by (auto simp: stream_ok_def the_ring_def with_ctx_def split: option.splits)
  ultimately show ?thesis by auto
qed

text \<open>The end of the loop when the ring is empty.\<close>

lemma ConnectorReads_loop_empty:
  assumes "at_reads d f con peer ev retain irp rs []"
  shows "\<exists>b d'. ConnectorReads_loop (Suc k) E d f retain irp ntfy = Inr (b, d') \<and> served d f con peer ev rs ([], None, rs, []) d'"
proof -
  have "\<exists>d1. (if retain then res_bind (insert_irp E d irp True) (\<lambda>(status, d). Inr (if NT_SUCCESS status then d else complete d irp status 0))
              else Inr d) = Inr d1 \<and> stream_ok d1 f con peer ev rs [] \<and> completed (qd d1) = completed (qd d) \<and> reqs d1 = reqs d"
  proof (cases retain)
    case True
    then have r: "rs = hd rs # tl rs" "irp = fst (hd rs)" "stream_held d f con peer ev (hd rs) (tl rs) []"
      using assms by (auto simp: at_reads_def)
    then show ?thesis using stream_back [OF r(3), of E] True by (auto simp: NT_SUCCESS_def)
  qed (use assms in \<open>simp add: at_reads_def\<close>)
  then obtain d1 where d1: "(if retain then res_bind (insert_irp E d irp True) (\<lambda>(status, d). Inr (if NT_SUCCESS status then d else complete d irp status 0))
              else Inr d) = Inr d1" "stream_ok d1 f con peer ev rs []" "completed (qd d1) = completed (qd d)" "reqs d1 = reqs d"
    by blast
  obtain d2 where d2: "put_event d1 f False = Inr d2" "stream_ok d2 f con peer ev rs []" "completed (qd d2) = completed (qd d1)"
    "reqs d2 = reqs d1" "\<not> events d2 ev"
    using put_event_spec [OF d1(2), of False] by auto
  obtain rg where "the_ring d f = Inr rg" "holds rg []"
    using assms by (auto simp: at_reads_def stream_held_def stream_ok_def split: if_splits)
  then have "ConnectorReads_loop (Suc k) E d f retain irp ntfy = Inr (ntfy \<or> retain, d2)"
    using d1(1) d2(1) holds_empty_iff [of rg "[]"] by simp
  moreover have "served d f con peer ev rs ([], None, rs, []) d2"
    using d1 d2 by (auto simp: served_def intro: exI [of _ "[]"])
  ultimately show ?thesis by blast
qed

text \<open>The request the loop works on, whether it was kept or is taken now.\<close>

lemma ConnectorReads_loop_take:
  assumes "at_reads d f con peer ev retain irp (p # rs) (m # ms)"
  shows "\<exists>d1. stream_held d1 f con peer ev p rs (m # ms) \<and> completed (qd d1) = completed (qd d) \<and> reqs d1 = reqs d \<and>
    ConnectorReads_loop (Suc k) E d f retain irp ntfy =
      res_bind (Connector_one E d1 f (fst p) retain) (\<lambda>(go, retain', took, d).
        if go then ConnectorReads_loop k E d f retain' (fst p) (ntfy \<or> retain \<or> took) else Inr (ntfy \<or> retain \<or> took, d))"
proof -
  obtain rg where "the_ring d f = Inr rg" "holds rg (m # ms)"
    using assms by (auto simp: at_reads_def stream_held_def stream_ok_def split: if_splits)
  then have rg: "the_ring d f = Inr rg" "rx_ptr rg \<noteq> tx_ptr rg" using holds_empty_iff by fastforce+
  show ?thesis
  proof (cases retain)
    case True
    then have "stream_held d f con peer ev p rs (m # ms)" "irp = fst p" using assms by (simp_all add: at_reads_def)
    then show ?thesis using rg unfolding eqTrueI [OF True] by (intro exI [of _ d]) simp
  next
    case False
    then have ret: "retain = False" by simp
    with False have "stream_ok d f con peer ev (p # rs) (m # ms)" using assms by (simp add: at_reads_def)
    from stream_take [OF this] obtain d1 where "remove_irp d (stream_reads f) = Inr (Some (fst p), d1)"
      "stream_held d1 f con peer ev p rs (m # ms)" "completed (qd d1) = completed (qd d)" "reqs d1 = reqs d"
      by blast
    then show ?thesis using rg unfolding ret by (intro exI [of _ d1]) simp
  qed
qed

declare ConnectorReads_loop.simps(2) [simp del]

lemma held_not_in: "stream_held d f con peer ev p rs ms \<Longrightarrow> fst p \<notin> fst ` set rs"
  using matching_fst [of d f con peer ev rs ms] by (auto simp: stream_held_def)

lemma served_step:
  assumes "served d1 f con peer ev rs (os, b, rs', ms') d'"
    and "completed (qd d1) = done_read (r, st, x) # completed (qd d)" and "take (length x) (rbuf (reqs d1 r)) = x"
    and "\<And>j. j \<noteq> r \<Longrightarrow> reqs d1 j = reqs d j" and "r \<notin> fst ` set rs"
  shows "served d f con peer ev ((r, n) # rs) ((r, st, x) # os, b, rs', ms') d'"
proof -
  have "take (length x) (rbuf (reqs d' r)) = x" using assms(1,3,5) by (simp add: served_def)
  then show ?thesis using assms(1,2,4) by (simp add: served_def)
qed

lemma ConnectorReads_loop_refines:
  assumes "at_reads d f con peer ev retain irp rs ms" and "length ms + length rs < k"
  shows "\<exists>b d'. ConnectorReads_loop k E d f retain irp ntfy = Inr (b, d') \<and>
    served d f con peer ev rs (stream_spec (kind con peer) rs ms) d'"
  using assms
proof (induction k arbitrary: d retain irp rs ms ntfy)
  case (Suc k)
  show ?case
  proof (cases ms)
    case Nil
    then show ?thesis using ConnectorReads_loop_empty [of d f con peer ev retain irp rs] Suc.prems(1) by simp
  next
    case (Cons m ms0)
    show ?thesis
    proof (cases rs)
      case Nil
      then have ok: "stream_ok d f con peer ev [] (m # ms0)" "\<not> retain"
        using Suc.prems(1) Cons by (auto simp: at_reads_def split: if_splits)
      then obtain rg where "the_ring d f = Inr rg" "rx_ptr rg \<noteq> tx_ptr rg"
        using holds_empty_iff by (fastforce simp: stream_ok_def)
      moreover have "remove_irp d (stream_reads f) = Inr (None, d)"
        using ok(1) by (intro remove_irp_no_match) (simp_all add: stream_ok_def)
      moreover obtain d' where "put_event d f True = Inr d'" "stream_ok d' f con peer ev [] (m # ms0)"
        "completed (qd d') = completed (qd d)" "reqs d' = reqs d" "events d' ev"
        using put_event_spec [OF ok(1), of True] by auto
      ultimately show ?thesis using Nil Cons ok(2)
        by (auto simp: served_def ConnectorReads_loop.simps(2) intro: exI [of _ "[]"])
    next
      case rs: (Cons p rs0)
      obtain r n where p: "p = (r, n)" by (cases p)
      obtain d1 where d1: "stream_held d1 f con peer ev (r, n) rs0 (m # ms0)" "completed (qd d1) = completed (qd d)" "reqs d1 = reqs d"
        and loop: "ConnectorReads_loop (Suc k) E d f retain irp ntfy =
          res_bind (Connector_one E d1 f r retain) (\<lambda>(go, retain', took, d).
            if go then ConnectorReads_loop k E d f retain' r (ntfy \<or> retain \<or> took) else Inr (ntfy \<or> retain \<or> took, d))"
        using ConnectorReads_loop_take [of d f con peer ev retain irp "(r, n)" rs0 m ms0 k E ntfy] Suc.prems(1) Cons rs p
        unfolding fst_conv by blast
      have nr: "r \<notin> fst ` set rs0" using held_not_in [OF d1(1)] by simp
      show ?thesis
      proof (cases "kind con peer m")
        case Junk
        obtain d2 where d2: "Connector_one E d1 f r retain = Inr (True, True, False, d2)"
          "stream_held d2 f con peer ev (r, n) rs0 ms0" "quiet d1 d2"
          using Connector_one_junk [OF d1(1) Junk] by blast
        have "at_reads d2 f con peer ev True r ((r, n) # rs0) ms0" using d2(2) by (simp add: at_reads_def)
        then obtain b d' where "ConnectorReads_loop k E d2 f True r (ntfy \<or> retain) = Inr (b, d')"
          "served d2 f con peer ev ((r, n) # rs0) (stream_spec (kind con peer) ((r, n) # rs0) ms0) d'"
          using Suc.IH [of d2 True r "(r, n) # rs0" ms0 "ntfy \<or> retain"] Suc.prems(2) Cons rs by auto
        then show ?thesis using loop d2 d1(2,3) Cons rs p Junk by (auto simp: served_def quiet_def)
      next
        case Bye
        obtain d2 ws where d2: "Connector_one E d1 f r retain = Inr (False, False, False, d2)"
          "stream_ok d2 f con peer ev rs0 (m # ms0)"
          "completed (qd d2) = (r, STATUS_VIRTUAL_CIRCUIT_CLOSED, 0) # ws @ completed (qd d1)"
          "\<forall>w \<in> set ws. fst (snd w) = STATUS_CANCELLED" "reqs d2 = reqs d1" "events d2 ev"
          "\<exists>c. ctxs d2 f = Some c \<and> cstate c = STATE_DISCONNECTED"
          using Connector_one_bye [OF d1(1) Bye] by blast
        have "served d f con peer ev rs ([], Some r, rs0, m # ms0) d2"
          using d2 d1(2,3) by (auto simp: served_def intro: exI [of _ ws])
        then show ?thesis using loop d2(1) Cons rs p Bye by simp
      next
        case (Data x)
        show ?thesis
        proof (cases "n < length x")
          case True
          let ?d2 = "complete d1 r STATUS_BUFFER_OVERFLOW 0"
          have one: "Connector_one E d1 f r retain = Inr (True, False, False, ?d2)" using Connector_one_data(1) [OF d1(1) Data True] .
          have c2: "stream_ok ?d2 f con peer ev rs0 (m # ms0)"
            "completed (qd ?d2) = done_read (r, STATUS_BUFFER_OVERFLOW, []) # completed (qd d)"
            using stream_complete [OF d1(1), of STATUS_BUFFER_OVERFLOW 0] d1(2) by (simp_all add: done_read_def)
          obtain os b rs' ms' where sp: "stream_spec (kind con peer) rs0 (m # ms0) = (os, b, rs', ms')"
            using prod_cases4 by blast
          obtain c d' where d': "ConnectorReads_loop k E ?d2 f False r (ntfy \<or> retain) = Inr (c, d')"
            "served ?d2 f con peer ev rs0 (os, b, rs', ms') d'"
            using Suc.IH [of ?d2 False r rs0 "m # ms0" "ntfy \<or> retain"] c2(1) Suc.prems(2) Cons rs sp by (auto simp: at_reads_def)
          have "reqs ?d2 j = reqs d j" for j using d1(3) by (simp add: complete_def)
          then have "served d f con peer ev ((r, n) # rs0) ((r, STATUS_BUFFER_OVERFLOW, []) # os, b, rs', ms') d'"
            using served_step [OF d'(2) c2(2) _ _ nr] by simp
          then show ?thesis using loop one d'(1) sp Cons rs p Data True by simp
        next
          case False
          obtain d2 where one: "Connector_one E d1 f r retain = Inr (True, False, True, complete d2 r STATUS_SUCCESS (of_nat (length x)))"
            and h2: "stream_held d2 f con peer ev (r, n) rs0 ms0" and q2: "quiet (set_rbuf d1 r (rbuf (reqs d2 r))) d2"
            and x: "take (length x) (rbuf (reqs d2 r)) = x"
            using Connector_one_data(2) [OF d1(1) Data False] by blast
          let ?d3 = "complete d2 r STATUS_SUCCESS (of_nat (length x))"
          have "completed (qd d2) = completed (qd d)" using q2 d1(2) by (simp add: quiet_def set_rbuf_def)
          then have c3: "stream_ok ?d3 f con peer ev rs0 ms0" "completed (qd ?d3) = done_read (r, STATUS_SUCCESS, x) # completed (qd d)"
            using stream_complete [OF h2, of STATUS_SUCCESS "of_nat (length x)"] by (simp_all add: done_read_def)
          obtain os b rs' ms' where sp: "stream_spec (kind con peer) rs0 ms0 = (os, b, rs', ms')"
            using prod_cases4 by blast
          obtain c d' where d': "ConnectorReads_loop k E ?d3 f False r True = Inr (c, d')"
            "served ?d3 f con peer ev rs0 (os, b, rs', ms') d'"
            using Suc.IH [of ?d3 False r rs0 ms0 True] c3(1) Suc.prems(2) Cons rs sp by (auto simp: at_reads_def)
          have rq: "reqs ?d3 = reqs d2" by (simp add: complete_def)
          have "reqs d2 j = reqs d j" if "j \<noteq> r" for j
          proof -
            have "reqs d2 j = reqs (set_rbuf d1 r (rbuf (reqs d2 r))) j" using q2 unfolding quiet_def by metis
            then show ?thesis using that d1(3) by (simp add: set_rbuf_def)
          qed
          then have "served d f con peer ev ((r, n) # rs0) ((r, STATUS_SUCCESS, x) # os, b, rs', ms') d'"
            using served_step [OF d'(2) c3(2) _ _ nr] x unfolding rq by blast
          then show ?thesis using loop one d'(1) sp Cons rs p Data False by simp
        qed
      qed
    qed
  qed
qed simp

section \<open>Accepted streams\<close>

text \<open>The data of an accepted stream waits in a queue of its own; an entry is as long as \<open>d_length\<close> says.\<close>

definition entry :: "XENV4V_DATA \<Rightarrow> u8 list" where
  "entry pd = take (unat (d_length pd)) (d_data pd)"

definition entry_full :: "XENV4V_DATA \<Rightarrow> bool" where
  "entry_full pd \<longleftrightarrow> unat (d_length pd) \<le> length (d_data pd)"

text \<open>The tail pointer is the address of the last entry; addresses come from the clock.\<close>

definition tail_ok :: "nat \<Rightarrow> accepter \<Rightarrow> bool" where
  "tail_ok k a \<longleftrightarrow> distinct (map d_addr (dataList a)) \<and> (\<forall>pd \<in> set (dataList a). d_addr pd < k) \<and>
     (dataList a \<noteq> [] \<longrightarrow> dataTail a = Some (d_addr (last (dataList a))))"

definition accepter_ok :: "v4v_dev \<Rightarrow> nat \<Rightarrow> nat \<Rightarrow> (nat \<times> nat) list \<Rightarrow> u8 list list \<Rightarrow> bool" where
  "accepter_ok d g ev rs xs \<longleftrightarrow> reads_ok d g rs \<and>
     (\<exists>c a. ctxs d g = Some c \<and> kevReceive c = Some ev \<and> cu c = Accepter a \<and>
        xs = map entry (dataList a) \<and> (\<forall>pd \<in> set (dataList a). entry_full pd) \<and> tail_ok (clock d) a)"

definition accepter_result :: "v4v_dev \<Rightarrow> nat \<Rightarrow> nat \<Rightarrow> (nat \<times> nat) list \<Rightarrow>
    (nat \<times> NTSTATUS \<times> u8 list) list \<times> nat option \<times> (nat \<times> nat) list \<times> u8 list list \<Rightarrow> v4v_dev \<Rightarrow> bool" where
  "accepter_result d g ev rs spec d' \<longleftrightarrow>
     (case spec of (os, b, rs', xs') \<Rightarrow>
        accepter_ok d' g ev rs' xs' \<and> completed (qd d') = rev (map done_read os) @ completed (qd d) \<and>
        (\<forall>(r, st, x) \<in> set os. take (length x) (rbuf (reqs d' r)) = x) \<and>
        (\<forall>j. j \<notin> fst ` set rs \<longrightarrow> reqs d' j = reqs d j))"

definition accepter_served :: "v4v_dev \<Rightarrow> nat \<Rightarrow> nat \<Rightarrow> (nat \<times> nat) list \<Rightarrow>
    (nat \<times> NTSTATUS \<times> u8 list) list \<times> nat option \<times> (nat \<times> nat) list \<times> u8 list list \<Rightarrow> v4v_dev \<Rightarrow> bool" where
  "accepter_served d g ev rs spec d' \<longleftrightarrow> accepter_result d g ev rs spec d' \<and> the_ring d' g = the_ring d g"

lemma accepter_served_step:
  assumes "accepter_served d1 g ev rs (os, b, rs', xs') d'"
    and "completed (qd d1) = done_read (r, st, x) # completed (qd d)" and "take (length x) (rbuf (reqs d1 r)) = x"
    and "\<And>j. j \<noteq> r \<Longrightarrow> reqs d1 j = reqs d j" and "r \<notin> fst ` set rs" and "the_ring d1 g = the_ring d g"
  shows "accepter_served d g ev ((r, n) # rs) ((r, st, x) # os, b, rs', xs') d'"
proof -
  have "take (length x) (rbuf (reqs d' r)) = x" using assms(1,3,5) by (simp add: accepter_served_def accepter_result_def)
  then show ?thesis using assms(1,2,4,6) by (simp add: accepter_served_def accepter_result_def)
qed

lemma accepter_event:
  assumes "accepter_ok d g ev rs xs"
  shows "\<exists>d'. put_event d g b = Inr d' \<and> accepter_served d g ev rs ([], None, rs, xs) d' \<and> events d' ev = b"
proof -
  obtain c where "ctxs d g = Some c" "kevReceive c = Some ev" using assms by (auto simp: accepter_ok_def)
  then have "put_event d g b = Inr (d\<lparr>events := (events d)(ev := b)\<rparr>)" by (simp add: put_event_def with_ctx_def)
  moreover have "accepter_ok (d\<lparr>events := (events d)(ev := b)\<rparr>) g ev rs xs"
    using assms read_ok_cong [of "d\<lparr>events := (events d)(ev := b)\<rparr>" _ d] by (auto simp: accepter_ok_def reads_ok_def)
  moreover have "the_ring (d\<lparr>events := (events d)(ev := b)\<rparr>) g = the_ring d g" by (intro the_ring_cong) simp_all
  ultimately show ?thesis by (simp add: accepter_served_def accepter_result_def)
qed

text \<open>One read against the first entry.\<close>

lemma Accepter_one_spec:
  assumes d: "reads_ok d g rs" "read_ok d (r, n)" "r \<notin> set (queue d)"
    and c: "ctxs d g = Some c" "kevReceive c = Some ev" "cu c = Accepter a" "dataList a = pd # pds"
    and full: "\<forall>pd \<in> set (dataList a). entry_full pd" and tl: "tail_ok (clock d) a"
  shows "n < length (entry pd) \<Longrightarrow> Accepter_one d g r c a = Inr (False, complete d r STATUS_BUFFER_OVERFLOW 0)"
    and "\<not> n < length (entry pd) \<Longrightarrow> \<exists>d'. Accepter_one d g r c a = Inr (True, d') \<and> accepter_ok d' g ev rs (map entry pds) \<and>
      completed (qd d') = done_read (r, STATUS_SUCCESS, entry pd) # completed (qd d) \<and>
      take (length (entry pd)) (rbuf (reqs d' r)) = entry pd \<and> (\<forall>j. j \<noteq> r \<longrightarrow> reqs d' j = reqs d j) \<and> the_ring d' g = the_ring d g"
proof -
  obtain i where i: "irps (qd d) r = Some i" "flags i = XENV4V_PEEK_STREAM OR XENV4V_PEEK_READ" "unat (wlen i) = n"
    and b: "length (rbuf (reqs d r)) = n"
    using d(2) by (auto simp: read_ok_def)
  have len: "length (entry pd) = unat (d_length pd)" "unat (d_length pd) \<le> length (d_data pd)"
    using full c(4) by (auto simp: entry_def entry_full_def)
  then have less: "wlen i < d_length pd \<longleftrightarrow> n < length (entry pd)" using i(3) by (simp add: word_less_nat_alt)
  show "n < length (entry pd) \<Longrightarrow> Accepter_one d g r c a = Inr (False, complete d r STATUS_BUFFER_OVERFLOW 0)"
    using i less c(4) by (simp add: Accepter_one_def)
  assume fits: "\<not> n < length (entry pd)"
  let ?b = "overwrite (rbuf (reqs d r)) (entry pd)"
  let ?d = "set_ctx (complete (set_rbuf d r ?b) r STATUS_SUCCESS (d_length pd)) g (c\<lparr>cu := Accepter (a\<lparr>dataList := pds\<rparr>)\<rparr>)"
  have "memcpy (rbuf (reqs d r)) 0 (d_data pd) 0 (unat (d_length pd)) = Inr ?b"
    using fits len b by (simp add: memcpy_def overwrite_def entry_def)
  then have one: "Accepter_one d g r c a = Inr (True, ?d)" using i less c(4) fits by (simp add: Accepter_one_def)
  have "reads_ok (set_rbuf d r ?b) g rs"
    by (rule reads_rbuf [OF d(1,3)])
  then have "reads_ok (complete (set_rbuf d r ?b) r STATUS_SUCCESS (d_length pd)) g rs"
    using d(3) by (intro reads_complete) (simp_all add: set_rbuf_def)
  moreover have "tail_ok (clock d) (a\<lparr>dataList := pds\<rparr>)"
    using tl c(4) by (auto simp: tail_ok_def)
  ultimately have "accepter_ok ?d g ev rs (map entry pds)"
    using c full read_ok_cong [of ?d _ "complete (set_rbuf d r ?b) r STATUS_SUCCESS (d_length pd)"]
    by (simp add: accepter_ok_def reads_ok_def set_ctx_def complete_def set_rbuf_def)
  moreover have "the_ring ?d g = the_ring d g"
    using c(1) by (simp add: the_ring_def with_ctx_def set_ctx_def complete_def set_rbuf_def split: option.splits)
  moreover have "take (length (entry pd)) ?b = entry pd" by (simp add: overwrite_def)
  ultimately show "\<exists>d'. Accepter_one d g r c a = Inr (True, d') \<and> accepter_ok d' g ev rs (map entry pds) \<and>
      completed (qd d') = done_read (r, STATUS_SUCCESS, entry pd) # completed (qd d) \<and>
      take (length (entry pd)) (rbuf (reqs d' r)) = entry pd \<and> (\<forall>j. j \<noteq> r \<longrightarrow> reqs d' j = reqs d j) \<and> the_ring d' g = the_ring d g"
    using len(1) one by (intro exI [of _ ?d]) (simp add: done_read_def set_ctx_def complete_def set_rbuf_def V4vCompleteIrp_def)
qed

lemma stream_spec_empty [simp]: "stream_spec K rs [] = ([], None, rs, [])" "stream_spec K [] ms = ([], None, [], ms)"
  by (cases rs; simp) (cases ms; simp)

lemma AccepterReads_loop_refines:
  assumes "accepter_ok d g ev rs xs"
  shows "\<exists>s n d'. AccepterReads_loop d g notify ntfy = Inr (s, n, d') \<and>
    accepter_served d g ev rs (stream_spec Data rs xs) d' \<and>
    s = (snd (snd (snd (stream_spec Data rs xs))) \<noteq> []) \<and> (\<not> notify \<or> s \<longrightarrow> events d' ev = s)"
  using assms
proof (induction rs arbitrary: d xs ntfy)
  case Nil
  then obtain c a where c: "ctxs d g = Some c" "cu c = Accepter a" "xs = map entry (dataList a)" "reads_ok d g []"
    by (auto simp: accepter_ok_def)
  have q: "remove_irp d (stream_reads g) = Inr (None, d)"
    using c(4) by (intro remove_irp_no_match) (simp_all add: reads_ok_def)
  have same: "accepter_served d g ev [] ([], None, [], xs) d" using Nil by (simp add: accepter_served_def accepter_result_def)
  show ?case
    using accepter_event [OF Nil, of "xs \<noteq> []"] c same q
    by (cases "xs = []") (auto simp: AccepterReads_loop.simps [of d] with_accepter_def with_ctx_def)
next
  case (Cons p rs)
  obtain r n where p: "p = (r, n)" by (cases p)
  obtain c a where c: "ctxs d g = Some c" "kevReceive c = Some ev" "cu c = Accepter a" "xs = map entry (dataList a)"
    "\<forall>pd \<in> set (dataList a). entry_full pd" "tail_ok (clock d) a" and rds: "reads_ok d g ((r, n) # rs)"
    using Cons.prems p by (auto simp: accepter_ok_def)
  show ?case
  proof (cases "dataList a")
    case Nil
    moreover have "accepter_served d g ev (p # rs) ([], None, p # rs, []) d"
      using Cons.prems Nil c(4) by (simp add: accepter_served_def accepter_result_def)
    ultimately show ?thesis
      using accepter_event [OF Cons.prems, of False] c
      by (cases notify) (auto simp: AccepterReads_loop.simps [of d] with_accepter_def with_ctx_def)
  next
    case (Cons pd pds)
    let ?d = "d\<lparr>qd := unqueued (qd d) r\<rparr>"
    note t = reads_take [OF rds, simplified]
    have cq: "completed (qd ?d) = completed (qd d)" by (simp add: unqueued_def)
    have nr: "r \<notin> fst ` set rs"
    proof
      assume "r \<in> fst ` set rs"
      then have "r \<in> set (queue ?d)" using t(2) unfolding reads_ok_def by (metis filter_is_subset in_mono list.set_map)
      then show False using t(4) by simp
    qed
    have loop: "AccepterReads_loop d g notify ntfy =
        res_bind (Accepter_one ?d g r c a) (\<lambda>(took, d). AccepterReads_loop d g notify (ntfy \<or> took))"
      using t(1) c Cons
      by (simp add: AccepterReads_loop.simps [of d] with_accepter_def with_ctx_def res_bind_def split: sum.splits prod.splits)
    have c': "ctxs ?d g = Some c" using c(1) by simp
    note one = Accepter_one_spec [OF t(2) t(3) _ c' c(2,3) Cons c(5)]
    show ?thesis
    proof (cases "n < length (entry pd)")
      case True
      let ?d2 = "complete ?d r STATUS_BUFFER_OVERFLOW 0"
      have o1: "Accepter_one ?d g r c a = Inr (False, ?d2)" using one(1) t(4) True c(6) by simp
      have f2: "completed (qd ?d2) = done_read (r, STATUS_BUFFER_OVERFLOW, []) # completed (qd d)" "reqs ?d2 = reqs d"
        "the_ring ?d2 g = the_ring d g"
        by (simp add: done_read_def unqueued_def, simp add: complete_def, simp)
      have "accepter_ok ?d2 g ev rs xs"
        using reads_complete [OF t(2)] t(4) c by (simp add: accepter_ok_def complete_def)
      from Cons.IH [OF this, of "ntfy \<or> False"] obtain os b rs' xs' s k d' where
        sp: "stream_spec Data rs xs = (os, b, rs', xs')" and d': "AccepterReads_loop ?d2 g notify (ntfy \<or> False) = Inr (s, k, d')"
          "accepter_served ?d2 g ev rs (os, b, rs', xs') d'" "s = (xs' \<noteq> [])" "\<not> notify \<or> s \<longrightarrow> events d' ev = s"
        by (cases "stream_spec Data rs xs") auto
      have "accepter_served d g ev ((r, n) # rs) ((r, STATUS_BUFFER_OVERFLOW, []) # os, b, rs', xs') d'"
        using accepter_served_step [OF d'(2) f2(1) _ _ nr f2(3)] f2(2) by simp
      then show ?thesis using loop o1 d' sp p c(4) Cons True by simp
    next
      case False
      obtain d2 where d2: "Accepter_one ?d g r c a = Inr (True, d2)" "accepter_ok d2 g ev rs (map entry pds)"
        "completed (qd d2) = done_read (r, STATUS_SUCCESS, entry pd) # completed (qd d)"
        "take (length (entry pd)) (rbuf (reqs d2 r)) = entry pd" "\<And>j. j \<noteq> r \<Longrightarrow> reqs d2 j = reqs d j" "the_ring d2 g = the_ring d g"
        using one(2) t(4) False cq c(6) by auto
      from Cons.IH [OF d2(2), of "ntfy \<or> True"] obtain os b rs' xs' s k d' where
        sp: "stream_spec Data rs (map entry pds) = (os, b, rs', xs')" and d': "AccepterReads_loop d2 g notify (ntfy \<or> True) = Inr (s, k, d')"
          "accepter_served d2 g ev rs (os, b, rs', xs') d'" "s = (xs' \<noteq> [])" "\<not> notify \<or> s \<longrightarrow> events d' ev = s"
        by (cases "stream_spec Data rs (map entry pds)") auto
      have "accepter_served d g ev ((r, n) # rs) ((r, STATUS_SUCCESS, entry pd) # os, b, rs', xs') d'"
        by (rule accepter_served_step [OF d'(2) d2(3-5) nr d2(6)])
      then show ?thesis using loop d2(1) d' sp p c(4) Cons False by simp
    qed
  qed
qed

text \<open>A message that arrives for an accepted stream: the reads are served from the queue; one more read is matched with the
  message, which is queued if that read is too short or if there is none.  The results as in \<open>stream_spec\<close>.\<close>

definition arrival_spec :: "(nat \<times> nat) list \<Rightarrow> u8 list list \<Rightarrow> u8 list \<Rightarrow>
    (nat \<times> NTSTATUS \<times> u8 list) list \<times> nat option \<times> (nat \<times> nat) list \<times> u8 list list" where
  "arrival_spec rs xs y =
     (let (os, b, rs', xs') = stream_spec Data rs xs
      in case rs' of
           [] \<Rightarrow> (os, b, [], xs' @ [y])
         | (r, n) # rs'' \<Rightarrow>
             if n < length y then (os @ [(r, STATUS_BUFFER_OVERFLOW, [])], b, rs'', xs' @ [y])
             else (os @ [(r, STATUS_SUCCESS, y)], b, rs'', xs'))"

lemma data_append_spec:
  assumes "tail_ok k a" and "k \<le> d_addr pd" and "d_addr pd < k'"
  shows "\<exists>a'. data_append a pd = Inr a' \<and> dataList a' = dataList a @ [pd] \<and> tail_ok k' a'"
proof (cases "dataList a = []")
  case True
  then show ?thesis using assms(3) by (simp add: data_append_def tail_ok_def)
next
  case False
  then obtain ys z where s: "dataList a = ys @ [z]" by (metis rev_exhaust)
  then have t: "dataTail a = Some (d_addr z)" and z: "d_addr z \<notin> d_addr ` set ys"
    using assms(1) False by (simp_all add: tail_ok_def)
  have n: "d_addr y \<noteq> d_addr z" if "y \<in> set ys" for y using z that by (metis image_eqI)
  have "takeWhile (\<lambda>x. d_addr x \<noteq> d_addr z) (ys @ [z]) = ys" "dropWhile (\<lambda>x. d_addr x \<noteq> d_addr z) (ys @ [z]) = [z]"
    using n by (simp_all add: takeWhile_append2 dropWhile_append2)
  then have "data_append a pd = Inr (a\<lparr>dataList := dataList a @ [pd], dataTail := Some (d_addr pd)\<rparr>)"
    using t s by (simp add: data_append_def)
  moreover have "tail_ok k' (a\<lparr>dataList := dataList a @ [pd], dataTail := Some (d_addr pd)\<rparr>)"
    using assms by (fastforce simp: tail_ok_def)
  ultimately show ?thesis by simp
qed

text \<open>The data queue as a queue: \<open>ok\<close> says that the new entry is a new allocation.\<close>

definition data_get :: "accepter \<Rightarrow> (XENV4V_DATA \<times> accepter) res" where
  "data_get a = (case dataList a of [] \<Rightarrow> Inl BadPointer | pd # pds \<Rightarrow> Inr (pd, a\<lparr>dataList := pds\<rparr>))"

interpretation data_queue: fifo "\<lambda>q pd. \<forall>x \<in> set q. d_addr x < d_addr pd" data_append data_get
    "\<lambda>a q. dataList a = q \<and> (\<exists>k. tail_ok k a)"
proof unfold_locales
  fix s :: accepter and q and x :: XENV4V_DATA
  assume s: "dataList s = q \<and> (\<exists>k. tail_ok k s)" and ok: "\<forall>y \<in> set q. d_addr y < d_addr x"
  then have "tail_ok (d_addr x) s" by (auto simp: tail_ok_def)
  then show "\<exists>s'. data_append s x = Inr s' \<and> dataList s' = q @ [x] \<and> (\<exists>k. tail_ok k s')"
    using data_append_spec [of "d_addr x" s x "Suc (d_addr x)"] s by auto
next
  fix s :: accepter and q and x :: XENV4V_DATA
  assume "dataList s = x # q \<and> (\<exists>k. tail_ok k s)"
  then show "\<exists>s'. data_get s = Inr (x, s') \<and> dataList s' = q \<and> (\<exists>k. tail_ok k s')"
    by (fastforce simp: data_get_def tail_ok_def split: if_splits)
qed

text \<open>A message is moved from the ring to the end of the data queue.\<close>

lemma Buffer_message_spec:
  assumes d: "accepter_ok d g ev rs xs" and rg: "the_ring d g = Inr rg" "holds rg (m # ms)"
    and m: "8 \<le> length (m_data m)" and al: "alloc E (clock d)" and sig: "signaled \<longrightarrow> events d ev"
  shows "\<exists>d' rg'. Buffer_message E d g (of_nat (length (m_data m))) signaled = Inr d' \<and>
    accepter_ok d' g ev rs (xs @ [drop 8 (m_data m)]) \<and> the_ring d' g = Inr rg' \<and> holds rg' ms \<and>
    completed (qd d') = completed (qd d) \<and> reqs d' = reqs d \<and> events d' ev"
proof -
  obtain c a where c: "ctxs d g = Some c" "kevReceive c = Some ev" "cu c = Accepter a" "xs = map entry (dataList a)"
    "\<forall>pd \<in> set (dataList a). entry_full pd" "tail_ok (clock d) a" and rds: "reads_ok d g rs"
    using d by (auto simp: accepter_ok_def)
  let ?y = "drop 8 (m_data m)" and ?n = "length (m_data m)"
  note w = word_length [OF holds_length [OF rg(2)]]
  define buf where "buf = overwrite (replicate ?n 0) ?y"
  obtain x where x: "holds (rg\<lparr>rx_ptr := x\<rparr>) ms" "v4v_copy_out_offset rg (replicate ?n 0) ?n True 8 =
      Inr (of_nat ?n, Some (m_source m, m_protocol m), buf, rg\<lparr>rx_ptr := x\<rparr>)"
    using v4v_copy_out_offset_next [OF rg(2), of 8 ?n "replicate ?n 0" True] by (auto simp: buf_def)
  obtain d1 where d1: "put_ring d g (rg\<lparr>rx_ptr := x\<rparr>) = Inr d1" "the_ring d1 g = Inr (rg\<lparr>rx_ptr := x\<rparr>)" "quiet d d1" "clock d1 = clock d"
    using rg(1) by (auto simp: put_ring_def the_ring_def with_ctx_def quiet_def split: option.splits)
  let ?pd = "\<lparr>d_addr = clock d, d_data = buf, d_length = of_nat ?n - 8\<rparr>"
  obtain a' where a': "data_append a ?pd = Inr a'" "dataList a' = dataList a @ [?pd]" "tail_ok (clock d + 1) a'"
    using data_append_spec [OF c(6), of ?pd "clock d + 1"] by auto
  have "?n - 8 < 2 ^ 31 - 32" using holds_length [OF rg(2)] by simp
  then have u: "unat (of_nat ?n - 8 :: u32) = ?n - 8" using w(5) [OF m] word_length(1) by metis
  have e: "entry ?pd = ?y" "entry_full ?pd" using m by (simp_all add: entry_def entry_full_def buf_def overwrite_def u)
  let ?d2 = "tick 1 (set_ctx d1 g (c\<lparr>cu := Accepter a'\<rparr>))"
  have acc: "accepter_ok ?d2 g ev rs (xs @ [?y])"
    using c a' e rds d1(3,4) read_ok_cong [of ?d2 _ d]
    by (auto simp: accepter_ok_def reads_ok_def set_ctx_def tick_def quiet_def)
  have ring: "the_ring ?d2 g = Inr (rg\<lparr>rx_ptr := x\<rparr>)"
    using d1(2,3) c(1) by (auto simp: the_ring_def with_ctx_def set_ctx_def tick_def quiet_def split: option.splits)
  have same: "completed (qd ?d2) = completed (qd d)" "reqs ?d2 = reqs d" "events ?d2 = events d"
    using d1(3) by (simp_all add: quiet_def set_ctx_def tick_def)
  have run: "Buffer_message E d g (of_nat ?n) signaled = (if signaled then Inr ?d2 else put_event ?d2 g True)"
    using al rg(1) x(2) w(1,2) d1 c a'(1) by (simp add: Buffer_message_def with_accepter_def with_ctx_def quiet_def)
  show ?thesis
  proof (cases signaled)
    case True
    then show ?thesis using run acc ring same x(1) sig by auto
  next
    case False
    obtain d' where "put_event ?d2 g True = Inr d'" "accepter_served ?d2 g ev rs ([], None, rs, xs @ [?y]) d'" "events d' ev"
      "reqs d' = reqs ?d2"
      using accepter_event [OF acc, of True] c by (auto simp: put_event_def with_ctx_def set_ctx_def tick_def)
    then show ?thesis using run False ring same x(1) by (auto simp: accepter_served_def accepter_result_def)
  qed
qed

text \<open>A message goes straight to a read that was taken from the queue.\<close>

lemma Buffered_deliver_spec:
  assumes d: "accepter_ok d g ev rs xs" and r: "read_ok d (r, n)" "r \<notin> set (queue d)"
    and rg: "the_ring d g = Inr rg" "holds rg (m # ms)" and m: "8 \<le> length (m_data m)" "\<not> n < length (m_data m) - 8"
  shows "\<exists>d' rg'. Buffered_deliver d g r (of_nat (length (m_data m))) = Inr d' \<and>
    accepter_ok d' g ev rs xs \<and> the_ring d' g = Inr rg' \<and> holds rg' ms \<and>
    completed (qd d') = done_read (r, STATUS_SUCCESS, drop 8 (m_data m)) # completed (qd d) \<and>
    take (length (m_data m) - 8) (rbuf (reqs d' r)) = drop 8 (m_data m) \<and> (\<forall>j. j \<noteq> r \<longrightarrow> reqs d' j = reqs d j)"
proof -
  let ?y = "drop 8 (m_data m)" and ?n = "length (m_data m)"
  note w = word_length [OF holds_length [OF rg(2)]]
  have b: "length (rbuf (reqs d r)) = n" using r(1) by (auto simp: read_ok_def)
  have "?n + 8 < 2 ^ 31" using holds_length [OF rg(2)] by simp
  then have t: "unat (of_nat ?n + 8 :: u32) = ?n + 8" using w(1) by (simp add: unat_word_ariths(1))
  let ?b = "overwrite (rbuf (reqs d r)) ?y"
  obtain x where x: "holds (rg\<lparr>rx_ptr := x\<rparr>) ms" "v4v_copy_out_offset rg (rbuf (reqs d r)) (?n + 8) True 8 =
      Inr (of_nat ?n, Some (m_source m, m_protocol m), ?b, rg\<lparr>rx_ptr := x\<rparr>)"
    using v4v_copy_out_offset_next [OF rg(2), of 8 "?n + 8" "rbuf (reqs d r)" True] b m(2) by auto
  have "the_ring (set_rbuf d r ?b) g = Inr rg" using rg(1) by simp
  then obtain d1 where d1: "put_ring (set_rbuf d r ?b) g (rg\<lparr>rx_ptr := x\<rparr>) = Inr d1" "the_ring d1 g = Inr (rg\<lparr>rx_ptr := x\<rparr>)"
    "quiet (set_rbuf d r ?b) d1" "clock d1 = clock d"
    by (auto simp: put_ring_def the_ring_def with_ctx_def quiet_def set_rbuf_def split: option.splits)
  let ?d = "complete d1 r STATUS_SUCCESS (of_nat ?n - 8)"
  have q: "qd d1 = qd d" "ctxs d1 = ctxs d" "reqs d1 = (reqs d)(r := (reqs d r)\<lparr>rbuf := ?b\<rparr>)"
    using d1(3) by (simp_all add: quiet_def set_rbuf_def)
  have "reads_ok (set_rbuf d r ?b) g rs" using reads_rbuf d r(2) by (simp add: accepter_ok_def)
  then have "reads_ok d1 g rs" using d1(3) read_ok_cong [of d1 _ "set_rbuf d r ?b"] by (simp add: reads_ok_def quiet_def)
  then have "reads_ok ?d g rs" using r(2) q by (intro reads_complete) simp_all
  then have "accepter_ok ?d g ev rs xs" using d q d1(4) by (auto simp: accepter_ok_def complete_def)
  moreover have "Buffered_deliver d g r (of_nat ?n) = Inr ?d"
    using rg(1) x(2) t w(2) d1(1) by (simp add: Buffered_deliver_def)
  moreover have "(of_nat ?n - 8 :: u32) = of_nat (?n - 8)" using w(5) m(1) by simp
  moreover have "take (?n - 8) ?b = ?y" by (simp add: overwrite_def)
  ultimately show ?thesis
    using d1(2) x(1) q by (intro exI [of _ ?d] exI [of _ "rg\<lparr>rx_ptr := x\<rparr>"]) (simp add: done_read_def complete_def V4vCompleteIrp_def)
qed

lemma stream_spec_ids: "stream_spec Data rs xs = (os, b, rs', xs') \<Longrightarrow> map fst rs = map fst os @ map fst rs' \<and> (rs' = [] \<or> xs' = []) \<and> b = None"
proof (induction "Data" rs xs arbitrary: os b rs' xs' rule: stream_spec.induct)
  case (3 r n rs m ms)
  then show ?case by (auto split: if_splits prod.splits)
qed auto

lemma reads_distinct: "reads_ok d f rs \<Longrightarrow> distinct (map fst rs)"
  unfolding reads_ok_def queue_ok_def by (metis distinct_filter)

lemma accepter_result_trans:
  assumes "accepter_result d g ev rs (os, b, rs', xs') d1" and "accepter_result d1 g ev rs' (os2, b2, rs2, xs2) d2"
    and "map fst rs = map fst os @ map fst rs'" and "distinct (map fst rs)"
  shows "accepter_result d g ev rs (os @ os2, b2, rs2, xs2) d2"
proof -
  have "reqs d2 r = reqs d1 r" if "(r, st, x) \<in> set os" for r st x
  proof -
    have "r \<in> set (map fst os)" using that by (force simp: image_iff)
    then have "r \<notin> fst ` set rs'" using assms(3,4) by auto
    then show ?thesis using assms(2) by (simp add: accepter_result_def)
  qed
  moreover have "reqs d2 j = reqs d j" if "j \<notin> fst ` set rs" for j
  proof -
    have "fst ` set rs = fst ` set os \<union> fst ` set rs'" using arg_cong [OF assms(3), of set] by simp
    then show ?thesis using that assms(1,2) by (simp add: accepter_result_def)
  qed
  ultimately show ?thesis using assms(1,2) by (fastforce simp: accepter_result_def)
qed

lemma AccepterBuffered_last:
  assumes d: "accepter_ok d g ev rs xs" and none: "rs = [] \<or> xs = []" and rg: "the_ring d g = Inr rg" "holds rg (m # ms)"
    and m: "8 \<le> length (m_data m)" and al: "\<And>k. alloc E k" and sig: "signaled \<longrightarrow> events d ev"
  shows "\<exists>d' rg'. res_bind (remove_irp d (stream_reads g)) (\<lambda>(r, d). case r of
         None \<Rightarrow> Buffer_message E d g (of_nat (length (m_data m))) signaled
       | Some irp \<Rightarrow>
           (case irps (qd d) irp of
              None \<Rightarrow> Inl BadPointer
            | Some i \<Rightarrow>
                if wlen i < of_nat (length (m_data m)) - 8
                then Buffer_message E (complete d irp STATUS_BUFFER_OVERFLOW 0) g (of_nat (length (m_data m))) signaled
                else Buffered_deliver d g irp (of_nat (length (m_data m))))) = Inr d' \<and>
    accepter_result d g ev rs (arrival_spec rs xs (drop 8 (m_data m))) d' \<and> the_ring d' g = Inr rg' \<and> holds rg' ms"
proof (cases rs)
  case Nil
  then have "remove_irp d (stream_reads g) = Inr (None, d)"
    using d by (intro remove_irp_no_match) (simp_all add: accepter_ok_def reads_ok_def)
  then show ?thesis
    using Buffer_message_spec [OF d rg m al sig] Nil by (fastforce simp: arrival_spec_def accepter_result_def)
next
  case (Cons p rs0)
  obtain r n where p: "p = (r, n)" by (cases p)
  let ?y = "drop 8 (m_data m)" and ?n = "length (m_data m)" and ?d = "d\<lparr>qd := unqueued (qd d) r\<rparr>"
  have rds: "reads_ok d g ((r, n) # rs0)" using d Cons p by (simp add: accepter_ok_def)
  note t = reads_take [OF rds, simplified]
  have xs: "xs = []" using none Cons by simp
  have acc: "accepter_ok ?d g ev rs0 []" using d xs t(2) by (auto simp: accepter_ok_def)
  obtain i where i: "irps (qd ?d) r = Some i" "unat (wlen i) = n" using t(3) by (auto simp: read_ok_def)
  note w = word_length [OF holds_length [OF rg(2)]]
  have "?n - 8 < 2 ^ 31 - 32" using holds_length [OF rg(2)] by simp
  then have u: "unat (of_nat ?n - 8 :: u32) = ?n - 8" using w(5) [OF m] word_length(1) by metis
  then have less: "wlen i < of_nat ?n - 8 \<longleftrightarrow> n < ?n - 8" using i(2) by (simp add: word_less_nat_alt)
  have ring: "the_ring ?d g = Inr rg" using rg(1) by simp
  have nr: "r \<notin> fst ` set rs0" using reads_distinct [OF rds] by simp
  have cq: "completed (qd ?d) = completed (qd d)" by (simp add: unqueued_def)
  show ?thesis
  proof (cases "n < ?n - 8")
    case True
    let ?d2 = "complete ?d r STATUS_BUFFER_OVERFLOW 0"
    have a2: "accepter_ok ?d2 g ev rs0 []"
      using reads_complete [OF t(2)] t(4) acc by (auto simp: accepter_ok_def complete_def)
    have r2: "the_ring ?d2 g = Inr rg" using ring by simp
    have s2: "signaled \<longrightarrow> events ?d2 ev" using sig by (simp add: complete_def)
    obtain d' rg' where d': "Buffer_message E ?d2 g (of_nat ?n) signaled = Inr d'" "accepter_ok d' g ev rs0 ([] @ [?y])"
      "the_ring d' g = Inr rg'" "holds rg' ms" "completed (qd d') = completed (qd ?d2)" "reqs d' = reqs ?d2" "events d' ev"
      using Buffer_message_spec [OF a2 r2 rg(2) m al s2] by blast
    have "reqs ?d2 = reqs d" by (simp add: complete_def)
    then have "accepter_result d g ev rs ([(r, STATUS_BUFFER_OVERFLOW, [])], None, rs0, [?y]) d'"
      using d'(2,5,6) cq by (simp add: accepter_result_def done_read_def)
    then show ?thesis using t(1) i less True d' Cons p xs by (auto simp: arrival_spec_def)
  next
    case False
    obtain d' rg' where d': "Buffered_deliver ?d g r (of_nat ?n) = Inr d'" "accepter_ok d' g ev rs0 []"
      "the_ring d' g = Inr rg'" "holds rg' ms" "completed (qd d') = done_read (r, STATUS_SUCCESS, ?y) # completed (qd ?d)"
      "take (?n - 8) (rbuf (reqs d' r)) = ?y" "\<forall>j. j \<noteq> r \<longrightarrow> reqs d' j = reqs ?d j"
      using Buffered_deliver_spec [OF acc t(3) _ ring rg(2) m False] t(4) by auto
    then have "accepter_result d g ev rs ([(r, STATUS_SUCCESS, ?y)], None, rs0, []) d'"
      using cq Cons p by (auto simp: accepter_result_def)
    then show ?thesis using t(1) i less False d' Cons p xs by (auto simp: arrival_spec_def)
  qed
qed

lemma V4vProcessAccepterBufferedReads_spec:
  assumes d: "accepter_ok d g ev rs xs" and rg: "the_ring d g = Inr rg" "holds rg (m # ms)"
    and m: "8 \<le> length (m_data m)" and al: "\<And>k. alloc E k"
  shows "\<exists>d' rg'. V4vProcessAccepterBufferedReads E d g (of_nat (length (m_data m))) = Inr d' \<and>
    accepter_result d g ev rs (arrival_spec rs xs (drop 8 (m_data m))) d' \<and> the_ring d' g = Inr rg' \<and> holds rg' ms"
proof -
  obtain os b rs' xs' where sp: "stream_spec Data rs xs = (os, b, rs', xs')" using prod_cases4 by blast
  obtain s n d1 where d1: "AccepterReads_loop d g True False = Inr (s, n, d1)" "accepter_result d g ev rs (os, b, rs', xs') d1"
    "the_ring d1 g = the_ring d g" "s = (xs' \<noteq> [])" "s \<longrightarrow> events d1 ev"
    using AccepterReads_loop_refines [OF d, of True False] sp by (auto simp: accepter_served_def)
  have ids: "map fst rs = map fst os @ map fst rs'" "rs' = [] \<or> xs' = []" "b = None" using stream_spec_ids [OF sp] by simp_all
  have a1: "accepter_ok d1 g ev rs' xs'" using d1(2) by (simp add: accepter_result_def)
  have rg1: "the_ring d1 g = Inr rg" using d1(3) rg(1) by simp
  obtain d' rg' where d': "V4vProcessAccepterBufferedReads E d g (of_nat (length (m_data m))) = Inr d'"
    "accepter_result d1 g ev rs' (arrival_spec rs' xs' (drop 8 (m_data m))) d'" "the_ring d' g = Inr rg'" "holds rg' ms"
    using AccepterBuffered_last [OF a1 ids(2) rg1 rg(2) m al d1(5)] d1(1)
    by (auto simp: V4vProcessAccepterBufferedReads_def V4vProcessAccepterReads_def)
  obtain os2 b2 rs2 xs2 where sp2: "arrival_spec rs' xs' (drop 8 (m_data m)) = (os2, b2, rs2, xs2)" using prod_cases4 by blast
  have "distinct (map fst rs)" using d reads_distinct by (auto simp: accepter_ok_def)
  then have "accepter_result d g ev rs (os @ os2, b2, rs2, xs2) d'"
    using accepter_result_trans [OF d1(2) _ ids(1)] d'(2) sp2 by simp
  moreover have "arrival_spec rs xs (drop 8 (m_data m)) = (os @ os2, b2, rs2, xs2)"
    using sp sp2 ids(2,3) by (auto simp: arrival_spec_def split: list.splits if_splits)
  ultimately show ?thesis using d' by auto
qed

lemma encode_all_length: "encode_all bs ms \<Longrightarrow> length ms \<le> length bs"
  by (induction rule: encode_all.induct) (auto simp: encodes_def)

lemma holds_count: "holds r ms \<Longrightarrow> length ms \<le> nr_pending r"
  using encode_all_length length_pending by (fastforce simp: holds_def)

section \<open>Properties\<close>

text \<open>C10: a connected stream is served as its specification says.  The pending reads of the file, in the order they
  came, are matched with the messages of the ring, in the order they were put there: messages that do not belong to
  the stream are thrown away; a read that is too short for the next data ends with \<open>STATUS_BUFFER_OVERFLOW\<close> and
  leaves the data to the next read; every other read gets exactly the data of one message; a reset of the peer fails
  one read, cancels the writes of the file and disconnects it.  The loop returns, every read and message it did not
  use is still there, and the receive event says whether messages are left.\<close>

theorem V4vProcessConnectorReads_refines:
  assumes "stream_ok d f con peer ev rs ms"
  shows "\<exists>ntfy d'. V4vProcessConnectorReads E d f = Inr (ntfy, d') \<and>
    served d f con peer ev rs (stream_spec (kind con peer) rs ms) d'"
proof -
  obtain rg where rg: "the_ring d f = Inr rg" "holds rg ms" using assms by (auto simp: stream_ok_def)
  have "length (map fst rs) \<le> length (queue d)" using assms unfolding stream_ok_def by (metis length_filter_le)
  then have "length ms + length rs < nr_pending rg + length (queue d) + 2" using holds_count [OF rg(2)] by simp
  moreover have "at_reads d f con peer ev False 0 rs ms" using assms by (simp add: at_reads_def)
  ultimately show ?thesis
    using ConnectorReads_loop_refines [of d f con peer ev False 0 rs ms _ E False] rg(1)
    by (simp add: V4vProcessConnectorReads_def)
qed

text \<open>A stream with three reads of 2, 6 and 9 bytes and a ring with four bytes of data and a reset.\<close>

definition stream_ring :: v4v_ring where
  "stream_ring = \<lparr>magic = V4V_RING_MAGIC, ring_id = \<lparr>addr = \<lparr>port = 7, domain = 1\<rparr>, partner = 3\<rparr>, rlen = 80,
     rx_ptr = 0, tx_ptr = 64,
     ring_data = le_bytes 4 28 @ le_bytes 4 5 @ le_bytes 2 3 @ [0, 0] @ le_bytes 4 (unat V4V_PROTO_STREAM) @
       [0, 0, 0, 0, 9, 0, 0, 0, 1, 2, 3, 4, 0, 0, 0, 0] @
       le_bytes 4 24 @ le_bytes 4 5 @ le_bytes 2 3 @ [0, 0] @ le_bytes 4 (unat V4V_PROTO_STREAM) @
       [4, 0, 0, 0, 9, 0, 0, 0] @ replicate 24 0\<rparr>"

definition stream_messages :: "v4v_message list" where
  "stream_messages =
     [\<lparr>m_source = \<lparr>port = 5, domain = 3\<rparr>, m_protocol = V4V_PROTO_STREAM, m_data = [0, 0, 0, 0, 9, 0, 0, 0, 1, 2, 3, 4]\<rparr>,
      \<lparr>m_source = \<lparr>port = 5, domain = 3\<rparr>, m_protocol = V4V_PROTO_STREAM, m_data = [4, 0, 0, 0, 9, 0, 0, 0]\<rparr>]"

lemma stream_ring_holds: "holds stream_ring stream_messages"
proof -
  let ?A = "le_bytes 4 28 @ le_bytes 4 5 @ le_bytes 2 3 @ [0, 0] @ le_bytes 4 (unat V4V_PROTO_STREAM) @
       [0, 0, 0, 0, 9, 0, 0, 0, 1, 2, 3, 4, 0, 0, 0, 0]"
  let ?B = "le_bytes 4 24 @ le_bytes 4 5 @ le_bytes 2 3 @ [0, 0] @ le_bytes 4 (unat V4V_PROTO_STREAM) @
       [4, 0, 0, 0, 9, 0, 0, 0] @ replicate 8 0"
  have p: "pending stream_ring = ?A @ ?B"
    by (simp add: pending_def nr_pending_def stream_ring_def)
  have a: "encodes ?A (stream_messages ! 0)" by (simp add: encodes_def stream_messages_def padded_def)
  have b: "encodes ?B (stream_messages ! 1)" by (simp add: encodes_def stream_messages_def padded_def)
  have "encode_all (?A @ ?B) [stream_messages ! 0, stream_messages ! 1]"
    using encode_all.intros(2) [OF a encode_all.intros(2) [OF b encode_all.intros(1)]] by simp
  then show ?thesis
    unfolding holds_def p by (simp add: stream_messages_def ring_ok_def stream_ring_def)
qed

definition stream_read :: "u32 \<Rightarrow> irp" where
  "stream_read n = pending_read\<lparr>wlen := n\<rparr>"

definition stream_dev :: v4v_dev where
  "stream_dev =
     \<lparr>rd = \<lparr>objs = [2 \<mapsto> \<lparr>refc = 2, ring = stream_ring, pfnList = \<lparr>pl_magic = V4V_PFN_LIST_MAGIC, npage = 1, pages = [3]\<rparr>, registered = True\<rparr>], ringList = [2], vlog = []\<rparr>,
      qd = (empty_csq (\<lambda>_. \<lparr>port = 5, domain = 3\<rparr>))\<lparr>irps := [5 \<mapsto> stream_read 2, 6 \<mapsto> stream_read 6, 7 \<mapsto> stream_read 9],
             pendingIrpQueue := [5, 6, 7], pendingIrpCount := 3\<rparr>,
      FsContext = (\<lambda>_. True),
      ctxs = [1 \<mapsto> \<lparr>crefc = 1, cstate = STATE_CONNECTED, ctype = TYPE_CONNECTOR, ringObject = Some 2, ringLength = 80,
                    kevReceive = Some 4, connId = 9, cu = Unset\<rparr>],
      contextList = [1], contextCount = 1, timerCounter = 0, timer_set = False,
      reqs = (\<lambda>r. \<lparr>is_ioctl = False, rbuf = replicate (if r = 5 then 2 else if r = 6 then 6 else 9) 0, priv_a = 0,
                   peerAddr = \<lparr>port = 0, domain = 0\<rparr>\<rparr>),
      events = (\<lambda>_. False), sent = [], work_items = [], clock = 0\<rparr>"

definition stream_env :: v4v_env where
  "stream_env = \<lparr>alloc = (\<lambda>_. True), hypercall = (\<lambda>_. 0), RtlRandomEx = (\<lambda>_. 1), event_of = (\<lambda>_. (STATUS_SUCCESS, 4)),
     file_of = (\<lambda>_. (STATUS_SUCCESS, 1)), ring_flags = (\<lambda>_ _. 0), phys = (\<lambda>a. a), virt = (\<lambda>_. 0)\<rparr>"

lemma stream_dev_ok: "stream_ok stream_dev 1 9 3 4 [(5, 2), (6, 6), (7, 9)] stream_messages"
proof -
  have "queue_ok (qd stream_dev)"
    by (simp add: queue_ok_def stream_dev_def empty_csq_def writes_def write_to_def queued_ok_def stream_read_def pending_read_def has_def)
  moreover have "filter (matches (stream_reads 1) (qd stream_dev)) (queue stream_dev) = [5, 6, 7]"
    by (simp add: stream_dev_def empty_csq_def matches_def V4vCsqPeekTest_def peek_file_def stream_read_def pending_read_def has_def)
  moreover have "the_ring stream_dev 1 = Inr stream_ring"
    by (simp add: the_ring_def with_ctx_def stream_dev_def)
  ultimately show ?thesis
    using stream_ring_holds
    by (auto simp: stream_ok_def read_ok_def stream_dev_def stream_read_def pending_read_def empty_csq_def)
qed

theorem V4vProcessConnectorReads_refines_witness:
  "\<exists>ntfy d'. V4vProcessConnectorReads stream_env stream_dev 1 = Inr (ntfy, d') \<and>
    served stream_dev 1 9 3 4 [(5, 2), (6, 6), (7, 9)]
      ([(5, STATUS_BUFFER_OVERFLOW, []), (6, STATUS_SUCCESS, [1, 2, 3, 4])], Some 7, [], [stream_messages ! 1]) d'"
proof -
  have k: "kind 9 3 (stream_messages ! 0) = Data [1, 2, 3, 4]" "kind 9 3 (stream_messages ! 1) = Bye"
    by (simp_all add: kind_def stream_messages_def sh_flags_def sh_conid_def le_field_def has_def)
  have m: "stream_messages = [stream_messages ! 0, stream_messages ! 1]" by (simp add: stream_messages_def)
  have e: "stream_spec (kind 9 3) [(5, 2), (6, 6), (7, 9)] stream_messages =
      ([(5, STATUS_BUFFER_OVERFLOW, []), (6, STATUS_SUCCESS, [1, 2, 3, 4])], Some 7, [], [stream_messages ! 1])"
    using k by (subst m) simp
  show ?thesis using V4vProcessConnectorReads_refines [OF stream_dev_ok, of stream_env] unfolding e .
qed


text \<open>The stream of the last example as an accepted one: one entry of three bytes is queued, reads of 2, 6 and 9 bytes
  are pending.\<close>

definition accepted_dev :: v4v_dev where
  "accepted_dev = stream_dev\<lparr>clock := 8, ctxs := [1 \<mapsto> \<lparr>crefc = 1, cstate = STATE_ACCEPTED, ctype = TYPE_ACCEPTER,
     ringObject = Some 2, ringLength = 80, kevReceive = Some 4, connId = 9,
     cu = Accepter \<lparr>listenerContext = 0, dataList = [\<lparr>d_addr = 7, d_data = [21, 22, 23], d_length = 3\<rparr>], dataTail = Some 7\<rparr>\<rparr>]\<rparr>"

lemma accepted_dev_ok: "accepter_ok accepted_dev 1 4 [(5, 2), (6, 6), (7, 9)] [[21, 22, 23]]" "the_ring accepted_dev 1 = Inr stream_ring"
proof -
  have "reads_ok stream_dev 1 [(5, 2), (6, 6), (7, 9)]" using stream_dev_ok by (simp add: stream_ok_def reads_ok_def)
  then have "reads_ok accepted_dev 1 [(5, 2), (6, 6), (7, 9)]"
    by (auto simp: reads_ok_def read_ok_def accepted_dev_def)
  then show "accepter_ok accepted_dev 1 4 [(5, 2), (6, 6), (7, 9)] [[21, 22, 23]]"
    by (simp add: accepter_ok_def) (simp add: accepted_dev_def tail_ok_def entry_def entry_full_def)
  show "the_ring accepted_dev 1 = Inr stream_ring"
    by (simp add: the_ring_def with_ctx_def accepted_dev_def stream_dev_def)
qed


text \<open>C27: after \<^verbatim>\<open>V4vCtrlListen\<close> succeeded, the backlog of the listener is a first-in first-out queue: connections
  are accepted in the order in which their SYNs came, however SYNs and accepts are interleaved, as long as no more than
  the backlog are pending; the counter is the number of pending connections.\<close>

theorem listener_backlog_fifo:
  assumes "V4vCtrlListen E d f bl = Inr (STATUS_SUCCESS, d')"
    and "fifo_spec (\<lambda>q x. length q < (if bl = 0 then 128 else unat bl)) [] os = Some (xs, q)"
  shows "\<exists>c l l'. ctxs d' f = Some c \<and> cstate c = STATE_LISTENING \<and> cu c = Listener l \<and>
    unat (backlog l) = (if bl = 0 then 128 else unat bl) \<and>
    fifo_run (\<lambda>l (src, con). syn_push l src con) backlog_get l os = Inr (xs, l') \<and> synCount l' = int (length q)"
proof -
  define n where "n = (if bl = 0 then 128 else unat bl)"
  define l where "l = \<lparr>backlog = (if bl = 0 then V4V_SOMAXCONN else bl), synList = replicate n zero_SYN, synHead = None,
    synTail = None, synCount = 0\<rparr>"
  have "\<exists>c. ctxs d' f = Some c \<and> cstate c = STATE_LISTENING \<and> cu c = Listener l"
    using assms(1)
    by (auto simp: V4vCtrlListen_def with_ctx_def Let_def l_def n_def tick_def set_ctx_def split: option.splits if_splits)
  moreover have "backlog_chain l []" by (simp add: backlog_chain_def chained_def l_def zero_SYN_def)
  then have "backlog_holds n l []" by (auto simp: backlog_holds_def l_def)
  then obtain l' where "fifo_run (\<lambda>l (src, con). syn_push l src con) backlog_get l os = Inr (xs, l')" "backlog_holds n l' q"
    using backlog.run_refines assms(2) unfolding n_def by blast
  moreover have "unat (backlog l) = n" by (simp add: l_def n_def)
  ultimately show ?thesis using backlog_holds_count [of n l' q] unfolding n_def by auto
qed

theorem listener_backlog_fifo_witness:
  "\<exists>d' c l l'. V4vCtrlListen stream_env (set_ctx stream_dev 1 ((the (ctxs stream_dev 1))\<lparr>cstate := STATE_BOUND\<rparr>)) 1 2 = Inr (STATUS_SUCCESS, d') \<and>
    ctxs d' 1 = Some c \<and> cu c = Listener l \<and>
    fifo_run (\<lambda>l (src, con). syn_push l src con) backlog_get l
      [Put (\<lparr>port = 5, domain = 3\<rparr>, 11), Put (\<lparr>port = 6, domain = 3\<rparr>, 12), Get, Put (\<lparr>port = 7, domain = 4\<rparr>, 13), Get] =
      Inr ([(\<lparr>port = 5, domain = 3\<rparr>, 11), (\<lparr>port = 6, domain = 3\<rparr>, 12)], l') \<and> synCount l' = 1"
proof -
  let ?d = "set_ctx stream_dev 1 ((the (ctxs stream_dev 1))\<lparr>cstate := STATE_BOUND\<rparr>)"
  obtain d' where d': "V4vCtrlListen stream_env ?d 1 2 = Inr (STATUS_SUCCESS, d')"
    by (simp add: V4vCtrlListen_def with_ctx_def set_ctx_def stream_dev_def stream_env_def)
  have s: "fifo_spec (\<lambda>q x. length q < (if (2::u32) = 0 then 128 else unat (2::u32))) []
      [Put (\<lparr>port = 5, domain = 3\<rparr>, 11), Put (\<lparr>port = 6, domain = 3\<rparr>, 12), Get, Put (\<lparr>port = 7, domain = 4\<rparr>, 13), Get] =
      Some ([(\<lparr>port = 5, domain = 3\<rparr>, 11), (\<lparr>port = 6, domain = 3\<rparr>, 12)], [(\<lparr>port = 7, domain = 4\<rparr>, 13)])"
    by simp
  show ?thesis using listener_backlog_fifo [OF d' s] d' by auto
qed

section \<open>Where the data path goes wrong\<close>

lemma ReleaseContext_not_last:
  assumes "ctxs d g = Some c" and "ctype c \<noteq> TYPE_LISTENER" and "crefc c \<noteq> 1"
  shows "V4vReleaseContext d g = Inr (set_ctx d g (c\<lparr>crefc := crefc c - 1\<rparr>))"
  using assms by (simp add: V4vReleaseContext_def V4vReleaseContextInternal_def numeral_2_eq_2 with_ctx_def Let_def)

lemma ByConnectionId_loop_accepter:
  "ByConnectionId_loop d fs con = Inr (Some g) \<Longrightarrow>
    \<exists>c. ctxs d g = Some c \<and> cstate c = STATE_ACCEPTED \<and> ctype c = TYPE_ACCEPTER \<and> connId c = con"
  by (induction fs) (auto simp: with_ctx_def split: option.splits if_splits)

lemma ByConnectionId_loop_clock [simp]: "ByConnectionId_loop (d\<lparr>clock := k\<rparr>) fs con = ByConnectionId_loop d fs con"
  by (induction fs) (simp_all add: with_ctx_def split: option.splits)

text \<open>One turn of the listener's loop for data that can neither be delivered nor queued: only the clock moves.\<close>

lemma Listener_one_starved:
  assumes rg: "the_ring d f = Inr rg" "holds rg (m # ms)"
    and m: "m_protocol m = V4V_PROTO_STREAM" "8 \<le> length (m_data m)"
      "\<not> has (sh_flags (take 8 (m_data m))) V4V_SHF_SYN" "\<not> has (sh_flags (take 8 (m_data m))) V4V_SHF_RST"
    and g: "ByConnectionId_loop d (contextList d) (ucast (sh_conid (take 8 (m_data m)))) = Inr (Some g)"
    and c: "ctxs d g = Some c" "crefc c \<noteq> 0" "cu c = Accepter a" "dataList a = []"
    and q: "queue_ok (qd d)" "filter (matches (stream_reads g) (qd d)) (queue d) = []"
    and al: "\<And>k. \<not> alloc E k"
  shows "Listener_one E d f st rg = Inr (True, tick 1 d)"
proof -
  define sh where "sh = overwrite (replicate 8 0) (take 8 (m_data m))"
  have x: "v4v_copy_out rg (Some (replicate 8 0)) 8 False =
      Inr (of_nat (length (m_data m)), Some (m_source m, m_protocol m), Some sh, rg)"
    using v4v_copy_out_next [OF rg(2), of 8 "replicate 8 0" False] by (auto simp: sh_def)
  have sh: "sh = take 8 (m_data m)" using m(2) by (simp add: sh_def overwrite_def)
  note w = word_length [OF holds_length [OF rg(2)]]
  have t: "ctype c = TYPE_ACCEPTER" using ByConnectionId_loop_accepter [OF g] c(1) by auto
  let ?c = "c\<lparr>crefc := crefc c + 1\<rparr>" and ?d = "set_ctx d g (c\<lparr>crefc := crefc c + 1\<rparr>)"
  have by_id: "V4vGetContextByConnectionId d (ucast (sh_conid sh)) = Inr (Some g, ?d)"
    using g c(1) sh by (simp add: V4vGetContextByConnectionId_def V4vAddRefContext_def with_ctx_def)
  have "remove_irp ?d (stream_reads g) = Inr (None, ?d)"
    using q by (intro remove_irp_no_match) (simp_all add: set_ctx_def)
  moreover have "AccepterReads_loop ?d g True False = Inr (False, False, ?d)"
    using c by (subst AccepterReads_loop.simps) (simp add: with_accepter_def with_ctx_def set_ctx_def)
  ultimately have reads: "V4vProcessAccepterBufferedReads E ?d g (of_nat (length (m_data m))) = Inr (tick 1 ?d)"
    using al by (simp add: V4vProcessAccepterBufferedReads_def V4vProcessAccepterReads_def Buffer_message_def)
  have "crefc c + 1 \<noteq> 1" using c(2) by simp
  then have "V4vReleaseContext (tick 1 ?d) g = Inr (set_ctx (tick 1 ?d) g (?c\<lparr>crefc := crefc ?c - 1\<rparr>))"
    using t by (intro ReleaseContext_not_last) (simp_all add: set_ctx_def tick_def)
  moreover have "set_ctx (tick 1 ?d) g (?c\<lparr>crefc := crefc ?c - 1\<rparr>) = tick 1 d"
    using c(1) by (simp add: set_ctx_def tick_def fun_upd_idem)
  ultimately show ?thesis
    using x w(2,3) m sh by_id reads by (simp add: Listener_one_def Listener_data_def)
qed

text \<open>data for an accepted stream that nobody reads is queued in memory; when that memory cannot be allocated, the
  message stays in the ring, and the loop of the listener, which runs at dispatch level and holds the lock of the ring,
  looks at the same message again.  As long as allocations fail it does not return, whatever the number of turns.\<close>

theorem ListenerReads_no_memory_diverges:
  assumes "the_ring d f = Inr rg" and "holds rg (m # ms)"
    and "m_protocol m = V4V_PROTO_STREAM" and "8 \<le> length (m_data m)"
    and "\<not> has (sh_flags (take 8 (m_data m))) V4V_SHF_SYN" and "\<not> has (sh_flags (take 8 (m_data m))) V4V_SHF_RST"
    and "ByConnectionId_loop d (contextList d) (ucast (sh_conid (take 8 (m_data m)))) = Inr (Some g)"
    and "ctxs d g = Some c" and "crefc c \<noteq> 0" and "cu c = Accepter a" and "dataList a = []"
    and "queue_ok (qd d)" and "filter (matches (stream_reads g) (qd d)) (queue d) = []"
    and "\<And>k. \<not> alloc E k"
  shows "ListenerReads_loop n E d f st = Inl NoReturn"
proof -
  have ring: "the_ring (d\<lparr>clock := k\<rparr>) f = Inr rg" for k
    using assms(1) the_ring_cong [of "d\<lparr>clock := k\<rparr>" d f] by simp
  have ne: "rx_ptr rg \<noteq> tx_ptr rg" using holds_empty_iff [OF assms(2)] by simp
  have step: "Listener_one E (d\<lparr>clock := k\<rparr>) f st rg = Inr (True, d\<lparr>clock := k + 1\<rparr>)" for k
    using Listener_one_starved [OF ring [of k] assms(2-6), of g c a E st] assms(7-) by (simp add: tick_def)
  have "ListenerReads_loop n E (d\<lparr>clock := k\<rparr>) f st = Inl NoReturn" for k
  proof (induction n arbitrary: k)
    case (Suc n)
    then show ?case using ring [of k] ne step [of k] by simp
  qed simp
  from this [of "clock d"] show ?thesis by simp
qed

text \<open>The accepted stream with an empty data queue and no reads, beside its listener \<open>0\<close>.\<close>

definition starved_dev :: v4v_dev where
  "starved_dev = stream_dev\<lparr>qd := empty_csq (\<lambda>_. \<lparr>port = 5, domain = 3\<rparr>),
     ctxs := [0 \<mapsto> \<lparr>crefc = 3, cstate = STATE_LISTENING, ctype = TYPE_LISTENER, ringObject = Some 2, ringLength = 80,
                   kevReceive = Some 3, connId = 0, cu = Unset\<rparr>,
              1 \<mapsto> \<lparr>crefc = 2, cstate = STATE_ACCEPTED, ctype = TYPE_ACCEPTER, ringObject = Some 2, ringLength = 80,
                   kevReceive = Some 4, connId = 9, cu = Accepter \<lparr>listenerContext = 0, dataList = [], dataTail = None\<rparr>\<rparr>]\<rparr>"

theorem ListenerReads_no_memory_diverges_witness:
  "ListenerReads_loop 1000 (stream_env\<lparr>alloc := \<lambda>_. False\<rparr>) starved_dev 0 STATE_LISTENING = Inl NoReturn"
proof -
  let ?m = "stream_messages ! 0"
  have h: "holds stream_ring [?m, stream_messages ! 1]" using stream_ring_holds by (simp add: stream_messages_def)
  have m: "m_protocol ?m = V4V_PROTO_STREAM" "8 \<le> length (m_data ?m)" "\<not> has (sh_flags (take 8 (m_data ?m))) V4V_SHF_SYN"
    "\<not> has (sh_flags (take 8 (m_data ?m))) V4V_SHF_RST" "sh_conid (take 8 (m_data ?m)) = 9"
    by (simp_all add: stream_messages_def sh_flags_def sh_conid_def le_field_def has_def)
  have r: "the_ring starved_dev 0 = Inr stream_ring"
    by (simp add: the_ring_def with_ctx_def starved_dev_def stream_dev_def)
  have g: "ByConnectionId_loop starved_dev (contextList starved_dev) (ucast (sh_conid (take 8 (m_data ?m)))) = Inr (Some 1)"
    unfolding m(5) by (simp add: starved_dev_def stream_dev_def with_ctx_def)
  have "queue_ok (qd starved_dev)" "filter (matches (stream_reads 1) (qd starved_dev)) (queue starved_dev) = []"
    using queue_ok_empty by (simp_all add: starved_dev_def empty_csq_def)
  then show ?thesis
    using ListenerReads_no_memory_diverges [OF r h m(1-4) g, where n = 1000]
    by (simp add: starved_dev_def)
qed

text \<open>disconnecting a stream while the ring of the peer is full leaves the reset to a work item.  The file is
  disconnected by then, so that the write path completes the work item's request, which frees it, and reports a failure,
  on which the work item frees the request again.\<close>

theorem disconnect_frees_request_twice:
  assumes "ctxs d f = Some c" and "cstate c = STATE_CONNECTED" and "the_ring d f = Inr rg" and "work_items d = []"
    and "hypercall E (clock d) = - 11" and "\<And>k. alloc E k"
  shows "\<exists>d'. V4vCtrlDisconnect E d f = Inr (STATUS_SUCCESS, d') \<and> V4vSendWorkItem E d' irp = Inl BadPointer"
proof -
  let ?a = "sdst (qd d) f" and ?con = "ucast (connId c)"
  define d1 where "d1 = d\<lparr>clock := clock d + 3, work_items := [XENV4V_RESET ?con f ?a]\<rparr>"
  have "V4vSendReset E d f ?con ?a False = Inr d1"
    using assms(3-6) by (simp add: V4vSendReset_def do_send_def V4vSend_def V4vFilterErrno_def tick_def Let_def d1_def)
  then have "V4vCtrlDisconnect E d f = Inr (STATUS_SUCCESS, set_ctx d1 f (c\<lparr>cstate := STATE_DISCONNECTED\<rparr>))"
    using assms(1,2) by (simp add: V4vCtrlDisconnect_def with_ctx_def set_state_def d1_def)
  moreover have "V4vSendWorkItem E (set_ctx d1 f (c\<lparr>cstate := STATE_DISCONNECTED\<rparr>)) irp = Inl BadPointer"
    using assms(6)
    by (simp add: V4vSendWorkItem_def d1_def set_ctx_def tick_def set_irp_def V4vDispatchWrite_def with_ctx_def
        V4vInitializeIrp_def complete_def V4vCompleteIrp_def NT_SUCCESS_def Let_def)
  ultimately show ?thesis by blast
qed

theorem disconnect_frees_request_twice_witness:
  "\<exists>d'. V4vCtrlDisconnect (stream_env\<lparr>hypercall := \<lambda>_. - 11\<rparr>) stream_dev 1 = Inr (STATUS_SUCCESS, d') \<and>
    V4vSendWorkItem (stream_env\<lparr>hypercall := \<lambda>_. - 11\<rparr>) d' 20 = Inl BadPointer"
proof -
  have r: "the_ring stream_dev 1 = Inr stream_ring" by (simp add: the_ring_def with_ctx_def stream_dev_def)
  obtain c where c: "ctxs stream_dev 1 = Some c" "cstate c = STATE_CONNECTED" by (simp add: stream_dev_def)
  show ?thesis
    using disconnect_frees_request_twice [OF c r, of "stream_env\<lparr>hypercall := \<lambda>_. - 11\<rparr>" 20]
    by (simp add: stream_dev_def stream_env_def)
qed

end
