(* ===== verification/EventChannel.thy ===== *)
theory EventChannel
  imports Prelude
begin

unbundle bit_operations_syntax

text \<open>
  The event channels of \<^verbatim>\<open>src/xenutil/evtchn.c\<close> on a 64-bit guest: the bits shared with Xen, the table and the list of
  port handlers, binding and closing ports, the interrupt handler and recovery after suspend.

  \<^item> \<open>shared_info\<close> is the part of the page shared with Xen (\<^verbatim>\<open>xen.h\<close>) the code uses: words of pending and mask bits and, for
    the first processor, the upcall flag and the selector.  An access outside an array is a \<open>BadPointer\<close>.
  \<^item> \<open>evtchn\<close> has the globals of the file and the handlers in memory; \<open>heap\<close> maps the address of a handler to it.  The
    counters that only the debug output reads are left out.  \<open>served\<close> are the ports the interrupt
    handler has served and \<open>calls\<close> the callbacks it has called, in order;
    \<open>dpcs\<close> the queued DPCs.  The class of a handler and the member of the union that goes with it are one datatype.
  \<^item> \<open>xen_ops\<close> answers hypercalls: the \<open>n\<close>-th one gets an error code and a port.
  \<^item> A bug check of \<^verbatim>\<open>TraceBugCheck\<close> is an \<open>XmAssert\<close>.

  How interrupt, DPC and a processor that stops the port interleave is the subject of \<^verbatim>\<open>EventDpc\<close>.
\<close>

section \<open>Data\<close>

record shared_info =
  evtchn_pending :: "u64 list"
  evtchn_mask :: "u64 list"
  evtchn_upcall_pending :: u8
  evtchn_pending_sel :: u64

datatype evtchn_class =
    EVTCHN_CLASS_INTERDOMAIN u16
  | EVTCHN_CLASS_INTERDOMAIN_DPC u16
  | EVTCHN_CLASS_FIXED
  | EVTCHN_CLASS_VIRQ int
  | EVTCHN_CLASS_ALIEN u16 u32

record evtchn_port_handler =
  hnext :: "nat option"
  hprev :: "nat option"
  xen_port :: int
  handler :: "nat option"
  hclass :: evtchn_class
  insert_count :: int
  stopping :: bool

abbreviation (input) MAX_EVTCHN :: nat where "MAX_EVTCHN \<equiv> 256"
abbreviation (input) EVTCHNS_PER_TOPLEVEL :: nat where "EVTCHNS_PER_TOPLEVEL \<equiv> 64"

record evtchn =
  shared :: shared_info
  heap :: "nat \<Rightarrow> evtchn_port_handler option"
  EventChannelHandlers :: "nat option list"
  HeadEvtchnHandler :: "nat option"
  last_evtchn_serviced :: u32
  EvtchnStarted :: bool
  served :: "nat list"
  calls :: "nat list"
  dpcs :: "nat list"
  hypercalls :: nat

type_synonym xen_ops = "nat \<Rightarrow> int \<times> u32"

definition dpc_class :: "evtchn_class \<Rightarrow> bool" where
  "dpc_class k = (case k of EVTCHN_CLASS_INTERDOMAIN_DPC _ \<Rightarrow> True | EVTCHN_CLASS_ALIEN _ _ \<Rightarrow> True | _ \<Rightarrow> False)"

definition with_port :: "evtchn \<Rightarrow> nat \<Rightarrow> (evtchn_port_handler \<Rightarrow> 'a res) \<Rightarrow> 'a res" where
  "with_port s p k = (case heap s p of None \<Rightarrow> Inl BadPointer | Some h \<Rightarrow> k h)"

definition set_port :: "evtchn \<Rightarrow> nat \<Rightarrow> evtchn_port_handler \<Rightarrow> evtchn" where
  "set_port s p h = s\<lparr>heap := (heap s)(p \<mapsto> h)\<rparr>"

section \<open>Bits\<close>

definition TestBit :: "u64 list \<Rightarrow> nat \<Rightarrow> bool res" where
  "TestBit b off = (if off div 64 < length b then Inr (bit (b ! (off div 64)) (off mod 64)) else Inl BadPointer)"

definition SetBit :: "u64 list \<Rightarrow> nat \<Rightarrow> u64 list res" where
  "SetBit b off =
     (if off div 64 < length b then Inr (b[off div 64 := set_bit (off mod 64) (b ! (off div 64))]) else Inl BadPointer)"

definition ClearBit :: "u64 list \<Rightarrow> nat \<Rightarrow> u64 list res" where
  "ClearBit b off =
     (if off div 64 < length b then Inr (b[off div 64 := unset_bit (off mod 64) (b ! (off div 64))]) else Inl BadPointer)"

definition TestAndClearBit :: "u64 list \<Rightarrow> nat \<Rightarrow> (bool \<times> u64 list) res" where
  "TestAndClearBit b off = res_bind (TestBit b off) (\<lambda>r. res_bind (ClearBit b off) (\<lambda>b. Inr (r, b)))"

definition on_pending :: "(u64 list \<Rightarrow> u64 list res) \<Rightarrow> shared_info \<Rightarrow> shared_info res" where
  "on_pending f i = res_bind (f (evtchn_pending i)) (\<lambda>b. Inr (i\<lparr>evtchn_pending := b\<rparr>))"

definition on_mask :: "(u64 list \<Rightarrow> u64 list res) \<Rightarrow> shared_info \<Rightarrow> shared_info res" where
  "on_mask f i = res_bind (f (evtchn_mask i)) (\<lambda>b. Inr (i\<lparr>evtchn_mask := b\<rparr>))"

definition on_shared :: "(shared_info \<Rightarrow> shared_info res) \<Rightarrow> evtchn \<Rightarrow> evtchn res" where
  "on_shared f s = res_bind (f (shared s)) (\<lambda>i. Inr (s\<lparr>shared := i\<rparr>))"

definition EvtchnClearEvtchn :: "nat \<Rightarrow> shared_info \<Rightarrow> shared_info res" where
  "EvtchnClearEvtchn port = on_pending (\<lambda>b. ClearBit b port)"

definition unmask_port :: "nat \<Rightarrow> shared_info \<Rightarrow> shared_info res" where
  "unmask_port port = on_mask (\<lambda>b. ClearBit b port)"

definition mask_port :: "nat \<Rightarrow> shared_info \<Rightarrow> shared_info res" where
  "mask_port port = on_mask (\<lambda>b. SetBit b port)"

definition EvtchnEvtchnPendingP :: "shared_info \<Rightarrow> nat \<Rightarrow> bool res" where
  "EvtchnEvtchnPendingP i port =
     res_bind (TestBit (evtchn_mask i) port) (\<lambda>m. if m then Inr False else TestBit (evtchn_pending i) port)"

section \<open>Masking by the legacy interface\<close>

definition is_INTERDOMAIN_DPC :: "evtchn_class \<Rightarrow> bool" where
  "is_INTERDOMAIN_DPC k = (case k of EVTCHN_CLASS_INTERDOMAIN_DPC _ \<Rightarrow> True | _ \<Rightarrow> False)"

definition EvtchnPortMask :: "evtchn \<Rightarrow> nat \<Rightarrow> evtchn res" where
  "EvtchnPortMask s p =
     with_port s p (\<lambda>h. xm_assert (\<not> is_INTERDOMAIN_DPC (hclass h))
       (if xen_port h \<noteq> - 1 then on_shared (mask_port (nat (xen_port h))) s else Inr s))"

definition EvtchnPortUnmask :: "evtchn \<Rightarrow> nat \<Rightarrow> (bool \<times> evtchn) res" where
  "EvtchnPortUnmask s p =
     with_port s p (\<lambda>h. xm_assert (\<not> is_INTERDOMAIN_DPC (hclass h))
       (if xen_port h = - 1 then Inr (False, s)
        else
          res_bind (on_shared (unmask_port (nat (xen_port h))) s) (\<lambda>s.
          res_bind (TestAndClearBit (evtchn_pending (shared s)) (nat (xen_port h))) (\<lambda>(r, b).
            Inr (r, s\<lparr>shared := (shared s)\<lparr>evtchn_pending := b\<rparr>\<rparr>)))))"

text \<open>What \<^verbatim>\<open>EVTCHNOP_unmask\<close> does: the mask bit is cleared, and a pending port is signalled as if its pending bit had
  just been set.\<close>

definition xen_unmask :: "nat \<Rightarrow> shared_info \<Rightarrow> shared_info res" where
  "xen_unmask port i =
     res_bind (unmask_port port i) (\<lambda>i.
     res_bind (TestBit (evtchn_pending i) port) (\<lambda>p.
       Inr (if p then i\<lparr>evtchn_pending_sel := set_bit (port div 64) (evtchn_pending_sel i), evtchn_upcall_pending := 1\<rparr> else i)))"

text \<open>\<open>other\<close> is what other processors do to the shared page between the two tests of the mask bit.\<close>

definition EvtchnRaiseLocally :: "(shared_info \<Rightarrow> shared_info) \<Rightarrow> evtchn \<Rightarrow> nat \<Rightarrow> evtchn res" where
  "EvtchnRaiseLocally other s p =
     with_port s p (\<lambda>h.
       if xen_port h = - 1 then Inr s
       else
         let port = nat (xen_port h)
         in res_bind (TestBit (evtchn_mask (shared s)) port) (\<lambda>masked.
              if masked then
                res_bind (on_shared (on_pending (\<lambda>b. SetBit b port)) s) (\<lambda>s.
                  let s = s\<lparr>shared := other (shared s)\<rparr>
                  in res_bind (TestBit (evtchn_mask (shared s)) port) (\<lambda>masked.
                       if masked then Inr s
                       else res_bind (on_shared (mask_port port) s) (on_shared (xen_unmask port))))
              else
                res_bind (on_shared (mask_port port) s) (\<lambda>s.
                res_bind (on_shared (on_pending (\<lambda>b. SetBit b port)) s) (on_shared (xen_unmask port)))))"

section \<open>Binding and closing ports\<close>

text \<open>\<open>a\<close> is the address of the new handler, when memory is left.\<close>

definition allocate_handler :: "nat option \<Rightarrow> nat \<Rightarrow> evtchn_class \<Rightarrow> int \<Rightarrow> evtchn \<Rightarrow> evtchn" where
  "allocate_handler a cb k xp s =
     (case a of
        None \<Rightarrow> s
      | Some p \<Rightarrow> set_port s p \<lparr>hnext = None, hprev = None, xen_port = xp, handler = Some cb, hclass = k,
                               insert_count = 0, stopping = False\<rparr>)"

definition register_handler :: "evtchn \<Rightarrow> nat \<Rightarrow> (bool \<times> evtchn) res" where
  "register_handler s p =
     with_port s p (\<lambda>h.
       xm_assert (0 \<le> xen_port h \<and> xen_port h < int MAX_EVTCHN)
         (let x = nat (xen_port h)
          in if EventChannelHandlers s ! x \<noteq> None then Inr (False, s)
             else
               let s1 = set_port (s\<lparr>EventChannelHandlers := (EventChannelHandlers s)[x := Some p]\<rparr>) p
                          (h\<lparr>hnext := HeadEvtchnHandler s, hprev := None\<rparr>)
               in res_bind
                    (case HeadEvtchnHandler s of
                       None \<Rightarrow> Inr s1
                     | Some q \<Rightarrow> with_port s1 q (\<lambda>g. Inr (set_port s1 q (g\<lparr>hprev := Some p\<rparr>)))) (\<lambda>s2.
                  res_bind (on_shared (unmask_port x) (s2\<lparr>HeadEvtchnHandler := Some p\<rparr>)) (\<lambda>s3. Inr (True, s3)))))"

text \<open>For the classes that ask Xen for a port.\<close>

definition bind_xen_port :: "xen_ops \<Rightarrow> evtchn \<Rightarrow> nat \<Rightarrow> (bool \<times> evtchn) res" where
  "bind_xen_port X s p =
     with_port s p (\<lambda>h.
       let (err, port) = X (hypercalls s);
           s = s\<lparr>hypercalls := hypercalls s + 1\<rparr>
       in if err \<noteq> 0 then Inr (False, s)
          else
            res_bind (register_handler (set_port s p (h\<lparr>xen_port := sint port\<rparr>)) p) (\<lambda>(ok, s).
              xm_assert ok (Inr (True, s))))"

definition reconstruct_handler :: "xen_ops \<Rightarrow> evtchn \<Rightarrow> nat \<Rightarrow> (bool \<times> evtchn) res" where
  "reconstruct_handler X s p =
     with_port s p (\<lambda>h.
       case hclass h of
         EVTCHN_CLASS_FIXED \<Rightarrow> res_bind (register_handler s p) (\<lambda>(_, s). Inr (True, s))
       | _ \<Rightarrow> bind_xen_port X s p)"

text \<open>The functions that bind a port differ in the class.  The result is the address of the handler or null.\<close>

definition bind_new :: "xen_ops \<Rightarrow> nat option \<Rightarrow> nat \<Rightarrow> evtchn_class \<Rightarrow> int \<Rightarrow> evtchn \<Rightarrow> (nat option \<times> evtchn) res" where
  "bind_new X a cb k xp s =
     (case a of
        None \<Rightarrow> Inr (None, s)
      | Some p \<Rightarrow>
          res_bind (reconstruct_handler X (allocate_handler a cb k xp s) p) (\<lambda>(ok, s).
            Inr (if ok then (Some p, s) else (None, s\<lparr>heap := (heap s)(p := None)\<rparr>))))"

definition EvtchnRegisterHandler :: "xen_ops \<Rightarrow> nat option \<Rightarrow> int \<Rightarrow> nat \<Rightarrow> evtchn \<Rightarrow> (nat option \<times> evtchn) res" where
  "EvtchnRegisterHandler X a port cb s = bind_new X a cb EVTCHN_CLASS_FIXED port s"

definition EvtchnBindVirq :: "xen_ops \<Rightarrow> nat option \<Rightarrow> int \<Rightarrow> nat \<Rightarrow> evtchn \<Rightarrow> (nat option \<times> evtchn) res" where
  "EvtchnBindVirq X a virq cb s = bind_new X a cb (EVTCHN_CLASS_VIRQ virq) 0 s"

text \<open>Domain identifiers are integers, of which Xen takes 16 bits.\<close>

definition EvtchnAllocUnboundDpc :: "xen_ops \<Rightarrow> nat option \<Rightarrow> int \<Rightarrow> nat \<Rightarrow> evtchn \<Rightarrow> (nat option \<times> evtchn) res" where
  "EvtchnAllocUnboundDpc X a domid cb s =
     xm_assert (0 \<le> domid \<and> domid < 2 ^ 16) (bind_new X a cb (EVTCHN_CLASS_INTERDOMAIN_DPC (word_of_int domid)) 0 s)"

definition EvtchnConnectRemotePort :: "xen_ops \<Rightarrow> nat option \<Rightarrow> int \<Rightarrow> u32 \<Rightarrow> nat \<Rightarrow> evtchn \<Rightarrow> (nat option \<times> evtchn) res" where
  "EvtchnConnectRemotePort X a domid aport cb s =
     xm_assert (0 \<le> domid \<and> domid < 2 ^ 16) (bind_new X a cb (EVTCHN_CLASS_ALIEN (word_of_int domid) aport) 0 s)"

definition EvtchnAllocUnbound :: "xen_ops \<Rightarrow> nat option \<Rightarrow> int \<Rightarrow> nat \<Rightarrow> evtchn \<Rightarrow> (nat option \<times> evtchn) res" where
  "EvtchnAllocUnbound X a domid cb s =
     xm_assert (0 \<le> domid \<and> domid < 2 ^ 16) (bind_new X a cb (EVTCHN_CLASS_INTERDOMAIN (word_of_int domid)) 0 s)"

text \<open>Taking a handler out of the list and the table.  The close hypercall has no result the code looks at.\<close>

definition unlink_handler :: "evtchn \<Rightarrow> evtchn_port_handler \<Rightarrow> evtchn res" where
  "unlink_handler s h =
     res_bind
       (case hnext h of
          None \<Rightarrow> Inr s
        | Some n \<Rightarrow> with_port s n (\<lambda>g. Inr (set_port s n (g\<lparr>hprev := hprev h\<rparr>)))) (\<lambda>s.
     res_bind
       (case hprev h of
          None \<Rightarrow> Inr (s\<lparr>HeadEvtchnHandler := hnext h\<rparr>)
        | Some n \<Rightarrow> with_port s n (\<lambda>g. Inr (set_port s n (g\<lparr>hnext := hnext h\<rparr>)))) (\<lambda>s.
     Inr (s\<lparr>EventChannelHandlers := (EventChannelHandlers s)[nat (xen_port h) := None]\<rparr>)))"

definition Stop_unhook :: "evtchn \<Rightarrow> nat \<Rightarrow> evtchn res" where
  "Stop_unhook s p =
     with_port s p (\<lambda>h.
       if 0 \<le> xen_port h \<and> int (length (EventChannelHandlers s)) \<le> xen_port h then Inl BadPointer
       else if 0 \<le> xen_port h \<and> EventChannelHandlers s ! nat (xen_port h) = Some p then
         xm_assert (0 \<le> xen_port h \<and> xen_port h < int MAX_EVTCHN) (unlink_handler (s\<lparr>hypercalls := hypercalls s + 1\<rparr>) h)
       else Inr s)"

text \<open>Waiting for the DPC: \<open>others k\<close> is what the rest of the system does in the \<open>k\<close>-th delay of 10 ms; \<open>low\<close> says that
  the caller is below \<^verbatim>\<open>DISPATCH_LEVEL\<close>.  The wait may not end.\<close>

partial_function (option) Stop_wait :: "(nat \<Rightarrow> evtchn \<Rightarrow> evtchn) \<Rightarrow> bool \<Rightarrow> nat \<Rightarrow> evtchn \<Rightarrow> nat \<Rightarrow> evtchn res option" where
  "Stop_wait others low k s p =
     (case heap s p of
        None \<Rightarrow> Some (Inl BadPointer)
      | Some h \<Rightarrow>
          if insert_count h = 0 then Some (Inr s)
          else if \<not> low then Some (Inl XmAssert)
          else Stop_wait others low (k + 1) (others k s) p)"

definition EvtchnPortStop :: "(nat \<Rightarrow> evtchn \<Rightarrow> evtchn) \<Rightarrow> bool \<Rightarrow> evtchn \<Rightarrow> nat \<Rightarrow> evtchn res option" where
  "EvtchnPortStop others low s p =
     (case res_bind (Stop_unhook s p) (\<lambda>s. with_port s p (\<lambda>h.
              Inr (if dpc_class (hclass h) then (True, set_port s p (h\<lparr>stopping := True\<rparr>)) else (False, s)))) of
        Inl e \<Rightarrow> Some (Inl e)
      | Inr (wait, s) \<Rightarrow>
          map_option (\<lambda>r. res_bind r (\<lambda>s. with_port s p (\<lambda>h. Inr (set_port s p (h\<lparr>xen_port := - 1, handler := None\<rparr>)))))
            (if wait then Stop_wait others low 0 s p else Some (Inr s)))"

definition EvtchnClose :: "(nat \<Rightarrow> evtchn \<Rightarrow> evtchn) \<Rightarrow> bool \<Rightarrow> evtchn \<Rightarrow> nat \<Rightarrow> evtchn res option" where
  "EvtchnClose others low s p =
     map_option (\<lambda>r. res_bind r (\<lambda>s. Inr (s\<lparr>heap := (heap s)(p := None)\<rparr>))) (EvtchnPortStop others low s p)"

section \<open>The interrupt\<close>

definition FireHandler :: "evtchn \<Rightarrow> nat \<Rightarrow> evtchn res" where
  "FireHandler s p =
     with_port s p (\<lambda>h.
       if dpc_class (hclass h) then
         res_bind (on_shared (mask_port (nat (xen_port h))) s) (\<lambda>s.
           if p \<in> set (dpcs s) then Inr s
           else xm_assert (\<not> stopping h) (Inr ((set_port s p (h\<lparr>insert_count := insert_count h + 1\<rparr>))\<lparr>dpcs := dpcs s @ [p]\<rparr>)))
       else
         res_bind (on_shared (EvtchnClearEvtchn (nat (xen_port h))) s) (\<lambda>s.
           case handler h of None \<Rightarrow> Inl BadPointer | Some cb \<Rightarrow> Inr (s\<lparr>calls := calls s @ [cb]\<rparr>)))"

definition Fire_port :: "nat \<Rightarrow> evtchn \<Rightarrow> evtchn res" where
  "Fire_port port s =
     (if length (EventChannelHandlers s) \<le> port then Inl BadPointer
      else
        let s1 = s\<lparr>last_evtchn_serviced := of_nat port, served := served s @ [port]\<rparr>
        in case EventChannelHandlers s ! port of
             Some p \<Rightarrow> FireHandler s1 p
           | None \<Rightarrow> on_shared (EvtchnClearEvtchn port) s1)"

text \<open>The scans start at a given bit and go around; 64 turns see every bit.\<close>

fun Sub_loop :: "nat \<Rightarrow> nat \<Rightarrow> nat \<Rightarrow> u64 \<Rightarrow> evtchn \<Rightarrow> evtchn res" where
  "Sub_loop n top1 sub evtchns_pending s =
     (if evtchns_pending = 0 then Inr s
      else
        (case n of
           0 \<Rightarrow> Inl NoReturn
         | Suc m \<Rightarrow>
             if bit evtchns_pending sub
             then res_bind (Fire_port (top1 * EVTCHNS_PER_TOPLEVEL + sub) s)
                    (Sub_loop m top1 ((sub + 1) mod EVTCHNS_PER_TOPLEVEL) (unset_bit sub evtchns_pending))
             else Sub_loop m top1 ((sub + 1) mod EVTCHNS_PER_TOPLEVEL) evtchns_pending s))"

declare Sub_loop.simps [simp del]

definition pending_word :: "evtchn \<Rightarrow> nat \<Rightarrow> u64" where
  "pending_word s t = evtchn_pending (shared s) ! t AND NOT (evtchn_mask (shared s) ! t)"

text \<open>A shift by 64 or more is undefined; it is a \<open>BadPointer\<close> here.\<close>

fun Sel_loop :: "nat \<Rightarrow> nat \<Rightarrow> nat \<Rightarrow> u64 \<Rightarrow> evtchn \<Rightarrow> evtchn res" where
  "Sel_loop n top1 sub sel s =
     (if sel = 0 then Inr s
      else if 64 \<le> top1 then Inl BadPointer
      else
        (case n of
           0 \<Rightarrow> Inl NoReturn
         | Suc m \<Rightarrow>
             if bit sel top1
             then res_bind (Sub_loop 64 top1 sub (pending_word s top1) s)
                    (Sel_loop m ((top1 + 1) mod EVTCHNS_PER_TOPLEVEL) 0 (unset_bit top1 sel))
             else Sel_loop m ((top1 + 1) mod EVTCHNS_PER_TOPLEVEL) 0 sel s))"

declare Sel_loop.simps [simp del]

text \<open>One turn of the outer loop.\<close>

definition Upcall_pass :: "evtchn \<Rightarrow> evtchn res" where
  "Upcall_pass s =
     (let sel = evtchn_pending_sel (shared s);
          last1 = last_evtchn_serviced s + 1;
          s = s\<lparr>shared := (shared s)\<lparr>evtchn_upcall_pending := 0, evtchn_pending_sel := 0\<rparr>, last_evtchn_serviced := last1\<rparr>
      in Sel_loop 64 (unat last1 div EVTCHNS_PER_TOPLEVEL) (unat last1 mod EVTCHNS_PER_TOPLEVEL) sel s)"

text \<open>\<open>xen\<close> is what Xen does to the shared page after each turn; afterwards it is quiet.  The result is whether a port
  was served.\<close>

fun Upcall_loop :: "(shared_info \<Rightarrow> shared_info) list \<Rightarrow> evtchn \<Rightarrow> evtchn res" where
  "Upcall_loop [] s = (if evtchn_upcall_pending (shared s) = 0 then Inr s else Upcall_pass s)"
| "Upcall_loop (x # xen) s =
     (if evtchn_upcall_pending (shared s) = 0 then Inr s
      else res_bind (Upcall_pass s) (\<lambda>s. Upcall_loop xen (s\<lparr>shared := x (shared s)\<rparr>)))"

definition EvtchnHandleInterrupt :: "(shared_info \<Rightarrow> shared_info) list \<Rightarrow> evtchn \<Rightarrow> (bool \<times> evtchn) res" where
  "EvtchnHandleInterrupt xen s = res_bind (Upcall_loop xen s) (\<lambda>s'. Inr (served s' \<noteq> served s, s'))"

section \<open>Suspend, start\<close>

function Recover_loop :: "xen_ops \<Rightarrow> nat \<Rightarrow> nat option \<Rightarrow> evtchn \<Rightarrow> evtchn res" where
  "Recover_loop X count h s =
     (case h of
        None \<Rightarrow> Inr s
      | Some p \<Rightarrow>
          with_port s p (\<lambda>g.
            res_bind (reconstruct_handler X s p) (\<lambda>(_, s).
              if MAX_EVTCHN < count + 1 then Inl XmAssert else Recover_loop X (count + 1) (hnext g) s)))"
  by pat_completeness auto
termination
  by (relation "measure (\<lambda>(X, count, h, s). 257 - count)") auto

declare Recover_loop.simps [simp del]

definition EvtchnRecoverFromSuspend :: "xen_ops \<Rightarrow> evtchn \<Rightarrow> evtchn res" where
  "EvtchnRecoverFromSuspend X s =
     Recover_loop X 0 (HeadEvtchnHandler s) (s\<lparr>EventChannelHandlers := replicate MAX_EVTCHN None, HeadEvtchnHandler := None\<rparr>)"

text \<open>Handlers left over from before a hibernation are forgotten.  \<open>n\<close> bounds their number.\<close>

fun Forget_loop :: "nat \<Rightarrow> evtchn \<Rightarrow> evtchn res" where
  "Forget_loop n s =
     (case HeadEvtchnHandler s of
        None \<Rightarrow> Inr s
      | Some p \<Rightarrow>
          (case n of
             0 \<Rightarrow> Inl NoReturn
           | Suc m \<Rightarrow>
               with_port s p (\<lambda>h.
                 Forget_loop m ((set_port s p (h\<lparr>xen_port := - 1, hprev := None, hnext := None\<rparr>))\<lparr>HeadEvtchnHandler := hnext h\<rparr>))))"

declare Forget_loop.simps [simp del]

text \<open>\<open>hvm\<close> is the result of \<^verbatim>\<open>InitHvm\<close>; the debug and suspend callbacks are left out.\<close>

definition EvtchnStart :: "bool \<Rightarrow> NTSTATUS \<Rightarrow> evtchn \<Rightarrow> (NTSTATUS \<times> evtchn) res" where
  "EvtchnStart AustereMode hvm s =
     (if \<not> AustereMode \<and> EvtchnStarted s then Inr (STATUS_SUCCESS, s)
      else
        let s = s\<lparr>EventChannelHandlers := replicate MAX_EVTCHN None\<rparr>
        in res_bind (if AustereMode then Inr (s\<lparr>HeadEvtchnHandler := None\<rparr>) else Forget_loop MAX_EVTCHN s) (\<lambda>s.
             Inr (hvm, if NT_SUCCESS hvm then s\<lparr>EvtchnStarted := True\<rparr> else s)))"

definition EvtchnStop :: "evtchn \<Rightarrow> evtchn" where
  "EvtchnStop s = s\<lparr>EvtchnStarted := False\<rparr>"

section \<open>The invariant\<close>

text \<open>The handlers of a doubly linked list.\<close>

fun dll :: "(nat \<Rightarrow> evtchn_port_handler option) \<Rightarrow> nat option \<Rightarrow> nat option \<Rightarrow> nat list \<Rightarrow> bool" where
  "dll H prev hd1 [] \<longleftrightarrow> hd1 = None"
| "dll H prev hd1 (x # xs) \<longleftrightarrow> hd1 = Some x \<and> (\<exists>h. H x = Some h \<and> hprev h = prev \<and> dll H (Some x) (hnext h) xs)"

definition handler_ok :: "evtchn_port_handler \<Rightarrow> bool" where
  "handler_ok h \<longleftrightarrow> 0 \<le> xen_port h \<and> xen_port h < 256 \<and> handler h \<noteq> None \<and> \<not> stopping h"

text \<open>\<open>xs\<close> are the registered handlers: the list links them, and the table has each at its port and nothing else.\<close>

definition evt_ok :: "evtchn \<Rightarrow> nat list \<Rightarrow> bool" where
  "evt_ok s xs \<longleftrightarrow>
     length (evtchn_pending (shared s)) = 64 \<and> length (evtchn_mask (shared s)) = 64 \<and> length (EventChannelHandlers s) = 256 \<and>
     distinct xs \<and> dll (heap s) None (HeadEvtchnHandler s) xs \<and>
     (\<forall>p \<in> set xs. \<exists>h. heap s p = Some h \<and> handler_ok h) \<and>
     (\<forall>k < 256. \<forall>p. EventChannelHandlers s ! k = Some p \<longleftrightarrow> p \<in> set xs \<and> (\<exists>h. heap s p = Some h \<and> xen_port h = int k))"

lemma evt_okD:
  assumes "evt_ok s xs"
  shows "length (evtchn_pending (shared s)) = 64" and "length (evtchn_mask (shared s)) = 64"
    and "length (EventChannelHandlers s) = 256" and "distinct xs" and "dll (heap s) None (HeadEvtchnHandler s) xs"
    and "p \<in> set xs \<Longrightarrow> \<exists>h. heap s p = Some h \<and> handler_ok h"
    and "k < 256 \<Longrightarrow> EventChannelHandlers s ! k = Some p \<longleftrightarrow> p \<in> set xs \<and> (\<exists>h. heap s p = Some h \<and> xen_port h = int k)"
  using assms by (simp_all add: evt_ok_def)

lemma dll_cong:
  "(\<And>x h. x \<in> set xs \<Longrightarrow> H x = Some h \<Longrightarrow> \<exists>h'. H' x = Some h' \<and> hnext h' = hnext h \<and> hprev h' = hprev h) \<Longrightarrow>
    dll H prev hd1 xs \<Longrightarrow> dll H' prev hd1 xs"
  by (induction xs arbitrary: prev hd1) fastforce+

lemma dll_head: "dll H prev hd1 xs \<Longrightarrow> hd1 = (case xs of [] \<Rightarrow> None | x # _ \<Rightarrow> Some x)"
  by (cases xs) simp_all

text \<open>Changes that leave links, ports and callbacks alone.\<close>

definition same_handlers :: "evtchn \<Rightarrow> evtchn \<Rightarrow> bool" where
  "same_handlers s s' \<longleftrightarrow>
     EventChannelHandlers s' = EventChannelHandlers s \<and> HeadEvtchnHandler s' = HeadEvtchnHandler s \<and>
     (\<forall>p. map_option (\<lambda>h. (hnext h, hprev h, xen_port h, handler h, hclass h, stopping h)) (heap s' p) =
          map_option (\<lambda>h. (hnext h, hprev h, xen_port h, handler h, hclass h, stopping h)) (heap s p))"

lemma same_handlers_refl [simp]: "same_handlers s s"
  by (simp add: same_handlers_def)

lemma same_handlers_trans: "same_handlers s s' \<Longrightarrow> same_handlers s' s'' \<Longrightarrow> same_handlers s s''"
  by (simp add: same_handlers_def)

lemma same_handlers_heap:
  assumes "same_handlers s s'" and "heap s p = Some h"
  shows "\<exists>h'. heap s' p = Some h' \<and> hnext h' = hnext h \<and> hprev h' = hprev h \<and> xen_port h' = xen_port h \<and>
    handler h' = handler h \<and> hclass h' = hclass h \<and> stopping h' = stopping h"
proof -
  have "map_option (\<lambda>h. (hnext h, hprev h, xen_port h, handler h, hclass h, stopping h)) (heap s' p) =
      map_option (\<lambda>h. (hnext h, hprev h, xen_port h, handler h, hclass h, stopping h)) (heap s p)"
    using assms(1) by (simp add: same_handlers_def)
  then show ?thesis using assms(2) by (cases "heap s' p") auto
qed

lemma same_handlers_none: "same_handlers s s' \<Longrightarrow> heap s p = None \<longleftrightarrow> heap s' p = None"
  unfolding same_handlers_def by (metis (no_types, lifting) map_option_is_None)

lemma evt_ok_same:
  assumes ok: "evt_ok s xs" and same: "same_handlers s s'"
    and "length (evtchn_pending (shared s')) = 64" and "length (evtchn_mask (shared s')) = 64"
  shows "evt_ok s' xs"
proof -
  note h = same_handlers_heap [OF same]
  have t: "EventChannelHandlers s' = EventChannelHandlers s" "HeadEvtchnHandler s' = HeadEvtchnHandler s"
    using same by (simp_all add: same_handlers_def)
  have "dll (heap s') None (HeadEvtchnHandler s') xs"
    unfolding t(2) by (rule dll_cong [OF _ evt_okD(5) [OF ok]]) (use h in blast)
  moreover have "\<exists>g. heap s' p = Some g \<and> handler_ok g" if "p \<in> set xs" for p
    using evt_okD(6) [OF ok that] h [of p] by (fastforce simp: handler_ok_def)
  moreover have "(\<exists>h. heap s' p = Some h \<and> xen_port h = int k) \<longleftrightarrow> (\<exists>h. heap s p = Some h \<and> xen_port h = int k)" for p k
  proof (cases "heap s p")
    case None
    then show ?thesis using same_handlers_none [OF same, of p] by simp
  next
    case (Some g)
    then show ?thesis using h [OF Some] by auto
  qed
  ultimately show ?thesis
    using assms(3,4) evt_okD [OF ok] t by (simp add: evt_ok_def)
qed

section \<open>Bits of ports\<close>

definition pbit :: "evtchn \<Rightarrow> nat \<Rightarrow> bool" where
  "pbit s q = bit (evtchn_pending (shared s) ! (q div 64)) (q mod 64)"

definition mbit :: "evtchn \<Rightarrow> nat \<Rightarrow> bool" where
  "mbit s q = bit (evtchn_mask (shared s) ! (q div 64)) (q mod 64)"

lemma div_mod_64: "(q div 64 = r div 64 \<and> q mod 64 = r mod 64) = (q = (r :: nat))"
  by (metis div_mult_mod_eq)

lemma bit_update:
  fixes b :: "u64 list"
  assumes "length b = 64" and "off < 4096" and "q < 4096"
  shows "bit (b[off div 64 := set_bit (off mod 64) (b ! (off div 64))] ! (q div 64)) (q mod 64) =
      (q = off \<or> bit (b ! (q div 64)) (q mod 64))"
    and "bit (b[off div 64 := unset_bit (off mod 64) (b ! (off div 64))] ! (q div 64)) (q mod 64) =
      (q \<noteq> off \<and> bit (b ! (q div 64)) (q mod 64))"
proof -
  have "off div 64 < 64" "q div 64 < 64" "off mod 64 < 64" "q mod 64 < 64" using assms by auto
  then show "bit (b[off div 64 := set_bit (off mod 64) (b ! (off div 64))] ! (q div 64)) (q mod 64) =
      (q = off \<or> bit (b ! (q div 64)) (q mod 64))"
    and "bit (b[off div 64 := unset_bit (off mod 64) (b ! (off div 64))] ! (q div 64)) (q mod 64) =
      (q \<noteq> off \<and> bit (b ! (q div 64)) (q mod 64))"
    using assms(1) div_mod_64 [of q off] by (auto simp: nth_list_update bit_set_bit_iff bit_unset_bit_iff)
qed

lemma mask_port_eval:
  assumes "length (evtchn_mask (shared s)) = 64" and "x < 4096"
  shows "\<exists>s'. on_shared (mask_port x) s = Inr s' \<and> s' = s\<lparr>shared := shared s'\<rparr> \<and> length (evtchn_mask (shared s')) = 64 \<and>
      evtchn_pending (shared s') = evtchn_pending (shared s) \<and> (\<forall>q < 4096. mbit s' q = (q = x \<or> mbit s q)) \<and>
      evtchn_upcall_pending (shared s') = evtchn_upcall_pending (shared s) \<and> evtchn_pending_sel (shared s') = evtchn_pending_sel (shared s)"
    and "\<exists>s'. on_shared (unmask_port x) s = Inr s' \<and> s' = s\<lparr>shared := shared s'\<rparr> \<and> length (evtchn_mask (shared s')) = 64 \<and>
      evtchn_pending (shared s') = evtchn_pending (shared s) \<and> (\<forall>q < 4096. mbit s' q = (q \<noteq> x \<and> mbit s q)) \<and>
      evtchn_upcall_pending (shared s') = evtchn_upcall_pending (shared s) \<and> evtchn_pending_sel (shared s') = evtchn_pending_sel (shared s)"
  using assms bit_update [OF assms]
  by (simp_all add: on_shared_def mask_port_def unmask_port_def on_mask_def SetBit_def ClearBit_def mbit_def)

lemma EvtchnClearEvtchn_eval:
  assumes "length (evtchn_pending (shared s)) = 64" and "x < 4096"
  shows "\<exists>s'. on_shared (EvtchnClearEvtchn x) s = Inr s' \<and> s' = s\<lparr>shared := shared s'\<rparr> \<and> length (evtchn_pending (shared s')) = 64 \<and>
      evtchn_mask (shared s') = evtchn_mask (shared s) \<and> (\<forall>q < 4096. pbit s' q = (q \<noteq> x \<and> pbit s q)) \<and>
      evtchn_upcall_pending (shared s') = evtchn_upcall_pending (shared s) \<and> evtchn_pending_sel (shared s') = evtchn_pending_sel (shared s)"
  using assms bit_update [OF assms]
  by (simp add: on_shared_def EvtchnClearEvtchn_def on_pending_def ClearBit_def pbit_def)

section \<open>Serving ports\<close>

text \<open>The handler of a port.\<close>

definition port_handler :: "evtchn \<Rightarrow> nat \<Rightarrow> evtchn_port_handler option" where
  "port_handler s q = (case EventChannelHandlers s ! q of None \<Rightarrow> None | Some p \<Rightarrow> heap s p)"

definition dpc_port :: "evtchn \<Rightarrow> nat \<Rightarrow> bool" where
  "dpc_port s q = (case port_handler s q of None \<Rightarrow> False | Some h \<Rightarrow> dpc_class (hclass h))"

definition callbacks :: "evtchn \<Rightarrow> nat list \<Rightarrow> nat list" where
  "callbacks s qs = map (\<lambda>q. the (handler (the (port_handler s q)))) (filter (\<lambda>q. port_handler s q \<noteq> None \<and> \<not> dpc_port s q) qs)"

text \<open>Queueing the DPCs of the handlers \<open>P\<close>: those that were not in the queue are appended, each once, and their \<open>insert_count\<close>
  is incremented; no other handler changes.\<close>

definition counted :: "evtchn_port_handler \<Rightarrow> evtchn_port_handler" where
  "counted h = h\<lparr>insert_count := insert_count h + 1\<rparr>"

definition newly_queued :: "evtchn \<Rightarrow> nat set \<Rightarrow> evtchn \<Rightarrow> bool" where
  "newly_queued s P s' \<longleftrightarrow>
     (\<exists>ps. dpcs s' = dpcs s @ ps \<and> distinct ps \<and> set ps = P - set (dpcs s) \<and>
       (\<forall>p. heap s' p = (if p \<in> set ps then map_option counted (heap s p) else heap s p)))"

lemma newly_queued_trans:
  assumes "newly_queued s P s'" and "newly_queued s' Q s''"
  shows "newly_queued s (P \<union> Q) s''"
proof -
  obtain ps where ps: "dpcs s' = dpcs s @ ps" "distinct ps" "set ps = P - set (dpcs s)"
    "\<And>p. heap s' p = (if p \<in> set ps then map_option counted (heap s p) else heap s p)"
    using assms(1) by (auto simp: newly_queued_def)
  obtain qs where qs: "dpcs s'' = dpcs s' @ qs" "distinct qs" "set qs = Q - set (dpcs s')"
    "\<And>p. heap s'' p = (if p \<in> set qs then map_option counted (heap s' p) else heap s' p)"
    using assms(2) by (auto simp: newly_queued_def)
  have new: "set ps \<inter> set qs = {}" using ps(1) qs(3) by auto
  have "heap s'' p = (if p \<in> set (ps @ qs) then map_option counted (heap s p) else heap s p)" for p
    using new ps(4) [of p] qs(4) [of p] by auto
  moreover have "dpcs s'' = dpcs s @ (ps @ qs)" "distinct (ps @ qs)" "set (ps @ qs) = P \<union> Q - set (dpcs s)"
    using ps(1-3) qs(1-3) new by auto
  ultimately show ?thesis unfolding newly_queued_def by blast
qed

lemma newly_queued_none: "dpcs s' = dpcs s \<Longrightarrow> heap s' = heap s \<Longrightarrow> newly_queued s {} s'"
  by (simp add: newly_queued_def)

lemma newly_queued_set: "newly_queued s P s' \<Longrightarrow> set (dpcs s') = set (dpcs s) \<union> P"
  by (auto simp: newly_queued_def)

text \<open>What serving the ports \<open>qs\<close> amounts to.\<close>

definition served_ports :: "evtchn \<Rightarrow> nat list \<Rightarrow> evtchn \<Rightarrow> bool" where
  "served_ports s qs s' \<longleftrightarrow>
     served s' = served s @ qs \<and> calls s' = calls s @ callbacks s qs \<and>
     newly_queued s {p. \<exists>q \<in> set qs. dpc_port s q \<and> EventChannelHandlers s ! q = Some p} s' \<and>
     (\<forall>q < 4096. pbit s' q = (pbit s q \<and> (q \<in> set qs \<longrightarrow> dpc_port s q)) \<and> mbit s' q = (mbit s q \<or> q \<in> set qs \<and> dpc_port s q)) \<and>
     same_handlers s s' \<and> EvtchnStarted s' = EvtchnStarted s \<and> hypercalls s' = hypercalls s \<and>
     last_evtchn_serviced s' = (if qs = [] then last_evtchn_serviced s else of_nat (last qs)) \<and>
     evtchn_upcall_pending (shared s') = evtchn_upcall_pending (shared s) \<and> evtchn_pending_sel (shared s') = evtchn_pending_sel (shared s)"

lemma port_handler_same: "same_handlers s s' \<Longrightarrow>
  map_option (\<lambda>h. (handler h, hclass h)) (port_handler s' q) = map_option (\<lambda>h. (handler h, hclass h)) (port_handler s q)"
proof -
  assume same: "same_handlers s s'"
  have "map_option (\<lambda>h. (handler h, hclass h)) (heap s' p) = map_option (\<lambda>h. (handler h, hclass h)) (heap s p)" for p
  proof (cases "heap s p")
    case None
    then show ?thesis using same_handlers_none [OF same, of p] by simp
  next
    case (Some h)
    then show ?thesis using same_handlers_heap [OF same Some] by auto
  qed
  moreover have "EventChannelHandlers s' = EventChannelHandlers s" using same by (simp add: same_handlers_def)
  ultimately show ?thesis by (simp add: port_handler_def split: option.splits)
qed

lemma same_ports:
  assumes "same_handlers s s'"
  shows "dpc_port s' q = dpc_port s q" and "callbacks s' qs = callbacks s qs"
proof -
  have d: "dpc_port s' q = dpc_port s q" for q
    using port_handler_same [OF assms, of q]
    by (cases "port_handler s q"; cases "port_handler s' q") (simp_all add: dpc_port_def)
  then show "dpc_port s' q = dpc_port s q" .
  have n: "(port_handler s' q = None) = (port_handler s q = None)" for q
    using port_handler_same [OF assms, of q] by (cases "port_handler s q"; cases "port_handler s' q") simp_all
  have c: "handler (the (port_handler s' q)) = handler (the (port_handler s q))" if "port_handler s q \<noteq> None" for q
    using port_handler_same [OF assms, of q] that by (cases "port_handler s q"; cases "port_handler s' q") simp_all
  show "callbacks s' qs = callbacks s qs"
    unfolding callbacks_def using d n c by (induction qs) simp_all
qed

lemma served_ports_trans:
  assumes "served_ports s qs s'" and "served_ports s' rs s''"
  shows "served_ports s (qs @ rs) s''"
proof -
  have same: "same_handlers s s'" using assms(1) by (simp add: served_ports_def)
  have t: "EventChannelHandlers s' = EventChannelHandlers s" using same by (simp add: same_handlers_def)
  note p = same_ports [OF same]
  have "{x. \<exists>q \<in> set (qs @ rs). dpc_port s q \<and> EventChannelHandlers s ! q = Some x} =
      {x. \<exists>q \<in> set qs. dpc_port s q \<and> EventChannelHandlers s ! q = Some x} \<union>
      {x. \<exists>q \<in> set rs. dpc_port s q \<and> EventChannelHandlers s ! q = Some x}" by auto
  then have "newly_queued s {x. \<exists>q \<in> set (qs @ rs). dpc_port s q \<and> EventChannelHandlers s ! q = Some x} s''"
    using newly_queued_trans [of s _ s' _ s''] assms unfolding served_ports_def p t by simp
  moreover have "same_handlers s s''" using assms(2) same_handlers_trans [OF same] by (simp add: served_ports_def)
  moreover have "last_evtchn_serviced s'' = (if qs @ rs = [] then last_evtchn_serviced s else of_nat (last (qs @ rs)))"
    using assms by (auto simp: served_ports_def)
  moreover have "pbit s'' q = (pbit s q \<and> (q \<in> set (qs @ rs) \<longrightarrow> dpc_port s q)) \<and>
      mbit s'' q = (mbit s q \<or> q \<in> set (qs @ rs) \<and> dpc_port s q)" if "q < 4096" for q
    using assms that unfolding served_ports_def p by auto
  ultimately show ?thesis
    using assms unfolding served_ports_def p t by (simp add: callbacks_def)
qed

lemma served_ports_Nil [simp]: "served_ports s [] s"
  by (simp add: served_ports_def callbacks_def newly_queued_none)

lemma Fire_port_eval:
  assumes ok: "evt_ok s xs" and x: "x < 256"
  shows "\<exists>s'. Fire_port x s = Inr s' \<and> evt_ok s' xs \<and> served_ports s [x] s'"
proof -
  let ?s = "s\<lparr>last_evtchn_serviced := of_nat x, served := served s @ [x]\<rparr>"
  have l: "length (evtchn_pending (shared ?s)) = 64" "length (evtchn_mask (shared ?s)) = 64" "x < 4096"
    using evt_okD(1,2) [OF ok] x by simp_all
  have same: "same_handlers s ?s" by (simp add: same_handlers_def)
  obtain s1 where s1: "on_shared (mask_port x) ?s = Inr s1" "s1 = ?s\<lparr>shared := shared s1\<rparr>"
    "length (evtchn_mask (shared s1)) = 64" "evtchn_pending (shared s1) = evtchn_pending (shared s)"
    "\<forall>q < 4096. mbit s1 q = (q = x \<or> mbit ?s q)" "evtchn_upcall_pending (shared s1) = evtchn_upcall_pending (shared s)"
    "evtchn_pending_sel (shared s1) = evtchn_pending_sel (shared s)"
    using mask_port_eval(1) [OF l(2,3)] by auto
  obtain s2 where s2: "on_shared (EvtchnClearEvtchn x) ?s = Inr s2" "s2 = ?s\<lparr>shared := shared s2\<rparr>"
    "length (evtchn_pending (shared s2)) = 64" "evtchn_mask (shared s2) = evtchn_mask (shared s)"
    "\<forall>q < 4096. pbit s2 q = (q \<noteq> x \<and> pbit ?s q)" "evtchn_upcall_pending (shared s2) = evtchn_upcall_pending (shared s)"
    "evtchn_pending_sel (shared s2) = evtchn_pending_sel (shared s)"
    using EvtchnClearEvtchn_eval [OF l(1,3)] by auto
  show ?thesis
  proof (cases "EventChannelHandlers s ! x")
    case None
    have "Fire_port x s = Inr s2" using None s2(1) evt_okD(3) [OF ok] x by (simp add: Fire_port_def)
    moreover have sm: "same_handlers s s2" by (subst s2(2)) (simp add: same_handlers_def)
    moreover have "evt_ok s2 xs" using evt_ok_same [OF ok sm] s2 l by simp
    moreover have rest: "served s2 = served s @ [x]" "calls s2 = calls s" "dpcs s2 = dpcs s" "heap s2 = heap s"
      "EvtchnStarted s2 = EvtchnStarted s" "hypercalls s2 = hypercalls s" "last_evtchn_serviced s2 = of_nat x"
      by (subst s2(2), simp)+
    ultimately show ?thesis
      using s2 None l(3) newly_queued_none [OF rest(3,4)]
      by (auto simp: served_ports_def callbacks_def port_handler_def dpc_port_def pbit_def mbit_def)
  next
    case (Some p)
    then obtain h where h: "heap s p = Some h" "xen_port h = int x" "handler_ok h"
      using evt_okD(7) [OF ok x, of p] evt_okD(6) [OF ok, of p] by auto
    then obtain cb where cb: "handler h = Some cb" "\<not> stopping h" by (auto simp: handler_ok_def)
    have ph: "port_handler s x = Some h" using Some h by (simp add: port_handler_def)
    have fp: "Fire_port x s = FireHandler ?s p" using Some evt_okD(3) [OF ok] x by (simp add: Fire_port_def)
    show ?thesis
    proof (cases "dpc_class (hclass h)")
      case True
      have hp: "heap s1 p = Some h" "dpcs s1 = dpcs s" "served s1 = served s @ [x]" "calls s1 = calls s"
        "heap s1 = heap s" "EvtchnStarted s1 = EvtchnStarted s" "hypercalls s1 = hypercalls s" "last_evtchn_serviced s1 = of_nat x"
        by (subst s1(2), simp add: h(1))+
      define s3 where "s3 = (if p \<in> set (dpcs s) then s1 else (set_port s1 p (h\<lparr>insert_count := insert_count h + 1\<rparr>))\<lparr>dpcs := dpcs s @ [p]\<rparr>)"
      have "Fire_port x s = Inr s3"
        using fp h True s1(1) cb hp(2) by (simp add: FireHandler_def with_port_def s3_def)
      moreover have "same_handlers s s1" by (subst s1(2)) (simp add: same_handlers_def)
      then have sm: "same_handlers s s3" using hp(1) h(1) by (auto simp: s3_def same_handlers_def set_port_def)
      have sh: "shared s3 = shared s1" "served s3 = served s1" "calls s3 = calls s1" "EvtchnStarted s3 = EvtchnStarted s1"
        "hypercalls s3 = hypercalls s1" "last_evtchn_serviced s3 = last_evtchn_serviced s1" by (simp_all add: s3_def set_port_def)
      then have "evt_ok s3 xs" using evt_ok_same [OF ok sm] s1 l by simp
      moreover have "newly_queued s {p} s3"
        unfolding newly_queued_def using hp(1,2,5) h(1)
        by (intro exI [of _ "if p \<in> set (dpcs s) then [] else [p]"]) (auto simp: s3_def set_port_def counted_def)
      moreover have "{p'. dpc_port s x \<and> EventChannelHandlers s ! x = Some p'} = {p}" using Some ph True by (auto simp: dpc_port_def)
      ultimately show ?thesis
        using sm sh s1 hp Some True ph l(3)
        by (auto simp: served_ports_def callbacks_def dpc_port_def pbit_def mbit_def)
    next
      case False
      have hp: "dpcs s2 = dpcs s" "served s2 = served s @ [x]" "calls s2 = calls s" "heap s2 = heap s"
        "EvtchnStarted s2 = EvtchnStarted s" "hypercalls s2 = hypercalls s" "last_evtchn_serviced s2 = of_nat x"
        by (subst s2(2), simp)+
      let ?s3 = "s2\<lparr>calls := calls s @ [cb]\<rparr>"
      have "Fire_port x s = Inr ?s3"
        using fp h False s2(1) cb hp(3) by (simp add: FireHandler_def with_port_def)
      moreover have "same_handlers s s2" by (subst s2(2)) (simp add: same_handlers_def)
      then have sm: "same_handlers s ?s3" by (simp add: same_handlers_def)
      moreover have "evt_ok ?s3 xs" using evt_ok_same [OF ok sm] s2 l by simp
      moreover have "newly_queued s {} ?s3" using hp by (intro newly_queued_none) simp_all
      ultimately show ?thesis
        using s2 hp Some False ph cb l(3)
        by (auto simp: served_ports_def callbacks_def dpc_port_def pbit_def mbit_def)
    qed
  qed
qed

text \<open>The bits a scan finds, in its order.\<close>

fun scan :: "nat \<Rightarrow> nat \<Rightarrow> u64 \<Rightarrow> nat list" where
  "scan 0 sub w = []"
| "scan (Suc n) sub w =
     (if bit w sub then sub # scan n ((sub + 1) mod 64) (unset_bit sub w) else scan n ((sub + 1) mod 64) w)"

definition ahead :: "nat \<Rightarrow> nat \<Rightarrow> nat set" where
  "ahead n sub = (\<lambda>i. (sub + i) mod 64) ` {..<n}"

lemma ahead_Suc: "sub < 64 \<Longrightarrow> ahead (Suc n) sub = insert sub (ahead n ((sub + 1) mod 64))"
proof -
  assume "sub < 64"
  have "(\<lambda>i. (sub + i) mod 64) ` Suc ` {..<n} = (\<lambda>i. ((sub + 1) mod 64 + i) mod 64) ` {..<n}"
    unfolding image_image by (intro image_cong refl) (simp add: mod_simps)
  then show ?thesis using \<open>sub < 64\<close> by (simp add: ahead_def lessThan_Suc_eq_insert_0)
qed

lemma ahead_all: "sub < 64 \<Longrightarrow> b < 64 \<Longrightarrow> b \<in> ahead 64 sub"
proof -
  assume "sub < 64" "b < 64"
  then have "b = (sub + (b + 64 - sub) mod 64) mod 64" by (simp add: mod_simps)
  then show ?thesis unfolding ahead_def by (intro image_eqI [where x = "(b + 64 - sub) mod 64"]) auto
qed

lemma u64_bit_less: "bit (w :: u64) b \<Longrightarrow> b < 64"
  by (auto dest: bit_imp_le_length)

lemma bit_unset_other: "bit (unset_bit sub (w :: u64)) b = (b \<noteq> sub \<and> bit w b)"
  by (auto simp: bit_unset_bit_iff)

lemma scan_spec: "sub < 64 \<Longrightarrow> (\<And>b. bit w b \<Longrightarrow> b \<in> ahead n sub) \<Longrightarrow> set (scan n sub w) = {b. bit w b} \<and> distinct (scan n sub w)"
proof (induction n arbitrary: sub w)
  case 0
  then show ?case by (auto simp: ahead_def)
next
  case (Suc n)
  have lt: "(sub + 1) mod 64 < 64" by simp
  show ?case
  proof (cases "bit w sub")
    case True
    have r: "b \<in> ahead n ((sub + 1) mod 64)" if "bit (unset_bit sub w) b" for b
      using Suc.prems(2) [of b] that ahead_Suc [OF Suc.prems(1), of n] by (auto simp: bit_unset_other)
    show ?thesis using Suc.IH [of "(sub + 1) mod 64" "unset_bit sub w", OF lt r] True by (auto simp: bit_unset_other)
  next
    case False
    have r: "b \<in> ahead n ((sub + 1) mod 64)" if "bit w b" for b
      using Suc.prems(2) [OF that] that False ahead_Suc [OF Suc.prems(1), of n] by auto
    show ?thesis using Suc.IH [of "(sub + 1) mod 64" w, OF lt r] False by auto
  qed
qed

lemma scan_0 [simp]: "scan n sub 0 = []"
  by (induction n arbitrary: sub) simp_all

lemma no_bits: "(\<And>b. \<not> bit (w :: u64) b) \<Longrightarrow> w = 0"
  by (intro bit_eqI) simp

lemma Sub_loop_eval:
  "evt_ok s xs \<Longrightarrow> sub < 64 \<Longrightarrow> (\<And>b. bit w b \<Longrightarrow> b \<in> ahead n sub \<and> t * 64 + b < 256) \<Longrightarrow>
    \<exists>s'. Sub_loop n t sub w s = Inr s' \<and> evt_ok s' xs \<and> served_ports s (map (\<lambda>b. t * 64 + b) (scan n sub w)) s'"
proof (induction n arbitrary: sub w s)
  case 0
  then have "w = 0" by (intro no_bits) (auto simp: ahead_def)
  then show ?case using 0 by (simp add: Sub_loop.simps)
next
  case (Suc n)
  have lt: "(sub + 1) mod 64 < 64" by simp
  note a = ahead_Suc [OF Suc.prems(2), of n]
  consider (zero) "w = 0" | (hit) "bit w sub" "w \<noteq> 0" | (miss) "\<not> bit w sub" "w \<noteq> 0" by blast
  then show ?case
  proof cases
    case zero
    then show ?thesis using Suc.prems by (simp add: Sub_loop.simps)
  next
    case hit
    obtain s1 where s1: "Fire_port (t * 64 + sub) s = Inr s1" "evt_ok s1 xs" "served_ports s [t * 64 + sub] s1"
      using Fire_port_eval [OF Suc.prems(1)] Suc.prems(3) [OF hit(1)] by blast
    have r: "b \<in> ahead n ((sub + 1) mod 64) \<and> t * 64 + b < 256" if "bit (unset_bit sub w) b" for b
      using Suc.prems(3) [of b] that a by (auto simp: bit_unset_other)
    obtain s' where "Sub_loop n t ((sub + 1) mod 64) (unset_bit sub w) s1 = Inr s'" "evt_ok s' xs"
      "served_ports s1 (map (\<lambda>b. t * 64 + b) (scan n ((sub + 1) mod 64) (unset_bit sub w))) s'"
      using Suc.IH [OF s1(2) lt r] by blast
    then show ?thesis using s1 hit served_ports_trans [OF s1(3)] by (auto simp: Sub_loop.simps [of "Suc n"])
  next
    case miss
    have "b \<in> ahead n ((sub + 1) mod 64) \<and> t * 64 + b < 256" if "bit w b" for b
      using Suc.prems(3) [OF that] that a miss by auto
    then show ?thesis using Suc.IH [OF Suc.prems(1) lt, of w] miss by (simp add: Sub_loop.simps [of "Suc n"])
  qed
qed

lemma pending_word_bit: "b < 64 \<Longrightarrow> bit (pending_word s t) b = (pbit s (t * 64 + b) \<and> \<not> mbit s (t * 64 + b))"
  by (simp add: pending_word_def pbit_def mbit_def bit_and_iff bit_not_iff)

definition due :: "evtchn \<Rightarrow> u64 \<Rightarrow> nat set" where
  "due s sel = {q. bit sel (q div 64) \<and> pbit s q \<and> \<not> mbit s q}"

lemma due_word: "bit sel t \<Longrightarrow> bit (pending_word s t) b \<Longrightarrow> t * 64 + b \<in> due s sel"
  using pending_word_bit [of b s t] u64_bit_less [of "pending_word s t" b] by (simp add: due_def)

lemma due_served:
  assumes "served_ports s qs s'" and "\<And>q. q \<in> set qs \<Longrightarrow> q div 64 = t"
  shows "due s' (unset_bit t sel) = {q \<in> due s sel. q div 64 \<noteq> t}"
proof -
  have "q < 4096" if "bit sel (q div 64)" for q using u64_bit_less [OF that] by simp
  then show ?thesis using assms by (auto simp: due_def served_ports_def bit_unset_other)
qed

lemma Sel_loop_eval:
  "evt_ok s xs \<Longrightarrow> top1 < 64 \<Longrightarrow> sub < 64 \<Longrightarrow> (\<And>t. bit sel t \<Longrightarrow> t \<in> ahead n top1) \<Longrightarrow> (\<And>q. q \<in> due s sel \<Longrightarrow> q < 256) \<Longrightarrow>
    \<exists>s' qs. Sel_loop n top1 sub sel s = Inr s' \<and> evt_ok s' xs \<and> served_ports s qs s' \<and> distinct qs \<and> set qs = due s sel"
proof (induction n arbitrary: top1 sub sel s)
  case 0
  then have "sel = 0" by (intro no_bits) (auto simp: ahead_def)
  then show ?case using 0 by (intro exI [of _ s] exI [of _ "[]"]) (simp add: Sel_loop.simps due_def)
next
  case (Suc n)
  have lt: "(top1 + 1) mod 64 < 64" "(0 :: nat) < 64" by simp_all
  note a = ahead_Suc [OF Suc.prems(2), of n]
  consider (zero) "sel = 0" | (hit) "bit sel top1" "sel \<noteq> 0" | (miss) "\<not> bit sel top1" "sel \<noteq> 0" by blast
  then show ?case
  proof cases
    case zero
    then show ?thesis using Suc.prems(1) by (intro exI [of _ s] exI [of _ "[]"]) (simp add: Sel_loop.simps due_def)
  next
    case hit
    let ?w = "pending_word s top1" and ?qs = "map (\<lambda>b. top1 * 64 + b) (scan 64 sub (pending_word s top1))"
    have cov: "b \<in> ahead 64 sub" if "bit ?w b" for b using ahead_all [OF Suc.prems(3)] u64_bit_less [OF that] by blast
    have sc: "set (scan 64 sub ?w) = {b. bit ?w b}" "distinct (scan 64 sub ?w)" using scan_spec [OF Suc.prems(3) cov] by blast+
    have in_due: "top1 * 64 + b < 256" if "bit ?w b" for b using Suc.prems(5) due_word [OF hit(1) that] by blast
    obtain s1 where s1: "Sub_loop 64 top1 sub ?w s = Inr s1" "evt_ok s1 xs" "served_ports s ?qs s1"
      using Sub_loop_eval [OF Suc.prems(1,3), of ?w 64 top1] cov in_due by blast
    have dv: "q div 64 = top1" if "q \<in> set ?qs" for q using that sc(1) u64_bit_less [of ?w] by fastforce
    have d1: "due s1 (unset_bit top1 sel) = {q \<in> due s sel. q div 64 \<noteq> top1}" by (rule due_served [OF s1(3) dv])
    have r: "t \<in> ahead n ((top1 + 1) mod 64)" if "bit (unset_bit top1 sel) t" for t
      using Suc.prems(4) [of t] that a by (auto simp: bit_unset_other)
    obtain s' rs where s': "Sel_loop n ((top1 + 1) mod 64) 0 (unset_bit top1 sel) s1 = Inr s'" "evt_ok s' xs" "served_ports s1 rs s'"
      "distinct rs" "set rs = due s1 (unset_bit top1 sel)"
      using Suc.IH [OF s1(2) lt r] d1 Suc.prems(5) by blast
    have "set ?qs = {q \<in> due s sel. q div 64 = top1}"
    proof (intro set_eqI iffI)
      fix q assume "q \<in> set ?qs"
      then show "q \<in> {q \<in> due s sel. q div 64 = top1}" using dv due_word [OF hit(1)] sc(1) by auto
    next
      fix q assume q: "q \<in> {q \<in> due s sel. q div 64 = top1}"
      then have e: "q = top1 * 64 + q mod 64" by auto
      then have "bit ?w (q mod 64)" using q pending_word_bit [of "q mod 64" s top1] by (simp add: due_def)
      then show "q \<in> set ?qs" using e sc(1) by (metis image_eqI list.set_map mem_Collect_eq)
    qed
    then have "distinct (?qs @ rs)" "set (?qs @ rs) = due s sel"
      using sc(2) s'(4,5) d1 by (auto simp: distinct_map inj_on_def)
    moreover have "Sel_loop (Suc n) top1 sub sel s = Inr s'"
      using hit s1(1) s'(1) Suc.prems(2) by (simp add: Sel_loop.simps [of "Suc n"])
    ultimately show ?thesis using s'(2) served_ports_trans [OF s1(3) s'(3)] by blast
  next
    case miss
    have "t \<in> ahead n ((top1 + 1) mod 64)" if "bit sel t" for t using Suc.prems(4) [OF that] that a miss by auto
    then show ?thesis using Suc.IH [OF Suc.prems(1) lt, of sel] Suc.prems(2,5) miss by (simp add: Sel_loop.simps [of "Suc n"])
  qed
qed

section \<open>Registering\<close>

text \<open>What registering a handler does to the others.\<close>

lemma register_handler_ok:
  assumes ok: "evt_ok s xs" and p: "p \<notin> set xs" "heap s p = Some h" "handler_ok h" "xen_port h = int x"
    and free: "EventChannelHandlers s ! x = None"
  shows "\<exists>s'. register_handler s p = Inr (True, s') \<and> evt_ok s' (p # xs) \<and> hypercalls s' = hypercalls s \<and>
    EventChannelHandlers s' = (EventChannelHandlers s)[x := Some p] \<and> \<not> mbit s' x \<and>
    (\<forall>q. map_option (\<lambda>h. (xen_port h, handler h, hclass h)) (heap s' q) = map_option (\<lambda>h. (xen_port h, handler h, hclass h)) (heap s q)) \<and>
    (\<forall>q. q \<notin> set (p # xs) \<longrightarrow> heap s' q = heap s q)"
proof -
  have x: "x < 256" using p(3,4) by (simp add: handler_ok_def)
  define H where "H = (heap s)(p \<mapsto> h\<lparr>hnext := HeadEvtchnHandler s, hprev := None\<rparr>)"
  define H' where "H' = (case xs of [] \<Rightarrow> H | q # _ \<Rightarrow> H(q \<mapsto> (the (H q))\<lparr>hprev := Some p\<rparr>))"
  let ?s = "s\<lparr>EventChannelHandlers := (EventChannelHandlers s)[x := Some p], heap := H', HeadEvtchnHandler := Some p\<rparr>"
  have hd: "HeadEvtchnHandler s = (case xs of [] \<Rightarrow> None | q # _ \<Rightarrow> Some q)" using dll_head evt_okD(5) [OF ok] by blast
  have hq: "\<exists>g. H q = Some g \<and> heap s q = Some g" if "q \<in> set xs" for q
    using evt_okD(6) [OF ok that] that p(1) by (auto simp: H_def)
  have sv: "on_shared f (t\<lparr>heap := G\<rparr>) = res_bind (on_shared f t) (\<lambda>t. Inr (t\<lparr>heap := G\<rparr>))" for f t G
    by (cases "f (shared t)") (simp_all add: on_shared_def)
  obtain s' where s': "on_shared (unmask_port x) ?s = Inr s'" "s' = ?s\<lparr>shared := shared s'\<rparr>" "length (evtchn_mask (shared s')) = 64"
    "evtchn_pending (shared s') = evtchn_pending (shared s)" "\<not> mbit s' x"
    using mask_port_eval(2) [of ?s x] evt_okD(2) [OF ok] x by auto
  have f: "heap s' = H'" "EventChannelHandlers s' = (EventChannelHandlers s)[x := Some p]" "HeadEvtchnHandler s' = Some p"
    "hypercalls s' = hypercalls s"
    by (subst s'(2), simp)+
  have e1: "xen_port h < 256" "0 \<le> xen_port h" "nat (xen_port h) = x" using p(3,4) by (simp_all add: handler_ok_def)
  have "register_handler s p = Inr (True, s')"
  proof (cases xs)
    case Nil
    then show ?thesis
      using p(2) e1 free hd s'(1) by (simp add: register_handler_def with_port_def set_port_def H'_def H_def Let_def)
  next
    case (Cons q ys)
    then obtain g where g: "H q = Some g" using hq [of q] by auto
    then show ?thesis
      using p(2) e1 free hd s'(1) Cons by (simp add: register_handler_def with_port_def set_port_def H'_def H_def Let_def)
  qed
  moreover have "map_option (\<lambda>h. (xen_port h, handler h, hclass h)) (H' q) = map_option (\<lambda>h. (xen_port h, handler h, hclass h)) (heap s q)" for q
  proof (cases xs)
    case (Cons r ys)
    then show ?thesis using hq [of r] p(2) by (auto simp: H'_def H_def)
  qed (use p(2) in \<open>simp add: H'_def H_def\<close>)
  moreover have out: "H' q = heap s q" if "q \<notin> set (p # xs)" for q
    using that by (auto simp: H'_def H_def split: list.splits)
  moreover have "evt_ok s' (p # xs)"
  proof -
    have keep: "\<exists>g'. H' q = Some g' \<and> xen_port g' = xen_port g \<and> handler g' = handler g \<and> stopping g' = stopping g" if "heap s q = Some g" for q g
      using that hq p(1,2) by (cases xs) (auto simp: H'_def H_def)
    have hp: "\<exists>g. H' p = Some g \<and> hprev g = None \<and> hnext g = HeadEvtchnHandler s \<and> handler_ok g \<and> xen_port g = int x"
      using p by (auto simp: H'_def H_def handler_ok_def split: list.splits)
    have "dll H' (Some p) (HeadEvtchnHandler s) xs"
    proof (cases xs)
      case (Cons q ys)
      then obtain g where g: "heap s q = Some g" "dll (heap s) (Some q) (hnext g) ys" using evt_okD(5) [OF ok] by auto
      have "H q = Some g" using hq [of q] g(1) Cons by auto
      moreover have "dll H' (Some q) (hnext g) ys"
      proof (rule dll_cong [OF _ g(2)])
        fix y k assume "y \<in> set ys" "heap s y = Some k"
        then have "H' y = Some k" using p(1) evt_okD(4) [OF ok] Cons by (auto simp: H'_def H_def)
        then show "\<exists>h'. H' y = Some h' \<and> hnext h' = hnext k \<and> hprev h' = hprev k" by simp
      qed
      ultimately show ?thesis using hd Cons by (simp add: H'_def)
    qed (use hd in simp)
    moreover have "\<exists>g. H' q = Some g \<and> handler_ok g" if "q \<in> set xs" for q
      using evt_okD(6) [OF ok that] keep by (fastforce simp: handler_ok_def)
    moreover have "(EventChannelHandlers s)[x := Some p] ! k = Some q \<longleftrightarrow> q \<in> set (p # xs) \<and> (\<exists>g. H' q = Some g \<and> xen_port g = int k)"
      if k: "k < 256" for k q
    proof (cases "q = p")
      case True
      then show ?thesis using hp x evt_okD(3) [OF ok] evt_okD(7) [OF ok k, of p] p(1) by (auto simp: nth_list_update)
    next
      case False
      have none: "\<not> (q \<in> set xs \<and> (\<exists>g. heap s q = Some g \<and> xen_port g = int x))" using evt_okD(7) [OF ok x, of q] free by simp
      have "(\<exists>g. H' q = Some g \<and> xen_port g = int k) \<longleftrightarrow> (\<exists>g. heap s q = Some g \<and> xen_port g = int k)" if "q \<in> set xs"
        using evt_okD(6) [OF ok that] keep [of q] by fastforce
      then show ?thesis using False x evt_okD(3) [OF ok] evt_okD(7) [OF ok k, of q] none by (auto simp: nth_list_update)
    qed
    moreover obtain g where "H' p = Some g" "hprev g = None" "hnext g = HeadEvtchnHandler s" "handler_ok g" using hp by blast
    ultimately show ?thesis
      using evt_okD(1,3,4) [OF ok] s'(3,4) p(1) unfolding evt_ok_def f by simp
  qed
  ultimately show ?thesis using f s'(5) by auto
qed

section \<open>Recovery\<close>

text \<open>The port a handler gets when it is bound as the \<open>n\<close>-th hypercall, and the handlers that are bound again.\<close>

definition new_port :: "xen_ops \<Rightarrow> evtchn_port_handler \<Rightarrow> nat \<Rightarrow> nat option" where
  "new_port X g n =
     (if hclass g = EVTCHN_CLASS_FIXED then Some (nat (xen_port g))
      else if fst (X n) = 0 then Some (unat (snd (X n))) else None)"

definition asks :: "evtchn_port_handler \<Rightarrow> nat" where
  "asks g = (if hclass g = EVTCHN_CLASS_FIXED then 0 else 1)"

fun rebound :: "xen_ops \<Rightarrow> (nat \<Rightarrow> evtchn_port_handler option) \<Rightarrow> nat \<Rightarrow> nat list \<Rightarrow> (nat \<times> nat) list" where
  "rebound X H n [] = []"
| "rebound X H n (p # ps) =
     (case H p of
        None \<Rightarrow> []
      | Some g \<Rightarrow> (case new_port X g n of None \<Rightarrow> [] | Some k \<Rightarrow> [(p, k)]) @ rebound X H (n + asks g) ps)"

fun links :: "(nat \<Rightarrow> evtchn_port_handler option) \<Rightarrow> nat option \<Rightarrow> nat list \<Rightarrow> bool" where
  "links H h [] \<longleftrightarrow> h = None"
| "links H h (x # xs) \<longleftrightarrow> h = Some x \<and> (\<exists>g. H x = Some g \<and> links H (hnext g) xs)"

lemma dll_links: "dll H prev h xs \<Longrightarrow> links H h xs"
  by (induction xs arbitrary: prev h) auto

lemma links_cong: "(\<And>x. x \<in> set xs \<Longrightarrow> H' x = H x) \<Longrightarrow> links H h xs \<Longrightarrow> links H' h xs"
  by (induction xs arbitrary: h) auto

lemma rebound_cong: "(\<And>x. x \<in> set xs \<Longrightarrow> H' x = H x) \<Longrightarrow> rebound X H' n xs = rebound X H n xs"
  by (induction xs arbitrary: n) (auto split: option.splits)

lemma rebound_fst: "p \<in> fst ` set (rebound X H n xs) \<Longrightarrow> p \<in> set xs"
  by (induction xs arbitrary: n) (auto split: option.splits)

definition revivable :: "evtchn \<Rightarrow> nat \<Rightarrow> bool" where
  "revivable s p \<longleftrightarrow> (\<exists>g. heap s p = Some g \<and> 0 \<le> xen_port g \<and> handler g \<noteq> None \<and> \<not> stopping g)"

definition same_users :: "evtchn \<Rightarrow> evtchn \<Rightarrow> bool" where
  "same_users s s' \<longleftrightarrow> (\<forall>q. map_option (\<lambda>h. (handler h, hclass h)) (heap s' q) = map_option (\<lambda>h. (handler h, hclass h)) (heap s q))"

lemma small_word: "unat (w :: u32) < 256 \<Longrightarrow> sint w = int (unat w)"
proof -
  assume "unat w < 256"
  moreover have "int (unat w) = uint w" by simp
  ultimately have "uint w < 256" "0 \<le> uint w" by linarith+
  then have "signed_take_bit 31 (uint w) = uint w"
    by (intro signed_take_bit_int_eq_self order_trans [OF _ \<open>0 \<le> uint w\<close>]) simp_all
  then show ?thesis by (simp add: sint_uint)
qed

lemma same_usersI:
  assumes "\<And>q. map_option (\<lambda>h. (xen_port h, handler h, hclass h)) (heap s' q) = map_option (\<lambda>h. (xen_port h, handler h, hclass h)) (heap s q)"
  shows "same_users s s'"
proof -
  have "map_option (\<lambda>h. (handler h, hclass h)) (heap s' q) = map_option (\<lambda>h. (handler h, hclass h)) (heap s q)" for q
    using assms [of q] by (cases "heap s' q"; cases "heap s q") auto
  then show ?thesis by (simp add: same_users_def)
qed

lemma same_users_trans: "same_users s s' \<Longrightarrow> same_users s' s'' \<Longrightarrow> same_users s s''"
  by (simp add: same_users_def)

lemma reconstruct_ok:
  assumes ok: "evt_ok s ys" and p: "p \<notin> set ys" "heap s p = Some g" "revivable s p"
    and k: "new_port X g (hypercalls s) = Some k" "k < 256" "EventChannelHandlers s ! k = None"
  shows "\<exists>s'. reconstruct_handler X s p = Inr (True, s') \<and> evt_ok s' (p # ys) \<and> hypercalls s' = hypercalls s + asks g \<and>
    EventChannelHandlers s' = (EventChannelHandlers s)[k := Some p] \<and> same_users s s' \<and>
    (\<forall>q. q \<notin> set (p # ys) \<longrightarrow> heap s' q = heap s q)"
proof (cases "hclass g = EVTCHN_CLASS_FIXED")
  case True
  then have x: "xen_port g = int k" "handler_ok g" using p(2,3) k by (auto simp: new_port_def revivable_def handler_ok_def)
  obtain s' where "register_handler s p = Inr (True, s')" "evt_ok s' (p # ys)" "hypercalls s' = hypercalls s"
    "EventChannelHandlers s' = (EventChannelHandlers s)[k := Some p]" "same_users s s'" "\<forall>q. q \<notin> set (p # ys) \<longrightarrow> heap s' q = heap s q"
    using register_handler_ok [OF ok p(1,2) x(2,1) k(3)] same_usersI by blast
  then show ?thesis using True p(2) by (auto simp: reconstruct_handler_def with_port_def asks_def)
next
  case False
  obtain port where X: "X (hypercalls s) = (0, port)" "unat port = k"
    using k(1) False by (cases "X (hypercalls s)") (auto simp: new_port_def split: if_splits)
  let ?g = "g\<lparr>xen_port := sint port\<rparr>" and ?s = "set_port (s\<lparr>hypercalls := hypercalls s + 1\<rparr>) p (g\<lparr>xen_port := sint port\<rparr>)"
  have x: "xen_port ?g = int k" "handler_ok ?g"
    using small_word [of port] X(2) k(2) p(2,3) by (auto simp: revivable_def handler_ok_def)
  have other: "heap ?s q = heap s q" if "q \<in> set ys" for q using that p(1) by (auto simp: set_port_def)
  have f: "shared ?s = shared s" "EventChannelHandlers ?s = EventChannelHandlers s" "HeadEvtchnHandler ?s = HeadEvtchnHandler s"
    by (simp_all add: set_port_def)
  have "dll (heap ?s) None (HeadEvtchnHandler s) ys"
    by (rule dll_cong [OF _ evt_okD(5) [OF ok]]) (use other in metis)
  then have ok1: "evt_ok ?s ys"
    using evt_okD [OF ok] other unfolding evt_ok_def f by (simp cong: conj_cong)
  have h1: "heap ?s p = Some ?g" and t1: "EventChannelHandlers ?s ! k = None" using k(3) by (simp_all add: set_port_def)
  obtain s' where s': "register_handler ?s p = Inr (True, s')" "evt_ok s' (p # ys)" "hypercalls s' = hypercalls ?s"
    "EventChannelHandlers s' = (EventChannelHandlers ?s)[k := Some p]"
    "\<forall>q. map_option (\<lambda>h. (xen_port h, handler h, hclass h)) (heap s' q) = map_option (\<lambda>h. (xen_port h, handler h, hclass h)) (heap ?s q)"
    "\<forall>q. q \<notin> set (p # ys) \<longrightarrow> heap s' q = heap ?s q"
    using register_handler_ok [OF ok1 p(1) h1 x(2,1) t1] by blast
  have "reconstruct_handler X s p = Inr (True, s')"
    using False X(1) p(2) s'(1)
    by (simp add: reconstruct_handler_def with_port_def bind_xen_port_def split: evtchn_class.splits)
  moreover have "same_users s s'"
  proof (rule same_users_trans)
    show "same_users s ?s" using p(2) by (simp add: same_users_def set_port_def)
    show "same_users ?s s'" by (rule same_usersI) (use s'(5) in blast)
  qed
  ultimately show ?thesis using s' False by (auto simp: set_port_def asks_def)
qed

lemma reconstruct_refused:
  assumes "heap s p = Some g" and "new_port X g (hypercalls s) = None"
  shows "reconstruct_handler X s p = Inr (False, s\<lparr>hypercalls := hypercalls s + asks g\<rparr>)"
  using assms
  by (auto simp: new_port_def reconstruct_handler_def with_port_def bind_xen_port_def asks_def Let_def
      split: evtchn_class.splits if_splits prod.splits)

lemma Recover_loop_spec:
  "evt_ok s ys \<Longrightarrow> links (heap s) h xs \<Longrightarrow> distinct xs \<Longrightarrow> set xs \<inter> set ys = {} \<Longrightarrow> (\<And>x. x \<in> set xs \<Longrightarrow> revivable s x) \<Longrightarrow>
    distinct (map snd (rebound X (heap s) (hypercalls s) xs)) \<Longrightarrow>
    (\<And>k. k \<in> snd ` set (rebound X (heap s) (hypercalls s) xs) \<Longrightarrow> k < 256 \<and> EventChannelHandlers s ! k = None) \<Longrightarrow>
    count + length xs \<le> 256 \<Longrightarrow>
    \<exists>s'. Recover_loop X count h s = Inr s' \<and> evt_ok s' (rev (map fst (rebound X (heap s) (hypercalls s) xs)) @ ys) \<and> same_users s s' \<and>
      (\<forall>(p, k) \<in> set (rebound X (heap s) (hypercalls s) xs). EventChannelHandlers s' ! k = Some p) \<and>
      (\<forall>k. k \<notin> snd ` set (rebound X (heap s) (hypercalls s) xs) \<longrightarrow> EventChannelHandlers s' ! k = EventChannelHandlers s ! k)"
proof (induction xs arbitrary: s ys h count)
  case Nil
  then show ?case by (simp add: Recover_loop.simps same_users_def)
next
  case (Cons p xs)
  obtain g where g: "h = Some p" "heap s p = Some g" "links (heap s) (hnext g) xs" using Cons.prems(2) by auto
  have pn: "p \<notin> set xs" "p \<notin> set ys" "distinct xs" using Cons.prems(3,4) by auto
  have c: "count + 1 + length xs \<le> 256" "\<not> 256 < count + 1" using Cons.prems(8) by simp_all
  show ?case
  proof (cases "new_port X g (hypercalls s)")
    case None
    let ?s = "s\<lparr>hypercalls := hypercalls s + asks g\<rparr>"
    have rb: "rebound X (heap s) (hypercalls s) (p # xs) = rebound X (heap ?s) (hypercalls ?s) xs" using g(2) None by simp
    have "evt_ok ?s ys" using Cons.prems(1) by (simp add: evt_ok_def)
    moreover have "revivable ?s x" if "x \<in> set xs" for x using Cons.prems(5) [of x] that by (simp add: revivable_def)
    moreover have "set xs \<inter> set ys = {}" using Cons.prems(4) by auto
    ultimately obtain s' where s': "Recover_loop X (count + 1) (hnext g) ?s = Inr s'"
      "evt_ok s' (rev (map fst (rebound X (heap ?s) (hypercalls ?s) xs)) @ ys)" "same_users ?s s'"
      "\<forall>(p, k) \<in> set (rebound X (heap ?s) (hypercalls ?s) xs). EventChannelHandlers s' ! k = Some p"
      "\<forall>k. k \<notin> snd ` set (rebound X (heap ?s) (hypercalls ?s) xs) \<longrightarrow> EventChannelHandlers s' ! k = EventChannelHandlers ?s ! k"
      using Cons.IH [of ?s ys "hnext g" "count + 1"] g(3) pn Cons.prems(6,7) c unfolding rb by auto
    have "Recover_loop X count h s = Inr s'"
      using g(1,2) reconstruct_refused [OF g(2) None] s'(1) c(2) by (subst Recover_loop.simps) (simp add: with_port_def)
    then show ?thesis using s' unfolding rb by (auto simp: same_users_def)
  next
    case (Some k)
    let ?R = "rebound X (heap s) (hypercalls s + asks g) xs"
    have rb: "rebound X (heap s) (hypercalls s) (p # xs) = (p, k) # ?R" using g(2) Some by simp
    have k: "k < 256" "EventChannelHandlers s ! k = None" using Cons.prems(7) [of k] unfolding rb by auto
    obtain s1 where s1: "reconstruct_handler X s p = Inr (True, s1)" "evt_ok s1 (p # ys)" "hypercalls s1 = hypercalls s + asks g"
      "EventChannelHandlers s1 = (EventChannelHandlers s)[k := Some p]" "same_users s s1"
      "\<forall>q. q \<notin> set (p # ys) \<longrightarrow> heap s1 q = heap s q"
      using reconstruct_ok [OF Cons.prems(1) pn(2) g(2) _ Some k] Cons.prems(5) by auto
    have hx: "heap s1 x = heap s x" if "x \<in> set xs" for x using s1(6) that pn Cons.prems(4) by auto
    have R: "rebound X (heap s1) (hypercalls s1) xs = ?R" using rebound_cong [of xs "heap s1" "heap s" X] hx s1(3) by simp
    have "links (heap s1) (hnext g) xs" using links_cong [of xs "heap s1" "heap s" "hnext g"] hx g(3) by simp
    moreover have "revivable s1 x" if "x \<in> set xs" for x using Cons.prems(5) [of x] that hx [OF that] by (simp add: revivable_def)
    moreover have "set xs \<inter> set (p # ys) = {}" using Cons.prems(4) pn by auto
    moreover have "j < 256 \<and> EventChannelHandlers s1 ! j = None" if "j \<in> snd ` set ?R" for j
      using Cons.prems(6) Cons.prems(7) [of j] that s1(4) unfolding rb by (cases "j = k") auto
    ultimately obtain s' where s': "Recover_loop X (count + 1) (hnext g) s1 = Inr s'" "evt_ok s' (rev (map fst ?R) @ (p # ys))"
      "same_users s1 s'" "\<forall>(p, k) \<in> set ?R. EventChannelHandlers s' ! k = Some p"
      "\<forall>k. k \<notin> snd ` set ?R \<longrightarrow> EventChannelHandlers s' ! k = EventChannelHandlers s1 ! k"
      using Cons.IH [of s1 "p # ys" "hnext g" "count + 1"] s1(2) pn(3) Cons.prems(6) c unfolding rb R by auto
    have "Recover_loop X count h s = Inr s'"
      using g(1,2) s1(1) s'(1) c(2) by (subst Recover_loop.simps) (simp add: with_port_def)
    moreover have "EventChannelHandlers s' ! k = Some p"
      using s'(5) Cons.prems(6) s1(4) k(1) evt_okD(3) [OF Cons.prems(1)] unfolding rb by auto
    moreover have "same_users s s'" using same_users_trans [OF s1(5) s'(3)] .
    ultimately show ?thesis using s'(2,4,5) s1(4) unfolding rb by auto
  qed
qed

lemma evt_ok_length: "evt_ok s xs \<Longrightarrow> length xs \<le> 256"
proof -
  assume ok: "evt_ok s xs"
  define f where "f p = nat (xen_port (the (heap s p)))" for p
  have h: "\<exists>g. heap s p = Some g \<and> handler_ok g" if "p \<in> set xs" for p using evt_okD(6) [OF ok that] .
  have "EventChannelHandlers s ! f p = Some p \<and> f p < 256" if "p \<in> set xs" for p
    using h [OF that] evt_okD(7) [OF ok, of "f p" p] that by (auto simp: f_def handler_ok_def)
  then have "inj_on f (set xs)" "f ` set xs \<subseteq> {..<256}" by (auto intro!: inj_onI) (metis option.inject)
  then have "card (set xs) \<le> card {..<256 :: nat}" using card_inj_on_le by blast
  then show ?thesis using distinct_card [OF evt_okD(4) [OF ok]] by simp
qed

section \<open>Properties\<close>

text \<open>C9: an interrupt serves every port whose selector bit is set, that is pending and not masked, exactly once: the
  callback of a port with a direct handler is called and its pending bit cleared; a port whose handler is a DPC is
  masked and, unless it is queued already, its DPC is queued and its \<open>insert_count\<close> incremented; a port without a handler
  is cleared.  The loops end, \<open>last_evtchn_serviced\<close> is the last port served, and nothing else changes: no other bit, no
  other handler, neither the table nor the list of handlers.

  Two conditions: the due ports are below 256, the size of the table; and \<open>last_evtchn_serviced\<close> is below 4095, that is,
  since a port was last served (which resets it to that port) there were fewer than 3839 upcalls without a port to
  serve.  Without the second one the code shifts by more than the width of a word.\<close>

theorem EvtchnHandleInterrupt_serves:
  assumes "evt_ok s xs" and "evtchn_upcall_pending (shared s) \<noteq> 0" and "unat (last_evtchn_serviced s) < 4095"
    and "\<And>q. q \<in> due s (evtchn_pending_sel (shared s)) \<Longrightarrow> q < 256"
  shows "\<exists>s' qs. EvtchnHandleInterrupt [] s = Inr (qs \<noteq> [], s') \<and> distinct qs \<and> set qs = due s (evtchn_pending_sel (shared s)) \<and>
    served s' = served s @ qs \<and> calls s' = calls s @ callbacks s qs \<and>
    newly_queued s {p. \<exists>q \<in> set qs. dpc_port s q \<and> EventChannelHandlers s ! q = Some p} s' \<and>
    (\<forall>q < 4096. pbit s' q = (pbit s q \<and> (q \<in> set qs \<longrightarrow> dpc_port s q)) \<and> mbit s' q = (mbit s q \<or> q \<in> set qs \<and> dpc_port s q)) \<and>
    evtchn_upcall_pending (shared s') = 0 \<and> evtchn_pending_sel (shared s') = 0 \<and>
    length (evtchn_pending (shared s')) = 64 \<and> length (evtchn_mask (shared s')) = 64 \<and>
    EventChannelHandlers s' = EventChannelHandlers s \<and> HeadEvtchnHandler s' = HeadEvtchnHandler s \<and>
    EvtchnStarted s' = EvtchnStarted s \<and> hypercalls s' = hypercalls s \<and>
    last_evtchn_serviced s' = (if qs = [] then last_evtchn_serviced s + 1 else of_nat (last qs)) \<and> evt_ok s' xs"
proof -
  let ?sel = "evtchn_pending_sel (shared s)" and ?l = "last_evtchn_serviced s + 1"
  let ?s = "s\<lparr>shared := (shared s)\<lparr>evtchn_upcall_pending := 0, evtchn_pending_sel := 0\<rparr>, last_evtchn_serviced := ?l\<rparr>"
  have sh: "same_handlers s ?s" by (simp add: same_handlers_def)
  have bits: "pbit ?s = pbit s" "mbit ?s = mbit s" by (simp_all add: fun_eq_iff pbit_def mbit_def)
  then have d: "due ?s ?sel = due s ?sel" by (simp add: due_def)
  have ok: "evt_ok ?s xs" using evt_ok_same [OF assms(1) sh] evt_okD(1,2) [OF assms(1)] by simp
  have "unat ?l < 4096" using assms(3) by (simp add: unat_succ)
  then have l: "unat ?l div 64 < 64" "unat ?l mod 64 < 64" by auto
  have a: "t \<in> ahead 64 (unat ?l div 64)" if "bit ?sel t" for t using ahead_all [OF l(1)] u64_bit_less [OF that] by blast
  obtain s' qs where s': "Sel_loop 64 (unat ?l div 64) (unat ?l mod 64) ?sel ?s = Inr s'" "evt_ok s' xs" "served_ports ?s qs s'"
    "distinct qs" "set qs = due s ?sel"
    using Sel_loop_eval [OF ok l a] assms(4) d by metis
  have "dpc_port ?s = dpc_port s" "callbacks ?s qs = callbacks s qs" using same_ports [OF sh] by auto
  moreover have "newly_queued ?s P s' = newly_queued s P s'" for P
    unfolding newly_queued_def by (simp cong: if_cong)
  moreover have "EventChannelHandlers s' = EventChannelHandlers s" "HeadEvtchnHandler s' = HeadEvtchnHandler s"
    using s'(3) by (simp_all add: served_ports_def same_handlers_def)
  moreover have "EvtchnHandleInterrupt [] s = Inr (qs \<noteq> [], s')"
    using s'(1,3) assms(2) by (simp add: EvtchnHandleInterrupt_def Upcall_pass_def served_ports_def Let_def)
  ultimately show ?thesis
    using s'(2-5) bits evt_okD(1,2) [OF s'(2)] unfolding served_ports_def by (intro exI [of _ s'] exI [of _ qs]) simp
qed

text \<open>Two handlers: a direct one for port 3 and a DPC for port 70.  Both ports and port 5, which nobody handles, are
  pending.\<close>

definition direct_handler :: evtchn_port_handler where
  "direct_handler = \<lparr>hnext = Some 11, hprev = None, xen_port = 3, handler = Some 100, hclass = EVTCHN_CLASS_VIRQ 1,
     insert_count = 0, stopping = False\<rparr>"

definition dpc_handler :: evtchn_port_handler where
  "dpc_handler = \<lparr>hnext = None, hprev = Some 10, xen_port = 70, handler = Some 101, hclass = EVTCHN_CLASS_INTERDOMAIN_DPC 0,
     insert_count = 0, stopping = False\<rparr>"

definition two_ports :: evtchn where
  "two_ports = \<lparr>shared = \<lparr>evtchn_pending = (replicate 64 0)[0 := 0x28, 1 := 0x40], evtchn_mask = replicate 64 0,
       evtchn_upcall_pending = 1, evtchn_pending_sel = 3\<rparr>,
     heap = [10 \<mapsto> direct_handler, 11 \<mapsto> dpc_handler], EventChannelHandlers = (replicate 256 None)[3 := Some 10, 70 := Some 11],
     HeadEvtchnHandler = Some 10, last_evtchn_serviced = 68, EvtchnStarted = True, served = [], calls = [], dpcs = [], hypercalls = 0\<rparr>"

lemma two_ports_ok: "evt_ok two_ports [10, 11]"
proof -
  have "((replicate 256 None)[3 := Some 10, 70 := Some 11] ! k = Some p) =
      (p \<in> set [10, 11] \<and> (\<exists>h. [10 \<mapsto> direct_handler, 11 \<mapsto> dpc_handler] p = Some h \<and> xen_port h = int k))" if "k < 256" for k and p :: nat
    using that by (auto simp: nth_list_update direct_handler_def dpc_handler_def split: if_splits)
  then show ?thesis
    by (simp add: evt_ok_def two_ports_def) (simp add: handler_ok_def direct_handler_def dpc_handler_def)
qed

lemma bit_two_ports:
  "bit (0x28 :: u64) n = (n = 3 \<or> n = 5)" "bit (0x40 :: u64) n = (n = 6)" "bit (3 :: u64) n = (n = 0 \<or> n = 1)"
proof -
  have p: "bit (push_bit k (1 :: u64)) n = (n = k \<and> k < 64)" for k n
    by (auto simp: push_bit_of_1 bit_exp_iff)
  have e: "(0x28 :: u64) = push_bit 3 1 OR push_bit 5 1" "(0x40 :: u64) = push_bit 6 1" "(3 :: u64) = push_bit 0 1 OR push_bit 1 1"
    by simp_all
  show "bit (0x28 :: u64) n = (n = 3 \<or> n = 5)" unfolding e(1) bit_or_iff p by auto
  show "bit (0x40 :: u64) n = (n = 6)" unfolding e(2) p by simp
  show "bit (3 :: u64) n = (n = 0 \<or> n = 1)" unfolding e(3) bit_or_iff p by auto
qed

lemma two_ports_due: "due two_ports (evtchn_pending_sel (shared two_ports)) = {3, 5, 70}"
proof -
  have "q \<in> due two_ports 3 \<longleftrightarrow> q \<in> {3, 5, 70}" for q
  proof -
    consider (zero) "q div 64 = 0" | (one) "q div 64 = 1" | (other) "q div 64 \<noteq> 0" "q div 64 \<noteq> 1" by blast
    then show ?thesis
    proof cases
      case zero
      then have "q < 64" by (simp add: div_eq_0_iff)
      then show ?thesis using bit_two_ports(1) [of q] by (simp add: due_def pbit_def mbit_def two_ports_def bit_two_ports(3))
    next
      case one
      then have q: "q = 64 + q mod 64" using div_mult_mod_eq [of q 64] by simp
      have "q \<in> due two_ports 3 \<longleftrightarrow> q mod 64 = 6"
        using one bit_two_ports(2) [of "q mod 64"] by (simp add: due_def pbit_def mbit_def two_ports_def bit_two_ports(3))
      also have "\<dots> \<longleftrightarrow> q \<in> {3, 5, 70}" using q by auto
      finally show ?thesis .
    next
      case other
      then show ?thesis using bit_two_ports(3) [of "q div 64"] by (auto simp: due_def)
    qed
  qed
  then show ?thesis by (auto simp: two_ports_def)
qed

theorem EvtchnHandleInterrupt_serves_witness:
  "\<exists>s' (qs :: nat list). EvtchnHandleInterrupt [] two_ports = Inr (qs \<noteq> [], s') \<and> set qs = {3, 5, 70} \<and> calls s' = [100] \<and> set (dpcs s') = {11} \<and>
    \<not> pbit s' 3 \<and> \<not> pbit s' 5 \<and> pbit s' 70 \<and> mbit s' 70"
proof -
  have h: "evtchn_upcall_pending (shared two_ports) \<noteq> 0" "unat (last_evtchn_serviced two_ports) < 4095"
    "\<And>q. q \<in> due two_ports (evtchn_pending_sel (shared two_ports)) \<Longrightarrow> q < 256"
    unfolding two_ports_due by (auto simp: two_ports_def)
  obtain s' qs where s: "EvtchnHandleInterrupt [] two_ports = Inr (qs \<noteq> [], s')" "distinct qs" "set qs = {3, 5, 70}"
    "calls s' = calls two_ports @ callbacks two_ports qs"
    "newly_queued two_ports {p. \<exists>q \<in> set qs. dpc_port two_ports q \<and> EventChannelHandlers two_ports ! q = Some p} s'"
    "\<forall>q < 4096. pbit s' q = (pbit two_ports q \<and> (q \<in> set qs \<longrightarrow> dpc_port two_ports q)) \<and>
       mbit s' q = (mbit two_ports q \<or> q \<in> set qs \<and> dpc_port two_ports q)"
    using EvtchnHandleInterrupt_serves [OF two_ports_ok h] unfolding two_ports_due by blast
  have ph: "port_handler two_ports 3 = Some direct_handler" "port_handler two_ports 5 = None" "port_handler two_ports 70 = Some dpc_handler"
    by (simp_all add: port_handler_def two_ports_def)
  then have dp: "\<not> dpc_port two_ports 3" "\<not> dpc_port two_ports 5" "dpc_port two_ports 70"
    by (simp_all add: dpc_port_def dpc_class_def direct_handler_def dpc_handler_def)
  have "filter (\<lambda>q. port_handler two_ports q \<noteq> None \<and> \<not> dpc_port two_ports q) qs = filter (\<lambda>q. q = 3) qs"
    using s(3) ph dp by (intro filter_cong refl) auto
  also have "\<dots> = [3]"
  proof -
    have "3 \<in> set qs" using s(3) by simp
    then obtain as bs where "qs = as @ 3 # bs" by (meson split_list)
    moreover from this have "filter (\<lambda>q. q = 3) as = []" "filter (\<lambda>q. q = 3) bs = []"
      using s(2) by (auto simp: filter_empty_conv)
    ultimately show ?thesis by simp
  qed
  finally have "callbacks two_ports qs = [100]" using ph by (simp add: callbacks_def direct_handler_def)
  moreover have "{p. \<exists>q \<in> set qs. dpc_port two_ports q \<and> EventChannelHandlers two_ports ! q = Some p} = {11}"
    using s(3) dp by (auto simp: two_ports_def)
  moreover have "calls two_ports = []" "dpcs two_ports = []" "pbit two_ports 70"
    by (simp_all add: two_ports_def pbit_def bit_two_ports)
  moreover have "\<not> pbit s' 3" "\<not> pbit s' 5" "pbit s' 70" "mbit s' 70"
    using s(6) [rule_format, of 3] s(6) [rule_format, of 5] s(6) [rule_format, of 70] s(3) dp \<open>pbit two_ports 70\<close> by simp_all
  ultimately show ?thesis using s(1,3,4) newly_queued_set [OF s(5)] by (intro exI [of _ s'] exI [of _ qs]) simp
qed

text \<open>C30: after a suspend every handler is bound again: those for which Xen gives a port are, in the reverse order, exactly
  the handlers of the new list, each in the table at its new port (a fixed one at its old port), with its callback and
  class; a handler Xen refuses a port is in neither.  The list and the table agree again and nothing bug checks, as
  long as Xen hands out different ports below 256.\<close>

theorem EvtchnRecoverFromSuspend_rebinds:
  assumes "evt_ok s xs" and "rb = rebound X (heap s) (hypercalls s) xs" and "distinct (map snd rb)"
    and "\<And>k. k \<in> snd ` set rb \<Longrightarrow> k < 256"
  shows "\<exists>s'. EvtchnRecoverFromSuspend X s = Inr s' \<and> evt_ok s' (rev (map fst rb)) \<and> same_users s s' \<and>
    (\<forall>k < 256. \<forall>p. EventChannelHandlers s' ! k = Some p \<longleftrightarrow> (p, k) \<in> set rb)"
proof -
  let ?s = "s\<lparr>EventChannelHandlers := replicate 256 None, HeadEvtchnHandler := None\<rparr>"
  have ok: "evt_ok ?s []" using evt_okD(1,2) [OF assms(1)] by (simp add: evt_ok_def)
  have l: "links (heap ?s) (HeadEvtchnHandler s) xs" using dll_links [OF evt_okD(5) [OF assms(1)]] by simp
  have r: "revivable ?s x" if "x \<in> set xs" for x
    using evt_okD(6) [OF assms(1) that] by (auto simp: revivable_def handler_ok_def)
  have rb: "rebound X (heap ?s) (hypercalls ?s) xs = rb" using assms(2) by simp
  obtain s' where s': "EvtchnRecoverFromSuspend X s = Inr s'" "evt_ok s' (rev (map fst rb))" "same_users ?s s'"
    "\<forall>(p, k) \<in> set rb. EventChannelHandlers s' ! k = Some p"
    "\<forall>k. k \<notin> snd ` set rb \<longrightarrow> EventChannelHandlers s' ! k = EventChannelHandlers ?s ! k"
    using Recover_loop_spec [OF ok l evt_okD(4) [OF assms(1)] _ r, of X 0] assms(3,4) evt_ok_length [OF assms(1)] unfolding rb
    by (auto simp: EvtchnRecoverFromSuspend_def)
  have "EventChannelHandlers s' ! k = Some p \<longleftrightarrow> (p, k) \<in> set rb" if "k < 256" for k p
  proof (cases "k \<in> snd ` set rb")
    case True
    then obtain q where q: "(q, k) \<in> set rb" by auto
    then have "EventChannelHandlers s' ! k = Some q" using s'(4) by auto
    moreover have "(p, k) \<in> set rb \<Longrightarrow> p = q" using q assms(3) by (metis (mono_tags, lifting) distinct_map inj_on_def prod.inject snd_conv)
    ultimately show ?thesis using q by auto
  next
    case False
    then have "(p, k) \<notin> set rb" by force
    then show ?thesis using s'(5) False that by simp
  qed
  then show ?thesis using s'(1-3) by (auto simp: same_users_def)
qed

text \<open>Xen gives the two ports 9 and 4; then it refuses the second.\<close>

theorem EvtchnRecoverFromSuspend_rebinds_witness:
  "(\<exists>s'. EvtchnRecoverFromSuspend (\<lambda>n. (0, if n = 0 then 9 else 4)) two_ports = Inr s' \<and> evt_ok s' [11, 10] \<and>
     EventChannelHandlers s' ! 9 = Some 10 \<and> EventChannelHandlers s' ! 4 = Some 11 \<and> EventChannelHandlers s' ! 3 = None) \<and>
   (\<exists>s'. EvtchnRecoverFromSuspend (\<lambda>n. (if n = 0 then 0 else - 1, 9)) two_ports = Inr s' \<and> evt_ok s' [10] \<and>
     EventChannelHandlers s' ! 70 = None)"
proof -
  have r: "rebound (\<lambda>n. (0, if n = 0 then 9 else 4)) (heap two_ports) (hypercalls two_ports) [10, 11] = [(10, 9), (11, 4)]"
    "rebound (\<lambda>n. (if n = 0 then 0 else - 1, 9)) (heap two_ports) (hypercalls two_ports) [10, 11] = [(10, 9)]"
    by (simp_all add: two_ports_def direct_handler_def dpc_handler_def new_port_def asks_def)
  have small1: "\<And>k. k \<in> snd ` set [(10 :: nat, 9), (11, 4)] \<Longrightarrow> k < (256 :: nat)"
    and small2: "\<And>k. k \<in> snd ` set [(10 :: nat, 9)] \<Longrightarrow> k < (256 :: nat)" by auto
  obtain s1 where s1: "EvtchnRecoverFromSuspend (\<lambda>n. (0, if n = 0 then 9 else 4)) two_ports = Inr s1" "evt_ok s1 [11, 10]"
    "\<forall>k < 256. \<forall>p. EventChannelHandlers s1 ! k = Some p \<longleftrightarrow> (p, k) \<in> set [(10, 9), (11, 4)]"
    using EvtchnRecoverFromSuspend_rebinds [OF two_ports_ok r(1) [symmetric]] small1 by auto
  obtain s2 where s2: "EvtchnRecoverFromSuspend (\<lambda>n. (if n = 0 then 0 else - 1, 9)) two_ports = Inr s2" "evt_ok s2 [10]"
    "\<forall>k < 256. \<forall>p. EventChannelHandlers s2 ! k = Some p \<longleftrightarrow> (p, k) \<in> set [(10, 9)]"
    using EvtchnRecoverFromSuspend_rebinds [OF two_ports_ok r(2) [symmetric]] small2 by auto
  have "EventChannelHandlers s1 ! 3 = None" "EventChannelHandlers s2 ! 70 = None"
    using s1(3) [rule_format, of 3] s2(3) [rule_format, of 70] by (auto simp: not_Some_eq [symmetric] simp del: not_Some_eq)
  then show ?thesis using s1 s2 by auto
qed

end
