(* ===== verification/EventDpc.thy ===== *)
theory EventDpc
  imports EventChannel
begin

text \<open>
  One event channel whose handler is a DPC, access by access: Xen raises the port, the interrupt handler of
  \<^verbatim>\<open>EvtchnHandleInterrupt\<close> and \<^verbatim>\<open>FireHandler\<close> masks the port and queues the DPC, the DPC (\<^verbatim>\<open>DpcPortDpcHandler\<close>) calls
  the handler until the port is clear and unmasks it, and \<^verbatim>\<open>EvtchnPortStop\<close> on another processor unhooks the port and
  waits for both of them before it lets go of the handler.

  \<^item> The interrupt and the DPC run on the same processor, so that the DPC takes no step while the interrupt handler
    runs.  Xen and the stopping processor take steps at any time.
  \<^item> Xen sets the selector bit exactly when the pending bit of a port that is not masked goes from 0 to 1, as \<^verbatim>\<open>xen.h\<close>
    says.
  \<^item> A program counter stands for the next access.  Memory is sequentially consistent: the source has barriers where
    the order matters.
\<close>

datatype int_pc =
    IIdle       \<comment> \<open>no interrupt\<close>
  | ITake       \<comment> \<open>before the selector is exchanged\<close>
  | IRead       \<comment> \<open>before pending and mask are read\<close>
  | ITable      \<comment> \<open>before the table is read\<close>
  | IClear      \<comment> \<open>no handler: before the pending bit is cleared\<close>
  | IMask       \<comment> \<open>before the port is masked\<close>
  | IInsert     \<comment> \<open>before the DPC is queued\<close>
  | ICount      \<comment> \<open>before \<open>insert_count\<close> is incremented\<close>
  | IEnd        \<comment> \<open>before \<open>interrupt_live\<close> is cleared\<close>

datatype dpc_pc =
    DIdle
  | DTest       \<comment> \<open>before the pending bit is tested and cleared\<close>
  | DCall       \<comment> \<open>before the handler is called\<close>
  | DUnmask     \<comment> \<open>before the port is unmasked\<close>
  | DCheck      \<comment> \<open>before the pending bit is tested again\<close>
  | DFinish     \<comment> \<open>before \<open>insert_count\<close> is decremented\<close>
  | DRemask     \<comment> \<open>before the port is masked again\<close>

datatype stop_pc =
    SRunning    \<comment> \<open>nobody stops the port\<close>
  | SSync       \<comment> \<open>unhooked, before \<open>interrupt_live\<close> is seen clear\<close>
  | SFlag       \<comment> \<open>before \<open>stopping\<close> is set\<close>
  | SWait       \<comment> \<open>before \<open>insert_count\<close> is seen 0\<close>
  | SDone       \<comment> \<open>the handler is gone\<close>

record dpc_port_state =
  e_pending :: bool
  e_masked :: bool
  e_sel :: bool
  e_live :: bool
  e_hooked :: bool
  e_int :: int_pc
  e_queued :: bool
  e_dpc :: dpc_pc
  e_count :: int
  e_stopping :: bool
  e_stop :: stop_pc

definition dpc_port_init :: dpc_port_state where
  "dpc_port_init = \<lparr>e_pending = False, e_masked = False, e_sel = False, e_live = False, e_hooked = True, e_int = IIdle,
     e_queued = False, e_dpc = DIdle, e_count = 0, e_stopping = False, e_stop = SRunning\<rparr>"

inductive evt_step :: "dpc_port_state \<Rightarrow> dpc_port_state \<Rightarrow> bool" where
  Raise: "e_stop s = SRunning \<Longrightarrow>
    evt_step s (s\<lparr>e_pending := True, e_sel := e_sel s \<or> \<not> e_pending s \<and> \<not> e_masked s\<rparr>)"
| IntStart: "e_int s = IIdle \<Longrightarrow> evt_step s (s\<lparr>e_live := True, e_int := ITake\<rparr>)"
| IntTake: "e_int s = ITake \<Longrightarrow> evt_step s (s\<lparr>e_sel := False, e_int := IRead\<rparr>)"
| IntPass: "e_int s = ITake \<Longrightarrow> \<not> e_sel s \<Longrightarrow> evt_step s (s\<lparr>e_int := IEnd\<rparr>)"
| IntRead: "e_int s = IRead \<Longrightarrow> evt_step s (s\<lparr>e_int := (if e_pending s \<and> \<not> e_masked s then ITable else IEnd)\<rparr>)"
| IntTable: "e_int s = ITable \<Longrightarrow> evt_step s (s\<lparr>e_int := (if e_hooked s then IMask else IClear)\<rparr>)"
| IntClear: "e_int s = IClear \<Longrightarrow> evt_step s (s\<lparr>e_pending := False, e_int := IEnd\<rparr>)"
| IntMask: "e_int s = IMask \<Longrightarrow> evt_step s (s\<lparr>e_masked := True, e_int := IInsert\<rparr>)"
| IntInsert: "e_int s = IInsert \<Longrightarrow> evt_step s (s\<lparr>e_queued := True, e_int := (if e_queued s then IEnd else ICount)\<rparr>)"
| IntCount: "e_int s = ICount \<Longrightarrow> evt_step s (s\<lparr>e_count := e_count s + 1, e_int := IEnd\<rparr>)"
| IntAgain: "e_int s = IEnd \<Longrightarrow> evt_step s (s\<lparr>e_int := ITake\<rparr>)"
| IntEnd: "e_int s = IEnd \<Longrightarrow> evt_step s (s\<lparr>e_live := False, e_int := IIdle\<rparr>)"
| DpcStart: "e_int s = IIdle \<Longrightarrow> e_queued s \<Longrightarrow> e_dpc s = DIdle \<Longrightarrow> evt_step s (s\<lparr>e_queued := False, e_dpc := DTest\<rparr>)"
| DpcTest: "e_int s = IIdle \<Longrightarrow> e_dpc s = DTest \<Longrightarrow>
    evt_step s (s\<lparr>e_pending := False, e_dpc := (if e_pending s then DCall else DUnmask)\<rparr>)"
| DpcCall: "e_int s = IIdle \<Longrightarrow> e_dpc s = DCall \<Longrightarrow> evt_step s (s\<lparr>e_dpc := DTest\<rparr>)"
| DpcUnmask: "e_int s = IIdle \<Longrightarrow> e_dpc s = DUnmask \<Longrightarrow> evt_step s (s\<lparr>e_masked := False, e_dpc := DCheck\<rparr>)"
| DpcCheck: "e_int s = IIdle \<Longrightarrow> e_dpc s = DCheck \<Longrightarrow> evt_step s (s\<lparr>e_dpc := (if e_pending s then DRemask else DFinish)\<rparr>)"
| DpcRemask: "e_int s = IIdle \<Longrightarrow> e_dpc s = DRemask \<Longrightarrow> evt_step s (s\<lparr>e_masked := True, e_dpc := DTest\<rparr>)"
| DpcFinish: "e_int s = IIdle \<Longrightarrow> e_dpc s = DFinish \<Longrightarrow> evt_step s (s\<lparr>e_count := e_count s - 1, e_dpc := DIdle\<rparr>)"
| StopUnhook: "e_stop s = SRunning \<Longrightarrow> evt_step s (s\<lparr>e_hooked := False, e_stop := SSync\<rparr>)"
| StopSync: "e_stop s = SSync \<Longrightarrow> \<not> e_live s \<Longrightarrow> evt_step s (s\<lparr>e_stop := SFlag\<rparr>)"
| StopFlag: "e_stop s = SFlag \<Longrightarrow> evt_step s (s\<lparr>e_stopping := True, e_stop := SWait\<rparr>)"
| StopDone: "e_stop s = SWait \<Longrightarrow> e_count s = 0 \<Longrightarrow> evt_step s (s\<lparr>e_stop := SDone\<rparr>)"

inductive evt_reachable :: "dpc_port_state \<Rightarrow> bool" where
  init: "evt_reachable dpc_port_init"
| step: "evt_reachable s \<Longrightarrow> evt_step s s' \<Longrightarrow> evt_reachable s'"

code_pred evt_step .

section \<open>The invariant\<close>

text \<open>\<open>insert_count\<close> counts whether the DPC is queued and whether it runs; behind the barrier of \<^verbatim>\<open>EvtchnPortStop\<close> the
  interrupt handler does not reach the handler any more; a masked port has a DPC that will unmask it; and a pending
  event has somebody who will look at it.\<close>

definition evt_count_inv :: "dpc_port_state \<Rightarrow> bool" where
  "evt_count_inv s \<longleftrightarrow>
     e_count s = (if e_queued s \<and> e_int s \<noteq> ICount then 1 else 0) + (if e_dpc s \<noteq> DIdle then 1 else 0) \<and>
     (e_int s = ICount \<longrightarrow> e_queued s)"

definition evt_stop_inv :: "dpc_port_state \<Rightarrow> bool" where
  "evt_stop_inv s \<longleftrightarrow>
     e_live s = (e_int s \<noteq> IIdle) \<and>
     e_hooked s = (e_stop s = SRunning) \<and>
     (e_stop s \<in> {SFlag, SWait, SDone} \<longrightarrow> e_int s \<notin> {IMask, IInsert, ICount}) \<and>
     e_stopping s = (e_stop s \<in> {SWait, SDone}) \<and>
     (e_int s = IClear \<longrightarrow> e_stop s \<noteq> SRunning)"

definition evt_wake_inv :: "dpc_port_state \<Rightarrow> bool" where
  "evt_wake_inv s \<longleftrightarrow>
     (e_masked s \<longrightarrow> e_int s = IInsert \<or> e_queued s \<or> e_dpc s \<in> {DTest, DCall, DUnmask}) \<and>
     (e_pending s \<and> e_stop s = SRunning \<longrightarrow>
        e_sel s \<or> e_int s \<in> {IRead, ITable, IMask, IInsert} \<or> e_queued s \<or>
        e_dpc s \<in> {DTest, DCall, DUnmask, DCheck, DRemask})"

definition evt_inv :: "dpc_port_state \<Rightarrow> bool" where
  "evt_inv s \<longleftrightarrow> evt_count_inv s \<and> evt_stop_inv s \<and> evt_wake_inv s \<and> (e_stop s = SDone \<longrightarrow> e_count s = 0)"

lemma evt_count_inv_step: "evt_step s s' \<Longrightarrow> evt_count_inv s \<Longrightarrow> evt_count_inv s'"
  by (erule evt_step.cases; simp add: evt_count_inv_def split: if_splits)

lemma evt_stop_inv_step: "evt_step s s' \<Longrightarrow> evt_stop_inv s \<Longrightarrow> evt_stop_inv s'"
  by (erule evt_step.cases; simp add: evt_stop_inv_def split: if_splits)

lemma evt_wake_inv_step: "evt_step s s' \<Longrightarrow> evt_stop_inv s \<Longrightarrow> evt_wake_inv s \<Longrightarrow> evt_wake_inv s'"
  by (erule evt_step.cases; simp add: evt_wake_inv_def evt_stop_inv_def split: if_splits; blast?)

lemma evt_done_step: "evt_step s s' \<Longrightarrow> evt_count_inv s \<Longrightarrow> evt_stop_inv s \<Longrightarrow>
    (e_stop s = SDone \<longrightarrow> e_count s = 0) \<Longrightarrow> (e_stop s' = SDone \<longrightarrow> e_count s' = 0)"
  by (erule evt_step.cases; simp add: evt_count_inv_def evt_stop_inv_def split: if_splits)

lemma evt_inv_step:
  assumes "evt_step s s'" and "evt_inv s"
  shows "evt_inv s'"
  using assms evt_count_inv_step evt_stop_inv_step evt_wake_inv_step evt_done_step unfolding evt_inv_def by metis

lemma evt_reachable_inv: "evt_reachable s \<Longrightarrow> evt_inv s"
proof (induction rule: evt_reachable.induct)
  case init
  show ?case by (simp add: evt_inv_def evt_count_inv_def evt_stop_inv_def evt_wake_inv_def dpc_port_init_def)
next
  case (step s s')
  then show ?case using evt_inv_step by blast
qed

section \<open>Progress\<close>

text \<open>One order in which a processor takes the steps: the interrupt that a set selector bit asks for goes ahead of the
  DPC, and the interrupt handler passes over the port when its selector bit is clear.\<close>

definition evt_next :: "dpc_port_state \<Rightarrow> dpc_port_state" where
  "evt_next s = (case e_int s of
     ITake \<Rightarrow> (if e_sel s then s\<lparr>e_sel := False, e_int := IRead\<rparr> else s\<lparr>e_int := IEnd\<rparr>)
   | IRead \<Rightarrow> s\<lparr>e_int := (if e_pending s \<and> \<not> e_masked s then ITable else IEnd)\<rparr>
   | ITable \<Rightarrow> s\<lparr>e_int := (if e_hooked s then IMask else IClear)\<rparr>
   | IClear \<Rightarrow> s\<lparr>e_pending := False, e_int := IEnd\<rparr>
   | IMask \<Rightarrow> s\<lparr>e_masked := True, e_int := IInsert\<rparr>
   | IInsert \<Rightarrow> s\<lparr>e_queued := True, e_int := (if e_queued s then IEnd else ICount)\<rparr>
   | ICount \<Rightarrow> s\<lparr>e_count := e_count s + 1, e_int := IEnd\<rparr>
   | IEnd \<Rightarrow> (if e_sel s then s\<lparr>e_int := ITake\<rparr> else s\<lparr>e_live := False, e_int := IIdle\<rparr>)
   | IIdle \<Rightarrow> (if e_sel s then s\<lparr>e_live := True, e_int := ITake\<rparr> else case e_dpc s of
       DTest \<Rightarrow> s\<lparr>e_pending := False, e_dpc := (if e_pending s then DCall else DUnmask)\<rparr>
     | DCall \<Rightarrow> s\<lparr>e_dpc := DTest\<rparr>
     | DUnmask \<Rightarrow> s\<lparr>e_masked := False, e_dpc := DCheck\<rparr>
     | DCheck \<Rightarrow> s\<lparr>e_dpc := (if e_pending s then DRemask else DFinish)\<rparr>
     | DRemask \<Rightarrow> s\<lparr>e_masked := True, e_dpc := DTest\<rparr>
     | DFinish \<Rightarrow> s\<lparr>e_count := e_count s - 1, e_dpc := DIdle\<rparr>
     | DIdle \<Rightarrow> (if e_queued s then s\<lparr>e_queued := False, e_dpc := DTest\<rparr>
                 else s\<lparr>e_live := True, e_int := ITake\<rparr>)))"

definition evt_quiet :: "dpc_port_state \<Rightarrow> bool" where
  "evt_quiet s \<longleftrightarrow> e_int s = IIdle \<and> \<not> e_sel s \<and> \<not> e_queued s \<and> e_dpc s = DIdle"

lemma evt_step_next: "evt_step s (evt_next s)"
proof (cases "e_int s")
  case IIdle
  then show ?thesis
    by (cases "e_sel s"; cases "e_dpc s"; cases "e_queued s"; simp add: evt_next_def evt_step.intros split del: if_split)
next
  case IEnd
  then show ?thesis
    by (cases "e_sel s"; simp add: evt_next_def evt_step.intros)
next
  case ITake
  then show ?thesis
    by (cases "e_sel s"; simp add: evt_next_def evt_step.intros)
qed (simp_all add: evt_next_def evt_step.intros split del: if_split)

primrec evt_run :: "nat \<Rightarrow> dpc_port_state \<Rightarrow> dpc_port_state" where
  "evt_run 0 s = s"
| "evt_run (Suc n) s = (if evt_quiet s then s else evt_run n (evt_next s))"

lemma evt_run_reachable: "evt_reachable s \<Longrightarrow> evt_reachable (evt_run n s)"
  by (induction n arbitrary: s) (auto intro: evt_reachable.step evt_step_next)

text \<open>The steps of the interrupt handler and of the DPC, in any order: those in which one of their program counters
  moves.  A pass of the interrupt handler that starts with the selector bit clear is made for another port; all
  the other steps are the port's own.\<close>

definition evt_work :: "dpc_port_state \<Rightarrow> dpc_port_state \<Rightarrow> bool" where
  "evt_work s s' \<longleftrightarrow> evt_step s s' \<and> (e_int s' \<noteq> e_int s \<or> e_dpc s' \<noteq> e_dpc s)"

definition other_pass :: "dpc_port_state \<Rightarrow> dpc_port_state \<Rightarrow> bool" where
  "other_pass s s' \<longleftrightarrow> e_int s' = ITake \<and> \<not> e_sel s"

text \<open>\<open>evt_schedule n k s s'\<close>: \<open>n\<close> such steps lead from \<open>s\<close> to \<open>s'\<close>, \<open>k\<close> of them the start of a pass made for another port.\<close>

inductive evt_schedule :: "nat \<Rightarrow> nat \<Rightarrow> dpc_port_state \<Rightarrow> dpc_port_state \<Rightarrow> bool" where
  sched_refl: "evt_schedule 0 0 s s"
| sched_own: "evt_schedule n k s t \<Longrightarrow> evt_work t u \<Longrightarrow> \<not> other_pass t u \<Longrightarrow> evt_schedule (Suc n) k s u"
| sched_other: "evt_schedule n k s t \<Longrightarrow> evt_work t u \<Longrightarrow> other_pass t u \<Longrightarrow> evt_schedule (Suc n) (Suc k) s u"

definition evt_rank :: "dpc_port_state \<Rightarrow> nat" where
  "evt_rank s =
     (if e_sel s \<and> e_int s \<noteq> ITake then 200 else 0) +
     (case e_int s of IIdle \<Rightarrow> 0 | IEnd \<Rightarrow> 20 | ICount \<Rightarrow> 40 | IClear \<Rightarrow> 40 | IInsert \<Rightarrow> 60 | IMask \<Rightarrow> 80
      | ITable \<Rightarrow> 100 | IRead \<Rightarrow> 120 | ITake \<Rightarrow> 140) +
     (if e_queued s then 10 else 0) +
     (case e_dpc s of DIdle \<Rightarrow> 0 | DFinish \<Rightarrow> 1
      | DCheck \<Rightarrow> if e_pending s then 8 else 2 | DUnmask \<Rightarrow> if e_pending s then 9 else 3
      | DTest \<Rightarrow> if e_pending s then 6 else 4 | DCall \<Rightarrow> if e_pending s then 7 else 5 | DRemask \<Rightarrow> 7)"

lemma evt_rank_own: "evt_step s s' \<Longrightarrow> e_int s' \<noteq> e_int s \<or> e_dpc s' \<noteq> e_dpc s \<Longrightarrow> \<not> other_pass s s' \<Longrightarrow>
    evt_rank s' < evt_rank s"
  by (erule evt_step.cases; simp add: evt_rank_def other_pass_def split: dpc_pc.split if_splits)

lemma evt_rank_other: "evt_step s s' \<Longrightarrow> e_int s' \<noteq> e_int s \<or> e_dpc s' \<noteq> e_dpc s \<Longrightarrow> other_pass s s' \<Longrightarrow>
    evt_rank s' < evt_rank s + 141"
  by (erule evt_step.cases; simp add: evt_rank_def other_pass_def split: dpc_pc.split if_splits)

lemma evt_rank_bound: "evt_rank s \<le> 359"
  unfolding evt_rank_def by (cases "e_int s"; cases "e_dpc s"; simp)

lemma evt_schedule_rank: "evt_schedule n k s s' \<Longrightarrow> n + evt_rank s' \<le> evt_rank s + 141 * k"
proof (induction rule: evt_schedule.induct)
  case (sched_own n k s t u)
  then show ?case using evt_rank_own [of t u] by (fastforce simp: evt_work_def)
next
  case (sched_other n k s t u)
  then show ?case using evt_rank_other [of t u] by (fastforce simp: evt_work_def)
qed simp

lemma evt_work_stop: "evt_step s s' \<Longrightarrow> e_int s' \<noteq> e_int s \<or> e_dpc s' \<noteq> e_dpc s \<Longrightarrow> e_stop s' = e_stop s"
  by (erule evt_step.cases; simp)

lemma evt_schedule_reachable:
  "evt_schedule n k s s' \<Longrightarrow> evt_reachable s \<Longrightarrow> evt_reachable s' \<and> e_stop s' = e_stop s"
proof (induction rule: evt_schedule.induct)
  case (sched_own n k s t u)
  then show ?case using evt_work_stop [of t u] by (metis evt_work_def evt_reachable.step)
next
  case (sched_other n k s t u)
  then show ?case using evt_work_stop [of t u] by (metis evt_work_def evt_reachable.step)
qed simp

lemma evt_own_next: "\<not> evt_quiet s \<Longrightarrow> evt_work s (evt_next s) \<and> \<not> other_pass s (evt_next s)"
  using evt_step_next [of s]
  by (cases "e_int s"; cases "e_dpc s"; simp add: evt_work_def other_pass_def evt_next_def evt_quiet_def; blast?)

lemma evt_quiet_own: "evt_quiet s \<Longrightarrow> evt_work s s' \<Longrightarrow> other_pass s s'"
  unfolding evt_work_def by (elim conjE, erule evt_step.cases; simp add: evt_quiet_def other_pass_def)

lemma evt_inv_quiet: "evt_inv s \<Longrightarrow> e_stop s = SRunning \<Longrightarrow> evt_quiet s \<Longrightarrow> \<not> e_pending s \<and> \<not> e_masked s \<and> e_count s = 0"
  by (auto simp: evt_inv_def evt_wake_inv_def evt_count_inv_def evt_quiet_def)

section \<open>Properties\<close>

text \<open>C5: An event is never lost.  In every reachable state of a port that is not being stopped, a pending event is one
  somebody will look at: the selector bit is set, or the interrupt handler is on its way to the DPC, or the DPC is
  queued or before its last look at the pending bit; a masked port has a DPC that will unmask it; and when Xen, the
  interrupt handler and the DPC are at rest the port is neither pending nor masked.\<close>

theorem evtchn_no_lost_event:
  assumes "evt_reachable s" and "e_stop s = SRunning"
  shows "(e_pending s \<longrightarrow> e_sel s \<or> e_int s \<in> {IRead, ITable, IMask, IInsert} \<or> e_queued s \<or>
            e_dpc s \<in> {DTest, DCall, DUnmask, DCheck, DRemask}) \<and>
         (e_masked s \<longrightarrow> e_int s = IInsert \<or> e_queued s \<or> e_dpc s \<in> {DTest, DCall, DUnmask}) \<and>
         (evt_quiet s \<longrightarrow> \<not> e_pending s \<and> \<not> e_masked s)"
  using evt_reachable_inv [OF assms(1)] assms(2) evt_inv_quiet [of s]
  unfolding evt_inv_def evt_wake_inv_def by blast

definition evt_raised :: dpc_port_state where
  "evt_raised = dpc_port_init\<lparr>e_pending := True, e_sel := True\<rparr>"

lemma evt_raised_reachable: "evt_reachable evt_raised"
  using evt_reachable.step [OF evt_reachable.init evt_step.Raise [of dpc_port_init]]
  by (simp add: evt_raised_def dpc_port_init_def)

theorem evtchn_no_lost_event_witness:
  "e_pending (evt_run 4 evt_raised) \<and> e_masked (evt_run 5 evt_raised) \<and>
   (e_int (evt_run 5 evt_raised) = IInsert \<or> e_queued (evt_run 5 evt_raised) \<or>
      e_dpc (evt_run 5 evt_raised) \<in> {DTest, DCall, DUnmask})"
  using evtchn_no_lost_event [OF evt_run_reachable [OF evt_raised_reachable], of 5]
  by (simp add: numeral_eq_Suc evt_raised_def dpc_port_init_def evt_next_def evt_quiet_def)

text \<open>C29: The port settles, whatever the schedule.  From every reachable state of a port that is not being stopped, and
  as long as no further event is raised and nobody stops the port, every schedule of the interrupt handler and the
  DPC in which the interrupt handler starts \<open>k\<close> passes on behalf of other ports has at most \<open>359 + 141 k\<close> steps.  In its
  last state either the port is at rest - then it is unmasked, has no event pending and \<open>insert_count\<close> is 0, so the
  handler has been called for every event, and only a pass for another port can follow - or it has a step of its own to take; so the schedule can only stop when
  the port is at rest.\<close>

theorem evtchn_settles:
  assumes "evt_reachable s" and "e_stop s = SRunning" and "evt_schedule n k s s'"
  shows "n \<le> 359 + 141 * k \<and>
    (if evt_quiet s'
     then \<not> e_pending s' \<and> \<not> e_masked s' \<and> e_count s' = 0 \<and> (\<forall>s''. evt_work s' s'' \<longrightarrow> other_pass s' s'')
     else \<exists>s''. evt_work s' s'' \<and> \<not> other_pass s' s'')"
  using evt_schedule_rank [OF assms(3)] evt_rank_bound [of s] evt_own_next [of s'] evt_quiet_own [of s']
    evt_schedule_reachable [OF assms(3,1)] evt_inv_quiet [of s'] evt_reachable_inv [of s'] assms(2)
  by auto

theorem evtchn_settles_witness:
  "evt_schedule 1 0 evt_raised (evt_next evt_raised) \<and> \<not> evt_quiet (evt_next evt_raised) \<and>
   (\<exists>s''. evt_work (evt_next evt_raised) s'')"
proof -
  have "\<not> evt_quiet evt_raised" by (simp add: evt_quiet_def evt_raised_def)
  then have "evt_schedule 1 0 evt_raised (evt_next evt_raised)"
    using sched_own [OF sched_refl] evt_own_next by fastforce
  moreover have "\<not> evt_quiet (evt_next evt_raised)"
    by (simp add: evt_quiet_def evt_raised_def evt_next_def dpc_port_init_def)
  moreover have "e_stop evt_raised = SRunning" by (simp add: evt_raised_def dpc_port_init_def)
  ultimately show ?thesis
    using evtchn_settles [OF evt_raised_reachable, of 1 0 "evt_next evt_raised"] by auto
qed

text \<open>C28: Stopping a port is safe.  \<open>insert_count\<close> is always the number of the DPC's outstanding runs, queued or
  running (the interrupt handler has queued one and not yet counted it at \<open>ICount\<close>); the interrupt handler never
  reaches \<open>XM_ASSERT(!stopping)\<close> with \<open>stopping\<close> set; and once \<^verbatim>\<open>EvtchnPortStop\<close> has returned the DPC is neither queued
  nor running and the interrupt handler does not hold the handler, in this and in every later state, so that
  \<^verbatim>\<open>EvtchnClose\<close> may free it.\<close>

theorem evtchn_stop_safe:
  assumes "evt_reachable s"
  shows "e_count s = (if e_queued s \<and> e_int s \<noteq> ICount then 1 else 0) + (if e_dpc s \<noteq> DIdle then 1 else 0) \<and>
         (e_int s = ICount \<longrightarrow> \<not> e_stopping s) \<and>
         (e_stop s = SDone \<and> evt_step\<^sup>*\<^sup>* s s' \<longrightarrow>
            e_stop s' = SDone \<and> \<not> e_queued s' \<and> e_dpc s' = DIdle \<and> e_int s' \<notin> {IMask, IInsert, ICount})"
proof -
  have inv: "evt_inv t \<Longrightarrow> e_stop t = SDone \<Longrightarrow> \<not> e_queued t \<and> e_dpc t = DIdle \<and> e_int t \<notin> {IMask, IInsert, ICount}" for t
    by (auto simp: evt_inv_def evt_count_inv_def evt_stop_inv_def split: if_splits)
  have stay: "e_stop t' = SDone" if "evt_step t t'" "e_stop t = SDone" for t t'
    using that by (cases rule: evt_step.cases) auto
  have "evt_inv s' \<and> e_stop s' = SDone" if "e_stop s = SDone" "evt_step\<^sup>*\<^sup>* s s'"
    using that(2)
  proof (induction rule: rtranclp_induct)
    case base
    show ?case using evt_reachable_inv [OF assms] that(1) by simp
  next
    case (step t t')
    then show ?case using evt_inv_step stay by blast
  qed
  then show ?thesis
    using inv evt_reachable_inv [OF assms] unfolding evt_inv_def evt_count_inv_def evt_stop_inv_def by blast
qed

definition evt_stopped :: dpc_port_state where
  "evt_stopped = dpc_port_init\<lparr>e_hooked := False, e_stopping := True, e_stop := SDone\<rparr>"

lemma evt_stopped_reachable: "evt_reachable evt_stopped"
proof -
  let ?a = "dpc_port_init\<lparr>e_hooked := False, e_stop := SSync\<rparr>"
  let ?b = "?a\<lparr>e_stop := SFlag\<rparr>"
  let ?c = "?b\<lparr>e_stopping := True, e_stop := SWait\<rparr>"
  have "evt_reachable ?a"
    by (rule evt_reachable.step [OF evt_reachable.init evt_step.StopUnhook]) (simp add: dpc_port_init_def)
  then have "evt_reachable ?b"
    by (rule evt_reachable.step [OF _ evt_step.StopSync]) (simp_all add: dpc_port_init_def)
  then have "evt_reachable ?c"
    by (rule evt_reachable.step [OF _ evt_step.StopFlag]) simp
  then have "evt_reachable (?c\<lparr>e_stop := SDone\<rparr>)"
    by (rule evt_reachable.step [OF _ evt_step.StopDone]) (simp_all add: dpc_port_init_def)
  then show ?thesis by (simp add: evt_stopped_def dpc_port_init_def)
qed

theorem evtchn_stop_safe_witness:
  "e_stop evt_stopped = SDone \<and> evt_step\<^sup>*\<^sup>* evt_stopped (evt_next evt_stopped) \<and>
   e_dpc (evt_next evt_stopped) = DIdle \<and> e_int (evt_next evt_stopped) \<notin> {IMask, IInsert, ICount}"
proof -
  have "evt_step\<^sup>*\<^sup>* evt_stopped (evt_next evt_stopped)"
    using evt_step_next by blast
  then show ?thesis
    using evtchn_stop_safe [OF evt_stopped_reachable, of "evt_next evt_stopped"] by (auto simp: evt_stopped_def)
qed

end
