(* ===== verification/Quiesce.thy ===== *)
theory Quiesce
  imports Prelude
begin

text \<open>
  Capturing all processors before a suspend: \<^verbatim>\<open>QuiesceSystem\<close>, \<^verbatim>\<open>SpinProcessorDpc\<close>, \<^verbatim>\<open>GatherInterruptDisabledProcessors\<close>
  and \<^verbatim>\<open>UnquiesceSystem\<close> of \<^verbatim>\<open>src/xenutil/suspend.c\<close>, access by access, on any number of processors.

  \<^item> The program counter of a processor is the next access to shared memory; \<open>high\<close> says that it runs at \<^verbatim>\<open>HIGH_LEVEL\<close>,
    with interrupts disabled.  A processor at \<open>CRun\<close> runs anything else.
  \<^item> Any processor may start to capture the others, any number of times; \<open>qlock\<close> is the holder of \<^verbatim>\<open>_g_QuiesceLock\<close>.
    A processor that waits for the lock (\<open>CAcquire\<close>) is at \<^verbatim>\<open>DISPATCH_LEVEL\<close> and runs no DPC.
  \<^item> \<open>processorCount\<close> is the local variable of \<^verbatim>\<open>QuiesceSystem\<close> that the other processors reach through the DPC context.
  \<^item> The time-out of the inner loop is a step that may happen at any time.
\<close>

datatype cpu_pc =
    CRun            \<comment> \<open>not in this code\<close>
  | CAcquire        \<comment> \<open>\<open>KeAcquireSpinLock(&_g_QuiesceLock)\<close>\<close>
  | CQueue nat      \<comment> \<open>before the DPC of a processor is queued\<close>
  | CWait1          \<comment> \<open>\<open>while (_g_ProcessorSpinCount1)\<close>\<close>
  | CDec1           \<comment> \<open>DPC: before \<open>_g_ProcessorSpinCount1\<close> is decremented\<close>
  | CPhase          \<comment> \<open>DPC: \<open>while (_g_QuiescePhase == 0)\<close>\<close>
  | GRaise          \<comment> \<open>gather: before raising to \<open>HIGH_LEVEL\<close> and decrementing the count\<close>
  | GSpin           \<comment> \<open>gather: \<open>while (*Count)\<close>, the inner loop\<close>
  | GCas int        \<comment> \<open>gather: backing off, before the compare and exchange\<close>
  | GLoop           \<comment> \<open>gather: \<open>while (*Count)\<close>, the outer loop\<close>
  | CDec2           \<comment> \<open>DPC: before \<open>_g_ProcessorSpinCount2\<close> is decremented\<close>
  | CHold           \<comment> \<open>DPC: \<open>while (_g_QuiescePhase != 0)\<close>\<close>
  | CWait2          \<comment> \<open>\<open>while (_g_ProcessorSpinCount2)\<close>\<close>
  | CQuiet          \<comment> \<open>\<open>QuiesceSystem\<close> has returned\<close>
  | CRelease        \<comment> \<open>before \<open>_g_QuiescePhase\<close> is reset\<close>
  | CLower          \<comment> \<open>before interrupts are enabled\<close>
  | CUnlock         \<comment> \<open>before the lock is released\<close>

record quiesce =
  cpu :: "nat \<Rightarrow> cpu_pc"
  high :: "nat \<Rightarrow> bool"
  queued :: "nat \<Rightarrow> bool"
  qlock :: "nat option"
  SpinCount1 :: int
  SpinCount2 :: int
  processorCount :: int
  QuiescePhase :: bool
  Quiesced :: bool

definition quiesce_init :: quiesce where
  "quiesce_init = \<lparr>cpu = (\<lambda>_. CRun), high = (\<lambda>_. False), queued = (\<lambda>_. False), qlock = None,
     SpinCount1 = 0, SpinCount2 = 0, processorCount = 0, QuiescePhase = False, Quiesced = False\<rparr>"

definition goto :: "nat \<Rightarrow> cpu_pc \<Rightarrow> quiesce \<Rightarrow> quiesce" where
  "goto c p s = s\<lparr>cpu := (cpu s)(c := p)\<rparr>"

text \<open>\<open>qstep n c s s'\<close>: processor \<open>c\<close> of \<open>n\<close> takes a step.\<close>

inductive qstep :: "nat \<Rightarrow> nat \<Rightarrow> quiesce \<Rightarrow> quiesce \<Rightarrow> bool" where
  Enter: "c < n \<Longrightarrow> cpu s c = CRun \<Longrightarrow> qstep n c s (goto c CAcquire s)"
| Acquire: "c < n \<Longrightarrow> cpu s c = CAcquire \<Longrightarrow> qlock s = None \<Longrightarrow>
    qstep n c s (goto c (CQueue 0) (s\<lparr>qlock := Some c, SpinCount1 := int n - 1, SpinCount2 := int n - 1, processorCount := int n\<rparr>))"
| Queue: "c < n \<Longrightarrow> cpu s c = CQueue k \<Longrightarrow> k < n \<Longrightarrow>
    qstep n c s (goto c (CQueue (k + 1)) (s\<lparr>queued := (queued s)(k := queued s k \<or> k \<noteq> c)\<rparr>))"
| QueueEnd: "c < n \<Longrightarrow> cpu s c = CQueue n \<Longrightarrow> qstep n c s (goto c CWait1 s)"
| Captured: "c < n \<Longrightarrow> cpu s c = CWait1 \<Longrightarrow> SpinCount1 s = 0 \<Longrightarrow> qstep n c s (goto c GRaise (s\<lparr>QuiescePhase := True\<rparr>))"
| DpcStart: "c < n \<Longrightarrow> cpu s c = CRun \<Longrightarrow> queued s c \<Longrightarrow> qstep n c s (goto c CDec1 (s\<lparr>queued := (queued s)(c := False)\<rparr>))"
| Dec1: "c < n \<Longrightarrow> cpu s c = CDec1 \<Longrightarrow> qstep n c s (goto c CPhase (s\<lparr>SpinCount1 := SpinCount1 s - 1\<rparr>))"
| Phase: "c < n \<Longrightarrow> cpu s c = CPhase \<Longrightarrow> QuiescePhase s \<Longrightarrow> qstep n c s (goto c GRaise s)"
| Raise: "c < n \<Longrightarrow> cpu s c = GRaise \<Longrightarrow>
    qstep n c s (goto c GSpin (s\<lparr>high := (high s)(c := True), processorCount := processorCount s - 1\<rparr>))"
| Seen: "c < n \<Longrightarrow> cpu s c = GSpin \<Longrightarrow> processorCount s = 0 \<Longrightarrow> qstep n c s (goto c GLoop s)"
| Timeout: "c < n \<Longrightarrow> cpu s c = GSpin \<Longrightarrow> qstep n c s (goto c (GCas (processorCount s)) s)"
| CasZero: "c < n \<Longrightarrow> cpu s c = GCas old \<Longrightarrow> old = 0 \<Longrightarrow> qstep n c s (goto c GLoop s)"
| CasOk: "c < n \<Longrightarrow> cpu s c = GCas old \<Longrightarrow> old \<noteq> 0 \<Longrightarrow> processorCount s = old \<Longrightarrow>
    qstep n c s (goto c GLoop (s\<lparr>processorCount := old + 1, high := (high s)(c := False)\<rparr>))"
| CasFail: "c < n \<Longrightarrow> cpu s c = GCas old \<Longrightarrow> old \<noteq> 0 \<Longrightarrow> processorCount s \<noteq> old \<Longrightarrow> qstep n c s (goto c GSpin s)"
| Again: "c < n \<Longrightarrow> cpu s c = GLoop \<Longrightarrow> processorCount s \<noteq> 0 \<Longrightarrow> qstep n c s (goto c GRaise s)"
| Gathered: "c < n \<Longrightarrow> cpu s c = GLoop \<Longrightarrow> processorCount s = 0 \<Longrightarrow>
    qstep n c s (goto c (if qlock s = Some c then CWait2 else CDec2) s)"
| Dec2: "c < n \<Longrightarrow> cpu s c = CDec2 \<Longrightarrow> qstep n c s (goto c CHold (s\<lparr>SpinCount2 := SpinCount2 s - 1\<rparr>))"
| Done: "c < n \<Longrightarrow> cpu s c = CWait2 \<Longrightarrow> SpinCount2 s = 0 \<Longrightarrow> qstep n c s (goto c CQuiet (s\<lparr>Quiesced := True\<rparr>))"
| Unquiesce: "c < n \<Longrightarrow> cpu s c = CQuiet \<Longrightarrow> qstep n c s (goto c CRelease (s\<lparr>Quiesced := False\<rparr>))"
| Release: "c < n \<Longrightarrow> cpu s c = CRelease \<Longrightarrow> qstep n c s (goto c CLower (s\<lparr>QuiescePhase := False\<rparr>))"
| Lower: "c < n \<Longrightarrow> cpu s c = CLower \<Longrightarrow> qstep n c s (goto c CUnlock (s\<lparr>high := (high s)(c := False)\<rparr>))"
| Unlock: "c < n \<Longrightarrow> cpu s c = CUnlock \<Longrightarrow> qstep n c s (goto c CRun (s\<lparr>qlock := None\<rparr>))"
| Let_go: "c < n \<Longrightarrow> cpu s c = CHold \<Longrightarrow> \<not> QuiescePhase s \<Longrightarrow>
    qstep n c s (goto c CRun (s\<lparr>high := (high s)(c := False)\<rparr>))"

inductive q_reachable :: "nat \<Rightarrow> quiesce \<Rightarrow> bool" for n where
  init: "q_reachable n quiesce_init"
| step: "q_reachable n s \<Longrightarrow> qstep n c s s' \<Longrightarrow> q_reachable n s'"

code_pred (modes: i \<Rightarrow> i \<Rightarrow> i \<Rightarrow> o \<Rightarrow> bool) qstep .

section \<open>The invariant\<close>

text \<open>A processor that is in none of the loops but perhaps still on its way out of the last capture.\<close>

definition free_cpu :: "quiesce \<Rightarrow> nat \<Rightarrow> bool" where
  "free_cpu s c \<longleftrightarrow> \<not> queued s c \<and> (cpu s c = CRun \<or> cpu s c = CAcquire \<or> cpu s c = CHold) \<and> (high s c \<longleftrightarrow> cpu s c = CHold)"

definition capture_cpu :: "nat \<Rightarrow> quiesce \<Rightarrow> nat \<Rightarrow> bool" where
  "capture_cpu k s c \<longleftrightarrow>
     (if cpu s c = CDec1 \<or> cpu s c = CPhase then c < k \<and> \<not> queued s c
      else (cpu s c = CRun \<or> cpu s c = CAcquire \<or> cpu s c = CHold) \<and> (queued s c \<longleftrightarrow> c < k)) \<and>
     (high s c \<longleftrightarrow> cpu s c = CHold)"

definition gather_pc :: "cpu_pc \<Rightarrow> bool" where
  "gather_pc p = (case p of GRaise \<Rightarrow> True | GSpin \<Rightarrow> True | GCas _ \<Rightarrow> True | GLoop \<Rightarrow> True | _ \<Rightarrow> False)"

text \<open>How interrupts and the count go with the program counter while interrupts are being disabled.\<close>

definition gather_cpu :: "quiesce \<Rightarrow> nat \<Rightarrow> bool" where
  "gather_cpu s c = (\<not> queued s c \<and>
     (case cpu s c of
        CPhase \<Rightarrow> \<not> high s c
      | GRaise \<Rightarrow> \<not> high s c
      | GSpin \<Rightarrow> high s c
      | GCas old \<Rightarrow> high s c \<and> (old = 0 \<longrightarrow> processorCount s = 0)
      | GLoop \<Rightarrow> high s c \<longrightarrow> processorCount s = 0
      | CDec2 \<Rightarrow> high s c \<and> processorCount s = 0
      | CHold \<Rightarrow> high s c \<and> processorCount s = 0
      | CWait2 \<Rightarrow> high s c \<and> processorCount s = 0
      | CQuiet \<Rightarrow> high s c \<and> processorCount s = 0
      | CRelease \<Rightarrow> high s c \<and> processorCount s = 0
      | _ \<Rightarrow> False))"

definition uncaptured :: "nat \<Rightarrow> nat \<Rightarrow> nat \<Rightarrow> quiesce \<Rightarrow> nat set" where
  "uncaptured n m k s = {c. c < n \<and> c \<noteq> m \<and> (k \<le> c \<or> queued s c \<or> cpu s c = CDec1)}"

definition low_cpus :: "nat \<Rightarrow> quiesce \<Rightarrow> nat set" where
  "low_cpus n s = {c. c < n \<and> \<not> high s c}"

definition unheld :: "nat \<Rightarrow> nat \<Rightarrow> quiesce \<Rightarrow> nat set" where
  "unheld n m s = {c. c < n \<and> c \<noteq> m \<and> cpu s c \<noteq> CHold}"

definition idle_inv :: "nat \<Rightarrow> quiesce \<Rightarrow> bool" where
  "idle_inv n s \<longleftrightarrow> qlock s = None \<and> \<not> QuiescePhase s \<and> \<not> Quiesced s \<and> (\<forall>c < n. free_cpu s c)"

definition capture_inv :: "nat \<Rightarrow> nat \<Rightarrow> nat \<Rightarrow> quiesce \<Rightarrow> bool" where
  "capture_inv n m k s \<longleftrightarrow>
     qlock s = Some m \<and> m < n \<and> k \<le> n \<and> (cpu s m = CQueue k \<or> cpu s m = CWait1 \<and> k = n) \<and> \<not> high s m \<and> \<not> queued s m \<and>
     \<not> QuiescePhase s \<and> \<not> Quiesced s \<and> processorCount s = int n \<and> SpinCount2 s = int n - 1 \<and>
     SpinCount1 s = int (card (uncaptured n m k s)) \<and> (\<forall>c < n. c \<noteq> m \<longrightarrow> capture_cpu k s c)"

definition gather_inv :: "nat \<Rightarrow> nat \<Rightarrow> quiesce \<Rightarrow> bool" where
  "gather_inv n m s \<longleftrightarrow>
     qlock s = Some m \<and> m < n \<and> QuiescePhase s \<and> (Quiesced s \<longleftrightarrow> cpu s m = CQuiet) \<and>
     (gather_pc (cpu s m) \<or> cpu s m = CWait2 \<or> cpu s m = CQuiet \<or> cpu s m = CRelease) \<and>
     (\<forall>c < n. gather_cpu s c) \<and>
     (\<forall>c < n. c \<noteq> m \<longrightarrow> gather_pc (cpu s c) \<or> cpu s c = CPhase \<or> cpu s c = CDec2 \<or> cpu s c = CHold) \<and>
     processorCount s = int (card (low_cpus n s)) \<and> SpinCount2 s = int (card (unheld n m s)) \<and>
     (cpu s m = CQuiet \<or> cpu s m = CRelease \<longrightarrow> SpinCount2 s = 0)"

definition leave_inv :: "nat \<Rightarrow> nat \<Rightarrow> quiesce \<Rightarrow> bool" where
  "leave_inv n m s \<longleftrightarrow>
     qlock s = Some m \<and> m < n \<and> \<not> QuiescePhase s \<and> \<not> Quiesced s \<and> \<not> queued s m \<and>
     (cpu s m = CLower \<and> high s m \<or> cpu s m = CUnlock \<and> \<not> high s m) \<and> (\<forall>c < n. c \<noteq> m \<longrightarrow> free_cpu s c)"

definition q_inv :: "nat \<Rightarrow> quiesce \<Rightarrow> bool" where
  "q_inv n s \<longleftrightarrow> idle_inv n s \<or> (\<exists>m k. capture_inv n m k s) \<or> (\<exists>m. gather_inv n m s) \<or> (\<exists>m. leave_inv n m s)"

lemma goto_simps [simp]:
  "cpu (goto c p s) = (cpu s)(c := p)" "high (goto c p s) = high s" "queued (goto c p s) = queued s"
  "qlock (goto c p s) = qlock s" "SpinCount1 (goto c p s) = SpinCount1 s" "SpinCount2 (goto c p s) = SpinCount2 s"
  "processorCount (goto c p s) = processorCount s" "QuiescePhase (goto c p s) = QuiescePhase s" "Quiesced (goto c p s) = Quiesced s"
  by (simp_all add: goto_def)

lemma card_minus1:
  fixes S :: "nat set"
  assumes "finite S" and "c \<in> S"
  shows "int (card (S - {c})) = int (card S) - 1"
  using assms by (metis card_Diff_singleton card_gt_0_iff empty_iff int_ops(6) less_numeral_extra(3) One_nat_def Suc_leI not_less of_nat_1 of_nat_diff)

lemma finite_sets [simp]: "finite (uncaptured n m k s)" "finite (low_cpus n s)" "finite (unheld n m s)"
  by (simp_all add: uncaptured_def low_cpus_def unheld_def)


lemma idle_inv_step:
  assumes "qstep n c s s'" and "idle_inv n s"
  shows "q_inv n s'"
proof -
  have free: "free_cpu s d" if "d < n" for d using assms(2) that by (simp add: idle_inv_def)
  show ?thesis using assms(1)
  proof (cases rule: qstep.cases)
    case Enter
    then have "idle_inv n s'" using assms(2) by (auto simp: idle_inv_def free_cpu_def)
    then show ?thesis by (simp add: q_inv_def)
  next
    case Acquire
    have "uncaptured n c 0 s' = {..<n} - {c}" by (auto simp: uncaptured_def)
    then have "int (card (uncaptured n c 0 s')) = int n - 1" using Acquire card_minus1 [of "{..<n}" c] by simp
    then have "capture_inv n c 0 s'"
      using Acquire assms(2) free [of c] by (auto simp: capture_inv_def idle_inv_def free_cpu_def capture_cpu_def)
    then show ?thesis by (auto simp: q_inv_def)
  next
    case Let_go
    then have "idle_inv n s'" using assms(2) by (auto simp: idle_inv_def free_cpu_def)
    then show ?thesis by (simp add: q_inv_def)
  qed (use free [of c] assms(2) in \<open>auto simp: free_cpu_def idle_inv_def\<close>)
qed

lemma leave_inv_step:
  assumes "qstep n c s s'" and "leave_inv n m s"
  shows "q_inv n s'"
proof -
  have free: "free_cpu s d" if "d < n" "d \<noteq> m" for d using assms(2) that by (simp add: leave_inv_def)
  have m: "cpu s m = CLower \<and> high s m \<or> cpu s m = CUnlock \<and> \<not> high s m" "\<not> queued s m" "m < n" "qlock s = Some m"
    using assms(2) by (simp_all add: leave_inv_def)
  have pcs: "d = m \<and> (cpu s d = CLower \<or> cpu s d = CUnlock) \<or> d \<noteq> m \<and> (cpu s d = CRun \<or> cpu s d = CAcquire \<or> cpu s d = CHold)"
    if "d < n" for d using free [OF that] m by (cases "d = m") (auto simp: free_cpu_def)
  show ?thesis using assms(1)
  proof (cases rule: qstep.cases)
    case Enter
    then have "leave_inv n m s'" using assms(2) by (auto simp: leave_inv_def free_cpu_def)
    then show ?thesis by (auto simp: q_inv_def)
  next
    case Lower
    then have "c = m" using free [of c] by (auto simp: free_cpu_def)
    then have "leave_inv n m s'" using Lower assms(2) by (auto simp: leave_inv_def free_cpu_def)
    then show ?thesis by (auto simp: q_inv_def)
  next
    case Unlock
    then have "c = m" using free [of c] by (auto simp: free_cpu_def)
    then have "idle_inv n s'" using Unlock assms(2) m by (auto simp: leave_inv_def idle_inv_def free_cpu_def)
    then show ?thesis by (auto simp: q_inv_def)
  next
    case Let_go
    then have "c \<noteq> m" using m by auto
    then have "leave_inv n m s'" using Let_go assms(2) by (auto simp: leave_inv_def free_cpu_def)
    then show ?thesis by (auto simp: q_inv_def)
  qed (use pcs [of c] free [of c] m in \<open>auto simp: free_cpu_def\<close>)
qed

lemma capture_inv_step:
  assumes "qstep n c s s'" and "capture_inv n m k s"
  shows "q_inv n s'"
proof -
  have others: "capture_cpu k s d" if "d < n" "d \<noteq> m" for d using assms(2) that by (simp add: capture_inv_def)
  have m: "cpu s m = CQueue k \<or> cpu s m = CWait1 \<and> k = n" "m < n" "qlock s = Some m" "k \<le> n"
    using assms(2) by (simp_all add: capture_inv_def)
  have pcs: "d = m \<and> (cpu s d = CQueue k \<or> cpu s d = CWait1 \<and> k = n) \<or>
      d \<noteq> m \<and> (cpu s d = CRun \<or> cpu s d = CAcquire \<or> cpu s d = CHold \<or> cpu s d = CDec1 \<or> cpu s d = CPhase)"
    if "d < n" for d using others [OF that] m by (cases "d = m") (auto simp: capture_cpu_def split: if_splits)
  have keep: "q_inv n s'" if "capture_inv n m k' s'" for k' using that by (auto simp: q_inv_def)
  show ?thesis using assms(1)
  proof (cases rule: qstep.cases)
    case Enter
    then have "uncaptured n m k s' = uncaptured n m k s" by (auto simp: uncaptured_def)
    then have "capture_inv n m k s'" using Enter assms(2) by (auto simp: capture_inv_def capture_cpu_def)
    then show ?thesis by (rule keep)
  next
    case (Queue j)
    then have cm: "c = m" "j = k" using pcs [of c] by auto
    have "uncaptured n m (k + 1) s' = uncaptured n m k s" using Queue cm by (auto simp: uncaptured_def)
    then have "capture_inv n m (k + 1) s'"
      using Queue cm assms(2) by (auto simp: capture_inv_def capture_cpu_def split: if_splits)
    then show ?thesis by (rule keep)
  next
    case QueueEnd
    then have cm: "c = m" "k = n" using pcs [of c] by auto
    have "uncaptured n m k s' = uncaptured n m k s" using QueueEnd cm by (auto simp: uncaptured_def)
    then have "capture_inv n m k s'" using QueueEnd cm assms(2) by (auto simp: capture_inv_def capture_cpu_def)
    then show ?thesis by (rule keep)
  next
    case Captured
    then have cm: "c = m" "k = n" using pcs [of c] by auto
    have "uncaptured n m n s = {}" using Captured cm assms(2) by (simp add: capture_inv_def)
    then have ph: "cpu s d = CPhase \<and> \<not> queued s d \<and> \<not> high s d" if "d < n" "d \<noteq> m" for d
      using others [OF that] that cm unfolding uncaptured_def capture_cpu_def by (auto split: if_splits)
    have "low_cpus n s' = {..<n}" "unheld n m s' = {..<n} - {m}"
      using Captured cm ph assms(2) by (auto simp: low_cpus_def unheld_def capture_inv_def)
    then have "gather_inv n m s'"
      using Captured cm ph assms(2) card_minus1 [of "{..<n}" m]
      by (auto simp: gather_inv_def capture_inv_def gather_cpu_def gather_pc_def)
    then show ?thesis by (auto simp: q_inv_def)
  next
    case DpcStart
    then have cm: "c \<noteq> m" using m by auto
    have "uncaptured n m k s' = uncaptured n m k s" using DpcStart cm by (auto simp: uncaptured_def)
    then have "capture_inv n m k s'"
      using DpcStart cm assms(2) others [of c] by (auto simp: capture_inv_def capture_cpu_def split: if_splits)
    then show ?thesis by (rule keep)
  next
    case Dec1
    then have cm: "c \<noteq> m" using m by auto
    have "c < k" "\<not> queued s c" using others [of c] Dec1 cm by (auto simp: capture_cpu_def)
    then have "uncaptured n m k s' = uncaptured n m k s - {c}" "c \<in> uncaptured n m k s" using Dec1 cm by (auto simp: uncaptured_def)
    then have "capture_inv n m k s'"
      using Dec1 cm assms(2) others [of c] card_minus1 [of "uncaptured n m k s" c]
      by (auto simp: capture_inv_def capture_cpu_def split: if_splits)
    then show ?thesis by (rule keep)
  next
    case Let_go
    then have cm: "c \<noteq> m" using m by auto
    have "uncaptured n m k s' = uncaptured n m k s" using Let_go cm by (auto simp: uncaptured_def)
    then have "capture_inv n m k s'"
      using Let_go cm assms(2) others [of c] by (auto simp: capture_inv_def capture_cpu_def split: if_splits)
    then show ?thesis by (rule keep)
  next
    case Phase
    then show ?thesis using assms(2) by (simp add: capture_inv_def)
  qed (use pcs [of c] m in auto)
qed


lemma gather_cpu_cong:
  "gather_cpu s d \<Longrightarrow> cpu s' d = cpu s d \<Longrightarrow> queued s' d = queued s d \<Longrightarrow> high s' d = high s d \<Longrightarrow>
    processorCount s' = processorCount s \<Longrightarrow> gather_cpu s' d"
  by (cases "cpu s d") (simp_all add: gather_cpu_def)

text \<open>Steps that change neither the counts nor who is high.\<close>

lemma gather_inv_goto:
  assumes "gather_inv n m s" and "c < n" and "cpu s c \<noteq> CHold" and "p \<noteq> CHold" and "gather_cpu (goto c p s) c"
    and "c = m \<Longrightarrow> gather_pc p \<or> p = CWait2" and "c \<noteq> m \<Longrightarrow> gather_pc p \<or> p = CDec2" and "cpu s c \<noteq> CQuiet"
  shows "gather_inv n m (goto c p s)"
proof -
  have "low_cpus n (goto c p s) = low_cpus n s" "unheld n m (goto c p s) = unheld n m s"
    using assms(3,4) by (auto simp: low_cpus_def unheld_def)
  moreover have "gather_cpu (goto c p s) d" if "d < n" "d \<noteq> c" for d
    using assms(1) that gather_cpu_cong [of s d "goto c p s"] by (simp add: gather_inv_def)
  ultimately show ?thesis
    using assms by (auto simp: gather_inv_def gather_pc_def)
qed

lemma card_0_low: "gather_inv n m s \<Longrightarrow> processorCount s = 0 \<Longrightarrow> c < n \<Longrightarrow> high s c"
  using finite_sets(2) [of n s] by (auto simp: gather_inv_def low_cpus_def)

lemma gather_inv_count:
  assumes g: "gather_inv n m s" and "c < n" and pc: "cpu s c = GRaise \<and> p = GSpin \<and> b \<or> cpu s c = GCas (processorCount s) \<and> p = GLoop \<and> \<not> b"
    and nz: "processorCount s \<noteq> 0" and v: "v = processorCount s + (if b then - 1 else 1)"
    and s': "s' = goto c p (s\<lparr>high := (high s)(c := b), processorCount := v\<rparr>)"
  shows "gather_inv n m s'"
proof -
  have cc: "gather_cpu s c" using g \<open>c < n\<close> by (simp add: gather_inv_def)
  have cpus: "gather_cpu s' d" if "d < n" for d
  proof -
    have "gather_cpu s d" using g that by (simp add: gather_inv_def)
    then show ?thesis using pc nz s' by (cases "d = c"; cases "cpu s d") (simp_all add: gather_cpu_def)
  qed
  have low: "int (card (low_cpus n s')) = v"
  proof (cases b)
    case True
    then have "low_cpus n s' = low_cpus n s - {c}" "c \<in> low_cpus n s"
      using pc cc \<open>c < n\<close> s' by (auto simp: low_cpus_def gather_cpu_def)
    then show ?thesis using card_minus1 [of "low_cpus n s" c] g v True by (simp add: gather_inv_def)
  next
    case False
    then have "low_cpus n s' = insert c (low_cpus n s)" "c \<notin> low_cpus n s"
      using pc cc \<open>c < n\<close> s' by (auto simp: low_cpus_def gather_cpu_def)
    then show ?thesis using g v False by (simp add: gather_inv_def)
  qed
  have "unheld n m s' = unheld n m s" using pc s' by (auto simp: unheld_def)
  then show ?thesis
    using g cpus low pc s' by (auto simp: gather_inv_def gather_pc_def)
qed

lemma gather_inv_step:
  assumes "qstep n c s s'" and g: "gather_inv n m s"
  shows "q_inv n s'"
proof -
  have cpus: "gather_cpu s d" if "d < n" for d using g that by (simp add: gather_inv_def)
  have ph: "QuiescePhase s" "qlock s = Some m" "m < n" using g by (simp_all add: gather_inv_def)
  have pcs: "gather_pc (cpu s d) \<or> d = m \<and> (cpu s d = CWait2 \<or> cpu s d = CQuiet \<or> cpu s d = CRelease) \<or>
      d \<noteq> m \<and> (cpu s d = CPhase \<or> cpu s d = CDec2 \<or> cpu s d = CHold)" if "d < n" for d
    using g that by (cases "d = m") (auto simp: gather_inv_def)
  have keep: "q_inv n s'" if "gather_inv n m s'" using that by (auto simp: q_inv_def)
  show ?thesis using assms(1)
  proof (cases rule: qstep.cases)
    case Phase
    then show ?thesis
      using keep gather_inv_goto [OF g, of c GRaise] pcs [of c] cpus [of c] by (auto simp: gather_cpu_def gather_pc_def)
  next
    case Raise
    then have "processorCount s \<noteq> 0" using card_0_low [OF g] cpus [of c] by (auto simp: gather_cpu_def)
    then show ?thesis using Raise keep gather_inv_count [OF g, of c GSpin True] by simp
  next
    case Seen
    then show ?thesis
      using keep gather_inv_goto [OF g, of c GLoop] cpus [of c] by (auto simp: gather_cpu_def gather_pc_def)
  next
    case Timeout
    then show ?thesis
      using keep gather_inv_goto [OF g, of c "GCas (processorCount s)"] cpus [of c] by (auto simp: gather_cpu_def gather_pc_def)
  next
    case (CasZero old)
    then show ?thesis
      using keep gather_inv_goto [OF g, of c GLoop] cpus [of c] by (auto simp: gather_cpu_def gather_pc_def)
  next
    case (CasOk old)
    then have "s' = goto c GLoop (s\<lparr>high := (high s)(c := False), processorCount := processorCount s + 1\<rparr>)" by simp
    then show ?thesis using CasOk keep gather_inv_count [OF g, of c GLoop False] by simp
  next
    case (CasFail old)
    then show ?thesis
      using keep gather_inv_goto [OF g, of c GSpin] cpus [of c] by (auto simp: gather_cpu_def gather_pc_def)
  next
    case Again
    then have "\<not> high s c" using cpus [of c] by (auto simp: gather_cpu_def)
    then show ?thesis
      using Again keep gather_inv_goto [OF g, of c GRaise] cpus [of c] by (auto simp: gather_cpu_def gather_pc_def)
  next
    case Gathered
    then have "high s c" using card_0_low [OF g] by simp
    then show ?thesis
      using Gathered ph keep gather_inv_goto [OF g, of c "if qlock s = Some c then CWait2 else CDec2"] cpus [of c]
      by (auto simp: gather_cpu_def gather_pc_def)
  next
    case Dec2
    then have "c \<noteq> m" using pcs [of c] by (auto simp: gather_pc_def)
    have "unheld n m s' = unheld n m s - {c}" "c \<in> unheld n m s" "low_cpus n s' = low_cpus n s"
      using Dec2 \<open>c \<noteq> m\<close> by (auto simp: unheld_def low_cpus_def)
    moreover have "gather_cpu s' d" if "d < n" for d
      using Dec2 cpus [OF that] by (cases "d = c"; cases "cpu s d") (simp_all add: gather_cpu_def)
    moreover have "\<not> (cpu s m = CQuiet \<or> cpu s m = CRelease)"
      using g calculation(2) by (auto simp: gather_inv_def)
    ultimately have "gather_inv n m s'"
      using g Dec2 \<open>c \<noteq> m\<close> card_minus1 [of "unheld n m s" c] by (auto simp: gather_inv_def)
    then show ?thesis by (rule keep)
  next
    case Done
    then have "c = m" using pcs [of c] by (auto simp: gather_pc_def)
    have "unheld n m s' = unheld n m s" "low_cpus n s' = low_cpus n s"
      using Done \<open>c = m\<close> by (auto simp: unheld_def low_cpus_def)
    moreover have "gather_cpu s' d" if "d < n" for d
      using Done cpus [OF that] by (cases "d = c"; cases "cpu s d") (simp_all add: gather_cpu_def)
    ultimately have "gather_inv n m s'"
      using g Done \<open>c = m\<close> by (auto simp: gather_inv_def)
    then show ?thesis by (rule keep)
  next
    case Unquiesce
    then have "c = m" using pcs [of c] by (auto simp: gather_pc_def)
    have "unheld n m s' = unheld n m s" "low_cpus n s' = low_cpus n s"
      using Unquiesce \<open>c = m\<close> by (auto simp: unheld_def low_cpus_def)
    moreover have "gather_cpu s' d" if "d < n" for d
      using Unquiesce cpus [OF that] by (cases "d = c"; cases "cpu s d") (simp_all add: gather_cpu_def)
    ultimately have "gather_inv n m s'"
      using g Unquiesce \<open>c = m\<close> by (auto simp: gather_inv_def)
    then show ?thesis by (rule keep)
  next
    case Release
    then have "c = m" using pcs [of c] by (auto simp: gather_pc_def)
    have "int (card (unheld n m s)) = 0" using g Release \<open>c = m\<close> unfolding gather_inv_def by metis
    then have "unheld n m s = {}" by simp
    then have "cpu s d = CHold" if "d < n" "d \<noteq> m" for d using that by (auto simp: unheld_def)
    then have "leave_inv n m s'"
      using Release \<open>c = m\<close> g cpus by (auto simp: leave_inv_def gather_inv_def free_cpu_def gather_cpu_def)
    then show ?thesis by (auto simp: q_inv_def)
  qed (use pcs [of c] ph in \<open>auto simp: gather_pc_def\<close>)
qed

lemma q_inv_step: "qstep n c s s' \<Longrightarrow> q_inv n s \<Longrightarrow> q_inv n s'"
  using idle_inv_step capture_inv_step gather_inv_step leave_inv_step unfolding q_inv_def [of n s] by blast

lemma q_reachable_inv: "q_reachable n s \<Longrightarrow> q_inv n s"
proof (induction rule: q_reachable.induct)
  case init
  show ?case by (simp add: q_inv_def idle_inv_def free_cpu_def quiesce_init_def)
next
  case (step s c s')
  then show ?case using q_inv_step by blast
qed


section \<open>Progress\<close>

text \<open>A bound on the steps a processor still takes until the system is quiet.\<close>

definition cpu_rank :: "nat \<Rightarrow> bool \<Rightarrow> bool \<Rightarrow> cpu_pc \<Rightarrow> nat" where
  "cpu_rank n ph h p = (case p of
     CQueue k \<Rightarrow> 40 + (n - k) | CWait1 \<Rightarrow> 39 | CRun \<Rightarrow> 30 | CHold \<Rightarrow> (if ph then 0 else 31) | CDec1 \<Rightarrow> 29 | CPhase \<Rightarrow> 28
   | GCas _ \<Rightarrow> 22 | GLoop \<Rightarrow> (if h then 17 else 21) | GRaise \<Rightarrow> 20 | GSpin \<Rightarrow> 18 | CDec2 \<Rightarrow> 16 | CWait2 \<Rightarrow> 16 | _ \<Rightarrow> 0)"

definition q_rank :: "nat \<Rightarrow> quiesce \<Rightarrow> nat" where
  "q_rank n s = (\<Sum>c < n. cpu_rank n (QuiescePhase s) (high s c) (cpu s c))"

text \<open>\<open>m\<close> is on its way to a quiet system and no other processor waits for the lock.\<close>

definition pursuing :: "nat \<Rightarrow> nat \<Rightarrow> quiesce \<Rightarrow> bool" where
  "pursuing n m s \<longleftrightarrow> q_inv n s \<and> qlock s = Some m \<and> cpu s m \<noteq> CRelease \<and> cpu s m \<noteq> CLower \<and> cpu s m \<noteq> CUnlock \<and>
     (\<forall>c < n. cpu s c \<noteq> CAcquire)"

lemma pursuing_cases:
  assumes "pursuing n m s"
  obtains k where "capture_inv n m k s" | "gather_inv n m s"
proof -
  have "\<not> idle_inv n s" "\<not> leave_inv n m' s" "capture_inv n m' k s \<Longrightarrow> m' = m" "gather_inv n m' s \<Longrightarrow> m' = m" for m' k
    using assms by (auto simp: pursuing_def idle_inv_def leave_inv_def capture_inv_def gather_inv_def)
  then show thesis using assms that unfolding pursuing_def q_inv_def by blast
qed

lemma q_rank_less:
  assumes "c < n" and "cpu_rank n (QuiescePhase s') (high s' c) (cpu s' c) < cpu_rank n (QuiescePhase s) (high s c) (cpu s c)"
    and "\<And>d. d < n \<Longrightarrow> d \<noteq> c \<Longrightarrow>
      cpu_rank n (QuiescePhase s') (high s' d) (cpu s' d) \<le> cpu_rank n (QuiescePhase s) (high s d) (cpu s d)"
  shows "q_rank n s' < q_rank n s"
  unfolding q_rank_def using assms by (intro sum_strict_mono_ex1) (auto simp: le_less)

definition advances :: "nat \<Rightarrow> nat \<Rightarrow> quiesce \<Rightarrow> bool" where
  "advances n m s \<longleftrightarrow> (\<exists>c s'. qstep n c s s' \<and> q_rank n s' < q_rank n s \<and> pursuing n m s')"

lemma advancesI:
  assumes "pursuing n m s" and "qstep n c s s'" and "c < n"
    and "cpu_rank n (QuiescePhase s) (high s' c) p < cpu_rank n (QuiescePhase s) (high s c) (cpu s c)"
    and "cpu s' = (cpu s)(c := p)" and "\<And>d. d \<noteq> c \<Longrightarrow> high s' d = high s d" and "QuiescePhase s' = QuiescePhase s" and "qlock s' = qlock s"
    and "p \<noteq> CRelease" "p \<noteq> CLower" "p \<noteq> CUnlock" "p \<noteq> CAcquire"
  shows "advances n m s"
proof -
  have "q_rank n s' < q_rank n s" using assms(4-7) by (intro q_rank_less [OF assms(3)]) auto
  moreover have "pursuing n m s'" using assms(1,5,8-12) q_inv_step [OF assms(2)] by (auto simp: pursuing_def)
  ultimately show ?thesis unfolding advances_def using assms(2) by blast
qed

lemma capture_advances:
  assumes p: "pursuing n m s" and g: "capture_inv n m k s"
  shows "advances n m s"
proof -
  have m: "m < n" "k \<le> n" "\<not> QuiescePhase s" "cpu s m = CQueue k \<or> cpu s m = CWait1 \<and> k = n" using g by (simp_all add: capture_inv_def)
  have acq: "\<And>c. c < n \<Longrightarrow> cpu s c \<noteq> CAcquire" using p by (simp add: pursuing_def)
  consider "cpu s m = CQueue k" "k < n" | "cpu s m = CQueue n" | "cpu s m = CWait1" "k = n" "SpinCount1 s = 0" | "k = n" "SpinCount1 s \<noteq> 0"
    using m by fastforce
  then show ?thesis
  proof cases
    case 1
    then show ?thesis
      using m advancesI [OF p qstep.Queue [OF m(1) 1], of "CQueue (k + 1)"] by (simp add: cpu_rank_def)
  next
    case 2
    then show ?thesis
      using m advancesI [OF p qstep.QueueEnd [OF m(1) 2], of CWait1] by (simp add: cpu_rank_def)
  next
    case 3
    let ?s = "goto m GRaise (s\<lparr>QuiescePhase := True\<rparr>)"
    have st: "qstep n m s ?s" using 3 m by (intro qstep.Captured) auto
    have "q_rank n ?s < q_rank n s"
      using 3 m by (intro q_rank_less [of m]) (auto simp: cpu_rank_def split: cpu_pc.split)
    moreover have "pursuing n m ?s" using p q_inv_step [OF st] by (auto simp: pursuing_def)
    ultimately show ?thesis unfolding advances_def using st by blast
  next
    case 4
    then have "uncaptured n m n s \<noteq> {}" using g by (auto simp: capture_inv_def)
    then obtain c where c: "c < n" "c \<noteq> m" "queued s c \<or> cpu s c = CDec1" by (auto simp: uncaptured_def)
    have cc: "capture_cpu n s c" using g c 4 by (auto simp: capture_inv_def)
    then consider "cpu s c = CDec1" | "cpu s c = CRun" "queued s c" | "cpu s c = CHold"
      using c acq [of c] by (auto simp: capture_cpu_def split: if_splits)
    then show ?thesis
    proof cases
      case 1
      then show ?thesis using c advancesI [OF p qstep.Dec1 [OF c(1) 1], of CPhase] by (simp add: cpu_rank_def)
    next
      case 2
      then show ?thesis using c advancesI [OF p qstep.DpcStart [OF c(1) 2], of CDec1] by (simp add: cpu_rank_def)
    next
      case 3
      then show ?thesis using c m advancesI [OF p qstep.Let_go [OF c(1) 3 m(3)], of CRun] by (simp add: cpu_rank_def)
    qed
  qed
qed

lemma gather_advances_cpu:
  assumes p: "pursuing n m s" and g: "gather_inv n m s" and c: "c < n"
    and pc: "cpu s c \<noteq> GSpin" "cpu s c \<noteq> CHold" "cpu s c \<noteq> CWait2" "cpu s c \<noteq> CQuiet"
  shows "advances n m s"
proof -
  have cc: "gather_cpu s c" and ph: "QuiescePhase s" using g c by (simp_all add: gather_inv_def)
  have "cpu s c \<noteq> CRelease" using g p c by (cases "c = m") (auto simp: gather_inv_def pursuing_def gather_pc_def)
  then consider "cpu s c = CPhase" | "cpu s c = GRaise" | old where "cpu s c = GCas old" | "cpu s c = GLoop" | "cpu s c = CDec2"
    using cc pc by (auto simp: gather_cpu_def split: cpu_pc.splits)
  then show ?thesis
  proof cases
    case 1
    then show ?thesis using c ph advancesI [OF p qstep.Phase [OF c 1 ph], of GRaise] by (simp add: cpu_rank_def)
  next
    case 2
    then show ?thesis using c ph advancesI [OF p qstep.Raise [OF c 2], of GSpin] by (simp add: cpu_rank_def)
  next
    case 3
    consider "old = 0" | "old \<noteq> 0" "processorCount s = old" | "old \<noteq> 0" "processorCount s \<noteq> old" by blast
    then show ?thesis
    proof cases
      case 1
      then show ?thesis using 3 c ph advancesI [OF p qstep.CasZero [OF c 3 1], of GLoop] by (simp add: cpu_rank_def)
    next
      case 2
      then show ?thesis using 3 c ph advancesI [OF p qstep.CasOk [OF c 3 2], of GLoop] by (simp add: cpu_rank_def)
    next
      case a: 3
      then show ?thesis using 3 c ph advancesI [OF p qstep.CasFail [OF c 3 a], of GSpin] by (simp add: cpu_rank_def)
    qed
  next
    case 4
    show ?thesis
    proof (cases "processorCount s = 0")
      case True
      then show ?thesis
        using 4 c ph advancesI [OF p qstep.Gathered [OF c 4 True], of "if qlock s = Some c then CWait2 else CDec2"]
        by (simp add: cpu_rank_def)
    next
      case False
      then have "\<not> high s c" using cc 4 by (auto simp: gather_cpu_def)
      then show ?thesis using 4 c ph advancesI [OF p qstep.Again [OF c 4 False], of GRaise] by (simp add: cpu_rank_def)
    qed
  next
    case 5
    then show ?thesis using c ph advancesI [OF p qstep.Dec2 [OF c 5], of CHold] by (simp add: cpu_rank_def)
  qed
qed

lemma gather_advances:
  assumes p: "pursuing n m s" and g: "gather_inv n m s" and nq: "\<not> Quiesced s"
  shows "advances n m s"
proof (cases "\<exists>c < n. cpu s c \<noteq> GSpin \<and> cpu s c \<noteq> CHold \<and> cpu s c \<noteq> CWait2 \<and> cpu s c \<noteq> CQuiet")
  case True
  then show ?thesis using gather_advances_cpu [OF p g] by blast
next
  case False
  have pm: "gather_pc (cpu s m) \<or> cpu s m = CWait2 \<or> cpu s m = CQuiet \<or> cpu s m = CRelease"
    and pc: "gather_pc (cpu s c) \<or> cpu s c = CPhase \<or> cpu s c = CDec2 \<or> cpu s c = CHold" if "c < n" "c \<noteq> m" for c
    using g that by (simp_all add: gather_inv_def)
  have m: "m < n" "QuiescePhase s" "cpu s m \<noteq> CQuiet" using g nq by (simp_all add: gather_inv_def)
  have "cpu s m \<noteq> CHold" using g by (auto simp: gather_inv_def gather_pc_def)
  have all: "cpu s c = GSpin \<or> cpu s c = CHold \<or> cpu s c = CWait2 \<and> c = m" if "c < n" for c
  proof -
    have "cpu s c = GSpin \<or> cpu s c = CHold \<or> cpu s c = CWait2 \<or> cpu s c = CQuiet" using False that by blast
    then show ?thesis using pc [OF that] m by (cases "c = m") (auto simp: gather_pc_def)
  qed
  have cc: "gather_cpu s c" if "c < n" for c using g that by (simp add: gather_inv_def)
  have "high s c" if "c < n" for c using cc [OF that] all [OF that] by (auto simp: gather_cpu_def)
  then have "low_cpus n s = {}" by (auto simp: low_cpus_def)
  then have z: "processorCount s = 0" using g by (simp add: gather_inv_def)
  show ?thesis
  proof (cases "\<exists>c < n. cpu s c = GSpin")
    case True
    then obtain c where c: "c < n" "cpu s c = GSpin" by blast
    have "high s c" using cc [OF c(1)] c(2) by (simp add: gather_cpu_def)
    then show ?thesis using c m advancesI [OF p qstep.Seen [OF c z], of GLoop] by (simp add: cpu_rank_def)
  next
    case False
    then have w: "cpu s m = CWait2" and "unheld n m s = {}" using all m \<open>cpu s m \<noteq> CHold\<close> by (auto simp: unheld_def)
    then have "SpinCount2 s = 0" using g by (simp add: gather_inv_def)
    then show ?thesis using m w advancesI [OF p qstep.Done [OF m(1) w], of CQuiet] by (simp add: cpu_rank_def)
  qed
qed

abbreviation qsteps :: "nat \<Rightarrow> quiesce \<Rightarrow> quiesce \<Rightarrow> bool" where
  "qsteps n \<equiv> (\<lambda>s s'. \<exists>c. qstep n c s s')\<^sup>*\<^sup>*"

lemma pursuing_completes: "pursuing n m s \<Longrightarrow> \<exists>s'. qsteps n s s' \<and> Quiesced s' \<and> qlock s' = Some m"
proof (induction "q_rank n s" arbitrary: s rule: less_induct)
  case less
  show ?case
  proof (cases "Quiesced s")
    case True
    then show ?thesis using less.prems by (auto simp: pursuing_def)
  next
    case False
    have "advances n m s"
      using pursuing_cases [OF less.prems] capture_advances [OF less.prems] gather_advances [OF less.prems _ False] by blast
    then obtain c s' where st: "qstep n c s s'" "q_rank n s' < q_rank n s" "pursuing n m s'" unfolding advances_def by blast
    obtain t where "qsteps n s' t" "Quiesced t" "qlock t = Some m" using less.hyps [OF st(2,3)] by blast
    moreover have "qsteps n s s'" using st(1) by blast
    ultimately show ?thesis using rtranclp_trans [of _ s s' t] by blast
  qed
qed


section \<open>Properties\<close>

lemma captured_facts:
  assumes "q_inv n s" and "c < n"
  shows "cpu s c = CRun \<Longrightarrow> \<not> QuiescePhase s" and "cpu s c = CDec1 \<Longrightarrow> 0 < SpinCount1 s" and "cpu s c = CDec2 \<Longrightarrow> 0 < SpinCount2 s"
proof -
  consider "idle_inv n s" | m k where "capture_inv n m k s" | m where "gather_inv n m s" | m where "leave_inv n m s"
    using assms(1) by (auto simp: q_inv_def)
  then have "(cpu s c = CRun \<longrightarrow> \<not> QuiescePhase s) \<and> (cpu s c = CDec1 \<longrightarrow> 0 < SpinCount1 s) \<and> (cpu s c = CDec2 \<longrightarrow> 0 < SpinCount2 s)"
  proof cases
    case 1
    then show ?thesis using assms(2) by (auto simp: idle_inv_def free_cpu_def)
  next
    case (2 m k)
    have cm: "c \<noteq> m" if "cpu s c = CDec1 \<or> cpu s c = CDec2" using 2 that by (auto simp: capture_inv_def)
    have "uncaptured n m k s \<noteq> {}" if "cpu s c = CDec1" using that cm assms(2) by (auto simp: uncaptured_def)
    moreover have "cpu s c \<noteq> CDec2"
    proof
      assume d: "cpu s c = CDec2"
      then have "capture_cpu k s c" using 2 assms(2) cm by (simp add: capture_inv_def)
      then show False using d by (simp add: capture_cpu_def)
    qed
    ultimately show ?thesis using 2 card_gt_0_iff [of "uncaptured n m k s"] by (auto simp: capture_inv_def)
  next
    case (3 m)
    have "gather_cpu s c" using 3 assms(2) by (simp add: gather_inv_def)
    then have "cpu s c \<noteq> CRun" "cpu s c \<noteq> CDec1" by (auto simp: gather_cpu_def)
    moreover have "unheld n m s \<noteq> {}" if "cpu s c = CDec2" using that 3 assms(2) by (auto simp: unheld_def gather_inv_def gather_pc_def)
    ultimately show ?thesis using 3 card_gt_0_iff [of "unheld n m s"] by (auto simp: gather_inv_def)
  next
    case (4 m)
    then show ?thesis using assms(2) by (cases "c = m") (auto simp: leave_inv_def free_cpu_def)
  qed
  then show "cpu s c = CRun \<Longrightarrow> \<not> QuiescePhase s" and "cpu s c = CDec1 \<Longrightarrow> 0 < SpinCount1 s" and "cpu s c = CDec2 \<Longrightarrow> 0 < SpinCount2 s"
    by simp_all
qed

lemma quiet_facts:
  assumes "q_inv n s" and "Quiesced s"
  obtains m where "m < n" "qlock s = Some m" "cpu s m = CQuiet" "QuiescePhase s" "high s m"
    "\<And>c. c < n \<Longrightarrow> c \<noteq> m \<Longrightarrow> cpu s c = CHold \<and> high s c"
proof -
  obtain m where g: "gather_inv n m s"
    using assms by (auto simp: q_inv_def idle_inv_def capture_inv_def leave_inv_def)
  have q: "cpu s m = CQuiet" using g assms(2) by (simp add: gather_inv_def)
  have "int (card (unheld n m s)) = 0" using g q unfolding gather_inv_def by metis
  then have held: "cpu s c = CHold" if "c < n" "c \<noteq> m" for c using that by (auto simp: unheld_def)
  have gc: "gather_cpu s c" if "c < n" for c using g that by (simp add: gather_inv_def)
  have "high s c" if "c < n" for c using held [OF that] gc [OF that] q by (cases "c = m") (auto simp: gather_cpu_def)
  then show thesis using that [of m] g q held by (simp add: gather_inv_def)
qed

text \<open>C4: When \<^verbatim>\<open>QuiesceSystem\<close> has returned, on any number of processors and after any number of earlier captures, every
  other processor is held in its DPC with interrupts disabled, none of them uses the count on the stack of the
  initiator any more, and the only step the system can take is the initiator's call of \<^verbatim>\<open>UnquiesceSystem\<close>.  The
  assertions on the phase and the spin counts hold on the way.\<close>

theorem QuiesceSystem_exclusive:
  assumes "q_reachable n s"
  shows "(Quiesced s \<longrightarrow> (\<exists>m < n. qlock s = Some m \<and> (\<forall>c < n. high s c \<and> (c \<noteq> m \<longrightarrow> cpu s c = CHold)) \<and>
            (\<forall>c s'. qstep n c s s' \<longrightarrow> c = m \<and> s' = goto m CRelease (s\<lparr>Quiesced := False\<rparr>)))) \<and>
         (\<forall>c < n. (cpu s c = CRun \<longrightarrow> \<not> QuiescePhase s) \<and> (cpu s c = CDec1 \<longrightarrow> 0 < SpinCount1 s) \<and>
            (cpu s c = CDec2 \<longrightarrow> 0 < SpinCount2 s))"
proof -
  have inv: "q_inv n s" by (rule q_reachable_inv [OF assms])
  have "\<exists>m < n. qlock s = Some m \<and> (\<forall>c < n. high s c \<and> (c \<noteq> m \<longrightarrow> cpu s c = CHold)) \<and>
      (\<forall>c s'. qstep n c s s' \<longrightarrow> c = m \<and> s' = goto m CRelease (s\<lparr>Quiesced := False\<rparr>))" if quiet: "Quiesced s"
  proof -
    obtain m where m: "m < n" "qlock s = Some m" "cpu s m = CQuiet" "QuiescePhase s" "high s m"
      and held: "\<And>c. c < n \<Longrightarrow> c \<noteq> m \<Longrightarrow> cpu s c = CHold \<and> high s c" using quiet_facts [OF inv quiet] by blast
    have "c = m \<and> s' = goto m CRelease (s\<lparr>Quiesced := False\<rparr>)" if "qstep n c s s'" for c s'
      using that held [of c] m by (cases rule: qstep.cases) (cases "c = m"; simp)+
    then show ?thesis using m held by blast
  qed
  then show ?thesis using captured_facts [OF inv] by blast
qed

text \<open>C35: A capture can always complete.  In every reachable state in which a processor holds the lock and is on its way
  into the quiet state, and no other one waits for the lock, the system can reach the quiet state, whatever back-offs
  and late processors there have been.\<close>

theorem QuiesceSystem_completes:
  assumes "q_reachable n s" and "qlock s = Some m" and "cpu s m \<notin> {CRelease, CLower, CUnlock}"
    and "\<And>c. c < n \<Longrightarrow> cpu s c \<noteq> CAcquire"
  shows "\<exists>s'. qsteps n s s' \<and> Quiesced s' \<and> qlock s' = Some m"
  using assms q_reachable_inv by (intro pursuing_completes) (auto simp: pursuing_def)

text \<open>Two captures at the same time deadlock: when a processor waits for the lock while the holder still collects
  processors, the waiting one, at \<^verbatim>\<open>DISPATCH_LEVEL\<close>, never runs its DPC; the holder never gets past
  \<^verbatim>\<open>_g_ProcessorSpinCount1\<close>, and the system never becomes quiet.\<close>

theorem QuiesceSystem_deadlocks:
  assumes "q_reachable n s" and "qlock s = Some m" and "cpu s m = CWait1" and "c < n" and "cpu s c = CAcquire"
    and "qsteps n s s'"
  shows "cpu s' c = CAcquire \<and> cpu s' m = CWait1 \<and> \<not> Quiesced s'"
proof -
  have cap: "capture_inv n m n t" if "q_inv n t" "qlock t = Some m" "cpu t m = CWait1" for t
    using that by (auto simp: q_inv_def idle_inv_def capture_inv_def gather_inv_def leave_inv_def gather_pc_def)
  have "q_inv n s' \<and> qlock s' = Some m \<and> cpu s' m = CWait1 \<and> cpu s' c = CAcquire"
    using assms(6)
  proof (induction rule: rtranclp_induct)
    case base
    then show ?case using assms(2,3,5) q_reachable_inv [OF assms(1)] by simp
  next
    case (step t t')
    then obtain d where d: "qstep n d t t'" by blast
    have inv: "capture_inv n m n t" using cap step.IH by blast
    have "c \<noteq> m" using step.IH by auto
    have "capture_cpu n t c" using inv assms(4) \<open>c \<noteq> m\<close> by (simp add: capture_inv_def)
    then have "c \<in> uncaptured n m n t" using step.IH assms(4) \<open>c \<noteq> m\<close> by (auto simp: uncaptured_def capture_cpu_def)
    then have "SpinCount1 t \<noteq> 0" using inv card_gt_0_iff [of "uncaptured n m n t"] by (auto simp: capture_inv_def)
    moreover have "cpu t d \<noteq> CUnlock" if "d < n"
    proof (cases "d = m")
      case True
      then show ?thesis using step.IH by simp
    next
      case False
      then have "capture_cpu n t d" using inv that by (simp add: capture_inv_def)
      then show ?thesis by (auto simp: capture_cpu_def split: if_splits)
    qed
    ultimately have "qlock t' = Some m \<and> cpu t' m = CWait1 \<and> cpu t' c = CAcquire"
      using d step.IH by - (erule qstep.cases; auto)
    then show ?case using q_inv_step [OF d] step.IH by blast
  qed
  then show ?thesis using cap [of s'] by (simp add: capture_inv_def)
qed

section \<open>Two processors\<close>

text \<open>Processor 0 is collecting; processor 1 has not noticed yet.\<close>

definition collecting :: quiesce where
  "collecting = quiesce_init\<lparr>cpu := (\<lambda>c. if c = 0 then CWait1 else CRun), queued := (\<lambda>c. c = 1), qlock := Some 0,
     SpinCount1 := 1, SpinCount2 := 1, processorCount := 2\<rparr>"

lemma q_reach: "q_reachable n s \<Longrightarrow> qstep n c s t \<Longrightarrow> t = s' \<Longrightarrow> q_reachable n s'"
  using q_reachable.step by blast

lemma collecting_reachable: "q_reachable 2 collecting"
proof -
  let ?a = "goto 0 CAcquire quiesce_init"
  let ?b = "goto 0 (CQueue 0) (?a\<lparr>qlock := Some 0, SpinCount1 := 1, SpinCount2 := 1, processorCount := 2\<rparr>)"
  let ?c = "goto 0 (CQueue 1) ?b"
  let ?d = "goto 0 (CQueue 2) (?c\<lparr>queued := (\<lambda>c. c = 1)\<rparr>)"
  have "q_reachable 2 ?a" by (rule q_reach [OF q_reachable.init qstep.Enter]) (simp_all add: quiesce_init_def)
  then have "q_reachable 2 ?b" by (rule q_reach [OF _ qstep.Acquire]) (simp_all add: quiesce_init_def)
  then have "q_reachable 2 ?c"
    by (rule q_reach [OF _ qstep.Queue [where c = 0 and k = 0]]) (simp_all add: quiesce_init_def goto_def fun_eq_iff)
  then have "q_reachable 2 ?d"
    by (rule q_reach [OF _ qstep.Queue [where c = 0 and k = 1]]) (simp_all add: quiesce_init_def goto_def fun_eq_iff)
  then show ?thesis
    by (rule q_reach [OF _ qstep.QueueEnd [where c = 0]])
      (simp_all add: quiesce_init_def goto_def fun_eq_iff collecting_def)
qed

theorem QuiesceSystem_completes_witness:
  "\<exists>s'. qsteps 2 collecting s' \<and> Quiesced s' \<and> qlock s' = Some 0"
  using QuiesceSystem_completes [OF collecting_reachable, of 0] by (simp add: collecting_def)

theorem QuiesceSystem_exclusive_witness:
  "\<exists>s. q_reachable 2 s \<and> Quiesced s \<and> high s 0 \<and> high s 1 \<and> (cpu s 0 = CHold \<or> cpu s 1 = CHold)"
proof -
  have "pursuing 2 0 collecting"
    using q_reachable_inv [OF collecting_reachable] by (simp add: pursuing_def) (simp add: collecting_def)
  then obtain s where s: "qsteps 2 collecting s" "Quiesced s" using pursuing_completes by blast
  have "q_reachable 2 s"
    using s(1) by (induction rule: rtranclp_induct) (auto intro: collecting_reachable q_reachable.step)
  then obtain m where "m < 2" "\<forall>c < 2. high s c \<and> (c \<noteq> m \<longrightarrow> cpu s c = CHold)"
    using QuiesceSystem_exclusive [of 2 s] s(2) by blast
  then have "high s 0" "high s 1" "cpu s 0 = CHold \<or> cpu s 1 = CHold"
    by (auto simp: less_2_cases_iff)
  then show ?thesis using \<open>q_reachable 2 s\<close> s(2) by blast
qed

theorem QuiesceSystem_deadlocks_witness:
  "{s'. qsteps 2 (goto 1 CAcquire collecting) s' \<and> Quiesced s'} = {}"
proof -
  have "q_reachable 2 (goto 1 CAcquire collecting)"
    by (rule q_reach [OF collecting_reachable qstep.Enter]) (simp_all add: collecting_def)
  then show ?thesis
    using QuiesceSystem_deadlocks [of 2 "goto 1 CAcquire collecting" 0 1] by (auto simp: collecting_def)
qed

end
