(* ===== verification/Suspend.thy ===== *)
theory Suspend
  imports Prelude
begin

text \<open>
  Suspend handlers, suspend tokens and the turn of the suspend thread: \<^verbatim>\<open>src/xenutil/suspend.c\<close> without the capture of
  processors, which is \<^verbatim>\<open>Quiesce\<close>.

  \<^item> \<open>suspend\<close> has the globals of the file.  The lists of handlers and tokens are lists of addresses; \<open>handlers\<close> and
    \<open>tokens\<close> are the memory behind them.  \<open>called\<close> are the callbacks that have been called, in order.
  \<^item> While the suspend thread runs callbacks at \<^verbatim>\<open>PASSIVE_LEVEL\<close> it does not hold \<^verbatim>\<open>SuspendHandlersLock\<close>, and setting
    \<^verbatim>\<open>defunct\<close> takes no lock at all.  What other threads do to the handlers is a list of operations for each time the
    lock is free.
  \<^item> \<open>AustereMode\<close>, allocation results and the contents of xenstore are arguments.
\<close>

abbreviation (input) SUSPEND_CB_EARLY_TYPE :: int where "SUSPEND_CB_EARLY_TYPE \<equiv> 0"
abbreviation (input) SUSPEND_CB_LATE_TYPE :: int where "SUSPEND_CB_LATE_TYPE \<equiv> 1"
abbreviation (input) PRE_SUSPEND_CB_EARLY_TYPE :: int where "PRE_SUSPEND_CB_EARLY_TYPE \<equiv> 4"
abbreviation (input) PRE_SUSPEND_CB_LATE_TYPE :: int where "PRE_SUSPEND_CB_LATE_TYPE \<equiv> 5"

definition IS_VALID_CB_TYPE :: "int \<Rightarrow> bool" where
  "IS_VALID_CB_TYPE type \<longleftrightarrow> type = SUSPEND_CB_EARLY_TYPE \<or> type = SUSPEND_CB_LATE_TYPE \<or>
     type = PRE_SUSPEND_CB_EARLY_TYPE \<or> type = PRE_SUSPEND_CB_LATE_TYPE"

record SuspendHandler =
  sh_name :: string
  cb :: nat
  cb_type :: int
  defunct :: bool
  pending_run :: bool
  running :: bool

record suspend =
  suspend_count :: u32
  SuspendHandlersList :: "nat list"
  handlers :: "nat \<Rightarrow> SuspendHandler option"
  suspend_token_list :: "nat list"
  tokens :: "nat \<Rightarrow> string option"
  anonymous_token_count :: u32
  suspend_thread :: bool
  thread_event :: bool
  pending_suspend_thread_launches :: int
  called :: "nat list"

definition with_sh :: "suspend \<Rightarrow> nat \<Rightarrow> (SuspendHandler \<Rightarrow> 'a res) \<Rightarrow> 'a res" where
  "with_sh s p k = (case handlers s p of None \<Rightarrow> Inl BadPointer | Some h \<Rightarrow> k h)"

definition set_sh :: "suspend \<Rightarrow> nat \<Rightarrow> SuspendHandler \<Rightarrow> suspend" where
  "set_sh s p h = s\<lparr>handlers := (handlers s)(p \<mapsto> h)\<rparr>"

section \<open>Registering handlers\<close>

text \<open>The copy of a name into an array of 64 characters, with its terminator.\<close>

definition copy_name :: "string \<Rightarrow> string" where
  "copy_name name = (let len = min (length name + 1) 64 in take (len - 1) name)"

definition EvtchnRegisterSuspendHandler ::
  "bool \<Rightarrow> nat option \<Rightarrow> nat \<Rightarrow> string \<Rightarrow> int \<Rightarrow> suspend \<Rightarrow> (nat option \<times> suspend) res" where
  "EvtchnRegisterSuspendHandler AustereMode a fn name type s =
     xm_assert (IS_VALID_CB_TYPE type)
       (if AustereMode then Inr (None, s)
        else
          (case a of
             None \<Rightarrow> Inr (None, s)
           | Some work \<Rightarrow>
               Inr (Some work, (set_sh s work \<lparr>sh_name = copy_name name, cb = fn, cb_type = type, defunct = False, pending_run = False,
                                               running = False\<rparr>)\<lparr>SuspendHandlersList := SuspendHandlersList s @ [work]\<rparr>)))"

text \<open>\<open>low\<close> says that the caller is not above \<^verbatim>\<open>DISPATCH_LEVEL\<close>.\<close>

definition EvtchnUnregisterSuspendHandler :: "bool \<Rightarrow> nat option \<Rightarrow> suspend \<Rightarrow> suspend res" where
  "EvtchnUnregisterSuspendHandler low sh s =
     xm_assert low
       (case sh of
          None \<Rightarrow> Inl XmAssert
        | Some p \<Rightarrow>
            with_sh s p (\<lambda>h.
              let s = set_sh s p (h\<lparr>defunct := True\<rparr>)
              in Inr (if suspend_thread s then s\<lparr>thread_event := True\<rparr> else s)))"

datatype sus_op =
    Register "nat option" nat string int
  | Unregister nat

definition sus_do :: "sus_op \<Rightarrow> suspend \<Rightarrow> suspend res" where
  "sus_do x s = (case x of
     Register a fn name type \<Rightarrow> res_bind (EvtchnRegisterSuspendHandler False a fn name type s) (\<lambda>(_, s). Inr s)
   | Unregister p \<Rightarrow> EvtchnUnregisterSuspendHandler True (Some p) s)"

fun sus_run :: "sus_op list \<Rightarrow> suspend \<Rightarrow> suspend res" where
  "sus_run [] s = Inr s"
| "sus_run (x # xs) s = res_bind (sus_do x s) (sus_run xs)"

section \<open>Invoking handlers\<close>

definition invoke :: "suspend \<Rightarrow> SuspendHandler \<Rightarrow> suspend" where
  "invoke s h = s\<lparr>called := called s @ [cb h]\<rparr>"

text \<open>The first loop of \<^verbatim>\<open>InvokeSuspendHandlers\<close> over the list \<open>le\<close>; \<open>pending\<close> is its counter.\<close>

fun Invoke_list :: "int \<Rightarrow> nat list \<Rightarrow> nat \<Rightarrow> suspend \<Rightarrow> (nat \<times> suspend) res" where
  "Invoke_list type [] pending s = Inr (pending, s)"
| "Invoke_list type (le # rest) pending s =
     with_sh s le (\<lambda>sh.
       if cb_type sh \<noteq> type \<or> defunct sh then Invoke_list type rest pending s
       else if type = PRE_SUSPEND_CB_LATE_TYPE \<or> type = SUSPEND_CB_EARLY_TYPE
         then Invoke_list type rest pending (invoke s sh)
       else if type = PRE_SUSPEND_CB_EARLY_TYPE \<or> type = SUSPEND_CB_LATE_TYPE
         then Invoke_list type rest (pending + 1) (set_sh s le (sh\<lparr>pending_run := True\<rparr>))
       else Inl XmAssert)"

text \<open>The second loop takes the first handler in the list that is pending, again and again.\<close>

fun first_pending :: "nat list \<Rightarrow> suspend \<Rightarrow> nat option res" where
  "first_pending [] s = Inr None"
| "first_pending (le # rest) s = with_sh s le (\<lambda>sh. if pending_run sh then Inr (Some le) else first_pending rest s)"

definition batch :: "sus_op list list \<Rightarrow> sus_op list" where
  "batch others = (case others of [] \<Rightarrow> [] | x # _ \<Rightarrow> x)"

text \<open>\<open>hd others\<close> is what other threads do before the lock is taken.  The counter decreases with every callback.\<close>

fun Invoke_pending :: "nat \<Rightarrow> sus_op list list \<Rightarrow> suspend \<Rightarrow> suspend res" where
  "Invoke_pending pending others s =
     res_bind (sus_run (batch others) s) (\<lambda>s.
     res_bind (first_pending (SuspendHandlersList s) s) (\<lambda>r.
       case r of
         None \<Rightarrow> xm_assert (pending = 0) (Inr s)
       | Some le \<Rightarrow>
           with_sh s le (\<lambda>sh.
             xm_assert (cb_type sh = PRE_SUSPEND_CB_EARLY_TYPE \<or> cb_type sh = SUSPEND_CB_LATE_TYPE)
             (xm_assert (\<not> defunct sh)
               (let s = set_sh s le (sh\<lparr>pending_run := False, running := True\<rparr>);
                    s = invoke s sh;
                    s = set_sh s le (sh\<lparr>pending_run := False, running := False\<rparr>)
                in (case pending of
                      0 \<Rightarrow> Inl XmAssert
                    | Suc n \<Rightarrow> Invoke_pending n (tl others) s))))))"

declare Invoke_pending.simps [simp del]

definition InvokeSuspendHandlers :: "int \<Rightarrow> sus_op list list \<Rightarrow> suspend \<Rightarrow> suspend res" where
  "InvokeSuspendHandlers type others s =
     xm_assert (IS_VALID_CB_TYPE type)
       (res_bind (Invoke_list type (SuspendHandlersList s) 0 s) (\<lambda>(pending, s).
          if type = PRE_SUSPEND_CB_LATE_TYPE \<or> type = SUSPEND_CB_EARLY_TYPE
            then xm_assert (pending = 0) (Inr s)
          else if pending = 0 then Inr s
          else Invoke_pending pending others s))"

text \<open>\<open>res\<close> is what the shutdown hypercall returns; 1 means that the suspend was cancelled.  \<open>mtc\<close> is the feature flag of
  protected machines.  Other threads may act in the two phases at \<^verbatim>\<open>PASSIVE_LEVEL\<close>.\<close>

definition DoSuspend :: "bool \<Rightarrow> int \<Rightarrow> sus_op list list \<Rightarrow> sus_op list list \<Rightarrow> suspend \<Rightarrow> suspend res" where
  "DoSuspend mtc res pre post s =
     res_bind (InvokeSuspendHandlers PRE_SUSPEND_CB_EARLY_TYPE pre s) (\<lambda>s.
     res_bind (InvokeSuspendHandlers PRE_SUSPEND_CB_LATE_TYPE [] s) (\<lambda>s.
       if \<not> mtc \<and> res = 1 then Inr s
       else
         let s = s\<lparr>suspend_count := suspend_count s + 1\<rparr>
         in res_bind (InvokeSuspendHandlers SUSPEND_CB_EARLY_TYPE [] s) (\<lambda>s.
            InvokeSuspendHandlers SUSPEND_CB_LATE_TYPE post s)))"

text \<open>\<^verbatim>\<open>SuspendCleanup\<close> starts again from the head of the list after every handler it frees.\<close>

fun first_defunct :: "nat list \<Rightarrow> suspend \<Rightarrow> nat option res" where
  "first_defunct [] s = Inr None"
| "first_defunct (le # rest) s = with_sh s le (\<lambda>sh. if defunct sh then Inr (Some le) else first_defunct rest s)"

fun Cleanup_loop :: "nat \<Rightarrow> suspend \<Rightarrow> suspend res" where
  "Cleanup_loop n s =
     res_bind (first_defunct (SuspendHandlersList s) s) (\<lambda>r.
       case r of
         None \<Rightarrow> Inr s
       | Some le \<Rightarrow>
           with_sh s le (\<lambda>sh.
             xm_assert (\<not> pending_run sh \<and> \<not> running sh)
               (case n of
                  0 \<Rightarrow> Inl NoReturn
                | Suc k \<Rightarrow> Cleanup_loop k (s\<lparr>SuspendHandlersList := remove1 le (SuspendHandlersList s), handlers := (handlers s)(le := None)\<rparr>))))"

declare Cleanup_loop.simps [simp del]

definition SuspendCleanup :: "suspend \<Rightarrow> suspend res" where
  "SuspendCleanup s = Cleanup_loop (length (SuspendHandlersList s)) s"

section \<open>Tokens\<close>

text \<open>A token is null (austere mode), anonymous, or has an address.\<close>

datatype SUSPEND_TOKEN = NullToken | CbToken | Anonymous | Token nat

text \<open>\<open>self\<close> says that the caller is the suspend thread.\<close>

definition EvtchnAllocateSuspendToken :: "bool \<Rightarrow> bool \<Rightarrow> nat option \<Rightarrow> string \<Rightarrow> suspend \<Rightarrow> (SUSPEND_TOKEN \<times> suspend) res" where
  "EvtchnAllocateSuspendToken AustereMode self a name s =
     (if AustereMode then Inr (NullToken, s)
      else
        xm_assert (\<not> (suspend_thread s \<and> self))
          (case a of
             Some tok \<Rightarrow>
               Inr (Token tok, s\<lparr>tokens := (tokens s)(tok \<mapsto> copy_name name), suspend_token_list := suspend_token_list s @ [tok]\<rparr>)
           | None \<Rightarrow> Inr (Anonymous, s\<lparr>anonymous_token_count := anonymous_token_count s + 1\<rparr>)))"

definition EvtchnReleaseSuspendToken :: "bool \<Rightarrow> bool \<Rightarrow> SUSPEND_TOKEN \<Rightarrow> suspend \<Rightarrow> suspend res" where
  "EvtchnReleaseSuspendToken AustereMode low token s =
     (if AustereMode then Inr s
      else
        res_bind
          (case token of
             NullToken \<Rightarrow> Inl XmAssert
           | CbToken \<Rightarrow> Inl XmAssert
           | Token tok \<Rightarrow>
               if tok \<in> set (suspend_token_list s)
               then Inr (s\<lparr>suspend_token_list := remove1 tok (suspend_token_list s), tokens := (tokens s)(tok := None)\<rparr>)
               else Inl BadPointer
           | Anonymous \<Rightarrow>
               xm_assert (anonymous_token_count s \<noteq> 0) (Inr (s\<lparr>anonymous_token_count := anonymous_token_count s + 1\<rparr>))) (\<lambda>s.
        if suspend_thread s then xm_assert low (Inr (s\<lparr>thread_event := True\<rparr>)) else Inr s))"

section \<open>The suspend thread\<close>

text \<open>One turn of the loop of \<^verbatim>\<open>SuspendThread\<close> after it was woken; \<open>req\<close> is the value of \<^verbatim>\<open>control/shutdown\<close>, if it could
  be read.  The result says whether the machine was suspended.\<close>

definition SuspendThread_turn ::
  "bool \<Rightarrow> int \<Rightarrow> sus_op list list \<Rightarrow> sus_op list list \<Rightarrow> string option \<Rightarrow> suspend \<Rightarrow> (bool \<times> suspend) res" where
  "SuspendThread_turn mtc res pre post req s =
     res_bind
       (case req of
          None \<Rightarrow> Inr (False, s)
        | Some r \<Rightarrow>
            if r = ''suspend'' then
              if anonymous_token_count s = 0 \<and> suspend_token_list s = []
              then res_bind (DoSuspend mtc res pre post s) (\<lambda>s. Inr (True, s))
              else Inr (False, s)
            else if r \<in> {''bugcheck'', ''assert'', ''assert3u'', ''assert3s'', ''assert3p''} then Inl XmAssert
            else Inr (False, s)) (\<lambda>(done, s).
     res_bind (SuspendCleanup s) (\<lambda>s. Inr (done, s)))"

text \<open>\<open>ok\<close> says that the work item could be queued, that the thread could be started.\<close>

definition EvtchnLaunchSuspendThread :: "bool \<Rightarrow> suspend \<Rightarrow> suspend" where
  "EvtchnLaunchSuspendThread ok s =
     (if ok then s\<lparr>pending_suspend_thread_launches := pending_suspend_thread_launches s + 1\<rparr> else s)"

definition LaunchSuspendThread :: "bool \<Rightarrow> suspend \<Rightarrow> suspend" where
  "LaunchSuspendThread ok s =
     (let s = (if suspend_thread s then s else s\<lparr>suspend_thread := ok\<rparr>)
      in s\<lparr>pending_suspend_thread_launches := pending_suspend_thread_launches s - 1\<rparr>)"

text \<open>\<open>others k\<close> is what the rest of the system does in the \<open>k\<close>-th delay.  The wait may not end.\<close>

partial_function (option) KillSuspendThread :: "(nat \<Rightarrow> suspend \<Rightarrow> suspend) \<Rightarrow> nat \<Rightarrow> suspend \<Rightarrow> suspend option" where
  "KillSuspendThread others k s =
     (if pending_suspend_thread_launches s \<noteq> 0 then KillSuspendThread others (k + 1) (others k s)
      else Some (s\<lparr>suspend_thread := False\<rparr>))"

definition SuspendPreInit :: "suspend \<Rightarrow> suspend" where
  "SuspendPreInit s = s\<lparr>SuspendHandlersList := [], suspend_token_list := []\<rparr>"

definition SuspendGetCount :: "suspend \<Rightarrow> u32" where
  "SuspendGetCount s = suspend_count s"

section \<open>What the handlers see\<close>

definition is_due :: "int \<Rightarrow> suspend \<Rightarrow> nat \<Rightarrow> bool" where
  "is_due type s p = (case handlers s p of None \<Rightarrow> False | Some h \<Rightarrow> cb_type h = type \<and> \<not> defunct h)"

definition due :: "int \<Rightarrow> suspend \<Rightarrow> nat list" where
  "due type s = filter (is_due type s) (SuspendHandlersList s)"

definition cb_of :: "suspend \<Rightarrow> nat \<Rightarrow> nat" where
  "cb_of s p = (case handlers s p of None \<Rightarrow> 0 | Some h \<Rightarrow> cb h)"

definition passive_type :: "int \<Rightarrow> bool" where
  "passive_type type \<longleftrightarrow> type = PRE_SUSPEND_CB_EARLY_TYPE \<or> type = SUSPEND_CB_LATE_TYPE"

definition immediate_type :: "int \<Rightarrow> bool" where
  "immediate_type type \<longleftrightarrow> type = PRE_SUSPEND_CB_LATE_TYPE \<or> type = SUSPEND_CB_EARLY_TYPE"

text \<open>\<open>pend_ok type ps s\<close>: the handlers \<open>ps\<close>, in the order of the list, are pending and no other one is.\<close>

definition pend_ok :: "int \<Rightarrow> nat list \<Rightarrow> suspend \<Rightarrow> bool" where
  "pend_ok type ps s \<longleftrightarrow>
     distinct (SuspendHandlersList s) \<and> filter (\<lambda>p. p \<in> set ps) (SuspendHandlersList s) = ps \<and>
     (\<forall>p \<in> set (SuspendHandlersList s). \<exists>h. handlers s p = Some h \<and> \<not> running h \<and> (pending_run h \<longleftrightarrow> p \<in> set ps)) \<and>
     (\<forall>p \<in> set ps. is_due type s p)"

definition sus_ok :: "suspend \<Rightarrow> bool" where
  "sus_ok s \<longleftrightarrow> distinct (SuspendHandlersList s) \<and>
     (\<forall>p \<in> set (SuspendHandlersList s). \<exists>h. handlers s p = Some h \<and> \<not> running h \<and> \<not> pending_run h)"

lemma pend_ok_Nil: "pend_ok type [] s \<longleftrightarrow> sus_ok s"
  by (auto simp: pend_ok_def sus_ok_def)

lemma sus_okD: "sus_ok s \<Longrightarrow> p \<in> set (SuspendHandlersList s) \<Longrightarrow> \<exists>h. handlers s p = Some h \<and> \<not> running h \<and> \<not> pending_run h"
  by (simp add: sus_ok_def)

text \<open>What calling handlers leaves alone.\<close>

definition same_tokens :: "suspend \<Rightarrow> suspend \<Rightarrow> bool" where
  "same_tokens s s' \<longleftrightarrow> suspend_count s' = suspend_count s \<and> suspend_token_list s' = suspend_token_list s \<and> tokens s' = tokens s \<and>
     anonymous_token_count s' = anonymous_token_count s \<and> suspend_thread s' = suspend_thread s"

lemma same_tokens_trans [trans]: "same_tokens s t \<Longrightarrow> same_tokens t u \<Longrightarrow> same_tokens s u"
  by (simp add: same_tokens_def)

lemma set_sh_simps [simp]:
  "SuspendHandlersList (set_sh s p h) = SuspendHandlersList s" "called (set_sh s p h) = called s"
  "handlers (set_sh s p h) = (handlers s)(p \<mapsto> h)" "same_tokens s (set_sh s p h)"
  by (simp_all add: set_sh_def same_tokens_def)

lemma invoke_simps [simp]:
  "SuspendHandlersList (invoke s h) = SuspendHandlersList s" "handlers (invoke s h) = handlers s"
  "called (invoke s h) = called s @ [cb h]" "same_tokens s (invoke s h)"
  by (simp_all add: invoke_def same_tokens_def)

section \<open>The first loop\<close>

lemma is_due_cong: "handlers s' p = handlers s p \<Longrightarrow> is_due type s' p = is_due type s p"
  by (simp add: is_due_def)

lemma Invoke_list_now:
  assumes "immediate_type type" and "\<And>p. p \<in> set les \<Longrightarrow> handlers s p \<noteq> None"
  shows "Invoke_list type les n s = Inr (n, s\<lparr>called := called s @ map (cb_of s) (filter (is_due type s) les)\<rparr>)"
  using assms(2)
proof (induction les arbitrary: s)
  case (Cons p les)
  then obtain h where h: "handlers s p = Some h" by fastforce
  have same: "filter (is_due type (invoke s h)) les = filter (is_due type s) les" "map (cb_of (invoke s h)) = map (cb_of s)"
    by (simp_all add: is_due_def cb_of_def fun_eq_iff cong: filter_cong)
  show ?case
    using Cons.IH [of s] Cons.IH [of "invoke s h"] Cons.prems h assms(1) same
    by (auto simp: with_sh_def is_due_def cb_of_def immediate_type_def invoke_def)
qed simp

definition mark :: "nat list \<Rightarrow> suspend \<Rightarrow> suspend" where
  "mark ps s = s\<lparr>handlers := (\<lambda>p. if p \<in> set ps then map_option (\<lambda>h. h\<lparr>pending_run := True\<rparr>) (handlers s p) else handlers s p)\<rparr>"

lemma Invoke_list_mark:
  assumes "passive_type type" and "\<And>p. p \<in> set les \<Longrightarrow> handlers s p \<noteq> None" and "distinct les"
  shows "Invoke_list type les n s = Inr (n + length (filter (is_due type s) les), mark (filter (is_due type s) les) s)"
  using assms(2,3)
proof (induction les arbitrary: s n)
  case Nil
  show ?case by (simp add: mark_def)
next
  case (Cons p les)
  then obtain h where h: "handlers s p = Some h" by fastforce
  show ?case
  proof (cases "is_due type s p")
    case False
    then show ?thesis using Cons h by (auto simp: with_sh_def is_due_def)
  next
    case True
    let ?s = "set_sh s p (h\<lparr>pending_run := True\<rparr>)"
    have "is_due type ?s q = is_due type s q" if "q \<in> set les" for q
      using Cons.prems(2) that by (auto simp: is_due_def)
    then have due: "filter (is_due type ?s) les = filter (is_due type s) les" by (rule filter_cong [OF refl])
    have "mark (filter (is_due type s) les) ?s = mark (filter (is_due type s) (p # les)) s"
      using Cons.prems(2) True h by (auto simp: mark_def set_sh_def fun_eq_iff)
    moreover have "Invoke_list type les (n + 1) ?s = Inr (n + 1 + length (filter (is_due type ?s) les), mark (filter (is_due type ?s) les) ?s)"
      using Cons.prems by (intro Cons.IH) auto
    moreover have "cb_type h = type" "\<not> defunct h" using True h by (simp_all add: is_due_def)
    ultimately show ?thesis
      using True h assms(1) due by (auto simp: with_sh_def passive_type_def)
  qed
qed

lemma mark_simps [simp]:
  "SuspendHandlersList (mark ps s) = SuspendHandlersList s" "called (mark ps s) = called s" "same_tokens s (mark ps s)"
  by (simp_all add: mark_def same_tokens_def)

lemma pend_ok_mark:
  assumes "sus_ok s"
  shows "pend_ok type (due type s) (mark (due type s) s)"
proof -
  have "is_due type (mark (due type s) s) p" if "p \<in> set (due type s)" for p
    using that by (auto simp: mark_def due_def is_due_def split: option.splits)
  moreover have "filter (\<lambda>p. p \<in> set (due type s)) (SuspendHandlersList s) = due type s"
    unfolding due_def by (rule filter_cong) auto
  ultimately show ?thesis
    using assms by (fastforce simp: pend_ok_def sus_ok_def mark_def)
qed

section \<open>The second loop\<close>

lemma first_pending_spec:
  assumes "\<And>p. p \<in> set les \<Longrightarrow> \<exists>h. handlers s p = Some h \<and> (pending_run h \<longleftrightarrow> P p)"
  shows "first_pending les s = Inr (case filter P les of [] \<Rightarrow> None | p # _ \<Rightarrow> Some p)"
  using assms
proof (induction les)
  case (Cons p les)
  then show ?case by (auto simp: with_sh_def split: option.splits) fastforce+
qed simp

text \<open>Operations of other threads: a handler is registered in fresh memory with a valid type; a handler that is
  unregistered is in the list and not one that is pending.\<close>

definition op_ok :: "nat set \<Rightarrow> nat list \<Rightarrow> sus_op \<Rightarrow> bool" where
  "op_ok L ps x = (case x of Register a fn name type \<Rightarrow> IS_VALID_CB_TYPE type | Unregister p \<Rightarrow> p \<in> L \<and> p \<notin> set ps)"

definition reg_addr :: "sus_op \<Rightarrow> nat list" where
  "reg_addr x = (case x of Register (Some a) _ _ _ \<Rightarrow> [a] | _ \<Rightarrow> [])"

lemma pend_ok_subset: "pend_ok type ps s \<Longrightarrow> set ps \<subseteq> set (SuspendHandlersList s)"
  unfolding pend_ok_def by (metis filter_is_subset)

lemma sus_do_ok:
  assumes p: "pend_ok type ps s" and x: "op_ok L ps x" and L: "L \<subseteq> set (SuspendHandlersList s)"
    and fresh: "set (reg_addr x) \<inter> set (SuspendHandlersList s) = {}"
  obtains s' where "sus_do x s = Inr s'" "pend_ok type ps s'" "called s' = called s" "same_tokens s s'"
    "SuspendHandlersList s' = SuspendHandlersList s @ reg_addr x" "\<And>q. q \<in> set ps \<Longrightarrow> cb_of s' q = cb_of s q"
proof (cases x)
  case (Register a fn name ty)
  show thesis
  proof (cases a)
    case None
    then show thesis
      using that [of s] p x Register by (simp add: sus_do_def EvtchnRegisterSuspendHandler_def op_ok_def reg_addr_def same_tokens_def)
  next
    case (Some w)
    let ?s = "(set_sh s w \<lparr>sh_name = copy_name name, cb = fn, cb_type = ty, defunct = False, pending_run = False, running = False\<rparr>)
                \<lparr>SuspendHandlersList := SuspendHandlersList s @ [w]\<rparr>"
    have w: "w \<notin> set (SuspendHandlersList s)" using fresh Register Some by (simp add: reg_addr_def)
    have sub: "set ps \<subseteq> set (SuspendHandlersList s)" by (rule pend_ok_subset [OF p])
    have "pend_ok type ps ?s" using p w sub by (auto simp: pend_ok_def is_due_def)
    moreover have "sus_do x s = Inr ?s"
      using x Register Some by (simp add: sus_do_def EvtchnRegisterSuspendHandler_def op_ok_def)
    moreover have "q \<in> set ps \<Longrightarrow> cb_of ?s q = cb_of s q" for q using w sub by (auto simp: cb_of_def set_sh_def)
    ultimately show thesis
      using that [of ?s] Register Some by (simp add: reg_addr_def same_tokens_def set_sh_def)
  qed
next
  case (Unregister q)
  then have q: "q \<in> set (SuspendHandlersList s)" "q \<notin> set ps" using x L by (auto simp: op_ok_def)
  obtain h where h: "handlers s q = Some h" "\<not> running h" "\<not> pending_run h" using p q by (auto simp: pend_ok_def)
  let ?t = "set_sh s q (h\<lparr>defunct := True\<rparr>)"
  let ?s = "?t\<lparr>thread_event := (suspend_thread s \<or> thread_event s)\<rparr>"
  have "pend_ok type ps ?s" using p q h by (auto simp: pend_ok_def is_due_def)
  moreover have "sus_do x s = Inr ?s"
    using h Unregister
    by (cases "suspend_thread s") (simp_all add: sus_do_def EvtchnUnregisterSuspendHandler_def with_sh_def Let_def set_sh_def)
  moreover have "y \<in> set ps \<Longrightarrow> cb_of ?s y = cb_of s y" for y using q by (auto simp: cb_of_def)
  ultimately show thesis
    using that [of ?s] Unregister by (simp add: reg_addr_def same_tokens_def set_sh_def)
qed

lemma sus_run_ok:
  assumes "pend_ok type ps s" and "\<And>x. x \<in> set xs \<Longrightarrow> op_ok L ps x" and "L \<subseteq> set (SuspendHandlersList s)"
    and "distinct (concat (map reg_addr xs))" and "set (concat (map reg_addr xs)) \<inter> set (SuspendHandlersList s) = {}"
  shows "\<exists>s'. sus_run xs s = Inr s' \<and> pend_ok type ps s' \<and> called s' = called s \<and> same_tokens s s' \<and>
    SuspendHandlersList s' = SuspendHandlersList s @ concat (map reg_addr xs) \<and> (\<forall>q \<in> set ps. cb_of s' q = cb_of s q)"
  using assms
proof (induction xs arbitrary: s)
  case Nil
  then show ?case by (simp add: same_tokens_def)
next
  case (Cons x xs)
  have x: "op_ok L ps x" "set (reg_addr x) \<inter> set (SuspendHandlersList s) = {}" using Cons.prems by auto
  obtain t where t: "sus_do x s = Inr t" "pend_ok type ps t" "called t = called s" "same_tokens s t"
    "SuspendHandlersList t = SuspendHandlersList s @ reg_addr x" "\<And>q. q \<in> set ps \<Longrightarrow> cb_of t q = cb_of s q"
    using sus_do_ok [OF Cons.prems(1) x(1) Cons.prems(3) x(2)] by metis
  obtain u where u: "sus_run xs t = Inr u" "pend_ok type ps u" "called u = called t" "same_tokens t u"
    "SuspendHandlersList u = SuspendHandlersList t @ concat (map reg_addr xs)" "\<forall>q \<in> set ps. cb_of u q = cb_of t q"
  proof -
    have "L \<subseteq> set (SuspendHandlersList t)" "distinct (concat (map reg_addr xs))"
      "set (concat (map reg_addr xs)) \<inter> set (SuspendHandlersList t) = {}"
      using Cons.prems(3-5) t(5) by auto
    then show thesis using that Cons.IH [OF t(2)] Cons.prems(2) by auto
  qed
  then show ?case using t same_tokens_trans [OF t(4) u(4)] by auto
qed

fun env_ok :: "nat set \<Rightarrow> nat list \<Rightarrow> sus_op list list \<Rightarrow> bool" where
  "env_ok L ps [] \<longleftrightarrow> True"
| "env_ok L ps (b # bs) \<longleftrightarrow> (\<forall>x \<in> set b. op_ok L ps x) \<and> env_ok L (tl ps) bs"

definition reg_addrs :: "sus_op list list \<Rightarrow> nat list" where
  "reg_addrs others = concat (map reg_addr (concat others))"

lemma pend_ok_distinct: "pend_ok type ps s \<Longrightarrow> distinct ps"
  unfolding pend_ok_def by (metis distinct_filter)

lemma pend_ok_take:
  assumes "pend_ok type (p # ps) s" and "handlers s p = Some h"
  shows "pend_ok type ps (set_sh (invoke (set_sh s p h') h) p (h\<lparr>pending_run := False, running := False\<rparr>))"
proof -
  have "distinct (p # ps)" by (rule pend_ok_distinct [OF assms(1)])
  moreover have "filter (\<lambda>q. q \<in> set ps) (SuspendHandlersList s) = ps"
  proof -
    have "filter (\<lambda>q. q \<in> set ps) (SuspendHandlersList s) =
        filter (\<lambda>q. q \<in> set ps) (filter (\<lambda>q. q \<in> set (p # ps)) (SuspendHandlersList s))"
      by (simp add: filter_filter) (rule filter_cong; auto)
    also have "\<dots> = filter (\<lambda>q. q \<in> set ps) (p # ps)" using assms(1) by (simp add: pend_ok_def)
    also have "\<dots> = ps" using calculation \<open>distinct (p # ps)\<close> by (simp add: filter_id_conv)
    finally show ?thesis .
  qed
  ultimately show ?thesis using assms by (auto simp: pend_ok_def is_due_def)
qed
definition keeps_tail :: "suspend \<Rightarrow> suspend \<Rightarrow> bool" where
  "keeps_tail s s' \<longleftrightarrow> same_tokens s s' \<and> (\<exists>new. SuspendHandlersList s' = SuspendHandlersList s @ new)"

lemma keeps_tail_trans: "keeps_tail s t \<Longrightarrow> keeps_tail t u \<Longrightarrow> keeps_tail s u"
  unfolding keeps_tail_def using same_tokens_trans by fastforce

lemma reg_addrs_Cons [simp]: "reg_addrs [] = []" "reg_addrs (b # bs) = concat (map reg_addr b) @ reg_addrs bs"
  by (simp_all add: reg_addrs_def)

lemma env_ok_batch:
  assumes "env_ok L ps others" and "distinct (reg_addrs others)" and "set (reg_addrs others) \<inter> A = {}"
  shows "\<And>x. x \<in> set (batch others) \<Longrightarrow> op_ok L ps x" and "distinct (concat (map reg_addr (batch others)))"
    and "set (concat (map reg_addr (batch others))) \<inter> A = {}" and "env_ok L (tl ps) (tl others)" and "distinct (reg_addrs (tl others))"
    and "set (reg_addrs (tl others)) \<inter> (A \<union> set (concat (map reg_addr (batch others)))) = {}"
  using assms by (cases others; simp add: batch_def; blast)+

lemma Invoke_pending_spec:
  assumes "passive_type type" and "pend_ok type ps s" and "env_ok L ps others" and "L \<subseteq> set (SuspendHandlersList s)"
    and "distinct (reg_addrs others)" and "set (reg_addrs others) \<inter> set (SuspendHandlersList s) = {}"
  shows "\<exists>s'. Invoke_pending (length ps) others s = Inr s' \<and> sus_ok s' \<and> called s' = called s @ map (cb_of s) ps \<and> keeps_tail s s'"
  using assms(2-)
proof (induction ps arbitrary: s others)
  case Nil
  note b = env_ok_batch [OF Nil.prems(2,4,5)]
  obtain t where t: "sus_run (batch others) s = Inr t" "pend_ok type [] t" "called t = called s" "same_tokens s t"
    "SuspendHandlersList t = SuspendHandlersList s @ concat (map reg_addr (batch others))"
    using sus_run_ok [OF Nil.prems(1) b(1) Nil.prems(3) b(2,3)] by metis
  have "first_pending (SuspendHandlersList t) t = Inr None"
    using t(2) first_pending_spec [of "SuspendHandlersList t" t "\<lambda>p. False"] by (auto simp: pend_ok_def)
  then have "Invoke_pending 0 others s = Inr t"
    using t(1) by (subst Invoke_pending.simps) simp
  moreover have "sus_ok t" using t(2) by (simp add: pend_ok_Nil)
  moreover have "keeps_tail s t" using t(4,5) by (auto simp: keeps_tail_def)
  ultimately show ?case using t(3) by (simp add: keeps_tail_def)
next
  case (Cons p ps)
  note b = env_ok_batch [OF Cons.prems(2,4,5)]
  obtain t where t: "sus_run (batch others) s = Inr t" "pend_ok type (p # ps) t" "called t = called s" "same_tokens s t"
    "SuspendHandlersList t = SuspendHandlersList s @ concat (map reg_addr (batch others))" "\<forall>q \<in> set (p # ps). cb_of t q = cb_of s q"
    using sus_run_ok [OF Cons.prems(1) b(1) Cons.prems(3) b(2,3)] by metis
  have inl: "p \<in> set (SuspendHandlersList t)" using pend_ok_subset [OF t(2)] by simp
  obtain h where h: "handlers t p = Some h" "cb_type h = type" "\<not> defunct h"
    using t(2) by (auto simp: pend_ok_def is_due_def split: option.splits)
  have fp: "first_pending (SuspendHandlersList t) t = Inr (Some p)"
    using t(2) first_pending_spec [of "SuspendHandlersList t" t "\<lambda>q. q \<in> set (p # ps)"] by (fastforce simp: pend_ok_def)
  let ?u = "set_sh (invoke (set_sh t p (h\<lparr>pending_run := False, running := True\<rparr>)) h) p (h\<lparr>pending_run := False, running := False\<rparr>)"
  have u: "pend_ok type ps ?u" by (rule pend_ok_take [OF t(2) h(1)])
  have "env_ok L ps (tl others)" "L \<subseteq> set (SuspendHandlersList ?u)" "set (reg_addrs (tl others)) \<inter> set (SuspendHandlersList ?u) = {}"
    using b(4,6) t(5) Cons.prems(3) by auto
  then obtain v where v: "Invoke_pending (length ps) (tl others) ?u = Inr v" "sus_ok v"
      "called v = called ?u @ map (cb_of ?u) ps" "keeps_tail ?u v"
    using Cons.IH [OF u _ _ b(5)] by blast
  have "Invoke_pending (length (p # ps)) others s = Inr v"
    using t(1) fp h assms(1) v(1)
    by (subst Invoke_pending.simps) (auto simp: with_sh_def passive_type_def Let_def)
  moreover have "cb_of ?u q = cb_of s q" if "q \<in> set (p # ps)" for q
    using t(6) that h(1) by (auto simp: cb_of_def)
  then have "called v = called s @ map (cb_of s) (p # ps)"
    using v(3) t(3,6) h(1) by (auto simp: cb_of_def)
  moreover have "keeps_tail s ?u"
    using t(4,5) by (auto simp: keeps_tail_def same_tokens_def set_sh_def invoke_def)
  ultimately show ?case using v(2) keeps_tail_trans [OF _ v(4)] by blast
qed

section \<open>Invoking handlers\<close>

lemma handlers_in_list: "sus_ok s \<Longrightarrow> p \<in> set (SuspendHandlersList s) \<Longrightarrow> handlers s p \<noteq> None"
  by (auto dest: sus_okD)

lemma Invoke_immediate:
  assumes "sus_ok s" and "immediate_type type"
  shows "InvokeSuspendHandlers type others s = Inr (s\<lparr>called := called s @ map (cb_of s) (due type s)\<rparr>)"
  using assms Invoke_list_now [OF assms(2), of "SuspendHandlersList s" s 0] handlers_in_list [OF assms(1)]
  by (auto simp: InvokeSuspendHandlers_def IS_VALID_CB_TYPE_def immediate_type_def due_def)

lemma Invoke_passive:
  assumes "sus_ok s" and "passive_type type" and "env_ok (set (SuspendHandlersList s)) (due type s) others"
    and "distinct (reg_addrs others)" and "set (reg_addrs others) \<inter> set (SuspendHandlersList s) = {}"
  shows "\<exists>s'. InvokeSuspendHandlers type others s = Inr s' \<and> sus_ok s' \<and> called s' = called s @ map (cb_of s) (due type s) \<and> keeps_tail s s'"
proof -
  have l: "Invoke_list type (SuspendHandlersList s) 0 s = Inr (length (due type s), mark (due type s) s)"
    using Invoke_list_mark [OF assms(2), of "SuspendHandlersList s" s 0] handlers_in_list [OF assms(1)] assms(1)
    by (auto simp: due_def sus_ok_def)
  show ?thesis
  proof (cases "due type s")
    case Nil
    then have "InvokeSuspendHandlers type others s = Inr s"
      using l assms(2) by (auto simp: InvokeSuspendHandlers_def passive_type_def IS_VALID_CB_TYPE_def mark_def)
    then show ?thesis using Nil assms(1) by (auto simp: keeps_tail_def same_tokens_def)
  next
    case (Cons p ps)
    let ?t = "mark (due type s) s"
    obtain s' where s': "Invoke_pending (length (due type s)) others ?t = Inr s'" "sus_ok s'"
        "called s' = called ?t @ map (cb_of ?t) (due type s)" "keeps_tail ?t s'"
      using Invoke_pending_spec [OF assms(2) pend_ok_mark [OF assms(1)] assms(3)] assms(4,5) by auto
    have "InvokeSuspendHandlers type others s = Inr s'"
      using l s'(1) Cons assms(2) by (auto simp: InvokeSuspendHandlers_def passive_type_def IS_VALID_CB_TYPE_def)
    moreover have "cb_of ?t = cb_of s" by (auto simp: cb_of_def mark_def fun_eq_iff split: option.splits)
    moreover have "keeps_tail s s'" using s'(4) by (auto simp: keeps_tail_def same_tokens_def mark_def)
    ultimately show ?thesis using s' by auto
  qed
qed
section \<open>A whole suspend\<close>

lemma due_called: "due type (s\<lparr>called := x\<rparr>) = due type s" "cb_of (s\<lparr>called := x\<rparr>) = cb_of s" "sus_ok (s\<lparr>called := x\<rparr>) = sus_ok s"
    "due type (s\<lparr>suspend_count := n\<rparr>) = due type s" "cb_of (s\<lparr>suspend_count := n\<rparr>) = cb_of s" "sus_ok (s\<lparr>suspend_count := n\<rparr>) = sus_ok s"
  by (simp_all add: due_def cb_of_def sus_ok_def is_due_def fun_eq_iff cong: filter_cong)

definition calls_of :: "suspend \<Rightarrow> int \<Rightarrow> nat list" where
  "calls_of s type = map (cb_of s) (due type s)"

lemma env_ok_Nil [simp]: "env_ok L ps []"
  by simp

text \<open>Without interference the handlers are exactly as before.\<close>

lemma set_sh_id: "handlers s p = Some h \<Longrightarrow> set_sh s p h = s"
  by (simp add: set_sh_def fun_upd_idem)

lemma Invoke_pending_alone:
  assumes "passive_type type" and "pend_ok type ps (mark ps s)" and "sus_ok s"
  shows "Invoke_pending (length ps) [] (mark ps s) = Inr (s\<lparr>called := called s @ map (cb_of s) ps\<rparr>)"
  using assms(2,3)
proof (induction ps arbitrary: s)
  case Nil
  have "first_pending (SuspendHandlersList s) s = Inr None"
    using Nil first_pending_spec [of "SuspendHandlersList s" s "\<lambda>p. False"] by (auto simp: sus_ok_def)
  then show ?case by (subst Invoke_pending.simps) (simp add: batch_def mark_def)
next
  case (Cons p ps)
  let ?m = "mark (p # ps) s"
  have fp: "first_pending (SuspendHandlersList ?m) ?m = Inr (Some p)"
    using Cons.prems(1) first_pending_spec [of "SuspendHandlersList ?m" ?m "\<lambda>q. q \<in> set (p # ps)"] by (fastforce simp: pend_ok_def)
  have inl: "p \<in> set (SuspendHandlersList s)" using pend_ok_subset [OF Cons.prems(1)] by simp
  obtain h where h: "handlers s p = Some h" "\<not> running h" "\<not> pending_run h" using sus_okD [OF Cons.prems(2) inl] by blast
  let ?h = "h\<lparr>pending_run := True\<rparr>"
  have m: "handlers ?m p = Some ?h" using h by (simp add: mark_def)
  then have d: "cb_type h = type" "\<not> defunct h" using Cons.prems(1) by (auto simp: pend_ok_def is_due_def)
  let ?s = "s\<lparr>called := called s @ [cb h]\<rparr>"
  let ?u = "set_sh (invoke (set_sh ?m p (?h\<lparr>pending_run := False, running := True\<rparr>)) ?h) p (?h\<lparr>pending_run := False, running := False\<rparr>)"
  have pu: "pend_ok type ps ?u" by (rule pend_ok_take [OF Cons.prems(1) m])
  have "p \<notin> set ps" using pend_ok_distinct [OF Cons.prems(1)] by simp
  then have u: "?u = mark ps ?s"
    using h by (auto simp: mark_def set_sh_def invoke_def fun_eq_iff)
  have "Invoke_pending (length (p # ps)) [] ?m = Invoke_pending (length ps) [] ?u"
    using fp m d assms(1) by (subst Invoke_pending.simps) (auto simp: batch_def with_sh_def passive_type_def Let_def)
  also have "\<dots> = Inr (?s\<lparr>called := called ?s @ map (cb_of ?s) ps\<rparr>)"
    unfolding u using pu u Cons.prems(2) by (intro Cons.IH) (simp_all add: due_called)
  finally show ?case using h by (simp add: due_called cb_of_def)
qed

lemma Invoke_passive_alone:
  assumes "sus_ok s" and "passive_type type"
  shows "InvokeSuspendHandlers type [] s = Inr (s\<lparr>called := called s @ calls_of s type\<rparr>)"
proof -
  have l: "Invoke_list type (SuspendHandlersList s) 0 s = Inr (length (due type s), mark (due type s) s)"
    using Invoke_list_mark [OF assms(2), of "SuspendHandlersList s" s 0] handlers_in_list [OF assms(1)] assms(1)
    by (auto simp: due_def sus_ok_def)
  show ?thesis
    using l Invoke_pending_alone [OF assms(2) pend_ok_mark [OF assms(1)] assms(1)] assms(2)
    by (cases "due type s") (auto simp: InvokeSuspendHandlers_def passive_type_def IS_VALID_CB_TYPE_def mark_def calls_of_def)
qed

lemma Invoke_alone:
  assumes "sus_ok s" and "IS_VALID_CB_TYPE type"
  shows "InvokeSuspendHandlers type [] s = Inr (s\<lparr>called := called s @ calls_of s type\<rparr>)"
  using Invoke_passive_alone [OF assms(1)] Invoke_immediate [OF assms(1)] assms(2)
  unfolding IS_VALID_CB_TYPE_def passive_type_def immediate_type_def calls_of_def by metis

lemma calls_of_simps: "calls_of (s\<lparr>called := x\<rparr>) type = calls_of s type" "calls_of (s\<lparr>suspend_count := n\<rparr>) type = calls_of s type"
  by (simp_all add: calls_of_def due_called)

section \<open>Removing defunct handlers\<close>

definition is_defunct :: "suspend \<Rightarrow> nat \<Rightarrow> bool" where
  "is_defunct s p = (case handlers s p of None \<Rightarrow> False | Some h \<Rightarrow> defunct h)"

lemma first_defunct_spec:
  "(\<And>p. p \<in> set les \<Longrightarrow> handlers s p \<noteq> None) \<Longrightarrow>
    first_defunct les s = Inr (case filter (is_defunct s) les of [] \<Rightarrow> None | p # _ \<Rightarrow> Some p)"
proof (induction les)
  case (Cons p les)
  then obtain h where "handlers s p = Some h" by fastforce
  then show ?case using Cons by (auto simp: with_sh_def is_defunct_def)
qed simp

definition without_defunct :: "suspend \<Rightarrow> suspend" where
  "without_defunct s = s\<lparr>SuspendHandlersList := filter (\<lambda>p. \<not> is_defunct s p) (SuspendHandlersList s),
     handlers := (\<lambda>p. if p \<in> set (SuspendHandlersList s) \<and> is_defunct s p then None else handlers s p)\<rparr>"

lemma without_defunct_none:
  assumes "filter (is_defunct s) (SuspendHandlersList s) = []"
  shows "without_defunct s = s"
proof -
  have "(\<lambda>p. if p \<in> set (SuspendHandlersList s) \<and> is_defunct s p then None else handlers s p) = handlers s"
    "filter (\<lambda>p. \<not> is_defunct s p) (SuspendHandlersList s) = SuspendHandlersList s"
    using assms by (auto simp: filter_empty_conv fun_eq_iff)
  then show ?thesis by (simp add: without_defunct_def)
qed

lemma Cleanup_loop_spec:
  "sus_ok s \<Longrightarrow> length (filter (is_defunct s) (SuspendHandlersList s)) \<le> n \<Longrightarrow> Cleanup_loop n s = Inr (without_defunct s)"
proof (induction n arbitrary: s)
  case 0
  then have "filter (is_defunct s) (SuspendHandlersList s) = []" by simp
  moreover from this have "without_defunct s = s" by (rule without_defunct_none)
  ultimately show ?case
    using 0 first_defunct_spec [OF handlers_in_list [OF 0(1)]] by (subst Cleanup_loop.simps) simp
next
  case (Suc n)
  show ?case
  proof (cases "filter (is_defunct s) (SuspendHandlersList s)")
    case Nil
    moreover from this have "without_defunct s = s" by (rule without_defunct_none)
    ultimately show ?thesis
      using Suc.prems first_defunct_spec [OF handlers_in_list [OF Suc.prems(1)]] by (subst Cleanup_loop.simps) simp
  next
    case (Cons p ps)
    then have p: "p \<in> set (SuspendHandlersList s)" "is_defunct s p" by (auto simp: filter_eq_Cons_iff)
    obtain h where h: "handlers s p = Some h" "\<not> running h" "\<not> pending_run h" using sus_okD [OF Suc.prems(1) p(1)] by blast
    let ?s = "s\<lparr>SuspendHandlersList := remove1 p (SuspendHandlersList s), handlers := (handlers s)(p := None)\<rparr>"
    have dist: "distinct (SuspendHandlersList s)" using Suc.prems(1) by (simp add: sus_ok_def)
    have def: "is_defunct (s\<lparr>SuspendHandlersList := xs, handlers := (handlers s)(p := None)\<rparr>) q = is_defunct s q" if "q \<noteq> p" for q xs
      using that by (simp add: is_defunct_def)
    have "filter (is_defunct ?s) (remove1 p (SuspendHandlersList s)) = remove1 p (filter (is_defunct s) (SuspendHandlersList s))"
      using dist def by (simp add: distinct_remove1_removeAll filter_remove1 removeAll_filter_not_eq) (auto intro: filter_cong)
    then have "length (filter (is_defunct ?s) (SuspendHandlersList ?s)) \<le> n" using Suc.prems(2) Cons by simp
    moreover have "sus_ok ?s" using Suc.prems(1) dist by (auto simp: sus_ok_def dest: notin_set_remove1)
    ultimately have "Cleanup_loop n ?s = Inr (without_defunct ?s)" using Suc.IH by blast
    moreover have "without_defunct ?s = without_defunct s"
    proof -
      have "filter (\<lambda>q. \<not> is_defunct ?s q) (remove1 p (SuspendHandlersList s)) = filter (\<lambda>q. \<not> is_defunct s q) (SuspendHandlersList s)"
      proof -
        have "filter (\<lambda>q. \<not> is_defunct ?s q) (remove1 p (SuspendHandlersList s)) =
            filter (\<lambda>q. \<not> is_defunct s q) (remove1 p (SuspendHandlersList s))"
          by (rule filter_cong) (use dist def in auto)
        also have "\<dots> = remove1 p (filter (\<lambda>q. \<not> is_defunct s q) (SuspendHandlersList s))" by (simp add: filter_remove1)
        also have "\<dots> = filter (\<lambda>q. \<not> is_defunct s q) (SuspendHandlersList s)" using p by (simp add: remove1_idem)
        finally show ?thesis .
      qed
      moreover have "(\<lambda>q. if q \<in> set (remove1 p (SuspendHandlersList s)) \<and> is_defunct ?s q then None else handlers ?s q) =
          (\<lambda>q. if q \<in> set (SuspendHandlersList s) \<and> is_defunct s q then None else handlers s q)"
        by (rule ext) (use dist def p in auto)
      ultimately show ?thesis unfolding without_defunct_def by simp
    qed
    ultimately show ?thesis
      using first_defunct_spec [OF handlers_in_list [OF Suc.prems(1)]] Cons h by (subst Cleanup_loop.simps) (simp add: with_sh_def)
  qed
qed

lemma SuspendCleanup_eval: "sus_ok s \<Longrightarrow> SuspendCleanup s = Inr (without_defunct s)"
  by (simp add: SuspendCleanup_def Cleanup_loop_spec)

lemma sus_ok_without: "sus_ok s \<Longrightarrow> sus_ok (without_defunct s)"
  by (auto simp: sus_ok_def without_defunct_def)

section \<open>Starting and stopping the thread\<close>

text \<open>Stopping waits for a launch that is still queued, so that no thread is left behind.\<close>

lemma KillSuspendThread_waits:
  assumes "\<not> suspend_thread s" and "pending_suspend_thread_launches s = 0"
  shows "KillSuspendThread (\<lambda>_. LaunchSuspendThread ok) 0 (EvtchnLaunchSuspendThread True s) = Some s"
proof -
  let ?t = "LaunchSuspendThread ok (EvtchnLaunchSuspendThread True s)"
  have t: "?t = s\<lparr>suspend_thread := ok\<rparr>" using assms by (simp add: LaunchSuspendThread_def EvtchnLaunchSuspendThread_def Let_def)
  have "KillSuspendThread (\<lambda>_. LaunchSuspendThread ok) 0 (EvtchnLaunchSuspendThread True s) =
      KillSuspendThread (\<lambda>_. LaunchSuspendThread ok) 1 ?t"
    by (subst KillSuspendThread.simps) (simp add: EvtchnLaunchSuspendThread_def assms(2))
  also have "\<dots> = Some (s\<lparr>suspend_thread := False\<rparr>)"
    unfolding t by (subst KillSuspendThread.simps) (simp add: assms(2))
  also have "s\<lparr>suspend_thread := False\<rparr> = s" using assms(1) by (cases s) simp
  finally show ?thesis .
qed
section \<open>Tokens against a suspend\<close>

text \<open>Launching the suspend thread, allocating a token, releasing it and the check of the suspend thread, access by
  access, for any number of clients.

  \<^item> \<open>published\<close>: \<^verbatim>\<open>suspend_thread\<close> is set, which \<^verbatim>\<open>LaunchSuspendThread\<close> does only after the thread has been started.
    A client that finds it not set (\<open>TestNone\<close>) takes its token without waiting.
  \<^item> \<open>listed\<close>: the clients whose token is in \<^verbatim>\<open>suspend_token_list\<close> or in \<^verbatim>\<open>anonymous_token_count\<close>.  Releasing an
    anonymous token does not take it out of the count (\<open>DropAnonymous\<close>).
  \<^item> \<open>idle_event\<close>: \<^verbatim>\<open>suspend_thread_idle\<close>, which the thread clears before it looks at the tokens and sets behind
    \<^verbatim>\<open>SuspendCleanup\<close>.
  \<^item> \<open>seen_published\<close> is a ghost: whether \<^verbatim>\<open>suspend_thread\<close> was set when the thread last looked at the tokens.
  \<^item> The thread ends when it cannot start (\<open>Fail\<close>) or when \<^verbatim>\<open>KillSuspendThread\<close> asks it to (\<open>Exit\<close>); \<^verbatim>\<open>suspend_thread\<close> is
    reset once it has ended (\<open>Reap\<close>).\<close>

datatype client_pc = NoToken | Listed | Waiting | Holding

datatype thread_pc = TNone | TStart | TIdle | TWoken | TCheck | TSuspending | TCleanup | TGone

record token_race =
  client :: "nat \<Rightarrow> client_pc"
  listed :: "nat set"
  idle_event :: bool
  published :: bool
  seen_published :: bool
  thread :: thread_pc

inductive token_step :: "token_race \<Rightarrow> token_race \<Rightarrow> bool" where
  Insert: "client s c = NoToken \<Longrightarrow> token_step s (s\<lparr>client := (client s)(c := Listed), listed := insert c (listed s)\<rparr>)"
| TestThread: "client s c = Listed \<Longrightarrow> published s \<Longrightarrow> token_step s (s\<lparr>client := (client s)(c := Waiting)\<rparr>)"
| TestNone: "client s c = Listed \<Longrightarrow> \<not> published s \<Longrightarrow> token_step s (s\<lparr>client := (client s)(c := Holding)\<rparr>)"
| Granted: "client s c = Waiting \<Longrightarrow> idle_event s \<Longrightarrow> token_step s (s\<lparr>client := (client s)(c := Holding)\<rparr>)"
| Drop: "client s c = Holding \<Longrightarrow> token_step s (s\<lparr>client := (client s)(c := NoToken), listed := listed s - {c}\<rparr>)"
| DropAnonymous: "client s c = Holding \<Longrightarrow> token_step s (s\<lparr>client := (client s)(c := NoToken)\<rparr>)"
| Launch: "thread s = TNone \<Longrightarrow> token_step s (s\<lparr>thread := TStart\<rparr>)"
| Publish: "thread s \<noteq> TNone \<Longrightarrow> token_step s (s\<lparr>published := True\<rparr>)"
| Begin: "thread s = TStart \<Longrightarrow> token_step s (s\<lparr>thread := TCleanup\<rparr>)"
| Fail: "thread s = TStart \<Longrightarrow> token_step s (s\<lparr>thread := TGone\<rparr>)"
| Wake: "thread s = TIdle \<Longrightarrow> token_step s (s\<lparr>thread := TWoken\<rparr>)"
| Clear: "thread s = TWoken \<Longrightarrow> token_step s (s\<lparr>idle_event := False, thread := TCheck\<rparr>)"
| Check: "thread s = TCheck \<Longrightarrow>
    token_step s (s\<lparr>thread := (if listed s = {} then TSuspending else TCleanup), seen_published := published s\<rparr>)"
| Suspended: "thread s = TSuspending \<Longrightarrow> token_step s (s\<lparr>thread := TCleanup\<rparr>)"
| NoRequest: "thread s = TCheck \<Longrightarrow> token_step s (s\<lparr>thread := TCleanup\<rparr>)"
| Idle: "thread s = TCleanup \<Longrightarrow> token_step s (s\<lparr>idle_event := True, thread := TIdle\<rparr>)"
| Exit: "thread s = TIdle \<Longrightarrow> published s \<Longrightarrow> token_step s (s\<lparr>thread := TGone\<rparr>)"
| Reap: "thread s = TGone \<Longrightarrow> published s \<Longrightarrow> token_step s (s\<lparr>published := False, thread := TNone\<rparr>)"

definition token_start :: token_race where
  "token_start = \<lparr>client = (\<lambda>_. NoToken), listed = {}, idle_event = False, published = False, seen_published = False,
     thread = TNone\<rparr>"

inductive token_reachable :: "token_race \<Rightarrow> bool" where
  init: "token_reachable token_start"
| step: "token_reachable s \<Longrightarrow> token_step s s' \<Longrightarrow> token_reachable s'"

definition token_inv :: "token_race \<Rightarrow> bool" where
  "token_inv s \<longleftrightarrow> (\<forall>c. client s c \<noteq> NoToken \<longrightarrow> c \<in> listed s) \<and>
     (thread s = TCheck \<or> thread s = TSuspending \<longrightarrow> \<not> idle_event s) \<and>
     (thread s = TSuspending \<and> seen_published s \<longrightarrow> published s \<and> (\<forall>c. client s c \<noteq> Holding))"

lemma token_inv_step: "token_step s s' \<Longrightarrow> token_inv s \<Longrightarrow> token_inv s'"
  by (erule token_step.cases; auto simp: token_inv_def)

lemma token_reachable_inv: "token_reachable s \<Longrightarrow> token_inv s"
proof (induction rule: token_reachable.induct)
  case init
  show ?case by (simp add: token_inv_def token_start_def)
next
  case (step s s')
  then show ?case using token_inv_step by blast
qed

section \<open>Properties\<close>

text \<open>C8: \<^verbatim>\<open>InvokeSuspendHandlers\<close> calls exactly the registered, not unregistered handlers of its type, each once and in the
  order of registration.  Where it drops the lock, this holds whatever handlers other threads register meanwhile (they
  are not called) and unregister (as long as they are not waiting for their call); the loop ends and no handler stays
  pending or running.\<close>

theorem InvokeSuspendHandlers_correct:
  assumes "sus_ok s" and "IS_VALID_CB_TYPE type"
    and "passive_type type \<Longrightarrow> env_ok (set (SuspendHandlersList s)) (due type s) others"
    and "distinct (reg_addrs others)" and "set (reg_addrs others) \<inter> set (SuspendHandlersList s) = {}"
  shows "\<exists>s'. InvokeSuspendHandlers type others s = Inr s' \<and> sus_ok s' \<and> called s' = called s @ map (cb_of s) (due type s) \<and>
    (\<exists>new. SuspendHandlersList s' = SuspendHandlersList s @ new) \<and> same_tokens s s'"
proof (cases "passive_type type")
  case True
  then show ?thesis using Invoke_passive [OF assms(1) True assms(3) assms(4,5)] by (auto simp: keeps_tail_def)
next
  case False
  then have "immediate_type type" using assms(2) by (auto simp: IS_VALID_CB_TYPE_def passive_type_def immediate_type_def)
  then show ?thesis using Invoke_immediate [OF assms(1)] assms(1) by (auto simp: due_called same_tokens_def)
qed

text \<open>C32: The turn of the suspend thread on a suspend request.  Without a token outstanding the early and late
  pre-suspend handlers are called, in this order, and, unless the suspend was cancelled, the count goes up and the
  early and late resume handlers are called; with a token outstanding nothing is called and the count stays.  In both
  cases the unregistered handlers are removed and freed, and every other handler is as before.\<close>

theorem SuspendThread_turn_correct:
  assumes "sus_ok s"
  shows "SuspendThread_turn mtc res [] [] (Some ''suspend'') s =
    (if anonymous_token_count s = 0 \<and> suspend_token_list s = [] then
       (if \<not> mtc \<and> res = 1
        then Inr (True, without_defunct (s\<lparr>called := called s @ calls_of s 4 @ calls_of s 5\<rparr>))
        else Inr (True, without_defunct (s\<lparr>suspend_count := suspend_count s + 1,
                                           called := called s @ calls_of s 4 @ calls_of s 5 @ calls_of s 0 @ calls_of s 1\<rparr>)))
     else Inr (False, without_defunct s))"
  using assms
  by (simp add: SuspendThread_turn_def DoSuspend_def Invoke_alone IS_VALID_CB_TYPE_def calls_of_simps due_called SuspendCleanup_eval Let_def)

text \<open>A handler that is unregistered while it waits for its call, for instance by the callback before it, brings the
  system down: the assertion \<^verbatim>\<open>!sh->defunct\<close> fails.\<close>

theorem unregister_pending_bug_checks:
  assumes "sus_ok s" and "passive_type type" and "due type s = p # q # ps"
  shows "InvokeSuspendHandlers type [[], [Unregister q]] s = Inl XmAssert"
proof -
  let ?m = "mark (p # q # ps) s"
  have l: "Invoke_list type (SuspendHandlersList s) 0 s = Inr (length (p # q # ps), ?m)"
    using Invoke_list_mark [OF assms(2), of "SuspendHandlersList s" s 0] handlers_in_list [OF assms(1)] assms(1,3)
    by (auto simp: due_def sus_ok_def)
  have pm: "pend_ok type (p # q # ps) ?m" using pend_ok_mark [OF assms(1), of type] assms(3) by simp
  obtain h where h: "handlers ?m p = Some h" "cb_type h = type" "\<not> defunct h"
    using pm by (auto simp: pend_ok_def is_due_def split: option.splits)
  have fp: "first_pending (SuspendHandlersList ?m) ?m = Inr (Some p)"
    using pm first_pending_spec [of "SuspendHandlersList ?m" ?m "\<lambda>x. x \<in> set (p # q # ps)"] by (fastforce simp: pend_ok_def)
  let ?u = "set_sh (invoke (set_sh ?m p (h\<lparr>pending_run := False, running := True\<rparr>)) h) p (h\<lparr>pending_run := False, running := False\<rparr>)"
  have u: "pend_ok type (q # ps) ?u" by (rule pend_ok_take [OF pm h(1)])
  obtain g where g: "handlers ?u q = Some g" "cb_type g = type" "pending_run g"
  proof -
    have "q \<in> set (SuspendHandlersList ?u)" using pend_ok_subset [OF u] by simp
    then obtain g where "handlers ?u q = Some g" "pending_run g" using u unfolding pend_ok_def by fastforce
    moreover have "is_due type ?u q" using u unfolding pend_ok_def by simp
    ultimately show thesis using that by (simp add: is_due_def)
  qed
  let ?v = "set_sh ?u q (g\<lparr>defunct := True\<rparr>)"
  let ?w = "?v\<lparr>thread_event := (suspend_thread ?v \<or> thread_event ?v)\<rparr>"
  have w: "SuspendHandlersList ?w = SuspendHandlersList ?u" "handlers ?w = (handlers ?u)(q \<mapsto> g\<lparr>defunct := True\<rparr>)" by simp_all
  have fq: "first_pending (SuspendHandlersList ?w) ?w = Inr (Some q)"
  proof -
    have "\<exists>h. handlers ?w x = Some h \<and> (pending_run h \<longleftrightarrow> x \<in> set (q # ps))" if "x \<in> set (SuspendHandlersList ?u)" for x
      using u that g(3) w(2) pend_ok_distinct [OF pm] by (cases "x = q") (auto simp: pend_ok_def)
    then have "first_pending (SuspendHandlersList ?u) ?w = Inr (case filter (\<lambda>x. x \<in> set (q # ps)) (SuspendHandlersList ?u) of [] \<Rightarrow> None | p # _ \<Rightarrow> Some p)"
      by (rule first_pending_spec)
    moreover have "filter (\<lambda>x. x \<in> set (q # ps)) (SuspendHandlersList ?u) = q # ps" using u unfolding pend_ok_def by blast
    ultimately show ?thesis using w(1) by simp
  qed
  have "sus_run [Unregister q] ?u = Inr ?w"
    using g(1) by (cases "suspend_thread ?v") (simp_all add: sus_do_def EvtchnUnregisterSuspendHandler_def with_sh_def Let_def)
  then have "Invoke_pending (length (q # ps)) [[Unregister q]] ?u = Inl XmAssert"
    using fq w g(2) assms(2) by (subst Invoke_pending.simps) (auto simp: batch_def with_sh_def passive_type_def)
  then have "Invoke_pending (length (p # q # ps)) [[], [Unregister q]] ?m = Inl XmAssert"
    using fp h assms(2) by (subst Invoke_pending.simps) (auto simp: batch_def with_sh_def passive_type_def Let_def)
  then show ?thesis using l assms(2) by (auto simp: InvokeSuspendHandlers_def passive_type_def IS_VALID_CB_TYPE_def)
qed

text \<open>C33: A suspend token inhibits suspend.  In every interleaving of any number of clients with the launch, the work
  and the end of the suspend thread: while the machine is being suspended by a thread that had been published in
  \<^verbatim>\<open>suspend_thread\<close> when it looked at the tokens, no client holds a token, none is granted one by any step, and the
  idle event that clients wait for is clear.  The condition is needed: see \<open>unpublished_thread_grants_token\<close>.\<close>

theorem suspend_token_excludes:
  assumes "token_reachable s" and "thread s = TSuspending" and "seen_published s"
  shows "client s c \<noteq> Holding \<and> (token_step s s' \<longrightarrow> client s' c \<noteq> Holding) \<and> \<not> idle_event s"
proof -
  have inv: "token_inv s" by (rule token_reachable_inv [OF assms(1)])
  have "client s' c \<noteq> Holding" if "token_step s s'"
    using that inv assms(2,3) by (cases rule: token_step.cases) (auto simp: token_inv_def)
  then show ?thesis using inv assms(2,3) by (auto simp: token_inv_def)
qed

text \<open>Steps of the race as a list of states, for concrete runs.\<close>

lemma token_reachable_steps:
  "token_reachable s \<Longrightarrow> successively token_step (s # ss) \<Longrightarrow> token_reachable (last (s # ss))"
proof (induction ss arbitrary: s)
  case (Cons t ss)
  then have "token_reachable t" by (auto intro: token_reachable.step)
  then show ?case using Cons by simp
qed simp

text \<open>Between the start of the thread and the assignment to \<^verbatim>\<open>suspend_thread\<close> a client takes a token without waiting,
  while the thread, which has found no token, suspends the machine.\<close>

theorem unpublished_thread_grants_token:
  "\<exists>s. token_reachable s \<and> thread s = TSuspending \<and> client s 5 = Holding"
proof -
  let ?a = "token_start\<lparr>thread := TStart\<rparr>"
  let ?b = "?a\<lparr>thread := TCleanup\<rparr>"
  let ?c = "?b\<lparr>idle_event := True, thread := TIdle\<rparr>"
  let ?d = "?c\<lparr>thread := TWoken\<rparr>"
  let ?e = "?d\<lparr>idle_event := False, thread := TCheck\<rparr>"
  let ?f = "?e\<lparr>thread := TSuspending\<rparr>"
  let ?g = "?f\<lparr>client := (client ?f)(5 := Listed), listed := insert 5 (listed ?f)\<rparr>"
  let ?h = "?g\<lparr>client := (client ?g)(5 := Holding)\<rparr>"
  have "token_step token_start ?a" by (rule Launch) (simp add: token_start_def)
  moreover have "token_step ?a ?b" by (rule Begin) simp
  moreover have "token_step ?b ?c" by (rule Idle) simp
  moreover have "token_step ?c ?d" by (rule Wake) simp
  moreover have "token_step ?d ?e" by (rule Clear) simp
  moreover have "token_step ?e ?f" using Check [of ?e] by (simp add: token_start_def)
  moreover have "token_step ?f ?g" by (rule Insert) (simp add: token_start_def)
  moreover have "token_step ?g ?h" by (rule TestNone) (simp_all add: token_start_def)
  ultimately have "token_reachable ?h"
    using token_reachable_steps [OF token_reachable.init, of "[?a, ?b, ?c, ?d, ?e, ?f, ?g, ?h]"] by simp
  then show ?thesis by (intro exI [of _ ?h]) simp
qed

text \<open>A thread that cannot start leaves behind a \<^verbatim>\<open>suspend_thread\<close> whose idle event nobody sets: a client that asks for a
  token waits until the thread is killed.\<close>

theorem failed_thread_blocks_tokens:
  "\<exists>s. token_reachable s \<and> thread s = TGone \<and> client s 5 = Waiting \<and>
     (\<forall>s'. token_step s s' \<and> thread s' \<noteq> TNone \<longrightarrow> client s' 5 = Waiting \<and> thread s' = TGone \<and> \<not> idle_event s')"
proof -
  let ?a = "token_start\<lparr>thread := TStart\<rparr>"
  let ?b = "?a\<lparr>thread := TGone\<rparr>"
  let ?c = "?b\<lparr>published := True\<rparr>"
  let ?d = "?c\<lparr>client := (client ?c)(5 := Listed), listed := insert 5 (listed ?c)\<rparr>"
  let ?e = "?d\<lparr>client := (client ?d)(5 := Waiting)\<rparr>"
  have "token_step token_start ?a" by (rule Launch) (simp add: token_start_def)
  moreover have "token_step ?a ?b" by (rule Fail) simp
  moreover have "token_step ?b ?c" by (rule Publish) simp
  moreover have "token_step ?c ?d" by (rule Insert) (simp add: token_start_def)
  moreover have "token_step ?d ?e" by (rule TestThread) (simp_all add: token_start_def)
  ultimately have "token_reachable ?e"
    using token_reachable_steps [OF token_reachable.init, of "[?a, ?b, ?c, ?d, ?e]"] by simp
  moreover have "client s' 5 = Waiting \<and> thread s' = TGone \<and> \<not> idle_event s'" if "token_step ?e s'" "thread s' \<noteq> TNone" for s'
    using that by (cases rule: token_step.cases) (auto simp: token_start_def)
  ultimately show ?thesis by (intro exI [of _ ?e]) simp
qed

text \<open>Histories of the token functions.\<close>

datatype token_op = Allocate "nat option" | ReleaseTok SUSPEND_TOKEN

definition token_do :: "token_op \<Rightarrow> suspend \<Rightarrow> suspend res" where
  "token_do x s = (case x of
     Allocate a \<Rightarrow> res_bind (EvtchnAllocateSuspendToken False False a ''client'' s) (\<lambda>(_, s). Inr s)
   | ReleaseTok t \<Rightarrow> EvtchnReleaseSuspendToken False True t s)"

fun token_run :: "token_op list \<Rightarrow> suspend \<Rightarrow> suspend res" where
  "token_run [] s = Inr s"
| "token_run (x # xs) s = res_bind (token_do x s) (token_run xs)"

lemma token_do_count:
  assumes "token_do x s = Inr s'"
  shows "(anonymous_token_count s' = anonymous_token_count s \<or> anonymous_token_count s' = anonymous_token_count s + 1) \<and>
    called s' = called s \<and> SuspendHandlersList s' = SuspendHandlersList s \<and> handlers s' = handlers s \<and> suspend_count s' = suspend_count s"
  using assms
  by (auto simp: token_do_def EvtchnAllocateSuspendToken_def EvtchnReleaseSuspendToken_def xm_assert_def res_bind_def
      split: token_op.splits option.splits SUSPEND_TOKEN.splits if_splits sum.splits)

lemma token_run_count:
  "token_run xs s = Inr s' \<Longrightarrow> unat (anonymous_token_count s) + length xs < 2 ^ 32 \<Longrightarrow>
    unat (anonymous_token_count s) \<le> unat (anonymous_token_count s') \<and>
    called s' = called s \<and> SuspendHandlersList s' = SuspendHandlersList s \<and> handlers s' = handlers s \<and> suspend_count s' = suspend_count s"
proof (induction xs arbitrary: s)
  case (Cons x xs)
  then obtain t where t: "token_do x s = Inr t" "token_run xs t = Inr s'" by (auto simp: res_bind_Inr_iff)
  have c: "unat (anonymous_token_count t) = unat (anonymous_token_count s) \<or>
      unat (anonymous_token_count t) = unat (anonymous_token_count s) + 1"
    using token_do_count [OF t(1)] Cons.prems(2) by (auto simp: unat_succ)
  then have "unat (anonymous_token_count t) + length xs < 2 ^ 32" using Cons.prems(2) by auto
  then show ?case using Cons.IH [OF t(2)] token_do_count [OF t(1)] c by auto
qed simp

text \<open>After one allocation of a token has failed for lack of memory the machine cannot be suspended any more.  The
  release of the anonymous token counts up instead of down, and in every later history of fewer than \<open>2 ^ 32 - 2\<close> token
  operations a suspend request calls no handler and leaves the count of suspends as it was.\<close>

theorem anonymous_token_blocks_suspend:
  assumes "sus_ok s" and "anonymous_token_count s = 0" and "\<not> suspend_thread s \<or> low"
    and "EvtchnAllocateSuspendToken False self None name s = Inr (tok, s1)" and "EvtchnReleaseSuspendToken False low tok s1 = Inr s2"
    and "token_run xs s2 = Inr s3" and "length xs < 2 ^ 32 - 2"
  shows "\<exists>s'. SuspendThread_turn mtc res pre post (Some ''suspend'') s3 = Inr (False, s') \<and> called s' = called s \<and>
    suspend_count s' = suspend_count s"
proof -
  have s1: "tok = Anonymous" "s1 = s\<lparr>anonymous_token_count := 1\<rparr>"
    using assms(2,4) by (auto simp: EvtchnAllocateSuspendToken_def xm_assert_def split: if_splits)
  have s2: "anonymous_token_count s2 = 2" "called s2 = called s" "SuspendHandlersList s2 = SuspendHandlersList s" "handlers s2 = handlers s"
    "suspend_count s2 = suspend_count s"
    using assms(5) s1 by (auto simp: EvtchnReleaseSuspendToken_def xm_assert_def split: if_splits)
  have "unat (anonymous_token_count s2) = 2" using s2(1) by simp
  then have c: "2 \<le> unat (anonymous_token_count s3)" "called s3 = called s" "SuspendHandlersList s3 = SuspendHandlersList s"
      "handlers s3 = handlers s" "suspend_count s3 = suspend_count s"
    using token_run_count [OF assms(6)] assms(7) s2 by auto
  then have "anonymous_token_count s3 \<noteq> 0" by auto
  moreover have "sus_ok s3" using assms(1) c by (simp add: sus_ok_def)
  ultimately show ?thesis
    using c by (simp add: SuspendThread_turn_def SuspendCleanup_eval without_defunct_def)
qed

section \<open>Concrete instances\<close>

definition demo_handler :: "nat \<Rightarrow> int \<Rightarrow> SuspendHandler" where
  "demo_handler fn type = \<lparr>sh_name = ''demo'', cb = fn, cb_type = type, defunct = False, pending_run = False, running = False\<rparr>"

text \<open>Two late handlers at 1 and 3, an early one at 2, and one at 4 that was unregistered.\<close>

definition demo_suspend :: suspend where
  "demo_suspend = \<lparr>suspend_count = 7, SuspendHandlersList = [1, 2, 3, 4],
     handlers = [1 \<mapsto> demo_handler 10 1, 2 \<mapsto> demo_handler 20 0, 3 \<mapsto> demo_handler 30 1, 4 \<mapsto> (demo_handler 40 0)\<lparr>defunct := True\<rparr>],
     suspend_token_list = [], tokens = Map.empty, anonymous_token_count = 0, suspend_thread = True, thread_event = False,
     pending_suspend_thread_launches = 0, called = []\<rparr>"

lemma demo_ok: "sus_ok demo_suspend"
  by (simp add: sus_ok_def demo_suspend_def demo_handler_def)

lemma demo_due: "due 1 demo_suspend = [1, 3]" "due 0 demo_suspend = [2]" "due 4 demo_suspend = []" "due 5 demo_suspend = []"
  by (simp_all add: due_def is_due_def demo_suspend_def demo_handler_def)

theorem InvokeSuspendHandlers_correct_witness:
  "\<exists>s'. InvokeSuspendHandlers 1 [[Register (Some 9) 90 ''late'' 1], [Unregister 1, Unregister 2]] demo_suspend = Inr s' \<and>
     called s' = [10, 30]"
proof -
  let ?o = "[[Register (Some 9) 90 ''late'' 1], [Unregister 1, Unregister 2]]"
  have e: "env_ok (set (SuspendHandlersList demo_suspend)) (due 1 demo_suspend) ?o"
    by (simp add: demo_due op_ok_def IS_VALID_CB_TYPE_def) (simp add: demo_suspend_def)
  have r: "distinct (reg_addrs ?o)" "set (reg_addrs ?o) \<inter> set (SuspendHandlersList demo_suspend) = {}"
    by (simp_all add: reg_addr_def demo_suspend_def)
  have "map (cb_of demo_suspend) (due 1 demo_suspend) = [10, 30]" "called demo_suspend = []"
    by (simp_all add: demo_due) (simp_all add: cb_of_def demo_suspend_def demo_handler_def)
  then show ?thesis
    using InvokeSuspendHandlers_correct [OF demo_ok _ e r] by (auto simp: IS_VALID_CB_TYPE_def)
qed

theorem SuspendThread_turn_correct_witness:
  "\<exists>s'. SuspendThread_turn False 0 [] [] (Some ''suspend'') demo_suspend = Inr (True, s') \<and> called s' = [20, 10, 30] \<and>
     suspend_count s' = 8 \<and> SuspendHandlersList s' = [1, 2, 3]"
proof -
  have "calls_of demo_suspend 4 = []" "calls_of demo_suspend 5 = []" "calls_of demo_suspend 0 = [20]" "calls_of demo_suspend 1 = [10, 30]"
    by (simp_all add: calls_of_def demo_due) (simp_all add: cb_of_def demo_suspend_def demo_handler_def)
  moreover have "anonymous_token_count demo_suspend = 0 \<and> suspend_token_list demo_suspend = []" by (simp add: demo_suspend_def)
  ultimately show ?thesis
    using SuspendThread_turn_correct [OF demo_ok, of False 0]
    by (simp add: without_defunct_def is_defunct_def) (simp add: demo_suspend_def demo_handler_def)
qed

theorem unregister_pending_bug_checks_witness:
  "InvokeSuspendHandlers 1 [[], [Unregister 3]] demo_suspend = Inl XmAssert"
  using unregister_pending_bug_checks [OF demo_ok, of 1] by (simp add: passive_type_def demo_due)

theorem suspend_token_excludes_witness:
  "\<exists>s :: token_race. token_reachable s \<and> thread s = TSuspending \<and> seen_published s \<and> client s 5 = Waiting \<and>
     (\<forall>s'. token_step s s' \<longrightarrow> client s' 5 \<noteq> Holding)"
proof -
  let ?a = "token_start\<lparr>thread := TStart\<rparr>"
  let ?a' = "?a\<lparr>published := True\<rparr>"
  let ?b = "?a'\<lparr>thread := TCleanup\<rparr>"
  let ?c = "?b\<lparr>idle_event := True, thread := TIdle\<rparr>"
  let ?d = "?c\<lparr>thread := TWoken\<rparr>"
  let ?e = "?d\<lparr>idle_event := False, thread := TCheck\<rparr>"
  let ?f = "?e\<lparr>thread := TSuspending, seen_published := True\<rparr>"
  let ?g = "?f\<lparr>client := (client ?f)(5 := Listed), listed := insert 5 (listed ?f)\<rparr>"
  let ?h = "?g\<lparr>client := (client ?g)(5 := Waiting)\<rparr>"
  have "token_step token_start ?a" by (rule Launch) (simp add: token_start_def)
  moreover have "token_step ?a ?a'" by (rule Publish) simp
  moreover have "token_step ?a' ?b" by (rule Begin) simp
  moreover have "token_step ?b ?c" by (rule Idle) simp
  moreover have "token_step ?c ?d" by (rule Wake) simp
  moreover have "token_step ?d ?e" by (rule Clear) simp
  moreover have "token_step ?e ?f" using Check [of ?e] by (simp add: token_start_def)
  moreover have "token_step ?f ?g" by (rule Insert) (simp add: token_start_def)
  moreover have "token_step ?g ?h" by (rule TestThread) (simp_all add: token_start_def)
  ultimately have "token_reachable ?h"
    using token_reachable_steps [OF token_reachable.init, of "[?a, ?a', ?b, ?c, ?d, ?e, ?f, ?g, ?h]"] by simp
  then show ?thesis using suspend_token_excludes [of ?h 5] by (intro exI [of _ ?h]) simp
qed

theorem anonymous_token_blocks_suspend_witness:
  "\<exists>s1 s2 s'. EvtchnAllocateSuspendToken False False None ''gntmap'' demo_suspend = Inr (Anonymous, s1) \<and>
     EvtchnReleaseSuspendToken False True Anonymous s1 = Inr s2 \<and>
     SuspendThread_turn False 0 [] [] (Some ''suspend'') s2 = Inr (False, s') \<and> suspend_count s' = 7"
proof -
  let ?s1 = "demo_suspend\<lparr>anonymous_token_count := 1\<rparr>"
  let ?s2 = "?s1\<lparr>anonymous_token_count := 2, thread_event := True\<rparr>"
  have a: "EvtchnAllocateSuspendToken False False None ''gntmap'' demo_suspend = Inr (Anonymous, ?s1)"
    by (simp add: EvtchnAllocateSuspendToken_def demo_suspend_def)
  have r: "EvtchnReleaseSuspendToken False True Anonymous ?s1 = Inr ?s2"
    by (simp add: EvtchnReleaseSuspendToken_def demo_suspend_def)
  have "\<exists>s'. SuspendThread_turn False 0 [] [] (Some ''suspend'') ?s2 = Inr (False, s') \<and> called s' = called demo_suspend \<and>
      suspend_count s' = suspend_count demo_suspend"
    using anonymous_token_blocks_suspend [OF demo_ok _ _ a r, of "[]"] by (simp add: demo_suspend_def)
  moreover have "suspend_count demo_suspend = 7" by (simp add: demo_suspend_def)
  ultimately show ?thesis using a r by metis
qed

end
