(* ===== verification/GrantMap.thy ===== *)
theory GrantMap
  imports Suspend
begin

unbundle bit_operations_syntax

text \<open>
  Mapping grants of other domains: the I/O hole of \<^verbatim>\<open>src/xenutil/iohole.c\<close>, whose pages back the mappings, and
  \<^verbatim>\<open>src/xenutil/gntmap.c\<close>, on top of the suspend tokens of \<^verbatim>\<open>Suspend\<close>.

  \<^item> \<open>io_hole\<close> has the globals of \<^verbatim>\<open>iohole.c\<close>.  The bit map is the list of the 64 bits of its buffer;
    \<open>SizeOfBitMap\<close> is the size the bit map functions of Windows are told.  A size beyond the buffer is a
    \<open>BadPointer\<close> as soon as the map is used.
  \<^item> \<^verbatim>\<open>RtlFindClearBitsAndSet\<close> is the parameter \<open>fnd\<close>: it is given the bits and the number of clear bits it looks for and
    returns the index of such a range, if there is one.  What it promises is \<open>finds_clear\<close>; \<open>first_fit\<close> does so.
  \<^item> \<open>detail\<close> is a \<^verbatim>\<open>grant_map_detail\<close> with the arrays that follow it in memory.  \<open>unmapped\<close> records the unmap hypercalls.
\<close>

abbreviation (input) PAGE_SIZE :: nat where "PAGE_SIZE \<equiv> 4096"
abbreviation (input) IO_HOLE_MAX_PAGES :: nat where "IO_HOLE_MAX_PAGES \<equiv> 45"

section \<open>The I/O hole\<close>

record io_hole =
  io_hole_owner :: string
  io_hole_initialized :: bool
  io_hole_start :: u64
  io_hole_va_start :: u64
  io_hole_nr_pages :: nat
  io_hole_bitmap :: "bool list"
  SizeOfBitMap :: nat

definition XenevtchnShutdownIoHole :: "io_hole \<Rightarrow> io_hole" where
  "XenevtchnShutdownIoHole s =
     s\<lparr>io_hole_bitmap := replicate (length (io_hole_bitmap s)) False, io_hole_initialized := False, io_hole_owner := ''''\<rparr>"

definition XenevtchnInitIoHole :: "bool \<Rightarrow> string \<Rightarrow> u64 \<Rightarrow> u64 \<Rightarrow> u32 \<Rightarrow> io_hole \<Rightarrow> io_hole" where
  "XenevtchnInitIoHole AustereMode module base base_va nbytes s =
     (if \<not> AustereMode \<and> io_hole_initialized s then s
      else
        let n = max IO_HOLE_MAX_PAGES (unat nbytes div PAGE_SIZE)
        in s\<lparr>io_hole_start := base, io_hole_va_start := base_va, io_hole_nr_pages := n, SizeOfBitMap := n,
             io_hole_owner := take 15 module, io_hole_initialized := True\<rparr>)"

definition XenevtchnIsMyIoHole :: "string \<Rightarrow> io_hole \<Rightarrow> bool" where
  "XenevtchnIsMyIoHole module s \<longleftrightarrow> take 16 module = take 16 (io_hole_owner s)"

type_synonym bit_finder = "bool list \<Rightarrow> nat \<Rightarrow> nat option"

definition set_bits :: "nat \<Rightarrow> nat \<Rightarrow> bool \<Rightarrow> bool list \<Rightarrow> bool list" where
  "set_bits i n v bs = take i bs @ replicate n v @ drop (i + n) bs"

definition RtlFindClearBitsAndSet :: "bit_finder \<Rightarrow> nat \<Rightarrow> io_hole \<Rightarrow> (nat option \<times> io_hole) res" where
  "RtlFindClearBitsAndSet fnd n s =
     (if length (io_hole_bitmap s) < SizeOfBitMap s then Inl BadPointer
      else
        (case fnd (take (SizeOfBitMap s) (io_hole_bitmap s)) n of
           None \<Rightarrow> Inr (None, s)
         | Some i \<Rightarrow> Inr (Some i, s\<lparr>io_hole_bitmap := set_bits i n True (io_hole_bitmap s)\<rparr>)))"

definition RtlClearBits :: "nat \<Rightarrow> nat \<Rightarrow> io_hole \<Rightarrow> io_hole res" where
  "RtlClearBits i n s =
     (if length (io_hole_bitmap s) < i + n then Inl BadPointer
      else Inr (s\<lparr>io_hole_bitmap := set_bits i n False (io_hole_bitmap s)\<rparr>))"

text \<open>A page frame number, or 0.\<close>

definition XenevtchnAllocIoPFN :: "bit_finder \<Rightarrow> io_hole \<Rightarrow> (u64 \<times> io_hole) res" where
  "XenevtchnAllocIoPFN fnd s =
     res_bind (RtlFindClearBitsAndSet fnd 1 s) (\<lambda>(r, s).
       case r of None \<Rightarrow> Inr (0, s) | Some page_nr \<Rightarrow> Inr (of_nat page_nr + drop_bit 12 (io_hole_start s), s))"

definition round_pages :: "u32 \<Rightarrow> u32" where
  "round_pages nr_bytes = (nr_bytes + 4095) AND NOT 4095"

definition XenevtchnAllocIoMemory :: "bit_finder \<Rightarrow> u32 \<Rightarrow> io_hole \<Rightarrow> ((u64 \<times> u64) option \<times> io_hole) res" where
  "XenevtchnAllocIoMemory fnd nr_bytes s =
     res_bind (RtlFindClearBitsAndSet fnd (unat (round_pages nr_bytes) div PAGE_SIZE) s) (\<lambda>(r, s).
       case r of
         None \<Rightarrow> Inr (None, s)
       | Some page_nr \<Rightarrow>
           Inr (Some (io_hole_va_start s + of_nat (page_nr * PAGE_SIZE), io_hole_start s + of_nat (page_nr * PAGE_SIZE)), s))"

definition XenevtchnReleaseIoMemory :: "u64 \<Rightarrow> u32 \<Rightarrow> io_hole \<Rightarrow> io_hole res" where
  "XenevtchnReleaseIoMemory va nr_bytes s =
     xm_assert (unat va mod PAGE_SIZE = 0)
       (let n = unat (round_pages nr_bytes) div PAGE_SIZE;
            page_nr = unat (ucast ((va - io_hole_va_start s) div 4096) :: u32)
        in if length (io_hole_bitmap s) < page_nr + n then Inl BadPointer
           else xm_assert (\<forall>b \<in> set (take n (drop page_nr (io_hole_bitmap s))). b) (RtlClearBits page_nr n s))"

definition XenevtchnReleaseIoPFN :: "u64 \<Rightarrow> io_hole \<Rightarrow> io_hole res" where
  "XenevtchnReleaseIoPFN pfn s =
     RtlClearBits (unat (ucast (pfn - drop_bit 12 (io_hole_start s)) :: u32)) 1 s"

section \<open>Mapping grants\<close>

record detail =
  nr_grefs :: nat
  map_count :: u32
  MdlFlags :: u16
  pfns :: "u64 list"
  handles :: "u32 list"
  bus_addrs :: "u64 list"

abbreviation (input) MDL_PAGES_LOCKED :: u16 where "MDL_PAGES_LOCKED \<equiv> 0x0002"
abbreviation (input) MDL_IO_SPACE :: u16 where "MDL_IO_SPACE \<equiv> 0x0800"
abbreviation (input) MDL_MAPPED_TO_SYSTEM_VA :: u16 where "MDL_MAPPED_TO_SYSTEM_VA \<equiv> 0x0001"
abbreviation (input) GNTMAP_HANDLE_VALID :: u32 where "GNTMAP_HANDLE_VALID \<equiv> 0x80000000"

record unmap_op =
  host_addr :: u64
  dev_bus_addr :: u64
  uhandle :: u32

record mapping =
  hole :: io_hole
  susp :: suspend
  unmapped :: "unmap_op list"

text \<open>What Xen answers to a map hypercall: the result, and the status, handle and bus address of each entry; to an unmap
  hypercall: the result and the status.\<close>

record xen_map =
  map_rc :: int
  map_results :: "(int \<times> u32 \<times> u64) list"
  unmap_result :: "u32 \<Rightarrow> int \<times> int"

record map_gref_op =
  mhost_addr :: u64
  mflags :: u32
  mref :: u32
  mdom :: u16

text \<open>The number of grants for which the size of the memory descriptor list fits its field; \<^verbatim>\<open>sizeof(MDL)\<close> is 48.\<close>

definition MAX_MAP :: nat where "MAX_MAP = (32768 - 48) div 8"

definition with_token :: "nat option \<Rightarrow> string \<Rightarrow> (suspend \<Rightarrow> 'a res) \<Rightarrow> suspend \<Rightarrow> ('a \<times> suspend) res" where
  "with_token a name f s =
     res_bind (EvtchnAllocateSuspendToken False False a name s) (\<lambda>(token, s).
     res_bind (f s) (\<lambda>r.
     res_bind (EvtchnReleaseSuspendToken False True token s) (\<lambda>s. Inr (r, s))))"

text \<open>One turn of the loop of \<^verbatim>\<open>GntmapUnmapGrants\<close>; \<open>a\<close> is the memory for the token.\<close>

definition Unmap_one :: "xen_map \<Rightarrow> nat option \<Rightarrow> detail \<Rightarrow> nat \<Rightarrow> mapping \<Rightarrow> mapping res" where
  "Unmap_one X a d x s =
     res_bind
       (if handles d ! x AND GNTMAP_HANDLE_VALID \<noteq> 0 then
          let h = handles d ! x AND NOT GNTMAP_HANDLE_VALID;
              op = \<lparr>host_addr = push_bit 12 (pfns d ! x), dev_bus_addr = bus_addrs d ! x, uhandle = h\<rparr>
          in res_bind
               (with_token a ''gnt unmap'' (\<lambda>su.
                  if map_count d = SuspendGetCount su
                  then xm_assert (fst (unmap_result X h) = 0) (xm_assert (snd (unmap_result X h) = 0) (Inr [op]))
                  else Inr []) (susp s)) (\<lambda>(ops, su). Inr (s\<lparr>susp := su, unmapped := unmapped s @ ops\<rparr>))
        else Inr s) (\<lambda>s.
     if pfns d ! x \<noteq> 0
     then res_bind (XenevtchnReleaseIoPFN (pfns d ! x) (hole s)) (\<lambda>io. Inr (s\<lparr>hole := io\<rparr>))
     else Inr s)"

fun Unmap_loop :: "xen_map \<Rightarrow> nat option \<Rightarrow> detail \<Rightarrow> nat list \<Rightarrow> mapping \<Rightarrow> mapping res" where
  "Unmap_loop X a d [] s = Inr s"
| "Unmap_loop X a d (x # xs) s = res_bind (Unmap_one X a d x s) (Unmap_loop X a d xs)"

definition GntmapUnmapGrants :: "xen_map \<Rightarrow> nat option \<Rightarrow> detail \<Rightarrow> mapping \<Rightarrow> mapping res" where
  "GntmapUnmapGrants X a d s =
     xm_assert (MdlFlags d AND MDL_MAPPED_TO_SYSTEM_VA = 0)
     (xm_assert (MdlFlags d AND (MDL_PAGES_LOCKED OR MDL_IO_SPACE) \<noteq> 0)
       (Unmap_loop X a d [0..<nr_grefs d] s))"

text \<open>The loop that takes pages of the hole: the result has the pages taken and whether all were.\<close>

fun Map_pages :: "bit_finder \<Rightarrow> nat \<Rightarrow> io_hole \<Rightarrow> (bool \<times> u64 list \<times> io_hole) res" where
  "Map_pages fnd 0 io = Inr (True, [], io)"
| "Map_pages fnd (Suc n) io =
     res_bind (XenevtchnAllocIoPFN fnd io) (\<lambda>(pfn, io).
       if pfn = 0 then Inr (False, [], io)
       else res_bind (Map_pages fnd n io) (\<lambda>(ok, ps, io). Inr (ok, pfn # ps, io)))"

definition map_ops :: "u16 \<Rightarrow> bool \<Rightarrow> u32 list \<Rightarrow> u64 list \<Rightarrow> map_gref_op list" where
  "map_ops domid readonly grefs ps =
     map (\<lambda>(pfn, ref). \<lparr>mhost_addr = push_bit 12 pfn, mflags = (if readonly then 6 else 2), mref = ref, mdom = domid\<rparr>) (zip ps grefs)"

definition pad :: "nat \<Rightarrow> 'a::zero list \<Rightarrow> 'a list" where
  "pad n xs = xs @ replicate (n - length xs) 0"

text \<open>\<open>ops_mem\<close> and \<open>work_mem\<close> say which allocations succeed.  The result is the status and, on success, the new detail.\<close>

definition GntmapMapGrants ::
  "bit_finder \<Rightarrow> (map_gref_op list \<Rightarrow> xen_map) \<Rightarrow> bool \<Rightarrow> bool \<Rightarrow> nat option \<Rightarrow> u16 \<Rightarrow> u32 list \<Rightarrow> bool \<Rightarrow> mapping \<Rightarrow>
     (NTSTATUS \<times> detail option \<times> mapping) res" where
  "GntmapMapGrants fnd xen ops_mem work_mem a domid grefs readonly s =
     (let n = length grefs;
          work0 = \<lparr>nr_grefs = 0, map_count = 0, MdlFlags = 0, pfns = [], handles = [], bus_addrs = []\<rparr>;
          fail = (\<lambda>status X work s. res_bind (GntmapUnmapGrants X a work s) (\<lambda>s. Inr (status, None, s)))
      in if MAX_MAP < n then Inr (STATUS_INVALID_PARAMETER, None, s)
         else if \<not> work_mem then Inr (STATUS_INSUFFICIENT_RESOURCES, None, s)
         else if \<not> ops_mem then fail STATUS_INSUFFICIENT_RESOURCES (xen []) work0 s
         else
           res_bind (Map_pages fnd n (hole s)) (\<lambda>(ok, ps, io).
             let s = s\<lparr>hole := io\<rparr>;
                 work = work0\<lparr>nr_grefs := n, MdlFlags := MDL_PAGES_LOCKED OR MDL_IO_SPACE, pfns := pad n ps,
                              handles := replicate n 0, bus_addrs := replicate n 0\<rparr>
             in if \<not> ok then fail STATUS_INSUFFICIENT_RESOURCES (xen []) work s
                else
                  let X = xen (map_ops domid readonly grefs ps)
                  in res_bind (with_token a ''gntmap'' (\<lambda>su. Inr (SuspendGetCount su)) (susp s)) (\<lambda>(count, su).
                     let s = s\<lparr>susp := su\<rparr>;
                         work = work\<lparr>map_count := count\<rparr>
                     in if map_rc X < 0 then fail STATUS_UNSUCCESSFUL X work s
                        else
                          let work = work\<lparr>handles := map (\<lambda>(st, h, _). if st = 0 then h OR GNTMAP_HANDLE_VALID else 0) (map_results X),
                                          bus_addrs := map (\<lambda>(st, _, b). if st = 0 then b else 0) (map_results X)\<rparr>
                          in if \<forall>(st, _, _) \<in> set (map_results X). st = 0 then Inr (STATUS_SUCCESS, Some work, s)
                             else fail STATUS_UNSUCCESSFUL X work s)))"

text \<open>\<open>r\<close> is what \<^verbatim>\<open>xenbus_read_int\<close> returns.  The result is the status, the reference and whether the transaction is
  failed.\<close>

definition xenbus_read_grant_ref :: "NTSTATUS \<Rightarrow> u64 \<Rightarrow> NTSTATUS \<times> u32 option \<times> bool" where
  "xenbus_read_grant_ref status r =
     (if status \<noteq> STATUS_SUCCESS then (status, None, False)
      else if r \<noteq> ucast (ucast r :: u32) \<or> r = 0 then (STATUS_DATA_ERROR, None, True)
      else (STATUS_SUCCESS, Some (ucast r), False))"

section \<open>What the bit map functions promise\<close>

definition finds_clear :: "bit_finder \<Rightarrow> bool" where
  "finds_clear fnd \<longleftrightarrow>
     (\<forall>bs n i. fnd bs n = Some i \<longrightarrow> i + n \<le> length bs \<and> (\<forall>j. i \<le> j \<and> j < i + n \<longrightarrow> \<not> bs ! j)) \<and>
     (\<forall>bs n i. fnd bs n = None \<longrightarrow> i + n \<le> length bs \<longrightarrow> (\<exists>j. i \<le> j \<and> j < i + n \<and> bs ! j))"

definition first_fit :: bit_finder where
  "first_fit bs n = List.find (\<lambda>i. i + n \<le> length bs \<and> (\<forall>j \<in> set [i..<i + n]. \<not> bs ! j)) [0..<length bs + 1]"

lemma first_fit_finds: "finds_clear first_fit"
  unfolding finds_clear_def
proof (intro conjI allI impI)
  fix bs n i
  assume f: "first_fit bs n = Some i"
  show "i + n \<le> length bs" and "\<And>j. i \<le> j \<and> j < i + n \<Longrightarrow> \<not> bs ! j"
    using f by (auto simp: first_fit_def find_Some_iff)
next
  fix bs n i
  assume "first_fit bs n = None" and "i + n \<le> length bs"
  then have "\<not> (\<forall>j \<in> set [i..<i + n]. \<not> bs ! j)"
    unfolding first_fit_def find_None_iff by fastforce
  then show "\<exists>j. i \<le> j \<and> j < i + n \<and> bs ! j" by auto
qed

definition hole_ok :: "io_hole \<Rightarrow> bool" where
  "hole_ok s \<longleftrightarrow> length (io_hole_bitmap s) = 64 \<and> SizeOfBitMap s \<le> 64 \<and> 4096 \<le> unat (io_hole_start s)"

definition used :: "io_hole \<Rightarrow> nat set" where
  "used s = {i. i < 64 \<and> io_hole_bitmap s ! i}"

definition page_pfn :: "io_hole \<Rightarrow> nat \<Rightarrow> u64" where
  "page_pfn s i = of_nat i + drop_bit 12 (io_hole_start s)"

text \<open>The same hole with the pages \<open>U\<close> in use.\<close>

definition hole_with :: "io_hole \<Rightarrow> nat set \<Rightarrow> io_hole" where
  "hole_with s U = s\<lparr>io_hole_bitmap := map (\<lambda>i. i \<in> U) [0..<64]\<rparr>"

lemma hole_with_used: "length (io_hole_bitmap s) = 64 \<Longrightarrow> hole_with s (used s) = s"
proof -
  assume len: "length (io_hole_bitmap s) = 64"
  have "map (\<lambda>i. i \<in> used s) [0..<64] = io_hole_bitmap s"
    by (rule nth_equalityI) (simp_all add: len used_def)
  then show ?thesis by (simp add: hole_with_def)
qed

lemma hole_with_simps [simp]:
  "hole_ok (hole_with s U) \<longleftrightarrow> SizeOfBitMap s \<le> 64 \<and> 4096 \<le> unat (io_hole_start s)" "page_pfn (hole_with s U) = page_pfn s"
  "used (hole_with s U) = U \<inter> {..<64}" "hole_with (hole_with s U) V = hole_with s V" "SizeOfBitMap (hole_with s U) = SizeOfBitMap s"
  by (auto simp: hole_ok_def hole_with_def page_pfn_def used_def fun_eq_iff)

lemma set_bits_1: "i < length bs \<Longrightarrow> set_bits i (Suc 0) v bs = bs[i := v]"
  by (simp add: set_bits_def upd_conv_take_nth_drop)

lemma map_upd: "i < 64 \<Longrightarrow> (map (\<lambda>i. i \<in> U) [0..<64])[i := v] = map (\<lambda>j. j \<in> (if v then insert i U else U - {i})) [0..<64]"
  by (rule nth_equalityI) (auto simp: nth_list_update)

lemma drop_bit_bound: "unat (drop_bit 12 (x :: u64)) < 2 ^ 52"
  using unat_bound [of x] by (simp add: unat_drop_bit less_mult_imp_div_less)

lemma unat_page_pfn: "i < 64 \<Longrightarrow> unat (page_pfn s i) = i + unat (drop_bit 12 (io_hole_start s))"
  unfolding page_pfn_def using drop_bit_bound [of "io_hole_start s"] by (simp add: unat_word_ariths unat_of_nat)

lemma page_pfn_nonzero: "i < 64 \<Longrightarrow> hole_ok s \<Longrightarrow> page_pfn s i \<noteq> 0"
proof -
  assume "i < 64" "hole_ok s"
  then have "0 < unat (drop_bit 12 (io_hole_start s))" by (simp add: hole_ok_def unat_drop_bit div_greater_zero_iff)
  then have "unat (page_pfn s i) \<noteq> 0" using \<open>i < 64\<close> by (simp add: unat_page_pfn)
  then show ?thesis by auto
qed

lemma page_pfn_index: "i < 64 \<Longrightarrow> unat (ucast (page_pfn s i - drop_bit 12 (io_hole_start s)) :: u32) = i"
  by (simp add: page_pfn_def unat_ucast_mod unat_of_nat)

section \<open>Pages of the hole\<close>

lemma XenevtchnAllocIoPFN_spec:
  assumes "finds_clear fnd" and "hole_ok (hole_with s U)" and "U \<subseteq> {..<64}"
  shows "(\<exists>i < SizeOfBitMap s. i \<notin> U \<and> XenevtchnAllocIoPFN fnd (hole_with s U) = Inr (page_pfn s i, hole_with s (insert i U))) \<or>
    XenevtchnAllocIoPFN fnd (hole_with s U) = Inr (0, hole_with s U) \<and> {..<SizeOfBitMap s} \<subseteq> U"
proof -
  let ?bs = "map (\<lambda>i. i \<in> U) [0..<64]"
  have sz: "SizeOfBitMap s \<le> 64" using assms(2) by simp
  have bits: "\<And>j. j < SizeOfBitMap s \<Longrightarrow> take (SizeOfBitMap s) ?bs ! j = (j \<in> U)" using sz by simp
  show ?thesis
  proof (cases "fnd (take (SizeOfBitMap s) ?bs) 1")
    case None
    have "j \<in> U" if "j < SizeOfBitMap s" for j
    proof -
      have "\<exists>k. j \<le> k \<and> k < j + 1 \<and> take (SizeOfBitMap s) ?bs ! k"
        using assms(1) None that sz unfolding finds_clear_def by (metis (no_types, lifting) Suc_eq_plus1 Suc_leI length_map length_take length_upt min.absorb2 diff_zero)
      then show ?thesis using bits [OF that] by (metis Suc_eq_plus1 le_less_Suc_eq)
    qed
    then show ?thesis using None sz by (auto simp: XenevtchnAllocIoPFN_def RtlFindClearBitsAndSet_def hole_with_def)
  next
    case (Some i)
    then have "i + 1 \<le> length (take (SizeOfBitMap s) ?bs) \<and> (\<forall>j. i \<le> j \<and> j < i + 1 \<longrightarrow> \<not> take (SizeOfBitMap s) ?bs ! j)"
      using assms(1) unfolding finds_clear_def by blast
    then have i: "i + 1 \<le> length (take (SizeOfBitMap s) ?bs)" "\<not> take (SizeOfBitMap s) ?bs ! i" by (blast, metis le_refl less_add_one)
    then have "i < SizeOfBitMap s" "i \<notin> U" using sz bits [of i] by auto
    moreover have "set_bits i 1 True ?bs = map (\<lambda>j. j \<in> insert i U) [0..<64]"
      using \<open>i < SizeOfBitMap s\<close> sz map_upd [of i U True] by (simp add: set_bits_1)
    ultimately show ?thesis
      using Some sz by (auto simp: XenevtchnAllocIoPFN_def RtlFindClearBitsAndSet_def hole_with_def page_pfn_def)
  qed
qed

lemma XenevtchnReleaseIoPFN_spec:
  assumes "i < 64"
  shows "XenevtchnReleaseIoPFN (page_pfn s i) (hole_with s U) = Inr (hole_with s (U - {i}))"
proof -
  have "XenevtchnReleaseIoPFN (page_pfn s i) (hole_with s U) = RtlClearBits i 1 (hole_with s U)"
    using page_pfn_index [OF assms, of s] by (simp add: XenevtchnReleaseIoPFN_def hole_with_def)
  then show ?thesis
    using assms map_upd [OF assms, of U False] set_bits_1 [of i "map (\<lambda>i. i \<in> U) [0..<64]" False]
    by (simp add: RtlClearBits_def hole_with_def)
qed

lemma Map_pages_spec:
  assumes "finds_clear fnd" and "hole_ok s"
  shows "U \<subseteq> {..<64} \<Longrightarrow> \<exists>pg. Map_pages fnd n (hole_with s U) = Inr (length pg = n, map (page_pfn s) pg, hole_with s (U \<union> set pg)) \<and>
    distinct pg \<and> set pg \<inter> U = {} \<and> set pg \<subseteq> {..<64} \<and> length pg \<le> n \<and>
    (length pg < n \<longrightarrow> {..<SizeOfBitMap s} \<subseteq> U \<union> set pg)"
proof (induction n arbitrary: U)
  case (Suc n)
  have sz: "SizeOfBitMap s \<le> 64" and ok: "hole_ok (hole_with s U)" using assms(2) by (simp_all add: hole_ok_def [of s])
  consider i where "i < SizeOfBitMap s" "i \<notin> U" "XenevtchnAllocIoPFN fnd (hole_with s U) = Inr (page_pfn s i, hole_with s (insert i U))"
    | "XenevtchnAllocIoPFN fnd (hole_with s U) = Inr (0, hole_with s U)" "{..<SizeOfBitMap s} \<subseteq> U"
    using XenevtchnAllocIoPFN_spec [OF assms(1) ok Suc.prems] by blast
  then show ?case
  proof cases
    case (1 i)
    then obtain js where js: "Map_pages fnd n (hole_with s (insert i U)) = Inr (length js = n, map (page_pfn s) js, hole_with s (insert i U \<union> set js))"
        "distinct js" "set js \<inter> insert i U = {}" "set js \<subseteq> {..<64}" "length js \<le> n"
        "length js < n \<longrightarrow> {..<SizeOfBitMap s} \<subseteq> insert i U \<union> set js"
      using Suc.IH [of "insert i U"] Suc.prems sz by auto
    have "page_pfn s i \<noteq> 0" using page_pfn_nonzero [OF _ assms(2)] 1(1) sz by simp
    then have "Map_pages fnd (Suc n) (hole_with s U) =
        Inr (length (i # js) = Suc n, map (page_pfn s) (i # js), hole_with s (U \<union> set (i # js)))"
      using 1(3) js(1) by simp
    then show ?thesis using js 1 sz by (intro exI [of _ "i # js"]) auto
  next
    case 2
    then show ?thesis by (intro exI [of _ "[]"]) simp
  qed
qed simp

section \<open>Tokens\<close>

definition touched :: "suspend \<Rightarrow> suspend" where
  "touched s = s\<lparr>thread_event := (suspend_thread s \<or> thread_event s)\<rparr>"

definition fresh_token :: "nat \<Rightarrow> suspend \<Rightarrow> bool" where
  "fresh_token t s \<longleftrightarrow> t \<notin> set (suspend_token_list s) \<and> tokens s t = None"

lemma touched_simps [simp]: "suspend_count (touched s) = suspend_count s" "fresh_token t (touched s) = fresh_token t s" "touched (touched s) = touched s"
  by (auto simp: touched_def fresh_token_def)

lemma with_token_eval:
  assumes "fresh_token t s"
  shows "with_token (Some t) name f s =
    res_bind (f (s\<lparr>tokens := (tokens s)(t \<mapsto> copy_name name), suspend_token_list := suspend_token_list s @ [t]\<rparr>)) (\<lambda>r. Inr (r, touched s))"
proof -
  have r: "remove1 t (suspend_token_list s @ [t]) = suspend_token_list s" "(tokens s)(t := None) = tokens s"
    using assms by (auto simp: fresh_token_def remove1_append)
  let ?s = "s\<lparr>tokens := (tokens s)(t \<mapsto> copy_name name), suspend_token_list := suspend_token_list s @ [t]\<rparr>"
  have "EvtchnReleaseSuspendToken False True (Token t) ?s = Inr (touched s)"
    using r by (cases "suspend_thread s") (auto simp: EvtchnReleaseSuspendToken_def touched_def)
  then show ?thesis by (simp add: with_token_def EvtchnAllocateSuspendToken_def)
qed

section \<open>Unmapping\<close>

text \<open>The unmap hypercalls for the entries \<open>xs\<close> of a detail.\<close>

definition unmaps :: "detail \<Rightarrow> nat list \<Rightarrow> unmap_op list" where
  "unmaps d xs = map (\<lambda>x. \<lparr>host_addr = push_bit 12 (pfns d ! x), dev_bus_addr = bus_addrs d ! x, uhandle = handles d ! x AND NOT GNTMAP_HANDLE_VALID\<rparr>)
     (filter (\<lambda>x. handles d ! x AND GNTMAP_HANDLE_VALID \<noteq> 0) xs)"

definition xen_unmaps :: "xen_map \<Rightarrow> bool" where
  "xen_unmaps X \<longleftrightarrow> (\<forall>h. unmap_result X h = (0, 0))"

lemma Unmap_one_eval:
  assumes "xen_unmaps X" and "fresh_token t (susp s)" and "pfns d ! x = (if x < length pg then page_pfn io (pg ! x) else 0)"
    and "x < length pg \<Longrightarrow> pg ! x < 64 \<and> page_pfn io (pg ! x) \<noteq> 0" and "hole s = hole_with io U"
  shows "Unmap_one X (Some t) d x s = Inr (s\<lparr>hole := hole_with io (if x < length pg then U - {pg ! x} else U),
    susp := (if handles d ! x AND GNTMAP_HANDLE_VALID \<noteq> 0 then touched (susp s) else susp s),
    unmapped := unmapped s @ (if map_count d = suspend_count (susp s) then unmaps d [x] else [])\<rparr>)"
proof -
  define v where "v \<longleftrightarrow> handles d ! x AND GNTMAP_HANDLE_VALID \<noteq> 0"
  define t' where "t' = s\<lparr>susp := (if v then touched (susp s) else susp s),
    unmapped := unmapped s @ (if map_count d = suspend_count (susp s) then unmaps d [x] else [])\<rparr>"
  have u: "unmaps d [x] = (if v then [\<lparr>host_addr = push_bit 12 (pfns d ! x), dev_bus_addr = bus_addrs d ! x,
      uhandle = handles d ! x AND NOT GNTMAP_HANDLE_VALID\<rparr>] else [])"
    by (simp add: unmaps_def v_def)
  have "Unmap_one X (Some t) d x s =
      (if pfns d ! x \<noteq> 0 then res_bind (XenevtchnReleaseIoPFN (pfns d ! x) (hole t')) (\<lambda>io. Inr (t'\<lparr>hole := io\<rparr>)) else Inr t')"
    using assms(1,2) u
    by (cases v) (simp_all add: Unmap_one_def v_def [symmetric] t'_def with_token_eval xen_unmaps_def SuspendGetCount_def Let_def)
  moreover have "hole t' = hole_with io U" using assms(5) by (simp add: t'_def)
  ultimately show ?thesis
    using assms(3,4,5) XenevtchnReleaseIoPFN_spec [of "pg ! x" io U] unfolding v_def [symmetric]
    by (cases "x < length pg") (auto simp: t'_def)
qed

lemma Unmap_loop_spec:
  assumes "xen_unmaps X" and "\<And>i. i \<in> set pg \<Longrightarrow> i < 64 \<and> page_pfn io i \<noteq> 0"
    and "\<And>x. x \<in> set xs \<Longrightarrow> pfns d ! x = (if x < length pg then page_pfn io (pg ! x) else 0)"
  shows "fresh_token t (susp s) \<Longrightarrow> hole s = hole_with io U \<Longrightarrow>
    \<exists>su. Unmap_loop X (Some t) d xs s = Inr (s\<lparr>hole := hole_with io (U - {pg ! x | x. x \<in> set xs \<and> x < length pg}), susp := su,
      unmapped := unmapped s @ (if map_count d = suspend_count (susp s) then unmaps d xs else [])\<rparr>) \<and>
      (su = susp s \<or> su = touched (susp s))"
  using assms(3)
proof (induction xs arbitrary: s U)
  case Nil
  then show ?case by (intro exI [of _ "susp s"]) (simp add: unmaps_def)
next
  case (Cons x xs)
  let ?V = "if x < length pg then U - {pg ! x} else U"
  let ?s = "s\<lparr>hole := hole_with io ?V, susp := (if handles d ! x AND GNTMAP_HANDLE_VALID \<noteq> 0 then touched (susp s) else susp s),
    unmapped := unmapped s @ (if map_count d = suspend_count (susp s) then unmaps d [x] else [])\<rparr>"
  have one: "Unmap_one X (Some t) d x s = Inr ?s"
    using Cons.prems assms(1,2) by (intro Unmap_one_eval) auto
  have su: "fresh_token t (susp ?s)" "suspend_count (susp ?s) = suspend_count (susp s)" using Cons.prems(1) by simp_all
  obtain su where "Unmap_loop X (Some t) d xs ?s = Inr (?s\<lparr>hole := hole_with io (?V - {pg ! x | x. x \<in> set xs \<and> x < length pg}), susp := su,
      unmapped := unmapped ?s @ (if map_count d = suspend_count (susp ?s) then unmaps d xs else [])\<rparr>)"
      and "su = susp ?s \<or> su = touched (susp ?s)"
    using Cons.IH [OF su(1), of ?V] Cons.prems(3) by auto
  moreover have "?V - {pg ! x | x. x \<in> set xs \<and> x < length pg} = U - {pg ! y | y. y \<in> set (x # xs) \<and> y < length pg}"
    by auto
  moreover have "unmaps d (x # xs) = unmaps d [x] @ unmaps d xs" by (simp add: unmaps_def)
  moreover have "su = susp s \<or> su = touched (susp s)" using calculation(2) by (auto split: if_splits)
  ultimately show ?case using one su(2) by (intro exI [of _ su]) auto
qed

text \<open>A detail that holds the pages \<open>pg\<close> of the hole \<open>io\<close>.\<close>

definition holds_pages :: "io_hole \<Rightarrow> nat list \<Rightarrow> detail \<Rightarrow> bool" where
  "holds_pages io pg d \<longleftrightarrow> length pg \<le> nr_grefs d \<and> pfns d = pad (nr_grefs d) (map (page_pfn io) pg) \<and>
     MdlFlags d = MDL_PAGES_LOCKED OR MDL_IO_SPACE"

lemma GntmapUnmapGrants_spec:
  assumes "xen_unmaps X" and "hole_ok io" and "set pg \<subseteq> {..<64}" and "holds_pages io pg d" and "fresh_token t (susp s)" and "hole s = hole_with io U"
  shows "\<exists>su. GntmapUnmapGrants X (Some t) d s = Inr (s\<lparr>hole := hole_with io (U - set pg), susp := su,
      unmapped := unmapped s @ (if map_count d = suspend_count (susp s) then unmaps d [0..<nr_grefs d] else [])\<rparr>) \<and>
      (su = susp s \<or> su = touched (susp s))"
proof -
  have i: "i < 64 \<and> page_pfn io i \<noteq> 0" if "i \<in> set pg" for i using that assms(2,3) page_pfn_nonzero by auto
  have p: "pfns d ! x = (if x < length pg then page_pfn io (pg ! x) else 0)" if "x \<in> set [0..<nr_grefs d]" for x
    using that assms(4) by (auto simp: holds_pages_def pad_def nth_append)
  have "{pg ! x | x. x \<in> set [0..<nr_grefs d] \<and> x < length pg} = set pg"
    using assms(4) by (fastforce simp: holds_pages_def in_set_conv_nth [of _ pg])
  then show ?thesis
    using Unmap_loop_spec [of X pg io "[0..<nr_grefs d]" d t s U, OF assms(1) i p assms(5,6)] assms(4)
    by (simp add: GntmapUnmapGrants_def holds_pages_def)
qed

section \<open>Properties\<close>

text \<open>Xen answers for every entry and its unmap operations succeed.\<close>

definition xen_answers :: "(map_gref_op list \<Rightarrow> xen_map) \<Rightarrow> bool" where
  "xen_answers xen \<longleftrightarrow> (\<forall>ops. xen_unmaps (xen ops) \<and> length (map_results (xen ops)) = length ops)"

definition mapped_entries :: "(int \<times> u32 \<times> u64) list \<Rightarrow> u64 list \<Rightarrow> unmap_op list" where
  "mapped_entries rs ps = map (\<lambda>(p, st, h, b). \<lparr>host_addr = push_bit 12 p, dev_bus_addr = b, uhandle = (h OR GNTMAP_HANDLE_VALID) AND NOT GNTMAP_HANDLE_VALID\<rparr>)
     (filter (\<lambda>(p, st, h, b). st = 0) (zip ps rs))"

lemma valid_handle: "(h OR GNTMAP_HANDLE_VALID :: u32) AND GNTMAP_HANDLE_VALID \<noteq> 0"
proof -
  have "bit ((h OR GNTMAP_HANDLE_VALID) AND GNTMAP_HANDLE_VALID) 31" by (simp add: bit_and_iff bit_or_iff bit_numeral_iff bit_word_iff_drop_bit_and)
  then show ?thesis by (metis bit_0_eq bot_apply bot_bool_def)
qed

lemma unmaps_mapped:
  assumes "length rs = n" and "length ps = n" and "pfns d = ps"
    and "handles d = map (\<lambda>(st, h, _). if st = 0 then h OR GNTMAP_HANDLE_VALID else 0) rs"
    and "bus_addrs d = map (\<lambda>(st, _, b). if st = 0 then b else 0) rs"
  shows "unmaps d [0..<n] = mapped_entries rs ps"
proof -
  have z: "zip ps rs = map (\<lambda>x. (ps ! x, rs ! x)) [0..<n]" using assms(1,2) by (intro nth_equalityI) auto
  have v: "(handles d ! x AND GNTMAP_HANDLE_VALID \<noteq> 0) = (fst (rs ! x) = 0)" if "x < n" for x
    using that assms(1,4) valid_handle by (auto simp: split_beta)
  have "unmaps d [0..<n] = map (\<lambda>x. \<lparr>host_addr = push_bit 12 (pfns d ! x), dev_bus_addr = bus_addrs d ! x,
      uhandle = handles d ! x AND NOT GNTMAP_HANDLE_VALID\<rparr>) (filter (\<lambda>x. fst (rs ! x) = 0) [0..<n])"
    unfolding unmaps_def by (rule arg_cong [where f = "map _"], rule filter_cong) (use v in auto)
  also have "\<dots> = mapped_entries rs ps"
    unfolding mapped_entries_def z using assms by (auto simp: filter_map comp_def split_beta)
  finally show ?thesis .
qed

definition map_outcome :: "(map_gref_op list \<Rightarrow> xen_map) \<Rightarrow> u16 \<Rightarrow> u32 list \<Rightarrow> bool \<Rightarrow> mapping \<Rightarrow> nat list \<Rightarrow> unmap_op list" where
  "map_outcome xen domid grefs readonly s pg =
     (let ps = map (page_pfn (hole s)) pg; X = xen (map_ops domid readonly grefs ps)
      in if length pg = length grefs \<and> 0 \<le> map_rc X then mapped_entries (map_results X) ps else [])"

lemma mapping_id: "hole s = h \<Longrightarrow> s\<lparr>hole := h\<rparr> = s"
  by (cases s) simp

lemma if_falseI: "\<not> b \<Longrightarrow> P \<Longrightarrow> if b then Q else P"
  by simp

text \<open>Releasing a detail gives its pages back.\<close>

lemma release_restores:
  assumes "hole_ok (hole s)" and "set pg \<inter> used (hole s) = {}" and "set pg \<subseteq> {..<64}"
    and "holds_pages (hole s) pg d" and "nr_grefs d = n" and "map_count d = suspend_count (susp s)"
    and "unmaps d [0..<n] = es" and "xen_unmaps X" and "fresh_token t su"
  shows "\<exists>s''. GntmapUnmapGrants X (Some t) d (s\<lparr>hole := hole_with (hole s) (used (hole s) \<union> set pg), susp := su\<rparr>) = Inr s'' \<and>
    hole s'' = hole s \<and> unmapped s'' = unmapped s @ (if suspend_count su = suspend_count (susp s) then es else [])"
proof -
  have "hole_with (hole s) (used (hole s) \<union> set pg - set pg) = hole s"
    using assms(1,2) hole_with_used [of "hole s"] by (simp add: Un_Diff Diff_triv Int_commute hole_ok_def)
  then show ?thesis
    using GntmapUnmapGrants_spec [OF assms(8,1,3,4), of t "s\<lparr>hole := hole_with (hole s) (used (hole s) \<union> set pg), susp := su\<rparr>"
        "used (hole s) \<union> set pg"] assms(5-7,9) by auto
qed

lemma GntmapMapGrants_cases:
  assumes f: "finds_clear fnd" and xa: "xen_answers xen" and ok: "hole_ok (hole s)" and t: "fresh_token t (susp s)"
    and len: "length grefs \<le> MAX_MAP"
  obtains pg where "distinct pg" "set pg \<inter> used (hole s) = {}" "set pg \<subseteq> {..<64}" "length pg \<le> length grefs"
    "length pg < length grefs \<longrightarrow> {..<SizeOfBitMap (hole s)} \<subseteq> used (hole s) \<union> set pg"
    "\<And>X. X = xen (map_ops domid readonly grefs (map (page_pfn (hole s)) pg)) \<Longrightarrow> length pg = length grefs \<Longrightarrow> 0 \<le> map_rc X \<Longrightarrow>
      \<forall>(st, _, _) \<in> set (map_results X). st = 0 \<Longrightarrow>
      \<exists>d. GntmapMapGrants fnd xen True True (Some t) domid grefs readonly s =
        Inr (STATUS_SUCCESS, Some d, s\<lparr>hole := hole_with (hole s) (used (hole s) \<union> set pg), susp := touched (susp s)\<rparr>) \<and>
        holds_pages (hole s) pg d \<and> nr_grefs d = length grefs \<and> map_count d = suspend_count (susp s) \<and>
        unmaps d [0..<length grefs] = mapped_entries (map_results X) (map (page_pfn (hole s)) pg)"
    "\<And>X. X = xen (map_ops domid readonly grefs (map (page_pfn (hole s)) pg)) \<Longrightarrow>
      \<not> (length pg = length grefs \<and> 0 \<le> map_rc X \<and> (\<forall>(st, _, _) \<in> set (map_results X). st = 0)) \<Longrightarrow>
      \<exists>su. GntmapMapGrants fnd xen True True (Some t) domid grefs readonly s =
        Inr (if length pg < length grefs then STATUS_INSUFFICIENT_RESOURCES else STATUS_UNSUCCESSFUL, None,
          s\<lparr>susp := su, unmapped := unmapped s @ map_outcome xen domid grefs readonly s pg\<rparr>)"
proof -
  let ?io = "hole s" and ?U = "used (hole s)" and ?n = "length grefs"
  have h: "hole_with ?io ?U = ?io" using ok by (simp add: hole_ok_def hole_with_used)
  obtain pg where pg: "Map_pages fnd ?n ?io = Inr (length pg = ?n, map (page_pfn ?io) pg, hole_with ?io (?U \<union> set pg))"
      "distinct pg" "set pg \<inter> ?U = {}" "set pg \<subseteq> {..<64}" "length pg \<le> ?n"
      "length pg < ?n \<longrightarrow> {..<SizeOfBitMap ?io} \<subseteq> ?U \<union> set pg"
    using Map_pages_spec [OF f ok, of ?U ?n] h by (auto simp: used_def)
  let ?ps = "map (page_pfn ?io) pg"
  let ?X = "xen (map_ops domid readonly grefs ?ps)"
  let ?w0 = "\<lparr>nr_grefs = ?n, map_count = 0, MdlFlags = MDL_PAGES_LOCKED OR MDL_IO_SPACE, pfns = pad ?n ?ps, handles = replicate ?n 0, bus_addrs = replicate ?n 0\<rparr>"
  let ?w1 = "?w0\<lparr>map_count := suspend_count (susp s)\<rparr>"
  let ?w2 = "?w1\<lparr>handles := map (\<lambda>(st, h, _). if st = 0 then h OR GNTMAP_HANDLE_VALID else 0) (map_results ?X),
                 bus_addrs := map (\<lambda>(st, _, b). if st = 0 then b else 0) (map_results ?X)\<rparr>"
  let ?s = "s\<lparr>hole := hole_with ?io (?U \<union> set pg)\<rparr>"
  let ?t = "?s\<lparr>susp := touched (susp s)\<rparr>"
  have un: "xen_unmaps (xen ops)" for ops using xa by (simp add: xen_answers_def)
  have restored: "hole_with ?io (?U \<union> set pg - set pg) = ?io" using pg(3) h by (simp add: Un_Diff Diff_triv Int_commute)
  have none: "unmaps d [0..<?n] = []" if "handles d = replicate ?n 0" for d using that by (auto simp: unmaps_def filter_empty_conv)
  have lr: "length (map_results ?X) = ?n" if "length pg = ?n" using xa that by (simp add: xen_answers_def map_ops_def)
  have hp: "holds_pages ?io pg ?w0" "holds_pages ?io pg ?w1" "holds_pages ?io pg ?w2" using pg(5) by (simp_all add: holds_pages_def)
  have um: "unmaps ?w2 [0..<?n] = mapped_entries (map_results ?X) ?ps" if "length pg = ?n"
    using that lr by (intro unmaps_mapped) (simp_all add: pad_def)
  have free: "\<exists>su. GntmapUnmapGrants X (Some t) d q = Inr (s\<lparr>susp := su, unmapped := unmapped s @ unmaps d [0..<?n]\<rparr>)"
    if as: "xen_unmaps X" "holds_pages ?io pg d" "nr_grefs d = ?n" "q = ?s \<or> q = ?t" "map_count d = suspend_count (susp s) \<or> unmaps d [0..<?n] = []" for X d q
  proof -
    have q: "fresh_token t (susp q)" "hole q = hole_with ?io (?U \<union> set pg)" "unmapped q = unmapped s" "suspend_count (susp q) = suspend_count (susp s)"
      using as(4) t by auto
    obtain su where "GntmapUnmapGrants X (Some t) d q = Inr (q\<lparr>hole := hole_with ?io (?U \<union> set pg - set pg), susp := su,
        unmapped := unmapped q @ (if map_count d = suspend_count (susp q) then unmaps d [0..<nr_grefs d] else [])\<rparr>)"
      using GntmapUnmapGrants_spec [OF as(1) ok pg(4) as(2) q(1,2)] by blast
    moreover have "q\<lparr>hole := ?io, susp := su, unmapped := v\<rparr> = s\<lparr>susp := su, unmapped := v\<rparr>" for v
      using as(4) by (cases s) auto
    moreover have "(if map_count d = suspend_count (susp q) then unmaps d [0..<nr_grefs d] else []) = unmaps d [0..<?n]"
      using as(3,5) q(4) by auto
    ultimately show ?thesis using restored q(3) by auto
  qed
  have w: "with_token (Some t) ''gntmap'' (\<lambda>su. Inr (SuspendGetCount su)) (susp s) = Inr (suspend_count (susp s), touched (susp s))"
    using t by (simp add: with_token_eval SuspendGetCount_def)
  show thesis
  proof (rule that [OF pg(2,3,4,5,6)])
    fix X
    assume X: "X = ?X" and c: "length pg = ?n" "0 \<le> map_rc X" "\<forall>(st, _, _) \<in> set (map_results X). st = 0"
    have "GntmapMapGrants fnd xen True True (Some t) domid grefs readonly s = Inr (STATUS_SUCCESS, Some ?w2, ?t)"
      using pg(1) w X c len by (simp add: GntmapMapGrants_def Let_def not_less)
    then show "\<exists>d. GntmapMapGrants fnd xen True True (Some t) domid grefs readonly s =
        Inr (STATUS_SUCCESS, Some d, s\<lparr>hole := hole_with (hole s) (used (hole s) \<union> set pg), susp := touched (susp s)\<rparr>) \<and>
        holds_pages (hole s) pg d \<and> nr_grefs d = length grefs \<and> map_count d = suspend_count (susp s) \<and>
        unmaps d [0..<length grefs] = mapped_entries (map_results X) (map (page_pfn (hole s)) pg)"
      using hp(3) um [OF c(1)] X by (intro exI [of _ ?w2]) simp
  next
    fix X
    assume X: "X = ?X" and c: "\<not> (length pg = ?n \<and> 0 \<le> map_rc X \<and> (\<forall>(st, _, _) \<in> set (map_results X). st = 0))"
    consider "length pg < ?n" | "length pg = ?n" "map_rc ?X < 0" | "length pg = ?n" "0 \<le> map_rc ?X" "\<not> (\<forall>(st, _, _) \<in> set (map_results ?X). st = 0)"
      using c X pg(5) by (cases "length pg < ?n"; cases "map_rc ?X < 0") auto
    then show "\<exists>su. GntmapMapGrants fnd xen True True (Some t) domid grefs readonly s =
        Inr (if length pg < length grefs then STATUS_INSUFFICIENT_RESOURCES else STATUS_UNSUCCESSFUL, None,
          s\<lparr>susp := su, unmapped := unmapped s @ map_outcome xen domid grefs readonly s pg\<rparr>)"
    proof cases
      case 1
      obtain su where "GntmapUnmapGrants (xen []) (Some t) ?w0 ?s = Inr (s\<lparr>susp := su, unmapped := unmapped s\<rparr>)"
        using free [OF un hp(1), of ?s "[]"] none [of ?w0] by auto
      then show ?thesis using pg(1) 1 len by (auto simp: GntmapMapGrants_def Let_def not_less map_outcome_def)
    next
      case 2
      obtain su where "GntmapUnmapGrants ?X (Some t) ?w1 ?t = Inr (s\<lparr>susp := su, unmapped := unmapped s\<rparr>)"
        using free [OF un hp(2), of ?t] none [of ?w1] by auto
      then show ?thesis using pg(1) 2 w len by (auto simp: GntmapMapGrants_def Let_def not_less map_outcome_def)
    next
      case 3
      obtain su where "GntmapUnmapGrants ?X (Some t) ?w2 ?t = Inr (s\<lparr>susp := su, unmapped := unmapped s @ mapped_entries (map_results ?X) ?ps\<rparr>)"
        using free [OF un hp(3), of ?t] um [OF 3(1)] by auto
      then show ?thesis using pg(1) 3 w len by (auto simp: GntmapMapGrants_def Let_def not_less map_outcome_def)
    qed
  qed
qed


text \<open>The size of the hole is the greater of 45 pages and what the PCI device has.  A device with more than 64 pages
  makes the bit map larger than its buffer, and the first allocation runs out of it; of a device with fewer than 45
  pages, pages behind its end are handed out once its own are used up.\<close>

theorem io_hole_size_wrong:
  assumes "finds_clear fnd" and "length (io_hole_bitmap s) = 64" and "4096 \<le> unat base"
    and "s' = XenevtchnInitIoHole True module base va nbytes s"
  shows "(64 * 4096 < unat nbytes - 4095 \<longrightarrow> XenevtchnAllocIoPFN fnd s' = Inl BadPointer) \<and>
    (unat nbytes div 4096 < 45 \<longrightarrow>
       (\<exists>i s''. XenevtchnAllocIoPFN fnd (hole_with s' {..<unat nbytes div 4096}) = Inr (page_pfn s' i, s'') \<and> unat nbytes div 4096 \<le> i))"
proof (intro conjI impI)
  assume "64 * 4096 < unat nbytes - 4095"
  then have "64 < unat nbytes div 4096" by linarith
  then show "XenevtchnAllocIoPFN fnd s' = Inl BadPointer"
    using assms(2,4) by (simp add: XenevtchnAllocIoPFN_def RtlFindClearBitsAndSet_def XenevtchnInitIoHole_def Let_def)
next
  let ?k = "unat nbytes div 4096"
  assume k: "?k < 45"
  then have sz: "SizeOfBitMap s' = 45" "hole_ok (hole_with s' {..<?k})"
    using assms(3,4) by (simp_all add: XenevtchnInitIoHole_def Let_def max_def)
  have "\<not> {..<45} \<subseteq> {..<?k}" using k by auto
  then obtain i where "i < 45" "i \<notin> {..<?k}" "XenevtchnAllocIoPFN fnd (hole_with s' {..<?k}) = Inr (page_pfn s' i, hole_with s' (insert i {..<?k}))"
    using XenevtchnAllocIoPFN_spec [OF assms(1) sz(2)] k sz(1) by auto
  then show "\<exists>i s''. XenevtchnAllocIoPFN fnd (hole_with s' {..<?k}) = Inr (page_pfn s' i, s'') \<and> ?k \<le> i"
    by (intro exI conjI) auto
qed

section \<open>Concrete instances\<close>

definition demo_hole :: io_hole where
  "demo_hole = \<lparr>io_hole_owner = ''xenvbd'', io_hole_initialized = True, io_hole_start = 0xf2000000, io_hole_va_start = 0x8000000,
     io_hole_nr_pages = 45, io_hole_bitmap = True # replicate 63 False, SizeOfBitMap = 45\<rparr>"

definition demo_mapping :: mapping where
  "demo_mapping = \<lparr>hole = demo_hole, susp = demo_suspend, unmapped = []\<rparr>"

text \<open>A Xen that maps every grant.\<close>

definition demo_xen :: "map_gref_op list \<Rightarrow> xen_map" where
  "demo_xen ops = \<lparr>map_rc = 0, map_results = map (\<lambda>op. (0, mref op + 100, mhost_addr op)) ops, unmap_result = (\<lambda>_. (0, 0))\<rparr>"

lemma demo_facts: "xen_answers demo_xen" "hole_ok (hole demo_mapping)" "fresh_token 3 (susp demo_mapping)"
  by (simp_all add: xen_answers_def xen_unmaps_def demo_xen_def hole_ok_def demo_mapping_def demo_hole_def fresh_token_def demo_suspend_def)


theorem io_hole_size_wrong_witness:
  "XenevtchnAllocIoPFN first_fit (XenevtchnInitIoHole True ''xenvbd'' 0xf2000000 0 0x100000 demo_hole) = Inl BadPointer"
  using io_hole_size_wrong [OF first_fit_finds, of demo_hole "0xf2000000" _ "''xenvbd''" 0 "0x100000"] by (simp add: demo_hole_def)

end
