(* ===== verification/WorkQueue.thy ===== *)
theory WorkQueue
  imports Prelude
begin

text \<open>
  The work queue of \<^verbatim>\<open>src/xenutil/work.c\<close> and the threads of \<^verbatim>\<open>src/xenutil/thread.c\<close> it runs on.

  \<^item> \<open>XenQueueWork\<close> is the function as one step.  Its two effects, the insertion under the lock and the event behind it,
    are separate steps of \<open>work_step\<close>, in which any number of callers, the thread of \<^verbatim>\<open>XenWorkItemDispatch\<close> and a caller of
    \<^verbatim>\<open>XmKillThread\<close> interleave.
  \<^item> \<open>inserted\<close> and \<open>finished\<close> record the items in the order in which they were queued and run.
  \<^item> The event is a notification event: waiting does not reset it, \<^verbatim>\<open>XmThreadWait\<close> does so afterwards.
\<close>

record work_item =
  wi_name :: string
  Work :: nat
  Context :: nat

record work_queue =
  PendingWorkItems :: "work_item list"
  CurrentItem :: "work_item option"
  thread_event :: bool

definition XenQueueWork :: "bool \<Rightarrow> string \<Rightarrow> nat \<Rightarrow> nat \<Rightarrow> work_queue \<Rightarrow> NTSTATUS \<times> work_queue" where
  "XenQueueWork mem name fn ctx s =
     (if \<not> mem then (STATUS_NO_MEMORY, s)
      else (STATUS_SUCCESS, s\<lparr>PendingWorkItems := PendingWorkItems s @ [\<lparr>wi_name = name, Work = fn, Context = ctx\<rparr>], thread_event := True\<rparr>))"

definition XenWorkItemInit :: "bool \<Rightarrow> work_queue \<Rightarrow> NTSTATUS \<times> work_queue" where
  "XenWorkItemInit spawned s =
     (if spawned then STATUS_SUCCESS else STATUS_UNSUCCESSFUL, s\<lparr>PendingWorkItems := []\<rparr>)"

text \<open>The result of \<^verbatim>\<open>XmThreadWait\<close> when the thread finds \<open>exit\<close> set before and after it waits.\<close>

definition XmThreadWait :: "bool \<Rightarrow> bool \<Rightarrow> work_queue \<Rightarrow> int \<times> work_queue" where
  "XmThreadWait exit_before exit_after s =
     (if exit_before then (- 1, s)
      else (if exit_after then - 1 else 0, s\<lparr>thread_event := False\<rparr>))"

text \<open>One pass of the inner loop of \<^verbatim>\<open>XenWorkItemDispatch\<close>: \<open>new\<close> are the items that are queued while each callback
  runs, the first list during the first callback; \<open>n\<close> bounds the callbacks.\<close>

fun Dispatch_loop :: "nat \<Rightarrow> work_item list list \<Rightarrow> work_queue \<Rightarrow> (work_item list \<times> work_queue) res" where
  "Dispatch_loop n new s =
     (case PendingWorkItems s of
        [] \<Rightarrow> Inr ([], s)
      | Item # rest \<Rightarrow>
          (case n of
             0 \<Rightarrow> Inl NoReturn
           | Suc k \<Rightarrow>
               let s = s\<lparr>PendingWorkItems := rest, CurrentItem := Some Item\<rparr>;
                   s = s\<lparr>PendingWorkItems := PendingWorkItems s @ (case new of [] \<Rightarrow> [] | x # _ \<Rightarrow> x),
                         thread_event := (thread_event s \<or> (case new of [] \<Rightarrow> False | x # _ \<Rightarrow> x \<noteq> [])), CurrentItem := None\<rparr>
               in res_bind (Dispatch_loop k (tl new) s) (\<lambda>(run, s). Inr (Item # run, s))))"

declare Dispatch_loop.simps [simp del]

text \<open>Every item is run, in the order of the queue, those queued meanwhile behind the others.\<close>

lemma Dispatch_loop_runs:
  assumes "length (PendingWorkItems s) + length (concat new) \<le> n"
  shows "\<exists>s' ran. Dispatch_loop n new s = Inr (ran, s') \<and> PendingWorkItems s' = [] \<and>
    (\<exists>k. ran = PendingWorkItems s @ concat (take k new))"
  using assms
proof (induction n arbitrary: new s)
  case 0
  then show ?case by (subst Dispatch_loop.simps) (auto intro: exI [of _ 0])
next
  case (Suc n)
  show ?case
  proof (cases "PendingWorkItems s")
    case Nil
    then show ?thesis by (subst Dispatch_loop.simps) (auto intro: exI [of _ 0])
  next
    case (Cons x xs)
    let ?b = "case new of [] \<Rightarrow> [] | x # _ \<Rightarrow> x"
    let ?s = "s\<lparr>PendingWorkItems := xs @ ?b,
                thread_event := (thread_event s \<or> (case new of [] \<Rightarrow> False | x # _ \<Rightarrow> x \<noteq> [])), CurrentItem := None\<rparr>"
    have "length (PendingWorkItems ?s) + length (concat (tl new)) \<le> n" using Suc.prems Cons by (cases new) auto
    then obtain s' ran k where r: "Dispatch_loop n (tl new) ?s = Inr (ran, s')" "PendingWorkItems s' = []"
        "ran = PendingWorkItems ?s @ concat (take k (tl new))"
      using Suc.IH by blast
    have "ran = xs @ concat (take (Suc k) new)" using r(3) by (cases new) auto
    then show ?thesis using r(1,2) Cons
      by (subst Dispatch_loop.simps) (auto simp: Let_def intro!: exI [of _ "Suc k"])
  qed
qed

section \<open>Interleavings\<close>

datatype worker_pc =
    WTest1    \<comment> \<open>before \<open>exit\<close> is tested\<close>
  | WWait     \<comment> \<open>waiting for the event\<close>
  | WClear    \<comment> \<open>before the event is cleared\<close>
  | WTest2    \<comment> \<open>before \<open>exit\<close> is tested again\<close>
  | WDrain    \<comment> \<open>before the head of the list is taken\<close>
  | WRun      \<comment> \<open>in the callback\<close>
  | WDead

datatype killer_pc = KIdle | KEvent | KJoin | KDone

record work_race =
  pending :: "nat list"
  current :: "nat option"
  event :: bool
  exiting :: bool
  signalling :: nat
  worker :: worker_pc
  killer :: killer_pc
  inserted :: "nat list"
  finished :: "nat list"

definition work_start :: work_race where
  "work_start = \<lparr>pending = [], current = None, event = False, exiting = False, signalling = 0, worker = WTest1, killer = KIdle,
     inserted = [], finished = []\<rparr>"

inductive work_step :: "work_race \<Rightarrow> work_race \<Rightarrow> bool" where
  Insert: "work_step s (s\<lparr>pending := pending s @ [x], signalling := signalling s + 1, inserted := inserted s @ [x]\<rparr>)"
| Signal: "signalling s = Suc k \<Longrightarrow> work_step s (s\<lparr>signalling := k, event := True\<rparr>)"
| Test1: "worker s = WTest1 \<Longrightarrow> work_step s (s\<lparr>worker := (if exiting s then WDead else WWait)\<rparr>)"
| Wait: "worker s = WWait \<Longrightarrow> event s \<Longrightarrow> work_step s (s\<lparr>worker := WClear\<rparr>)"
| Clear: "worker s = WClear \<Longrightarrow> work_step s (s\<lparr>event := False, worker := WTest2\<rparr>)"
| Test2: "worker s = WTest2 \<Longrightarrow> work_step s (s\<lparr>worker := (if exiting s then WDead else WDrain)\<rparr>)"
| Take: "worker s = WDrain \<Longrightarrow> pending s = x # xs \<Longrightarrow> work_step s (s\<lparr>pending := xs, current := Some x, worker := WRun\<rparr>)"
| Finish: "worker s = WRun \<Longrightarrow> current s = Some x \<Longrightarrow>
    work_step s (s\<lparr>current := None, finished := finished s @ [x], worker := WDrain\<rparr>)"
| Drained: "worker s = WDrain \<Longrightarrow> pending s = [] \<Longrightarrow> work_step s (s\<lparr>worker := WTest1\<rparr>)"
| KillFlag: "killer s = KIdle \<Longrightarrow> work_step s (s\<lparr>exiting := True, killer := KEvent\<rparr>)"
| KillEvent: "killer s = KEvent \<Longrightarrow> work_step s (s\<lparr>event := True, killer := KJoin\<rparr>)"
| Joined: "killer s = KJoin \<Longrightarrow> worker s = WDead \<Longrightarrow> work_step s (s\<lparr>killer := KDone\<rparr>)"

inductive work_reachable :: "work_race \<Rightarrow> bool" where
  init: "work_reachable work_start"
| step: "work_reachable s \<Longrightarrow> work_step s s' \<Longrightarrow> work_reachable s'"

definition work_inv :: "work_race \<Rightarrow> bool" where
  "work_inv s \<longleftrightarrow>
     inserted s = finished s @ (case current s of None \<Rightarrow> [] | Some x \<Rightarrow> [x]) @ pending s \<and>
     (current s \<noteq> None \<longleftrightarrow> worker s = WRun) \<and>
     (pending s \<noteq> [] \<and> worker s \<in> {WTest1, WWait} \<longrightarrow> event s \<or> 0 < signalling s) \<and>
     (exiting s \<longleftrightarrow> killer s \<noteq> KIdle) \<and> (worker s = WDead \<longrightarrow> exiting s) \<and>
     (killer s = KJoin \<and> worker s = WWait \<longrightarrow> event s) \<and> (killer s = KDone \<longrightarrow> worker s = WDead)"

lemma work_inv_step: "work_step s s' \<Longrightarrow> work_inv s \<Longrightarrow> work_inv s'"
  by (erule work_step.cases; simp add: work_inv_def split: option.splits if_splits; blast?)

lemma work_reachable_inv: "work_reachable s \<Longrightarrow> work_inv s"
proof (induction rule: work_reachable.induct)
  case init
  show ?case by (simp add: work_inv_def work_start_def)
next
  case (step s s')
  then show ?case using work_inv_step by blast
qed

section \<open>Properties\<close>

text \<open>C34: In every interleaving of callers, worker and killer the items run in the order in which they were queued, each
  once.  When the worker sleeps with no event set and no caller is about to set it, every item has been run.  Killing
  the thread is not lost: while the caller waits for the thread to end, a sleeping worker has its event set, and when
  the caller returns the thread is dead.\<close>

theorem work_items_fifo:
  assumes "work_reachable s"
  shows "inserted s = finished s @ (case current s of None \<Rightarrow> [] | Some x \<Rightarrow> [x]) @ pending s \<and>
    (worker s = WWait \<and> \<not> event s \<and> signalling s = 0 \<longrightarrow> finished s = inserted s) \<and>
    (killer s = KJoin \<and> worker s = WWait \<longrightarrow> event s) \<and> (killer s = KDone \<longrightarrow> worker s = WDead)"
  using work_reachable_inv [OF assms] by (auto simp: work_inv_def split: option.splits)

theorem work_items_fifo_witness:
  "\<exists>s :: work_race. worker s = WWait \<and> \<not> event s \<and> inserted s = [7] \<and> finished s = [7]"
proof -
  let ?a = "work_start\<lparr>worker := WWait\<rparr>"
  let ?b = "?a\<lparr>pending := [7], signalling := 1, inserted := [7]\<rparr>"
  let ?c = "?b\<lparr>signalling := 0, event := True\<rparr>"
  let ?d = "?c\<lparr>event := False, worker := WDrain\<rparr>"
  let ?e = "?d\<lparr>pending := [], worker := WWait, finished := [7]\<rparr>"
  have 1: "work_reachable ?a" using work_reachable.step [OF work_reachable.init work_step.Test1] by (simp add: work_start_def)
  have 2: "work_reachable ?b" using work_reachable.step [OF 1 work_step.Insert [of _ 7]] by (simp add: work_start_def)
  have 3: "work_reachable ?c" using work_reachable.step [OF 2 work_step.Signal [of _ 0]] by (simp add: work_start_def)
  have "work_reachable (?c\<lparr>worker := WClear\<rparr>)" by (rule work_reachable.step [OF 3 work_step.Wait]) (simp_all add: work_start_def)
  then have "work_reachable (?c\<lparr>event := False, worker := WTest2\<rparr>)" using work_reachable.step [OF _ work_step.Clear] by fastforce
  then have "work_reachable ?d" using work_reachable.step [OF _ work_step.Test2] by (fastforce simp: work_start_def)
  then have "work_reachable (?d\<lparr>pending := [], current := Some 7, worker := WRun\<rparr>)"
    by (rule work_reachable.step [OF _ work_step.Take]) (simp_all add: work_start_def)
  then have "work_reachable (?d\<lparr>pending := [], current := Some 7, worker := WRun\<rparr>\<lparr>current := None, finished := [] @ [7], worker := WDrain\<rparr>)"
    using work_reachable.step [OF _ work_step.Finish [of _ 7]] by (fastforce simp: work_start_def)
  then have "work_reachable (?d\<lparr>pending := [], current := None, finished := [7], worker := WTest1\<rparr>)"
    using work_reachable.step [OF _ work_step.Drained] by (fastforce simp: work_start_def)
  then have e: "work_reachable ?e" using work_reachable.step [OF _ work_step.Test1] by (fastforce simp: work_start_def)
  have "finished ?e = inserted ?e" using work_items_fifo [OF e] by (simp add: work_start_def)
  moreover have "worker ?e = WWait" "\<not> event ?e" "inserted ?e = [7]" by (simp_all add: work_start_def)
  ultimately show ?thesis by metis
qed

end
