(* ===== verification/XenbusWatch.thy ===== *)
theory XenbusWatch
  imports Bytes
begin

text \<open>
  The watches of the xenstore client, \<^verbatim>\<open>src/xenutil/xenbus.c\<close>: handlers, their reference counts, the list of handlers
  that have fired, the thread that calls them, and registering them again after a suspend.

  \<^item> \<open>watches\<close> has the globals: the handlers in memory (\<open>wh\<close>, by address), the list of registered handlers
    (\<open>head_watch_handler\<close>), the list of fired handlers, the watch thread, and the requests sent to xenstored (whether
    xenstored accepts a watch is an argument; a suspend loses them all).  An access to a handler that has been
    freed is a \<open>BadPointer\<close>.  A path or token is a string without its final nul.
  \<^item> The sections of code that hold the watch lock are the atomic operations; \<open>wstep\<close> interleaves those of the watch
    thread, of the thread that registers watches again, of the DPC that fires watches and of any number of clients that
    create and remove them.
\<close>

section \<open>State\<close>

record xenbus_watch_handler =
  path :: "u8 list"
  token :: "u8 list"
  faulty :: bool
  needs_s3_recover :: bool
  currently_registered :: bool
  refcount :: int
  safe_to_release :: bool
  is_event_handler :: bool
  event_set :: bool
  queued :: bool

datatype xs_watch_req = XsWatch "u8 list" "u8 list" bool | XsUnwatch "u8 list" "u8 list" | XsLost

record watches =
  wh :: "u64 \<Rightarrow> xenbus_watch_handler option"
  head_watch_handler :: "u64 list"
  pending_watches_list :: "u64 list"
  watch_thread :: bool
  watch_thread_event :: bool
  xs_log :: "xs_watch_req list"

definition deref_wh :: "watches \<Rightarrow> u64 \<Rightarrow> xenbus_watch_handler res" where
  "deref_wh ws a = (case wh ws a of None \<Rightarrow> Inl BadPointer | Some h \<Rightarrow> Inr h)"

definition set_wh :: "watches \<Rightarrow> u64 \<Rightarrow> xenbus_watch_handler \<Rightarrow> watches" where
  "set_wh ws a h = ws\<lparr>wh := (wh ws)(a \<mapsto> h)\<rparr>"

section \<open>References\<close>

definition put_watch_handler :: "watches \<Rightarrow> u64 \<Rightarrow> watches res" where
  "put_watch_handler ws a =
     res_bind (deref_wh ws a) (\<lambda>h.
       let r = refcount h - 1
       in Inr (set_wh ws a (h\<lparr>refcount := r, safe_to_release := r = 0 \<or> safe_to_release h\<rparr>)))"

definition get_watch_handler :: "watches \<Rightarrow> u64 \<Rightarrow> watches res" where
  "get_watch_handler ws a =
     res_bind (deref_wh ws a) (\<lambda>h.
       let r = refcount h + 1
       in Inr (set_wh ws a (h\<lparr>refcount := r, safe_to_release := r \<noteq> 1 \<and> safe_to_release h\<rparr>)))"

section \<open>Firing\<close>

definition trigger_watch :: "watches \<Rightarrow> u64 \<Rightarrow> watches res" where
  "trigger_watch ws a =
     res_bind (deref_wh ws a) (\<lambda>h.
       if queued h then Inr ws
       else if is_event_handler h then Inr (set_wh ws a (h\<lparr>event_set := True\<rparr>))
       else res_bind (get_watch_handler (set_wh ws a (h\<lparr>queued := True\<rparr>)) a) (\<lambda>ws.
         Inr (ws\<lparr>pending_watches_list := pending_watches_list ws @ [a],
                 watch_thread_event := watch_thread ws \<or> watch_thread_event ws\<rparr>)))"

fun find_watch_loop :: "watches \<Rightarrow> u8 list \<Rightarrow> u64 list \<Rightarrow> u64 option res" where
  "find_watch_loop ws ident [] = Inr None"
| "find_watch_loop ws ident (a # as) =
     res_bind (deref_wh ws a) (\<lambda>h. if token h = ident then Inr (Some a) else find_watch_loop ws ident as)"

definition find_watch_by_ident :: "watches \<Rightarrow> u8 list \<Rightarrow> u64 option res" where
  "find_watch_by_ident ws ident = find_watch_loop ws ident (head_watch_handler ws)"

definition fire_watch_by_ident :: "bool \<Rightarrow> watches \<Rightarrow> u8 list \<Rightarrow> watches res" where
  "fire_watch_by_ident AustereMode ws ident =
     xm_assert (\<not> AustereMode) (res_bind (find_watch_by_ident ws ident) (\<lambda>f.
       case f of Some a \<Rightarrow> trigger_watch ws a | None \<Rightarrow> Inr ws))"

section \<open>Creating and removing handlers\<close>

text \<open>The token is the address of the handler in hexadecimal, at most 16 digits.\<close>

definition hex_digit :: "nat \<Rightarrow> u8" where
  "hex_digit d = of_nat (if d < 10 then 48 + d else 87 + d)"

fun hex_digits :: "nat \<Rightarrow> u8 list" where
  "hex_digits n = (if n < 16 then [hex_digit n] else hex_digits (n div 16) @ [hex_digit (n mod 16)])"

declare hex_digits.simps [simp del]

definition token_of :: "u64 \<Rightarrow> u8 list" where
  "token_of a = take 16 (hex_digits (unat a))"

text \<open>\<open>new_watch\<close> is the part of \<^verbatim>\<open>__xenbus_watch_path\<close> before the request to xenstored: the new handler at the
  address \<open>a\<close> is in front of the list.\<close>

definition new_watch :: "watches \<Rightarrow> u64 \<Rightarrow> u8 list \<Rightarrow> bool \<Rightarrow> watches" where
  "new_watch ws a p ev =
     (set_wh ws a \<lparr>path = p, token = token_of a, faulty = False, needs_s3_recover = False, currently_registered = True,
        refcount = 0, safe_to_release = False, is_event_handler = ev, event_set = False, queued = False\<rparr>)
     \<lparr>head_watch_handler := a # head_watch_handler ws\<rparr>"

text \<open>\<open>unhook_watch\<close> is the locked part of \<^verbatim>\<open>xenbus_unregister_watch\<close>, \<open>free_watch\<close> its end.\<close>

definition unhook_watch :: "watches \<Rightarrow> u64 \<Rightarrow> watches res" where
  "unhook_watch ws a =
     res_bind (deref_wh ws a) (\<lambda>h.
       let ws = ws\<lparr>head_watch_handler := remove1 a (head_watch_handler ws)\<rparr>
       in if queued h
          then put_watch_handler (ws\<lparr>pending_watches_list := remove1 a (pending_watches_list ws)\<rparr>) a
          else Inr ws)"

text \<open>The requests to xenstored.\<close>

definition register_watch_handler :: "watches \<Rightarrow> u64 \<Rightarrow> bool \<Rightarrow> watches res" where
  "register_watch_handler ws a ok =
     res_bind (deref_wh ws a) (\<lambda>h. Inr (ws\<lparr>xs_log := xs_log ws @ [XsWatch (path h) (token h) ok]\<rparr>))"

definition unregister_watch_with_xenstored :: "watches \<Rightarrow> u64 \<Rightarrow> watches res" where
  "unregister_watch_with_xenstored ws a =
     res_bind (deref_wh ws a) (\<lambda>h.
       Inr (if currently_registered h then ws\<lparr>xs_log := xs_log ws @ [XsUnwatch (path h) (token h)]\<rparr> else ws))"

definition free_watch :: "watches \<Rightarrow> u64 \<Rightarrow> watches res" where
  "free_watch ws a = res_bind (deref_wh ws a) (\<lambda>h. Inr (ws\<lparr>wh := (wh ws)(a := None)\<rparr>))"

section \<open>The watch thread\<close>

definition take_watch :: "watches \<Rightarrow> (u64 \<times> watches) option res" where
  "take_watch ws =
     (case pending_watches_list ws of
        [] \<Rightarrow> Inr None
      | a # as \<Rightarrow>
          res_bind (deref_wh ws a) (\<lambda>h.
            xm_assert (queued h)
              (Inr (Some (a, (set_wh ws a (h\<lparr>queued := False\<rparr>))\<lparr>pending_watches_list := as\<rparr>)))))"

section \<open>Registering again\<close>

definition reset_watches :: "watches \<Rightarrow> watches" where
  "reset_watches ws =
     ws\<lparr>wh := (\<lambda>a. if a \<in> set (head_watch_handler ws) then map_option (\<lambda>h. h\<lparr>currently_registered := False\<rparr>) (wh ws a)
                   else wh ws a),
         xs_log := xs_log ws @ [XsLost]\<rparr>"

text \<open>The scan of the list for a handler to register; a reference to it is taken.\<close>

fun scan_watches :: "(xenbus_watch_handler \<Rightarrow> bool) \<Rightarrow> watches \<Rightarrow> u64 list \<Rightarrow> u64 option res" where
  "scan_watches P ws [] = Inr None"
| "scan_watches P ws (a # as) =
     res_bind (deref_wh ws a) (\<lambda>h. if P h then Inr (Some a) else scan_watches P ws as)"

definition to_register :: "xenbus_watch_handler \<Rightarrow> bool" where
  "to_register h \<longleftrightarrow> \<not> (currently_registered h \<or> faulty h)"

definition reregister_get :: "watches \<Rightarrow> (u64 \<times> watches) option res" where
  "reregister_get ws =
     res_bind (scan_watches to_register ws (head_watch_handler ws)) (\<lambda>f.
       case f of
         None \<Rightarrow> Inr None
       | Some a \<Rightarrow> res_bind (get_watch_handler ws a) (\<lambda>ws. Inr (Some (a, ws))))"

definition set_registered :: "watches \<Rightarrow> u64 \<Rightarrow> bool \<Rightarrow> watches res" where
  "set_registered ws a ok =
     res_bind (deref_wh ws a) (\<lambda>h.
       Inr (set_wh ws a (if ok then h\<lparr>currently_registered := True\<rparr> else h\<lparr>faulty := True\<rparr>)))"

text \<open>The loop without interference: \<open>answer n p\<close> tells whether xenstored accepts the watch on \<open>p\<close> in turn \<open>n\<close>.\<close>

fun reregister_all_watches :: "nat \<Rightarrow> (nat \<Rightarrow> u8 list \<Rightarrow> bool) \<Rightarrow> watches \<Rightarrow> watches res" where
  "reregister_all_watches 0 answer ws = Inl NoReturn"
| "reregister_all_watches (Suc fuel) answer ws =
     res_bind (reregister_get ws) (\<lambda>f.
       case f of
         None \<Rightarrow> Inr ws
       | Some (a, ws) \<Rightarrow>
           res_bind (deref_wh ws a) (\<lambda>h.
             res_bind (register_watch_handler ws a (answer fuel (path h))) (\<lambda>ws.
             res_bind
               (if answer fuel (path h) then set_registered ws a True
                else res_bind (set_registered ws a False) (\<lambda>ws. trigger_watch ws a))
               (\<lambda>ws. res_bind (put_watch_handler ws a) (\<lambda>ws. reregister_all_watches fuel answer ws)))))"

section \<open>The client's operations\<close>

text \<open>\<open>xenbus_unregister_watch\<close> without interference: a reference that is still held when nobody else runs is waited for
  in vain.\<close>

definition xenbus_unregister_watch :: "watches \<Rightarrow> u64 \<Rightarrow> watches res" where
  "xenbus_unregister_watch ws a =
     res_bind (unhook_watch ws a) (\<lambda>ws.
       res_bind (deref_wh ws a) (\<lambda>h.
         if refcount h \<noteq> 0 then Inl NoReturn
         else res_bind (unregister_watch_with_xenstored ws a) (\<lambda>ws. free_watch ws a)))"

text \<open>\<open>alloc\<close>: the two allocations succeed and the handler is at the address given; \<open>ok\<close>: xenstored accepts.\<close>

definition xenbus_watch_path ::
  "bool \<Rightarrow> bool \<Rightarrow> bool \<Rightarrow> u64 \<Rightarrow> u8 list \<Rightarrow> bool \<Rightarrow> bool \<Rightarrow> watches \<Rightarrow> (u64 option \<times> watches) res" where
  "xenbus_watch_path AustereMode alloc1 alloc2 a p ev ok ws =
     xm_assert (\<not> AustereMode)
       (if \<not> alloc1 \<or> \<not> alloc2 then Inr (None, ws)
        else res_bind (register_watch_handler (new_watch ws a p ev) a ok) (\<lambda>ws.
          if ok then Inr (Some a, ws)
          else res_bind (deref_wh ws a) (\<lambda>h.
            res_bind (xenbus_unregister_watch (set_wh ws a (h\<lparr>currently_registered := False\<rparr>)) a) (\<lambda>ws. Inr (None, ws)))))"

definition xenbus_redirect_watch ::
  "bool \<Rightarrow> bool \<Rightarrow> nat \<Rightarrow> (nat \<Rightarrow> u8 list \<Rightarrow> bool) \<Rightarrow> watches \<Rightarrow> u64 \<Rightarrow> u8 list \<Rightarrow> (NTSTATUS \<times> watches) res" where
  "xenbus_redirect_watch alloc ok fuel answer ws a new_path =
     (if \<not> alloc then Inr (STATUS_INSUFFICIENT_RESOURCES, ws)
      else res_bind (deref_wh ws a) (\<lambda>h.
        if path h = new_path then Inr (STATUS_SUCCESS, ws)
        else res_bind (register_watch_handler (set_wh ws a (h\<lparr>path := new_path, currently_registered := True\<rparr>)) a ok) (\<lambda>ws.
          if \<not> ok then
            let ws = set_wh ws a h
            in if currently_registered h then Inr (STATUS_UNSUCCESSFUL, ws)
               else res_bind (reregister_all_watches fuel answer ws) (\<lambda>ws. Inr (STATUS_UNSUCCESSFUL, ws))
          else Inr (STATUS_SUCCESS,
            if currently_registered h then ws\<lparr>xs_log := xs_log ws @ [XsUnwatch (path h) (token h)]\<rparr> else ws))))"

text \<open>Coming back from S3: the scan starts from the head of the list again after every handler.\<close>

definition to_recover :: "xenbus_watch_handler \<Rightarrow> bool" where
  "to_recover h \<longleftrightarrow> \<not> (\<not> needs_s3_recover h \<or> faulty h)"

fun recover_loop :: "nat \<Rightarrow> watches \<Rightarrow> watches res" where
  "recover_loop 0 ws = Inl NoReturn"
| "recover_loop (Suc fuel) ws =
     res_bind (scan_watches to_recover ws (head_watch_handler ws)) (\<lambda>f.
       case f of
         None \<Rightarrow> Inr ws
       | Some a \<Rightarrow>
           res_bind (get_watch_handler ws a) (\<lambda>ws.
             res_bind (deref_wh ws a) (\<lambda>h.
               res_bind (unregister_watch_with_xenstored (set_wh ws a (h\<lparr>needs_s3_recover := False\<rparr>)) a) (\<lambda>ws.
                 res_bind (deref_wh ws a) (\<lambda>h.
                   res_bind (put_watch_handler (set_wh ws a (h\<lparr>currently_registered := False\<rparr>)) a) (\<lambda>ws.
                     recover_loop fuel ws))))))"

definition mark_s3 :: "watches \<Rightarrow> watches" where
  "mark_s3 ws =
     ws\<lparr>wh := (\<lambda>a. if a \<in> set (head_watch_handler ws) then map_option (\<lambda>h. h\<lparr>needs_s3_recover := True\<rparr>) (wh ws a)
                   else wh ws a)\<rparr>"

definition xenbus_recover_from_s3 :: "nat \<Rightarrow> (nat \<Rightarrow> u8 list \<Rightarrow> bool) \<Rightarrow> watches \<Rightarrow> watches res" where
  "xenbus_recover_from_s3 fuel answer ws =
     res_bind (recover_loop fuel (mark_s3 ws)) (\<lambda>ws. reregister_all_watches fuel answer ws)"


section \<open>Interleaving\<close>

text \<open>The watch thread waits, runs the callback of a handler, or is inside \<^verbatim>\<open>xenbus_unregister_watch\<close> for a second
  handler called from that callback.\<close>

datatype wt_pc = WtWait | WtRun u64 | WtUnreg u64 u64

text \<open>The thread in \<^verbatim>\<open>reregister_all_watches\<close>: it holds a reference while it talks to xenstored, then it has marked the
  handler faulty and is about to trigger it, then it drops the reference.\<close>

datatype rr_pc = RrIdle | RrHold u64 | RrFailed u64 | RrPut u64

text \<open>Unregistering a handler: unhooked and about to read the reference count, or waiting for the event.\<close>

datatype unreg_pc = UNone | UCheck | UWait

record watch_race =
  ws :: watches
  wt :: wt_pc
  rr :: rr_pc
  unreg :: "u64 \<Rightarrow> unreg_pc"

inductive wstep :: "watch_race \<Rightarrow> watch_race res \<Rightarrow> bool" where
  create: "wh (ws s) a = None \<Longrightarrow> wstep s (Inr (s\<lparr>ws := new_watch (ws s) a p ev\<rparr>))"
| fire: "wstep s (res_bind (fire_watch_by_ident False (ws s) ident) (\<lambda>w. Inr (s\<lparr>ws := w\<rparr>)))"
| client_trigger: "a \<in> set (head_watch_handler (ws s)) \<Longrightarrow>
    wstep s (res_bind (trigger_watch (ws s) a) (\<lambda>w. Inr (s\<lparr>ws := w\<rparr>)))"
| watch_take: "wt s = WtWait \<Longrightarrow> pending_watches_list (ws s) \<noteq> [] \<Longrightarrow>
    wstep s (res_bind (take_watch (ws s)) (\<lambda>f. case f of None \<Rightarrow> Inr s | Some (a, w) \<Rightarrow> Inr (s\<lparr>ws := w, wt := WtRun a\<rparr>)))"
| watch_put: "wt s = WtRun a \<Longrightarrow>
    wstep s (res_bind (put_watch_handler (ws s) a) (\<lambda>w. Inr (s\<lparr>ws := w, wt := WtWait\<rparr>)))"
| watch_unregister: "wt s = WtRun a \<Longrightarrow> b \<in> set (head_watch_handler (ws s)) \<Longrightarrow>
    wstep s (res_bind (unhook_watch (ws s) b) (\<lambda>w. Inr (s\<lparr>ws := w, wt := WtUnreg a b, unreg := (unreg s)(b := UCheck)\<rparr>)))"
| client_unregister: "b \<in> set (head_watch_handler (ws s)) \<Longrightarrow>
    wstep s (res_bind (unhook_watch (ws s) b) (\<lambda>w. Inr (s\<lparr>ws := w, unreg := (unreg s)(b := UCheck)\<rparr>)))"
| unreg_wait: "unreg s b = UCheck \<Longrightarrow>
    wstep s (res_bind (deref_wh (ws s) b) (\<lambda>h. Inr (if refcount h = 0 then s else s\<lparr>unreg := (unreg s)(b := UWait)\<rparr>)))"
| unreg_woken: "unreg s b = UWait \<Longrightarrow>
    wstep s (res_bind (deref_wh (ws s) b) (\<lambda>h. Inr (if safe_to_release h then s\<lparr>unreg := (unreg s)(b := UCheck)\<rparr> else s)))"
| unreg_free: "unreg s b = UCheck \<Longrightarrow> wh (ws s) b = Some h \<Longrightarrow> refcount h = 0 \<Longrightarrow>
    wstep s (res_bind (unregister_watch_with_xenstored (ws s) b) (\<lambda>w. res_bind (free_watch w b) (\<lambda>w.
      Inr (s\<lparr>ws := w, unreg := (unreg s)(b := UNone),
             wt := (case wt s of WtUnreg a c \<Rightarrow> if c = b then WtRun a else wt s | _ \<Rightarrow> wt s)\<rparr>))))"
| suspend: "wstep s (Inr (s\<lparr>ws := reset_watches (ws s)\<rparr>))"
| rereg_get: "rr s = RrIdle \<Longrightarrow>
    wstep s (res_bind (reregister_get (ws s)) (\<lambda>f.
      case f of None \<Rightarrow> Inr s | Some (a, w) \<Rightarrow> Inr (s\<lparr>ws := w, rr := RrHold a\<rparr>)))"
| rereg_answer: "rr s = RrHold a \<Longrightarrow>
    wstep s (res_bind (register_watch_handler (ws s) a ok) (\<lambda>w. res_bind (set_registered w a ok) (\<lambda>w.
      Inr (s\<lparr>ws := w, rr := (if ok then RrPut a else RrFailed a)\<rparr>))))"
| rereg_trigger: "rr s = RrFailed a \<Longrightarrow>
    wstep s (res_bind (trigger_watch (ws s) a) (\<lambda>w. Inr (s\<lparr>ws := w, rr := RrPut a\<rparr>)))"
| rereg_put: "rr s = RrPut a \<Longrightarrow>
    wstep s (res_bind (put_watch_handler (ws s) a) (\<lambda>w. Inr (s\<lparr>ws := w, rr := RrIdle\<rparr>)))"

definition watches_init :: watch_race where
  "watches_init =
     \<lparr>ws = \<lparr>wh = Map.empty, head_watch_handler = [], pending_watches_list = [], watch_thread = True, watch_thread_event = False, xs_log = []\<rparr>,
      wt = WtWait, rr = RrIdle, unreg = (\<lambda>_. UNone)\<rparr>"

inductive wreach :: "watch_race \<Rightarrow> watch_race res \<Rightarrow> bool" for s0 where
  start: "wreach s0 (Inr s0)"
| step: "wreach s0 (Inr s) \<Longrightarrow> wstep s r \<Longrightarrow> wreach s0 r"

section \<open>The invariant\<close>

definition wt_holds :: "wt_pc \<Rightarrow> u64 \<Rightarrow> bool" where
  "wt_holds p a \<longleftrightarrow> (case p of WtWait \<Rightarrow> False | WtRun b \<Rightarrow> a = b | WtUnreg b c \<Rightarrow> a = b)"

definition wt_removes :: "wt_pc \<Rightarrow> u64 \<Rightarrow> bool" where
  "wt_removes p a \<longleftrightarrow> (case p of WtUnreg b c \<Rightarrow> a = c | _ \<Rightarrow> False)"

definition rr_holds :: "rr_pc \<Rightarrow> u64 \<Rightarrow> bool" where
  "rr_holds p a \<longleftrightarrow> (case p of RrIdle \<Rightarrow> False | RrHold b \<Rightarrow> a = b | RrFailed b \<Rightarrow> a = b | RrPut b \<Rightarrow> a = b)"

lemma pc_simps [simp]:
  "\<not> wt_holds WtWait a" "wt_holds (WtRun b) a \<longleftrightarrow> a = b" "wt_holds (WtUnreg b c) a \<longleftrightarrow> a = b"
  "\<not> wt_removes WtWait a" "\<not> wt_removes (WtRun b) a" "wt_removes (WtUnreg b c) a \<longleftrightarrow> a = c"
  "\<not> rr_holds RrIdle a" "rr_holds (RrHold b) a \<longleftrightarrow> a = b" "rr_holds (RrFailed b) a \<longleftrightarrow> a = b" "rr_holds (RrPut b) a \<longleftrightarrow> a = b"
  by (simp_all add: wt_holds_def wt_removes_def rr_holds_def)

text \<open>The number of references: being on the list of fired handlers, the callback in progress and the registration in
  progress.\<close>

definition refs :: "bool \<Rightarrow> bool \<Rightarrow> bool \<Rightarrow> int" where
  "refs p w r = of_bool p + of_bool w + of_bool r"

lemma refs_simps [simp]:
  "refs True w r = refs False w r + 1" "refs p True r = refs p False r + 1" "refs p w True = refs p w False + 1"
  "refs p w r = 0 \<longleftrightarrow> \<not> p \<and> \<not> w \<and> \<not> r" "refs p w r + 1 \<noteq> 0" "1 + refs p w r \<noteq> 0" "refs p w r + 2 \<noteq> 0" "2 + refs p w r \<noteq> 0"
  "3 + refs p w r \<noteq> 0" "refs False False False = 0"
  by (simp_all add: refs_def)

text \<open>What holds of the handler at one address.\<close>

definition handler_ok :: "watch_race \<Rightarrow> u64 \<Rightarrow> bool" where
  "handler_ok s a \<longleftrightarrow>
     (case wh (ws s) a of
        None \<Rightarrow> a \<notin> set (head_watch_handler (ws s)) \<and> a \<notin> set (pending_watches_list (ws s)) \<and> unreg s a = UNone \<and>
          \<not> wt_holds (wt s) a \<and> \<not> wt_removes (wt s) a \<and> \<not> rr_holds (rr s) a
      | Some h \<Rightarrow>
          token h = token_of a \<and> (a \<in> set (head_watch_handler (ws s)) \<longleftrightarrow> unreg s a = UNone) \<and>
          refcount h = refs (a \<in> set (pending_watches_list (ws s))) (wt_holds (wt s) a) (rr_holds (rr s) a) \<and>
          (a \<in> set (pending_watches_list (ws s)) \<longrightarrow> queued h) \<and>
          (unreg s a = UNone \<and> queued h \<longrightarrow> a \<in> set (pending_watches_list (ws s))) \<and>
          (wt_removes (wt s) a \<longrightarrow> unreg s a \<noteq> UNone) \<and>
          (safe_to_release h \<longrightarrow> refcount h = 0) \<and>
          (unreg s a = UWait \<and> refcount h = 0 \<longrightarrow> safe_to_release h))"

definition winv :: "watch_race \<Rightarrow> bool" where
  "winv s \<longleftrightarrow> distinct (head_watch_handler (ws s)) \<and> distinct (pending_watches_list (ws s)) \<and> (\<forall>a. handler_ok s a)"

lemma winv_init: "winv watches_init"
  by (simp add: winv_def watches_init_def handler_ok_def)


lemma deref_wh_simps [simp]:
  "wh w a = Some h \<Longrightarrow> deref_wh w a = Inr h"
  "wh w a = None \<Longrightarrow> deref_wh w a = Inl BadPointer"
  by (simp_all add: deref_wh_def)

lemma set_wh_simps [simp]:
  "xs_log (set_wh w a h) = xs_log w"
  "wh (set_wh w a h) = (wh w)(a \<mapsto> h)"
  "head_watch_handler (set_wh w a h) = head_watch_handler w"
  "pending_watches_list (set_wh w a h) = pending_watches_list w"
  by (simp_all add: set_wh_def)

lemma winv_live:
  assumes "winv s" and "a \<in> set (head_watch_handler (ws s)) \<or> a \<in> set (pending_watches_list (ws s)) \<or> wt_holds (wt s) a \<or>
    rr_holds (rr s) a \<or> unreg s a \<noteq> UNone"
  obtains h where "wh (ws s) a = Some h"
  using assms by (cases "wh (ws s) a") (auto simp: winv_def handler_ok_def dest!: spec [of _ a])

text \<open>A change of one handler and of the program counters.\<close>

lemma handler_ok_other:
  assumes "handler_ok s c" and "wh (ws s') c = wh (ws s) c" and "unreg s' c = unreg s c"
    and "c \<in> set (head_watch_handler (ws s')) \<longleftrightarrow> c \<in> set (head_watch_handler (ws s))"
    and "c \<in> set (pending_watches_list (ws s')) \<longleftrightarrow> c \<in> set (pending_watches_list (ws s))"
    and "wt_holds (wt s') c = wt_holds (wt s) c" and "wt_removes (wt s') c = wt_removes (wt s) c"
    and "rr_holds (rr s') c = rr_holds (rr s) c"
  shows "handler_ok s' c"
  using assms(1) unfolding handler_ok_def assms(2-8) .

lemma winv_change:
  assumes "winv s" and "handler_ok s' a"
    and "distinct (head_watch_handler (ws s'))" and "distinct (pending_watches_list (ws s'))"
    and "\<And>c. c \<noteq> a \<Longrightarrow> wh (ws s') c = wh (ws s) c \<and> unreg s' c = unreg s c \<and>
      (c \<in> set (head_watch_handler (ws s')) \<longleftrightarrow> c \<in> set (head_watch_handler (ws s))) \<and>
      (c \<in> set (pending_watches_list (ws s')) \<longleftrightarrow> c \<in> set (pending_watches_list (ws s))) \<and>
      wt_holds (wt s') c = wt_holds (wt s) c \<and> wt_removes (wt s') c = wt_removes (wt s) c \<and> rr_holds (rr s') c = rr_holds (rr s) c"
  shows "winv s'"
proof -
  have "handler_ok s' c" for c
    using assms(1,2) handler_ok_other [of s c s'] assms(5) [of c] by (cases "c = a") (auto simp: winv_def)
  then show ?thesis using assms(3,4) by (simp add: winv_def)
qed

lemma trigger_watch_ok:
  assumes "handler_ok s a" and "wh (ws s) a = Some h"
  shows "trigger_watch (ws s) a =
    Inr (if queued h then ws s
         else if is_event_handler h then set_wh (ws s) a (h\<lparr>event_set := True\<rparr>)
         else (set_wh (ws s) a (h\<lparr>queued := True, refcount := refcount h + 1, safe_to_release := False\<rparr>))
           \<lparr>pending_watches_list := pending_watches_list (ws s) @ [a],
            watch_thread_event := watch_thread (ws s) \<or> watch_thread_event (ws s)\<rparr>)"
proof -
  have "safe_to_release h \<longrightarrow> refcount h = 0" using assms by (auto simp: handler_ok_def)
  then show ?thesis
    using assms(2) by (cases "safe_to_release h") (simp_all add: trigger_watch_def get_watch_handler_def Let_def set_wh_def)
qed

lemma winv_trigger:
  assumes "winv s" and "wh (ws s) a = Some h" and "unreg s a = UNone \<or> rr_holds (rr s) a"
  obtains w where "trigger_watch (ws s) a = Inr w" and "winv (s\<lparr>ws := w\<rparr>)"
proof (rule that [OF trigger_watch_ok])
  show ok: "handler_ok s a" "wh (ws s) a = Some h" using assms by (simp_all add: winv_def)
  have d: "distinct (head_watch_handler (ws s))" "distinct (pending_watches_list (ws s))"
    using assms(1) by (simp_all add: winv_def)
  let ?w = "if queued h then ws s
         else if is_event_handler h then set_wh (ws s) a (h\<lparr>event_set := True\<rparr>)
         else (set_wh (ws s) a (h\<lparr>queued := True, refcount := refcount h + 1, safe_to_release := False\<rparr>))
           \<lparr>pending_watches_list := pending_watches_list (ws s) @ [a],
            watch_thread_event := watch_thread (ws s) \<or> watch_thread_event (ws s)\<rparr>"
  have "handler_ok (s\<lparr>ws := ?w\<rparr>) a" using ok assms(3) by (auto simp: handler_ok_def)
  then show "winv (s\<lparr>ws := ?w\<rparr>)"
    by (rule winv_change [OF assms(1)]) (use ok d in \<open>auto simp: handler_ok_def\<close>)
qed

lemma winv_put:
  assumes "winv s" and "wt_holds (wt s) a \<and> \<not> wt_holds pw a \<or> rr_holds (rr s) a \<and> \<not> rr_holds pr a"
    and "wt_holds (wt s) a \<and> \<not> wt_holds pw a \<longrightarrow> pr = rr s"
    and "rr_holds (rr s) a \<and> \<not> rr_holds pr a \<longrightarrow> pw = wt s"
    and "\<And>c. c \<noteq> a \<Longrightarrow> wt_holds pw c = wt_holds (wt s) c \<and> rr_holds pr c = rr_holds (rr s) c"
    and "\<And>c. wt_removes pw c = wt_removes (wt s) c"
  obtains w where "put_watch_handler (ws s) a = Inr w" and "winv (s\<lparr>ws := w, wt := pw, rr := pr\<rparr>)"
proof -
  obtain h where h: "wh (ws s) a = Some h" by (rule winv_live [OF assms(1), of a]) (use assms(2) in auto)
  let ?h = "h\<lparr>refcount := refcount h - 1, safe_to_release := refcount h - 1 = 0 \<or> safe_to_release h\<rparr>"
  let ?w = "set_wh (ws s) a ?h"
  have ok: "handler_ok s a" and d: "distinct (head_watch_handler (ws s))" "distinct (pending_watches_list (ws s))"
    using assms(1) by (simp_all add: winv_def)
  have "handler_ok (s\<lparr>ws := ?w, wt := pw, rr := pr\<rparr>) a" using ok h assms(2-4) assms(6) [of a] by (auto simp: handler_ok_def)
  then have "winv (s\<lparr>ws := ?w, wt := pw, rr := pr\<rparr>)"
    by (rule winv_change [OF assms(1)]) (use d assms(5,6) in auto)
  moreover have "put_watch_handler (ws s) a = Inr ?w" using h by (simp add: put_watch_handler_def Let_def)
  ultimately show ?thesis using that by blast
qed

lemma winv_take:
  assumes "winv s" and "pending_watches_list (ws s) = a # as" and "wt s = WtWait"
  obtains w where "take_watch (ws s) = Inr (Some (a, w))" and "winv (s\<lparr>ws := w, wt := WtRun a\<rparr>)"
proof -
  obtain h where h: "wh (ws s) a = Some h" by (rule winv_live [OF assms(1), of a]) (use assms(2) in auto)
  let ?w = "(set_wh (ws s) a (h\<lparr>queued := False\<rparr>))\<lparr>pending_watches_list := as\<rparr>"
  have ok: "handler_ok s a" and d: "distinct (head_watch_handler (ws s))" "distinct (a # as)"
    using assms(1,2) by (simp_all add: winv_def)
  have "handler_ok (s\<lparr>ws := ?w, wt := WtRun a\<rparr>) a" using ok h assms(2,3) d by (auto simp: handler_ok_def)
  then have "winv (s\<lparr>ws := ?w, wt := WtRun a\<rparr>)"
    by (rule winv_change [OF assms(1)]) (use d assms(2,3) in auto)
  moreover have "take_watch (ws s) = Inr (Some (a, ?w))"
    using h ok assms(2) by (simp add: take_watch_def handler_ok_def)
  ultimately show ?thesis using that by blast
qed

lemma winv_unhook:
  assumes "winv s" and "b \<in> set (head_watch_handler (ws s))" and "pw = wt s \<or> wt s = WtRun a \<and> pw = WtUnreg a b"
  obtains w where "unhook_watch (ws s) b = Inr w" and "winv (s\<lparr>ws := w, wt := pw, unreg := (unreg s)(b := UCheck)\<rparr>)"
proof -
  obtain h where h: "wh (ws s) b = Some h" by (rule winv_live [OF assms(1), of b]) (use assms(2) in auto)
  let ?w1 = "(ws s)\<lparr>head_watch_handler := remove1 b (head_watch_handler (ws s))\<rparr>"
  let ?h = "h\<lparr>refcount := refcount h - 1, safe_to_release := refcount h - 1 = 0 \<or> safe_to_release h\<rparr>"
  let ?w = "if queued h
    then set_wh (?w1\<lparr>pending_watches_list := remove1 b (pending_watches_list (ws s))\<rparr>) b ?h else ?w1"
  have ok: "handler_ok s b" and d: "distinct (head_watch_handler (ws s))" "distinct (pending_watches_list (ws s))"
    using assms(1) by (simp_all add: winv_def)
  have "handler_ok (s\<lparr>ws := ?w, wt := pw, unreg := (unreg s)(b := UCheck)\<rparr>) b"
    using ok h assms(2,3) d by (cases "queued h") (auto simp: handler_ok_def)
  then have "winv (s\<lparr>ws := ?w, wt := pw, unreg := (unreg s)(b := UCheck)\<rparr>)"
    by (rule winv_change [OF assms(1)]) (use d assms(3) in \<open>auto simp: in_set_remove1\<close>)
  moreover have "unhook_watch (ws s) b = Inr ?w"
    using h by (simp add: unhook_watch_def put_watch_handler_def Let_def)
  ultimately show ?thesis using that by blast
qed

lemma winv_free:
  assumes "winv s" and "unreg s b = UCheck" and "wh (ws s) b = Some h" and "refcount h = 0"
  shows "winv (s\<lparr>ws := (ws s)\<lparr>xs_log := l, wh := (wh (ws s))(b := None)\<rparr>, unreg := (unreg s)(b := UNone),
             wt := (case wt s of WtUnreg a c \<Rightarrow> if c = b then WtRun a else wt s | _ \<Rightarrow> wt s)\<rparr>)" (is "winv ?s")
proof -
  have ok: "handler_ok s b" and d: "distinct (head_watch_handler (ws s))" "distinct (pending_watches_list (ws s))"
    using assms(1) by (simp_all add: winv_def)
  have "handler_ok ?s b" using ok assms(2-4) by (cases "wt s") (auto simp: handler_ok_def)
  then show ?thesis
    by (rule winv_change [OF assms(1)]) (use d in \<open>auto split: wt_pc.splits\<close>)
qed

lemma winv_get:
  assumes "winv s" and "a \<in> set (head_watch_handler (ws s))" and "rr s = RrIdle"
  obtains w where "get_watch_handler (ws s) a = Inr w" and "winv (s\<lparr>ws := w, rr := RrHold a\<rparr>)"
proof -
  obtain h where h: "wh (ws s) a = Some h" by (rule winv_live [OF assms(1), of a]) (use assms(2) in auto)
  let ?w = "set_wh (ws s) a (h\<lparr>refcount := refcount h + 1, safe_to_release := refcount h + 1 \<noteq> 1 \<and> safe_to_release h\<rparr>)"
  have ok: "handler_ok s a" and d: "distinct (head_watch_handler (ws s))" "distinct (pending_watches_list (ws s))"
    using assms(1) by (simp_all add: winv_def)
  have "handler_ok (s\<lparr>ws := ?w, rr := RrHold a\<rparr>) a" using ok h assms(2,3) by (auto simp: handler_ok_def)
  then have "winv (s\<lparr>ws := ?w, rr := RrHold a\<rparr>)"
    by (rule winv_change [OF assms(1)]) (use d assms(3) in auto)
  moreover have "get_watch_handler (ws s) a = Inr ?w" using h by (simp add: get_watch_handler_def Let_def)
  ultimately show ?thesis using that by blast
qed

lemma find_watch_loop_ok:
  assumes "\<forall>a\<in>set as. wh w a \<noteq> None"
  shows "\<exists>f. find_watch_loop w ident as = Inr f \<and> (\<forall>a. f = Some a \<longrightarrow> a \<in> set as)"
  using assms by (induction as) (auto simp: deref_wh_def)

lemma scan_watches_ok:
  assumes "\<forall>a\<in>set as. wh w a \<noteq> None"
  shows "\<exists>f. scan_watches P w as = Inr f \<and> (\<forall>a. f = Some a \<longrightarrow> a \<in> set as)"
  using assms by (induction as) (auto simp: deref_wh_def)

lemma winv_live_list: "winv s \<Longrightarrow> \<forall>a\<in>set (head_watch_handler (ws s)). wh (ws s) a \<noteq> None"
  using winv_live by blast

lemma winv_at: "winv s \<Longrightarrow> handler_ok s a"
  by (simp add: winv_def)

lemma winv_head_unreg:
  assumes "winv s" and "a \<in> set (head_watch_handler (ws s))"
  shows "unreg s a = UNone"
proof -
  obtain h where "wh (ws s) a = Some h" using winv_live [OF assms(1), of a] assms(2) by blast
  then show ?thesis using winv_at [OF assms(1), of a] assms(2) by (simp add: handler_ok_def)
qed

text \<open>Changes that concern the registration only.\<close>

definition same_refs :: "xenbus_watch_handler option \<Rightarrow> xenbus_watch_handler option \<Rightarrow> bool" where
  "same_refs x y \<longleftrightarrow> (case x of
     None \<Rightarrow> y = None
   | Some h \<Rightarrow> (case y of None \<Rightarrow> False | Some k \<Rightarrow>
       token h = token k \<and> refcount h = refcount k \<and> queued h = queued k \<and> safe_to_release h = safe_to_release k))"

lemma same_refs_refl [simp]: "same_refs x x"
  by (cases x) (simp_all add: same_refs_def)

lemma handler_ok_same_refs:
  assumes "handler_ok s a" and "same_refs (wh w a) (wh (ws s) a)"
    and "head_watch_handler w = head_watch_handler (ws s)" and "pending_watches_list w = pending_watches_list (ws s)"
    and "rr_holds pr a = rr_holds (rr s) a"
  shows "handler_ok (s\<lparr>ws := w, rr := pr\<rparr>) a"
proof (cases "wh w a")
  case None
  then have "wh (ws s) a = None" using assms(2) by (simp add: same_refs_def)
  then show ?thesis using None assms(1,3-5) by (simp add: handler_ok_def)
next
  case (Some h)
  then obtain k where k: "wh (ws s) a = Some k" "token h = token k" "refcount h = refcount k" "queued h = queued k"
      "safe_to_release h = safe_to_release k"
    using assms(2) by (auto simp: same_refs_def split: option.splits)
  have "handler_ok (s\<lparr>ws := w, rr := pr\<rparr>) a \<longleftrightarrow> handler_ok s a"
    by (simp add: handler_ok_def k Some assms(3-5))
  then show ?thesis using assms(1) by simp
qed

lemma winv_same_refs:
  assumes "winv s" and "\<And>a. same_refs (wh w a) (wh (ws s) a)"
    and "head_watch_handler w = head_watch_handler (ws s)" and "pending_watches_list w = pending_watches_list (ws s)"
    and "\<And>a. rr_holds pr a = rr_holds (rr s) a"
  shows "winv (s\<lparr>ws := w, rr := pr\<rparr>)"
  using assms(1,3,4) handler_ok_same_refs [OF winv_at [OF assms(1)] assms(2-5)] by (simp add: winv_def)

lemma winv_step:
  assumes "wstep s r" and "winv s"
  shows "\<exists>s'. r = Inr s' \<and> winv s'"
  using assms
proof cases
  case (create a p ev)
  then have "handler_ok (s\<lparr>ws := new_watch (ws s) a p ev\<rparr>) a"
    using assms(2) by (auto simp: winv_def handler_ok_def new_watch_def dest!: spec [of _ a])
  then have "winv (s\<lparr>ws := new_watch (ws s) a p ev\<rparr>)"
    by (rule winv_change [OF assms(2)])
      (use assms(2) create(2) in \<open>auto simp: new_watch_def winv_def handler_ok_def dest!: spec [of _ a]\<close>)
  then show ?thesis using create by simp
next
  case (fire ident)
  obtain f where f: "find_watch_by_ident (ws s) ident = Inr f" "\<forall>a. f = Some a \<longrightarrow> a \<in> set (head_watch_handler (ws s))"
    using find_watch_loop_ok [OF winv_live_list [OF assms(2)]] by (auto simp: find_watch_by_ident_def)
  show ?thesis
  proof (cases f)
    case None
    then show ?thesis using fire f assms(2) by (simp add: fire_watch_by_ident_def)
  next
    case (Some a)
    then obtain h where "wh (ws s) a = Some h" "unreg s a = UNone"
      using f(2) winv_live_list [OF assms(2)] winv_head_unreg [OF assms(2)] by blast
    then obtain w where "trigger_watch (ws s) a = Inr w" "winv (s\<lparr>ws := w\<rparr>)" using winv_trigger assms(2) by blast
    then show ?thesis using fire f Some by (simp add: fire_watch_by_ident_def)
  qed
next
  case (client_trigger a)
  then obtain h where "wh (ws s) a = Some h" "unreg s a = UNone"
    using winv_live_list [OF assms(2)] winv_head_unreg [OF assms(2)] by blast
  then obtain w where "trigger_watch (ws s) a = Inr w" "winv (s\<lparr>ws := w\<rparr>)" using winv_trigger assms(2) by blast
  then show ?thesis using client_trigger by simp
next
  case watch_take
  then obtain a as where p: "pending_watches_list (ws s) = a # as" by (cases "pending_watches_list (ws s)") auto
  obtain w where "take_watch (ws s) = Inr (Some (a, w))" "winv (s\<lparr>ws := w, wt := WtRun a\<rparr>)"
    by (rule winv_take [OF assms(2) p watch_take(2)])
  then show ?thesis using watch_take by simp
next
  case (watch_put a)
  obtain w where "put_watch_handler (ws s) a = Inr w" "winv (s\<lparr>ws := w, wt := WtWait, rr := rr s\<rparr>)"
    by (rule winv_put [OF assms(2), of a WtWait "rr s"]) (use watch_put in auto)
  then show ?thesis using watch_put by simp
next
  case (watch_unregister a b)
  obtain w where "unhook_watch (ws s) b = Inr w" "winv (s\<lparr>ws := w, wt := WtUnreg a b, unreg := (unreg s)(b := UCheck)\<rparr>)"
    by (rule winv_unhook [OF assms(2), of b "WtUnreg a b" a]) (use watch_unregister in auto)
  then show ?thesis using watch_unregister by simp
next
  case (client_unregister b)
  obtain w where "unhook_watch (ws s) b = Inr w" "winv (s\<lparr>ws := w, wt := wt s, unreg := (unreg s)(b := UCheck)\<rparr>)"
    by (rule winv_unhook [OF assms(2), of b "wt s"]) (use client_unregister in auto)
  then show ?thesis using client_unregister by simp
next
  case (unreg_wait b)
  then obtain h where h: "wh (ws s) b = Some h" using winv_live [OF assms(2), of b] by auto
  have "winv (s\<lparr>unreg := (unreg s)(b := UWait)\<rparr>)" if "refcount h \<noteq> 0"
  proof -
    have "handler_ok (s\<lparr>unreg := (unreg s)(b := UWait)\<rparr>) b"
      using that h unreg_wait(2) assms(2) by (auto simp: winv_def handler_ok_def dest!: spec [of _ b])
    then show ?thesis by (rule winv_change [OF assms(2)]) (use assms(2) in \<open>auto simp: winv_def\<close>)
  qed
  then show ?thesis using unreg_wait h assms(2) by simp
next
  case (unreg_woken b)
  then obtain h where h: "wh (ws s) b = Some h" using winv_live [OF assms(2), of b] by auto
  have "handler_ok (s\<lparr>unreg := (unreg s)(b := UCheck)\<rparr>) b"
    using h unreg_woken(2) assms(2) by (auto simp: winv_def handler_ok_def dest!: spec [of _ b])
  then have "winv (s\<lparr>unreg := (unreg s)(b := UCheck)\<rparr>)"
    by (rule winv_change [OF assms(2)]) (use assms(2) in \<open>auto simp: winv_def\<close>)
  then show ?thesis using unreg_woken h assms(2) by simp
next
  case (unreg_free b h)
  then show ?thesis
    using winv_free [OF assms(2) unreg_free(2-4), of "xs_log (ws s)"]
      winv_free [OF assms(2) unreg_free(2-4), of "xs_log (ws s) @ [XsUnwatch (path h) (token h)]"]
    by (simp add: free_watch_def unregister_watch_with_xenstored_def)
next
  case suspend
  have "winv (s\<lparr>ws := reset_watches (ws s), rr := rr s\<rparr>)"
    by (rule winv_same_refs [OF assms(2)]) (auto simp: reset_watches_def same_refs_def split: option.splits)
  then show ?thesis using suspend by simp
next
  case rereg_get
  obtain f where f: "scan_watches to_register (ws s) (head_watch_handler (ws s)) = Inr f"
      "\<forall>a. f = Some a \<longrightarrow> a \<in> set (head_watch_handler (ws s))"
    using scan_watches_ok [OF winv_live_list [OF assms(2)]] by blast
  show ?thesis
  proof (cases f)
    case None
    then show ?thesis using rereg_get f assms(2) by (simp add: reregister_get_def)
  next
    case (Some a)
    obtain w where "get_watch_handler (ws s) a = Inr w" "winv (s\<lparr>ws := w, rr := RrHold a\<rparr>)"
      by (rule winv_get [OF assms(2), of a]) (use f(2) Some rereg_get in auto)
    then show ?thesis using rereg_get f Some by (simp add: reregister_get_def)
  qed
next
  case (rereg_answer a ok)
  then obtain h where h: "wh (ws s) a = Some h" using winv_live [OF assms(2), of a] by auto
  let ?w = "set_wh ((ws s)\<lparr>xs_log := xs_log (ws s) @ [XsWatch (path h) (token h) ok]\<rparr>) a
    (if ok then h\<lparr>currently_registered := True\<rparr> else h\<lparr>faulty := True\<rparr>)"
  have "winv (s\<lparr>ws := ?w, rr := (if ok then RrPut a else RrFailed a)\<rparr>)"
    by (rule winv_same_refs [OF assms(2)]) (use h rereg_answer in \<open>auto simp: same_refs_def split: option.splits\<close>)
  then show ?thesis using rereg_answer h by (simp add: set_registered_def register_watch_handler_def)
next
  case (rereg_trigger a)
  then obtain h where h: "wh (ws s) a = Some h" using winv_live [OF assms(2), of a] by auto
  obtain w where w: "trigger_watch (ws s) a = Inr w" "winv (s\<lparr>ws := w\<rparr>)"
    by (rule winv_trigger [OF assms(2) h]) (use rereg_trigger in auto)
  have "winv (s\<lparr>ws := w\<rparr>\<lparr>ws := w, rr := RrPut a\<rparr>)"
    by (rule winv_same_refs [OF w(2)]) (use rereg_trigger in auto)
  then show ?thesis using rereg_trigger w by simp
next
  case (rereg_put a)
  obtain w where "put_watch_handler (ws s) a = Inr w" "winv (s\<lparr>ws := w, wt := wt s, rr := RrIdle\<rparr>)"
    by (rule winv_put [OF assms(2), of a "wt s" RrIdle]) (use rereg_put in auto)
  then show ?thesis using rereg_put by simp
qed

lemma winv_reach: "wreach s0 r \<Longrightarrow> winv s0 \<Longrightarrow> \<exists>s. r = Inr s \<and> winv s"
  by (induction rule: wreach.induct) (use winv_step in \<open>auto\<close>)

section \<open>Tokens\<close>

definition digit_val :: "u8 \<Rightarrow> nat" where
  "digit_val d = (if unat d < 87 then unat d - 48 else unat d - 87)"

lemma digit_val_hex [simp]: "d < 16 \<Longrightarrow> digit_val (hex_digit d) = d"
  by (simp add: digit_val_def hex_digit_def unat_of_nat)

definition hex_val :: "u8 list \<Rightarrow> nat" where
  "hex_val ds = foldl (\<lambda>v d. 16 * v + digit_val d) 0 ds"

lemma hex_val_digits: "hex_val (hex_digits n) = n"
proof (induction n rule: hex_digits.induct)
  case (1 n)
  show ?case
  proof (cases "n < 16")
    case True
    then show ?thesis by (simp add: hex_digits.simps [of n] hex_val_def)
  next
    case False
    then have "hex_val (hex_digits (n div 16)) = n div 16" using 1 by simp
    then show ?thesis using False by (simp add: hex_digits.simps [of n] hex_val_def)
  qed
qed

lemma length_hex_digits: "n < 16 ^ k \<Longrightarrow> 0 < k \<Longrightarrow> length (hex_digits n) \<le> k"
proof (induction n arbitrary: k rule: hex_digits.induct)
  case (1 n)
  show ?case
  proof (cases "n < 16")
    case True
    then show ?thesis using 1(3) by (simp add: hex_digits.simps [of n])
  next
    case False
    then obtain j where k: "k = Suc j" "0 < j" using 1(2,3) by (cases k; cases "k - 1") auto
    then have "n div 16 < 16 ^ j" using 1(2) by (simp add: less_mult_imp_div_less)
    then show ?thesis using 1(1) [OF False, of j] False k by (simp add: hex_digits.simps [of n])
  qed
qed

lemma token_of_inj: "token_of a = token_of b \<longleftrightarrow> a = b"
proof -
  have "hex_val (token_of x) = unat x" for x
  proof -
    have "unat x < 16 ^ 16" using unat_bound [of x] by simp
    then show ?thesis using length_hex_digits [of "unat x" 16] by (simp add: token_of_def hex_val_digits)
  qed
  then show ?thesis by (metis word_unat_eq_iff)
qed

lemma find_watch_loop_token:
  assumes "\<forall>b\<in>set as. \<exists>h. wh w b = Some h \<and> token h = token_of b" and "a \<in> set as"
  shows "find_watch_loop w (token_of a) as = Inr (Some a)"
  using assms by (induction as) (auto simp: token_of_inj)

lemma winv_token: "winv s \<Longrightarrow> wh (ws s) a = Some h \<Longrightarrow> token h = token_of a"
  using winv_at [of s a] by (simp add: handler_ok_def)

lemma winv_find:
  assumes "winv s" and "a \<in> set (head_watch_handler (ws s))"
  shows "find_watch_by_ident (ws s) (token_of a) = Inr (Some a)"
  unfolding find_watch_by_ident_def
  using winv_live_list [OF assms(1)] winv_token [OF assms(1)] by (intro find_watch_loop_token [OF _ assms(2)]) blast


section \<open>Removing a watch\<close>

lemma wreach_trans:
  assumes "wreach s (Inr s')" and "wreach s' r"
  shows "wreach s r"
  using assms(2,1) by (induction rule: wreach.induct) (auto intro: wreach.step)

lemma wreach_step: "wstep s (Inr s') \<Longrightarrow> wreach s (Inr s')"
  using wreach.step [OF wreach.start] by blast

lemma put_watch_handler_lists:
  "put_watch_handler w a = Inr w' \<Longrightarrow> pending_watches_list w' = pending_watches_list w"
  by (auto simp: put_watch_handler_def Let_def deref_wh_def split: option.splits)

text \<open>The registration in progress can be brought to its end.\<close>

lemma rereg_put_done:
  assumes "winv s" and "rr s = RrPut a"
  obtains s' where "wreach s (Inr s')" "winv s'" "rr s' = RrIdle" "wt s' = wt s" "unreg s' = unreg s"
proof -
  obtain w where w: "put_watch_handler (ws s) a = Inr w" "winv (s\<lparr>ws := w, wt := wt s, rr := RrIdle\<rparr>)"
    by (rule winv_put [OF assms(1), of a "wt s" RrIdle]) (use assms(2) in auto)
  have "wstep s (Inr (s\<lparr>ws := w, rr := RrIdle\<rparr>))" using wstep.rereg_put [OF assms(2)] w(1) by simp
  then show ?thesis using that [of "s\<lparr>ws := w, rr := RrIdle\<rparr>"] w(2) wreach_step by simp
qed

lemma rereg_failed_done:
  assumes "winv s" and "rr s = RrFailed a"
  obtains s' where "wreach s (Inr s')" "winv s'" "rr s' = RrIdle" "wt s' = wt s" "unreg s' = unreg s"
proof -
  obtain h where h: "wh (ws s) a = Some h" using winv_live [OF assms(1), of a] assms(2) by auto
  obtain w where w: "trigger_watch (ws s) a = Inr w" by (rule winv_trigger [OF assms(1) h]) (use assms(2) in auto)
  let ?s = "s\<lparr>ws := w, rr := RrPut a\<rparr>"
  have st: "wstep s (Inr ?s)" using wstep.rereg_trigger [OF assms(2)] w by simp
  then have "winv ?s" using winv_step assms(1) by blast
  then obtain s' where "wreach ?s (Inr s')" "winv s'" "rr s' = RrIdle" "wt s' = wt ?s" "unreg s' = unreg ?s"
    by (rule rereg_put_done [of ?s a]) simp
  then show ?thesis using that [of s'] wreach_trans [OF wreach_step [OF st]] by simp
qed

lemma rereg_done:
  assumes "winv s"
  obtains s' where "wreach s (Inr s')" "winv s'" "rr s' = RrIdle" "wt s' = wt s" "unreg s' = unreg s"
proof (cases "rr s")
  case RrIdle
  then show ?thesis using that [of s] assms wreach.start by blast
next
  case (RrHold a)
  obtain h where h: "wh (ws s) a = Some h" using winv_live [OF assms, of a] RrHold by auto
  let ?s = "s\<lparr>ws := set_wh ((ws s)\<lparr>xs_log := xs_log (ws s) @ [XsWatch (path h) (token h) False]\<rparr>) a (h\<lparr>faulty := True\<rparr>),
    rr := RrFailed a\<rparr>"
  have st: "wstep s (Inr ?s)"
    using wstep.rereg_answer [OF RrHold, of False] h by (simp add: set_registered_def register_watch_handler_def)
  then have "winv ?s" using winv_step assms by blast
  then obtain s' where "wreach ?s (Inr s')" "winv s'" "rr s' = RrIdle" "wt s' = wt ?s" "unreg s' = unreg ?s"
    by (rule rereg_failed_done [of ?s a]) simp
  then show ?thesis using that [of s'] wreach_trans [OF wreach_step [OF st]] by simp
next
  case (RrFailed a)
  then show ?thesis using rereg_failed_done [OF assms RrFailed] that by blast
next
  case (RrPut a)
  then show ?thesis using rereg_put_done [OF assms RrPut] that by blast
qed

text \<open>The callback in progress and the fired watches can be served.\<close>

lemma callback_done:
  assumes "winv s" and "wt s = WtRun a"
  obtains s' where "wreach s (Inr s')" "winv s'" "wt s' = WtWait" "rr s' = rr s" "unreg s' = unreg s"
    "pending_watches_list (ws s') = pending_watches_list (ws s)"
proof -
  obtain w where w: "put_watch_handler (ws s) a = Inr w" "winv (s\<lparr>ws := w, wt := WtWait, rr := rr s\<rparr>)"
    by (rule winv_put [OF assms(1), of a WtWait "rr s"]) (use assms(2) in auto)
  have "wstep s (Inr (s\<lparr>ws := w, wt := WtWait\<rparr>))" using wstep.watch_put [OF assms(2)] w(1) by simp
  then show ?thesis
    using that [of "s\<lparr>ws := w, wt := WtWait\<rparr>"] w wreach_step put_watch_handler_lists [OF w(1)] by simp
qed

lemma pending_done:
  assumes "winv s" and "wt s = WtWait"
  shows "\<exists>s'. wreach s (Inr s') \<and> winv s' \<and> wt s' = WtWait \<and> rr s' = rr s \<and> unreg s' = unreg s \<and> pending_watches_list (ws s') = []"
  using assms
proof (induction "pending_watches_list (ws s)" arbitrary: s)
  case Nil
  then show ?case using wreach.start by metis
next
  case (Cons a as)
  obtain w where w: "take_watch (ws s) = Inr (Some (a, w))" "winv (s\<lparr>ws := w, wt := WtRun a\<rparr>)"
    by (rule winv_take [OF Cons(3) Cons(2) [symmetric] Cons(4)])
  let ?s = "s\<lparr>ws := w, wt := WtRun a\<rparr>"
  have as: "pending_watches_list w = as"
    using w(1) Cons(2) [symmetric]
    by (auto simp: take_watch_def xm_assert_def deref_wh_def split: option.splits if_splits)
  have st: "wstep s (Inr ?s)" using wstep.watch_take [OF Cons(4)] w(1) Cons(2) [symmetric] by simp
  obtain s1 where s1: "wreach ?s (Inr s1)" "winv s1" "wt s1 = WtWait" "rr s1 = rr ?s" "unreg s1 = unreg ?s"
      "pending_watches_list (ws s1) = pending_watches_list (ws ?s)"
    using callback_done [OF w(2), of a] by auto
  obtain s2 where "wreach s1 (Inr s2)" "winv s2" "wt s2 = WtWait" "rr s2 = rr s1" "unreg s2 = unreg s1"
      "pending_watches_list (ws s2) = []"
    using Cons(1) [OF _ s1(2,3)] s1(6) as by auto
  then show ?case
    using wreach_trans [OF wreach_step [OF st] wreach_trans [OF s1(1)]] s1(4,5) by (intro exI [of _ s2]) simp
qed

lemma freed:
  assumes "winv s" and "unreg s b \<noteq> UNone" and "wt s = WtWait" and "rr s = RrIdle" and "pending_watches_list (ws s) = []"
  shows "\<exists>s'. wreach s (Inr s') \<and> wh (ws s') b = None"
proof -
  obtain h where h: "wh (ws s) b = Some h" using winv_live [OF assms(1), of b] assms(2) by auto
  have r: "refcount h = 0" and safe: "unreg s b = UWait \<Longrightarrow> safe_to_release h"
    using winv_at [OF assms(1), of b] h assms(3-5) by (auto simp: handler_ok_def)
  let ?s = "s\<lparr>unreg := (unreg s)(b := UCheck)\<rparr>"
  have "wreach s (Inr ?s)"
  proof (cases "unreg s b")
    case UCheck
    then have "?s = s" by (cases s) (auto simp: fun_upd_idem)
    then show ?thesis using wreach.start [of s] by (simp only:)
  next
    case UWait
    then show ?thesis using wreach_step [of s ?s] wstep.unreg_woken [OF UWait] h safe by simp
  qed (use assms(2) in simp)
  moreover obtain l where
    "wstep ?s (Inr (?s\<lparr>ws := (ws s)\<lparr>xs_log := l, wh := (wh (ws s))(b := None)\<rparr>, unreg := (unreg ?s)(b := UNone), wt := WtWait\<rparr>))"
    using wstep.unreg_free [of ?s b h] h r assms(3) that [of "xs_log (ws s)"] that [of "xs_log (ws s) @ [XsUnwatch (path h) (token h)]"]
    by (auto simp: free_watch_def unregister_watch_with_xenstored_def split: if_splits)
  ultimately show ?thesis using wreach.step by fastforce
qed

text \<open>C17: Removing a watch ends, unless the watch thread itself is inside a removal: from every state in which a client
  has unhooked a handler and waits for its references, the system can go on until the handler is freed.  In particular
  the event the client waits for is set whenever the last reference is gone.\<close>

theorem unregister_can_complete:
  assumes "wreach watches_init (Inr s)" and "unreg s b \<noteq> UNone" and "\<nexists>a c. wt s = WtUnreg a c"
  shows "\<exists>s'. wreach s (Inr s') \<and> wh (ws s') b = None"
proof -
  have "winv s" using winv_reach [OF assms(1) winv_init] by auto
  then obtain s1 where s1: "wreach s (Inr s1)" "winv s1" "rr s1 = RrIdle" "wt s1 = wt s" "unreg s1 = unreg s"
    using rereg_done by blast
  obtain s2 where s2: "wreach s1 (Inr s2)" "winv s2" "wt s2 = WtWait" "rr s2 = RrIdle" "unreg s2 = unreg s"
  proof (cases "wt s1")
    case WtWait
    then show ?thesis using that [of s1] s1 wreach.start by auto
  next
    case (WtRun a)
    then show ?thesis using callback_done [OF s1(2) WtRun] that s1 by metis
  next
    case (WtUnreg a c)
    then show ?thesis using assms(3) s1(4) by simp
  qed
  obtain s3 where s3: "wreach s2 (Inr s3)" "winv s3" "wt s3 = WtWait" "rr s3 = RrIdle" "unreg s3 = unreg s"
      "pending_watches_list (ws s3) = []"
    using pending_done [OF s2(2,3)] s2 by auto
  then show ?thesis using freed [OF s3(2) _ s3(3,4,6), of b] assms(2) wreach_trans s1(1) s2(1) by metis
qed

text \<open>C18: A callback that removes its own watch never returns: the reference the watch thread holds while it runs the
  callback is the one that the removal waits for.  The comment in \<^verbatim>\<open>xenbus_unregister_watch\<close> takes that reference to
  be the one of the list of fired watches, but the thread has taken the handler from that list already.\<close>

theorem callback_unregister_deadlocks:
  assumes "wreach watches_init (Inr s)" and "wt s = WtUnreg a a" and "wreach s r"
  shows "\<exists>s'. r = Inr s' \<and> wt s' = WtUnreg a a \<and> wh (ws s') a \<noteq> None"
proof -
  have i: "winv s" using winv_reach [OF assms(1) winv_init] by auto
  have "\<exists>s'. r = Inr s' \<and> winv s' \<and> wt s' = WtUnreg a a"
    using assms(3)
  proof (induction rule: wreach.induct)
    case start
    then show ?case using i assms(2) by simp
  next
    case (step s1 r)
    then have s1: "winv s1" "wt s1 = WtUnreg a a" by auto
    obtain s2 where s2: "r = Inr s2" "winv s2" using winv_step [OF step(2) s1(1)] by blast
    have busy: "\<not> (wh (ws s1) a = Some h \<and> refcount h = 0)" for h
      using winv_at [OF s1(1), of a] s1(2) by (auto simp: handler_ok_def)
    have "wt s2 = WtUnreg a a"
      using step(2) s1(2) s2(1) busy by cases (auto simp: res_bind_Inr_iff split: option.splits if_splits)
    then show ?case using s2 by simp
  qed
  then show ?thesis using winv_live [of _ a] by fastforce
qed

section \<open>Registering again\<close>

text \<open>One turn of the loop, for the first handler that is not registered.\<close>

definition answered :: "bool \<Rightarrow> u64 \<Rightarrow> watches \<Rightarrow> watches \<Rightarrow> bool" where
  "answered ok a w w' \<longleftrightarrow> head_watch_handler w' = head_watch_handler w \<and>
     (\<forall>b. b \<noteq> a \<longrightarrow> wh w' b = wh w b) \<and>
     (\<exists>h k. wh w a = Some h \<and> wh w' a = Some k \<and> currently_registered k = ok \<and> faulty k = (\<not> ok) \<and> path k = path h \<and>
        token k = token h \<and> xs_log w' = xs_log w @ [XsWatch (path h) (token h) ok] \<and> is_event_handler k = is_event_handler h \<and>
        queued k = (queued h \<or> \<not> ok \<and> \<not> is_event_handler h) \<and>
        event_set k = (event_set h \<or> \<not> ok \<and> \<not> queued h \<and> is_event_handler h) \<and>
        refcount k = refcount h + (if \<not> ok \<and> \<not> queued h \<and> \<not> is_event_handler h then 1 else 0) \<and>
        pending_watches_list w' = pending_watches_list w @
          (if \<not> ok \<and> \<not> queued h \<and> \<not> is_event_handler h then [a] else []))"

lemma reregister_turn:
  assumes "wh w a = Some h" and "to_register h"
  shows "\<exists>w1 h1 w2 w3 w4. get_watch_handler w a = Inr w1 \<and> wh w1 a = Some h1 \<and> path h1 = path h \<and>
    register_watch_handler w1 a ok = Inr w2 \<and>
    (if ok then set_registered w2 a True else res_bind (set_registered w2 a False) (\<lambda>w. trigger_watch w a)) = Inr w3 \<and>
    put_watch_handler w3 a = Inr w4 \<and> answered ok a w w4"
  using assms
  by (cases ok; cases "queued h"; cases "is_event_handler h")
    (simp_all add: get_watch_handler_def set_registered_def trigger_watch_def put_watch_handler_def answered_def Let_def
      to_register_def register_watch_handler_def)

text \<open>A state in which nobody else is in the middle of an operation.\<close>

definition idle :: "watches \<Rightarrow> watch_race" where
  "idle w = \<lparr>ws = w, wt = WtWait, rr = RrIdle, unreg = (\<lambda>_. UNone)\<rparr>"

lemma idle_simps [simp]: "ws (idle w) = w" "wt (idle w) = WtWait" "rr (idle w) = RrIdle" "unreg (idle w) a = UNone"
  by (simp_all add: idle_def)

text \<open>What the handlers say is registered, and what follows from the requests sent to xenstored.\<close>

definition registered :: "watches \<Rightarrow> (u8 list \<times> u8 list) set" where
  "registered w = {(path h, token h) |a h. wh w a = Some h \<and> currently_registered h}"

fun store_step :: "(u8 list \<times> u8 list) set \<Rightarrow> xs_watch_req \<Rightarrow> (u8 list \<times> u8 list) set" where
  "store_step S (XsWatch p t ok) = (if ok then insert (p, t) S else S)"
| "store_step S (XsUnwatch p t) = S - {(p, t)}"
| "store_step S XsLost = {}"

definition store_table :: "xs_watch_req list \<Rightarrow> (u8 list \<times> u8 list) set" where
  "store_table l = foldl store_step {} l"

lemma store_table_append [simp]: "store_table (l @ rs) = foldl store_step (store_table l) rs"
  by (simp add: store_table_def)

definition table_ok :: "watches \<Rightarrow> bool" where
  "table_ok w \<longleftrightarrow> winv (idle w) \<and> store_table (xs_log w) = registered w"

lemma token_owner:
  assumes "winv s" and "wh (ws s) a = Some h" and "wh (ws s) b = Some g" and "token g = token h"
  shows "b = a"
  using assms winv_token [OF assms(1)] by (simp add: token_of_inj)

lemma registered_set_wh:
  assumes "winv s" and "wh (ws s) a = Some h" and "wh w' = (wh (ws s))(a := k)"
  shows "registered w' = registered (ws s) - {(path h, token h)} \<union>
    (case k of None \<Rightarrow> {} | Some h \<Rightarrow> if currently_registered h then {(path h, token h)} else {})" (is "?L = ?R")
proof
  show "?L \<subseteq> ?R"
  proof
    fix x
    assume "x \<in> ?L"
    then obtain b g where x: "x = (path g, token g)" "wh w' b = Some g" "currently_registered g" by (auto simp: registered_def)
    show "x \<in> ?R"
    proof (cases "b = a")
      case True
      then show ?thesis using x assms(3) by simp
    next
      case False
      then have "wh (ws s) b = Some g" using x assms(3) by simp
      then show ?thesis using x token_owner [OF assms(1,2)] False by (auto simp: registered_def)
    qed
  qed
  show "?R \<subseteq> ?L"
  proof
    fix x
    assume "x \<in> ?R"
    then consider "x \<in> registered (ws s) - {(path h, token h)}" | g where "k = Some g" "currently_registered g" "x = (path g, token g)"
      by (auto split: option.splits if_splits)
    then show "x \<in> ?L"
    proof cases
      case 1
      then obtain b g where x: "x = (path g, token g)" "wh (ws s) b = Some g" "currently_registered g" by (auto simp: registered_def)
      then have "b \<noteq> a" using 1 assms(2) by auto
      then show ?thesis using x assms(3) by (auto simp: registered_def)
    next
      case 2
      then show ?thesis using assms(3) by (auto simp: registered_def)
    qed
  qed
qed

lemma not_registered:
  assumes "winv s" and "wh (ws s) a = Some h" and "\<not> currently_registered h"
  shows "(path h, token h) \<notin> registered (ws s)"
  using token_owner [OF assms(1,2)] assms(2,3) by (auto simp: registered_def)

lemma registered_log [simp]: "registered (w\<lparr>xs_log := l\<rparr>) = registered w" "registered (w\<lparr>head_watch_handler := as\<rparr>) = registered w"
  by (simp_all add: registered_def)

lemma winv_idle_same_refs:
  assumes "winv (idle w)" and "\<And>a. same_refs (wh w' a) (wh w a)"
    and "head_watch_handler w' = head_watch_handler w" and "pending_watches_list w' = pending_watches_list w"
  shows "winv (idle w')"
  using winv_same_refs [OF assms(1), of w' RrIdle] assms(2-4) by (simp add: idle_def)

lemma winv_idle_log [simp]: "winv (idle (w\<lparr>xs_log := l\<rparr>)) = winv (idle w)"
proof
  assume "winv (idle (w\<lparr>xs_log := l\<rparr>))"
  then show "winv (idle w)" by (rule winv_idle_same_refs) simp_all
next
  assume "winv (idle w)"
  then show "winv (idle (w\<lparr>xs_log := l\<rparr>))" by (rule winv_idle_same_refs) simp_all
qed

text \<open>Registering again: every turn keeps the two views together.\<close>

lemma scan_watches_Some:
  "scan_watches P w as = Inr (Some a) \<Longrightarrow> a \<in> set as \<and> (\<exists>h. wh w a = Some h \<and> P h)"
  by (induction as) (auto simp: deref_wh_def split: option.splits if_splits)

lemma scan_watches_None:
  "scan_watches P w as = Inr None \<Longrightarrow> a \<in> set as \<Longrightarrow> \<exists>h. wh w a = Some h \<and> \<not> P h"
  by (induction as) (auto simp: deref_wh_def split: option.splits if_splits)

lemma winv_reregister_turn:
  assumes "winv (idle w)" and "reregister_get w = Inr (Some (a, w1))" and "register_watch_handler w1 a ok = Inr w2"
    and "(if ok then set_registered w2 a True else res_bind (set_registered w2 a False) (\<lambda>w. trigger_watch w a)) = Inr w3"
    and "put_watch_handler w3 a = Inr w4"
  shows "winv (idle w4)"
proof -
  have step: "winv s'" if "wstep s (Inr s')" "winv s" for s s' using winv_step [OF that] by simp
  have 1: "winv ((idle w)\<lparr>ws := w1, rr := RrHold a\<rparr>)"
    by (rule step [OF _ assms(1)]) (use wstep.rereg_get [of "idle w"] assms(2) in simp)
  have "winv ((idle w)\<lparr>ws := w3, rr := RrPut a\<rparr>)"
  proof (cases ok)
    case True
    show ?thesis by (rule step [OF _ 1]) (use wstep.rereg_answer [of "(idle w)\<lparr>ws := w1, rr := RrHold a\<rparr>" a ok] assms(3,4) True in simp)
  next
    case False
    then obtain v where v: "set_registered w2 a False = Inr v" "trigger_watch v a = Inr w3"
      using assms(4) by (auto simp: res_bind_Inr_iff)
    have "winv ((idle w)\<lparr>ws := v, rr := RrFailed a\<rparr>)"
      by (rule step [OF _ 1]) (use wstep.rereg_answer [of "(idle w)\<lparr>ws := w1, rr := RrHold a\<rparr>" a ok] assms(3) v False in simp)
    then show ?thesis
      by (rule step [rotated]) (use wstep.rereg_trigger [of "(idle w)\<lparr>ws := v, rr := RrFailed a\<rparr>" a] v in simp)
  qed
  then have "winv ((idle w)\<lparr>ws := w4, rr := RrIdle\<rparr>)"
    by (rule step [rotated]) (use wstep.rereg_put [of "(idle w)\<lparr>ws := w3, rr := RrPut a\<rparr>" a] assms(5) in simp)
  then show ?thesis by (simp add: idle_def)
qed

definition unsettled :: "(xenbus_watch_handler \<Rightarrow> bool) \<Rightarrow> watches \<Rightarrow> u64 set" where
  "unsettled P w = {a \<in> set (head_watch_handler w). \<exists>h. wh w a = Some h \<and> P h}"

lemma unsettled_bound: "finite (unsettled P w)" "card (unsettled P w) \<le> length (head_watch_handler w)"
proof -
  have "unsettled P w \<subseteq> set (head_watch_handler w)" by (auto simp: unsettled_def)
  then show "finite (unsettled P w)" "card (unsettled P w) \<le> length (head_watch_handler w)"
    using finite_subset card_mono card_length by (blast, meson List.finite_set le_trans)
qed

lemma unsettled_less:
  assumes "a \<in> set (head_watch_handler w)" and "wh w a = Some h" and "P h"
    and "head_watch_handler w' = head_watch_handler w" and "\<And>b. b \<noteq> a \<Longrightarrow> wh w' b = wh w b"
    and "wh w' a = Some k" and "\<not> P k"
  shows "card (unsettled P w') < card (unsettled P w)"
proof -
  have "b \<in> unsettled P w - {a}" if "b \<in> unsettled P w'" for b
  proof -
    have "b \<noteq> a" using that assms(6,7) by (auto simp: unsettled_def)
    then show ?thesis using that assms(4,5) by (simp add: unsettled_def)
  qed
  moreover have "a \<in> unsettled P w" using assms(1-3) by (simp add: unsettled_def)
  ultimately show ?thesis by (intro psubset_card_mono [OF unsettled_bound(1)]) blast
qed

text \<open>What the loop leaves of a handler: a refused one has been fired.\<close>

definition settled :: "watches \<Rightarrow> watches \<Rightarrow> u64 \<Rightarrow> bool" where
  "settled w w' a \<longleftrightarrow> (\<exists>h k. wh w a = Some h \<and> wh w' a = Some k \<and> path k = path h \<and>
     (if to_register h then currently_registered k \<noteq> faulty k \<and> (faulty k \<longrightarrow> queued k \<or> event_set k)
      else currently_registered k = currently_registered h \<and> faulty k = faulty h) \<and>
     (queued h \<longrightarrow> queued k) \<and> (event_set h \<longrightarrow> event_set k))"

lemma answered_other: "answered ok a w w1 \<Longrightarrow> b \<noteq> a \<Longrightarrow> wh w1 b = wh w b"
  by (simp add: answered_def)

lemma answered_at:
  assumes "answered ok a w w1" and "wh w a = Some h"
  obtains k where "wh w1 a = Some k" "currently_registered k = ok" "faulty k = (\<not> ok)" "path k = path h" "token k = token h"
    "xs_log w1 = xs_log w @ [XsWatch (path h) (token h) ok]" "queued h \<longrightarrow> queued k" "event_set h \<longrightarrow> event_set k"
    "\<not> ok \<longrightarrow> queued k \<or> event_set k"
proof -
  obtain k where "wh w1 a = Some k" "currently_registered k = ok" "faulty k = (\<not> ok)" "path k = path h" "token k = token h"
      "xs_log w1 = xs_log w @ [XsWatch (path h) (token h) ok]"
      "queued k = (queued h \<or> \<not> ok \<and> \<not> is_event_handler h)"
      "event_set k = (event_set h \<or> \<not> ok \<and> \<not> queued h \<and> is_event_handler h)"
    using assms(1) unfolding answered_def assms(2) option.inject by (elim conjE exE) blast
  then show ?thesis using that [of k] by blast
qed

lemma settled_trans:
  assumes "wh w b = Some h" "wh w1 b = Some k" "path k = path h" "\<not> to_register k"
    and "to_register h \<and> currently_registered k \<noteq> faulty k \<and> (faulty k \<longrightarrow> queued k \<or> event_set k)"
    and "queued h \<longrightarrow> queued k" "event_set h \<longrightarrow> event_set k"
    and "settled w1 w2 b"
  shows "settled w w2 b"
proof -
  obtain l where l: "wh w2 b = Some l" "path l = path k" "currently_registered l = currently_registered k" "faulty l = faulty k"
      "queued k \<longrightarrow> queued l" "event_set k \<longrightarrow> event_set l"
    using assms(2,4,8) by (auto simp: settled_def)
  show ?thesis unfolding settled_def using assms l by (intro exI [of _ h] exI [of _ l]) auto
qed

lemma answered_settled:
  assumes "answered ok a w w1" and "wh w a = Some h" and "to_register h" and "settled w1 w2 b"
  shows "settled w w2 b"
proof (cases "b = a")
  case True
  obtain k where k: "wh w1 a = Some k" "currently_registered k = ok" "faulty k = (\<not> ok)" "path k = path h" "queued h \<longrightarrow> queued k"
      "event_set h \<longrightarrow> event_set k" "\<not> ok \<longrightarrow> queued k \<or> event_set k"
    by (rule answered_at [OF assms(1,2)])
  show ?thesis
    by (rule settled_trans [where ?w1.0 = w1 and h = h and k = k]) (use True k assms(2-4) in \<open>auto simp: to_register_def\<close>)
next
  case False
  then show ?thesis using assms(4) answered_other [OF assms(1) False] by (simp add: settled_def)
qed

lemma answered_registered:
  assumes "winv (idle w)" and "answered ok a w w1" and "wh w a = Some h" and "to_register h"
    and "store_table (xs_log w) = registered w"
  shows "store_table (xs_log w1) = registered w1"
proof -
  obtain k where k: "wh w1 = (wh w)(a := Some k)" "currently_registered k = ok" "path k = path h" "token k = token h"
      "xs_log w1 = xs_log w @ [XsWatch (path h) (token h) ok]"
  proof (rule answered_at [OF assms(2,3)])
    fix k
    assume "wh w1 a = Some k" "currently_registered k = ok" "path k = path h" "token k = token h"
      "xs_log w1 = xs_log w @ [XsWatch (path h) (token h) ok]"
    moreover from this answered_other [OF assms(2)] have "wh w1 = (wh w)(a := Some k)" by (intro ext) simp
    ultimately show thesis using that by blast
  qed
  have "registered w1 = registered w - {(path h, token h)} \<union> (if ok then {(path h, token h)} else {})"
    using registered_set_wh [OF assms(1), of a h w1 "Some k"] assms(3) k(1-4) by simp
  moreover have "(path h, token h) \<notin> registered w"
    using not_registered [OF assms(1), of a h] assms(3,4) by (simp add: to_register_def)
  ultimately show ?thesis using k(5) assms(5) by auto
qed

lemma reregister_loop:
  assumes "table_ok w" and "card (unsettled to_register w) < fuel"
  shows "\<exists>w'. reregister_all_watches fuel answer w = Inr w' \<and> table_ok w' \<and>
    head_watch_handler w' = head_watch_handler w \<and> (\<forall>a\<in>set (head_watch_handler w). settled w w' a)"
  using assms
proof (induction fuel arbitrary: w)
  case (Suc fuel)
  have i: "winv (idle w)" "store_table (xs_log w) = registered w" using Suc(2) by (simp_all add: table_ok_def)
  obtain f where f: "scan_watches to_register w (head_watch_handler w) = Inr f"
    using scan_watches_ok [of "head_watch_handler w" w to_register] winv_live_list [OF i(1)] by auto
  show ?case
  proof (cases f)
    case None
    then have "settled w w a" if "a \<in> set (head_watch_handler w)" for a
      using scan_watches_None [of to_register w "head_watch_handler w" a] f that by (auto simp: settled_def)
    then show ?thesis using None f Suc(2) by (intro exI [of _ w]) (simp add: reregister_get_def)
  next
    case (Some a)
    then obtain h where a: "a \<in> set (head_watch_handler w)" "wh w a = Some h" "to_register h"
      using scan_watches_Some f by blast
    let ?ok = "answer fuel (path h)"
    obtain w1 h1 w2 w3 w4 where w: "get_watch_handler w a = Inr w1" "wh w1 a = Some h1" "path h1 = path h"
        "register_watch_handler w1 a ?ok = Inr w2"
        "(if ?ok then set_registered w2 a True else res_bind (set_registered w2 a False) (\<lambda>w. trigger_watch w a)) = Inr w3"
        "put_watch_handler w3 a = Inr w4" "answered ?ok a w w4"
      using reregister_turn [OF a(2,3), of ?ok] by blast
    have g: "reregister_get w = Inr (Some (a, w1))" using f Some w(1) by (simp add: reregister_get_def)
    have 4: "table_ok w4"
      using winv_reregister_turn [OF i(1) g w(4-6)] answered_registered [OF i(1) w(7) a(2,3) i(2)] by (simp add: table_ok_def)
    have hd: "head_watch_handler w4 = head_watch_handler w" using w(7) by (simp add: answered_def)
    obtain k where "wh w4 a = Some k" "currently_registered k = ?ok" "faulty k = (\<not> ?ok)" by (rule answered_at [OF w(7) a(2)])
    then have "card (unsettled to_register w4) < card (unsettled to_register w)"
      by (intro unsettled_less [where P = to_register, OF a hd] answered_other [OF w(7)]) (auto simp: to_register_def)
    then obtain w' where w': "reregister_all_watches fuel answer w4 = Inr w'" "table_ok w'"
        "head_watch_handler w' = head_watch_handler w4" "\<forall>b\<in>set (head_watch_handler w4). settled w4 w' b"
      using Suc(1) [OF 4] Suc(3) by auto
    have "reregister_all_watches (Suc fuel) answer w = Inr w'"
      using g w(2-6) w'(1) by simp
    then show ?thesis using w'(2-4) hd answered_settled [OF w(7) a(2,3)] by (intro exI [of _ w']) simp
  qed
qed simp

text \<open>C19: Registering watches again after a suspend ends, whatever xenstored answers: afterwards every watch that had
  to be registered is registered or marked faulty, and a faulty one has been fired so that its owner learns of it;
  all others are as they were.\<close>

theorem reregister_all_watches_settles:
  assumes "table_ok w" and "length (head_watch_handler w) < fuel"
  shows "\<exists>w'. reregister_all_watches fuel answer w = Inr w' \<and> table_ok w' \<and>
    head_watch_handler w' = head_watch_handler w \<and> (\<forall>a\<in>set (head_watch_handler w). settled w w' a)"
  by (rule reregister_loop) (use assms unsettled_bound(2) [of to_register w] in auto)

section \<open>The watches xenstored has\<close>

text \<open>Histories of a client: creating, redirecting and removing watches, events, the watch thread serving a watch,
  suspends and their late handler, coming back from S3.  Memory is allocated at free addresses, and a client passes only
  watches that it has.\<close>

datatype watch_op =
    OpCreate u64 "u8 list" bool bool
  | OpRedirect u64 "u8 list" bool bool "nat \<Rightarrow> u8 list \<Rightarrow> bool"
  | OpRemove u64
  | OpFire "u8 list"
  | OpServe
  | OpSuspend
  | OpLate "nat \<Rightarrow> u8 list \<Rightarrow> bool"
  | OpS3 "nat \<Rightarrow> u8 list \<Rightarrow> bool"

definition enough :: "watches \<Rightarrow> nat" where
  "enough w = Suc (length (head_watch_handler w))"

fun run_watch_op :: "watch_op \<Rightarrow> watches \<Rightarrow> watches res" where
  "run_watch_op (OpCreate a p ev ok) w =
     (if wh w a \<noteq> None then Inr w else res_bind (xenbus_watch_path False True True a p ev ok w) (\<lambda>(_, w). Inr w))"
| "run_watch_op (OpRedirect a p alloc ok answer) w =
     (if a \<notin> set (head_watch_handler w) then Inr w
      else res_bind (xenbus_redirect_watch alloc ok (enough w) answer w a p) (\<lambda>(_, w). Inr w))"
| "run_watch_op (OpRemove a) w = (if a \<notin> set (head_watch_handler w) then Inr w else xenbus_unregister_watch w a)"
| "run_watch_op (OpFire ident) w = fire_watch_by_ident False w ident"
| "run_watch_op OpServe w =
     res_bind (take_watch w) (\<lambda>f. case f of None \<Rightarrow> Inr w | Some (a, w) \<Rightarrow> put_watch_handler w a)"
| "run_watch_op OpSuspend w = Inr (reset_watches w)"
| "run_watch_op (OpLate answer) w = reregister_all_watches (enough w) answer w"
| "run_watch_op (OpS3 answer) w = xenbus_recover_from_s3 (enough w) answer w"

fun run_watch_ops :: "watch_op list \<Rightarrow> watches \<Rightarrow> watches res" where
  "run_watch_ops [] w = Inr w"
| "run_watch_ops (p # ps) w = res_bind (run_watch_op p w) (run_watch_ops ps)"

lemma idle_upd: "(idle w)\<lparr>ws := w', wt := WtWait, rr := RrIdle\<rparr> = idle w'" "(idle w)\<lparr>ws := w'\<rparr> = idle w'"
  "(idle w)\<lparr>ws := w', wt := WtWait\<rparr> = idle w'"
  by (simp_all add: idle_def)

lemma registered_same:
  assumes "\<And>a. map_option (\<lambda>h. (path h, token h, currently_registered h)) (wh w' a) =
    map_option (\<lambda>h. (path h, token h, currently_registered h)) (wh w a)"
  shows "registered w' = registered w"
proof -
  have "registered v = {(p, t). \<exists>a. map_option (\<lambda>h. (path h, token h, currently_registered h)) (wh v a) = Some (p, t, True)}" for v
    by (auto simp: registered_def)
  then show ?thesis by (simp only: assms)
qed

lemma trigger_registered:
  assumes "trigger_watch w a = Inr w'"
  shows "registered w' = registered w" "xs_log w' = xs_log w"
  using assms
  by (auto simp: trigger_watch_def get_watch_handler_def Let_def deref_wh_def split: option.splits if_splits intro!: registered_same)

lemma put_registered:
  assumes "put_watch_handler w a = Inr w'"
  shows "registered w' = registered w" "xs_log w' = xs_log w"
  using assms by (auto simp: put_watch_handler_def Let_def deref_wh_def split: option.splits intro!: registered_same)

lemma fire_table_ok:
  assumes "table_ok w"
  shows "\<exists>w'. fire_watch_by_ident False w ident = Inr w' \<and> table_ok w'"
proof -
  obtain s' where s': "res_bind (fire_watch_by_ident False w ident) (\<lambda>w'. Inr ((idle w)\<lparr>ws := w'\<rparr>)) = Inr s'" "winv s'"
    using winv_step [OF wstep.fire [of "idle w" ident]] assms by (auto simp: table_ok_def)
  then obtain w' where w': "fire_watch_by_ident False w ident = Inr w'" "winv (idle w')"
    by (auto simp: res_bind_Inr_iff idle_upd)
  then have "registered w' = registered w" "xs_log w' = xs_log w"
    by (auto simp: fire_watch_by_ident_def res_bind_Inr_iff split: option.splits dest: trigger_registered)
  then show ?thesis using w' assms by (simp add: table_ok_def)
qed

lemma serve_table_ok:
  assumes "table_ok w"
  shows "\<exists>w'. run_watch_op OpServe w = Inr w' \<and> table_ok w'"
proof (cases "pending_watches_list w")
  case Nil
  then show ?thesis using assms by (simp add: take_watch_def)
next
  case (Cons a as)
  have i: "winv (idle w)" using assms by (simp add: table_ok_def)
  obtain w1 where w1: "take_watch w = Inr (Some (a, w1))" "winv ((idle w)\<lparr>ws := w1, wt := WtRun a\<rparr>)"
    using winv_take [OF i, of a as] Cons by auto
  obtain w2 where w2: "put_watch_handler w1 a = Inr w2" "winv (idle w2)"
    by (rule winv_put [OF w1(2), of a WtWait RrIdle]) (simp_all add: idle_def)
  have "registered w1 = registered w \<and> xs_log w1 = xs_log w"
    using w1(1) Cons
    by (auto simp: take_watch_def xm_assert_def deref_wh_def split: option.splits if_splits intro!: registered_same)
  then show ?thesis using w1(1) w2 put_registered [OF w2(1)] assms by (simp add: table_ok_def)
qed

lemma suspend_table_ok:
  assumes "table_ok w"
  shows "table_ok (reset_watches w)"
proof -
  have i: "winv (idle w)" using assms by (simp add: table_ok_def)
  have "winv (idle (reset_watches w))"
    by (rule winv_idle_same_refs [OF i]) (auto simp: reset_watches_def same_refs_def split: option.splits)
  moreover have "registered (reset_watches w) = {}"
  proof -
    have "a \<in> set (head_watch_handler w)" if "wh w a = Some h" for a h
      using winv_at [OF i, of a] that by (simp add: handler_ok_def)
    then show ?thesis by (auto simp: registered_def reset_watches_def split: if_splits)
  qed
  ultimately show ?thesis by (simp add: table_ok_def reset_watches_def)
qed

lemma remove_ok:
  assumes "winv (idle w)" and "a \<in> set (head_watch_handler w)"
  shows "\<exists>w' h. wh w a = Some h \<and> xenbus_unregister_watch w a = Inr w' \<and> winv (idle w') \<and>
    xs_log w' = (if currently_registered h then xs_log w @ [XsUnwatch (path h) (token h)] else xs_log w) \<and>
    registered w' = registered w - {(path h, token h)}"
proof -
  obtain h where h: "wh w a = Some h" using winv_live [OF assms(1), of a] assms(2) by auto
  obtain w1 where w1: "unhook_watch w a = Inr w1" "winv ((idle w)\<lparr>ws := w1, wt := WtWait, unreg := (unreg (idle w))(a := UCheck)\<rparr>)"
    using winv_unhook [OF assms(1), of a WtWait] assms(2) by auto
  let ?s = "(idle w)\<lparr>ws := w1, wt := WtWait, unreg := (unreg (idle w))(a := UCheck)\<rparr>"
  obtain k where k: "wh w1 = (wh w)(a := Some k)" "path k = path h" "token k = token h"
      "currently_registered k = currently_registered h" "xs_log w1 = xs_log w"
  proof (cases "queued h")
    case True
    then show ?thesis using w1(1) h that by (auto simp: unhook_watch_def put_watch_handler_def Let_def)
  next
    case False
    moreover have "wh w = (wh w)(a := Some h)" using h by (simp add: fun_upd_idem)
    ultimately show ?thesis using w1(1) h that [of h] by (auto simp: unhook_watch_def Let_def)
  qed
  have a1: "a \<notin> set (pending_watches_list w1)"
    using w1(1) h winv_at [OF assms(1), of a] assms
    by (auto simp: unhook_watch_def put_watch_handler_def Let_def handler_ok_def winv_def split: if_splits)
  then have r: "refcount k = 0" using winv_at [OF w1(2), of a] k by (simp add: handler_ok_def)
  let ?l = "if currently_registered h then xs_log w @ [XsUnwatch (path h) (token h)] else xs_log w"
  let ?w = "w1\<lparr>xs_log := ?l, wh := (wh w1)(a := None)\<rparr>"
  have "xenbus_unregister_watch w a = Inr ?w"
    using w1(1) k r by (simp add: xenbus_unregister_watch_def unregister_watch_with_xenstored_def free_watch_def)
  moreover have "(\<lambda>_. UNone)(a := UCheck, a := UNone) = (\<lambda>_. UNone)" by (simp add: fun_eq_iff)
  then have "winv (idle ?w)"
    using winv_free [OF w1(2), of a k ?l] k r by (simp add: idle_def)
  moreover have "registered ?w = registered w - {(path h, token h)}"
    using registered_set_wh [OF assms(1), of a h ?w None] h k(1) by simp
  ultimately show ?thesis using h by (intro exI [of _ ?w] exI [of _ h]) simp
qed

lemma remove_table_ok:
  assumes "table_ok w" and "a \<in> set (head_watch_handler w)"
  shows "\<exists>w'. xenbus_unregister_watch w a = Inr w' \<and> table_ok w'"
proof -
  have i: "winv (idle w)" "store_table (xs_log w) = registered w" using assms(1) by (simp_all add: table_ok_def)
  obtain w' h where w': "wh w a = Some h" "xenbus_unregister_watch w a = Inr w'" "winv (idle w')"
      "xs_log w' = (if currently_registered h then xs_log w @ [XsUnwatch (path h) (token h)] else xs_log w)"
      "registered w' = registered w - {(path h, token h)}"
    using remove_ok [OF i(1) assms(2)] by blast
  then show ?thesis using i not_registered [OF i(1), of a h] by (auto simp: table_ok_def)
qed

lemma new_watch_ok:
  assumes "winv (idle w)" and "wh w a = None"
  shows "winv (idle (new_watch w a p ev))" "registered (new_watch w a p ev) = insert (p, token_of a) (registered w)"
proof -
  obtain s' where "Inr ((idle w)\<lparr>ws := new_watch w a p ev\<rparr>) = (Inr s' :: watch_race res)" "winv s'"
    using winv_step [OF wstep.create [of "idle w" a p ev] assms(1)] assms(2) by auto
  then show "winv (idle (new_watch w a p ev))" by (simp add: idle_upd)
  show "registered (new_watch w a p ev) = insert (p, token_of a) (registered w)"
  proof
    show "insert (p, token_of a) (registered w) \<subseteq> registered (new_watch w a p ev)"
    proof
      fix x
      assume "x \<in> insert (p, token_of a) (registered w)"
      then consider "x = (p, token_of a)" | b h where "x = (path h, token h)" "wh w b = Some h" "currently_registered h" "b \<noteq> a"
        using assms(2) unfolding registered_def by fastforce
      then show "x \<in> registered (new_watch w a p ev)"
        by cases (auto simp: registered_def new_watch_def)
    qed
  qed (auto simp: registered_def new_watch_def split: if_splits)
qed

lemma create_table_ok:
  assumes "table_ok w" and "wh w a = None"
  shows "\<exists>x w'. xenbus_watch_path False True True a p ev ok w = Inr (x, w') \<and> table_ok w'"
proof -
  have i: "winv (idle w)" "store_table (xs_log w) = registered w" using assms(1) by (simp_all add: table_ok_def)
  define n where "n = new_watch w a p ev"
  have n: "winv (idle n)" "registered n = insert (p, token_of a) (registered w)"
    using new_watch_ok [OF i(1) assms(2)] by (simp_all add: n_def)
  obtain h where h: "wh n a = Some h" "path h = p" "token h = token_of a" "currently_registered h" "a \<in> set (head_watch_handler n)"
      "xs_log n = xs_log w"
    by (simp add: n_def new_watch_def)
  show ?thesis
  proof (cases ok)
    case True
    then show ?thesis
      using n h i(2) by (auto simp: xenbus_watch_path_def register_watch_handler_def n_def [symmetric] table_ok_def)
  next
    case False
    let ?n = "set_wh (n\<lparr>xs_log := xs_log n @ [XsWatch p (token_of a) False]\<rparr>) a (h\<lparr>currently_registered := False\<rparr>)"
    have nn: "winv (idle ?n)"
      by (rule winv_idle_same_refs [OF n(1)]) (use h in \<open>auto simp: same_refs_def split: option.splits\<close>)
    have new: "(p, token_of a) \<notin> registered w"
      using assms(2) winv_token [OF i(1)] by (auto simp: registered_def token_of_inj)
    have "registered ?n = registered w"
      using registered_set_wh [OF n(1), of a h ?n "Some (h\<lparr>currently_registered := False\<rparr>)"] h n(2) new by simp
    then have "table_ok ?n" using nn h i(2) by (simp add: table_ok_def)
    then obtain w' where "xenbus_unregister_watch ?n a = Inr w'" "table_ok w'"
      using remove_table_ok [of ?n a] h by auto
    then show ?thesis
      using False h by (simp add: xenbus_watch_path_def register_watch_handler_def n_def [symmetric])
  qed
qed

lemma redirect_table_ok:
  assumes "table_ok w" and "a \<in> set (head_watch_handler w)"
  shows "\<exists>x w'. xenbus_redirect_watch alloc ok (enough w) answer w a p = Inr (x, w') \<and> table_ok w'"
proof -
  have i: "winv (idle w)" "store_table (xs_log w) = registered w" using assms(1) by (simp_all add: table_ok_def)
  obtain h where h: "wh w a = Some h" using winv_live [OF i(1), of a] assms(2) by auto
  let ?k = "h\<lparr>path := p, currently_registered := True\<rparr>"
  let ?n = "set_wh w a ?k"
  let ?l = "xs_log w @ [XsWatch p (token h) ok]"
  have n: "winv (idle ?n)" by (rule winv_idle_same_refs [OF i(1)]) (use h in \<open>auto simp: same_refs_def split: option.splits\<close>)
  have r: "registered ?n = registered w - {(path h, token h)} \<union> {(p, token h)}"
    using registered_set_wh [OF i(1), of a h ?n "Some ?k"] h by simp
  have un: "\<not> currently_registered h \<Longrightarrow> (path h, token h) \<notin> registered w" using not_registered [OF i(1), of a h] h by simp
  have restored: "set_wh (?n\<lparr>xs_log := ?l\<rparr>) a h = w\<lparr>xs_log := ?l\<rparr>" using h by (cases w) (simp add: set_wh_def fun_upd_idem)
  show ?thesis
  proof (cases "\<not> alloc \<or> path h = p")
    case True
    then show ?thesis using h assms(1) by (auto simp: xenbus_redirect_watch_def)
  next
    case False
    show ?thesis
    proof (cases ok)
      case True
      then show ?thesis
        using False h n r i un
        by (cases "currently_registered h")
          (auto simp: xenbus_redirect_watch_def register_watch_handler_def table_ok_def)
    next
      case nok: False
      have t: "table_ok (w\<lparr>xs_log := ?l\<rparr>)" using i nok by (simp add: table_ok_def)
      obtain w' where "reregister_all_watches (enough w) answer (w\<lparr>xs_log := ?l\<rparr>) = Inr w'" "table_ok w'"
        using reregister_loop [OF t, of "enough w" answer] unsettled_bound(2) [of to_register "w\<lparr>xs_log := ?l\<rparr>"]
        by (auto simp: enough_def less_Suc_eq_le)
      then show ?thesis
        using False h nok t restored by (simp add: xenbus_redirect_watch_def register_watch_handler_def Let_def)
    qed
  qed
qed

text \<open>Coming back from S3.\<close>

lemma recover_turn:
  assumes "winv (idle w)" and "a \<in> set (head_watch_handler w)" and "wh w a = Some h"
  obtains w1 w2 w3 h1 h2 k where "get_watch_handler w a = Inr w1" "deref_wh w1 a = Inr h1"
    "unregister_watch_with_xenstored (set_wh w1 a (h1\<lparr>needs_s3_recover := False\<rparr>)) a = Inr w2" "deref_wh w2 a = Inr h2"
    "put_watch_handler (set_wh w2 a (h2\<lparr>currently_registered := False\<rparr>)) a = Inr w3"
    "wh w3 = (wh w)(a := Some k)" "\<not> needs_s3_recover k" "\<not> currently_registered k" "winv (idle w3)"
    "head_watch_handler w3 = head_watch_handler w"
    "xs_log w3 = (if currently_registered h then xs_log w @ [XsUnwatch (path h) (token h)] else xs_log w)"
proof -
  let ?l = "if currently_registered h then xs_log w @ [XsUnwatch (path h) (token h)] else xs_log w"
  obtain w1 where w1: "get_watch_handler w a = Inr w1" "winv ((idle w)\<lparr>ws := w1, rr := RrHold a\<rparr>)"
    using winv_get [OF assms(1), of a] assms(2) by auto
  obtain h1 where h1: "w1 = set_wh w a h1" "path h1 = path h" "token h1 = token h" "currently_registered h1 = currently_registered h"
    using w1(1) assms(3) by (auto simp: get_watch_handler_def Let_def)
  let ?h1 = "h1\<lparr>needs_s3_recover := False\<rparr>" and ?h2 = "h1\<lparr>needs_s3_recover := False, currently_registered := False\<rparr>"
  let ?w2 = "(set_wh w1 a ?h1)\<lparr>xs_log := ?l\<rparr>"
  have "winv ((idle w)\<lparr>ws := w1, rr := RrHold a\<rparr>\<lparr>ws := set_wh ?w2 a ?h2, rr := RrHold a\<rparr>)"
    by (rule winv_same_refs [OF w1(2)]) (auto simp: h1(1) same_refs_def split: option.splits)
  then obtain w3 where w3: "put_watch_handler (set_wh ?w2 a ?h2) a = Inr w3" "winv (idle w3)"
    by (rule winv_put [where a = a and pw = WtWait and pr = RrIdle]) (auto simp: idle_def)
  have u: "unregister_watch_with_xenstored (set_wh w1 a ?h1) a = Inr ?w2"
    using h1 by (simp add: unregister_watch_with_xenstored_def set_wh_def)
  show thesis
    by (rule that [OF w1(1) _ u _ w3(1)])
      (use w3 h1 in \<open>auto simp: put_watch_handler_def Let_def\<close>)
qed

lemma recover_loop_ok:
  assumes "table_ok w" and "card (unsettled to_recover w) < fuel"
  shows "\<exists>w'. recover_loop fuel w = Inr w' \<and> table_ok w' \<and> head_watch_handler w' = head_watch_handler w"
  using assms
proof (induction fuel arbitrary: w)
  case (Suc fuel)
  have i: "winv (idle w)" "store_table (xs_log w) = registered w" using Suc(2) by (simp_all add: table_ok_def)
  obtain f where f: "scan_watches to_recover w (head_watch_handler w) = Inr f"
    using scan_watches_ok [of "head_watch_handler w" w to_recover] winv_live_list [OF i(1)] by auto
  show ?case
  proof (cases f)
    case None
    then show ?thesis using f Suc(2) by simp
  next
    case (Some a)
    then obtain h where a: "a \<in> set (head_watch_handler w)" "wh w a = Some h" "to_recover h"
      using scan_watches_Some f by blast
    obtain w1 w2 w3 h1 h2 k where w: "get_watch_handler w a = Inr w1" "deref_wh w1 a = Inr h1"
        "unregister_watch_with_xenstored (set_wh w1 a (h1\<lparr>needs_s3_recover := False\<rparr>)) a = Inr w2" "deref_wh w2 a = Inr h2"
        "put_watch_handler (set_wh w2 a (h2\<lparr>currently_registered := False\<rparr>)) a = Inr w3"
        "wh w3 = (wh w)(a := Some k)" "\<not> needs_s3_recover k" "\<not> currently_registered k" "winv (idle w3)"
        "head_watch_handler w3 = head_watch_handler w"
        "xs_log w3 = (if currently_registered h then xs_log w @ [XsUnwatch (path h) (token h)] else xs_log w)"
      by (rule recover_turn [OF i(1) a(1,2)])
    have "registered w3 = registered w - {(path h, token h)}"
      using registered_set_wh [OF i(1), of a h w3 "Some k"] a w(6,8) by simp
    then have 3: "table_ok w3"
      using not_registered [OF i(1), of a h] a w(9,11) i(2) by (auto simp: table_ok_def)
    have "card (unsettled to_recover w3) < card (unsettled to_recover w)"
      by (rule unsettled_less [where P = to_recover, OF a w(10)]) (use w(6,7) in \<open>auto simp: to_recover_def\<close>)
    then obtain w' where "recover_loop fuel w3 = Inr w'" "table_ok w'" "head_watch_handler w' = head_watch_handler w3"
      using Suc(1) [OF 3] Suc(3) by auto
    then show ?thesis using f Some w(1-5,10) by simp
  qed
qed simp

lemma mark_s3_ok:
  assumes "table_ok w"
  shows "table_ok (mark_s3 w)"
proof -
  have i: "winv (idle w)" "store_table (xs_log w) = registered w" using assms by (simp_all add: table_ok_def)
  have "winv (idle (mark_s3 w))"
    by (rule winv_idle_same_refs [OF i(1)]) (auto simp: mark_s3_def same_refs_def split: option.splits)
  moreover have "registered (mark_s3 w) = registered w"
    by (rule registered_same) (auto simp: mark_s3_def option.map_comp comp_def)
  ultimately show ?thesis using i(2) by (simp add: table_ok_def mark_s3_def)
qed

lemma s3_table_ok:
  assumes "table_ok w"
  shows "\<exists>w'. xenbus_recover_from_s3 (enough w) answer w = Inr w' \<and> table_ok w'"
proof -
  have hd: "head_watch_handler (mark_s3 w) = head_watch_handler w" by (simp add: mark_s3_def)
  obtain w1 where w1: "recover_loop (enough w) (mark_s3 w) = Inr w1" "table_ok w1" "head_watch_handler w1 = head_watch_handler w"
    using recover_loop_ok [OF mark_s3_ok [OF assms], of "enough w"] unsettled_bound(2) [of to_recover "mark_s3 w"] hd
    by (auto simp: enough_def less_Suc_eq_le)
  then show ?thesis
    using reregister_loop [OF w1(2), of "enough w" answer] unsettled_bound(2) [of to_register w1]
    by (auto simp: xenbus_recover_from_s3_def enough_def less_Suc_eq_le)
qed

lemma late_table_ok:
  assumes "table_ok w"
  shows "\<exists>w'. reregister_all_watches (enough w) answer w = Inr w' \<and> table_ok w'"
  using reregister_loop [OF assms, of "enough w" answer] unsettled_bound(2) [of to_register w]
  by (auto simp: enough_def less_Suc_eq_le)

lemma run_watch_op_ok: "table_ok w \<Longrightarrow> \<exists>w'. run_watch_op p w = Inr w' \<and> table_ok w'"
proof (cases p)
  case (OpCreate a q ev ok)
  assume "table_ok w"
  then show ?thesis using create_table_ok [of w a q ev ok] OpCreate by (cases "wh w a") auto
next
  case (OpRedirect a q alloc ok answer)
  assume "table_ok w"
  then show ?thesis using redirect_table_ok [of w a alloc ok answer q] OpRedirect by auto
qed (use remove_table_ok fire_table_ok serve_table_ok suspend_table_ok late_table_ok s3_table_ok in auto)

lemma run_watch_ops_ok: "table_ok w \<Longrightarrow> \<exists>w'. run_watch_ops ps w = Inr w' \<and> table_ok w'"
proof (induction ps arbitrary: w)
  case (Cons p ps)
  obtain w1 where "run_watch_op p w = Inr w1" "table_ok w1" using run_watch_op_ok [OF Cons(2)] by blast
  then show ?case using Cons(1) by simp
qed simp

lemma table_ok_init: "table_ok (ws watches_init)"
proof -
  have "idle (ws watches_init) = watches_init" by (simp add: idle_def watches_init_def)
  then show ?thesis using winv_init by (simp add: table_ok_def registered_def store_table_def) (simp add: watches_init_def store_table_def)
qed


text \<open>A watch that was refused after a suspend stays marked as faulty when its owner redirects it: xenstored accepts the
  new path, but after the next suspend the watch is not registered any more, whatever xenstored would answer.\<close>

theorem redirected_faulty_watch_lost:
  assumes "table_ok w" and "wh w a = Some h" and "faulty h" and "path h \<noteq> p"
  shows "\<exists>w1 w2 k1 k2. run_watch_ops [OpRedirect a p True True answer] w = Inr w1 \<and> wh w1 a = Some k1 \<and> path k1 = p \<and>
    currently_registered k1 \<and> run_watch_ops [OpSuspend, OpLate answer2] w1 = Inr w2 \<and> wh w2 a = Some k2 \<and>
    \<not> currently_registered k2"
proof -
  have i: "winv (idle w)" using assms(1) by (simp add: table_ok_def)
  have a: "a \<in> set (head_watch_handler w)" using winv_at [OF i, of a] assms(2) by (simp add: handler_ok_def)
  obtain w1 where w1: "run_watch_op (OpRedirect a p True True answer) w = Inr w1" "table_ok w1"
    using run_watch_op_ok [OF assms(1)] by blast
  have k1: "wh w1 a = Some (h\<lparr>path := p, currently_registered := True\<rparr>)" "head_watch_handler w1 = head_watch_handler w"
    using w1(1) a assms(2,4) by (auto simp: xenbus_redirect_watch_def register_watch_handler_def split: if_splits)
  let ?v = "reset_watches w1"
  have v: "table_ok ?v" "wh ?v a = Some (h\<lparr>path := p, currently_registered := False\<rparr>)" "head_watch_handler ?v = head_watch_handler w"
    using suspend_table_ok [OF w1(2)] k1 a by (simp_all add: reset_watches_def)
  obtain w2 where w2: "reregister_all_watches (enough ?v) answer2 ?v = Inr w2" "settled ?v w2 a"
    using reregister_loop [OF v(1), of "enough ?v" answer2] unsettled_bound(2) [of to_register ?v] a v(3)
    by (auto simp: enough_def less_Suc_eq_le)
  then obtain k2 where "wh w2 a = Some k2" "\<not> currently_registered k2"
    using v(2) assms(3) by (auto simp: settled_def to_register_def)
  then show ?thesis using w1(1) k1 w2(1) assms by simp
qed

section \<open>Instances\<close>

definition one_watch :: watches where
  "one_watch = new_watch (ws watches_init) 1 [97] False"

lemma one_watch_simps [simp]:
  "head_watch_handler one_watch = [1]" "pending_watches_list one_watch = []" "wh one_watch = [1 \<mapsto>
     \<lparr>path = [97], token = token_of 1, faulty = False, needs_s3_recover = False, currently_registered = True,
        refcount = 0, safe_to_release = False, is_event_handler = False, event_set = False, queued = False\<rparr>]"
  by (simp_all add: one_watch_def new_watch_def watches_init_def)

lemma one_watch_reach: "wreach watches_init (Inr (watches_init\<lparr>ws := one_watch\<rparr>))"
  using wreach.step [OF wreach.start wstep.create [of watches_init 1 "[97]" False]]
  by (simp add: one_watch_def) (simp add: watches_init_def)


theorem unregister_can_complete_witness:
  "\<exists>(s :: watch_race) s'. wreach watches_init (Inr s) \<and> unreg s 1 = UCheck \<and> wreach s (Inr s') \<and> wh (ws s') 1 = None"
proof -
  let ?s = "watches_init\<lparr>ws := one_watch\<lparr>head_watch_handler := []\<rparr>, unreg := (unreg watches_init)(1 := UCheck)\<rparr>"
  have r: "wreach watches_init (Inr ?s)"
    using wreach.step [OF one_watch_reach wstep.client_unregister [of 1]] by (simp add: unhook_watch_def Let_def)
  show ?thesis
    using unregister_can_complete [OF r, of 1] r by (force simp: watches_init_def)
qed

theorem callback_unregister_deadlocks_witness:
  "\<exists>(s :: watch_race). wreach watches_init (Inr s) \<and> wt s = WtUnreg 1 1 \<and> wh (ws s) 1 \<noteq> None"
proof -
  obtain w where w: "trigger_watch one_watch 1 = Inr w" "pending_watches_list w = [1]" "head_watch_handler w = [1]"
      "\<exists>h. wh w 1 = Some h \<and> queued h"
    by (simp add: trigger_watch_def get_watch_handler_def Let_def)
  have 1: "wreach watches_init (Inr (watches_init\<lparr>ws := w\<rparr>))"
    using wreach.step [OF one_watch_reach wstep.client_trigger [of 1]] w(1) by simp
  obtain v where v: "take_watch w = Inr (Some (1, v))" "head_watch_handler v = [1]" "\<exists>h. wh v 1 = Some h \<and> \<not> queued h"
    using w(2-4) by (auto simp: take_watch_def)
  have 2: "wreach watches_init (Inr (watches_init\<lparr>ws := v, wt := WtRun 1\<rparr>))"
    using wreach.step [OF 1 wstep.watch_take] w(2) v(1) by (simp add: watches_init_def)
  obtain u where u: "unhook_watch v 1 = Inr u" using v(3) by (auto simp: unhook_watch_def Let_def)
  have 3: "wreach watches_init (Inr (watches_init\<lparr>ws := u, wt := WtUnreg 1 1, unreg := (unreg watches_init)(1 := UCheck)\<rparr>))"
    using wreach.step [OF 2 wstep.watch_unregister [of _ 1 1]] v(2) u by simp
  show ?thesis using callback_unregister_deadlocks [OF 3 _ wreach.start] 3 by auto
qed

lemma one_watch_ok: "table_ok (one_watch\<lparr>xs_log := [XsWatch [97] (token_of 1) True]\<rparr>)"
proof -
  have "idle (ws watches_init) = watches_init" by (simp add: idle_def watches_init_def)
  then have "winv (idle one_watch)" using new_watch_ok(1) [of "ws watches_init" 1 "[97]" False] winv_init
    by (simp add: one_watch_def) (simp add: watches_init_def)
  moreover have "registered one_watch = {([97], token_of 1)}" by (auto simp: registered_def split: if_splits)
  ultimately show ?thesis by (simp add: table_ok_def store_table_def)
qed

theorem reregister_all_watches_settles_witness:
  "\<exists>(w :: watches) w'. reregister_all_watches 2 (\<lambda>_ _. False) w = Inr w' \<and> settled w w' 1 \<and> head_watch_handler w = [1] \<and> table_ok w'"
  using reregister_all_watches_settles [OF suspend_table_ok [OF one_watch_ok], of 2 "\<lambda>_ _. False"]
  by (force simp: reset_watches_def)

end
