(* ===== verification/XenbusRing.thy ===== *)
theory XenbusRing
  imports XenbusWatch
begin

text \<open>
  The transport of the xenstore client: \<^verbatim>\<open>src/xenhdrs/xs_wire.h\<close> and the requests, the transmission and the reception
  of \<^verbatim>\<open>src/xenutil/xenbus.c\<close>.

  \<^item> \<open>xenstore_domain_interface\<close> is the page shared with xenstored: two byte rings of 1024 bytes with free-running 32-bit
    indices.  \<open>xenbus_pending_req\<close> is a request; the pointer to the next segment to transmit is the list of the segments
    from there on.  \<open>xenbus\<close> has the globals of the file: the requests by address, the list of pending requests in
    order, the two requests in transmission and in reception.
  \<^item> The ring lock makes the operations atomic.  What xenstored does to the page between two of them are the
    operations \<open>daemon_take\<close> and \<open>daemon_put\<close>, which move xenstored's own two indices.
\<close>

section \<open>The shared page\<close>

abbreviation (input) XENSTORE_RING_SIZE :: nat where "XENSTORE_RING_SIZE \<equiv> 1024"
abbreviation (input) RING_SIZE_W :: u32 where "RING_SIZE_W \<equiv> 1024"

definition MASK_XENSTORE_IDX :: "u32 \<Rightarrow> nat" where
  "MASK_XENSTORE_IDX idx = unat (idx AND 0x3ff)"

record xenstore_domain_interface =
  req :: "u8 list"
  rsp :: "u8 list"
  req_cons :: u32
  req_prod :: u32
  rsp_cons :: u32
  rsp_prod :: u32

record xsd_sockmsg =
  msg_type :: u32
  req_id :: u32
  tx_id :: u32
  msg_len :: u32

abbreviation (input) XS_DIRECTORY :: u32 where "XS_DIRECTORY \<equiv> 1"
abbreviation (input) XS_READ :: u32 where "XS_READ \<equiv> 2"
abbreviation (input) XS_WATCH :: u32 where "XS_WATCH \<equiv> 4"
abbreviation (input) XS_UNWATCH :: u32 where "XS_UNWATCH \<equiv> 5"
abbreviation (input) XS_TRANSACTION_START :: u32 where "XS_TRANSACTION_START \<equiv> 6"
abbreviation (input) XS_TRANSACTION_END :: u32 where "XS_TRANSACTION_END \<equiv> 7"
abbreviation (input) XS_WRITE :: u32 where "XS_WRITE \<equiv> 11"
abbreviation (input) XS_RM :: u32 where "XS_RM \<equiv> 13"
abbreviation (input) XS_WATCH_EVENT :: u32 where "XS_WATCH_EVENT \<equiv> 15"
abbreviation (input) XS_ERROR :: u32 where "XS_ERROR \<equiv> 16"
abbreviation (input) XS_IS_DOMAIN_INTRODUCED :: u32 where "XS_IS_DOMAIN_INTRODUCED \<equiv> 17"

definition decode_sockmsg :: "u8 list \<Rightarrow> xsd_sockmsg" where
  "decode_sockmsg bs =
     \<lparr>msg_type = le_field bs 0 4, req_id = le_field bs 4 4, tx_id = le_field bs 8 4, msg_len = le_field bs 12 4\<rparr>"

definition encode_sockmsg :: "xsd_sockmsg \<Rightarrow> u8 list" where
  "encode_sockmsg m =
     le_bytes 4 (unat (msg_type m)) @ le_bytes 4 (unat (req_id m)) @ le_bytes 4 (unat (tx_id m)) @ le_bytes 4 (unat (msg_len m))"

text \<open>Copies into and out of a ring: \<open>soff\<close> is the offset of the source in its buffer, \<open>doff\<close> that of the destination.\<close>

definition memcpy_to_ring :: "u8 list \<Rightarrow> u8 list \<Rightarrow> nat \<Rightarrow> nat \<Rightarrow> nat \<Rightarrow> nat \<Rightarrow> u8 list res" where
  "memcpy_to_ring ring src soff n idx ring_size =
     xm_assert (idx < ring_size) (xm_assert (n \<le> ring_size)
       (let c1 = min n (ring_size - idx); c2 = n - c1
        in res_bind (memcpy ring idx src soff c1) (\<lambda>ring. memcpy ring 0 src (soff + c1) c2)))"

definition memcpy_from_ring :: "u8 list \<Rightarrow> u8 list \<Rightarrow> nat \<Rightarrow> nat \<Rightarrow> nat \<Rightarrow> nat \<Rightarrow> u8 list res" where
  "memcpy_from_ring ring dest doff n idx ring_size =
     xm_assert (n \<le> ring_size) (xm_assert (idx < ring_size)
       (let c1 = min n (ring_size - idx); c2 = n - c1
        in res_bind (memcpy dest doff ring idx c1) (\<lambda>dest. memcpy dest (doff + c1) ring 0 c2)))"

section \<open>Requests\<close>

record xenbus_pending_req =
  tx_io :: "u8 list list"
  next_tx_seg :: "u8 list list"
  tx_sg_off :: u32
  reply_header :: xsd_sockmsg
  reply_payload :: "u8 list option"
  reply_buf_size :: nat
  reply_payload_received :: nat
  xenbus_replied :: bool
  completion_event :: bool
  rid :: u32

record xenbus =
  reqs :: "nat \<Rightarrow> xenbus_pending_req option"
  pending_reqs :: "nat list"
  current_rx_req :: "nat option"
  current_tx_req :: "nat option"
  cons_response_discard_bytes :: u32
  shared_buf :: "xenstore_domain_interface option"
  xenbus_evtchn :: bool
  evtchn_raised :: bool
  remote_notified :: nat
  xenbus_outstanding_ctr :: int
  allow_new_xenbus_operation :: bool
  allow_xenbus_watch_operation :: bool
  AustereMode :: bool
  sequence_number :: u32
  xwatches :: watches

definition deref_req :: "xenbus \<Rightarrow> nat \<Rightarrow> xenbus_pending_req res" where
  "deref_req s r = (case reqs s r of None \<Rightarrow> Inl BadPointer | Some q \<Rightarrow> Inr q)"

definition set_req :: "xenbus \<Rightarrow> nat \<Rightarrow> xenbus_pending_req \<Rightarrow> xenbus" where
  "set_req s r q = s\<lparr>reqs := (reqs s)(r \<mapsto> q)\<rparr>"

text \<open>The header of a request and its segments: the header first, then the parts of the payload.\<close>

definition initialise_sg_list :: "u32 \<Rightarrow> u32 \<Rightarrow> u8 list list \<Rightarrow> xenbus \<Rightarrow> xsd_sockmsg \<times> u8 list list \<times> xenbus" where
  "initialise_sg_list type tid parts s =
     (let n = sequence_number s + 1;
          msg = \<lparr>msg_type = type, req_id = n, tx_id = tid, msg_len = of_nat (sum_list (map length parts))\<rparr>
      in (msg, encode_sockmsg msg # parts, s\<lparr>sequence_number := n\<rparr>))"

definition zero_sockmsg :: xsd_sockmsg where
  "zero_sockmsg = \<lparr>msg_type = 0, req_id = 0, tx_id = 0, msg_len = 0\<rparr>"

definition initialise_pending_req :: "xsd_sockmsg \<Rightarrow> u8 list list \<Rightarrow> xenbus_pending_req" where
  "initialise_pending_req hdr io =
     \<lparr>tx_io = io, next_tx_seg = io, tx_sg_off = 0, reply_header = zero_sockmsg, reply_payload = None, reply_buf_size = 0,
      reply_payload_received = 0, xenbus_replied = False, completion_event = False, rid = req_id hdr\<rparr>"

definition set_reply_buffer :: "nat \<Rightarrow> xenbus_pending_req \<Rightarrow> xenbus_pending_req res" where
  "set_reply_buffer n q =
     xm_assert (12 \<le> n) (Inr (q\<lparr>reply_payload := Some (replicate n 0), reply_buf_size := n\<rparr>))"

definition start_operation :: "xenbus \<Rightarrow> bool \<times> xenbus" where
  "start_operation s =
     (if allow_new_xenbus_operation s then (True, s\<lparr>xenbus_outstanding_ctr := xenbus_outstanding_ctr s + 1\<rparr>) else (False, s))"

definition end_operation :: "xenbus \<Rightarrow> xenbus" where
  "end_operation s = s\<lparr>xenbus_outstanding_ctr := xenbus_outstanding_ctr s - 1\<rparr>"

text \<open>The request at the address \<open>r\<close> is appended to the list; False is \<^verbatim>\<open>STATUS_DEVICE_NOT_READY\<close>.\<close>

definition submit_request :: "nat \<Rightarrow> xenbus_pending_req \<Rightarrow> xenbus \<Rightarrow> bool \<times> xenbus" where
  "submit_request r q s =
     (case start_operation s of
        (False, s) \<Rightarrow> (False, s)
      | (True, s) \<Rightarrow>
          (True, (set_req s r q)
             \<lparr>pending_reqs := pending_reqs s @ [r],
              current_tx_req := (case current_tx_req s of None \<Rightarrow> Some r | Some x \<Rightarrow> Some x),
              evtchn_raised := xenbus_evtchn s \<or> evtchn_raised s\<rparr>))"

definition find_pending_rx_req :: "xenbus \<Rightarrow> u32 \<Rightarrow> nat option" where
  "find_pending_rx_req s n = find (\<lambda>r. case reqs s r of None \<Rightarrow> False | Some q \<Rightarrow> rid q = n) (pending_reqs s)"

text \<open>The last part of \<^verbatim>\<open>get_request_results\<close>, once the reply has arrived: the request leaves the list.\<close>

definition retire_request :: "nat \<Rightarrow> xenbus \<Rightarrow> xenbus res" where
  "retire_request r s =
     (let s = s\<lparr>pending_reqs := remove1 r (pending_reqs s)\<rparr>
      in xm_assert (current_tx_req s \<noteq> Some r) (xm_assert (current_rx_req s \<noteq> Some r)
           (Inr (end_operation (s\<lparr>reqs := (reqs s)(r := None)\<rparr>)))))"

section \<open>Transmission\<close>

text \<open>The loop of \<^verbatim>\<open>advance_tx_req\<close> with its local variables: the remaining segments, the offset in the first, the
  producer index and the ring.\<close>

function tx_loop :: "u32 \<Rightarrow> u8 list list \<Rightarrow> u32 \<Rightarrow> u32 \<Rightarrow> u8 list \<Rightarrow> (u8 list list \<times> u32 \<times> u32 \<times> u8 list) res" where
  "tx_loop cons segs off prd ring =
     (case segs of
        [] \<Rightarrow> Inr (segs, off, prd, ring)
      | seg # rest \<Rightarrow>
          if prd = cons + RING_SIZE_W then Inr (segs, off, prd, ring)
          else
            let this_pass = of_nat (length seg) - off;
                this_pass = (if cons + RING_SIZE_W - prd < this_pass then cons + RING_SIZE_W - prd else this_pass)
            in res_bind (memcpy_to_ring ring seg (unat off) (unat this_pass) (MASK_XENSTORE_IDX prd) XENSTORE_RING_SIZE) (\<lambda>ring.
              if off + this_pass = of_nat (length seg) then tx_loop cons rest 0 (prd + this_pass) ring
              else tx_loop cons segs (off + this_pass) (prd + this_pass) ring))"
  by pat_completeness auto

termination
proof (relation "measures [\<lambda>(cons, segs, off, prd, ring). length segs, \<lambda>(cons, segs, off, prd, ring). unat (cons + RING_SIZE_W - prd)]",
    goal_cases)
  case (3 cons segs off prd ring seg rest x xa ring')
  let ?sp = "cons + 1024 - prd"
  have "xa \<noteq> 0"
  proof
    assume "xa = 0"
    then have "x = 0 \<or> ?sp = 0" using 3(4) by (auto split: if_splits)
    then show False using 3(2,3,6) \<open>xa = 0\<close> by auto
  qed
  moreover have "unat xa \<le> unat ?sp" using 3(4) by (auto simp: word_le_nat_alt word_less_nat_alt split: if_splits)
  moreover from calculation(1) have "0 < unat xa" by (simp add: unat_gt_0)
  ultimately have "unat (?sp - xa) < unat ?sp" by (simp add: unat_sub word_le_nat_alt)
  then show ?case using 3(1) by (simp add: algebra_simps)
qed auto

declare tx_loop.simps [simp del]

definition advance_tx_req :: "nat \<Rightarrow> xenbus \<Rightarrow> (bool \<times> xenbus) res" where
  "advance_tx_req r s =
     (case shared_buf s of
        None \<Rightarrow> Inl XmAssert
      | Some b \<Rightarrow>
          res_bind (deref_req s r) (\<lambda>q.
          res_bind (tx_loop (req_cons b) (next_tx_seg q) (tx_sg_off q) (req_prod b) (req b)) (\<lambda>(segs, off, prd, ring).
            Inr (prd \<noteq> req_prod b,
              (set_req s r (q\<lparr>next_tx_seg := segs, tx_sg_off := off\<rparr>))\<lparr>shared_buf := Some (b\<lparr>req := ring, req_prod := prd\<rparr>)\<rparr>))))"

fun next_req :: "nat \<Rightarrow> nat list \<Rightarrow> nat option" where
  "next_req r [] = None"
| "next_req r (x # xs) = (if x = r then (case xs of [] \<Rightarrow> None | y # _ \<Rightarrow> Some y) else next_req r xs)"

text \<open>One pass of the first loop of \<^verbatim>\<open>xenbus_dpc_func\<close>; False ends the loop.\<close>

definition tx_pass :: "xenbus \<Rightarrow> (bool \<times> xenbus) res" where
  "tx_pass s =
     (case current_tx_req s of
        None \<Rightarrow> Inr (False, s)
      | Some r \<Rightarrow>
          res_bind (advance_tx_req r s) (\<lambda>(progress, s).
            if \<not> progress then Inr (False, s)
            else res_bind (deref_req s r) (\<lambda>q.
              Inr (True, if next_tx_seg q = [] then s\<lparr>current_tx_req := next_req r (pending_reqs s)\<rparr> else s))))"

section \<open>Reception\<close>

definition ring_byte :: "u8 list \<Rightarrow> u32 \<Rightarrow> u8 res" where
  "ring_byte ring idx =
     (if MASK_XENSTORE_IDX idx < length ring then Inr (ring ! MASK_XENSTORE_IDX idx) else Inl BadPointer)"

text \<open>The two loops that look for the end of a string in a watch event.\<close>

function scan_nul :: "u8 list \<Rightarrow> u32 \<Rightarrow> u32 \<Rightarrow> u32 res" where
  "scan_nul ring pos message_end =
     res_bind (ring_byte ring pos) (\<lambda>c.
       if c \<noteq> 0 then if pos = message_end then Inr pos else scan_nul ring (pos + 1) message_end
       else Inr pos)"
  by pat_completeness auto

termination
proof (relation "measure (\<lambda>(ring, pos, e). unat (e - pos))", goal_cases)
  case (2 ring pos e c)
  then have "e - pos \<noteq> 0" by auto
  then have "unat (e - pos - 1) = unat (e - pos) - 1" "0 < unat (e - pos)" by (simp_all add: unat_minus_one unat_gt_0 del: eq_iff_diff_eq_0 right_minus_eq)
  then have "unat (e - pos - 1) < unat (e - pos)" by linarith
  then show ?case by (simp add: algebra_simps)
qed simp

declare scan_nul.simps [simp del]

text \<open>A watch event that is completely in the ring: \<open>e\<close> is the index behind it.\<close>

definition receive_watch_event :: "u32 \<Rightarrow> u32 \<Rightarrow> u8 list \<Rightarrow> xenbus \<Rightarrow> xenbus res" where
  "receive_watch_event cons e ring s =
     (if AustereMode s then Inr s
      else let path_start = cons + 16
        in res_bind (scan_nul ring path_start e) (\<lambda>path_end.
           xm_assert (path_end \<le> e)
             (if path_end = e then Inr s
              else res_bind (memcpy_from_ring ring (replicate 64 0) 0 (min (unat (path_end - path_start + 1)) 64)
                  (MASK_XENSTORE_IDX path_start) XENSTORE_RING_SIZE) (\<lambda>watch_path.
                let ident_start = path_end + 1
                in res_bind (scan_nul ring ident_start e) (\<lambda>ident_end.
                   xm_assert (ident_end \<le> e)
                     (res_bind (ring_byte ring ident_end) (\<lambda>c.
                        if ident_end = e \<and> c \<noteq> 0 then Inr s
                        else xm_assert (unat (ident_end - ident_start) < 17)
                          (res_bind (memcpy_from_ring ring (replicate 17 0) 0 (unat (ident_end - ident_start + 1))
                              (MASK_XENSTORE_IDX ident_start) XENSTORE_RING_SIZE) (\<lambda>watch_ident.
                            if allow_xenbus_watch_operation s
                            then res_bind (fire_watch_by_ident (AustereMode s) (xwatches s) (takeWhile (\<lambda>c. c \<noteq> 0) watch_ident))
                              (\<lambda>w. Inr (s\<lparr>xwatches := w\<rparr>))
                            else Inr s)))))))))"

text \<open>The header of a reply; \<open>alloc\<close>: memory for the payload can be allocated.\<close>

definition receive_header :: "bool \<Rightarrow> xsd_sockmsg \<Rightarrow> xenbus \<Rightarrow> xenbus res" where
  "receive_header alloc hdr s =
     xm_assert (msg_type hdr \<le> XS_IS_DOMAIN_INTRODUCED)
       (case find_pending_rx_req s (req_id hdr) of
          None \<Rightarrow> Inr (s\<lparr>cons_response_discard_bytes := msg_len hdr\<rparr>)
        | Some r \<Rightarrow>
            res_bind (deref_req s r) (\<lambda>q.
              let q = q\<lparr>reply_header := hdr, reply_payload_received := 0\<rparr>;
                  q = (if reply_payload q = None
                       then if alloc then q\<lparr>reply_payload := Some (replicate (unat (msg_len hdr)) 0), reply_buf_size := unat (msg_len hdr)\<rparr>
                         else q\<lparr>reply_buf_size := 0\<rparr>
                       else q)
              in Inr ((set_req s r q)\<lparr>current_rx_req := Some r\<rparr>)))"

text \<open>A part of the payload of the reply in reception; the result has the new consumer index.\<close>

definition receive_payload :: "nat \<Rightarrow> u32 \<Rightarrow> u32 \<Rightarrow> u8 list \<Rightarrow> xenbus \<Rightarrow> (u32 \<times> xenbus) res" where
  "receive_payload r cons avail ring s =
     res_bind (deref_req s r) (\<lambda>q.
       let bytes_rxed = of_nat (reply_payload_received q);
           left = msg_len (reply_header q) - bytes_rxed;
           avail = (if left < avail then left else avail)
       in res_bind
            (if unat bytes_rxed < reply_buf_size q
             then let n = min (unat avail) (reply_buf_size q - unat bytes_rxed)
               in (case reply_payload q of
                     None \<Rightarrow> Inl BadPointer
                   | Some p \<Rightarrow> res_bind (memcpy_from_ring ring p (unat bytes_rxed) n (MASK_XENSTORE_IDX cons) XENSTORE_RING_SIZE)
                       (\<lambda>p. Inr (Some p)))
             else Inr (reply_payload q))
            (\<lambda>p.
              let n = reply_payload_received q + unat avail; q = q\<lparr>reply_payload := p, reply_payload_received := n\<rparr>
              in xm_assert (n \<le> unat (msg_len (reply_header q)))
                   (Inr (cons + avail,
                      if n = unat (msg_len (reply_header q))
                      then (set_req s r (q\<lparr>xenbus_replied := True, completion_event := \<not> AustereMode s \<or> completion_event q\<rparr>))
                             \<lparr>current_rx_req := None\<rparr>
                      else set_req s r q))))"

text \<open>The new consumer index is stored last; the result tells whether it moved.\<close>

definition set_rsp_cons :: "u32 \<Rightarrow> xenstore_domain_interface \<Rightarrow> xenbus \<Rightarrow> bool \<times> xenbus" where
  "set_rsp_cons cons b s = (rsp_cons b \<noteq> cons, s\<lparr>shared_buf := Some (b\<lparr>rsp_cons := cons\<rparr>)\<rparr>)"

definition receive_from_xenstored :: "bool \<Rightarrow> xenbus \<Rightarrow> (bool \<times> xenbus) res" where
  "receive_from_xenstored alloc s =
     (case shared_buf s of
        None \<Rightarrow> Inl XmAssert
      | Some b \<Rightarrow>
          let cons = rsp_cons b; prd = rsp_prod b; bytes_avail = prd - cons; d = cons_response_discard_bytes s
          in if d \<noteq> 0 then
               (if bytes_avail < d
                then Inr (True, s\<lparr>shared_buf := Some (b\<lparr>rsp_cons := cons + bytes_avail\<rparr>), cons_response_discard_bytes := d - bytes_avail\<rparr>)
                else Inr (True, s\<lparr>shared_buf := Some (b\<lparr>rsp_cons := cons + d\<rparr>), cons_response_discard_bytes := 0\<rparr>))
             else (case current_rx_req s of
               Some r \<Rightarrow>
                 res_bind (receive_payload r cons bytes_avail (rsp b) s) (\<lambda>(cons, s). Inr (set_rsp_cons cons b s))
             | None \<Rightarrow>
                 if bytes_avail < 16 then Inr (False, s)
                 else res_bind (memcpy_from_ring (rsp b) (replicate 16 0) 0 16 (MASK_XENSTORE_IDX cons) XENSTORE_RING_SIZE) (\<lambda>bs.
                   let hdr = decode_sockmsg bs
                   in if msg_type hdr = XS_WATCH_EVENT then
                        if unat bytes_avail < 16 + unat (msg_len hdr) then Inr (False, s)
                        else let message_end = cons + 16 + msg_len hdr
                          in xm_assert (message_end \<le> prd)
                               (res_bind (receive_watch_event cons message_end (rsp b) s) (\<lambda>s. Inr (set_rsp_cons message_end b s)))
                      else res_bind (receive_header alloc hdr s) (\<lambda>s. Inr (set_rsp_cons (cons + 16) b s)))))"

section \<open>The DPC\<close>

text \<open>\<open>peer n\<close> is what xenstored has done to the page before pass \<open>n\<close>, \<open>alloc n\<close> whether memory is available in it.\<close>

definition touch :: "(nat \<Rightarrow> xenstore_domain_interface \<Rightarrow> xenstore_domain_interface) \<Rightarrow> nat \<Rightarrow> xenbus \<Rightarrow> xenbus" where
  "touch peer n s = s\<lparr>shared_buf := map_option (peer n) (shared_buf s)\<rparr>"

partial_function (option) tx_passes ::
  "(nat \<Rightarrow> xenstore_domain_interface \<Rightarrow> xenstore_domain_interface) \<Rightarrow> nat \<Rightarrow> bool \<Rightarrow> xenbus \<Rightarrow> (bool \<times> nat \<times> xenbus) res option" where
  "tx_passes peer n fire s =
     (case tx_pass (touch peer n s) of
        Inl e \<Rightarrow> Some (Inl e)
      | Inr (progress, s) \<Rightarrow> if progress then tx_passes peer (Suc n) True s else Some (Inr (fire, Suc n, s)))"

partial_function (option) rx_passes ::
  "(nat \<Rightarrow> xenstore_domain_interface \<Rightarrow> xenstore_domain_interface) \<Rightarrow> (nat \<Rightarrow> bool) \<Rightarrow> nat \<Rightarrow> bool \<Rightarrow> xenbus \<Rightarrow> (bool \<times> xenbus) res option" where
  "rx_passes peer alloc n fire s =
     (case receive_from_xenstored (alloc n) (touch peer n s) of
        Inl e \<Rightarrow> Some (Inl e)
      | Inr (progress, s) \<Rightarrow> if progress then rx_passes peer alloc (Suc n) True s else Some (Inr (fire, s)))"

definition xenbus_dpc_func ::
  "(nat \<Rightarrow> xenstore_domain_interface \<Rightarrow> xenstore_domain_interface) \<Rightarrow> (nat \<Rightarrow> bool) \<Rightarrow> xenbus \<Rightarrow> xenbus res option" where
  "xenbus_dpc_func peer alloc s =
     (if shared_buf s = None then Some (Inr s)
      else (case tx_passes peer 0 False s of
        None \<Rightarrow> None
      | Some (Inl e) \<Rightarrow> Some (Inl e)
      | Some (Inr (fire, n, s)) \<Rightarrow>
          (case rx_passes peer alloc n fire s of
             None \<Rightarrow> None
           | Some (Inl e) \<Rightarrow> Some (Inl e)
           | Some (Inr (fire, s)) \<Rightarrow>
               Some (Inr (if fire \<and> xenbus_evtchn s then s\<lparr>remote_notified := remote_notified s + 1\<rparr> else s)))))"

section \<open>Coming back from a suspend\<close>

definition reset_requests :: "xenbus \<Rightarrow> xenbus" where
  "reset_requests s =
     (let replied = (\<lambda>r. case reqs s r of None \<Rightarrow> False | Some q \<Rightarrow> xenbus_replied q);
          comp = filter replied (pending_reqs s); incomp = filter (\<lambda>r. \<not> replied r) (pending_reqs s)
      in s\<lparr>reqs := (\<lambda>r. if r \<in> set incomp then map_option (\<lambda>q. q\<lparr>next_tx_seg := tx_io q, tx_sg_off := 0\<rparr>) (reqs s r) else reqs s r),
           pending_reqs := comp @ incomp,
           current_tx_req := (case incomp of [] \<Rightarrow> None | r # _ \<Rightarrow> Some r),
           current_rx_req := None\<rparr>)"

section \<open>Bytes in a ring\<close>

text \<open>The \<open>n\<close> bytes of a ring from position \<open>p\<close> on.\<close>

definition ring_bytes :: "u8 list \<Rightarrow> nat \<Rightarrow> nat \<Rightarrow> u8 list" where
  "ring_bytes ring p n = map (\<lambda>i. ring ! ((p + i) mod XENSTORE_RING_SIZE)) [0..<n]"

lemma length_ring_bytes [simp]: "length (ring_bytes ring p n) = n"
  by (simp add: ring_bytes_def)

lemma nth_ring_bytes [simp]: "i < n \<Longrightarrow> ring_bytes ring p n ! i = ring ! ((p + i) mod 1024)"
  by (simp add: ring_bytes_def)

lemma ring_bytes_mod: "ring_bytes ring (p mod 1024) n = ring_bytes ring p n"
  by (simp add: ring_bytes_def mod_add_left_eq)

lemma ring_bytes_add: "ring_bytes ring p (m + n) = ring_bytes ring p m @ ring_bytes ring (p + m) n"
  by (rule nth_equalityI) (auto simp: nth_append add.assoc)

lemma take_ring_bytes: "take m (ring_bytes ring p n) = ring_bytes ring p (min m n)"
  by (rule nth_equalityI) auto

lemma drop_ring_bytes: "drop m (ring_bytes ring p n) = ring_bytes ring (p + m) (n - m)"
  by (rule nth_equalityI) (auto simp: add.assoc)

lemma ring_bytes_linear:
  assumes "length ring = 1024" and "p + n \<le> 1024"
  shows "ring_bytes ring p n = take n (drop p ring)"
  using assms by (intro nth_equalityI) auto

lemma ring_bytes_wrap:
  assumes "length ring = 1024" and "p < 1024" and "n \<le> 1024"
  shows "ring_bytes ring p n = take n (drop p ring) @ take (n - (1024 - p)) ring"
proof (cases "n \<le> 1024 - p")
  case True
  then show ?thesis using assms by (simp add: ring_bytes_linear)
next
  case False
  then have "ring_bytes ring p n = ring_bytes ring p (1024 - p) @ ring_bytes ring (p + (1024 - p)) (n - (1024 - p))"
    using ring_bytes_add [of ring p "1024 - p" "n - (1024 - p)"] by simp
  also have "ring_bytes ring (p + (1024 - p)) (n - (1024 - p)) = ring_bytes ring 0 (n - (1024 - p))"
    using assms(2) ring_bytes_mod [of ring 1024] by simp
  finally show ?thesis using assms False by (simp add: ring_bytes_linear)
qed

lemma memcpy_from_ring_ok:
  assumes "length ring = 1024" and "p < 1024" and "n \<le> 1024" and "d + n \<le> length dest"
  shows "memcpy_from_ring ring dest d n p 1024 = Inr (take d dest @ ring_bytes ring p n @ drop (d + n) dest)"
proof (cases "n \<le> 1024 - p")
  case True
  then show ?thesis using assms by (simp add: memcpy_from_ring_def memcpy_def Let_def ring_bytes_linear)
next
  case False
  then show ?thesis
    using assms by (simp add: memcpy_from_ring_def memcpy_def Let_def ring_bytes_wrap min_def) (auto simp: add.commute)
qed

text \<open>Writing: the bytes from the position on are the new ones, the others stay.\<close>

definition ring_write :: "u8 list \<Rightarrow> nat \<Rightarrow> u8 list \<Rightarrow> u8 list" where
  "ring_write ring p xs =
     (let c = min (length xs) (1024 - p); r = take p ring @ take c xs @ drop (p + c) ring
      in drop c xs @ drop (length xs - c) r)"

lemma memcpy_to_ring_ok:
  assumes "length ring = 1024" and "p < 1024" and "n \<le> 1024" and "so + n \<le> length src"
  shows "memcpy_to_ring ring src so n p 1024 = Inr (ring_write ring p (take n (drop so src)))"
proof -
  define c where "c = min n (1024 - p)"
  define r where "r = take p ring @ take c (drop so src) @ drop (p + c) ring"
  have c: "c \<le> n" "p + c \<le> 1024" "n - c \<le> 1024" using assms(2,3) by (auto simp: c_def)
  have r: "length r = 1024" using assms c by (simp add: r_def)
  have "memcpy ring p src so c = Inr r" using assms c by (simp add: memcpy_def r_def)
  moreover have "memcpy r 0 src (so + c) (n - c) = Inr (take (n - c) (drop (so + c) src) @ drop (n - c) r)"
    using assms c r by (simp add: memcpy_def)
  ultimately have "memcpy_to_ring ring src so n p 1024 = Inr (take (n - c) (drop (so + c) src) @ drop (n - c) r)"
    using assms(2,3) by (simp add: memcpy_to_ring_def Let_def c_def [symmetric])
  moreover have "take (n - c) (drop (so + c) src) = drop c (take n (drop so src))" by (simp add: drop_take add.commute)
  moreover have "take c (drop so src) = take c (take n (drop so src))" using c by (simp add: min_def)
  ultimately show ?thesis using assms(4) by (simp add: ring_write_def Let_def c_def r_def)
qed

lemma length_ring_write [simp]: "length ring = 1024 \<Longrightarrow> p < 1024 \<Longrightarrow> length xs \<le> 1024 \<Longrightarrow> length (ring_write ring p xs) = 1024"
  by (simp add: ring_write_def Let_def)

lemma nth_ring_write:
  assumes "length ring = 1024" and "p < 1024" and "length xs \<le> 1024" and "j < 1024"
  shows "ring_write ring p xs ! j =
    (if p \<le> j \<and> j < p + length xs then xs ! (j - p) else if j + 1024 < p + length xs then xs ! (j + 1024 - p) else ring ! j)"
  using assms by (auto simp: ring_write_def Let_def nth_append min_def) (simp_all add: add.commute)

lemma mod_1024: "x < 2048 \<Longrightarrow> x mod 1024 = (if x < 1024 then x else x - 1024)" for x :: nat
  by (auto simp: mod_if)

lemma ring_bytes_write_small:
  assumes "length ring = 1024" and "m + length xs \<le> 1024" and "p < 1024"
  shows "ring_bytes (ring_write ring ((p + m) mod 1024) xs) p (m + length xs) = ring_bytes ring p m @ xs"
proof (rule nth_equalityI)
  fix i
  assume "i < length (ring_bytes (ring_write ring ((p + m) mod 1024) xs) p (m + length xs))"
  then have i: "i < m + length xs" by simp
  have *: "(p + i) mod 1024 = (if p + i < 1024 then p + i else p + i - 1024)"
    "(p + m) mod 1024 = (if p + m < 1024 then p + m else p + m - 1024)"
    using i assms(2,3) by (intro mod_1024; linarith)+
  have "(p + i) mod 1024 < 1024" "(p + m) mod 1024 < 1024" by simp_all
  then have "ring_write ring ((p + m) mod 1024) xs ! ((p + i) mod 1024) = (if i < m then ring ! ((p + i) mod 1024) else xs ! (i - m))"
    using assms i unfolding * by (auto simp: nth_ring_write intro!: arg_cong [of _ _ "(!) xs"])
  then show "ring_bytes (ring_write ring ((p + m) mod 1024) xs) p (m + length xs) ! i = (ring_bytes ring p m @ xs) ! i"
    using i by (simp add: nth_append)
qed simp

lemma ring_bytes_write:
  assumes "length ring = 1024" and "m + length xs \<le> 1024"
  shows "ring_bytes (ring_write ring ((p + m) mod 1024) xs) p (m + length xs) = ring_bytes ring p m @ xs"
  using ring_bytes_write_small [OF assms, of "p mod 1024"] by (simp add: ring_bytes_mod mod_add_left_eq)

section \<open>Indices\<close>

text \<open>The number of bytes between two indices.\<close>

definition span :: "u32 \<Rightarrow> u32 \<Rightarrow> nat" where
  "span cons prd = unat (prd - cons)"

lemma unat_mask: "MASK_XENSTORE_IDX x = unat x mod 1024"
  using unat_and_mask [of x 10] by (simp add: MASK_XENSTORE_IDX_def mask_eq_exp_minus_1)

lemma span_space: "span cons prd \<le> 1024 \<Longrightarrow> unat (cons + 1024 - prd) = 1024 - span cons prd"
proof -
  assume "span cons prd \<le> 1024"
  then have "prd - cons \<le> 1024" by (simp add: span_def word_le_nat_alt)
  then have "unat (1024 - (prd - cons)) = 1024 - unat (prd - cons)" by (simp add: unat_sub)
  then show ?thesis by (simp add: span_def algebra_simps)
qed

lemma span_full: "span cons prd \<le> 1024 \<Longrightarrow> prd = cons + 1024 \<longleftrightarrow> span cons prd = 1024"
proof -
  have "prd = cons + 1024 \<longleftrightarrow> prd - cons = 1024" by (auto simp: algebra_simps)
  also have "\<dots> \<longleftrightarrow> span cons prd = 1024" by (simp add: span_def word_eq_unat)
  finally show "prd = cons + 1024 \<longleftrightarrow> span cons prd = 1024" .
qed

lemma span_add_prod: "span cons prd + unat t < 2 ^ 32 \<Longrightarrow> span cons (prd + t) = span cons prd + unat t"
proof -
  assume "span cons prd + unat t < 2 ^ 32"
  then have "unat ((prd - cons) + t) = unat (prd - cons) + unat t" by (simp add: span_def unat_add_lem [symmetric])
  then show ?thesis by (simp add: span_def algebra_simps)
qed

lemma span_add_cons: "unat t \<le> span cons prd \<Longrightarrow> span (cons + t) prd = span cons prd - unat t"
proof -
  assume "unat t \<le> span cons prd"
  then have "unat ((prd - cons) - t) = unat (prd - cons) - unat t" by (simp add: span_def unat_sub word_le_nat_alt)
  then show ?thesis by (simp add: span_def algebra_simps)
qed

lemma index_mod: "unat (a + b) mod 1024 = (unat a + unat b) mod 1024" for a b :: u32
  using unat_add_mod_pow [of 10 a b] by simp

lemma mask_prod: "MASK_XENSTORE_IDX prd = (unat cons + span cons prd) mod 1024"
  using index_mod [of cons "prd - cons"] by (simp add: unat_mask span_def)

section \<open>What is transmitted\<close>

definition unsent :: "u8 list list \<Rightarrow> u32 \<Rightarrow> u8 list" where
  "unsent segs off = drop (unat off) (concat segs)"

definition segs_ok :: "u8 list list \<Rightarrow> u32 \<Rightarrow> bool" where
  "segs_ok segs off \<longleftrightarrow> (\<forall>seg\<in>set segs. length seg < 2 ^ 32) \<and> 
     (case segs of [] \<Rightarrow> off = 0 | seg # _ \<Rightarrow> off = 0 \<or> unat off < length seg)"

lemma unsent_Nil [simp]: "unsent [] off = []"
  by (simp add: unsent_def)

lemma tx_loop_ok:
  assumes "length ring = 1024" and "segs_ok segs off" and "span cons prd \<le> 1024"
  shows "\<exists>segs' off' prd' ring' k. tx_loop cons segs off prd ring = Inr (segs', off', prd', ring') \<and> length ring' = 1024 \<and>
    segs_ok segs' off' \<and> k = min (length (unsent segs off)) (1024 - span cons prd) \<and> span cons prd' = span cons prd + k \<and>
    ring_bytes ring' (unat cons) (span cons prd + k) = ring_bytes ring (unat cons) (span cons prd) @ take k (unsent segs off) \<and>
    unsent segs' off' = drop k (unsent segs off) \<and> (span cons prd' < 1024 \<longrightarrow> segs' = [])"
  using assms
proof (induction cons segs off prd ring rule: tx_loop.induct)
  case (1 cons segs off prd ring)
  show ?case
  proof (cases segs)
    case Nil
    then show ?thesis using 1(3-) by (simp add: tx_loop.simps)
  next
    case (Cons seg rest)
    show ?thesis
    proof (cases "prd = cons + 1024")
      case True
      then have "span cons prd = 1024" using span_full [OF 1(5)] by simp
      then show ?thesis using Cons True 1(3-) by (simp add: tx_loop.simps)
    next
      case False
      let ?m = "span cons prd" and ?sp = "cons + 1024 - prd"
      let ?x = "of_nat (length seg) - off :: u32"
      define t where "t = (if ?sp < ?x then ?sp else ?x)"
      have m: "?m < 1024" using False span_full [OF 1(5)] 1(5) by linarith
      have len: "length seg < 2 ^ 32" "unat off \<le> length seg" using 1(4) Cons by (auto simp: segs_ok_def)
      have ulen: "unat (of_nat (length seg) :: u32) = length seg" using len(1) by (simp add: unat_of_nat_lt)
      have x: "unat ?x = length seg - unat off" using len ulen by (simp add: unat_sub word_le_nat_alt)
      have sp: "unat ?sp = 1024 - ?m" by (rule span_space [OF 1(5)])
      have t: "unat t = min (length seg - unat off) (1024 - ?m)"
        using x sp by (auto simp: t_def word_less_nat_alt min_def)
      let ?xs = "take (unat t) (drop (unat off) seg)"
      let ?ring = "ring_write ring ((unat cons + ?m) mod 1024) ?xs"
      have lxs: "length ?xs = unat t" using t by simp
      have c: "memcpy_to_ring ring seg (unat off) (unat t) (MASK_XENSTORE_IDX prd) 1024 = Inr ?ring"
        using memcpy_to_ring_ok [OF 1(3), of "(unat cons + ?m) mod 1024" "unat t" "unat off" seg] t len
        by (simp add: mask_prod [of prd cons])
      have lr: "length ?ring = 1024" using 1(3) lxs t by simp
      have sp2: "span cons (prd + t) = ?m + unat t" using span_add_prod [of cons prd t] t m by simp
      have rb: "ring_bytes ?ring (unat cons) (?m + unat t) = ring_bytes ring (unat cons) ?m @ ?xs"
      proof -
        have "?m + length ?xs \<le> 1024" using lxs t m by linarith
        then show ?thesis using ring_bytes_write [OF 1(3), of ?m ?xs "unat cons"] unfolding lxs by simp
      qed
      have "unat off + unat t < 2 ^ LENGTH(32)" using t len by simp
      then have off: "unat (off + t) = unat off + unat t" by (simp only: unat_add_lem)
      have fin: "off + t = of_nat (length seg) \<longleftrightarrow> unat t = length seg - unat off"
        using off ulen len by (auto simp: word_eq_unat)
      have un: "unsent segs off = drop (unat off) seg @ concat rest" using Cons len by (simp add: unsent_def)
      show ?thesis
      proof (cases "off + t = of_nat (length seg)")
        case True
        have ok: "segs_ok rest 0" using 1(4) Cons by (simp add: segs_ok_def split: list.splits)
        have tt: "unat t = length seg - unat off" using True fin by simp
        have xs: "?xs = drop (unat off) seg" using tt by simp
        have sp3: "span cons (prd + t) \<le> 1024" using sp2 t m by linarith
        have eq: "tx_loop cons segs off prd ring = tx_loop cons rest 0 (prd + t) ?ring"
          using Cons False True c by (subst tx_loop.simps) (simp add: Let_def t_def [symmetric])
        obtain segs' off' prd' ring' k where ih: "tx_loop cons rest 0 (prd + t) ?ring = Inr (segs', off', prd', ring')"
            "length ring' = 1024" "segs_ok segs' off'" "k = min (length (unsent rest 0)) (1024 - span cons (prd + t))"
            "span cons prd' = span cons (prd + t) + k"
            "ring_bytes ring' (unat cons) (span cons (prd + t) + k) = ring_bytes ?ring (unat cons) (span cons (prd + t)) @ take k (unsent rest 0)"
            "unsent segs' off' = drop k (unsent rest 0)" "span cons prd' < 1024 \<longrightarrow> segs' = []"
          using 1(1) [OF Cons False refl t_def c True lr ok sp3] by (elim exE conjE) (rule that)
        have u0: "unsent rest 0 = concat rest" by (simp add: unsent_def)
        have "length (unsent segs off) = unat t + length (concat rest)" using un tt by simp
        moreover have "k = min (length (concat rest)) (1024 - (?m + unat t))" using ih(4) u0 sp2 by simp
        moreover have "unat t \<le> 1024 - ?m" using t by simp
        ultimately have k: "unat t + k = min (length (unsent segs off)) (1024 - ?m)" by linarith
        have "ring_bytes ring' (unat cons) (?m + (unat t + k)) = ring_bytes ring (unat cons) ?m @ take (unat t + k) (unsent segs off)"
          using ih(6) rb xs un u0 tt unfolding sp2 by (simp add: add.assoc)
        moreover have "unsent segs' off' = drop (unat t + k) (unsent segs off)" using ih(7) un u0 tt by simp
        ultimately show ?thesis
          using eq ih(1-3,5,8) k sp2 by (intro exI [of _ segs'] exI [of _ off'] exI [of _ prd'] exI [of _ ring'] exI [of _ "unat t + k"]) simp
      next
        case nf: False
        have tt: "unat t = 1024 - ?m" "1024 - ?m < length seg - unat off" using nf fin t by auto
        have full: "prd + t = cons + 1024" using span_full [of cons "prd + t"] sp2 tt m by simp
        have eq: "tx_loop cons segs off prd ring = Inr (segs, off + t, prd + t, ?ring)"
          using Cons False nf c full by (subst tx_loop.simps, subst tx_loop.simps) (simp add: Let_def t_def [symmetric])
        have "unat (off + t) < length seg" using off tt by linarith
        then have "segs_ok segs (off + t)" using 1(4) Cons by (simp add: segs_ok_def)
        moreover have "unsent segs (off + t) = drop (unat t) (unsent segs off)" by (simp add: unsent_def off add.commute)
        moreover have "unat t = min (length (unsent segs off)) (1024 - ?m)" using un tt by simp
        moreover have "?xs = take (unat t) (unsent segs off)" using un tt by simp
        ultimately show ?thesis using eq lr sp2 rb tt m by auto
      qed
    qed
  qed
qed

lemma tx_loop_suffix: "tx_loop cons segs off prd ring = Inr (segs', off', prd', ring') \<Longrightarrow> \<exists>pre. segs = pre @ segs'"
proof (induction cons segs off prd ring rule: tx_loop.induct)
  case (1 cons segs off prd ring)
  show ?case
  proof (cases segs)
    case Nil
    then show ?thesis using 1(3) by (simp add: tx_loop.simps)
  next
    case (Cons seg rest)
    show ?thesis
    proof (cases "prd = cons + 1024")
      case True
      then show ?thesis using Cons 1(3) by (simp add: tx_loop.simps)
    next
      case False
      define t where "t = (if cons + 1024 - prd < of_nat (length seg) - off then cons + 1024 - prd else of_nat (length seg) - off)"
      have e: "tx_loop cons segs off prd ring =
          res_bind (memcpy_to_ring ring seg (unat off) (unat t) (MASK_XENSTORE_IDX prd) 1024) (\<lambda>ring.
            if off + t = of_nat (length seg) then tx_loop cons rest 0 (prd + t) ring
            else tx_loop cons segs (off + t) (prd + t) ring)"
        using Cons False by (subst tx_loop.simps) (simp only: Let_def t_def list.case if_False)
      obtain ring1 where r: "memcpy_to_ring ring seg (unat off) (unat t) (MASK_XENSTORE_IDX prd) 1024 = Inr ring1"
          "(if off + t = of_nat (length seg) then tx_loop cons rest 0 (prd + t) ring1
            else tx_loop cons segs (off + t) (prd + t) ring1) = Inr (segs', off', prd', ring')"
        using trans [OF e [symmetric] 1(3)] unfolding res_bind_Inr_iff by (elim exE conjE) (rule that)
      show ?thesis
      proof (cases "off + t = of_nat (length seg)")
        case True
        then show ?thesis using 1(1) [OF Cons False refl t_def r(1) True] r(2) Cons by auto
      next
        case nf: False
        then show ?thesis using 1(2) [OF Cons False refl t_def r(1) nf] r(2) by simp
      qed
    qed
  qed
qed

text \<open>A list of segments that does not end in an empty one: while segments are left, there is something to send.\<close>

definition ends_ok :: "u8 list list \<Rightarrow> bool" where
  "ends_ok segs \<longleftrightarrow> (segs = [] \<or> last segs \<noteq> [])"

lemma ends_ok_suffix: "ends_ok (pre @ segs) \<Longrightarrow> ends_ok segs"
  by (auto simp: ends_ok_def)

lemma unsent_empty:
  assumes "segs_ok segs off" and "ends_ok segs"
  shows "unsent segs off = [] \<longleftrightarrow> segs = []"
proof (cases segs)
  case (Cons seg rest)
  have "length (concat segs) = length seg + length (concat rest)" using Cons by simp
  moreover have "0 < length (concat rest)" if "rest \<noteq> []"
    using that assms(2) Cons last_in_set [OF that] by (auto simp: ends_ok_def)
  moreover have "seg \<noteq> []" if "rest = []" using that assms(2) Cons by (simp add: ends_ok_def)
  ultimately have "unat off < length (concat segs)" using assms(1) Cons by (cases "rest = []") (auto simp: segs_ok_def)
  then have "drop (unat off) (concat segs) \<noteq> []" by (simp del: concat.simps)
  then show ?thesis using Cons by (simp add: unsent_def del: concat.simps)
qed simp

section \<open>The stream of requests\<close>

definition todo :: "xenbus \<Rightarrow> nat list" where
  "todo s = (case current_tx_req s of None \<Rightarrow> [] | Some r \<Rightarrow> dropWhile (\<lambda>x. x \<noteq> r) (pending_reqs s))"

definition req_unsent :: "xenbus \<Rightarrow> nat \<Rightarrow> u8 list" where
  "req_unsent s r = (case reqs s r of None \<Rightarrow> [] | Some q \<Rightarrow> unsent (next_tx_seg q) (tx_sg_off q))"

definition todo_bytes :: "xenbus \<Rightarrow> u8 list" where
  "todo_bytes s = concat (map (req_unsent s) (todo s))"

definition ring_req :: "xenbus \<Rightarrow> u8 list" where
  "ring_req s = (case shared_buf s of
     None \<Rightarrow> [] | Some b \<Rightarrow> ring_bytes (req b) (unat (req_cons b)) (span (req_cons b) (req_prod b)))"

definition page_ok :: "xenstore_domain_interface \<Rightarrow> bool" where
  "page_ok b \<longleftrightarrow> length (req b) = 1024 \<and> length (rsp b) = 1024 \<and> span (req_cons b) (req_prod b) \<le> 1024 \<and>
     span (rsp_cons b) (rsp_prod b) \<le> 1024"

definition req_ok :: "xenbus_pending_req \<Rightarrow> bool" where
  "req_ok q \<longleftrightarrow> segs_ok (next_tx_seg q) (tx_sg_off q) \<and> ends_ok (next_tx_seg q)"

definition tx_inv :: "xenbus \<Rightarrow> bool" where
  "tx_inv s \<longleftrightarrow> (\<exists>b. shared_buf s = Some b \<and> page_ok b) \<and> distinct (pending_reqs s) \<and>
     (\<forall>r. reqs s r \<noteq> None \<longleftrightarrow> r \<in> set (pending_reqs s)) \<and>
     (\<forall>r. current_tx_req s = Some r \<longrightarrow> r \<in> set (pending_reqs s)) \<and>
     (\<forall>r q. reqs s r = Some q \<longrightarrow> req_ok q \<and> (next_tx_seg q = [] \<longleftrightarrow> r \<notin> set (todo s)))"

lemma tx_inv_reqs:
  assumes "tx_inv s"
  shows "r \<in> set (pending_reqs s) \<Longrightarrow> \<exists>q. reqs s r = Some q" "reqs s r = Some q \<Longrightarrow> r \<in> set (pending_reqs s)"
    "reqs s r = Some q \<Longrightarrow> req_ok q" "reqs s r = Some q \<Longrightarrow> next_tx_seg q = [] \<longleftrightarrow> r \<notin> set (todo s)"
  using assms unfolding tx_inv_def by (blast, metis option.distinct(1), blast, blast)

lemma dropWhile_neq: "r \<in> set xs \<Longrightarrow> \<exists>ys zs. xs = ys @ r # zs \<and> r \<notin> set ys \<and> dropWhile (\<lambda>x. x \<noteq> r) xs = r # zs"
proof -
  assume "r \<in> set xs"
  then obtain ys zs where "xs = ys @ r # zs" "r \<notin> set ys" using split_list_first by metis
  moreover from this have "dropWhile (\<lambda>x. x \<noteq> r) (ys @ r # zs) = r # zs" by (subst dropWhile_append2) auto
  ultimately show ?thesis by blast
qed

lemma next_req_append: "r \<notin> set ys \<Longrightarrow> next_req r (ys @ r # zs) = (case zs of [] \<Rightarrow> None | y # _ \<Rightarrow> Some y)"
  by (induction ys) auto

lemma tx_inv_current:
  assumes "tx_inv s" and "current_tx_req s = Some r"
  obtains ys zs q where "pending_reqs s = ys @ r # zs" "r \<notin> set ys" "r \<notin> set zs" "todo s = r # zs" "reqs s r = Some q"
    "req_ok q" "next_tx_seg q \<noteq> []" "unsent (next_tx_seg q) (tx_sg_off q) \<noteq> []"
proof -
  have r: "r \<in> set (pending_reqs s)" using assms by (simp add: tx_inv_def)
  obtain ys zs where yz: "pending_reqs s = ys @ r # zs" "r \<notin> set ys" "dropWhile (\<lambda>x. x \<noteq> r) (pending_reqs s) = r # zs"
    using dropWhile_neq [OF r] by (elim exE conjE) (rule that)
  have t: "todo s = r # zs" using yz assms(2) by (simp add: todo_def)
  obtain q where q: "reqs s r = Some q" using tx_inv_reqs(1) [OF assms(1) r] by blast
  have ok: "req_ok q" "next_tx_seg q \<noteq> []" using tx_inv_reqs(3,4) [OF assms(1) q] t by simp_all
  moreover have "distinct (pending_reqs s)" using assms(1) by (simp add: tx_inv_def)
  then have "r \<notin> set zs" using yz(1) by simp
  moreover have "unsent (next_tx_seg q) (tx_sg_off q) \<noteq> []" using ok unsent_empty by (simp add: req_ok_def)
  ultimately show ?thesis using that yz(1,2) t q by blast
qed

text \<open>The next request, or the first one that is submitted, is transmitted next.\<close>

lemma todo_next:
  assumes "pending_reqs s = ys @ r # zs" and "distinct (pending_reqs s)" and "current_tx_req s = next_req r (pending_reqs s)"
  shows "todo s = zs"
proof -
  have "r \<notin> set ys" using assms(1,2) by auto
  then have c: "current_tx_req s = (case zs of [] \<Rightarrow> None | y # _ \<Rightarrow> Some y)" using assms(1,3) next_req_append by simp
  show ?thesis
  proof (cases zs)
    case Nil
    then show ?thesis using c by (simp add: todo_def)
  next
    case (Cons y ys')
    then have "y \<notin> set (ys @ [r])" using assms(1,2) by auto
    then have "dropWhile (\<lambda>x. x \<noteq> y) ((ys @ [r]) @ y # ys') = y # ys'" by (subst dropWhile_append2) auto
    then show ?thesis using c Cons assms(1) by (simp add: todo_def)
  qed
qed

lemma tx_inv_page:
  assumes "tx_inv s"
  obtains b where "shared_buf s = Some b" "page_ok b"
  using assms unfolding tx_inv_def by blast

text \<open>A pass of the DPC moves bytes from the requests to the ring and keeps their order.\<close>

lemma tx_pass_ok:
  assumes "tx_inv s"
  shows "\<exists>progress s'. tx_pass s = Inr (progress, s') \<and> tx_inv s' \<and> ring_req s' @ todo_bytes s' = ring_req s @ todo_bytes s \<and>
    length (todo_bytes s') + of_bool progress \<le> length (todo_bytes s) \<and>
    (\<not> progress \<longrightarrow> todo s = [] \<or> length (ring_req s) = 1024) \<and>
    (\<forall>r. req_unsent s r = [] \<longrightarrow> req_unsent s' r = []) \<and> pending_reqs s' = pending_reqs s \<and>
    (\<forall>r. map_option (\<lambda>q. q\<lparr>next_tx_seg := [], tx_sg_off := 0\<rparr>) (reqs s' r) =
         map_option (\<lambda>q. q\<lparr>next_tx_seg := [], tx_sg_off := 0\<rparr>) (reqs s r))"
proof (cases "current_tx_req s")
  case None
  then show ?thesis using assms by (intro exI [of _ False] exI [of _ s]) (simp add: tx_pass_def todo_def)
next
  case (Some r)
  obtain b where b: "shared_buf s = Some b" "page_ok b" by (rule tx_inv_page [OF assms])
  obtain ys zs q where r: "pending_reqs s = ys @ r # zs" "r \<notin> set ys" "r \<notin> set zs" "todo s = r # zs" "reqs s r = Some q"
      "req_ok q" "next_tx_seg q \<noteq> []" "unsent (next_tx_seg q) (tx_sg_off q) \<noteq> []"
    by (rule tx_inv_current [OF assms Some])
  let ?c = "req_cons b" and ?p = "req_prod b" and ?u = "unsent (next_tx_seg q) (tx_sg_off q)"
  have pg: "length (req b) = 1024" "segs_ok (next_tx_seg q) (tx_sg_off q)" "span ?c ?p \<le> 1024" "ends_ok (next_tx_seg q)"
    using b(2) r(6) by (simp_all add: page_ok_def req_ok_def)
  obtain segs off prd ring k where tx: "tx_loop ?c (next_tx_seg q) (tx_sg_off q) ?p (req b) = Inr (segs, off, prd, ring)"
      "length ring = 1024" "segs_ok segs off" "k = min (length ?u) (1024 - span ?c ?p)" "span ?c prd = span ?c ?p + k"
      "ring_bytes ring (unat ?c) (span ?c ?p + k) = ring_bytes (req b) (unat ?c) (span ?c ?p) @ take k ?u"
      "unsent segs off = drop k ?u" "span ?c prd < 1024 \<longrightarrow> segs = []"
    using tx_loop_ok [OF pg(1-3)] by (elim exE conjE) (rule that)
  obtain pre where "next_tx_seg q = pre @ segs" using tx_loop_suffix [OF tx(1)] by blast
  then have ends: "ends_ok segs" using ends_ok_suffix pg(4) by simp
  have seg: "segs = [] \<longleftrightarrow> drop k ?u = []" using unsent_empty [OF tx(3) ends] tx(7) by simp
  let ?q = "q\<lparr>next_tx_seg := segs, tx_sg_off := off\<rparr>" and ?b = "b\<lparr>req := ring, req_prod := prd\<rparr>"
  let ?s = "(set_req s r ?q)\<lparr>shared_buf := Some ?b\<rparr>"
  have p: "prd = ?p \<longleftrightarrow> k = 0" using tx(5) by (auto simp: span_def word_eq_unat [symmetric])
  have adv: "advance_tx_req r s = Inr (k \<noteq> 0, ?s)"
    using b(1) r(5) tx(1) p by (simp add: advance_tx_req_def deref_req_def)
  have "span ?c prd \<le> 1024" using tx(4,5) pg(3) by linarith
  then have pb: "page_ok ?b" using b(2) tx(2) by (simp add: page_ok_def)
  have rq: "req_ok ?q" using tx(3) ends by (simp add: req_ok_def)
  have rr: "ring_req ?s = ring_req s @ take k ?u" using b(1) tx(5,6) by (simp add: ring_req_def)
  have other: "x \<in> set zs \<Longrightarrow> req_unsent ?s x = req_unsent s x" for x using r(3) by (auto simp: req_unsent_def set_req_def)
  have self: "req_unsent ?s r = drop k ?u" "req_unsent s r = ?u" using tx(7) r(5) by (simp_all add: req_unsent_def set_req_def)
  have bytes: "todo_bytes s = ?u @ concat (map (req_unsent s) zs)" using r(4) self by (simp add: todo_bytes_def)
  have unsent: "req_unsent s x = [] \<longrightarrow> req_unsent ?s x = []" for x using self by (cases "x = r") (auto simp: req_unsent_def set_req_def)
  define t where "t = (if k \<noteq> 0 \<and> segs = [] then ?s\<lparr>current_tx_req := next_req r (pending_reqs s)\<rparr> else ?s)"
  have pass: "tx_pass s = Inr (k \<noteq> 0, t)"
    using Some adv by (cases "k = 0") (simp_all add: tx_pass_def t_def deref_req_def set_req_def)
  have len: "k \<le> length ?u" "0 < length ?u" using tx(4) r(8) by simp_all
  have kz: "k = 0 \<Longrightarrow> length (ring_req s) = 1024" using tx(4) len(2) pg(3) b(1) by (simp add: ring_req_def min_def split: if_splits)
  have td: "todo t = (if segs = [] then zs else r # zs)"
  proof (cases "segs = []")
    case True
    then have "k \<noteq> 0" using seg len by auto
    moreover have "distinct (pending_reqs s)" using assms by (simp add: tx_inv_def)
    ultimately show ?thesis using True todo_next [of t ys r zs] r(1) by (simp add: t_def set_req_def)
  next
    case False
    then show ?thesis using r(4) Some by (simp add: t_def todo_def set_req_def)
  qed
  have tr: "reqs t = (reqs s)(r \<mapsto> ?q)" "pending_reqs t = pending_reqs s" "shared_buf t = Some ?b" "ring_req t = ring_req ?s"
      "\<And>x. req_unsent t x = req_unsent ?s x"
    by (simp_all add: t_def set_req_def ring_req_def req_unsent_def)
  have tb: "todo_bytes t = drop k ?u @ concat (map (req_unsent s) zs)"
  proof -
    have "map (req_unsent t) zs = map (req_unsent s) zs" using other tr(5) by simp
    then show ?thesis using td self tr(5) seg by (simp add: todo_bytes_def del: map_eq_conv)
  qed
  have inv: "tx_inv t"
    unfolding tx_inv_def
  proof (intro conjI allI impI)
    show "\<exists>b. shared_buf t = Some b \<and> page_ok b" using tr(3) pb by blast
    show "distinct (pending_reqs t)" using assms tr(2) by (simp add: tx_inv_def)
    show "(reqs t x \<noteq> None) = (x \<in> set (pending_reqs t))" for x
      using tr(1,2) r(1) tx_inv_reqs(1,2) [OF assms, of x] by (cases "x = r"; cases "reqs s x") auto
    show "x \<in> set (pending_reqs t)" if "current_tx_req t = Some x" for x
    proof -
      have "x \<in> set (todo t) \<or> x = r"
        using that Some td r(1,2) next_req_append [of r ys zs] by (auto simp: t_def set_req_def split: if_splits list.splits)
      then show ?thesis using tr(2) td r(1) by (auto split: if_splits)
    qed
    show "req_ok q'" if "reqs t x = Some q'" for x q'
      using that tr(1) rq tx_inv_reqs(3) [OF assms, of x] by (auto split: if_splits)
    show "(next_tx_seg q' = []) = (x \<notin> set (todo t))" if "reqs t x = Some q'" for x q'
    proof (cases "x = r")
      case True
      then show ?thesis using that tr(1) td r(3) by (auto split: if_splits)
    next
      case False
      then show ?thesis using that tr(1) td tx_inv_reqs(4) [OF assms, of x q'] r(4) by (auto split: if_splits)
    qed
  qed
  have "length (todo_bytes t) + of_bool (k \<noteq> 0) \<le> length (todo_bytes s)"
    using tb bytes len by (cases "k = 0") auto
  moreover have "ring_req t @ todo_bytes t = ring_req s @ todo_bytes s" using rr tr(4) tb bytes by simp
  moreover have "req_unsent s x = [] \<longrightarrow> req_unsent t x = []" for x using unsent tr(5) by simp
  moreover have "map_option (\<lambda>q. q\<lparr>next_tx_seg := [], tx_sg_off := 0\<rparr>) (reqs t x) =
      map_option (\<lambda>q. q\<lparr>next_tx_seg := [], tx_sg_off := 0\<rparr>) (reqs s x)" for x
    using r(5) tr(1) by simp
  ultimately show ?thesis
    using pass inv tr(2) kz by (intro exI [of _ "k \<noteq> 0"] exI [of _ t]) blast
qed

text \<open>Submitting, xenstored reading, and retiring a request.\<close>

definition message_ok :: "u8 list list \<Rightarrow> bool" where
  "message_ok segs \<longleftrightarrow> segs \<noteq> [] \<and> (\<forall>seg\<in>set segs. length seg < 2 ^ 32) \<and> last segs \<noteq> []"

definition new_request :: "xenbus_pending_req \<Rightarrow> bool" where
  "new_request q \<longleftrightarrow> next_tx_seg q = tx_io q \<and> tx_sg_off q = 0 \<and> message_ok (tx_io q)"

lemma submit_ok:
  assumes "tx_inv s" and "reqs s r = None" and "new_request q" and "submit_request r q s = (True, s')"
  shows "tx_inv s'" "ring_req s' = ring_req s" "todo_bytes s' = todo_bytes s @ concat (tx_io q)" "todo s' = todo s @ [r]"
proof -
  have r: "r \<notin> set (pending_reqs s)" using tx_inv_reqs(1) [OF assms(1), of r] assms(2) by auto
  have s': "reqs s' = (reqs s)(r \<mapsto> q)" "pending_reqs s' = pending_reqs s @ [r]" "shared_buf s' = shared_buf s"
      "current_tx_req s' = (case current_tx_req s of None \<Rightarrow> Some r | Some x \<Rightarrow> Some x)"
    using assms(4) by (auto simp: submit_request_def start_operation_def set_req_def split: if_splits)
  show ring: "ring_req s' = ring_req s" using s'(3) by (simp add: ring_req_def)
  show td: "todo s' = todo s @ [r]"
  proof (cases "current_tx_req s")
    case None
    then show ?thesis using s'(2,4) r by (simp add: todo_def) (subst dropWhile_append2, auto)
  next
    case (Some x)
    then have "x \<in> set (pending_reqs s)" using assms(1) by (simp add: tx_inv_def)
    then show ?thesis using s'(2,4) Some by (simp add: todo_def dropWhile_append1)
  qed
  have rt: "r \<notin> set (todo s)" using r set_dropWhileD by (fastforce simp: todo_def split: option.splits)
  have "map (req_unsent s') (todo s) = map (req_unsent s) (todo s)" using rt s'(1) by (auto simp: req_unsent_def)
  moreover have "req_unsent s' r = concat (tx_io q)" using s'(1) assms(3) by (simp add: req_unsent_def new_request_def unsent_def)
  ultimately show "todo_bytes s' = todo_bytes s @ concat (tx_io q)" unfolding todo_bytes_def td by (simp del: map_eq_conv)
  have q: "req_ok q" "next_tx_seg q \<noteq> []" using assms(3)
    by (auto simp: new_request_def req_ok_def message_ok_def segs_ok_def ends_ok_def split: list.splits)
  show "tx_inv s'"
    unfolding tx_inv_def
  proof (intro conjI allI impI)
    show "\<exists>b. shared_buf s' = Some b \<and> page_ok b" using assms(1) s'(3) by (simp add: tx_inv_def)
    show "distinct (pending_reqs s')" using assms(1) s'(2) r by (simp add: tx_inv_def)
    show "(reqs s' x \<noteq> None) = (x \<in> set (pending_reqs s'))" for x
      using s'(1,2) tx_inv_reqs(1,2) [OF assms(1), of x] by (cases "x = r"; cases "reqs s x") auto
    show "x \<in> set (pending_reqs s')" if "current_tx_req s' = Some x" for x
      using that s'(2,4) assms(1) by (auto simp: tx_inv_def split: option.splits)
    show "req_ok q'" if "reqs s' x = Some q'" for x q'
      using that s'(1) q tx_inv_reqs(3) [OF assms(1), of x] by (auto split: if_splits)
    show "(next_tx_seg q' = []) = (x \<notin> set (todo s'))" if "reqs s' x = Some q'" for x q'
      using that s'(1) q td tx_inv_reqs(4) [OF assms(1), of x q'] by (cases "x = r") auto
  qed
qed

text \<open>Xenstored reads \<open>k\<close> bytes of the request ring.\<close>

definition daemon_take :: "nat \<Rightarrow> xenbus \<Rightarrow> u8 list \<times> xenbus" where
  "daemon_take k s =
     (case shared_buf s of
        None \<Rightarrow> ([], s)
      | Some b \<Rightarrow>
          let k = min k (span (req_cons b) (req_prod b))
          in (ring_bytes (req b) (unat (req_cons b)) k, s\<lparr>shared_buf := Some (b\<lparr>req_cons := req_cons b + of_nat k\<rparr>)\<rparr>))"

lemma tx_inv_page_change:
  assumes "tx_inv s" and "page_ok b"
  shows "tx_inv (s\<lparr>shared_buf := Some b\<rparr>)"
proof -
  have "todo (s\<lparr>shared_buf := Some b\<rparr>) = todo s" by (cases "current_tx_req s") (simp_all add: todo_def)
  then show ?thesis using assms by (simp add: tx_inv_def)
qed

lemma daemon_take_ok:
  assumes "tx_inv s" and "daemon_take k s = (bs, s')"
  shows "tx_inv s'" "bs @ ring_req s' = ring_req s" "todo_bytes s' = todo_bytes s" "todo s' = todo s"
    "reqs s' = reqs s" "current_rx_req s' = current_rx_req s" "length bs = min k (length (ring_req s))"
proof -
  obtain b where b: "shared_buf s = Some b" "page_ok b" by (rule tx_inv_page [OF assms(1)])
  define j where "j = min k (span (req_cons b) (req_prod b))"
  define b' where "b' = b\<lparr>req_cons := req_cons b + of_nat j\<rparr>"
  have j: "j \<le> span (req_cons b) (req_prod b)" "j < 2 ^ 32" using b(2) by (auto simp: j_def page_ok_def min_def)
  have u: "unat (of_nat j :: u32) = j" using j(2) by (simp add: unat_of_nat_lt)
  have s': "bs = ring_bytes (req b) (unat (req_cons b)) j" "s' = s\<lparr>shared_buf := Some b'\<rparr>"
    using assms(2) b(1) by (auto simp: daemon_take_def Let_def j_def b'_def)
  have sp: "span (req_cons b') (req_prod b') = span (req_cons b) (req_prod b) - j"
    using span_add_cons [of "of_nat j" "req_cons b" "req_prod b"] j u by (simp add: b'_def)
  have "span (req_cons b') (req_prod b') \<le> 1024" using b(2) sp by (simp add: page_ok_def del: diff_le_self) linarith
  then have "page_ok b'" using b(2) by (simp add: page_ok_def) (simp add: b'_def)
  then show "tx_inv s'" using tx_inv_page_change [OF assms(1)] s'(2) by simp
  have "ring_bytes (req b) (unat (req_cons b + of_nat j)) n = ring_bytes (req b) (unat (req_cons b) + j) n" for n
    using ring_bytes_mod [of "req b"] index_mod [of "req_cons b" "of_nat j"] u by metis
  then have "ring_req s' = ring_bytes (req b) (unat (req_cons b) + j) (span (req_cons b) (req_prod b) - j)"
    using s'(2) sp by (simp add: ring_req_def) (simp add: b'_def)
  then show "bs @ ring_req s' = ring_req s"
    using ring_bytes_add [of "req b" "unat (req_cons b)" j "span (req_cons b) (req_prod b) - j"] s'(1) b(1) j(1) by (simp add: ring_req_def)
  show td: "todo s' = todo s" using s'(2) by (cases "current_tx_req s") (simp_all add: todo_def)
  show "reqs s' = reqs s" "current_rx_req s' = current_rx_req s" using s'(2) by simp_all
  then have "req_unsent s' = req_unsent s" by (simp add: fun_eq_iff req_unsent_def)
  then show "todo_bytes s' = todo_bytes s" unfolding todo_bytes_def td by (simp only:)
  show "length bs = min k (length (ring_req s))" using s'(1) b(1) by (simp add: ring_req_def j_def)
qed

lemma retire_ok:
  assumes "tx_inv s" and "reqs s r \<noteq> None" and "req_unsent s r = []" and "current_rx_req s = None"
  shows "\<exists>s'. retire_request r s = Inr s' \<and> tx_inv s' \<and> ring_req s' = ring_req s \<and> todo_bytes s' = todo_bytes s \<and> todo s' = todo s \<and>
    current_rx_req s' = None \<and> reqs s' = (reqs s)(r := None)"
proof -
  obtain q where q: "reqs s r = Some q" using assms(2) by blast
  have "next_tx_seg q = []" using assms(3) q unsent_empty tx_inv_reqs(3) [OF assms(1) q] by (simp add: req_unsent_def req_ok_def)
  then have rt: "r \<notin> set (todo s)" using tx_inv_reqs(4) [OF assms(1) q] by simp
  have cur: "current_tx_req s \<noteq> Some r" using tx_inv_current [OF assms(1)] rt by (metis list.set_intros(1))
  let ?s = "end_operation (s\<lparr>pending_reqs := remove1 r (pending_reqs s), reqs := (reqs s)(r := None)\<rparr>)"
  have d: "distinct (pending_reqs s)" using assms(1) by (simp add: tx_inv_def)
  have td: "todo ?s = todo s"
  proof (cases "current_tx_req s")
    case (Some x)
    obtain ys zs where x: "pending_reqs s = ys @ x # zs" "x \<notin> set ys" "todo s = x # zs"
      by (rule tx_inv_current [OF assms(1) Some])
    then have "r \<in> set ys" using tx_inv_reqs(2) [OF assms(1) q] rt by auto
    then have "remove1 r (pending_reqs s) = remove1 r ys @ x # zs" using x(1) by (simp add: remove1_append)
    moreover have "x \<notin> set (remove1 r ys)" using x(2) notin_set_remove1 by metis
    ultimately have "dropWhile (\<lambda>y. y \<noteq> x) (remove1 r (pending_reqs s)) = x # zs"
      by (simp only:) (subst dropWhile_append2, auto)
    then show ?thesis using Some x(3) by (simp add: todo_def end_operation_def)
  qed (simp add: todo_def end_operation_def)
  have "map (req_unsent ?s) (todo s) = map (req_unsent s) (todo s)" using rt by (auto simp: req_unsent_def end_operation_def)
  then have tb: "todo_bytes ?s = todo_bytes s" unfolding todo_bytes_def td by (simp only:)
  have "tx_inv ?s"
    unfolding tx_inv_def
  proof (intro conjI allI impI)
    show "\<exists>b. shared_buf ?s = Some b \<and> page_ok b" using assms(1) by (simp add: tx_inv_def end_operation_def)
    show "distinct (pending_reqs ?s)" using d by (simp add: end_operation_def)
    show "(reqs ?s x \<noteq> None) = (x \<in> set (pending_reqs ?s))" for x
      using tx_inv_reqs(1,2) [OF assms(1), of x] d by (cases "x = r"; cases "reqs s x") (auto simp: end_operation_def)
    show "x \<in> set (pending_reqs ?s)" if "current_tx_req ?s = Some x" for x
      using that assms(1) d cur by (auto simp: tx_inv_def end_operation_def)
    show "req_ok q'" if "reqs ?s x = Some q'" for x q'
      using that tx_inv_reqs(3) [OF assms(1), of x] by (auto simp: end_operation_def split: if_splits)
    show "(next_tx_seg q' = []) = (x \<notin> set (todo ?s))" if "reqs ?s x = Some q'" for x q'
      using that td tx_inv_reqs(4) [OF assms(1), of x q'] by (auto simp: end_operation_def split: if_splits)
  qed
  then show ?thesis
    using cur assms(4) tb td by (intro exI [of _ ?s]) (simp add: retire_request_def Let_def end_operation_def ring_req_def)
qed

text \<open>Histories of submissions, passes of the DPC, xenstored's reads and retired requests.  A request is retired when it
  is on the ring completely, since xenstored cannot answer a message it has not seen to its end.\<close>

datatype tx_op = TxSubmit nat u32 u32 "u8 list list" | TxPass | TxTake nat | TxRetire nat

type_synonym tx_state = "u8 list \<times> u8 list \<times> xenbus"

fun run_tx_op :: "tx_op \<Rightarrow> tx_state \<Rightarrow> tx_state res" where
  "run_tx_op (TxSubmit r type tid parts) (sent, taken, s) =
     (case initialise_sg_list type tid parts s of
        (hdr, segs, s) \<Rightarrow>
          if reqs s r \<noteq> None \<or> \<not> message_ok segs then Inr (sent, taken, s)
          else (case submit_request r (initialise_pending_req hdr segs) s of
            (ok, s) \<Rightarrow> Inr (if ok then sent @ concat segs else sent, taken, s)))"
| "run_tx_op TxPass (sent, taken, s) = res_bind (tx_pass s) (\<lambda>(_, s). Inr (sent, taken, s))"
| "run_tx_op (TxTake k) (sent, taken, s) = (case daemon_take k s of (bs, s) \<Rightarrow> Inr (sent, taken @ bs, s))"
| "run_tx_op (TxRetire r) (sent, taken, s) =
     (if reqs s r = None \<or> req_unsent s r \<noteq> [] then Inr (sent, taken, s)
      else res_bind (retire_request r s) (\<lambda>s. Inr (sent, taken, s)))"

fun run_tx_ops :: "tx_op list \<Rightarrow> tx_state \<Rightarrow> tx_state res" where
  "run_tx_ops [] x = Inr x"
| "run_tx_ops (p # ps) x = res_bind (run_tx_op p x) (run_tx_ops ps)"

definition tx_hist_ok :: "tx_state \<Rightarrow> bool" where
  "tx_hist_ok x \<longleftrightarrow> (case x of (sent, taken, s) \<Rightarrow>
     tx_inv s \<and> current_rx_req s = None \<and> taken @ ring_req s @ todo_bytes s = sent)"

lemma tx_inv_seq: "tx_inv (s\<lparr>sequence_number := n\<rparr>) = tx_inv s" "ring_req (s\<lparr>sequence_number := n\<rparr>) = ring_req s"
  "todo_bytes (s\<lparr>sequence_number := n\<rparr>) = todo_bytes s"
proof -
  have t: "todo (s\<lparr>sequence_number := n\<rparr>) = todo s" by (cases "current_tx_req s") (simp_all add: todo_def)
  show "tx_inv (s\<lparr>sequence_number := n\<rparr>) = tx_inv s" unfolding tx_inv_def t by simp
  show "ring_req (s\<lparr>sequence_number := n\<rparr>) = ring_req s" by (simp add: ring_req_def)
  have "req_unsent (s\<lparr>sequence_number := n\<rparr>) = req_unsent s" by (simp add: fun_eq_iff req_unsent_def)
  then show "todo_bytes (s\<lparr>sequence_number := n\<rparr>) = todo_bytes s" unfolding todo_bytes_def t by (simp only:)
qed

lemma tx_pass_rx: "tx_pass s = Inr (p, s') \<Longrightarrow> current_rx_req s' = current_rx_req s"
  by (auto simp: tx_pass_def advance_tx_req_def set_req_def res_bind_Inr_iff split: option.splits if_splits)

lemma run_tx_op_ok:
  assumes "tx_hist_ok x"
  shows "\<exists>y. run_tx_op p x = Inr y \<and> tx_hist_ok y"
proof -
  obtain sent taken s where x: "x = (sent, taken, s)" by (cases x)
  have i: "tx_inv s" "current_rx_req s = None" "taken @ ring_req s @ todo_bytes s = sent" using assms x by (simp_all add: tx_hist_ok_def)
  show ?thesis
  proof (cases p)
    case (TxSubmit r type tid parts)
    obtain hdr segs t where t: "initialise_sg_list type tid parts s = (hdr, segs, t)" by (cases "initialise_sg_list type tid parts s")
    then have ts: "t = s\<lparr>sequence_number := sequence_number s + 1\<rparr>" by (simp add: initialise_sg_list_def Let_def)
    have ti: "tx_inv t" "ring_req t = ring_req s" "todo_bytes t = todo_bytes s" "current_rx_req t = None"
      using i tx_inv_seq ts by simp_all
    let ?q = "initialise_pending_req hdr segs"
    obtain ok u where u: "submit_request r ?q t = (ok, u)" by (cases "submit_request r ?q t")
    show ?thesis
    proof (cases "reqs t r \<noteq> None \<or> \<not> message_ok segs")
      case True
      then show ?thesis using x TxSubmit t ti i by (simp add: tx_hist_ok_def)
    next
      case False
      then have n: "new_request ?q" "reqs t r = None" "tx_io ?q = segs" by (simp_all add: new_request_def initialise_pending_req_def)
      have "tx_hist_ok (if ok then sent @ concat segs else sent, taken, u)"
      proof (cases ok)
        case True
        then show ?thesis
          using submit_ok [OF ti(1) n(2,1), of u] u ti i n(3)
          by (auto simp: tx_hist_ok_def submit_request_def start_operation_def set_req_def split: if_splits)
      next
        case False
        then show ?thesis
          using u ti i by (auto simp: tx_hist_ok_def submit_request_def start_operation_def split: if_splits)
      qed
      then show ?thesis using x TxSubmit t u False by simp
    qed
  next
    case TxPass
    obtain pr s' where "tx_pass s = Inr (pr, s')" "tx_inv s'" "ring_req s' @ todo_bytes s' = ring_req s @ todo_bytes s"
      using tx_pass_ok [OF i(1)] by (elim exE conjE) (rule that)
    then show ?thesis using x TxPass i tx_pass_rx by (auto simp: tx_hist_ok_def)
  next
    case (TxTake k)
    obtain bs s' where s': "daemon_take k s = (bs, s')" by (cases "daemon_take k s")
    show ?thesis using x TxTake s' i daemon_take_ok [OF i(1) s'] by (simp add: tx_hist_ok_def) (metis append.assoc)
  next
    case (TxRetire r)
    show ?thesis
    proof (cases "reqs s r = None \<or> req_unsent s r \<noteq> []")
      case True
      then show ?thesis using x TxRetire assms by simp
    next
      case False
      then show ?thesis using x TxRetire i retire_ok [OF i(1), of r] by (auto simp: tx_hist_ok_def)
    qed
  qed
qed

lemma run_tx_ops_ok: "tx_hist_ok x \<Longrightarrow> \<exists>y. run_tx_ops ps x = Inr y \<and> tx_hist_ok y"
proof (induction ps arbitrary: x)
  case (Cons p ps)
  obtain y where "run_tx_op p x = Inr y" "tx_hist_ok y" using run_tx_op_ok [OF Cons(2)] by blast
  then show ?case using Cons(1) by simp
qed simp

definition xenbus_init :: "xenstore_domain_interface \<Rightarrow> watches \<Rightarrow> xenbus" where
  "xenbus_init b w =
     \<lparr>reqs = Map.empty, pending_reqs = [], current_rx_req = None, current_tx_req = None, cons_response_discard_bytes = 0,
      shared_buf = Some b, xenbus_evtchn = True, evtchn_raised = False, remote_notified = 0, xenbus_outstanding_ctr = 0,
      allow_new_xenbus_operation = True, allow_xenbus_watch_operation = True, AustereMode = False, sequence_number = 0, xwatches = w\<rparr>"

lemma tx_inv_init: "page_ok b \<Longrightarrow> tx_inv (xenbus_init b w)"
  by (simp add: tx_inv_def xenbus_init_def)


section \<open>The loop of the DPC ends\<close>

text \<open>Between the passes xenstored may read requests and write replies.\<close>

definition peer_ok :: "(nat \<Rightarrow> xenstore_domain_interface \<Rightarrow> xenstore_domain_interface) \<Rightarrow> bool" where
  "peer_ok peer \<longleftrightarrow> (\<forall>n b. page_ok b \<longrightarrow> page_ok (peer n b))"

lemma touch_ok:
  assumes "peer_ok peer" and "tx_inv s"
  shows "tx_inv (touch peer n s)" "todo_bytes (touch peer n s) = todo_bytes s"
proof -
  obtain b where b: "shared_buf s = Some b" "page_ok b" by (rule tx_inv_page [OF assms(2)])
  then have t: "touch peer n s = s\<lparr>shared_buf := Some (peer n b)\<rparr>" by (simp add: touch_def)
  then show "tx_inv (touch peer n s)" using tx_inv_page_change [OF assms(2)] assms(1) b(2) by (simp add: peer_ok_def)
  have "todo (touch peer n s) = todo s" by (cases "current_tx_req s") (simp_all add: todo_def touch_def)
  moreover have "req_unsent (touch peer n s) = req_unsent s" by (simp add: fun_eq_iff req_unsent_def touch_def)
  ultimately show "todo_bytes (touch peer n s) = todo_bytes s" unfolding todo_bytes_def by (simp only:)
qed

lemma tx_passes_end:
  assumes "peer_ok peer" and "tx_inv s"
  shows "\<exists>f m s'. tx_passes peer n fire s = Some (Inr (f, m, s')) \<and> tx_inv s'"
  using assms(2)
proof (induction "length (todo_bytes s)" arbitrary: n fire s rule: less_induct)
  case less
  have t: "tx_inv (touch peer n s)" "todo_bytes (touch peer n s) = todo_bytes s" using touch_ok [OF assms(1) less(2)] by simp_all
  obtain pr s' where p: "tx_pass (touch peer n s) = Inr (pr, s')" "tx_inv s'" "length (todo_bytes s') + of_bool pr \<le> length (todo_bytes s)"
    using tx_pass_ok [OF t(1)] unfolding t(2) by (elim exE conjE) (rule that)
  show ?case
  proof (cases pr)
    case True
    then show ?thesis using less(1) [OF _ p(2), of "Suc n" True] p(1,3) by (subst tx_passes.simps) simp
  next
    case False
    then show ?thesis using p by (subst tx_passes.simps) simp
  qed
qed

section \<open>A request that ends in an empty segment\<close>

lemma tx_loop_fill:
  assumes "length ring = 1024" and "\<forall>seg\<in>set segs. seg \<noteq> []" and "span cons prd + length (concat segs) = 1024"
  shows "\<exists>prd' ring'. tx_loop cons (segs @ [[]]) 0 prd ring = Inr ([[]], 0, prd', ring') \<and> span cons prd' = 1024 \<and> length ring' = 1024"
  using assms
proof (induction segs arbitrary: prd ring)
  case Nil
  then have "prd = cons + 1024" using span_full [of cons prd] by simp
  then show ?case using Nil by (simp add: tx_loop.simps)
next
  case (Cons seg segs)
  let ?m = "span cons prd"
  have len: "0 < length seg" "?m + length seg \<le> 1024" using Cons(3,4) by auto
  then have ne: "prd \<noteq> cons + 1024" using span_full [of cons prd] by auto
  have u: "unat (of_nat (length seg) :: u32) = length seg" using len(2) by (simp add: unat_of_nat_lt)
  have t: "(if cons + 1024 - prd < of_nat (length seg) - 0 then cons + 1024 - prd else of_nat (length seg) - 0) = (of_nat (length seg) :: u32)"
    using span_space [of cons prd] len(2) u by (auto simp: word_less_nat_alt)
  let ?ring = "ring_write ring ((unat cons + ?m) mod 1024) seg"
  have c: "memcpy_to_ring ring seg (unat 0) (length seg) (MASK_XENSTORE_IDX prd) 1024 = Inr ?ring"
    using memcpy_to_ring_ok [OF Cons(2), of "(unat cons + ?m) mod 1024" "length seg" 0 seg] len(2)
    by (simp add: mask_prod [of prd cons])
  have sp: "span cons (prd + of_nat (length seg)) = ?m + length seg" using span_add_prod [of cons prd "of_nat (length seg)"] u len(2) by simp
  have "tx_loop cons ((seg # segs) @ [[]]) 0 prd ring = tx_loop cons (segs @ [[]]) 0 (prd + of_nat (length seg)) ?ring"
    using ne c u by (subst tx_loop.simps) (simp only: append.simps list.case if_False Let_def t res_bind_simps add_0 u if_True refl c)
  moreover have "length ?ring = 1024" using Cons(2) len(2) by simp
  ultimately show ?case using Cons(1) [of ?ring "prd + of_nat (length seg)"] Cons(3,4) sp by simp
qed

text \<open>C21: A request whose last segment is empty (a write of an empty value) and whose other segments fill the ring exactly
  stops the transmission for good: the next pass, after xenstored has read everything, finds only the empty segment and
  reports no progress, so that the request stays current although nothing of it is left.  From then on no request is
  sent, whatever xenstored does, and when the reply to this one has arrived, retiring it fails an assertion.\<close>

theorem empty_segment_blocks_ring:
  assumes "current_tx_req s = Some r" and "reqs s r = Some q" and "next_tx_seg q = segs @ [[]]" and "tx_sg_off q = 0"
    and "\<forall>seg\<in>set segs. seg \<noteq> []" and "shared_buf s = Some b" and "length (req b) = 1024" and "segs \<noteq> []"
    and "span (req_cons b) (req_prod b) + length (concat segs) = 1024"
  shows "\<exists>s1. tx_pass s = Inr (True, s1) \<and> length (ring_req s1) = 1024 \<and>
    (\<forall>b2. length (req b2) = 1024 \<and> span (req_cons b2) (req_prod b2) < 1024 \<longrightarrow>
      (\<exists>s2. tx_pass (s1\<lparr>shared_buf := Some b2\<rparr>) = Inr (False, s2) \<and> retire_request r s2 = Inl XmAssert \<and>
        (\<forall>b3. tx_pass (s2\<lparr>shared_buf := Some b3\<rparr>) = Inr (False, s2\<lparr>shared_buf := Some b3\<rparr>))))"
proof -
  obtain prd ring where tx: "tx_loop (req_cons b) (segs @ [[]]) 0 (req_prod b) (req b) = Inr ([[]], 0, prd, ring)"
      "span (req_cons b) prd = 1024" "length ring = 1024"
    using tx_loop_fill [OF assms(7,5,9)] by blast
  obtain seg rest where "segs = seg # rest" "seg \<noteq> []" using assms(5,8) by (cases segs) auto
  then have "span (req_cons b) (req_prod b) \<noteq> 1024" using assms(9) by auto
  then have pr: "prd \<noteq> req_prod b" using tx(2) by auto
  let ?q1 = "q\<lparr>next_tx_seg := [[]], tx_sg_off := 0\<rparr>" and ?q2 = "q\<lparr>next_tx_seg := [], tx_sg_off := 0\<rparr>"
  let ?s1 = "(set_req s r ?q1)\<lparr>shared_buf := Some (b\<lparr>req := ring, req_prod := prd\<rparr>)\<rparr>"
  have p1: "tx_pass s = Inr (True, ?s1)"
    using assms(1-4,6) tx(1) pr by (simp add: tx_pass_def advance_tx_req_def deref_req_def set_req_def)
  have l1: "length (ring_req ?s1) = 1024" using tx(2) by (simp add: ring_req_def)
  let ?s2 = "\<lambda>b2. s\<lparr>reqs := (reqs s)(r \<mapsto> ?q2), shared_buf := Some b2\<rparr>"
  have p2: "tx_pass (?s1\<lparr>shared_buf := Some b2\<rparr>) = Inr (False, ?s2 b2)"
    if "length (req b2) = 1024" "span (req_cons b2) (req_prod b2) < 1024" for b2
  proof -
    have "req_prod b2 \<noteq> req_cons b2 + 1024" using span_full [of "req_cons b2" "req_prod b2"] that(2) by auto
    moreover have "memcpy_to_ring (req b2) [] 0 0 (MASK_XENSTORE_IDX (req_prod b2)) 1024 = Inr (req b2)"
      using memcpy_to_ring_ok [OF that(1), of "MASK_XENSTORE_IDX (req_prod b2)" 0 0 "[]"] by (simp add: unat_mask ring_write_def)
    ultimately have "tx_loop (req_cons b2) [[]] 0 (req_prod b2) (req b2) = Inr ([], 0, req_prod b2, req b2)"
      by (subst tx_loop.simps) (simp add: tx_loop.simps)
    then show ?thesis using assms(1) by (simp add: tx_pass_def advance_tx_req_def deref_req_def set_req_def)
  qed
  have p3: "tx_pass (?s2 b2\<lparr>shared_buf := Some b3\<rparr>) = Inr (False, ?s2 b2\<lparr>shared_buf := Some b3\<rparr>)" for b2 b3
    using assms(1) by (simp add: tx_pass_def advance_tx_req_def deref_req_def set_req_def tx_loop.simps)
  have "retire_request r (?s2 b2) = Inl XmAssert" for b2 using assms(1) by (simp add: retire_request_def)
  then show ?thesis using p1 l1 p2 p3 by (intro exI [of _ ?s1]) blast
qed

section \<open>Instances\<close>

definition blank_page :: xenstore_domain_interface where
  "blank_page = \<lparr>req = replicate 1024 0, rsp = replicate 1024 0, req_cons = 0, req_prod = 0, rsp_cons = 0, rsp_prod = 0\<rparr>"

lemma blank_page_ok: "page_ok blank_page"
  by (simp add: page_ok_def blank_page_def span_def)


theorem empty_segment_blocks_ring_witness:
  "\<exists>(s :: xenbus) s1. tx_pass s = Inr (True, s1) \<and> length (ring_req s1) = 1024 \<and>
     (\<exists>s2. tx_pass (s1\<lparr>shared_buf := Some blank_page\<rparr>) = Inr (False, s2) \<and> retire_request 1 s2 = Inl XmAssert)"
proof -
  let ?q = "initialise_pending_req zero_sockmsg [replicate 1024 1, []]"
  let ?s = "(xenbus_init blank_page (ws watches_init))\<lparr>current_tx_req := Some 1, reqs := [1 \<mapsto> ?q]\<rparr>"
  have p: "length (req blank_page) = 1024 \<and> span (req_cons blank_page) (req_prod blank_page) < 1024" by (simp add: blank_page_def span_def)
  obtain s1 where "tx_pass ?s = Inr (True, s1)" "length (ring_req s1) = 1024"
      "\<forall>b2. length (req b2) = 1024 \<and> span (req_cons b2) (req_prod b2) < 1024 \<longrightarrow>
        (\<exists>s2. tx_pass (s1\<lparr>shared_buf := Some b2\<rparr>) = Inr (False, s2) \<and> retire_request 1 s2 = Inl XmAssert \<and>
          (\<forall>b3. tx_pass (s2\<lparr>shared_buf := Some b3\<rparr>) = Inr (False, s2\<lparr>shared_buf := Some b3\<rparr>)))"
    by (rule exE [OF empty_segment_blocks_ring [of ?s 1 ?q "[replicate 1024 1]" blank_page]])
      (simp_all add: xenbus_init_def initialise_pending_req_def blank_page_def span_def)
  then show ?thesis using p by blast
qed

end
