(* ===== verification/XenbusReply.thy ===== *)
theory XenbusReply
  imports XenbusRing
begin

text \<open>
  What the reception of \<^verbatim>\<open>src/xenutil/xenbus.c\<close> delivers.  \<open>xs_msg\<close> is a message of xenstored, \<open>wire\<close> its bytes and
  \<open>deliver\<close> the specification: the whole message is handed over at once, a reply to the request with its number, as much
  of it as fits into the buffer, and a watch event to the watches.  \<open>rx_sim\<close> relates the state in the middle of a message
  to it: reception in pieces, as the bytes arrive in the ring, refines delivery.
\<close>

section \<open>Messages\<close>

record xs_msg =
  m_type :: u32
  m_req_id :: u32
  m_tx_id :: u32
  m_payload :: "u8 list"

definition m_header :: "xs_msg \<Rightarrow> xsd_sockmsg" where
  "m_header m = \<lparr>msg_type = m_type m, req_id = m_req_id m, tx_id = m_tx_id m, msg_len = of_nat (length (m_payload m))\<rparr>"

definition wire :: "xs_msg \<Rightarrow> u8 list" where
  "wire m = encode_sockmsg (m_header m) @ m_payload m"

text \<open>A watch event has the path and the token of the watch, each with its nul, and fits into the ring.\<close>

definition watch_payload :: "u8 list \<Rightarrow> u8 list \<Rightarrow> u8 list" where
  "watch_payload p t = p @ 0 # t @ [0]"

definition msg_ok :: "xs_msg \<Rightarrow> bool" where
  "msg_ok m \<longleftrightarrow> length (m_payload m) < 2 ^ 32 \<and>
     (if m_type m = XS_WATCH_EVENT
      then (\<exists>p t. m_payload m = watch_payload p t \<and> 0 \<notin> set p \<and> 0 \<notin> set t \<and> length t \<le> 16) \<and> length (m_payload m) \<le> 1008
      else m_type m \<le> XS_IS_DOMAIN_INTRODUCED)"

definition event_token :: "xs_msg \<Rightarrow> u8 list" where
  "event_token m = takeWhile (\<lambda>c. c \<noteq> 0) (tl (dropWhile (\<lambda>c. c \<noteq> 0) (m_payload m)))"

section \<open>Delivery\<close>

definition fire :: "watches \<Rightarrow> u8 list \<Rightarrow> watches" where
  "fire w t = (case fire_watch_by_ident False w t of Inl _ \<Rightarrow> w | Inr w' \<Rightarrow> w')"

text \<open>The request after \<open>k\<close> bytes of the payload have arrived.\<close>

definition fill :: "bool \<Rightarrow> xs_msg \<Rightarrow> nat \<Rightarrow> xenbus_pending_req \<Rightarrow> xenbus_pending_req" where
  "fill alloc m k q =
     (let n = length (m_payload m);
          buf = (case reply_payload q of None \<Rightarrow> (if alloc then Some (replicate n 0) else None) | Some p \<Rightarrow> Some p);
          sz = (case reply_payload q of None \<Rightarrow> (if alloc then n else 0) | Some p \<Rightarrow> reply_buf_size q)
      in q\<lparr>reply_header := m_header m, reply_buf_size := sz,
           reply_payload := map_option (\<lambda>p. overwrite p (take (min k sz) (m_payload m))) buf,
           reply_payload_received := k\<rparr>)"

definition deliver :: "bool \<Rightarrow> xs_msg \<Rightarrow> xenbus \<Rightarrow> xenbus" where
  "deliver alloc m s =
     (if m_type m = XS_WATCH_EVENT
      then if AustereMode s \<or> \<not> allow_xenbus_watch_operation s then s else s\<lparr>xwatches := fire (xwatches s) (event_token m)\<rparr>
      else (case find_pending_rx_req s (m_req_id m) of
        None \<Rightarrow> s
      | Some r \<Rightarrow> (case reqs s r of
          None \<Rightarrow> s
        | Some q \<Rightarrow>
            let q = fill alloc m (length (m_payload m)) q
            in set_req s r (q\<lparr>xenbus_replied := True, completion_event := \<not> AustereMode s \<or> completion_event q\<rparr>))))"

definition deliver_all :: "(bool \<times> xs_msg) list \<Rightarrow> xenbus \<Rightarrow> xenbus" where
  "deliver_all dl a = foldl (\<lambda>a (al, m). deliver al m a) a dl"

lemma deliver_all_simps [simp]:
  "deliver_all [] a = a" "deliver_all ((al, m) # dl) a = deliver_all dl (deliver al m a)"
  "deliver_all (dl @ dl') a = deliver_all dl' (deliver_all dl a)"
  by (simp_all add: deliver_all_def)

section \<open>Encoding\<close>

lemma decode_encode: "decode_sockmsg (encode_sockmsg h @ bs) = h"
proof -
  have f: "le_field (encode_sockmsg h @ bs) 0 4 = msg_type h" "le_field (encode_sockmsg h @ bs) 4 4 = req_id h"
    "le_field (encode_sockmsg h @ bs) 8 4 = tx_id h" "le_field (encode_sockmsg h @ bs) 12 4 = msg_len h"
    by (rule le_field_word [where xs = "[]"], simp_all add: encode_sockmsg_def)
      (rule le_field_word [where xs = "le_bytes 4 (unat (msg_type h))"], simp_all add: encode_sockmsg_def,
       rule le_field_word [where xs = "le_bytes 4 (unat (msg_type h)) @ le_bytes 4 (unat (req_id h))"], simp_all add: encode_sockmsg_def,
       rule le_field_word [where xs = "le_bytes 4 (unat (msg_type h)) @ le_bytes 4 (unat (req_id h)) @ le_bytes 4 (unat (tx_id h))" and ys = "[]"],
       simp_all add: encode_sockmsg_def)
  then show ?thesis by (simp add: decode_sockmsg_def)
qed

lemma length_encode [simp]: "length (encode_sockmsg h) = 16"
  by (simp add: encode_sockmsg_def)

section \<open>Scanning a watch event\<close>

lemma ring_byte_ok: "length ring = 1024 \<Longrightarrow> ring_byte ring x = Inr (ring ! (unat x mod 1024))"
  by (simp add: ring_byte_def unat_mask)

lemma unat_succ_small: "unat x + 1 < 2 ^ 32 \<Longrightarrow> unat (x + 1) = unat x + 1" for x :: u32
  by (simp add: unat_succ)

lemma scan_nul_ok:
  assumes "length ring = 1024" and "0 \<notin> set p" and "ring_bytes ring (unat pos) (length p + 1) = p @ [0]"
    and "unat pos + length p \<le> unat e"
  shows "scan_nul ring pos e = Inr (pos + of_nat (length p))"
  using assms(2-4)
proof (induction p arbitrary: pos)
  case Nil
  then have "ring ! (unat pos mod 1024) = 0" by (simp add: ring_bytes_def)
  then show ?case using assms(1) by (subst scan_nul.simps) (simp add: ring_byte_ok)
next
  case (Cons c p)
  have "ring_bytes ring (unat pos) (length (c # p) + 1) = ring_bytes ring (unat pos) 1 @ ring_bytes ring (unat pos + 1) (length p + 1)"
    using ring_bytes_add [of ring "unat pos" 1 "length p + 1"] by simp
  then have c: "ring ! (unat pos mod 1024) = c" "ring_bytes ring (unat pos + 1) (length p + 1) = p @ [0]"
    using Cons(3) by (simp_all add: ring_bytes_def)
  have "unat e < 2 ^ 32" using unat_bound [of e] by simp
  then have u: "unat (pos + 1) = unat pos + 1" using Cons(4) by (intro unat_succ_small) simp
  have "pos \<noteq> e" using Cons(4) by auto
  then have "scan_nul ring pos e = scan_nul ring (pos + 1) e"
    using c(1) Cons(2) assms(1) by (subst scan_nul.simps) (auto simp: ring_byte_ok)
  then show ?case using Cons(1) [of "pos + 1"] Cons(2,4) c(2) u by (simp add: algebra_simps)
qed

lemma unat_add_nat: "unat x + n < 2 ^ 32 \<Longrightarrow> unat (x + of_nat n) = unat x + n" for x :: u32
proof -
  assume a: "unat x + n < 2 ^ 32"
  then have n: "unat (of_nat n :: u32) = n" by (simp add: unat_of_nat_lt)
  then have "unat x + unat (of_nat n :: u32) < 2 ^ LENGTH(32)" using a by simp
  then have "unat (x + of_nat n) = unat x + unat (of_nat n :: u32)" by (simp only: unat_add_lem)
  then show ?thesis using n by simp
qed

lemma receive_watch_event_ok:
  assumes ring: "length ring = 1024" and bytes: "ring_bytes ring (unat cons + 16) (length p + length t + 2) = watch_payload p t"
    and nz: "0 \<notin> set p" "0 \<notin> set t" and len: "length t \<le> 16" "length p + length t + 2 \<le> 1008"
    and e: "e = cons + 16 + of_nat (length p + length t + 2)" and nowrap: "unat cons + 16 + (length p + length t + 2) < 2 ^ 32"
    and w: "fire_watch_by_ident False (xwatches s) t = Inr w"
  shows "receive_watch_event cons e ring s =
    Inr (if AustereMode s \<or> \<not> allow_xenbus_watch_operation s then s else s\<lparr>xwatches := w\<rparr>)"
proof (cases "AustereMode s")
  case True
  then show ?thesis by (simp add: receive_watch_event_def)
next
  case False
  let ?ps = "cons + 16" and ?n = "length p + length t + 2"
  let ?pe = "?ps + of_nat (length p)"
  let ?is = "?pe + 1"
  let ?ie = "?is + of_nat (length t)"
  have ps: "unat ?ps = unat cons + 16" using unat_add_nat [of cons 16] nowrap by simp
  have ue: "unat e = unat cons + 16 + ?n" using unat_add_nat [of ?ps ?n] nowrap ps e by simp
  have pe: "unat ?pe = unat cons + 16 + length p" using unat_add_nat [of ?ps "length p"] nowrap ps by simp
  have iis: "unat ?is = unat cons + 16 + length p + 1" using unat_add_nat [of ?pe 1] nowrap pe by simp
  have ie: "unat ?ie = unat cons + 16 + length p + 1 + length t" using unat_add_nat [of ?is "length t"] nowrap iis by simp
  have split: "ring_bytes ring (unat cons + 16) ?n =
      ring_bytes ring (unat ?ps) (length p + 1) @ ring_bytes ring (unat ?is) (length t + 1)"
    using ring_bytes_add [of ring "unat ?ps" "length p + 1" "length t + 1"] ps iis by (simp add: add.assoc)
  have "ring_bytes ring (unat ?ps) (length p + 1) @ ring_bytes ring (unat ?is) (length t + 1) = (p @ [0]) @ (t @ [0])"
    using trans [OF split [symmetric] bytes] by (simp only: watch_payload_def append.simps append_assoc)
  then have "ring_bytes ring (unat ?ps) (length p + 1) = p @ [0] \<and> ring_bytes ring (unat ?is) (length t + 1) = t @ [0]"
    by (rule append_eq_append_conv [THEN iffD1, rotated]) simp
  then have b1: "ring_bytes ring (unat ?ps) (length p + 1) = p @ [0]" and b2: "ring_bytes ring (unat ?is) (length t + 1) = t @ [0]"
    by blast+
  have s1: "scan_nul ring ?ps e = Inr ?pe" using scan_nul_ok [OF ring nz(1) b1, of e] ps ue by simp
  have s2: "scan_nul ring ?is e = Inr ?ie" using scan_nul_ok [OF ring nz(2) b2, of e] iis ue by simp
  have le: "?pe \<le> e" "?pe \<noteq> e" "?ie \<le> e" "?ie \<noteq> e" using pe ie ue by (auto simp: word_le_nat_alt)
  have m1: "memcpy_from_ring ring (replicate 64 0) 0 (min (unat (?pe - ?ps + 1)) 64) (MASK_XENSTORE_IDX ?ps) 1024 \<noteq> Inl x" for x
    using memcpy_from_ring_ok [OF ring, of "MASK_XENSTORE_IDX ?ps" "min (unat (?pe - ?ps + 1)) 64" 0 "replicate 64 0"]
    by (simp add: unat_mask)
  have d: "unat (?ie - ?is) = length t" "unat (?ie - ?is + 1) = length t + 1"
    using len unat_add_nat [of "of_nat (length t)" 1] by (simp_all add: unat_of_nat_lt)
  have "ring_bytes ring (unat ?is mod 1024) (length t + 1) = t @ [0]" using b2 by (simp add: ring_bytes_mod)
  then have m2: "memcpy_from_ring ring (replicate 17 0) 0 (length t + 1) (MASK_XENSTORE_IDX ?is) 1024 =
      Inr (t @ [0] @ drop (length t + 1) (replicate 17 0))"
    using memcpy_from_ring_ok [OF ring, of "MASK_XENSTORE_IDX ?is" "length t + 1" 0 "replicate 17 0"] len(1)
    by (simp add: unat_mask)
  have tk: "takeWhile (\<lambda>c. c \<noteq> 0) (t @ [0] @ xs) = t" for xs using nz(2) by (subst takeWhile_append2) auto
  obtain wp where wp: "memcpy_from_ring ring (replicate 64 0) 0 (min (unat (?pe - ?ps + 1)) 64) (MASK_XENSTORE_IDX ?ps) 1024 = Inr wp"
    using m1 by (metis sum.exhaust)
  show ?thesis
    unfolding receive_watch_event_def Let_def
    by (simp only: False if_False s1 res_bind_simps le xm_assert_simps wp s2 ring_byte_ok [OF ring] simp_thms d m2 tk w)
      (use len(1) in simp)
qed

section \<open>Replies\<close>

definition buf_ok :: "xenbus_pending_req \<Rightarrow> bool" where
  "buf_ok q \<longleftrightarrow> (case reply_payload q of None \<Rightarrow> reply_buf_size q = 0 | Some p \<Rightarrow> length p = reply_buf_size q)"

definition buf_sz :: "bool \<Rightarrow> xs_msg \<Rightarrow> xenbus_pending_req \<Rightarrow> nat" where
  "buf_sz al m q = (case reply_payload q of None \<Rightarrow> (if al then length (m_payload m) else 0) | Some p \<Rightarrow> reply_buf_size q)"

lemma fill_simps [simp]:
  "reply_header (fill al m k q) = m_header m" "reply_payload_received (fill al m k q) = k"
  "reply_buf_size (fill al m k q) = buf_sz al m q" "completion_event (fill al m k q) = completion_event q"
  by (simp_all add: fill_def Let_def buf_sz_def)

lemma fill_upd: "(fill al m k q)\<lparr>reply_payload := reply_payload (fill al m j q), reply_payload_received := j\<rparr> = fill al m j q"
  by (simp add: fill_def Let_def)

lemma fill_payload:
  "reply_payload (fill al m i q) = map_option (\<lambda>p. overwrite p (take (min i (buf_sz al m q)) (m_payload m)))
     (case reply_payload q of None \<Rightarrow> (if al then Some (replicate (length (m_payload m)) 0) else None) | Some p \<Rightarrow> Some p)"
  by (simp add: fill_def Let_def buf_sz_def)

lemma fill_payload_cong:
  assumes "min i (buf_sz al m q) = min j (buf_sz al m q)"
  shows "reply_payload (fill al m i q) = reply_payload (fill al m j q)"
  unfolding fill_payload [of al m i q] fill_payload [of al m j q] assms ..

text \<open>A copy of the next bytes behind those that are there already.\<close>

lemma overwrite_next:
  assumes "length p = sz" and "k < sz" and "n \<le> sz - k" and "xs = take n (drop k pl)" and "k + n \<le> length pl"
  shows "take k (overwrite p (take k pl)) @ xs @ drop (k + n) (overwrite p (take k pl)) = overwrite p (take (k + n) pl)"
  using assms by (simp add: overwrite_def take_add add.commute [of n k])

lemma receive_payload_ok:
  assumes q: "reqs s r = Some (fill al m k q)" and ok: "buf_ok q" and k: "k \<le> length (m_payload m)" and len: "length (m_payload m) < 2 ^ 32"
    and ring: "length ring = 1024" and n: "unat avail \<le> 1024"
    and j: "j = min (unat avail) (length (m_payload m) - k)"
    and bytes: "ring_bytes ring (unat cons) j = take j (drop k (m_payload m))"
  shows "receive_payload r cons avail ring s =
    Inr (cons + of_nat j,
      if k + j = length (m_payload m)
      then (set_req s r ((fill al m (k + j) q)\<lparr>xenbus_replied := True, completion_event := \<not> AustereMode s \<or> completion_event q\<rparr>))
             \<lparr>current_rx_req := None\<rparr>
      else set_req s r (fill al m (k + j) q))"
proof -
  let ?q = "fill al m k q" and ?sz = "buf_sz al m q" and ?len = "length (m_payload m)"
  have uk: "unat (of_nat k :: u32) = k" and ul: "unat (of_nat ?len :: u32) = ?len" using k len by (simp_all add: unat_of_nat_lt)
  let ?left = "of_nat ?len - of_nat k :: u32"
  have left: "unat ?left = ?len - k" using uk ul k by (simp add: unat_sub word_le_nat_alt)
  let ?av = "if ?left < avail then ?left else avail"
  have av: "unat ?av = j" using left j by (auto simp: word_less_nat_alt min_def)
  have j2: "j \<le> 1024" "k + j \<le> ?len" using j n k by auto
  then have uj: "unat (of_nat j :: u32) = j" by (simp add: unat_of_nat_lt)
  then have av2: "?av = of_nat j" using av by (simp only: word_eq_unat)
  have buf: "(if k < ?sz
      then case reply_payload ?q of None \<Rightarrow> Inl BadPointer
        | Some p \<Rightarrow> res_bind (memcpy_from_ring ring p k (min j (?sz - k)) (MASK_XENSTORE_IDX cons) 1024) (\<lambda>p. Inr (Some p))
      else Inr (reply_payload ?q)) = Inr (reply_payload (fill al m (k + j) q))"
  proof (cases "k < ?sz")
    case False
    then have "min k ?sz = min (k + j) ?sz" by auto
    then show ?thesis using False fill_payload_cong [of k al m q "k + j"] by simp
  next
    case True
    obtain p where p: "length p = ?sz" "\<And>i. reply_payload (fill al m i q) = Some (overwrite p (take (min i ?sz) (m_payload m)))"
    proof (cases "reply_payload q")
      case None
      then have al using True ok by (cases al) (simp_all add: buf_sz_def buf_ok_def)
      then show ?thesis using None that [of "replicate ?len 0"] by (simp add: fill_payload buf_sz_def)
    next
      case (Some p)
      then show ?thesis using that [of p] ok by (simp add: fill_payload buf_sz_def buf_ok_def)
    qed
    let ?n = "min j (?sz - k)" and ?p = "overwrite p (take k (m_payload m))"
    have lp: "length ?p = ?sz" using p(1) True k by (simp add: overwrite_def)
    have rb: "ring_bytes ring (MASK_XENSTORE_IDX cons) ?n = take ?n (drop k (m_payload m))"
    proof -
      have "ring_bytes ring (unat cons) ?n = take ?n (ring_bytes ring (unat cons) j)" by (simp add: take_ring_bytes)
      then show ?thesis using bytes by (simp add: unat_mask ring_bytes_mod)
    qed
    have "memcpy_from_ring ring ?p k ?n (MASK_XENSTORE_IDX cons) 1024 =
        Inr (take k ?p @ ring_bytes ring (MASK_XENSTORE_IDX cons) ?n @ drop (k + ?n) ?p)"
      using lp True j2(1) by (intro memcpy_from_ring_ok [OF ring]) (auto simp: unat_mask)
    also have "take k ?p @ ring_bytes ring (MASK_XENSTORE_IDX cons) ?n @ drop (k + ?n) ?p = overwrite p (take (k + ?n) (m_payload m))"
      using overwrite_next [OF p(1) True _ rb] j2(2) by simp
    finally have c: "memcpy_from_ring ring ?p k ?n (MASK_XENSTORE_IDX cons) 1024 = Inr (overwrite p (take (k + ?n) (m_payload m)))" .
    have "min k ?sz = k" "min (k + j) ?sz = k + ?n" using True by auto
    then show ?thesis using True p(2) c by simp
  qed
  have hl: "msg_len (m_header m) = of_nat ?len" by (simp add: m_header_def)
  have "receive_payload r cons avail ring s =
      res_bind (Inr (reply_payload (fill al m (k + j) q))) (\<lambda>p.
        let q' = ?q\<lparr>reply_payload := p, reply_payload_received := k + j\<rparr>
        in xm_assert (k + j \<le> unat (msg_len (reply_header q')))
             (Inr (cons + of_nat j,
                if k + j = unat (msg_len (reply_header q'))
                then (set_req s r (q'\<lparr>xenbus_replied := True, completion_event := \<not> AustereMode s \<or> completion_event q'\<rparr>))
                       \<lparr>current_rx_req := None\<rparr>
                else set_req s r q')))"
    by (simp only: receive_payload_def deref_req_def q option.case res_bind_simps Let_def fill_simps uk hl av2 uj buf)
  then show ?thesis using j2(2) ul hl by (simp add: Let_def fill_upd)
qed

lemma receive_header_ok:
  assumes "m_type m \<le> XS_IS_DOMAIN_INTRODUCED" and "length (m_payload m) < 2 ^ 32"
  shows "receive_header al (m_header m) s =
    Inr (case find_pending_rx_req s (m_req_id m) of
           None \<Rightarrow> s\<lparr>cons_response_discard_bytes := of_nat (length (m_payload m))\<rparr>
         | Some r \<Rightarrow> (case reqs s r of
             None \<Rightarrow> s
           | Some q \<Rightarrow> (set_req s r (fill al m 0 q))
               \<lparr>current_rx_req := Some r\<rparr>))"
proof (cases "find_pending_rx_req s (m_req_id m)")
  case None
  then show ?thesis using assms by (simp add: receive_header_def m_header_def)
next
  case (Some r)
  then obtain q where q: "reqs s r = Some q"
    by (auto simp: find_pending_rx_req_def find_Some_iff split: option.splits)
  have u: "unat (of_nat (length (m_payload m)) :: u32) = length (m_payload m)" using assms(2) by (simp add: unat_of_nat_lt)
  show ?thesis
    using Some q assms(1) u
    by (cases q; cases "reply_payload q"; cases al) (simp_all add: receive_header_def m_header_def deref_req_def Let_def fill_def)
qed

section \<open>Simulation\<close>

definition core :: "xenbus \<Rightarrow> xenbus" where
  "core s = s\<lparr>shared_buf := None\<rparr>"

definition ring_rsp :: "xenbus \<Rightarrow> u8 list" where
  "ring_rsp s = (case shared_buf s of
     None \<Rightarrow> [] | Some b \<Rightarrow> ring_bytes (rsp b) (unat (rsp_cons b)) (span (rsp_cons b) (rsp_prod b)))"

text \<open>The specification's state: no message is half received.\<close>

definition abs_ok :: "xenbus \<Rightarrow> bool" where
  "abs_ok a \<longleftrightarrow> current_rx_req a = None \<and> cons_response_discard_bytes a = 0 \<and> (\<forall>r q. reqs a r = Some q \<longrightarrow> buf_ok q)"

text \<open>\<open>X\<close> are the bytes that are still to be received, on the ring and after it, and \<open>rest\<close> the messages not yet
  delivered: the driver is between messages, it drops the payload of an unknown reply, or it has the first \<open>k\<close> bytes of
  the payload of the next message.\<close>

inductive rx_sim :: "xenbus \<Rightarrow> xenbus \<Rightarrow> u8 list \<Rightarrow> xs_msg list \<Rightarrow> bool" where
  between: "core s = core a \<Longrightarrow> X = concat (map wire rest) \<Longrightarrow> rx_sim a s X rest"
| dropping: "core s = (core a)\<lparr>cons_response_discard_bytes := d\<rparr> \<Longrightarrow> d \<noteq> 0 \<Longrightarrow> X = pl @ concat (map wire rest) \<Longrightarrow> length pl = unat d \<Longrightarrow>
    rx_sim a s X rest"
| inside: "core s = (set_req (core a) r (fill al m k q))\<lparr>current_rx_req := Some r\<rparr> \<Longrightarrow>
    find_pending_rx_req a (m_req_id m) = Some r \<Longrightarrow> reqs a r = Some q \<Longrightarrow> m_type m \<noteq> XS_WATCH_EVENT \<Longrightarrow>
    k < length (m_payload m) \<or> m_payload m = [] \<and> k = 0 \<Longrightarrow> X = drop k (m_payload m) @ concat (map wire rest) \<Longrightarrow>
    rx_sim a s X (m # rest)"

definition rx_rel :: "(watches \<Rightarrow> bool) \<Rightarrow> xenbus \<Rightarrow> xenbus \<Rightarrow> u8 list \<Rightarrow> xs_msg list \<Rightarrow> bool" where
  "rx_rel wok a s F rest \<longleftrightarrow> abs_ok a \<and> wok (xwatches a) \<and> (\<forall>m\<in>set rest. msg_ok m) \<and>
     (\<exists>b. shared_buf s = Some b \<and> page_ok b \<and> unat (rsp_cons b) + length (ring_rsp s @ F) < 2 ^ 32) \<and>
     rx_sim a s (ring_rsp s @ F) rest"

text \<open>Consuming bytes of the ring.\<close>

definition consume :: "nat \<Rightarrow> xenstore_domain_interface \<Rightarrow> xenstore_domain_interface" where
  "consume j b = b\<lparr>rsp_cons := rsp_cons b + of_nat j\<rparr>"

lemma consume_ok:
  assumes "page_ok b" and "j \<le> span (rsp_cons b) (rsp_prod b)" and "unat (rsp_cons b) + span (rsp_cons b) (rsp_prod b) < 2 ^ 32"
  shows "page_ok (consume j b)" "unat (rsp_cons (consume j b)) = unat (rsp_cons b) + j"
    "ring_rsp (t\<lparr>shared_buf := Some (consume j b)\<rparr>) = drop j (ring_rsp (u\<lparr>shared_buf := Some b\<rparr>))"
    "rsp_cons b = rsp_cons b + of_nat j \<longleftrightarrow> j = 0"
proof -
  have j: "j < 2 ^ 32" using assms by linarith
  have u: "unat (of_nat j :: u32) = j" using j by (simp add: unat_of_nat_lt)
  show c: "unat (rsp_cons (consume j b)) = unat (rsp_cons b) + j"
    using unat_add_nat [of "rsp_cons b" j] assms(2,3) by (simp add: consume_def)
  have sp: "span (rsp_cons (consume j b)) (rsp_prod b) = span (rsp_cons b) (rsp_prod b) - j"
    using span_add_cons [of "of_nat j" "rsp_cons b" "rsp_prod b"] assms(2) u by (simp add: consume_def)
  then have "span (rsp_cons (consume j b)) (rsp_prod b) \<le> 1024" using assms(1) unfolding page_ok_def by linarith
  then show "page_ok (consume j b)" using assms(1) by (simp add: page_ok_def consume_def)
  show "ring_rsp (t\<lparr>shared_buf := Some (consume j b)\<rparr>) = drop j (ring_rsp (u\<lparr>shared_buf := Some b\<rparr>))"
    using c sp by (simp add: ring_rsp_def drop_ring_bytes) (simp add: consume_def)
  have "rsp_cons b = rsp_cons b + of_nat j \<longleftrightarrow> (of_nat j :: u32) = 0" by simp
  then show "rsp_cons b = rsp_cons b + of_nat j \<longleftrightarrow> j = 0" using u by (simp only: word_eq_unat unat_0)
qed

lemma set_rsp_cons_consume:
  assumes "page_ok b" and "j \<le> span (rsp_cons b) (rsp_prod b)" and "unat (rsp_cons b) + span (rsp_cons b) (rsp_prod b) < 2 ^ 32"
  shows "set_rsp_cons (rsp_cons b + of_nat j) b s = (j \<noteq> 0, s\<lparr>shared_buf := Some (consume j b)\<rparr>)"
  using consume_ok(4) [OF assms] by (simp add: set_rsp_cons_def consume_def)

text \<open>The bytes that a state has left after it has consumed some.\<close>

lemma ring_rsp_consume:
  assumes "rx_rel wok a s F rest" and "shared_buf s = Some b" and "j \<le> length (ring_rsp s)" and "shared_buf t = Some (consume j b)"
  shows "ring_rsp t = drop j (ring_rsp s)"
proof -
  have b: "page_ok b" "unat (rsp_cons b) + length (ring_rsp s @ F) < 2 ^ 32" using assms(1,2) by (auto simp: rx_rel_def)
  have n: "length (ring_rsp s) = span (rsp_cons b) (rsp_prod b)" using assms(2) by (simp add: ring_rsp_def)
  show ?thesis using consume_ok(3) [OF b(1), of j t s] assms b(2) n by (simp add: ring_rsp_def)
qed

text \<open>What is left to do: every pass consumes bytes or completes an empty reply.\<close>

definition rx_measure :: "xenbus \<Rightarrow> nat" where
  "rx_measure s = 2 * length (ring_rsp s) + (if current_rx_req s = None then 0 else 1)"

text \<open>Xenstored has nothing left to write or no room for it.\<close>

definition rx_full :: "u8 list \<Rightarrow> xenbus \<Rightarrow> bool" where
  "rx_full F s \<longleftrightarrow> F = [] \<or> length (ring_rsp s) = 1024"

lemma rx_measure_consume:
  assumes "rx_rel wok a s F rest" and "shared_buf s = Some b" and "j \<le> length (ring_rsp s)" and "shared_buf t = Some (consume j b)"
    and "1 < j \<or> 0 < j \<and> (current_rx_req s \<noteq> None \<or> current_rx_req t = None) \<or> current_rx_req s \<noteq> None \<and> current_rx_req t = None"
  shows "rx_measure t < rx_measure s"
  using ring_rsp_consume [OF assms(1-4)] assms(3,5) by (auto simp: rx_measure_def)

lemma rx_rel_consume:
  assumes "rx_rel wok a s F rest" and "shared_buf s = Some b" and "j \<le> length (ring_rsp s)" and "shared_buf t = Some (consume j b)"
    and "abs_ok a'" and "wok (xwatches a')" and "set rest' \<subseteq> set rest"
    and "rx_sim a' t (drop j (ring_rsp s @ F)) rest'"
  shows "rx_rel wok a' t F rest'"
proof -
  have b: "page_ok b" "unat (rsp_cons b) + length (ring_rsp s @ F) < 2 ^ 32" "\<forall>m\<in>set rest. msg_ok m"
    using assms(1,2) by (auto simp: rx_rel_def)
  have n: "length (ring_rsp s) = span (rsp_cons b) (rsp_prod b)" using assms(2) by (simp add: ring_rsp_def)
  have "j \<le> span (rsp_cons b) (rsp_prod b)" "unat (rsp_cons b) + span (rsp_cons b) (rsp_prod b) < 2 ^ 32"
    using assms(3) b(2) n by simp_all
  note c = consume_ok [OF b(1) this]
  have r: "ring_rsp t = drop j (ring_rsp s)" by (rule ring_rsp_consume [OF assms(1-4)])
  then have x: "ring_rsp t @ F = drop j (ring_rsp s @ F)" using assms(3) by simp
  have "unat (rsp_cons (consume j b)) + length (ring_rsp t @ F) < 2 ^ 32" using c(2) b(2) x assms(3) by simp
  then show ?thesis using assms(4-8) c(1) b(3) x by (auto simp: rx_rel_def)
qed

lemma core_fields:
  assumes "core s = core a"
  shows "reqs s = reqs a" "pending_reqs s = pending_reqs a" "current_rx_req s = current_rx_req a"
    "cons_response_discard_bytes s = cons_response_discard_bytes a" "AustereMode s = AustereMode a"
    "allow_xenbus_watch_operation s = allow_xenbus_watch_operation a" "xwatches s = xwatches a"
    "find_pending_rx_req s = find_pending_rx_req a"
proof -
  show 1: "reqs s = reqs a" "pending_reqs s = pending_reqs a" and "current_rx_req s = current_rx_req a"
    "cons_response_discard_bytes s = cons_response_discard_bytes a" "AustereMode s = AustereMode a"
    "allow_xenbus_watch_operation s = allow_xenbus_watch_operation a" "xwatches s = xwatches a"
    using arg_cong [OF assms, of reqs] arg_cong [OF assms, of pending_reqs] arg_cong [OF assms, of current_rx_req]
      arg_cong [OF assms, of cons_response_discard_bytes] arg_cong [OF assms, of AustereMode]
      arg_cong [OF assms, of allow_xenbus_watch_operation] arg_cong [OF assms, of xwatches]
    by (simp_all add: core_def)
  show "find_pending_rx_req s = find_pending_rx_req a" using 1 by (simp add: fun_eq_iff find_pending_rx_req_def)
qed

lemma core_eq: "core s = core a \<Longrightarrow> s = a\<lparr>shared_buf := shared_buf s\<rparr>"
  by (cases s; cases a) (simp add: core_def)

text \<open>The three cases of the reception.  Dropping an unknown reply:\<close>

lemma receive_dropping:
  assumes "rx_rel wok a s F rest" and "core s = (core a)\<lparr>cons_response_discard_bytes := d\<rparr>" and "d \<noteq> 0"
    and "ring_rsp s @ F = pl @ concat (map wire rest)" and "length pl = unat d"
  shows "\<exists>s'. receive_from_xenstored al s = Inr (True, s') \<and> rx_rel wok a s' F rest \<and> (rx_full F s \<longrightarrow> rx_measure s' < rx_measure s)"
proof -
  obtain b where b: "shared_buf s = Some b" "page_ok b" "unat (rsp_cons b) + length (ring_rsp s @ F) < 2 ^ 32"
    using assms(1) by (auto simp: rx_rel_def)
  have ab: "abs_ok a" "wok (xwatches a)" using assms(1) by (simp_all add: rx_rel_def)
  have cd: "cons_response_discard_bytes s = d" using arg_cong [OF assms(2), of cons_response_discard_bytes] by (simp add: core_def)
  let ?av = "rsp_prod b - rsp_cons b"
  have n: "length (ring_rsp s) = unat ?av" using b(1) by (simp add: ring_rsp_def span_def)
  define j where "j = (if ?av < d then ?av else d)"
  have j: "unat j = min (unat ?av) (unat d)" by (auto simp: j_def word_less_nat_alt min_def)
  let ?s = "s\<lparr>shared_buf := Some (consume (unat j) b), cons_response_discard_bytes := d - j\<rparr>"
  have rec: "receive_from_xenstored al s = Inr (True, ?s)"
    using b(1) cd assms(3) by (auto simp: receive_from_xenstored_def Let_def consume_def j_def)
  have sub: "unat (d - j) = unat d - unat j" using j by (simp add: unat_sub word_le_nat_alt)
  have X: "drop (unat j) (ring_rsp s @ F) = drop (unat j) pl @ concat (map wire rest)" using assms(4,5) j by simp
  have cr: "core ?s = (core a)\<lparr>cons_response_discard_bytes := d - j\<rparr>"
    using assms(2) by (cases s; cases a) (simp add: core_def)
  have "rx_sim a ?s (drop (unat j) (ring_rsp s @ F)) rest"
  proof (cases "d - j = 0")
    case True
    then have "unat j = unat d" using sub j by (simp add: word_eq_unat)
    moreover have "core ?s = core a" using cr True ab(1) by (simp add: abs_ok_def core_def)
    ultimately show ?thesis using X assms(5) by (intro rx_sim.between) simp_all
  next
    case False
    then show ?thesis using assms(5) sub by (intro rx_sim.dropping [OF cr False X]) simp
  qed
  then have "rx_rel wok a ?s F rest"
    using j n b(1) ab by (intro rx_rel_consume [OF assms(1) b(1), of "unat j"]) simp_all
  moreover have "rx_measure ?s < rx_measure s" if "rx_full F s"
  proof (rule rx_measure_consume [OF assms(1) b(1)])
    have d: "0 < unat d" using assms(3) by (simp add: unat_gt_0)
    have "F = [] \<Longrightarrow> unat d \<le> unat ?av" using assms(4,5) n by (auto dest: arg_cong [of _ _ length])
    then have "0 < unat ?av" using that d n by (auto simp: rx_full_def)
    moreover note d
    moreover have "current_rx_req s = None" using arg_cong [OF assms(2), of current_rx_req] ab(1) by (simp add: core_def abs_ok_def)
    ultimately show "1 < unat j \<or> 0 < unat j \<and> (current_rx_req s \<noteq> None \<or> current_rx_req ?s = None) \<or>
        current_rx_req s \<noteq> None \<and> current_rx_req ?s = None" using j by simp
  qed (use j n in simp_all)
  ultimately show ?thesis using rec by blast
qed

text \<open>Inside the payload of a reply:\<close>

lemma receive_inside:
  assumes "rx_rel wok a s F (m # rest)" and "core s = (set_req (core a) r (fill al' m k q))\<lparr>current_rx_req := Some r\<rparr>"
    and "find_pending_rx_req a (m_req_id m) = Some r" and "reqs a r = Some q" and "m_type m \<noteq> XS_WATCH_EVENT"
    and "k < length (m_payload m) \<or> m_payload m = [] \<and> k = 0" and "ring_rsp s @ F = drop k (m_payload m) @ concat (map wire rest)"
  shows "\<exists>pr s'. receive_from_xenstored al s = Inr (pr, s') \<and>
    (rx_rel wok a s' F (m # rest) \<or> rx_rel wok (deliver al' m a) s' F rest) \<and> (rx_full F s \<longrightarrow> rx_measure s' < rx_measure s)"
proof -
  obtain b where b: "shared_buf s = Some b" "page_ok b" "unat (rsp_cons b) + length (ring_rsp s @ F) < 2 ^ 32"
    using assms(1) by (auto simp: rx_rel_def)
  have ab: "abs_ok a" "wok (xwatches a)" "msg_ok m" using assms(1) by (simp_all add: rx_rel_def)
  have fs: "current_rx_req s = Some r" "cons_response_discard_bytes s = 0" "reqs s = (reqs a)(r \<mapsto> fill al' m k q)" "AustereMode s = AustereMode a"
    using arg_cong [OF assms(2), of current_rx_req] arg_cong [OF assms(2), of cons_response_discard_bytes]
      arg_cong [OF assms(2), of reqs] arg_cong [OF assms(2), of AustereMode] ab(1)
    by (simp_all add: core_def set_req_def abs_ok_def)
  let ?av = "rsp_prod b - rsp_cons b" and ?len = "length (m_payload m)"
  define j where "j = min (unat ?av) (?len - k)"
  have n: "length (ring_rsp s) = unat ?av" using b(1) by (simp add: ring_rsp_def span_def)
  have pb: "length (rsp b) = 1024" "unat ?av \<le> 1024" using b(2) by (simp_all add: page_ok_def span_def)
  have k: "k \<le> ?len" "?len < 2 ^ 32" using assms(6) ab(3) by (auto simp: msg_ok_def)
  have bytes: "ring_bytes (rsp b) (unat (rsp_cons b)) j = take j (drop k (m_payload m))"
  proof -
    have "ring_bytes (rsp b) (unat (rsp_cons b)) j = take j (ring_rsp s)"
      using b(1) by (simp add: ring_rsp_def take_ring_bytes span_def j_def)
    also have "\<dots> = take j (ring_rsp s @ F)" using n by (simp add: j_def)
    also have "\<dots> = take j (drop k (m_payload m))" unfolding assms(7) by (simp add: j_def)
    finally show ?thesis .
  qed
  have bq: "buf_ok q" using ab(1) assms(4) by (simp add: abs_ok_def)
  let ?t = "if k + j = ?len
      then (set_req s r ((fill al' m (k + j) q)\<lparr>xenbus_replied := True, completion_event := \<not> AustereMode s \<or> completion_event q\<rparr>))
             \<lparr>current_rx_req := None\<rparr>
      else set_req s r (fill al' m (k + j) q)"
  let ?s = "?t\<lparr>shared_buf := Some (consume j b)\<rparr>"
  have rp: "receive_payload r (rsp_cons b) ?av (rsp b) s = Inr (rsp_cons b + of_nat j, ?t)"
    using receive_payload_ok [OF _ bq k pb j_def bytes, of s r al'] fs(3) by simp
  have jn: "j \<le> span (rsp_cons b) (rsp_prod b)" "unat (rsp_cons b) + span (rsp_cons b) (rsp_prod b) < 2 ^ 32"
    using b(3) n by (simp_all add: j_def span_def)
  have rec: "receive_from_xenstored al s = Inr (j \<noteq> 0, ?s)"
    using b(1) fs(1,2) rp set_rsp_cons_consume [OF b(2) jn, of ?t] by (simp add: receive_from_xenstored_def Let_def del: if_split)
  have X: "drop j (ring_rsp s @ F) = drop (k + j) (m_payload m) @ concat (map wire rest)"
    using assms(7) by (simp add: j_def add.commute)
  have jj: "j \<le> length (ring_rsp s)" using n by (simp add: j_def)
  show ?thesis
  proof (cases "k + j = ?len")
    case True
    have d: "deliver al' m a = set_req a r ((fill al' m ?len q)\<lparr>xenbus_replied := True, completion_event := \<not> AustereMode a \<or> completion_event q\<rparr>)"
      using assms(3-5) by (simp add: deliver_def Let_def)
    have "core ?s = core (deliver al' m a)"
      unfolding d using assms(2) True fs(4) ab(1) by (cases s; cases a) (simp add: core_def set_req_def abs_ok_def)
    moreover have "abs_ok (deliver al' m a)"
      using ab(1) bq by (auto simp: d abs_ok_def set_req_def buf_ok_def fill_payload buf_sz_def overwrite_def split: option.splits if_splits)
    moreover have "xwatches (deliver al' m a) = xwatches a" by (simp add: d set_req_def)
    ultimately have "rx_rel wok (deliver al' m a) ?s F rest"
      using ab(2) X True by (intro rx_rel_consume [OF assms(1) b(1) jj] rx_sim.between) auto
    moreover have "rx_measure ?s < rx_measure s" using fs(1) True by (intro rx_measure_consume [OF assms(1) b(1) jj]) simp_all
    ultimately show ?thesis using rec by blast
  next
    case False
    have "core ?s = (set_req (core a) r (fill al' m (k + j) q))\<lparr>current_rx_req := Some r\<rparr>"
      using assms(2) False by (cases s; cases a) (simp add: core_def set_req_def)
    moreover have "k + j < ?len" using False k by (simp add: j_def)
    ultimately have "rx_rel wok a ?s F (m # rest)"
      using ab X by (intro rx_rel_consume [OF assms(1) b(1) jj] rx_sim.inside [OF _ assms(3-5)]) auto
    moreover have "rx_measure ?s < rx_measure s" if "rx_full F s"
    proof (rule rx_measure_consume [OF assms(1) b(1) jj])
      have "F = [] \<Longrightarrow> length (drop k (m_payload m)) \<le> unat ?av" using assms(7) n by (auto dest: arg_cong [of _ _ length])
      moreover have "k < ?len" using False k by (simp add: j_def)
      ultimately have "0 < unat ?av" using that n by (auto simp: rx_full_def)
      then have "0 < j" using \<open>k < ?len\<close> by (simp add: j_def)
      then show "1 < j \<or> 0 < j \<and> (current_rx_req s \<noteq> None \<or> current_rx_req ?s = None) \<or>
          current_rx_req s \<noteq> None \<and> current_rx_req ?s = None" using fs(1) by simp
    qed simp
    ultimately show ?thesis using rec by blast
  qed
qed

text \<open>Between messages, a reply:\<close>

lemma read_header_ok:
  assumes "shared_buf s = Some b" and "page_ok b" and "16 \<le> length (ring_rsp s)" and "ring_rsp s @ F = wire m @ X"
  shows "memcpy_from_ring (rsp b) (replicate 16 0) 0 16 (MASK_XENSTORE_IDX (rsp_cons b)) XENSTORE_RING_SIZE = Inr (encode_sockmsg (m_header m))"
proof -
  have "ring_bytes (rsp b) (MASK_XENSTORE_IDX (rsp_cons b)) 16 = ring_bytes (rsp b) (unat (rsp_cons b)) 16"
    by (simp add: unat_mask ring_bytes_mod)
  also have "\<dots> = take 16 (ring_rsp s)" using assms(1,3) by (simp add: ring_rsp_def take_ring_bytes min_def)
  also have "\<dots> = take 16 (ring_rsp s @ F)" using assms(3) by simp
  also have "\<dots> = encode_sockmsg (m_header m)" unfolding assms(4) by (simp add: wire_def)
  finally show ?thesis
    using memcpy_from_ring_ok [of "rsp b" "MASK_XENSTORE_IDX (rsp_cons b)" 16 0 "replicate 16 0"] assms(2)
    by (simp add: page_ok_def unat_mask)
qed

lemma receive_between_reply:
  assumes "rx_rel wok a s F (m # rest)" and "core s = core a" and "ring_rsp s @ F = wire m @ concat (map wire rest)"
    and "16 \<le> length (ring_rsp s)" and "m_type m \<noteq> XS_WATCH_EVENT"
  shows "\<exists>s'. receive_from_xenstored al s = Inr (True, s') \<and>
    (rx_rel wok a s' F (m # rest) \<or> rx_rel wok (deliver al m a) s' F rest) \<and> rx_measure s' < rx_measure s"
proof -
  obtain b where b: "shared_buf s = Some b" "page_ok b" "unat (rsp_cons b) + length (ring_rsp s @ F) < 2 ^ 32"
    using assms(1) by (auto simp: rx_rel_def)
  have ab: "abs_ok a" "wok (xwatches a)" "msg_ok m" using assms(1) by (simp_all add: rx_rel_def)
  note cf = core_fields [OF assms(2)]
  have n: "length (ring_rsp s) = unat (rsp_prod b - rsp_cons b)" using b(1) by (simp add: ring_rsp_def span_def)
  have sp: "16 \<le> span (rsp_cons b) (rsp_prod b)" "unat (rsp_cons b) + span (rsp_cons b) (rsp_prod b) < 2 ^ 32"
    using assms(4) n b(3) by (simp_all add: span_def)
  have h: "msg_type (m_header m) \<noteq> XS_WATCH_EVENT" using assms(5) by (simp add: m_header_def)
  have mo: "m_type m \<le> XS_IS_DOMAIN_INTRODUCED" "length (m_payload m) < 2 ^ 32" using ab(3) assms(5) by (simp_all add: msg_ok_def)
  let ?t = "case find_pending_rx_req s (m_req_id m) of
           None \<Rightarrow> s\<lparr>cons_response_discard_bytes := of_nat (length (m_payload m))\<rparr>
         | Some r \<Rightarrow> (case reqs s r of
             None \<Rightarrow> s
           | Some q \<Rightarrow> (set_req s r (fill al m 0 q))\<lparr>current_rx_req := Some r\<rparr>)"
  let ?s = "?t\<lparr>shared_buf := Some (consume 16 b)\<rparr>"
  have dec: "decode_sockmsg (encode_sockmsg (m_header m)) = m_header m" using decode_encode [of "m_header m" "[]"] by simp
  have av: "\<not> rsp_prod b - rsp_cons b < 16" using assms(4) n by (simp add: word_less_nat_alt)
  have fs: "cons_response_discard_bytes s = 0" "current_rx_req s = None" using cf ab(1) by (simp_all add: abs_ok_def)
  have cons: "set_rsp_cons (rsp_cons b + 16) b ?t = (True, ?s)" using set_rsp_cons_consume [OF b(2) sp, of ?t] by simp
  have rec: "receive_from_xenstored al s = Inr (True, ?s)"
    unfolding receive_from_xenstored_def b(1) option.case Let_def fs
    by (simp only: av if_False read_header_ok [OF b(1,2) assms(4,3)] res_bind_simps dec h receive_header_ok [OF mo] cons simp_thms option.case)
  have X: "drop 16 (ring_rsp s @ F) = m_payload m @ concat (map wire rest)" unfolding assms(3) by (simp add: wire_def)
  have dec: "rx_measure ?s < rx_measure s" by (rule rx_measure_consume [OF assms(1) b(1) assms(4)]) simp_all
  show ?thesis
  proof (cases "find_pending_rx_req s (m_req_id m)")
    case None
    then have d: "deliver al m a = a" using assms(5) cf(8) by (simp add: deliver_def)
    let ?d = "of_nat (length (m_payload m)) :: u32"
    have ud: "unat ?d = length (m_payload m)" using mo(2) by (simp add: unat_of_nat_lt)
    have cr: "core ?s = (core a)\<lparr>cons_response_discard_bytes := ?d\<rparr>" using assms(2) None by (cases s; cases a) (simp add: core_def)
    have "rx_sim a ?s (drop 16 (ring_rsp s @ F)) rest"
    proof (cases "?d = 0")
      case True
      then have "m_payload m = []" using ud by simp
      moreover have "core ?s = core a" using cr True ab(1) by (simp add: core_def abs_ok_def)
      ultimately show ?thesis using X by (intro rx_sim.between) simp_all
    next
      case False
      show ?thesis by (rule rx_sim.dropping [OF cr False X]) (simp add: ud)
    qed
    then have "rx_rel wok a ?s F rest" using ab by (intro rx_rel_consume [OF assms(1) b(1) assms(4)]) auto
    then show ?thesis using rec d dec by auto
  next
    case (Some r)
    then obtain q where q: "reqs s r = Some q"
      by (auto simp: find_pending_rx_req_def find_Some_iff split: option.splits)
    have cr: "core ?s = (set_req (core a) r (fill al m 0 q))\<lparr>current_rx_req := Some r\<rparr>"
      using assms(2) Some q by (cases s; cases a) (simp add: core_def set_req_def)
    have "rx_sim a ?s (drop 16 (ring_rsp s @ F)) (m # rest)"
      by (rule rx_sim.inside [OF cr _ _ assms(5)]) (use Some q cf X in auto)
    then have "rx_rel wok a ?s F (m # rest)" using ab by (intro rx_rel_consume [OF assms(1) b(1) assms(4)]) auto
    then show ?thesis using rec dec by auto
  qed
qed

section \<open>Watch events and histories\<close>

text \<open>What the reception needs of the watches: firing a token succeeds and keeps them usable.\<close>

locale watch_target =
  fixes wok :: "watches \<Rightarrow> bool"
  assumes fire_ok: "wok w \<Longrightarrow> \<exists>w'. fire_watch_by_ident False w t = Inr w' \<and> wok w'"
begin

lemma receive_between_event:
  assumes "rx_rel wok a s F (m # rest)" and "core s = core a" and "ring_rsp s @ F = wire m @ concat (map wire rest)"
    and "16 \<le> length (ring_rsp s)" and "m_type m = XS_WATCH_EVENT"
  shows "\<exists>pr s'. receive_from_xenstored al s = Inr (pr, s') \<and>
    (rx_rel wok a s' F (m # rest) \<or> rx_rel wok (deliver al m a) s' F rest) \<and> (rx_full F s \<longrightarrow> rx_measure s' < rx_measure s)"
proof -
  obtain b where b: "shared_buf s = Some b" "page_ok b" "unat (rsp_cons b) + length (ring_rsp s @ F) < 2 ^ 32"
    using assms(1) by (auto simp: rx_rel_def)
  have ab: "abs_ok a" "wok (xwatches a)" "msg_ok m" using assms(1) by (simp_all add: rx_rel_def)
  obtain p t where pt: "m_payload m = watch_payload p t" "0 \<notin> set p" "0 \<notin> set t" "length t \<le> 16" "length (m_payload m) \<le> 1008"
      "length (m_payload m) < 2 ^ 32"
    using ab(3) assms(5) by (auto simp: msg_ok_def)
  note cf = core_fields [OF assms(2)]
  let ?len = "length (m_payload m)"
  have len: "?len = length p + length t + 2" using pt(1) by (simp add: watch_payload_def)
  have n: "length (ring_rsp s) = unat (rsp_prod b - rsp_cons b)" using b(1) by (simp add: ring_rsp_def span_def)
  have h: "msg_type (m_header m) = XS_WATCH_EVENT" "msg_len (m_header m) = of_nat ?len" using assms(5) by (simp_all add: m_header_def)
  have ul: "unat (of_nat ?len :: u32) = ?len" using pt(6) by (simp add: unat_of_nat_lt)
  have dec: "decode_sockmsg (encode_sockmsg (m_header m)) = m_header m" using decode_encode [of "m_header m" "[]"] by simp
  have av: "\<not> rsp_prod b - rsp_cons b < 16" using assms(4) n by (simp add: word_less_nat_alt)
  have fs: "cons_response_discard_bytes s = 0" "current_rx_req s = None" using cf ab(1) by (simp_all add: abs_ok_def)
  note rd = read_header_ok [OF b(1,2) assms(4,3)]
  show ?thesis
  proof (cases "length (ring_rsp s) < 16 + ?len")
    case True
    have "receive_from_xenstored al s = Inr (False, s)"
      unfolding receive_from_xenstored_def b(1) option.case Let_def fs
      using True n by (simp add: av rd dec h ul)
    moreover have "\<not> rx_full F s" using True assms(3) pt(5) by (auto simp: rx_full_def wire_def dest: arg_cong [of _ _ length])
    ultimately show ?thesis using assms(1) by blast
  next
    case False
    let ?c = "rsp_cons b" and ?e = "rsp_cons b + 16 + of_nat (length (m_payload m))"
    have sp: "16 + ?len \<le> span ?c (rsp_prod b)" "unat ?c + span ?c (rsp_prod b) < 2 ^ 32" using False n b(3) by (simp_all add: span_def)
    have e: "?e = ?c + of_nat (16 + ?len)" by (simp add: algebra_simps)
    have ue: "unat ?e = unat ?c + 16 + ?len" using unat_add_nat [of ?c "16 + ?len"] sp unfolding e by linarith
    have "unat (rsp_prod b) = unat ?c + span ?c (rsp_prod b)"
      using unat_add_nat [of ?c "span ?c (rsp_prod b)"] sp(2) by (simp add: span_def)
    then have le: "?e \<le> rsp_prod b" using ue sp(1) by (simp add: word_le_nat_alt)
    have bytes: "ring_bytes (rsp b) (unat ?c + 16) (length p + length t + 2) = watch_payload p t"
    proof -
      have "min ?len (span ?c (rsp_prod b) - 16) = ?len" using sp(1) by linarith
      then have "ring_bytes (rsp b) (unat ?c + 16) ?len = take ?len (drop 16 (ring_rsp s))"
        using b(1) by (simp add: ring_rsp_def drop_ring_bytes take_ring_bytes)
      also have "\<dots> = take ?len (drop 16 (ring_rsp s @ F))" using False by simp
      also have "\<dots> = m_payload m" unfolding assms(3) by (simp add: wire_def)
      finally show ?thesis using pt(1) len by simp
    qed
    obtain w where w: "fire_watch_by_ident False (xwatches s) t = Inr w" "wok w" using fire_ok [OF ab(2)] cf(7) by metis
    let ?t = "if AustereMode s \<or> \<not> allow_xenbus_watch_operation s then s else s\<lparr>xwatches := w\<rparr>"
    have ev: "receive_watch_event ?c ?e (rsp b) s = Inr ?t"
      using receive_watch_event_ok [OF _ bytes pt(2,3,4) _ _ _ w(1), of ?e] b(2) pt(5) len sp by (simp add: page_ok_def)
    let ?s = "?t\<lparr>shared_buf := Some (consume (16 + ?len) b)\<rparr>"
    have cons: "set_rsp_cons ?e b ?t = (True, ?s)" using set_rsp_cons_consume [OF b(2) sp, of ?t] unfolding e by simp
    have rec: "receive_from_xenstored al s = Inr (True, ?s)"
      unfolding receive_from_xenstored_def b(1) option.case Let_def fs
      using False n by (simp add: av rd dec h ul le ev cons del: if_split)
    have tok: "event_token m = t"
    proof -
      have "dropWhile (\<lambda>c. c \<noteq> 0) (p @ 0 # t @ [0]) = 0 # t @ [0]" using pt(2) by (subst dropWhile_append2) auto
      then show ?thesis using pt(1,3) by (simp add: event_token_def watch_payload_def) (subst takeWhile_append2, auto)
    qed
    have fr: "fire (xwatches a) (event_token m) = w" using w(1) cf(7) tok by (simp add: fire_def)
    have "core ?s = core (deliver al m a)"
      using assms(2,5) fr cf(5,6) by (cases s; cases a) (simp add: core_def deliver_def)
    moreover have "abs_ok (deliver al m a)" "wok (xwatches (deliver al m a))"
      using ab(1,2) assms(5) fr w(2) by (simp_all add: deliver_def abs_ok_def)
    moreover have "drop (16 + ?len) (ring_rsp s @ F) = concat (map wire rest)" unfolding assms(3) by (simp add: wire_def)
    ultimately have "rx_rel wok (deliver al m a) ?s F rest"
      using False by (intro rx_rel_consume [OF assms(1) b(1), of "16 + ?len"] rx_sim.between) auto
    moreover have "rx_measure ?s < rx_measure s" using False by (intro rx_measure_consume [OF assms(1) b(1), of "16 + ?len"]) simp_all
    ultimately show ?thesis using rec by blast
  qed
qed

lemma receive_ok:
  assumes "rx_rel wok a s F rest"
  shows "\<exists>pr s' dl rest'. receive_from_xenstored al s = Inr (pr, s') \<and> rest = map snd dl @ rest' \<and>
    rx_rel wok (deliver_all dl a) s' F rest' \<and> (rx_full F s \<and> rest \<noteq> [] \<longrightarrow> rx_measure s' < rx_measure s)"
proof -
  have "rx_sim a s (ring_rsp s @ F) rest" using assms by (simp add: rx_rel_def)
  then show ?thesis
  proof cases
    case between
    show ?thesis
    proof (cases "16 \<le> length (ring_rsp s)")
      case False
      obtain b where b: "shared_buf s = Some b" using assms by (auto simp: rx_rel_def)
      then have "rsp_prod b - rsp_cons b < 16" using False by (simp add: ring_rsp_def span_def word_less_nat_alt)
      moreover have "cons_response_discard_bytes s = 0" "current_rx_req s = None"
        using core_fields [OF between(1)] assms by (simp_all add: rx_rel_def abs_ok_def)
      ultimately have "receive_from_xenstored al s = Inr (False, s)" using b by (simp add: receive_from_xenstored_def Let_def)
      moreover have "rx_full F s \<Longrightarrow> rest = []" using False between(2) by (cases rest) (auto simp: wire_def rx_full_def)
      ultimately show ?thesis using assms by (intro exI [of _ False] exI [of _ s] exI [of _ "[]"] exI [of _ rest]) auto
    next
      case True
      then obtain m rest' where r: "rest = m # rest'" using between(2) by (cases rest) auto
      have X: "ring_rsp s @ F = wire m @ concat (map wire rest')" using between(2) r by simp
      note A = assms [unfolded r] between(1) X True
      have "\<exists>pr s'. receive_from_xenstored al s = Inr (pr, s') \<and>
          (rx_rel wok a s' F (m # rest') \<or> rx_rel wok (deliver al m a) s' F rest') \<and> (rx_full F s \<longrightarrow> rx_measure s' < rx_measure s)"
        using receive_between_event [OF A, of al] receive_between_reply [OF A, of al] by blast
      then obtain pr s' where s': "receive_from_xenstored al s = Inr (pr, s')"
          "rx_rel wok a s' F (m # rest') \<or> rx_rel wok (deliver al m a) s' F rest'" "rx_full F s \<longrightarrow> rx_measure s' < rx_measure s" by blast
      from s'(2) show ?thesis
      proof
        assume "rx_rel wok a s' F (m # rest')"
        then show ?thesis using s'(1,3) r by (intro exI [of _ pr] exI [of _ s'] exI [of _ "[]"] exI [of _ "m # rest'"]) simp
      next
        assume "rx_rel wok (deliver al m a) s' F rest'"
        then show ?thesis using s'(1,3) r by (intro exI [of _ pr] exI [of _ s'] exI [of _ "[(al, m)]"] exI [of _ rest']) simp
      qed
    qed
  next
    case (dropping d pl)
    obtain s' where "receive_from_xenstored al s = Inr (True, s')" "rx_rel wok a s' F rest" "rx_full F s \<longrightarrow> rx_measure s' < rx_measure s"
      using receive_dropping [OF assms dropping(1,2,3,4), of al] by blast
    then show ?thesis by (intro exI [of _ True] exI [of _ s'] exI [of _ "[]"] exI [of _ rest]) simp
  next
    case (inside r al' m k q rest')
    obtain pr s' where s': "receive_from_xenstored al s = Inr (pr, s')"
        "rx_rel wok a s' F (m # rest') \<or> rx_rel wok (deliver al' m a) s' F rest'" "rx_full F s \<longrightarrow> rx_measure s' < rx_measure s"
      using receive_inside [OF assms [unfolded inside(1)] inside(2-7), of al] by blast
    from s'(2) show ?thesis
    proof
      assume "rx_rel wok a s' F (m # rest')"
      then show ?thesis using s'(1,3) inside(1) by (intro exI [of _ pr] exI [of _ s'] exI [of _ "[]"] exI [of _ "m # rest'"]) simp
    next
      assume "rx_rel wok (deliver al' m a) s' F rest'"
      then show ?thesis using s'(1,3) inside(1) by (intro exI [of _ pr] exI [of _ s'] exI [of _ "[(al', m)]"] exI [of _ rest']) simp
    qed
  qed
qed

end

section \<open>What the simulation shows\<close>

lemma rx_sim_shows:
  assumes "rx_sim a s X rest"
  shows "xwatches s = xwatches a \<and> pending_reqs s = pending_reqs a \<and> (\<forall>r. current_rx_req s \<noteq> Some r \<longrightarrow> reqs s r = reqs a r)"
  using assms
proof cases
  case between
  note f = core_fields [OF between(1)]
  show ?thesis using f by simp
next
  case (dropping d pl)
  have "core s = core (a\<lparr>cons_response_discard_bytes := d\<rparr>)" unfolding dropping(1) by (simp add: core_def)
  note f = core_fields [OF this]
  show ?thesis using f(1,2,7) by simp
next
  case (inside r al m k q rest')
  have "core s = core ((set_req a r (fill al m k q))\<lparr>current_rx_req := Some r\<rparr>)" unfolding inside(2) by (simp add: core_def set_req_def)
  note f = core_fields [OF this]
  show ?thesis using f(1,2,3,7) by (simp add: set_req_def)
qed

lemma rx_sim_done:
  assumes "rx_sim a s X []"
  shows "reqs s = reqs a"
  using assms
proof cases
  case between
  note f = core_fields [OF between(1)]
  show ?thesis using f by simp
next
  case (dropping d pl)
  have "core s = core (a\<lparr>cons_response_discard_bytes := d\<rparr>)" unfolding dropping(1) by (simp add: core_def)
  note f = core_fields [OF this]
  show ?thesis using f(1) by simp
qed

section \<open>Histories\<close>

text \<open>Xenstored writes up to \<open>k\<close> of the bytes \<open>F\<close> that it has still to send.\<close>

definition daemon_put :: "nat \<Rightarrow> u8 list \<Rightarrow> xenbus \<Rightarrow> u8 list \<times> xenbus" where
  "daemon_put k F s =
     (case shared_buf s of
        None \<Rightarrow> (F, s)
      | Some b \<Rightarrow>
          let sp = span (rsp_cons b) (rsp_prod b); k = min k (1024 - sp); xs = take k F
          in (drop k F, s\<lparr>shared_buf := Some (b\<lparr>rsp := ring_write (rsp b) ((unat (rsp_cons b) + sp) mod 1024) xs,
               rsp_prod := rsp_prod b + of_nat (length xs)\<rparr>)\<rparr>))"

datatype rx_op = RxPut nat | RxReceive bool

fun run_rx_op :: "rx_op \<Rightarrow> u8 list \<times> xenbus \<Rightarrow> (u8 list \<times> xenbus) res" where
  "run_rx_op (RxPut k) (F, s) = Inr (daemon_put k F s)"
| "run_rx_op (RxReceive al) (F, s) = res_bind (receive_from_xenstored al s) (\<lambda>(pr, s). Inr (F, s))"

fun run_rx_ops :: "rx_op list \<Rightarrow> u8 list \<times> xenbus \<Rightarrow> (u8 list \<times> xenbus) res" where
  "run_rx_ops [] x = Inr x"
| "run_rx_ops (p # ps) x = res_bind (run_rx_op p x) (run_rx_ops ps)"

lemma run_rx_ops_append: "run_rx_ops (ps @ qs) x = res_bind (run_rx_ops ps x) (run_rx_ops qs)"
  by (induction ps arbitrary: x) (simp_all add: res_bind_def split: sum.splits)

lemma daemon_put_ok:
  assumes "rx_rel wok a s F rest" and "daemon_put k F s = (F', s')"
  shows "rx_rel wok a s' F' rest" "F' = drop (min k (1024 - length (ring_rsp s))) F" "k = 1024 \<longrightarrow> rx_full F' s' \<or> length F' < length F"
    "length F' = length F \<longrightarrow> rx_measure s' = rx_measure s"
proof -
  obtain b where b: "shared_buf s = Some b" "page_ok b" "unat (rsp_cons b) + length (ring_rsp s @ F) < 2 ^ 32"
    using assms(1) by (auto simp: rx_rel_def)
  let ?sp = "span (rsp_cons b) (rsp_prod b)"
  define xs where "xs = take (min k (1024 - ?sp)) F"
  define b' where "b' = b\<lparr>rsp := ring_write (rsp b) ((unat (rsp_cons b) + ?sp) mod 1024) xs, rsp_prod := rsp_prod b + of_nat (length xs)\<rparr>"
  have s': "F' = drop (min k (1024 - ?sp)) F" "s' = s\<lparr>shared_buf := Some b'\<rparr>"
    using assms(2) b(1) by (auto simp: daemon_put_def Let_def b'_def xs_def)
  have n: "length (ring_rsp s) = ?sp" using b(1) by (simp add: ring_rsp_def)
  have sp: "?sp \<le> 1024" "length (rsp b) = 1024" using b(2) by (simp_all add: page_ok_def)
  have lx: "?sp + length xs \<le> 1024" using sp(1) by (simp add: xs_def)
  have u: "unat (of_nat (length xs) :: u32) = length xs" using lx by (simp add: unat_of_nat_lt)
  have sp': "span (rsp_cons b') (rsp_prod b') = ?sp + length xs"
    using span_add_prod [of "rsp_cons b" "rsp_prod b" "of_nat (length xs)"] u lx by (simp add: b'_def)
  have pg: "page_ok b'" using b(2) sp' lx sp(2) by (simp add: page_ok_def) (simp add: b'_def)
  have r: "ring_rsp s' = ring_rsp s @ xs"
    using ring_bytes_write [OF sp(2) lx, of "unat (rsp_cons b)"] s'(2) sp' b(1) by (simp add: ring_rsp_def) (simp add: b'_def)
  have F: "ring_rsp s' @ F' = ring_rsp s @ F" using r s'(1) by (simp add: xs_def)
  have core: "core s' = core s" using s'(2) by (simp add: core_def)
  have "rx_sim a s (ring_rsp s @ F) rest" using assms(1) by (simp add: rx_rel_def)
  then have "rx_sim a s' (ring_rsp s @ F) rest"
    by cases (use core in \<open>auto intro: rx_sim.intros\<close>)
  moreover have "unat (rsp_cons b') + length (ring_rsp s' @ F') < 2 ^ 32" using b(3) unfolding F by (simp add: b'_def)
  ultimately show "rx_rel wok a s' F' rest"
    using assms(1) s'(2) pg unfolding rx_rel_def F by simp
  show "F' = drop (min k (1024 - length (ring_rsp s))) F" using s'(1) n by simp
  show "k = 1024 \<longrightarrow> rx_full F' s' \<or> length F' < length F"
    using r s'(1) n lx by (auto simp: rx_full_def xs_def min_def split: if_splits)
  show "length F' = length F \<longrightarrow> rx_measure s' = rx_measure s"
  proof
    assume "length F' = length F"
    then have "F = [] \<or> min k (1024 - ?sp) = 0" unfolding s'(1) length_drop by (cases F) simp_all
    then have "xs = []" unfolding xs_def by (elim disjE) simp_all
    then show "rx_measure s' = rx_measure s" using r s'(2) by (simp add: rx_measure_def)
  qed
qed

context watch_target
begin

lemma run_rx_ops_ok:
  assumes "rx_rel wok a s F rest"
  shows "\<exists>F' s' dl rest'. run_rx_ops ps (F, s) = Inr (F', s') \<and> rest = map snd dl @ rest' \<and> rx_rel wok (deliver_all dl a) s' F' rest'"
  using assms
proof (induction ps arbitrary: a s F rest)
  case Nil
  then show ?case by (intro exI [of _ F] exI [of _ s] exI [of _ "[]"] exI [of _ rest]) simp
next
  case (Cons p ps)
  obtain F1 s1 dl1 rest1 where 1: "run_rx_op p (F, s) = Inr (F1, s1)" "rest = map snd dl1 @ rest1" "rx_rel wok (deliver_all dl1 a) s1 F1 rest1"
  proof (cases p)
    case (RxPut k)
    obtain F1 s1 where put: "daemon_put k F s = (F1, s1)" by (cases "daemon_put k F s")
    show thesis using daemon_put_ok(1) [OF Cons(2) put] RxPut put by (intro that [of F1 s1 "[]" rest]) simp_all
  next
    case (RxReceive al)
    obtain pr s1 dl rest1 where "receive_from_xenstored al s = Inr (pr, s1)" "rest = map snd dl @ rest1" "rx_rel wok (deliver_all dl a) s1 F rest1"
      using receive_ok [OF Cons(2), of al] by blast
    then show thesis using RxReceive by (intro that [of F s1 dl rest1]) simp_all
  qed
  obtain F2 s2 dl2 rest2 where "run_rx_ops ps (F1, s1) = Inr (F2, s2)" "rest1 = map snd dl2 @ rest2"
      "rx_rel wok (deliver_all dl2 (deliver_all dl1 a)) s2 F2 rest2"
    using Cons(1) [OF 1(3)] by blast
  then show ?case using 1 by (intro exI [of _ F2] exI [of _ s2] exI [of _ "dl1 @ dl2"] exI [of _ rest2]) simp
qed

text \<open>Rounds in which xenstored writes what fits and the driver makes one pass deliver everything.\<close>

lemma rx_rounds_deliver:
  assumes "rx_rel wok a s F rest"
  shows "\<exists>n F' s' dl. run_rx_ops (concat (replicate n [RxPut 1024, RxReceive al])) (F, s) = Inr (F', s') \<and>
    rest = map snd dl \<and> rx_rel wok (deliver_all dl a) s' F' []"
  using assms
proof (induction "(length F, rx_measure s)" arbitrary: a s F rest rule: wf_induct_rule [OF wf_lex_prod [OF wf_less wf_less]])
  case 1
  show ?case
  proof (cases "rest = []")
    case True
    then show ?thesis using 1(2) by (intro exI [of _ 0] exI [of _ F] exI [of _ s] exI [of _ "[]"]) simp
  next
    case False
    obtain F1 s1 where put: "daemon_put 1024 F s = (F1, s1)" by (cases "daemon_put 1024 F s")
    note pk = daemon_put_ok [OF 1(2) put]
    obtain pr s2 dl1 rest1 where rc: "receive_from_xenstored al s1 = Inr (pr, s2)" "rest = map snd dl1 @ rest1"
        "rx_rel wok (deliver_all dl1 a) s2 F1 rest1" "rx_full F1 s1 \<and> rest \<noteq> [] \<longrightarrow> rx_measure s2 < rx_measure s1"
      using receive_ok [OF pk(1), of al] by blast
    have le: "length F1 \<le> length F" using pk(2) by simp
    have "((length F1, rx_measure s2), (length F, rx_measure s)) \<in> {(x, y). x < y} <*lex*> {(x, y). x < y}"
      using le pk(3,4) rc(4) False by (cases "length F1 < length F") auto
    from 1(1) [OF this rc(3)] obtain n F' s' dl where ih: "run_rx_ops (concat (replicate n [RxPut 1024, RxReceive al])) (F1, s2) = Inr (F', s')"
        "rest1 = map snd dl" "rx_rel wok (deliver_all dl (deliver_all dl1 a)) s' F' []" by blast
    show ?thesis
      using ih rc(1,2) put by (intro exI [of _ "Suc n"] exI [of _ F'] exI [of _ s'] exI [of _ "dl1 @ dl"]) simp
  qed
qed

end

interpretation wtable: watch_target table_ok
  by unfold_locales (rule fire_table_ok)

section \<open>Properties\<close>


section \<open>Where reception stops\<close>

lemma discard_pass:
  assumes "shared_buf s = Some b" and "rsp_prod b = rsp_cons b" and "cons_response_discard_bytes s \<noteq> 0"
  shows "receive_from_xenstored al s = Inr (True, s)"
proof -
  have "s\<lparr>shared_buf := Some b, cons_response_discard_bytes := cons_response_discard_bytes s\<rparr> = s" using assms(1) by (cases s) simp
  moreover have "0 < cons_response_discard_bytes s" using assms(3) by (simp add: word_gt_0)
  ultimately show ?thesis using assms by (simp add: receive_from_xenstored_def Let_def)
qed

text \<open>Xenstored reads requests but sends nothing.\<close>

definition silent :: "(nat \<Rightarrow> xenstore_domain_interface \<Rightarrow> xenstore_domain_interface) \<Rightarrow> bool" where
  "silent peer \<longleftrightarrow> (\<forall>n b. rsp_prod (peer n b) = rsp_prod b \<and> rsp_cons (peer n b) = rsp_cons b)"

definition spinning :: "xenbus \<Rightarrow> bool" where
  "spinning s \<longleftrightarrow> (\<exists>b. shared_buf s = Some b \<and> rsp_prod b = rsp_cons b \<and> cons_response_discard_bytes s \<noteq> 0)"

lemma spinning_touch: "silent peer \<Longrightarrow> spinning s \<Longrightarrow> spinning (touch peer n s)"
  by (auto simp: spinning_def silent_def touch_def)

lemma discard_spins:
  assumes "rx_passes peer alloc n fr s = Some y" and "silent peer"
  shows "\<not> spinning s"
proof -
  have "silent peer \<longrightarrow> \<not> spinning s"
  proof (rule rx_passes.raw_induct [OF _ assms(1), where P = "\<lambda>peer alloc n fr s y. silent peer \<longrightarrow> \<not> spinning s"], intro impI notI)
    fix rxp peer alloc n fr s y
    assume ih: "\<And>peer alloc n fr s y. rxp peer alloc n fr s = Some y \<Longrightarrow> silent peer \<longrightarrow> \<not> spinning s" and p: "silent peer" and s: "spinning s"
      and y: "(case receive_from_xenstored (alloc n) (touch peer n s) of Inl e \<Rightarrow> Some (Inl e)
        | Inr (progress, s) \<Rightarrow> if progress then rxp peer alloc (Suc n) True s else Some (Inr (fr, s))) = Some y"
    have t: "spinning (touch peer n s)" by (rule spinning_touch [OF p s])
    then have "receive_from_xenstored (alloc n) (touch peer n s) = Inr (True, touch peer n s)" using discard_pass by (auto simp: spinning_def)
    then have "rxp peer alloc (Suc n) True (touch peer n s) = Some y" using y by simp
    from ih [OF this] show False using p t by blast
  qed
  then show ?thesis using assms(2) by blast
qed

text \<open>While the payload of an unexpected reply is being dropped, the receive function reports progress even when the ring
  is empty, so the DPC does not return before xenstored has sent the rest of it: with the ring lock held, and without
  the notification that tells xenstored that there is room again.\<close>

theorem discard_blocks_dpc:
  assumes "shared_buf s = Some b" and "rsp_prod b = rsp_cons b" and "cons_response_discard_bytes s \<noteq> 0" and "current_tx_req s = None"
    and "silent peer"
  shows "xenbus_dpc_func peer alloc s = None"
proof -
  let ?s = "touch peer 0 s"
  have "spinning ?s" using assms(1-3) by (intro spinning_touch [OF assms(5)]) (simp add: spinning_def)
  then have "rx_passes peer alloc 1 False ?s = None"
    using discard_spins [of peer alloc 1 False ?s] assms(5) by (cases "rx_passes peer alloc 1 False ?s") auto
  moreover have "tx_passes peer 0 False s = Some (Inr (False, 1, ?s))" using assms(4) by (subst tx_passes.simps) (simp add: tx_pass_def touch_def)
  ultimately show ?thesis using assms(1) by (simp add: xenbus_dpc_func_def)
qed

text \<open>A reply without payload ends the reception although more messages are on the ring: its completion does not move the
  index, which counts as no progress.  What follows it stays on the ring until the next event.\<close>

theorem empty_reply_strands_messages:
  assumes "shared_buf s = Some b" and "page_ok b" and "abs_ok s"
    and "ring_rsp s = wire m @ Y" and "m_payload m = []" and "m_type m \<noteq> XS_WATCH_EVENT" and "msg_ok m"
    and "find_pending_rx_req s (m_req_id m) = Some r"
  shows "\<exists>s' q. rx_passes (\<lambda>_ b. b) alloc n fr s = Some (Inr (True, s')) \<and> ring_rsp s' = Y \<and> current_rx_req s' = None \<and>
    reqs s' r = Some q \<and> xenbus_replied q"
proof -
  obtain q where q: "reqs s r = Some q" using assms(8) by (auto simp: find_pending_rx_req_def find_Some_iff split: option.splits)
  have tch: "touch (\<lambda>_ b. b) k t = t" for k and t :: xenbus by (cases t) (simp add: touch_def option.map_ident)
  let ?sp = "span (rsp_cons b) (rsp_prod b)"
  have n: "length (ring_rsp s) = ?sp" using assms(1) by (simp add: ring_rsp_def)
  have bq: "buf_ok q" and fs: "cons_response_discard_bytes s = 0" "current_rx_req s = None" using assms(3) q by (simp_all add: abs_ok_def)
  have l16: "16 \<le> length (ring_rsp s)" using assms(4) by (simp add: wire_def)
  have sp: "span (rsp_cons b + 16) (rsp_prod b) = ?sp - 16" using span_add_cons [of 16 "rsp_cons b" "rsp_prod b"] n l16 by simp
  have mo: "m_type m \<le> XS_IS_DOMAIN_INTRODUCED" "length (m_payload m) < 2 ^ 32" using assms(6,7) by (simp_all add: msg_ok_def)
  have av: "\<not> rsp_prod b - rsp_cons b < 16" using n l16 by (simp add: word_less_nat_alt span_def)
  have h: "msg_type (m_header m) \<noteq> XS_WATCH_EVENT" using assms(6) by (simp add: m_header_def)
  have dec: "decode_sockmsg (encode_sockmsg (m_header m)) = m_header m" using decode_encode [of "m_header m" "[]"] by simp
  let ?q = "fill (alloc n) m 0 q" and ?b = "b\<lparr>rsp_cons := rsp_cons b + 16\<rparr>"
  let ?t = "(set_req s r ?q)\<lparr>current_rx_req := Some r\<rparr>"
  let ?s1 = "?t\<lparr>shared_buf := Some ?b\<rparr>"
  have rd: "ring_rsp s @ [] = wire m @ Y" using assms(4) by simp
  have hd: "receive_header (alloc n) (m_header m) s = Inr ?t" using receive_header_ok [OF mo, of "alloc n" s] assms(8) q by simp
  have cons: "set_rsp_cons (rsp_cons b + 16) b ?t = (True, ?s1)" by (simp add: set_rsp_cons_def)
  have p1: "receive_from_xenstored (alloc n) s = Inr (True, ?s1)"
    unfolding receive_from_xenstored_def assms(1) fs option.case Let_def
    by (simp only: av if_False read_header_ok [OF assms(1,2) l16 rd] res_bind_simps dec h hd cons simp_thms option.case)
  let ?q2 = "?q\<lparr>xenbus_replied := True, completion_event := \<not> AustereMode s \<or> completion_event q\<rparr>"
  let ?s2 = "(set_req ?s1 r ?q2)\<lparr>current_rx_req := None\<rparr>"
  have p2: "receive_from_xenstored al ?s1 = Inr (False, ?s2)" for al
  proof -
    have "unat (rsp_prod b - (rsp_cons b + 16)) \<le> 1024" using sp assms(2) unfolding span_def page_ok_def by linarith
    then have "receive_payload r (rsp_cons b + 16) (rsp_prod b - (rsp_cons b + 16)) (rsp b) ?s1 = Inr (rsp_cons b + 16, ?s2)"
      using receive_payload_ok [OF _ bq, of ?s1 r "alloc n" m 0 "rsp b" "rsp_prod b - (rsp_cons b + 16)" 0 "rsp_cons b + 16"] assms(2,5) sp n l16
      by (simp add: page_ok_def set_req_def span_def ring_bytes_def)
    moreover have "set_rsp_cons (rsp_cons b + 16) ?b ?s2 = (False, ?s2)" by (simp add: set_rsp_cons_def set_req_def)
    ultimately show ?thesis using fs by (simp add: receive_from_xenstored_def Let_def set_req_def)
  qed
  have "rx_passes (\<lambda>_ b. b) alloc n fr s = Some (Inr (True, ?s2))"
  proof -
    have "rx_passes (\<lambda>_ b. b) alloc n fr s = rx_passes (\<lambda>_ b. b) alloc (Suc n) True ?s1"
      by (subst rx_passes.simps) (simp only: tch p1 sum.case prod.case if_True)
    also have "\<dots> = Some (Inr (True, ?s2))"
      by (subst rx_passes.simps) (simp only: tch p2 sum.case prod.case if_False)
    finally show ?thesis .
  qed
  moreover have "ring_rsp ?s2 = Y"
  proof -
    have "ring_bytes (rsp b) (unat (rsp_cons b + 16)) k = ring_bytes (rsp b) (unat (rsp_cons b) + 16) k" for k
      using ring_bytes_mod [of "rsp b" "unat (rsp_cons b + 16)" k] ring_bytes_mod [of "rsp b" "unat (rsp_cons b) + 16" k]
        index_mod [of "rsp_cons b" 16] by simp
    then have "ring_rsp ?s2 = drop 16 (ring_rsp s)" using assms(1) sp by (simp add: ring_rsp_def set_req_def drop_ring_bytes)
    then show ?thesis using assms(4,5) by (simp add: wire_def)
  qed
  moreover have "reqs ?s2 r = Some ?q2" by (simp add: set_req_def)
  ultimately show ?thesis by (intro exI [of _ ?s2] exI [of _ ?q2]) (simp add: set_req_def)
qed

text \<open>The comparisons of indices in the treatment of watch events are not modular: a watch event that is completely on the
  ring fails an assertion when the free-running producer index has wrapped behind the event.\<close>

theorem index_wrap_asserts:
  assumes "shared_buf s = Some b" and "page_ok b" and "cons_response_discard_bytes s = 0" and "current_rx_req s = None"
    and "ring_rsp s = wire m @ Y" and "m_type m = XS_WATCH_EVENT" and "unat (rsp_cons b) + length (wire m) < 2 ^ 32"
    and "2 ^ 32 \<le> unat (rsp_cons b) + length (ring_rsp s)"
  shows "receive_from_xenstored al s = Inl XmAssert"
proof -
  let ?sp = "span (rsp_cons b) (rsp_prod b)" and ?len = "length (m_payload m)"
  have n: "length (ring_rsp s) = ?sp" using assms(1) by (simp add: ring_rsp_def)
  have l16: "16 \<le> length (ring_rsp s)" "16 + ?len \<le> ?sp" using assms(5) n by (auto simp: wire_def dest: arg_cong [of _ _ length])
  have sp: "?sp \<le> 1024" using assms(2) by (simp add: page_ok_def)
  have av: "\<not> rsp_prod b - rsp_cons b < 16" using n l16 by (simp add: word_less_nat_alt span_def)
  have ul: "unat (of_nat ?len :: u32) = ?len" using l16 sp by (simp add: unat_of_nat_lt)
  have h: "msg_type (m_header m) = XS_WATCH_EVENT" "msg_len (m_header m) = of_nat ?len" using assms(6) by (simp_all add: m_header_def)
  have dec: "decode_sockmsg (encode_sockmsg (m_header m)) = m_header m" using decode_encode [of "m_header m" "[]"] by simp
  have rd: "ring_rsp s @ [] = wire m @ Y" using assms(5) by simp
  have lt: "unat (rsp_cons b) < 2 ^ 32" using unat_bound [of "rsp_cons b"] by simp
  have p32: "(2 :: nat) ^ 32 = 4294967296" by simp
  let ?e = "rsp_cons b + 16 + of_nat ?len"
  have e: "?e = rsp_cons b + of_nat (16 + ?len)" by (simp add: algebra_simps)
  have ue: "unat ?e = unat (rsp_cons b) + 16 + ?len" using unat_add_nat [of "rsp_cons b" "16 + ?len"] assms(7) unfolding e by (simp add: wire_def)
  have "unat (rsp_prod b) = unat (rsp_cons b + (rsp_prod b - rsp_cons b))" by simp
  also have "\<dots> = (unat (rsp_cons b) + ?sp) mod 2 ^ 32" unfolding unat_word_ariths span_def by simp
  also have "\<dots> = unat (rsp_cons b) + ?sp - 2 ^ 32"
    using assms(8) n sp lt by (simp add: mod_if)
  finally have "unat (rsp_prod b) < unat ?e" using ue l16(2) sp lt assms(8) n p32 by linarith
  then have "\<not> ?e \<le> rsp_prod b" by (simp add: word_le_nat_alt)
  moreover have "\<not> unat (rsp_prod b - rsp_cons b) < 16 + ?len" using l16(2) by (simp add: span_def)
  ultimately show ?thesis
    unfolding receive_from_xenstored_def assms(1,3,4) option.case Let_def
    by (simp add: av read_header_ok [OF assms(1,2) l16(1) rd] dec h ul)
qed

section \<open>Instances\<close>

definition one_request :: xenbus where
  "one_request = (xenbus_init blank_page (ws watches_init))
     \<lparr>pending_reqs := [7], reqs := [7 \<mapsto> initialise_pending_req \<lparr>msg_type = XS_READ, req_id = 1, tx_id = 0, msg_len = 2\<rparr> [[1], [97, 0]]]\<rparr>"

definition read_reply :: xs_msg where
  "read_reply = \<lparr>m_type = XS_READ, m_req_id = 1, m_tx_id = 0, m_payload = [52, 50]\<rparr>"

definition empty_reply :: xs_msg where
  "empty_reply = \<lparr>m_type = XS_READ, m_req_id = 1, m_tx_id = 0, m_payload = []\<rparr>"

definition a_event :: xs_msg where
  "a_event = \<lparr>m_type = XS_WATCH_EVENT, m_req_id = 0, m_tx_id = 0, m_payload = [97, 0, 98, 0]\<rparr>"

lemma msg_ok_instances: "msg_ok read_reply" "msg_ok empty_reply" "msg_ok a_event"
proof -
  show "msg_ok read_reply" "msg_ok empty_reply" by (simp_all add: msg_ok_def read_reply_def empty_reply_def)
  have "\<exists>p t. m_payload a_event = watch_payload p t \<and> 0 \<notin> set p \<and> 0 \<notin> set t \<and> length t \<le> 16"
    by (intro exI [of _ "[97]"] exI [of _ "[98]"]) (simp add: a_event_def watch_payload_def)
  then show "msg_ok a_event" unfolding msg_ok_def by (simp add: a_event_def)
qed

lemma one_request_ok:
  "shared_buf one_request = Some blank_page" "abs_ok one_request" "cons_response_discard_bytes one_request = 0" "current_rx_req one_request = None"
  "find_pending_rx_req one_request 1 = Some 7" "xwatches one_request = ws watches_init" "current_tx_req one_request = None"
  by (simp_all add: one_request_def xenbus_init_def abs_ok_def buf_ok_def initialise_pending_req_def find_pending_rx_req_def)


theorem discard_blocks_dpc_witness:
  "xenbus_dpc_func (\<lambda>_ b. b) (\<lambda>_. True) (one_request\<lparr>cons_response_discard_bytes := 5\<rparr>) = None"
  by (rule discard_blocks_dpc [of _ blank_page]) (use one_request_ok in \<open>simp_all add: blank_page_def silent_def\<close>)

definition page_with :: "u32 \<Rightarrow> u8 list \<Rightarrow> xenstore_domain_interface" where
  "page_with c xs = blank_page\<lparr>rsp := ring_write (rsp blank_page) (unat c mod 1024) xs, rsp_cons := c, rsp_prod := c + of_nat (length xs)\<rparr>"

lemma page_with_ok:
  assumes "length xs \<le> 1024"
  shows "page_ok (page_with c xs)" "ring_rsp (s\<lparr>shared_buf := Some (page_with c xs)\<rparr>) = xs"
proof -
  have u: "unat (of_nat (length xs) :: u32) = length xs" using assms by (simp add: unat_of_nat_lt)
  have l: "length (rsp blank_page) = 1024" by (simp add: blank_page_def)
  then show "page_ok (page_with c xs)" using assms u by (simp add: page_ok_def page_with_def span_def) (simp add: blank_page_def)
  show "ring_rsp (s\<lparr>shared_buf := Some (page_with c xs)\<rparr>) = xs"
    using ring_bytes_write [OF l, of 0 xs "unat c"] assms u by (simp add: ring_rsp_def page_with_def span_def ring_bytes_def [of _ _ 0])
qed

theorem empty_reply_strands_messages_witness:
  "\<exists>s' q. rx_passes (\<lambda>_ b. b) (\<lambda>_. True) 0 False (one_request\<lparr>shared_buf := Some (page_with 0 (wire empty_reply @ wire a_event))\<rparr>) =
     Some (Inr (True, s')) \<and> ring_rsp s' = wire a_event \<and> reqs s' 7 = Some q \<and> xenbus_replied q"
proof -
  have l: "length (wire empty_reply @ wire a_event) \<le> 1024" by (simp add: wire_def empty_reply_def a_event_def)
  have "abs_ok (one_request\<lparr>shared_buf := Some b\<rparr>)" "find_pending_rx_req (one_request\<lparr>shared_buf := Some b\<rparr>) 1 = Some 7" for b
    using one_request_ok(2,5) by (simp_all add: abs_ok_def find_pending_rx_req_def)
  then show ?thesis
    using empty_reply_strands_messages [OF _ page_with_ok(1) [OF l] _ page_with_ok(2) [OF l] _ _ msg_ok_instances(2),
        where alloc = "\<lambda>_. True" and n = 0 and fr = False and r = 7, of 0 one_request]
    by (simp add: empty_reply_def) blast
qed

theorem index_wrap_asserts_witness:
  "receive_from_xenstored True (one_request\<lparr>shared_buf := Some (page_with 0xffffffe0 (wire a_event @ wire read_reply))\<rparr>) = Inl XmAssert"
proof -
  have l: "length (wire a_event @ wire read_reply) \<le> 1024" by (simp add: wire_def a_event_def read_reply_def)
  let ?p = "page_with 0xffffffe0 (wire a_event @ wire read_reply)"
  let ?s = "one_request\<lparr>shared_buf := Some ?p\<rparr>"
  have "rsp_cons ?p = 0xffffffe0" "length (wire a_event) = 20" "length (wire read_reply) = 18"
    by (simp_all add: page_with_def wire_def a_event_def read_reply_def)
  then show ?thesis
    using index_wrap_asserts [of ?s ?p a_event "wire read_reply" True] page_with_ok [OF l] one_request_ok(3,4)
    by (simp add: a_event_def)
qed

end
