(* ===== verification/XenbusClient.thy ===== *)
theory XenbusClient
  imports XenbusReply
begin

text \<open>
  The operations of the xenstore client, \<^verbatim>\<open>src/xenutil/xenbus.c\<close>: transactions, reading, writing and listing nodes, the
  conversions of numbers, states and flags, and what a resume does to open transactions.

  \<^item> \<open>xs type tid payload d\<close> is xenstored: the type and the payload of its reply and its new state.  That the request
    arrives as it was submitted and that its reply is delivered to it is the subject of \<^verbatim>\<open>XenbusRing\<close> and
    \<^verbatim>\<open>XenbusReply\<close>; here a request and its reply are one step, which keeps a log of what was sent.
  \<^item> A path, node or value is a string without its final nul.  Whether memory can be allocated is an argument;
    the address of a new transaction too.
\<close>

section \<open>Strings and numbers\<close>

definition ascii :: "string \<Rightarrow> u8 list" where
  "ascii s = map of_char s"

text \<open>\<^verbatim>\<open>strcmp\<close> of a buffer with a literal; the comparison stops at the first difference.\<close>

fun str_eq :: "u8 list \<Rightarrow> u8 list \<Rightarrow> bool res" where
  "str_eq [] _ = Inl BadPointer"
| "str_eq (c # cs) [] = Inr (c = 0)"
| "str_eq (c # cs) (d # ds) = (if c = d then str_eq cs ds else Inr False)"

definition strlen_at :: "u8 list \<Rightarrow> nat \<Rightarrow> nat res" where
  "strlen_at buf x =
     (let n = length (takeWhile (\<lambda>c. c \<noteq> 0) (drop x buf)) in if x + n < length buf then Inr n else Inl BadPointer)"

definition xsd_errors :: "(NTSTATUS \<times> u8 list) list" where
  "xsd_errors =
     [(STATUS_INVALID_PARAMETER, ascii ''EINVAL''), (STATUS_ACCESS_DENIED, ascii ''EACCES''),
      (STATUS_OBJECT_NAME_EXISTS, ascii ''EEXIST''), (STATUS_FILE_IS_A_DIRECTORY, ascii ''EISDIR''),
      (STATUS_OBJECT_NAME_NOT_FOUND, ascii ''ENOENT''), (STATUS_NO_MEMORY, ascii ''ENOMEM''),
      (STATUS_DISK_FULL, ascii ''ENOSPC''), (STATUS_DATA_ERROR, ascii ''EIO''),
      (STATUS_DIRECTORY_NOT_EMPTY, ascii ''ENOTEMPTY''), (STATUS_INVALID_SYSTEM_SERVICE, ascii ''ENOSYS''),
      (STATUS_INTERNAL_ERROR, ascii ''EROFS''), (STATUS_DEVICE_BUSY, ascii ''EBUSY''),
      (STATUS_RETRY, ascii ''EAGAIN''), (STATUS_CONNECTION_ACTIVE, ascii ''EISCONN''),
      (STATUS_DISK_FULL, ascii ''E2BIG'')]"

fun get_error_loop :: "u8 list \<Rightarrow> (NTSTATUS \<times> u8 list) list \<Rightarrow> NTSTATUS res" where
  "get_error_loop msg [] = Inr STATUS_INTERNAL_ERROR"
| "get_error_loop msg ((e, s) # es) = res_bind (str_eq msg s) (\<lambda>b. if b then Inr e else get_error_loop msg es)"

definition get_error :: "u8 list \<Rightarrow> NTSTATUS res" where
  "get_error msg = get_error_loop msg xsd_errors"

definition char_digit :: "u64 \<Rightarrow> u8 \<Rightarrow> u64" where
  "char_digit base c =
     (if 48 \<le> c \<and> c \<le> 57 then ucast c - 48
      else if 97 \<le> c \<and> c \<le> 102 then ucast c - 97 + 10
      else if 65 \<le> c \<and> c \<le> 70 then ucast c - 65 + 10
      else base)"

text \<open>The loop of \<open>xm_strtoll\<close>: the rest of the buffer, the number of characters left, the value and the error flag.\<close>

fun strtoll_loop :: "u64 \<Rightarrow> u8 list \<Rightarrow> nat \<Rightarrow> u64 \<Rightarrow> bool \<Rightarrow> (u64 \<times> bool) res" where
  "strtoll_loop base buf 0 acc err = Inr (acc, err)"
| "strtoll_loop base buf (Suc n) acc err =
     (case buf of
        [] \<Rightarrow> Inl BadPointer
      | c # cs \<Rightarrow>
          if c = 0 \<and> n = 0 then Inr (acc, err)
          else
            let digit = char_digit base c;
                err = (err \<or> base \<le> digit \<or> (NOT 0) div base < acc);
                acc = acc * base;
                err = (err \<or> acc + digit < acc)
            in strtoll_loop base cs n (acc + digit) err)"

definition xm_strtoll :: "u8 list \<Rightarrow> nat \<Rightarrow> u64 \<Rightarrow> (u64 \<times> bool) res" where
  "xm_strtoll buf len base = xm_assert (base = 10 \<or> base = 16) (strtoll_loop base buf len 0 False)"

text \<open>A buffer that may be \<^verbatim>\<open>NULL\<close>.\<close>

definition strtoll_opt :: "u8 list option \<Rightarrow> nat \<Rightarrow> u64 \<Rightarrow> (u64 \<times> bool) res" where
  "strtoll_opt buf len base = xm_strtoll (case buf of None \<Rightarrow> [] | Some b \<Rightarrow> b) len base"

fun dec_digits :: "nat \<Rightarrow> u8 list" where
  "dec_digits n = (if n < 10 then [of_nat (48 + n)] else dec_digits (n div 10) @ [of_nat (48 + n mod 10)])"

declare dec_digits.simps [simp del]

section \<open>State\<close>

datatype xenbus_transaction_t = XBT_NULL | XBT_NIL | XBT nat

record xenbus_transaction =
  t_caller :: string
  t_thread :: nat
  t_status :: NTSTATUS
  trans_id :: u32

record 'd client =
  bus :: xenbus
  trans :: "nat \<Rightarrow> xenbus_transaction option"
  head_open_transaction :: "nat list"
  sent :: "(u32 \<times> u32 \<times> u8 list) list"
  store :: 'd
  no_paravirt :: bool

type_synonym 'd xenstored = "u32 \<Rightarrow> u32 \<Rightarrow> u8 list \<Rightarrow> 'd \<Rightarrow> (u32 \<times> u8 list) \<times> 'd"

definition unwrap_xenbus_transaction_t :: "'d client \<Rightarrow> xenbus_transaction_t \<Rightarrow> (nat \<times> xenbus_transaction) res" where
  "unwrap_xenbus_transaction_t s x =
     (case x of
        XBT_NULL \<Rightarrow> Inl XmAssert
      | XBT_NIL \<Rightarrow> Inl XmAssert
      | XBT t \<Rightarrow> (case trans s t of None \<Rightarrow> Inl BadPointer | Some r \<Rightarrow> Inr (t, r)))"

definition xenbus_fail_transaction :: "xenbus_transaction_t \<Rightarrow> NTSTATUS \<Rightarrow> 'd client \<Rightarrow> 'd client res" where
  "xenbus_fail_transaction x st s =
     (case x of
        XBT_NULL \<Rightarrow> Inr s
      | XBT_NIL \<Rightarrow> Inr s
      | XBT _ \<Rightarrow> res_bind (unwrap_xenbus_transaction_t s x) (\<lambda>(t, r).
          Inr (if t_status r = STATUS_SUCCESS then s\<lparr>trans := (trans s)(t \<mapsto> r\<lparr>t_status := st\<rparr>)\<rparr> else s)))"

definition transaction_status :: "xenbus_transaction_t \<Rightarrow> 'd client \<Rightarrow> NTSTATUS res" where
  "transaction_status x s =
     (case x of
        XBT_NIL \<Rightarrow> Inr STATUS_SUCCESS
      | XBT_NULL \<Rightarrow> Inr STATUS_INSUFFICIENT_RESOURCES
      | XBT _ \<Rightarrow> res_bind (unwrap_xenbus_transaction_t s x) (\<lambda>(t, r). Inr (t_status r)))"

definition get_transaction_id :: "xenbus_transaction_t \<Rightarrow> 'd client \<Rightarrow> u32 res" where
  "get_transaction_id x s =
     (case x of
        XBT_NULL \<Rightarrow> Inl XmAssert
      | XBT_NIL \<Rightarrow> Inr 0
      | XBT _ \<Rightarrow> res_bind (unwrap_xenbus_transaction_t s x) (\<lambda>(t, r). Inr (trans_id r)))"

section \<open>Requests\<close>

text \<open>The request of an operation, with a reply buffer of its own or without.\<close>

definition make_request ::
  "u32 \<Rightarrow> xenbus_transaction_t \<Rightarrow> nat option \<Rightarrow> u8 list list \<Rightarrow> 'd client \<Rightarrow> (xsd_sockmsg \<times> xenbus_pending_req \<times> 'd client) res" where
  "make_request type x buf parts s =
     res_bind (get_transaction_id x s) (\<lambda>tid.
       case initialise_sg_list type tid parts (bus s) of (msg, sg, b) \<Rightarrow>
         let q = initialise_pending_req msg sg
         in res_bind (case buf of None \<Rightarrow> Inr q | Some n \<Rightarrow> set_reply_buffer n q) (\<lambda>q. Inr (msg, q, s\<lparr>bus := b\<rparr>)))"

text \<open>The result of a request that has been replied to.\<close>

definition reply_status :: "xenbus_pending_req \<Rightarrow> NTSTATUS res" where
  "reply_status q =
     (if msg_type (reply_header q) = XS_ERROR
      then (case reply_payload q of Some p \<Rightarrow> get_error p | None \<Rightarrow> Inr STATUS_INSUFFICIENT_RESOURCES)
      else Inr STATUS_SUCCESS)"

definition submit_request_and_await_result ::
  "'d xenstored \<Rightarrow> bool \<Rightarrow> xsd_sockmsg \<Rightarrow> xenbus_pending_req \<Rightarrow> 'd client \<Rightarrow> (NTSTATUS \<times> xenbus_pending_req \<times> 'd client) res" where
  "submit_request_and_await_result xs al msg q s =
     (if no_paravirt s then Inr (STATUS_UNSUCCESSFUL, q, s)
      else (case start_operation (bus s) of
        (False, b) \<Rightarrow> Inr (STATUS_DEVICE_NOT_READY, q, s\<lparr>bus := b\<rparr>)
      | (True, b) \<Rightarrow>
          let payload = concat (tl (tx_io q))
          in (case xs (msg_type msg) (tx_id msg) payload (store s) of ((type, reply), d) \<Rightarrow>
            let m = \<lparr>m_type = type, m_req_id = req_id msg, m_tx_id = tx_id msg, m_payload = reply\<rparr>;
                q = (fill al m (length reply) q)\<lparr>xenbus_replied := True\<rparr>;
                s = s\<lparr>bus := end_operation b, store := d, sent := sent s @ [(msg_type msg, tx_id msg, payload)]\<rparr>
            in res_bind (reply_status q) (\<lambda>st. Inr (st, q, s)))))"

definition exchange ::
  "'d xenstored \<Rightarrow> bool \<Rightarrow> u32 \<Rightarrow> xenbus_transaction_t \<Rightarrow> nat option \<Rightarrow> u8 list list \<Rightarrow> 'd client \<Rightarrow>
     (NTSTATUS \<times> xenbus_pending_req \<times> 'd client) res" where
  "exchange xs al type x buf parts s =
     res_bind (make_request type x buf parts s) (\<lambda>(msg, q, s). submit_request_and_await_result xs al msg q s)"

section \<open>Listing a node\<close>

text \<open>Freeing the strings after a failed allocation: \<open>y\<close> counts down to zero, which ends the loop.\<close>

fun ls_free :: "nat \<Rightarrow> u8 list option list \<Rightarrow> u8 list option list res" where
  "ls_free 0 res = Inr res"
| "ls_free (Suc y) res = (if Suc y < length res then ls_free y (res[Suc y := None]) else Inl BadPointer)"

text \<open>The loop that splits the reply: \<open>res\<close> are the strings so far, \<open>nr\<close> the number of nuls counted before.  \<open>Inl\<close> is
  the failure, with what has not been freed.\<close>

function ls_split :: "(nat \<Rightarrow> bool) \<Rightarrow> u8 list \<Rightarrow> nat \<Rightarrow> nat \<Rightarrow> nat \<Rightarrow> u8 list list \<Rightarrow> (u8 list option list + u8 list list) res" where
  "ls_split alloc reply len nr x res =
     (if x < len
      then res_bind (strlen_at reply x) (\<lambda>z.
        if nr < length res then Inl BadPointer
        else if \<not> alloc (length res) then
          res_bind (ls_free (unat (of_nat (length res) - 1 :: u32)) (map Some res)) (\<lambda>left. Inr (Inl left))
        else ls_split alloc reply len nr (x + z + 1) (res @ [take z (drop x reply)]))
      else if nr < length res then Inl BadPointer else Inr (Inr res))"
  by pat_completeness auto
termination by (relation "measure (\<lambda>(alloc, reply, len, nr, x, res). len - x)") auto

declare ls_split.simps [simp del]

definition xenbus_ls ::
  "'d xenstored \<Rightarrow> bool \<Rightarrow> bool \<Rightarrow> (nat \<Rightarrow> bool) \<Rightarrow> xenbus_transaction_t \<Rightarrow> u8 list \<Rightarrow> 'd client \<Rightarrow>
     (NTSTATUS \<times> u8 list list option \<times> 'd client) res" where
  "xenbus_ls xs al arr alloc x p s =
     res_bind (transaction_status x s) (\<lambda>st.
       if \<not> NT_SUCCESS st then Inr (st, None, s)
       else res_bind (exchange xs al XS_DIRECTORY x None [p @ [0]] s) (\<lambda>(stat, q, s).
         if \<not> NT_SUCCESS stat then res_bind (xenbus_fail_transaction x stat s) (\<lambda>s. Inr (stat, None, s))
         else
           let len = unat (msg_len (reply_header q)); reply = (case reply_payload q of None \<Rightarrow> [] | Some b \<Rightarrow> b);
               nr = length (filter (\<lambda>c. c = 0) (take len reply));
               fail = res_bind (xenbus_fail_transaction x STATUS_INSUFFICIENT_RESOURCES s) (\<lambda>s. Inr (STATUS_INSUFFICIENT_RESOURCES, None, s))
           in if length reply < len then Inl BadPointer
              else if \<not> arr then fail
              else res_bind (ls_split alloc reply len nr 0 []) (\<lambda>r.
                case r of Inl _ \<Rightarrow> fail | Inr names \<Rightarrow> Inr (STATUS_SUCCESS, Some names, s))))"

section \<open>Reading and writing\<close>

definition node_parts :: "u8 list \<Rightarrow> u8 list option \<Rightarrow> u8 list list" where
  "node_parts p node = (case node of None \<Rightarrow> [p @ [0]] | Some n \<Rightarrow> [p, [47], n @ [0]])"

definition xenbus_read_bin_no_fail ::
  "'d xenstored \<Rightarrow> bool \<Rightarrow> xenbus_transaction_t \<Rightarrow> u8 list \<Rightarrow> u8 list option \<Rightarrow> 'd client \<Rightarrow>
     (NTSTATUS \<times> u8 list option \<times> nat \<times> 'd client) res" where
  "xenbus_read_bin_no_fail xs al x p node s =
     res_bind (transaction_status x s) (\<lambda>st.
       if \<not> NT_SUCCESS st then Inr (st, None, 0, s)
       else res_bind (exchange xs al XS_READ x None (node_parts p node) s) (\<lambda>(res, q, s).
         if \<not> NT_SUCCESS res then Inr (res, None, 0, s)
         else Inr (res, reply_payload q, unat (msg_len (reply_header q)), s)))"

definition xenbus_read_bin ::
  "'d xenstored \<Rightarrow> bool \<Rightarrow> xenbus_transaction_t \<Rightarrow> u8 list \<Rightarrow> u8 list option \<Rightarrow> 'd client \<Rightarrow>
     (NTSTATUS \<times> u8 list option \<times> nat \<times> 'd client) res" where
  "xenbus_read_bin xs al x p node s =
     res_bind (xenbus_read_bin_no_fail xs al x p node s) (\<lambda>(res, buf, len, s).
       if \<not> NT_SUCCESS res then res_bind (xenbus_fail_transaction x res s) (\<lambda>s. Inr (res, buf, len, s))
       else Inr (res, buf, len, s))"

text \<open>The result is the new buffer, with the nul at its end.\<close>

definition xenbus_read ::
  "'d xenstored \<Rightarrow> bool \<Rightarrow> bool \<Rightarrow> xenbus_transaction_t \<Rightarrow> u8 list \<Rightarrow> 'd client \<Rightarrow> (NTSTATUS \<times> u8 list option \<times> 'd client) res" where
  "xenbus_read xs al al2 x p s =
     res_bind (xenbus_read_bin xs al x p None s) (\<lambda>(stat, tmp, l, s).
       if \<not> NT_SUCCESS stat then Inr (stat, None, s)
       else if \<not> al2 then res_bind (xenbus_fail_transaction x STATUS_INSUFFICIENT_RESOURCES s) (\<lambda>s.
         Inr (STATUS_INSUFFICIENT_RESOURCES, None, s))
       else res_bind (memcpy (replicate (l + 1) 0) 0 (case tmp of None \<Rightarrow> [] | Some b \<Rightarrow> b) 0 l) (\<lambda>r.
         Inr (STATUS_SUCCESS, Some (r[l := 0]), s)))"

definition xenbus_write_bin ::
  "'d xenstored \<Rightarrow> bool \<Rightarrow> xenbus_transaction_t \<Rightarrow> u8 list \<Rightarrow> u8 list option \<Rightarrow> u8 list \<Rightarrow> 'd client \<Rightarrow> (NTSTATUS \<times> 'd client) res" where
  "xenbus_write_bin xs al x p node data s =
     res_bind (transaction_status x s) (\<lambda>st.
       if \<not> NT_SUCCESS st then Inr (st, s)
       else res_bind (exchange xs al XS_WRITE x None (node_parts p node @ [data]) s) (\<lambda>(res, q, s).
         if \<not> NT_SUCCESS res then res_bind (xenbus_fail_transaction x res s) (\<lambda>s. Inr (res, s)) else Inr (res, s)))"

definition xenbus_write :: "'d xenstored \<Rightarrow> bool \<Rightarrow> xenbus_transaction_t \<Rightarrow> u8 list \<Rightarrow> u8 list \<Rightarrow> 'd client \<Rightarrow> (NTSTATUS \<times> 'd client) res" where
  "xenbus_write xs al x p data s = xenbus_write_bin xs al x p None data s"

definition xenbus_remove :: "'d xenstored \<Rightarrow> bool \<Rightarrow> xenbus_transaction_t \<Rightarrow> u8 list \<Rightarrow> 'd client \<Rightarrow> (NTSTATUS \<times> 'd client) res" where
  "xenbus_remove xs al x p s =
     res_bind (transaction_status x s) (\<lambda>st.
       if \<not> NT_SUCCESS st then Inr (st, s)
       else res_bind (exchange xs al XS_RM x None [p @ [0]] s) (\<lambda>(res, q, s).
         if \<not> NT_SUCCESS res then res_bind (xenbus_fail_transaction x res s) (\<lambda>s. Inr (res, s)) else Inr (res, s)))"

text \<open>\<open>str\<close> is the formatted string, if there is memory for it.\<close>

definition xenbus_printf ::
  "'d xenstored \<Rightarrow> bool \<Rightarrow> xenbus_transaction_t \<Rightarrow> u8 list \<Rightarrow> u8 list \<Rightarrow> u8 list option \<Rightarrow> 'd client \<Rightarrow> (NTSTATUS \<times> 'd client) res" where
  "xenbus_printf xs al x prefix node str s =
     (case str of
        None \<Rightarrow> res_bind (xenbus_fail_transaction x STATUS_INSUFFICIENT_RESOURCES s) (\<lambda>s. Inr (STATUS_INSUFFICIENT_RESOURCES, s))
      | Some b \<Rightarrow> xenbus_write_bin xs al x prefix (Some node) b s)"

definition xenbus_read_int ::
  "'d xenstored \<Rightarrow> bool \<Rightarrow> xenbus_transaction_t \<Rightarrow> u8 list \<Rightarrow> u8 list \<Rightarrow> 'd client \<Rightarrow> (NTSTATUS \<times> u64 \<times> 'd client) res" where
  "xenbus_read_int xs al x prefix node s =
     res_bind (xenbus_read_bin xs al x prefix (Some node) s) (\<lambda>(stat, buf, len, s).
       if \<not> NT_SUCCESS stat then Inr (stat, 0, s)
       else res_bind (strtoll_opt buf len 10) (\<lambda>(r, err).
         if err then res_bind (xenbus_fail_transaction x STATUS_DATA_ERROR s) (\<lambda>s. Inr (STATUS_DATA_ERROR, 0, s))
         else Inr (STATUS_SUCCESS, r, s)))"

definition XenbusReadInteger ::
  "'d xenstored \<Rightarrow> bool \<Rightarrow> xenbus_transaction_t \<Rightarrow> u8 list \<Rightarrow> u8 list \<Rightarrow> 'd client \<Rightarrow> (u64 \<times> 'd client) res" where
  "XenbusReadInteger xs al x prefix node s =
     res_bind (xenbus_read_int xs al x prefix node s) (\<lambda>(stat, r, s). Inr (if NT_SUCCESS stat then r else - 1, s))"

definition xenbus_write_grant_ref ::
  "'d xenstored \<Rightarrow> bool \<Rightarrow> bool \<Rightarrow> xenbus_transaction_t \<Rightarrow> u8 list \<Rightarrow> u8 list \<Rightarrow> u32 \<Rightarrow> 'd client \<Rightarrow> (NTSTATUS \<times> 'd client) res" where
  "xenbus_write_grant_ref xs al fmt x prefix node gref s =
     xenbus_printf xs al x prefix node (if fmt then Some (dec_digits (unat gref)) else None) s"

text \<open>A state is its number; 0 is the null state.\<close>

definition xenbus_read_state ::
  "'d xenstored \<Rightarrow> bool \<Rightarrow> xenbus_transaction_t \<Rightarrow> u8 list \<Rightarrow> u8 list \<Rightarrow> 'd client \<Rightarrow> (NTSTATUS \<times> nat \<times> 'd client) res" where
  "xenbus_read_state xs al x prefix node s =
     res_bind (xenbus_read_int xs al x prefix node s) (\<lambda>(stat, res, s).
       if \<not> NT_SUCCESS stat then Inr (stat, 0, s)
       else if 6 < res \<or> res = 0 then res_bind (xenbus_fail_transaction x STATUS_DATA_ERROR s) (\<lambda>s. Inr (STATUS_DATA_ERROR, 0, s))
       else Inr (stat, unat res, s))"

definition xenbus_write_state ::
  "'d xenstored \<Rightarrow> bool \<Rightarrow> bool \<Rightarrow> xenbus_transaction_t \<Rightarrow> u8 list \<Rightarrow> u8 list \<Rightarrow> nat \<Rightarrow> 'd client \<Rightarrow> (NTSTATUS \<times> 'd client) res" where
  "xenbus_write_state xs al fmt x prefix node st s =
     xenbus_printf xs al x prefix node (if fmt then Some (dec_digits st) else None) s"

definition xenbus_write_feature_flag ::
  "'d xenstored \<Rightarrow> bool \<Rightarrow> xenbus_transaction_t \<Rightarrow> u8 list \<Rightarrow> u8 list \<Rightarrow> bool \<Rightarrow> 'd client \<Rightarrow> (NTSTATUS \<times> 'd client) res" where
  "xenbus_write_feature_flag xs al x prefix node flag s =
     xenbus_write_bin xs al x prefix (Some node) [if flag then 49 else 48] s"

definition xenbus_read_feature_flag ::
  "'d xenstored \<Rightarrow> bool \<Rightarrow> xenbus_transaction_t \<Rightarrow> u8 list \<Rightarrow> u8 list \<Rightarrow> 'd client \<Rightarrow> (NTSTATUS \<times> bool \<times> 'd client) res" where
  "xenbus_read_feature_flag xs al x prefix node s =
     res_bind (xenbus_read_bin_no_fail xs al x prefix (Some node) s) (\<lambda>(res, buf, len, s).
       if res = STATUS_OBJECT_NAME_NOT_FOUND then Inr (STATUS_SUCCESS, False, s)
       else if \<not> NT_SUCCESS res then res_bind (xenbus_fail_transaction x res s) (\<lambda>s. Inr (res, False, s))
       else if len = 1 \<and> (buf = None \<or> buf = Some []) then Inl BadPointer
       else if len = 1 \<and> hd (the buf) = 48 then Inr (res, False, s)
       else if len = 1 \<and> hd (the buf) = 49 then Inr (res, True, s)
       else res_bind (xenbus_fail_transaction x STATUS_DATA_ERROR s) (\<lambda>s. Inr (STATUS_DATA_ERROR, False, s)))"

text \<open>The result is the number of the domain.\<close>

definition xenbus_read_domain_id ::
  "'d xenstored \<Rightarrow> bool \<Rightarrow> xenbus_transaction_t \<Rightarrow> u8 list \<Rightarrow> u8 list \<Rightarrow> 'd client \<Rightarrow> (NTSTATUS \<times> u64 option \<times> 'd client) res" where
  "xenbus_read_domain_id xs al x prefix node s =
     res_bind (xenbus_read_bin xs al x prefix (Some node) s) (\<lambda>(res, buf, len, s).
       if \<not> NT_SUCCESS res then Inr (res, None, s)
       else res_bind (strtoll_opt buf len 10) (\<lambda>(number, err).
         if 0x7FF0 \<le> number then res_bind (xenbus_fail_transaction x STATUS_INVALID_PARAMETER s) (\<lambda>s. Inr (STATUS_INVALID_PARAMETER, None, s))
         else Inr (res, Some number, s)))"

section \<open>Transactions\<close>

definition xenbus_transaction_start ::
  "'d xenstored \<Rightarrow> nat option \<Rightarrow> string \<Rightarrow> nat \<Rightarrow> 'd client \<Rightarrow> (NTSTATUS \<times> xenbus_transaction_t \<times> 'd client) res" where
  "xenbus_transaction_start xs addr caller thread s =
     (case addr of
        None \<Rightarrow> Inr (STATUS_INSUFFICIENT_RESOURCES, XBT_NULL, s)
      | Some t \<Rightarrow>
          let work = \<lparr>t_caller = caller, t_thread = thread, t_status = STATUS_SUCCESS, trans_id = 0\<rparr>;
              s = s\<lparr>trans := (trans s)(t \<mapsto> work), head_open_transaction := t # head_open_transaction s\<rparr>
          in res_bind (exchange xs True XS_TRANSACTION_START XBT_NIL (Some 16) [[0]] s) (\<lambda>(res, q, s).
             res_bind
               (if NT_SUCCESS res
                then let buf = (case reply_payload q of None \<Rightarrow> [] | Some b \<Rightarrow> b); len = msg_len (reply_header q)
                  in xm_assert (len < 16)
                       (res_bind (xm_strtoll buf (unat (len - 1)) 10) (\<lambda>(tmp, err).
                         if length buf \<le> unat (len - 1) then Inl BadPointer
                         else xm_assert (buf ! unat (len - 1) = 0) (xm_assert (\<not> err) (xm_assert (tmp = ucast (ucast tmp :: u32))
                           (Inr (ucast tmp))))))
                else Inr 0x66778899)
               (\<lambda>tid. res_bind (xenbus_fail_transaction (XBT t) res (s\<lparr>trans := (trans s)(t := map_option (\<lambda>r. r\<lparr>trans_id := tid\<rparr>) (trans s t))\<rparr>)) (\<lambda>s.
                 Inr (res, XBT t, s)))))"

definition xenbus_transaction_end ::
  "'d xenstored \<Rightarrow> string \<Rightarrow> nat \<Rightarrow> xenbus_transaction_t \<Rightarrow> bool \<Rightarrow> 'd client \<Rightarrow> (NTSTATUS \<times> 'd client) res" where
  "xenbus_transaction_end xs caller thread x abort s =
     xm_assert (x \<noteq> XBT_NIL)
       (if x = XBT_NULL then Inr (STATUS_INSUFFICIENT_RESOURCES, s)
        else res_bind (unwrap_xenbus_transaction_t s x) (\<lambda>(t, xbt).
          xm_assert (t_caller xbt = ''XenevtchnDeviceControl'' \<or> t_caller xbt = caller)
          (xm_assert (t_caller xbt = ''XenevtchnDeviceControl'' \<or> t_thread xbt = thread)
            (let abort = (abort \<or> \<not> NT_SUCCESS (t_status xbt))
             in res_bind (exchange xs True XS_TRANSACTION_END x (Some 16) [ascii (if abort then ''F'' else ''T'') @ [0]] s) (\<lambda>(res, q, s).
               Inr (if NT_SUCCESS res then t_status xbt else res,
                    s\<lparr>trans := (trans s)(t := None), head_open_transaction := remove1 t (head_open_transaction s)\<rparr>))))))"

section \<open>Changing a state\<close>

text \<open>One turn; the first component of the result tells whether to try again.  \<open>addr\<close> is the address of the local
  transaction, \<open>al\<close> whether memory for replies is available and \<open>fmt\<close> for the formatted number.\<close>

definition change_state_turn ::
  "'d xenstored \<Rightarrow> nat option \<Rightarrow> bool \<Rightarrow> bool \<Rightarrow> nat \<Rightarrow> xenbus_transaction_t \<Rightarrow> u8 list \<Rightarrow> u8 list \<Rightarrow> nat \<Rightarrow> 'd client \<Rightarrow>
     (bool \<times> NTSTATUS \<times> 'd client) res" where
  "change_state_turn xs addr al fmt thread xbt prefix node st s =
     res_bind
       (if xbt = XBT_NIL then res_bind (xenbus_transaction_start xs addr ''xenbus_change_state'' thread s) (\<lambda>(_, x, s). Inr (x, s))
        else Inr (xbt, s)) (\<lambda>(local_xbt, s).
     res_bind (xenbus_read_state xs al local_xbt prefix node s) (\<lambda>(status, _, s).
     res_bind
       (if NT_SUCCESS status then res_bind (xenbus_write_state xs al fmt local_xbt prefix node st s) (\<lambda>(_, s). Inr s) else Inr s) (\<lambda>s.
       if xbt = XBT_NIL
       then if NT_SUCCESS status
            then res_bind (xenbus_transaction_end xs ''xenbus_change_state'' thread local_xbt False s) (\<lambda>(status, s).
              Inr (status = STATUS_RETRY, status, s))
            else res_bind (xenbus_transaction_end xs ''xenbus_change_state'' thread local_xbt True s) (\<lambda>(_, s). Inr (False, status, s))
       else Inr (False, status, s))))"

text \<open>\<open>env n\<close> has the answers of the allocator in turn \<open>n\<close>, \<open>other n\<close> what the other domains do to the store before it.\<close>

partial_function (option) xenbus_change_state ::
  "'d xenstored \<Rightarrow> (nat \<Rightarrow> nat option \<times> bool \<times> bool) \<Rightarrow> (nat \<Rightarrow> 'd \<Rightarrow> 'd) \<Rightarrow> nat \<Rightarrow> nat \<Rightarrow> xenbus_transaction_t \<Rightarrow> u8 list \<Rightarrow> u8 list \<Rightarrow> nat \<Rightarrow>
     'd client \<Rightarrow> (NTSTATUS \<times> 'd client) res option" where
  "xenbus_change_state xs env other n thread xbt prefix node st s =
     (case env n of (addr, al, fmt) \<Rightarrow>
       (case change_state_turn xs addr al fmt thread xbt prefix node st (s\<lparr>store := other n (store s)\<rparr>) of
          Inl e \<Rightarrow> Some (Inl e)
        | Inr (retry, status, s) \<Rightarrow>
            if retry then xenbus_change_state xs env other (Suc n) thread xbt prefix node st s else Some (Inr (status, s))))"

section \<open>Suspend, resume and switching off\<close>

definition abort_all_transactions :: "'d client \<Rightarrow> 'd client" where
  "abort_all_transactions s =
     s\<lparr>trans := (\<lambda>t. if t \<in> set (head_open_transaction s)
        then map_option (\<lambda>r. if NT_SUCCESS (t_status r) then r\<lparr>t_status := STATUS_RETRY\<rparr> else r) (trans s t) else trans s t)\<rparr>"

definition XenbusResumeEarly :: "'d client \<Rightarrow> 'd client" where
  "XenbusResumeEarly s =
     (let s = abort_all_transactions s; b = reset_requests (bus s)
      in s\<lparr>bus := b\<lparr>xwatches := reset_watches (xwatches b), evtchn_raised := xenbus_evtchn b \<or> evtchn_raised b\<rparr>\<rparr>)"

definition xenbus_driver_on :: "'d client \<Rightarrow> 'd client" where
  "xenbus_driver_on s = s\<lparr>bus := (bus s)\<lparr>allow_new_xenbus_operation := True\<rparr>\<rparr>"

section \<open>Numbers\<close>

text \<open>The value of a string of digits, if it is one.\<close>

definition digit_of :: "nat \<Rightarrow> u8 \<Rightarrow> nat option" where
  "digit_of b c =
     (let d = (if 48 \<le> c \<and> c \<le> 57 then unat c - 48 else if 97 \<le> c \<and> c \<le> 102 then unat c - 87
               else if 65 \<le> c \<and> c \<le> 70 then unat c - 55 else b)
      in if d < b then Some d else None)"

fun number_of :: "nat \<Rightarrow> nat \<Rightarrow> u8 list \<Rightarrow> nat option" where
  "number_of b acc [] = Some acc"
| "number_of b acc (c # cs) = (case digit_of b c of None \<Rightarrow> None | Some d \<Rightarrow> number_of b (acc * b + d) cs)"

text \<open>A nul at the very end does not belong to the number.\<close>

definition number_chars :: "u8 list \<Rightarrow> u8 list" where
  "number_chars xs = (if xs \<noteq> [] \<and> last xs = 0 then butlast xs else xs)"

lemma number_chars_Cons: "xs \<noteq> [] \<Longrightarrow> number_chars (c # xs) = c # number_chars xs"
  by (simp add: number_chars_def)

lemma number_of_mono: "0 < b \<Longrightarrow> number_of b acc cs = Some v \<Longrightarrow> acc \<le> v"
proof (induction cs arbitrary: acc)
  case (Cons c cs)
  then obtain d where "number_of b (acc * b + d) cs = Some v" by (auto split: option.splits)
  then have "acc * b + d \<le> v" using Cons by blast
  moreover have "acc \<le> acc * b" using Cons(2) by simp
  ultimately show ?case by linarith
qed simp

lemma number_of_append: "number_of b acc (xs @ ys) = (case number_of b acc xs of None \<Rightarrow> None | Some v \<Rightarrow> number_of b v ys)"
  by (induction xs arbitrary: acc) (simp_all split: option.split)

lemma char_digit_unat:
  "unat (char_digit base c) = (if 48 \<le> c \<and> c \<le> 57 then unat c - 48 else if 97 \<le> c \<and> c \<le> 102 then unat c - 87
     else if 65 \<le> c \<and> c \<le> 70 then unat c - 55 else unat base)"
proof -
  have u: "unat (ucast c :: u64) = unat c" by (simp add: unat_ucast_mod) (use unat_bound [of c] in simp)
  have le: "48 \<le> c \<longleftrightarrow> 48 \<le> unat c" "97 \<le> c \<longleftrightarrow> 97 \<le> unat c" "65 \<le> c \<longleftrightarrow> 65 \<le> unat c" by (simp_all add: word_le_nat_alt)
  have sub: "unat (ucast c - of_nat k :: u64) = unat c - k" if "k \<le> unat c" "k < 256" for k
  proof -
    have "unat (of_nat k :: u64) = k" using that(2) by (simp add: unat_of_nat_lt)
    then show ?thesis using that(1) u by (simp add: unat_sub word_le_nat_alt)
  qed
  have "97 \<le> c \<and> c \<le> 102 \<Longrightarrow> unat (ucast c - 97 + 10 :: u64) = unat c - 87" "65 \<le> c \<and> c \<le> 70 \<Longrightarrow> unat (ucast c - 65 + 10 :: u64) = unat c - 55"
    using sub [of 87] sub [of 55] by (simp_all add: le algebra_simps)
  moreover have "48 \<le> c \<and> c \<le> 57 \<Longrightarrow> unat (ucast c - 48 :: u64) = unat c - 48" using sub [of 48] by (simp add: le)
  ultimately show ?thesis by (simp add: char_digit_def)
qed

lemma digit_of_char: "digit_of (unat base) c = (if base \<le> char_digit base c then None else Some (unat (char_digit base c)))"
  using char_digit_unat [of base c] by (simp add: digit_of_def Let_def word_le_nat_alt)

lemma strtoll_err: "n \<le> length buf \<Longrightarrow> \<exists>r. strtoll_loop base buf n acc True = Inr (r, True)"
proof (induction n arbitrary: buf acc)
  case (Suc n)
  then show ?case by (cases buf) (auto simp: Let_def)
qed simp

lemma strtoll_step:
  fixes acc base digit :: u64
  assumes "0 < unat base" and "unat digit < unat base"
  shows "\<not> ((NOT 0) div base < acc \<or> acc * base + digit < acc * base) \<longleftrightarrow> unat acc * unat base + unat digit < 2 ^ 64"
    and "unat acc * unat base + unat digit < 2 ^ 64 \<Longrightarrow> unat (acc * base + digit) = unat acc * unat base + unat digit"
proof -
  let ?M = "2 ^ 64 :: nat"
  have lim: "unat ((NOT 0 :: u64) div base) = (?M - 1) div unat base" by (simp add: unat_div unsigned_minus_1_eq_mask mask_eq_exp_minus_1)
  have 1: "(NOT 0) div base < acc \<longleftrightarrow> ?M \<le> unat acc * unat base"
  proof -
    have "(NOT 0) div base < acc \<longleftrightarrow> (?M - 1) div unat base < unat acc" using lim by (simp only: word_less_nat_alt)
    also have "\<dots> \<longleftrightarrow> ?M - 1 < unat acc * unat base" using assms(1) by (simp only: div_less_iff_less_mult)
    also have "\<dots> \<longleftrightarrow> ?M \<le> unat acc * unat base" by (simp add: less_eq_Suc_le [symmetric]) linarith
    finally show ?thesis .
  qed
  have 2: "unat acc * unat base < ?M \<Longrightarrow> unat (acc * base) = unat acc * unat base" by (simp add: unat_word_ariths)
  have db: "unat digit < ?M" using unat_bound [of digit] by simp
  have 3: "acc * base + digit < acc * base \<longleftrightarrow> ?M \<le> unat acc * unat base + unat digit" if m: "unat acc * unat base < ?M"
  proof -
    have "unat (acc * base + digit) = (unat acc * unat base + unat digit) mod ?M" using 2 [OF m] by (simp add: unat_word_ariths)
    also have "\<dots> = (if unat acc * unat base + unat digit < ?M then unat acc * unat base + unat digit
        else unat acc * unat base + unat digit - ?M)" using m db by (auto simp: mod_if)
    finally show ?thesis using 2 [OF m] db by (auto simp: word_less_nat_alt split: if_splits)
  qed
  show "\<not> ((NOT 0) div base < acc \<or> acc * base + digit < acc * base) \<longleftrightarrow> unat acc * unat base + unat digit < ?M"
    using 1 3 by (cases "unat acc * unat base < ?M") auto
  show "unat acc * unat base + unat digit < ?M \<Longrightarrow> unat (acc * base + digit) = unat acc * unat base + unat digit"
    using 2 by (simp add: unat_word_ariths)
qed

lemma strtoll_loop_ok:
  assumes "n \<le> length buf" and "0 < unat base"
  shows "\<exists>r err. strtoll_loop base buf n acc False = Inr (r, err) \<and>
    (case number_of (unat base) (unat acc) (number_chars (take n buf)) of
       None \<Rightarrow> err | Some v \<Rightarrow> if v < 2 ^ 64 then \<not> err \<and> unat r = v else err)"
  using assms(1)
proof (induction n arbitrary: buf acc)
  case 0
  have "unat acc < 2 ^ 64" using unat_bound [of acc] by simp
  then show ?case by (intro exI [of _ acc] exI [of _ False]) (simp add: number_chars_def)
next
  case (Suc n)
  then obtain c cs where buf: "buf = c # cs" "n \<le> length cs" by (cases buf) auto
  show ?case
  proof (cases "c = 0 \<and> n = 0")
    case True
    have "unat acc < 2 ^ 64" using unat_bound [of acc] by simp
    then show ?thesis using True buf by (intro exI [of _ acc] exI [of _ False]) (simp add: number_chars_def)
  next
    case False
    have nc: "number_chars (take (Suc n) buf) = c # number_chars (take n cs)"
    proof (cases "take n cs = []")
      case True
      then show ?thesis using buf False by (cases n) (auto simp: number_chars_def)
    qed (use buf in \<open>simp add: number_chars_Cons\<close>)
    let ?d = "char_digit base c"
    let ?e = "base \<le> ?d \<or> (NOT 0) div base < acc \<or> acc * base + ?d < acc * base"
    have step: "strtoll_loop base buf (Suc n) acc False = strtoll_loop base cs n (acc * base + ?d) ?e"
      using False buf(1) by (auto simp: Let_def)
    show ?thesis
    proof (cases "base \<le> ?d")
      case True
      then have "?e = True" by simp
      then show ?thesis using strtoll_err [OF buf(2), of base "acc * base + ?d"] True step nc digit_of_char [of base c] by auto
    next
      case ok: False
      then have lt: "unat ?d < unat base" by (simp add: word_le_nat_alt)
      let ?v = "unat acc * unat base + unat ?d"
      have nm: "number_of (unat base) (unat acc) (number_chars (take (Suc n) buf)) = number_of (unat base) ?v (number_chars (take n cs))"
        using nc digit_of_char [of base c] ok by simp
      show ?thesis
      proof (cases "?v < 2 ^ 64")
        case True
        then have "?e = False" "unat (acc * base + ?d) = ?v" using strtoll_step [OF assms(2) lt, of acc] ok by auto
        then show ?thesis using Suc(1) [OF buf(2), of "acc * base + ?d"] step nm by simp
      next
        case big: False
        then have "?e = True" using strtoll_step(1) [OF assms(2) lt, of acc] by auto
        then obtain r where r: "strtoll_loop base buf (Suc n) acc False = Inr (r, True)"
          using strtoll_err [OF buf(2), of base "acc * base + ?d"] step by auto
        have "\<not> v < 2 ^ 64" if "number_of (unat base) ?v (number_chars (take n cs)) = Some v" for v
          using number_of_mono [OF assms(2) that] big by linarith
        then show ?thesis using r nm by (auto split: option.splits)
      qed
    qed
  qed
qed

text \<open>C24: Parsing a number is exact: for every buffer of the given length the function returns without reading beyond it, the
  error flag is clear just if the characters (less one nul at the end) are digits of the base and the value fits into
  64 bits, and then the result is that value.\<close>

theorem xm_strtoll_correct:
  assumes "base = 10 \<or> base = 16" and "len \<le> length buf"
  shows "\<exists>r err. xm_strtoll buf len base = Inr (r, err) \<and>
    (\<not> err \<longleftrightarrow> (\<exists>v < 2 ^ 64. number_of (unat base) 0 (number_chars (take len buf)) = Some v)) \<and>
    (\<forall>v < 2 ^ 64. number_of (unat base) 0 (number_chars (take len buf)) = Some v \<longrightarrow> unat r = v)"
proof -
  have "0 < unat base" using assms(1) by auto
  from strtoll_loop_ok [OF assms(2) this, of 0] obtain r err where r: "strtoll_loop base buf len 0 False = Inr (r, err)"
      "case number_of (unat base) 0 (number_chars (take len buf)) of None \<Rightarrow> err | Some v \<Rightarrow> if v < 2 ^ 64 then \<not> err \<and> unat r = v else err"
    by auto
  then show ?thesis using assms(1) by (auto simp: xm_strtoll_def split: option.splits if_splits)
qed

section \<open>Requests and replies\<close>

definition client_ready :: "'d client \<Rightarrow> bool" where
  "client_ready s \<longleftrightarrow> \<not> no_paravirt s \<and> allow_new_xenbus_operation (bus s)"

text \<open>The state after a request and its reply.\<close>

definition exchanged :: "u32 \<Rightarrow> u32 \<Rightarrow> u8 list \<Rightarrow> 'd \<Rightarrow> 'd client \<Rightarrow> 'd client" where
  "exchanged type tid payload d s =
     s\<lparr>bus := (bus s)\<lparr>sequence_number := sequence_number (bus s) + 1\<rparr>, store := d, sent := sent s @ [(type, tid, payload)]\<rparr>"

lemma exchanged_simps [simp]:
  "trans (exchanged type tid payload d s) = trans s" "head_open_transaction (exchanged type tid payload d s) = head_open_transaction s"
  "sent (exchanged type tid payload d s) = sent s @ [(type, tid, payload)]" "store (exchanged type tid payload d s) = d"
  "client_ready (exchanged type tid payload d s) = client_ready s"
  by (simp_all add: exchanged_def client_ready_def)

definition reply_of :: "nat option \<Rightarrow> u8 list \<Rightarrow> u8 list" where
  "reply_of buf reply = (case buf of None \<Rightarrow> reply | Some n \<Rightarrow> overwrite (replicate n 0) (take n reply))"

lemma reply_of_None [simp]: "reply_of None reply = reply"
  by (simp add: reply_of_def)

lemma exchange_ok:
  assumes "client_ready s" and "get_transaction_id x s = Inr tid" and "xs type tid (concat parts) (store s) = ((ty, reply), d)"
    and "case buf of None \<Rightarrow> True | Some n \<Rightarrow> 12 \<le> n"
  shows "\<exists>q. exchange xs True type x buf parts s =
      res_bind (if ty = XS_ERROR then get_error (reply_of buf reply) else Inr STATUS_SUCCESS) (\<lambda>st.
        Inr (st, q, exchanged type tid (concat parts) d s)) \<and>
    reply_payload q = Some (reply_of buf reply) \<and> msg_len (reply_header q) = of_nat (length reply)"
proof -
  have b: "end_operation ((bus s)\<lparr>sequence_number := k, xenbus_outstanding_ctr := xenbus_outstanding_ctr (bus s) + 1\<rparr>) =
      (bus s)\<lparr>sequence_number := k\<rparr>" for k by (cases "bus s") (simp add: end_operation_def)
  have o: "overwrite (replicate (length reply) 0) reply = reply" by (simp add: overwrite_def)
  have "take (min (length reply) n) reply = take n reply" for n by (simp add: min_def)
  then show ?thesis
    using assms b o
    by (cases buf)
      (auto simp: exchange_def make_request_def initialise_sg_list_def initialise_pending_req_def set_reply_buffer_def Let_def
        submit_request_and_await_result_def start_operation_def client_ready_def fill_def m_header_def reply_status_def reply_of_def
        exchanged_def)
qed

lemma exchange_reply:
  assumes "client_ready s" and "get_transaction_id x s = Inr tid" and "xs type tid (concat parts) (store s) = ((ty, reply), d)"
    and "ty \<noteq> XS_ERROR" and "case buf of None \<Rightarrow> True | Some n \<Rightarrow> 12 \<le> n"
  shows "\<exists>q. exchange xs True type x buf parts s = Inr (STATUS_SUCCESS, q, exchanged type tid (concat parts) d s) \<and>
    reply_payload q = Some (reply_of buf reply) \<and> msg_len (reply_header q) = of_nat (length reply)"
  using exchange_ok [where xs = xs and type = type and parts = parts, OF assms(1-3,5)] assms(4) by auto

lemma exchange_error:
  assumes "client_ready s" and "get_transaction_id x s = Inr tid" and "xs type tid (concat parts) (store s) = ((XS_ERROR, reply), d)"
    and "get_error (reply_of buf reply) = Inr e" and "case buf of None \<Rightarrow> True | Some n \<Rightarrow> 12 \<le> n"
  shows "\<exists>q. exchange xs True type x buf parts s = Inr (e, q, exchanged type tid (concat parts) d s) \<and>
    reply_payload q = Some (reply_of buf reply) \<and> msg_len (reply_header q) = of_nat (length reply)"
  using exchange_ok [where xs = xs and type = type and parts = parts, OF assms(1-3,5)] assms(4) by auto

lemma str_eq_ok:
  assumes "0 \<notin> set lit" and "0 \<in> set msg \<or> length lit < length msg"
  shows "\<exists>b. str_eq msg lit = Inr b"
  using assms
proof (induction msg lit rule: str_eq.induct)
  case (3 c cs d ds)
  then show ?case by (cases "c = d") auto
qed auto

lemma get_error_ok:
  assumes "0 \<in> set msg \<or> 9 < length msg"
  shows "\<exists>st. get_error msg = Inr st"
proof -
  have lits: "\<forall>(e, lit)\<in>set xsd_errors. 0 \<notin> set lit \<and> length lit < 10" by (simp add: xsd_errors_def ascii_def)
  have "\<exists>st. get_error_loop msg es = Inr st" if "set es \<subseteq> set xsd_errors" for es
    using that
  proof (induction es)
    case (Cons a es)
    obtain e lit where a: "a = (e, lit)" by (cases a)
    then have "0 \<notin> set lit" "length lit < 10" using lits Cons(2) by auto
    then obtain b where "str_eq msg lit = Inr b" using str_eq_ok [of lit msg] assms by auto
    then show ?case using Cons a by (cases b) simp_all
  qed simp
  then show ?thesis by (simp add: get_error_def)
qed

text \<open>What is assumed of xenstored: replies fit a header's length, an error is a string with its nul and so is a list of
  names.\<close>

definition xs_wf :: "'d xenstored \<Rightarrow> bool" where
  "xs_wf xs \<longleftrightarrow> (\<forall>type tid payload d. length (snd (fst (xs type tid payload d))) < 2 ^ 32 \<and>
     (let (ty, reply) = fst (xs type tid payload d)
      in (ty = XS_ERROR \<longrightarrow> reply \<noteq> [] \<and> last reply = 0) \<and> (type = XS_DIRECTORY \<longrightarrow> reply = [] \<or> last reply = 0)))"

text \<open>A request of an operation.\<close>

lemma exchange_wf:
  assumes "xs_wf xs" and "client_ready s" and "get_transaction_id x s = Inr tid"
  obtains st q reply d where "exchange xs True type x None parts s = Inr (st, q, exchanged type tid (concat parts) d s)"
    "reply_payload q = Some reply" "msg_len (reply_header q) = of_nat (length reply)" "length reply < 2 ^ 32"
    "type = XS_DIRECTORY \<longrightarrow> reply = [] \<or> last reply = 0"
proof -
  obtain ty reply d where x: "xs type tid (concat parts) (store s) = ((ty, reply), d)" by (metis prod.exhaust)
  have w: "length reply < 2 ^ 32" "ty = XS_ERROR \<longrightarrow> reply \<noteq> [] \<and> last reply = 0" "type = XS_DIRECTORY \<longrightarrow> reply = [] \<or> last reply = 0"
    using assms(1) [unfolded xs_wf_def, rule_format, of type tid "concat parts" "store s"] x by simp_all
  have "\<exists>st. (if ty = XS_ERROR then get_error reply else Inr STATUS_SUCCESS) = Inr st"
    using w(2) get_error_ok [of reply] by (metis last_in_set)
  then obtain st where "(if ty = XS_ERROR then get_error reply else Inr STATUS_SUCCESS) = Inr st" by blast
  moreover obtain q where "exchange xs True type x None parts s =
      res_bind (if ty = XS_ERROR then get_error reply else Inr STATUS_SUCCESS) (\<lambda>st. Inr (st, q, exchanged type tid (concat parts) d s))"
      "reply_payload q = Some reply" "msg_len (reply_header q) = of_nat (length reply)"
    using exchange_ok [where buf = None and xs = xs and type = type and parts = parts, OF assms(2,3)] x
    unfolding reply_of_None option.case by blast
  ultimately show thesis using w(1,3) that by simp
qed

section \<open>Listing\<close>

lemma strlen_at_ok: "0 \<notin> set n \<Longrightarrow> strlen_at (pre @ n @ 0 # post) (length pre) = Inr (length n)"
proof -
  assume "0 \<notin> set n"
  then have "takeWhile (\<lambda>c. c \<noteq> 0) (n @ 0 # post) = n" by (subst takeWhile_append2) auto
  then show ?thesis by (simp add: strlen_at_def Let_def)
qed

definition join_names :: "u8 list list \<Rightarrow> u8 list" where
  "join_names names = concat (map (\<lambda>n. n @ [0]) names)"

lemma join_names_simps [simp]: "join_names [] = []" "join_names (n # ns) = n @ 0 # join_names ns"
  by (simp_all add: join_names_def)

lemma ls_split_ok:
  assumes "\<forall>n\<in>set rest. 0 \<notin> set n" and "len = length (pre @ join_names rest)" and "length res + length rest \<le> nr"
  shows "ls_split (\<lambda>_. True) (pre @ join_names rest) len nr (length pre) res = Inr (Inr (res @ rest))"
  using assms
proof (induction rest arbitrary: pre res)
  case Nil
  then show ?case by (simp add: ls_split.simps)
next
  case (Cons n rest)
  let ?r = "pre @ join_names (n # rest)"
  have "strlen_at ?r (length pre) = Inr (length n)" using strlen_at_ok [of n pre "join_names rest"] Cons(2) by simp
  moreover have "take (length n) (drop (length pre) ?r) = n" by simp
  ultimately have "ls_split (\<lambda>_. True) ?r len nr (length pre) res = ls_split (\<lambda>_. True) ?r len nr (length (pre @ n @ [0])) (res @ [n])"
    using Cons(3,4) by (subst ls_split.simps) simp
  also have "\<dots> = Inr (Inr (res @ n # rest))" using Cons(1) [of "pre @ n @ [0]" "res @ [n]"] Cons(2-4) by simp
  finally show ?case .
qed

lemma count_names: "\<forall>n\<in>set names. 0 \<notin> set n \<Longrightarrow> length (filter (\<lambda>c. c = 0) (join_names names)) = length names"
  by (induction names) (auto simp: filter_empty_conv)

lemma names_of: "reply = [] \<or> last reply = 0 \<Longrightarrow> \<exists>names. reply = join_names names \<and> (\<forall>n\<in>set names. 0 \<notin> set n)"
proof (induction "length reply" arbitrary: reply rule: less_induct)
  case less
  show ?case
  proof (cases "reply = []")
    case True
    then show ?thesis by (intro exI [of _ "[]"]) simp
  next
    case False
    define n where "n = takeWhile (\<lambda>c. c \<noteq> 0) reply"
    have "0 \<in> set reply" using False less(2) last_in_set [of reply] by auto
    then obtain post where post: "dropWhile (\<lambda>c. c \<noteq> 0) reply = 0 # post"
      by (metis (mono_tags, lifting) dropWhile_eq_Nil_conv hd_dropWhile list.collapse)
    have r: "reply = n @ 0 # post" using takeWhile_dropWhile_id [of "\<lambda>c. c \<noteq> 0" reply] post by (simp add: n_def)
    have "post = [] \<or> last post = 0" using less(2) r by (auto split: if_splits)
    then obtain names where "post = join_names names" "\<forall>n\<in>set names. 0 \<notin> set n" using less(1) [of post] r by auto
    moreover have "0 \<notin> set n" by (auto simp: n_def dest: set_takeWhileD)
    ultimately show ?thesis using r by (intro exI [of _ "n # names"]) simp
  qed
qed

text \<open>Listing a node gives the names: whatever names, without nuls, xenstored sends, each with its nul, the result
  is exactly that list, also when it is empty, and one request is sent.\<close>

theorem xenbus_ls_correct:
  assumes "client_ready s" and "transaction_status x s = Inr st" and "NT_SUCCESS st" and "get_transaction_id x s = Inr tid"
    and "\<forall>n\<in>set names. 0 \<notin> set n" and "length (join_names names) < 2 ^ 32"
    and "xs XS_DIRECTORY tid (p @ [0]) (store s) = ((XS_DIRECTORY, join_names names), d)"
  shows "xenbus_ls xs True True (\<lambda>_. True) x p s = Inr (STATUS_SUCCESS, Some names, exchanged XS_DIRECTORY tid (p @ [0]) d s)"
proof -
  obtain q where q: "exchange xs True XS_DIRECTORY x None [p @ [0]] s = Inr (STATUS_SUCCESS, q, exchanged XS_DIRECTORY tid (p @ [0]) d s)"
      "reply_payload q = Some (join_names names)" "msg_len (reply_header q) = of_nat (length (join_names names))"
    using exchange_ok [where buf = None and parts = "[p @ [0]]" and type = XS_DIRECTORY and xs = xs, OF assms(1,4)] assms(7)
    by (auto simp: reply_of_def)
  have u: "unat (msg_len (reply_header q)) = length (join_names names)" using q(3) assms(6) by (simp add: unat_of_nat_lt)
  have "ls_split (\<lambda>_. True) (join_names names) (length (join_names names)) (length names) 0 [] = Inr (Inr names)"
    using ls_split_ok [OF assms(5), of "length (join_names names)" "[]" "[]" "length names"] by simp
  then show ?thesis
    using assms(2,3) q(1,2) u count_names [OF assms(5)] by (simp add: xenbus_ls_def Let_def NT_SUCCESS_def)
qed

text \<open>When there is no memory for the first name, the clean-up counts down from the wrapped index and touches memory
  beyond the array.\<close>

theorem xenbus_ls_no_memory_faults:
  assumes "client_ready s" and "transaction_status x s = Inr st" and "NT_SUCCESS st" and "get_transaction_id x s = Inr tid"
    and "\<forall>n\<in>set names. 0 \<notin> set n" and "names \<noteq> []" and "length (join_names names) < 2 ^ 32"
    and "xs XS_DIRECTORY tid (p @ [0]) (store s) = ((XS_DIRECTORY, join_names names), d)" and "\<not> alloc 0"
  shows "xenbus_ls xs True True alloc x p s = Inl BadPointer"
proof -
  obtain q where q: "exchange xs True XS_DIRECTORY x None [p @ [0]] s = Inr (STATUS_SUCCESS, q, exchanged XS_DIRECTORY tid (p @ [0]) d s)"
      "reply_payload q = Some (join_names names)" "msg_len (reply_header q) = of_nat (length (join_names names))"
    using exchange_ok [where buf = None and parts = "[p @ [0]]" and type = XS_DIRECTORY and xs = xs, OF assms(1,4)] assms(8)
    by (auto simp: reply_of_def)
  have u: "unat (msg_len (reply_header q)) = length (join_names names)" using q(3) assms(7) by (simp add: unat_of_nat_lt)
  obtain n rest where n: "names = n # rest" using assms(6) by (cases names) auto
  have "strlen_at (join_names names) 0 = Inr (length n)" using strlen_at_ok [of n "[]" "join_names rest"] n assms(5) by simp
  moreover have "unat (- 1 :: u32) = 4294967295" by (simp add: unsigned_minus_1_eq_mask mask_eq_exp_minus_1)
  moreover have "ls_free 4294967295 [] = Inl BadPointer" using ls_free.simps(2) [of 4294967294 "[]"] by simp
  ultimately have "ls_split alloc (join_names names) (length (join_names names)) (length names) 0 [] = Inl BadPointer"
    using n assms(9) by (subst ls_split.simps) simp
  then show ?thesis
    using assms(2,3) q(1,2) u count_names [OF assms(5)] by (simp add: xenbus_ls_def Let_def NT_SUCCESS_def)
qed

section \<open>The contract of transactions\<close>

datatype xs_op =
    OpLs "u8 list"
  | OpRead "u8 list"
  | OpReadBin "u8 list" "u8 list option"
  | OpReadInt "u8 list" "u8 list"
  | OpReadState "u8 list" "u8 list"
  | OpReadFlag "u8 list" "u8 list"
  | OpReadDomain "u8 list" "u8 list"
  | OpWrite "u8 list" "u8 list option" "u8 list"
  | OpPrintf "u8 list" "u8 list" "u8 list option"
  | OpRemove "u8 list"

fun run_xs_op :: "'d xenstored \<Rightarrow> xenbus_transaction_t \<Rightarrow> xs_op \<Rightarrow> 'd client \<Rightarrow> (NTSTATUS \<times> 'd client) res" where
  "run_xs_op xs x (OpLs p) s = res_bind (xenbus_ls xs True True (\<lambda>_. True) x p s) (\<lambda>(st, _, s). Inr (st, s))"
| "run_xs_op xs x (OpRead p) s = res_bind (xenbus_read xs True True x p s) (\<lambda>(st, _, s). Inr (st, s))"
| "run_xs_op xs x (OpReadBin p n) s = res_bind (xenbus_read_bin xs True x p n s) (\<lambda>(st, _, _, s). Inr (st, s))"
| "run_xs_op xs x (OpReadInt p n) s = res_bind (xenbus_read_int xs True x p n s) (\<lambda>(st, _, s). Inr (st, s))"
| "run_xs_op xs x (OpReadState p n) s = res_bind (xenbus_read_state xs True x p n s) (\<lambda>(st, _, s). Inr (st, s))"
| "run_xs_op xs x (OpReadFlag p n) s = res_bind (xenbus_read_feature_flag xs True x p n s) (\<lambda>(st, _, s). Inr (st, s))"
| "run_xs_op xs x (OpReadDomain p n) s = res_bind (xenbus_read_domain_id xs True x p n s) (\<lambda>(st, _, s). Inr (st, s))"
| "run_xs_op xs x (OpWrite p n v) s = xenbus_write_bin xs True x p n v s"
| "run_xs_op xs x (OpPrintf p n v) s = xenbus_printf xs True x p n v s"
| "run_xs_op xs x (OpRemove p) s = xenbus_remove xs True x p s"

fun run_xs_ops :: "'d xenstored \<Rightarrow> xenbus_transaction_t \<Rightarrow> xs_op list \<Rightarrow> 'd client \<Rightarrow> (NTSTATUS list \<times> 'd client) res" where
  "run_xs_ops xs x [] s = Inr ([], s)"
| "run_xs_ops xs x (p # ps) s = res_bind (run_xs_op xs x p s) (\<lambda>(st, s). res_bind (run_xs_ops xs x ps s) (\<lambda>(sts, s). Inr (st # sts, s)))"

lemma trans_simps:
  assumes "trans s t = Some r"
  shows "transaction_status (XBT t) s = Inr (t_status r)" "get_transaction_id (XBT t) s = Inr (trans_id r)"
    "unwrap_xenbus_transaction_t s (XBT t) = Inr (t, r)"
    "xenbus_fail_transaction (XBT t) st s =
       Inr (if t_status r = STATUS_SUCCESS then s\<lparr>trans := (trans s)(t \<mapsto> r\<lparr>t_status := st\<rparr>)\<rparr> else s)"
  using assms by (simp_all add: transaction_status_def get_transaction_id_def unwrap_xenbus_transaction_t_def xenbus_fail_transaction_def)

text \<open>In a failed transaction an operation does nothing and returns the error; two of them have results of their own.\<close>

definition failed_result :: "NTSTATUS \<Rightarrow> xs_op \<Rightarrow> NTSTATUS" where
  "failed_result st p =
     (case p of
        OpPrintf _ _ None \<Rightarrow> STATUS_INSUFFICIENT_RESOURCES
      | OpReadFlag _ _ \<Rightarrow> if st = STATUS_OBJECT_NAME_NOT_FOUND then STATUS_SUCCESS else st
      | _ \<Rightarrow> st)"

lemma op_failed:
  assumes "trans s t = Some r" and "\<not> NT_SUCCESS (t_status r)"
  shows "run_xs_op xs (XBT t) p s = Inr (failed_result (t_status r) p, s)"
proof -
  have st: "transaction_status (XBT t) s = Inr (t_status r)" and nz: "t_status r \<noteq> STATUS_SUCCESS"
    using trans_simps(1) [OF assms(1)] assms(2) by (auto simp: NT_SUCCESS_def)
  have f: "xenbus_fail_transaction (XBT t) e s = Inr s" for e using trans_simps(4) [OF assms(1), of e] nz by simp
  show ?thesis
    by (cases p)
      (simp_all add: st f assms(2) failed_result_def xenbus_ls_def xenbus_read_def xenbus_read_bin_def xenbus_read_bin_no_fail_def
        xenbus_read_int_def xenbus_read_state_def xenbus_read_feature_flag_def xenbus_read_domain_id_def xenbus_write_bin_def
        xenbus_printf_def xenbus_remove_def split: option.split)
qed

lemma run_failed:
  assumes "trans s t = Some r" and "\<not> NT_SUCCESS (t_status r)"
  shows "run_xs_ops xs (XBT t) ps s = Inr (map (failed_result (t_status r)) ps, s)"
  using op_failed [OF assms] by (induction ps) simp_all

text \<open>In a good transaction: at most one request is sent, under the transaction's number, and a failure is recorded.\<close>

definition op_post :: "nat \<Rightarrow> xenbus_transaction \<Rightarrow> 'd client \<Rightarrow> NTSTATUS \<Rightarrow> 'd client \<Rightarrow> bool" where
  "op_post t r s st s' \<longleftrightarrow>
     (\<exists>new. sent s' = sent s @ new \<and> length new \<le> 1 \<and> (\<forall>e\<in>set new. fst (snd e) = trans_id r)) \<and>
     trans s' t = Some (if NT_SUCCESS st then r else r\<lparr>t_status := st\<rparr>) \<and> client_ready s'"

lemma op_post_ok: "trans s t = Some r \<Longrightarrow> client_ready s \<Longrightarrow> NT_SUCCESS st \<Longrightarrow> op_post t r s st (exchanged type (trans_id r) pl d s)"
  by (simp add: op_post_def)

lemma op_post_fail:
  assumes "trans s t = Some r" and "client_ready s" and "t_status r = STATUS_SUCCESS" and "\<not> NT_SUCCESS st"
  shows "\<exists>s'. xenbus_fail_transaction (XBT t) st (exchanged type (trans_id r) pl d s) = Inr s' \<and> op_post t r s st s'"
proof -
  have "trans (exchanged type (trans_id r) pl d s) t = Some r" using assms(1) by simp
  from trans_simps(4) [OF this, of st] show ?thesis
    using assms by (auto simp: op_post_def client_ready_def exchanged_def)
qed

lemma read_bin_ok:
  assumes "xs_wf xs" and "client_ready s" and "trans s t = Some r" and "t_status r = STATUS_SUCCESS"
  obtains st pl d where "\<not> NT_SUCCESS st" "xenbus_read_bin_no_fail xs True (XBT t) p n s = Inr (st, None, 0, exchanged XS_READ (trans_id r) pl d s)"
  | st pl d reply where "NT_SUCCESS st"
      "xenbus_read_bin_no_fail xs True (XBT t) p n s = Inr (st, Some reply, length reply, exchanged XS_READ (trans_id r) pl d s)"
proof -
  note t = trans_simps [OF assms(3)]
  obtain st q reply d where q: "exchange xs True XS_READ (XBT t) None (node_parts p n) s =
      Inr (st, q, exchanged XS_READ (trans_id r) (concat (node_parts p n)) d s)"
      "reply_payload q = Some reply" "msg_len (reply_header q) = of_nat (length reply)" "length reply < 2 ^ 32"
    using exchange_wf [OF assms(1,2) t(2), of XS_READ "node_parts p n"] by metis
  have u: "unat (msg_len (reply_header q)) = length reply" using q(3,4) by (simp add: unat_of_nat_lt)
  have s: "NT_SUCCESS STATUS_SUCCESS" by (simp add: NT_SUCCESS_def)
  show thesis
    using that(1) [of st "concat (node_parts p n)" d] that(2) [of st reply "concat (node_parts p n)" d] q(1,2) u t(1) assms(4) s
    by (cases "NT_SUCCESS st") (simp_all add: xenbus_read_bin_no_fail_def)
qed

lemma strtoll_total: "\<exists>v err. strtoll_opt (Some b) (length b) 10 = Inr (v, err)"
  using strtoll_loop_ok [of "length b" b 10 0] by (auto simp: strtoll_opt_def xm_strtoll_def)

lemma NT_SUCCESS_simps [simp]:
  "NT_SUCCESS STATUS_SUCCESS" "\<not> NT_SUCCESS STATUS_DATA_ERROR" "\<not> NT_SUCCESS STATUS_INVALID_PARAMETER"
  "\<not> NT_SUCCESS STATUS_INSUFFICIENT_RESOURCES" "\<not> NT_SUCCESS STATUS_RETRY" "\<not> NT_SUCCESS STATUS_OBJECT_NAME_NOT_FOUND"
  by (simp_all add: NT_SUCCESS_def)

lemma read_bin_post:
  assumes "xs_wf xs" and "client_ready s" and "trans s t = Some r" and "t_status r = STATUS_SUCCESS"
  obtains st s1 s' where "\<not> NT_SUCCESS st" "xenbus_read_bin_no_fail xs True (XBT t) p n s = Inr (st, None, 0, s1)"
      "xenbus_read_bin xs True (XBT t) p n s = Inr (st, None, 0, s')" "xenbus_fail_transaction (XBT t) st s1 = Inr s'"
      "op_post t r s st s'" "op_post t r s STATUS_SUCCESS s1"
  | st s1 reply where "NT_SUCCESS st" "xenbus_read_bin_no_fail xs True (XBT t) p n s = Inr (st, Some reply, length reply, s1)"
      "xenbus_read_bin xs True (XBT t) p n s = Inr (st, Some reply, length reply, s1)"
      "\<And>e. NT_SUCCESS e \<Longrightarrow> op_post t r s e s1"
      "\<And>e. \<not> NT_SUCCESS e \<Longrightarrow> \<exists>s'. xenbus_fail_transaction (XBT t) e s1 = Inr s' \<and> op_post t r s e s'"
proof (cases rule: read_bin_ok [OF assms, of p n])
  case (1 st pl d)
  let ?s = "exchanged XS_READ (trans_id r) pl d s"
  obtain s' where s': "xenbus_fail_transaction (XBT t) st ?s = Inr s'" "op_post t r s st s'"
    using op_post_fail [OF assms(3,2,4) 1(1)] by blast
  have ok: "op_post t r s STATUS_SUCCESS ?s" using op_post_ok [OF assms(3,2)] by simp
  have rb: "xenbus_read_bin xs True (XBT t) p n s = Inr (st, None, 0, s')" using 1 s'(1) by (simp add: xenbus_read_bin_def)
  show thesis by (rule that(1) [OF 1 rb s' ok])
next
  case (2 st pl d reply)
  have rb: "xenbus_read_bin xs True (XBT t) p n s = Inr (st, Some reply, length reply, exchanged XS_READ (trans_id r) pl d s)"
    using 2 by (simp add: xenbus_read_bin_def)
  show thesis by (rule that(2) [OF 2 rb op_post_ok [OF assms(3,2)] op_post_fail [OF assms(3,2,4)]])
qed

lemma read_op_ok:
  assumes "xs_wf xs" and "client_ready s" and "trans s t = Some r" and "t_status r = STATUS_SUCCESS"
  shows "\<exists>st s'. run_xs_op xs (XBT t) (OpRead a) s = Inr (st, s') \<and> op_post t r s st s'"
proof (cases rule: read_bin_post [OF assms, of a None])
  case (2 st s1 reply)
  then show ?thesis by (auto simp: xenbus_read_def memcpy_def)
qed (auto simp: xenbus_read_def)

lemma read_bin_op_ok:
  assumes "xs_wf xs" and "client_ready s" and "trans s t = Some r" and "t_status r = STATUS_SUCCESS"
  shows "\<exists>st s'. run_xs_op xs (XBT t) (OpReadBin a n) s = Inr (st, s') \<and> op_post t r s st s'"
  by (cases rule: read_bin_post [OF assms, of a n]) auto

lemma read_int_post:
  assumes "xs_wf xs" and "client_ready s" and "trans s t = Some r" and "t_status r = STATUS_SUCCESS"
  obtains st v s' where "\<not> NT_SUCCESS st" "xenbus_read_int xs True (XBT t) p n s = Inr (st, v, s')" "op_post t r s st s'"
  | v s1 where "xenbus_read_int xs True (XBT t) p n s = Inr (STATUS_SUCCESS, v, s1)" "op_post t r s STATUS_SUCCESS s1"
      "\<exists>s'. xenbus_fail_transaction (XBT t) STATUS_DATA_ERROR s1 = Inr s' \<and> op_post t r s STATUS_DATA_ERROR s'"
proof (cases rule: read_bin_post [OF assms, of p "Some n"])
  case (1 st s1 s')
  show thesis using that(1) [of st 0 s'] 1 by (simp add: xenbus_read_int_def)
next
  case (2 st s1 reply)
  obtain v err where v: "strtoll_opt (Some reply) (length reply) 10 = Inr (v, err)" using strtoll_total by blast
  obtain s' where s': "xenbus_fail_transaction (XBT t) STATUS_DATA_ERROR s1 = Inr s'" "op_post t r s STATUS_DATA_ERROR s'"
    using 2(5) [of STATUS_DATA_ERROR] by auto
  show thesis
  proof (cases err)
    case True
    then show thesis using that(1) [of STATUS_DATA_ERROR 0 s'] 2(1,3) v s' by (simp add: xenbus_read_int_def)
  next
    case False
    then show thesis using that(2) [of v s1] 2(1,3,4) v s' by (simp add: xenbus_read_int_def)
  qed
qed

lemma read_int_ops_ok:
  assumes "xs_wf xs" and "client_ready s" and "trans s t = Some r" and "t_status r = STATUS_SUCCESS"
  shows "\<exists>st s'. run_xs_op xs (XBT t) (OpReadInt a b) s = Inr (st, s') \<and> op_post t r s st s'"
    "\<exists>st s'. run_xs_op xs (XBT t) (OpReadState a b) s = Inr (st, s') \<and> op_post t r s st s'"
  by (cases rule: read_int_post [OF assms, of a b]; auto simp: xenbus_read_state_def)+

lemma read_flag_ok:
  assumes "xs_wf xs" and "client_ready s" and "trans s t = Some r" and "t_status r = STATUS_SUCCESS"
  shows "\<exists>st s'. run_xs_op xs (XBT t) (OpReadFlag a b) s = Inr (st, s') \<and> op_post t r s st s'"
proof (cases rule: read_bin_post [OF assms, of a "Some b"])
  case (1 st s1 s')
  then show ?thesis by (auto simp: xenbus_read_feature_flag_def)
next
  case (2 st s1 reply)
  have "st \<noteq> STATUS_OBJECT_NAME_NOT_FOUND" using 2(1) by auto
  moreover have "\<exists>s'. xenbus_fail_transaction (XBT t) STATUS_DATA_ERROR s1 = Inr s' \<and> op_post t r s STATUS_DATA_ERROR s'" using 2(5) by simp
  ultimately show ?thesis using 2(1,2,4) by (cases reply) (auto simp: xenbus_read_feature_flag_def)
qed

lemma read_domain_ok:
  assumes "xs_wf xs" and "client_ready s" and "trans s t = Some r" and "t_status r = STATUS_SUCCESS"
  shows "\<exists>st s'. run_xs_op xs (XBT t) (OpReadDomain a b) s = Inr (st, s') \<and> op_post t r s st s'"
proof (cases rule: read_bin_post [OF assms, of a "Some b"])
  case (1 st s1 s')
  then show ?thesis by (auto simp: xenbus_read_domain_id_def)
next
  case (2 st s1 reply)
  obtain v err where v: "strtoll_opt (Some reply) (length reply) 10 = Inr (v, err)" using strtoll_total by blast
  have "\<exists>s'. xenbus_fail_transaction (XBT t) STATUS_INVALID_PARAMETER s1 = Inr s' \<and> op_post t r s STATUS_INVALID_PARAMETER s'" using 2(5) by simp
  then show ?thesis using 2(1,3,4) v by (cases "0x7FF0 \<le> v") (auto simp: xenbus_read_domain_id_def)
qed

lemma fail_or_not:
  assumes "client_ready s" and "trans s t = Some r" and "t_status r = STATUS_SUCCESS"
  shows "\<exists>s'. (if \<not> NT_SUCCESS st then res_bind (xenbus_fail_transaction (XBT t) st (exchanged type (trans_id r) pl d s)) (\<lambda>s. Inr (st, s))
      else Inr (st, exchanged type (trans_id r) pl d s)) = Inr (st, s') \<and> op_post t r s st s'"
  using op_post_ok [OF assms(2,1), of st type pl d] op_post_fail [OF assms(2,1,3), of st type pl d] by (cases "NT_SUCCESS st") auto

lemma other_ops_ok:
  assumes "xs_wf xs" and "client_ready s" and "trans s t = Some r" and "t_status r = STATUS_SUCCESS"
    and "p = OpLs a \<or> p = OpWrite a n v \<or> p = OpPrintf a b w \<or> p = OpRemove a"
  shows "\<exists>st s'. run_xs_op xs (XBT t) p s = Inr (st, s') \<and> op_post t r s st s'"
proof -
  note post = op_post_ok [OF assms(3,2)] op_post_fail [OF assms(3,2,4)]
  note t = trans_simps [OF assms(3)]
  have wr: "\<exists>st s'. xenbus_write_bin xs True (XBT t) a n v s = Inr (st, s') \<and> op_post t r s st s'" for a n v
  proof -
    obtain st q reply d where q: "exchange xs True XS_WRITE (XBT t) None (node_parts a n @ [v]) s =
        Inr (st, q, exchanged XS_WRITE (trans_id r) (concat (node_parts a n @ [v])) d s)"
      using exchange_wf [OF assms(1,2) t(2), of XS_WRITE "node_parts a n @ [v]"] by metis
    show ?thesis using q fail_or_not [OF assms(2-4), of st XS_WRITE "concat (node_parts a n @ [v])" d] t(1) assms(4)
      by (cases "NT_SUCCESS st") (auto simp: xenbus_write_bin_def)
  qed
  have remove: "\<exists>st s'. xenbus_remove xs True (XBT t) a s = Inr (st, s') \<and> op_post t r s st s'" for a
  proof -
    obtain st q reply d where q: "exchange xs True XS_RM (XBT t) None [a @ [0]] s =
        Inr (st, q, exchanged XS_RM (trans_id r) (concat [a @ [0]]) d s)"
      using exchange_wf [OF assms(1,2) t(2), of XS_RM "[a @ [0]]"] by metis
    show ?thesis using q fail_or_not [OF assms(2-4), of st XS_RM "concat [a @ [0]]" d] t(1) assms(4)
      by (cases "NT_SUCCESS st") (auto simp: xenbus_remove_def)
  qed
  have ls: "\<exists>st s'. run_xs_op xs (XBT t) (OpLs a) s = Inr (st, s') \<and> op_post t r s st s'" for a
  proof -
    obtain st q reply d where q: "exchange xs True XS_DIRECTORY (XBT t) None [a @ [0]] s =
        Inr (st, q, exchanged XS_DIRECTORY (trans_id r) (concat [a @ [0]]) d s)"
        "reply_payload q = Some reply" "msg_len (reply_header q) = of_nat (length reply)" "length reply < 2 ^ 32" "reply = [] \<or> last reply = 0"
      using exchange_wf [OF assms(1,2) t(2), of XS_DIRECTORY "[a @ [0]]"] by metis
    have u: "unat (msg_len (reply_header q)) = length reply" using q(3,4) by (simp add: unat_of_nat_lt)
    obtain names where names: "reply = join_names names" "\<forall>n\<in>set names. 0 \<notin> set n" using names_of [OF q(5)] by blast
    have "ls_split (\<lambda>_. True) reply (length reply) (length names) 0 [] = Inr (Inr names)"
      using ls_split_ok [OF names(2), of "length reply" "[]" "[]" "length names"] names(1) by simp
    then show ?thesis
      using q(1,2) u names count_names [OF names(2)] t(1) assms(4) post(1) [of STATUS_SUCCESS XS_DIRECTORY "a @ [0]" d]
        fail_or_not [OF assms(2-4), of st XS_DIRECTORY "a @ [0]" d]
      by (cases "NT_SUCCESS st") (auto simp: xenbus_ls_def Let_def res_bind_Inr_iff)
  qed
  have "\<exists>st s'. run_xs_op xs (XBT t) (OpPrintf a b None) s = Inr (st, s') \<and> op_post t r s st s'"
    using t(4) [of STATUS_INSUFFICIENT_RESOURCES] assms(2,4) by (auto simp: xenbus_printf_def op_post_def client_ready_def)
  then show ?thesis using assms(5) wr remove ls by (cases w) (auto simp: xenbus_printf_def)
qed

lemma op_ok:
  assumes "xs_wf xs" and "client_ready s" and "trans s t = Some r" and "t_status r = STATUS_SUCCESS"
  shows "\<exists>st s'. run_xs_op xs (XBT t) p s = Inr (st, s') \<and> op_post t r s st s'"
  using read_op_ok [OF assms] read_bin_op_ok [OF assms] read_int_ops_ok [OF assms] read_flag_ok [OF assms] read_domain_ok [OF assms]
    other_ops_ok [OF assms]
  by (cases p) blast+

lemma run_xs_ops_ok:
  assumes "xs_wf xs" and "client_ready s" and "trans s t = Some r" and "t_status r = STATUS_SUCCESS"
  shows "\<exists>rs s' k new. run_xs_ops xs (XBT t) ps s = Inr (rs, s') \<and> length rs = length ps \<and> k \<le> length ps \<and> (\<forall>i<k. NT_SUCCESS (rs ! i)) \<and>
    sent s' = sent s @ new \<and> length new \<le> Suc k \<and> (\<forall>e\<in>set new. fst (snd e) = trans_id r) \<and> client_ready s' \<and>
    (if k = length ps then trans s' t = Some r
     else \<not> NT_SUCCESS (rs ! k) \<and> trans s' t = Some (r\<lparr>t_status := rs ! k\<rparr>) \<and>
       (\<forall>i<length ps. k < i \<longrightarrow> rs ! i = failed_result (rs ! k) (ps ! i)))"
  using assms(2,3)
proof (induction ps arbitrary: s)
  case Nil
  then show ?case by simp
next
  case (Cons p ps)
  obtain st s1 where o: "run_xs_op xs (XBT t) p s = Inr (st, s1)" "op_post t r s st s1"
    using op_ok [OF assms(1) Cons(2,3) assms(4)] by blast
  then obtain new where new: "sent s1 = sent s @ new" "length new \<le> 1" "\<forall>e\<in>set new. fst (snd e) = trans_id r"
      "trans s1 t = Some (if NT_SUCCESS st then r else r\<lparr>t_status := st\<rparr>)" "client_ready s1"
    by (auto simp: op_post_def)
  show ?case
  proof (cases "NT_SUCCESS st")
    case True
    then obtain rs s' k new' where ih: "run_xs_ops xs (XBT t) ps s1 = Inr (rs, s')" "length rs = length ps" "k \<le> length ps" "\<forall>i<k. NT_SUCCESS (rs ! i)"
        "sent s' = sent s1 @ new'" "length new' \<le> Suc k" "\<forall>e\<in>set new'. fst (snd e) = trans_id r" "client_ready s'"
        "if k = length ps then trans s' t = Some r else \<not> NT_SUCCESS (rs ! k) \<and> trans s' t = Some (r\<lparr>t_status := rs ! k\<rparr>) \<and>
           (\<forall>i<length ps. k < i \<longrightarrow> rs ! i = failed_result (rs ! k) (ps ! i))"
      using Cons(1) [OF new(5)] new(4) by auto
    have "\<forall>i<Suc k. NT_SUCCESS ((st # rs) ! i)" using True ih(4) by (auto simp: nth_Cons split: nat.split)
    moreover have "\<forall>i<length (p # ps). Suc k < i \<longrightarrow> (st # rs) ! i = failed_result (rs ! k) ((p # ps) ! i)" if "k \<noteq> length ps"
      using ih(9) that by (auto simp: nth_Cons split: nat.split)
    ultimately show ?thesis
      using o(1) new ih by (intro exI [of _ "st # rs"] exI [of _ s'] exI [of _ "Suc k"] exI [of _ "new @ new'"]) auto
  next
    case False
    then have "run_xs_ops xs (XBT t) ps s1 = Inr (map (failed_result st) ps, s1)"
      using run_failed [of s1 t "r\<lparr>t_status := st\<rparr>" xs ps] new(4) by simp
    moreover have "\<forall>i<length (p # ps). 0 < i \<longrightarrow> (st # map (failed_result st) ps) ! i = failed_result st ((p # ps) ! i)"
      by (auto simp: nth_Cons split: nat.split)
    ultimately show ?thesis
      using o(1) new False
      by (intro exI [of _ "st # map (failed_result st) ps"] exI [of _ s1] exI [of _ 0] exI [of _ new]) auto
  qed
qed

lemma transaction_end_ok:
  assumes "client_ready s" and "trans s t = Some r" and "t_caller r = caller" and "t_thread r = thread"
    and "tag = ascii (if abort \<or> \<not> NT_SUCCESS (t_status r) then ''F'' else ''T'') @ [0]"
  shows "\<exists>res s'. xenbus_transaction_end xs caller thread (XBT t) abort s = Inr (res, s') \<and> trans s' = (trans s)(t := None) \<and>
    head_open_transaction s' = remove1 t (head_open_transaction s) \<and>
    sent s' = sent s @ [(XS_TRANSACTION_END, trans_id r, tag)] \<and>
    (fst (fst (xs XS_TRANSACTION_END (trans_id r) tag (store s))) \<noteq> XS_ERROR \<longrightarrow> res = t_status r)"
proof -
  obtain ty reply d where x: "xs XS_TRANSACTION_END (trans_id r) (concat [tag]) (store s) = ((ty, reply), d)" by (metis prod.exhaust)
  note t = trans_simps [OF assms(2)]
  have "9 < length (reply_of (Some 16) reply)" by (simp add: reply_of_def overwrite_def)
  then obtain e where e: "get_error (reply_of (Some 16) reply) = Inr e" using get_error_ok by blast
  obtain q where "exchange xs True XS_TRANSACTION_END (XBT t) (Some 16) [tag] s =
      res_bind (if ty = XS_ERROR then get_error (reply_of (Some 16) reply) else Inr STATUS_SUCCESS) (\<lambda>st.
        Inr (st, q, exchanged XS_TRANSACTION_END (trans_id r) (concat [tag]) d s))"
    using exchange_ok [where xs = xs and type = XS_TRANSACTION_END and parts = "[tag]" and buf = "Some 16", OF assms(1) t(2)] x by auto
  then have "exchange xs True XS_TRANSACTION_END (XBT t) (Some 16) [tag] s =
      Inr (if ty = XS_ERROR then e else STATUS_SUCCESS, q, exchanged XS_TRANSACTION_END (trans_id r) tag d s)"
    using e by simp
  then show ?thesis using x t(3) assms(3-5) by (simp add: xenbus_transaction_end_def Let_def)
qed


section \<open>Round trips\<close>

lemma digit_char: "k < 10 \<Longrightarrow> digit_of 10 (of_nat (48 + k)) = Some k"
proof -
  assume k: "k < 10"
  have u: "unat (of_nat (48 + k) :: u8) = 48 + k" using k by (intro unat_of_nat_lt) simp
  then have "48 \<le> (of_nat (48 + k) :: u8)" "(of_nat (48 + k) :: u8) \<le> 57" using k by (simp_all only: word_le_nat_alt) simp_all
  then show ?thesis using u k by (simp add: digit_of_def Let_def)
qed

lemma number_of_digits: "number_of 10 0 (dec_digits k) = Some k"
proof (induction k rule: dec_digits.induct)
  case (1 k)
  show ?case
  proof (cases "k < 10")
    case True
    then show ?thesis using digit_char [of k] by (subst dec_digits.simps) simp
  next
    case False
    then have "number_of 10 0 (dec_digits k) = number_of 10 (k div 10) [of_nat (48 + k mod 10)]"
      using 1 by (subst dec_digits.simps) (simp add: number_of_append del: number_of.simps(2))
    then show ?thesis using digit_char [of "k mod 10"] by simp
  qed
qed

lemma dec_digits_nonzero: "0 \<notin> set (dec_digits k)"
proof (induction k rule: dec_digits.induct)
  case (1 k)
  have "(of_nat (48 + j) :: u8) \<noteq> 0" if "j < 10" for j
  proof -
    have "unat (of_nat (48 + j) :: u8) = 48 + j" using that by (intro unat_of_nat_lt) simp
    then show ?thesis by (auto simp del: of_nat_add)
  qed
  from this [of k] this [of "k mod 10"] show ?case using 1 by (subst dec_digits.simps) (auto simp del: of_nat_add)
qed

lemma strtoll_digits:
  assumes "k < 2 ^ 64"
  shows "strtoll_opt (Some (dec_digits k)) (length (dec_digits k)) 10 = Inr (of_nat k, False)"
proof -
  have "number_chars (dec_digits k) = dec_digits k"
    using dec_digits_nonzero [of k] by (auto simp: number_chars_def) (metis last_in_set)
  then obtain r err where "strtoll_loop 10 (dec_digits k) (length (dec_digits k)) 0 False = Inr (r, err)" "\<not> err" "unat r = k"
    using strtoll_loop_ok [of "length (dec_digits k)" "dec_digits k" 10 0] number_of_digits [of k] assms by auto
  moreover from this(3) have "r = of_nat k" by auto
  ultimately show ?thesis by (simp add: strtoll_opt_def xm_strtoll_def)
qed

text \<open>What xenstored promises: a value that was written is read back.\<close>

definition xs_reads_writes :: "'d xenstored \<Rightarrow> bool" where
  "xs_reads_writes xs \<longleftrightarrow> (\<forall>p v d ty reply d'. 0 \<notin> set p \<longrightarrow> xs XS_WRITE 0 (p @ 0 # v) d = ((ty, reply), d') \<longrightarrow> ty \<noteq> XS_ERROR \<longrightarrow>
     (\<exists>d''. xs XS_READ 0 (p @ [0]) d' = ((XS_READ, v), d'')))"

lemma nil_simps [simp]:
  "transaction_status XBT_NIL s = Inr STATUS_SUCCESS" "get_transaction_id XBT_NIL s = Inr 0" "xenbus_fail_transaction XBT_NIL st s = Inr s"
  by (simp_all add: transaction_status_def get_transaction_id_def xenbus_fail_transaction_def)

lemma length_dec_digits: "k < 10 ^ Suc m \<Longrightarrow> length (dec_digits k) \<le> Suc m"
proof (induction m arbitrary: k)
  case 0
  then show ?case by (subst dec_digits.simps) simp
next
  case (Suc m)
  have "k div 10 < 10 ^ Suc m" using Suc(2) by (simp add: div_less_iff_less_mult)
  then show ?case using Suc(1) [of "k div 10"] by (subst dec_digits.simps) simp
qed

text \<open>C25: Numbers survive the store: a number below \<open>2 ^ 64\<close> that was written in decimal, as the states and grant references
  are, without a transaction, is what reading the integer returns, if xenstored accepted the write.\<close>

theorem xenbus_int_roundtrip:
  assumes "xs_reads_writes xs" and "client_ready s" and "0 \<notin> set (p @ 47 # n)" and "k < 2 ^ 64"
    and "xs XS_WRITE 0 ((p @ 47 # n) @ 0 # dec_digits k) (store s) = ((ty, reply), d)" and "ty \<noteq> XS_ERROR"
  shows "\<exists>s1 s2. xenbus_printf xs True XBT_NIL p n (Some (dec_digits k)) s = Inr (STATUS_SUCCESS, s1) \<and>
    xenbus_read_int xs True XBT_NIL p n s1 = Inr (STATUS_SUCCESS, of_nat k, s2)"
proof -
  let ?w = "node_parts p (Some n) @ [dec_digits k]" and ?r = "node_parts p (Some n)"
  have cw: "concat ?w = (p @ 47 # n) @ 0 # dec_digits k" and cr: "concat ?r = (p @ 47 # n) @ [0]" by (simp_all add: node_parts_def)
  let ?s1 = "exchanged XS_WRITE 0 (concat ?w) d s"
  have xw: "xs XS_WRITE 0 (concat ?w) (store s) = ((ty, reply), d)" using assms(5) cw by simp
  obtain q where q: "exchange xs True XS_WRITE XBT_NIL None ?w s = Inr (STATUS_SUCCESS, q, ?s1)"
    using exchange_reply [where buf = None and xs = xs and type = XS_WRITE and parts = ?w and x = XBT_NIL, OF assms(2) nil_simps(2) xw assms(6)]
    by auto
  have w: "xenbus_printf xs True XBT_NIL p n (Some (dec_digits k)) s = Inr (STATUS_SUCCESS, ?s1)"
    using q by (simp add: xenbus_printf_def xenbus_write_bin_def)
  obtain d2 where d2: "xs XS_READ 0 (concat ?r) (store ?s1) = ((XS_READ, dec_digits k), d2)"
    using assms(1) [unfolded xs_reads_writes_def, rule_format, OF assms(3,5,6)] cr by auto
  obtain q2 where q2: "exchange xs True XS_READ XBT_NIL None ?r ?s1 = Inr (STATUS_SUCCESS, q2, exchanged XS_READ 0 (concat ?r) d2 ?s1)"
      "reply_payload q2 = Some (dec_digits k)" "msg_len (reply_header q2) = of_nat (length (dec_digits k))"
    using exchange_reply [where buf = None and xs = xs and type = XS_READ and parts = ?r and x = XBT_NIL and s = ?s1, OF _ nil_simps(2) d2] assms(2)
    by auto
  have "unat (msg_len (reply_header q2)) = length (dec_digits k)" using q2(3) length_dec_digits [of k 19] assms(4) by (simp add: unat_of_nat_lt)
  then have "xenbus_read_int xs True XBT_NIL p n ?s1 = Inr (STATUS_SUCCESS, of_nat k, exchanged XS_READ 0 (concat ?r) d2 ?s1)"
    using q2(1,2) strtoll_digits [OF assms(4)] by (simp add: xenbus_read_int_def xenbus_read_bin_def xenbus_read_bin_no_fail_def)
  then show ?thesis using w by blast
qed

section \<open>Changing a state, step by step\<close>

lemma transaction_start_ok:
  assumes "client_ready s" and "xs XS_TRANSACTION_START 0 [0] (store s) = ((ty, dec_digits tid @ [0]), d)" and "ty \<noteq> XS_ERROR" and "tid < 2 ^ 32"
  shows "xenbus_transaction_start xs (Some t) caller thread s =
    Inr (STATUS_SUCCESS, XBT t, (exchanged XS_TRANSACTION_START 0 [0] d s)
      \<lparr>trans := (trans s)(t \<mapsto> \<lparr>t_caller = caller, t_thread = thread, t_status = STATUS_SUCCESS, trans_id = of_nat tid\<rparr>),
       head_open_transaction := t # head_open_transaction s\<rparr>)"
proof -
  let ?w = "\<lparr>t_caller = caller, t_thread = thread, t_status = STATUS_SUCCESS, trans_id = 0\<rparr>"
  let ?s = "s\<lparr>trans := (trans s)(t \<mapsto> ?w), head_open_transaction := t # head_open_transaction s\<rparr>"
  let ?n = "length (dec_digits tid)" and ?buf = "reply_of (Some 16) (dec_digits tid @ [0])"
  have n: "?n \<le> 10" using length_dec_digits [of tid 9] assms(4) by simp
  have "client_ready ?s" using assms(1) by (simp add: client_ready_def)
  from exchange_reply [where xs = xs and type = XS_TRANSACTION_START and x = XBT_NIL and parts = "[[0]]" and buf = "Some 16",
      OF this nil_simps(2) _ assms(3), of "dec_digits tid @ [0]" d]
  obtain q where q: "exchange xs True XS_TRANSACTION_START XBT_NIL (Some 16) [[0]] ?s =
      Inr (STATUS_SUCCESS, q, exchanged XS_TRANSACTION_START 0 [0] d ?s)"
      "reply_payload q = Some ?buf" "msg_len (reply_header q) = of_nat (Suc ?n)"
    using assms(2) by auto
  have buf: "?buf = dec_digits tid @ 0 # replicate (15 - ?n) 0" using n by (simp add: reply_of_def overwrite_def)
  have len: "msg_len (reply_header q) - 1 = of_nat ?n" "unat (of_nat ?n :: u32) = ?n" using q(3) n by (simp_all add: unat_of_nat_lt)
  have "unat (msg_len (reply_header q)) = Suc ?n" unfolding q(3) using n by (intro unat_of_nat_lt) simp
  then have lt: "msg_len (reply_header q) < 16" using n by (simp add: word_less_nat_alt)
  have nc: "number_chars (take ?n ?buf) = dec_digits tid" using dec_digits_nonzero [of tid] buf by (auto simp: number_chars_def) (metis last_in_set)
  obtain v err where "strtoll_loop 10 ?buf ?n 0 False = Inr (v, err)" "\<not> err" "unat v = tid"
    using strtoll_loop_ok [of ?n ?buf 10 0] nc number_of_digits [of tid] assms(4) buf by auto
  moreover from this(3) have "v = of_nat tid" by auto
  ultimately have v: "xm_strtoll ?buf ?n 10 = Inr (of_nat tid, False)" by (simp add: xm_strtoll_def)
  have uc: "(ucast (of_nat tid :: u64) :: u32) = of_nat tid" "(of_nat tid :: u64) = ucast (of_nat tid :: u32)"
    using assms(4) by (simp_all add: word_eq_unat unat_ucast_mod unat_of_nat_lt)
  have bl: "\<not> length ?buf \<le> ?n" "?buf ! ?n = 0" using buf n by simp_all
  have tr: "trans (exchanged XS_TRANSACTION_START 0 [0] d ?s) t = Some ?w" by simp
  let ?s2 = "(exchanged XS_TRANSACTION_START 0 [0] d ?s)\<lparr>trans := (trans ?s)(t \<mapsto> ?w\<lparr>trans_id := of_nat tid\<rparr>)\<rparr>"
  have "trans ?s2 t = Some (?w\<lparr>trans_id := of_nat tid\<rparr>)" by simp
  from trans_simps(4) [OF this, of STATUS_SUCCESS] have f: "xenbus_fail_transaction (XBT t) STATUS_SUCCESS ?s2 = Inr ?s2" by simp
  show ?thesis
    using q(1,2) len lt v bl uc f tr
    by (simp add: xenbus_transaction_start_def Let_def) (simp add: exchanged_def)
qed

lemma node_payload: "concat (node_parts p (Some n)) = (p @ 47 # n) @ [0]" "concat (node_parts p (Some n) @ [v]) = (p @ 47 # n) @ 0 # v"
  by (simp_all add: node_parts_def)

lemma get_error_simps:
  "get_error (ascii ''ENOENT'' @ [0]) = Inr STATUS_OBJECT_NAME_NOT_FOUND"
  "get_error (reply_of (Some 16) (ascii ''EAGAIN'' @ [0])) = Inr STATUS_RETRY"
proof -
  have r: "reply_of (Some 16) (ascii ''EAGAIN'' @ [0]) = ascii ''EAGAIN'' @ 0 # replicate 9 0"
    by (simp add: reply_of_def overwrite_def ascii_def)
  show "get_error (ascii ''ENOENT'' @ [0]) = Inr STATUS_OBJECT_NAME_NOT_FOUND" by (simp add: get_error_def xsd_errors_def ascii_def)
  show "get_error (reply_of (Some 16) (ascii ''EAGAIN'' @ [0])) = Inr STATUS_RETRY"
    unfolding r by (simp add: get_error_def xsd_errors_def ascii_def)
qed

lemma read_state_absent:
  assumes "client_ready s" and "trans s t = Some r" and "t_status r = STATUS_SUCCESS"
    and "xs XS_READ (trans_id r) ((p @ 47 # n) @ [0]) (store s) = ((XS_ERROR, ascii ''ENOENT'' @ [0]), d)"
  shows "xenbus_read_state xs True (XBT t) p n s =
    Inr (STATUS_OBJECT_NAME_NOT_FOUND, 0, (exchanged XS_READ (trans_id r) ((p @ 47 # n) @ [0]) d s)
      \<lparr>trans := (trans s)(t \<mapsto> r\<lparr>t_status := STATUS_OBJECT_NAME_NOT_FOUND\<rparr>)\<rparr>)"
proof -
  note t = trans_simps [OF assms(2)]
  let ?s = "exchanged XS_READ (trans_id r) ((p @ 47 # n) @ [0]) d s"
  obtain q where q: "exchange xs True XS_READ (XBT t) None (node_parts p (Some n)) s = Inr (STATUS_OBJECT_NAME_NOT_FOUND, q, ?s)"
    using exchange_error [where xs = xs and type = XS_READ and parts = "node_parts p (Some n)" and buf = None, OF assms(1) t(2), of "ascii ''ENOENT'' @ [0]" d]
      assms(4) get_error_simps(1) by (auto simp: node_payload)
  have "trans ?s t = Some r" using assms(2) by simp
  note f = trans_simps(4) [OF this]
  show ?thesis
    using q t(1) assms(3) f by (simp add: xenbus_read_state_def xenbus_read_int_def xenbus_read_bin_def xenbus_read_bin_no_fail_def)
qed

lemma read_state_present:
  assumes "client_ready s" and "trans s t = Some r" and "t_status r = STATUS_SUCCESS" and "0 < old" and "old \<le> 6"
    and "xs XS_READ (trans_id r) ((p @ 47 # n) @ [0]) (store s) = ((XS_READ, dec_digits old), d)"
  shows "xenbus_read_state xs True (XBT t) p n s = Inr (STATUS_SUCCESS, old, exchanged XS_READ (trans_id r) ((p @ 47 # n) @ [0]) d s)"
proof -
  note t = trans_simps [OF assms(2)]
  let ?s = "exchanged XS_READ (trans_id r) ((p @ 47 # n) @ [0]) d s"
  obtain q where q: "exchange xs True XS_READ (XBT t) None (node_parts p (Some n)) s = Inr (STATUS_SUCCESS, q, ?s)"
      "reply_payload q = Some (dec_digits old)" "msg_len (reply_header q) = of_nat (length (dec_digits old))"
    using exchange_reply [where xs = xs and type = XS_READ and parts = "node_parts p (Some n)" and buf = None and ty = XS_READ, OF assms(1) t(2), of "dec_digits old" d]
      assms(6) by (auto simp: node_payload)
  have "length (dec_digits old) \<le> 1" using length_dec_digits [of old 0] assms(5) by simp
  then have "unat (of_nat (length (dec_digits old)) :: u32) = length (dec_digits old)" by (intro unat_of_nat_lt) simp
  moreover have "unat (of_nat old :: u64) = old" using assms(5) by (intro unat_of_nat_lt) simp
  moreover from this have "\<not> (6 :: u64) < of_nat old" "(of_nat old :: u64) \<noteq> 0" using assms(4,5) by (auto simp: word_less_nat_alt)
  ultimately show ?thesis
    using q t(1) assms(3,5) strtoll_digits [of old]
    by (simp add: xenbus_read_state_def xenbus_read_int_def xenbus_read_bin_def xenbus_read_bin_no_fail_def)
qed

text \<open>C23: Changing a state outside of a transaction does not create the node: when it does not exist, the result says so, the
  local transaction is aborted and freed, and no write is sent.\<close>

theorem change_state_never_creates:
  assumes "client_ready s" and "trans s t = None" and "env m = (Some t, True, fmt)" and "tid < 2 ^ 32"
    and "xs XS_TRANSACTION_START 0 [0] (other m (store s)) = ((XS_TRANSACTION_START, dec_digits tid @ [0]), d1)"
    and "xs XS_READ (of_nat tid) ((p @ 47 # n) @ [0]) d1 = ((XS_ERROR, ascii ''ENOENT'' @ [0]), d2)"
  shows "\<exists>s'. xenbus_change_state xs env other m thread XBT_NIL p n st s = Some (Inr (STATUS_OBJECT_NAME_NOT_FOUND, s')) \<and>
    sent s' = sent s @ [(XS_TRANSACTION_START, 0, [0]), (XS_READ, of_nat tid, (p @ 47 # n) @ [0]), (XS_TRANSACTION_END, of_nat tid, ascii ''F'' @ [0])] \<and>
    trans s' = trans s \<and> head_open_transaction s' = head_open_transaction s"
proof -
  let ?s0 = "s\<lparr>store := other m (store s)\<rparr>"
  let ?r = "\<lparr>t_caller = ''xenbus_change_state'', t_thread = thread, t_status = STATUS_SUCCESS, trans_id = of_nat tid\<rparr>"
  let ?s1 = "(exchanged XS_TRANSACTION_START 0 [0] d1 ?s0)\<lparr>trans := (trans s)(t \<mapsto> ?r), head_open_transaction := t # head_open_transaction s\<rparr>"
  have r0: "client_ready ?s0" using assms(1) by (simp add: client_ready_def)
  have st: "xenbus_transaction_start xs (Some t) ''xenbus_change_state'' thread ?s0 = Inr (STATUS_SUCCESS, XBT t, ?s1)"
    using transaction_start_ok [OF r0 _ _ assms(4), of xs XS_TRANSACTION_START d1] assms(5) by simp
  have r1: "client_ready ?s1" using assms(1) by (simp add: client_ready_def exchanged_def)
  let ?r2 = "?r\<lparr>t_status := STATUS_OBJECT_NAME_NOT_FOUND\<rparr>"
  let ?s2 = "(exchanged XS_READ (of_nat tid) ((p @ 47 # n) @ [0]) d2 ?s1)\<lparr>trans := (trans s)(t \<mapsto> ?r2)\<rparr>"
  have rd: "xenbus_read_state xs True (XBT t) p n ?s1 = Inr (STATUS_OBJECT_NAME_NOT_FOUND, 0, ?s2)"
    using read_state_absent [OF r1, of t ?r xs p n d2] assms(6) by (simp add: exchanged_def)
  have r2: "client_ready ?s2" using assms(1) by (simp add: client_ready_def exchanged_def)
  have t2: "trans ?s2 t = Some ?r2" by simp
  obtain res s' where s': "xenbus_transaction_end xs ''xenbus_change_state'' thread (XBT t) True ?s2 = Inr (res, s')" "trans s' = (trans ?s2)(t := None)"
      "head_open_transaction s' = remove1 t (head_open_transaction ?s2)"
      "sent s' = sent ?s2 @ [(XS_TRANSACTION_END, of_nat tid, ascii ''F'' @ [0])]"
    using transaction_end_ok [where xs = xs and abort = True and caller = "''xenbus_change_state''" and thread = thread, OF r2 t2 _ _ refl] by auto
  have turn: "change_state_turn xs (Some t) True fmt thread XBT_NIL p n st ?s0 = Inr (False, STATUS_OBJECT_NAME_NOT_FOUND, s')"
    unfolding change_state_turn_def using st rd s'(1) by simp
  have "xenbus_change_state xs env other m thread XBT_NIL p n st s = Some (Inr (STATUS_OBJECT_NAME_NOT_FOUND, s'))"
    by (subst xenbus_change_state.simps) (simp only: assms(3) prod.case turn sum.case if_False)
  moreover have "trans s' = trans s" using s'(2) assms(2) by (auto simp: fun_eq_iff)
  moreover have "head_open_transaction s' = head_open_transaction s" using s'(3) by (simp add: exchanged_def)
  moreover have "sent s' = sent s @ [(XS_TRANSACTION_START, 0, [0]), (XS_READ, of_nat tid, (p @ 47 # n) @ [0]),
      (XS_TRANSACTION_END, of_nat tid, ascii ''F'' @ [0])]" using s'(4) by (simp add: exchanged_def)
  ultimately show ?thesis by blast
qed

text \<open>An existing state is replaced in one transaction; when it conflicts with another domain's, the turn is repeated.\<close>

lemma change_state_updates:
  assumes "client_ready s" and "trans s t = None" and "env m = (Some t, True, True)" and "tid < 2 ^ 32" and "0 < old" and "old \<le> 6"
    and "xs XS_TRANSACTION_START 0 [0] (other m (store s)) = ((XS_TRANSACTION_START, dec_digits tid @ [0]), d1)"
    and "xs XS_READ (of_nat tid) ((p @ 47 # n) @ [0]) d1 = ((XS_READ, dec_digits old), d2)"
    and "xs XS_WRITE (of_nat tid) ((p @ 47 # n) @ 0 # dec_digits st) d2 = ((XS_WRITE, reply), d3)"
    and "xs XS_TRANSACTION_END (of_nat tid) (ascii ''T'' @ [0]) d3 = ((ty, answer), d4)"
  shows "\<exists>s'. sent s' = sent s @ [(XS_TRANSACTION_START, 0, [0]), (XS_READ, of_nat tid, (p @ 47 # n) @ [0]),
      (XS_WRITE, of_nat tid, (p @ 47 # n) @ 0 # dec_digits st), (XS_TRANSACTION_END, of_nat tid, ascii ''T'' @ [0])] \<and>
    trans s' = trans s \<and> head_open_transaction s' = head_open_transaction s \<and> store s' = d4 \<and>
    (ty \<noteq> XS_ERROR \<longrightarrow> xenbus_change_state xs env other m thread XBT_NIL p n st s = Some (Inr (STATUS_SUCCESS, s'))) \<and>
    (ty = XS_ERROR \<and> answer = ascii ''EAGAIN'' @ [0] \<longrightarrow>
      xenbus_change_state xs env other m thread XBT_NIL p n st s = xenbus_change_state xs env other (Suc m) thread XBT_NIL p n st s')"
proof -
  let ?s0 = "s\<lparr>store := other m (store s)\<rparr>"
  let ?r = "\<lparr>t_caller = ''xenbus_change_state'', t_thread = thread, t_status = STATUS_SUCCESS, trans_id = of_nat tid\<rparr>"
  let ?s1 = "(exchanged XS_TRANSACTION_START 0 [0] d1 ?s0)\<lparr>trans := (trans s)(t \<mapsto> ?r), head_open_transaction := t # head_open_transaction s\<rparr>"
  let ?s2 = "exchanged XS_READ (of_nat tid) ((p @ 47 # n) @ [0]) d2 ?s1"
  let ?w = "node_parts p (Some n) @ [dec_digits st]"
  let ?s3 = "exchanged XS_WRITE (of_nat tid) (concat ?w) d3 ?s2"
  let ?s4 = "exchanged XS_TRANSACTION_END (of_nat tid) (concat [ascii ''T'' @ [0]]) d4 ?s3"
  have r0: "client_ready ?s0" using assms(1) by (simp add: client_ready_def)
  have st: "xenbus_transaction_start xs (Some t) ''xenbus_change_state'' thread ?s0 = Inr (STATUS_SUCCESS, XBT t, ?s1)"
    using transaction_start_ok [OF r0 _ _ assms(4), of xs XS_TRANSACTION_START d1] assms(7) by simp
  have r1: "client_ready ?s1" using assms(1) by (simp add: client_ready_def exchanged_def)
  have r2: "client_ready ?s2" and r3: "client_ready ?s3" using r1 by simp_all
  have t1: "trans ?s1 t = Some ?r" and t2: "trans ?s2 t = Some ?r" and t3: "trans ?s3 t = Some ?r" by simp_all
  have rd: "xenbus_read_state xs True (XBT t) p n ?s1 = Inr (STATUS_SUCCESS, old, ?s2)"
    using read_state_present [OF r1 t1 _ assms(5,6), of xs p n d2] assms(8) by simp
  have g: "get_transaction_id (XBT t) ?s2 = Inr (of_nat tid)" "get_transaction_id (XBT t) ?s3 = Inr (of_nat tid)"
    using trans_simps(2) [OF t2] trans_simps(2) [OF t3] by simp_all
  have xw: "xs XS_WRITE (of_nat tid) (concat ?w) (store ?s2) = ((XS_WRITE, reply), d3)" using assms(9) by (simp add: node_payload)
  obtain q where q: "exchange xs True XS_WRITE (XBT t) None ?w ?s2 = Inr (STATUS_SUCCESS, q, ?s3)"
    using exchange_reply [where xs = xs and type = XS_WRITE and parts = ?w and buf = None, OF r2 g(1) xw] by auto
  have wr: "xenbus_write_state xs True True (XBT t) p n st ?s2 = Inr (STATUS_SUCCESS, ?s3)"
    using q trans_simps(1) [OF t2] by (simp add: xenbus_write_state_def xenbus_printf_def xenbus_write_bin_def)
  have xe: "xs XS_TRANSACTION_END (of_nat tid) (concat [ascii ''T'' @ [0]]) (store ?s3) = ((ty, answer), d4)" using assms(10) by simp
  obtain q' where q': "exchange xs True XS_TRANSACTION_END (XBT t) (Some 16) [ascii ''T'' @ [0]] ?s3 =
      res_bind (if ty = XS_ERROR then get_error (reply_of (Some 16) answer) else Inr STATUS_SUCCESS) (\<lambda>st. Inr (st, q', ?s4))"
    using exchange_ok [where xs = xs and type = XS_TRANSACTION_END and parts = "[ascii ''T'' @ [0]]" and buf = "Some 16", OF r3 g(2) xe] by auto
  let ?e = "?s4\<lparr>trans := (trans ?s4)(t := None), head_open_transaction := remove1 t (head_open_transaction ?s4)\<rparr>"
  have en: "xenbus_transaction_end xs ''xenbus_change_state'' thread (XBT t) False ?s3 = Inr (if ty = XS_ERROR then STATUS_RETRY else STATUS_SUCCESS, ?e)"
    if "ty \<noteq> XS_ERROR \<or> answer = ascii ''EAGAIN'' @ [0]"
    using that q' trans_simps(3) [OF t3] get_error_simps(2) by (auto simp: xenbus_transaction_end_def Let_def)
  have ok: "NT_SUCCESS STATUS_SUCCESS" by (simp add: NT_SUCCESS_def)
  have turn: "change_state_turn xs (Some t) True True thread XBT_NIL p n st ?s0 =
      Inr (ty = XS_ERROR, if ty = XS_ERROR then STATUS_RETRY else STATUS_SUCCESS, ?e)"
    if "ty \<noteq> XS_ERROR \<or> answer = ascii ''EAGAIN'' @ [0]"
    unfolding change_state_turn_def using st rd wr en [OF that] by (simp add: ok)
  have "xenbus_change_state xs env other m thread XBT_NIL p n st s = Some (Inr (STATUS_SUCCESS, ?e))" if "ty \<noteq> XS_ERROR"
    using turn that by (subst xenbus_change_state.simps) (simp add: assms(3))
  moreover have "xenbus_change_state xs env other m thread XBT_NIL p n st s = xenbus_change_state xs env other (Suc m) thread XBT_NIL p n st ?e"
    if "ty = XS_ERROR \<and> answer = ascii ''EAGAIN'' @ [0]"
    using turn that by (subst xenbus_change_state.simps) (simp add: assms(3))
  moreover have "trans ?e = trans s" using assms(2) by (auto simp: fun_eq_iff)
  moreover have "sent ?e = sent s @ [(XS_TRANSACTION_START, 0, [0]), (XS_READ, of_nat tid, (p @ 47 # n) @ [0]),
      (XS_WRITE, of_nat tid, (p @ 47 # n) @ 0 # dec_digits st), (XS_TRANSACTION_END, of_nat tid, ascii ''T'' @ [0])]"
    by (simp add: exchanged_def node_payload)
  moreover have "head_open_transaction ?e = head_open_transaction s" "store ?e = d4" by (simp_all add: exchanged_def)
  ultimately show ?thesis by blast
qed

section \<open>Resume and errors\<close>

text \<open>After a resume every operation in a transaction that was open says \<^verbatim>\<open>STATUS_RETRY\<close>, or the error it had before.\<close>

lemma resume_aborts:
  assumes "trans s t = Some r" and "t \<in> set (head_open_transaction s)"
  shows "run_xs_ops xs (XBT t) ps (XenbusResumeEarly s) =
    Inr (map (failed_result (if NT_SUCCESS (t_status r) then STATUS_RETRY else t_status r)) ps, XenbusResumeEarly s)"
proof -
  let ?r = "if NT_SUCCESS (t_status r) then r\<lparr>t_status := STATUS_RETRY\<rparr> else r"
  have "trans (XenbusResumeEarly s) t = Some ?r" using assms by (simp add: XenbusResumeEarly_def abort_all_transactions_def Let_def)
  from run_failed [OF this, of xs ps] show ?thesis by (cases "NT_SUCCESS (t_status r)") simp_all
qed

text \<open>\<open>xenbus_read_domain_id\<close> ignores the error flag of the conversion: \<^verbatim>\<open>1x\<close> is domain 20.\<close>

lemma strtoll_1x: "strtoll_loop 10 [49, 120] 2 0 False = Inr (20, True)"
proof -
  have "strtoll_loop 10 [49, 120] (Suc (Suc 0)) 0 False = Inr (20, True)" by (simp add: char_digit_def Let_def)
  then show ?thesis by (simp only: numeral_2_eq_2)
qed

lemma domain_id_accepts_garbage:
  assumes "client_ready s" and "xs XS_READ 0 ((p @ 47 # n) @ [0]) (store s) = ((XS_READ, ascii ''1x''), d)"
  shows "\<exists>s'. xenbus_read_domain_id xs True XBT_NIL p n s = Inr (STATUS_SUCCESS, Some 20, s')"
proof -
  have x: "xs XS_READ 0 (concat (node_parts p (Some n))) (store s) = ((XS_READ, ascii ''1x''), d)" using assms(2) by (simp add: node_payload)
  obtain q s' where q: "exchange xs True XS_READ XBT_NIL None (node_parts p (Some n)) s = Inr (STATUS_SUCCESS, q, s')"
      "reply_payload q = Some (ascii ''1x'')" "msg_len (reply_header q) = of_nat (length (ascii ''1x''))"
    using exchange_reply [where buf = None and xs = xs and x = XBT_NIL, OF assms(1) nil_simps(2) x] by auto
  have u: "unat (msg_len (reply_header q)) = 2" using q(3) by (simp add: ascii_def)
  have "strtoll_opt (Some (ascii ''1x'')) 2 10 = Inr (20, True)"
    using strtoll_1x by (simp add: strtoll_opt_def xm_strtoll_def ascii_def)
  then show ?thesis
    using q u by (simp add: xenbus_read_domain_id_def xenbus_read_bin_def xenbus_read_bin_no_fail_def)
qed

section \<open>Instances\<close>

text \<open>A store in which every transaction has the number 5 and is committed at once.\<close>

definition demo_xs :: "(u8 list \<Rightarrow> u8 list option) xenstored" where
  "demo_xs type tid pl d =
     (let p = takeWhile (\<lambda>c. c \<noteq> 0) pl; v = drop (Suc (length p)) pl
      in if type = XS_WRITE then if length v < 2 ^ 32 then ((XS_WRITE, ascii ''OK'' @ [0]), d(p \<mapsto> v)) else ((XS_ERROR, ascii ''E2BIG'' @ [0]), d)
         else if type = XS_READ then (case d p of
           Some v \<Rightarrow> if length v < 2 ^ 32 then ((XS_READ, v), d) else ((XS_ERROR, ascii ''EIO'' @ [0]), d)
         | None \<Rightarrow> ((XS_ERROR, ascii ''ENOENT'' @ [0]), d))
         else if type = XS_TRANSACTION_START then ((XS_TRANSACTION_START, dec_digits 5 @ [0]), d)
         else if type = XS_DIRECTORY then ((XS_DIRECTORY, []), d)
         else ((XS_RM, ascii ''OK'' @ [0]), d))"

lemma demo_xs_wf: "xs_wf demo_xs"
proof -
  have "length (dec_digits 5) \<le> 1" using length_dec_digits [of 5 0] by simp
  then show ?thesis by (auto simp: xs_wf_def demo_xs_def Let_def ascii_def split: option.split)
qed

lemma demo_xs_reads_writes: "xs_reads_writes demo_xs"
proof -
  have "takeWhile (\<lambda>c. c \<noteq> 0) (p @ 0 # v) = p" if "0 \<notin> set p" for p v :: "u8 list" using that by (subst takeWhile_append2) auto
  then show ?thesis by (auto simp: xs_reads_writes_def demo_xs_def Let_def split: if_splits)
qed

definition demo_client :: "(u8 list \<Rightarrow> u8 list option) client" where
  "demo_client = \<lparr>bus = one_request, trans = [1 \<mapsto> \<lparr>t_caller = ''demo'', t_thread = 7, t_status = STATUS_SUCCESS, trans_id = 5\<rparr>],
     head_open_transaction = [1], sent = [], store = Map.empty, no_paravirt = False\<rparr>"

lemma demo_ready: "client_ready demo_client"
  by (simp add: client_ready_def demo_client_def one_request_def xenbus_init_def)

theorem xm_strtoll_correct_witness:
  "\<exists>r err. xm_strtoll [52, 50, 0] 3 10 = Inr (r, err) \<and> (\<not> err) = (\<exists>v<2 ^ 64. number_of 10 0 [52, 50] = Some v)"
  using xm_strtoll_correct [of 10 3 "[52, 50, 0]"] by (simp add: number_chars_def) blast


theorem xenbus_int_roundtrip_witness:
  "\<exists>s1 s2. xenbus_printf demo_xs True XBT_NIL [97] [98] (Some (dec_digits 42)) demo_client = Inr (STATUS_SUCCESS, s1) \<and>
     xenbus_read_int demo_xs True XBT_NIL [97] [98] s1 = Inr (STATUS_SUCCESS, 42, s2)"
proof -
  have l: "length (dec_digits 42) \<le> 2" using length_dec_digits [of 42 1] by simp
  let ?d = "(store demo_client)([97, 47, 98] \<mapsto> dec_digits 42)"
  have "demo_xs XS_WRITE 0 (([97] @ 47 # [98]) @ 0 # dec_digits 42) (store demo_client) = ((XS_WRITE, ascii ''OK'' @ [0]), ?d)"
    using l by (simp add: demo_xs_def)
  from xenbus_int_roundtrip [OF demo_xs_reads_writes demo_ready _ _ this] show ?thesis by simp
qed

theorem change_state_never_creates_witness:
  "\<exists>s'. xenbus_change_state demo_xs (\<lambda>_. (Some 2, True, True)) (\<lambda>_ d. d) 0 7 XBT_NIL [97] [98] 4 demo_client =
     Some (Inr (STATUS_OBJECT_NAME_NOT_FOUND, s')) \<and>
     sent s' = [(XS_TRANSACTION_START, 0, [0]), (XS_READ, 5, [97, 47, 98, 0]), (XS_TRANSACTION_END, 5, [70, 0])]"
  using change_state_never_creates [OF demo_ready, of 2 "\<lambda>_. (Some 2, True, True)" 0 True 5 demo_xs "\<lambda>_ d. d" Map.empty "[97]" "[98]" Map.empty 7 4]
  by (simp add: demo_xs_def demo_client_def ascii_def) blast

end
